(* ===== verification/Prelude.thy ===== *)
theory Prelude
  imports Complex_Main "HOL-Library.AList" "HOL-Library.Product_Lexorder"
begin

text \<open>
  What the TypeScript sources use of the JavaScript language and of its standard library,
  shared by every component.

  \<^item> Numbers. A JavaScript number is \<open>NaN\<close>, an infinity or a finite value; finite values
    are exact rationals here (the rounding of IEEE doubles is not modelled, every computation
    of the sources on times, ports, counters and identifiers stays within 53 bits).
  \<^item> Strings are lists of code units below 256 (Latin-1), on which \<open>trim\<close> and
    \<open>toLowerCase\<close> are exact.
  \<^item> Values of TypeScript type \<open>unknown\<close> that are read as numbers are the scalars of
    \<open>jsval\<close>; \<open>to_number\<close> is the conversion \<open>Number(value)\<close>.
  \<^item> A \<open>Map\<close> is an association list in insertion order with distinct keys: \<open>set\<close> on a
    present key keeps its position (\<open>AList.update\<close>), \<open>delete\<close> removes it.
  \<^item> \<open>Date.now()\<close> and \<open>Math.random()\<close> are arguments of the operations that call them.
\<close>

section \<open>Numbers\<close>

datatype jsnum = NaN | PosInf | NegInf | Fin rat

abbreviation num :: "int \<Rightarrow> jsnum" where
  "num i \<equiv> Fin (of_int i)"

text \<open>\<open>Number.isInteger\<close>, returning the integer.\<close>

fun js_integer :: "jsnum \<Rightarrow> int option" where
  "js_integer (Fin q) = (if of_int \<lfloor>q\<rfloor> = q then Some \<lfloor>q\<rfloor> else None)"
| "js_integer _ = None"

fun js_finite :: "jsnum \<Rightarrow> rat option" where
  "js_finite (Fin q) = Some q"
| "js_finite _ = None"

definition MAX_SAFE_INTEGER :: int where
  "MAX_SAFE_INTEGER = 9007199254740991"

text \<open>\<open>Number.isSafeInteger(n) && n > 0\<close>, returning the integer.\<close>

definition safe_positive :: "jsnum \<Rightarrow> int option" where
  "safe_positive n = (case js_integer n of
     Some i \<Rightarrow> if 0 < i \<and> i \<le> MAX_SAFE_INTEGER then Some i else None | None \<Rightarrow> None)"

lemma js_integer_num [simp]: "js_integer (num i) = Some i"
  by simp

lemma js_integer_SomeD: "js_integer n = Some i \<Longrightarrow> n = num i"
  by (cases n) (auto split: if_splits)

lemma js_integer_iff: "js_integer n = Some i \<longleftrightarrow> n = num i"
  by (auto dest: js_integer_SomeD)

text \<open>Arithmetic and comparison as the operators of the language do them; \<open>NaN\<close> absorbs.\<close>

fun js_add :: "jsnum \<Rightarrow> jsnum \<Rightarrow> jsnum" where
  "js_add (Fin a) (Fin b) = Fin (a + b)"
| "js_add (Fin a) n = n"
| "js_add PosInf NegInf = NaN"
| "js_add NegInf PosInf = NaN"
| "js_add NaN n = NaN"
| "js_add n NaN = NaN"
| "js_add n _ = n"

fun js_le :: "jsnum \<Rightarrow> jsnum \<Rightarrow> bool" where
  "js_le NaN _ = False"
| "js_le _ NaN = False"
| "js_le NegInf _ = True"
| "js_le _ PosInf = True"
| "js_le (Fin a) (Fin b) = (a \<le> b)"
| "js_le _ _ = False"

definition js_lt :: "jsnum \<Rightarrow> jsnum \<Rightarrow> bool" where
  "js_lt a b \<longleftrightarrow> js_le a b \<and> \<not> js_le b a"

definition js_max :: "jsnum \<Rightarrow> jsnum \<Rightarrow> jsnum" where
  "js_max a b = (if a = NaN \<or> b = NaN then NaN else if js_le a b then b else a)"

definition js_min :: "jsnum \<Rightarrow> jsnum \<Rightarrow> jsnum" where
  "js_min a b = (if a = NaN \<or> b = NaN then NaN else if js_le a b then a else b)"

lemma js_lt_Fin [simp]: "js_lt (Fin a) (Fin b) \<longleftrightarrow> a < b"
  by (auto simp: js_lt_def)

lemma js_max_Fin [simp]: "js_max (Fin a) (Fin b) = Fin (max a b)"
  by (simp add: js_max_def max_def)

lemma js_min_Fin [simp]: "js_min (Fin a) (Fin b) = Fin (min a b)"
  by (simp add: js_min_def min_def)

lemma js_finite_iff: "js_finite n = Some q \<longleftrightarrow> n = Fin q"
  by (cases n) auto

section \<open>Strings\<close>

abbreviation char_code :: "char \<Rightarrow> nat" where
  "char_code c \<equiv> of_char c"

text \<open>White space and line terminators below 256, as \<open>trim\<close> and \<open>Number\<close> strip them.\<close>

definition js_space :: "char \<Rightarrow> bool" where
  "js_space c \<longleftrightarrow> char_code c \<in> set [9, 10, 11, 12, 13, 32, 160]"

definition js_trim :: "string \<Rightarrow> string" where
  "js_trim s = rev (dropWhile js_space (rev (dropWhile js_space s)))"

definition js_lower_char :: "char \<Rightarrow> char" where
  "js_lower_char c =
     (let n = char_code c in
      if (65 \<le> n \<and> n \<le> 90) \<or> (192 \<le> n \<and> n \<le> 222 \<and> n \<noteq> 215) then char_of (n + 32) else c)"

definition js_lower :: "string \<Rightarrow> string" where
  "js_lower s = map js_lower_char s"

text \<open>
  \<open>toUpperCase\<close> on Latin-1; the two letters whose capitals are not in Latin-1 are left as they are.
\<close>

definition js_upper_char :: "char \<Rightarrow> string" where
  "js_upper_char c =
     (let n = char_code c in
      if n = 223 then ''SS''
      else if (97 \<le> n \<and> n \<le> 122) \<or> (224 \<le> n \<and> n \<le> 254 \<and> n \<noteq> 247) then [char_of (n - 32)] else [c])"

definition js_upper :: "string \<Rightarrow> string" where
  "js_upper s = concat (map js_upper_char s)"

text \<open>\<open>text.split(sep)\<close> for a separator of one character; the result is never empty.\<close>

fun js_split :: "char \<Rightarrow> string \<Rightarrow> string list" where
  "js_split sep [] = [[]]"
| "js_split sep (c # cs) =
     (if c = sep then [] # js_split sep cs
      else case js_split sep cs of [] \<Rightarrow> [[c]] | w # ws \<Rightarrow> (c # w) # ws)"

fun js_join :: "string \<Rightarrow> string list \<Rightarrow> string" where
  "js_join sep [] = []"
| "js_join sep [w] = w"
| "js_join sep (w # ws) = w @ sep @ js_join sep ws"

lemma js_split_nonempty [simp]: "js_split sep s \<noteq> []"
  by (induction s) (auto split: list.splits)

lemma js_split_no_sep: "sep \<notin> set w \<Longrightarrow> js_split sep w = [w]"
  by (induction w) auto

lemma js_split_append: "sep \<notin> set w \<Longrightarrow> js_split sep (w @ sep # s) = w # js_split sep s"
  by (induction w) auto

lemma js_split_join:
  "ws \<noteq> [] \<Longrightarrow> (\<forall>w \<in> set ws. sep \<notin> set w) \<Longrightarrow> js_split sep (js_join [sep] ws) = ws"
  by (induction "[sep]" ws rule: js_join.induct) (auto simp: js_split_no_sep js_split_append)

section \<open>Decimal notation\<close>

definition digit_char :: "nat \<Rightarrow> char" where
  "digit_char d = char_of (48 + d)"

fun nat_str :: "nat \<Rightarrow> string" where
  "nat_str n = (if n < 10 then [digit_char n] else nat_str (n div 10) @ [digit_char (n mod 10)])"

declare nat_str.simps [simp del]

definition int_str :: "int \<Rightarrow> string" where
  "int_str i = (if i < 0 then CHR ''-'' # nat_str (nat (- i)) else nat_str (nat i))"

definition is_digit :: "char \<Rightarrow> bool" where
  "is_digit c \<longleftrightarrow> 48 \<le> char_code c \<and> char_code c \<le> 57"

definition digit_val :: "char \<Rightarrow> nat" where
  "digit_val c = char_code c - 48"

definition digits_val :: "string \<Rightarrow> nat" where
  "digits_val s = foldl (\<lambda>acc c. 10 * acc + digit_val c) 0 s"

lemma is_digit_digit_char [simp]: "d < 10 \<Longrightarrow> is_digit (digit_char d)"
  by (simp add: is_digit_def digit_char_def)

lemma digit_val_digit_char [simp]: "d < 10 \<Longrightarrow> digit_val (digit_char d) = d"
  by (simp add: digit_val_def digit_char_def)

lemma nat_str_digits: "\<forall>c \<in> set (nat_str n). is_digit c"
proof (induction n rule: nat_str.induct)
  case (1 n)
  then show ?case by (subst nat_str.simps) auto
qed

lemma nat_str_nonempty [simp]: "nat_str n \<noteq> []"
  by (subst nat_str.simps) auto

lemma digits_val_snoc [simp]: "digits_val (s @ [c]) = 10 * digits_val s + digit_val c"
  by (simp add: digits_val_def)

lemma digits_val_nat_str [simp]: "digits_val (nat_str n) = n"
proof (induction n rule: nat_str.induct)
  case (1 n)
  show ?case
  proof (cases "n < 10")
    case True
    then have "nat_str n = [] @ [digit_char n]" by (subst nat_str.simps) simp
    then have "digits_val (nat_str n) = 10 * digits_val [] + digit_val (digit_char n)"
      by (simp only: digits_val_snoc)
    with True show ?thesis by (simp add: digits_val_def)
  next
    case False
    with "1.IH" have "digits_val (nat_str (n div 10)) = n div 10" by simp
    with False show ?thesis by (subst nat_str.simps) simp
  qed
qed

lemma nat_str_inj: "nat_str m = nat_str n \<longleftrightarrow> m = n"
  by (metis digits_val_nat_str)

lemma nat_str_no_char: "\<not> is_digit c \<Longrightarrow> c \<notin> set (nat_str n)"
  using nat_str_digits by blast

lemma digit_not_space: "is_digit c \<Longrightarrow> \<not> js_space c"
  by (auto simp: is_digit_def js_space_def)

lemma js_trim_no_space: "(\<forall>c \<in> set s. \<not> js_space c) \<Longrightarrow> js_trim s = s"
proof -
  assume a: "\<forall>c \<in> set s. \<not> js_space c"
  then have "dropWhile js_space s = s" by (cases s) auto
  moreover from a have "dropWhile js_space (rev s) = rev s"
    by (cases "rev s") (auto dest!: arg_cong [where f = set])
  ultimately show ?thesis by (simp add: js_trim_def)
qed

lemma js_trim_nat_str [simp]: "js_trim (nat_str n) = nat_str n"
  using nat_str_digits digit_not_space by (blast intro: js_trim_no_space)

section \<open>The conversion \<open>Number(value)\<close>\<close>

datatype jsval = JUndef | JNull | JBool bool | JNum jsnum | JStr string

definition radix_digit :: "nat \<Rightarrow> char \<Rightarrow> nat option" where
  "radix_digit base c =
     (let n = char_code c;
          d = (if 48 \<le> n \<and> n \<le> 57 then n - 48
               else if 65 \<le> n \<and> n \<le> 90 then n - 55
               else if 97 \<le> n \<and> n \<le> 122 then n - 87 else 99)
      in if d < base then Some d else None)"

fun radix_val :: "nat \<Rightarrow> nat \<Rightarrow> string \<Rightarrow> nat option" where
  "radix_val base acc [] = Some acc"
| "radix_val base acc (c # cs) =
     (case radix_digit base c of None \<Rightarrow> None | Some d \<Rightarrow> radix_val base (base * acc + d) cs)"

definition radix_number :: "nat \<Rightarrow> string \<Rightarrow> jsnum" where
  "radix_number base s =
     (if s = [] then NaN
      else case radix_val base 0 s of None \<Rightarrow> NaN | Some n \<Rightarrow> Fin (of_nat n))"

definition exponent_val :: "string \<Rightarrow> int option" where
  "exponent_val s =
     (let neg = (s \<noteq> [] \<and> hd s = CHR ''-'');
          ds = (if s \<noteq> [] \<and> (hd s = CHR ''-'' \<or> hd s = CHR ''+'') then tl s else s)
      in if ds \<noteq> [] \<and> list_all is_digit ds
         then Some (if neg then - int (digits_val ds) else int (digits_val ds)) else None)"

definition scale10 :: "rat \<Rightarrow> int \<Rightarrow> rat" where
  "scale10 q e = (if 0 \<le> e then q * 10 ^ nat e else q / 10 ^ nat (- e))"

text \<open>An unsigned decimal literal: \<open>12\<close>, \<open>1.5\<close>, \<open>.5\<close>, \<open>2e3\<close> or \<open>Infinity\<close>.\<close>

definition unsigned_number :: "string \<Rightarrow> jsnum" where
  "unsigned_number t =
     (if t = ''Infinity'' then PosInf
      else
        let ip = takeWhile is_digit t;
            r1 = dropWhile is_digit t;
            dot = (r1 \<noteq> [] \<and> hd r1 = CHR ''.'');
            fp = (if dot then takeWhile is_digit (tl r1) else []);
            r2 = (if dot then dropWhile is_digit (tl r1) else r1);
            q = of_nat (digits_val (ip @ fp)) / 10 ^ length fp
        in if ip = [] \<and> fp = [] then NaN
           else case r2 of
               [] \<Rightarrow> Fin q
             | e # r \<Rightarrow>
                 (if e = CHR ''e'' \<or> e = CHR ''E''
                  then case exponent_val r of None \<Rightarrow> NaN | Some x \<Rightarrow> Fin (scale10 q x)
                  else NaN))"

fun js_neg :: "jsnum \<Rightarrow> jsnum" where
  "js_neg (Fin q) = Fin (- q)"
| "js_neg PosInf = NegInf"
| "js_neg NegInf = PosInf"
| "js_neg NaN = NaN"

definition string_number :: "string \<Rightarrow> jsnum" where
  "string_number s =
     (let t = js_trim s in
      case t of
        [] \<Rightarrow> Fin 0
      | [c] \<Rightarrow> unsigned_number t
      | c # x # r \<Rightarrow>
          (if c = CHR ''0'' \<and> (x = CHR ''x'' \<or> x = CHR ''X'') then radix_number 16 r
           else if c = CHR ''0'' \<and> (x = CHR ''o'' \<or> x = CHR ''O'') then radix_number 8 r
           else if c = CHR ''0'' \<and> (x = CHR ''b'' \<or> x = CHR ''B'') then radix_number 2 r
           else if c = CHR ''-'' then js_neg (unsigned_number (x # r))
           else if c = CHR ''+'' then unsigned_number (x # r)
           else unsigned_number t))"

fun to_number :: "jsval \<Rightarrow> jsnum" where
  "to_number JUndef = NaN"
| "to_number JNull = Fin 0"
| "to_number (JBool b) = (if b then Fin 1 else Fin 0)"
| "to_number (JNum n) = n"
| "to_number (JStr s) = string_number s"

text \<open>
  \<open>String(value)\<close>. The digits of a fractional number are not modelled: its text is the word
  \<open>?.?\<close>.
\<close>

definition js_string :: "jsval \<Rightarrow> string" where
  "js_string v =
     (case v of
        JStr s \<Rightarrow> s
      | JUndef \<Rightarrow> ''undefined''
      | JNull \<Rightarrow> ''null''
      | JBool b \<Rightarrow> (if b then ''true'' else ''false'')
      | JNum n \<Rightarrow>
          (case n of
             NaN \<Rightarrow> ''NaN''
           | PosInf \<Rightarrow> ''Infinity''
           | NegInf \<Rightarrow> ''-Infinity''
           | Fin q \<Rightarrow> (case js_integer n of Some i \<Rightarrow> int_str i | None \<Rightarrow> ''?.?'')))"

fun js_truthy :: "jsval \<Rightarrow> bool" where
  "js_truthy JUndef = False"
| "js_truthy JNull = False"
| "js_truthy (JBool b) = b"
| "js_truthy (JNum n) = (n \<noteq> NaN \<and> n \<noteq> Fin 0)"
| "js_truthy (JStr s) = (s \<noteq> [])"

text \<open>\<open>String(value || "")\<close>.\<close>

definition js_text :: "jsval \<Rightarrow> string" where
  "js_text v = (if js_truthy v then js_string v else [])"

text \<open>\<open>Math.max(1, Math.floor(Number(value) || 1))\<close>; an infinite value is the number \<open>None\<close>.\<close>

definition positive_floor :: "jsval \<Rightarrow> int option" where
  "positive_floor value =
     (case to_number value of
        Fin q \<Rightarrow> Some (max 1 (if q = 0 then 1 else \<lfloor>q\<rfloor>))
      | NaN \<Rightarrow> Some 1
      | NegInf \<Rightarrow> Some 1
      | PosInf \<Rightarrow> None)"

text \<open>The check \<open>Number.isInteger(n) && n > 0\<close> that guards every identifier.\<close>

definition positive_int :: "jsnum \<Rightarrow> int option" where
  "positive_int n = (case js_integer n of Some i \<Rightarrow> if 0 < i then Some i else None | None \<Rightarrow> None)"

definition id_of :: "jsval \<Rightarrow> int option" where
  "id_of v = positive_int (to_number v)"

lemma positive_int_num [simp]: "positive_int (num i) = (if 0 < i then Some i else None)"
  by (simp add: positive_int_def)

lemma positive_int_SomeD: "positive_int n = Some i \<Longrightarrow> 0 < i \<and> n = num i"
  by (auto simp: positive_int_def js_integer_iff split: option.splits if_splits)

lemma id_of_SomeD: "id_of v = Some i \<Longrightarrow> 0 < i \<and> to_number v = num i"
  by (simp add: id_of_def positive_int_SomeD)

lemma id_of_num [simp]: "id_of (JNum (num i)) = (if 0 < i then Some i else None)"
  by (simp add: id_of_def)

lemma takeWhile_digits_nat_str [simp]: "takeWhile is_digit (nat_str n) = nat_str n"
  using nat_str_digits [of n] by (simp add: takeWhile_eq_all_conv)

lemma dropWhile_digits_nat_str [simp]: "dropWhile is_digit (nat_str n) = []"
  using nat_str_digits [of n] by (simp add: dropWhile_eq_Nil_conv)

lemma nat_str_not_Infinity: "nat_str n \<noteq> ''Infinity''"
proof
  assume "nat_str n = ''Infinity''"
  then have "CHR ''I'' \<in> set (nat_str n)" by simp
  with nat_str_digits [of n] have "is_digit (CHR ''I'')" by blast
  then show False by (simp add: is_digit_def)
qed

lemma unsigned_number_nat_str [simp]: "unsigned_number (nat_str n) = Fin (of_nat n)"
  by (simp add: unsigned_number_def nat_str_not_Infinity Let_def)

text \<open>Reading back the decimal notation of a natural number.\<close>

lemma string_number_nat_str [simp]: "string_number (nat_str n) = Fin (of_nat n)"
proof (cases "nat_str n")
  case Nil
  then show ?thesis by simp
next
  case (Cons c cs)
  note first = Cons
  show ?thesis
  proof (cases cs)
    case Nil
    have "string_number (nat_str n) = unsigned_number (nat_str n)"
      by (simp only: string_number_def js_trim_nat_str Let_def) (simp add: first Nil)
    then show ?thesis by simp
  next
    case (Cons x r)
    have c: "is_digit c" and x: "is_digit x"
      using nat_str_digits [of n] first Cons by auto
    then have "c \<noteq> CHR ''-''" "c \<noteq> CHR ''+''" "x \<noteq> CHR ''x''" "x \<noteq> CHR ''X''"
      "x \<noteq> CHR ''o''" "x \<noteq> CHR ''O''" "x \<noteq> CHR ''b''" "x \<noteq> CHR ''B''"
      by (auto simp: is_digit_def)
    then have "string_number (nat_str n) = unsigned_number (nat_str n)"
      by (simp only: string_number_def js_trim_nat_str Let_def) (simp add: first Cons)
    then show ?thesis by simp
  qed
qed

section \<open>Maps\<close>

type_synonym ('k, 'v) jsmap = "('k \<times> 'v) list"

definition wf_map :: "('k, 'v) jsmap \<Rightarrow> bool" where
  "wf_map m \<longleftrightarrow> distinct (map fst m)"

abbreviation map_get :: "('k, 'v) jsmap \<Rightarrow> 'k \<Rightarrow> 'v option" where
  "map_get m k \<equiv> map_of m k"

definition map_has :: "('k, 'v) jsmap \<Rightarrow> 'k \<Rightarrow> bool" where
  "map_has m k \<longleftrightarrow> map_get m k \<noteq> None"

abbreviation map_set :: "'k \<Rightarrow> 'v \<Rightarrow> ('k, 'v) jsmap \<Rightarrow> ('k, 'v) jsmap" where
  "map_set k v m \<equiv> AList.update k v m"

abbreviation map_delete :: "'k \<Rightarrow> ('k, 'v) jsmap \<Rightarrow> ('k, 'v) jsmap" where
  "map_delete k m \<equiv> AList.delete k m"

lemma wf_map_Nil [simp]: "wf_map []"
  by (simp add: wf_map_def)

lemma wf_map_set [simp]: "wf_map m \<Longrightarrow> wf_map (map_set k v m)"
  by (simp add: wf_map_def distinct_update)

lemma wf_map_delete [simp]: "wf_map m \<Longrightarrow> wf_map (map_delete k m)"
  by (simp add: wf_map_def distinct_delete)

lemma wf_map_filter [simp]: "wf_map m \<Longrightarrow> wf_map (filter P m)"
  by (simp add: wf_map_def distinct_map_filter)

lemma wf_map_tl [simp]: "wf_map m \<Longrightarrow> wf_map (tl m)"
  by (cases m) (auto simp: wf_map_def)

lemma map_get_set: "map_get (map_set k v m) k' = (if k' = k then Some v else map_get m k')"
  by (simp add: update_conv')

lemma map_get_delete: "map_get (map_delete k m) k' = (if k' = k then None else map_get m k')"
  by (simp add: delete_conv')

lemma map_has_keys: "map_has m k \<longleftrightarrow> k \<in> fst ` set m"
  by (metis map_has_def map_of_eq_None_iff)

lemma map_has_Nil [simp]: "\<not> map_has [] k"
  by (simp add: map_has_def)

lemma map_has_Cons [simp]: "map_has ((k', v) # m) k \<longleftrightarrow> k = k' \<or> map_has m k"
  by (auto simp: map_has_def)

lemma map_has_set [simp]: "map_has (map_set k v m) k' \<longleftrightarrow> k' = k \<or> map_has m k'"
  by (simp add: map_has_def map_get_set)

lemma map_has_delete [simp]: "map_has (map_delete k m) k' \<longleftrightarrow> k' \<noteq> k \<and> map_has m k'"
  by (simp add: map_has_def map_get_delete)

lemma map_delete_absent [simp]: "\<not> map_has m k \<Longrightarrow> map_delete k m = m"
  by (simp add: map_has_keys)

lemma map_get_filter:
  "wf_map m \<Longrightarrow> map_get (filter P m) k =
     (case map_get m k of None \<Rightarrow> None | Some v \<Rightarrow> if P (k, v) then Some v else None)"
  by (induction m) (auto simp: wf_map_def map_of_eq_None_iff image_iff split: option.splits)

lemma map_get_in: "wf_map m \<Longrightarrow> (k, v) \<in> set m \<longleftrightarrow> map_get m k = Some v"
  by (simp add: wf_map_def)

lemma map_get_inD: "map_get m k = Some v \<Longrightarrow> (k, v) \<in> set m"
  by (rule map_of_SomeD)

lemma map_set_new: "\<not> map_has m k \<Longrightarrow> map_set k v m = m @ [(k, v)]"
  by (induction m) (auto simp: map_has_keys)

lemma length_map_set:
  "length (map_set k v m) = (if map_has m k then length m else Suc (length m))"
  by (induction m) (auto simp: map_has_keys)

lemma length_map_delete_le: "length (map_delete k m) \<le> length m"
  by (simp add: length_delete_le)

lemma length_map_delete_has:
  "wf_map m \<Longrightarrow> map_has m k \<Longrightarrow> Suc (length (map_delete k m)) = length m"
proof (induction m)
  case Nil
  then show ?case by simp
next
  case (Cons p m)
  show ?case
  proof (cases "fst p = k")
    case True
    with Cons.prems have "\<not> map_has m k" by (auto simp: wf_map_def map_has_keys)
    then have "map_delete k m = m" by simp
    with True show ?thesis by (cases p) (simp add: AList.delete_eq)
  next
    case False
    with Cons show ?thesis by (cases p) (auto simp: wf_map_def AList.delete_eq map_has_keys)
  qed
qed

lemma set_map_set: "set (map_set k v m) \<subseteq> insert (k, v) (set m)"
  by (induction m) auto

lemma set_map_delete: "set (map_delete k m) \<subseteq> set m"
  by (auto simp: AList.delete_eq)

lemma map_set_same: "map_get m k = Some v \<Longrightarrow> map_set k v m = m"
  by (induction m) (auto split: if_splits)

lemma map_set_twice [simp]: "map_set k v (map_set k w m) = map_set k v m"
  by (induction m) auto

lemma map_get_delete_fun: "map_get (map_delete k m) = (map_get m)(k := None)"
  by (auto simp: map_get_delete)

lemma map_get_set_fun: "map_get (map_set k v m) = (map_get m)(k := Some v)"
  by (auto simp: map_get_set)

section \<open>Sets\<close>

text \<open>A \<open>Set\<close> is a list of distinct elements in insertion order.\<close>

definition set_add :: "'a \<Rightarrow> 'a list \<Rightarrow> 'a list" where
  "set_add x xs = (if x \<in> set xs then xs else xs @ [x])"

lemma set_set_add [simp]: "set (set_add x xs) = insert x (set xs)"
  by (auto simp: set_add_def)

lemma distinct_set_add [simp]: "distinct (set_add x xs) \<longleftrightarrow> distinct xs"
  by (auto simp: set_add_def)

lemma set_fold_set_add: "set (fold set_add ys xs) = set xs \<union> set ys"
  by (induction ys arbitrary: xs) auto

lemma distinct_fold_set_add [simp]: "distinct (fold set_add ys xs) \<longleftrightarrow> distinct xs"
  by (induction ys arbitrary: xs) auto

lemma length_set_add: "length (set_add x xs) = (if x \<in> set xs then length xs else Suc (length xs))"
  by (simp add: set_add_def)

text \<open>\<open>delete\<close> on a \<open>Set\<close>, and on an array without duplicates.\<close>

lemma set_remove1_distinct: "distinct xs \<Longrightarrow> set (remove1 x xs) = set xs - {x}"
  by simp

lemma dropWhile_subset: "set (dropWhile P xs) \<subseteq> set xs"
  by (meson set_dropWhileD subsetI)

end
