(* ===== verification/Port_Policy.thy ===== *)
theory Port_Policy
  imports Prelude
begin

text \<open>
  Port policies, \<open>server/portPolicy.ts\<close>: which ports a host, a user or a tunnel may use. A
  policy is a primary range, further ranges and single ports; policies are combined by
  intersection. The \<open>WeakSet normalizedPolicies\<close> that remembers which policy objects were
  built by this module (and may be searched by bisection) is the field \<open>normalized\<close>.
  \<open>Math.random()\<close> is the argument \<open>rnd\<close>, a rational in \<open>[0, 1)\<close>.
\<close>

section \<open>Data\<close>

type_synonym interval = "int \<times> int"

record port_policy_source =
  portRangeStart :: jsval
  portRangeEnd :: jsval
  portAllowlist :: "string option"
  portRanges :: "(jsval \<times> jsval) list option"

record port_policy =
  rangeStart :: "int option"
  rangeEnd :: "int option"
  allowlist :: "int list"
  ranges :: "interval list option"
  denyAll :: bool
  normalized :: bool

datatype policy_description = NoPortAvailable | Unrestricted | Allowed string

section \<open>Operations\<close>

text \<open>The \<open>flatMap\<close> of \<open>normalizeIntervals\<close>: round inwards and clip to \<open>1..65535\<close>.\<close>

definition clip_interval :: "jsnum \<times> jsnum \<Rightarrow> interval list" where
  "clip_interval r =
     (case (js_finite (fst r), js_finite (snd r)) of
        (Some a, Some b) \<Rightarrow>
          (let start = max 1 \<lceil>a\<rceil>; end' = min 65535 \<lfloor>b\<rfloor>
           in if start \<le> end' then [(start, end')] else [])
      | _ \<Rightarrow> [])"

text \<open>The merging loop: a range that starts at most one port after the last one extends it.\<close>

fun merge_sorted :: "interval list \<Rightarrow> interval list" where
  "merge_sorted [] = []"
| "merge_sorted [r] = [r]"
| "merge_sorted ((s1, e1) # (s2, e2) # rs) =
     (if s2 \<le> e1 + 1 then merge_sorted ((s1, max e1 e2) # rs)
      else (s1, e1) # merge_sorted ((s2, e2) # rs))"

definition normalizeIntervals :: "(jsnum \<times> jsnum) list \<Rightarrow> interval list" where
  "normalizeIntervals intervals = merge_sorted (sort (concat (map clip_interval intervals)))"

definition num_interval :: "interval \<Rightarrow> jsnum \<times> jsnum" where
  "num_interval r = (num (fst r), num (snd r))"

definition policyIntervals :: "port_policy \<Rightarrow> interval list" where
  "policyIntervals policy =
     (if denyAll policy then []
      else normalizeIntervals (map num_interval
        ((case (rangeStart policy, rangeEnd policy) of (Some s, Some e) \<Rightarrow> [(s, e)] | _ \<Rightarrow> [])
         @ (case ranges policy of None \<Rightarrow> [] | Some rs \<Rightarrow> rs)
         @ map (\<lambda>port. (port, port)) (allowlist policy))))"

text \<open>The two-pointer loop; the indices are the heads of the remaining lists.\<close>

fun intersectIntervals :: "interval list \<Rightarrow> interval list \<Rightarrow> interval list" where
  "intersectIntervals [] right = []"
| "intersectIntervals left [] = []"
| "intersectIntervals ((s1, e1) # ls) ((s2, e2) # rs) =
     (let start = max s1 s2; end' = min e1 e2;
          rest = (if e1 < e2 then intersectIntervals ls ((s2, e2) # rs)
                  else intersectIntervals ((s1, e1) # ls) rs)
      in if start \<le> end' then (start, end') # rest else rest)"

function numbers_search :: "int list \<Rightarrow> int \<Rightarrow> int \<Rightarrow> int \<Rightarrow> bool" where
  "numbers_search vals target low high =
     (if low \<le> high then
        (let middle = (low + high) div 2; v = vals ! nat middle
         in if v = target then True
            else if v < target then numbers_search vals target (middle + 1) high
            else numbers_search vals target low (middle - 1))
      else False)"
  by pat_completeness auto
termination
  by (relation "measure (\<lambda>(vals, target, low, high). nat (high - low + 1))") auto

definition sortedNumbersInclude :: "int list \<Rightarrow> int \<Rightarrow> bool" where
  "sortedNumbersInclude vals target = numbers_search vals target 0 (int (length vals) - 1)"

function intervals_search :: "interval list \<Rightarrow> int \<Rightarrow> int \<Rightarrow> int \<Rightarrow> bool" where
  "intervals_search intervals target low high =
     (if low \<le> high then
        (let middle = (low + high) div 2; r = intervals ! nat middle
         in if target < fst r then intervals_search intervals target low (middle - 1)
            else if target > snd r then intervals_search intervals target (middle + 1) high
            else True)
      else False)"
  by pat_completeness auto
termination
  by (relation "measure (\<lambda>(intervals, target, low, high). nat (high - low + 1))") auto

declare numbers_search.simps [simp del] intervals_search.simps [simp del]

definition sortedIntervalsInclude :: "interval list \<Rightarrow> int \<Rightarrow> bool" where
  "sortedIntervalsInclude intervals target =
     intervals_search intervals target 0 (int (length intervals) - 1)"

definition normalizedPolicy :: "port_policy \<Rightarrow> port_policy" where
  "normalizedPolicy policy = policy\<lparr>normalized := True\<rparr>"

definition valid_port :: "jsnum \<Rightarrow> int option" where
  "valid_port n =
     (case js_integer n of None \<Rightarrow> None
      | Some i \<Rightarrow> if 1 \<le> i \<and> i \<le> 65535 then Some i else None)"

definition parsePortAllowlist :: "string option \<Rightarrow> int list" where
  "parsePortAllowlist value =
     (let text = js_trim (case value of None \<Rightarrow> [] | Some s \<Rightarrow> s)
      in if text = [] then []
         else sort (remdups (List.map_filter (\<lambda>item. valid_port (string_number (js_trim item)))
                (js_split CHR '','' text))))"

definition normalizePortAllowlist :: "string option \<Rightarrow> string" where
  "normalizePortAllowlist value = js_join '','' (map int_str (parsePortAllowlist value))"

definition optionalPort :: "jsval \<Rightarrow> int option" where
  "optionalPort value =
     (if value = JUndef \<or> value = JNull \<or> value = JStr [] then None
      else valid_port (to_number value))"

text \<open>
  \<open>new Map(entries).values()\<close> with the key \<open>start:end\<close> of each range: one entry for each
  range, at the place of its first occurrence.
\<close>

definition dedupe_ranges :: "interval list \<Rightarrow> interval list" where
  "dedupe_ranges rs = map snd (fold (\<lambda>r m. map_set r r m) rs [])"

definition source_ranges :: "(jsval \<times> jsval) list \<Rightarrow> interval list" where
  "source_ranges rs =
     dedupe_ranges (List.map_filter (\<lambda>r.
       (case (optionalPort (fst r), optionalPort (snd r)) of
          (Some s, Some e) \<Rightarrow> if s \<le> e then Some (s, e) else None
        | _ \<Rightarrow> None)) rs)"

definition empty_source :: port_policy_source where
  "empty_source = \<lparr>portRangeStart = JUndef, portRangeEnd = JUndef, portAllowlist = None,
     portRanges = None\<rparr>"

definition portPolicyFrom :: "port_policy_source option \<Rightarrow> port_policy" where
  "portPolicyFrom source0 =
     (let src = (case source0 of None \<Rightarrow> empty_source | Some s \<Rightarrow> s);
          s = optionalPort (portRangeStart src);
          e = optionalPort (portRangeEnd src);
          hasValidRange = (case (s, e) of (Some a, Some b) \<Rightarrow> a \<le> b | _ \<Rightarrow> False);
          rs = normalizeIntervals (map num_interval
                 (source_ranges (case portRanges src of None \<Rightarrow> [] | Some l \<Rightarrow> l)))
      in normalizedPolicy \<lparr>rangeStart = (if hasValidRange then s else None),
           rangeEnd = (if hasValidRange then e else None),
           allowlist = parsePortAllowlist (portAllowlist src),
           ranges = (if rs \<noteq> [] then Some rs else None),
           denyAll = False, normalized = False\<rparr>)"

definition portPolicyHasRestriction :: "port_policy \<Rightarrow> bool" where
  "portPolicyHasRestriction policy \<longleftrightarrow>
     denyAll policy
     \<or> (rangeStart policy \<noteq> None \<and> rangeEnd policy \<noteq> None)
     \<or> (case ranges policy of None \<Rightarrow> False | Some rs \<Rightarrow> rs \<noteq> [])
     \<or> allowlist policy \<noteq> []"

definition in_primary_range :: "port_policy \<Rightarrow> int \<Rightarrow> bool" where
  "in_primary_range policy port =
     (case (rangeStart policy, rangeEnd policy) of
        (Some s, Some e) \<Rightarrow> s \<le> port \<and> port \<le> e | _ \<Rightarrow> False)"

definition policy_ranges :: "port_policy \<Rightarrow> interval list" where
  "policy_ranges policy = (case ranges policy of None \<Rightarrow> [] | Some rs \<Rightarrow> rs)"

definition isPortAllowedByPolicy :: "jsnum \<Rightarrow> port_policy \<Rightarrow> bool" where
  "isPortAllowedByPolicy n policy =
     (case valid_port n of
        None \<Rightarrow> False
      | Some port \<Rightarrow>
          (if denyAll policy then False
           else if \<not> portPolicyHasRestriction policy then True
           else if in_primary_range policy port then True
           else if normalized policy then
             sortedIntervalsInclude (policy_ranges policy) port
             \<or> sortedNumbersInclude (allowlist policy) port
           else list_ex (\<lambda>r. fst r \<le> port \<and> port \<le> snd r) (policy_ranges policy)
             \<or> port \<in> set (allowlist policy)))"

definition interval_str :: "interval \<Rightarrow> string" where
  "interval_str r = int_str (fst r) @ ''-'' @ int_str (snd r)"

definition describePortPolicy :: "port_policy \<Rightarrow> policy_description" where
  "describePortPolicy policy =
     (if denyAll policy then NoPortAvailable
      else
        let parts =
              (case (rangeStart policy, rangeEnd policy) of
                 (Some s, Some e) \<Rightarrow> [interval_str (s, e)] | _ \<Rightarrow> [])
              @ (if policy_ranges policy \<noteq> []
                 then [js_join '','' (map interval_str (policy_ranges policy))] else [])
              @ (if allowlist policy \<noteq> []
                 then [js_join '','' (map int_str (allowlist policy))] else [])
        in if parts \<noteq> [] then Allowed (js_join '' + '' parts) else Unrestricted)"

text \<open>The loop of \<open>combinePortPolicies\<close> over the restricted policies after the first.\<close>

fun intersect_rest :: "interval list \<Rightarrow> port_policy list \<Rightarrow> interval list" where
  "intersect_rest allowed [] = allowed"
| "intersect_rest allowed (p # ps) =
     (if allowed = [] then allowed
      else intersect_rest (intersectIntervals allowed (policyIntervals p)) ps)"

text \<open>The index of the first longest interval; \<open>index\<close> counts up from 1.\<close>

fun best_index_from :: "interval list \<Rightarrow> nat \<Rightarrow> nat \<Rightarrow> interval list \<Rightarrow> nat" where
  "best_index_from allowed best index [] = best"
| "best_index_from allowed best index (r # rs) =
     best_index_from allowed
       (if snd r - fst r > snd (allowed ! best) - fst (allowed ! best) then index else best)
       (Suc index) rs"

definition deny_policy :: port_policy where
  "deny_policy = normalizedPolicy \<lparr>rangeStart = None, rangeEnd = None, allowlist = [],
     ranges = None, denyAll = True, normalized = False\<rparr>"

definition policy_of_intervals :: "interval list \<Rightarrow> port_policy" where
  "policy_of_intervals allowed =
     (let bestIndex = best_index_from allowed 0 1 (tl allowed);
          best = allowed ! bestIndex;
          hasPrimaryRange = (fst best < snd best);
          remaining = map snd (filter (\<lambda>(index, r). \<not> hasPrimaryRange \<or> index \<noteq> bestIndex)
                        (enumerate 0 allowed));
          wide = filter (\<lambda>r. fst r \<noteq> snd r) remaining
      in normalizedPolicy \<lparr>rangeStart = (if hasPrimaryRange then Some (fst best) else None),
           rangeEnd = (if hasPrimaryRange then Some (snd best) else None),
           allowlist = map fst (filter (\<lambda>r. fst r = snd r) remaining),
           ranges = (if wide \<noteq> [] then Some wide else None),
           denyAll = False, normalized = False\<rparr>)"

definition combinePortPolicies :: "port_policy list \<Rightarrow> port_policy" where
  "combinePortPolicies policies =
     (case filter portPolicyHasRestriction policies of
        [] \<Rightarrow> portPolicyFrom None
      | p # ps \<Rightarrow>
          (let allowed = intersect_rest (policyIntervals p) ps
           in if allowed = [] then deny_policy else policy_of_intervals allowed))"

definition combineHostPortPolicyWithRange ::
  "port_policy_source option \<Rightarrow> jsval \<Rightarrow> jsval \<Rightarrow> port_policy" where
  "combineHostPortPolicyWithRange hostSource preferredStart preferredEnd =
     (let hostPolicy = portPolicyFrom hostSource
      in case (optionalPort preferredStart, optionalPort preferredEnd) of
           (Some s, Some e) \<Rightarrow>
             (if s > e then hostPolicy
              else if rangeStart hostPolicy = Some s \<and> rangeEnd hostPolicy = Some e then hostPolicy
              else combinePortPolicies [hostPolicy,
                portPolicyFrom (Some (empty_source\<lparr>portRangeStart := JNum (num s),
                  portRangeEnd := JNum (num e)\<rparr>))])
         | _ \<Rightarrow> hostPolicy)"

definition addCandidate :: "int set \<Rightarrow> int \<Rightarrow> int list \<Rightarrow> int list" where
  "addCandidate usedPorts port candidates =
     (if port \<in> usedPorts \<or> port \<in> set candidates then candidates else candidates @ [port])"

definition pick_index :: "rat \<Rightarrow> nat \<Rightarrow> nat" where
  "pick_index rnd n = nat \<lfloor>rnd * of_nat n\<rfloor>"

definition choose_candidate :: "rat \<Rightarrow> int list \<Rightarrow> int option" where
  "choose_candidate rnd candidates =
     (if candidates = [] then None
      else Some (candidates ! pick_index rnd (length candidates)))"

definition restricted_candidates :: "port_policy \<Rightarrow> int list" where
  "restricted_candidates policy =
     (case (rangeStart policy, rangeEnd policy) of (Some s, Some e) \<Rightarrow> [s..e] | _ \<Rightarrow> [])
     @ concat (map (\<lambda>r. [fst r..snd r]) (policy_ranges policy))
     @ allowlist policy"

definition pickAvailablePort ::
  "port_policy \<Rightarrow> int set \<Rightarrow> int \<times> int \<Rightarrow> rat \<Rightarrow> int option" where
  "pickAvailablePort policy usedPorts defaults rnd =
     (if portPolicyHasRestriction policy then
        choose_candidate rnd (fold (addCandidate usedPorts) (restricted_candidates policy) [])
      else
        (let start = max 1 (min 65535 (fst defaults));
             stop = max start (min 65535 (snd defaults));
             span = stop - start + 1
         in if span \<le> 10000
            then choose_candidate rnd (fold (addCandidate usedPorts) [start..stop] [])
            else
              (let offset = \<lfloor>rnd * of_int span\<rfloor>
               in find (\<lambda>port. port \<notin> usedPorts)
                    (map (\<lambda>i. start + (offset + i) mod span) [0..span - 1]))))"


section \<open>Interval lists as sets of ports\<close>

definition covers :: "interval list \<Rightarrow> int \<Rightarrow> bool" where
  "covers rs p \<longleftrightarrow> (\<exists>r \<in> set rs. fst r \<le> p \<and> p \<le> snd r)"

definition ordered :: "interval list \<Rightarrow> bool" where
  "ordered rs \<longleftrightarrow> sorted_wrt (\<lambda>a b. snd a < fst b) rs \<and> (\<forall>r \<in> set rs. fst r \<le> snd r)"

lemma covers_simps [simp]:
  "\<not> covers [] p"
  "covers (r # rs) p \<longleftrightarrow> (fst r \<le> p \<and> p \<le> snd r) \<or> covers rs p"
  "covers (xs @ ys) p \<longleftrightarrow> covers xs p \<or> covers ys p"
  by (auto simp: covers_def)

lemma covers_nth: "covers rs p \<longleftrightarrow> (\<exists>i < length rs. fst (rs ! i) \<le> p \<and> p \<le> snd (rs ! i))"
  unfolding covers_def by (metis in_set_conv_nth)

lemma ordered_simps [simp]:
  "ordered []"
  "ordered (r # rs) \<longleftrightarrow> fst r \<le> snd r \<and> (\<forall>x \<in> set rs. snd r < fst x) \<and> ordered rs"
  by (auto simp: ordered_def)

lemma covers_above: "(\<forall>x \<in> set rs. a < fst x) \<Longrightarrow> covers rs p \<Longrightarrow> a < p"
  by (fastforce simp: covers_def)

lemma clip_num_interval:
  "clip_interval (num_interval r) =
     (if max 1 (fst r) \<le> min 65535 (snd r) then [(max 1 (fst r), min 65535 (snd r))] else [])"
  by (simp add: clip_interval_def num_interval_def Let_def)

lemma covers_clip:
  "covers (concat (map clip_interval (map num_interval rs))) p \<longleftrightarrow>
     1 \<le> p \<and> p \<le> 65535 \<and> covers rs p"
  by (induction rs) (auto simp: clip_num_interval)

lemma clip_bounds:
  "r \<in> set (concat (map clip_interval rs)) \<Longrightarrow> 1 \<le> fst r \<and> fst r \<le> snd r \<and> snd r \<le> 65535"
  by (auto simp: clip_interval_def Let_def split: option.splits if_splits)

lemma covers_merge_sorted:
  "sorted (map fst rs) \<Longrightarrow> (\<forall>r \<in> set rs. fst r \<le> snd r) \<Longrightarrow>
     covers (merge_sorted rs) p \<longleftrightarrow> covers rs p"
  by (induction rs rule: merge_sorted.induct) (auto simp: le_max_iff_disj)

lemma merge_sorted_start:
  "sorted (map fst rs) \<Longrightarrow> r \<in> set (merge_sorted rs) \<Longrightarrow> \<exists>x \<in> set rs. fst r = fst x"
  by (induction rs rule: merge_sorted.induct) (auto split: if_splits)

lemma merge_sorted_bound:
  "(\<forall>r \<in> set rs. fst r \<le> snd r \<and> snd r \<le> b) \<Longrightarrow>
     (\<forall>r \<in> set (merge_sorted rs). fst r \<le> snd r \<and> snd r \<le> b)"
  by (induction rs rule: merge_sorted.induct) (auto simp: le_max_iff_disj)

lemma merge_sorted_gaps:
  "sorted (map fst rs) \<Longrightarrow> sorted_wrt (\<lambda>a b. snd a + 1 < fst b) (merge_sorted rs)"
proof (induction rs rule: merge_sorted.induct)
  case (3 s1 e1 s2 e2 rs)
  show ?case
  proof (cases "s2 \<le> e1 + 1")
    case True
    with 3 show ?thesis by auto
  next
    case False
    have "e1 + 1 < fst r" if r: "r \<in> set (merge_sorted ((s2, e2) # rs))" for r
    proof -
      from "3.prems" have "sorted (map fst ((s2, e2) # rs))" by simp
      from merge_sorted_start [OF this r] "3.prems" have "s2 \<le> fst r" by auto
      with False show ?thesis by simp
    qed
    with False 3 show ?thesis by simp
  qed
qed simp_all

lemma sorted_map_fst: "sorted (rs :: interval list) \<Longrightarrow> sorted (map fst rs)"
  by (induction rs) (auto simp: less_eq_prod_def)

lemma covers_set: "set xs = set ys \<Longrightarrow> covers xs p = covers ys p"
  by (simp add: covers_def)

lemma covers_normalizeIntervals:
  "covers (normalizeIntervals (map num_interval rs)) p \<longleftrightarrow> 1 \<le> p \<and> p \<le> 65535 \<and> covers rs p"
proof -
  let ?c = "concat (map clip_interval (map num_interval rs))"
  have c: "\<forall>r \<in> set (sort ?c). fst r \<le> snd r"
    using clip_bounds [of _ "map num_interval rs"] by (simp only: set_sort) blast
  have "covers (normalizeIntervals (map num_interval rs)) p = covers (sort ?c) p"
    unfolding normalizeIntervals_def
    by (rule covers_merge_sorted [OF sorted_map_fst c]) simp
  also have "\<dots> = covers ?c p" by (rule covers_set) simp
  finally show ?thesis by (simp only: covers_clip)
qed

lemma normalizeIntervals_gaps:
  "sorted_wrt (\<lambda>a b. snd a + 1 < fst b) (normalizeIntervals rs)"
  unfolding normalizeIntervals_def by (intro merge_sorted_gaps sorted_map_fst) simp

lemma normalizeIntervals_bounds:
  assumes "r \<in> set (normalizeIntervals rs)"
  shows "1 \<le> fst r \<and> fst r \<le> snd r \<and> snd r \<le> 65535"
proof -
  let ?c = "sort (concat (map clip_interval rs))"
  have c: "\<forall>x \<in> set ?c. 1 \<le> fst x \<and> fst x \<le> snd x \<and> snd x \<le> 65535"
    using clip_bounds by auto
  have r: "r \<in> set (merge_sorted ?c)"
    using assms by (simp add: normalizeIntervals_def)
  from c have "fst r \<le> snd r \<and> snd r \<le> 65535"
    using merge_sorted_bound [of ?c 65535] r by blast
  moreover obtain x where "x \<in> set ?c" and "fst r = fst x"
    using merge_sorted_start [OF _ r] sorted_map_fst [of ?c] by auto
  ultimately show ?thesis using c by auto
qed

lemma ordered_normalizeIntervals: "ordered (normalizeIntervals rs)"
  unfolding ordered_def
proof
  show "sorted_wrt (\<lambda>a b. snd a < fst b) (normalizeIntervals rs)"
    by (rule sorted_wrt_mono_rel [OF _ normalizeIntervals_gaps]) simp
  show "\<forall>r \<in> set (normalizeIntervals rs). fst r \<le> snd r"
    using normalizeIntervals_bounds by blast
qed

lemma covers_intersect:
  "ordered ls \<Longrightarrow> ordered rs \<Longrightarrow>
     covers (intersectIntervals ls rs) p \<longleftrightarrow> covers ls p \<and> covers rs p"
proof (induction ls rs rule: intersectIntervals.induct)
  case (3 s1 e1 ls s2 e2 rs)
  show ?case
  proof (cases "e1 < e2")
    case True
    have "covers (intersectIntervals ls ((s2, e2) # rs)) p
        \<longleftrightarrow> covers ls p \<and> covers ((s2, e2) # rs) p"
      using 3 True by (auto simp del: covers_simps)
    moreover have "covers rs p \<Longrightarrow> e2 < p"
      using "3.prems" by (auto intro: covers_above)
    ultimately show ?thesis using True by (auto simp: Let_def)
  next
    case False
    have "covers (intersectIntervals ((s1, e1) # ls) rs) p
        \<longleftrightarrow> covers ((s1, e1) # ls) p \<and> covers rs p"
      using 3 False by (auto simp del: covers_simps)
    moreover have "covers ls p \<Longrightarrow> e1 < p"
      using "3.prems" by (auto intro: covers_above)
    ultimately show ?thesis using False by (auto simp: Let_def)
  qed
qed simp_all

lemma intersect_nonempty_ranges:
  "r \<in> set (intersectIntervals ls rs) \<Longrightarrow> fst r \<le> snd r"
  by (induction ls rs rule: intersectIntervals.induct) (auto simp: Let_def split: if_splits)

lemma intersect_start:
  assumes "ordered ls" and "ordered rs" and "r \<in> set (intersectIntervals ls rs)"
  shows "covers ls (fst r) \<and> covers rs (fst r)"
proof -
  have "covers (intersectIntervals ls rs) (fst r)"
    unfolding covers_def using assms(3) intersect_nonempty_ranges by force
  then show ?thesis using covers_intersect [OF assms(1,2)] by blast
qed

lemma ordered_intersect: "ordered ls \<Longrightarrow> ordered rs \<Longrightarrow> ordered (intersectIntervals ls rs)"
proof (induction ls rs rule: intersectIntervals.induct)
  case (3 s1 e1 ls s2 e2 rs)
  show ?case
  proof (cases "e1 < e2")
    case True
    let ?rest = "intersectIntervals ls ((s2, e2) # rs)"
    have "ordered ?rest" using 3 True by auto
    moreover have "e1 < fst r" if "r \<in> set ?rest" for r
      using intersect_start [OF _ _ that] "3.prems" covers_above [of ls e1 "fst r"] by auto
    ultimately show ?thesis using True by (auto simp: Let_def)
  next
    case False
    let ?rest = "intersectIntervals ((s1, e1) # ls) rs"
    have "ordered ?rest" using 3 False by auto
    moreover have "e2 < fst r" if "r \<in> set ?rest" for r
      using intersect_start [OF _ _ that] "3.prems" covers_above [of rs e2 "fst r"] by auto
    ultimately show ?thesis using False by (auto simp: Let_def)
  qed
qed simp_all

section \<open>Bisection\<close>

lemma numbers_search_iff:
  "sorted vals \<Longrightarrow> 0 \<le> low \<Longrightarrow> high < int (length vals) \<Longrightarrow>
     numbers_search vals target low high \<longleftrightarrow>
     (\<exists>i. low \<le> int i \<and> int i \<le> high \<and> vals ! i = target)"
proof (induction vals target low high rule: numbers_search.induct)
  case (1 vals target low high)
  let ?m = "(low + high) div 2"
  show ?case
  proof (cases "low \<le> high")
    case False
    then show ?thesis by (subst numbers_search.simps) auto
  next
    case True
    then have m: "low \<le> ?m" "?m \<le> high" by auto
    consider "vals ! nat ?m = target" | "vals ! nat ?m < target" | "vals ! nat ?m > target"
      by linarith
    then show ?thesis
    proof cases
      case 1
      then have "numbers_search vals target low high"
        using True by (subst numbers_search.simps) (simp add: Let_def)
      moreover have "low \<le> int (nat ?m)" "int (nat ?m) \<le> high"
        using m "1.prems" by auto
      ultimately show ?thesis using 1 by blast
    next
      case 2
      have "\<not> int i \<le> ?m" if "vals ! i = target" "low \<le> int i" "int i \<le> high" for i
        using 2 that sorted_nth_mono [OF "1.prems"(1), of i "nat ?m"] m "1.prems" by fastforce
      moreover have "numbers_search vals target (?m + 1) high \<longleftrightarrow>
          (\<exists>i. ?m + 1 \<le> int i \<and> int i \<le> high \<and> vals ! i = target)"
        using "1.IH"(1) True 2 m "1.prems" by auto
      moreover have "numbers_search vals target low high =
          numbers_search vals target (?m + 1) high"
        using 2 True by (subst numbers_search.simps) (simp add: Let_def)
      ultimately show ?thesis using m by force
    next
      case 3
      have "\<not> ?m \<le> int i" if "vals ! i = target" "low \<le> int i" "int i \<le> high" for i
        using 3 that sorted_nth_mono [OF "1.prems"(1), of "nat ?m" i] m "1.prems" by fastforce
      moreover have "numbers_search vals target low (?m - 1) \<longleftrightarrow>
          (\<exists>i. low \<le> int i \<and> int i \<le> ?m - 1 \<and> vals ! i = target)"
        using "1.IH"(2) True 3 m "1.prems" by auto
      moreover have "numbers_search vals target low high =
          numbers_search vals target low (?m - 1)"
        using 3 True by (subst numbers_search.simps) (simp add: Let_def)
      ultimately show ?thesis using m by force
    qed
  qed
qed

lemma sortedNumbersInclude_iff:
  "sorted vals \<Longrightarrow> sortedNumbersInclude vals target \<longleftrightarrow> target \<in> set vals"
  unfolding sortedNumbersInclude_def
  by (subst numbers_search_iff) (auto simp: in_set_conv_nth)

lemma intervals_search_iff:
  "ordered rs \<Longrightarrow> 0 \<le> low \<Longrightarrow> high < int (length rs) \<Longrightarrow>
     intervals_search rs target low high \<longleftrightarrow>
     (\<exists>i. low \<le> int i \<and> int i \<le> high \<and> fst (rs ! i) \<le> target \<and> target \<le> snd (rs ! i))"
proof (induction rs target low high rule: intervals_search.induct)
  case (1 rs target low high)
  let ?m = "(low + high) div 2"
  show ?case
  proof (cases "low \<le> high")
    case False
    then show ?thesis by (subst intervals_search.simps) auto
  next
    case True
    then have m: "low \<le> ?m" "?m \<le> high" by auto
    have apart: "snd (rs ! i) < fst (rs ! j)" if "i < j" "int j \<le> high" for i j
      using "1.prems" that by (auto simp: ordered_def sorted_wrt_iff_nth_less)
    have wide: "fst (rs ! i) \<le> snd (rs ! i)" if "int i \<le> high" for i
      using "1.prems" that by (auto simp: ordered_def)
    consider "target < fst (rs ! nat ?m)" | "target > snd (rs ! nat ?m)"
      | "fst (rs ! nat ?m) \<le> target" "target \<le> snd (rs ! nat ?m)"
      by linarith
    then show ?thesis
    proof cases
      case 1
      have "int i \<le> ?m - 1" if "low \<le> int i" "int i \<le> high" "fst (rs ! i) \<le> target" for i
      proof (rule ccontr)
        assume "\<not> int i \<le> ?m - 1"
        then have "nat ?m \<le> i" using m "1.prems" by linarith
        with that 1 wide [of "nat ?m"] apart [of "nat ?m" i] m "1.prems"
        show False by (cases "nat ?m = i") auto
      qed
      moreover have "intervals_search rs target low (?m - 1) \<longleftrightarrow>
          (\<exists>i. low \<le> int i \<and> int i \<le> ?m - 1 \<and> fst (rs ! i) \<le> target \<and> target \<le> snd (rs ! i))"
        using "1.IH"(1) True 1 m "1.prems" by auto
      moreover have "intervals_search rs target low high =
          intervals_search rs target low (?m - 1)"
        using 1 True by (subst intervals_search.simps) (simp add: Let_def)
      ultimately show ?thesis using m by force
    next
      case 2
      have up: "?m + 1 \<le> int i" if "low \<le> int i" "int i \<le> high" "target \<le> snd (rs ! i)" for i
      proof (rule ccontr)
        assume "\<not> ?m + 1 \<le> int i"
        then have "i \<le> nat ?m" using m "1.prems" by linarith
        with that 2 wide [of "nat ?m"] apart [of i "nat ?m"] m "1.prems"
        show False by (cases "nat ?m = i") auto
      qed
      have above: "\<not> target < fst (rs ! nat ?m)"
        using 2 wide [of "nat ?m"] m "1.prems" by auto
      have "intervals_search rs target low high = intervals_search rs target (?m + 1) high"
        using above 2 True by (subst intervals_search.simps) (simp add: Let_def)
      also have "\<dots> \<longleftrightarrow>
          (\<exists>i. ?m + 1 \<le> int i \<and> int i \<le> high \<and> fst (rs ! i) \<le> target \<and> target \<le> snd (rs ! i))"
        using "1.IH"(2) [OF True refl refl above] 2 m "1.prems" by simp
      also have "\<dots> \<longleftrightarrow>
          (\<exists>i. low \<le> int i \<and> int i \<le> high \<and> fst (rs ! i) \<le> target \<and> target \<le> snd (rs ! i))"
        using up m by (meson order_trans zle_add1_eq_le less_imp_le)
      finally show ?thesis .
    next
      case 3
      then have "intervals_search rs target low high"
        using True by (subst intervals_search.simps) (simp add: Let_def)
      moreover have "low \<le> int (nat ?m)" "int (nat ?m) \<le> high"
        using m "1.prems" by auto
      ultimately show ?thesis using 3 by blast
    qed
  qed
qed

lemma sortedIntervalsInclude_iff: "ordered rs \<Longrightarrow> sortedIntervalsInclude rs p \<longleftrightarrow> covers rs p"
  unfolding sortedIntervalsInclude_def
  by (subst intervals_search_iff) (auto simp: covers_nth)


section \<open>What a policy allows\<close>

text \<open>
  The reference reading of a policy, by linear membership, and the invariant of the policies
  this module builds: what is searched by bisection is sorted.
\<close>

definition policy_allows :: "port_policy \<Rightarrow> int \<Rightarrow> bool" where
  "policy_allows policy port \<longleftrightarrow>
     \<not> denyAll policy \<and>
     (\<not> portPolicyHasRestriction policy \<or> in_primary_range policy port
      \<or> covers (policy_ranges policy) port \<or> port \<in> set (allowlist policy))"

definition wf_policy :: "port_policy \<Rightarrow> bool" where
  "wf_policy policy \<longleftrightarrow>
     (normalized policy \<longrightarrow> ordered (policy_ranges policy) \<and> sorted (allowlist policy))"

definition within_bounds :: "port_policy \<Rightarrow> bool" where
  "within_bounds policy \<longleftrightarrow>
     (\<forall>p. in_primary_range policy p \<or> covers (policy_ranges policy) p \<or> p \<in> set (allowlist policy)
        \<longrightarrow> 1 \<le> p \<and> p \<le> 65535 \<and> \<not> denyAll policy)"

lemma valid_port_Some: "valid_port n = Some i \<longleftrightarrow> n = num i \<and> 1 \<le> i \<and> i \<le> 65535"
  by (auto simp: valid_port_def js_integer_iff split: option.splits if_splits)

lemma valid_port_num [simp]: "valid_port (num i) = (if 1 \<le> i \<and> i \<le> 65535 then Some i else None)"
  by (simp add: valid_port_def)

lemma isPortAllowed_iff:
  "wf_policy policy \<Longrightarrow>
     isPortAllowedByPolicy n policy \<longleftrightarrow> (\<exists>port. valid_port n = Some port \<and> policy_allows policy port)"
  by (auto simp: isPortAllowedByPolicy_def policy_allows_def wf_policy_def covers_def list_ex_iff
      sortedIntervalsInclude_iff sortedNumbersInclude_iff split: option.splits)

lemma primary_range_covers:
  "covers (case (rangeStart policy, rangeEnd policy) of (Some s, Some e) \<Rightarrow> [(s, e)] | _ \<Rightarrow> []) p
     \<longleftrightarrow> in_primary_range policy p"
  by (auto simp: in_primary_range_def split: option.splits)

lemma covers_singles: "covers (map (\<lambda>port. (port, port)) xs) p \<longleftrightarrow> p \<in> set xs"
  by (auto simp: covers_def)

lemma covers_policyIntervals:
  "covers (policyIntervals policy) p \<longleftrightarrow>
     1 \<le> p \<and> p \<le> 65535 \<and> \<not> denyAll policy \<and>
     (in_primary_range policy p \<or> covers (policy_ranges policy) p \<or> p \<in> set (allowlist policy))"
  unfolding policyIntervals_def policy_ranges_def
  by (simp only: covers_normalizeIntervals primary_range_covers covers_simps covers_singles
      split: if_split) simp

lemma ordered_policyIntervals: "ordered (policyIntervals policy)"
  by (simp add: policyIntervals_def ordered_normalizeIntervals)

section \<open>Policies read from a configuration\<close>

lemma set_dedupe_fold:
  "set (map snd (fold (\<lambda>r m. map_set r r m) rs m)) =
     set rs \<union> set (map snd m)" if "\<forall>(k, v) \<in> set m. k = v" for rs m
  using that
proof (induction rs arbitrary: m)
  case Nil
  then show ?case by simp
next
  case (Cons r rs)
  have ids: "\<forall>(k, v) \<in> set (map_set r r m). k = v"
    using Cons.prems by (induction m) auto
  have "set (map snd (map_set r r m)) = insert r (set (map snd m))"
    using Cons.prems by (induction m) auto
  with Cons.IH [OF ids] show ?case by simp
qed

lemma set_dedupe_ranges [simp]: "set (dedupe_ranges rs) = set rs"
  using set_dedupe_fold [of "[]" rs] by (simp add: dedupe_ranges_def)

lemma set_map_filter: "set (List.map_filter f xs) = {y. \<exists>x \<in> set xs. f x = Some y}"
  by (induction xs) (auto simp: map_filter_simps split: option.splits)

lemma sorted_parsePortAllowlist: "sorted (parsePortAllowlist value')"
  by (simp add: parsePortAllowlist_def Let_def)

lemma distinct_parsePortAllowlist: "distinct (parsePortAllowlist value')"
  by (simp add: parsePortAllowlist_def Let_def)

lemma parsePortAllowlist_bounds: "p \<in> set (parsePortAllowlist value') \<Longrightarrow> 1 \<le> p \<and> p \<le> 65535"
  by (auto simp: parsePortAllowlist_def Let_def set_map_filter valid_port_Some split: if_splits)

lemma wf_portPolicyFrom: "wf_policy (portPolicyFrom src)"
  by (auto simp: wf_policy_def portPolicyFrom_def Let_def normalizedPolicy_def policy_ranges_def
      ordered_normalizeIntervals sorted_parsePortAllowlist)

lemma portPolicyFrom_None [simp]: "\<not> portPolicyHasRestriction (portPolicyFrom None)"
  by (simp add: portPolicyFrom_def empty_source_def portPolicyHasRestriction_def Let_def
      optionalPort_def normalizedPolicy_def parsePortAllowlist_def js_trim_def source_ranges_def
      dedupe_ranges_def normalizeIntervals_def map_filter_simps)

lemma denyAll_portPolicyFrom [simp]: "\<not> denyAll (portPolicyFrom src)"
  by (simp add: portPolicyFrom_def Let_def normalizedPolicy_def)

text \<open>The interval that a pair of configured bounds denotes, if both are ports in order.\<close>

definition configured_range :: "jsval \<Rightarrow> jsval \<Rightarrow> int \<Rightarrow> bool" where
  "configured_range a b p \<longleftrightarrow>
     (\<exists>s e. optionalPort a = Some s \<and> optionalPort b = Some e \<and> s \<le> p \<and> p \<le> e)"

definition configured_ports :: "port_policy_source \<Rightarrow> int \<Rightarrow> bool" where
  "configured_ports src p \<longleftrightarrow>
     configured_range (portRangeStart src) (portRangeEnd src) p
     \<or> (\<exists>r \<in> set (case portRanges src of None \<Rightarrow> [] | Some l \<Rightarrow> l). configured_range (fst r) (snd r) p)
     \<or> p \<in> set (parsePortAllowlist (portAllowlist src))"

lemma optionalPort_bounds: "optionalPort v = Some p \<Longrightarrow> 1 \<le> p \<and> p \<le> 65535"
  by (simp add: optionalPort_def valid_port_Some split: if_splits)

lemma covers_source_ranges:
  "covers (source_ranges rs) p \<longleftrightarrow> (\<exists>r \<in> set rs. configured_range (fst r) (snd r) p)"
proof -
  have "covers (source_ranges rs) p \<longleftrightarrow>
      (\<exists>r \<in> set rs. \<exists>s e. optionalPort (fst r) = Some s \<and> optionalPort (snd r) = Some e \<and>
         s \<le> e \<and> s \<le> p \<and> p \<le> e)"
    unfolding covers_def source_ranges_def set_dedupe_ranges set_map_filter
    by (force split: option.splits if_splits)
  then show ?thesis unfolding configured_range_def by (meson order_trans)
qed

lemma configured_ports_bounds: "configured_ports src p \<Longrightarrow> 1 \<le> p \<and> p \<le> 65535"
  unfolding configured_ports_def configured_range_def
  by (fastforce dest: optionalPort_bounds parsePortAllowlist_bounds)

lemma portPolicyFrom_ports:
  "in_primary_range (portPolicyFrom (Some src)) p
     \<or> covers (policy_ranges (portPolicyFrom (Some src))) p
     \<or> p \<in> set (allowlist (portPolicyFrom (Some src)))
   \<longleftrightarrow> configured_ports src p"
proof -
  have "in_primary_range (portPolicyFrom (Some src)) p \<longleftrightarrow>
      configured_range (portRangeStart src) (portRangeEnd src) p"
    by (auto simp: portPolicyFrom_def Let_def normalizedPolicy_def in_primary_range_def
        configured_range_def split: option.splits)
  moreover have "covers (policy_ranges (portPolicyFrom (Some src))) p \<longleftrightarrow>
      1 \<le> p \<and> p \<le> 65535 \<and> covers (source_ranges (case portRanges src of None \<Rightarrow> [] | Some l \<Rightarrow> l)) p"
    by (auto simp: portPolicyFrom_def Let_def normalizedPolicy_def policy_ranges_def
        covers_normalizeIntervals [symmetric])
  moreover have "p \<in> set (allowlist (portPolicyFrom (Some src))) \<longleftrightarrow>
      p \<in> set (parsePortAllowlist (portAllowlist src))"
    by (simp add: portPolicyFrom_def Let_def normalizedPolicy_def)
  ultimately show ?thesis
    using configured_ports_bounds [of src p]
    by (auto simp: configured_ports_def covers_source_ranges)
qed

lemma within_bounds_portPolicyFrom: "within_bounds (portPolicyFrom (Some src))"
  using configured_ports_bounds by (simp add: within_bounds_def portPolicyFrom_ports)

lemma restricted_portPolicyFrom:
  "portPolicyHasRestriction (portPolicyFrom (Some src)) \<longleftrightarrow> (\<exists>p. configured_ports src p)"
proof -
  let ?p = "portPolicyFrom (Some src)"
  have primary: "(\<exists>p. in_primary_range ?p p) \<longleftrightarrow> rangeStart ?p \<noteq> None \<and> rangeEnd ?p \<noteq> None"
    by (auto simp: portPolicyFrom_def Let_def normalizedPolicy_def in_primary_range_def
        split: option.splits if_splits)
  have "ordered (policy_ranges ?p)"
    using wf_portPolicyFrom [of "Some src"]
    by (simp add: wf_policy_def portPolicyFrom_def Let_def normalizedPolicy_def)
  then have ranges: "(\<exists>p. covers (policy_ranges ?p) p) \<longleftrightarrow> policy_ranges ?p \<noteq> []"
    by (cases "policy_ranges ?p") auto
  have allow: "(\<exists>p. p \<in> set (allowlist ?p)) \<longleftrightarrow> allowlist ?p \<noteq> []"
    by (metis list.set_intros(1) neq_Nil_conv empty_iff empty_set)
  have "(\<exists>p. configured_ports src p) \<longleftrightarrow> (\<exists>p. in_primary_range ?p p)
      \<or> (\<exists>p. covers (policy_ranges ?p) p) \<or> (\<exists>p. p \<in> set (allowlist ?p))"
    by (simp only: portPolicyFrom_ports [symmetric]) blast
  then show ?thesis
    unfolding primary ranges allow portPolicyHasRestriction_def
    by (auto simp: policy_ranges_def split: option.splits)
qed

section \<open>Combination\<close>

lemma covers_intersect_rest:
  "ordered allowed \<Longrightarrow>
     covers (intersect_rest allowed ps) p \<longleftrightarrow>
     covers allowed p \<and> (\<forall>q \<in> set ps. covers (policyIntervals q) p)"
  by (induction allowed ps rule: intersect_rest.induct)
    (auto simp: covers_intersect ordered_policyIntervals ordered_intersect)

lemma ordered_intersect_rest: "ordered allowed \<Longrightarrow> ordered (intersect_rest allowed ps)"
  by (induction allowed ps rule: intersect_rest.induct)
    (auto simp: ordered_policyIntervals ordered_intersect)

lemma best_index_bound:
  "best < length allowed \<Longrightarrow> index + length rs \<le> length allowed \<Longrightarrow>
     best_index_from allowed best index rs < length allowed"
  by (induction allowed best index rs rule: best_index_from.induct) auto

lemma set_remaining:
  "set (map snd (filter (\<lambda>(index, r). P index) (enumerate 0 xs))) = {xs ! i |i. i < length xs \<and> P i}"
  by (force simp: in_set_enumerate_eq)

lemma ordered_remaining:
  assumes "ordered xs"
  shows "ordered (map snd (filter Q (enumerate 0 xs)))"
proof -
  have "sorted_wrt (\<lambda>a b. snd a < fst b) (map snd (enumerate 0 xs))"
    using assms by (simp add: ordered_def)
  then have "sorted_wrt (\<lambda>a b. snd (snd a) < fst (snd b)) (enumerate 0 xs)"
    by (simp only: sorted_wrt_map)
  then have "sorted_wrt (\<lambda>a b. snd (snd a) < fst (snd b)) (filter Q (enumerate 0 xs))"
    by (rule sorted_wrt_filter)
  moreover have "\<forall>r \<in> set (map snd (filter Q (enumerate 0 xs))). fst r \<le> snd r"
    using assms by (force simp: ordered_def in_set_enumerate_eq dest: nth_mem)
  ultimately show ?thesis by (simp add: ordered_def sorted_wrt_map)
qed

lemma ordered_filter: "ordered xs \<Longrightarrow> ordered (filter Q xs)"
  by (auto simp: ordered_def sorted_wrt_filter)

lemma sorted_points:
  "ordered xs \<Longrightarrow> sorted (map fst (filter (\<lambda>r. fst r = snd r) xs))"
  by (induction xs) (auto simp: less_imp_le)

lemma policy_of_intervals_facts:
  assumes "ordered allowed" and "allowed \<noteq> []"
  defines "q \<equiv> policy_of_intervals allowed"
  shows "wf_policy q" and "portPolicyHasRestriction q" and "\<not> denyAll q"
    and "in_primary_range q p \<or> covers (policy_ranges q) p \<or> p \<in> set (allowlist q) \<longleftrightarrow> covers allowed p"
proof -
  define b where "b = best_index_from allowed 0 1 (tl allowed)"
  define wide where "wide = (fst (allowed ! b) < snd (allowed ! b))"
  define remaining where
    "remaining = map snd (filter (\<lambda>(index, r). \<not> wide \<or> index \<noteq> b) (enumerate 0 allowed))"
  have b: "b < length allowed"
    unfolding b_def using assms(2) by (intro best_index_bound) auto
  have rem: "set remaining = {allowed ! i |i. i < length allowed \<and> (\<not> wide \<or> i \<noteq> b)}"
    unfolding remaining_def by (rule set_remaining)
  have ord: "ordered remaining"
    unfolding remaining_def using assms(1) by (rule ordered_remaining)
  have q: "q = \<lparr>rangeStart = (if wide then Some (fst (allowed ! b)) else None),
      rangeEnd = (if wide then Some (snd (allowed ! b)) else None),
      allowlist = map fst (filter (\<lambda>r. fst r = snd r) remaining),
      ranges = (if filter (\<lambda>r. fst r \<noteq> snd r) remaining \<noteq> []
        then Some (filter (\<lambda>r. fst r \<noteq> snd r) remaining) else None),
      denyAll = False, normalized = True\<rparr>"
    unfolding q_def policy_of_intervals_def Let_def b_def [symmetric] wide_def [symmetric]
      remaining_def [symmetric] normalizedPolicy_def by simp
  have ranges: "policy_ranges q = filter (\<lambda>r. fst r \<noteq> snd r) remaining"
    by (simp add: q policy_ranges_def)
  show "wf_policy q"
    using ord by (simp add: wf_policy_def ranges ordered_filter) (simp add: q sorted_points)
  show "\<not> denyAll q" by (simp add: q)
  have ne: "remaining \<noteq> []" if "\<not> wide" using rem b that by fastforce
  show "portPolicyHasRestriction q"
    using ne by (cases remaining) (auto simp: portPolicyHasRestriction_def q filter_empty_conv)
  have "covers allowed p \<longleftrightarrow> (wide \<and> fst (allowed ! b) \<le> p \<and> p \<le> snd (allowed ! b)) \<or> covers remaining p"
  proof -
    have "covers remaining p \<longleftrightarrow>
        (\<exists>i < length allowed. (\<not> wide \<or> i \<noteq> b) \<and> fst (allowed ! i) \<le> p \<and> p \<le> snd (allowed ! i))"
      unfolding covers_def rem by blast
    then show ?thesis unfolding covers_nth [of allowed] using b by metis
  qed
  moreover have "covers remaining p \<longleftrightarrow> covers (policy_ranges q) p \<or> p \<in> set (allowlist q)"
    unfolding ranges by (auto simp: covers_def q) (force simp: le_less)+
  moreover have "in_primary_range q p \<longleftrightarrow> wide \<and> fst (allowed ! b) \<le> p \<and> p \<le> snd (allowed ! b)"
    by (simp add: in_primary_range_def q)
  ultimately show "in_primary_range q p \<or> covers (policy_ranges q) p \<or> p \<in> set (allowlist q)
      \<longleftrightarrow> covers allowed p" by blast
qed


lemma wf_deny_policy: "wf_policy deny_policy"
  by (simp add: deny_policy_def normalizedPolicy_def wf_policy_def policy_ranges_def)

lemma combine_facts:
  assumes "\<forall>q \<in> set policies. wf_policy q"
  shows "wf_policy (combinePortPolicies policies)"
    and "1 \<le> p \<Longrightarrow> p \<le> 65535 \<Longrightarrow>
      policy_allows (combinePortPolicies policies) p \<longleftrightarrow> (\<forall>q \<in> set policies. policy_allows q p)"
proof -
  have restricted: "policy_allows q p \<longleftrightarrow> covers (policyIntervals q) p"
    if "portPolicyHasRestriction q" "1 \<le> p" "p \<le> 65535" for q
    using that by (auto simp: policy_allows_def covers_policyIntervals)
  have open_policy: "policy_allows q p" if "\<not> portPolicyHasRestriction q" for q
    using that by (auto simp: policy_allows_def portPolicyHasRestriction_def)
  show "wf_policy (combinePortPolicies policies)"
    using policy_of_intervals_facts(1) [OF ordered_intersect_rest [OF ordered_policyIntervals]]
    by (simp add: combinePortPolicies_def wf_portPolicyFrom Let_def wf_deny_policy
        split: list.split)
  assume range: "1 \<le> p" "p \<le> 65535"
  have all: "(\<forall>q \<in> set policies. policy_allows q p) \<longleftrightarrow>
      (\<forall>q \<in> set (filter portPolicyHasRestriction policies). policy_allows q p)"
    using open_policy by auto
  show "policy_allows (combinePortPolicies policies) p \<longleftrightarrow> (\<forall>q \<in> set policies. policy_allows q p)"
  proof (cases "filter portPolicyHasRestriction policies")
    case Nil
    then have "combinePortPolicies policies = portPolicyFrom None"
      by (simp add: combinePortPolicies_def)
    then show ?thesis unfolding all Nil by (simp add: open_policy)
  next
    case (Cons q qs)
    then have res: "portPolicyHasRestriction q" "\<forall>x \<in> set qs. portPolicyHasRestriction x"
      by (auto dest!: filter_eq_ConsD)
    let ?allowed = "intersect_rest (policyIntervals q) qs"
    have "(\<forall>x \<in> set policies. policy_allows x p) \<longleftrightarrow> covers ?allowed p"
      unfolding all Cons using res restricted range
      by (simp add: covers_intersect_rest ordered_policyIntervals)
    moreover have "policy_allows (combinePortPolicies policies) p \<longleftrightarrow> covers ?allowed p"
    proof (cases "?allowed = []")
      case True
      with Cons have "combinePortPolicies policies = deny_policy"
        by (simp add: combinePortPolicies_def)
      with True show ?thesis by (simp add: policy_allows_def deny_policy_def normalizedPolicy_def)
    next
      case False
      with Cons have "combinePortPolicies policies = policy_of_intervals ?allowed"
        by (simp add: combinePortPolicies_def)
      with policy_of_intervals_facts [OF ordered_intersect_rest [OF ordered_policyIntervals] False]
      show ?thesis by (simp add: policy_allows_def)
    qed
    ultimately show ?thesis by simp
  qed
qed

section \<open>Port selection\<close>

lemma set_fold_addCandidate:
  "set (fold (addCandidate used) ps acc) = set acc \<union> (set ps - used)"
  by (induction ps arbitrary: acc) (auto simp: addCandidate_def)

lemma pick_index_less: "0 \<le> rnd \<Longrightarrow> rnd < 1 \<Longrightarrow> 0 < n \<Longrightarrow> pick_index rnd n < n"
proof -
  assume a: "0 \<le> rnd" "rnd < 1" "0 < n"
  then have "rnd * of_nat n < of_nat n" by simp
  then have "\<lfloor>rnd * of_nat n\<rfloor> < int n" by (simp add: floor_less_iff)
  with a show ?thesis by (simp add: pick_index_def nat_less_iff)
qed

lemma choose_candidate_in:
  "0 \<le> rnd \<Longrightarrow> rnd < 1 \<Longrightarrow> choose_candidate rnd cs = Some p \<Longrightarrow> p \<in> set cs"
  using pick_index_less [of rnd "length cs"]
  by (auto simp: choose_candidate_def split: if_splits)

lemma choose_candidate_None: "choose_candidate rnd cs = None \<longleftrightarrow> set cs = {}"
  by (simp add: choose_candidate_def)

text \<open>The choice from the candidates collected out of a list of ports.\<close>

lemma choose_fold_candidates:
  assumes "0 \<le> rnd" and "rnd < 1"
  shows "case choose_candidate rnd (fold (addCandidate used) ps []) of
      Some p \<Rightarrow> p \<in> set ps \<and> p \<notin> used | None \<Rightarrow> set ps \<subseteq> used"
proof (cases "choose_candidate rnd (fold (addCandidate used) ps [])")
  case None
  then have "set ps \<subseteq> used" by (simp add: choose_candidate_None set_fold_addCandidate)
  with None show ?thesis by simp
next
  case (Some p)
  then show ?thesis
    using choose_candidate_in [OF assms Some] by (simp add: set_fold_addCandidate)
qed

lemma set_restricted_candidates:
  "p \<in> set (restricted_candidates policy) \<longleftrightarrow>
     in_primary_range policy p \<or> covers (policy_ranges policy) p \<or> p \<in> set (allowlist policy)"
  by (auto simp: restricted_candidates_def in_primary_range_def covers_def split: option.splits)

lemma rotation_covers:
  assumes "0 < n"
  shows "(\<lambda>i. a + (off + i) mod n) ` {0..n - 1} = {a..a + n - (1 :: int)}"
proof
  show "(\<lambda>i. a + (off + i) mod n) ` {0..n - 1} \<subseteq> {a..a + n - 1}"
    using assms pos_mod_bound [of n] by (auto simp: zle_diff1_eq add.commute less_le_not_le)
  show "{a..a + n - 1} \<subseteq> (\<lambda>i. a + (off + i) mod n) ` {0..n - 1}"
  proof
    fix p
    assume p: "p \<in> {a..a + n - 1}"
    have "(off + (p - a - off) mod n) mod n = (p - a) mod n"
      by (simp add: mod_simps)
    also have "\<dots> = p - a" using p by simp
    finally have "p = a + (off + (p - a - off) mod n) mod n" by simp
    moreover have "(p - a - off) mod n \<in> {0..n - 1}"
      using assms pos_mod_bound [of n] by (auto simp: zle_diff1_eq)
    ultimately show "p \<in> (\<lambda>i. a + (off + i) mod n) ` {0..n - 1}" by blast
  qed
qed

text \<open>The ports a call may choose from: those of the policy, or of the default range.\<close>

definition port_space :: "port_policy \<Rightarrow> int \<times> int \<Rightarrow> int set" where
  "port_space policy defaults =
     (if portPolicyHasRestriction policy then {p. isPortAllowedByPolicy (num p) policy}
      else (let start = max 1 (min 65535 (fst defaults))
            in {start..max start (min 65535 (snd defaults))}))"

lemma find_in: "find P xs = Some x \<Longrightarrow> x \<in> set xs \<and> P x"
  by (auto simp: find_Some_iff)

lemma restricted_space:
  assumes "wf_policy policy" and "within_bounds policy" and "portPolicyHasRestriction policy"
  shows "port_space policy defaults = set (restricted_candidates policy)"
  using assms unfolding port_space_def
  by (auto simp: isPortAllowed_iff policy_allows_def set_restricted_candidates within_bounds_def)

text \<open>The round trip of the allow list through its stored text.\<close>

lemma int_str_nonneg: "0 \<le> i \<Longrightarrow> int_str i = nat_str (nat i)"
  by (simp add: int_str_def)

lemma digit_not_comma: "\<not> is_digit CHR '',''"
  by (simp add: is_digit_def)

lemma set_js_join: "set (js_join sep ws) \<subseteq> (\<Union>w \<in> set ws. set w) \<union> set sep"
  by (induction sep ws rule: js_join.induct) auto

lemma parse_join_ports:
  assumes "\<forall>p \<in> set ps. 1 \<le> p \<and> p \<le> 65535" and "sorted ps" and "distinct ps"
  shows "parsePortAllowlist (Some (js_join '','' (map int_str ps))) = ps"
proof (cases "ps = []")
  case True
  then show ?thesis by (simp add: parsePortAllowlist_def js_trim_def)
next
  case False
  let ?text = "js_join '','' (map int_str ps)"
  have strs: "map int_str ps = map (\<lambda>p. nat_str (nat p)) ps"
    using assms(1) by (fastforce intro: int_str_nonneg)
  have digits: "\<forall>w \<in> set (map int_str ps). \<forall>c \<in> set w. is_digit c"
    unfolding strs using nat_str_digits by auto
  have "\<forall>c \<in> set ?text. is_digit c \<or> c = CHR '',''"
    using set_js_join [of "'',''" "map int_str ps"] digits by fastforce
  then have "\<forall>c \<in> set ?text. \<not> js_space c"
    using digit_not_space by (auto simp: js_space_def)
  then have trim: "js_trim ?text = ?text" by (rule js_trim_no_space)
  have split: "js_split CHR '','' ?text = map int_str ps"
    using False digits digit_not_comma by (intro js_split_join) auto
  have "?text \<noteq> []"
    using False strs by (cases ps rule: list.exhaust; cases "tl ps") auto
  moreover have "List.map_filter (\<lambda>item. valid_port (string_number (js_trim item))) (map int_str ps) = ps"
    using assms(1) by (induction ps) (auto simp: map_filter_simps int_str_nonneg)
  ultimately show ?thesis
    using assms(2,3) by (simp add: parsePortAllowlist_def trim split Let_def sorted_sort_id)
qed

lemma portPolicyFrom_allows_iff:
  "isPortAllowedByPolicy n (portPolicyFrom (Some src)) \<longleftrightarrow>
    (\<exists>p. valid_port n = Some p \<and> (configured_ports src p \<or> (\<forall>x. \<not> configured_ports src x)))"
proof -
  have "policy_allows (portPolicyFrom (Some src)) p \<longleftrightarrow>
      configured_ports src p \<or> (\<forall>x. \<not> configured_ports src x)" for p
    unfolding policy_allows_def restricted_portPolicyFrom
    using portPolicyFrom_ports [of src p] by auto
  then show ?thesis by (simp add: isPortAllowed_iff wf_portPolicyFrom)
qed

lemma combine_allows_iff:
  assumes "\<forall>q \<in> set policies. wf_policy q"
  shows "isPortAllowedByPolicy n (combinePortPolicies policies) \<longleftrightarrow>
    valid_port n \<noteq> None \<and> (\<forall>q \<in> set policies. isPortAllowedByPolicy n q)"
  using assms combine_facts [OF assms]
  by (auto simp: isPortAllowed_iff valid_port_Some)

lemma pick_complete:
  assumes "0 \<le> rnd" and "rnd < 1" and "wf_policy policy" and "within_bounds policy"
  shows "case pickAvailablePort policy used defaults rnd of
      Some p \<Rightarrow> p \<in> port_space policy defaults \<and> p \<notin> used
    | None \<Rightarrow> port_space policy defaults \<subseteq> used"
proof (cases "portPolicyHasRestriction policy")
  case True
  then show ?thesis
    unfolding pickAvailablePort_def restricted_space [OF assms(3,4) True]
    using choose_fold_candidates [OF assms(1,2)] by simp
next
  case False
  define a where "a = max 1 (min 65535 (fst defaults))"
  define b where "b = max a (min 65535 (snd defaults))"
  have space: "port_space policy defaults = {a..b}"
    using False by (simp add: port_space_def a_def b_def Let_def)
  have ab: "a \<le> b" by (simp add: b_def)
  show ?thesis
  proof (cases "b - a + 1 \<le> 10000")
    case True
    then have "pickAvailablePort policy used defaults rnd =
        choose_candidate rnd (fold (addCandidate used) [a..b] [])"
      using False
      unfolding pickAvailablePort_def Let_def a_def [symmetric] b_def [symmetric]
      by (simp only: if_False if_True)
    then show ?thesis
      using choose_fold_candidates [OF assms(1,2), where used = used and ps = "[a..b]"]
      by (simp add: space split: option.splits)
  next
    case small: False
    let ?rot = "map (\<lambda>i. a + (\<lfloor>rnd * of_int (b - a + 1)\<rfloor> + i) mod (b - a + 1)) [0..b - a + 1 - 1]"
    have "pickAvailablePort policy used defaults rnd = find (\<lambda>port. port \<notin> used) ?rot"
      using False small
      unfolding pickAvailablePort_def Let_def a_def [symmetric] b_def [symmetric]
      by (simp only: if_False)
    moreover have "set ?rot = {a..b}"
      using rotation_covers [of "b - a + 1" a] ab by simp
    ultimately show ?thesis
      unfolding space by (auto simp: find_None_iff dest!: find_in split: option.split)
  qed
qed

section \<open>Properties\<close>

text \<open>
  C1: combining policies is intersection. The combined policy allows a port exactly when the
  port is valid and every policy allows it, whatever mixture of primary ranges, further
  ranges, single ports, unrestricted and deny-all policies is combined.
\<close>

theorem combinePortPolicies_intersection:
  assumes "\<forall>q \<in> set policies. wf_policy q"
  shows "isPortAllowedByPolicy n (combinePortPolicies policies) \<longleftrightarrow>
    valid_port n \<noteq> None \<and> (\<forall>q \<in> set policies. isPortAllowedByPolicy n q)"
  using assms by (rule combine_allows_iff)

definition example_policy :: port_policy where
  "example_policy = \<lparr>rangeStart = Some 20, rangeEnd = Some 30, allowlist = [80], ranges = None,
     denyAll = False, normalized = True\<rparr>"

lemma wf_example_policy: "wf_policy example_policy"
  by (simp add: wf_policy_def example_policy_def policy_ranges_def)

theorem combinePortPolicies_intersection_witness:
  "isPortAllowedByPolicy (num 80) (combinePortPolicies [example_policy, example_policy]) \<longleftrightarrow>
    valid_port (num 80) \<noteq> None \<and> isPortAllowedByPolicy (num 80) example_policy"
proof -
  have "\<forall>q \<in> set [example_policy, example_policy]. wf_policy q" by (simp add: wf_example_policy)
  from combinePortPolicies_intersection [OF this, of "num 80"] show ?thesis by simp
qed

text \<open>
  the two bisection searches are equivalent to linear membership. For every policy whose
  searched lists are sorted, \<open>isPortAllowedByPolicy\<close> is the linear reading of the policy.
\<close>

theorem isPortAllowedByPolicy_reference:
  assumes "wf_policy policy"
  shows "isPortAllowedByPolicy n policy \<longleftrightarrow>
    (\<exists>port. valid_port n = Some port \<and> policy_allows policy port)"
  using assms by (rule isPortAllowed_iff)

theorem isPortAllowedByPolicy_reference_witness:
  "isPortAllowedByPolicy (num 25) example_policy"
proof -
  have "valid_port (num 25) = Some 25" by (simp add: valid_port_Some)
  moreover have "policy_allows example_policy 25"
    by (simp add: policy_allows_def example_policy_def in_primary_range_def)
  ultimately show ?thesis
    using isPortAllowedByPolicy_reference [OF wf_example_policy, of "num 25"] by blast
qed

text \<open>
  a policy read from a host or user configuration allows exactly the ports the
  configuration names (its range, its further ranges, its allow list), and every valid port
  when it names none.
\<close>

theorem portPolicyFrom_allows:
  "isPortAllowedByPolicy n (portPolicyFrom (Some src)) \<longleftrightarrow>
    (\<exists>p. valid_port n = Some p \<and> (configured_ports src p \<or> (\<forall>x. \<not> configured_ports src x)))"
  by (rule portPolicyFrom_allows_iff)

theorem portPolicyFrom_allows_witness:
  "isPortAllowedByPolicy (num 443)
     (portPolicyFrom (Some (empty_source\<lparr>portRangeStart := JNum (num 400), portRangeEnd := JNum (num 500)\<rparr>)))"
proof -
  let ?src = "empty_source\<lparr>portRangeStart := JNum (num 400), portRangeEnd := JNum (num 500)\<rparr>"
  have "optionalPort (JNum (num 400)) = Some 400" "optionalPort (JNum (num 500)) = Some 500"
    by (simp_all add: optionalPort_def valid_port_Some)
  then have "configured_ports ?src 443"
    by (simp add: configured_ports_def configured_range_def)
  moreover have "valid_port (num 443) = Some 443" by (simp add: valid_port_Some)
  ultimately show ?thesis using portPolicyFrom_allows [of "num 443" ?src] by blast
qed

text \<open>
  C18: port selection is sound and complete. A chosen port lies in the policy (or in the
  default range of an unrestricted one) and is not in use; no port is returned only when
  every such port is in use, on the sampled and on the scanned branch alike.
\<close>

theorem pickAvailablePort_complete:
  assumes "0 \<le> rnd" and "rnd < 1" and "wf_policy policy" and "within_bounds policy"
  shows "case pickAvailablePort policy used defaults rnd of
      Some p \<Rightarrow> p \<in> port_space policy defaults \<and> p \<notin> used
    | None \<Rightarrow> port_space policy defaults \<subseteq> used"
  by (rule pick_complete [OF assms])

lemma within_bounds_example: "within_bounds example_policy"
  by (auto simp: within_bounds_def example_policy_def in_primary_range_def policy_ranges_def)

theorem pickAvailablePort_complete_witness:
  "case pickAvailablePort example_policy {20, 21} (10000, 20000) 0 of
      Some p \<Rightarrow> p \<in> port_space example_policy (10000, 20000) \<and> p \<notin> {20, 21}
    | None \<Rightarrow> port_space example_policy (10000, 20000) \<subseteq> {20, 21}"
  by (rule pickAvailablePort_complete [OF _ _ wf_example_policy within_bounds_example]) simp_all

text \<open>
  the allow list survives its stored form. Parsing the normalised text of any allow list
  gives back the same list of ports.
\<close>

theorem portAllowlist_roundtrip:
  "parsePortAllowlist (Some (normalizePortAllowlist value')) = parsePortAllowlist value'"
  unfolding normalizePortAllowlist_def
  using parsePortAllowlist_bounds sorted_parsePortAllowlist distinct_parsePortAllowlist
  by (intro parse_join_ports) auto

text \<open>
  combining a host policy with a preferred range restricts it to the range, except that a
  preferred range equal to the host's own primary range (or no valid range) leaves the whole
  host policy, its extra ports included.
\<close>

theorem combineHostPortPolicyWithRange_allows:
  "isPortAllowedByPolicy n (combineHostPortPolicyWithRange host a b) \<longleftrightarrow>
    isPortAllowedByPolicy n (portPolicyFrom host) \<and>
    (\<forall>s e. optionalPort a = Some s \<longrightarrow> optionalPort b = Some e \<longrightarrow> s \<le> e \<longrightarrow>
       \<not> (rangeStart (portPolicyFrom host) = Some s \<and> rangeEnd (portPolicyFrom host) = Some e) \<longrightarrow>
       (\<exists>p. valid_port n = Some p \<and> s \<le> p \<and> p \<le> e))"
proof -
  have opt: "optionalPort (JNum (num s)) = valid_port (num s)" for s
    by (simp add: optionalPort_def)
  have range: "isPortAllowedByPolicy n (portPolicyFrom (Some (empty_source\<lparr>portRangeStart := JNum (num s),
        portRangeEnd := JNum (num e)\<rparr>))) \<longleftrightarrow> (\<exists>p. valid_port n = Some p \<and> s \<le> p \<and> p \<le> e)"
    if "optionalPort a = Some s" "optionalPort b = Some e" "s \<le> e" for s e
  proof -
    have "configured_ports (empty_source\<lparr>portRangeStart := JNum (num s), portRangeEnd := JNum (num e)\<rparr>) p
        \<longleftrightarrow> s \<le> p \<and> p \<le> e" for p
      using that optionalPort_bounds
      by (fastforce simp: configured_ports_def configured_range_def empty_source_def opt
          parsePortAllowlist_def js_trim_def)
    then show ?thesis using that by (auto simp: portPolicyFrom_allows_iff)
  qed
  show ?thesis
    using range
    by (auto simp: combineHostPortPolicyWithRange_def Let_def combine_allows_iff
        wf_portPolicyFrom split: option.splits)
qed

theorem combineHostPortPolicyWithRange_allows_witness:
  "\<not> isPortAllowedByPolicy (num 600)
     (combineHostPortPolicyWithRange None (JNum (num 400)) (JNum (num 500)))"
proof -
  have "optionalPort (JNum (num 400)) = Some 400" "optionalPort (JNum (num 500)) = Some 500"
    by (simp_all add: optionalPort_def valid_port_Some)
  moreover have "rangeStart (portPolicyFrom None) = None"
    by (simp add: portPolicyFrom_def Let_def normalizedPolicy_def empty_source_def optionalPort_def)
  moreover have "valid_port (num 600) = Some 600" by (simp add: valid_port_Some)
  ultimately show ?thesis
    using combineHostPortPolicyWithRange_allows
      [of "num 600" None "JNum (num 400)" "JNum (num 500)"] by auto
qed

end
