(* ===== verification/Forward_Types.thy ===== *)
theory Forward_Types
  imports Prelude
begin

text \<open>
  From \<open>shared/forwardTypes.ts\<close>: the protocols of a forward rule and how a value from a form,
  an API call or the database is read as one.
\<close>

datatype forward_protocol = TCP | UDP | Both

text \<open>
  \<open>String(value ?? "").trim().toLowerCase()\<close>; the text of a boolean or a number is neither
  empty nor one of the words that are looked for, and is kept as a question mark.
\<close>

definition value_word :: "jsval \<Rightarrow> string" where
  "value_word v = (case v of JStr s \<Rightarrow> js_lower (js_trim s) | JUndef \<Rightarrow> '''' | JNull \<Rightarrow> '''' | _ \<Rightarrow> ''?'')"

text \<open>\<open>raw.replace(/[\s_+\/-]+/g, "")\<close>.\<close>

definition compact_word :: "string \<Rightarrow> string" where
  "compact_word raw = filter (\<lambda>c. \<not> js_space c \<and> c \<notin> set ''_+/-'') raw"

definition normalizeForwardRuleProtocol :: "jsval \<Rightarrow> forward_protocol \<Rightarrow> forward_protocol" where
  "normalizeForwardRuleProtocol protocol fallback =
     (let raw = value_word protocol in
      if raw = '''' then fallback
      else if raw = ''tcp'' then TCP
      else if raw = ''udp'' then UDP
      else if raw = ''both'' then Both
      else if compact_word raw \<in> set [''tcpudp'', ''udptcp'', ''tcpandudp'', ''udpandtcp''] then Both
      else fallback)"

definition forwardRuleProtocols :: "jsval \<Rightarrow> forward_protocol \<Rightarrow> forward_protocol list" where
  "forwardRuleProtocols protocol fallback =
     (case normalizeForwardRuleProtocol protocol fallback of
        UDP \<Rightarrow> [UDP] | Both \<Rightarrow> [TCP, UDP] | TCP \<Rightarrow> [TCP])"

text \<open>The name of a protocol, and reading it back.\<close>

fun protocol_name :: "forward_protocol \<Rightarrow> string" where
  "protocol_name TCP = ''tcp''" | "protocol_name UDP = ''udp''" | "protocol_name Both = ''both''"

lemma normalize_protocol_name [simp]: "normalizeForwardRuleProtocol (JStr (protocol_name p)) fb = p"
proof -
  have "js_lower (js_trim ''tcp'') = ''tcp''" "js_lower (js_trim ''udp'') = ''udp''"
    "js_lower (js_trim ''both'') = ''both''"
    by code_simp+
  then show ?thesis by (cases p) (simp_all add: normalizeForwardRuleProtocol_def value_word_def Let_def)
qed

lemma protocols_concrete: "set (forwardRuleProtocols v fb) \<subseteq> {TCP, UDP} \<and> forwardRuleProtocols v fb \<noteq> []"
  by (simp add: forwardRuleProtocols_def split: forward_protocol.split)

end
