(* ===== verification/Port_Reservations.thy ===== *)
theory Port_Reservations
  imports Port_Policy Forward_Types
begin

text \<open>
  \<open>server/portReservations.ts\<close>: ports of a host are reserved in memory while a rule is being
  created, before its row is in the database. A token of type \<open>Symbol\<close> is a number that is
  never used twice; the closure \<open>release\<close> of a reservation is the operation \<open>release\<close> on it,
  and its variable \<open>released\<close> is membership of the token in \<open>releasedTokens\<close>.
\<close>

section \<open>State\<close>

record reservation_entry =
  re_token :: nat
  re_protocol :: forward_protocol

record reservation =
  rv_hostId :: int
  rv_port :: int
  rv_protocol :: forward_protocol
  rv_token :: nat

record port_reservations =
  reservations :: "(int, (int, reservation_entry list) jsmap) jsmap"
  releasedTokens :: "nat set"
  nextToken :: nat

definition no_reservations :: port_reservations where
  "no_reservations = \<lparr>reservations = [], releasedTokens = {}, nextToken = 0\<rparr>"

definition protocolsConflict :: "forward_protocol \<Rightarrow> forward_protocol \<Rightarrow> bool" where
  "protocolsConflict left right = True"

definition normalizedHostId :: "jsval \<Rightarrow> int" where
  "normalizedHostId value = (case js_integer (to_number value) of
     Some hostId \<Rightarrow> if hostId > 0 then hostId else 0 | None \<Rightarrow> 0)"

definition normalizedPort :: "jsval \<Rightarrow> int" where
  "normalizedPort value = (case js_integer (to_number value) of
     Some port \<Rightarrow> if 1 \<le> port \<and> port \<le> 65535 then port else 0 | None \<Rightarrow> 0)"

section \<open>Operations\<close>

definition reservedHostPorts :: "jsval \<Rightarrow> jsval \<Rightarrow> port_reservations \<Rightarrow> int list" where
  "reservedHostPorts hostIdValue protocolValue s =
     (let protocol = normalizeForwardRuleProtocol protocolValue Both in
      case map_get (reservations s) (normalizedHostId hostIdValue) of
        None \<Rightarrow> []
      | Some hostReservations \<Rightarrow>
          map fst (filter (\<lambda>(port, entries).
            list_ex (\<lambda>e. protocolsConflict (re_protocol e) protocol) entries) hostReservations))"

text \<open>The host's table is created before the conflict check, as in the code.\<close>

definition tryReserveHostPort ::
  "jsval \<Rightarrow> jsval \<Rightarrow> jsval \<Rightarrow> port_reservations \<Rightarrow> reservation option \<times> port_reservations" where
  "tryReserveHostPort hostIdValue portValue protocolValue s =
     (let hostId = normalizedHostId hostIdValue;
          port = normalizedPort portValue;
          protocol = normalizeForwardRuleProtocol protocolValue Both
      in if hostId = 0 \<or> port = 0 then (None, s)
         else
           let hostReservations = (case map_get (reservations s) hostId of None \<Rightarrow> [] | Some m \<Rightarrow> m);
               s1 = s\<lparr>reservations := map_set hostId hostReservations (reservations s)\<rparr>;
               entries = (case map_get hostReservations port of None \<Rightarrow> [] | Some es \<Rightarrow> es)
           in if list_ex (\<lambda>e. protocolsConflict (re_protocol e) protocol) entries then (None, s1)
              else
                let token = nextToken s;
                    entries' = entries @ [\<lparr>re_token = token, re_protocol = protocol\<rparr>]
                in (Some \<lparr>rv_hostId = hostId, rv_port = port, rv_protocol = protocol, rv_token = token\<rparr>,
                    s1\<lparr>nextToken := Suc token,
                       reservations := map_set hostId (map_set port entries' hostReservations) (reservations s1)\<rparr>))"

definition release :: "reservation \<Rightarrow> port_reservations \<Rightarrow> port_reservations" where
  "release rv s =
     (if rv_token rv \<in> releasedTokens s then s
      else
        let s1 = s\<lparr>releasedTokens := insert (rv_token rv) (releasedTokens s)\<rparr> in
        case map_get (reservations s1) (rv_hostId rv) of
          None \<Rightarrow> s1
        | Some currentHost \<Rightarrow>
            (case map_get currentHost (rv_port rv) of
               None \<Rightarrow> s1
             | Some currentEntries \<Rightarrow>
                 let remaining = filter (\<lambda>e. re_token e \<noteq> rv_token rv) currentEntries;
                     host' = (if length remaining > 0 then map_set (rv_port rv) remaining currentHost
                              else map_delete (rv_port rv) currentHost)
                 in s1\<lparr>reservations := (if length host' = 0 then map_delete (rv_hostId rv) (reservations s1)
                       else map_set (rv_hostId rv) host' (reservations s1))\<rparr>))"

definition releaseHostPortReservations :: "reservation list \<Rightarrow> port_reservations \<Rightarrow> port_reservations" where
  "releaseHostPortReservations items s = fold release items s"

definition clearHostPortReservationsForTest :: "port_reservations \<Rightarrow> port_reservations" where
  "clearHostPortReservationsForTest s = s\<lparr>reservations := []\<rparr>"

text \<open>
  The two asynchronous operations. What the caller's checks answer, and what other tasks do to
  the table while this one waits, are arguments; a check may fail, which stands for its exception.
\<close>

datatype 'a async = Answer 'a | Failed

definition reserveSpecificHostPort ::
  "jsval \<Rightarrow> jsval \<Rightarrow> jsval \<Rightarrow> (port_reservations \<Rightarrow> port_reservations) \<Rightarrow> bool async option
     \<Rightarrow> port_reservations \<Rightarrow> reservation option async \<times> port_reservations" where
  "reserveSpecificHostPort hostId port protocol others isUsed s =
     (case tryReserveHostPort hostId port protocol s of
        (None, s1) \<Rightarrow> (Answer None, s1)
      | (Some rv, s1) \<Rightarrow>
          (case isUsed of
             None \<Rightarrow> (Answer (Some rv), s1)
           | Some (Answer used) \<Rightarrow>
               if used then (Answer None, release rv (others s1)) else (Answer (Some rv), others s1)
           | Some Failed \<Rightarrow> (Failed, release rv (others s1))))"

record attempt =
  at_findPort :: "int list \<Rightarrow> int option async"
  at_during_find :: "port_reservations \<Rightarrow> port_reservations"
  at_isUsed :: "(int \<Rightarrow> bool async) option"
  at_during_check :: "port_reservations \<Rightarrow> port_reservations"

definition max_attempts :: "jsval \<Rightarrow> nat" where
  "max_attempts v =
     (case to_number v of
        Fin q \<Rightarrow> nat \<lceil>max 1 (min 256 (if q = 0 then 64 else q))\<rceil>
      | NaN \<Rightarrow> 64 | PosInf \<Rightarrow> 256 | NegInf \<Rightarrow> 1)"

fun reserve_attempts ::
  "nat \<Rightarrow> (nat \<Rightarrow> attempt) \<Rightarrow> nat \<Rightarrow> jsval \<Rightarrow> jsval \<Rightarrow> port_reservations
     \<Rightarrow> reservation option async \<times> port_reservations" where
  "reserve_attempts 0 env i hostId protocol s = (Answer None, s)"
| "reserve_attempts (Suc n) env i hostId protocol s =
     (let found = at_findPort (env i) (reservedHostPorts hostId protocol s);
          s1 = at_during_find (env i) s
      in case found of
           Failed \<Rightarrow> (Failed, s1)
         | Answer None \<Rightarrow> (Answer None, s1)
         | Answer (Some port) \<Rightarrow>
             if port = 0 then (Answer None, s1)
             else
               (case tryReserveHostPort hostId (JNum (num port)) protocol s1 of
                  (None, s2) \<Rightarrow> reserve_attempts n env (Suc i) hostId protocol s2
                | (Some rv, s2) \<Rightarrow>
                    (case at_isUsed (env i) of
                       None \<Rightarrow> (Answer (Some rv), s2)
                     | Some check \<Rightarrow>
                         (let s3 = at_during_check (env i) s2 in
                          case check port of
                            Answer used \<Rightarrow>
                              if used then reserve_attempts n env (Suc i) hostId protocol (release rv s3)
                              else (Answer (Some rv), s3)
                          | Failed \<Rightarrow> (Failed, release rv s3)))))"

definition reserveAvailableHostPort ::
  "jsval \<Rightarrow> (nat \<Rightarrow> attempt) \<Rightarrow> jsval \<Rightarrow> jsval \<Rightarrow> port_reservations
     \<Rightarrow> reservation option async \<times> port_reservations" where
  "reserveAvailableHostPort maxAttempts env hostId protocol s =
     reserve_attempts (max_attempts maxAttempts) env 0 hostId protocol s"

section \<open>Who holds a port\<close>

definition holder :: "port_reservations \<Rightarrow> int \<Rightarrow> int \<Rightarrow> nat option" where
  "holder s h p =
     (case map_get (reservations s) h of
        None \<Rightarrow> None
      | Some m \<Rightarrow> (case map_get m p of Some (e # _) \<Rightarrow> Some (re_token e) | _ \<Rightarrow> None))"

text \<open>Each reserved port has exactly one entry, and no table is left empty.\<close>

definition wf_host_table :: "(int, reservation_entry list) jsmap \<Rightarrow> bool" where
  "wf_host_table m \<longleftrightarrow> wf_map m \<and> m \<noteq> [] \<and> (\<forall>(p, es) \<in> set m. length es = 1)"

definition wf_reservations :: "port_reservations \<Rightarrow> bool" where
  "wf_reservations s \<longleftrightarrow> wf_map (reservations s) \<and> (\<forall>(h, m) \<in> set (reservations s). wf_host_table m) \<and>
     (\<forall>h p t. holder s h p = Some t \<longrightarrow> t < nextToken s \<and> t \<notin> releasedTokens s) \<and>
     (\<forall>h p t h' p'. holder s h p = Some t \<longrightarrow> holder s h' p' = Some t \<longrightarrow> h = h' \<and> p = p') \<and>
     (\<forall>t \<in> releasedTokens s. t < nextToken s)"

lemma wf_no_reservations: "wf_reservations no_reservations"
  by (simp add: wf_reservations_def no_reservations_def holder_def)

lemma wf_table: "wf_reservations s \<Longrightarrow> map_get (reservations s) h = Some m \<Longrightarrow> wf_host_table m"
  by (auto simp: wf_reservations_def dest!: map_get_inD)

lemma table_entry:
  assumes "wf_reservations s" and "map_get (reservations s) h = Some m" and "map_get m p = Some es"
  shows "\<exists>e. es = [e] \<and> holder s h p = Some (re_token e)"
proof -
  have "length es = 1" using wf_table [OF assms(1,2)] assms(3) by (auto simp: wf_host_table_def dest!: map_get_inD)
  then obtain e where "es = [e]" by (cases es) auto
  then show ?thesis using assms by (simp add: holder_def)
qed

lemma holder_iff_reserved:
  assumes "wf_reservations s"
  shows "p \<in> set (reservedHostPorts (JNum (num h)) v s) \<longleftrightarrow> 0 < h \<and> holder s h p \<noteq> None \<or>
    h \<le> 0 \<and> holder s 0 p \<noteq> None"
proof -
  have "p \<in> set (map fst (filter (\<lambda>(port, entries). list_ex (\<lambda>e. protocolsConflict (re_protocol e) pr) entries) m))
      \<longleftrightarrow> holder s k p \<noteq> None" if m: "map_get (reservations s) k = Some m" for k m pr
  proof -
    have w: "wf_map m" "\<forall>(p, es) \<in> set m. length es = 1"
      using wf_table [OF assms m] by (auto simp: wf_host_table_def)
    have "p \<in> set (map fst (filter (\<lambda>(port, entries). list_ex (\<lambda>e. protocolsConflict (re_protocol e) pr) entries) m))
        \<longleftrightarrow> map_has m p"
      using w(2) by (force simp: map_has_keys protocolsConflict_def list_ex_iff length_Suc_conv image_iff)
    moreover have "map_has m p \<longleftrightarrow> holder s k p \<noteq> None"
      using table_entry [OF assms m, of p] m by (cases "map_get m p") (auto simp: map_has_def holder_def)
    ultimately show ?thesis by simp
  qed
  then show ?thesis
    by (auto simp: reservedHostPorts_def normalizedHostId_def holder_def Let_def split: option.splits if_splits)
qed

section \<open>Reserving\<close>

lemma holder_after:
  "reservations s' = map_set h m (reservations s) \<Longrightarrow>
     holder s' h' p' = (if h' = h then (case map_get m p' of Some (e # _) \<Rightarrow> Some (re_token e) | _ \<Rightarrow> None)
       else holder s h' p')"
  by (simp add: holder_def map_get_set)

lemma wf_host_table_set:
  assumes "wf_map m" and "\<forall>(q, es) \<in> set m. length es = 1"
  shows "wf_host_table (map_set p [e] m)"
proof -
  have "map_set p [e] m \<noteq> []" by (cases m) auto
  then show ?thesis using assms set_map_set [of p "[e]" m] by (auto simp: wf_host_table_def)
qed

lemma try_reserve_spec:
  fixes hv pv prv :: jsval
  assumes wf: "wf_reservations s"
  defines "h \<equiv> normalizedHostId hv" and "p \<equiv> normalizedPort pv"
  shows "case tryReserveHostPort hv pv prv s of
      (None, s') \<Rightarrow> s' = s \<and> (h = 0 \<or> p = 0 \<or> holder s h p \<noteq> None)
    | (Some rv, s') \<Rightarrow> h \<noteq> 0 \<and> p \<noteq> 0 \<and> holder s h p = None \<and> rv_hostId rv = h \<and> rv_port rv = p \<and>
        rv_token rv = nextToken s \<and> nextToken s' = Suc (nextToken s) \<and> releasedTokens s' = releasedTokens s \<and>
        wf_reservations s' \<and>
        holder s' = (\<lambda>h' p'. if h' = h \<and> p' = p then Some (nextToken s) else holder s h' p')"
proof (cases "h = 0 \<or> p = 0")
  case True
  then show ?thesis by (auto simp: tryReserveHostPort_def Let_def h_def p_def)
next
  case valid: False
  let ?m = "case map_get (reservations s) h of None \<Rightarrow> [] | Some m \<Rightarrow> m"
  let ?pr = "normalizeForwardRuleProtocol prv Both"
  show ?thesis
  proof (cases "map_get ?m p")
    case (Some es)
    then obtain m where m: "map_get (reservations s) h = Some m" by (cases "map_get (reservations s) h") auto
    obtain e where e: "es = [e]" "holder s h p = Some (re_token e)"
      using table_entry [OF wf m] Some m by auto
    have "map_set h m (reservations s) = reservations s" by (rule map_set_same [OF m])
    then have "tryReserveHostPort hv pv prv s = (None, s)"
      using valid m Some e unfolding tryReserveHostPort_def h_def [symmetric] p_def [symmetric] Let_def
      by (simp add: protocolsConflict_def)
    then show ?thesis using e by simp
  next
    case None
    define e where "e = \<lparr>re_token = nextToken s, re_protocol = ?pr\<rparr>"
    define rv where "rv = \<lparr>rv_hostId = h, rv_port = p, rv_protocol = ?pr, rv_token = nextToken s\<rparr>"
    define s' where "s' = s\<lparr>nextToken := Suc (nextToken s),
      reservations := map_set h (map_set p [e] ?m) (map_set h ?m (reservations s))\<rparr>"
    have run: "tryReserveHostPort hv pv prv s = (Some rv, s')"
      using valid None unfolding tryReserveHostPort_def h_def [symmetric] p_def [symmetric] Let_def
      by (simp add: e_def rv_def s'_def)
    have r: "reservations s' = map_set h (map_set p [e] ?m) (reservations s)" by (simp add: s'_def)
    have free: "holder s h p = None"
      using None by (auto simp: holder_def split: option.splits)
    have hold: "holder s' = (\<lambda>h' p'. if h' = h \<and> p' = p then Some (nextToken s) else holder s h' p')"
    proof (intro ext)
      fix h' p'
      have "holder s h p' = (case map_get ?m p' of Some (e # _) \<Rightarrow> Some (re_token e) | _ \<Rightarrow> None)"
        by (cases "map_get (reservations s) h") (simp_all add: holder_def)
      then show "holder s' h' p' = (if h' = h \<and> p' = p then Some (nextToken s) else holder s h' p')"
        by (simp add: holder_after [OF r] map_get_set e_def)
    qed
    have old: "wf_map ?m" "\<forall>(q, es) \<in> set ?m. length es = 1"
      using wf_table [OF wf, of h] by (cases "map_get (reservations s) h", auto simp: wf_host_table_def)+
    then have "wf_host_table (map_set p [e] ?m)"
      by (rule wf_host_table_set)
    moreover have "\<forall>(k, m) \<in> set (reservations s). wf_host_table m" using wf by (simp add: wf_reservations_def)
    ultimately have tables: "\<forall>(k, m) \<in> set (reservations s'). wf_host_table m"
      using set_map_set [of h "map_set p [e] ?m" "reservations s"] unfolding r by auto
    have lt: "t < nextToken s \<and> t \<notin> releasedTokens s" if "holder s a b = Some t" for a b t
      using that wf by (auto simp: wf_reservations_def)
    have inj: "a = c \<and> b = d" if "holder s a b = Some t" "holder s c d = Some t" for a b c d t
      using that wf unfolding wf_reservations_def by blast
    have new: "nextToken s \<notin> releasedTokens s" "\<forall>t \<in> releasedTokens s. t < nextToken s"
      using wf by (auto simp: wf_reservations_def)
    have fields: "nextToken s' = Suc (nextToken s)" "releasedTokens s' = releasedTokens s" by (simp_all add: s'_def)
    have maps: "wf_map (reservations s')" using wf by (simp add: r wf_reservations_def)
    have "wf_reservations s'"
      unfolding wf_reservations_def
    proof (intro conjI allI impI maps tables)
      fix a b t assume "holder s' a b = Some t"
      then show "t < nextToken s'" "t \<notin> releasedTokens s'"
        using lt [of a b t] new by (auto simp: hold fields split: if_splits)
    next
      fix a b t c d assume "holder s' a b = Some t" "holder s' c d = Some t"
      then show "a = c" "b = d"
        using inj [of a b t c d] lt [of a b t] lt [of c d t] by (auto simp: hold split: if_splits)
    next
      show "\<forall>t \<in> releasedTokens s'. t < nextToken s'" using new by (auto simp: fields)
    qed
    then show ?thesis unfolding run using valid free hold by (simp add: rv_def fields)
  qed
qed

section \<open>Releasing\<close>

text \<open>A reservation that was handed out: its token is known, and held at no other port.\<close>

definition issued_ok :: "port_reservations \<Rightarrow> reservation \<Rightarrow> bool" where
  "issued_ok s rv \<longleftrightarrow> rv_token rv < nextToken s \<and>
     (\<forall>h p. holder s h p = Some (rv_token rv) \<longrightarrow> h = rv_hostId rv \<and> p = rv_port rv)"

lemma release_holder:
  assumes wf: "wf_reservations s" and ok: "issued_ok s rv"
  shows "holder (release rv s) = (\<lambda>h p. if holder s h p = Some (rv_token rv) then None else holder s h p) \<and>
    nextToken (release rv s) = nextToken s \<and>
    releasedTokens (release rv s) = insert (rv_token rv) (releasedTokens s) \<and>
    wf_map (reservations (release rv s)) \<and> (\<forall>(h, m) \<in> set (reservations (release rv s)). wf_host_table m)"
proof -
  let ?t = "rv_token rv" and ?h = "rv_hostId rv" and ?p = "rv_port rv"
  have w: "wf_map (reservations s)" "\<forall>(h, m) \<in> set (reservations s). wf_host_table m"
    and dead: "\<And>h p. holder s h p = Some t \<Longrightarrow> t \<notin> releasedTokens s" for t
    using wf by (auto simp: wf_reservations_def)
  have only: "holder s h p \<noteq> Some ?t" if "h \<noteq> ?h \<or> p \<noteq> ?p" for h p
    using ok that by (auto simp: issued_ok_def)
  show ?thesis
  proof (cases "holder s ?h ?p = Some ?t")
    case True
    then obtain m es where m: "map_get (reservations s) ?h = Some m" "map_get m ?p = Some es"
      by (auto simp: holder_def split: option.splits list.splits)
    obtain e where e: "es = [e]" "re_token e = ?t" using table_entry [OF wf m] True by auto
    have live: "?t \<notin> releasedTokens s" using dead True by blast
    define m' where "m' = map_delete ?p m"
    have rel: "release rv s = s\<lparr>releasedTokens := insert ?t (releasedTokens s),
        reservations := (if m' = [] then map_delete ?h (reservations s) else map_set ?h m' (reservations s))\<rparr>"
      using live m e by (simp add: release_def Let_def m'_def)
    have tm: "wf_map m" "\<forall>(q, es) \<in> set m. length es = 1"
      using wf_table [OF wf m(1)] by (auto simp: wf_host_table_def)
    have "set m' \<subseteq> set m" unfolding m'_def by (rule set_map_delete)
    then have tab: "m' \<noteq> [] \<Longrightarrow> wf_host_table m'" using tm by (auto simp: wf_host_table_def m'_def)
    have gm: "map_get m' q = (if q = ?p then None else map_get m q)" for q by (simp add: m'_def map_get_delete)
    have "holder (release rv s) h q = (if h = ?h \<and> q = ?p then None else holder s h q)" for h q
    proof (cases "m' = []")
      case True
      then have "map_get m q = None" if "q \<noteq> ?p" for q using gm [of q] that by simp
      then show ?thesis using m True by (auto simp: rel holder_def map_get_delete)
    next
      case False
      then show ?thesis using m gm by (auto simp: rel holder_def map_get_set)
    qed
    then have "holder (release rv s) = (\<lambda>h p. if holder s h p = Some ?t then None else holder s h p)"
      using only True by (intro ext) auto
    moreover have "wf_map (reservations (release rv s))" using w(1) by (simp add: rel)
    moreover have "\<forall>(h, m) \<in> set (reservations (release rv s)). wf_host_table m"
      using w(2) tab set_map_set [of ?h m' "reservations s"] set_map_delete [of ?h "reservations s"] by (auto simp: rel)
    ultimately show ?thesis by (simp add: rel)
  next
    case False
    have same: "holder s h p \<noteq> Some ?t" for h p using only [of h p] False by auto
    have "reservations (release rv s) = reservations s \<and> nextToken (release rv s) = nextToken s
      \<and> releasedTokens (release rv s) = insert ?t (releasedTokens s)"
    proof (cases "\<exists>m es. ?t \<notin> releasedTokens s \<and> map_get (reservations s) ?h = Some m \<and> map_get m ?p = Some es")
      case True
      then obtain m es where m: "?t \<notin> releasedTokens s" "map_get (reservations s) ?h = Some m"
        "map_get m ?p = Some es" by blast
      obtain e where e: "es = [e]" "re_token e \<noteq> ?t" using table_entry [OF wf m(2,3)] same [of ?h ?p] by auto
      have "m \<noteq> []" using m(3) by auto
      then show ?thesis using m e by (simp add: release_def Let_def map_set_same)
    next
      case False
      then show ?thesis by (auto simp: release_def Let_def insert_absorb split: option.splits)
    qed
    moreover from this have "holder (release rv s) = holder s" by (simp add: holder_def fun_eq_iff)
    ultimately show ?thesis using same w by simp
  qed
qed

lemma release_wf:
  assumes wf: "wf_reservations s" and ok: "issued_ok s rv"
  shows "wf_reservations (release rv s)"
proof -
  note r = release_holder [OF wf ok]
  have lt: "t < nextToken s \<and> t \<notin> releasedTokens s" if "holder s a b = Some t" for a b t
    using that wf by (auto simp: wf_reservations_def)
  have inj: "a = c \<and> b = d" if "holder s a b = Some t" "holder s c d = Some t" for a b c d t
    using that wf unfolding wf_reservations_def by blast
  show ?thesis
    unfolding wf_reservations_def
  proof (intro conjI allI impI)
    fix a b t assume "holder (release rv s) a b = Some t"
    then show "t < nextToken (release rv s)" "t \<notin> releasedTokens (release rv s)"
      using r lt [of a b t] by (auto split: if_splits)
  next
    fix a b t c d assume "holder (release rv s) a b = Some t" "holder (release rv s) c d = Some t"
    then show "a = c" "b = d" using r inj [of a b t c d] by (auto split: if_splits)
  next
    show "\<forall>t \<in> releasedTokens (release rv s). t < nextToken (release rv s)"
      using r wf ok by (auto simp: wf_reservations_def issued_ok_def)
  qed (use r in auto)
qed

section \<open>Runs\<close>

text \<open>The reservations handed out so far, and the table.\<close>

type_synonym reserve_state = "reservation list \<times> port_reservations"

datatype reserve_op = TryReserve jsval jsval jsval | Release nat

fun reserve_step :: "reserve_op \<Rightarrow> reserve_state \<Rightarrow> reserve_state" where
  "reserve_step (TryReserve h p pr) (issued, s) =
     (case tryReserveHostPort h p pr s of
        (None, s') \<Rightarrow> (issued, s') | (Some rv, s') \<Rightarrow> (issued @ [rv], s'))"
| "reserve_step (Release i) (issued, s) =
     (if i < length issued then (issued, release (issued ! i) s) else (issued, s))"

definition live_set :: "reserve_state \<Rightarrow> reservation set" where
  "live_set st = {rv \<in> set (fst st). rv_token rv \<notin> releasedTokens (snd st)}"

definition wf_run :: "reserve_state \<Rightarrow> bool" where
  "wf_run st \<longleftrightarrow> wf_reservations (snd st) \<and> inj_on rv_token (set (fst st)) \<and>
     (\<forall>rv \<in> set (fst st). rv_token rv < nextToken (snd st) \<and> rv_hostId rv \<noteq> 0) \<and>
     (\<forall>h p t. holder (snd st) h p = Some t \<longleftrightarrow>
        (\<exists>rv \<in> live_set st. rv_hostId rv = h \<and> rv_port rv = p \<and> rv_token rv = t))"

lemma wf_run_init: "wf_run ([], no_reservations)"
  by (simp add: wf_run_def wf_no_reservations live_set_def) (simp add: holder_def no_reservations_def)

lemma wf_runD:
  assumes "wf_run (issued, s)" and "rv \<in> set issued"
  shows "issued_ok s rv"
  using assms unfolding wf_run_def issued_ok_def live_set_def
  by (auto dest: inj_onD)

lemma try_step_wf:
  assumes wf: "wf_run (issued, s)"
  shows "wf_run (reserve_step (TryReserve hv pv prv) (issued, s))"
proof (cases "tryReserveHostPort hv pv prv s")
  case (Pair r s')
  have ws: "wf_reservations s" using wf by (simp add: wf_run_def)
  note spec = try_reserve_spec [OF ws, of hv pv prv, unfolded Pair]
  show ?thesis
  proof (cases r)
    case None
    then show ?thesis using spec wf Pair by simp
  next
    case (Some rv)
    have old: "rv_token x < nextToken s" "rv_hostId x \<noteq> 0" if "x \<in> set issued" for x
      using wf that by (auto simp: wf_run_def)
    have inj: "inj_on rv_token (set issued)" using wf by (simp add: wf_run_def)
    have rel: "\<forall>t \<in> releasedTokens s. t < nextToken s" using ws by (simp add: wf_reservations_def)
    have live: "live_set (issued @ [rv], s') = insert rv (live_set (issued, s))"
      using spec Some rel by (auto simp: live_set_def)
    have hold: "holder s h p = Some t \<longleftrightarrow>
        (\<exists>rv \<in> live_set (issued, s). rv_hostId rv = h \<and> rv_port rv = p \<and> rv_token rv = t)" for h p t
      using wf by (simp add: wf_run_def)
    have "holder s' h p = Some t \<longleftrightarrow>
        (\<exists>rv \<in> live_set (issued @ [rv], s'). rv_hostId rv = h \<and> rv_port rv = p \<and> rv_token rv = t)" for h p t
    proof -
      have "rv_hostId x \<noteq> rv_hostId rv \<or> rv_port x \<noteq> rv_port rv" if "x \<in> live_set (issued, s)" for x
        using that hold [of "rv_hostId x" "rv_port x" "rv_token x"] spec Some by force
      then show ?thesis using spec Some hold [of h p t] by (auto simp: live)
    qed
    moreover have "inj_on rv_token (set (issued @ [rv]))"
      using inj old spec Some by (fastforce simp: inj_on_def)
    moreover have "\<forall>x \<in> set (issued @ [rv]). rv_token x < nextToken s' \<and> rv_hostId x \<noteq> 0"
      using old spec Some by (auto simp: less_Suc_eq)
    ultimately show ?thesis using spec Some Pair by (simp add: wf_run_def)
  qed
qed

lemma release_step_wf:
  assumes wf: "wf_run (issued, s)"
  shows "wf_run (reserve_step (Release i) (issued, s)) \<and>
    live_set (reserve_step (Release i) (issued, s)) = live_set (issued, s) - set (take 1 (drop i issued))"
proof (cases "i < length issued")
  case False
  then show ?thesis using wf by simp
next
  case True
  let ?rv = "issued ! i"
  have mem: "?rv \<in> set issued" using True by simp
  have ws: "wf_reservations s" using wf by (simp add: wf_run_def)
  note ok = wf_runD [OF wf mem]
  note r = release_holder [OF ws ok]
  have inj: "x = ?rv" if "x \<in> set issued" "rv_token x = rv_token ?rv" for x
    using wf that mem by (auto simp: wf_run_def dest: inj_onD)
  have live: "live_set (issued, release ?rv s) = live_set (issued, s) - {?rv}"
    using r inj by (auto simp: live_set_def)
  have hold: "holder s h p = Some t \<longleftrightarrow>
      (\<exists>rv \<in> live_set (issued, s). rv_hostId rv = h \<and> rv_port rv = p \<and> rv_token rv = t)" for h p t
    using wf by (simp add: wf_run_def)
  have "holder (release ?rv s) h p = Some t \<longleftrightarrow>
      (\<exists>rv \<in> live_set (issued, release ?rv s). rv_hostId rv = h \<and> rv_port rv = p \<and> rv_token rv = t)" for h p t
    using r hold [of h p t] inj by (auto simp: live) (auto simp: live_set_def)
  then have "wf_run (issued, release ?rv s)"
    using wf release_wf [OF ws ok] r by (simp add: wf_run_def)
  moreover have "take 1 (drop i issued) = [?rv]" using True by (simp add: take_Suc hd_drop_conv_nth)
  ultimately show ?thesis using True live by simp
qed

lemma wf_reserve_run: "wf_run (fold reserve_step ops ([], no_reservations))"
proof -
  have "wf_run (reserve_step op st)" if "wf_run st" for op st
    using that try_step_wf release_step_wf by (cases op; cases st) auto
  then have "wf_run st \<Longrightarrow> wf_run (fold reserve_step ops st)" for st
    by (induction ops arbitrary: st) auto
  then show ?thesis by (simp add: wf_run_init)
qed

abbreviation place :: "reservation \<Rightarrow> int \<times> int" where
  "place rv \<equiv> (rv_hostId rv, rv_port rv)"

lemma live_exclusive:
  assumes "wf_run st"
  shows "inj_on place (live_set st)"
proof (rule inj_onI)
  fix x y assume a: "x \<in> live_set st" "y \<in> live_set st" "place x = place y"
  have "holder (snd st) (rv_hostId x) (rv_port x) = Some (rv_token x)"
    "holder (snd st) (rv_hostId x) (rv_port x) = Some (rv_token y)"
    using assms a unfolding wf_run_def by auto
  then show "x = y" using assms a by (auto simp: wf_run_def live_set_def dest: inj_onD)
qed

lemma holder_live:
  assumes "wf_run st"
  shows "holder (snd st) h p \<noteq> None \<longleftrightarrow> (h, p) \<in> place ` live_set st"
proof -
  have "holder (snd st) h p = Some t \<longleftrightarrow>
      (\<exists>rv \<in> live_set st. rv_hostId rv = h \<and> rv_port rv = p \<and> rv_token rv = t)" for t
    using assms by (simp add: wf_run_def)
  then show ?thesis by (auto simp: image_iff)
qed

lemma no_host_zero: "wf_run st \<Longrightarrow> (0, p) \<notin> place ` live_set st"
  by (auto simp: wf_run_def live_set_def)

lemma reserved_ports_live:
  assumes "wf_run st"
  shows "set (reservedHostPorts hv pr (snd st)) = {p. (normalizedHostId hv, p) \<in> place ` live_set st}"
proof -
  let ?h = "normalizedHostId hv"
  have "reservedHostPorts hv pr (snd st) = reservedHostPorts (JNum (num ?h)) pr (snd st)"
    by (simp add: reservedHostPorts_def normalizedHostId_def split: option.split)
  moreover have "?h \<ge> 0" by (simp add: normalizedHostId_def split: option.split)
  moreover have "wf_reservations (snd st)" using assms by (simp add: wf_run_def)
  ultimately show ?thesis
    using holder_iff_reserved [of "snd st" _ ?h pr] holder_live [OF assms] no_host_zero [OF assms]
    by (cases "?h = 0") (auto simp: set_eq_iff)
qed

section \<open>Reserving whatever port is free\<close>

text \<open>An attempt that is not interfered with, with a usage check of its own.\<close>

definition quiet_attempt ::
  "(nat \<Rightarrow> int list \<Rightarrow> int option) \<Rightarrow> (nat \<Rightarrow> (int \<Rightarrow> bool async) option) \<Rightarrow> nat \<Rightarrow> attempt" where
  "quiet_attempt find_port checks i = \<lparr>at_findPort = \<lambda>avoid. Answer (find_port i avoid), at_during_find = id,
     at_isUsed = checks i, at_during_check = id\<rparr>"

lemma quiet_fields [simp]:
  "at_findPort (quiet_attempt f checks i) avoid = Answer (f i avoid)"
  "at_during_find (quiet_attempt f checks i) s = s"
  "at_isUsed (quiet_attempt f checks i) = checks i"
  "at_during_check (quiet_attempt f checks i) s = s"
  by (simp_all add: quiet_attempt_def)

text \<open>
  The outcome of the attempts, in terms of who holds which port: a port is granted or the table
  of holders is what it was, whether the attempts run out, no port is found or a check fails.
\<close>

definition granted_or_unchanged ::
  "int set \<Rightarrow> reserve_state \<Rightarrow> int \<Rightarrow> (nat \<Rightarrow> (int \<Rightarrow> bool async) option) \<Rightarrow> reservation option async \<times> port_reservations \<Rightarrow> bool" where
  "granted_or_unchanged space st h checks out \<longleftrightarrow>
     (case fst out of
        Answer (Some rv) \<Rightarrow> rv_hostId rv = h \<and> rv_port rv \<in> space \<and> (h, rv_port rv) \<notin> place ` live_set st \<and>
          (\<exists>i. checks i = None \<or> (\<exists>c. checks i = Some c \<and> c (rv_port rv) = Answer False)) \<and>
          holder (snd out) = (\<lambda>h' p. if h' = h \<and> p = rv_port rv then Some (rv_token rv) else holder (snd st) h' p)
      | _ \<Rightarrow> holder (snd out) = holder (snd st))"

text \<open>
  What \<open>reserveAvailableHostPort\<close> needs of its \<open>findPort\<close>: a port it finds is a valid port of
  its space outside the ports it was told to avoid, and it finds none only when the space is
  exhausted.
\<close>

locale port_finder =
  fixes find_port :: "nat \<Rightarrow> int list \<Rightarrow> int option"
    and space :: "int set"
  assumes found: "find_port i avoid = Some p \<Longrightarrow> p \<in> space - set avoid"
    and exhausted: "find_port i avoid = None \<Longrightarrow> space \<subseteq> set avoid"
    and valid: "p \<in> space \<Longrightarrow> 1 \<le> p \<and> p \<le> 65535"
begin

text \<open>The port that was found can always be reserved.\<close>

lemma found_reservable:
  assumes wf: "wf_run st" and h: "0 < h"
    and p: "find_port i (reservedHostPorts (JNum (num h)) pr (snd st)) = Some p"
  shows "\<exists>rv s'. tryReserveHostPort (JNum (num h)) (JNum (num p)) pr (snd st) = (Some rv, s') \<and> place rv = (h, p) \<and>
    p \<in> space \<and> (h, p) \<notin> place ` live_set st \<and> p \<noteq> 0 \<and> rv_token rv = nextToken (snd st)"
proof -
  have ids: "normalizedHostId (JNum (num h)) = h" using h by (simp add: normalizedHostId_def)
  have sp: "p \<in> space" "p \<notin> set (reservedHostPorts (JNum (num h)) pr (snd st))" using found [OF p] by auto
  then have ports: "normalizedPort (JNum (num p)) = p" "p \<noteq> 0" using valid [OF sp(1)] by (auto simp: normalizedPort_def)
  have free: "(h, p) \<notin> place ` live_set st" using sp(2) reserved_ports_live [OF wf, of "JNum (num h)" pr] ids by simp
  then have "holder (snd st) h p = None" using holder_live [OF wf, of h p] by auto
  then show ?thesis
    using try_reserve_spec [of "snd st" "JNum (num h)" "JNum (num p)" pr] wf ids ports h sp(1) free
    by (cases "tryReserveHostPort (JNum (num h)) (JNum (num p)) pr (snd st)")
      (auto simp: wf_run_def split: option.splits)
qed

lemma attempts_outcome:
  assumes "wf_run st" and "0 < h"
  shows "granted_or_unchanged space st h checks (reserve_attempts n (quiet_attempt find_port checks) i (JNum (num h)) pr (snd st))"
  using assms(1)
proof (induction n arbitrary: i st)
  case 0
  then show ?case by (simp add: granted_or_unchanged_def)
next
  case (Suc n)
  obtain issued s where st: "st = (issued, s)" by (cases st)
  let ?res = "reservedHostPorts (JNum (num h)) pr s"
  show ?case
  proof (cases "find_port i ?res")
    case None
    then show ?thesis by (simp add: st granted_or_unchanged_def)
  next
    case (Some p)
    then obtain rv s' where rv: "tryReserveHostPort (JNum (num h)) (JNum (num p)) pr s = (Some rv, s')"
      "place rv = (h, p)" "p \<in> space" "(h, p) \<notin> place ` live_set st" "p \<noteq> 0" "rv_token rv = nextToken s"
      using found_reservable [OF Suc.prems assms(2), of i pr p] by (auto simp: st)
    have ws: "wf_reservations s" using Suc.prems by (simp add: st wf_run_def)
    have hp: "normalizedHostId (JNum (num h)) = h" "normalizedPort (JNum (num p)) = p"
      using assms(2) valid [OF rv(3)] by (auto simp: normalizedHostId_def normalizedPort_def)
    have spec: "wf_reservations s'" "holder s h p = None"
      "holder s' = (\<lambda>h' p'. if h' = h \<and> p' = p then Some (nextToken s) else holder s h' p')"
      using try_reserve_spec [OF ws, of "JNum (num h)" "JNum (num p)" pr] rv(1) hp by auto
    have run: "wf_run (issued @ [rv], s')"
      using try_step_wf [of issued s "JNum (num h)" "JNum (num p)" pr] Suc.prems rv(1) by (simp add: st)
    define st2 where "st2 = (issued @ [rv], release rv s')"
    have run2: "wf_run st2"
      using release_step_wf [OF run, of "length issued"] by (simp add: st2_def nth_append)
    have "holder (release rv s') = (\<lambda>a b. if holder s' a b = Some (rv_token rv) then None else holder s' a b)"
      using release_holder [OF spec(1) wf_runD [OF run]] by simp
    moreover have "holder s a b \<noteq> Some (nextToken s)" for a b
      using ws by (auto simp: wf_reservations_def)
    ultimately have undone: "holder (snd st2) = holder (snd st)"
      using spec rv(6) by (auto simp: st2_def st fun_eq_iff)
    have live: "place ` live_set st2 = place ` live_set st"
      using holder_live [OF run2] holder_live [OF Suc.prems] undone by (auto simp: set_eq_iff)
    have grant: "granted_or_unchanged space st h checks (Answer (Some rv), s')"
      if "checks i = None \<or> (\<exists>c. checks i = Some c \<and> c p = Answer False)"
      using that rv spec by (auto simp: granted_or_unchanged_def st fun_eq_iff)
    have retry: "granted_or_unchanged space st h checks (reserve_attempts n (quiet_attempt find_port checks) (Suc i) (JNum (num h)) pr (release rv s'))"
    proof -
      have s2: "snd st2 = release rv s'" by (simp add: st2_def)
      show ?thesis
        using Suc.IH [OF run2, of "Suc i"] unfolding granted_or_unchanged_def undone live unfolding s2 .
    qed
    have fail: "granted_or_unchanged space st h checks (Failed, release rv s')"
      using undone by (simp add: granted_or_unchanged_def st2_def)
    show ?thesis
      using Some rv grant retry fail
      by (auto simp: st Let_def split: option.split async.split)
  qed
qed

text \<open>Without a usage check the first attempt decides.\<close>

lemma unchecked_complete:
  assumes wf: "wf_run st" and h: "0 < h" and n: "n \<noteq> 0"
    and none: "fst (reserve_attempts n (quiet_attempt find_port (\<lambda>_. None)) i (JNum (num h)) pr (snd st)) = Answer None"
  shows "space \<subseteq> set (reservedHostPorts (JNum (num h)) pr (snd st))"
proof (cases "find_port i (reservedHostPorts (JNum (num h)) pr (snd st))")
  case None
  then show ?thesis by (rule exhausted)
next
  case (Some p)
  then obtain m rv s' where "n = Suc m" "tryReserveHostPort (JNum (num h)) (JNum (num p)) pr (snd st) = (Some rv, s')" "p \<noteq> 0"
    using found_reservable [OF wf h Some] n by (cases n) auto
  with none Some show ?thesis by simp
qed

end

text \<open>
  The finder of the program is \<open>pickAvailablePort\<close> on a policy read from its source, avoiding
  the used and the reserved ports; the random numbers are in \<open>[0, 1)\<close>.
\<close>

definition policy_finder ::
  "port_policy_source \<Rightarrow> int set \<Rightarrow> int \<times> int \<Rightarrow> (nat \<Rightarrow> rat) \<Rightarrow> nat \<Rightarrow> int list \<Rightarrow> int option" where
  "policy_finder src used defaults rnd i avoid =
     pickAvailablePort (portPolicyFrom (Some src)) (used \<union> set avoid) defaults (frac (rnd i))"

lemma port_space_bounds:
  "p \<in> port_space (portPolicyFrom (Some src)) defaults \<Longrightarrow> 1 \<le> p \<and> p \<le> 65535"
  using within_bounds_portPolicyFrom [of src]
    isPortAllowed_iff [OF wf_portPolicyFrom [of "Some src"]]
  by (auto simp: port_space_def Let_def within_bounds_def policy_allows_def split: if_splits)

interpretation policy: port_finder "policy_finder src used defaults rnd"
    "port_space (portPolicyFrom (Some src)) defaults - used"
  for src used defaults rnd
proof
  fix i avoid
  note c = pick_complete [where rnd = "frac (rnd i)" and policy = "portPolicyFrom (Some src)"
      and used = "used \<union> set avoid" and defaults = defaults,
      OF frac_ge_0 frac_lt_1 wf_portPolicyFrom within_bounds_portPolicyFrom]
  show "p \<in> port_space (portPolicyFrom (Some src)) defaults - used - set avoid"
    if "policy_finder src used defaults rnd i avoid = Some p" for p
    using c that by (simp add: policy_finder_def)
  show "port_space (portPolicyFrom (Some src)) defaults - used \<subseteq> set avoid"
    if "policy_finder src used defaults rnd i avoid = None"
    using c that by (auto simp: policy_finder_def)
  show "1 \<le> p \<and> p \<le> 65535" if "p \<in> port_space (portPolicyFrom (Some src)) defaults - used" for p
    using that port_space_bounds [of p src defaults] by simp
qed

lemma max_attempts_pos: "max_attempts v \<noteq> 0"
proof -
  have "0 < \<lceil>max 1 (min 256 q)\<rceil>" for q :: rat by (simp add: zero_less_ceiling less_max_iff_disj)
  then have "nat \<lceil>max 1 (min 256 q)\<rceil> \<noteq> 0" for q :: rat by (simp add: not_le)
  then show ?thesis by (auto simp: max_attempts_def simp del: nat_eq_iff split: jsnum.split)
qed

section \<open>Properties\<close>

text \<open>
  C6: Reserved ports are exclusive. After any sequence of reservations and releases (repeated
  releases included), no two live reservations are for the same port of the same host; a
  reservation is refused exactly for an invalid host or port or a port that is held; the
  reserved ports that are reported are exactly the held ones; and a release ends the reservation
  it belongs to and no other.
\<close>

theorem port_reservations_exclusive:
  "let st = fold reserve_step ops ([], no_reservations) in
     inj_on (\<lambda>rv. (rv_hostId rv, rv_port rv)) (live_set st) \<and>
     (fst (tryReserveHostPort hv pv prv (snd st)) = None \<longleftrightarrow>
        normalizedHostId hv = 0 \<or> normalizedPort pv = 0 \<or>
        (normalizedHostId hv, normalizedPort pv) \<in> (\<lambda>rv. (rv_hostId rv, rv_port rv)) ` live_set st) \<and>
     set (reservedHostPorts hv prv (snd st)) =
        {p. (normalizedHostId hv, p) \<in> (\<lambda>rv. (rv_hostId rv, rv_port rv)) ` live_set st} \<and>
     live_set (reserve_step (Release i) st) = live_set st - set (take 1 (drop i (fst st)))"
  unfolding Let_def
proof (intro conjI)
  let ?st = "fold reserve_step ops ([], no_reservations)"
  have wf: "wf_run ?st" by (rule wf_reserve_run)
  then have ws: "wf_reservations (snd ?st)" by (simp add: wf_run_def)
  show "inj_on place (live_set ?st)" by (rule live_exclusive [OF wf])
  show "fst (tryReserveHostPort hv pv prv (snd ?st)) = None \<longleftrightarrow> normalizedHostId hv = 0 \<or> normalizedPort pv = 0 \<or>
      (normalizedHostId hv, normalizedPort pv) \<in> place ` live_set ?st"
    unfolding holder_live [OF wf, symmetric] using try_reserve_spec [OF ws, of hv pv prv]
    by (auto split: prod.splits option.splits)
  show "set (reservedHostPorts hv prv (snd ?st)) = {p. (normalizedHostId hv, p) \<in> place ` live_set ?st}"
    by (rule reserved_ports_live [OF wf])
  show "live_set (reserve_step (Release i) ?st) = live_set ?st - set (take 1 (drop i (fst ?st)))"
    using release_step_wf [of "fst ?st" "snd ?st" i] wf by simp
qed

text \<open>
  Looking for a free port leaks nothing. With \<open>findPort\<close> choosing from a port policy, any
  usage checks and nobody interfering, \<open>reserveAvailableHostPort\<close> either grants a port of the
  policy that was neither used nor held and that a check (if there is one) reported free, and
  holds just that port more; or it grants none, by running out of attempts or by a failing
  check, and every port is held by whom it was held before. Without a check it grants none only
  when every port of the policy is used or held.
\<close>

theorem reserve_available_port:
  assumes "0 < h" and "st = fold reserve_step ops ([], no_reservations)"
  shows "granted_or_unchanged (port_space (portPolicyFrom (Some src)) defaults - used) st h checks
      (reserveAvailableHostPort tries (quiet_attempt (policy_finder src used defaults rnd) checks)
        (JNum (num h)) pr (snd st)) \<and>
    (if fst (reserveAvailableHostPort tries (quiet_attempt (policy_finder src used defaults rnd) (\<lambda>_. None))
        (JNum (num h)) pr (snd st)) = Answer None then
      port_space (portPolicyFrom (Some src)) defaults - used \<subseteq>
        {p. (h, p) \<in> (\<lambda>rv. (rv_hostId rv, rv_port rv)) ` live_set st} else True)"
proof -
  have wf: "wf_run st" unfolding assms(2) by (rule wf_reserve_run)
  have "normalizedHostId (JNum (num h)) = h" using assms(1) by (simp add: normalizedHostId_def)
  then have r: "set (reservedHostPorts (JNum (num h)) pr (snd st)) = {p. (h, p) \<in> place ` live_set st}" for pr
    using reserved_ports_live [OF wf, of "JNum (num h)" pr] by simp
  show ?thesis
    unfolding reserveAvailableHostPort_def
    using policy.attempts_outcome [OF wf assms(1)]
      policy.unchecked_complete [OF wf assms(1) max_attempts_pos, unfolded r]
    by simp
qed

theorem reserve_available_port_witness:
  "granted_or_unchanged (port_space (portPolicyFrom (Some empty_source)) (10000, 10002) - {10001}) ([], no_reservations) 7
      (\<lambda>_. None)
      (reserveAvailableHostPort JUndef (quiet_attempt (policy_finder empty_source {10001} (10000, 10002) (\<lambda>_. 0)) (\<lambda>_. None))
        (JNum (num 7)) JNull no_reservations) \<and>
    (if fst (reserveAvailableHostPort JUndef (quiet_attempt (policy_finder empty_source {10001} (10000, 10002) (\<lambda>_. 0)) (\<lambda>_. None))
        (JNum (num 7)) JNull no_reservations) = Answer None then
      port_space (portPolicyFrom (Some empty_source)) (10000, 10002) - {10001} \<subseteq>
        {p. (7, p) \<in> (\<lambda>rv. (rv_hostId rv, rv_port rv)) ` live_set ([], no_reservations)} else True)"
  using reserve_available_port [of 7 "([], no_reservations)" "[]"] by simp

end
