(* ===== verification/Billing_Time.thy ===== *)
theory Billing_Time
  imports Prelude
begin

text \<open>
  \<open>shared/billingTime.ts\<close>: the calendar of billing periods, kept in the time zone of China
  whatever the zone of the server. What the file uses of the library: \<open>Date.UTC\<close> and the fields
  of a date follow the algorithms of the ECMAScript specification (day numbers of years and
  months in the proleptic Gregorian calendar); the data of the time zone is the parameter
  \<open>zone\<close>, the offset in milliseconds at an instant, and \<open>Intl.DateTimeFormat\<close> shows the calendar
  fields of the instant plus that offset (years from 1 on, earlier ones would be shown as BC).
  A \<open>Date\<close> is its number of milliseconds, an invalid one is \<open>None\<close>; instants beyond the range
  of \<open>Date\<close>, 275000 years from now, are not cut off.
\<close>

section \<open>The calendar of the library\<close>

definition day_from_year :: "int \<Rightarrow> int" where
  "day_from_year y =
     365 * (y - 1970) + (y - 1969) div 4 - (y - 1901) div 100 + (y - 1601) div 400"

definition leap_year :: "int \<Rightarrow> bool" where
  "leap_year y \<longleftrightarrow> y mod 4 = 0 \<and> (y mod 100 \<noteq> 0 \<or> y mod 400 = 0)"

definition month_starts :: "bool \<Rightarrow> int list" where
  "month_starts leap =
     (if leap then [0, 31, 60, 91, 121, 152, 182, 213, 244, 274, 305, 335, 366]
      else [0, 31, 59, 90, 120, 151, 181, 212, 243, 273, 304, 334, 365])"

definition month_start :: "int \<Rightarrow> int \<Rightarrow> int" where
  "month_start y m = month_starts (leap_year y) ! nat m"

text \<open>\<open>MakeDay\<close> with a month counted from 0 that may lie beyond the year.\<close>

definition make_day :: "int \<Rightarrow> int \<Rightarrow> int \<Rightarrow> int" where
  "make_day year month date =
     (let y = year + month div 12 in day_from_year y + month_start y (month mod 12) + date - 1)"

definition year_of_day :: "int \<Rightarrow> int" where
  "year_of_day k =
     (let y = 1970 + k * 400 div 146097
      in if k < day_from_year y then y - 1 else if day_from_year (y + 1) \<le> k then y + 1 else y)"

text \<open>Year, month from 1 and day of the month of a day number.\<close>

definition civil_of_day :: "int \<Rightarrow> int \<times> int \<times> int" where
  "civil_of_day k =
     (let y = year_of_day k;
          i = k - day_from_year y;
          m = int (length (filter (\<lambda>start. start \<le> i) (take 11 (tl (month_starts (leap_year y))))))
      in (y, m + 1, i - month_start y m + 1))"

definition MS_PER_DAY :: int where
  "MS_PER_DAY = 86400000"

definition day_time :: "int \<Rightarrow> int \<Rightarrow> int \<Rightarrow> int \<Rightarrow> int" where
  "day_time hour minute second millisecond = hour * 3600000 + minute * 60000 + second * 1000 + millisecond"

text \<open>Years from 0 to 99 are years of the twentieth century for \<open>Date.UTC\<close>.\<close>

definition date_UTC :: "int \<Rightarrow> int \<Rightarrow> int \<Rightarrow> int \<Rightarrow> int \<Rightarrow> int \<Rightarrow> int \<Rightarrow> int" where
  "date_UTC year month date hour minute second millisecond =
     make_day (if 0 \<le> year \<and> year \<le> 99 then 1900 + year else year) month date * MS_PER_DAY
       + day_time hour minute second millisecond"

section \<open>Billing dates\<close>

record calendar_parts =
  cp_year :: int
  cp_month :: int
  cp_day :: int
  cp_hour :: int
  cp_minute :: int
  cp_second :: int

datatype billing_error = InvalidDate | InvalidCalendarDate | DateOutOfRange | TimeOutOfRange

type_synonym 'a billing = "billing_error + 'a"

definition parts_at :: "(int \<Rightarrow> int) \<Rightarrow> int \<Rightarrow> calendar_parts" where
  "parts_at zone t =
     (let l = t + zone t;
          (y, m, d) = civil_of_day (l div MS_PER_DAY);
          r = l mod MS_PER_DAY
      in \<lparr>cp_year = y, cp_month = m, cp_day = d, cp_hour = r div 3600000,
          cp_minute = r div 60000 mod 60, cp_second = r div 1000 mod 60\<rparr>)"

definition billingCalendarParts :: "(int \<Rightarrow> int) \<Rightarrow> int option \<Rightarrow> calendar_parts billing" where
  "billingCalendarParts zone value =
     (case value of None \<Rightarrow> Inl InvalidDate | Some t \<Rightarrow> Inr (parts_at zone t))"

definition billingDaysInMonth :: "int \<Rightarrow> int \<Rightarrow> int" where
  "billingDaysInMonth year month =
     snd (snd (civil_of_day (date_UTC year month 0 0 0 0 0 div MS_PER_DAY)))"

text \<open>The loop of \<open>billingDateTime\<close> with the attempts that remain.\<close>

fun settle :: "(int \<Rightarrow> int) \<Rightarrow> int \<Rightarrow> int \<Rightarrow> nat \<Rightarrow> int \<Rightarrow> int" where
  "settle zone target millisecond 0 candidate = candidate"
| "settle zone target millisecond (Suc attempts) candidate =
     (let r = parts_at zone candidate;
          rendered = date_UTC (cp_year r) (cp_month r - 1) (cp_day r) (cp_hour r) (cp_minute r) (cp_second r) millisecond;
          adjustment = target - rendered
      in if adjustment = 0 then candidate + adjustment
         else settle zone target millisecond attempts (candidate + adjustment))"

definition time_in_range :: "int \<Rightarrow> int \<Rightarrow> int \<Rightarrow> int \<Rightarrow> bool" where
  "time_in_range hour minute second millisecond \<longleftrightarrow>
     \<not> (hour < 0 \<or> hour > 23 \<or> minute < 0 \<or> minute > 59 \<or> second < 0 \<or> second > 59
        \<or> millisecond < 0 \<or> millisecond > 999)"

definition billingDateTime_int ::
  "(int \<Rightarrow> int) \<Rightarrow> int \<Rightarrow> int \<Rightarrow> int \<Rightarrow> int \<Rightarrow> int \<Rightarrow> int \<Rightarrow> int \<Rightarrow> int billing" where
  "billingDateTime_int zone year month day hour minute second millisecond =
     (if month < 1 \<or> month > 12 \<or> day < 1 \<or> day > billingDaysInMonth year month then Inl DateOutOfRange
      else if \<not> time_in_range hour minute second millisecond then Inl TimeOutOfRange
      else
        let target = date_UTC year (month - 1) day hour minute second millisecond
        in Inr (settle zone target millisecond 4 target))"

definition billingDateTime ::
  "(int \<Rightarrow> int) \<Rightarrow> jsnum \<Rightarrow> jsnum \<Rightarrow> jsnum \<Rightarrow> jsnum \<Rightarrow> jsnum \<Rightarrow> jsnum \<Rightarrow> jsnum \<Rightarrow> int billing" where
  "billingDateTime zone year month day hour minute second millisecond =
     (case (js_integer year, js_integer month, js_integer day, js_integer hour, js_integer minute,
            js_integer second, js_integer millisecond) of
        (Some y, Some m, Some d, Some h, Some mi, Some s, Some ms) \<Rightarrow> billingDateTime_int zone y m d h mi s ms
      | _ \<Rightarrow> Inl InvalidCalendarDate)"

definition billingStartOfDay :: "(int \<Rightarrow> int) \<Rightarrow> int \<Rightarrow> int \<Rightarrow> int \<Rightarrow> int billing" where
  "billingStartOfDay zone year month day = billingDateTime_int zone year month day 0 0 0 0"

definition billingStartOfCalendarDay :: "(int \<Rightarrow> int) \<Rightarrow> int option \<Rightarrow> int billing" where
  "billingStartOfCalendarDay zone value =
     (case billingCalendarParts zone value of
        Inl e \<Rightarrow> Inl e | Inr p \<Rightarrow> billingStartOfDay zone (cp_year p) (cp_month p) (cp_day p))"

text \<open>\<open>Math.trunc\<close> and the month \<open>n\<close> months after a month.\<close>

definition js_trunc :: "rat \<Rightarrow> int" where
  "js_trunc q = (if 0 \<le> q then \<lfloor>q\<rfloor> else \<lceil>q\<rceil>)"

definition shift_month :: "int \<Rightarrow> int \<Rightarrow> int \<Rightarrow> int \<times> int" where
  "shift_month year month n =
     (let monthIndex = year * 12 + month - 1 + n; y = monthIndex div 12 in (y, monthIndex - y * 12 + 1))"

definition billingAddMonthsClamped :: "(int \<Rightarrow> int) \<Rightarrow> int option \<Rightarrow> rat \<Rightarrow> int billing" where
  "billingAddMonthsClamped zone value months =
     (case value of
        None \<Rightarrow> Inl InvalidDate
      | Some t \<Rightarrow>
          (let current = parts_at zone t;
               (year, month) = shift_month (cp_year current) (cp_month current) (js_trunc months);
               day = min (cp_day current) (billingDaysInMonth year month)
           in billingDateTime_int zone year month day (cp_hour current) (cp_minute current) (cp_second current)
                (t mod 1000)))"

definition billingMonthStart :: "(int \<Rightarrow> int) \<Rightarrow> int option \<Rightarrow> int billing" where
  "billingMonthStart zone reference =
     (case billingCalendarParts zone reference of
        Inl e \<Rightarrow> Inl e | Inr p \<Rightarrow> billingStartOfDay zone (cp_year p) (cp_month p) 1)"

definition min_days :: "int option \<Rightarrow> int \<Rightarrow> int" where
  "min_days a b = (case a of None \<Rightarrow> b | Some x \<Rightarrow> min x b)"

definition billingMonthlyBoundary ::
  "(int \<Rightarrow> int) \<Rightarrow> int option \<Rightarrow> jsval \<Rightarrow> rat \<Rightarrow> jsval \<Rightarrow> int billing" where
  "billingMonthlyBoundary zone reference resetDay monthOffset maximumResetDay =
     (case billingCalendarParts zone reference of
        Inl e \<Rightarrow> Inl e
      | Inr current \<Rightarrow>
          (let (year, month) = shift_month (cp_year current) (cp_month current) (js_trunc monthOffset);
               maximum = positive_floor maximumResetDay;
               requested = positive_floor resetDay;
               day = min_days requested (min_days maximum (billingDaysInMonth year month))
           in billingStartOfDay zone year month day))"

section \<open>Days and dates\<close>

lemma div_bounds:
  assumes "0 < (b::int)"
  shows "b * (a div b) \<le> a" and "a < b * (a div b) + b"
  using pos_mod_sign [OF assms, of a] pos_mod_bound [OF assms, of a] mult_div_mod_eq [of b a] by linarith+

lemma div_succ:
  assumes "1 < (b::int)"
  shows "(a + 1) div b = a div b + (if (a + 1) mod b = 0 then 1 else 0)"
proof -
  have r: "0 \<le> a mod b" "a mod b < b" using assms by simp_all
  have "a + 1 = (a mod b + 1) + b * (a div b)" by simp
  then have d: "(a + 1) div b = a div b + (a mod b + 1) div b" and m: "(a + 1) mod b = (a mod b + 1) mod b"
    using assms by (metis add.commute div_mult_self2 less_irrefl order_less_trans zero_less_one, metis mod_mult_self2)
  show ?thesis
  proof (cases "a mod b + 1 = b")
    case True
    then show ?thesis using d m assms by simp
  next
    case False
    then have "(a mod b + 1) div b = 0" "(a mod b + 1) mod b = a mod b + 1"
      using r by (simp_all add: div_pos_pos_trivial mod_pos_pos_trivial)
    then show ?thesis using d m r by simp
  qed
qed

lemma shift_mod: "(y - c * b) mod b = y mod (b::int)"
  using mod_mult_self1 [of "y - c * b" c b] by simp

text \<open>Linear arithmetic is done on variables, it would take the divisions by numerals apart.\<close>

lemma leap_sum:
  assumes "R \<longrightarrow> Q" and "Q \<longrightarrow> P"
  shows "365 * (y + 1 - 1970) + (a + (if P then 1 else 0)) - (b + (if Q then 1 else 0)) + (c + (if R then 1 else 0))
    = 365 * (y - 1970) + a - b + c + (if P \<and> (\<not> Q \<or> R) then 366 else (365 :: int))"
  using assms by (cases P; cases Q; cases R; simp add: algebra_simps)

lemma leap_lower:
  assumes "4 * a \<le> y - 1969" "y - 1969 < 4 * a + 4" "100 * b \<le> y - 1901" "y - 1901 < 100 * b + 100"
    "400 * c \<le> y - 1601" "y - 1601 < 400 * c + (400 :: int)"
  shows "146097 * (y - 1970) - 600 \<le> 400 * (365 * (y - 1970) + a - b + c)"
  using assms by (simp add: algebra_simps)

lemma leap_upper:
  assumes "4 * a \<le> y - 1969" "y - 1969 < 4 * a + 4" "100 * b \<le> y - 1901" "y - 1901 < 100 * b + 100"
    "400 * c \<le> y - 1601" "y - 1601 < 400 * c + (400 :: int)"
  shows "400 * (365 * (y - 1970) + a - b + c) \<le> 146097 * (y - 1970) + 600"
  using assms by (simp add: algebra_simps)

lemma year_estimate:
  assumes "146097 * q \<le> k * 400" "k * 400 < 146097 * q + 146097"
    and "400 * lo \<le> 146097 * (1970 + q - 1 - 1970) + 600" "146097 * (1970 + q + 2 - 1970) - 600 \<le> 400 * hi"
  shows "lo \<le> (k :: int) \<and> k < hi"
  using assms by (simp add: algebra_simps)

lemma day_from_year_step:
  "day_from_year (y + 1) = day_from_year y + (if leap_year y then 366 else 365)"
proof -
  have y: "y + 1 - 1969 = y - 1969 + 1" "y + 1 - 1901 = y - 1901 + 1" "y + 1 - 1601 = y - 1601 + 1"
    by simp_all
  have sh: "y - 1969 + 1 = y - 492 * 4" "y - 1901 + 1 = y - 19 * 100" "y - 1601 + 1 = y - 4 * 400"
    by simp_all
  have eq4: "(y - 1969 + 1) div 4 = (y - 1969) div 4 + (if y mod 4 = 0 then 1 else 0)"
    by (subst div_succ, simp) (simp only: sh shift_mod)
  have eq100: "(y - 1901 + 1) div 100 = (y - 1901) div 100 + (if y mod 100 = 0 then 1 else 0)"
    by (subst div_succ, simp) (simp only: sh shift_mod)
  have eq400: "(y - 1601 + 1) div 400 = (y - 1601) div 400 + (if y mod 400 = 0 then 1 else 0)"
    by (subst div_succ, simp) (simp only: sh shift_mod)
  have "y mod 400 = 0 \<longrightarrow> y mod 100 = 0" using dvd_trans [of 100 400 y] by (simp add: mod_eq_0_iff_dvd)
  moreover have "y mod 100 = 0 \<longrightarrow> y mod 4 = 0" using dvd_trans [of 4 100 y] by (simp add: mod_eq_0_iff_dvd)
  ultimately show ?thesis
    unfolding day_from_year_def leap_year_def y eq4 eq100 eq400 by (rule leap_sum)
qed

lemma day_from_year_bounds:
  "146097 * (y - 1970) - 600 \<le> 400 * day_from_year y"
  "400 * day_from_year y \<le> 146097 * (y - 1970) + 600"
  unfolding day_from_year_def
  by (rule leap_lower; rule div_bounds; simp) (rule leap_upper; rule div_bounds; simp)

lemma day_from_year_mono: "x < y \<Longrightarrow> day_from_year x < day_from_year y"
proof (induction "nat (y - x)" arbitrary: y)
  case (Suc n)
  have step: "day_from_year (y - 1) < day_from_year y" using day_from_year_step [of "y - 1"] by (simp split: if_splits)
  show ?case
  proof (cases "x = y - 1")
    case False
    then have "day_from_year x < day_from_year (y - 1)" using Suc by (intro Suc.hyps) auto
    then show ?thesis using step by linarith
  qed (use step in simp)
qed simp

lemma year_of_day_spec:
  "day_from_year (year_of_day k) \<le> k \<and> k < day_from_year (year_of_day k + 1)"
proof -
  let ?y = "1970 + k * 400 div 146097"
  note b = div_bounds [of 146097 "k * 400", OF zero_less_numeral]
  note e = year_estimate [OF b day_from_year_bounds(2) [of "?y - 1"] day_from_year_bounds(1) [of "?y + 2"]]
  have "day_from_year (?y - 1) \<le> k" by (rule conjunct1 [OF e])
  moreover have "k < day_from_year (?y + 2)" by (rule conjunct2 [OF e])
  ultimately show ?thesis by (auto simp: year_of_day_def Let_def add.assoc)
qed

lemma year_of_day_unique:
  assumes "day_from_year y \<le> k" and "k < day_from_year (y + 1)"
  shows "year_of_day k = y"
proof -
  have "\<not> year_of_day k + 1 \<le> y"
    using year_of_day_spec [of k] assms(1) day_from_year_mono [of "year_of_day k + 1" y] by (cases "year_of_day k + 1 = y") auto
  moreover have "\<not> y + 1 \<le> year_of_day k"
    using year_of_day_spec [of k] assms(2) day_from_year_mono [of "y + 1" "year_of_day k"] by (cases "y + 1 = year_of_day k") auto
  ultimately show ?thesis by linarith
qed

definition month_length :: "int \<Rightarrow> int \<Rightarrow> int" where
  "month_length y m = month_start y m - month_start y (m - 1)"

lemma month_cases:
  assumes "1 \<le> (m::int)" "m \<le> 12"
  obtains "m = 1" | "m = 2" | "m = 3" | "m = 4" | "m = 5" | "m = 6" | "m = 7" | "m = 8" | "m = 9"
    | "m = 10" | "m = 11" | "m = 12"
proof -
  have "m = 1 \<or> m = 2 \<or> m = 3 \<or> m = 4 \<or> m = 5 \<or> m = 6 \<or> m = 7 \<or> m = 8 \<or> m = 9 \<or> m = 10 \<or> m = 11 \<or> m = 12"
    using assms by presburger
  then show thesis using that by blast
qed

lemma month_lengths:
  "map (month_length y) [1..12] = [31, if leap_year y then 29 else 28, 31, 30, 31, 30, 31, 31, 30, 31, 30, 31]"
  by (simp add: upto.simps month_length_def month_start_def month_starts_def)

lemma make_day_within:
  assumes m: "1 \<le> m" "m \<le> 12" and d: "1 \<le> d" "d \<le> month_length y m"
  shows "civil_of_day (make_day y (m - 1) d) = (y, m, d)"
proof -
  have k: "make_day y (m - 1) d = day_from_year y + month_start y (m - 1) + d - 1"
    using m by (simp add: make_day_def div_pos_pos_trivial mod_pos_pos_trivial)
  let ?i = "month_start y (m - 1) + d - 1"
  have i: "0 \<le> ?i" "?i < (if leap_year y then 366 else 365)"
    using m d
    by (cases "leap_year y"; cases m rule: month_cases; simp add: month_length_def month_start_def month_starts_def)+
  have index: "make_day y (m - 1) d - day_from_year y = ?i" by (simp add: k)
  have year: "year_of_day (make_day y (m - 1) d) = y"
    using i k day_from_year_step [of y] by (intro year_of_day_unique) simp_all
  have "int (length (filter (\<lambda>start. start \<le> ?i) (take 11 (tl (month_starts (leap_year y)))))) = m - 1"
    using m d
    by (cases "leap_year y"; cases m rule: month_cases) (auto simp: month_length_def month_start_def month_starts_def)
  then show ?thesis unfolding civil_of_day_def Let_def year index by simp
qed


text \<open>The other way: a day number is the day its date names.\<close>

definition month_index :: "bool \<Rightarrow> int \<Rightarrow> int" where
  "month_index leap i = int (length (filter (\<lambda>start. start \<le> i) (take 11 (tl (month_starts leap)))))"

lemma month_index_range: "0 \<le> month_index leap i \<and> month_index leap i \<le> 11"
proof -
  have "length (filter (\<lambda>start. start \<le> i) (take 11 (tl (month_starts leap)))) \<le> 11"
    by (rule order_trans [OF length_filter_le]) simp
  then show ?thesis by (simp add: month_index_def)
qed

lemma civil_of_day_month_index:
  "civil_of_day k = (let y = year_of_day k; m = month_index (leap_year y) (k - day_from_year y)
     in (y, m + 1, k - day_from_year y - month_start y m + 1))"
  by (simp add: civil_of_day_def month_index_def Let_def)

lemma make_day_civil:
  assumes "civil_of_day k = (y, m, d)"
  shows "make_day y (m - 1) d = k" and "1 \<le> m \<and> m \<le> 12"
  using assms month_index_range [of "leap_year (year_of_day k)" "k - day_from_year (year_of_day k)"]
  by (auto simp: civil_of_day_month_index make_day_def Let_def div_pos_pos_trivial mod_pos_pos_trivial)

lemma month_starts_sorted:
  "map (\<lambda>m. month_starts leap ! m) [0..<12] = 0 # take 11 (tl (month_starts leap))"
  "sorted (month_starts leap)"
  by (simp_all add: month_starts_def upt_rec numeral_eq_Suc)

text \<open>Counting the starts up to \<open>i\<close> in a sorted list finds the last of them.\<close>

lemma count_le_sorted:
  "sorted xs \<Longrightarrow> n = length (filter (\<lambda>x. x \<le> i) xs) \<Longrightarrow>
   (\<forall>j < n. xs ! j \<le> i) \<and> (\<forall>j < length xs. n \<le> j \<longrightarrow> \<not> xs ! j \<le> (i :: int))"
proof (induction xs arbitrary: n)
  case (Cons x xs)
  show ?case
  proof (cases "x \<le> i")
    case True
    then show ?thesis using Cons.IH [of "n - 1"] Cons.prems by (auto simp: nth_Cons' not_le)
  next
    case False
    then have "\<forall>y \<in> set xs. \<not> y \<le> i" using Cons.prems(1) by auto
    moreover from this have "filter (\<lambda>x. x \<le> i) xs = []" by (simp add: filter_empty_conv)
    ultimately show ?thesis using False Cons.prems(2) by (auto simp: nth_Cons' dest: nth_mem)
  qed
qed simp

lemma month_index_bounds:
  assumes "0 \<le> i" and "i < (if leap then 366 else 365)"
  defines "m \<equiv> nat (month_index leap i)"
  shows "month_starts leap ! m \<le> i" and "i < month_starts leap ! Suc m"
proof -
  let ?xs = "take 11 (tl (month_starts leap))"
  have len: "length ?xs = 11" "length (month_starts leap) = 13" by (simp_all add: month_starts_def)
  have sorted: "sorted ?xs" using month_starts_sorted(2) [of leap] by (simp add: sorted_wrt_take sorted_tl)
  have m: "m = length (filter (\<lambda>x. x \<le> i) ?xs)" by (simp add: m_def month_index_def)
  have le: "m \<le> 11" using month_index_range [of leap i] by (simp add: m_def nat_le_iff)
  have nth: "?xs ! j = month_starts leap ! Suc j" if "j < 11" for j using that len by (simp add: nth_tl)
  note c = count_le_sorted [OF sorted m]
  show "month_starts leap ! m \<le> i"
  proof (cases m)
    case 0
    then show ?thesis using assms(1) by (simp add: month_starts_def)
  next
    case (Suc j)
    then show ?thesis using c nth [of j] le by auto
  qed
  show "i < month_starts leap ! Suc m"
  proof (cases "m = 11")
    case True
    then show ?thesis using assms(2) by (simp add: month_starts_def split: if_splits)
  next
    case False
    then have lt: "m < 11" using le by simp
    then have "\<not> ?xs ! m \<le> i" using c len(1) by simp
    then show ?thesis using nth [OF lt] by simp
  qed
qed

lemma civil_of_day_valid:
  assumes "civil_of_day k = (y, m, d)"
  shows "1 \<le> m \<and> m \<le> 12 \<and> 1 \<le> d \<and> d \<le> month_length y m"
proof -
  let ?i = "k - day_from_year y"
  have y: "y = year_of_day k" and m: "m = month_index (leap_year y) ?i + 1" and d: "d = ?i - month_start y (m - 1) + 1"
    using assms by (auto simp: civil_of_day_month_index Let_def)
  have i: "0 \<le> ?i" "?i < (if leap_year y then 366 else 365)"
    using year_of_day_spec [of k] day_from_year_step [of y] by (auto simp: y)
  have "nat m = Suc (nat (m - 1))" using month_index_range [of "leap_year y" ?i] by (simp add: m Suc_nat_eq_nat_zadd1)
  then show ?thesis
    using month_index_bounds [OF i] month_index_range [of "leap_year y" ?i] m d
    by (simp add: month_length_def month_start_def)
qed

lemma real_date_iff:
  "(\<exists>k. civil_of_day k = (y, m, d)) \<longleftrightarrow> 1 \<le> m \<and> m \<le> 12 \<and> 1 \<le> d \<and> d \<le> month_length y m"
  using civil_of_day_valid make_day_within by blast

lemma make_day_zero:
  assumes "1 \<le> m" and "m \<le> 12"
  shows "make_day y m 0 = make_day y (m - 1) (month_length y m)"
proof (cases "m = 12")
  case True
  then show ?thesis
    using day_from_year_step [of y] by (simp add: make_day_def month_length_def month_start_def month_starts_def)
next
  case False
  then have "m div 12 = 0" "m mod 12 = m" "(m - 1) div 12 = 0" "(m - 1) mod 12 = m - 1"
    using assms by (simp_all add: div_pos_pos_trivial mod_pos_pos_trivial)
  then show ?thesis by (simp add: make_day_def month_length_def)
qed

text \<open>The year is not one that \<open>Date.UTC\<close> takes for a short form.\<close>

definition full_year :: "int \<Rightarrow> bool" where
  "full_year y \<longleftrightarrow> y < 0 \<or> 99 < y"

lemma date_UTC_full:
  "full_year y \<Longrightarrow> date_UTC y m d h mi s ms = make_day y m d * MS_PER_DAY + day_time h mi s ms"
  by (auto simp: date_UTC_def full_year_def)

lemma month_length_pos: "1 \<le> m \<Longrightarrow> m \<le> 12 \<Longrightarrow> 1 \<le> month_length y m"
  by (cases "leap_year y"; cases m rule: month_cases; simp add: month_length_def month_start_def month_starts_def)

lemma billingDaysInMonth_eq:
  assumes "full_year y" and "1 \<le> m" and "m \<le> 12"
  shows "billingDaysInMonth y m = month_length y m"
proof -
  have "date_UTC y m 0 0 0 0 0 div MS_PER_DAY = make_day y m 0"
    using assms(1) by (simp add: date_UTC_full day_time_def MS_PER_DAY_def)
  then show ?thesis
    using make_day_within [OF assms(2,3) month_length_pos [OF assms(2,3)] order_refl] make_day_zero [OF assms(2,3)]
    by (simp add: billingDaysInMonth_def)
qed

section \<open>The clock on the wall\<close>

text \<open>The fields shown at an instant determine the wall clock up to the second.\<close>

lemma day_time_split:
  assumes "0 \<le> r"
  shows "day_time (r div 3600000) (r div 60000 mod 60) (r div 1000 mod 60) (r mod 1000) = r"
proof -
  have "r = 1000 * (r div 1000) + r mod 1000" by simp
  moreover have "r div 1000 = 60 * (r div 1000 div 60) + r div 1000 mod 60" by simp
  moreover have "r div 1000 div 60 = r div 60000" using zdiv_zmult2_eq [of 60 r 1000] by simp
  moreover have "r div 60000 = 60 * (r div 60000 div 60) + r div 60000 mod 60" by simp
  moreover have "r div 60000 div 60 = r div 3600000" using zdiv_zmult2_eq [of 60 r 60000] by simp
  ultimately show ?thesis unfolding day_time_def by linarith
qed

lemma day_time_other_ms: "day_time h mi s ms' = r \<Longrightarrow> day_time h mi s ms = r - ms' + ms"
  by (simp add: day_time_def)

lemma sum_assoc: "a + (r - b + c) = a + r - b + (c :: int)"
  by simp

lemma digit_split:
  assumes "0 \<le> ms" and "ms < (b :: int)"
  shows "(x * b + ms) div b = x" and "(x * b + ms) mod b = ms"
  using assms by (simp_all add: div_pos_pos_trivial mod_pos_pos_trivial)

lemma date_UTC_parts:
  assumes "full_year (cp_year (parts_at zone t))"
  shows "date_UTC (cp_year (parts_at zone t)) (cp_month (parts_at zone t) - 1) (cp_day (parts_at zone t))
      (cp_hour (parts_at zone t)) (cp_minute (parts_at zone t)) (cp_second (parts_at zone t)) ms
    = t + zone t - (t + zone t) mod 1000 + ms"
proof -
  let ?l = "t + zone t"
  let ?r = "?l mod MS_PER_DAY"
  obtain y m d where c: "civil_of_day (?l div MS_PER_DAY) = (y, m, d)" by (cases "civil_of_day (?l div MS_PER_DAY)")
  then have p: "parts_at zone t = \<lparr>cp_year = y, cp_month = m, cp_day = d, cp_hour = ?r div 3600000,
      cp_minute = ?r div 60000 mod 60, cp_second = ?r div 1000 mod 60\<rparr>"
    by (simp add: parts_at_def Let_def)
  have mod: "?r mod 1000 = ?l mod 1000" by (rule mod_mod_cancel) (simp add: MS_PER_DAY_def)
  have pos: "0 \<le> ?r" by (simp add: MS_PER_DAY_def)
  have time: "day_time (?r div 3600000) (?r div 60000 mod 60) (?r div 1000 mod 60) ms = ?r - ?l mod 1000 + ms"
    using day_time_other_ms [OF day_time_split [OF pos]] unfolding mod .
  have l: "?l div MS_PER_DAY * MS_PER_DAY + ?r = ?l" by (rule div_mult_mod_eq)
  have fy: "full_year y" using assms unfolding p by (simp only: calendar_parts.simps)
  have "date_UTC y (m - 1) d (?r div 3600000) (?r div 60000 mod 60) (?r div 1000 mod 60) ms
      = ?l div MS_PER_DAY * MS_PER_DAY + (?r - ?l mod 1000 + ms)"
    unfolding date_UTC_full [OF fy] time make_day_civil(1) [OF c] by (rule refl)
  then have "date_UTC y (m - 1) d (?r div 3600000) (?r div 60000 mod 60) (?r div 1000 mod 60) ms
      = ?l - ?l mod 1000 + ms"
    unfolding sum_assoc l .
  then show ?thesis unfolding p by (simp only: calendar_parts.simps)
qed

text \<open>A valid date and time of the wall clock is shown by the instants that have it.\<close>

lemma parts_of_wall:
  assumes m: "1 \<le> m" "m \<le> 12" and d: "1 \<le> d" "d \<le> month_length y m" and y: "full_year y"
    and time: "time_in_range h mi s ms"
    and t: "t + zone t = date_UTC y (m - 1) d h mi s ms"
  shows "parts_at zone t = \<lparr>cp_year = y, cp_month = m, cp_day = d, cp_hour = h, cp_minute = mi, cp_second = s\<rparr>"
    and "(t + zone t) mod 1000 = ms"
proof -
  have r: "0 \<le> h" "h \<le> 23" "0 \<le> mi" "mi \<le> 59" "0 \<le> s" "s \<le> 59" "0 \<le> ms" "ms \<le> 999"
    using time by (simp_all add: time_in_range_def)
  let ?r = "day_time h mi s ms"
  have sec: "?r = ((h * 60 + mi) * 60 + s) * 1000 + ms" by (simp add: day_time_def)
  have div1000: "?r div 1000 = (h * 60 + mi) * 60 + s" "?r mod 1000 = ms"
    unfolding sec using r by (intro digit_split; simp)+
  have "?r div 60000 = ?r div 1000 div 60" using zdiv_zmult2_eq [of 60 ?r 1000] by simp
  then have div60000: "?r div 60000 = h * 60 + mi"
    unfolding div1000 using r digit_split(1) [of s 60 "h * 60 + mi"] by simp
  have "?r div 3600000 = ?r div 60000 div 60" using zdiv_zmult2_eq [of 60 ?r 60000] by simp
  then have hour: "?r div 3600000 = h" unfolding div60000 using r digit_split(1) [of mi 60 h] by simp
  have minute: "?r div 60000 mod 60 = mi" unfolding div60000 using r digit_split(2) [of mi 60 h] by simp
  have second: "?r div 1000 mod 60 = s" unfolding div1000 using r digit_split(2) [of s 60 "h * 60 + mi"] by simp
  have range: "0 \<le> ?r" "?r < MS_PER_DAY" using r by (simp_all add: day_time_def MS_PER_DAY_def)
  have l: "t + zone t = make_day y (m - 1) d * MS_PER_DAY + ?r" using t y by (simp add: date_UTC_full)
  have day: "(t + zone t) div MS_PER_DAY = make_day y (m - 1) d"
    using range by (simp add: l div_pos_pos_trivial MS_PER_DAY_def)
  have rest: "(t + zone t) mod MS_PER_DAY = ?r"
    using range by (simp add: l mod_pos_pos_trivial MS_PER_DAY_def)
  show "parts_at zone t = \<lparr>cp_year = y, cp_month = m, cp_day = d, cp_hour = h, cp_minute = mi, cp_second = s\<rparr>"
    unfolding parts_at_def Let_def day rest make_day_within [OF m d] prod.case hour minute second by (rule refl)
  have "(t + zone t) mod 1000 = ?r mod 1000"
    unfolding rest [symmetric] by (rule mod_mod_cancel [symmetric]) (simp add: MS_PER_DAY_def)
  then show "(t + zone t) mod 1000 = ms" by (simp add: div1000)
qed

lemma year_of_day_mono: "k \<le> k' \<Longrightarrow> year_of_day k \<le> year_of_day k'"
  using year_of_day_spec [of k] year_of_day_spec [of k'] day_from_year_mono [of "year_of_day k' + 1" "year_of_day k"]
  by (cases "year_of_day k' + 1 = year_of_day k") (auto simp: not_le dest: not_le_imp_less intro: leI)

lemma parts_year: "cp_year (parts_at zone t) = year_of_day ((t + zone t) div MS_PER_DAY)"
  by (simp add: parts_at_def civil_of_day_def Let_def)

text \<open>
  The offset of the zone is \<open>offset\<close> at the two instants that the loop looks at; it is a number
  of whole seconds and not negative.
\<close>

definition zone_at :: "(int \<Rightarrow> int) \<Rightarrow> int \<Rightarrow> int \<Rightarrow> bool" where
  "zone_at zone target offset \<longleftrightarrow>
     0 \<le> offset \<and> offset mod 1000 = 0 \<and> zone target = offset \<and> zone (target - offset) = offset"

text \<open>The loop needs at most two of its four attempts.\<close>

lemma settle_two:
  assumes m: "1 \<le> m" "m \<le> 12" and d: "1 \<le> d" "d \<le> month_length y m" and y: "99 < y"
    and time: "time_in_range h mi s ms" and T: "T = date_UTC y (m - 1) d h mi s ms"
    and z: "zone_at zone T offset"
  shows "settle zone T ms (Suc (Suc n)) T = T - offset"
proof -
  have fy: "full_year y" using y by (simp add: full_year_def)
  let ?w = "\<lambda>t. let r = parts_at zone t in
      date_UTC (cp_year r) (cp_month r - 1) (cp_day r) (cp_hour r) (cp_minute r) (cp_second r) ms"
  have Tms: "T mod 1000 = ms"
    using parts_of_wall(2) [OF m d fy time, where t = T and zone = "\<lambda>_. 0"] T by simp
  have Tyear: "year_of_day (T div MS_PER_DAY) = y"
    using parts_of_wall(1) [OF m d fy time, where t = T and zone = "\<lambda>_. 0"] T parts_year [of "\<lambda>_. 0" T] by simp
  have "T div MS_PER_DAY \<le> (T + zone T) div MS_PER_DAY"
    using z by (intro zdiv_mono1) (simp_all add: zone_at_def MS_PER_DAY_def)
  then have "full_year (cp_year (parts_at zone T))"
    using year_of_day_mono Tyear y by (fastforce simp: parts_year full_year_def)
  moreover have "(T + offset) mod 1000 = ms"
    using Tms z mod_add_right_eq [of T offset 1000] by (simp add: zone_at_def)
  ultimately have first: "?w T = T + offset"
    using date_UTC_parts [of zone T ms] z by (simp add: zone_at_def Let_def)
  have wall: "T - offset + zone (T - offset) = T" using z by (simp add: zone_at_def)
  then have "parts_at zone (T - offset) = \<lparr>cp_year = y, cp_month = m, cp_day = d, cp_hour = h, cp_minute = mi, cp_second = s\<rparr>"
    by (intro parts_of_wall(1) [OF m d fy time]) (simp add: T)
  then have second: "?w (T - offset) = T" by (simp add: T)
  show ?thesis using first second by (auto simp: Let_def)
qed

lemma billingDateTime_int_ok:
  assumes m: "1 \<le> m" "m \<le> 12" and d: "1 \<le> d" "d \<le> month_length y m" and y: "99 < y"
    and time: "time_in_range h mi s ms" and z: "zone_at zone (date_UTC y (m - 1) d h mi s ms) offset"
  defines "t \<equiv> date_UTC y (m - 1) d h mi s ms - offset"
  shows "billingDateTime_int zone y m d h mi s ms = Inr t"
    and "parts_at zone t = \<lparr>cp_year = y, cp_month = m, cp_day = d, cp_hour = h, cp_minute = mi, cp_second = s\<rparr>"
    and "t mod 1000 = ms"
proof -
  have fy: "full_year y" using y by (simp add: full_year_def)
  have w: "t + zone t = date_UTC y (m - 1) d h mi s ms" using z by (simp add: zone_at_def t_def)
  have "settle zone (date_UTC y (m - 1) d h mi s ms) ms (Suc (Suc 2)) (date_UTC y (m - 1) d h mi s ms) = t"
    unfolding t_def by (rule settle_two [OF m d y time refl z])
  then show "billingDateTime_int zone y m d h mi s ms = Inr t"
    using m d time by (simp add: billingDateTime_int_def billingDaysInMonth_eq [OF fy m] numeral_eq_Suc)
  show "parts_at zone t = \<lparr>cp_year = y, cp_month = m, cp_day = d, cp_hour = h, cp_minute = mi, cp_second = s\<rparr>"
    by (rule parts_of_wall(1) [where zone = zone and t = t, OF m d fy time w])
  have "zone t mod 1000 = 0" using z by (simp add: zone_at_def t_def)
  then have "(t + zone t) mod 1000 = t mod 1000" using mod_add_right_eq [of t "zone t" 1000] by simp
  then show "t mod 1000 = ms" using parts_of_wall(2) [where zone = zone and t = t, OF m d fy time w] by simp
qed

lemma billingDateTime_num:
  "billingDateTime zone (num y) (num m) (num d) (num h) (num mi) (num s) (num ms) = billingDateTime_int zone y m d h mi s ms"
  by (simp add: billingDateTime_def del: of_int_numeral)

lemma wall_clock_shown:
  assumes k: "civil_of_day k = (y, m, d)" and y: "99 < y" and time: "time_in_range h mi s ms"
    and z: "zone_at zone (date_UTC y (m - 1) d h mi s ms) offset"
  shows "\<exists>t. billingDateTime zone (num y) (num m) (num d) (num h) (num mi) (num s) (num ms) = Inr t \<and>
    billingCalendarParts zone (Some t) =
      Inr \<lparr>cp_year = y, cp_month = m, cp_day = d, cp_hour = h, cp_minute = mi, cp_second = s\<rparr> \<and>
    t mod 1000 = ms"
  using civil_of_day_valid [OF k] billingDateTime_int_ok [OF _ _ _ _ y time z]
  by (simp add: billingDateTime_num billingCalendarParts_def del: of_int_numeral)

lemma quotient_range:
  assumes "0 < (b :: int)" and "0 \<le> r" and "r < n * b"
  shows "0 \<le> r div b \<and> r div b < n"
proof -
  have "(r div b) * b < n * b" using div_bounds(1) [OF assms(1), of r] assms(3) by (simp add: mult.commute)
  then have "r div b < n" using assms(1) by (simp only: mult_less_cancel_right_pos)
  then show ?thesis using pos_imp_zdiv_nonneg_iff [OF assms(1), of r] assms(2) by blast
qed

lemma mod_60: "0 \<le> x mod (60 :: int) \<and> x mod 60 \<le> 59"
  using pos_mod_bound [of 60 x] pos_mod_sign [of 60 x] by simp

lemma parts_at_fields:
  "cp_hour (parts_at zone t) = (t + zone t) mod MS_PER_DAY div 3600000"
  "cp_minute (parts_at zone t) = (t + zone t) mod MS_PER_DAY div 60000 mod 60"
  "cp_second (parts_at zone t) = (t + zone t) mod MS_PER_DAY div 1000 mod 60"
  "civil_of_day ((t + zone t) div MS_PER_DAY)
    = (cp_year (parts_at zone t), cp_month (parts_at zone t), cp_day (parts_at zone t))"
  by (simp_all add: parts_at_def Let_def split_def)

lemma time_in_range_intro:
  "0 \<le> h \<and> h < 24 \<Longrightarrow> 0 \<le> mi \<and> mi \<le> 59 \<Longrightarrow> 0 \<le> s \<and> s \<le> 59 \<Longrightarrow> 0 \<le> ms \<and> ms \<le> 999 \<Longrightarrow> time_in_range h mi s ms"
  by (auto simp: time_in_range_def)

lemma time_of_instant:
  "time_in_range (cp_hour (parts_at zone t)) (cp_minute (parts_at zone t)) (cp_second (parts_at zone t)) (u mod 1000)"
proof -
  have "0 \<le> (t + zone t) mod MS_PER_DAY" "(t + zone t) mod MS_PER_DAY < 24 * 3600000"
    by (simp_all add: MS_PER_DAY_def)
  then have hour: "0 \<le> (t + zone t) mod MS_PER_DAY div 3600000 \<and> (t + zone t) mod MS_PER_DAY div 3600000 < 24"
    by (rule quotient_range [rotated]) simp
  have ms: "0 \<le> u mod 1000 \<and> u mod 1000 \<le> 999"
    using pos_mod_bound [of 1000 u] pos_mod_sign [of 1000 u] by simp
  show ?thesis
    unfolding parts_at_fields by (rule time_in_range_intro [OF hour mod_60 mod_60 ms])
qed

text \<open>The fields of an instant, with its milliseconds, give the instant back.\<close>

lemma instant_of_fields:
  assumes y: "99 < cp_year (parts_at zone t)" and o: "0 \<le> zone t" "zone t mod 1000 = 0" "zone (t + zone t) = zone t"
  defines "p \<equiv> parts_at zone t"
  shows "billingDateTime_int zone (cp_year p) (cp_month p) (cp_day p) (cp_hour p) (cp_minute p) (cp_second p) (t mod 1000)
    = Inr t"
proof -
  have ms: "(t + zone t) mod 1000 = t mod 1000" using o(2) mod_add_right_eq [of t "zone t" 1000] by simp
  have fy: "full_year (cp_year (parts_at zone t))" using y by (simp add: full_year_def)
  have T: "date_UTC (cp_year p) (cp_month p - 1) (cp_day p) (cp_hour p) (cp_minute p) (cp_second p) (t mod 1000) = t + zone t"
    using date_UTC_parts [OF fy, of "t mod 1000"] ms by (simp add: p_def)
  have z: "zone_at zone (date_UTC (cp_year p) (cp_month p - 1) (cp_day p) (cp_hour p) (cp_minute p) (cp_second p) (t mod 1000)) (zone t)"
    using o by (simp add: T zone_at_def)
  have v: "1 \<le> cp_month p" "cp_month p \<le> 12" "1 \<le> cp_day p" "cp_day p \<le> month_length (cp_year p) (cp_month p)"
    using civil_of_day_valid [OF parts_at_fields(4) [where zone = zone and t = t]] by (simp_all add: p_def)
  have time: "time_in_range (cp_hour p) (cp_minute p) (cp_second p) (t mod 1000)"
    unfolding p_def by (rule time_of_instant)
  show ?thesis
    unfolding billingDateTime_int_ok(1) [OF v y [folded p_def] time z] T by simp
qed

text \<open>
  Around a change of the clocks the zone has two offsets. \<open>zone_near zone T a b\<close>: in the day up to the
  instant \<open>T\<close> (read as UTC) it has no offset but \<open>a\<close> and \<open>b\<close>, which are whole seconds, not
  negative and less than a day.
\<close>

definition zone_near :: "(int \<Rightarrow> int) \<Rightarrow> int \<Rightarrow> int \<Rightarrow> int \<Rightarrow> bool" where
  "zone_near zone T a b \<longleftrightarrow> 0 \<le> a \<and> a < MS_PER_DAY \<and> a mod 1000 = 0 \<and> 0 \<le> b \<and> b < MS_PER_DAY \<and> b mod 1000 = 0 \<and>
     zone ` {T - MS_PER_DAY <.. T} \<subseteq> {a, b}"

lemma year_of_day_before: "year_of_day k - 1 \<le> year_of_day (k - 1)"
proof (rule ccontr)
  assume "\<not> ?thesis"
  then have "day_from_year (year_of_day (k - 1) + 1) < day_from_year (year_of_day k)"
    by (intro day_from_year_mono) simp
  then show False using year_of_day_spec [of k] year_of_day_spec [of "k - 1"] by linarith
qed

text \<open>One round of the loop subtracts the offset at the candidate from the wall clock wanted.\<close>

lemma settle_round:
  assumes T: "T mod 1000 = ms" "100 < year_of_day (T div MS_PER_DAY)"
    and c: "T - MS_PER_DAY < c" "c mod 1000 = ms" and z: "0 \<le> zone c" "zone c mod 1000 = 0"
  shows "settle zone T ms (Suc n) c = (if c + zone c = T then c else settle zone T ms n (T - zone c))"
proof -
  have "T div MS_PER_DAY - 1 = (T - MS_PER_DAY) div MS_PER_DAY"
    using div_mult_self1 [of MS_PER_DAY T "- 1"] by (simp add: MS_PER_DAY_def)
  also have "\<dots> \<le> (c + zone c) div MS_PER_DAY" using c z by (intro zdiv_mono1) (simp_all add: MS_PER_DAY_def)
  finally have "year_of_day (T div MS_PER_DAY - 1) \<le> cp_year (parts_at zone c)"
    unfolding parts_year by (rule year_of_day_mono)
  moreover have "year_of_day (T div MS_PER_DAY) - 1 \<le> year_of_day (T div MS_PER_DAY - 1)"
    by (rule year_of_day_before)
  ultimately have "full_year (cp_year (parts_at zone c))" using T(2) by (simp add: full_year_def)
  moreover have "(c + zone c) mod 1000 = ms" using c(2) z(2) mod_add_right_eq [of c "zone c" 1000] by simp
  ultimately show ?thesis using date_UTC_parts [of zone c ms] by (simp add: Let_def)
qed

lemma settle_near:
  assumes T: "T mod 1000 = ms" "100 < year_of_day (T div MS_PER_DAY)" and near: "zone_near zone T a b"
  shows "if T \<in> (\<lambda>t. t + zone t) ` {T - MS_PER_DAY <.. T}
    then settle zone T ms (2 + n) T = T - zone (T - zone T) \<and> T - zone (T - zone T) + zone (T - zone (T - zone T)) = T \<and>
      zone (T - zone (T - zone T)) mod 1000 = 0
    else \<bar>settle zone T ms 4 T + zone (settle zone T ms 4 T) - T\<bar> = \<bar>a - b\<bar>"
proof -
  have ab: "0 \<le> x \<and> x < MS_PER_DAY \<and> x mod 1000 = 0" if "x \<in> {a, b}" for x using near that by (auto simp: zone_near_def)
  have zone: "zone c \<in> {a, b}" if "T - MS_PER_DAY < c" "c \<le> T" for c using near that unfolding zone_near_def by (simp add: image_subset_iff)
  have z0: "zone T \<in> {a, b}" by (rule zone) (simp_all add: MS_PER_DAY_def)
  have at: "zone (T - x) \<in> {a, b}" if "x \<in> {a, b}" for x using ab [OF that] by (intro zone) simp_all
  have first: "settle zone T ms (Suc m) T = (if zone T = 0 then T else settle zone T ms m (T - zone T))" for m
    using settle_round [OF T, of T zone] T(1) ab [OF z0] by (simp add: MS_PER_DAY_def)
  have round: "settle zone T ms (Suc m) (T - x) = (if zone (T - x) = x then T - x else settle zone T ms m (T - zone (T - x)))"
    if "x \<in> {a, b}" for x m
  proof -
    have "(T - x) mod 1000 = ms" using T(1) ab [OF that] mod_diff_right_eq [of T x 1000] by simp
    then show ?thesis using settle_round [OF T, of "T - x" zone m] ab [OF that] ab [OF at [OF that]] by simp
  qed
  show ?thesis
  proof (cases "zone (T - a) = a \<or> zone (T - b) = b")
    case True
    have "T \<in> (\<lambda>t. t + zone t) ` {T - MS_PER_DAY <.. T}"
    proof (cases "zone (T - a) = a")
      case True
      then show ?thesis using ab [of a] by (intro image_eqI [of _ _ "T - a"]) simp_all
    next
      case False
      then show ?thesis using \<open>zone (T - a) = a \<or> zone (T - b) = b\<close> ab [of b] by (intro image_eqI [of _ _ "T - b"]) simp_all
    qed
    moreover have fixed: "zone (T - zone (T - zone T)) = zone (T - zone T)"
      using True z0 at [of a] at [of b] by auto
    moreover have "settle zone T ms (2 + n) T = T - zone (T - zone T)"
      using fixed first [of "Suc n"] round [OF z0, of n] round [OF at [OF z0], of "n - 1"] by (cases n) (auto simp: numeral_2_eq_2 simp del: settle.simps(2))
    ultimately show ?thesis using ab [OF at [OF z0]] by simp
  next
    case False
    then have swap: "zone (T - a) = b" "zone (T - b) = a" "a \<noteq> b" using at [of a] at [of b] by auto
    have "t + zone t \<noteq> T" if "t \<in> {T - MS_PER_DAY <.. T}" for t
    proof
      assume t: "t + zone t = T"
      then have "t = T - zone t" by simp
      then show False using swap zone [of t] that by auto
    qed
    then have none: "T \<notin> (\<lambda>t. t + zone t) ` {T - MS_PER_DAY <.. T}" by (metis (no_types, lifting) imageE)
    have "zone T \<noteq> 0"
    proof
      assume "zone T = 0"
      then have "T \<in> (\<lambda>t. t + zone t) ` {T - MS_PER_DAY <.. T}"
        by (intro image_eqI [of _ _ T]) (simp_all add: MS_PER_DAY_def)
      then show False using none by blast
    qed
    then have "settle zone T ms 4 T = (if zone T = a then T - b else T - a)"
      using first [of 3] round [of a] round [of b] swap z0 by (auto simp: numeral_eq_Suc simp del: settle.simps(2))
    then show ?thesis using none swap by (auto split: if_splits)
  qed
qed

lemma wall_clock_settles:
  assumes k: "civil_of_day k = (y, m, d)" and y: "100 < y" and time: "time_in_range h mi s ms"
    and T: "T = date_UTC y (m - 1) d h mi s ms" and near: "zone_near zone T a b"
  shows "\<exists>t'. billingDateTime zone (num y) (num m) (num d) (num h) (num mi) (num s) (num ms) = Inr t' \<and>
    (if T \<in> (\<lambda>t. t + zone t) ` {T - MS_PER_DAY <.. T}
     then settle zone T ms (2 + n) T = t' \<and> t' mod 1000 = ms \<and>
       billingCalendarParts zone (Some t') =
         Inr \<lparr>cp_year = y, cp_month = m, cp_day = d, cp_hour = h, cp_minute = mi, cp_second = s\<rparr>
     else \<bar>t' + zone t' - T\<bar> = \<bar>a - b\<bar>)"
proof -
  have v: "1 \<le> m" "m \<le> 12" "1 \<le> d" "d \<le> month_length y m" using civil_of_day_valid [OF k] by simp_all
  have fy: "full_year y" using y by (simp add: full_year_def)
  have ms: "T mod 1000 = ms"
    using parts_of_wall(2) [OF v fy time, where t = T and zone = "\<lambda>_. 0"] T by simp
  have year: "year_of_day (T div MS_PER_DAY) = y"
    using parts_of_wall(1) [OF v fy time, where t = T and zone = "\<lambda>_. 0"] T parts_year [of "\<lambda>_. 0" T] by simp
  have res: "billingDateTime_int zone y m d h mi s ms = Inr (settle zone T ms 4 T)"
    using v time T by (simp add: billingDateTime_int_def billingDaysInMonth_eq [OF fy v(1,2)] Let_def)
  note near = settle_near [OF ms _ near, unfolded year, OF y]
  show ?thesis
  proof (cases "T \<in> (\<lambda>t. t + zone t) ` {T - MS_PER_DAY <.. T}")
    case True
    let ?t = "T - zone (T - zone T)"
    have t: "settle zone T ms (2 + n) T = ?t" "?t + zone ?t = T" "zone ?t mod 1000 = 0" for n
      using near [of n, unfolded if_P [OF True]] by blast+
    have "settle zone T ms 4 T = ?t" using t(1) [of 2] by simp
    moreover have "parts_at zone ?t = \<lparr>cp_year = y, cp_month = m, cp_day = d, cp_hour = h, cp_minute = mi, cp_second = s\<rparr>"
      using t(2) T by (intro parts_of_wall(1) [OF v fy time]) simp
    moreover have "?t mod 1000 = ms" using t(2,3) ms mod_add_right_eq [of ?t "zone ?t" 1000] by simp
    ultimately show ?thesis using True t(1) res unfolding billingDateTime_num by (simp add: billingCalendarParts_def)
  next
    case False
    then show ?thesis using near [of 0] res unfolding billingDateTime_num by simp
  qed
qed







lemma months_added:
  assumes p: "p = parts_at zone t" and n: "12 * y + m = 12 * cp_year p + cp_month p + js_trunc months"
    and m: "1 \<le> m" "m \<le> 12" and y: "99 < y"
    and z: "zone_at zone (date_UTC y (m - 1) (min (cp_day p) (month_length y m)) (cp_hour p) (cp_minute p) (cp_second p)
      (t mod 1000)) offset"
  shows "\<exists>t'. billingAddMonthsClamped zone (Some t) months = Inr t' \<and>
    billingCalendarParts zone (Some t') =
      Inr (p \<lparr>cp_year := y, cp_month := m, cp_day := min (cp_day p) (month_length y m)\<rparr>) \<and>
    t' mod 1000 = t mod 1000"
proof -
  have i: "cp_year p * 12 + cp_month p - 1 + js_trunc months = y * 12 + (m - 1)" using n by simp
  have "(y * 12 + (m - 1)) div 12 = y" using m by (intro digit_split(1)) simp_all
  then have shift: "shift_month (cp_year p) (cp_month p) (js_trunc months) = (y, m)"
    by (simp add: shift_month_def i)
  have "civil_of_day ((t + zone t) div MS_PER_DAY) = (cp_year p, cp_month p, cp_day p)"
    unfolding p by (rule parts_at_fields(4))
  then have d: "1 \<le> min (cp_day p) (month_length y m)" "min (cp_day p) (month_length y m) \<le> month_length y m"
    using civil_of_day_valid month_length_pos [OF m, of y] by fastforce+
  have fy: "full_year y" using y by (simp add: full_year_def)
  have time: "time_in_range (cp_hour p) (cp_minute p) (cp_second p) (t mod 1000)"
    unfolding p by (rule time_of_instant)
  have add: "billingAddMonthsClamped zone (Some t) months
      = billingDateTime_int zone y m (min (cp_day p) (month_length y m)) (cp_hour p) (cp_minute p) (cp_second p) (t mod 1000)"
    by (simp add: billingAddMonthsClamped_def shift billingDaysInMonth_eq [OF fy m] flip: p)
  show ?thesis
    using billingDateTime_int_ok [OF m d y time z] unfolding add by (simp add: billingCalendarParts_def)
qed

text \<open>
  The billing calendar and the instants of the time zone are inverse to each other: the
  calendar fields of an instant, with its milliseconds, are a valid date whose instant is the
  original one, for every instant whose offset also holds one offset later.
\<close>

theorem billing_calendar_roundtrip:
  assumes "billingCalendarParts zone (Some t) = Inr p" and "99 < cp_year p"
    and "0 \<le> zone t" and "zone t mod 1000 = 0" and "zone (t + zone t) = zone t"
  shows "billingDateTime zone (num (cp_year p)) (num (cp_month p)) (num (cp_day p)) (num (cp_hour p))
      (num (cp_minute p)) (num (cp_second p)) (num (t mod 1000)) = Inr t"
  using instant_of_fields [of zone t] assms by (simp add: billingDateTime_num billingCalendarParts_def)

lemma civil_1970_2_1: "civil_of_day 31 = (1970, 2, 1)"
proof -
  have "make_day 1970 (2 - 1) 1 = 31"
    by (simp add: make_day_def day_from_year_def month_start_def month_starts_def leap_year_def)
  then show ?thesis
    using make_day_within [of 2 1 1970] by (simp add: month_length_def month_start_def month_starts_def leap_year_def)
qed

theorem billing_calendar_roundtrip_witness:
  "billingDateTime (\<lambda>_. 28800000) (num 1970) (num 2) (num 1) (num 8) (num 0) (num 40) (num 123) = Inr 2678440123"
proof -
  have d: "(2707240123 :: int) div MS_PER_DAY = 31" "(2707240123 :: int) mod MS_PER_DAY = 28840123"
    by (simp_all add: MS_PER_DAY_def)
  have p: "billingCalendarParts (\<lambda>_. 28800000) (Some 2678440123) = Inr \<lparr>cp_year = 1970, cp_month = 2, cp_day = 1,
      cp_hour = 8, cp_minute = 0, cp_second = 40\<rparr>"
    by (simp add: billingCalendarParts_def parts_at_def d civil_1970_2_1)
  have "(28800000 :: int) mod 1000 = 0" and "(2678440123 :: int) mod 1000 = 123" by simp_all
  then show ?thesis using billing_calendar_roundtrip [OF p] by simp
qed


text \<open>
  C25: A date and time of the wall clock becomes an instant that shows it, also around a change of the
  clocks. For every real date (the date of some day number \<open>k\<close>) after the year 100 and every time of
  day, and every zone that has at most two offsets in the day up to that time, \<open>billingDateTime\<close>
  succeeds. If any instant of that day shows the requested date and time, the result shows exactly these
  calendar parts, with the requested milliseconds; the loop, which has four rounds, has found it
  after two, so that further rounds change nothing. If none does, because the clock was put forward
  over that time, the result shows a time that is off by exactly the difference of the two offsets.
\<close>

theorem billing_date_time_settles:
  assumes "civil_of_day k = (y, m, d)" and "100 < y" and "time_in_range h mi s ms"
    and "T = date_UTC y (m - 1) d h mi s ms" and "zone_near zone T a b"
  shows "\<exists>t'. billingDateTime zone (num y) (num m) (num d) (num h) (num mi) (num s) (num ms) = Inr t' \<and>
    (if T \<in> (\<lambda>t. t + zone t) ` {T - MS_PER_DAY <.. T}
     then settle zone T ms (2 + n) T = t' \<and> t' mod 1000 = ms \<and>
       billingCalendarParts zone (Some t') =
         Inr \<lparr>cp_year = y, cp_month = m, cp_day = d, cp_hour = h, cp_minute = mi, cp_second = s\<rparr>
     else \<bar>t' + zone t' - T\<bar> = \<bar>a - b\<bar>)"
  by (rule wall_clock_settles [OF assms])

text \<open>
  On a day when the clock is put back from nine hours ahead of UTC to eight at the instant 2680000000: the
  wall clock time asked for is shown after the change, but the first guess is corrected by the offset before it.
\<close>

theorem billing_date_time_settles_witness:
  "let zone = (\<lambda>t. if t < 2680000000 then 32400000 else 28800000)
   in billingDateTime zone (num 1970) (num 2) (num 1) (num 8) (num 0) (num 40) (num 123) = Inr 2674840123 \<and>
      billingCalendarParts zone (Some 2674840123) =
        Inr \<lparr>cp_year = 1970, cp_month = 2, cp_day = 1, cp_hour = 8, cp_minute = 0, cp_second = 40\<rparr>"
proof -
  define zone :: "int \<Rightarrow> int" where "zone = (\<lambda>t. if t < 2680000000 then 32400000 else 28800000)"
  have "make_day 1970 (2 - 1) 1 = 31"
    by (simp add: make_day_def day_from_year_def month_start_def month_starts_def leap_year_def)
  then have T: "2707240123 = date_UTC 1970 (2 - 1) 1 8 0 40 123"
    by (simp add: date_UTC_def day_time_def MS_PER_DAY_def)
  have z: "zone_near zone 2707240123 32400000 28800000" by (auto simp: zone_near_def zone_def MS_PER_DAY_def)
  have shown: "2707240123 \<in> (\<lambda>t. t + zone t) ` {2707240123 - MS_PER_DAY <.. 2707240123}"
    by (rule image_eqI [of _ _ 2674840123]) (simp_all add: zone_def MS_PER_DAY_def)
  have time: "time_in_range 8 0 40 123" by (simp add: time_in_range_def)
  obtain t' where t': "billingDateTime zone (num 1970) (num 2) (num 1) (num 8) (num 0) (num 40) (num 123) = Inr t'"
    "settle zone 2707240123 123 (2 + 0) 2707240123 = t'"
    "billingCalendarParts zone (Some t') =
       Inr \<lparr>cp_year = 1970, cp_month = 2, cp_day = 1, cp_hour = 8, cp_minute = 0, cp_second = 40\<rparr>"
    using billing_date_time_settles [OF civil_1970_2_1 _ time T z, of 0] shown by auto
  note near = settle_near [OF _ _ z, where ms = 123 and n = 0]
  have "civil_of_day (2707240123 div MS_PER_DAY) = (1970, 2, 1)" using civil_1970_2_1 by (simp add: MS_PER_DAY_def)
  then have "year_of_day (2707240123 div MS_PER_DAY) = 1970" by (simp add: civil_of_day_def Let_def)
  then have "t' = 2707240123 - zone (2707240123 - zone 2707240123)" using near shown t'(2) by simp
  then have "t' = 2674840123" by (simp add: zone_def)
  then show ?thesis using t' unfolding zone_def by simp
qed




text \<open>
  \<open>billingAddMonthsClamped\<close> moves an instant by whole months of the billing calendar: with
  \<open>n\<close> the number of months without its fraction, the result lies in the month that is \<open>n\<close>
  months after the month of the instant, on the same day or on the last day of a shorter month,
  at the same time of day up to the millisecond. The zone has the same offset at the instants
  that are looked at.
\<close>

theorem billing_months_added:
  assumes "p = parts_at zone t" and "12 * y + m = 12 * cp_year p + cp_month p + js_trunc months"
    and "1 \<le> m" and "m \<le> 12" and "99 < y"
    and "zone_at zone (date_UTC y (m - 1) (min (cp_day p) (month_length y m)) (cp_hour p) (cp_minute p) (cp_second p)
      (t mod 1000)) offset"
  shows "\<exists>t'. billingAddMonthsClamped zone (Some t) months = Inr t' \<and>
    billingCalendarParts zone (Some t') =
      Inr (p \<lparr>cp_year := y, cp_month := m, cp_day := min (cp_day p) (month_length y m)\<rparr>) \<and>
    t' mod 1000 = t mod 1000"
  by (rule months_added [OF assms])

theorem billing_months_added_witness:
  "\<exists>t'. billingAddMonthsClamped (\<lambda>_. 28800000) (Some 2592040123) 1 = Inr t' \<and>
    billingCalendarParts (\<lambda>_. 28800000) (Some t') =
      Inr \<lparr>cp_year = 1970, cp_month = 2, cp_day = 28, cp_hour = 8, cp_minute = 0, cp_second = 40\<rparr> \<and>
    t' mod 1000 = 123"
proof -
  have "make_day 1970 (1 - 1) 31 = 30"
    by (simp add: make_day_def day_from_year_def month_start_def month_starts_def leap_year_def)
  then have c: "civil_of_day 30 = (1970, 1, 31)"
    using make_day_within [of 1 31 1970] by (simp add: month_length_def month_start_def month_starts_def leap_year_def)
  have d: "(2620840123 :: int) div MS_PER_DAY = 30" "(2620840123 :: int) mod MS_PER_DAY = 28840123"
    by (simp_all add: MS_PER_DAY_def)
  have p: "\<lparr>cp_year = 1970, cp_month = 1, cp_day = 31, cp_hour = 8, cp_minute = 0, cp_second = 40\<rparr>
      = parts_at (\<lambda>_. 28800000) 2592040123"
    by (simp add: parts_at_def d c)
  have z: "zone_at (\<lambda>_. 28800000) u 28800000" for u by (simp add: zone_at_def)
  have l: "month_length 1970 2 = 28" by (simp add: month_length_def month_start_def month_starts_def leap_year_def)
  show ?thesis
    using billing_months_added [OF p _ _ _ _ z, of 1970 2 1] l by (simp add: js_trunc_def)
qed

end
