(* ===== verification/Query_Cache.thy ===== *)
theory Query_Cache
  imports Prelude
begin

text \<open>
  The cache of query results of \<open>server/queryCache.ts\<close>, which the routers of hosts, tunnels and
  groups share: one load per key at a time, values served while they are stale, bounds on the
  number of entries and on their bytes. A promise of the code is the number of its load; the
  code that runs when a promise settles is the operation \<open>load_done\<close> or \<open>load_failed\<close> on that
  number. Entries are objects that the code compares by identity: each has a number of its own.
\<close>

section \<open>State\<close>

record 'v cache_entry =
  qe_id :: nat
  qe_freshUntil :: int
  qe_staleUntil :: int
  qe_retryAt :: int
  qe_bytes :: int
  qe_value :: "'v option"
  qe_promise :: "nat option"

text \<open>The variables of a load that runs: its key, its entry and the options it was started with.\<close>

record cache_load =
  ld_key :: string
  ld_entry :: nat
  ld_ttl :: int
  ld_stale :: int

text \<open>An option that is not given is \<open>None\<close>; \<open>maxBytes\<close> is then infinite.\<close>

record 'v cache_options =
  cf_maxEntries :: "int option"
  cf_maxBytes :: "int option"
  cf_sizeOf :: "('v option \<Rightarrow> int) option"
  cf_retryMs :: "int option"

record 'v query_cache =
  qc_entries :: "(string, 'v cache_entry) jsmap"
  qc_bytes :: int
  qc_nextPruneAt :: int
  qc_loads :: "(nat, cache_load) jsmap"
  qc_next :: nat

definition max_entries :: "'v cache_options \<Rightarrow> int" where
  "max_entries cfg = max 1 (case cf_maxEntries cfg of None \<Rightarrow> 300 | Some n \<Rightarrow> n)"

definition fits :: "'v cache_options \<Rightarrow> int \<Rightarrow> bool" where
  "fits cfg n = (case cf_maxBytes cfg of None \<Rightarrow> True | Some m \<Rightarrow> n \<le> m)"

definition createQueryCache :: "int \<Rightarrow> 'v query_cache" where
  "createQueryCache now = \<lparr>qc_entries = [], qc_bytes = 0, qc_nextPruneAt = now + 1000, qc_loads = [], qc_next = 0\<rparr>"

section \<open>Operations\<close>

definition qc_remove :: "string \<Rightarrow> 'v query_cache \<Rightarrow> 'v query_cache" where
  "qc_remove key c =
     (case map_get (qc_entries c) key of
        None \<Rightarrow> c
      | Some e \<Rightarrow> c \<lparr>qc_bytes := qc_bytes c - qe_bytes e, qc_entries := map_delete key (qc_entries c)\<rparr>)"

text \<open>Entries whose load runs are never removed by \<open>trim\<close> and \<open>prune\<close>.\<close>

definition idle_entry :: "string \<Rightarrow> 'v query_cache \<Rightarrow> bool" where
  "idle_entry key c = (case map_get (qc_entries c) key of None \<Rightarrow> False | Some e \<Rightarrow> qe_promise e = None)"

fun trim_loop :: "'v cache_options \<Rightarrow> int \<Rightarrow> string list \<Rightarrow> 'v query_cache \<Rightarrow> 'v query_cache" where
  "trim_loop cfg reserve [] c = c"
| "trim_loop cfg reserve (key # keys) c =
     (if int (length (qc_entries c)) + reserve \<le> max_entries cfg \<and> fits cfg (qc_bytes c) then c
      else trim_loop cfg reserve keys (if idle_entry key c then qc_remove key c else c))"

definition trim :: "'v cache_options \<Rightarrow> int \<Rightarrow> 'v query_cache \<Rightarrow> 'v query_cache" where
  "trim cfg reserve c = trim_loop cfg reserve (map fst (qc_entries c)) c"

definition expired_at :: "int \<Rightarrow> string \<Rightarrow> 'v query_cache \<Rightarrow> bool" where
  "expired_at now key c =
     (case map_get (qc_entries c) key of
        None \<Rightarrow> False | Some e \<Rightarrow> qe_promise e = None \<and> qe_staleUntil e \<le> now)"

definition prune :: "'v cache_options \<Rightarrow> int \<Rightarrow> 'v query_cache \<Rightarrow> 'v query_cache" where
  "prune cfg now c =
     trim cfg 0 (fold (\<lambda>key c. if expired_at now key c then qc_remove key c else c) (map fst (qc_entries c)) c)"

datatype 'v reply = Hit 'v | Wait nat | Busy

definition start_load ::
  "string \<Rightarrow> 'v cache_entry \<Rightarrow> int \<Rightarrow> int \<Rightarrow> 'v query_cache \<Rightarrow> 'v query_cache \<times> nat" where
  "start_load key e ttl stale c =
     (let l = qc_next c
      in (c \<lparr>qc_entries := map_set key (e \<lparr>qe_promise := Some l\<rparr>) (qc_entries c),
             qc_loads := map_set l \<lparr>ld_key = key, ld_entry = qe_id e, ld_ttl = ttl, ld_stale = stale\<rparr> (qc_loads c),
             qc_next := Suc l\<rparr>, l))"

text \<open>The number of the load, or \<open>None\<close> when the cache is busy.\<close>

definition refresh ::
  "'v cache_options \<Rightarrow> string \<Rightarrow> int \<Rightarrow> int \<Rightarrow> 'v query_cache \<Rightarrow> 'v query_cache \<times> nat option" where
  "refresh cfg key ttl stale c =
     (case map_get (qc_entries c) key of
        Some e \<Rightarrow> (let (c', l) = start_load key e ttl stale c in (c', Some l))
      | None \<Rightarrow>
          (let c1 = trim cfg 1 c
           in if int (length (qc_entries c1)) \<ge> max_entries cfg then (c1, None)
              else
                let e = \<lparr>qe_id = qc_next c1, qe_freshUntil = 0, qe_staleUntil = 0, qe_retryAt = 0, qe_bytes = 0,
                         qe_value = None, qe_promise = None\<rparr>;
                    (c', l) = start_load key e ttl stale (c1 \<lparr>qc_next := Suc (qc_next c1)\<rparr>)
                in (c', Some l)))"

text \<open>\<open>cache.get(key) === current\<close>: the entry of a load, when the cache still has it.\<close>

definition current_entry :: "cache_load \<Rightarrow> 'v query_cache \<Rightarrow> 'v cache_entry option" where
  "current_entry ld c =
     (case map_get (qc_entries c) (ld_key ld) of
        None \<Rightarrow> None | Some e \<Rightarrow> if qe_id e = ld_entry ld then Some e else None)"

definition value_size :: "'v cache_options \<Rightarrow> 'v option \<Rightarrow> string \<Rightarrow> int" where
  "value_size cfg v key = (case cf_sizeOf cfg of None \<Rightarrow> 0 | Some f \<Rightarrow> f v + 2 * int (length key))"

definition load_done :: "'v cache_options \<Rightarrow> nat \<Rightarrow> 'v option \<Rightarrow> int \<Rightarrow> 'v query_cache \<Rightarrow> 'v query_cache" where
  "load_done cfg l v now c =
     (case map_get (qc_loads c) l of
        None \<Rightarrow> c
      | Some ld \<Rightarrow>
          (let c1 = c \<lparr>qc_loads := map_delete l (qc_loads c)\<rparr>; key = ld_key ld
           in case current_entry ld c1 of
                None \<Rightarrow> c1
              | Some e \<Rightarrow>
                  (let size = value_size cfg v key
                   in if \<not> fits cfg size then qc_remove key c1
                      else trim cfg 0
                        (c1 \<lparr>qc_entries := map_set key
                               (e \<lparr>qe_value := v, qe_promise := None, qe_bytes := size, qe_retryAt := 0,
                                   qe_freshUntil := now + ld_ttl ld,
                                   qe_staleUntil := now + ld_ttl ld + ld_stale ld\<rparr>) (qc_entries c1),
                             qc_bytes := qc_bytes c1 - qe_bytes e + size\<rparr>))))"

definition load_failed :: "'v cache_options \<Rightarrow> nat \<Rightarrow> int \<Rightarrow> 'v query_cache \<Rightarrow> 'v query_cache" where
  "load_failed cfg l now c =
     (case map_get (qc_loads c) l of
        None \<Rightarrow> c
      | Some ld \<Rightarrow>
          (let c1 = c \<lparr>qc_loads := map_delete l (qc_loads c)\<rparr>; key = ld_key ld
           in case current_entry ld c1 of
                None \<Rightarrow> c1
              | Some e \<Rightarrow>
                  (let retryMs = (case cf_retryMs cfg of None \<Rightarrow> 1000 | Some ms \<Rightarrow> ms);
                       c2 = c1 \<lparr>qc_entries := map_set key (e \<lparr>qe_promise := None, qe_retryAt := now + retryMs\<rparr>) (qc_entries c1)\<rparr>
                   in if qe_value e = None then qc_remove key c2 else c2)))"

text \<open>The entry that is asked for moves to the end of the map.\<close>

definition touch :: "string \<Rightarrow> 'v query_cache \<Rightarrow> 'v query_cache" where
  "touch key c =
     (case map_get (qc_entries c) key of
        None \<Rightarrow> c
      | Some e \<Rightarrow> c \<lparr>qc_entries := map_set key e (map_delete key (qc_entries c))\<rparr>)"

text \<open>The new state, the answer and the load that was started.\<close>

definition get_query ::
  "'v cache_options \<Rightarrow> string \<Rightarrow> int \<Rightarrow> int option \<Rightarrow> int \<Rightarrow> 'v query_cache \<Rightarrow> 'v query_cache \<times> 'v reply \<times> nat option" where
  "get_query cfg key ttl staleMs now c =
     (let c1 = (if qc_nextPruneAt c \<le> now then prune cfg now c \<lparr>qc_nextPruneAt := now + 1000\<rparr> else c);
          stale = (case staleMs of None \<Rightarrow> ttl | Some s \<Rightarrow> s);
          cached = map_get (qc_entries c1) key;
          c2 = touch key c1;
          load = (let (c3, l) = refresh cfg key ttl stale c2
                  in (c3, case l of Some l \<Rightarrow> Wait l | None \<Rightarrow> Busy, l))
      in case cached of
           None \<Rightarrow> load
         | Some e \<Rightarrow>
             (case qe_value e of
                None \<Rightarrow> (case qe_promise e of Some l \<Rightarrow> (c2, Wait l, None) | None \<Rightarrow> load)
              | Some v \<Rightarrow>
                  if now < qe_freshUntil e then (c2, Hit v, None)
                  else if now < qe_staleUntil e then
                    (if qe_promise e = None \<and> qe_retryAt e \<le> now
                     then let (c3, l) = refresh cfg key ttl stale c2 in (c3, Hit v, l)
                     else (c2, Hit v, None))
                  else (case qe_promise e of Some l \<Rightarrow> (c2, Wait l, None) | None \<Rightarrow> load)))"

definition clear_cache :: "(string \<Rightarrow> bool) option \<Rightarrow> 'v query_cache \<Rightarrow> 'v query_cache" where
  "clear_cache matches c =
     (case matches of
        None \<Rightarrow> c \<lparr>qc_entries := [], qc_bytes := 0\<rparr>
      | Some p \<Rightarrow> fold (\<lambda>key c. if p key then qc_remove key c else c) (map fst (qc_entries c)) c)"

section \<open>Runs\<close>

datatype 'v cache_op =
  Get string int "int option" int
| LoadDone nat "'v option" int
| LoadFailed nat int
| Prune int
| Clear "(string \<Rightarrow> bool) option"

text \<open>
  The specification: the loads that count, with key and options, and for each key the last value
  that such a load returned, with the times up to which it is fresh and may be served. Clearing
  forgets values, and the loads that run no longer count.
\<close>

record 'v cache_spec =
  sp_loads :: "nat \<rightharpoonup> string \<times> int \<times> int"
  sp_values :: "string \<rightharpoonup> 'v \<times> int \<times> int"

definition new_spec :: "'v cache_spec" where
  "new_spec = \<lparr>sp_loads = Map.empty, sp_values = Map.empty\<rparr>"

definition spec_start :: "nat option \<Rightarrow> string \<Rightarrow> int \<Rightarrow> int option \<Rightarrow> 'v cache_spec \<Rightarrow> 'v cache_spec" where
  "spec_start started key ttl staleMs s =
     (case started of
        None \<Rightarrow> s
      | Some l \<Rightarrow> s \<lparr>sp_loads := (sp_loads s)(l \<mapsto> (key, ttl, case staleMs of None \<Rightarrow> ttl | Some st \<Rightarrow> st))\<rparr>)"

definition spec_done :: "'v cache_options \<Rightarrow> nat \<Rightarrow> 'v option \<Rightarrow> int \<Rightarrow> 'v cache_spec \<Rightarrow> 'v cache_spec" where
  "spec_done cfg l v now s =
     (case sp_loads s l of
        None \<Rightarrow> s
      | Some (key, ttl, stale) \<Rightarrow>
          s \<lparr>sp_loads := (sp_loads s)(l := None),
             sp_values := (sp_values s)(key :=
               if fits cfg (value_size cfg v key)
               then map_option (\<lambda>v. (v, now + ttl, now + ttl + stale)) v else None)\<rparr>)"

definition spec_failed :: "nat \<Rightarrow> 'v cache_spec \<Rightarrow> 'v cache_spec" where
  "spec_failed l s = s \<lparr>sp_loads := (sp_loads s)(l := None)\<rparr>"

definition cleared :: "(string \<Rightarrow> bool) option \<Rightarrow> string \<Rightarrow> bool" where
  "cleared matches key = (case matches of None \<Rightarrow> True | Some p \<Rightarrow> p key)"

definition spec_clear :: "(string \<Rightarrow> bool) option \<Rightarrow> 'v cache_spec \<Rightarrow> 'v cache_spec" where
  "spec_clear matches s =
     s \<lparr>sp_loads := (\<lambda>l. case sp_loads s l of None \<Rightarrow> None | Some x \<Rightarrow> if cleared matches (fst x) then None else Some x),
        sp_values := (\<lambda>key. if cleared matches key then None else sp_values s key)\<rparr>"

fun cache_step :: "'v cache_options \<Rightarrow> 'v cache_op \<Rightarrow> 'v query_cache \<times> 'v cache_spec \<Rightarrow> 'v query_cache \<times> 'v cache_spec" where
  "cache_step cfg (Get key ttl staleMs now) (c, s) =
     (let (c', reply, started) = get_query cfg key ttl staleMs now c in (c', spec_start started key ttl staleMs s))"
| "cache_step cfg (LoadDone l v now) (c, s) = (load_done cfg l v now c, spec_done cfg l v now s)"
| "cache_step cfg (LoadFailed l now) (c, s) = (load_failed cfg l now c, spec_failed l s)"
| "cache_step cfg (Prune now) (c, s) = (prune cfg now c, s)"
| "cache_step cfg (Clear matches) (c, s) = (clear_cache matches c, spec_clear matches s)"


section \<open>The relation of the cache to the specification\<close>

text \<open>
  It only reads the entries and the loads as functions: a load that counts is one whose entry is
  still in the cache, its entry waits for it, and a value of the cache is the last one loaded.
\<close>

type_synonym 'v entries = "string \<rightharpoonup> 'v cache_entry"
type_synonym loads = "nat \<rightharpoonup> cache_load"

definition owns :: "'v entries \<Rightarrow> cache_load \<Rightarrow> 'v cache_entry \<Rightarrow> bool" where
  "owns m ld e \<longleftrightarrow> m (ld_key ld) = Some e \<and> qe_id e = ld_entry ld"

definition load_info :: "cache_load \<Rightarrow> string \<times> int \<times> int" where
  "load_info ld = (ld_key ld, ld_ttl ld, ld_stale ld)"

definition promises_run :: "'v entries \<Rightarrow> loads \<Rightarrow> bool" where
  "promises_run m n \<longleftrightarrow>
     (\<forall>k e l. m k = Some e \<and> qe_promise e = Some l \<longrightarrow> (\<exists>ld. n l = Some ld \<and> ld_key ld = k \<and> ld_entry ld = qe_id e)) \<and>
     (\<forall>l ld e. n l = Some ld \<and> owns m ld e \<longrightarrow> qe_promise e = Some l)"

definition loads_count :: "'v entries \<Rightarrow> loads \<Rightarrow> 'v cache_spec \<Rightarrow> bool" where
  "loads_count m n s \<longleftrightarrow>
     (\<forall>l x. sp_loads s l = Some x \<longleftrightarrow> (\<exists>ld e. n l = Some ld \<and> owns m ld e \<and> x = load_info ld))"

definition values_last :: "'v entries \<Rightarrow> 'v cache_spec \<Rightarrow> bool" where
  "values_last m s \<longleftrightarrow>
     (\<forall>k e v. m k = Some e \<and> qe_value e = Some v \<longrightarrow> sp_values s k = Some (v, qe_freshUntil e, qe_staleUntil e))"

definition numbers_below :: "'v entries \<Rightarrow> loads \<Rightarrow> nat \<Rightarrow> bool" where
  "numbers_below m n nx \<longleftrightarrow> (\<forall>k e. m k = Some e \<longrightarrow> qe_id e < nx) \<and> (\<forall>l ld. n l = Some ld \<longrightarrow> l < nx \<and> ld_entry ld < nx)"

definition cache_rel :: "'v entries \<Rightarrow> loads \<Rightarrow> nat \<Rightarrow> 'v cache_spec \<Rightarrow> bool" where
  "cache_rel m n nx s \<longleftrightarrow> promises_run m n \<and> loads_count m n s \<and> values_last m s \<and> numbers_below m n nx"

named_theorems cache_rel_defs
lemmas [cache_rel_defs] = promises_run_def loads_count_def values_last_def numbers_below_def owns_def load_info_def

lemma promise_load:
  "promises_run m n \<Longrightarrow> m k = Some e \<Longrightarrow> qe_promise e = Some l \<Longrightarrow>
    \<exists>ld. n l = Some ld \<and> ld_key ld = k \<and> ld_entry ld = qe_id e"
  by (simp add: promises_run_def)

lemma load_promise: "promises_run m n \<Longrightarrow> n l = Some ld \<Longrightarrow> owns m ld e \<Longrightarrow> qe_promise e = Some l"
  by (simp add: promises_run_def)

lemma load_counts:
  "loads_count m n s \<Longrightarrow> sp_loads s l = Some x \<longleftrightarrow> (\<exists>ld e. n l = Some ld \<and> owns m ld e \<and> x = load_info ld)"
  unfolding loads_count_def by blast

lemma loads_count_cong:
  "(\<And>l ld e. n l = Some ld \<Longrightarrow> owns m' ld e = owns m ld e) \<Longrightarrow> loads_count m n s \<Longrightarrow> loads_count m' n s"
  unfolding loads_count_def by (metis (no_types))

lemma rel_idle_removed:
  assumes "cache_rel m n nx s" and "m k = Some e" and "qe_promise e = None"
  shows "cache_rel (m(k := None)) n nx s"
proof -
  have not: "\<not> (ld_key ld = k \<and> qe_id e = ld_entry ld)" if "n l = Some ld" for l ld
    using assms that unfolding cache_rel_def promises_run_def owns_def by fastforce
  have "promises_run (m(k := None)) n" "values_last (m(k := None)) s" "numbers_below (m(k := None)) n nx"
    using assms(1) unfolding cache_rel_def by (auto simp: cache_rel_defs split: if_splits)
  moreover have "loads_count (m(k := None)) n s"
  proof (rule loads_count_cong)
    show "owns (m(k := None)) ld e' = owns m ld e'" if "n l = Some ld" for l ld e'
      using not [OF that] assms(2) by (auto simp: owns_def)
    show "loads_count m n s" using assms(1) by (simp add: cache_rel_def)
  qed
  ultimately show ?thesis by (simp add: cache_rel_def)
qed

lemma rel_load_started:
  assumes rel: "cache_rel m n nx s" and e: "qe_promise e = None" "qe_id e < l"
    and l: "nx \<le> l" "ld_key ld = k" "ld_entry ld = qe_id e"
    and fresh: "\<And>l' ld'. n l' = Some ld' \<Longrightarrow> ld_key ld' = k \<Longrightarrow> ld_entry ld' \<noteq> qe_id e"
    and old: "\<And>l' ld' e'. n l' = Some ld' \<Longrightarrow> ld_key ld' = k \<Longrightarrow> m k = Some e' \<Longrightarrow> ld_entry ld' \<noteq> qe_id e'"
    and v: "\<And>v. qe_value e = Some v \<Longrightarrow> sp_values s k = Some (v, qe_freshUntil e, qe_staleUntil e)"
  shows "cache_rel (m(k \<mapsto> e \<lparr>qe_promise := Some l\<rparr>)) (n(l \<mapsto> ld)) (Suc l)
    (s \<lparr>sp_loads := (sp_loads s)(l \<mapsto> load_info ld)\<rparr>)"
proof -
  let ?m = "m(k \<mapsto> e \<lparr>qe_promise := Some l\<rparr>)"
  have n: "n l = None"
  proof (cases "n l")
    case (Some x)
    then have "l < nx" using rel by (simp add: cache_rel_def numbers_below_def)
    then show ?thesis using l(1) by simp
  qed
  have keep: "owns ?m ld' e' \<longleftrightarrow> owns m ld' e'" if "n l' = Some ld'" for l' ld' e'
  proof (cases "ld_key ld' = k")
    case True
    have "qe_id (e \<lparr>qe_promise := Some l\<rparr>) \<noteq> ld_entry ld'" using fresh [OF that True] by simp
    then have "\<not> owns ?m ld' e'" unfolding owns_def True fun_upd_same option.inject by metis
    moreover have "\<not> owns m ld' e'" using old [OF that True, of e'] True unfolding owns_def by metis
    ultimately show ?thesis by simp
  next
    case False
    then show ?thesis by (simp add: owns_def)
  qed
  have new: "owns ?m ld e' \<longleftrightarrow> e' = e \<lparr>qe_promise := Some l\<rparr>" for e'
  proof -
    have "qe_id (e \<lparr>qe_promise := Some l\<rparr>) = qe_id e" by simp
    then show ?thesis unfolding owns_def l fun_upd_same option.inject by metis
  qed
  have p: "promises_run m n" "loads_count m n s" "values_last m s" "numbers_below m n nx"
    using rel by (simp_all add: cache_rel_def)
  have "loads_count ?m n s" by (rule loads_count_cong [OF keep p(2)])
  then have count: "sp_loads s l' = Some x \<longleftrightarrow> (\<exists>ld e. n l' = Some ld \<and> owns ?m ld e \<and> x = load_info ld)" for l' x
    by (rule load_counts)
  have "loads_count ?m (n(l \<mapsto> ld)) (s \<lparr>sp_loads := (sp_loads s)(l \<mapsto> load_info ld)\<rparr>)"
    unfolding loads_count_def
  proof (intro allI)
    fix l' x
    show "sp_loads (s \<lparr>sp_loads := (sp_loads s)(l \<mapsto> load_info ld)\<rparr>) l' = Some x \<longleftrightarrow>
      (\<exists>ld' e. (n(l \<mapsto> ld)) l' = Some ld' \<and> owns ?m ld' e \<and> x = load_info ld')"
      using count [of l' x] new by (cases "l' = l") auto
  qed
  moreover have "promises_run ?m (n(l \<mapsto> ld))"
    unfolding promises_run_def
  proof (intro conjI allI impI)
    fix k' e' l' assume a: "?m k' = Some e' \<and> qe_promise e' = Some l'"
    show "\<exists>ld'. (n(l \<mapsto> ld)) l' = Some ld' \<and> ld_key ld' = k' \<and> ld_entry ld' = qe_id e'"
    proof (cases "k' = k")
      case True
      then show ?thesis using a l by auto
    next
      case False
      then obtain ld' where "n l' = Some ld' \<and> ld_key ld' = k' \<and> ld_entry ld' = qe_id e'"
        using a promise_load [OF p(1), of k' e' l'] by auto
      then show ?thesis using n by auto
    qed
  next
    fix l' ld' e' assume a: "(n(l \<mapsto> ld)) l' = Some ld' \<and> owns ?m ld' e'"
    show "qe_promise e' = Some l'"
    proof (cases "l' = l")
      case True
      then show ?thesis using a new by auto
    next
      case False
      then show ?thesis using a keep [of l' ld' e'] load_promise [OF p(1), of l' ld' e'] by simp
    qed
  qed
  moreover have "values_last ?m (s \<lparr>sp_loads := (sp_loads s)(l \<mapsto> load_info ld)\<rparr>)"
    using p(3) v unfolding values_last_def by auto
  moreover have "numbers_below ?m (n(l \<mapsto> ld)) (Suc l)"
    using p(4) e l unfolding numbers_below_def by (fastforce split: if_splits)
  ultimately show ?thesis by (simp add: cache_rel_def)
qed

text \<open>A load settles: its entry, if it still has one, becomes \<open>e\<close> or is removed.\<close>

lemma rel_load_stale:
  assumes rel: "cache_rel m n nx s" and ld: "n l = Some ld" and none: "\<And>e. \<not> owns m ld e"
  shows "cache_rel m (n(l := None)) nx s" and "sp_loads s l = None"
proof -
  have p: "promises_run m n" "loads_count m n s" "values_last m s" "numbers_below m n nx"
    using rel by (simp_all add: cache_rel_def)
  show sp: "sp_loads s l = None"
    using load_counts [OF p(2), of l] ld none by (cases "sp_loads s l") auto
  have "promises_run m (n(l := None))"
    unfolding promises_run_def
  proof (intro conjI allI impI)
    fix k e l' assume a: "m k = Some e \<and> qe_promise e = Some l'"
    then obtain ld' where b: "n l' = Some ld'" "ld_key ld' = k" "ld_entry ld' = qe_id e"
      using promise_load [OF p(1)] by blast
    then have "owns m ld' e" using a by (simp add: owns_def)
    then have "l' \<noteq> l" using none ld b(1) by auto
    then show "\<exists>ld. (n(l := None)) l' = Some ld \<and> ld_key ld = k \<and> ld_entry ld = qe_id e" using b by simp
  next
    fix l' ld' e assume "(n(l := None)) l' = Some ld' \<and> owns m ld' e"
    then show "qe_promise e = Some l'" using load_promise [OF p(1)] by (auto split: if_splits)
  qed
  moreover have "loads_count m (n(l := None)) s"
    using load_counts [OF p(2)] sp ld none unfolding loads_count_def by (auto split: if_splits)
  moreover have "numbers_below m (n(l := None)) nx" using p(4) unfolding numbers_below_def by auto
  ultimately show "cache_rel m (n(l := None)) nx s" using p(3) by (simp add: cache_rel_def)
qed

lemma rel_load_settled:
  assumes rel: "cache_rel m n nx s" and ld: "n l = Some ld" and own: "owns m ld e"
    and e': "\<And>e2. x = Some e2 \<Longrightarrow> qe_promise e2 = None \<and> qe_id e2 = qe_id e"
    and v: "\<And>e2 v. x = Some e2 \<Longrightarrow> qe_value e2 = Some v \<Longrightarrow> values (ld_key ld) = Some (v, qe_freshUntil e2, qe_staleUntil e2)"
    and other: "\<And>k. k \<noteq> ld_key ld \<Longrightarrow> values k = sp_values s k"
  shows "cache_rel (m(ld_key ld := x)) (n(l := None)) nx (s \<lparr>sp_loads := (sp_loads s)(l := None), sp_values := values\<rparr>)"
proof -
  let ?m = "m(ld_key ld := x)"
  have p: "promises_run m n" "loads_count m n s" "values_last m s" "numbers_below m n nx"
    using rel by (simp_all add: cache_rel_def)
  have pe: "qe_promise e = Some l" by (rule load_promise [OF p(1) ld own])
  have single: "l' = l" if "n l' = Some ld'" "ld_key ld' = ld_key ld" "ld_entry ld' = qe_id e" for l' ld'
  proof -
    have "owns m ld' e" using own that by (simp add: owns_def)
    then show ?thesis using load_promise [OF p(1) that(1)] pe by simp
  qed
  have keep: "owns ?m ld' e2 \<longleftrightarrow> owns m ld' e2" if "n l' = Some ld'" "l' \<noteq> l" for l' ld' e2
  proof (cases "ld_key ld' = ld_key ld")
    case True
    then have "ld_entry ld' \<noteq> qe_id e" using single that by blast
    then show ?thesis using True own e' by (auto simp: owns_def)
  next
    case False
    then show ?thesis by (simp add: owns_def)
  qed
  have "promises_run ?m (n(l := None))"
    unfolding promises_run_def
  proof (intro conjI allI impI)
    fix k' e2 l' assume a: "?m k' = Some e2 \<and> qe_promise e2 = Some l'"
    then have k: "k' \<noteq> ld_key ld" using e' by auto
    then obtain ld' where b: "n l' = Some ld'" "ld_key ld' = k'" "ld_entry ld' = qe_id e2"
      using promise_load [OF p(1), of k' e2 l'] a by auto
    then have "l' \<noteq> l" using ld k by auto
    then show "\<exists>ld'. (n(l := None)) l' = Some ld' \<and> ld_key ld' = k' \<and> ld_entry ld' = qe_id e2" using b by simp
  next
    fix l' ld' e2 assume "(n(l := None)) l' = Some ld' \<and> owns ?m ld' e2"
    then show "qe_promise e2 = Some l'"
      using keep [of l' ld' e2] load_promise [OF p(1), of l' ld' e2] by (auto split: if_splits)
  qed
  moreover have "loads_count ?m (n(l := None)) (s \<lparr>sp_loads := (sp_loads s)(l := None), sp_values := values\<rparr>)"
    unfolding loads_count_def
  proof (intro allI)
    fix l' x
    show "sp_loads (s \<lparr>sp_loads := (sp_loads s)(l := None), sp_values := values\<rparr>) l' = Some x \<longleftrightarrow>
      (\<exists>ld e. (n(l := None)) l' = Some ld \<and> owns ?m ld e \<and> x = load_info ld)"
      using load_counts [OF p(2), of l' x] keep [of l'] by (cases "l' = l") auto
  qed
  moreover have "values_last ?m (s \<lparr>sp_loads := (sp_loads s)(l := None), sp_values := values\<rparr>)"
    using p(3) v other unfolding values_last_def by auto
  moreover have "numbers_below ?m (n(l := None)) nx"
  proof -
    have "ld_entry ld < nx" "qe_id e = ld_entry ld" using p(4) ld own by (simp_all add: numbers_below_def owns_def)
    then show ?thesis using p(4) e' unfolding numbers_below_def by (auto split: if_splits)
  qed
  ultimately show ?thesis by (simp add: cache_rel_def)
qed

lemma rel_cleared:
  assumes rel: "cache_rel m n nx s"
  shows "cache_rel (\<lambda>k. if cleared matches k then None else m k) n nx (spec_clear matches s)"
proof -
  let ?m = "\<lambda>k. if cleared matches k then None else m k"
  have p: "promises_run m n" "loads_count m n s" "values_last m s" "numbers_below m n nx"
    using rel by (simp_all add: cache_rel_def)
  have own: "owns ?m ld e \<longleftrightarrow> \<not> cleared matches (ld_key ld) \<and> owns m ld e" for ld e by (simp add: owns_def)
  have "loads_count ?m n (spec_clear matches s)"
    unfolding loads_count_def own
  proof (intro allI)
    fix l x
    have "sp_loads (spec_clear matches s) l = Some x \<longleftrightarrow> sp_loads s l = Some x \<and> \<not> cleared matches (fst x)"
      by (auto simp: spec_clear_def split: option.splits)
    also have "\<dots> \<longleftrightarrow> (\<exists>ld e. n l = Some ld \<and> owns m ld e \<and> x = load_info ld) \<and> \<not> cleared matches (fst x)"
      unfolding load_counts [OF p(2)] ..
    also have "\<dots> \<longleftrightarrow> (\<exists>ld e. n l = Some ld \<and> (\<not> cleared matches (ld_key ld) \<and> owns m ld e) \<and> x = load_info ld)"
      by (auto simp: load_info_def)
    finally show "sp_loads (spec_clear matches s) l = Some x \<longleftrightarrow>
      (\<exists>ld e. n l = Some ld \<and> (\<not> cleared matches (ld_key ld) \<and> owns m ld e) \<and> x = load_info ld)" .
  qed
  moreover have "promises_run ?m n"
    unfolding promises_run_def own using promise_load [OF p(1)] load_promise [OF p(1)] by (auto split: if_splits)
  moreover have "values_last ?m (spec_clear matches s)"
    using p(3) unfolding values_last_def spec_clear_def by auto
  moreover have "numbers_below ?m n nx" using p(4) unfolding numbers_below_def by auto
  ultimately show ?thesis by (simp add: cache_rel_def)
qed


section \<open>The operations keep the relation\<close>

definition rel :: "'v query_cache \<Rightarrow> 'v cache_spec \<Rightarrow> bool" where
  "rel c s \<longleftrightarrow> wf_map (qc_entries c) \<and> cache_rel (map_get (qc_entries c)) (map_get (qc_loads c)) (qc_next c) s"

text \<open>What removals of idle entries keep, \<open>trim\<close> and \<open>prune\<close> keep.\<close>

lemma trim_loop_keeps:
  assumes "\<And>k c. Q c \<Longrightarrow> idle_entry k c \<Longrightarrow> Q (qc_remove k c)" and "Q c"
  shows "Q (trim_loop cfg reserve keys c)"
  using assms(2) by (induction keys arbitrary: c) (auto intro: assms(1))

lemma trim_keeps:
  assumes "\<And>k c. Q c \<Longrightarrow> idle_entry k c \<Longrightarrow> Q (qc_remove k c)" and "Q c"
  shows "Q (trim cfg reserve c)"
  unfolding trim_def by (rule trim_loop_keeps [of Q]) (auto intro: assms)

lemma if_both: "Q c \<Longrightarrow> (p \<Longrightarrow> Q c') \<Longrightarrow> Q (if p then c' else c)"
  by simp

lemma expired_idle: "expired_at now k c \<Longrightarrow> idle_entry k c"
  by (simp add: expired_at_def idle_entry_def split: option.splits)

lemma prune_keeps:
  assumes step: "\<And>k c. Q c \<Longrightarrow> idle_entry k c \<Longrightarrow> Q (qc_remove k c)" and "Q c"
  shows "Q (prune cfg now c)"
proof -
  have "Q (fold (\<lambda>key c. if expired_at now key c then qc_remove key c else c) keys c)" for keys
    using assms(2)
  proof (induction keys arbitrary: c)
    case (Cons key keys)
    have "Q (qc_remove key c)" if "expired_at now key c" using Cons.prems expired_idle [OF that] by (rule step)
    with Cons.prems have next': "Q (if expired_at now key c then qc_remove key c else c)" by (rule if_both)
    show ?case unfolding fold_simps by (rule Cons.IH [OF next'])
  qed (simp only: fold_simps)
  then have "Q (fold (\<lambda>key c. if expired_at now key c then qc_remove key c else c) (map fst (qc_entries c)) c)" .
  with step show ?thesis unfolding prune_def by (rule trim_keeps [of Q])
qed

lemma remove_entries: "map_get (qc_entries (qc_remove k c)) = (map_get (qc_entries c))(k := None)"
  by (auto simp: qc_remove_def map_get_delete_fun split: option.splits)

lemma remove_simps [simp]:
  "qc_loads (qc_remove k c) = qc_loads c" "qc_next (qc_remove k c) = qc_next c"
  "wf_map (qc_entries c) \<Longrightarrow> wf_map (qc_entries (qc_remove k c))"
  by (simp_all add: qc_remove_def split: option.split)

lemma rel_remove_idle:
  assumes "rel c s" and "idle_entry k c"
  shows "rel (qc_remove k c) s"
proof -
  obtain e where "map_get (qc_entries c) k = Some e" "qe_promise e = None"
    using assms(2) by (auto simp: idle_entry_def split: option.splits)
  then show ?thesis
    using rel_idle_removed [of "map_get (qc_entries c)"] assms(1) unfolding rel_def remove_entries remove_simps
    by simp
qed

lemma rel_trim: "rel c s \<Longrightarrow> rel (trim cfg reserve c) s"
  by (rule trim_keeps [where Q = "\<lambda>c. rel c s"]) (auto intro: rel_remove_idle)

lemma rel_prune: "rel c s \<Longrightarrow> rel (prune cfg now c) s"
  by (rule prune_keeps [where Q = "\<lambda>c. rel c s"]) (auto intro: rel_remove_idle)

text \<open>After \<open>trim\<close> there is room, or only entries whose load runs are left.\<close>

lemma trim_loop_room:
  "wf_map (qc_entries c) \<Longrightarrow> (\<forall>k. idle_entry k c \<longrightarrow> k \<in> set keys) \<Longrightarrow> c' = trim_loop cfg reserve keys c \<Longrightarrow>
   (int (length (qc_entries c')) + reserve \<le> max_entries cfg \<and> fits cfg (qc_bytes c')) \<or> (\<forall>k. \<not> idle_entry k c')"
proof (induction keys arbitrary: c)
  case (Cons key keys)
  let ?c = "if idle_entry key c then qc_remove key c else c"
  have "\<forall>k. idle_entry k ?c \<longrightarrow> k \<in> set keys"
    using Cons.prems(2) by (auto simp: idle_entry_def remove_entries)
  then show ?case using Cons.IH [of ?c] Cons.prems by (auto split: if_splits)
qed simp

lemma trim_room:
  assumes "wf_map (qc_entries c)"
  shows "(int (length (qc_entries (trim cfg reserve c))) + reserve \<le> max_entries cfg \<and> fits cfg (qc_bytes (trim cfg reserve c)))
    \<or> (\<forall>k. \<not> idle_entry k (trim cfg reserve c))"
proof (rule trim_loop_room [OF assms _ trim_def])
  show "\<forall>k. idle_entry k c \<longrightarrow> k \<in> set (map fst (qc_entries c))"
    using map_get_inD by (force simp: idle_entry_def split: option.splits)
qed

lemma touch_entries: "map_get (qc_entries (touch k c)) = map_get (qc_entries c)"
  by (auto simp: touch_def map_get_set_fun map_get_delete_fun split: option.splits)

lemma rel_touch: "rel c s \<Longrightarrow> rel (touch k c) s"
  unfolding rel_def touch_entries by (simp add: touch_def split: option.split)

lemma rel_prune_at: "rel (c \<lparr>qc_nextPruneAt := t\<rparr>) s \<longleftrightarrow> rel c s"
  by (simp add: rel_def)

text \<open>A key whose entry is idle or absent has no load that counts.\<close>

lemma no_load_of_idle:
  assumes "cache_rel m n nx s" and "\<And>e. m k = Some e \<Longrightarrow> qe_promise e = None" and "sp_loads s l = Some x"
  shows "fst x \<noteq> k"
proof
  assume "fst x = k"
  have p: "promises_run m n" "loads_count m n s" using assms(1) by (simp_all add: cache_rel_def)
  obtain ld e where l: "n l = Some ld" "owns m ld e" "x = load_info ld"
    using load_counts [OF p(2)] assms(3) by blast
  then have "m k = Some e" using \<open>fst x = k\<close> by (simp add: owns_def load_info_def)
  then show False using assms(2) load_promise [OF p(1) l(1,2)] by simp
qed


lemma start_load_maps:
  assumes "start_load key e ttl stale c = (c', l)"
  shows "l = qc_next c" and "qc_next c' = Suc l"
    and "map_get (qc_entries c') = (map_get (qc_entries c))(key \<mapsto> e \<lparr>qe_promise := Some l\<rparr>)"
    and "map_get (qc_loads c') = (map_get (qc_loads c))
      (l \<mapsto> \<lparr>ld_key = key, ld_entry = qe_id e, ld_ttl = ttl, ld_stale = stale\<rparr>)"
    and "wf_map (qc_entries c) \<Longrightarrow> wf_map (qc_entries c')"
  using assms by (auto simp: start_load_def Let_def map_get_set_fun)

lemma rel_start_present:
  assumes "rel c s" and e: "map_get (qc_entries c) key = Some e" "qe_promise e = None"
    and start: "start_load key e ttl stale c = (c', l)"
  shows "rel c' (s \<lparr>sp_loads := (sp_loads s)(l \<mapsto> (key, ttl, stale))\<rparr>)"
proof -
  let ?m = "map_get (qc_entries c)" and ?n = "map_get (qc_loads c)"
  let ?ld = "\<lparr>ld_key = key, ld_entry = qe_id e, ld_ttl = ttl, ld_stale = stale\<rparr>"
  have r: "cache_rel ?m ?n (qc_next c) s" and wf: "wf_map (qc_entries c)" using assms(1) by (simp_all add: rel_def)
  note st = start_load_maps [OF start]
  have other: "ld_entry ld' \<noteq> qe_id e" if "?n l' = Some ld'" "ld_key ld' = key" for l' ld'
  proof
    assume "ld_entry ld' = qe_id e"
    then have "owns ?m ld' e" using e that by (simp add: owns_def)
    then show False using r load_promise that(1) e(2) unfolding cache_rel_def by fastforce
  qed
  have "qe_id e < l" using r e(1) st(1) by (simp add: cache_rel_def numbers_below_def)
  moreover have "sp_values s key = Some (v, qe_freshUntil e, qe_staleUntil e)" if "qe_value e = Some v" for v
    using r e(1) that by (simp add: cache_rel_def values_last_def)
  ultimately have "cache_rel (?m(key \<mapsto> e \<lparr>qe_promise := Some l\<rparr>)) (?n(l \<mapsto> ?ld)) (Suc l)
    (s \<lparr>sp_loads := (sp_loads s)(l \<mapsto> load_info ?ld)\<rparr>)"
    using other e st(1) by (intro rel_load_started [OF r]) auto
  then show ?thesis
    using st(5) [OF wf] unfolding rel_def st(2,3,4) load_info_def cache_load.simps by (rule conjI [rotated])
qed

lemma rel_start_new:
  assumes "rel c s" and none: "map_get (qc_entries c) key = None"
    and e: "qe_id e = qc_next c" "qe_promise e = None" "qe_value e = None"
    and start: "start_load key e ttl stale (c \<lparr>qc_next := Suc (qc_next c)\<rparr>) = (c', l)"
  shows "rel c' (s \<lparr>sp_loads := (sp_loads s)(l \<mapsto> (key, ttl, stale))\<rparr>)"
proof -
  let ?m = "map_get (qc_entries c)" and ?n = "map_get (qc_loads c)"
  let ?ld = "\<lparr>ld_key = key, ld_entry = qe_id e, ld_ttl = ttl, ld_stale = stale\<rparr>"
  have r: "cache_rel ?m ?n (qc_next c) s" and wf: "wf_map (qc_entries c)" using assms(1) by (simp_all add: rel_def)
  note st = start_load_maps [OF start, simplified]
  have "ld_entry ld' \<noteq> qe_id e" if "?n l' = Some ld'" for l' ld'
  proof -
    have "ld_entry ld' < qc_next c" using r that by (simp add: cache_rel_def numbers_below_def)
    then show ?thesis using e(1) by simp
  qed
  then have "cache_rel (?m(key \<mapsto> e \<lparr>qe_promise := Some l\<rparr>)) (?n(l \<mapsto> ?ld)) (Suc l)
    (s \<lparr>sp_loads := (sp_loads s)(l \<mapsto> load_info ?ld)\<rparr>)"
    using e none st(1) by (intro rel_load_started [OF r]) auto
  then show ?thesis
    using st(5) [OF wf] unfolding rel_def st(2,3,4) load_info_def cache_load.simps by (rule conjI [rotated])
qed

text \<open>A cache that is full of entries whose loads run has as many loads that count.\<close>

lemma same_image: "n l = Some ld \<Longrightarrow> n l = Some ld' \<Longrightarrow> ld = ld'"
  by simp

lemma same_key: "ld = ld' \<Longrightarrow> ld_key ld = k \<Longrightarrow> ld_key ld' = k' \<Longrightarrow> k = k'"
  by simp

lemma busy_loads:
  assumes "rel c s" and "\<forall>k. \<not> idle_entry k c"
  shows "length (qc_entries c) \<le> card (dom (sp_loads s))"
proof -
  let ?m = "map_get (qc_entries c)" and ?n = "map_get (qc_loads c)"
  let ?f = "\<lambda>k. the (qe_promise (the (?m k)))"
  have r: "promises_run ?m ?n" "loads_count ?m ?n s" and wf: "wf_map (qc_entries c)"
    using assms(1) by (simp_all add: rel_def cache_rel_def)
  have run: "\<exists>ld e. ?n (?f k) = Some ld \<and> ld_key ld = k \<and> owns ?m ld e" if "k \<in> dom ?m" for k
  proof -
    obtain e where e: "?m k = Some e" using \<open>k \<in> dom ?m\<close> by blast
    then obtain l where l: "qe_promise e = Some l" 
      using spec [OF assms(2), of k] by (cases "qe_promise e") (simp_all add: idle_entry_def)
    then have "?f k = l" using e by simp
    then show ?thesis using promise_load [OF r(1) e l] e by (auto simp: owns_def)
  qed
  have "inj_on ?f (dom ?m)"
  proof (rule inj_onI)
    fix k k' assume k: "k \<in> dom ?m" "k' \<in> dom ?m" "?f k = ?f k'"
    obtain ld where l: "?n (?f k) = Some ld" "ld_key ld = k" using run [OF k(1)] by blast
    obtain ld' where l': "?n (?f k') = Some ld'" "ld_key ld' = k'" using run [OF k(2)] by blast
    have "ld = ld'" using l(1) l'(1) unfolding k(3) by (rule same_image)
    then show "k = k'" using l(2) l'(2) by (rule same_key)
  qed
  moreover have "?f ` dom ?m \<subseteq> dom (sp_loads s)"

  proof (rule image_subsetI)
    fix k assume "k \<in> dom ?m"
    then obtain ld e where "?n (?f k) = Some ld" "owns ?m ld e" using run by blast
    then have "sp_loads s (?f k) = Some (load_info ld)" using load_counts [OF r(2)] by blast
    then show "?f k \<in> dom (sp_loads s)" by (rule domI)
  qed
  moreover have "finite (dom (sp_loads s))"
  proof (rule finite_subset)
    show "dom (sp_loads s) \<subseteq> dom ?n" using load_counts [OF r(2)] by blast
    show "finite (dom ?n)" by (rule finite_dom_map_of)
  qed
  ultimately have "card (dom ?m) \<le> card (dom (sp_loads s))" by (metis card_image card_mono)
  moreover have "card (dom ?m) = length (qc_entries c)"
    using wf by (simp add: dom_map_of_conv_image_fst wf_map_def distinct_card flip: set_map)
  ultimately show ?thesis by simp
qed

definition load_or_busy :: "'v cache_options \<Rightarrow> string \<Rightarrow> nat option \<Rightarrow> 'v cache_spec \<Rightarrow> 'v cache_spec \<Rightarrow> bool" where
  "load_or_busy cfg key started s s' \<longleftrightarrow>
     (case started of
        Some l \<Rightarrow> (\<exists>ttl stale. sp_loads s' l = Some (key, ttl, stale))
      | None \<Rightarrow> max_entries cfg \<le> int (card (dom (sp_loads s))))"

lemma refresh_spec:
  assumes r: "rel c s" and idle: "\<And>e. map_get (qc_entries c) key = Some e \<Longrightarrow> qe_promise e = None"
    and eq: "refresh cfg key ttl stale c = (c', started)"
  defines "s' \<equiv> spec_start started key ttl (Some stale) s"
  shows "rel c' s'" and "load_or_busy cfg key started s s'"
proof -
  have "rel c' s' \<and> load_or_busy cfg key started s s'"
  proof (cases "map_get (qc_entries c) key")
    case (Some e)
    obtain c1 l where st: "start_load key e ttl stale c = (c1, l)" by fastforce
    then have eqs: "c' = c1" "started = Some l" using eq Some by (auto simp: refresh_def)
    show ?thesis
      using rel_start_present [OF r Some idle [OF Some] st] by (simp add: eqs s'_def spec_start_def load_or_busy_def)
  next
    case None
    let ?c = "trim cfg 1 c"
    have rt: "rel ?c s" by (rule rel_trim [OF r])
    have wf: "wf_map (qc_entries c)" using r by (simp add: rel_def)
    show ?thesis
    proof (cases "max_entries cfg \<le> int (length (qc_entries ?c))")
      case True
      then have eqs: "c' = ?c" "started = None" using eq None by (simp_all add: refresh_def Let_def)
      have "\<forall>k. \<not> idle_entry k ?c" using trim_room [OF wf, of cfg 1] True by auto
      then show ?thesis
        using busy_loads [OF rt] True rt by (simp add: eqs s'_def spec_start_def load_or_busy_def)
    next
      case False
      let ?e = "\<lparr>qe_id = qc_next ?c, qe_freshUntil = 0, qe_staleUntil = 0, qe_retryAt = 0, qe_bytes = 0,
        qe_value = None, qe_promise = None\<rparr>"
      obtain c1 l where st: "start_load key ?e ttl stale (?c \<lparr>qc_next := Suc (qc_next ?c)\<rparr>) = (c1, l)" by fastforce
      then have eqs: "c' = c1" "started = Some l" using eq None False by (auto simp: refresh_def Let_def)
      have "map_get (qc_entries ?c) key = None"
        by (rule trim_keeps [where Q = "\<lambda>c. map_get (qc_entries c) key = None"]) (simp_all add: remove_entries None)
      then show ?thesis
        using rel_start_new [OF rt _ _ _ _ st] by (simp add: eqs s'_def spec_start_def load_or_busy_def)
    qed
  qed
  then show "rel c' s'" and "load_or_busy cfg key started s s'" by simp_all
qed


text \<open>
  What an answer tells: a value is the last one loaded for the key and may still be served; a
  promise is that of a load of the key that counts; the cache is busy when as many loads count as
  it may have entries. A load is only started when none of the key counts, and, next to a value
  that is served, only when that value is no longer fresh.
\<close>

definition answer_sound ::
  "'v cache_options \<Rightarrow> string \<Rightarrow> int \<Rightarrow> 'v reply \<Rightarrow> nat option \<Rightarrow> 'v cache_spec \<Rightarrow> 'v cache_spec \<Rightarrow> bool" where
  "answer_sound cfg key now reply started s s' \<longleftrightarrow>
     (case reply of
        Hit v \<Rightarrow> (\<exists>fresh stale. sp_values s key = Some (v, fresh, stale) \<and>
                   (now < fresh \<and> started = None \<or> fresh \<le> now \<and> now < stale))
      | Wait l \<Rightarrow> (\<exists>ttl stale. sp_loads s' l = Some (key, ttl, stale))
      | Busy \<Rightarrow> max_entries cfg \<le> int (card (dom (sp_loads s)))) \<and>
     (started = None \<or> (\<forall>l x. sp_loads s l = Some x \<longrightarrow> fst x \<noteq> key))"

lemma get_query_sound:
  assumes r: "rel c s" and eq: "get_query cfg key ttl staleMs now c = (c', reply, started)"
  defines "s' \<equiv> spec_start started key ttl staleMs s"
  shows "rel c' s' \<and> answer_sound cfg key now reply started s s'"
proof -
  let ?stale = "case staleMs of None \<Rightarrow> ttl | Some st \<Rightarrow> st"
  define c1 where "c1 = (if qc_nextPruneAt c \<le> now then prune cfg now c \<lparr>qc_nextPruneAt := now + 1000\<rparr> else c)"
  have r1: "rel c1 s" using r rel_prune [OF r] by (simp add: c1_def rel_prune_at)
  let ?c2 = "touch key c1"
  have r2: "rel ?c2 s" by (rule rel_touch [OF r1])
  obtain c3 l where ref: "refresh cfg key ttl ?stale ?c2 = (c3, l)" by fastforce
  have start: "spec_start l' key ttl (Some ?stale) s = spec_start l' key ttl staleMs s" for l'
    by (simp add: spec_start_def split: option.split)
  have idle: "rel c3 (spec_start l key ttl staleMs s) \<and>
      load_or_busy cfg key l s (spec_start l key ttl staleMs s) \<and> (\<forall>l x. sp_loads s l = Some x \<longrightarrow> fst x \<noteq> key)"
    if "\<And>e. map_get (qc_entries c1) key = Some e \<Longrightarrow> qe_promise e = None"
  proof -
    have i: "\<And>e. map_get (qc_entries ?c2) key = Some e \<Longrightarrow> qe_promise e = None" using that by (simp add: touch_entries)
    have "cache_rel (map_get (qc_entries c1)) (map_get (qc_loads c1)) (qc_next c1) s" using r1 by (simp add: rel_def)
    then show ?thesis
      using refresh_spec [OF r2 i ref] no_load_of_idle [OF _ that] unfolding start by blast
  qed
  have wait: "\<exists>ttl stale. sp_loads s l' = Some (key, ttl, stale)"
    if e: "map_get (qc_entries c1) key = Some e" "qe_promise e = Some l'" for e l'
  proof -
    have p: "promises_run (map_get (qc_entries c1)) (map_get (qc_loads c1))"
      "loads_count (map_get (qc_entries c1)) (map_get (qc_loads c1)) s"
      using r1 by (simp_all add: rel_def cache_rel_def)
    obtain ld where "map_get (qc_loads c1) l' = Some ld" "ld_key ld = key" "ld_entry ld = qe_id e"
      using promise_load [OF p(1) e] by blast
    then have "sp_loads s l' = Some (load_info ld)" using load_counts [OF p(2)] e(1) by (auto simp: owns_def)
    then show ?thesis using \<open>ld_key ld = key\<close> by (simp add: load_info_def)
  qed
  have hit: "sp_values s key = Some (v, qe_freshUntil e, qe_staleUntil e)"
    if "map_get (qc_entries c1) key = Some e" "qe_value e = Some v" for e v
    using r1 that by (simp add: rel_def cache_rel_def values_last_def)
  have none: "spec_start None key ttl staleMs s = s" by (simp add: spec_start_def)
  note q = eq [unfolded get_query_def, folded c1_def, unfolded Let_def ref prod.case]
  have loaded: "rel c' s' \<and> answer_sound cfg key now reply started s s'"
    if "\<And>e. map_get (qc_entries c1) key = Some e \<Longrightarrow> qe_promise e = None"
      and "(c', reply, started) = (c3, case l of Some l \<Rightarrow> Wait l | None \<Rightarrow> Busy, l)"
    using idle [OF that(1)] that(2)
    by (cases l) (simp_all add: s'_def answer_sound_def load_or_busy_def)
  show ?thesis
  proof (cases "map_get (qc_entries c1) key")
    case None
    show ?thesis by (rule loaded) (use q None in auto)
  next
    case (Some e)
    note e = Some
    show ?thesis
    proof (cases "qe_value e")
      case None
      show ?thesis
      proof (cases "qe_promise e")
        case None
        show ?thesis by (rule loaded) (use q e None \<open>qe_value e = None\<close> in auto)
      next
        case (Some l')
        then have "c' = ?c2" "reply = Wait l'" "started = None" using q e \<open>qe_value e = None\<close> by simp_all
        then show ?thesis using r2 wait [OF e Some] by (simp add: s'_def none answer_sound_def)
      qed
    next
      case (Some v)
      note v = Some
      consider "now < qe_freshUntil e" | "qe_freshUntil e \<le> now" "now < qe_staleUntil e"
        | "qe_freshUntil e \<le> now" "qe_staleUntil e \<le> now" by linarith
      then show ?thesis
      proof cases
        case 1
        then have "c' = ?c2" "reply = Hit v" "started = None" using q e v by simp_all
        then show ?thesis using r2 hit [OF e v] 1 by (simp add: s'_def none answer_sound_def)
      next
        case 2
        show ?thesis
        proof (cases "qe_promise e = None \<and> qe_retryAt e \<le> now")
          case True
          then have "c' = c3" "reply = Hit v" "started = l" using q e v 2 by simp_all
          then show ?thesis
            using idle hit [OF e v] 2 True e by (simp add: s'_def answer_sound_def)
        next
          case False
          then have "c' = ?c2" "reply = Hit v" "started = None" using q e v 2 by (simp_all split: if_splits)
          then show ?thesis using r2 hit [OF e v] 2 by (simp add: s'_def none answer_sound_def)
        qed
      next
        case 3
        show ?thesis
        proof (cases "qe_promise e")
          case None
          show ?thesis by (rule loaded) (use q e None v 3 in auto)
        next
          case (Some l')
          then have "c' = ?c2" "reply = Wait l'" "started = None" using q e v 3 by simp_all
          then show ?thesis using r2 wait [OF e Some] by (simp add: s'_def none answer_sound_def)
        qed
      qed
    qed
  qed
qed


text \<open>A load that settles.\<close>

lemma current_owns: "current_entry ld c = Some e \<longleftrightarrow> owns (map_get (qc_entries c)) ld e"
  by (auto simp: current_entry_def owns_def split: option.splits)

lemma rel_settled:
  assumes r: "rel c s" and l: "map_get (qc_loads c) l = Some ld" and own: "current_entry ld c = Some e"
    and x: "pred_option (\<lambda>e2. qe_promise e2 = None \<and> qe_id e2 = qe_id e) x"
      "pred_option (\<lambda>e2. \<forall>v. qe_value e2 = Some v \<longrightarrow> values (ld_key ld) = Some (v, qe_freshUntil e2, qe_staleUntil e2)) x"
    and other: "\<And>k. k \<noteq> ld_key ld \<Longrightarrow> values k = sp_values s k"
    and c': "map_get (qc_entries c') = (map_get (qc_entries c))(ld_key ld := x)"
      "qc_loads c' = map_delete l (qc_loads c)" "qc_next c' = qc_next c" "wf_map (qc_entries c')"
  shows "rel c' (s \<lparr>sp_loads := (sp_loads s)(l := None), sp_values := values\<rparr>)"
proof -
  have "cache_rel ((map_get (qc_entries c))(ld_key ld := x)) ((map_get (qc_loads c))(l := None)) (qc_next c)
    (s \<lparr>sp_loads := (sp_loads s)(l := None), sp_values := values\<rparr>)"
    using r l own x other by (intro rel_load_settled [where e = e]) (auto simp: rel_def current_owns pred_option_def)
  then show ?thesis using c' unfolding rel_def c'(1,2,3) map_get_delete_fun by blast
qed

lemma settled_info:
  assumes "rel c s" and "map_get (qc_loads c) l = Some ld" and "current_entry ld c = Some e"
  shows "sp_loads s l = Some (ld_key ld, ld_ttl ld, ld_stale ld)"
proof -
  have "loads_count (map_get (qc_entries c)) (map_get (qc_loads c)) s" using assms(1) by (simp add: rel_def cache_rel_def)
  then have "sp_loads s l = Some (load_info ld)" using assms(2,3) load_counts by (fastforce simp: current_owns)
  then show ?thesis by (simp add: load_info_def)
qed

lemma rel_forgotten:
  assumes r: "rel c s" and l: "map_get (qc_loads c) l = Some ld" and none: "current_entry ld c = None"
  shows "rel (c \<lparr>qc_loads := map_delete l (qc_loads c)\<rparr>) s" and "sp_loads s l = None"
proof -
  have own: "\<not> owns (map_get (qc_entries c)) ld e" for e using none current_owns [of ld c e] by simp
  have cr: "cache_rel (map_get (qc_entries c)) (map_get (qc_loads c)) (qc_next c) s" using r by (simp add: rel_def)
  show "rel (c \<lparr>qc_loads := map_delete l (qc_loads c)\<rparr>) s"
    using r rel_load_stale(1) [OF cr l own] unfolding rel_def by (simp flip: map_get_delete_fun)
  show "sp_loads s l = None" by (rule rel_load_stale(2) [OF cr l own])
qed

lemma current_loads: "current_entry ld (c \<lparr>qc_loads := ls\<rparr>) = current_entry ld c"
  by (simp add: current_entry_def)

lemma rel_unknown_load: "rel c s \<Longrightarrow> map_get (qc_loads c) l = None \<Longrightarrow> sp_loads s l = None"
  using load_counts [of "map_get (qc_entries c)" "map_get (qc_loads c)" s l]
  unfolding rel_def cache_rel_def by (cases "sp_loads s l") auto

lemma rel_load_done:
  assumes r: "rel c s"
  shows "rel (load_done cfg l v now c) (spec_done cfg l v now s)"
proof (cases "map_get (qc_loads c) l")
  case None
  then show ?thesis using r rel_unknown_load [OF r None] by (simp add: load_done_def spec_done_def)
next
  case (Some ld)
  note l = Some
  let ?c1 = "c \<lparr>qc_loads := map_delete l (qc_loads c)\<rparr>"
  show ?thesis
  proof (cases "current_entry ld c")
    case None
    then show ?thesis
      using rel_forgotten [OF r l None] by (simp add: load_done_def spec_done_def l Let_def current_loads)
  next
    case (Some e)
    note own = Some
    note info = settled_info [OF r l own]
    have wf: "wf_map (qc_entries c)" using r by (simp add: rel_def)
    let ?v = "(sp_values s)(ld_key ld := if fits cfg (value_size cfg v (ld_key ld))
      then map_option (\<lambda>v. (v, now + ld_ttl ld, now + ld_ttl ld + ld_stale ld)) v else None)"
    have spec: "spec_done cfg l v now s = s \<lparr>sp_loads := (sp_loads s)(l := None), sp_values := ?v\<rparr>"
      by (simp add: spec_done_def info)
    show ?thesis
    proof (cases "fits cfg (value_size cfg v (ld_key ld))")
      case False
      have "load_done cfg l v now c = qc_remove (ld_key ld) ?c1"
        using l own False by (simp add: load_done_def Let_def current_loads)
      then show ?thesis
        unfolding spec using wf
        by (intro rel_settled [OF r l own, where x = None]) (simp_all add: remove_entries fun_eq_iff)
    next
      case True
      let ?e = "e \<lparr>qe_value := v, qe_promise := None, qe_bytes := value_size cfg v (ld_key ld), qe_retryAt := 0,
        qe_freshUntil := now + ld_ttl ld, qe_staleUntil := now + ld_ttl ld + ld_stale ld\<rparr>"
      let ?c2 = "?c1 \<lparr>qc_entries := map_set (ld_key ld) ?e (qc_entries c),
        qc_bytes := qc_bytes c - qe_bytes e + value_size cfg v (ld_key ld)\<rparr>"
      have "load_done cfg l v now c = trim cfg 0 ?c2"
        using l own True by (simp add: load_done_def Let_def current_loads)
      moreover have "rel ?c2 (spec_done cfg l v now s)"
        unfolding spec using wf True
        by (intro rel_settled [OF r l own, where x = "Some ?e"]) (simp_all add: map_get_set_fun fun_eq_iff)
      ultimately show ?thesis by (simp add: rel_trim)
    qed
  qed
qed


lemma rel_load_failed:
  assumes r: "rel c s"
  shows "rel (load_failed cfg l now c) (spec_failed l s)"
proof (cases "map_get (qc_loads c) l")
  case None
  then show ?thesis using r rel_unknown_load [OF r None] by (simp add: load_failed_def spec_failed_def fun_upd_idem)
next
  case (Some ld)
  note l = Some
  let ?c1 = "c \<lparr>qc_loads := map_delete l (qc_loads c)\<rparr>"
  show ?thesis
  proof (cases "current_entry ld c")
    case None
    then show ?thesis
      using rel_forgotten [OF r l None]
      by (simp add: load_failed_def spec_failed_def l Let_def current_loads fun_upd_idem)
  next
    case (Some e)
    note own = Some
    have wf: "wf_map (qc_entries c)" using r by (simp add: rel_def)
    have vals: "values_last (map_get (qc_entries c)) s" using r by (simp add: rel_def cache_rel_def)
    have e: "map_get (qc_entries c) (ld_key ld) = Some e" using own by (simp add: current_owns owns_def)
    have spec: "spec_failed l s = s \<lparr>sp_loads := (sp_loads s)(l := None), sp_values := sp_values s\<rparr>"
      by (simp add: spec_failed_def)
    let ?e = "e \<lparr>qe_promise := None, qe_retryAt := now + (case cf_retryMs cfg of None \<Rightarrow> 1000 | Some ms \<Rightarrow> ms)\<rparr>"
    let ?c2 = "?c1 \<lparr>qc_entries := map_set (ld_key ld) ?e (qc_entries c)\<rparr>"
    have c2: "load_failed cfg l now c = (if qe_value e = None then qc_remove (ld_key ld) ?c2 else ?c2)"
      using l own by (simp add: load_failed_def Let_def current_loads)
    show ?thesis
    proof (cases "qe_value e")
      case None
      then show ?thesis
        unfolding spec c2 using wf
        by (intro rel_settled [OF r l own, where x = None])
          (simp_all add: remove_entries map_get_set_fun fun_eq_iff)
    next
      case (Some v)
      then have "sp_values s (ld_key ld) = Some (v, qe_freshUntil e, qe_staleUntil e)"
        using vals e by (simp add: values_last_def)
      then show ?thesis
        unfolding spec c2 using wf Some
        by (intro rel_settled [OF r l own, where x = "Some ?e"]) (simp_all add: map_get_set_fun fun_eq_iff)
    qed
  qed
qed

lemma clear_entries:
  "map_get (qc_entries (clear_cache matches c)) = (\<lambda>k. if cleared matches k then None else map_get (qc_entries c) k)"
  "qc_loads (clear_cache matches c) = qc_loads c" "qc_next (clear_cache matches c) = qc_next c"
  "wf_map (qc_entries c) \<Longrightarrow> wf_map (qc_entries (clear_cache matches c))"
proof -
  let ?f = "\<lambda>p key c. if p key then qc_remove key c else (c :: 'a query_cache)"
  have fold: "map_get (qc_entries (fold (?f p) keys c))
      = (\<lambda>k. if k \<in> set keys \<and> p k then None else map_get (qc_entries c) k)" for p keys
    by (induction keys arbitrary: c) (auto simp: remove_entries fun_eq_iff)
  have rest: "qc_loads (fold (?f p) keys c) = qc_loads c \<and> qc_next (fold (?f p) keys c) = qc_next c \<and>
      (wf_map (qc_entries c) \<longrightarrow> wf_map (qc_entries (fold (?f p) keys c)))" for p keys
    by (induction keys arbitrary: c) simp_all
  have absent: "k \<notin> fst ` set (qc_entries c) \<Longrightarrow> map_get (qc_entries c) k = None" for k
    by (simp add: map_of_eq_None_iff)
  show "map_get (qc_entries (clear_cache matches c)) = (\<lambda>k. if cleared matches k then None else map_get (qc_entries c) k)"
  proof (cases matches)
    case None
    then show ?thesis by (auto simp: clear_cache_def cleared_def)
  next
    case (Some p)
    then show ?thesis using absent by (auto simp: clear_cache_def cleared_def fold fun_eq_iff)
  qed
  show "qc_loads (clear_cache matches c) = qc_loads c" "qc_next (clear_cache matches c) = qc_next c"
    "wf_map (qc_entries c) \<Longrightarrow> wf_map (qc_entries (clear_cache matches c))"
    using rest by (cases matches; simp add: clear_cache_def)+
qed

lemma rel_clear: "rel c s \<Longrightarrow> rel (clear_cache matches c) (spec_clear matches s)"
  unfolding rel_def clear_entries by (simp add: clear_entries rel_cleared)

lemma rel_step:
  assumes "rel c s" and "cache_step cfg op (c, s) = (c', s')"
  shows "rel c' s'"
proof (cases op)
  case (Get key ttl staleMs now)
  obtain c1 reply started where g: "get_query cfg key ttl staleMs now c = (c1, reply, started)"
    by (cases "get_query cfg key ttl staleMs now c")
  then show ?thesis using get_query_sound [OF assms(1) g] assms(2) by (simp add: Get)
next
  case (LoadDone l v now)
  then show ?thesis using assms rel_load_done by auto
next
  case (LoadFailed l now)
  then show ?thesis using assms rel_load_failed by auto
next
  case (Prune now)
  then show ?thesis using assms rel_prune by auto
next
  case (Clear matches)
  then show ?thesis using assms rel_clear by auto
qed

lemma rel_run:
  "rel c s \<Longrightarrow> fold (cache_step cfg) ops (c, s) = (c', s') \<Longrightarrow> rel c' s'"
proof (induction ops arbitrary: c s)
  case (Cons op ops)
  obtain c1 s1 where st: "cache_step cfg op (c, s) = (c1, s1)" by fastforce
  show ?case using Cons.IH [OF rel_step [OF Cons.prems(1) st]] Cons.prems(2) st by simp
qed simp

lemma rel_new: "rel (createQueryCache t) new_spec"
  by (simp add: rel_def cache_rel_def cache_rel_defs createQueryCache_def new_spec_def)

lemma answers_of_runs:
  "let (c, s) = fold (cache_step cfg) ops (createQueryCache t, new_spec);
       (c', reply, started) = get_query cfg key ttl staleMs now c
   in answer_sound cfg key now reply started s (spec_start started key ttl staleMs s)"
proof -
  obtain c s where run: "fold (cache_step cfg) ops (createQueryCache t, new_spec) = (c, s)" by fastforce
  obtain c' reply started where get: "get_query cfg key ttl staleMs now c = (c', reply, started)"
    by (cases "get_query cfg key ttl staleMs now c")
  show ?thesis using get_query_sound [OF rel_run [OF rel_new run] get] by (simp add: run get)
qed

text \<open>
  C7: The query cache refines an unbounded table of the last loaded values. Whatever is asked for,
  loaded, failed, pruned and cleared before, an answer of \<open>get\<close> is a value only when it is the last
  one that a load of the key returned since the key was last cleared, within the times that load
  was given (a load that was cleared while it ran does not count, its value never comes back); a
  caller that waits waits for a load of its key that counts; the cache refuses only when loads of
  as many keys as it may have entries run; and no second load of a key is started while one runs.
\<close>

theorem query_cache_refines:
  "let (c, s) = fold (cache_step cfg) ops (createQueryCache t, new_spec);
       (c', reply, started) = get_query cfg key ttl staleMs now c
   in answer_sound cfg key now reply started s (spec_start started key ttl staleMs s)"
  by (rule answers_of_runs)


section \<open>Bounds\<close>

definition total_bytes :: "(string, 'v cache_entry) jsmap \<Rightarrow> int" where
  "total_bytes m = sum_list (map (\<lambda>(k, e). qe_bytes e) m)"

definition cache_counts :: "'v cache_options \<Rightarrow> 'v query_cache \<Rightarrow> bool" where
  "cache_counts cfg c \<longleftrightarrow> wf_map (qc_entries c) \<and> qc_bytes c = total_bytes (qc_entries c) \<and>
     (\<forall>k e. map_get (qc_entries c) k = Some e \<longrightarrow> 0 \<le> qe_bytes e) \<and> int (length (qc_entries c)) \<le> max_entries cfg"

lemma total_delete:
  "wf_map m \<Longrightarrow> map_get m k = Some e \<Longrightarrow> total_bytes (map_delete k m) = total_bytes m - qe_bytes e"
proof (induction m)
  case (Cons p m)
  show ?case
  proof (cases "fst p = k")
    case True
    then have "\<not> map_has m k" using Cons.prems(1) by (auto simp: wf_map_def map_has_keys)
    then have "map_delete k m = m" by simp
    then show ?thesis using True Cons.prems(2) by (cases p) (simp add: total_bytes_def AList.delete_eq)
  next
    case False
    then show ?thesis
      using Cons by (cases p) (simp add: total_bytes_def wf_map_def AList.delete_eq)
  qed
qed simp

lemma total_set_new: "\<not> map_has m k \<Longrightarrow> total_bytes (map_set k e m) = total_bytes m + qe_bytes e"
  by (simp add: map_set_new total_bytes_def)

lemma total_set:
  "wf_map m \<Longrightarrow> map_get m k = Some e \<Longrightarrow> total_bytes (map_set k e' m) = total_bytes m - qe_bytes e + qe_bytes e'"
proof (induction m)
  case (Cons p m)
  then show ?case by (cases p) (auto simp: total_bytes_def wf_map_def)
qed simp

lemma total_touch:
  assumes "wf_map m" and "map_get m k = Some e"
  shows "total_bytes (map_set k e (map_delete k m)) = total_bytes m"
proof -
  have "\<not> map_has (map_delete k m) k" by simp
  then show ?thesis using total_delete [OF assms] by (simp add: total_set_new)
qed

lemma fits_less: "fits cfg m \<Longrightarrow> n \<le> m \<Longrightarrow> fits cfg n"
  by (auto simp: fits_def split: option.splits)

lemma counts_remove:
  assumes "cache_counts cfg c"
  shows "cache_counts cfg (qc_remove k c)" and "qc_bytes (qc_remove k c) \<le> qc_bytes c"
proof -
  have "cache_counts cfg (qc_remove k c) \<and> qc_bytes (qc_remove k c) \<le> qc_bytes c"
  proof (cases "map_get (qc_entries c) k")
    case None
    then show ?thesis using assms by (simp add: qc_remove_def)
  next
    case (Some e)
    then show ?thesis
      using assms total_delete [of "qc_entries c" k e] length_map_delete_le [of k "qc_entries c"]
      by (auto simp: qc_remove_def cache_counts_def map_get_delete)
  qed
  then show "cache_counts cfg (qc_remove k c)" and "qc_bytes (qc_remove k c) \<le> qc_bytes c" by simp_all
qed

definition cache_bounded :: "'v cache_options \<Rightarrow> 'v query_cache \<Rightarrow> bool" where
  "cache_bounded cfg c \<longleftrightarrow> cache_counts cfg c \<and> fits cfg (qc_bytes c)"

lemma bounded_remove: "cache_bounded cfg c \<Longrightarrow> cache_bounded cfg (qc_remove k c)"
  using counts_remove [of cfg c k] fits_less by (auto simp: cache_bounded_def)

lemma bounded_trim: "cache_bounded cfg c \<Longrightarrow> cache_bounded cfg (trim cfg reserve c)"
  by (rule trim_keeps [where Q = "cache_bounded cfg"]) (auto intro: bounded_remove)

lemma bounded_prune: "cache_bounded cfg c \<Longrightarrow> cache_bounded cfg (prune cfg now c)"
  by (rule prune_keeps [where Q = "cache_bounded cfg"]) (auto intro: bounded_remove)

text \<open>A value that does not fit next to the entries whose loads run is given up again.\<close>

lemma bounded_stored:
  assumes c: "cache_counts cfg c" and e: "map_get (qc_entries c) key = Some e" "qe_promise e = None"
    and rest: "fits cfg (qc_bytes c - qe_bytes e)"
  shows "cache_bounded cfg (trim cfg 0 c)"
proof -
  let ?Q = "\<lambda>c'. cache_counts cfg c' \<and>
    (map_get (qc_entries c') key = Some e \<and> qc_bytes c' \<le> qc_bytes c \<or> qc_bytes c' \<le> qc_bytes c - qe_bytes e)"
  have step: "?Q (qc_remove k c')" if q: "?Q c'" and "idle_entry k c'" for k c'
  proof (cases "k = key \<and> map_get (qc_entries c') key = Some e \<and> qc_bytes c' \<le> qc_bytes c")
    case True
    then have "qc_bytes (qc_remove k c') \<le> qc_bytes c - qe_bytes e" by (simp add: qc_remove_def)
    then show ?thesis using counts_remove q by blast
  next
    case False
    then show ?thesis using q counts_remove [of cfg c' k] by (auto simp: remove_entries)
  qed
  have "?Q (trim cfg 0 c)" by (rule trim_keeps [of ?Q]) (use step c e in auto)
  moreover have "wf_map (qc_entries c)" using c by (simp add: cache_counts_def)
  moreover have "idle_entry key (trim cfg 0 c)" if "map_get (qc_entries (trim cfg 0 c)) key = Some e"
    using that e(2) by (simp add: idle_entry_def)
  ultimately show ?thesis
    using trim_room [of c cfg 0] rest fits_less unfolding cache_bounded_def by blast
qed


lemma bounded_ignores [simp]:
  "cache_bounded cfg (c \<lparr>qc_loads := ls\<rparr>) \<longleftrightarrow> cache_bounded cfg c"
  "cache_bounded cfg (c \<lparr>qc_next := nx\<rparr>) \<longleftrightarrow> cache_bounded cfg c"
  "cache_bounded cfg (c \<lparr>qc_nextPruneAt := t\<rparr>) \<longleftrightarrow> cache_bounded cfg c"
  by (simp_all add: cache_bounded_def cache_counts_def)

lemma bounded_entries:
  assumes "cache_bounded cfg c" and "map_get (qc_entries c) k = Some e" and "qe_bytes e' = qe_bytes e"
  shows "cache_bounded cfg (c \<lparr>qc_entries := map_set k e' (qc_entries c)\<rparr>)"
proof -
  have "map_has (qc_entries c) k" using assms(2) by (simp add: map_has_def)
  then show ?thesis
    using assms total_set [of "qc_entries c" k e e']
    by (auto simp: cache_bounded_def cache_counts_def map_get_set length_map_set)
qed

lemma bounded_touch: "cache_bounded cfg c \<Longrightarrow> cache_bounded cfg (touch k c)"
proof (cases "map_get (qc_entries c) k")
  case (Some e)
  assume c: "cache_bounded cfg c"
  have "length (map_set k e (map_delete k (qc_entries c))) = length (qc_entries c)"
    using c Some length_map_delete_has [of "qc_entries c" k]
    by (simp add: length_map_set cache_bounded_def cache_counts_def map_has_def del: map_has_delete)
      (simp add: map_has_def map_get_delete)
  then show ?thesis
    using c Some total_touch [of "qc_entries c" k e]
    by (auto simp: touch_def cache_bounded_def cache_counts_def map_get_set map_get_delete)
qed (simp add: touch_def)

lemma bounded_refresh:
  assumes c: "cache_bounded cfg c" and eq: "refresh cfg key ttl stale c = (c', started)"
  shows "cache_bounded cfg c'"
proof (cases "map_get (qc_entries c) key")
  case (Some e)
  then show ?thesis
    using eq bounded_entries [OF c Some, where e' = "e \<lparr>qe_promise := Some (qc_next c)\<rparr>"]
    by (auto simp: refresh_def start_load_def Let_def)
next
  case None
  let ?c = "trim cfg 1 c"
  have b: "cache_bounded cfg ?c" by (rule bounded_trim [OF c])
  have "map_get (qc_entries ?c) key = None"
    by (rule trim_keeps [where Q = "\<lambda>c. map_get (qc_entries c) key = None"]) (simp_all add: remove_entries None)
  then have "\<not> map_has (qc_entries ?c) key" by (simp add: map_has_def)
  then show ?thesis
    using b eq None total_set_new [of "qc_entries ?c" key]
    by (auto simp: refresh_def start_load_def Let_def cache_bounded_def cache_counts_def map_get_set length_map_set
        split: if_splits)
qed

lemma bounded_get:
  assumes c: "cache_bounded cfg c" and eq: "get_query cfg key ttl staleMs now c = (c', reply, started)"
  shows "cache_bounded cfg c'"
proof -
  define c1 where "c1 = (if qc_nextPruneAt c \<le> now then prune cfg now c \<lparr>qc_nextPruneAt := now + 1000\<rparr> else c)"
  have "cache_bounded cfg c1" using c bounded_prune [OF c] by (simp add: c1_def)
  then have t: "cache_bounded cfg (touch key c1)" by (rule bounded_touch)
  obtain c3 l where ref: "refresh cfg key ttl (case staleMs of None \<Rightarrow> ttl | Some st \<Rightarrow> st) (touch key c1) = (c3, l)"
    by fastforce
  note q = eq [unfolded get_query_def, folded c1_def, unfolded Let_def ref prod.case]
  have "c' = touch key c1 \<or> c' = c3"
    using q by (auto split: option.splits if_splits)
  then show ?thesis using t bounded_refresh [OF t ref] by blast
qed

text \<open>Sizes are not negative.\<close>

definition sizes_ok :: "'v cache_options \<Rightarrow> bool" where
  "sizes_ok cfg \<longleftrightarrow> fits cfg 0 \<and> (\<forall>f v. cf_sizeOf cfg = Some f \<longrightarrow> 0 \<le> f v)"

lemma bounded_load_done:
  assumes c: "cache_bounded cfg c" and ok: "sizes_ok cfg"
  shows "cache_bounded cfg (load_done cfg l v now c)"
proof (cases "map_get (qc_loads c) l")
  case None
  then show ?thesis using c by (simp add: load_done_def)
next
  case (Some ld)
  note l = Some
  let ?c1 = "c \<lparr>qc_loads := map_delete l (qc_loads c)\<rparr>"
  let ?size = "value_size cfg v (ld_key ld)"
  show ?thesis
  proof (cases "current_entry ld c")
    case None
    then show ?thesis using c by (simp add: load_done_def l Let_def current_loads)
  next
    case (Some e)
    note own = Some
    then have e: "map_get (qc_entries c) (ld_key ld) = Some e" by (simp add: current_owns owns_def)
    show ?thesis
    proof (cases "fits cfg ?size")
      case False
      then show ?thesis using c bounded_remove [of cfg ?c1] by (simp add: load_done_def l own Let_def current_loads)
    next
      case True
      let ?e = "e \<lparr>qe_value := v, qe_promise := None, qe_bytes := ?size, qe_retryAt := 0,
        qe_freshUntil := now + ld_ttl ld, qe_staleUntil := now + ld_ttl ld + ld_stale ld\<rparr>"
      let ?c2 = "?c1 \<lparr>qc_entries := map_set (ld_key ld) ?e (qc_entries c),
        qc_bytes := qc_bytes c - qe_bytes e + ?size\<rparr>"
      have size: "0 \<le> ?size" using ok by (auto simp: value_size_def sizes_ok_def split: option.split)
      have has: "map_has (qc_entries c) (ld_key ld)" using e by (simp add: map_has_def)
      have pos: "0 \<le> qe_bytes e" using c e by (simp add: cache_bounded_def cache_counts_def)
      have "cache_counts cfg ?c2"
        using c e has size total_set [of "qc_entries c" "ld_key ld" e ?e]
        by (auto simp: cache_bounded_def cache_counts_def map_get_set length_map_set)
      moreover have "fits cfg (qc_bytes ?c2 - qe_bytes ?e)"
        using c pos fits_less [of cfg "qc_bytes c" "qc_bytes c - qe_bytes e"] by (simp add: cache_bounded_def)
      ultimately have "cache_bounded cfg (trim cfg 0 ?c2)"
        by (intro bounded_stored [where e = ?e and key = "ld_key ld"]) (simp_all add: map_get_set)
      then show ?thesis using True by (simp add: load_done_def l own Let_def current_loads)
    qed
  qed
qed

lemma bounded_load_failed:
  assumes c: "cache_bounded cfg c"
  shows "cache_bounded cfg (load_failed cfg l now c)"
proof (cases "map_get (qc_loads c) l")
  case None
  then show ?thesis using c by (simp add: load_failed_def)
next
  case (Some ld)
  note l = Some
  show ?thesis
  proof (cases "current_entry ld c")
    case None
    then show ?thesis using c by (simp add: load_failed_def l Let_def current_loads)
  next
    case (Some e)
    then have e: "map_get (qc_entries c) (ld_key ld) = Some e" by (simp add: current_owns owns_def)
    let ?e = "e \<lparr>qe_promise := None, qe_retryAt := now + (case cf_retryMs cfg of None \<Rightarrow> 1000 | Some ms \<Rightarrow> ms)\<rparr>"
    let ?c2 = "c \<lparr>qc_loads := map_delete l (qc_loads c), qc_entries := map_set (ld_key ld) ?e (qc_entries c)\<rparr>"
    have "cache_bounded cfg ?c2"
      using bounded_entries [of cfg "c \<lparr>qc_loads := map_delete l (qc_loads c)\<rparr>" "ld_key ld" e ?e] c e by simp
    then show ?thesis
      using bounded_remove [of cfg ?c2 "ld_key ld"] by (simp add: load_failed_def l Some Let_def current_loads)
  qed
qed

lemma bounded_clear:
  assumes c: "cache_bounded cfg c" and ok: "sizes_ok cfg"
  shows "cache_bounded cfg (clear_cache matches c)"
proof (cases matches)
  case None
  then show ?thesis
    using ok by (simp add: clear_cache_def cache_bounded_def cache_counts_def total_bytes_def sizes_ok_def max_entries_def)
next
  case (Some p)
  have "cache_bounded cfg (fold (\<lambda>key c. if p key then qc_remove key c else c) keys c)" for keys
    using c by (induction keys arbitrary: c) (simp_all add: bounded_remove)
  then show ?thesis by (simp add: clear_cache_def Some)
qed

lemma bounded_step:
  assumes "cache_bounded cfg c" and "sizes_ok cfg" and "cache_step cfg op (c, s) = (c', s')"
  shows "cache_bounded cfg c'"
proof (cases op)
  case (Get key ttl staleMs now)
  obtain c1 reply started where g: "get_query cfg key ttl staleMs now c = (c1, reply, started)"
    by (cases "get_query cfg key ttl staleMs now c")
  then show ?thesis using bounded_get [OF assms(1) g] assms(3) by (simp add: Get)
qed (use assms bounded_load_done bounded_load_failed bounded_prune bounded_clear in auto)

lemma bounded_run:
  "cache_bounded cfg c \<Longrightarrow> sizes_ok cfg \<Longrightarrow> cache_bounded cfg (fst (fold (cache_step cfg) ops (c, s)))"
proof (induction ops arbitrary: c s)
  case (Cons op ops)
  obtain c1 s1 where st: "cache_step cfg op (c, s) = (c1, s1)" by fastforce
  show ?case using Cons.IH [OF bounded_step [OF Cons.prems st] Cons.prems(2)] st by simp
qed simp

lemma bounded_new: "sizes_ok cfg \<Longrightarrow> cache_bounded cfg (createQueryCache t)"
  by (simp add: createQueryCache_def cache_bounded_def cache_counts_def total_bytes_def sizes_ok_def max_entries_def)

text \<open>
  C39: The query cache stays within its bounds. When sizes are not negative, after any sequence of
  operations it has at most the configured number of entries, its byte counter is the sum of the
  sizes of its entries, and that sum is within the configured bytes, although entries whose load
  runs are never evicted.
\<close>

theorem query_cache_bounded:
  assumes "fits cfg 0" and "\<And>f v. cf_sizeOf cfg = Some f \<Longrightarrow> 0 \<le> f v"
  shows "let c = fst (fold (cache_step cfg) ops (createQueryCache t, new_spec))
    in int (length (qc_entries c)) \<le> max_entries cfg \<and> qc_bytes c = total_bytes (qc_entries c) \<and>
       fits cfg (qc_bytes c)"
  using bounded_run [OF bounded_new, of cfg ops t new_spec] assms
  unfolding Let_def sizes_ok_def cache_bounded_def cache_counts_def by blast

theorem query_cache_bounded_witness:
  "let cfg = \<lparr>cf_maxEntries = Some 2, cf_maxBytes = Some 10, cf_sizeOf = Some (\<lambda>_. 4), cf_retryMs = None\<rparr>;
       c = fst (fold (cache_step cfg)
         [Get ''a'' 5 None 0, LoadDone 1 (Some ()) 1, Get ''b'' 5 None 2, LoadDone 3 (Some ()) 3]
         (createQueryCache 0, new_spec))
    in qc_bytes c = 6 \<and> fits cfg (qc_bytes c)"
proof -
  let ?cfg = "\<lparr>cf_maxEntries = Some 2, cf_maxBytes = Some 10, cf_sizeOf = Some (\<lambda>_ :: unit option. 4), cf_retryMs = None\<rparr>"
  let ?ops = "[Get ''a'' 5 None 0, LoadDone 1 (Some ()) 1, Get ''b'' 5 None 2, LoadDone 3 (Some ()) 3]"
  have "qc_bytes (fst (fold (cache_step ?cfg) ?ops (createQueryCache 0, new_spec))) = 6" by code_simp
  moreover have "fits ?cfg 0" by (simp add: fits_def)
  moreover have "0 \<le> f v" if "cf_sizeOf ?cfg = Some f" for f v using that by auto
  ultimately show ?thesis
    using query_cache_bounded [of ?cfg ?ops 0] unfolding Let_def by blast
qed

end
