(* ===== verification/Work_Pools.thy ===== *)
theory Work_Pools
  imports Prelude "HOL-Library.Multiset"
begin

text \<open>
  Bounded work: \<open>server/requestWorkPool.ts\<close> (a pool of slots with a bounded queue and a time limit
  for waiting) and \<open>server/keyedTaskDispatcher.ts\<close> (the updates of the Telegram bot: in order for
  each chat, a bounded number at a time). What happens when a promise settles or a timer fires is an
  operation of its own; their order is any.
\<close>

section \<open>The request pool\<close>

text \<open>
  Each call of \<open>run\<close> is a number. Of the pool itself the code has \<open>active\<close> and the queue of
  waiters; the timer of a waiter lives as long as the waiter is in the queue, for \<open>start\<close> clears
  it and the timer removes the waiter. The other fields record what became of the calls.
\<close>

record work_pool =
  wp_active :: int
  wp_queue :: "nat list"
  wp_running :: "nat list"
  wp_started :: "nat list"
  wp_refused :: "nat list"
  wp_finished :: "nat list"
  wp_next :: nat

definition new_pool :: work_pool where
  "new_pool = \<lparr>wp_active = 0, wp_queue = [], wp_running = [], wp_started = [], wp_refused = [], wp_finished = [], wp_next = 0\<rparr>"

text \<open>The call \<open>n\<close> has a slot: its work begins.\<close>

definition begin_work :: "nat \<Rightarrow> work_pool \<Rightarrow> work_pool" where
  "begin_work n p =
     p \<lparr>wp_active := wp_active p + 1, wp_running := wp_running p @ [n], wp_started := wp_started p @ [n]\<rparr>"

definition run_work :: "int \<Rightarrow> int \<Rightarrow> work_pool \<Rightarrow> work_pool" where
  "run_work concurrency maxQueued p =
     (let n = wp_next p; p1 = p \<lparr>wp_next := Suc n\<rparr>
      in if wp_active p \<ge> concurrency then
           if int (length (wp_queue p)) \<ge> maxQueued then p1 \<lparr>wp_refused := wp_refused p1 @ [n]\<rparr>
           else p1 \<lparr>wp_queue := wp_queue p1 @ [n]\<rparr>
         else begin_work n p1)"

text \<open>The \<open>finally\<close> block after the work of a call.\<close>

definition finish_work :: "nat \<Rightarrow> work_pool \<Rightarrow> work_pool" where
  "finish_work n p =
     (if n \<in> set (wp_running p) then
        let p1 = p \<lparr>wp_running := remove1 n (wp_running p), wp_finished := wp_finished p @ [n], wp_active := wp_active p - 1\<rparr>
        in case wp_queue p1 of
             [] \<Rightarrow> p1
           | waiter # rest \<Rightarrow> begin_work waiter (p1 \<lparr>wp_queue := rest\<rparr>)
      else p)"

text \<open>The timer of a waiter.\<close>

definition queue_timeout :: "nat \<Rightarrow> work_pool \<Rightarrow> work_pool" where
  "queue_timeout n p =
     (if n \<in> set (wp_queue p) then p \<lparr>wp_queue := remove1 n (wp_queue p), wp_refused := wp_refused p @ [n]\<rparr> else p)"

datatype pool_op = RunWork | FinishWork nat | QueueTimeout nat

fun pool_step :: "int \<Rightarrow> int \<Rightarrow> pool_op \<Rightarrow> work_pool \<Rightarrow> work_pool" where
  "pool_step concurrency maxQueued RunWork p = run_work concurrency maxQueued p"
| "pool_step concurrency maxQueued (FinishWork n) p = finish_work n p"
| "pool_step concurrency maxQueued (QueueTimeout n) p = queue_timeout n p"

definition pool_ok :: "int \<Rightarrow> int \<Rightarrow> work_pool \<Rightarrow> bool" where
  "pool_ok concurrency maxQueued p \<longleftrightarrow>
     wp_active p = int (length (wp_running p)) \<and> wp_active p \<le> max 0 concurrency \<and>
     int (length (wp_queue p)) \<le> max 0 maxQueued \<and> (wp_queue p = [] \<or> concurrency \<le> wp_active p) \<and>
     mset (wp_running p) + mset (wp_queue p) + mset (wp_refused p) + mset (wp_finished p) = mset [0..<wp_next p] \<and>
     sorted_wrt (<) (wp_started p @ wp_queue p) \<and> (\<forall>n \<in> set (wp_started p @ wp_queue p). n < wp_next p)"

lemma pool_ok_run:
  assumes "pool_ok c q p"
  shows "pool_ok c q (run_work c q p)"
proof -
  have "mset [0..<Suc (wp_next p)] = add_mset (wp_next p) (mset [0..<wp_next p])" by simp
  then show ?thesis
    using assms
    by (auto simp: pool_ok_def run_work_def begin_work_def Let_def sorted_wrt_append less_Suc_eq ac_simps
        simp del: upt_Suc)
qed

lemma length_minus_one:
  assumes "n \<in> set xs"
  shows "int (length (remove1 n xs)) = int (length xs) - 1"
proof -
  have "length (remove1 n xs) = length xs - 1" using assms by (simp add: length_remove1)
  then show ?thesis using length_pos_if_in_set [OF assms] by linarith
qed

lemma pool_ok_finish:
  assumes "pool_ok c q p"
  shows "pool_ok c q (finish_work n p)"
proof (cases "n \<in> set (wp_running p)")
  case False
  then show ?thesis using assms by (simp add: finish_work_def)
next
  case True
  then obtain M where M: "mset (wp_running p) = add_mset n M" by (metis insert_DiffM set_mset_mset)
  then have m: "mset (remove1 n (wp_running p)) = M" by simp
  have l: "int (length (remove1 n (wp_running p))) = int (length (wp_running p)) - 1"
    by (rule length_minus_one [OF True])
  show ?thesis
  proof (cases "wp_queue p")
    case Nil
    then show ?thesis
      using assms True l M m by (auto simp: pool_ok_def finish_work_def Let_def simp del: mset_remove1)
  next
    case (Cons w rest)
    then show ?thesis
      using assms True l M m
      by (auto simp: pool_ok_def finish_work_def begin_work_def Let_def sorted_wrt_append add_mset_commute simp del: mset_remove1)
  qed
qed

lemma in_remove1: "x \<in> set (remove1 n xs) \<Longrightarrow> x \<in> set xs"
  by (meson notin_set_remove1)

lemma pool_ok_timeout:
  assumes "pool_ok c q p"
  shows "pool_ok c q (queue_timeout n p)"
proof (cases "n \<in> set (wp_queue p)")
  case False
  then show ?thesis using assms by (simp add: queue_timeout_def)
next
  case True
  have "sorted_wrt (<) (wp_queue p)" using assms by (simp add: pool_ok_def sorted_wrt_append)
  then have r: "remove1 n (wp_queue p) = filter (\<lambda>x. n \<noteq> x) (wp_queue p)"
    by (simp add: strict_sorted_iff distinct_remove1_removeAll removeAll_filter_not_eq)
  have "sorted_wrt (<) (filter (\<lambda>x. n \<noteq> x) (wp_queue p))"
    using \<open>sorted_wrt (<) (wp_queue p)\<close> by (rule sorted_wrt_filter)
  moreover have "mset (remove1 n (wp_queue p)) + {#n#} = mset (wp_queue p)" using True by simp
  moreover have "int (length (remove1 n (wp_queue p))) \<le> int (length (wp_queue p))" by (simp add: length_remove1)
  moreover have "wp_queue p \<noteq> []" using True by auto
  ultimately show ?thesis
    using assms True
    by (auto simp: pool_ok_def queue_timeout_def sorted_wrt_append simp flip: r dest: in_remove1)
qed

lemma pool_ok_step: "pool_ok c q p \<Longrightarrow> pool_ok c q (pool_step c q op p)"
  by (cases op) (simp_all add: pool_ok_run pool_ok_finish pool_ok_timeout)

lemma pool_ok_reachable: "pool_ok c q (fold (pool_step c q) ops new_pool)"
proof -
  have "pool_ok c q p \<Longrightarrow> pool_ok c q (fold (pool_step c q) ops p)" for p
    by (induction ops arbitrary: p) (simp_all add: pool_ok_step)
  moreover have "pool_ok c q new_pool" by (simp add: pool_ok_def new_pool_def)
  ultimately show ?thesis by blast
qed

text \<open>
  The request pool loses no call and keeps its bounds. After any sequence of calls, ends of
  work and expired waits, \<open>active\<close> is the number of calls whose work runs and at most the
  concurrency, the queue is within its bound and empty while a slot is free, every call made is in
  exactly one of the states running, queued, refused and finished, and calls get their slots in
  the order in which they were made.
\<close>

theorem request_pool_conserves_calls:
  "let p = fold (pool_step concurrency maxQueued) ops new_pool
   in wp_active p = int (length (wp_running p)) \<and> wp_active p \<le> max 0 concurrency \<and>
      int (length (wp_queue p)) \<le> max 0 maxQueued \<and> (wp_queue p = [] \<or> concurrency \<le> wp_active p) \<and>
      mset (wp_running p) + mset (wp_queue p) + mset (wp_refused p) + mset (wp_finished p) = mset [0..<wp_next p] \<and>
      sorted_wrt (<) (wp_started p @ wp_queue p)"
  using pool_ok_reachable [of concurrency maxQueued ops] unfolding Let_def pool_ok_def by blast


section \<open>The keyed task dispatcher\<close>

text \<open>
  A task is the number of its call of \<open>enqueue\<close>; \<open>dt_previous\<close> is the tail it waits for. It asks for
  a slot when that tail has resolved, and its own tail resolves in the \<open>finally\<close> block that runs
  some time after the task itself has settled.
\<close>

datatype task_phase = Behind | SlotWait | Working | Settled | Resolved

record dispatched =
  dt_key :: string
  dt_previous :: "nat option"
  dt_phase :: task_phase

text \<open>The concurrency \<open>None\<close> stands for \<open>Infinity\<close>.\<close>

record dispatcher =
  dp_concurrency :: "int option"
  dp_tasks :: "dispatched list"
  dp_keyTails :: "(string, nat) jsmap"
  dp_slotWaiters :: "nat list"
  dp_activeSlots :: int
  dp_pendingTasks :: int
  dp_idleWaiters :: nat

definition new_dispatcher :: "jsval \<Rightarrow> dispatcher" where
  "new_dispatcher concurrencyValue =
     \<lparr>dp_concurrency = positive_floor concurrencyValue, dp_tasks = [], dp_keyTails = [], dp_slotWaiters = [],
      dp_activeSlots = 0, dp_pendingTasks = 0, dp_idleWaiters = 0\<rparr>"

definition slot_free :: "dispatcher \<Rightarrow> bool" where
  "slot_free d = (case dp_concurrency d of None \<Rightarrow> True | Some n \<Rightarrow> dp_activeSlots d < n)"

definition set_task_phase :: "nat \<Rightarrow> task_phase \<Rightarrow> dispatcher \<Rightarrow> dispatcher" where
  "set_task_phase i ph d = d \<lparr>dp_tasks := (dp_tasks d)[i := (dp_tasks d ! i) \<lparr>dt_phase := ph\<rparr>]\<rparr>"

definition task_key :: "jsval \<Rightarrow> string" where
  "task_key keyValue = (let key = js_trim (js_text keyValue) in if key = [] then ''default'' else key)"

definition enqueue_task :: "jsval \<Rightarrow> dispatcher \<Rightarrow> dispatcher" where
  "enqueue_task keyValue d =
     (let key = task_key keyValue; i = length (dp_tasks d)
      in d \<lparr>dp_tasks := dp_tasks d @ [\<lparr>dt_key = key, dt_previous = map_get (dp_keyTails d) key, dt_phase = Behind\<rparr>],
            dp_keyTails := map_set key i (dp_keyTails d), dp_pendingTasks := dp_pendingTasks d + 1\<rparr>)"

definition tail_resolved :: "dispatcher \<Rightarrow> nat option \<Rightarrow> bool" where
  "tail_resolved d previous = (case previous of None \<Rightarrow> True | Some j \<Rightarrow> dt_phase (dp_tasks d ! j) = Resolved)"

definition can_begin :: "dispatcher \<Rightarrow> nat \<Rightarrow> bool" where
  "can_begin d i \<longleftrightarrow> i < length (dp_tasks d) \<and> dt_phase (dp_tasks d ! i) = Behind \<and>
     tail_resolved d (dt_previous (dp_tasks d ! i))"

definition acquireSlot :: "nat \<Rightarrow> dispatcher \<Rightarrow> dispatcher" where
  "acquireSlot i d =
     (if slot_free d then set_task_phase i Working (d \<lparr>dp_activeSlots := dp_activeSlots d + 1\<rparr>)
      else set_task_phase i SlotWait (d \<lparr>dp_slotWaiters := dp_slotWaiters d @ [i]\<rparr>))"

definition releaseSlot :: "dispatcher \<Rightarrow> dispatcher" where
  "releaseSlot d =
     (case dp_slotWaiters d of
        j # rest \<Rightarrow> set_task_phase j Working (d \<lparr>dp_slotWaiters := rest\<rparr>)
      | [] \<Rightarrow> d \<lparr>dp_activeSlots := max 0 (dp_activeSlots d - 1)\<rparr>)"

definition begin_task :: "nat \<Rightarrow> dispatcher \<Rightarrow> dispatcher" where
  "begin_task i d = (if can_begin d i then acquireSlot i d else d)"

definition is_phase :: "dispatcher \<Rightarrow> nat \<Rightarrow> task_phase \<Rightarrow> bool" where
  "is_phase d i ph \<longleftrightarrow> i < length (dp_tasks d) \<and> dt_phase (dp_tasks d ! i) = ph"

definition settle_task :: "nat \<Rightarrow> dispatcher \<Rightarrow> dispatcher" where
  "settle_task i d = (if is_phase d i Working then releaseSlot (set_task_phase i Settled d) else d)"

definition resolve_tail :: "nat \<Rightarrow> dispatcher \<Rightarrow> dispatcher" where
  "resolve_tail i d =
     (if is_phase d i Settled then
        let key = dt_key (dp_tasks d ! i);
            d1 = (if map_get (dp_keyTails d) key = Some i then d \<lparr>dp_keyTails := map_delete key (dp_keyTails d)\<rparr> else d);
            pending = max 0 (dp_pendingTasks d1 - 1);
            d2 = set_task_phase i Resolved (d1 \<lparr>dp_pendingTasks := pending\<rparr>)
        in if pending = 0 then d2 \<lparr>dp_idleWaiters := 0\<rparr> else d2
      else d)"

definition waitForIdle :: "dispatcher \<Rightarrow> dispatcher" where
  "waitForIdle d = (if dp_pendingTasks d = 0 then d else d \<lparr>dp_idleWaiters := dp_idleWaiters d + 1\<rparr>)"

datatype dispatch_op = EnqueueTask jsval | BeginTask nat | SettleTask nat | ResolveTail nat | WaitForIdle

fun dispatch_step :: "dispatch_op \<Rightarrow> dispatcher \<Rightarrow> dispatcher" where
  "dispatch_step (EnqueueTask key) d = enqueue_task key d"
| "dispatch_step (BeginTask i) d = begin_task i d"
| "dispatch_step (SettleTask i) d = settle_task i d"
| "dispatch_step (ResolveTail i) d = resolve_tail i d"
| "dispatch_step WaitForIdle d = waitForIdle d"

text \<open>
  The invariant, over the table of tasks: the order within a key, the tails, the slots and the
  counter of pending tasks.
\<close>

definition key_order :: "dispatched list \<Rightarrow> bool" where
  "key_order ts \<longleftrightarrow>
     (\<forall>j < length ts. \<forall>i < j. dt_key (ts ! i) = dt_key (ts ! j) \<longrightarrow>
        (dt_phase (ts ! j) \<noteq> Behind \<longrightarrow> dt_phase (ts ! i) = Resolved) \<and>
        (case dt_previous (ts ! j) of None \<Rightarrow> dt_phase (ts ! i) = Resolved | Some p \<Rightarrow> i \<le> p)) \<and>
     (\<forall>j < length ts. \<forall>p. dt_previous (ts ! j) = Some p \<longrightarrow> p < j \<and> dt_key (ts ! p) = dt_key (ts ! j))"

definition tails_last :: "dispatched list \<Rightarrow> (string, nat) jsmap \<Rightarrow> bool" where
  "tails_last ts m \<longleftrightarrow>
     (\<forall>key i. map_get m key = Some i \<longrightarrow> i < length ts \<and> dt_key (ts ! i) = key \<and> dt_phase (ts ! i) \<noteq> Resolved) \<and>
     (\<forall>j < length ts. dt_phase (ts ! j) \<noteq> Resolved \<longrightarrow> (\<exists>i \<ge> j. map_get m (dt_key (ts ! j)) = Some i))"

definition phase_set :: "dispatched list \<Rightarrow> task_phase \<Rightarrow> nat set" where
  "phase_set ts ph = {i. i < length ts \<and> dt_phase (ts ! i) = ph}"

definition slots_ok :: "dispatcher \<Rightarrow> bool" where
  "slots_ok d \<longleftrightarrow> dp_activeSlots d = int (card (phase_set (dp_tasks d) Working)) \<and>
     (case dp_concurrency d of
        None \<Rightarrow> dp_slotWaiters d = []
      | Some n \<Rightarrow> 1 \<le> n \<and> dp_activeSlots d \<le> n \<and> (dp_slotWaiters d = [] \<or> dp_activeSlots d = n)) \<and>
     distinct (dp_slotWaiters d) \<and> set (dp_slotWaiters d) = phase_set (dp_tasks d) SlotWait"

definition dispatcher_ok :: "dispatcher \<Rightarrow> bool" where
  "dispatcher_ok d \<longleftrightarrow> key_order (dp_tasks d) \<and> tails_last (dp_tasks d) (dp_keyTails d) \<and> slots_ok d \<and>
     dp_pendingTasks d = int (card {i. i < length (dp_tasks d) \<and> dt_phase (dp_tasks d ! i) \<noteq> Resolved})"


abbreviation with_phase :: "dispatched list \<Rightarrow> nat \<Rightarrow> task_phase \<Rightarrow> dispatched list" where
  "with_phase ts i ph \<equiv> ts[i := (ts ! i) \<lparr>dt_phase := ph\<rparr>]"

lemma with_phase_nth:
  "j < length ts \<Longrightarrow> dt_phase (with_phase ts i ph ! j) = (if j = i then ph else dt_phase (ts ! j))"
  "j < length ts \<Longrightarrow> dt_key (with_phase ts i ph ! j) = dt_key (ts ! j)"
  "j < length ts \<Longrightarrow> dt_previous (with_phase ts i ph ! j) = dt_previous (ts ! j)"
  by (cases "j = i"; simp)+

lemma key_order_before:
  "key_order ts \<Longrightarrow> j < length ts \<Longrightarrow> i < j \<Longrightarrow> dt_key (ts ! i) = dt_key (ts ! j) \<Longrightarrow>
    dt_phase (ts ! j) \<noteq> Behind \<Longrightarrow> dt_phase (ts ! i) = Resolved"
  unfolding key_order_def by blast

lemma key_order_previous:
  "key_order ts \<Longrightarrow> j < length ts \<Longrightarrow> i < j \<Longrightarrow> dt_key (ts ! i) = dt_key (ts ! j) \<Longrightarrow>
    case dt_previous (ts ! j) of None \<Rightarrow> dt_phase (ts ! i) = Resolved | Some p \<Rightarrow> i \<le> p"
  unfolding key_order_def by blast

lemma key_order_link:
  "key_order ts \<Longrightarrow> j < length ts \<Longrightarrow> dt_previous (ts ! j) = Some p \<Longrightarrow> p < j \<and> dt_key (ts ! p) = dt_key (ts ! j)"
  unfolding key_order_def by blast

text \<open>A task moves on once every earlier task of its key has resolved.\<close>

lemma key_order_phase:
  assumes k: "key_order ts" and i: "i < length ts" "dt_phase (ts ! i) \<noteq> Resolved"
    and before: "\<And>h. h < i \<Longrightarrow> dt_key (ts ! h) = dt_key (ts ! i) \<Longrightarrow> dt_phase (ts ! h) = Resolved"
  shows "key_order (with_phase ts i ph)"
proof -
  let ?ts = "with_phase ts i ph"
  have len: "length ?ts = length ts" by simp
  note nth = with_phase_nth [of _ ts i ph]
  have first: "(dt_phase (?ts ! j) \<noteq> Behind \<longrightarrow> dt_phase (?ts ! h) = Resolved) \<and>
      (case dt_previous (?ts ! j) of None \<Rightarrow> dt_phase (?ts ! h) = Resolved | Some p \<Rightarrow> h \<le> p)"
    if j: "j < length ts" "h < j" "dt_key (?ts ! h) = dt_key (?ts ! j)" for j h
  proof -
    have h: "h < length ts" using j by simp
    have key: "dt_key (ts ! h) = dt_key (ts ! j)" using j h nth by simp
    have resolved: "dt_phase (?ts ! h) = Resolved" if "dt_phase (ts ! h) = Resolved"
      using that i(2) nth(1) [OF h] by (cases "h = i") simp_all
    have prev: "case dt_previous (ts ! j) of None \<Rightarrow> dt_phase (ts ! h) = Resolved | Some p \<Rightarrow> h \<le> p"
      by (rule key_order_previous [OF k j(1,2) key])
    have "dt_phase (?ts ! j) \<noteq> Behind \<Longrightarrow> dt_phase (ts ! h) = Resolved"
      using before [of h] key_order_before [OF k j(1,2) key] j(2) key nth(1) [OF j(1)] by (cases "j = i") simp_all
    then show ?thesis
      using resolved prev nth(3) [OF j(1)] by (cases "dt_previous (ts ! j)") auto
  qed
  have "p < j \<and> dt_key (?ts ! p) = dt_key (?ts ! j)"
    if "j < length ts" "dt_previous (?ts ! j) = Some p" for j p
    using key_order_link [OF k that(1), of p] that nth by simp
  then show ?thesis unfolding key_order_def len using first by blast
qed

lemma key_order_later:
  assumes "key_order ts" and "i < length ts" and "dt_phase (ts ! i) \<notin> {Behind, Resolved}"
  shows "key_order (with_phase ts i ph)"
  using assms key_order_before [OF assms(1,2)] by (intro key_order_phase) auto

lemma tail_of_key:
  "tails_last ts m \<Longrightarrow> map_get m k = Some i \<Longrightarrow> i < length ts \<and> dt_key (ts ! i) = k \<and> dt_phase (ts ! i) \<noteq> Resolved"
  by (simp add: tails_last_def)

lemma tail_after:
  "tails_last ts m \<Longrightarrow> j < length ts \<Longrightarrow> dt_phase (ts ! j) \<noteq> Resolved \<Longrightarrow> \<exists>i \<ge> j. map_get m (dt_key (ts ! j)) = Some i"
  by (simp add: tails_last_def)

lemma tails_cong:
  assumes len: "length ts' = length ts"
    and same: "\<And>j. j < length ts \<Longrightarrow> dt_key (ts' ! j) = dt_key (ts ! j) \<and> (dt_phase (ts' ! j) = Resolved \<longleftrightarrow> dt_phase (ts ! j) = Resolved)"
    and t: "tails_last ts m"
  shows "tails_last ts' m"
  unfolding tails_last_def len
proof (intro conjI allI impI)
  fix k i assume "map_get m k = Some i"
  then have i: "i < length ts \<and> dt_key (ts ! i) = k \<and> dt_phase (ts ! i) \<noteq> Resolved" by (rule tail_of_key [OF t])
  then show "i < length ts" "dt_key (ts' ! i) = k" "dt_phase (ts' ! i) \<noteq> Resolved" using same by simp_all
next
  fix j assume j: "j < length ts" "dt_phase (ts' ! j) \<noteq> Resolved"
  then have "dt_phase (ts ! j) \<noteq> Resolved" using same by simp
  then have "\<exists>i\<ge>j. map_get m (dt_key (ts ! j)) = Some i" by (rule tail_after [OF t j(1)])
  then show "\<exists>i\<ge>j. map_get m (dt_key (ts' ! j)) = Some i" using same [OF j(1)] by simp
qed

lemma tails_phase:
  assumes t: "tails_last ts m" and i: "i < length ts" "dt_phase (ts ! i) \<noteq> Resolved" and ph: "ph \<noteq> Resolved"
  shows "tails_last (with_phase ts i ph) m"
proof (rule tails_cong [OF _ _ t])
  fix j assume j: "j < length ts"
  show "dt_key (with_phase ts i ph ! j) = dt_key (ts ! j) \<and>
    (dt_phase (with_phase ts i ph ! j) = Resolved \<longleftrightarrow> dt_phase (ts ! j) = Resolved)"
    using i ph j by (cases "j = i") (simp_all add: with_phase_nth)
qed simp

lemma tails_resolved:
  assumes t: "tails_last ts m" and i: "i < length ts" and key: "dt_key (ts ! i) = key"
    and k: "key_order ts" and ph: "dt_phase (ts ! i) = Settled"
  shows "tails_last (with_phase ts i Resolved) (if map_get m key = Some i then map_delete key m else m)"
proof -
  let ?ts = "with_phase ts i Resolved" and ?m = "if map_get m key = Some i then map_delete key m else m"
  have "map_get m k' = Some i \<Longrightarrow> k' = key" for k' using tail_of_key [OF t] key by blast
  then have only: "map_get m k' = Some i \<Longrightarrow> k' = key" for k' .
  have m: "map_get ?m k' = (if map_get m k' = Some i then None else map_get m k')" for k'
  proof (cases "map_get m k' = Some i")
    case True
    then show ?thesis using only [OF True] by (simp add: map_get_delete)
  next
    case False
    then have "k' \<noteq> key \<or> map_get m key \<noteq> Some i" by blast
    then show ?thesis using False by (auto simp: map_get_delete)
  qed
  have "\<exists>h \<ge> j. map_get ?m (dt_key (?ts ! j)) = Some h"
    if j: "j < length ts" "dt_phase (?ts ! j) \<noteq> Resolved" for j
  proof -
    have "j \<noteq> i" "dt_phase (ts ! j) \<noteq> Resolved" using j by (auto simp: with_phase_nth split: if_splits)
    then obtain h where h: "j \<le> h" "map_get m (dt_key (ts ! j)) = Some h" 
      using tail_after [OF t j(1)] by blast
    have "h \<noteq> i"
    proof
      assume "h = i"
      then have "dt_key (ts ! j) = dt_key (ts ! i)" using tail_of_key [OF t h(2)] by simp
      moreover have "j < i" using h(1) \<open>h = i\<close> \<open>j \<noteq> i\<close> by simp
      ultimately have "dt_phase (ts ! j) = Resolved" using key_order_before [OF k i] ph by simp
      then show False using \<open>dt_phase (ts ! j) \<noteq> Resolved\<close> by simp
    qed
    then show ?thesis using h j(1) m [of "dt_key (ts ! j)"] by (auto simp: with_phase_nth)
  qed
  moreover have "h < length ts \<and> dt_key (?ts ! h) = k' \<and> dt_phase (?ts ! h) \<noteq> Resolved" if "map_get ?m k' = Some h" for k' h
  proof -
    have "map_get m k' = Some h" "h \<noteq> i" using that m [of k'] by (auto split: if_splits)
    then show ?thesis using tail_of_key [OF t, of k' h] by (simp add: with_phase_nth)
  qed
  ultimately show ?thesis unfolding tails_last_def by simp
qed

lemma phase_set_with:
  "i < length ts \<Longrightarrow> phase_set (with_phase ts i ph) q = (if q = ph then insert i (phase_set ts q) else phase_set ts q - {i})"
  by (auto simp: phase_set_def with_phase_nth)

lemma finite_phase_set [simp]: "finite (phase_set ts q)"
  by (simp add: phase_set_def)

lemma pending_with:
  assumes "i < length ts" and "dt_phase (ts ! i) \<noteq> Resolved"
  shows "{j. j < length ts \<and> dt_phase (with_phase ts i ph ! j) \<noteq> Resolved}
    = (if ph = Resolved then {j. j < length ts \<and> dt_phase (ts ! j) \<noteq> Resolved} - {i}
       else {j. j < length ts \<and> dt_phase (ts ! j) \<noteq> Resolved})"
  using assms by (auto simp: with_phase_nth split: if_splits)


definition pending_set :: "dispatched list \<Rightarrow> nat set" where
  "pending_set ts = {i. i < length ts \<and> dt_phase (ts ! i) \<noteq> Resolved}"

definition table_ok :: "dispatched list \<Rightarrow> (string, nat) jsmap \<Rightarrow> int \<Rightarrow> bool" where
  "table_ok ts m pending \<longleftrightarrow> key_order ts \<and> tails_last ts m \<and> pending = int (card (pending_set ts))"

lemma dispatcher_ok_table:
  "dispatcher_ok d \<longleftrightarrow> table_ok (dp_tasks d) (dp_keyTails d) (dp_pendingTasks d) \<and> slots_ok d"
  unfolding dispatcher_ok_def table_ok_def pending_set_def by blast

lemma set_task_phase_fields [simp]:
  "dp_tasks (set_task_phase i ph d) = with_phase (dp_tasks d) i ph"
  "dp_keyTails (set_task_phase i ph d) = dp_keyTails d" "dp_slotWaiters (set_task_phase i ph d) = dp_slotWaiters d"
  "dp_activeSlots (set_task_phase i ph d) = dp_activeSlots d" "dp_pendingTasks (set_task_phase i ph d) = dp_pendingTasks d"
  "dp_concurrency (set_task_phase i ph d) = dp_concurrency d" "dp_idleWaiters (set_task_phase i ph d) = dp_idleWaiters d"
  by (simp_all add: set_task_phase_def)

lemma slots_cong:
  assumes "slots_ok d" and "dp_concurrency d' = dp_concurrency d" and "dp_activeSlots d' = dp_activeSlots d"
    and "dp_slotWaiters d' = dp_slotWaiters d"
    and "phase_set (dp_tasks d') Working = phase_set (dp_tasks d) Working"
    and "phase_set (dp_tasks d') SlotWait = phase_set (dp_tasks d) SlotWait"
  shows "slots_ok d'"
  using assms(1) unfolding slots_ok_def assms(2-6) .

lemma pending_set_with:
  "i < length ts \<Longrightarrow> dt_phase (ts ! i) \<noteq> Resolved \<Longrightarrow> ph \<noteq> Resolved \<Longrightarrow> pending_set (with_phase ts i ph) = pending_set ts"
  using pending_with [of i ts ph] by (simp add: pending_set_def)

lemma table_ok_later:
  assumes "table_ok ts m n" and "i < length ts" and "dt_phase (ts ! i) \<notin> {Behind, Resolved}" and "ph \<noteq> Resolved"
  shows "table_ok (with_phase ts i ph) m n"
  using assms key_order_later [of ts i ph] tails_phase [of ts m i ph] pending_set_with [of i ts ph]
  unfolding table_ok_def by simp

lemma ok_enqueue:
  assumes "dispatcher_ok d"
  shows "dispatcher_ok (enqueue_task key d)"
proof -
  let ?ts = "dp_tasks d" and ?m = "dp_keyTails d" and ?k = "task_key key"
  let ?t = "\<lparr>dt_key = ?k, dt_previous = map_get ?m ?k, dt_phase = Behind\<rparr>"
  let ?ts' = "?ts @ [?t]" and ?m' = "map_set ?k (length ?ts) ?m"
  have ok: "key_order ?ts" "tails_last ?ts ?m" "dp_pendingTasks d = int (card (pending_set ?ts))" "slots_ok d"
    using assms unfolding dispatcher_ok_table table_ok_def by simp_all
  have before: "case map_get ?m ?k of None \<Rightarrow> dt_phase (?ts ! i) = Resolved | Some p \<Rightarrow> i \<le> p"
    if i: "i < length ?ts" "dt_key (?ts ! i) = ?k" for i
  proof (cases "dt_phase (?ts ! i) = Resolved")
    case True
    show ?thesis
    proof (cases "map_get ?m ?k")
      case (Some p)
      have p: "p < length ?ts" "dt_key (?ts ! p) = ?k" "dt_phase (?ts ! p) \<noteq> Resolved"
        using tail_of_key [OF ok(2) Some] by simp_all
      have "\<not> p < i"
        using key_order_before [OF ok(1) i(1), of p] i(2) p True by auto
      then show ?thesis using Some by simp
    qed (simp add: True)
  next
    case False
    then obtain h where "i \<le> h" "map_get ?m ?k = Some h" using tail_after [OF ok(2) i(1)] i(2) by auto
    then show ?thesis by simp
  qed
  have "key_order ?ts'"
    unfolding key_order_def
  proof (intro conjI allI impI)
    fix j i assume j: "j < length ?ts'" "i < j" "dt_key (?ts' ! i) = dt_key (?ts' ! j)"
    have i: "i < length ?ts" using j by simp
    show "dt_phase (?ts' ! i) = Resolved" if "dt_phase (?ts' ! j) \<noteq> Behind"
      using j that i key_order_before [OF ok(1), of j i] by (cases "j = length ?ts") (simp_all add: nth_append)
    show "case dt_previous (?ts' ! j) of None \<Rightarrow> dt_phase (?ts' ! i) = Resolved | Some p \<Rightarrow> i \<le> p"
      using j i key_order_previous [OF ok(1), of j i] before [OF i]
      by (cases "j = length ?ts") (simp_all add: nth_append cong: option.case_cong)
  next
    fix j p assume j: "j < length ?ts'" "dt_previous (?ts' ! j) = Some p"
    have "p < j \<and> dt_key (?ts' ! p) = dt_key (?ts' ! j)"
    proof (cases "j = length ?ts")
      case True
      then show ?thesis using j tail_of_key [OF ok(2), of ?k p] by (simp add: nth_append)
    next
      case False
      then show ?thesis using j key_order_link [OF ok(1), of j p] by (simp add: nth_append)
    qed
    then show "p < j" "dt_key (?ts' ! p) = dt_key (?ts' ! j)" by simp_all
  qed
  moreover have "tails_last ?ts' ?m'"
    unfolding tails_last_def
  proof (intro conjI allI impI)
    fix k i assume a: "map_get ?m' k = Some i"
    have "i < length ?ts' \<and> dt_key (?ts' ! i) = k \<and> dt_phase (?ts' ! i) \<noteq> Resolved"
      using a tail_of_key [OF ok(2), of k i] by (cases "k = ?k") (simp_all add: map_get_set nth_append)
    then show "i < length ?ts'" "dt_key (?ts' ! i) = k" "dt_phase (?ts' ! i) \<noteq> Resolved" by simp_all
  next
    fix j assume j: "j < length ?ts'" "dt_phase (?ts' ! j) \<noteq> Resolved"
    show "\<exists>i \<ge> j. map_get ?m' (dt_key (?ts' ! j)) = Some i"
      using j tail_after [OF ok(2), of j] by (cases "j = length ?ts") (auto simp: map_get_set nth_append)
  qed
  moreover have "pending_set ?ts' = insert (length ?ts) (pending_set ?ts)"
    by (auto simp: pending_set_def nth_append less_Suc_eq)
  then have "int (card (pending_set ?ts')) = dp_pendingTasks d + 1"
    using ok(3) by (simp add: pending_set_def)
  moreover have "phase_set ?ts' Working = phase_set ?ts Working" "phase_set ?ts' SlotWait = phase_set ?ts SlotWait"
    by (auto simp: phase_set_def nth_append less_Suc_eq)
  then have "slots_ok (enqueue_task key d)" 
    by (intro slots_cong [OF ok(4)]) (simp_all add: enqueue_task_def Let_def)
  ultimately show ?thesis
    unfolding dispatcher_ok_table table_ok_def by (simp add: enqueue_task_def Let_def)
qed

lemma ok_begin:
  assumes d: "dispatcher_ok d"
  shows "dispatcher_ok (begin_task i d)"
proof (cases "can_begin d i")
  case False
  then show ?thesis using d by (simp add: begin_task_def)
next
  case True
  let ?ts = "dp_tasks d"
  have ok: "key_order ?ts" "tails_last ?ts (dp_keyTails d)" "dp_pendingTasks d = int (card (pending_set ?ts))" "slots_ok d"
    using d unfolding dispatcher_ok_table table_ok_def by simp_all
  have i: "i < length ?ts" "dt_phase (?ts ! i) = Behind" and prev: "tail_resolved d (dt_previous (?ts ! i))"
    using True by (simp_all add: can_begin_def)
  have before: "dt_phase (?ts ! h) = Resolved" if h: "h < i" "dt_key (?ts ! h) = dt_key (?ts ! i)" for h
  proof (cases "dt_previous (?ts ! i)")
    case None
    then show ?thesis using key_order_previous [OF ok(1) i(1) h] by simp
  next
    case (Some p)
    then have p: "p < i" "dt_key (?ts ! p) = dt_key (?ts ! i)" "dt_phase (?ts ! p) = Resolved" "h \<le> p"
      using key_order_link [OF ok(1) i(1) Some] key_order_previous [OF ok(1) i(1) h] prev
      by (simp_all add: tail_resolved_def)
    then show ?thesis
      using key_order_before [OF ok(1), of p h] h i(1) by (cases "h = p") auto
  qed
  have table: "table_ok (with_phase ?ts i ph) (dp_keyTails d) (dp_pendingTasks d)" if "ph \<noteq> Resolved" for ph
  proof -
    have nr: "dt_phase (?ts ! i) \<noteq> Resolved" using i(2) by simp
    have "key_order (with_phase ?ts i ph)" by (rule key_order_phase [OF ok(1) i(1) nr before])
    then show ?thesis
      using tails_phase [OF ok(2) i(1) nr that] pending_set_with [OF i(1) nr that] ok(3)
      unfolding table_ok_def by simp
  qed
  have notin: "i \<notin> phase_set ?ts Working" "i \<notin> phase_set ?ts SlotWait" using i by (simp_all add: phase_set_def)
  show ?thesis
  proof (cases "slot_free d")
    case True
    have "slots_ok (acquireSlot i d)"
      using ok(4) True notin i(1)
      by (auto simp: slots_ok_def acquireSlot_def slot_free_def phase_set_with split: option.splits)
    then show ?thesis
      using table [of Working] True \<open>can_begin d i\<close>
      by (simp add: begin_task_def dispatcher_ok_table) (simp add: acquireSlot_def)
  next
    case False
    have "slots_ok (acquireSlot i d)"
      using ok(4) False notin i(1)
      by (auto simp: slots_ok_def acquireSlot_def slot_free_def phase_set_with split: option.splits)
    then show ?thesis
      using table [of SlotWait] False \<open>can_begin d i\<close>
      by (simp add: begin_task_def dispatcher_ok_table) (simp add: acquireSlot_def)
  qed
qed


lemma card_phase_out:
  "i \<in> phase_set ts ph \<Longrightarrow> int (card (phase_set ts ph - {i})) = int (card (phase_set ts ph)) - 1"
  using card_gt_0_iff [of "phase_set ts ph"] by (auto simp: card_Diff_singleton_if of_nat_diff)

lemma ok_settle:
  assumes d: "dispatcher_ok d"
  shows "dispatcher_ok (settle_task i d)"
proof (cases "is_phase d i Working")
  case False
  then show ?thesis using d by (simp add: settle_task_def)
next
  case True
  let ?ts = "dp_tasks d" and ?d = "set_task_phase i Settled d"
  let ?ts1 = "with_phase ?ts i Settled"
  have i: "i < length ?ts" "dt_phase (?ts ! i) = Working" using True by (simp_all add: is_phase_def)
  have ok: "table_ok ?ts (dp_keyTails d) (dp_pendingTasks d)" "slots_ok d" using d by (simp_all add: dispatcher_ok_table)
  have t1: "table_ok ?ts1 (dp_keyTails d) (dp_pendingTasks d)" by (rule table_ok_later [OF ok(1) i(1)]) (simp_all add: i)
  have w: "phase_set ?ts1 Working = phase_set ?ts Working - {i}" "phase_set ?ts1 SlotWait = phase_set ?ts SlotWait"
    using i by (auto simp: phase_set_with) (simp add: phase_set_def)
  have in_w: "i \<in> phase_set ?ts Working" using i by (simp add: phase_set_def)
  have c1: "int (card (phase_set ?ts1 Working)) = dp_activeSlots d - 1"
    using ok(2) card_phase_out [OF in_w] w by (simp add: slots_ok_def)
  have eq: "settle_task i d = releaseSlot ?d" using True by (simp add: settle_task_def)
  show ?thesis
  proof (cases "dp_slotWaiters d")
    case Nil
    have "max 0 (dp_activeSlots d - 1) = dp_activeSlots d - 1" using c1 by simp
    then have "slots_ok (releaseSlot ?d)"
      using ok(2) Nil c1 w by (simp add: slots_ok_def releaseSlot_def split: option.splits)
    moreover have "table_ok (dp_tasks (releaseSlot ?d)) (dp_keyTails (releaseSlot ?d)) (dp_pendingTasks (releaseSlot ?d))"
      using t1 Nil by (simp add: releaseSlot_def)
    ultimately show ?thesis unfolding eq dispatcher_ok_table by simp
  next
    case (Cons j rest)
    then have "j \<in> phase_set ?ts SlotWait" using ok(2) by (auto simp: slots_ok_def)
    then have j: "j < length ?ts1" "dt_phase (?ts1 ! j) = SlotWait" "j \<in> phase_set ?ts1 SlotWait"
      using w by (auto simp: phase_set_def)
    let ?ts2 = "with_phase ?ts1 j Working"
    have t2: "table_ok ?ts2 (dp_keyTails d) (dp_pendingTasks d)" by (rule table_ok_later [OF t1 j(1)]) (simp_all add: j(2))
    have notin: "j \<notin> phase_set ?ts1 Working" using j by (simp add: phase_set_def)
    have w2: "phase_set ?ts2 Working = insert j (phase_set ?ts1 Working)" "phase_set ?ts2 SlotWait = phase_set ?ts1 SlotWait - {j}"
      using j(1) by (simp_all add: phase_set_with)
    then have "int (card (phase_set ?ts2 Working)) = dp_activeSlots d" using c1 notin by simp
    moreover have "distinct (j # rest)" "set (j # rest) = phase_set ?ts1 SlotWait"
      using ok(2) Cons w by (simp_all add: slots_ok_def)
    then have "distinct rest" "set rest = phase_set ?ts2 SlotWait" using w2(2) by auto
    ultimately have "slots_ok (releaseSlot ?d)"
      using ok(2) Cons by (auto simp: slots_ok_def releaseSlot_def split: option.splits)
    moreover have "table_ok (dp_tasks (releaseSlot ?d)) (dp_keyTails (releaseSlot ?d)) (dp_pendingTasks (releaseSlot ?d))"
      using t2 Cons by (simp add: releaseSlot_def)
    ultimately show ?thesis unfolding eq dispatcher_ok_table by simp
  qed
qed

lemma ok_resolve:
  assumes d: "dispatcher_ok d"
  shows "dispatcher_ok (resolve_tail i d)"
proof (cases "is_phase d i Settled")
  case False
  then show ?thesis using d by (simp add: resolve_tail_def)
next
  case True
  let ?ts = "dp_tasks d" and ?m = "dp_keyTails d" and ?key = "dt_key (dp_tasks d ! i)"
  let ?ts' = "with_phase ?ts i Resolved" and ?m' = "if map_get ?m ?key = Some i then map_delete ?key ?m else ?m"
  have i: "i < length ?ts" "dt_phase (?ts ! i) = Settled" using True by (simp_all add: is_phase_def)
  have ok: "key_order ?ts" "tails_last ?ts ?m" "dp_pendingTasks d = int (card (pending_set ?ts))" "slots_ok d"
    using d unfolding dispatcher_ok_table table_ok_def by simp_all
  have fin: "finite (pending_set ?ts)" and mem: "i \<in> pending_set ?ts" using i by (simp_all add: pending_set_def)
  have "pending_set ?ts' = pending_set ?ts - {i}" using pending_with [of i ?ts Resolved] i by (simp add: pending_set_def)
  then have "int (card (pending_set ?ts')) = max 0 (dp_pendingTasks d - 1)"
    using fin mem ok(3) card_gt_0_iff [of "pending_set ?ts"] by (auto simp: card_Diff_singleton_if of_nat_diff)
  then have t: "table_ok ?ts' ?m' (max 0 (dp_pendingTasks d - 1))"
    using key_order_later [OF ok(1) i(1), of Resolved] tails_resolved [OF ok(2) i(1) refl ok(1) i(2)] i(2)
    unfolding table_ok_def by simp
  have "phase_set ?ts' Working = phase_set ?ts Working" "phase_set ?ts' SlotWait = phase_set ?ts SlotWait"
    using i by (auto simp: phase_set_with) (simp_all add: phase_set_def)
  then have "slots_ok (resolve_tail i d)"
    using True by (intro slots_cong [OF ok(4)]) (simp_all add: resolve_tail_def Let_def)
  moreover have "dp_tasks (resolve_tail i d) = ?ts'" "dp_keyTails (resolve_tail i d) = ?m'"
    "dp_pendingTasks (resolve_tail i d) = max 0 (dp_pendingTasks d - 1)"
    using True by (simp_all add: resolve_tail_def Let_def)
  ultimately show ?thesis unfolding dispatcher_ok_table using t by simp
qed

lemma ok_wait: "dispatcher_ok d \<Longrightarrow> dispatcher_ok (waitForIdle d)"
  using slots_cong [of d "waitForIdle d"]
  by (cases "dp_pendingTasks d = 0"; simp add: dispatcher_ok_table waitForIdle_def)

lemma ok_dispatch: "dispatcher_ok d \<Longrightarrow> dispatcher_ok (dispatch_step op d)"
  by (cases op) (simp_all add: ok_enqueue ok_begin ok_settle ok_resolve ok_wait)

lemma positive_floor_pos: "positive_floor v = Some n \<Longrightarrow> 1 \<le> n"
  by (auto simp: positive_floor_def split: jsnum.splits)

lemma ok_new: "dispatcher_ok (new_dispatcher v)"
  using positive_floor_pos [of v]
  by (auto simp: dispatcher_ok_def new_dispatcher_def key_order_def tails_last_def slots_ok_def phase_set_def
      split: option.split)

lemma ok_dispatched: "dispatcher_ok (fold dispatch_step ops (new_dispatcher v))"
proof -
  have "dispatcher_ok d \<Longrightarrow> dispatcher_ok (fold dispatch_step ops d)" for d
    by (induction ops arbitrary: d) (simp_all add: ok_dispatch)
  then show ?thesis using ok_new by blast
qed

text \<open>While tasks are pending, one of them can take its next step.\<close>

lemma dispatch_progress:
  assumes d: "dispatcher_ok d" and "0 < dp_pendingTasks d"
  shows "\<exists>i. can_begin d i \<or> is_phase d i Working \<or> is_phase d i Settled"
proof (rule ccontr)
  let ?ts = "dp_tasks d"
  assume stuck: "\<nexists>i. can_begin d i \<or> is_phase d i Working \<or> is_phase d i Settled"
  have ok: "key_order ?ts" "slots_ok d" "dp_pendingTasks d = int (card (pending_set ?ts))"
    using d unfolding dispatcher_ok_table table_ok_def by simp_all
  have none: "phase_set ?ts Working = {}" using stuck by (auto simp: phase_set_def is_phase_def)
  then have "dp_slotWaiters d = []" using ok(2) by (auto simp: slots_ok_def split: option.splits)
  then have "phase_set ?ts SlotWait = {}" using ok(2) by (simp add: slots_ok_def)
  then have behind: "dt_phase (?ts ! i) = Behind" if "i \<in> pending_set ?ts" for i
    using that stuck none by (cases "dt_phase (?ts ! i)") (auto simp: pending_set_def phase_set_def is_phase_def)
  have "pending_set ?ts \<noteq> {}" using ok(3) assms(2) by auto
  then obtain i where i: "i \<in> pending_set ?ts" "\<And>j. j \<in> pending_set ?ts \<Longrightarrow> i \<le> j"
    using LeastI_ex [of "\<lambda>i. i \<in> pending_set ?ts"] Least_le [of "\<lambda>i. i \<in> pending_set ?ts"] by blast
  have len: "i < length ?ts" using i(1) by (simp add: pending_set_def)
  have "tail_resolved d (dt_previous (?ts ! i))"
  proof (cases "dt_previous (?ts ! i)")
    case (Some p)
    then have "p < i" using key_order_link [OF ok(1) len] by simp
    then have "p \<notin> pending_set ?ts" using i(2) by fastforce
    then show ?thesis using Some \<open>p < i\<close> len by (simp add: tail_resolved_def pending_set_def)
  qed (simp add: tail_resolved_def)
  then have "can_begin d i" using behind [OF i(1)] len by (simp add: can_begin_def)
  then show False using stuck by blast
qed


text \<open>
  C16: The dispatcher runs the tasks of a key one after the other in the order they were enqueued
  (no task has left its place behind while an earlier one of its key has not resolved), never more
  tasks than its concurrency, with a task waiting for a slot only while all are taken; it counts
  the pending tasks exactly and, while there are any, one of them can go on: no task and no slot
  is lost, whatever the order in which promises settle.
\<close>

theorem keyed_dispatcher_sound:
  "let d = fold dispatch_step ops (new_dispatcher concurrencyValue); ts = dp_tasks d
   in (\<nexists>i j. i < j \<and> j < length ts \<and> dt_key (ts ! i) = dt_key (ts ! j) \<and>
         dt_phase (ts ! j) \<noteq> Behind \<and> dt_phase (ts ! i) \<noteq> Resolved) \<and>
      (case dp_concurrency d of
         None \<Rightarrow> dp_slotWaiters d = []
       | Some n \<Rightarrow> int (card (phase_set ts Working)) \<le> n \<and>
           (dp_slotWaiters d = [] \<or> int (card (phase_set ts Working)) = n)) \<and>
      set (dp_slotWaiters d) = phase_set ts SlotWait \<and>
      dp_pendingTasks d = int (card (pending_set ts)) \<and>
      (dp_pendingTasks d = 0 \<or> (\<exists>i. can_begin d i \<or> is_phase d i Working \<or> is_phase d i Settled))"
proof -
  let ?d = "fold dispatch_step ops (new_dispatcher concurrencyValue)"
  have ok: "dispatcher_ok ?d" by (rule ok_dispatched)
  then have k: "key_order (dp_tasks ?d)" and s: "slots_ok ?d"
    and p: "dp_pendingTasks ?d = int (card (pending_set (dp_tasks ?d)))"
    unfolding dispatcher_ok_table table_ok_def by simp_all
  have "dp_pendingTasks ?d = 0 \<or> (\<exists>i. can_begin ?d i \<or> is_phase ?d i Working \<or> is_phase ?d i Settled)"
    using dispatch_progress [OF ok] p by fastforce
  moreover have "\<nexists>i j. i < j \<and> j < length (dp_tasks ?d) \<and> dt_key (dp_tasks ?d ! i) = dt_key (dp_tasks ?d ! j) \<and>
      dt_phase (dp_tasks ?d ! j) \<noteq> Behind \<and> dt_phase (dp_tasks ?d ! i) \<noteq> Resolved"
    using key_order_before [OF k] by blast
  ultimately show ?thesis using s p unfolding Let_def slots_ok_def by (auto split: option.splits)
qed

end
