(* ===== verification/Report_Gate.thy ===== *)
theory Report_Gate
  imports Prelude "HOL-Library.List_Lexorder" "HOL-Library.Char_ord"
begin

text \<open>
  \<open>server/agentTcpingReportGate.ts\<close>: agents repeat their probe results every few seconds; the
  gate lets a unit (a rule, a tunnel or a forward group of a host) pass when its state changed,
  and otherwise once in a reporting interval. What a plan has let pass is remembered when the
  caller has stored it, by \<open>commit\<close>. The fields of a report that are read through \<open>any\<close> are
  \<open>jsval\<close>s; services are passed through and left out. The closure \<open>commit\<close> is the list of
  updates with its flag.
\<close>

section \<open>Units and signatures\<close>

definition AGENT_TCPING_STEADY_REPORT_MS :: int where
  "AGENT_TCPING_STEADY_REPORT_MS = 5 * 60 * 1000"

definition AGENT_HEALTH_STEADY_REPORT_MS :: int where
  "AGENT_HEALTH_STEADY_REPORT_MS = 60 * 1000"

definition AGENT_TUNNEL_STEADY_REPORT_MS :: int where
  "AGENT_TUNNEL_STEADY_REPORT_MS = 30 * 1000"

definition AGENT_TCPING_GATE_STATE_TTL_MS :: int where
  "AGENT_TCPING_GATE_STATE_TTL_MS = 30 * 60 * 1000"

record probe_report =
  pb_probeKey :: jsval
  pb_ruleId :: jsval
  pb_tunnelId :: jsval
  pb_groupId :: jsval
  pb_memberId :: jsval
  pb_targetIp :: jsval
  pb_targetPort :: jsval
  pb_method :: jsval
  pb_hopIndex :: jsval
  pb_hopCount :: jsval
  pb_seriesKey :: jsval
  pb_topologyKey :: jsval
  pb_isTimeout :: jsval
  pb_healthStatus :: jsval
  pb_probeCount :: jsval
  pb_probeSuccesses :: jsval

datatype report_kind = RuleKind | TunnelKind | ForwardGroupKind

fun kind_text :: "report_kind \<Rightarrow> string" where
  "kind_text RuleKind = ''rule''"
| "kind_text TunnelKind = ''tunnel''"
| "kind_text ForwardGroupKind = ''forwardGroup''"

definition report_text :: "jsval \<Rightarrow> string" where
  "report_text value = js_trim (if value = JUndef \<or> value = JNull then [] else js_string value)"

definition report_integer :: "jsval \<Rightarrow> int" where
  "report_integer value = (case js_integer (to_number value) of None \<Rightarrow> 0 | Some n \<Rightarrow> n)"

definition probeStateKey :: "report_kind \<Rightarrow> probe_report \<Rightarrow> string" where
  "probeStateKey kind report =
     (let probeKey = report_text (pb_probeKey report) in
      if probeKey \<noteq> [] then probeKey
      else js_join '':''
        [kind_text kind, int_str (report_integer (pb_ruleId report)), int_str (report_integer (pb_tunnelId report)),
         int_str (report_integer (pb_groupId report)), int_str (report_integer (pb_memberId report)),
         js_lower (report_text (pb_targetIp report)), int_str (report_integer (pb_targetPort report)),
         js_lower (report_text (pb_method report)), int_str (report_integer (pb_hopIndex report)),
         int_str (report_integer (pb_hopCount report)), js_lower (report_text (pb_seriesKey report))])"

definition reportUnitKey :: "int \<Rightarrow> report_kind \<Rightarrow> probe_report \<Rightarrow> string" where
  "reportUnitKey hostId kind report =
     (case kind of
        RuleKind \<Rightarrow> int_str hostId @ '':rule:'' @ int_str (report_integer (pb_ruleId report))
      | TunnelKind \<Rightarrow> int_str hostId @ '':tunnel:'' @ int_str (report_integer (pb_tunnelId report))
          @ '':'' @ report_text (pb_topologyKey report)
      | ForwardGroupKind \<Rightarrow> int_str hostId @ '':forward-group:'' @ int_str (report_integer (pb_groupId report))
          @ '':'' @ report_text (pb_topologyKey report))"

definition probe_state :: "report_kind \<Rightarrow> probe_report \<Rightarrow> string" where
  "probe_state kind report =
     (let probeCount = (case js_integer (to_number (pb_probeCount report)) of None \<Rightarrow> 1 | Some n \<Rightarrow> n);
          probeSuccesses = (case js_integer (to_number (pb_probeSuccesses report)) of
              Some n \<Rightarrow> n | None \<Rightarrow> if js_truthy (pb_isTimeout report) then 0 else probeCount)
      in probeStateKey kind report @ ''='' @ (if js_truthy (pb_isTimeout report) then ''true'' else ''false'')
           @ '':'' @ report_text (pb_healthStatus report) @ '':'' @ int_str probeCount @ ''/'' @ int_str probeSuccesses)"

definition addUnits ::
  "int \<Rightarrow> report_kind \<Rightarrow> probe_report list \<Rightarrow> (string, string list) jsmap \<Rightarrow> (string, string list) jsmap" where
  "addUnits hostId kind reports units =
     fold (\<lambda>report units.
       let key = reportUnitKey hostId kind report;
           vs = (case map_get units key of None \<Rightarrow> [] | Some vs \<Rightarrow> vs)
       in map_set key (vs @ [probe_state kind report]) units) reports units"

definition signaturesFor :: "(string, string list) jsmap \<Rightarrow> (string, string) jsmap" where
  "signaturesFor units = map (\<lambda>(key, vs). (key, js_join ''|'' (sort vs))) units"

definition filterSelected :: "probe_report list \<Rightarrow> int \<Rightarrow> report_kind \<Rightarrow> string list \<Rightarrow> probe_report list" where
  "filterSelected reports hostId kind selected =
     filter (\<lambda>report. reportUnitKey hostId kind report \<in> set selected) reports"

section \<open>The gate\<close>

record gate_state =
  gs_signature :: string
  gs_acceptedAt :: int
  gs_lastSeenAt :: int
  gs_sequence :: int

record report_gate =
  rg_steadyReportMs :: int
  rg_stateTtlMs :: int
  rg_states :: "(string, gate_state) jsmap"
  rg_sequence :: int

record gate_input =
  gi_hostId :: jsnum
  gi_force :: bool
  gi_gateRules :: bool
  gi_results :: "probe_report list"
  gi_tunnels :: "probe_report list"
  gi_forwardGroups :: "probe_report list"

text \<open>\<open>gateRules\<close> is true unless the caller passes \<open>false\<close>.\<close>

record gate_plan =
  gp_results :: "probe_report list"
  gp_tunnels :: "probe_report list"
  gp_forwardGroups :: "probe_report list"
  gp_transitionRuleIds :: "int list"
  gp_updates :: "(string \<times> gate_state) list"
  gp_committed :: bool

definition new_report_gate :: "int option \<Rightarrow> int option \<Rightarrow> report_gate" where
  "new_report_gate steady ttl =
     \<lparr>rg_steadyReportMs = (case steady of None \<Rightarrow> AGENT_TCPING_STEADY_REPORT_MS | Some s \<Rightarrow> s),
      rg_stateTtlMs = (case ttl of None \<Rightarrow> AGENT_TCPING_GATE_STATE_TTL_MS | Some t \<Rightarrow> t),
      rg_states = [], rg_sequence = 0\<rparr>"

definition input_host :: "gate_input \<Rightarrow> int" where
  "input_host input = report_integer (JNum (gi_hostId input))"

definition input_signatures :: "gate_input \<Rightarrow> (string, string) jsmap" where
  "input_signatures input =
     (let hostId = input_host input;
          rules = (if gi_gateRules input then addUnits hostId RuleKind (gi_results input) [] else [])
      in signaturesFor (addUnits hostId ForwardGroupKind (gi_forwardGroups input)
           (addUnits hostId TunnelKind (gi_tunnels input) rules)))"

definition tunnelUnits :: "gate_input \<Rightarrow> string list" where
  "tunnelUnits input = map (reportUnitKey (input_host input) TunnelKind) (gi_tunnels input)"

definition healthUnits :: "gate_input \<Rightarrow> string list" where
  "healthUnits input =
     map (reportUnitKey (input_host input) RuleKind)
       (filter (\<lambda>r. report_text (pb_healthStatus r) \<noteq> []) (gi_results input))
     @ map (reportUnitKey (input_host input) ForwardGroupKind)
       (filter (\<lambda>r. report_text (pb_healthStatus r) \<noteq> []) (gi_forwardGroups input))"

definition steady_ms :: "gate_input \<Rightarrow> int \<Rightarrow> string \<Rightarrow> int" where
  "steady_ms input steadyReportMs key =
     (if key \<in> set (tunnelUnits input) then min steadyReportMs AGENT_TUNNEL_STEADY_REPORT_MS
      else if key \<in> set (healthUnits input) then min steadyReportMs AGENT_HEALTH_STEADY_REPORT_MS
      else steadyReportMs)"

text \<open>The variables of the loop over the signatures.\<close>

record plan_vars =
  pv_states :: "(string, gate_state) jsmap"
  pv_sequence :: int
  pv_selected :: "string list"
  pv_transitions :: "string list"
  pv_updates :: "(string \<times> gate_state) list"

definition plan_unit :: "gate_input \<Rightarrow> int \<Rightarrow> int \<Rightarrow> string \<times> string \<Rightarrow> plan_vars \<Rightarrow> plan_vars" where
  "plan_unit input steadyReportMs now ks v =
     (let key = fst ks; signature = snd ks;
          previous = map_get (pv_states v) key;
          v1 = (case previous of
              None \<Rightarrow> v
            | Some p \<Rightarrow> v\<lparr>pv_states := map_set key (p\<lparr>gs_lastSeenAt := now\<rparr>) (pv_states v)\<rparr>);
          transition = (case previous of None \<Rightarrow> True | Some p \<Rightarrow> gs_signature p \<noteq> signature);
          acceptedAt = (case previous of None \<Rightarrow> 0 | Some p \<Rightarrow> gs_acceptedAt p)
      in if \<not> gi_force input \<and> \<not> transition \<and> now - acceptedAt < steady_ms input steadyReportMs key then v1
         else let sequence = pv_sequence v1 + 1 in
           v1\<lparr>pv_sequence := sequence,
              pv_selected := set_add key (pv_selected v1),
              pv_transitions := (if transition \<or> gi_force input then set_add key (pv_transitions v1) else pv_transitions v1),
              pv_updates := pv_updates v1 @ [(key,
                \<lparr>gs_signature = signature, gs_acceptedAt = now, gs_lastSeenAt = now, gs_sequence = sequence\<rparr>)]\<rparr>)"

definition expire_states :: "int \<Rightarrow> int \<Rightarrow> (string, gate_state) jsmap \<Rightarrow> (string, gate_state) jsmap" where
  "expire_states now ttl states = filter (\<lambda>(_, st). now - gs_lastSeenAt st \<le> ttl) states"

definition plan_loop :: "gate_input \<Rightarrow> int \<Rightarrow> report_gate \<Rightarrow> plan_vars" where
  "plan_loop input now g =
     fold (plan_unit input (rg_steadyReportMs g) now) (input_signatures input)
       \<lparr>pv_states = expire_states now (rg_stateTtlMs g) (rg_states g), pv_sequence = rg_sequence g,
        pv_selected = [], pv_transitions = [], pv_updates = []\<rparr>"

definition plan_reports :: "gate_input \<Rightarrow> int \<Rightarrow> report_gate \<Rightarrow> gate_plan \<times> report_gate" where
  "plan_reports input now g =
     (let hostId = input_host input;
          v = plan_loop input now g;
          results = (if gi_gateRules input then filterSelected (gi_results input) hostId RuleKind (pv_selected v)
            else gi_results input);
          transitionRuleIds = fold set_add (filter (\<lambda>ruleId. ruleId > 0)
            (map (\<lambda>r. report_integer (pb_ruleId r))
              (filter (\<lambda>r. reportUnitKey hostId RuleKind r \<in> set (pv_transitions v)) results))) []
      in (\<lparr>gp_results = results,
           gp_tunnels = filterSelected (gi_tunnels input) hostId TunnelKind (pv_selected v),
           gp_forwardGroups = filterSelected (gi_forwardGroups input) hostId ForwardGroupKind (pv_selected v),
           gp_transitionRuleIds = transitionRuleIds, gp_updates = pv_updates v, gp_committed = False\<rparr>,
          g\<lparr>rg_states := pv_states v, rg_sequence := pv_sequence v\<rparr>))"

definition commit_update :: "string \<times> gate_state \<Rightarrow> (string, gate_state) jsmap \<Rightarrow> (string, gate_state) jsmap" where
  "commit_update u states =
     (case map_get states (fst u) of
        None \<Rightarrow> map_set (fst u) (snd u) states
      | Some current \<Rightarrow>
          if gs_sequence current < gs_sequence (snd u) then map_set (fst u) (snd u) states else states)"

definition commit_plan :: "gate_plan \<Rightarrow> report_gate \<Rightarrow> gate_plan \<times> report_gate" where
  "commit_plan p g =
     (if gp_committed p then (p, g)
      else (p\<lparr>gp_committed := True\<rparr>, g\<lparr>rg_states := fold commit_update (gp_updates p) (rg_states g)\<rparr>))"

text \<open>A run of the gate with the plans it handed out.\<close>

datatype report_op = Plan gate_input int | Commit nat

fun report_step :: "report_op \<Rightarrow> gate_plan list \<times> report_gate \<Rightarrow> gate_plan list \<times> report_gate" where
  "report_step (Plan input now) (plans, g) = (let (p, g') = plan_reports input now g in (plans @ [p], g'))"
| "report_step (Commit i) (plans, g) =
     (if i < length plans then let (p, g') = commit_plan (plans ! i) g in (plans[i := p], g') else (plans, g))"

section \<open>Which units pass\<close>

definition stored_view :: "(string, gate_state) jsmap \<Rightarrow> string \<Rightarrow> (string \<times> int) option" where
  "stored_view states key = map_option (\<lambda>p. (gs_signature p, gs_acceptedAt p)) (map_get states key)"

definition unit_due :: "gate_input \<Rightarrow> int \<Rightarrow> int \<Rightarrow> (string \<Rightarrow> (string \<times> int) option) \<Rightarrow> string \<Rightarrow> string \<Rightarrow> bool" where
  "unit_due input steadyReportMs now view key signature =
     (gi_force input \<or>
      (case view key of
         None \<Rightarrow> True
       | Some (old, acceptedAt) \<Rightarrow> old \<noteq> signature \<or> steady_ms input steadyReportMs key \<le> now - acceptedAt))"

lemma plan_unit_view: "stored_view (pv_states (plan_unit input st now ks v)) = stored_view (pv_states v)"
  by (rule ext) (auto simp: plan_unit_def stored_view_def Let_def map_get_set split: option.splits)

lemma plan_unit_selected:
  "set (pv_selected (plan_unit input st now ks v)) =
    (if unit_due input st now (stored_view (pv_states v)) (fst ks) (snd ks)
     then insert (fst ks) (set (pv_selected v)) else set (pv_selected v))"
  by (auto simp: plan_unit_def unit_due_def stored_view_def Let_def split: option.splits)

lemma plan_fold_view: "stored_view (pv_states (fold (plan_unit input st now) kss v)) = stored_view (pv_states v)"
  by (induction kss arbitrary: v) (auto simp: plan_unit_view)

lemma plan_fold_selected:
  "set (pv_selected (fold (plan_unit input st now) kss v)) =
     set (pv_selected v) \<union> {k. \<exists>sig. (k, sig) \<in> set kss \<and> unit_due input st now (stored_view (pv_states v)) k sig}"
  by (induction kss arbitrary: v) (auto simp: plan_unit_selected plan_unit_view)

lemma expire_view:
  "stored_view (expire_states now ttl states) key = Some x \<Longrightarrow> wf_map states \<Longrightarrow> stored_view states key = Some x"
  by (auto simp: stored_view_def expire_states_def map_get_filter split: option.splits if_splits)


section \<open>Nothing is withheld that was not stored\<close>

lemma addUnits_has:
  "map_has (addUnits hostId kind reports units) key \<longleftrightarrow>
     key \<in> reportUnitKey hostId kind ` set reports \<or> map_has units key"
  by (induction reports arbitrary: units) (auto simp: addUnits_def Let_def)

lemma addUnits_wf: "wf_map units \<Longrightarrow> wf_map (addUnits hostId kind reports units)"
  by (induction reports arbitrary: units) (auto simp: addUnits_def Let_def)

lemma signaturesFor_has: "map_has (signaturesFor units) key \<longleftrightarrow> map_has units key"
  by (induction units) (auto simp: signaturesFor_def)

lemma signaturesFor_wf: "wf_map units \<Longrightarrow> wf_map (signaturesFor units)"
  by (simp add: signaturesFor_def wf_map_def comp_def case_prod_unfold)

lemma input_signatures_wf: "wf_map (input_signatures input)"
  by (simp add: input_signatures_def Let_def signaturesFor_wf addUnits_wf)

text \<open>The reports of a kind, those a plan lets pass, and whether the kind is gated.\<close>

fun reports_of :: "report_kind \<Rightarrow> gate_input \<Rightarrow> probe_report list" where
  "reports_of RuleKind input = gi_results input"
| "reports_of TunnelKind input = gi_tunnels input"
| "reports_of ForwardGroupKind input = gi_forwardGroups input"

fun passed :: "report_kind \<Rightarrow> gate_plan \<Rightarrow> probe_report list" where
  "passed RuleKind p = gp_results p"
| "passed TunnelKind p = gp_tunnels p"
| "passed ForwardGroupKind p = gp_forwardGroups p"

lemma withheld_unit:
  assumes "r \<in> set (reports_of kind input)" and "r \<notin> set (passed kind (fst (plan_reports input now g)))"
  shows "map_has (input_signatures input) (reportUnitKey (input_host input) kind r) \<and>
     reportUnitKey (input_host input) kind r \<notin> set (pv_selected (plan_loop input now g))"
proof (cases kind)
  case RuleKind
  then show ?thesis
    using assms
    by (auto simp: plan_reports_def Let_def filterSelected_def input_signatures_def signaturesFor_has addUnits_has
        split: if_splits)
qed (use assms in \<open>auto simp: plan_reports_def Let_def filterSelected_def input_signatures_def signaturesFor_has
        addUnits_has\<close>)

lemma withheld_view:
  assumes wf: "wf_map (rg_states g)"
    and r: "r \<in> set (reports_of kind input)" "r \<notin> set (passed kind (fst (plan_reports input now g)))"
  obtains signature acceptedAt where
    "map_get (input_signatures input) (reportUnitKey (input_host input) kind r) = Some signature"
    and "stored_view (rg_states g) (reportUnitKey (input_host input) kind r) = Some (signature, acceptedAt)"
    and "now - acceptedAt < steady_ms input (rg_steadyReportMs g) (reportUnitKey (input_host input) kind r)"
    and "\<not> gi_force input"
proof -
  let ?key = "reportUnitKey (input_host input) kind r"
  let ?view = "stored_view (expire_states now (rg_stateTtlMs g) (rg_states g))"
  note u = withheld_unit [OF r]
  then obtain signature where sig: "map_get (input_signatures input) ?key = Some signature"
    by (auto simp: map_has_def)
  then have "\<not> unit_due input (rg_steadyReportMs g) now ?view ?key signature"
    using u map_get_inD [OF sig] by (auto simp: plan_loop_def plan_fold_selected)
  then show thesis
    using that [OF sig] expire_view [OF _ wf] by (fastforce simp: unit_due_def split: option.splits)
qed

definition stored_by :: "gate_plan list \<Rightarrow> string \<Rightarrow> string \<times> int \<Rightarrow> bool" where
  "stored_by plans key x \<longleftrightarrow>
     (\<exists>p \<in> set plans. gp_committed p \<and>
        (\<exists>u. (key, u) \<in> set (gp_updates p) \<and> (gs_signature u, gs_acceptedAt u) = x))"

definition run_ok :: "gate_plan list \<times> report_gate \<Rightarrow> bool" where
  "run_ok s \<longleftrightarrow> wf_map (rg_states (snd s)) \<and>
     (\<forall>key x. stored_view (rg_states (snd s)) key = Some x \<longrightarrow> stored_by (fst s) key x)"

lemma plan_unit_wf: "wf_map (pv_states v) \<Longrightarrow> wf_map (pv_states (plan_unit input st now ks v))"
  by (auto simp: plan_unit_def Let_def split: option.split)

lemma plan_loop_wf: "wf_map (rg_states g) \<Longrightarrow> wf_map (pv_states (plan_loop input now g))"
proof -
  have "wf_map (pv_states v) \<Longrightarrow> wf_map (pv_states (fold (plan_unit input st now) kss v))" for st kss v
    by (induction kss arbitrary: v) (auto simp: plan_unit_wf)
  then show "wf_map (rg_states g) \<Longrightarrow> ?thesis" by (simp add: plan_loop_def expire_states_def)
qed

lemma run_ok_plan:
  assumes "run_ok (plans, g)"
  shows "run_ok (report_step (Plan input now) (plans, g))"
proof -
  have wf: "wf_map (rg_states g)" using assms by (simp add: run_ok_def)
  have "stored_by (plans @ ps) key x" if "stored_view (pv_states (plan_loop input now g)) key = Some x" for ps key x
  proof -
    have "stored_view (rg_states g) key = Some x"
      using that expire_view [OF _ wf] by (simp add: plan_loop_def plan_fold_view)
    then have "stored_by plans key x" using assms by (cases x) (simp add: run_ok_def)
    then show ?thesis unfolding stored_by_def by auto
  qed
  then show ?thesis using plan_loop_wf [OF wf] by (simp add: run_ok_def plan_reports_def Let_def)
qed

lemma commit_fold_view:
  "stored_view (fold commit_update us states) key = Some x \<Longrightarrow>
   stored_view states key = Some x \<or> (\<exists>u. (key, u) \<in> set us \<and> (gs_signature u, gs_acceptedAt u) = x)"
proof (induction us arbitrary: states)
  case (Cons u us)
  have "stored_view (commit_update u states) key =
      (if key = fst u \<and> (case map_get states key of None \<Rightarrow> True | Some c \<Rightarrow> gs_sequence c < gs_sequence (snd u))
       then Some (gs_signature (snd u), gs_acceptedAt (snd u)) else stored_view states key)"
    by (auto simp: commit_update_def stored_view_def map_get_set split: option.split)
  then show ?case using Cons.IH [of "commit_update u states"] Cons.prems
    by (cases u) (auto split: if_splits)
qed simp

lemma commit_fold_wf: "wf_map states \<Longrightarrow> wf_map (fold commit_update us states)"
  by (induction us arbitrary: states) (auto simp: commit_update_def split: option.split)

lemma stored_by_commit:
  assumes "stored_by plans key x" and "i < length plans"
  shows "stored_by (plans[i := (plans ! i)\<lparr>gp_committed := True\<rparr>]) key x"
proof -
  let ?p = "(plans ! i)\<lparr>gp_committed := True\<rparr>"
  obtain p u where p: "p \<in> set plans" "gp_committed p" "(key, u) \<in> set (gp_updates p)"
    "(gs_signature u, gs_acceptedAt u) = x" using assms(1) by (auto simp: stored_by_def)
  obtain j where j: "j < length plans" "p = plans ! j" using p(1) by (metis in_set_conv_nth)
  have "plans[i := ?p] ! j \<in> set (plans[i := ?p])" using j(1) by simp
  moreover have "gp_committed (plans[i := ?p] ! j)" "gp_updates (plans[i := ?p] ! j) = gp_updates p"
    using p(2) j assms(2) by (auto simp: nth_list_update)
  ultimately show ?thesis using p unfolding stored_by_def by metis
qed

lemma run_ok_commit:
  assumes ok: "run_ok (plans, g)"
  shows "run_ok (report_step (Commit i) (plans, g))"
proof (cases "i < length plans \<and> \<not> gp_committed (plans ! i)")
  case True
  let ?p = "(plans ! i)\<lparr>gp_committed := True\<rparr>" and ?g = "fold commit_update (gp_updates (plans ! i)) (rg_states g)"
  have step: "report_step (Commit i) (plans, g) = (plans[i := ?p], g\<lparr>rg_states := ?g\<rparr>)"
    using True by (simp add: commit_plan_def)
  have new: "stored_by (plans[i := ?p]) key (gs_signature u, gs_acceptedAt u)"
    if "(key, u) \<in> set (gp_updates (plans ! i))" for key u
    unfolding stored_by_def using True that
    by (intro bexI [where x = ?p] conjI exI [where x = u]) (simp_all add: set_update_memI)
  have "stored_by (plans[i := ?p]) key x" if "stored_view ?g key = Some x" for key x
    using commit_fold_view [OF that] new stored_by_commit [of plans key x i] True ok
    by (cases x) (auto simp: run_ok_def)
  then show ?thesis using ok commit_fold_wf unfolding step by (simp add: run_ok_def)
next
  case False
  then have "report_step (Commit i) (plans, g) = (plans, g)" by (auto simp: commit_plan_def)
  then show ?thesis using ok by simp
qed

lemma run_ok_run: "run_ok (fold report_step ops ([], new_report_gate a b))"
proof (induction ops rule: rev_induct)
  case Nil
  then show ?case by (simp add: run_ok_def new_report_gate_def stored_view_def)
next
  case (snoc op ops)
  then show ?case
    by (cases op; cases "fold report_step ops ([], new_report_gate a b)")
      (simp_all only: fold_append fold_simps comp_def id_apply run_ok_plan run_ok_commit)
qed

text \<open>
  C30: the gate withholds a report only when its state has been stored a moment ago. In every
  run of a gate, with plans made at any times and committed late, twice, out of order or never:
  a rule, tunnel or forward-group report that a plan does not let pass has the same signature
  as an update of an earlier plan that was committed, and that update was accepted less than the
  reporting interval of the unit before. A changed state, or one whose plan was not stored,
  always passes; so does everything when the caller forces it.
\<close>

theorem withheld_only_after_commit:
  assumes run: "(plans, g) = fold report_step ops ([], new_report_gate a b)"
    and "r \<in> set (reports_of kind input)" and "r \<notin> set (passed kind (fst (plan_reports input now g)))"
  shows "\<exists>p \<in> set plans. gp_committed p \<and> \<not> gi_force input \<and>
     (\<exists>u. (reportUnitKey (input_host input) kind r, u) \<in> set (gp_updates p) \<and>
        map_get (input_signatures input) (reportUnitKey (input_host input) kind r) = Some (gs_signature u) \<and>
        now - gs_acceptedAt u < steady_ms input (rg_steadyReportMs g) (reportUnitKey (input_host input) kind r))"
proof -
  have ok: "run_ok (plans, g)" unfolding run by (rule run_ok_run)
  then have wf: "wf_map (rg_states g)" by (simp add: run_ok_def)
  obtain signature acceptedAt where w:
    "map_get (input_signatures input) (reportUnitKey (input_host input) kind r) = Some signature"
    "stored_view (rg_states g) (reportUnitKey (input_host input) kind r) = Some (signature, acceptedAt)"
    "now - acceptedAt < steady_ms input (rg_steadyReportMs g) (reportUnitKey (input_host input) kind r)"
    "\<not> gi_force input"
    by (rule withheld_view [OF wf assms(2,3)])
  then have "stored_by plans (reportUnitKey (input_host input) kind r) (signature, acceptedAt)"
    using ok by (simp add: run_ok_def)
  then show ?thesis using w unfolding stored_by_def by auto
qed

definition sample_report :: probe_report where
  "sample_report = \<lparr>pb_probeKey = JStr ''k'', pb_ruleId = JUndef, pb_tunnelId = JNum (num 5), pb_groupId = JUndef,
     pb_memberId = JUndef, pb_targetIp = JUndef, pb_targetPort = JUndef, pb_method = JUndef, pb_hopIndex = JUndef,
     pb_hopCount = JUndef, pb_seriesKey = JUndef, pb_topologyKey = JStr ''t'', pb_isTimeout = JBool False,
     pb_healthStatus = JUndef, pb_probeCount = JNum (num 5), pb_probeSuccesses = JNum (num 4)\<rparr>"

definition sample_input :: gate_input where
  "sample_input = \<lparr>gi_hostId = num 9, gi_force = False, gi_gateRules = True, gi_results = [],
     gi_tunnels = [sample_report], gi_forwardGroups = []\<rparr>"

lemma withheld_only_after_commit_witness:
  "let (plans, g) = fold report_step [Plan sample_input 1000, Commit 0] ([], new_report_gate None None) in
   \<exists>p \<in> set plans. gp_committed p \<and> \<not> gi_force sample_input \<and>
     (\<exists>u. (reportUnitKey (input_host sample_input) TunnelKind sample_report, u) \<in> set (gp_updates p) \<and>
        map_get (input_signatures sample_input) (reportUnitKey (input_host sample_input) TunnelKind sample_report)
          = Some (gs_signature u) \<and>
        9000 - gs_acceptedAt u < steady_ms sample_input (rg_steadyReportMs g)
          (reportUnitKey (input_host sample_input) TunnelKind sample_report))"
proof -
  let ?run = "fold report_step [Plan sample_input 1000, Commit 0] ([], new_report_gate None None)"
  have "passed TunnelKind (fst (plan_reports sample_input 9000 (snd ?run))) = []" by code_simp
  then have no: "sample_report \<notin> set (passed TunnelKind (fst (plan_reports sample_input 9000 (snd ?run))))" by simp
  have "sample_report \<in> set (reports_of TunnelKind sample_input)" by (simp add: sample_input_def)
  then show ?thesis
    using withheld_only_after_commit [where plans = "fst ?run" and g = "snd ?run"
        and ops = "[Plan sample_input 1000, Commit 0]" and a = None and b = None, OF prod.collapse _ no]
    by (simp only: case_prod_unfold Let_def)
qed

end
