(* ===== verification/Heartbeat_Gate.thy ===== *)
theory Heartbeat_Gate
  imports Prelude
begin

text \<open>
  The class \<open>AgentHeartbeatGate\<close> of \<open>server/agentHeartbeatGate.ts\<close>: at most
  \<open>maxConcurrent\<close> full heartbeats are reconciled at a time, one for each host, and hosts that
  find the gate full wait in the order in which they came. \<open>this.now()\<close> is an argument of
  every operation that reads it. \<open>tryAcquire\<close> returns a closure with a flag of its own; the
  closures handed out are numbered here, \<open>leases\<close> keeps the host and the flag of each, and
  calling the \<open>i\<close>-th is \<open>release_lease i\<close>.
\<close>

section \<open>The gate\<close>

record heartbeat_gate =
  coalesceMs :: int
  maxConcurrent :: int
  waitingTimeoutMs :: int
  active_hosts :: "int list"
  completedAt :: "(int, int) jsmap"
  waiting :: "int list"
  waitingSince :: "(int, int) jsmap"
  leases :: "(int \<times> bool) list"

definition new_gate :: "int \<Rightarrow> int \<Rightarrow> int \<Rightarrow> heartbeat_gate" where
  "new_gate coalesce maximum waitingTimeout =
     \<lparr>coalesceMs = coalesce, maxConcurrent = maximum, waitingTimeoutMs = waitingTimeout,
      active_hosts = [], completedAt = [], waiting = [], waitingSince = [], leases = []\<rparr>"

text \<open>The loop of \<open>pruneWaiting\<close>, over the queue and the map it deletes from.\<close>

fun prune_loop :: "int \<Rightarrow> int \<Rightarrow> int list \<Rightarrow> (int, int) jsmap \<Rightarrow> int list \<times> (int, int) jsmap" where
  "prune_loop currentTime timeout [] since = ([], since)"
| "prune_loop currentTime timeout (hostId # queue) since =
     (if (case map_get since hostId of
            None \<Rightarrow> False | Some queuedAt \<Rightarrow> currentTime - queuedAt \<le> timeout)
      then (hostId # queue, since)
      else prune_loop currentTime timeout queue (map_delete hostId since))"

definition pruneWaiting :: "int \<Rightarrow> heartbeat_gate \<Rightarrow> heartbeat_gate" where
  "pruneWaiting currentTime g =
     (let (queue, since) = prune_loop currentTime (waitingTimeoutMs g) (waiting g) (waitingSince g)
      in g\<lparr>waiting := queue, waitingSince := since\<rparr>)"

definition enqueue_host :: "int \<Rightarrow> int \<Rightarrow> heartbeat_gate \<Rightarrow> heartbeat_gate" where
  "enqueue_host hostId currentTime g =
     (if map_has (waitingSince g) hostId
      then g\<lparr>waitingSince := map_set hostId currentTime (waitingSince g)\<rparr>
      else g\<lparr>waiting := waiting g @ [hostId],
             waitingSince := map_set hostId currentTime (waitingSince g)\<rparr>)"

definition removeWaiting :: "int \<Rightarrow> heartbeat_gate \<Rightarrow> heartbeat_gate" where
  "removeWaiting hostId g =
     (if \<not> map_has (waitingSince g) hostId then g
      else g\<lparr>waitingSince := map_delete hostId (waitingSince g),
             waiting := remove1 hostId (waiting g)\<rparr>)"

definition recentlyCompleted :: "int \<Rightarrow> int \<Rightarrow> heartbeat_gate \<Rightarrow> bool" where
  "recentlyCompleted currentTime hostId g \<longleftrightarrow>
     currentTime - (case map_get (completedAt g) hostId of None \<Rightarrow> 0 | Some finished \<Rightarrow> finished) < coalesceMs g"

definition atCapacity :: "heartbeat_gate \<Rightarrow> bool" where
  "atCapacity g \<longleftrightarrow> int (length (active_hosts g)) \<ge> max 1 (maxConcurrent g)"

text \<open>The end of \<open>tryAcquire\<close>: the host becomes active and a closure is handed out.\<close>

definition grant :: "int \<Rightarrow> heartbeat_gate \<Rightarrow> int option \<times> heartbeat_gate" where
  "grant hostId g =
     (Some hostId, g\<lparr>active_hosts := set_add hostId (active_hosts g),
                     leases := leases g @ [(hostId, False)]\<rparr>)"

definition tryAcquire_host :: "int \<Rightarrow> bool \<Rightarrow> int \<Rightarrow> heartbeat_gate \<Rightarrow> int option \<times> heartbeat_gate" where
  "tryAcquire_host currentTime force hostId g0 =
     (let g = pruneWaiting currentTime g0 in
      if hostId \<in> set (active_hosts g) \<or> \<not> force \<and> recentlyCompleted currentTime hostId g
      then (None, g)
      else if atCapacity g then (None, enqueue_host hostId currentTime g)
      else if waiting g = [] then grant hostId g
      else if \<not> map_has (waitingSince g) hostId then (None, enqueue_host hostId currentTime g)
      else if hd (waiting g) \<noteq> hostId
      then (None, g\<lparr>waitingSince := map_set hostId currentTime (waitingSince g)\<rparr>)
      else grant hostId (g\<lparr>waiting := tl (waiting g),
                           waitingSince := map_delete hostId (waitingSince g)\<rparr>))"

definition tryAcquire :: "int \<Rightarrow> bool \<Rightarrow> jsval \<Rightarrow> heartbeat_gate \<Rightarrow> int option \<times> heartbeat_gate" where
  "tryAcquire currentTime force hostIdValue g =
     (case id_of hostIdValue of
        None \<Rightarrow> (None, g) | Some hostId \<Rightarrow> tryAcquire_host currentTime force hostId g)"

definition release_lease :: "nat \<Rightarrow> int \<Rightarrow> heartbeat_gate \<Rightarrow> heartbeat_gate" where
  "release_lease i now g =
     (if i < length (leases g) \<and> \<not> snd (leases g ! i)
      then let hostId = fst (leases g ! i)
           in g\<lparr>leases := (leases g)[i := (hostId, True)],
                active_hosts := remove1 hostId (active_hosts g),
                completedAt := map_set hostId now (completedAt g)\<rparr>
      else g)"

definition clear_all :: "heartbeat_gate \<Rightarrow> heartbeat_gate" where
  "clear_all g = g\<lparr>active_hosts := [], completedAt := [], waiting := [], waitingSince := []\<rparr>"

text \<open>\<open>clear(hostIdValue)\<close>; a value that is no integer is a key of none of the collections.\<close>

definition clear_host :: "jsval \<Rightarrow> heartbeat_gate \<Rightarrow> heartbeat_gate" where
  "clear_host hostIdValue g =
     (case js_integer (to_number hostIdValue) of
        None \<Rightarrow> g
      | Some hostId \<Rightarrow>
          removeWaiting hostId
            (g\<lparr>active_hosts := remove1 hostId (active_hosts g),
               completedAt := map_delete hostId (completedAt g)\<rparr>))"

datatype gate_op = TryAcquire int bool jsval | Release nat int | ClearAll | ClearHost jsval

fun gate_step :: "gate_op \<Rightarrow> heartbeat_gate \<Rightarrow> int option \<times> heartbeat_gate" where
  "gate_step (TryAcquire now force v) g = tryAcquire now force v g"
| "gate_step (Release i now) g = (None, release_lease i now g)"
| "gate_step ClearAll g = (None, clear_all g)"
| "gate_step (ClearHost v) g = (None, clear_host v g)"

fun gate_run :: "gate_op list \<Rightarrow> heartbeat_gate \<Rightarrow> int list \<times> heartbeat_gate" where
  "gate_run [] g = ([], g)"
| "gate_run (op # ops) g =
     (let (granted, g1) = gate_step op g; (rest, g2) = gate_run ops g1
      in ((case granted of None \<Rightarrow> rest | Some hostId \<Rightarrow> hostId # rest), g2))"

section \<open>Its invariant\<close>

definition gate_ok :: "heartbeat_gate \<Rightarrow> bool" where
  "gate_ok g \<longleftrightarrow>
     distinct (active_hosts g) \<and> distinct (waiting g) \<and> wf_map (waitingSince g) \<and>
     (\<forall>h. map_has (waitingSince g) h \<longleftrightarrow> h \<in> set (waiting g)) \<and>
     set (active_hosts g) \<inter> set (waiting g) = {} \<and>
     int (length (active_hosts g)) \<le> max 1 (maxConcurrent g)"

text \<open>The leases that have not been given back.\<close>

definition open_leases :: "heartbeat_gate \<Rightarrow> int list" where
  "open_leases g = map fst (filter (\<lambda>l. \<not> snd l) (leases g))"

definition leases_ok :: "heartbeat_gate \<Rightarrow> bool" where
  "leases_ok g \<longleftrightarrow> distinct (open_leases g) \<and> set (open_leases g) = set (active_hosts g)"

lemma gate_ok_new: "gate_ok (new_gate c m t)"
  by (simp add: gate_ok_def new_gate_def)

lemma prune_loop_spec:
  assumes "distinct queue" and "wf_map since" and "\<forall>h. map_has since h \<longleftrightarrow> h \<in> set queue"
    and "prune_loop now timeout queue since = (queue', since')"
  shows "(\<exists>n. queue' = drop n queue) \<and> wf_map since' \<and> (\<forall>h. map_has since' h \<longleftrightarrow> h \<in> set queue') \<and>
     (\<forall>h \<in> set queue'. map_get since' h = map_get since h)"
  using assms
proof (induction queue arbitrary: since)
  case Nil
  then show ?case by auto
next
  case (Cons h queue)
  show ?case
  proof (cases "(queue', since') = (h # queue, since)")
    case True
    then show ?thesis using Cons.prems(2,3) by (auto intro: exI [where x = 0])
  next
    case False
    then have loop: "prune_loop now timeout queue (map_delete h since) = (queue', since')"
      using Cons.prems(4) by (auto split: if_splits)
    have keys: "\<forall>k. map_has (map_delete h since) k \<longleftrightarrow> k \<in> set queue"
      using Cons.prems(1,3) by auto
    obtain n where n: "queue' = drop n queue" "wf_map since'" "\<forall>k. map_has since' k \<longleftrightarrow> k \<in> set queue'"
      "\<forall>k \<in> set queue'. map_get since' k = map_get (map_delete h since) k"
      using Cons.IH [OF _ _ keys loop] Cons.prems(1,2) by auto
    moreover have "h \<notin> set queue'" using n(1) Cons.prems(1) by (auto dest: in_set_dropD)
    ultimately show ?thesis
      by (auto simp: map_get_delete intro: exI [where x = "Suc n"])
  qed
qed

lemma prune_outcome:
  assumes "gate_ok g"
  obtains n since where "pruneWaiting now g = g\<lparr>waiting := drop n (waiting g), waitingSince := since\<rparr>"
    and "gate_ok (pruneWaiting now g)"
    and "\<forall>h \<in> set (drop n (waiting g)). map_get since h = map_get (waitingSince g) h"
proof -
  obtain queue since where loop:
      "prune_loop now (waitingTimeoutMs g) (waiting g) (waitingSince g) = (queue, since)"
    by fastforce
  then have spec: "\<exists>n. queue = drop n (waiting g)" "wf_map since"
      "\<forall>h. map_has since h \<longleftrightarrow> h \<in> set queue" "\<forall>h \<in> set queue. map_get since h = map_get (waitingSince g) h"
    using prune_loop_spec [of "waiting g" "waitingSince g"] assms by (auto simp: gate_ok_def)
  obtain n where n: "queue = drop n (waiting g)" using spec(1) by blast
  have p: "pruneWaiting now g = g\<lparr>waiting := drop n (waiting g), waitingSince := since\<rparr>"
    using loop n by (simp add: pruneWaiting_def)
  moreover have "gate_ok (pruneWaiting now g)"
    using assms spec(2,3) n set_drop_subset [of n "waiting g"] by (auto simp: p gate_ok_def)
  ultimately show thesis using that spec(4) n by blast
qed

text \<open>What an attempt can leave behind.\<close>

lemma gate_ok_enqueue:
  "gate_ok g \<Longrightarrow> h \<notin> set (active_hosts g) \<Longrightarrow> gate_ok (enqueue_host h now g)"
  by (auto simp: gate_ok_def enqueue_host_def)

lemma gate_ok_refresh:
  "gate_ok g \<Longrightarrow> map_has (waitingSince g) h \<Longrightarrow>
   gate_ok (g\<lparr>waitingSince := map_set h now (waitingSince g)\<rparr>)"
  by (auto simp: gate_ok_def)

lemma gate_ok_grant:
  "gate_ok g \<Longrightarrow> h \<notin> set (active_hosts g) \<Longrightarrow> h \<notin> set (waiting g) \<Longrightarrow> \<not> atCapacity g \<Longrightarrow>
   gate_ok (snd (grant h g))"
  by (auto simp: gate_ok_def grant_def atCapacity_def set_add_def)

lemma gate_ok_pop:
  "gate_ok g \<Longrightarrow> waiting g \<noteq> [] \<Longrightarrow>
   gate_ok (g\<lparr>waiting := tl (waiting g), waitingSince := map_delete (hd (waiting g)) (waitingSince g)\<rparr>)"
  by (cases "waiting g") (auto simp: gate_ok_def)

lemma gate_ok_tryAcquire_host:
  assumes "gate_ok g"
  shows "gate_ok (snd (tryAcquire_host now force h g))"
proof -
  obtain n since where p: "gate_ok (pruneWaiting now g)" by (rule prune_outcome [OF assms])
  show ?thesis
  proof (cases "waiting (pruneWaiting now g)")
    case Nil
    then show ?thesis
      using p gate_ok_grant [OF p, of h] gate_ok_enqueue [OF p, of h]
      by (auto simp: tryAcquire_host_def Let_def)
  next
    case (Cons k queue)
    then have "gate_ok (snd (grant k (pruneWaiting now g\<lparr>waiting := queue,
        waitingSince := map_delete k (waitingSince (pruneWaiting now g))\<rparr>)))"
      if "\<not> atCapacity (pruneWaiting now g)" "k \<notin> set (active_hosts (pruneWaiting now g))"
      using gate_ok_grant [OF gate_ok_pop [OF p], of k] p that
      by (simp add: atCapacity_def gate_ok_def)
    then show ?thesis
      using p gate_ok_enqueue [OF p, of h] gate_ok_refresh [OF p, of h] Cons
      by (auto simp: tryAcquire_host_def Let_def)
  qed
qed

lemma gate_ok_release: "gate_ok g \<Longrightarrow> gate_ok (release_lease i now g)"
  using length_remove1 [of "fst (leases g ! i)" "active_hosts g"]
  by (auto simp: release_lease_def Let_def gate_ok_def dest: in_set_remove1)

lemma gate_ok_clear_host: "gate_ok g \<Longrightarrow> gate_ok (clear_host v g)"
  by (auto simp: clear_host_def removeWaiting_def gate_ok_def length_remove1 split: option.split)

lemma gate_ok_step:
  assumes "gate_ok g" shows "gate_ok (snd (gate_step op g))"
proof (cases op)
  case (TryAcquire now force v)
  then show ?thesis
    using assms by (auto simp: tryAcquire_def gate_ok_tryAcquire_host split: option.split)
next
  case ClearAll
  then show ?thesis by (simp add: clear_all_def gate_ok_def)
qed (use assms in \<open>simp_all add: gate_ok_release gate_ok_clear_host\<close>)

section \<open>Leases\<close>

definition no_clear :: "gate_op \<Rightarrow> bool" where
  "no_clear op = (case op of TryAcquire _ _ _ \<Rightarrow> True | Release _ _ \<Rightarrow> True | _ \<Rightarrow> False)"

lemma pruneWaiting_keeps [simp]:
  "active_hosts (pruneWaiting now g) = active_hosts g" "leases (pruneWaiting now g) = leases g"
  "maxConcurrent (pruneWaiting now g) = maxConcurrent g" "completedAt (pruneWaiting now g) = completedAt g"
  "coalesceMs (pruneWaiting now g) = coalesceMs g"
  "waitingTimeoutMs (pruneWaiting now g) = waitingTimeoutMs g"
  by (simp_all add: pruneWaiting_def split: prod.split)

lemma enqueue_host_keeps [simp]:
  "active_hosts (enqueue_host h now g) = active_hosts g" "leases (enqueue_host h now g) = leases g"
  by (simp_all add: enqueue_host_def)

lemma tryAcquire_host_leases:
  "(fst (tryAcquire_host now force h g) = None \<and>
     leases (snd (tryAcquire_host now force h g)) = leases g \<and>
     active_hosts (snd (tryAcquire_host now force h g)) = active_hosts g) \<or>
   (fst (tryAcquire_host now force h g) = Some h \<and> h \<notin> set (active_hosts g) \<and>
     leases (snd (tryAcquire_host now force h g)) = leases g @ [(h, False)] \<and>
     active_hosts (snd (tryAcquire_host now force h g)) = active_hosts g @ [h])"
  by (simp add: tryAcquire_host_def Let_def grant_def set_add_def)

lemma open_leases_append:
  "leases g' = leases g @ [(h, False)] \<Longrightarrow> open_leases g' = open_leases g @ [h]"
  by (simp add: open_leases_def)

lemma open_leases_cong: "leases g' = leases g \<Longrightarrow> open_leases g' = open_leases g"
  by (simp add: open_leases_def)

text \<open>Giving a lease back removes one occurrence of its host from the open leases.\<close>

lemma open_leases_release:
  assumes "i < length (leases g)" and "\<not> snd (leases g ! i)" and "distinct (open_leases g)"
  shows "distinct (map fst (filter (\<lambda>l. \<not> snd l) ((leases g)[i := (fst (leases g ! i), True)])))"
    and "set (map fst (filter (\<lambda>l. \<not> snd l) ((leases g)[i := (fst (leases g ! i), True)])))
      = set (open_leases g) - {fst (leases g ! i)}"
proof -
  let ?a = "take i (leases g)" and ?b = "drop (Suc i) (leases g)" and ?l = "leases g ! i"
  have split: "leases g = ?a @ ?l # ?b" using assms(1) by (simp add: id_take_nth_drop)
  have upd: "(leases g)[i := (fst ?l, True)] = ?a @ (fst ?l, True) # ?b"
    using assms(1) by (simp add: upd_conv_take_nth_drop)
  have old: "open_leases g = map fst (filter (\<lambda>l. \<not> snd l) ?a) @ fst ?l # map fst (filter (\<lambda>l. \<not> snd l) ?b)"
    unfolding open_leases_def using assms(2) by (subst split) simp
  show "distinct (map fst (filter (\<lambda>l. \<not> snd l) ((leases g)[i := (fst ?l, True)])))"
    using assms(3) unfolding upd old by simp
  show "set (map fst (filter (\<lambda>l. \<not> snd l) ((leases g)[i := (fst ?l, True)])))
      = set (open_leases g) - {fst ?l}"
    using assms(3) unfolding upd old by auto
qed

lemma leases_ok_step:
  assumes "gate_ok g" and "leases_ok g" and "no_clear op"
  shows "leases_ok (snd (gate_step op g))"
proof (cases op)
  case (TryAcquire now force v)
  show ?thesis
  proof (cases "id_of v")
    case None
    then show ?thesis using TryAcquire assms by (simp add: tryAcquire_def)
  next
    case (Some h)
    then show ?thesis
      using TryAcquire assms tryAcquire_host_leases [of now force h g]
      by (auto simp: tryAcquire_def leases_ok_def open_leases_append dest: open_leases_cong)
  qed
next
  case (Release i now)
  show ?thesis
  proof (cases "i < length (leases g) \<and> \<not> snd (leases g ! i)")
    case True
    have "distinct (active_hosts g)" using assms(1) by (simp add: gate_ok_def)
    then show ?thesis
      using Release True assms open_leases_release [of i g]
      by (simp add: leases_ok_def release_lease_def Let_def) (simp add: open_leases_def)
  next
    case False
    then have "release_lease i now g = g" by (auto simp: release_lease_def)
    then show ?thesis using Release assms by simp
  qed
qed (use assms in \<open>simp_all add: no_clear_def\<close>)

lemma gate_run_Cons [simp]:
  "snd (gate_run (op # ops) g) = snd (gate_run ops (snd (gate_step op g)))"
  "fst (gate_run (op # ops) g) =
     (case fst (gate_step op g) of None \<Rightarrow> [] | Some h \<Rightarrow> [h]) @ fst (gate_run ops (snd (gate_step op g)))"
  by (auto split: prod.split option.split)

declare gate_run.simps(2) [simp del]

lemma gate_run_keeps:
  assumes "gate_ok g" and "leases_ok g" and "list_all no_clear ops"
  shows "gate_ok (snd (gate_run ops g)) \<and> leases_ok (snd (gate_run ops g))"
  using assms by (induction ops arbitrary: g) (auto simp: gate_ok_step leases_ok_step)

lemma removeWaiting_maxConcurrent [simp]: "maxConcurrent (removeWaiting h g) = maxConcurrent g"
  by (simp add: removeWaiting_def)

lemma gate_step_maxConcurrent: "maxConcurrent (snd (gate_step op g)) = maxConcurrent g"
  by (cases op)
    (auto simp: tryAcquire_def tryAcquire_host_def Let_def grant_def enqueue_host_def release_lease_def
      clear_all_def clear_host_def split: option.split)

lemma gate_run_maxConcurrent: "maxConcurrent (snd (gate_run ops g)) = maxConcurrent g"
  by (induction ops arbitrary: g) (auto simp: gate_step_maxConcurrent)

text \<open>
  the gate never has more than \<open>max 1 maxConcurrent\<close> heartbeats in progress, and never two
  of one host: in every run of a new gate without \<open>clear\<close>, with any times and any forced
  attempts, the closures handed out and not yet called belong to distinct hosts, are at most
  that many, and are exactly those of the hosts the gate counts as active.
\<close>

theorem heartbeat_gate_exclusive:
  assumes "list_all no_clear ops"
  shows "let g = snd (gate_run ops (new_gate c m t)) in
     distinct (open_leases g) \<and> int (length (open_leases g)) \<le> max 1 m \<and>
     set (open_leases g) = set (active_hosts g)"
proof -
  let ?g = "snd (gate_run ops (new_gate c m t))"
  have "leases_ok (new_gate c m t)" by (simp add: leases_ok_def open_leases_def new_gate_def)
  then have ok: "gate_ok ?g" "leases_ok ?g"
    using gate_run_keeps [OF gate_ok_new _ assms] by auto
  then have "length (open_leases ?g) = length (active_hosts ?g)"
    by (metis distinct_card gate_ok_def leases_ok_def)
  moreover have "maxConcurrent ?g = m" by (simp add: gate_run_maxConcurrent new_gate_def)
  ultimately show ?thesis using ok by (simp add: leases_ok_def gate_ok_def Let_def)
qed

lemma heartbeat_gate_exclusive_witness:
  "let g = snd (gate_run [TryAcquire 10 False (JNum (num 1)), TryAcquire 11 True (JNum (num 2)), Release 0 12]
       (new_gate 1000 1 30)) in
     distinct (open_leases g) \<and> int (length (open_leases g)) \<le> max 1 1 \<and>
     set (open_leases g) = set (active_hosts g)"
  by (rule heartbeat_gate_exclusive) (simp add: no_clear_def)

section \<open>Waiting in order\<close>

definition position :: "int \<Rightarrow> heartbeat_gate \<Rightarrow> nat" where
  "position h g = length (takeWhile (\<lambda>k. k \<noteq> h) (waiting g))"

text \<open>While it waits, the host comes back before its entry is older than the timeout.\<close>

definition fresh_waiter :: "int \<Rightarrow> int \<Rightarrow> heartbeat_gate \<Rightarrow> bool" where
  "fresh_waiter now h g =
     (case map_get (waitingSince g) h of
        None \<Rightarrow> False | Some since \<Rightarrow> now - since \<le> waitingTimeoutMs g)"

fun in_time :: "int \<Rightarrow> gate_op list \<Rightarrow> heartbeat_gate \<Rightarrow> bool" where
  "in_time h [] g = True"
| "in_time h (op # ops) g =
     (h \<notin> set (waiting g) \<or>
      (case op of TryAcquire now _ _ \<Rightarrow> fresh_waiter now h g | Release _ _ \<Rightarrow> True | _ \<Rightarrow> False) \<and>
      in_time h ops (snd (gate_step op g)))"

lemma prune_loop_fresh:
  assumes "h \<in> set queue" and "distinct queue"
    and "\<exists>since. map_get m h = Some since \<and> now - since \<le> timeout"
  shows "\<exists>n \<le> length (takeWhile (\<lambda>k. k \<noteq> h) queue). fst (prune_loop now timeout queue m) = drop n queue"
  using assms
proof (induction queue arbitrary: m)
  case (Cons k queue)
  show ?case
  proof (cases "case map_get m k of None \<Rightarrow> False | Some queuedAt \<Rightarrow> now - queuedAt \<le> timeout")
    case True
    then show ?thesis by (auto intro: exI [where x = 0])
  next
    case False
    then have "k \<noteq> h" using Cons.prems(3) by auto
    then obtain n where "n \<le> length (takeWhile (\<lambda>k. k \<noteq> h) queue)"
        "fst (prune_loop now timeout queue (map_delete k m)) = drop n queue"
      using Cons.IH [of "map_delete k m"] Cons.prems by (auto simp: map_get_delete)
    then show ?thesis using False \<open>k \<noteq> h\<close> by (intro exI [of _ "Suc n"]) simp
  qed
qed simp

lemma takeWhile_drop:
  "n \<le> length (takeWhile P xs) \<Longrightarrow> length (takeWhile P (drop n xs)) = length (takeWhile P xs) - n"
  by (induction xs arbitrary: n) (auto simp: drop_Cons' split: if_splits)

lemma in_set_drop_takeWhile:
  "h \<in> set xs \<Longrightarrow> n \<le> length (takeWhile (\<lambda>k. k \<noteq> h) xs) \<Longrightarrow> h \<in> set (drop n xs)"
  by (induction xs arbitrary: n) (auto simp: drop_Cons' split: if_splits)

lemma prune_fresh:
  assumes "gate_ok g" and "h \<in> set (waiting g)" and "fresh_waiter now h g"
  shows "h \<in> set (waiting (pruneWaiting now g))" and "position h (pruneWaiting now g) \<le> position h g"
proof -
  have "\<exists>n \<le> position h g. waiting (pruneWaiting now g) = drop n (waiting g)"
    using prune_loop_fresh [of h "waiting g" "waitingSince g" now "waitingTimeoutMs g"] assms
    by (auto simp: gate_ok_def fresh_waiter_def position_def pruneWaiting_def split: option.splits prod.split)
  then obtain n where "n \<le> position h g" "waiting (pruneWaiting now g) = drop n (waiting g)" by blast
  then show "h \<in> set (waiting (pruneWaiting now g))" "position h (pruneWaiting now g) \<le> position h g"
    using assms(2) by (simp_all add: position_def in_set_drop_takeWhile takeWhile_drop)
qed

lemma position_append [simp]: "h \<in> set xs \<Longrightarrow> takeWhile (\<lambda>k. k \<noteq> h) (xs @ ys) = takeWhile (\<lambda>k. k \<noteq> h) xs"
  by (induction xs) auto

text \<open>An attempt of any host: \<open>h\<close> gets the lease, or moves up by one if another host gets it.\<close>

lemma tryAcquire_host_position:
  assumes "gate_ok g" and "h \<in> set (waiting g)" and "fresh_waiter now h g"
  shows "(case fst (tryAcquire_host now force k g) of
       None \<Rightarrow> h \<in> set (waiting (snd (tryAcquire_host now force k g))) \<and>
         position h (snd (tryAcquire_host now force k g)) \<le> position h g
     | Some k' \<Rightarrow> k' = h \<or>
         h \<in> set (waiting (snd (tryAcquire_host now force k g))) \<and>
         Suc (position h (snd (tryAcquire_host now force k g))) \<le> position h g)"
proof -
  let ?p = "pruneWaiting now g"
  have p: "h \<in> set (waiting ?p)" "position h ?p \<le> position h g"
    using prune_fresh [OF assms] by auto
  then obtain x xs where w: "waiting ?p = x # xs" by (cases "waiting ?p") auto
  then have "x = h \<or> h \<in> set xs \<and> Suc (length (takeWhile (\<lambda>k. k \<noteq> h) xs)) \<le> position h g"
    using p by (auto simp: position_def)
  then show ?thesis
    using p w by (auto simp: tryAcquire_host_def Let_def grant_def enqueue_host_def position_def split: if_splits)
qed

lemma bounded_overtaking_run:
  assumes "gate_ok g" and "h \<in> set (waiting g)" and "in_time h ops g"
  shows "h \<in> set (take (Suc (position h g)) (fst (gate_run ops g))) \<or>
     h \<in> set (waiting (snd (gate_run ops g))) \<and>
     position h (snd (gate_run ops g)) + length (fst (gate_run ops g)) \<le> position h g"
  using assms
proof (induction ops arbitrary: g)
  case Nil
  then show ?case by simp
next
  case (Cons op ops)
  let ?g = "snd (gate_step op g)"
  have ok: "gate_ok ?g" by (rule gate_ok_step [OF Cons.prems(1)])
  have rest: "in_time h ops ?g" using Cons.prems by simp
  have step: "case fst (gate_step op g) of
      None \<Rightarrow> h \<in> set (waiting ?g) \<and> position h ?g \<le> position h g
    | Some k \<Rightarrow> k = h \<or> h \<in> set (waiting ?g) \<and> Suc (position h ?g) \<le> position h g"
  proof (cases op)
    case (TryAcquire now force v)
    then have fresh: "fresh_waiter now h g" using Cons.prems by simp
    show ?thesis
    proof (cases "id_of v")
      case (Some k)
      then have same: "gate_step op g = tryAcquire_host now force k g"
        using TryAcquire by (simp add: tryAcquire_def)
      then show ?thesis
        using tryAcquire_host_position [OF Cons.prems(1,2) fresh, of force k] unfolding same by blast
    qed (use TryAcquire Cons.prems in \<open>simp add: tryAcquire_def\<close>)
  qed (use Cons.prems in \<open>auto simp: release_lease_def Let_def position_def\<close>)
  note IH = Cons.IH [OF ok _ rest]
  have sub: "set (take m xs) \<subseteq> set (take n xs)" if "m \<le> n" for m n and xs :: "int list"
    using that by (rule set_take_subset_set_take)
  show ?case
  proof (cases "fst (gate_step op g)")
    case None
    then show ?thesis
      using IH step sub [of "Suc (position h ?g)" "Suc (position h g)" "fst (gate_run ops ?g)"] by auto
  next
    case (Some k)
    show ?thesis
    proof (cases "k = h")
      case False
      then show ?thesis
        using IH step Some sub [of "Suc (position h ?g)" "position h g" "fst (gate_run ops ?g)"] by auto
    qed (simp add: Some)
  qed
qed

lemma head_is_granted:
  assumes "gate_ok g" and "h \<in> set (waiting g)" and "fresh_waiter now h g" and "position h g = 0"
    and "\<not> atCapacity g" and "force \<or> \<not> recentlyCompleted now h g"
  shows "fst (tryAcquire_host now force h g) = Some h"
proof -
  let ?p = "pruneWaiting now g"
  have "h \<in> set (waiting ?p)" "position h ?p = 0" using prune_fresh [OF assms(1-3)] assms(4) by auto
  then obtain xs where w: "waiting ?p = h # xs" by (cases "waiting ?p") (auto simp: position_def split: if_splits)
  have "gate_ok ?p" using prune_outcome [OF assms(1)] by metis
  then have "map_has (waitingSince ?p) h" "h \<notin> set (active_hosts ?p)"
    using w by (auto simp: gate_ok_def)
  then show ?thesis
    using w assms(5,6) by (simp add: tryAcquire_host_def Let_def grant_def atCapacity_def recentlyCompleted_def)
qed

text \<open>
  C11: no host starves at the gate. Take any state that a gate can reach and a host that waits
  in it with \<open>n\<close> hosts before it. If the host comes back in time, then in every further run
  without \<open>clear\<close> it is among the first \<open>n + 1\<close> hosts that get a lease, or it still waits and
  every lease granted meanwhile has moved it up. At the head of the queue, an attempt that finds
  a free slot gets the lease unless the host has completed one a moment ago and does not force it.
\<close>

theorem heartbeat_gate_fair:
  assumes g: "g = snd (gate_run before (new_gate c m t))" and h: "h \<in> set (waiting g)"
    and v: "id_of v = Some h" and time: "in_time h ops g"
  shows "(h \<in> set (take (Suc (position h g)) (fst (gate_run ops g))) \<or>
      h \<in> set (waiting (snd (gate_run ops g))) \<and>
      position h (snd (gate_run ops g)) + length (fst (gate_run ops g)) \<le> position h g) \<and>
    (if position h g = 0 \<and> fresh_waiter now h g \<and> \<not> atCapacity g \<and> (force \<or> \<not> recentlyCompleted now h g)
     then fst (tryAcquire now force v g) = Some h else True)"
proof -
  have ok: "gate_ok (snd (gate_run before g))" if "gate_ok g" for before g
    using that by (induction before arbitrary: g) (auto simp: gate_ok_step)
  have okg: "gate_ok g" using ok [OF gate_ok_new] g by simp
  show ?thesis
    using bounded_overtaking_run [OF okg h time] head_is_granted [OF okg h] v
    by (simp add: tryAcquire_def)
qed

lemma heartbeat_gate_fair_witness:
  "let g = snd (gate_run [TryAcquire 5000 False (JNum (num 1)), TryAcquire 5001 False (JNum (num 2)),
                          TryAcquire 5002 False (JNum (num 3))] (new_gate 1000 1 30));
       ops = [Release 0 5003, TryAcquire 5004 False (JNum (num 3)), TryAcquire 5005 False (JNum (num 2))] in
     (3 \<in> set (take (Suc (position 3 g)) (fst (gate_run ops g))) \<or>
      3 \<in> set (waiting (snd (gate_run ops g))) \<and>
      position 3 (snd (gate_run ops g)) + length (fst (gate_run ops g)) \<le> position 3 g) \<and>
    (if position 3 g = 0 \<and> fresh_waiter 5004 3 g \<and> \<not> atCapacity g \<and> (False \<or> \<not> recentlyCompleted 5004 3 g)
     then fst (tryAcquire 5004 False (JNum (num 3)) g) = Some 3 else True)"
proof -
  have g: "snd (gate_run [TryAcquire 5000 False (JNum (num 1)), TryAcquire 5001 False (JNum (num 2)),
                          TryAcquire 5002 False (JNum (num 3))] (new_gate 1000 1 30))
    = (new_gate 1000 1 30)\<lparr>active_hosts := [1], waiting := [2, 3], waitingSince := [(2, 5001), (3, 5002)],
                             leases := [(1, False)]\<rparr>" by code_simp
  show ?thesis
    unfolding Let_def
  proof (rule heartbeat_gate_fair [OF refl])
    show "id_of (JNum (num 3)) = Some 3" by (simp add: id_of_def positive_int_def)
  qed (simp_all only: g, code_simp+)
qed
end
