(* ===== verification/Heartbeat_Plan.thy ===== *)
theory Heartbeat_Plan
  imports Prelude
begin

text \<open>
  The rest of \<open>server/agentHeartbeatGate.ts\<close>: the cache of stable heartbeat plans
  (\<open>AgentStableHeartbeatPlanCache\<close>), which answers a heartbeat without planning again when the
  host reports exactly the state of its last plan, and the choices of the answer and of the
  intervals. Fields of TypeScript type \<open>string\<close> hold strings and numeric fields hold numbers,
  so \<open>String(x || "")\<close> is the identity and \<open>Number(x || 0)\<close> replaces \<open>NaN\<close> by \<open>0\<close>. The record
  \<open>stateSignatures\<close> has the names of state sections as its keys, none of which is a property of
  \<open>Object.prototype\<close>.
\<close>

section \<open>Answers and intervals\<close>

record busy_response =
  br_panelUrl :: string
  br_nextInterval :: int
  br_requestLocalState :: bool
  br_metricsOnly :: bool
  br_trafficReportInterval :: "int option"

text \<open>The fields that are the same in every answer are left out of the record.\<close>

definition buildBusyAgentHeartbeatResponse ::
  "string \<Rightarrow> bool \<Rightarrow> bool option \<Rightarrow> int option \<Rightarrow> busy_response" where
  "buildBusyAgentHeartbeatResponse panelUrl requestLocalState metricsWatching trafficReportInterval =
     (let metricsOnly = (metricsWatching = Some True \<and> \<not> requestLocalState)
      in \<lparr>br_panelUrl = panelUrl, br_nextInterval = (if metricsOnly then 3 else 5),
          br_requestLocalState = requestLocalState, br_metricsOnly = metricsOnly,
          br_trafficReportInterval = trafficReportInterval\<rparr>)"

definition shouldDeferAgentWorkForLocalState :: "bool \<Rightarrow> bool \<Rightarrow> bool" where
  "shouldDeferAgentWorkForLocalState supportsDesiredState requestLocalState \<longleftrightarrow>
     supportsDesiredState \<and> requestLocalState"

definition AGENT_IDLE_HEARTBEAT_INTERVAL_SECONDS :: int where
  "AGENT_IDLE_HEARTBEAT_INTERVAL_SECONDS = 60"

definition AGENT_PRESENCE_PERSIST_INTERVAL_MS :: int where
  "AGENT_PRESENCE_PERSIST_INTERVAL_MS = 90 * 1000"

definition AGENT_TRAFFIC_REPORT_INTERACTIVE_SECONDS :: int where
  "AGENT_TRAFFIC_REPORT_INTERACTIVE_SECONDS = 10"

definition AGENT_TRAFFIC_REPORT_STEADY_SECONDS :: int where
  "AGENT_TRAFFIC_REPORT_STEADY_SECONDS = 30"

definition AGENT_STABLE_PLAN_AUDIT_INTERVAL_MS :: int where
  "AGENT_STABLE_PLAN_AUDIT_INTERVAL_MS = 5 * 60 * 1000"

definition selectAgentTrafficReportInterval :: "bool \<Rightarrow> bool \<Rightarrow> int" where
  "selectAgentTrafficReportInterval metricsWatching strictAccounting =
     (if metricsWatching \<or> strictAccounting
      then AGENT_TRAFFIC_REPORT_INTERACTIVE_SECONDS else AGENT_TRAFFIC_REPORT_STEADY_SECONDS)"

text \<open>The date is read outside of the model: \<open>lastHeartbeatMs\<close> is \<open>NaN\<close> for an invalid one.\<close>

definition shouldPersistAgentPresence :: "bool \<Rightarrow> jsnum \<Rightarrow> int \<Rightarrow> bool" where
  "shouldPersistAgentPresence wasOnline lastHeartbeatMs now =
     (if \<not> wasOnline then True
      else case js_finite lastHeartbeatMs of
        None \<Rightarrow> True
      | Some ms \<Rightarrow> of_int now - ms \<ge> of_int AGENT_PRESENCE_PERSIST_INTERVAL_MS)"

definition probe_seconds :: "jsval \<Rightarrow> int" where
  "probe_seconds value =
     (case js_finite (to_number (if js_truthy value then value else JNum (num 30))) of
        None \<Rightarrow> 30 | Some seconds \<Rightarrow> max 5 \<lfloor>seconds\<rfloor>)"

definition selectAgentHeartbeatInterval :: "bool \<Rightarrow> bool \<Rightarrow> bool \<Rightarrow> jsval list \<Rightarrow> int" where
  "selectAgentHeartbeatInterval requestLocalState hasInteractiveTasks metricsWatching intervals =
     (if requestLocalState \<or> hasInteractiveTasks then 2
      else min (if metricsWatching then 3 else AGENT_IDLE_HEARTBEAT_INTERVAL_SECONDS)
             (foldl (\<lambda>minimum value. min minimum (probe_seconds value))
                AGENT_IDLE_HEARTBEAT_INTERVAL_SECONDS intervals))"

record runtime_patch =
  rp_status :: string
  rp_message :: "string option"
  rp_checkedAt :: int

definition buildReportedRuntimeHeartbeatPatch ::
  "bool \<Rightarrow> string \<Rightarrow> string option \<Rightarrow> int option \<Rightarrow> int \<Rightarrow> runtime_patch option" where
  "buildReportedRuntimeHeartbeatPatch hasLocalRuntimeState status message checkedAt now =
     (if \<not> hasLocalRuntimeState then None
      else Some \<lparr>rp_status = status, rp_message = message,
             rp_checkedAt = (case checkedAt of None \<Rightarrow> now | Some d \<Rightarrow> d)\<rparr>)"

section \<open>Stable plans\<close>

record stable_plan =
  plannedAt :: int
  configRevision :: jsnum
  desiredStateHash :: string
  localStateSignature :: string
  stateSignatures :: "(string, string) jsmap"
  agentVersion :: string
  agentBootId :: string
  agentProcessStartedAt :: jsnum
  defaultNetworkInterface :: string
  pluginInventorySignature :: string
  mimicEnvironmentSignature :: string
  idleNextInterval :: int
  plan_panelUrl :: string

record plan_match =
  forceReconcile :: bool
  hasBlockingWork :: bool
  recoveryTriggered :: bool
  addressChanged :: bool
  hasDnsChanges :: bool
  hasLocalStateUpload :: bool
  hasEndpointEvents :: bool
  in_localStateSignature :: string
  in_stateSignatures :: "(string, string) jsmap"
  in_agentVersion :: string
  in_agentBootId :: string
  in_agentProcessStartedAt :: jsnum
  in_defaultNetworkInterface :: string
  in_pluginInventorySignature :: string
  in_mimicEnvironmentSignature :: string
  agentLastReceivedRevision :: jsnum
  agentLastAppliedRevision :: jsnum
  agentLastReceivedHash :: string
  agentLastAppliedHash :: string

definition normalizedHash :: "string option \<Rightarrow> string" where
  "normalizedHash value = js_lower (js_trim (case value of None \<Rightarrow> [] | Some s \<Rightarrow> s))"

definition signaturesMatch :: "(string, string) jsmap \<Rightarrow> (string, string) jsmap \<Rightarrow> bool" where
  "signaturesMatch expected actual \<longleftrightarrow>
     expected \<noteq> [] \<and>
     list_all (\<lambda>(name, _). normalizedHash (map_get actual name) = normalizedHash (map_get expected name)) expected"

definition or_zero :: "jsnum \<Rightarrow> jsnum" where
  "or_zero n = (if n = NaN then Fin 0 else n)"

record plan_cache =
  auditIntervalMs :: int
  plans :: "(int, stable_plan) jsmap"

definition stored_plan :: "stable_plan \<Rightarrow> stable_plan" where
  "stored_plan plan =
     plan\<lparr>desiredStateHash := normalizedHash (Some (desiredStateHash plan)),
          localStateSignature := normalizedHash (Some (localStateSignature plan))\<rparr>"

definition remember_plan :: "jsval \<Rightarrow> stable_plan \<Rightarrow> plan_cache \<Rightarrow> bool \<times> plan_cache" where
  "remember_plan hostIdValue plan c =
     (case id_of hostIdValue of
        None \<Rightarrow> (False, c)
      | Some hostId \<Rightarrow>
          if localStateSignature plan = [] \<or> desiredStateHash plan = [] \<or> stateSignatures plan = []
          then (False, c)
          else (True, c\<lparr>plans := map_set hostId (stored_plan plan) (plans c)\<rparr>))"

definition plan_blocked :: "plan_match \<Rightarrow> bool" where
  "plan_blocked input \<longleftrightarrow>
     forceReconcile input \<or> hasBlockingWork input \<or> recoveryTriggered input \<or> addressChanged input
     \<or> hasDnsChanges input \<or> hasLocalStateUpload input \<or> hasEndpointEvents input"

definition state_differs :: "stable_plan \<Rightarrow> plan_match \<Rightarrow> bool" where
  "state_differs plan input \<longleftrightarrow>
     normalizedHash (Some (in_localStateSignature input)) \<noteq> localStateSignature plan
     \<or> \<not> signaturesMatch (stateSignatures plan) (in_stateSignatures input)
     \<or> in_agentVersion input \<noteq> agentVersion plan
     \<or> in_agentBootId input \<noteq> agentBootId plan
     \<or> or_zero (in_agentProcessStartedAt input) \<noteq> agentProcessStartedAt plan
     \<or> in_defaultNetworkInterface input \<noteq> defaultNetworkInterface plan
     \<or> in_pluginInventorySignature input \<noteq> pluginInventorySignature plan
     \<or> in_mimicEnvironmentSignature input \<noteq> mimicEnvironmentSignature plan"

definition revision_differs :: "stable_plan \<Rightarrow> plan_match \<Rightarrow> bool" where
  "revision_differs plan input \<longleftrightarrow>
     or_zero (agentLastReceivedRevision input) \<noteq> configRevision plan
     \<or> or_zero (agentLastAppliedRevision input) \<noteq> configRevision plan
     \<or> normalizedHash (Some (agentLastReceivedHash input)) \<noteq> desiredStateHash plan
     \<or> normalizedHash (Some (agentLastAppliedHash input)) \<noteq> desiredStateHash plan"

definition match_plan :: "int \<Rightarrow> jsval \<Rightarrow> plan_match \<Rightarrow> plan_cache \<Rightarrow> stable_plan option" where
  "match_plan currentTime hostIdValue input c =
     (case id_of hostIdValue of
        None \<Rightarrow> None
      | Some hostId \<Rightarrow>
          (case map_get (plans c) hostId of
             None \<Rightarrow> None
           | Some plan \<Rightarrow>
               if currentTime - plannedAt plan \<ge> auditIntervalMs c then None
               else if plan_blocked input then None
               else if state_differs plan input then None
               else if revision_differs plan input then None
               else Some plan))"

definition invalidate_plan :: "jsval option \<Rightarrow> plan_cache \<Rightarrow> plan_cache" where
  "invalidate_plan hostIdValue c =
     (case hostIdValue of
        None \<Rightarrow> c\<lparr>plans := []\<rparr>
      | Some v \<Rightarrow>
          (case js_integer (to_number v) of
             None \<Rightarrow> c | Some hostId \<Rightarrow> c\<lparr>plans := map_delete hostId (plans c)\<rparr>))"

section \<open>Intervals are bounded\<close>

lemma probe_seconds_bound: "5 \<le> probe_seconds v"
  by (simp add: probe_seconds_def split: option.split)

lemma foldl_min_bounds:
  "(\<And>x. lo \<le> f x) \<Longrightarrow> lo \<le> (m::int) \<Longrightarrow>
   lo \<le> foldl (\<lambda>m x. min m (f x)) m xs \<and> foldl (\<lambda>m x. min m (f x)) m xs \<le> m"
proof (induction xs arbitrary: m)
  case (Cons x xs)
  then show ?case using Cons.IH [of "min m (f x)"] by force
qed simp

lemma heartbeat_interval_bounds:
  "2 \<le> selectAgentHeartbeatInterval local tasks metrics intervals \<and>
   selectAgentHeartbeatInterval local tasks metrics intervals \<le> 60"
proof -
  have "5 \<le> foldl (\<lambda>m v. min m (probe_seconds v)) AGENT_IDLE_HEARTBEAT_INTERVAL_SECONDS intervals"
    by (rule conjunct1 [OF foldl_min_bounds])
      (simp_all add: probe_seconds_bound AGENT_IDLE_HEARTBEAT_INTERVAL_SECONDS_def)
  then show ?thesis
    by (auto simp: selectAgentHeartbeatInterval_def AGENT_IDLE_HEARTBEAT_INTERVAL_SECONDS_def)
qed

section \<open>A plan is used while it is current\<close>

datatype plan_op = Remember jsval stable_plan | Invalidate "jsval option"

fun plan_step :: "plan_op \<Rightarrow> plan_cache \<Rightarrow> plan_cache" where
  "plan_step (Remember v plan) c = snd (remember_plan v plan c)"
| "plan_step (Invalidate v) c = invalidate_plan v c"

text \<open>The operations that leave the plan of a host alone.\<close>

fun spares :: "int \<Rightarrow> plan_op \<Rightarrow> bool" where
  "spares hostId (Remember v plan) = (id_of v \<noteq> Some hostId)"
| "spares hostId (Invalidate None) = False"
| "spares hostId (Invalidate (Some v)) = (js_integer (to_number v) \<noteq> Some hostId)"

lemma plan_step_spares:
  "spares hostId op \<Longrightarrow> map_get (plans (plan_step op c)) hostId = map_get (plans c) hostId"
  by (induction hostId op rule: spares.induct)
    (auto simp: remember_plan_def invalidate_plan_def map_get_set map_get_delete split: option.splits)

lemma plan_step_audit [simp]: "auditIntervalMs (plan_step op c) = auditIntervalMs c"
  by (cases op) (auto simp: remember_plan_def invalidate_plan_def split: option.splits)

lemma plan_run_spares:
  "list_all (spares hostId) ops \<Longrightarrow>
   map_get (plans (fold plan_step ops c)) hostId = map_get (plans c) hostId"
  by (induction ops arbitrary: c) (auto simp: plan_step_spares)

lemma plan_run_audit [simp]: "auditIntervalMs (fold plan_step ops c) = auditIntervalMs c"
  by (induction ops arbitrary: c) auto

text \<open>The host reports the state of the plan, hashes compared without blanks and case.\<close>

definition reports_state_of :: "stable_plan \<Rightarrow> plan_match \<Rightarrow> bool" where
  "reports_state_of plan input \<longleftrightarrow>
     normalizedHash (Some (in_localStateSignature input)) = normalizedHash (Some (localStateSignature plan)) \<and>
     (\<forall>name \<in> fst ` set (stateSignatures plan).
        normalizedHash (map_get (in_stateSignatures input) name)
        = normalizedHash (map_get (stateSignatures plan) name)) \<and>
     (in_agentVersion input, in_agentBootId input, in_defaultNetworkInterface input)
       = (agentVersion plan, agentBootId plan, defaultNetworkInterface plan) \<and>
     or_zero (in_agentProcessStartedAt input) = agentProcessStartedAt plan \<and>
     (in_pluginInventorySignature input, in_mimicEnvironmentSignature input)
       = (pluginInventorySignature plan, mimicEnvironmentSignature plan) \<and>
     {or_zero (agentLastReceivedRevision input), or_zero (agentLastAppliedRevision input)}
       = {configRevision plan} \<and>
     {normalizedHash (Some (agentLastReceivedHash input)), normalizedHash (Some (agentLastAppliedHash input))}
       = {normalizedHash (Some (desiredStateHash plan))}"

lemma signaturesMatch_iff:
  "signaturesMatch e a \<longleftrightarrow> 0 < length e \<and>
     (\<forall>name \<in> fst ` set e. normalizedHash (map_get a name) = normalizedHash (map_get e name))"
  by (auto simp: signaturesMatch_def list_all_iff)

lemma stored_plan_agrees:
  assumes "stateSignatures plan \<noteq> []"
  shows "(\<not> state_differs (stored_plan plan) input \<and> \<not> revision_differs (stored_plan plan) input) =
     reports_state_of plan input"
  using assms
  by (simp add: state_differs_def revision_differs_def reports_state_of_def stored_plan_def
      signaturesMatch_iff doubleton_eq_iff) blast

lemma match_stored_plan:
  assumes "id_of v = Some hostId" and "map_get (plans c) hostId = Some (stored_plan plan)"
    and "stateSignatures plan \<noteq> []"
  shows "match_plan now v input c =
     (if now < plannedAt plan + auditIntervalMs c \<and> \<not> plan_blocked input \<and> reports_state_of plan input
      then Some (stored_plan plan) else None)"
proof -
  have "plannedAt (stored_plan plan) = plannedAt plan" by (simp add: stored_plan_def)
  then show ?thesis
    using assms(1,2) stored_plan_agrees [OF assms(3), of input] by (auto simp: match_plan_def)
qed

text \<open>
  a host is answered from its remembered plan exactly while that plan is current. After a
  plan was remembered for a host, and whatever is remembered and invalidated for other hosts
  meanwhile, a heartbeat gets that plan back if and only if the audit interval has not run out,
  nothing demands a new plan, and the host reports the state of the plan in every field; once
  the host or everything is invalidated, it gets none.
\<close>

theorem stable_plan_current:
  assumes v: "id_of v = Some hostId" and kept: "fst (remember_plan v plan c)"
    and others: "list_all (spares hostId) ops"
  shows "let c' = fold plan_step ops (snd (remember_plan v plan c)) in
     match_plan now v input c' =
       (if now < plannedAt plan + auditIntervalMs c \<and> \<not> plan_blocked input \<and> reports_state_of plan input
        then Some (stored_plan plan) else None) \<and>
     match_plan now v input (invalidate_plan (Some v) c') = None \<and>
     match_plan now v input (invalidate_plan None c') = None"
proof -
  let ?c = "snd (remember_plan v plan c)"
  have sig: "stateSignatures plan \<noteq> []" and c: "?c = c\<lparr>plans := map_set hostId (stored_plan plan) (plans c)\<rparr>"
    using v kept by (auto simp: remember_plan_def split: if_splits)
  have "map_get (plans (fold plan_step ops ?c)) hostId = Some (stored_plan plan)"
    using plan_run_spares [OF others] by (simp add: c map_get_set)
  moreover have "auditIntervalMs (fold plan_step ops ?c) = auditIntervalMs c" by (simp add: c)
  moreover have "match_plan now v input (invalidate_plan (Some v) c') = None" for c'
    using id_of_SomeD [OF v] v by (simp add: match_plan_def invalidate_plan_def map_get_delete)
  moreover have "match_plan now v input (invalidate_plan None c') = None" for c'
    by (simp add: match_plan_def invalidate_plan_def split: option.split)
  ultimately show ?thesis
    using match_stored_plan [OF v _ sig] by (simp add: Let_def)
qed

definition sample_plan :: stable_plan where
  "sample_plan = \<lparr>plannedAt = 1000, configRevision = num 7, desiredStateHash = ''Ab'',
     localStateSignature = ''c'', stateSignatures = [(''rules'', ''d'')], agentVersion = ''1'',
     agentBootId = ''b'', agentProcessStartedAt = num 5, defaultNetworkInterface = ''eth0'',
     pluginInventorySignature = [], mimicEnvironmentSignature = [], idleNextInterval = 60,
     plan_panelUrl = ''u''\<rparr>"

definition sample_match :: plan_match where
  "sample_match = \<lparr>forceReconcile = False, hasBlockingWork = False, recoveryTriggered = False,
     addressChanged = False, hasDnsChanges = False, hasLocalStateUpload = False, hasEndpointEvents = False,
     in_localStateSignature = ''C '', in_stateSignatures = [(''rules'', ''D'')], in_agentVersion = ''1'',
     in_agentBootId = ''b'', in_agentProcessStartedAt = num 5, in_defaultNetworkInterface = ''eth0'',
     in_pluginInventorySignature = [], in_mimicEnvironmentSignature = [],
     agentLastReceivedRevision = num 7, agentLastAppliedRevision = num 7,
     agentLastReceivedHash = ''aB'', agentLastAppliedHash = '' AB''\<rparr>"

lemma stable_plan_current_witness:
  "let c' = fold plan_step [Invalidate (Some (JNum (num 4)))]
         (snd (remember_plan (JNum (num 3)) sample_plan \<lparr>auditIntervalMs = 500, plans = []\<rparr>)) in
     match_plan 1200 (JNum (num 3)) sample_match c' =
       (if 1200 < plannedAt sample_plan + auditIntervalMs \<lparr>auditIntervalMs = 500, plans = []\<rparr>
          \<and> \<not> plan_blocked sample_match \<and> reports_state_of sample_plan sample_match
        then Some (stored_plan sample_plan) else None) \<and>
     match_plan 1200 (JNum (num 3)) sample_match (invalidate_plan (Some (JNum (num 3))) c') = None \<and>
     match_plan 1200 (JNum (num 3)) sample_match (invalidate_plan None c') = None"
  by (rule stable_plan_current [where hostId = 3]) (code_simp+)

text \<open>The sample is answered from the cache.\<close>

lemma sample_plan_matches:
  "match_plan 1200 (JNum (num 3)) sample_match
     (snd (remember_plan (JNum (num 3)) sample_plan \<lparr>auditIntervalMs = 500, plans = []\<rparr>)) =
   Some (stored_plan sample_plan)"
  by code_simp

end
