(* ===== verification/Tunnel_Auto_Latency.thy ===== *)
theory Tunnel_Auto_Latency
  imports Prelude
begin

text \<open>
  \<open>server/tunnelAutoLatencyState.ts\<close>: agents report the latency of single hops of a tunnel;
  when every hop of the current generation has a fresh sample the panel forms the latency and
  the packet counters of the whole path. The module variable \<open>byTunnel\<close> is the state; the
  inner maps are only reached through it, so an update of the variable \<open>hops\<close> is an update of
  the entry. Latencies are finite numbers or \<open>null\<close>. The text of a fractional tunnel id is not
  modelled (see \<open>js_string\<close>), its state has the key of such an id.
\<close>

section \<open>Probe counters\<close>

type_synonym counts = "int \<times> int"

definition normalizeProbeCounts :: "jsval \<Rightarrow> jsval \<Rightarrow> bool \<Rightarrow> counts" where
  "normalizeProbeCounts count successes isTimeout =
     (let probeCount = (case js_integer (to_number count) of
            Some n \<Rightarrow> if 1 \<le> n \<and> n \<le> 1024 then n else 1 | None \<Rightarrow> 1);
          assumed = (if isTimeout then 0 else probeCount);
          probeSuccesses = (if successes = JUndef \<or> successes = JNull then assumed
            else case js_integer (to_number successes) of Some n \<Rightarrow> n | None \<Rightarrow> assumed)
      in (probeCount, max 0 (min probeCount probeSuccesses)))"

text \<open>\<open>Math.max(1, result.probeCount || 1)\<close> and the ratio of one sample.\<close>

definition sample_count :: "counts \<Rightarrow> int" where
  "sample_count c = max 1 (if fst c = 0 then 1 else fst c)"

definition sample_ratio :: "counts \<Rightarrow> rat" where
  "sample_ratio c = of_int (max 0 (min (sample_count c) (snd c))) / of_int (sample_count c)"

definition aggregateProbeCounts :: "counts list \<Rightarrow> counts" where
  "aggregateProbeCounts results =
     (if results = [] then (1, 0)
      else
        let probeCount = fold max (map sample_count results) 1;
            successRatio = fold min (map sample_ratio (tl results)) (sample_ratio (hd results))
        in (probeCount,
            max 0 (min probeCount \<lfloor>successRatio * of_int probeCount + 1 / 1000000000\<rfloor>)))"

section \<open>The samples of a tunnel\<close>

record auto_hop =
  ah_hopIndex :: rat
  ah_hopCount :: rat
  ah_generation :: string
  ah_fromHostId :: "int option"
  ah_toHostId :: "int option"
  ah_latencyMs :: "rat option"
  ah_isTimeout :: bool
  ah_counts :: counts
  ah_recordedAt :: int

type_synonym hop_samples = "(rat, auto_hop) jsmap"
type_synonym tunnels = "(string, hop_samples) jsmap"

record path_aggregate =
  pa_success :: bool
  pa_latencyMs :: "rat option"
  pa_counts :: "counts option"

definition AUTO_HOP_TTL_MS :: int where
  "AUTO_HOP_TTL_MS = 6 * 60 * 1000"

definition attachAggregateProbeCounts :: "bool \<Rightarrow> rat option \<Rightarrow> auto_hop list \<Rightarrow> path_aggregate" where
  "attachAggregateProbeCounts success latency results =
     (let counts = aggregateProbeCounts (map ah_counts results)
      in \<lparr>pa_success = success, pa_latencyMs = latency,
          pa_counts = (if counts = (1, if success then 1 else 0) then None else Some counts)\<rparr>)"

text \<open>\<open>value || fallback\<close> on texts.\<close>

definition text_or :: "string option \<Rightarrow> string \<Rightarrow> string" where
  "text_or v fallback = (case v of None \<Rightarrow> fallback | Some s \<Rightarrow> if s = [] then fallback else s)"

definition tunnelPathStateKey :: "jsnum \<Rightarrow> string option \<Rightarrow> string" where
  "tunnelPathStateKey tunnelId pathKey =
     js_string (JNum tunnelId) @ '':'' @
       text_or (Some (js_lower (js_trim (text_or pathKey ''default'')))) ''default''"

definition startsWith :: "string \<Rightarrow> string \<Rightarrow> bool" where
  "startsWith p s \<longleftrightarrow> take (length p) s = p"

definition clearTunnelAutoHopLatencyState :: "jsnum \<Rightarrow> tunnels \<Rightarrow> tunnels" where
  "clearTunnelAutoHopLatencyState tunnelId byTunnel =
     (case positive_int tunnelId of
        None \<Rightarrow> byTunnel
      | Some _ \<Rightarrow>
          filter (\<lambda>(key, _). \<not> startsWith (js_string (JNum tunnelId) @ '':'') key) byTunnel)"

definition hop_current :: "rat \<Rightarrow> string \<Rightarrow> int \<Rightarrow> auto_hop \<Rightarrow> bool" where
  "hop_current hopCount generation now r \<longleftrightarrow>
     ah_hopCount r = hopCount \<and> ah_generation r = generation \<and> now - ah_recordedAt r \<le> AUTO_HOP_TTL_MS"

definition cleanupTunnelHopResults :: "string \<Rightarrow> rat \<Rightarrow> string \<Rightarrow> int \<Rightarrow> tunnels \<Rightarrow> tunnels" where
  "cleanupTunnelHopResults stateKey hopCount generation now byTunnel =
     (case map_get byTunnel stateKey of
        None \<Rightarrow> byTunnel
      | Some hops \<Rightarrow>
          (let hops' = filter (\<lambda>(idx, r). idx < hopCount \<and> hop_current hopCount generation now r) hops
           in if hops' = [] then map_delete stateKey byTunnel else map_set stateKey hops' byTunnel))"

definition no_latency :: "auto_hop \<Rightarrow> bool" where
  "no_latency r = (case ah_latencyMs r of None \<Rightarrow> True | Some l \<Rightarrow> l \<le> 0)"

definition latency_or_zero :: "auto_hop \<Rightarrow> rat" where
  "latency_or_zero r = (case ah_latencyMs r of None \<Rightarrow> 0 | Some l \<Rightarrow> l)"

definition hop_succeeded :: "auto_hop \<Rightarrow> bool" where
  "hop_succeeded r \<longleftrightarrow> snd (ah_counts r) > 0 \<and> latency_or_zero r > 0"

text \<open>The loop \<open>for (let i = 0; i < hopCount; i++)\<close>, which gives up at the first missing sample.\<close>

fun collect_hops :: "('i \<Rightarrow> 'r option) \<Rightarrow> ('r \<Rightarrow> bool) \<Rightarrow> 'i list \<Rightarrow> 'r list option" where
  "collect_hops hop ok [] = Some []"
| "collect_hops hop ok (i # is) =
     (case hop i of
        None \<Rightarrow> None
      | Some r \<Rightarrow> if ok r then map_option ((#) r) (collect_hops hop ok is) else None)"

definition hop_indices :: "rat \<Rightarrow> rat list" where
  "hop_indices hopCount = map of_nat [0..<nat \<lceil>hopCount\<rceil>]"

definition aggregateTunnelHopResults ::
  "string \<Rightarrow> rat \<Rightarrow> string \<Rightarrow> int \<Rightarrow> bool \<Rightarrow> tunnels \<Rightarrow> path_aggregate option \<times> tunnels" where
  "aggregateTunnelHopResults stateKey hopCount generation now allowEarlyFailure byTunnel0 =
     (let byTunnel = cleanupTunnelHopResults stateKey hopCount generation now byTunnel0 in
      case map_get byTunnel stateKey of
        None \<Rightarrow> (None, byTunnel)
      | Some hops \<Rightarrow>
          if allowEarlyFailure \<and>
             list_ex (\<lambda>(_, r). ah_generation r = generation
               \<and> now - ah_recordedAt r \<le> AUTO_HOP_TTL_MS
               \<and> (snd (ah_counts r) \<le> 0 \<or> no_latency r)) hops
          then (Some (attachAggregateProbeCounts False None (map snd hops)), byTunnel)
          else
            (case collect_hops (map_get hops) (hop_current hopCount generation now) (hop_indices hopCount) of
               None \<Rightarrow> (None, byTunnel)
             | Some results \<Rightarrow>
                 (let counts = aggregateProbeCounts (map ah_counts results);
                      successful = (snd counts > 0 \<and> list_all hop_succeeded results)
                  in (Some (attachAggregateProbeCounts successful
                        (if successful then Some (sum_list (map latency_or_zero results)) else None) results),
                      byTunnel))))"

record hop_report =
  hr_tunnelId :: jsnum
  hr_hopIndex :: jsnum
  hr_hopCount :: jsnum
  hr_latencyMs :: "rat option"
  hr_isTimeout :: bool
  hr_generation :: "string option"
  hr_pathKey :: "string option"
  hr_allowEarlyFailure :: bool
  hr_fromHostId :: jsval
  hr_toHostId :: jsval
  hr_probeCount :: jsval
  hr_probeSuccesses :: jsval

definition legacy_generation :: "rat \<Rightarrow> string" where
  "legacy_generation hopCount = ''legacy:'' @ js_string (JNum (Fin hopCount))"

definition report_generation :: "string option \<Rightarrow> rat \<Rightarrow> string" where
  "report_generation generation hopCount = take 1024 (text_or generation (legacy_generation hopCount))"

definition finite_positive :: "jsnum \<Rightarrow> rat option" where
  "finite_positive n = (case js_finite n of None \<Rightarrow> None | Some q \<Rightarrow> if 0 < q then Some q else None)"

definition report_sample :: "hop_report \<Rightarrow> rat \<Rightarrow> rat \<Rightarrow> string \<Rightarrow> int \<Rightarrow> auto_hop" where
  "report_sample input hopIndex hopCount generation now =
     \<lparr>ah_hopIndex = hopIndex, ah_hopCount = hopCount, ah_generation = generation,
      ah_fromHostId = id_of (hr_fromHostId input), ah_toHostId = id_of (hr_toHostId input),
      ah_latencyMs = hr_latencyMs input, ah_isTimeout = hr_isTimeout input,
      ah_counts = normalizeProbeCounts (hr_probeCount input) (hr_probeSuccesses input) (hr_isTimeout input),
      ah_recordedAt = now\<rparr>"

definition recordTunnelAutoHopLatency ::
  "int \<Rightarrow> hop_report \<Rightarrow> tunnels \<Rightarrow> path_aggregate option \<times> tunnels" where
  "recordTunnelAutoHopLatency now input byTunnel =
     (case (finite_positive (hr_tunnelId input), js_finite (hr_hopIndex input), finite_positive (hr_hopCount input)) of
        (Some _, Some hopIndex, Some hopCount) \<Rightarrow>
          if hopIndex < 0 \<or> hopIndex \<ge> hopCount then (None, byTunnel)
          else
            (let generation = report_generation (hr_generation input) hopCount;
                 stateKey = tunnelPathStateKey (hr_tunnelId input) (hr_pathKey input);
                 hops = (case map_get byTunnel stateKey of None \<Rightarrow> [] | Some h \<Rightarrow> h);
                 kept = filter (\<lambda>(_, r). hop_current hopCount generation now r) hops;
                 hops' = map_set hopIndex (report_sample input hopIndex hopCount generation now) kept
             in aggregateTunnelHopResults stateKey hopCount generation now (hr_allowEarlyFailure input)
                  (map_set stateKey hops' byTunnel))
      | _ \<Rightarrow> (None, byTunnel))"

definition getTunnelAutoHopAggregate ::
  "int \<Rightarrow> jsnum \<Rightarrow> jsnum \<Rightarrow> string option \<Rightarrow> string option \<Rightarrow> bool \<Rightarrow> tunnels
     \<Rightarrow> path_aggregate option \<times> tunnels" where
  "getTunnelAutoHopAggregate now tunnelId hopCount generation pathKey allowEarlyFailure byTunnel =
     (case (finite_positive tunnelId, finite_positive hopCount) of
        (Some _, Some count) \<Rightarrow>
          (let stateKey = tunnelPathStateKey tunnelId pathKey;
               first = Option.bind (map_get byTunnel stateKey) (\<lambda>hops. map_get hops 0);
               activeGeneration =
                 text_or generation (text_or (map_option ah_generation first) (legacy_generation count))
           in aggregateTunnelHopResults stateKey count activeGeneration now allowEarlyFailure byTunnel)
      | _ \<Rightarrow> (None, byTunnel))"

record hop_detail =
  hd_hopIndex :: rat
  hd_hopCount :: rat
  hd_fromHostId :: "int option"
  hd_toHostId :: "int option"
  hd_latencyMs :: "rat option"
  hd_isTimeout :: bool
  hd_recordedAt :: int
  hd_counts :: "counts option"

definition auto_detail :: "auto_hop \<Rightarrow> hop_detail" where
  "auto_detail r =
     \<lparr>hd_hopIndex = ah_hopIndex r, hd_hopCount = ah_hopCount r, hd_fromHostId = ah_fromHostId r,
      hd_toHostId = ah_toHostId r, hd_latencyMs = ah_latencyMs r, hd_isTimeout = ah_isTimeout r,
      hd_recordedAt = ah_recordedAt r,
      hd_counts = (if ah_counts r \<noteq> (1, if ah_isTimeout r then 0 else 1) then Some (ah_counts r) else None)\<rparr>"

text \<open>\<open>Math.max(1000, Number(maxAgeMs || AUTO_HOP_TTL_MS))\<close>.\<close>

definition max_age :: "rat option \<Rightarrow> int \<Rightarrow> rat" where
  "max_age maxAgeMs fallback =
     max 1000 (case maxAgeMs of None \<Rightarrow> of_int fallback | Some a \<Rightarrow> if a = 0 then of_int fallback else a)"

definition detail_fresh :: "rat \<Rightarrow> string \<Rightarrow> int \<Rightarrow> rat \<Rightarrow> rat \<Rightarrow> auto_hop \<Rightarrow> bool" where
  "detail_fresh hopCount generation now referenceAt maxAgeMs r \<longleftrightarrow>
     ah_hopCount r = hopCount \<and> ah_generation r = generation
     \<and> of_int (now - ah_recordedAt r) \<le> maxAgeMs
     \<and> \<not> (referenceAt > 0 \<and> \<bar>of_int (ah_recordedAt r) - referenceAt\<bar> > 30000)"

definition getTunnelAutoHopDetails ::
  "int \<Rightarrow> jsnum \<Rightarrow> jsnum \<Rightarrow> string option \<Rightarrow> string option \<Rightarrow> rat \<Rightarrow> rat option \<Rightarrow> tunnels
     \<Rightarrow> hop_detail list option \<times> tunnels" where
  "getTunnelAutoHopDetails now tunnelId hopCount generation pathKey referenceAt maxAgeMs byTunnel0 =
     (case (positive_int tunnelId, positive_int hopCount) of
        (Some _, Some n) \<Rightarrow>
          (let stateKey = tunnelPathStateKey tunnelId pathKey; count = of_int n in
           case map_get byTunnel0 stateKey of
             None \<Rightarrow> (None, byTunnel0)
           | Some hops0 \<Rightarrow>
               (let generation' = take 1024 (text_or generation
                      (text_or (map_option ah_generation (map_get hops0 0)) (legacy_generation count)));
                    byTunnel = cleanupTunnelHopResults stateKey count generation' now byTunnel0
                in case map_get byTunnel stateKey of
                     None \<Rightarrow> (None, byTunnel)
                   | Some refreshed \<Rightarrow>
                       (map_option (map auto_detail)
                          (collect_hops (map_get refreshed)
                             (detail_fresh count generation' now referenceAt (max_age maxAgeMs AUTO_HOP_TTL_MS))
                             (hop_indices count)),
                        byTunnel)))
      | _ \<Rightarrow> (None, byTunnel0))"

section \<open>Counters of a path\<close>

text \<open>Counters as \<open>normalizeProbeCounts\<close> leaves them.\<close>

definition valid_counts :: "counts \<Rightarrow> bool" where
  "valid_counts c \<longleftrightarrow> 1 \<le> fst c \<and> fst c \<le> 1024 \<and> 0 \<le> snd c \<and> snd c \<le> fst c"

lemma normalizeProbeCounts_valid: "valid_counts (normalizeProbeCounts n s t)"
  by (auto simp: normalizeProbeCounts_def valid_counts_def Let_def split: option.splits)

lemma valid_sample [simp]:
  "valid_counts c \<Longrightarrow> sample_count c = fst c"
  "valid_counts c \<Longrightarrow> sample_ratio c = of_int (snd c) / of_int (fst c)"
  by (auto simp: valid_counts_def sample_count_def sample_ratio_def max_def min_def)

lemma fold_max_Max: "fold max xs (a::'a::linorder) = Max (insert a (set xs))"
  by (metis Max.set_eq_fold fold_simps(2) list.simps(15) max.commute)

lemma fold_min_Min: "fold min xs (a::'a::linorder) = Min (insert a (set xs))"
  by (metis Min.set_eq_fold list.simps(15))

text \<open>
  The summand \<open>1e-9\<close> that the code adds against rounding changes nothing: a ratio \<open>a / b\<close> of
  counters up to 1024, taken of \<open>n\<close> attempts, is an integer or at least \<open>1 / 1024\<close> below the
  next one.
\<close>

lemma floor_ratio:
  assumes "1 \<le> b" and "b \<le> 1024"
  shows "\<lfloor>rat_of_int a / of_int b * of_int n + 1 / 1000000000\<rfloor> = a * n div b"
proof -
  let ?q = "a * n div b" and ?r = "a * n mod b"
  have b: "(0::rat) < of_int b" using assms(1) by simp
  have "a * n = b * ?q + ?r" by simp
  then have "rat_of_int (a * n) = of_int b * of_int ?q + of_int ?r" by (metis of_int_add of_int_mult)
  then have eq: "rat_of_int a / of_int b * of_int n = of_int ?q + of_int ?r / of_int b"
    using b by (simp add: field_simps)
  have "?r + 1 \<le> b" "0 \<le> ?r" using assms(1) by (simp_all add: add1_zle_eq)
  then have "rat_of_int (?r + 1) \<le> of_int b" "(0::rat) \<le> of_int ?r" by (simp_all only: of_int_le_iff of_int_0_le_iff)
  then have r: "rat_of_int ?r / of_int b \<le> 1 - 1 / of_int b" "0 \<le> rat_of_int ?r / of_int b"
    using b by (simp_all add: field_simps)
  have "rat_of_int b \<le> 1024" using assms(2) by simp
  then have "1 / 1024 \<le> 1 / rat_of_int b" using b by (simp add: field_simps)
  then have "rat_of_int ?r / of_int b + 1 / 1000000000 < 1" using r(1) by linarith
  then show ?thesis unfolding eq using r(2) by (intro floor_unique) linarith+
qed

lemma Min_ratio:
  assumes "cs \<noteq> []" and "\<forall>c \<in> set cs. valid_counts c"
  obtains c where "c \<in> set cs" "fold min (map sample_ratio (tl cs)) (sample_ratio (hd cs)) = sample_ratio c"
    and "\<forall>d \<in> set cs. sample_ratio c \<le> sample_ratio d"
proof -
  have set: "insert (sample_ratio (hd cs)) (set (map sample_ratio (tl cs))) = sample_ratio ` set cs"
    using assms(1) by (cases cs) auto
  have "Min (sample_ratio ` set cs) \<in> sample_ratio ` set cs" using assms(1) by (intro Min_in) auto
  then obtain c where "c \<in> set cs" "Min (sample_ratio ` set cs) = sample_ratio c" by auto
  moreover from this have "\<forall>d \<in> set cs. sample_ratio c \<le> sample_ratio d"
    by (metis List.finite_set Min_le finite_imageI imageI)
  ultimately show thesis using that set by (metis fold_min_Min)
qed

lemma ratio_div_mono:
  assumes "valid_counts c" and "valid_counts d" and "sample_ratio c \<le> sample_ratio d" and "0 \<le> n"
  shows "snd c * n div fst c \<le> snd d * n div fst d"
proof -
  have "rat_of_int (snd c) / of_int (fst c) * of_int n \<le> of_int (snd d) / of_int (fst d) * of_int n"
    using assms by (intro mult_right_mono) auto
  then have "\<lfloor>rat_of_int (snd c) / of_int (fst c) * of_int n + 1 / 1000000000\<rfloor>
      \<le> \<lfloor>rat_of_int (snd d) / of_int (fst d) * of_int n + 1 / 1000000000\<rfloor>"
    by (intro floor_mono) simp
  then show ?thesis
    using assms(1,2) floor_ratio [of "fst c" "snd c" n] floor_ratio [of "fst d" "snd d" n]
    by (simp add: valid_counts_def)
qed

lemma aggregate_counts_exact:
  assumes "cs \<noteq> []" and "\<forall>c \<in> set cs. valid_counts c"
  shows "aggregateProbeCounts cs =
     (let n = Max (fst ` set cs) in (n, Min ((\<lambda>c. snd c * n div fst c) ` set cs)))"
proof -
  define n where "n = Max (fst ` set cs)"
  have mem: "n \<in> fst ` set cs" using assms(1) by (auto simp: n_def)
  then have n1: "1 \<le> n" using assms(2) by (auto simp: valid_counts_def)
  have "map sample_count cs = map fst cs" using assms(2) by simp
  then have "fold max (map sample_count cs) 1 = Max (insert 1 (fst ` set cs))" by (simp add: fold_max_Max)
  also have "\<dots> = n" using n1 assms(1) by (simp add: n_def Max_insert)
  finally have count: "fold max (map sample_count cs) 1 = n" .
  obtain c where c: "c \<in> set cs" "fold min (map sample_ratio (tl cs)) (sample_ratio (hd cs)) = sample_ratio c"
    "\<forall>d \<in> set cs. sample_ratio c \<le> sample_ratio d" by (rule Min_ratio [OF assms])
  then have vc: "valid_counts c" using assms(2) by blast
  have "Min ((\<lambda>c. snd c * n div fst c) ` set cs) = snd c * n div fst c"
    using c assms(2) vc n1 by (intro Min_eqI) (auto intro!: ratio_div_mono)
  moreover have "0 \<le> snd c * n div fst c" "snd c * n div fst c \<le> n"
  proof -
    have "snd c * n \<le> fst c * n" using vc n1 by (simp add: valid_counts_def mult_right_mono)
    then have "snd c * n div fst c \<le> fst c * n div fst c" using vc by (intro zdiv_mono1) (auto simp: valid_counts_def)
    then show "snd c * n div fst c \<le> n" using vc by (simp add: valid_counts_def)
    show "0 \<le> snd c * n div fst c" using vc n1 by (simp add: valid_counts_def pos_imp_zdiv_nonneg_iff)
  qed
  moreover have "\<lfloor>sample_ratio c * of_int n + 1 / 1000000000\<rfloor> = snd c * n div fst c"
    using vc floor_ratio [of "fst c" "snd c" n] by (simp add: valid_counts_def)
  ultimately show ?thesis
    using assms(1) by (simp add: aggregateProbeCounts_def Let_def count c(2) flip: n_def)
qed

text \<open>
  the counters of a path are exact and conservative. For samples whose counters are as the
  panel normalises them, the attempts of the path are those of the hop with the most attempts,
  and its successes are the worst hop's share of them, rounded down in integer arithmetic: the
  correction the code adds against rounding never changes the result, and no hop succeeded less
  often than the path is said to.
\<close>

theorem path_counts_exact:
  assumes "0 < length reports"
  shows "let cs = map (\<lambda>(n, s, t). normalizeProbeCounts n s t) reports;
             n = Max (fst ` set cs); s = Min ((\<lambda>c. snd c * n div fst c) ` set cs) in
     aggregateProbeCounts cs = (n, s) \<and> 1 \<le> n \<and> n \<le> 1024 \<and> 0 \<le> s \<and> s \<le> n \<and>
     list_all (\<lambda>c. s * fst c \<le> snd c * n) cs"
proof -
  define cs where "cs = map (\<lambda>(n, s, t). normalizeProbeCounts n s t) reports"
  define n where "n = Max (fst ` set cs)"
  define s where "s = Min ((\<lambda>c. snd c * n div fst c) ` set cs)"
  have ne: "cs \<noteq> []" and valid: "\<forall>c \<in> set cs. valid_counts c"
    using assms by (auto simp: cs_def normalizeProbeCounts_valid)
  have "n \<in> fst ` set cs" using ne by (auto simp: n_def)
  then have n: "1 \<le> n" "n \<le> 1024" using valid by (auto simp: valid_counts_def)
  have le: "s * fst c \<le> snd c * n" if "c \<in> set cs" for c
  proof -
    have "s \<le> snd c * n div fst c" using that by (simp add: s_def)
    then have "s * fst c \<le> (snd c * n div fst c) * fst c"
      using valid that by (intro mult_right_mono) (auto simp: valid_counts_def)
    also have "\<dots> \<le> snd c * n"
    proof -
      have "0 < fst c" using valid that by (auto simp: valid_counts_def)
      then show ?thesis using pos_mod_sign [of "fst c" "snd c * n"] by (simp add: minus_mod_eq_div_mult [symmetric])
    qed
    finally show ?thesis .
  qed
  have agg: "aggregateProbeCounts cs = (n, s)"
    using aggregate_counts_exact [OF ne valid] by (simp add: Let_def n_def s_def)
  then have "s = max 0 (min n \<lfloor>fold min (map sample_ratio (tl cs)) (sample_ratio (hd cs)) * of_int n + 1 / 1000000000\<rfloor>)"
    using ne by (auto simp: aggregateProbeCounts_def Let_def)
  then have "0 \<le> s" "s \<le> n" using n by linarith+
  then show ?thesis
    using agg n le by (simp add: Let_def list_all_iff flip: cs_def n_def s_def)
qed

lemma path_counts_exact_witness:
  "let cs = map (\<lambda>(n, s, t). normalizeProbeCounts n s t)
         [(JNum (num 3), JNum (num 2), False), (JNum (num 5), JUndef, False)];
       n = Max (fst ` set cs); s = Min ((\<lambda>c. snd c * n div fst c) ` set cs) in
     aggregateProbeCounts cs = (n, s) \<and> 1 \<le> n \<and> n \<le> 1024 \<and> 0 \<le> s \<and> s \<le> n \<and>
     list_all (\<lambda>c. s * fst c \<le> snd c * n) cs"
  by (rule path_counts_exact) simp


section \<open>What a path shows\<close>

definition wf_tunnels :: "tunnels \<Rightarrow> bool" where
  "wf_tunnels s \<longleftrightarrow> wf_map s \<and> (\<forall>key hops. map_get s key = Some hops \<longrightarrow> wf_map hops)"

text \<open>The sample of a hop that counts for a path with this number of hops and generation.\<close>

definition visible :: "tunnels \<Rightarrow> string \<Rightarrow> rat \<Rightarrow> string \<Rightarrow> int \<Rightarrow> rat \<Rightarrow> auto_hop option" where
  "visible s key n g now idx =
     (case map_get s key of
        None \<Rightarrow> None
      | Some hops \<Rightarrow>
          (case map_get hops idx of
             None \<Rightarrow> None
           | Some r \<Rightarrow> if idx < n \<and> hop_current n g now r then Some r else None))"

lemma hop_current_mono: "hop_current n g now r \<Longrightarrow> t \<le> now \<Longrightarrow> hop_current n g t r"
  by (simp add: hop_current_def)

lemma hop_current_same: "hop_current n g t r \<Longrightarrow> hop_current n' g' t' r \<Longrightarrow> n' = n \<and> g' = g"
  by (simp add: hop_current_def)

lemma wf_cleanup: "wf_tunnels s \<Longrightarrow> wf_tunnels (cleanupTunnelHopResults key n g t s)"
  by (auto simp: cleanupTunnelHopResults_def wf_tunnels_def Let_def map_get_set map_get_delete split: option.split)

lemma visible_cleanup:
  assumes "wf_tunnels s" and "t \<le> now"
  shows "visible (cleanupTunnelHopResults key n g t s) key' n' g' now idx =
    (if key' = key \<and> (n', g') \<noteq> (n, g) then None else visible s key' n' g' now idx)"
proof (cases "map_get s key")
  case None
  then show ?thesis by (simp add: cleanupTunnelHopResults_def visible_def)
next
  case (Some hops)
  let ?hops = "filter (\<lambda>(idx, r). idx < n \<and> hop_current n g t r) hops"
  have get: "map_get ?hops idx = (case map_get hops idx of None \<Rightarrow> None
      | Some r \<Rightarrow> if idx < n \<and> hop_current n g t r then Some r else None)"
    using assms(1) Some by (auto simp: map_get_filter wf_tunnels_def split: option.split)
  have "map_get ?hops idx = None" if "?hops = []" using that by simp
  then show ?thesis
    using Some get hop_current_mono [OF _ assms(2), of n g] hop_current_same [of n g t _ n' g' now]
    by (auto simp: cleanupTunnelHopResults_def visible_def Let_def map_get_set map_get_delete split: option.splits)
qed

definition path_result :: "auto_hop list \<Rightarrow> path_aggregate" where
  "path_result results =
     (let ok = snd (aggregateProbeCounts (map ah_counts results)) > 0 \<and> list_all hop_succeeded results
      in attachAggregateProbeCounts ok (if ok then Some (sum_list (map latency_or_zero results)) else None) results)"

lemma collect_hops_cong:
  "(\<And>i. i \<in> set is \<Longrightarrow> (case hop i of None \<Rightarrow> None | Some r \<Rightarrow> if ok r then Some r else None) = hop' i) \<Longrightarrow>
   collect_hops hop ok is = collect_hops hop' (\<lambda>_. True) is"
proof (induction "is")
  case (Cons i "is")
  have "collect_hops hop ok is = collect_hops hop' (\<lambda>_. True) is" by (rule Cons.IH) (simp add: Cons.prems)
  moreover have "(case hop i of None \<Rightarrow> None | Some r \<Rightarrow> if ok r then Some r else None) = hop' i"
    by (rule Cons.prems) simp
  ultimately show ?case by (auto split: option.splits if_splits)
qed simp

lemma collect_all:
  "collect_hops hop (\<lambda>_. True) is = (if \<exists>i \<in> set is. hop i = None then None else Some (map (the \<circ> hop) is))"
  by (induction "is") (auto split: option.splits)

lemma hop_indices_bound: "i \<in> set (hop_indices n) \<Longrightarrow> i < n"
  by (auto simp: hop_indices_def less_ceiling_iff zless_nat_eq_int_zless)

lemma hop_indices_nonempty: "0 < n \<Longrightarrow> hop_indices n \<noteq> []"
  by (simp add: hop_indices_def)

lemma aggregate_reads:
  assumes "wf_tunnels s" and "0 < n"
  shows "fst (aggregateTunnelHopResults key n g now False s) =
    map_option path_result (collect_hops (visible s key n g now) (\<lambda>_. True) (hop_indices n))"
proof -
  let ?s = "cleanupTunnelHopResults key n g now s"
  have vis: "visible ?s key n g now = visible s key n g now"
    by (rule ext) (simp add: visible_cleanup [OF assms(1)])
  show ?thesis
  proof (cases "map_get ?s key")
    case None
    then have "visible ?s key n g now i = None" for i by (simp add: visible_def)
    then have "collect_hops (visible s key n g now) (\<lambda>_. True) (hop_indices n) = None"
      using hop_indices_nonempty [OF assms(2)] vis by (cases "hop_indices n") simp_all
    then show ?thesis using None by (simp add: aggregateTunnelHopResults_def Let_def)
  next
    case (Some hops)
    have "collect_hops (map_get hops) (hop_current n g now) (hop_indices n) =
        collect_hops (visible s key n g now) (\<lambda>_. True) (hop_indices n)"
      by (rule collect_hops_cong)
        (simp add: Some vis [symmetric] visible_def hop_indices_bound split: option.split)
    then show ?thesis
      using Some by (simp add: aggregateTunnelHopResults_def path_result_def Let_def split: option.split)
  qed
qed

lemma snd_aggregate:
  "snd (aggregateTunnelHopResults key n g now early s) = cleanupTunnelHopResults key n g now s"
  by (simp add: aggregateTunnelHopResults_def Let_def split: option.split)

section \<open>The history of reports\<close>

text \<open>The hop and the number of hops of a report that is accepted.\<close>

definition report_hop :: "hop_report \<Rightarrow> (rat \<times> rat) option" where
  "report_hop input =
     (case (finite_positive (hr_tunnelId input), js_finite (hr_hopIndex input), finite_positive (hr_hopCount input)) of
        (Some _, Some i, Some n) \<Rightarrow> if i < 0 \<or> i \<ge> n then None else Some (i, n)
      | _ \<Rightarrow> None)"

abbreviation report_key :: "hop_report \<Rightarrow> string" where
  "report_key input \<equiv> tunnelPathStateKey (hr_tunnelId input) (hr_pathKey input)"

definition put_sample :: "string \<Rightarrow> rat \<Rightarrow> string \<Rightarrow> int \<Rightarrow> rat \<Rightarrow> auto_hop \<Rightarrow> tunnels \<Rightarrow> tunnels" where
  "put_sample key n g now i r s =
     map_set key (map_set i r (filter (\<lambda>(_, r). hop_current n g now r)
       (case map_get s key of None \<Rightarrow> [] | Some h \<Rightarrow> h))) s"

lemma record_report:
  "recordTunnelAutoHopLatency now input s =
    (case report_hop input of
       None \<Rightarrow> (None, s)
     | Some (i, n) \<Rightarrow>
         (let g = report_generation (hr_generation input) n; key = report_key input
          in aggregateTunnelHopResults key n g now (hr_allowEarlyFailure input)
               (put_sample key n g now i (report_sample input i n g now) s)))"
  by (simp add: recordTunnelAutoHopLatency_def report_hop_def put_sample_def Let_def split: option.split)

lemma wf_put_sample: "wf_tunnels s \<Longrightarrow> wf_tunnels (put_sample key n g now i r s)"
  by (auto simp: put_sample_def wf_tunnels_def map_get_set split: option.splits)

lemma wf_record: "wf_tunnels s \<Longrightarrow> wf_tunnels (snd (recordTunnelAutoHopLatency now input s))"
  by (auto simp: record_report snd_aggregate wf_cleanup wf_put_sample Let_def split: option.split prod.split)

lemma visible_put_sample:
  assumes "wf_tunnels s" and "t \<le> now" and "i < n" and "ah_hopCount r = n" "ah_generation r = g"
    and "ah_recordedAt r = t"
  shows "visible (put_sample key n g t i r s) key n g now idx =
    (if idx = i then if now - t \<le> AUTO_HOP_TTL_MS then Some r else None else visible s key n g now idx)"
proof -
  have "wf_map (case map_get s key of None \<Rightarrow> [] | Some h \<Rightarrow> h)"
    using assms(1) by (simp add: wf_tunnels_def split: option.split)
  then show ?thesis
    using assms(2-) hop_current_mono [OF _ assms(2), of n g]
    by (auto simp: put_sample_def visible_def map_get_set map_get_filter hop_current_def split: option.splits)
qed

lemma visible_put_other: "key' \<noteq> key \<Longrightarrow> visible (put_sample key n g t i r s) key' n' g' now idx = visible s key' n' g' now idx"
  by (simp add: put_sample_def visible_def map_get_set)

text \<open>The last accepted report of each hop of a path, nothing else.\<close>

definition note_report :: "string \<Rightarrow> int \<times> hop_report \<Rightarrow> (rat \<Rightarrow> auto_hop option) \<Rightarrow> (rat \<Rightarrow> auto_hop option)" where
  "note_report key tr latest =
     (case report_hop (snd tr) of
        None \<Rightarrow> latest
      | Some (i, n) \<Rightarrow>
          if report_key (snd tr) = key
          then latest(i \<mapsto> report_sample (snd tr) i n (report_generation (hr_generation (snd tr)) n) (fst tr))
          else latest)"

definition last_fresh :: "string \<Rightarrow> (int \<times> hop_report) list \<Rightarrow> int \<Rightarrow> rat \<Rightarrow> auto_hop option" where
  "last_fresh key reports now i =
     (case fold (note_report key) reports (\<lambda>_. None) i of
        None \<Rightarrow> None | Some r \<Rightarrow> if now - ah_recordedAt r \<le> AUTO_HOP_TTL_MS then Some r else None)"

definition record_all :: "(int \<times> hop_report) list \<Rightarrow> tunnels \<Rightarrow> tunnels" where
  "record_all reports s = fold (\<lambda>(now, r) s. snd (recordTunnelAutoHopLatency now r s)) reports s"

text \<open>A report for this path, if it is one, is of this generation and number of hops.\<close>

definition of_path :: "string \<Rightarrow> rat \<Rightarrow> string \<Rightarrow> hop_report \<Rightarrow> bool" where
  "of_path key n g input =
     (report_key input \<noteq> key \<or>
      (case report_hop input of
         None \<Rightarrow> True
       | Some (_, n') \<Rightarrow> n' = n \<and> report_generation (hr_generation input) n' = g))"

lemma visible_record:
  assumes wf: "wf_tunnels s" and path: "of_path key n g input" and "t \<le> now"
  shows "visible (snd (recordTunnelAutoHopLatency t input s)) key n g now idx =
    (case report_hop input of
       None \<Rightarrow> visible s key n g now idx
     | Some (i, n') \<Rightarrow>
         if report_key input = key \<and> idx = i
         then if now - t \<le> AUTO_HOP_TTL_MS then Some (report_sample input i n g t) else None
         else visible s key n g now idx)"
proof (cases "report_hop input")
  case None
  then show ?thesis by (simp add: record_report)
next
  case (Some p)
  obtain i n' where p: "p = (i, n')" by fastforce
  let ?g = "report_generation (hr_generation input) n'"
  have i: "i < n'" using Some p by (auto simp: report_hop_def split: option.splits if_splits)
  let ?s = "put_sample (report_key input) n' ?g t i (report_sample input i n' ?g t) s"
  have "visible (snd (recordTunnelAutoHopLatency t input s)) key n g now idx =
      (if key = report_key input \<and> (n, g) \<noteq> (n', ?g) then None else visible ?s key n g now idx)"
    using Some p assms(3) by (simp add: record_report Let_def snd_aggregate visible_cleanup wf_put_sample wf)
  then show ?thesis
    using Some p path i visible_put_sample [OF wf assms(3) i, of "report_sample input i n' ?g t" ?g key idx]
    by (cases "report_key input = key") (auto simp: of_path_def visible_put_other report_sample_def)
qed

lemma visible_history:
  assumes "\<forall>(t, r) \<in> set reports. t \<le> now \<and> of_path key n g r"
    and "sorted (map fst reports)"
  shows "visible (record_all reports []) key n g now idx = last_fresh key reports now idx
    \<and> wf_tunnels (record_all reports [])"
  using assms
proof (induction reports arbitrary: now rule: rev_induct)
  case Nil
  then show ?case by (simp add: record_all_def visible_def last_fresh_def wf_tunnels_def)
next
  case (snoc x reports)
  obtain t input where x: "x = (t, input)" by fastforce
  have sorted: "sorted (map fst reports)" and t: "t \<le> now" and path: "of_path key n g input"
    using snoc.prems x by (auto simp: sorted_append)
  have IH: "visible (record_all reports []) key n g now idx = last_fresh key reports now idx"
    and wf: "wf_tunnels (record_all reports [])"
    using snoc.IH [OF _ sorted, of now] snoc.prems by auto
  have rec: "record_all (reports @ [x]) [] = snd (recordTunnelAutoHopLatency t input (record_all reports []))"
    by (simp add: record_all_def x)
  show ?case
    unfolding rec using path
    by (auto simp: visible_record [OF wf path t] IH wf_record [OF wf] last_fresh_def note_report_def x
        of_path_def report_sample_def split: option.splits)
qed

text \<open>
  the latency of a path is that of the latest reports of its hops. Take any reports in the
  order of their times, for any tunnels and paths, valid or not, those of this path all for one
  generation and number of hops. A later lookup finds a latency exactly when every hop of the
  path has a last report of at most six minutes ago; it then succeeds when all of them and the
  counters of the path do, with the sum of their latencies.
\<close>

theorem path_latency_of_history:
  assumes reports: "\<forall>(t, r) \<in> set reports. t \<le> now \<and> of_path (tunnelPathStateKey tid path) n g r"
    and sorted: "sorted (map fst reports)" and tid: "finite_positive tid = Some q"
    and n: "0 < n" and g: "g \<noteq> []"
  shows "fst (getTunnelAutoHopAggregate now tid (Fin n) (Some g) path False (record_all reports [])) =
    (let latest = last_fresh (tunnelPathStateKey tid path) reports now in
     if \<exists>i \<in> set (hop_indices n). latest i = None then None
     else Some (path_result (map (the \<circ> latest) (hop_indices n))))"
proof -
  let ?key = "tunnelPathStateKey tid path"
  have wf: "wf_tunnels (record_all reports [])"
    and vis: "visible (record_all reports []) ?key n g now = last_fresh ?key reports now"
    using visible_history [OF reports sorted] by auto
  show ?thesis
    using tid n g aggregate_reads [OF wf n, of ?key g now]
    by (simp add: getTunnelAutoHopAggregate_def finite_positive_def text_or_def vis collect_all Let_def)
qed

definition sample_reports :: "(int \<times> hop_report) list" where
  "sample_reports =
     map (\<lambda>(t, i, l). (t, \<lparr>hr_tunnelId = num 7, hr_hopIndex = num i, hr_hopCount = num 2, hr_latencyMs = Some l,
        hr_isTimeout = False, hr_generation = Some ''g'', hr_pathKey = None, hr_allowEarlyFailure = False,
        hr_fromHostId = JNull, hr_toHostId = JNull, hr_probeCount = JUndef, hr_probeSuccesses = JUndef\<rparr>))
       [(1, 0, 10), (2, 1, 20), (3, 0, 12)]"

lemma sample_reports_path:
  "\<forall>(t, r) \<in> set sample_reports. t \<le> 9 \<and> of_path (tunnelPathStateKey (num 7) None) 2 ''g'' r"
  by code_simp

lemma path_latency_of_history_witness:
  "fst (getTunnelAutoHopAggregate 9 (num 7) (Fin 2) (Some ''g'') None False (record_all sample_reports [])) =
    (let latest = last_fresh (tunnelPathStateKey (num 7) None) sample_reports 9 in
     if \<exists>i \<in> set (hop_indices 2). latest i = None then None
     else Some (path_result (map (the \<circ> latest) (hop_indices 2))))"
  by (rule path_latency_of_history [OF sample_reports_path, where q = 7])
    (simp_all add: sample_reports_def finite_positive_def)

section \<open>Clearing a tunnel\<close>

lemma append_sep_eq:
  "c \<notin> set a \<Longrightarrow> c \<notin> set b \<Longrightarrow> a @ c # x = b @ c # y \<longleftrightarrow> a = b \<and> x = y"
  by (induction a arbitrary: b) (case_tac b, auto)+

lemma startsWith_sep:
  assumes "c \<notin> set a" and "c \<notin> set b"
  shows "startsWith (a @ [c]) (b @ c # r) \<longleftrightarrow> a = b"
proof -
  have "startsWith (a @ [c]) (b @ c # r) \<longleftrightarrow> (\<exists>y. a @ c # y = b @ c # r)"
  proof
    assume "startsWith (a @ [c]) (b @ c # r)"
    then have "(a @ [c]) @ drop (length (a @ [c])) (b @ c # r) = b @ c # r"
      unfolding startsWith_def by (metis append_take_drop_id)
    then show "\<exists>y. a @ c # y = b @ c # r" by (metis append.assoc append_Cons append_Nil)
  qed (auto simp: startsWith_def append_sep_eq [OF assms])
  also have "\<dots> \<longleftrightarrow> a = b" using append_sep_eq [OF assms] by auto
  finally show ?thesis .
qed

lemma js_string_num_no_colon: "CHR '':'' \<notin> set (js_string (JNum n))"
  by (auto simp: js_string_def int_str_def nat_str_no_char is_digit_def split: jsnum.split option.split)

lemma js_string_num_inj:
  assumes "0 < i" and "js_finite t = Some q"
  shows "js_string (JNum (num i)) = js_string (JNum t) \<longleftrightarrow> t = num i"
proof (cases "js_integer t")
  case None
  have "CHR ''?'' \<notin> set (nat_str (nat i))" by (rule nat_str_no_char) (simp add: is_digit_def)
  moreover have "t \<noteq> num i" using None by auto
  ultimately show ?thesis
    using assms None by (cases t) (auto simp: js_string_def int_str_def)
next
  case (Some j)
  then have t: "t = num j" by (rule js_integer_SomeD)
  show ?thesis
  proof (cases "j < 0")
    case True
    have "CHR ''-'' \<notin> set (nat_str (nat i))" by (rule nat_str_no_char) (simp add: is_digit_def)
    then show ?thesis using assms True by (auto simp: t js_string_def int_str_def)
  next
    case False
    then show ?thesis using assms by (auto simp: t js_string_def int_str_def nat_str_inj)
  qed
qed

lemma map_get_filter_key: "map_get (filter (\<lambda>(k, _). P k) m) key = (if P key then map_get m key else None)"
  by (induction m) auto

lemma clear_tunnel_get:
  assumes "js_finite t = Some q"
  shows "map_get (clearTunnelAutoHopLatencyState (num i) s) (tunnelPathStateKey t p) =
    (if 0 < i \<and> t = num i then None else map_get s (tunnelPathStateKey t p))"
proof (cases "0 < i")
  case True
  have "startsWith (js_string (JNum (num i)) @ [CHR '':'']) (tunnelPathStateKey t p) \<longleftrightarrow> t = num i"
    unfolding tunnelPathStateKey_def append.simps
    using js_string_num_inj [OF True assms] by (simp add: startsWith_sep js_string_num_no_colon)
  then show ?thesis
    using True by (simp add: clearTunnelAutoHopLatencyState_def map_get_filter_key)
qed (simp add: clearTunnelAutoHopLatencyState_def)

lemma cleanup_get_cong:
  "map_get s key = map_get s' key \<Longrightarrow>
   map_get (cleanupTunnelHopResults key n g now s) key = map_get (cleanupTunnelHopResults key n g now s') key"
  by (auto simp: cleanupTunnelHopResults_def Let_def map_get_set map_get_delete split: option.split)

lemma aggregate_cong:
  "map_get s key = map_get s' key \<Longrightarrow>
   fst (aggregateTunnelHopResults key n g now early s) = fst (aggregateTunnelHopResults key n g now early s')"
  using cleanup_get_cong [of s key s' n g now]
  by (simp add: aggregateTunnelHopResults_def Let_def split: option.split)

lemma aggregate_absent:
  "map_get s key = None \<Longrightarrow> fst (aggregateTunnelHopResults key n g now early s) = None"
  by (simp add: aggregateTunnelHopResults_def cleanupTunnelHopResults_def)

text \<open>
  clearing a tunnel forgets that tunnel and no other, although the states of all tunnels
  and paths share one table of text keys: every later lookup for it, of any path and generation,
  finds nothing, and every lookup for another tunnel finds what it found before.
\<close>

theorem clear_tunnel_isolated:
  "fst (getTunnelAutoHopAggregate now t n g path early (clearTunnelAutoHopLatencyState (num i) s)) =
    (if 0 < i \<and> t = num i then None else fst (getTunnelAutoHopAggregate now t n g path early s))"
proof (cases "finite_positive t")
  case None
  then show ?thesis by (simp add: getTunnelAutoHopAggregate_def)
next
  case (Some q)
  then have fin: "js_finite t = Some q" by (auto simp: finite_positive_def split: option.splits if_splits)
  let ?key = "tunnelPathStateKey t path"
  note get = clear_tunnel_get [OF fin, of i s path]
  show ?thesis
  proof (cases "0 < i \<and> t = num i")
    case True
    then show ?thesis
      using get by (auto simp: getTunnelAutoHopAggregate_def aggregate_absent Let_def split: option.split)
  next
    case False
    then have same: "map_get (clearTunnelAutoHopLatencyState (num i) s) ?key = map_get s ?key"
      unfolding get by auto
    show ?thesis
      using False Some aggregate_cong [OF same]
      by (auto simp: getTunnelAutoHopAggregate_def same Let_def split: option.split)
  qed
qed

text \<open>
  A generation of more than 1024 characters is cut when it is recorded and by
  \<open>getTunnelAutoHopDetails\<close>, but not by \<open>getTunnelAutoHopAggregate\<close>: its lookup drops the samples.
\<close>

lemma long_generation_not_found:
  assumes "wf_tunnels s" and "1024 < length g" and "0 < n"
    and "\<forall>key hops r. map_get s key = Some hops \<longrightarrow> r \<in> snd ` set hops \<longrightarrow> length (ah_generation r) \<le> 1024"
  shows "fst (getTunnelAutoHopAggregate now t (Fin n) (Some g) path False s) = None"
proof -
  have "visible s key n g now i = None" for key i
    using assms(2,4) by (fastforce simp: visible_def hop_current_def dest: map_get_inD split: option.split)
  moreover have "hop_indices n \<noteq> []" by (rule hop_indices_nonempty [OF assms(3)])
  ultimately show ?thesis
    using assms(2,3) aggregate_reads [OF assms(1,3), of _ g now]
    by (cases "hop_indices n")
      (auto simp: getTunnelAutoHopAggregate_def finite_positive_def text_or_def Let_def split: option.split)
qed

end
