(* ===== verification/Tunnel_Multi_Entry.thy ===== *)
theory Tunnel_Multi_Entry
  imports Tunnel_Auto_Latency
begin

text \<open>
  \<open>server/tunnelMultiEntryLatencyState.ts\<close>: a tunnel with several entry hosts. Every entry
  reports its own first hop, the remaining hops are shared, and the entries are alternatives: a
  path works when one entry and all shared hops do. The module variable \<open>states\<close> is the state;
  an operation that is handed a state of it changes that entry of the table. The label that the
  panel invents for an entry without one is the constructor \<open>EntryLabel\<close>.
  The helpers on counters and keys are copies of those of \<open>tunnelAutoLatencyState.ts\<close>.
\<close>

section \<open>State and helpers\<close>

record entry_probe =
  ep_latencyMs :: "rat option"
  ep_isTimeout :: bool
  ep_label :: string
  ep_fromHostId :: int
  ep_toHostId :: "int option"
  ep_hopIndex :: int
  ep_counts :: counts
  ep_recordedAt :: int

record multi_state =
  ms_generation :: string
  ms_hopCount :: int
  ms_expected :: "int list"
  ms_entryHops :: "(int, entry_probe) jsmap"
  ms_sharedHops :: "(int, entry_probe) jsmap"
  ms_createdAt :: int
  ms_updatedAt :: int

type_synonym multi_states = "(string, multi_state) jsmap"

datatype entry_label = Label string | EntryLabel int

record entry_detail =
  ed_hostId :: int
  ed_label :: entry_label
  ed_latencyMs :: "rat option"
  ed_isTimeout :: bool
  ed_counts :: "counts option"

record multi_aggregate =
  ma_success :: bool
  ma_partial :: bool
  ma_latencyMs :: "rat option"
  ma_details :: "entry_detail list"
  ma_counts :: "counts option"

definition MULTI_ENTRY_PROBE_TTL_MS :: int where
  "MULTI_ENTRY_PROBE_TTL_MS = 6 * 60 * 1000"

definition MULTI_ENTRY_WARMUP_MS :: int where
  "MULTI_ENTRY_WARMUP_MS = 2 * 60 * 1000"

definition normalizeHostIds :: "jsnum list \<Rightarrow> int list" where
  "normalizeHostIds ids = sort (fold set_add (List.map_filter positive_int ids) [])"

definition pathStateKey :: "jsnum \<Rightarrow> string option \<Rightarrow> string" where
  "pathStateKey tunnelId pathKey =
     (let path = text_or (Some (js_lower (js_trim (text_or pathKey ''default'')))) ''default''
      in js_string (JNum tunnelId) @ '':'' @ path)"

definition clearTunnelMultiEntryLatencyState :: "jsnum \<Rightarrow> multi_states \<Rightarrow> multi_states" where
  "clearTunnelMultiEntryLatencyState tunnelId states =
     (let pre = js_string (JNum tunnelId) @ '':'' in
      if positive_int tunnelId = None then states
      else filter (\<lambda>(key, _). \<not> startsWith pre key) states)"

definition expectedSignature :: "int list \<Rightarrow> string" where
  "expectedSignature hostIds = js_join '','' (map int_str hostIds)"

definition probe_fresh :: "int \<Rightarrow> entry_probe \<Rightarrow> bool" where
  "probe_fresh now r \<longleftrightarrow> now - ep_recordedAt r \<le> MULTI_ENTRY_PROBE_TTL_MS"

definition cleanExpiredResults :: "int \<Rightarrow> multi_state \<Rightarrow> multi_state" where
  "cleanExpiredResults now state =
     state\<lparr>ms_entryHops := filter (\<lambda>(_, r). probe_fresh now r) (ms_entryHops state),
           ms_sharedHops := filter (\<lambda>(_, r). probe_fresh now r) (ms_sharedHops state)\<rparr>"

definition cleanExpiredStates :: "int \<Rightarrow> multi_states \<Rightarrow> multi_states" where
  "cleanExpiredStates now states =
     filter (\<lambda>(_, state). now - ms_updatedAt state \<le> MULTI_ENTRY_PROBE_TTL_MS) states"

definition entry_latency :: "entry_probe \<Rightarrow> rat" where
  "entry_latency r = (case ep_latencyMs r of None \<Rightarrow> 0 | Some l \<Rightarrow> l)"

definition resultSucceeded :: "entry_probe option \<Rightarrow> bool" where
  "resultSucceeded result =
     (case result of None \<Rightarrow> False | Some r \<Rightarrow> snd (ep_counts r) > 0 \<and> entry_latency r > 0)"

definition normalizeEntryCounts :: "jsval \<Rightarrow> jsval \<Rightarrow> bool \<Rightarrow> counts" where
  "normalizeEntryCounts count successes isTimeout =
     (let probeCount = (case js_integer (to_number count) of
            Some n \<Rightarrow> if n \<ge> 1 \<and> n \<le> 1024 then n else 1 | None \<Rightarrow> 1);
          hasSuccesses = (successes \<noteq> JUndef \<and> successes \<noteq> JNull \<and> js_integer (to_number successes) \<noteq> None);
          probeSuccesses = (if hasSuccesses then the (js_integer (to_number successes))
            else if isTimeout then 0 else probeCount)
      in (probeCount, max 0 (min probeCount probeSuccesses)))"

definition combineProbeCounts :: "entry_probe list \<Rightarrow> counts" where
  "combineProbeCounts results =
     (if results = [] then (1, 0)
      else
        let probeCount = fold max (map (sample_count \<circ> ep_counts) results) 1;
            ratios = map (sample_ratio \<circ> ep_counts) results;
            ratio = fold min (tl ratios) (hd ratios)
        in (probeCount, max 0 (min probeCount \<lfloor>ratio * of_int probeCount + 1 / 1000000000\<rfloor>)))"

text \<open>A detail without counters stands for one attempt.\<close>

definition candidate_counts :: "entry_detail \<Rightarrow> counts" where
  "candidate_counts d =
     (case ed_counts d of
        None \<Rightarrow> (1, if ed_isTimeout d then 0 else 1)
      | Some (n, s) \<Rightarrow>
          (let count = (if n \<ge> 1 then min 1024 n else 1) in (count, max 0 (min count s))))"

definition representativeProbeCounts :: "entry_detail list \<Rightarrow> entry_probe list \<Rightarrow> counts" where
  "representativeProbeCounts details fallback =
     (let candidates = map candidate_counts details;
          successful = sort_key (\<lambda>c. - (rat_of_int (snd c) / of_int (fst c))) (filter (\<lambda>c. snd c > 0) candidates)
      in case successful of c # _ \<Rightarrow> c | [] \<Rightarrow> combineProbeCounts fallback)"

definition maybeAttachCounts :: "entry_detail \<Rightarrow> counts \<Rightarrow> entry_detail" where
  "maybeAttachCounts detail counts =
     (if counts = (1, if ed_isTimeout detail then 0 else 1) then detail
      else detail\<lparr>ed_counts := Some counts\<rparr>)"

section \<open>Aggregation\<close>

definition entry_detail_of :: "multi_state \<Rightarrow> entry_probe list \<Rightarrow> bool \<Rightarrow> int \<Rightarrow> entry_detail list" where
  "entry_detail_of state sharedResults sharedFailed hostId =
     (let entry = map_get (ms_entryHops state) hostId;
          sharedLatency = sum_list (map entry_latency sharedResults) in
      if entry = None \<and> \<not> sharedFailed then []
      else
        let success = (\<not> sharedFailed \<and> resultSucceeded entry);
            entryCounts = (case entry of
                Some e \<Rightarrow> combineProbeCounts (e # sharedResults)
              | None \<Rightarrow> (fst (combineProbeCounts sharedResults), 0));
            label = (case entry of Some e \<Rightarrow> if ep_label e = [] then EntryLabel hostId else Label (ep_label e)
              | None \<Rightarrow> EntryLabel hostId);
            latency = (if success then Some ((case entry of Some e \<Rightarrow> entry_latency e | None \<Rightarrow> 0) + sharedLatency) else None)
        in [maybeAttachCounts
              \<lparr>ed_hostId = hostId, ed_label = label, ed_latencyMs = latency, ed_isTimeout = \<not> success, ed_counts = None\<rparr>
              entryCounts])"

definition detail_successful :: "entry_detail \<Rightarrow> bool" where
  "detail_successful d \<longleftrightarrow> \<not> ed_isTimeout d \<and> (case ed_latencyMs d of None \<Rightarrow> False | Some l \<Rightarrow> l > 0)"

definition detail_latency :: "entry_detail \<Rightarrow> rat" where
  "detail_latency d = (case ed_latencyMs d of None \<Rightarrow> 0 | Some l \<Rightarrow> l)"

definition aggregateMultiEntryState :: "int \<Rightarrow> multi_state \<Rightarrow> multi_aggregate option \<times> multi_state" where
  "aggregateMultiEntryState now state0 =
     (let state = cleanExpiredResults now state0 in
      case collect_hops (map_get (ms_sharedHops state)) (\<lambda>_. True) [1..ms_hopCount state - 1] of
        None \<Rightarrow> (None, state)
      | Some sharedResults \<Rightarrow>
          (let sharedFailed = list_ex (\<lambda>r. \<not> resultSucceeded (Some r)) sharedResults;
               details = concat (map (entry_detail_of state sharedResults sharedFailed) (ms_expected state));
               successful = filter detail_successful details
           in if successful \<noteq> []
              then let representative = representativeProbeCounts successful [] in
                (Some \<lparr>ma_success = True, ma_partial = length successful < length (ms_expected state),
                       ma_latencyMs = Some (fold max (map detail_latency (tl successful)) (detail_latency (hd successful))),
                       ma_details = details,
                       ma_counts = (if representative \<noteq> (1, 1) then Some representative else None)\<rparr>, state)
              else if sharedFailed \<or> length details = length (ms_expected state)
              then let failureCounts = representativeProbeCounts [] (map snd (ms_entryHops state) @ sharedResults) in
                (Some \<lparr>ma_success = False, ma_partial = False, ma_latencyMs = None, ma_details = details,
                       ma_counts = (if failureCounts \<noteq> (1, 0) then Some failureCounts else None)\<rparr>, state)
              else (None, state)))"

section \<open>Recording and reading\<close>

record entry_report =
  er_tunnelId :: jsnum
  er_sourceHostId :: jsnum
  er_sourceLabel :: "string option"
  er_expected :: "jsnum list"
  er_hopIndex :: jsnum
  er_hopCount :: jsnum
  er_latencyMs :: "rat option"
  er_isTimeout :: bool
  er_generation :: "string option"
  er_pathKey :: "string option"
  er_toHostId :: jsval
  er_probeCount :: jsval
  er_probeSuccesses :: jsval

definition same_path_state :: "string \<Rightarrow> int \<Rightarrow> int list \<Rightarrow> multi_state \<Rightarrow> bool" where
  "same_path_state generation hopCount expected state \<longleftrightarrow>
     ms_generation state = generation \<and> ms_hopCount state = hopCount
     \<and> expectedSignature (ms_expected state) = expectedSignature expected"

definition entry_generation :: "string option \<Rightarrow> int \<Rightarrow> string" where
  "entry_generation generation hopCount = take 1024 (text_or generation (''legacy:'' @ int_str hopCount))"

definition probe_of_report :: "int \<Rightarrow> int \<Rightarrow> int \<Rightarrow> entry_report \<Rightarrow> entry_probe" where
  "probe_of_report now sourceHostId hopIndex input =
     (let latency = (case er_latencyMs input of None \<Rightarrow> None | Some l \<Rightarrow> if l > 0 then Some l else None) in
      \<lparr>ep_latencyMs = latency, ep_isTimeout = (er_isTimeout input \<or> latency = None),
       ep_label = take 96 (js_trim (text_or (er_sourceLabel input) [])), ep_fromHostId = sourceHostId,
       ep_toHostId = id_of (er_toHostId input), ep_hopIndex = hopIndex,
       ep_counts = normalizeEntryCounts (er_probeCount input) (er_probeSuccesses input) (er_isTimeout input),
       ep_recordedAt = now\<rparr>)"

text \<open>The five checks at the start of \<open>recordTunnelMultiEntryLatency\<close>.\<close>

definition report_numbers :: "entry_report \<Rightarrow> (int \<times> int \<times> int) option" where
  "report_numbers input =
     (case (positive_int (er_tunnelId input), positive_int (er_sourceHostId input),
            js_integer (er_hopIndex input), positive_int (er_hopCount input)) of
        (Some _, Some sourceHostId, Some hopIndex, Some hopCount) \<Rightarrow>
          (let expected = normalizeHostIds (er_expected input) in
           if hopIndex < 0 \<or> hopIndex \<ge> hopCount then None
           else if length expected < 2 then None
           else if hopIndex = 0 \<and> sourceHostId \<notin> set expected then None
           else Some (sourceHostId, hopIndex, hopCount))
      | _ \<Rightarrow> None)"

definition recordTunnelMultiEntryLatency ::
  "int \<Rightarrow> entry_report \<Rightarrow> multi_states \<Rightarrow> multi_aggregate option \<times> multi_states" where
  "recordTunnelMultiEntryLatency now input states0 =
     (case report_numbers input of
        None \<Rightarrow> (None, states0)
      | Some (sourceHostId, hopIndex, hopCount) \<Rightarrow>
          (let expected = normalizeHostIds (er_expected input);
               generation = entry_generation (er_generation input) hopCount;
               key = pathStateKey (er_tunnelId input) (er_pathKey input);
               states = cleanExpiredStates now states0;
               fresh = \<lparr>ms_generation = generation, ms_hopCount = hopCount, ms_expected = expected,
                        ms_entryHops = [], ms_sharedHops = [], ms_createdAt = now, ms_updatedAt = now\<rparr>;
               state = cleanExpiredResults now (case map_get states key of
                   None \<Rightarrow> fresh
                 | Some s \<Rightarrow> if same_path_state generation hopCount expected s then s else fresh);
               r = probe_of_report now sourceHostId hopIndex input;
               state' = (if hopIndex = 0
                  then state\<lparr>ms_entryHops := map_set sourceHostId r (ms_entryHops state), ms_updatedAt := now\<rparr>
                  else state\<lparr>ms_sharedHops := map_set hopIndex r (ms_sharedHops state), ms_updatedAt := now\<rparr>);
               (aggregate, state'') = aggregateMultiEntryState now state'
           in (aggregate, map_set key state'' states)))"

definition getTunnelMultiEntryLatency ::
  "int \<Rightarrow> jsnum \<Rightarrow> jsnum list \<Rightarrow> jsnum \<Rightarrow> string option \<Rightarrow> string option \<Rightarrow> multi_states
     \<Rightarrow> multi_aggregate option \<times> multi_states" where
  "getTunnelMultiEntryLatency now tunnelId expectedIds hopCountValue generation pathKey states =
     (case (positive_int tunnelId, positive_int hopCountValue) of
        (Some _, Some hopCount) \<Rightarrow>
          (let expected = normalizeHostIds expectedIds; key = pathStateKey tunnelId pathKey in
           if length expected < 2 then (None, states)
           else case map_get states key of
               None \<Rightarrow> (None, states)
             | Some state \<Rightarrow>
                 if \<not> same_path_state (entry_generation generation hopCount) hopCount expected state
                 then (None, states)
                 else if now - ms_updatedAt state > MULTI_ENTRY_PROBE_TTL_MS
                 then (None, map_delete key states)
                 else let (aggregate, state') = aggregateMultiEntryState now state
                      in (aggregate, map_set key state' states))
      | _ \<Rightarrow> (None, states))"

definition tunnelMultiEntryProbeWarmingUp :: "int \<Rightarrow> jsnum \<Rightarrow> string option \<Rightarrow> multi_states \<Rightarrow> bool" where
  "tunnelMultiEntryProbeWarmingUp now tunnelId pathKey states =
     (case map_get states (pathStateKey tunnelId pathKey) of
        None \<Rightarrow> False | Some state \<Rightarrow> now - ms_createdAt state < MULTI_ENTRY_WARMUP_MS)"

definition sample_usable :: "int \<Rightarrow> rat \<Rightarrow> rat \<Rightarrow> int \<Rightarrow> bool" where
  "sample_usable now referenceAt maxAgeMs recordedAt \<longleftrightarrow>
     of_int (now - recordedAt) \<le> maxAgeMs
     \<and> (referenceAt \<le> 0 \<or> \<bar>of_int recordedAt - referenceAt\<bar> \<le> maxAgeMs)"

definition multi_hop_detail :: "int \<Rightarrow> int \<Rightarrow> int option \<Rightarrow> int option \<Rightarrow> entry_probe \<Rightarrow> hop_detail" where
  "multi_hop_detail hopIndex hopCount fromHost toHost r =
     \<lparr>hd_hopIndex = of_int hopIndex, hd_hopCount = of_int hopCount, hd_fromHostId = fromHost,
      hd_toHostId = toHost, hd_latencyMs = ep_latencyMs r, hd_isTimeout = ep_isTimeout r,
      hd_recordedAt = ep_recordedAt r,
      hd_counts = (if ep_counts r \<noteq> (1, if ep_isTimeout r then 0 else 1) then Some (ep_counts r) else None)\<rparr>"

definition entry_hop_details :: "multi_state \<Rightarrow> (int \<Rightarrow> bool) \<Rightarrow> int \<Rightarrow> int list \<Rightarrow> hop_detail list" where
  "entry_hop_details state usable hopCount expected =
     (let sharedFirstSource = map_option ep_fromHostId (map_get (ms_sharedHops state) 1) in
      concat (map (\<lambda>hostId.
        case map_get (ms_entryHops state) hostId of
          None \<Rightarrow> []
        | Some e \<Rightarrow>
            if \<not> usable (ep_recordedAt e) then []
            else [multi_hop_detail 0 hopCount (Some hostId)
                    (case ep_toHostId e of None \<Rightarrow> sharedFirstSource | Some t \<Rightarrow> Some t) e]) expected))"

definition shared_hop_details :: "multi_state \<Rightarrow> (int \<Rightarrow> bool) \<Rightarrow> int \<Rightarrow> hop_detail list" where
  "shared_hop_details state usable hopCount =
     concat (map (\<lambda>hopIndex.
       case map_get (ms_sharedHops state) hopIndex of
         None \<Rightarrow> []
       | Some r \<Rightarrow>
           if \<not> usable (ep_recordedAt r) then []
           else [multi_hop_detail hopIndex hopCount (Some (ep_fromHostId r)) (ep_toHostId r) r]) [1..hopCount - 1])"

definition getTunnelMultiEntryHopDetails ::
  "int \<Rightarrow> jsnum \<Rightarrow> jsnum list \<Rightarrow> jsnum \<Rightarrow> string option \<Rightarrow> string option \<Rightarrow> rat \<Rightarrow> rat option
     \<Rightarrow> multi_states \<Rightarrow> hop_detail list option \<times> multi_states" where
  "getTunnelMultiEntryHopDetails now tunnelId expectedIds hopCountValue generation pathKey referenceAt maxAgeMs states0 =
     (case (positive_int tunnelId, positive_int hopCountValue) of
        (Some _, Some hopCount) \<Rightarrow>
          (let expected = normalizeHostIds expectedIds; key = pathStateKey tunnelId pathKey in
           if length expected < 2 then (None, states0)
           else
             let states = cleanExpiredStates now states0 in
             case map_get states key of
               None \<Rightarrow> (None, states)
             | Some state0 \<Rightarrow>
                 if \<not> same_path_state (take 1024 (text_or generation (ms_generation state0))) hopCount expected state0
                 then (None, states)
                 else
                   let state = cleanExpiredResults now state0;
                       usable = sample_usable now referenceAt (max_age maxAgeMs MULTI_ENTRY_PROBE_TTL_MS);
                       details = entry_hop_details state usable hopCount expected @ shared_hop_details state usable hopCount
                   in (if details = [] then None else Some details, map_set key state states))
      | _ \<Rightarrow> (None, states0))"


section \<open>The copied helpers agree\<close>

lemma normalizeEntryCounts_eq: "normalizeEntryCounts = normalizeProbeCounts"
  by (intro ext) (auto simp: normalizeEntryCounts_def normalizeProbeCounts_def Let_def split: option.split)

lemma combineProbeCounts_eq: "combineProbeCounts results = aggregateProbeCounts (map ep_counts results)"
  by (cases results) (simp_all add: combineProbeCounts_def aggregateProbeCounts_def comp_def)

lemma pathStateKey_eq: "pathStateKey = tunnelPathStateKey"
  by (intro ext) (simp add: pathStateKey_def tunnelPathStateKey_def Let_def)

section \<open>Entries are alternatives\<close>

text \<open>The sample of a hop as it counts now.\<close>

definition current_probe :: "int \<Rightarrow> (int, entry_probe) jsmap \<Rightarrow> int \<Rightarrow> entry_probe option" where
  "current_probe now m k =
     (case map_get m k of None \<Rightarrow> None | Some r \<Rightarrow> if probe_fresh now r then Some r else None)"

definition probe_latency :: "entry_probe option \<Rightarrow> rat" where
  "probe_latency r = (case r of None \<Rightarrow> 0 | Some p \<Rightarrow> entry_latency p)"

abbreviation verdict :: "multi_aggregate \<Rightarrow> bool \<times> bool \<times> rat option" where
  "verdict a \<equiv> (ma_success a, ma_partial a, ma_latencyMs a)"

lemma clean_get:
  assumes "wf_map m"
  shows "map_get (filter (\<lambda>(_, r). probe_fresh now r) m) = current_probe now m"
  by (rule ext) (simp add: map_get_filter [OF assms] current_probe_def split: option.split)

lemma entry_detail_missing:
  "map_get (ms_entryHops st) h = None \<Longrightarrow> entry_detail_of st shared False h = []"
  by (simp add: entry_detail_of_def)

lemma entry_detail_some:
  "map_get (ms_entryHops st) h = Some e \<or> failed \<Longrightarrow> \<exists>d. entry_detail_of st shared failed h = [d]
     \<and> ed_isTimeout d = (\<not> (\<not> failed \<and> resultSucceeded (map_get (ms_entryHops st) h)))
     \<and> ed_latencyMs d = (if ed_isTimeout d then None
          else Some (probe_latency (map_get (ms_entryHops st) h) + sum_list (map entry_latency shared)))"
  by (auto simp: entry_detail_of_def Let_def maybeAttachCounts_def probe_latency_def split: option.split)

lemma resultSucceeded_latency: "resultSucceeded r \<Longrightarrow> 0 < probe_latency r"
  by (auto simp: resultSucceeded_def probe_latency_def split: option.splits)

lemma shared_ok_latency:
  "list_all (\<lambda>r. resultSucceeded (Some r)) shared \<Longrightarrow> 0 \<le> sum_list (map entry_latency shared)"
  by (induction shared) (auto simp: resultSucceeded_def)

text \<open>The details of the expected hosts when all shared hops work.\<close>

lemma details_shared_ok:
  assumes "list_all (\<lambda>r. resultSucceeded (Some r)) shared"
  shows "map detail_latency (filter detail_successful (concat (map (entry_detail_of st shared False) hosts))) =
      map (\<lambda>h. probe_latency (map_get (ms_entryHops st) h) + sum_list (map entry_latency shared))
        (filter (\<lambda>h. resultSucceeded (map_get (ms_entryHops st) h)) hosts)"
    and "length (concat (map (entry_detail_of st shared False) hosts)) =
      length (filter (\<lambda>h. map_get (ms_entryHops st) h \<noteq> None) hosts)"
proof (induction hosts)
  case (Cons h hosts)
  {
    case 1
    show ?case
    proof (cases "map_get (ms_entryHops st) h")
      case None
      then show ?thesis using 1 Cons by (simp add: entry_detail_missing resultSucceeded_def)
    next
      case (Some e)
      then obtain d where "entry_detail_of st shared False h = [d]"
        "ed_isTimeout d = (\<not> resultSucceeded (Some e))"
        "ed_latencyMs d = (if ed_isTimeout d then None else Some (probe_latency (Some e) + sum_list (map entry_latency shared)))"
        using entry_detail_some [of st h e False shared] by auto
      then show ?thesis
        using Some Cons shared_ok_latency [OF assms] resultSucceeded_latency [of "Some e"]
        by (auto simp: detail_successful_def detail_latency_def)
    qed
  next
    case 2
    show ?case
      using Cons entry_detail_some [of st h _ False shared]
      by (cases "map_get (ms_entryHops st) h") (auto simp: entry_detail_missing)
  }
qed simp_all

lemma details_shared_failed:
  "filter detail_successful (concat (map (entry_detail_of st shared True) hosts)) = []
   \<and> length (concat (map (entry_detail_of st shared True) hosts)) = length hosts"
proof (induction hosts)
  case (Cons h hosts)
  obtain d where "entry_detail_of st shared True h = [d]" "ed_isTimeout d"
    using entry_detail_some [of st h _ True shared] by auto
  then show ?case using Cons by (simp add: detail_successful_def)
qed simp

lemma fold_max_hd: "xs \<noteq> [] \<Longrightarrow> fold max (tl xs) (hd xs) = Max (set (xs :: rat list))"
  by (cases xs) (simp_all add: fold_max_Max)

lemma Max_add_const: "finite A \<Longrightarrow> A \<noteq> {} \<Longrightarrow> Max ((\<lambda>x. f x + c) ` A) = Max (f ` A) + (c :: rat)"
  by (metis Max_add_commute)

lemma filter_length_all: "length (filter P xs) = length xs \<longleftrightarrow> (\<forall>x \<in> set xs. P x)"
proof (induction xs)
  case (Cons x xs)
  moreover have "length (filter P xs) \<noteq> Suc (length xs)" using length_filter_le [of P xs] by linarith
  ultimately show ?case by auto
qed simp

lemma sum_the_latency:
  "sum_list (map entry_latency (map (the \<circ> f) ks)) = (\<Sum>k\<leftarrow>ks. entry_latency (the (f k)))"
  by (simp add: comp_def)

text \<open>
  the entries of a tunnel are alternatives, its shared hops are not. Whatever a path has
  recorded, its aggregate is decided by the samples that are at most six minutes old: without a
  sample of some shared hop there is none; if all shared hops and at least one expected entry
  succeeded, the path succeeded, is partial when another entry did not, and its latency is that
  of the slowest entry that succeeded plus the shared hops; if the shared hops succeeded and no
  entry did, the verdict waits until every expected entry has reported; otherwise it failed.
\<close>

theorem multi_entry_alternatives:
  assumes wf: "wf_map (ms_entryHops st)" "wf_map (ms_sharedHops st)"
  shows "let hops = [1..ms_hopCount st - 1]; shared = current_probe now (ms_sharedHops st);
      entry = current_probe now (ms_entryHops st);
      shared_ok = list_all (\<lambda>k. resultSucceeded (shared k)) hops;
      good = filter (\<lambda>h. resultSucceeded (entry h)) (ms_expected st) in
    map_option verdict (fst (aggregateMultiEntryState now st)) =
      (if \<exists>k \<in> set hops. shared k = None then None
       else if shared_ok \<and> 0 < length good
       then Some (True, length good < length (ms_expected st),
                  Some (Max ((\<lambda>h. probe_latency (entry h)) ` set good) + (\<Sum>k\<leftarrow>hops. probe_latency (shared k))))
       else if shared_ok \<and> (\<exists>h \<in> set (ms_expected st). entry h = None) then None
       else Some (False, False, None))"
proof -
  let ?hops = "[1..ms_hopCount st - 1]" and ?shared = "current_probe now (ms_sharedHops st)"
  let ?entry = "current_probe now (ms_entryHops st)" and ?st = "cleanExpiredResults now st"
  let ?good = "filter (\<lambda>h. resultSucceeded (?entry h)) (ms_expected st)"
  let ?ok = "list_all (\<lambda>k. resultSucceeded (?shared k)) ?hops"
  have entry: "map_get (ms_entryHops ?st) = ?entry" and sh: "map_get (ms_sharedHops ?st) = ?shared"
    and same: "ms_hopCount ?st = ms_hopCount st" "ms_expected ?st = ms_expected st"
    using wf by (simp_all add: cleanExpiredResults_def clean_get)
  show ?thesis
  proof (cases "\<exists>k \<in> set ?hops. ?shared k = None")
    case True
    then show ?thesis by (simp add: aggregateMultiEntryState_def Let_def sh same collect_all)
  next
    case False
    define rs where "rs = map (the \<circ> ?shared) ?hops"
    define failed where "failed = list_ex (\<lambda>r. \<not> resultSucceeded (Some r)) rs"
    define details where "details = concat (map (entry_detail_of ?st rs failed) (ms_expected st))"
    have some: "?shared k = Some (the (?shared k))" if "k \<in> set ?hops" for k using False that by auto
    have ok: "failed = (\<not> ?ok)"
      using some by (auto simp: failed_def rs_def list_ex_iff list_all_iff)
    have "entry_latency (the (?shared k)) = probe_latency (?shared k)" if "k \<in> set ?hops" for k
      using some [OF that] by (metis option.simps(5) probe_latency_def)
    then have "map entry_latency rs = map (\<lambda>k. probe_latency (?shared k)) ?hops" by (simp add: rs_def)
    then have sum: "sum_list (map entry_latency rs) = (\<Sum>k\<leftarrow>?hops. probe_latency (?shared k))" by simp
    have agg: "map_option verdict (fst (aggregateMultiEntryState now st)) =
        (if filter detail_successful details \<noteq> []
         then Some (True, length (filter detail_successful details) < length (ms_expected st),
           Some (Max (detail_latency ` set (filter detail_successful details))))
         else if failed \<or> length details = length (ms_expected st) then Some (False, False, None) else None)"
    proof -
      have "collect_hops ?shared (\<lambda>_. True) ?hops = Some rs"
        using False by (simp add: collect_all rs_def)
      then show ?thesis
        using fold_max_hd [of "map detail_latency (filter detail_successful details)"]
        by (simp add: aggregateMultiEntryState_def Let_def sh same map_tl hd_map flip: failed_def details_def)
    qed
    show ?thesis
    proof (cases ?ok)
      case False
      then have "filter detail_successful details = []"
        using details_shared_failed [of ?st rs "ms_expected st"] by (simp add: details_def ok)
      then show ?thesis using agg ok False \<open>\<not> (\<exists>k \<in> set ?hops. ?shared k = None)\<close> by (auto simp: Let_def)
    next
      case True
      then have all: "list_all (\<lambda>r. resultSucceeded (Some r)) rs"
        using ok by (simp add: failed_def list_all_iff list_ex_iff)
      have lat: "map detail_latency (filter detail_successful details) =
          map (\<lambda>h. probe_latency (?entry h) + sum_list (map entry_latency rs)) ?good"
        using details_shared_ok(1) [OF all, of ?st "ms_expected st"] True by (simp add: details_def ok entry)
      have len: "length details = length (filter (\<lambda>h. ?entry h \<noteq> None) (ms_expected st))"
        using details_shared_ok(2) [OF all, of ?st "ms_expected st"] True by (simp add: details_def ok entry)
      have "length (filter detail_successful details) = length ?good"
        using arg_cong [OF lat, where f = length] by simp
      moreover have "detail_latency ` set (filter detail_successful details) =
          (\<lambda>h. probe_latency (?entry h) + sum_list (map entry_latency rs)) ` set ?good"
        using arg_cong [OF lat, where f = set] by simp
      moreover have "Max ((\<lambda>h. probe_latency (?entry h) + sum_list (map entry_latency rs)) ` set ?good) =
          Max ((\<lambda>h. probe_latency (?entry h)) ` set ?good) + sum_list (map entry_latency rs)" if "?good \<noteq> []"
        using that by (intro Max_add_const) (simp_all only: List.finite_set set_empty not_False_eq_True)
      ultimately show ?thesis
        using agg ok True False len sum filter_length_all [of "\<lambda>h. ?entry h \<noteq> None" "ms_expected st"]
        by (auto simp: Let_def)
    qed
  qed
qed

definition sample_probe :: "int \<Rightarrow> rat \<Rightarrow> int \<Rightarrow> entry_probe" where
  "sample_probe hostId latency recordedAt =
     \<lparr>ep_latencyMs = Some latency, ep_isTimeout = False, ep_label = [], ep_fromHostId = hostId,
      ep_toHostId = None, ep_hopIndex = 0, ep_counts = (3, 2), ep_recordedAt = recordedAt\<rparr>"

definition sample_state :: multi_state where
  "sample_state =
     \<lparr>ms_generation = ''g'', ms_hopCount = 2, ms_expected = [4, 5],
      ms_entryHops = [(4, sample_probe 4 10 100), (5, sample_probe 5 30 200)],
      ms_sharedHops = [(1, sample_probe 6 7 300)], ms_createdAt = 100, ms_updatedAt = 300\<rparr>"

lemma multi_entry_alternatives_witness:
  "let st = sample_state; hops = [1..ms_hopCount st - 1]; shared = current_probe 400 (ms_sharedHops st);
      entry = current_probe 400 (ms_entryHops st);
      shared_ok = list_all (\<lambda>k. resultSucceeded (shared k)) hops;
      good = filter (\<lambda>h. resultSucceeded (entry h)) (ms_expected st) in
    map_option verdict (fst (aggregateMultiEntryState 400 st)) =
      (if \<exists>k \<in> set hops. shared k = None then None
       else if shared_ok \<and> 0 < length good
       then Some (True, length good < length (ms_expected st),
                  Some (Max ((\<lambda>h. probe_latency (entry h)) ` set good) + (\<Sum>k\<leftarrow>hops. probe_latency (shared k))))
       else if shared_ok \<and> (\<exists>h \<in> set (ms_expected st). entry h = None) then None
       else Some (False, False, None))"
  unfolding Let_def [of sample_state]
  by (rule multi_entry_alternatives) (simp_all add: sample_state_def wf_map_def)

section \<open>Every state is well-formed\<close>

definition wf_probe :: "entry_probe \<Rightarrow> bool" where
  "wf_probe r \<longleftrightarrow> valid_counts (ep_counts r) \<and> length (ep_label r) \<le> 96 \<and>
     (case ep_latencyMs r of None \<Rightarrow> ep_isTimeout r | Some l \<Rightarrow> 0 < l)"

definition wf_multi :: "multi_state \<Rightarrow> bool" where
  "wf_multi st \<longleftrightarrow>
     0 < ms_hopCount st \<and> length (ms_generation st) \<le> 1024 \<and>
     2 \<le> length (ms_expected st) \<and> sorted (ms_expected st) \<and> distinct (ms_expected st) \<and>
     (\<forall>h \<in> set (ms_expected st). 0 < h) \<and>
     wf_map (ms_entryHops st) \<and> wf_map (ms_sharedHops st) \<and>
     (\<forall>(h, r) \<in> set (ms_entryHops st). h \<in> set (ms_expected st) \<and> ep_fromHostId r = h \<and> ep_hopIndex r = 0 \<and> wf_probe r) \<and>
     (\<forall>(k, r) \<in> set (ms_sharedHops st). 1 \<le> k \<and> k < ms_hopCount st \<and> ep_hopIndex r = k \<and> wf_probe r)"

definition wf_multi_states :: "multi_states \<Rightarrow> bool" where
  "wf_multi_states states \<longleftrightarrow> wf_map states \<and> (\<forall>(key, st) \<in> set states. wf_multi st)"

datatype multi_op =
    RecordEntry int entry_report
  | ReadEntry int jsnum "jsnum list" jsnum "string option" "string option"
  | ReadDetails int jsnum "jsnum list" jsnum "string option" "string option" rat "rat option"
  | ClearTunnel jsnum

fun multi_step :: "multi_op \<Rightarrow> multi_states \<Rightarrow> multi_aggregate option \<times> multi_states" where
  "multi_step (RecordEntry now r) s = recordTunnelMultiEntryLatency now r s"
| "multi_step (ReadEntry now t ids n g p) s = getTunnelMultiEntryLatency now t ids n g p s"
| "multi_step (ReadDetails now t ids n g p ref age) s =
     (None, snd (getTunnelMultiEntryHopDetails now t ids n g p ref age s))"
| "multi_step (ClearTunnel t) s = (None, clearTunnelMultiEntryLatencyState t s)"

lemma wf_states_get: "wf_multi_states s \<Longrightarrow> map_get s key = Some st \<Longrightarrow> wf_multi st"
  by (auto simp: wf_multi_states_def dest: map_get_inD)

lemma wf_states_set: "wf_multi_states s \<Longrightarrow> wf_multi st \<Longrightarrow> wf_multi_states (map_set key st s)"
  using set_map_set [of key st s] by (auto simp: wf_multi_states_def)

lemma wf_states_delete: "wf_multi_states s \<Longrightarrow> wf_multi_states (map_delete key s)"
  using set_map_delete [of key s] by (auto simp: wf_multi_states_def)

lemma wf_states_filter: "wf_multi_states s \<Longrightarrow> wf_multi_states (filter P s)"
  by (auto simp: wf_multi_states_def)

lemma wf_clean: "wf_multi st \<Longrightarrow> wf_multi (cleanExpiredResults now st)"
  by (auto simp: wf_multi_def cleanExpiredResults_def)

lemma snd_aggregateMultiEntryState: "snd (aggregateMultiEntryState now st) = cleanExpiredResults now st"
  by (simp add: aggregateMultiEntryState_def Let_def split: option.split)

lemma wf_probe_of_report: "wf_probe (probe_of_report now h k input)"
  by (auto simp: wf_probe_def probe_of_report_def Let_def normalizeEntryCounts_eq normalizeProbeCounts_valid
      split: option.split)

lemma wf_multi_entry:
  "wf_multi st \<Longrightarrow> h \<in> set (ms_expected st) \<Longrightarrow> wf_probe r \<Longrightarrow> ep_fromHostId r = h \<Longrightarrow> ep_hopIndex r = 0 \<Longrightarrow>
   wf_multi (st\<lparr>ms_entryHops := map_set h r (ms_entryHops st), ms_updatedAt := now\<rparr>)"
  using set_map_set [of h r "ms_entryHops st"] by (auto simp: wf_multi_def)

lemma wf_multi_shared:
  "wf_multi st \<Longrightarrow> 1 \<le> k \<Longrightarrow> k < ms_hopCount st \<Longrightarrow> wf_probe r \<Longrightarrow> ep_hopIndex r = k \<Longrightarrow>
   wf_multi (st\<lparr>ms_sharedHops := map_set k r (ms_sharedHops st), ms_updatedAt := now\<rparr>)"
  using set_map_set [of k r "ms_sharedHops st"] by (auto simp: wf_multi_def)

lemma set_normalizeHostIds: "set (normalizeHostIds ids) = {i. 0 < i \<and> num i \<in> set ids}"
proof -
  have "set (List.map_filter positive_int ids) = {i. 0 < i \<and> num i \<in> set ids}"
    by (auto simp: List.map_filter_def dest!: positive_int_SomeD intro!: image_eqI [where x = "num _"])
  then show ?thesis by (simp add: normalizeHostIds_def set_fold_set_add)
qed

text \<open>The texts that are compared determine the lists.\<close>

lemma int_str_no_comma: "CHR '','' \<notin> set (int_str i)"
  by (simp add: int_str_def nat_str_no_char is_digit_def)

lemma int_str_inj: "0 < i \<Longrightarrow> 0 < j \<Longrightarrow> int_str i = int_str j \<longleftrightarrow> i = j"
  by (auto simp: int_str_def nat_str_inj)

lemma expectedSignature_inj:
  assumes "expectedSignature xs = expectedSignature ys" and "xs \<noteq> []" and "ys \<noteq> []"
    and "\<forall>i \<in> set xs \<union> set ys. 0 < i"
  shows "xs = ys"
proof -
  have "js_split (CHR '','') (expectedSignature zs) = map int_str zs" if "zs \<noteq> []" for zs
    using that int_str_no_comma unfolding expectedSignature_def by (subst js_split_join) auto
  then have "map int_str xs = map int_str ys" using assms(1-3) by metis
  moreover have "inj_on int_str (set xs \<union> set ys)" using assms(4) by (auto intro: inj_onI simp: int_str_inj)
  ultimately show ?thesis by (metis map_inj_on)
qed

lemma same_path_expected:
  assumes "same_path_state g n expected st" and "wf_multi st" and "expected = normalizeHostIds ids"
    and "2 \<le> length expected"
  shows "ms_expected st = expected \<and> ms_hopCount st = n"
proof -
  have "ms_expected st \<noteq> []" "expected \<noteq> []" using assms(2,4) by (auto simp: wf_multi_def)
  then show ?thesis
    using assms expectedSignature_inj [of "ms_expected st" expected]
    by (auto simp: same_path_state_def wf_multi_def set_normalizeHostIds)
qed

lemma report_numbers_SomeD:
  "report_numbers input = Some (h, k, n) \<Longrightarrow>
   0 < n \<and> 0 \<le> k \<and> k < n \<and> 2 \<le> length (normalizeHostIds (er_expected input)) \<and>
   (k = 0 \<longrightarrow> h \<in> set (normalizeHostIds (er_expected input)))"
  by (auto simp: report_numbers_def Let_def dest: positive_int_SomeD split: option.splits if_splits)

lemma wf_fresh_state:
  "0 < n \<Longrightarrow> 2 \<le> length (normalizeHostIds ids) \<Longrightarrow>
   wf_multi \<lparr>ms_generation = entry_generation g n, ms_hopCount = n, ms_expected = normalizeHostIds ids,
     ms_entryHops = [], ms_sharedHops = [], ms_createdAt = now, ms_updatedAt = now\<rparr>"
  by (auto simp: wf_multi_def entry_generation_def set_normalizeHostIds)
    (simp_all add: normalizeHostIds_def)

lemma wf_recordTunnelMultiEntryLatency:
  assumes wf: "wf_multi_states s"
  shows "wf_multi_states (snd (recordTunnelMultiEntryLatency now input s))"
proof (cases "report_numbers input")
  case None
  then show ?thesis using wf by (simp add: recordTunnelMultiEntryLatency_def)
next
  case (Some p)
  obtain h k n where p: "report_numbers input = Some (h, k, n)" using Some by (cases p) auto
  note num = report_numbers_SomeD [OF p]
  let ?ids = "normalizeHostIds (er_expected input)" and ?g = "entry_generation (er_generation input) n"
  let ?key = "pathStateKey (er_tunnelId input) (er_pathKey input)" and ?s = "cleanExpiredStates now s"
  let ?fresh = "\<lparr>ms_generation = ?g, ms_hopCount = n, ms_expected = ?ids,
      ms_entryHops = [], ms_sharedHops = [], ms_createdAt = now, ms_updatedAt = now\<rparr>"
  let ?st = "cleanExpiredResults now (case map_get ?s ?key of None \<Rightarrow> ?fresh
      | Some st \<Rightarrow> if same_path_state ?g n ?ids st then st else ?fresh)"
  let ?r = "probe_of_report now h k input"
  let ?st' = "if k = 0 then ?st\<lparr>ms_entryHops := map_set h ?r (ms_entryHops ?st), ms_updatedAt := now\<rparr>
      else ?st\<lparr>ms_sharedHops := map_set k ?r (ms_sharedHops ?st), ms_updatedAt := now\<rparr>"
  have wfs: "wf_multi_states ?s" using wf by (simp add: cleanExpiredStates_def wf_states_filter)
  have fresh: "wf_multi ?fresh" using num by (intro wf_fresh_state) auto
  have "wf_multi ?st \<and> ms_expected ?st = ?ids \<and> ms_hopCount ?st = n"
  proof (cases "map_get ?s ?key")
    case None
    then show ?thesis using wf_clean [OF fresh] by (simp add: cleanExpiredResults_def)
  next
    case (Some st)
    have "wf_multi st" by (rule wf_states_get [OF wfs Some])
    then show ?thesis
      using Some wf_clean [OF fresh] wf_clean [of st] same_path_expected [of ?g n ?ids st "er_expected input"] num
      by (simp add: cleanExpiredResults_def)
  qed
  moreover have "ep_fromHostId ?r = h" "ep_hopIndex ?r = k" by (simp_all add: probe_of_report_def Let_def)
  ultimately have "wf_multi ?st'"
    using num wf_multi_entry [of ?st h ?r] wf_multi_shared [of ?st k ?r] wf_probe_of_report [of now h k input] by auto
  then have "wf_multi_states (map_set ?key (cleanExpiredResults now ?st') ?s)"
    by (intro wf_states_set wfs wf_clean)
  moreover have "snd (recordTunnelMultiEntryLatency now input s) = map_set ?key (cleanExpiredResults now ?st') ?s"
    by (simp only: recordTunnelMultiEntryLatency_def p option.case prod.case Let_def case_prod_unfold
        snd_aggregateMultiEntryState fst_conv snd_conv)
  ultimately show ?thesis by simp
qed

lemma wf_getTunnelMultiEntryLatency:
  assumes "wf_multi_states s"
  shows "wf_multi_states (snd (getTunnelMultiEntryLatency now t ids n g p s))"
proof (cases "map_get s (pathStateKey t p)")
  case (Some st)
  have "wf_multi_states (map_set (pathStateKey t p) (cleanExpiredResults now st) s)"
    by (intro wf_states_set assms wf_clean wf_states_get [OF assms Some])
  then show ?thesis
    using assms Some snd_aggregateMultiEntryState [of now st]
    by (auto simp: getTunnelMultiEntryLatency_def Let_def wf_states_delete split: option.split prod.split)
qed (use assms in \<open>simp add: getTunnelMultiEntryLatency_def Let_def split: option.split\<close>)

lemma wf_getTunnelMultiEntryHopDetails:
  assumes "wf_multi_states s"
  shows "wf_multi_states (snd (getTunnelMultiEntryHopDetails now t ids n g p ref age s))"
proof -
  have wf: "wf_multi_states (cleanExpiredStates now s)"
    using assms by (simp add: cleanExpiredStates_def wf_states_filter)
  have "wf_multi_states (map_set (pathStateKey t p) (cleanExpiredResults now st) (cleanExpiredStates now s))"
    if "map_get (cleanExpiredStates now s) (pathStateKey t p) = Some st" for st
    by (intro wf_states_set wf wf_clean wf_states_get [OF wf that])
  then show ?thesis
    using assms wf by (simp add: getTunnelMultiEntryHopDetails_def Let_def split: option.split)
qed

lemma wf_multi_step: "wf_multi_states s \<Longrightarrow> wf_multi_states (snd (multi_step op s))"
  by (cases op)
    (simp_all add: wf_recordTunnelMultiEntryLatency wf_getTunnelMultiEntryLatency wf_getTunnelMultiEntryHopDetails
      clearTunnelMultiEntryLatencyState_def Let_def wf_states_filter)

text \<open>
  C40: the table of multi-entry tunnels stays well-formed. After any operations on an empty
  table, with any numbers, texts and times as their inputs, every path has a positive number of
  hops, at least two expected entries, sorted, distinct and positive, and a generation of at most
  1024 characters; its entry samples belong to expected hosts and name them, its shared samples
  have hop numbers below the number of hops; every sample has between 0 and \<open>probeCount\<close>
  successes of 1 to 1024 attempts, and either a positive latency or the mark of a timeout.
\<close>

theorem multi_entry_states_well_formed:
  "wf_multi_states (fold (\<lambda>op s. snd (multi_step op s)) ops [])"
proof -
  have "wf_multi_states s \<Longrightarrow> wf_multi_states (fold (\<lambda>op s. snd (multi_step op s)) ops s)" for s
    by (induction ops arbitrary: s) (simp_all add: wf_multi_step)
  moreover have "wf_multi_states []" by (simp add: wf_multi_states_def)
  ultimately show ?thesis by blast
qed

end
