(* ===== verification/Timers.thy ===== *)
theory Timers
  imports Prelude
begin

text \<open>
  \<open>setTimeout\<close> and \<open>clearTimeout\<close> of the runtime, as the schedulers of the panel use them:
  a timer has a fresh handle, the time it is due and what its callback needs to know; it
  fires at most once, and not after it was cleared. Which due timer fires next, and how late,
  is the choice of the environment.
\<close>

record ('t, 'p) timers =
  nextHandle :: nat
  active :: "(nat, 't \<times> 'p) jsmap"

definition no_timers :: "('t, 'p) timers" where
  "no_timers = \<lparr>nextHandle = 0, active = []\<rparr>"

definition setTimer :: "'t::linordered_idom \<Rightarrow> 't \<Rightarrow> 'p \<Rightarrow> ('t, 'p) timers \<Rightarrow> nat \<times> ('t, 'p) timers" where
  "setTimer now delay p ts =
     (nextHandle ts, \<lparr>nextHandle = Suc (nextHandle ts),
        active = active ts @ [(nextHandle ts, (now + delay, p))]\<rparr>)"

definition clearTimer :: "nat \<Rightarrow> ('t, 'p) timers \<Rightarrow> ('t, 'p) timers" where
  "clearTimer h ts = ts\<lparr>active := map_delete h (active ts)\<rparr>"

text \<open>The timer with this handle, if it is set and due.\<close>

definition due_timer :: "nat \<Rightarrow> 't::linordered_idom \<Rightarrow> ('t, 'p) timers \<Rightarrow> 'p option" where
  "due_timer h now ts =
     (case map_get (active ts) h of
        None \<Rightarrow> None | Some (due, p) \<Rightarrow> if due \<le> now then Some p else None)"

definition wf_timers :: "('t, 'p) timers \<Rightarrow> bool" where
  "wf_timers ts \<longleftrightarrow> wf_map (active ts) \<and> (\<forall>h. map_has (active ts) h \<longrightarrow> h < nextHandle ts)"

definition timer_payload :: "('t, 'p) timers \<Rightarrow> nat \<Rightarrow> 'p option" where
  "timer_payload ts h = map_option snd (map_get (active ts) h)"

lemma wf_no_timers [simp]: "wf_timers no_timers"
  by (simp add: wf_timers_def no_timers_def)

lemma map_get_snoc: "map_get (m @ [(k, v)]) k' = (case map_get m k' of
    None \<Rightarrow> if k' = k then Some v else None | Some x \<Rightarrow> Some x)"
  by (auto simp: map_add_def split: option.splits)

lemma timer_payload_none [simp]: "timer_payload no_timers h = None"
  by (simp add: timer_payload_def no_timers_def)

lemma wf_map_snoc: "wf_map m \<Longrightarrow> \<not> map_has m k \<Longrightarrow> wf_map (m @ [(k, v)])"
  by (auto simp: wf_map_def map_has_keys)

lemma map_has_snoc: "map_has (m @ [(k, v)]) k' \<longleftrightarrow> map_has m k' \<or> k' = k"
  by (auto simp: map_has_def map_get_snoc split: option.splits)

lemma fresh_handle: "wf_timers ts \<Longrightarrow> \<not> map_has (active ts) (nextHandle ts)"
  by (auto simp: wf_timers_def)

lemma wf_setTimer: "wf_timers ts \<Longrightarrow> setTimer now d p ts = (h, ts') \<Longrightarrow> wf_timers ts'"
  using fresh_handle [of ts]
  by (auto simp: wf_timers_def setTimer_def wf_map_snoc map_has_snoc less_Suc_eq)

lemma wf_clearTimer [simp]: "wf_timers ts \<Longrightarrow> wf_timers (clearTimer h ts)"
  by (simp add: wf_timers_def clearTimer_def)

lemma fresh_handle_get: "wf_timers ts \<Longrightarrow> map_get (active ts) (nextHandle ts) = None"
  using fresh_handle [of ts] by (simp only: map_has_def not_not)

lemma timer_payload_set:
  assumes "wf_timers ts" and "setTimer now d p ts = (h, ts')"
  shows "timer_payload ts' h' = (if h' = h then Some p else timer_payload ts h')"
proof -
  from assms(2) have h: "h = nextHandle ts"
    and ts': "active ts' = active ts @ [(nextHandle ts, (now + d, p))]"
    by (auto simp: setTimer_def)
  show ?thesis
    using fresh_handle_get [OF assms(1)] unfolding timer_payload_def ts' h map_get_snoc
    by (cases "map_get (active ts) h'") auto
qed

lemma setTimer_fresh:
  assumes "wf_timers ts" and "setTimer now d p ts = (h, ts')"
  shows "timer_payload ts h = None"
  using fresh_handle_get [OF assms(1)] assms(2) by (auto simp: timer_payload_def setTimer_def)

lemma timer_payload_clear [simp]:
  "timer_payload (clearTimer h ts) h' = (if h' = h then None else timer_payload ts h')"
  by (simp add: timer_payload_def clearTimer_def map_get_delete)

lemma due_timer_payload: "due_timer h now ts = Some p \<Longrightarrow> timer_payload ts h = Some p"
  by (auto simp: due_timer_def timer_payload_def split: option.splits if_splits)

section \<open>One timer for each key\<close>

text \<open>
  The contract of a scheduler that owns at most one timer for each key: \<open>pending\<close> is its table
  of handles, \<open>key_of\<close> reads the key off a timer, if it is one of this table. Setting a key arms
  a fresh timer in place of its old one; unsetting clears it; a timer that fires is forgotten.
\<close>

definition tracks :: "('p \<Rightarrow> 'k option) \<Rightarrow> ('k \<Rightarrow> nat option) \<Rightarrow> ('t, 'p) timers \<Rightarrow> bool" where
  "tracks key_of pending ts \<longleftrightarrow> wf_timers ts \<and>
     (\<forall>k h. pending k = Some h \<longrightarrow> (\<exists>p. timer_payload ts h = Some p \<and> key_of p = Some k)) \<and>
     (\<forall>h p k. timer_payload ts h = Some p \<longrightarrow> key_of p = Some k \<longrightarrow> pending k = Some h)"

lemma tracks_empty: "tracks key_of (\<lambda>_. None) no_timers"
  by (simp add: tracks_def)

lemma tracks_wf: "tracks key_of pending ts \<Longrightarrow> wf_timers ts"
  by (simp add: tracks_def)

lemma tracks_pending:
  "tracks key_of pending ts \<Longrightarrow> pending k = Some h \<Longrightarrow>
     \<exists>p. timer_payload ts h = Some p \<and> key_of p = Some k"
  by (simp add: tracks_def)

lemma tracks_payload:
  "tracks key_of pending ts \<Longrightarrow> timer_payload ts h = Some p \<Longrightarrow> key_of p = Some k \<Longrightarrow> pending k = Some h"
  by (simp add: tracks_def)

lemma tracks_inj:
  assumes "tracks key_of pending ts" and "pending k = Some h" and "pending k' = Some h"
  shows "k = k'"
  using tracks_pending [OF assms(1,2)] tracks_pending [OF assms(1,3)] by auto

lemma tracks_clear:
  assumes tr: "tracks key_of pending ts" and old: "pending k = Some h"
  shows "tracks key_of (pending(k := None)) (clearTimer h ts)"
proof -
  have "\<exists>q. timer_payload (clearTimer h ts) h' = Some q \<and> key_of q = Some k'"
    if "(pending(k := None)) k' = Some h'" for k' h'
    using that tracks_pending [OF tr, of k' h'] tracks_inj [OF tr old, of k'] by (auto split: if_splits)
  moreover have "(pending(k := None)) k' = Some h'"
    if "timer_payload (clearTimer h ts) h' = Some q" "key_of q = Some k'" for h' q k'
    using that tracks_payload [OF tr, of h' q k'] old by (auto split: if_splits)
  ultimately show ?thesis using tr by (simp add: tracks_def)
qed

lemma tracks_set:
  assumes tr: "tracks key_of pending ts" and new: "pending k = None"
    and set: "setTimer now d p ts = (h, ts')" and key: "key_of p = Some k"
  shows "tracks key_of (pending(k := Some h)) ts'"
proof -
  note wf = tracks_wf [OF tr]
  note pay = timer_payload_set [OF wf set]
  have fresh: "timer_payload ts h = None" by (rule setTimer_fresh [OF wf set])
  have "\<exists>q. timer_payload ts' h' = Some q \<and> key_of q = Some k'"
    if "(pending(k := Some h)) k' = Some h'" for k' h'
    using that tracks_pending [OF tr, of k' h'] fresh key by (auto simp: pay split: if_splits)
  moreover have "(pending(k := Some h)) k' = Some h'"
    if "timer_payload ts' h' = Some q" "key_of q = Some k'" for h' q k'
    using that tracks_payload [OF tr, of h' q k'] key new by (auto simp: pay split: if_splits)
  ultimately show ?thesis using wf_setTimer [OF wf set] by (simp add: tracks_def)
qed

text \<open>Timers of another kind come and go without touching the table.\<close>

lemma tracks_set_other:
  assumes tr: "tracks key_of pending ts" and set: "setTimer now d p ts = (h, ts')" and key: "key_of p = None"
  shows "tracks key_of pending ts'"
proof -
  note wf = tracks_wf [OF tr]
  note pay = timer_payload_set [OF wf set]
  have "timer_payload ts h = None" by (rule setTimer_fresh [OF wf set])
  then show ?thesis
    using tr wf_setTimer [OF wf set] key unfolding tracks_def by (simp add: pay) fastforce
qed

lemma tracks_clear_other:
  assumes tr: "tracks key_of pending ts"
    and other: "\<And>p. timer_payload ts h = Some p \<Longrightarrow> key_of p = None"
  shows "tracks key_of pending (clearTimer h ts)"
proof -
  have "pending k \<noteq> Some h" for k
    using tracks_pending [OF tr, of k h] other by fastforce
  then show ?thesis using tr unfolding tracks_def by (simp split: if_splits)
qed

text \<open>A timer that fires belongs to the key that is pending with its handle.\<close>

lemma tracks_due:
  "tracks key_of pending ts \<Longrightarrow> due_timer h now ts = Some p \<Longrightarrow> key_of p = Some k \<Longrightarrow> pending k = Some h"
  by (auto dest: due_timer_payload tracks_payload)

text \<open>The same for a table that keeps the handle inside its entries.\<close>

abbreviation table_handles :: "('e \<Rightarrow> nat) \<Rightarrow> ('k, 'e) jsmap \<Rightarrow> 'k \<Rightarrow> nat option" where
  "table_handles handle m \<equiv> \<lambda>k. map_option handle (map_get m k)"

lemma table_clear:
  assumes "tracks key_of (table_handles handle m) ts" and "map_get m k = Some e"
  shows "tracks key_of (table_handles handle (map_delete k m)) (clearTimer (handle e) ts)"
proof -
  have "table_handles handle (map_delete k m) = (table_handles handle m)(k := None)"
    by (auto simp: map_get_delete)
  then show ?thesis using tracks_clear [OF assms(1), of k "handle e"] assms(2) by simp
qed

lemma table_set:
  assumes "tracks key_of (table_handles handle m) ts" and "map_get m k = None"
    and "setTimer now d p ts = (h, ts')" and "key_of p = Some k" and "handle e = h"
  shows "tracks key_of (table_handles handle (map_set k e m)) ts'"
proof -
  have "table_handles handle (map_set k e m) = (table_handles handle m)(k := Some h)"
    by (auto simp: map_get_set assms(5))
  then show ?thesis using tracks_set [OF assms(1) _ assms(3,4)] assms(2) by simp
qed

end
