(* ===== verification/Agent_Versions.thy ===== *)
theory Agent_Versions
  imports Prelude
begin

text \<open>
  The comparison of version texts in \<open>server/agentRouteUtils.ts\<close>, on which every capability
  check of an agent rests. \<open>Number.parseInt(x, 10)\<close> reads the digits after blanks and a sign;
  the parts are split at dots and dashes, so the sign can only be a plus.
\<close>

definition normalizeVersion :: "string option \<Rightarrow> string" where
  "normalizeVersion version =
     (let v = js_trim (case version of None \<Rightarrow> [] | Some s \<Rightarrow> s)
      in case v of [] \<Rightarrow> [] | c # cs \<Rightarrow> if c = CHR ''v'' \<or> c = CHR ''V'' then cs else v)"

definition parse_part :: "string \<Rightarrow> int" where
  "parse_part s =
     (let t = dropWhile js_space s;
          u = (case t of [] \<Rightarrow> [] | c # cs \<Rightarrow> if c = CHR ''+'' then cs else t)
      in int (digits_val (takeWhile is_digit u)))"

definition version_parts :: "string option \<Rightarrow> int list" where
  "version_parts version =
     map parse_part (concat (map (js_split (CHR ''-'')) (js_split (CHR ''.'') (normalizeVersion version))))"

definition part_at :: "int list \<Rightarrow> nat \<Rightarrow> int" where
  "part_at ps i = (if i < length ps then ps ! i else 0)"

fun compare_from :: "int list \<Rightarrow> int list \<Rightarrow> nat list \<Rightarrow> int" where
  "compare_from pa pb [] = 0"
| "compare_from pa pb (i # is) =
     (let diff = part_at pa i - part_at pb i
      in if diff \<noteq> 0 then if diff > 0 then 1 else -1 else compare_from pa pb is)"

definition compareVersions :: "string option \<Rightarrow> string option \<Rightarrow> int" where
  "compareVersions a b =
     (let pa = version_parts a; pb = version_parts b
      in compare_from pa pb [0..<max (length pa) (length pb)])"

definition nonempty_text :: "string option \<Rightarrow> bool" where
  "nonempty_text v = (case v of None \<Rightarrow> False | Some s \<Rightarrow> s \<noteq> [])"

definition isAgentVersionAtLeast :: "string option \<Rightarrow> string option \<Rightarrow> bool" where
  "isAgentVersionAtLeast version target \<longleftrightarrow>
     nonempty_text version \<and> nonempty_text target \<and> compareVersions version target \<ge> 0"

definition isAgentVersionBehind :: "string option \<Rightarrow> string option \<Rightarrow> bool" where
  "isAgentVersionBehind version target \<longleftrightarrow>
     nonempty_text version \<and> nonempty_text target \<and> compareVersions version target < 0"

definition isAgentUpgradeTargetSatisfied :: "string option \<Rightarrow> string option \<Rightarrow> string option \<Rightarrow> bool" where
  "isAgentUpgradeTargetSatisfied version target currentSupportedVersion =
     (if \<not> nonempty_text version \<or> \<not> nonempty_text target then False
      else
        let v = normalizeVersion version; t = normalizeVersion target in
        if v = [] \<or> t = [] then False
        else if nonempty_text currentSupportedVersion \<and> compareVersions (Some t) currentSupportedVersion < 0
        then v = t
        else compareVersions (Some v) (Some t) \<ge> 0)"

definition hasAgentVersionChanged :: "string option \<Rightarrow> string option \<Rightarrow> bool" where
  "hasAgentVersionChanged previousVersion reportedVersion =
     (let reported = normalizeVersion reportedVersion
      in if reported = [] then False else reported \<noteq> normalizeVersion previousVersion)"

section \<open>Versions are ordered\<close>

text \<open>Positions beyond both versions do not count, so all comparisons can use one length.\<close>

lemma compare_from_append:
  "compare_from pa pb (is @ js) =
     (if compare_from pa pb is \<noteq> 0 then compare_from pa pb is else compare_from pa pb js)"
  by (induction "is") (auto simp: Let_def)

lemma compare_from_zero: "(\<forall>i \<in> set is. part_at pa i = part_at pb i) \<Longrightarrow> compare_from pa pb is = 0"
  by (induction "is") auto

lemma compareVersions_upto:
  assumes "max (length (version_parts a)) (length (version_parts b)) \<le> n"
  shows "compareVersions a b = compare_from (version_parts a) (version_parts b) [0..<n]"
proof -
  let ?m = "max (length (version_parts a)) (length (version_parts b))"
  have "[0..<n] = [0..<?m] @ [?m..<n]" using assms by (metis le_add_diff_inverse upt_add_eq_append zero_le)
  moreover have "compare_from (version_parts a) (version_parts b) [?m..<n] = 0"
    by (rule compare_from_zero) (auto simp: part_at_def)
  ultimately show ?thesis by (simp add: compareVersions_def Let_def compare_from_append)
qed

lemma compare_from_sym: "compare_from pb pa is = - compare_from pa pb is"
  by (induction "is") (auto simp: Let_def)

lemma compare_from_range: "compare_from pa pb is \<in> {-1, 0, 1}"
  by (induction "is") (auto simp: Let_def)

lemma compare_from_Cons_nonneg:
  "0 \<le> compare_from pa pb (i # is) \<longleftrightarrow>
     part_at pb i < part_at pa i \<or> part_at pa i = part_at pb i \<and> 0 \<le> compare_from pa pb is"
  by (simp add: Let_def)

declare compare_from.simps(2) [simp del]

lemma compare_from_trans:
  "0 \<le> compare_from pa pb is \<Longrightarrow> 0 \<le> compare_from pb pc is \<Longrightarrow> 0 \<le> compare_from pa pc is"
proof (induction "is")
  case (Cons i "is")
  then show ?case unfolding compare_from_Cons_nonneg by (metis less_trans)
qed simp

lemma compareVersions_sym: "compareVersions b a = - compareVersions a b"
  unfolding compareVersions_def Let_def
  by (subst compare_from_sym) (simp add: max.commute)

lemma compareVersions_trans:
  assumes "0 \<le> compareVersions a b" and "0 \<le> compareVersions b c"
  shows "0 \<le> compareVersions a c"
proof -
  define n where "n = length (version_parts a) + length (version_parts b) + length (version_parts c)"
  have eq: "compareVersions a b = compare_from (version_parts a) (version_parts b) [0..<n]"
    "compareVersions b c = compare_from (version_parts b) (version_parts c) [0..<n]"
    "compareVersions a c = compare_from (version_parts a) (version_parts c) [0..<n]"
    by (rule compareVersions_upto; simp add: n_def)+
  show ?thesis using assms compare_from_trans unfolding eq by blast
qed

text \<open>A newer agent has the capabilities of an older one.\<close>

lemma isAgentVersionAtLeast_mono:
  "isAgentVersionAtLeast a b \<Longrightarrow> isAgentVersionAtLeast b c \<Longrightarrow> isAgentVersionAtLeast a c"
  by (auto simp: isAgentVersionAtLeast_def intro: compareVersions_trans)

lemma isAgentVersionBehind_iff:
  "nonempty_text v \<Longrightarrow> nonempty_text t \<Longrightarrow> isAgentVersionBehind v t \<longleftrightarrow> \<not> isAgentVersionAtLeast v t"
  by (auto simp: isAgentVersionBehind_def isAgentVersionAtLeast_def)

end
