(* ===== verification/Fast_Liveness.thy ===== *)
theory Fast_Liveness
  imports Timers Agent_Versions
begin

text \<open>
  \<open>server/agentFastLiveness.ts\<close>: hosts whose agent reports its presence every few seconds are
  declared offline after a time of silence, by one timer for each host.
  Each operation reads the clock once, \<open>now\<close>. The transitions that \<open>emit\<close> hands to the
  listeners are returned; what listeners do, and the report of their failures, does not reach
  the tracker. \<open>Date\<close> values and their parsing are library code: a timestamp is a date with its
  number, or another value with the number that \<open>new Date(String(value))\<close> has for it.
\<close>

section \<open>The tracker\<close>

definition AGENT_FAST_LIVENESS_MIN_VERSION :: string where
  "AGENT_FAST_LIVENESS_MIN_VERSION = ''2.2.171''"

definition AGENT_FAST_LIVENESS_SILENCE_MS :: rat where
  "AGENT_FAST_LIVENESS_SILENCE_MS = 90000"

definition AGENT_FAST_LIVENESS_STARTUP_GRACE_MS :: rat where
  "AGENT_FAST_LIVENESS_STARTUP_GRACE_MS = 90000"

record live_host =
  lh_agentVersion :: string
  lh_transitionEpoch :: int
  lh_lastSeenAt :: "rat option"
  lh_deadlineAt :: rat
  lh_offlineAt :: "rat option"
  lh_lastOfflineAt :: "rat option"
  lh_confirmedOffline :: bool
  lh_timerGeneration :: int
  lh_timer :: "nat option"

record tracker =
  tr_silenceMs :: rat
  tr_startupGraceMs :: rat
  tr_hosts :: "(int, live_host) jsmap"
  tr_epoch :: int
  tr_timers :: "(rat, int \<times> int) timers"

datatype transition_kind = ConfirmedOffline | ActivityRestored

text \<open>An event: its kind, the host and a snapshot of its state.\<close>

type_synonym transition = "transition_kind \<times> int \<times> live_host"

datatype timestamp = DateValue jsnum | OtherValue jsval jsnum

definition positiveHostId :: "jsval \<Rightarrow> int option" where
  "positiveHostId value = (case js_integer (to_number value) of
     None \<Rightarrow> None | Some hostId \<Rightarrow> if hostId > 0 then Some hostId else None)"

definition capped_time :: "jsnum \<Rightarrow> rat \<Rightarrow> rat option" where
  "capped_time t now = (case js_finite t of None \<Rightarrow> None | Some q \<Rightarrow> if q > 0 then Some (min q now) else None)"

definition normalizedTimestamp :: "timestamp \<Rightarrow> rat \<Rightarrow> rat option" where
  "normalizedTimestamp value now =
     (case value of
        DateValue t \<Rightarrow> capped_time t now
      | OtherValue v parsed \<Rightarrow>
          (case capped_time (to_number v) now of
             Some t \<Rightarrow> Some t | None \<Rightarrow> capped_time parsed now))"

definition nextGeneration :: "int \<Rightarrow> int" where
  "nextGeneration current = (if current \<ge> MAX_SAFE_INTEGER then 1 else current + 1)"

definition supportsAgentFastLiveness :: "string \<Rightarrow> bool" where
  "supportsAgentFastLiveness agentVersion =
     isAgentVersionAtLeast (Some agentVersion) (Some AGENT_FAST_LIVENESS_MIN_VERSION)"

definition new_tracker :: "rat option \<Rightarrow> rat option \<Rightarrow> tracker" where
  "new_tracker silence grace =
     \<lparr>tr_silenceMs = max 1 (case silence of None \<Rightarrow> AGENT_FAST_LIVENESS_SILENCE_MS | Some s \<Rightarrow> s),
      tr_startupGraceMs = max 0 (case grace of None \<Rightarrow> AGENT_FAST_LIVENESS_STARTUP_GRACE_MS | Some s \<Rightarrow> s),
      tr_hosts = [], tr_epoch = 0, tr_timers = no_timers\<rparr>"

text \<open>\<open>arm\<close>: the state, with its timer, is stored for the host.\<close>

definition arm_host :: "rat \<Rightarrow> int \<Rightarrow> live_host \<Rightarrow> tracker \<Rightarrow> live_host \<times> tracker" where
  "arm_host now hostId state s =
     (let (timer, ts) = setTimer now (max 0 (lh_deadlineAt state - now)) (hostId, lh_timerGeneration state) (tr_timers s);
          state' = state\<lparr>lh_timer := Some timer\<rparr>
      in (state', s\<lparr>tr_hosts := map_set hostId state' (tr_hosts s), tr_timers := ts\<rparr>))"

definition clear_host_timer :: "live_host \<Rightarrow> tracker \<Rightarrow> tracker" where
  "clear_host_timer state s =
     (case lh_timer state of None \<Rightarrow> s | Some h \<Rightarrow> s\<lparr>tr_timers := clearTimer h (tr_timers s)\<rparr>)"

definition observe_state :: "rat \<Rightarrow> rat \<Rightarrow> int \<Rightarrow> rat \<Rightarrow> live_host \<Rightarrow> live_host" where
  "observe_state now seenAt epoch silence state =
     state\<lparr>lh_timer := None,
           lh_timerGeneration := nextGeneration (lh_timerGeneration state),
           lh_lastSeenAt := Some (max (case lh_lastSeenAt state of None \<Rightarrow> 0 | Some t \<Rightarrow> t) seenAt),
           lh_deadlineAt := now + silence,
           lh_confirmedOffline := False,
           lh_offlineAt := None,
           lh_transitionEpoch := epoch\<rparr>"

definition observe_host :: "rat \<Rightarrow> int \<Rightarrow> timestamp \<Rightarrow> tracker \<Rightarrow> bool \<times> transition list \<times> tracker" where
  "observe_host now hostId seenAtValue s =
     (case map_get (tr_hosts s) hostId of
        None \<Rightarrow> (False, [], s)
      | Some state \<Rightarrow>
          (let seenAt = (case normalizedTimestamp seenAtValue now of None \<Rightarrow> now | Some t \<Rightarrow> t);
               wasOffline = lh_confirmedOffline state;
               s1 = clear_host_timer state s;
               s2 = (if wasOffline then s1\<lparr>tr_epoch := nextGeneration (tr_epoch s1)\<rparr> else s1);
               epoch = (if wasOffline then tr_epoch s2 else lh_transitionEpoch state);
               (state', s3) = arm_host now hostId (observe_state now seenAt epoch (tr_silenceMs s) state) s2
           in (True, (if wasOffline then [(ActivityRestored, hostId, state')] else []), s3)))"

definition observeActivity :: "rat \<Rightarrow> jsval \<Rightarrow> timestamp \<Rightarrow> tracker \<Rightarrow> bool \<times> transition list \<times> tracker" where
  "observeActivity now hostIdValue seenAtValue s =
     (case positiveHostId hostIdValue of
        None \<Rightarrow> (False, [], s) | Some hostId \<Rightarrow> observe_host now hostId seenAtValue s)"

definition remove_host :: "int \<Rightarrow> tracker \<Rightarrow> bool \<times> tracker" where
  "remove_host hostId s =
     (case map_get (tr_hosts s) hostId of
        None \<Rightarrow> (False, s)
      | Some state \<Rightarrow>
          (let s1 = clear_host_timer state s in (True, s1\<lparr>tr_hosts := map_delete hostId (tr_hosts s1)\<rparr>)))"

definition removeHost :: "jsval \<Rightarrow> tracker \<Rightarrow> bool \<times> tracker" where
  "removeHost hostIdValue s =
     (case positiveHostId hostIdValue of None \<Rightarrow> (False, s) | Some hostId \<Rightarrow> remove_host hostId s)"

text \<open>What the tracker reads of a host: its id, its version, its last heartbeat and its flag.\<close>

record host_info =
  hi_hostId :: jsval
  hi_agentVersion :: "string option"
  hi_lastHeartbeat :: timestamp
  hi_isOnline :: jsval

definition registerHost ::
  "rat \<Rightarrow> host_info \<Rightarrow> bool \<Rightarrow> timestamp option \<Rightarrow> tracker \<Rightarrow> bool \<times> transition list \<times> tracker" where
  "registerHost now host startupGrace activity s =
     (case positiveHostId (hi_hostId host) of
        None \<Rightarrow> (False, [], s)
      | Some hostId \<Rightarrow>
          (let agentVersion = js_trim (case hi_agentVersion host of None \<Rightarrow> [] | Some v \<Rightarrow> v) in
           if \<not> supportsAgentFastLiveness agentVersion then (False, [], snd (remove_host hostId s))
           else case map_get (tr_hosts s) hostId of
               Some existing \<Rightarrow>
                 (let s1 = s\<lparr>tr_hosts := map_set hostId (existing\<lparr>lh_agentVersion := agentVersion\<rparr>) (tr_hosts s)\<rparr>
                  in case activity of
                       None \<Rightarrow> (True, [], s1)
                     | Some a \<Rightarrow> (let (_, events, s2) = observe_host now hostId a s1 in (True, events, s2)))
             | None \<Rightarrow>
                 (let activityAt = (case activity of None \<Rightarrow> None
                        | Some a \<Rightarrow> Some (case normalizedTimestamp a now of None \<Rightarrow> now | Some t \<Rightarrow> t));
                      persistedSeenAt = normalizedTimestamp (hi_lastHeartbeat host) now;
                      persistedOffline = (startupGrace \<and> hi_isOnline host \<in> {JBool False, JNum (num 0), JStr ''0''});
                      deadlineDelay = (if startupGrace \<and> activityAt = None then tr_startupGraceMs s else tr_silenceMs s);
                      state = \<lparr>lh_agentVersion = agentVersion, lh_transitionEpoch = 0,
                        lh_lastSeenAt = (case activityAt of None \<Rightarrow> persistedSeenAt | Some t \<Rightarrow> Some t),
                        lh_deadlineAt = now + deadlineDelay, lh_offlineAt = None,
                        lh_lastOfflineAt = (if persistedOffline then Some now else None),
                        lh_confirmedOffline = False, lh_timerGeneration = 1, lh_timer = None\<rparr>
                  in (True, [], snd (arm_host now hostId state s)))))"

definition primeHosts :: "rat \<Rightarrow> host_info list \<Rightarrow> tracker \<Rightarrow> nat \<times> tracker" where
  "primeHosts now hosts s =
     fold (\<lambda>host (eligible, s). let (ok, _, s') = registerHost now host True None s
                                in (if ok then Suc eligible else eligible, s')) hosts (0, s)"

definition registerPresenceCapableHost ::
  "rat \<Rightarrow> jsval \<Rightarrow> timestamp \<Rightarrow> tracker \<Rightarrow> bool \<times> transition list \<times> tracker" where
  "registerPresenceCapableHost now hostIdValue seenAtValue s =
     (case positiveHostId hostIdValue of
        None \<Rightarrow> (False, [], s)
      | Some hostId \<Rightarrow>
          if map_has (tr_hosts s) hostId then observe_host now hostId seenAtValue s
          else registerHost now
                 \<lparr>hi_hostId = JNum (num hostId), hi_agentVersion = Some AGENT_FAST_LIVENESS_MIN_VERSION,
                  hi_lastHeartbeat = OtherValue JUndef NaN, hi_isOnline = JUndef\<rparr>
                 False (Some seenAtValue) s)"

definition clear_tracker :: "tracker \<Rightarrow> tracker" where
  "clear_tracker s = (fold (\<lambda>(_, state). clear_host_timer state) (tr_hosts s) s)\<lparr>tr_hosts := []\<rparr>"

definition hasHost :: "jsval \<Rightarrow> tracker \<Rightarrow> bool" where
  "hasHost v s = (case positiveHostId v of None \<Rightarrow> False | Some hostId \<Rightarrow> map_has (tr_hosts s) hostId)"

definition host_state :: "jsval \<Rightarrow> tracker \<Rightarrow> live_host option" where
  "host_state v s = Option.bind (positiveHostId v) (map_get (tr_hosts s))"

definition isConfirmedOffline :: "jsval \<Rightarrow> tracker \<Rightarrow> bool" where
  "isConfirmedOffline v s = (case host_state v s of None \<Rightarrow> False | Some st \<Rightarrow> lh_confirmedOffline st)"

definition isCurrentTransition :: "jsval \<Rightarrow> jsval \<Rightarrow> bool option \<Rightarrow> tracker \<Rightarrow> bool" where
  "isCurrentTransition v epochValue confirmedOffline s =
     (case (positiveHostId v, safe_positive (to_number epochValue)) of
        (Some hostId, Some epoch) \<Rightarrow>
          (case map_get (tr_hosts s) hostId of
             None \<Rightarrow> False
           | Some st \<Rightarrow> lh_transitionEpoch st = epoch \<and>
               (case confirmedOffline of None \<Rightarrow> True | Some b \<Rightarrow> lh_confirmedOffline st = b))
      | _ \<Rightarrow> False)"

definition registeredHostIds :: "tracker \<Rightarrow> int list" where
  "registeredHostIds s = map fst (tr_hosts s)"

text \<open>
  The timer callback. A timer may run before its delay is over by the clock of the panel, so
  the model lets every timer run at any time.
\<close>

definition fire_timer :: "nat \<Rightarrow> rat \<Rightarrow> tracker \<Rightarrow> transition list \<times> tracker" where
  "fire_timer h now s0 =
     (case timer_payload (tr_timers s0) h of
        None \<Rightarrow> ([], s0)
      | Some (hostId, timerGeneration) \<Rightarrow>
          (let s = s0\<lparr>tr_timers := clearTimer h (tr_timers s0)\<rparr> in
           case map_get (tr_hosts s) hostId of
             None \<Rightarrow> ([], s)
           | Some state \<Rightarrow>
               if lh_timerGeneration state \<noteq> timerGeneration \<or> lh_timer state \<noteq> Some h then ([], s)
               else
                 let current = state\<lparr>lh_timer := None\<rparr> in
                 if now < lh_deadlineAt current then ([], snd (arm_host now hostId current s))
                 else if lh_confirmedOffline current
                 then ([], s\<lparr>tr_hosts := map_set hostId current (tr_hosts s)\<rparr>)
                 else
                   let epoch = nextGeneration (tr_epoch s);
                       state' = current\<lparr>lh_confirmedOffline := True, lh_offlineAt := Some now,
                         lh_lastOfflineAt := Some now, lh_transitionEpoch := epoch\<rparr>
                   in ([(ConfirmedOffline, hostId, state')],
                       s\<lparr>tr_epoch := epoch, tr_hosts := map_set hostId state' (tr_hosts s)\<rparr>)))"

datatype live_op =
    Register host_info bool "timestamp option" | Presence jsval timestamp | Observe jsval timestamp
  | Remove jsval | ClearAll | Fire nat

fun live_step :: "rat \<Rightarrow> live_op \<Rightarrow> tracker \<Rightarrow> transition list \<times> tracker" where
  "live_step now (Register host grace activity) s = snd (registerHost now host grace activity s)"
| "live_step now (Presence v t) s = snd (registerPresenceCapableHost now v t s)"
| "live_step now (Observe v t) s = snd (observeActivity now v t s)"
| "live_step now (Remove v) s = ([], snd (removeHost v s))"
| "live_step now ClearAll s = ([], clear_tracker s)"
| "live_step now (Fire h) s = fire_timer h now s"


section \<open>One timer for every live host\<close>

definition armed :: "tracker \<Rightarrow> int \<Rightarrow> nat option" where
  "armed s k = Option.bind (map_get (tr_hosts s) k) lh_timer"

text \<open>
  A host has a timer exactly while it is not confirmed offline; the timer carries the host's
  generation and is due at its deadline.
\<close>

definition host_ok :: "tracker \<Rightarrow> int \<Rightarrow> live_host \<Rightarrow> bool" where
  "host_ok s k st \<longleftrightarrow>
     lh_confirmedOffline st = (lh_timer st = None) \<and>
     (\<forall>h. lh_timer st = Some h \<longrightarrow>
        map_get (active (tr_timers s)) h = Some (lh_deadlineAt st, k, lh_timerGeneration st))"

abbreviation host_of_timer :: "int \<times> int \<Rightarrow> int option" where
  "host_of_timer p \<equiv> Some (fst p)"

definition live_ok :: "tracker \<Rightarrow> bool" where
  "live_ok s \<longleftrightarrow> tracks host_of_timer (armed s) (tr_timers s) \<and>
     (\<forall>k st. map_get (tr_hosts s) k = Some st \<longrightarrow> host_ok s k st)"

text \<open>The same, one host left aside.\<close>

definition live_except :: "int \<Rightarrow> tracker \<Rightarrow> bool" where
  "live_except k s \<longleftrightarrow> tracks host_of_timer ((armed s)(k := None)) (tr_timers s) \<and>
     (\<forall>k' st. k' \<noteq> k \<longrightarrow> map_get (tr_hosts s) k' = Some st \<longrightarrow> host_ok s k' st)"

lemma live_ok_new: "live_ok (new_tracker a b)"
proof -
  have "armed (new_tracker a b) = (\<lambda>_. None)" by (simp add: armed_def new_tracker_def fun_eq_iff)
  then show ?thesis using tracks_empty by (simp add: live_ok_def) (simp add: new_tracker_def)
qed

lemma armed_hosts_set: "armed (s\<lparr>tr_hosts := map_set k st (tr_hosts s)\<rparr>) = (armed s)(k := lh_timer st)"
  by (auto simp: armed_def map_get_set)

lemma armed_hosts_delete: "armed (s\<lparr>tr_hosts := map_delete k (tr_hosts s)\<rparr>) = (armed s)(k := None)"
  by (auto simp: armed_def map_get_delete)

lemma armed_other [simp]:
  "armed (s\<lparr>tr_timers := ts\<rparr>) = armed s" "armed (s\<lparr>tr_epoch := e\<rparr>) = armed s"
  "armed (s\<lparr>tr_epoch := e, tr_hosts := hs\<rparr>) = armed (s\<lparr>tr_hosts := hs\<rparr>)"
  by (simp_all add: armed_def fun_eq_iff)

lemma host_ok_upd [simp]:
  "host_ok (s\<lparr>tr_hosts := hs\<rparr>) k st = host_ok s k st" "host_ok (s\<lparr>tr_epoch := e\<rparr>) k st = host_ok s k st"
  "host_ok (s\<lparr>tr_epoch := e, tr_hosts := hs\<rparr>) k st = host_ok s k st"
  by (simp_all add: host_ok_def)

lemma live_except_epoch [simp]: "live_except k (s\<lparr>tr_epoch := e\<rparr>) = live_except k s"
  by (simp add: live_except_def)

text \<open>A host that is not registered, or whose timer was cleared, is left aside.\<close>

lemma live_except_absent: "live_ok s \<Longrightarrow> map_get (tr_hosts s) k = None \<Longrightarrow> live_except k s"
  by (simp add: live_ok_def live_except_def armed_def fun_upd_idem)

lemma live_except_clear:
  assumes ok: "live_ok s" and st: "map_get (tr_hosts s) k = Some st"
  shows "live_except k (clear_host_timer st s)"
proof (cases "lh_timer st")
  case None
  then have "(armed s)(k := None) = armed s" by (auto simp: armed_def st)
  then show ?thesis using ok None by (simp add: clear_host_timer_def live_except_def live_ok_def)
next
  case (Some h)
  have h: "armed s k = Some h" by (simp add: armed_def st Some)
  have tr: "tracks host_of_timer (armed s) (tr_timers s)" using ok by (simp add: live_ok_def)
  have "host_ok (s\<lparr>tr_timers := clearTimer h (tr_timers s)\<rparr>) k' st'"
    if "k' \<noteq> k" "map_get (tr_hosts s) k' = Some st'" for k' st'
  proof -
    have "host_ok s k' st'" using ok that(2) by (simp add: live_ok_def)
    moreover have "lh_timer st' \<noteq> Some h"
    proof
      assume "lh_timer st' = Some h"
      then have "armed s k' = Some h" by (simp add: armed_def that(2))
      then show False using tracks_inj [OF tr _ h] that(1) by blast
    qed
    ultimately show ?thesis by (auto simp: host_ok_def clearTimer_def map_get_delete)
  qed
  then show ?thesis using Some tracks_clear [OF tr h] by (simp add: clear_host_timer_def live_except_def)
qed

lemma live_ok_arm:
  assumes "live_except k s" and "now \<le> lh_deadlineAt st" and "\<not> lh_confirmedOffline st"
  shows "live_ok (snd (arm_host now k st s))"
proof -
  obtain h ts where set: "setTimer now (max 0 (lh_deadlineAt st - now)) (k, lh_timerGeneration st) (tr_timers s) = (h, ts)"
    by fastforce
  have tr: "tracks host_of_timer ((armed s)(k := None)) (tr_timers s)"
    using assms(1) by (simp add: live_except_def)
  have "tracks host_of_timer (((armed s)(k := None))(k := Some h)) ts"
    by (rule tracks_set [OF tr _ set]) simp_all
  moreover have h: "h = nextHandle (tr_timers s)"
    and act: "active ts = active (tr_timers s) @ [(h, lh_deadlineAt st, k, lh_timerGeneration st)]"
    using set assms(2) by (auto simp: setTimer_def max_def)
  have fresh: "map_get (active (tr_timers s)) h = None"
    unfolding h by (rule fresh_handle_get [OF tracks_wf [OF tr]])
  have keep: "host_ok (s\<lparr>tr_hosts := hs, tr_timers := ts\<rparr>) k' st'" if "host_ok s k' st'" for hs k' st'
    using that by (simp add: host_ok_def act map_get_snoc del: map_of_append split: option.split)
  have own: "host_ok (s\<lparr>tr_hosts := hs, tr_timers := ts\<rparr>) k (st\<lparr>lh_timer := Some h\<rparr>)" for hs
    using assms(3) by (simp add: host_ok_def act map_get_snoc fresh del: map_of_append)
  ultimately show ?thesis
    using assms(1) set keep own by (simp add: arm_host_def live_ok_def live_except_def armed_hosts_set map_get_set Let_def)
qed

lemma live_ok_set_offline:
  "live_except k s \<Longrightarrow> lh_timer st = None \<Longrightarrow> lh_confirmedOffline st \<Longrightarrow>
   live_ok (s\<lparr>tr_hosts := map_set k st (tr_hosts s)\<rparr>)"
  by (auto simp: live_except_def live_ok_def armed_hosts_set map_get_set host_ok_def)

lemma live_ok_delete: "live_except k s \<Longrightarrow> live_ok (s\<lparr>tr_hosts := map_delete k (tr_hosts s)\<rparr>)"
  by (simp add: live_except_def live_ok_def armed_hosts_delete map_get_delete)

lemma live_ok_version:
  assumes "live_ok s" and "map_get (tr_hosts s) k = Some st"
  shows "live_ok (s\<lparr>tr_hosts := map_set k (st\<lparr>lh_agentVersion := v\<rparr>) (tr_hosts s)\<rparr>)"
proof -
  have "(armed s)(k := lh_timer st) = armed s" using assms(2) by (auto simp: armed_def)
  moreover have "host_ok s k st" using assms by (simp add: live_ok_def)
  then have "host_ok s k (st\<lparr>lh_agentVersion := v\<rparr>)" by (simp add: host_ok_def)
  ultimately show ?thesis using assms(1) by (simp add: live_ok_def armed_hosts_set map_get_set)
qed

lemma clear_host_timer_keeps [simp]:
  "tr_hosts (clear_host_timer st s) = tr_hosts s" "tr_silenceMs (clear_host_timer st s) = tr_silenceMs s"
  "tr_startupGraceMs (clear_host_timer st s) = tr_startupGraceMs s" "tr_epoch (clear_host_timer st s) = tr_epoch s"
  by (simp_all add: clear_host_timer_def split: option.split)

lemma live_ok_observe:
  assumes "live_ok s" and "0 \<le> tr_silenceMs s"
  shows "live_ok (snd (snd (observe_host now k t s)))"
proof (cases "map_get (tr_hosts s) k")
  case (Some st)
  have e: "live_except k (clear_host_timer st s)" by (rule live_except_clear [OF assms(1) Some])
  have "live_ok (snd (arm_host now k (observe_state now seen ep (tr_silenceMs s) st) s'))"
    if "live_except k s'" for seen ep s'
    using that assms(2) by (intro live_ok_arm) (simp_all add: observe_state_def)
  then show ?thesis using e by (simp add: observe_host_def Some Let_def split: prod.split) (metis snd_conv live_except_epoch e)
qed (use assms in \<open>simp add: observe_host_def\<close>)

lemma live_ok_remove: "live_ok s \<Longrightarrow> live_ok (snd (remove_host k s))"
  using live_ok_delete [OF live_except_clear, of s k]
  by (auto simp: remove_host_def Let_def split: option.split)

lemma live_ok_register:
  assumes "live_ok s" and "0 \<le> tr_silenceMs s" and "0 \<le> tr_startupGraceMs s"
  shows "live_ok (snd (snd (registerHost now host grace activity s)))"
proof (cases "positiveHostId (hi_hostId host)")
  case (Some k)
  show ?thesis
  proof (cases "map_get (tr_hosts s) k")
    case None
    then show ?thesis
      using assms Some live_ok_remove [OF assms(1), of k]
      by (auto simp: registerHost_def Let_def intro!: live_ok_arm live_except_absent)
  next
    case (Some st)
    have "live_ok (s\<lparr>tr_hosts := map_set k (st\<lparr>lh_agentVersion := v\<rparr>) (tr_hosts s)\<rparr>)" for v
      by (rule live_ok_version [OF assms(1) Some])
    then show ?thesis
      using Some \<open>positiveHostId (hi_hostId host) = Some k\<close> assms live_ok_remove [OF assms(1), of k]
      by (auto simp: registerHost_def Let_def case_prod_unfold intro!: live_ok_observe split: option.split)
  qed
qed (use assms in \<open>simp add: registerHost_def\<close>)

lemma live_ok_presence:
  assumes "live_ok s" and "0 \<le> tr_silenceMs s" and "0 \<le> tr_startupGraceMs s"
  shows "live_ok (snd (snd (registerPresenceCapableHost now v t s)))"
  using assms
  by (auto simp: registerPresenceCapableHost_def live_ok_observe live_ok_register split: option.split)

lemma live_ok_fire:
  assumes ok: "live_ok s"
  shows "live_ok (snd (fire_timer h now s))"
proof (cases "timer_payload (tr_timers s) h")
  case (Some p)
  obtain k g where p: "p = (k, g)" by fastforce
  have tr: "tracks host_of_timer (armed s) (tr_timers s)" using ok by (simp add: live_ok_def)
  have "armed s k = Some h" using tracks_payload [OF tr Some, of k] p by simp
  then obtain st where st: "map_get (tr_hosts s) k = Some st" "lh_timer st = Some h"
    by (cases "map_get (tr_hosts s) k") (auto simp: armed_def)
  have e: "live_except k (s\<lparr>tr_timers := clearTimer h (tr_timers s)\<rparr>)"
    using live_except_clear [OF ok st(1)] st(2) by (simp add: clear_host_timer_def)
  have ok_st: "host_ok s k st" using ok st(1) by (simp add: live_ok_def)
  then have "lh_timerGeneration st = g" "\<not> lh_confirmedOffline st"
    using st(2) Some p by (auto simp: host_ok_def timer_payload_def)
  moreover have "live_ok (snd (arm_host now k (st\<lparr>lh_timer := None\<rparr>) (s\<lparr>tr_timers := clearTimer h (tr_timers s)\<rparr>)))"
    if "now < lh_deadlineAt st"
    using e that \<open>\<not> lh_confirmedOffline st\<close> by (intro live_ok_arm) simp_all
  ultimately show ?thesis
    using st Some p e live_ok_set_offline [of k "s\<lparr>tr_timers := clearTimer h (tr_timers s), tr_epoch := nextGeneration (tr_epoch s)\<rparr>"]
    by (simp add: fire_timer_def Let_def)
qed (use ok in \<open>simp add: fire_timer_def\<close>)

lemma clear_host_timer_payload:
  "timer_payload (tr_timers (clear_host_timer st s)) h =
     (if lh_timer st = Some h then None else timer_payload (tr_timers s) h)"
  by (simp add: clear_host_timer_def split: option.split)

lemma clear_host_timer_wf: "wf_timers (tr_timers s) \<Longrightarrow> wf_timers (tr_timers (clear_host_timer st s))"
  by (simp add: clear_host_timer_def split: option.split)

lemma clear_all_payload:
  "timer_payload (tr_timers (fold (\<lambda>(_, state). clear_host_timer state) xs s)) h =
     (if Some h \<in> (\<lambda>x. lh_timer (snd x)) ` set xs then None else timer_payload (tr_timers s) h)"
  by (induction xs arbitrary: s) (auto simp: clear_host_timer_payload)

lemma clear_all_wf:
  "wf_timers (tr_timers s) \<Longrightarrow> wf_timers (tr_timers (fold (\<lambda>(_, state). clear_host_timer state) xs s))"
  by (induction xs arbitrary: s) (auto simp: clear_host_timer_wf)

lemma live_ok_clear:
  assumes "live_ok s" shows "live_ok (clear_tracker s)"
proof -
  let ?s = "fold (\<lambda>(_, state). clear_host_timer state) (tr_hosts s) s"
  have tr: "tracks host_of_timer (armed s) (tr_timers s)" using assms by (simp add: live_ok_def)
  have "timer_payload (tr_timers ?s) h = None" for h
  proof (cases "timer_payload (tr_timers s) h")
    case (Some p)
    then have "armed s (fst p) = Some h" using tracks_payload [OF tr] by blast
    then obtain st where "(fst p, st) \<in> set (tr_hosts s)" "lh_timer st = Some h"
      by (auto simp: armed_def dest: map_get_inD split: bind_splits)
    then have "Some h \<in> (\<lambda>x. lh_timer (snd x)) ` set (tr_hosts s)" by force
    then show ?thesis by (simp add: clear_all_payload)
  qed (simp add: clear_all_payload)
  moreover have "wf_timers (tr_timers ?s)" by (rule clear_all_wf [OF tracks_wf [OF tr]])
  moreover have "armed (clear_tracker s) = (\<lambda>_. None)" by (simp add: armed_def clear_tracker_def fun_eq_iff)
  ultimately show ?thesis by (simp add: live_ok_def tracks_def) (simp add: clear_tracker_def)
qed

section \<open>Silence is counted from the last activity\<close>

lemma arm_host_hosts [simp]:
  "tr_hosts (snd (arm_host now k st s)) =
     map_set k (st\<lparr>lh_timer := Some (nextHandle (tr_timers s))\<rparr>) (tr_hosts s)"
  "tr_silenceMs (snd (arm_host now k st s)) = tr_silenceMs s"
  "tr_startupGraceMs (snd (arm_host now k st s)) = tr_startupGraceMs s"
  by (simp_all add: arm_host_def setTimer_def Let_def)

text \<open>What observing a host does to the table.\<close>

lemma observe_host_hosts:
  assumes "map_get (tr_hosts s) k = Some st"
  shows "\<exists>st'. tr_hosts (snd (snd (observe_host now k t s))) = map_set k st' (tr_hosts s)
      \<and> lh_deadlineAt st' = now + tr_silenceMs s"
proof -
  have "\<exists>seen ep s2. snd (snd (observe_host now k t s)) =
      snd (arm_host now k (observe_state now seen ep (tr_silenceMs s) st) s2) \<and> tr_hosts s2 = tr_hosts s"
    using assms
    by (cases "lh_confirmedOffline st")
      (simp add: observe_host_def Let_def case_prod_unfold, intro exI conjI, rule refl, simp)+
  then show ?thesis by (fastforce simp: observe_state_def)
qed

text \<open>The host shows activity by the operation.\<close>

definition shows_activity :: "int \<Rightarrow> live_op \<Rightarrow> bool" where
  "shows_activity k op =
     (case op of
        Observe v _ \<Rightarrow> positiveHostId v = Some k
      | Presence v _ \<Rightarrow> positiveHostId v = Some k
      | Register host _ activity \<Rightarrow> activity \<noteq> None \<and> positiveHostId (hi_hostId host) = Some k
      | _ \<Rightarrow> False)"

definition deadline :: "tracker \<Rightarrow> int \<Rightarrow> rat option" where
  "deadline s k = map_option lh_deadlineAt (map_get (tr_hosts s) k)"

lemma deadline_observe:
  "deadline (snd (snd (observe_host now k t s))) k' =
     (if k' = k then map_option (\<lambda>_. now + tr_silenceMs s) (deadline s k) else deadline s k')"
proof (cases "map_get (tr_hosts s) k")
  case None
  then show ?thesis by (simp add: observe_host_def deadline_def)
next
  case (Some st)
  then obtain st' where "tr_hosts (snd (snd (observe_host now k t s))) = map_set k st' (tr_hosts s)"
    "lh_deadlineAt st' = now + tr_silenceMs s" using observe_host_hosts by blast
  then show ?thesis using Some by (simp add: deadline_def map_get_set)
qed

lemma deadline_remove: "deadline (snd (remove_host k s)) k' = (if k' = k then None else deadline s k')"
  by (auto simp: remove_host_def deadline_def Let_def map_get_delete split: option.split)

lemma deadline_version:
  "map_get (tr_hosts s) k = Some st \<Longrightarrow>
   deadline (s\<lparr>tr_hosts := map_set k (st\<lparr>lh_agentVersion := v\<rparr>) (tr_hosts s)\<rparr>) = deadline s"
  by (auto simp: deadline_def map_get_set)

lemma deadline_arm [simp]:
  "deadline (snd (arm_host now k st s)) k' = (if k' = k then Some (lh_deadlineAt st) else deadline s k')"
  by (simp add: deadline_def map_get_set)

text \<open>A registration leaves a deadline alone, drops it or sets it a silence or a grace from now.\<close>

lemma deadline_register:
  assumes id: "positiveHostId (hi_hostId host) = Some k"
  shows "deadline (snd (snd (registerHost now host grace activity s))) k' =
    (if k' \<noteq> k then deadline s k'
     else if \<not> supportsAgentFastLiveness (js_trim (case hi_agentVersion host of None \<Rightarrow> [] | Some v \<Rightarrow> v)) then None
     else if deadline s k = None
     then Some (now + (if grace \<and> activity = None then tr_startupGraceMs s else tr_silenceMs s))
     else if activity = None then deadline s k else Some (now + tr_silenceMs s))"
proof (cases "map_get (tr_hosts s) k")
  case None
  then have "deadline s k = None" by (simp add: deadline_def)
  then show ?thesis
    using None id by (auto simp: registerHost_def Let_def deadline_remove split: option.split)
next
  case (Some st)
  then have "deadline s k = Some (lh_deadlineAt st)" by (simp add: deadline_def)
  then show ?thesis
    using Some id deadline_version [OF Some]
    by (simp add: registerHost_def Let_def deadline_remove deadline_observe case_prod_unfold split: option.split)
qed

lemma fire_timer_cases:
  obtains (idle) "fst (fire_timer h now s) = []" and "deadline (snd (fire_timer h now s)) = deadline s"
  | (offline) k st st' where "map_get (tr_hosts s) k = Some st" and "lh_deadlineAt st \<le> now"
    and "fst (fire_timer h now s) = [(ConfirmedOffline, k, st')]"
    and "deadline (snd (fire_timer h now s)) = deadline s"
proof -
  have upd: "deadline (s'\<lparr>tr_hosts := map_set k st' (tr_hosts s')\<rparr>) = deadline s'"
    if "map_get (tr_hosts s') k = Some st" "lh_deadlineAt st' = lh_deadlineAt st" for s' k st st'
    using that by (auto simp: deadline_def map_get_set)
  have same: "deadline (s\<lparr>tr_timers := ts\<rparr>) = deadline s" "deadline (s\<lparr>tr_timers := ts, tr_epoch := e\<rparr>) = deadline s" for ts e
    by (simp_all add: deadline_def fun_eq_iff)
  show thesis
  proof (cases "timer_payload (tr_timers s) h")
    case None
    then show ?thesis by (intro idle) (simp_all add: fire_timer_def)
  next
    case (Some p)
    let ?s = "s\<lparr>tr_timers := clearTimer h (tr_timers s)\<rparr>"
    obtain k g where p: "p = (k, g)" by fastforce
    consider "map_get (tr_hosts s) k = None" | st where "map_get (tr_hosts s) k = Some st"
      by (cases "map_get (tr_hosts s) k") auto
    then show ?thesis
    proof cases
      case 1
      then show ?thesis using Some p by (intro idle) (simp_all add: fire_timer_def same Let_def)
    next
      case (2 st)
      let ?c = "st\<lparr>lh_timer := None\<rparr>"
      have arm: "deadline (snd (arm_host now k ?c ?s)) = deadline s"
        using 2 by (auto simp: fun_eq_iff deadline_def map_get_set)
      have set: "deadline (?s\<lparr>tr_hosts := map_set k ?c (tr_hosts ?s)\<rparr>) = deadline s"
        using upd [of ?s k st ?c] 2 same by simp
      have off: "deadline (?s\<lparr>tr_epoch := e, tr_hosts := map_set k st' (tr_hosts ?s)\<rparr>) = deadline s"
        if "lh_deadlineAt st' = lh_deadlineAt st" for e st'
        using upd [of "?s\<lparr>tr_epoch := e\<rparr>" k st st'] 2 same that by simp
      show ?thesis
      proof (cases "lh_timerGeneration st \<noteq> g \<or> lh_timer st \<noteq> Some h \<or> now < lh_deadlineAt st \<or> lh_confirmedOffline st")
        case True
        then show ?thesis
          using Some p 2 arm set same by (intro idle) (auto simp: fire_timer_def Let_def)
      next
        case False
        then show ?thesis
          using Some p 2 off by (intro offline [OF 2]) (auto simp: fire_timer_def Let_def)
      qed
    qed
  qed
qed

lemma deadline_clear [simp]: "deadline (clear_tracker s) k = None"
  by (simp add: deadline_def clear_tracker_def)

text \<open>One step: a host that has a deadline afterwards had it before, or got it from now on.\<close>

lemma deadline_step:
  assumes "deadline (snd (live_step now op s)) k = Some d" and "tr_silenceMs s \<le> tr_startupGraceMs s"
  shows "now + tr_silenceMs s \<le> d \<or> \<not> shows_activity k op \<and> deadline s k = Some d"
proof (cases op)
  case (Register host grace activity)
  show ?thesis
  proof (cases "positiveHostId (hi_hostId host)")
    case None
    then show ?thesis using Register assms by (simp add: registerHost_def shows_activity_def)
  next
    case (Some k')
    show ?thesis
      using assms Register deadline_register [OF Some, of now grace activity s k]
      by (auto simp: Some shows_activity_def split: if_splits)
  qed
next
  case (Presence v t)
  show ?thesis
  proof (cases "positiveHostId v")
    case None
    then show ?thesis using Presence assms by (simp add: registerPresenceCapableHost_def shows_activity_def)
  next
    case (Some k')
    let ?host = "\<lparr>hi_hostId = JNum (num k'), hi_agentVersion = Some AGENT_FAST_LIVENESS_MIN_VERSION,
        hi_lastHeartbeat = OtherValue JUndef NaN, hi_isOnline = JUndef\<rparr>"
    have "positiveHostId (hi_hostId ?host) = Some k'"
      using Some by (auto simp: positiveHostId_def split: option.splits if_splits)
    then show ?thesis
      using assms Presence Some deadline_register [of ?host k' now False "Some t" s k] deadline_observe [of now k' t s k]
      by (auto simp: registerPresenceCapableHost_def shows_activity_def dest: sym [of "Some _"] split: if_splits)
  qed
next
  case (Observe v t)
  then show ?thesis
    using assms by (auto simp: observeActivity_def shows_activity_def deadline_observe split: option.splits if_splits)
next
  case (Remove v)
  then show ?thesis
    using assms by (auto simp: removeHost_def shows_activity_def deadline_remove split: option.splits if_splits)
next
  case ClearAll
  then show ?thesis using assms by simp
next
  case (Fire h)
  then show ?thesis
    using assms fire_timer_cases [of h now s] by (metis live_step.simps(6) live_op.simps(41) shows_activity_def)
qed

lemma conf_step:
  "tr_silenceMs (snd (live_step now op s)) = tr_silenceMs s \<and>
   tr_startupGraceMs (snd (live_step now op s)) = tr_startupGraceMs s"
proof -
  have obs: "tr_silenceMs (snd (snd (observe_host now k t s))) = tr_silenceMs s \<and>
      tr_startupGraceMs (snd (snd (observe_host now k t s))) = tr_startupGraceMs s" for k t s
    by (simp add: observe_host_def Let_def case_prod_unfold split: option.split)
  have rem: "tr_silenceMs (snd (remove_host k s)) = tr_silenceMs s \<and>
      tr_startupGraceMs (snd (remove_host k s)) = tr_startupGraceMs s" for k s
    by (simp add: remove_host_def Let_def split: option.split)
  have reg: "tr_silenceMs (snd (snd (registerHost now host g a s))) = tr_silenceMs s \<and>
      tr_startupGraceMs (snd (snd (registerHost now host g a s))) = tr_startupGraceMs s" for host g a s
    by (simp add: registerHost_def Let_def case_prod_unfold obs rem split: option.split)
  have clear: "tr_silenceMs (fold (\<lambda>(_, state). clear_host_timer state) xs s) = tr_silenceMs s \<and>
      tr_startupGraceMs (fold (\<lambda>(_, state). clear_host_timer state) xs s) = tr_startupGraceMs s" for xs s
    by (induction xs arbitrary: s) auto
  show ?thesis
    by (cases op)
      (simp_all add: obs rem reg clear registerPresenceCapableHost_def observeActivity_def removeHost_def
        clear_tracker_def fire_timer_def Let_def split: option.split)
qed

definition live_run :: "(rat \<times> live_op) list \<Rightarrow> tracker \<Rightarrow> tracker" where
  "live_run ops s = fold (\<lambda>(now, op) s. snd (live_step now op s)) ops s"

lemma live_run_snoc [simp]: "live_run (ops @ [(now, op)]) s = snd (live_step now op (live_run ops s))"
  by (simp add: live_run_def)

lemma live_run_Nil [simp]: "live_run [] s = s"
  by (simp add: live_run_def)

lemma conf_run:
  "tr_silenceMs (live_run ops s) = tr_silenceMs s \<and> tr_startupGraceMs (live_run ops s) = tr_startupGraceMs s"
  by (induction ops rule: rev_induct) (auto simp: conf_step)

lemma deadline_run:
  assumes "sorted (map fst ops)" and "tr_silenceMs s \<le> tr_startupGraceMs s"
    and "deadline (live_run ops s) k = Some d" and "(t, op) \<in> set ops" and "shows_activity k op"
  shows "t + tr_silenceMs s \<le> d"
  using assms(1,3,4)
proof (induction ops arbitrary: d rule: rev_induct)
  case (snoc x ops)
  obtain now op' where x: "x = (now, op')" by fastforce
  have t: "t \<le> now" using snoc.prems x by (auto simp: sorted_append)
  have conf: "tr_silenceMs (live_run ops s) = tr_silenceMs s" "tr_startupGraceMs (live_run ops s) = tr_startupGraceMs s"
    using conf_run by blast+
  have "now + tr_silenceMs s \<le> d \<or> \<not> shows_activity k op' \<and> deadline (live_run ops s) k = Some d"
    using deadline_step [of now op' "live_run ops s" k d] snoc.prems(2) assms(2) x conf by simp
  then show ?case
    using snoc.IH [of d] snoc.prems(1,3) x t assms(5) by (auto simp: sorted_append)
qed simp

lemma observe_not_offline [simp]: "(ConfirmedOffline, k, st) \<notin> set (fst (snd (observe_host now k' t s)))"
  by (auto simp: observe_host_def Let_def case_prod_unfold split: option.split)

lemma register_not_offline [simp]:
  "(ConfirmedOffline, k, st) \<notin> set (fst (snd (registerHost now host g a s)))"
  by (auto simp: registerHost_def Let_def case_prod_unfold split: option.split)

lemma offline_deadline:
  assumes "(ConfirmedOffline, k, st) \<in> set (fst (live_step now op s))"
  shows "\<exists>d. deadline s k = Some d \<and> d \<le> now"
proof (cases op)
  case (Fire h)
  then show ?thesis
    using assms fire_timer_cases [of h now s] by (force simp: deadline_def)
next
  case (Presence v t)
  then show ?thesis
    using assms by (auto simp: registerPresenceCapableHost_def split: option.splits if_splits)
next
  case (Observe v t)
  then show ?thesis using assms by (auto simp: observeActivity_def split: option.splits)
qed (use assms in simp_all)

text \<open>
  C3: no host is declared offline while it is heard. In every run of the tracker with its
  default times and a clock that does not go back, with hosts registered, removed, observed and
  timers fired in any order, even before they are due: when a step declares a host offline, every
  activity of that host that the tracker was told of is at least 90 seconds old.
\<close>

theorem no_false_offline:
  assumes "sorted (map fst ops)"
    and "(ConfirmedOffline, k, st) \<in> set (fst (live_step now op (live_run ops (new_tracker None None))))"
    and "(t, activity) \<in> set ops" and "shows_activity k activity"
  shows "t + 90000 \<le> now"
proof -
  let ?s = "new_tracker None None"
  have conf: "tr_silenceMs ?s = 90000" "tr_startupGraceMs ?s = 90000"
    by (simp_all add: new_tracker_def AGENT_FAST_LIVENESS_SILENCE_MS_def AGENT_FAST_LIVENESS_STARTUP_GRACE_MS_def)
  obtain d where "deadline (live_run ops ?s) k = Some d" "d \<le> now" using offline_deadline [OF assms(2)] by blast
  then show ?thesis using deadline_run [OF assms(1) _ _ assms(3,4), of ?s d] conf by simp
qed

definition sample_host :: host_info where
  "sample_host = \<lparr>hi_hostId = JNum (num 4), hi_agentVersion = Some ''2.3.0'',
     hi_lastHeartbeat = OtherValue JUndef NaN, hi_isOnline = JBool True\<rparr>"

definition sample_ops :: "(rat \<times> live_op) list" where
  "sample_ops = [(1000, Register sample_host True None), (2000, Observe (JNum (num 4)) (OtherValue JUndef NaN))]"

definition sample_offline :: live_host where
  "sample_offline = \<lparr>lh_agentVersion = ''2.3.0'', lh_transitionEpoch = 1, lh_lastSeenAt = Some 2000,
     lh_deadlineAt = 92000, lh_offlineAt = Some 92000, lh_lastOfflineAt = Some 92000,
     lh_confirmedOffline = True, lh_timerGeneration = 2, lh_timer = None\<rparr>"

lemma sample_offline_event:
  "(ConfirmedOffline, 4, sample_offline)
     \<in> set (fst (live_step 92000 (Fire 1) (live_run sample_ops (new_tracker None None))))"
  by code_simp

lemma no_false_offline_witness: "(2000::rat) + 90000 \<le> 92000"
  by (rule no_false_offline [OF _ sample_offline_event,
        where activity = "Observe (JNum (num 4)) (OtherValue JUndef NaN)"])
    (simp_all add: sample_ops_def shows_activity_def positiveHostId_def)

section \<open>A silent host is reported\<close>

lemma live_ok_step:
  assumes "live_ok s" and "0 \<le> tr_silenceMs s" and "0 \<le> tr_startupGraceMs s"
  shows "live_ok (snd (live_step now op s))"
proof (cases op)
  case (Observe v t)
  then show ?thesis
    using assms by (simp add: observeActivity_def live_ok_observe split: option.split)
next
  case (Remove v)
  then show ?thesis using assms by (simp add: removeHost_def live_ok_remove split: option.split)
qed (use assms in \<open>simp_all add: live_ok_register live_ok_presence live_ok_clear live_ok_fire\<close>)

lemma live_ok_run: "live_ok (live_run ops (new_tracker a b))"
proof (induction ops rule: rev_induct)
  case (snoc x ops)
  have "0 \<le> tr_silenceMs (live_run ops (new_tracker a b))" "0 \<le> tr_startupGraceMs (live_run ops (new_tracker a b))"
    using conf_run [of ops "new_tracker a b"] by (simp_all add: new_tracker_def)
  then show ?case using live_ok_step [OF snoc] by (cases x) simp
qed (simp add: live_ok_new)

text \<open>
  C21: a silent host is reported, exactly once and not early. In every state that a tracker can
  reach, a registered host that is not confirmed offline has one timer, due at its deadline.
  When the timer runs at the deadline or later the host, and no other, is declared offline with
  that time; when it runs early nothing is reported and the host has again a timer for the
  same deadline.
\<close>

theorem silent_host_reported:
  assumes s: "s = live_run ops (new_tracker a b)" and st: "map_get (tr_hosts s) k = Some st"
    and live: "\<not> lh_confirmedOffline st"
  shows "case lh_timer st of
      None \<Rightarrow> False
    | Some h \<Rightarrow>
        (\<forall>h' g. timer_payload (tr_timers s) h' = Some (k, g) \<longleftrightarrow> h' = h \<and> g = lh_timerGeneration st) \<and>
        map_option fst (map_get (active (tr_timers s)) h) = Some (lh_deadlineAt st) \<and>
        (let (events, s') = live_step now (Fire h) s in
         if lh_deadlineAt st \<le> now
         then map (\<lambda>(kind, host, st'). (kind, host, lh_offlineAt st')) events = [(ConfirmedOffline, k, Some now)] \<and>
              isConfirmedOffline (JNum (num k)) s' = (0 < k)
         else events = [] \<and> map_option (\<lambda>st'. (lh_deadlineAt st', lh_timer st' = None)) (map_get (tr_hosts s') k)
                = Some (lh_deadlineAt st, False))"
proof -
  have ok: "live_ok s" unfolding s by (rule live_ok_run)
  then have hok: "host_ok s k st" using st by (simp add: live_ok_def)
  then obtain h where h: "lh_timer st = Some h"
    "map_get (active (tr_timers s)) h = Some (lh_deadlineAt st, k, lh_timerGeneration st)"
    using live by (auto simp: host_ok_def)
  have tr: "tracks host_of_timer (armed s) (tr_timers s)" using ok by (simp add: live_ok_def)
  have armed: "armed s k = Some h" by (simp add: armed_def st h)
  have pay: "timer_payload (tr_timers s) h = Some (k, lh_timerGeneration st)" by (simp add: timer_payload_def h)
  have only: "timer_payload (tr_timers s) h' = Some (k, g) \<longleftrightarrow> h' = h \<and> g = lh_timerGeneration st" for h' g
    using tracks_payload [OF tr, of h' "(k, g)" k] armed pay by auto
  have pos: "positiveHostId (JNum (num k)) = (if 0 < k then Some k else None)" by (simp add: positiveHostId_def)
  have "let (events, s') = live_step now (Fire h) s in
      if lh_deadlineAt st \<le> now
      then map (\<lambda>(kind, host, st'). (kind, host, lh_offlineAt st')) events = [(ConfirmedOffline, k, Some now)] \<and>
           isConfirmedOffline (JNum (num k)) s' = (0 < k)
      else events = [] \<and> map_option (\<lambda>st'. (lh_deadlineAt st', lh_timer st' = None)) (map_get (tr_hosts s') k)
             = Some (lh_deadlineAt st, False)"
    using h pay st live
    by (simp add: fire_timer_def Let_def isConfirmedOffline_def host_state_def pos map_get_set)
  then show ?thesis using only h by simp
qed

lemma silent_host_reported_witness:
  "let s = live_run sample_ops (new_tracker None None);
       st = sample_offline\<lparr>lh_transitionEpoch := 0, lh_offlineAt := None, lh_lastOfflineAt := None,
              lh_confirmedOffline := False, lh_timer := Some 1\<rparr> in
   case lh_timer st of
      None \<Rightarrow> False
    | Some h \<Rightarrow>
        (\<forall>h' g. timer_payload (tr_timers s) h' = Some (4, g) \<longleftrightarrow> h' = h \<and> g = lh_timerGeneration st) \<and>
        map_option fst (map_get (active (tr_timers s)) h) = Some (lh_deadlineAt st) \<and>
        (let (events, s') = live_step 95000 (Fire h) s in
         if lh_deadlineAt st \<le> 95000
         then map (\<lambda>(kind, host, st'). (kind, host, lh_offlineAt st')) events = [(ConfirmedOffline, 4, Some 95000)] \<and>
              isConfirmedOffline (JNum (num 4)) s' = (0 < (4 :: int))
         else events = [] \<and> map_option (\<lambda>st'. (lh_deadlineAt st', lh_timer st' = None)) (map_get (tr_hosts s') 4)
                = Some (lh_deadlineAt st, False))"
proof -
  let ?st = "sample_offline\<lparr>lh_transitionEpoch := 0, lh_offlineAt := None, lh_lastOfflineAt := None,
      lh_confirmedOffline := False, lh_timer := Some 1\<rparr>"
  have "map_get (tr_hosts (live_run sample_ops (new_tracker None None))) 4 = Some ?st" by code_simp
  then show ?thesis
    using silent_host_reported [OF refl, of sample_ops None None 4 ?st 95000] by (simp only: Let_def) simp
qed

end
