(* ===== verification/Bounded_Cache.thy ===== *)
theory Bounded_Cache
  imports Prelude
begin

text \<open>
  The bounded maps of \<open>server/boundedCache.ts\<close>: insertion with eviction of the oldest keys,
  insertion that keeps the position of a present key, and pruning. The locale
  \<open>bounded_put\<close> is the contract the in-memory stores of the panel rely on; both insertion
  operations of the file provide it.
\<close>

section \<open>Operations\<close>

text \<open>The \<open>while\<close> loop of \<open>setBoundedMapValue\<close>: drop the oldest key while the map is full.\<close>

fun evict_oldest :: "int \<Rightarrow> ('k, 'v) jsmap \<Rightarrow> ('k, 'v) jsmap" where
  "evict_oldest maxSize [] = []"
| "evict_oldest maxSize (p # m) =
     (if int (length (p # m)) \<ge> max 1 maxSize then evict_oldest maxSize m else p # m)"

definition setBoundedMapValue :: "int \<Rightarrow> 'k \<Rightarrow> 'v \<Rightarrow> ('k, 'v) jsmap \<Rightarrow> ('k, 'v) jsmap" where
  "setBoundedMapValue maxSize k v m =
     (let m1 = (if map_has m k then map_delete k m else m)
      in map_set k v (evict_oldest maxSize m1))"

definition updateBoundedMapValueInPlace :: "int \<Rightarrow> 'k \<Rightarrow> 'v \<Rightarrow> ('k, 'v) jsmap \<Rightarrow> ('k, 'v) jsmap" where
  "updateBoundedMapValueInPlace maxSize k v m =
     (if map_has m k then map_set k v m else setBoundedMapValue maxSize k v m)"

text \<open>The \<open>for\<close> loop of \<open>pruneMapEntries\<close>, with the count of deleted keys.\<close>

fun pruneMapEntries :: "('v \<Rightarrow> 'k \<Rightarrow> bool) \<Rightarrow> ('k, 'v) jsmap \<Rightarrow> nat \<times> ('k, 'v) jsmap" where
  "pruneMapEntries shouldDelete [] = (0, [])"
| "pruneMapEntries shouldDelete ((k, v) # m) =
     (let (deleted, m') = pruneMapEntries shouldDelete m
      in if shouldDelete v k then (Suc deleted, m') else (deleted, (k, v) # m'))"

section \<open>Lemmas\<close>

lemma evict_oldest_drop:
  "evict_oldest maxSize m = drop (length m - nat (max 1 maxSize - 1)) m"
proof (induction m)
  case Nil
  then show ?case by simp
next
  case (Cons p m)
  show ?case
  proof (cases "int (length (p # m)) \<ge> max 1 maxSize")
    case True
    then have "length (p # m) - nat (max 1 maxSize - 1) = Suc (length m - nat (max 1 maxSize - 1))"
      by (simp add: nat_le_iff Suc_diff_le)
    with True Cons.IH show ?thesis by simp
  next
    case False
    then have "length (p # m) - nat (max 1 maxSize - 1) = 0" by simp
    with False show ?thesis by simp
  qed
qed

lemma evict_oldest_length: "int (length (evict_oldest maxSize m)) < max 1 maxSize"
  by (auto simp: evict_oldest_drop)

lemma evict_oldest_set: "set (evict_oldest maxSize m) \<subseteq> set m"
  by (simp add: evict_oldest_drop set_drop_subset)

lemma evict_oldest_wf [simp]: "wf_map m \<Longrightarrow> wf_map (evict_oldest maxSize m)"
  by (simp add: evict_oldest_drop wf_map_def drop_map [symmetric])

lemma evict_oldest_room: "int (length m) < max 1 maxSize \<Longrightarrow> evict_oldest maxSize m = m"
  by (simp add: evict_oldest_drop)

lemma map_get_evict_oldest:
  assumes "wf_map m" and "map_get (evict_oldest maxSize m) k = Some v"
  shows "map_get m k = Some v"
proof -
  from assms(2) have "(k, v) \<in> set (evict_oldest maxSize m)" by (rule map_get_inD)
  then have "(k, v) \<in> set m" using evict_oldest_set by blast
  with assms(1) show ?thesis by (simp add: map_get_in)
qed

lemma setBounded_eq:
  "setBoundedMapValue maxSize k v m = evict_oldest maxSize (map_delete k m) @ [(k, v)]"
proof -
  have del: "(if map_has m k then map_delete k m else m) = map_delete k m"
    by simp
  have "fst ` set (evict_oldest maxSize (map_delete k m)) \<subseteq> fst ` set (map_delete k m)"
    using evict_oldest_set by (rule image_mono)
  moreover have "\<not> map_has (map_delete k m) k" by simp
  ultimately have absent: "\<not> map_has (evict_oldest maxSize (map_delete k m)) k"
    unfolding map_has_keys by blast
  then have "map_set k v (evict_oldest maxSize (map_delete k m)) =
      evict_oldest maxSize (map_delete k m) @ [(k, v)]"
    by (rule map_set_new)
  with del show ?thesis by (simp only: setBoundedMapValue_def Let_def)
qed

lemma pruneMapEntries_eq:
  "pruneMapEntries d m =
     (length (filter (\<lambda>(k, v). d v k) m), filter (\<lambda>(k, v). \<not> d v k) m)"
  by (induction d m rule: pruneMapEntries.induct) auto


section \<open>The contract of a bounded store\<close>

text \<open>
  What a component may rely on when it keeps its entries with one of the two insertions:
  the entry just written is found, no other entry is changed (it may be evicted), and the
  number of entries stays within the capacity.
\<close>

locale bounded_put =
  fixes put :: "'k \<Rightarrow> 'v \<Rightarrow> ('k, 'v) jsmap \<Rightarrow> ('k, 'v) jsmap"
    and cap :: nat
  assumes put_wf: "wf_map m \<Longrightarrow> wf_map (put k v m)"
    and put_same: "wf_map m \<Longrightarrow> map_get (put k v m) k = Some v"
    and put_other: "wf_map m \<Longrightarrow> k' \<noteq> k \<Longrightarrow> map_get (put k v m) k' = Some v' \<Longrightarrow>
          map_get m k' = Some v'"
    and put_length: "wf_map m \<Longrightarrow> length m \<le> cap \<Longrightarrow> length (put k v m) \<le> cap"
    and put_room: "wf_map m \<Longrightarrow> length m < cap \<Longrightarrow> k' \<noteq> k \<Longrightarrow>
          map_get (put k v m) k' = map_get m k'"
begin

definition store_ok :: "('k, 'v) jsmap \<Rightarrow> bool" where
  "store_ok m \<longleftrightarrow> wf_map m \<and> length m \<le> cap"

lemma store_ok_Nil: "store_ok []"
  by (simp add: store_ok_def)

lemma store_ok_put: "store_ok m \<Longrightarrow> store_ok (put k v m)"
  by (simp add: store_ok_def put_wf put_length)

lemma store_ok_delete: "store_ok m \<Longrightarrow> store_ok (map_delete k m)"
  using length_map_delete_le [of k m] by (simp add: store_ok_def)

lemma store_ok_filter: "store_ok m \<Longrightarrow> store_ok (filter P m)"
  unfolding store_ok_def using le_trans [OF length_filter_le] by auto

lemma put_has: "wf_map m \<Longrightarrow> map_has (put k v m) k' \<Longrightarrow> k' = k \<or> map_has m k'"
  unfolding map_has_def using put_other by fastforce

text \<open>A run of insertions never exceeds the capacity, and the last entry written is present.\<close>

lemma put_run_ok: "store_ok m \<Longrightarrow> store_ok (fold (\<lambda>(k, v). put k v) kvs m)"
  by (induction kvs arbitrary: m) (auto simp: store_ok_put)

lemma put_run_last:
  "store_ok m \<Longrightarrow> map_get (fold (\<lambda>(k, v). put k v) (kvs @ [(k, v)]) m) k = Some v"
  using put_run_ok [of m kvs] by (simp add: store_ok_def put_same)

end

text \<open>\<open>setBoundedMapValue\<close> and \<open>updateBoundedMapValueInPlace\<close> provide the contract.\<close>

lemma setBounded_wf: "wf_map m \<Longrightarrow> wf_map (setBoundedMapValue maxSize k v m)"
  by (simp add: setBoundedMapValue_def Let_def)

lemma setBounded_same: "map_get (setBoundedMapValue maxSize k v m) k = Some v"
  by (simp add: setBoundedMapValue_def Let_def map_get_set)

lemma setBounded_other:
  assumes "wf_map m" and "k' \<noteq> k" and "map_get (setBoundedMapValue maxSize k v m) k' = Some v'"
  shows "map_get m k' = Some v'"
proof -
  from assms have "map_get (evict_oldest maxSize (map_delete k m)) k' = Some v'"
    unfolding setBounded_eq by (auto simp: map_add_def split: option.splits)
  then have "map_get (map_delete k m) k' = Some v'"
    using map_get_evict_oldest assms(1) by (metis wf_map_delete)
  with assms(2) show ?thesis by (simp add: map_get_delete)
qed

lemma setBounded_length: "int (length (setBoundedMapValue maxSize k v m)) \<le> max 1 maxSize"
  using evict_oldest_length [of maxSize "map_delete k m"] by (simp add: setBounded_eq)

lemma setBounded_room:
  assumes "int (length m) < max 1 maxSize" and "k' \<noteq> k"
  shows "map_get (setBoundedMapValue maxSize k v m) k' = map_get m k'"
proof -
  have "int (length (map_delete k m)) < max 1 maxSize"
    using assms(1) length_map_delete_le [of k m] by linarith
  then have "evict_oldest maxSize (map_delete k m) = map_delete k m"
    by (rule evict_oldest_room)
  moreover have "evict_oldest maxSize m = m"
    using assms(1) by (rule evict_oldest_room)
  ultimately show ?thesis
    using assms(2) by (simp add: setBoundedMapValue_def Let_def map_get_set map_get_delete)
qed

lemma bounded_put_setBounded:
  "0 < cap \<Longrightarrow> bounded_put (setBoundedMapValue (int cap)) cap"
proof (unfold_locales, goal_cases)
  case (4 m k v)
  then show ?case using setBounded_length [of "int cap" k v m] by linarith
next
  case (5 m k' k v)
  then show ?case by (intro setBounded_room) auto
qed (auto simp: setBounded_wf setBounded_same dest: setBounded_other)

lemma bounded_put_updateInPlace:
  assumes "0 < cap"
  shows "bounded_put (updateBoundedMapValueInPlace (int cap)) cap"
proof -
  note facts = bounded_put_setBounded [OF assms]
  show ?thesis
  proof (unfold_locales, goal_cases)
    case (3 m k' k v v')
    then show ?case
      by (cases "map_has m k")
        (auto simp: updateBoundedMapValueInPlace_def map_get_set dest: setBounded_other)
  next
    case (4 m k v)
    then show ?case
      using bounded_put.put_length [OF facts, of m k v]
      by (simp add: updateBoundedMapValueInPlace_def length_map_set)
  next
    case (5 m k' k v)
    then show ?case
      using bounded_put.put_room [OF facts, of m k' k v]
      by (simp add: updateBoundedMapValueInPlace_def map_get_set)
  qed (simp_all add: updateBoundedMapValueInPlace_def map_get_set setBounded_wf setBounded_same)
qed

text \<open>
  Insertion keeps exactly the newest other entries, in their order: with room for all of them
  nothing is lost, otherwise the oldest keys go first.
\<close>

text \<open>
  after \<open>setBoundedMapValue\<close> the map holds the key as its newest entry, preceded by the
  newest other entries that fit into the capacity, and it never exceeds the capacity.
\<close>

theorem setBounded_keeps_newest:
  "setBoundedMapValue maxSize k v m =
     drop (length (map_delete k m) - nat (max 1 maxSize - 1)) (map_delete k m) @ [(k, v)] \<and>
   int (length (setBoundedMapValue maxSize k v m)) \<le> max 1 maxSize"
  using setBounded_length by (auto simp: setBounded_eq evict_oldest_drop)

end
