(* ===== verification/Auth_Rate_Limit.thy ===== *)
theory Auth_Rate_Limit
  imports Bounded_Cache
begin

text \<open>
  Limits on authentication attempts, \<open>server/authRateLimit.ts\<close>: failures are counted for the
  pair of address and account, for the account and for the address; the issue of second-factor
  challenges is limited by a sliding window. The six module-level maps are the fields of
  \<open>auth_state\<close>; \<open>now\<close> is \<open>Date.now()\<close> in milliseconds.
\<close>

section \<open>State\<close>

record failure_entry =
  count :: int
  lastFailAt :: int

record rate_limit_result =
  limited :: bool
  retryAfterSeconds :: int

record auth_state =
  loginFailStore :: "(string, failure_entry) jsmap"
  loginAccountFailStore :: "(string, failure_entry) jsmap"
  loginIpFailStore :: "(string, failure_entry) jsmap"
  challengeIssueStore :: "(string, int list) jsmap"
  challengeIssueAccountStore :: "(string, int list) jsmap"
  challengeIssueIpStore :: "(string, int list) jsmap"

definition LOGIN_FAIL_WINDOW_MS :: int where "LOGIN_FAIL_WINDOW_MS = 30 * 60 * 1000"
definition LOGIN_BLOCK_MS :: int where "LOGIN_BLOCK_MS = 15 * 60 * 1000"
definition LOGIN_BLOCK_THRESHOLD_PER_ACCOUNT :: int where "LOGIN_BLOCK_THRESHOLD_PER_ACCOUNT = 8"
definition LOGIN_BLOCK_THRESHOLD_PER_IP :: int where "LOGIN_BLOCK_THRESHOLD_PER_IP = 40"
definition TWO_FACTOR_CHALLENGE_ISSUE_WINDOW_MS :: int where
  "TWO_FACTOR_CHALLENGE_ISSUE_WINDOW_MS = 60 * 1000"
definition TWO_FACTOR_CHALLENGE_ISSUE_MAX :: nat where "TWO_FACTOR_CHALLENGE_ISSUE_MAX = 5"
definition AUTH_RATE_LIMIT_MAX_KEYS :: int where "AUTH_RATE_LIMIT_MAX_KEYS = 50000"

lemmas auth_constants = LOGIN_FAIL_WINDOW_MS_def LOGIN_BLOCK_MS_def
  LOGIN_BLOCK_THRESHOLD_PER_ACCOUNT_def LOGIN_BLOCK_THRESHOLD_PER_IP_def
  TWO_FACTOR_CHALLENGE_ISSUE_WINDOW_MS_def TWO_FACTOR_CHALLENGE_ISSUE_MAX_def

definition clearAuthRateLimitStateForTests :: auth_state where
  "clearAuthRateLimitStateForTests = \<lparr>loginFailStore = [], loginAccountFailStore = [],
     loginIpFailStore = [], challengeIssueStore = [], challengeIssueAccountStore = [],
     challengeIssueIpStore = []\<rparr>"

section \<open>Operations\<close>

definition normalizeIp :: "string \<Rightarrow> string" where
  "normalizeIp ip =
     (let s = js_lower (js_trim (if ip = [] then ''unknown'' else ip))
      in if s = [] then ''unknown'' else s)"

definition normalizeUsername :: "string \<Rightarrow> string" where
  "normalizeUsername username = js_lower (js_trim username)"

definition getAuthAttemptKey :: "string \<Rightarrow> string \<Rightarrow> string" where
  "getAuthAttemptKey ip username = normalizeIp ip @ '':'' @ normalizeUsername username"

text \<open>Reading an entry deletes it when it has expired.\<close>

definition activeFailureEntry ::
  "(string, failure_entry) jsmap \<Rightarrow> string \<Rightarrow> int \<Rightarrow>
   failure_entry option \<times> (string, failure_entry) jsmap" where
  "activeFailureEntry store key now =
     (case map_get store key of
        None \<Rightarrow> (None, store)
      | Some entry \<Rightarrow>
          (if now - lastFailAt entry < LOGIN_FAIL_WINDOW_MS then (Some entry, store)
           else (None, map_delete key store)))"

definition recordFailure ::
  "(string, failure_entry) jsmap \<Rightarrow> string \<Rightarrow> int \<Rightarrow> (string, failure_entry) jsmap" where
  "recordFailure store key now =
     (case activeFailureEntry store key now of
        (Some entry, store1) \<Rightarrow>
          setBoundedMapValue AUTH_RATE_LIMIT_MAX_KEYS key
            \<lparr>count = count entry + 1, lastFailAt = now\<rparr> store1
      | (None, store1) \<Rightarrow>
          setBoundedMapValue AUTH_RATE_LIMIT_MAX_KEYS key \<lparr>count = 1, lastFailAt = now\<rparr> store1)"

definition recordAuthFailure :: "string \<Rightarrow> string \<Rightarrow> int \<Rightarrow> auth_state \<Rightarrow> auth_state" where
  "recordAuthFailure ip username now st =
     st\<lparr>loginFailStore := recordFailure (loginFailStore st) (getAuthAttemptKey ip username) now,
        loginAccountFailStore :=
          recordFailure (loginAccountFailStore st) (normalizeUsername username) now,
        loginIpFailStore := recordFailure (loginIpFailStore st) (normalizeIp ip) now\<rparr>"

definition recordPasswordFailure :: "string \<Rightarrow> string \<Rightarrow> int \<Rightarrow> auth_state \<Rightarrow> auth_state" where
  "recordPasswordFailure ip username now st =
     st\<lparr>loginFailStore := recordFailure (loginFailStore st) (getAuthAttemptKey ip username) now,
        loginIpFailStore := recordFailure (loginIpFailStore st) (normalizeIp ip) now\<rparr>"

definition ceil_div :: "int \<Rightarrow> int \<Rightarrow> int" where
  "ceil_div a b = - ((- a) div b)"

definition not_limited :: rate_limit_result where
  "not_limited = \<lparr>limited = False, retryAfterSeconds = 0\<rparr>"

text \<open>The loop over the three checks: the first entry at its threshold that still blocks wins.\<close>

fun check_loop :: "(failure_entry option \<times> int) list \<Rightarrow> int \<Rightarrow> rate_limit_result" where
  "check_loop [] now = not_limited"
| "check_loop ((entry, threshold) # checks) now =
     (case entry of
        None \<Rightarrow> check_loop checks now
      | Some e \<Rightarrow>
          (if count e < threshold then check_loop checks now
           else
             (let retryAt = lastFailAt e + LOGIN_BLOCK_MS
              in if retryAt > now
                 then \<lparr>limited = True, retryAfterSeconds = max 1 (ceil_div (retryAt - now) 1000)\<rparr>
                 else check_loop checks now)))"

definition authRateLimitState ::
  "string \<Rightarrow> string \<Rightarrow> int \<Rightarrow> auth_state \<Rightarrow> rate_limit_result \<times> auth_state" where
  "authRateLimitState ip username now st =
     (let (e1, s1) = activeFailureEntry (loginFailStore st) (getAuthAttemptKey ip username) now;
          (e2, s2) = activeFailureEntry (loginAccountFailStore st) (normalizeUsername username) now;
          (e3, s3) = activeFailureEntry (loginIpFailStore st) (normalizeIp ip) now
      in (check_loop [(e1, LOGIN_BLOCK_THRESHOLD_PER_ACCOUNT), (e2, LOGIN_BLOCK_THRESHOLD_PER_ACCOUNT),
            (e3, LOGIN_BLOCK_THRESHOLD_PER_IP)] now,
          st\<lparr>loginFailStore := s1, loginAccountFailStore := s2, loginIpFailStore := s3\<rparr>))"

definition clearAuthAccountFailures :: "string \<Rightarrow> string \<Rightarrow> auth_state \<Rightarrow> auth_state" where
  "clearAuthAccountFailures ip username st =
     st\<lparr>loginFailStore := map_delete (getAuthAttemptKey ip username) (loginFailStore st),
        loginAccountFailStore := map_delete (normalizeUsername username) (loginAccountFailStore st)\<rparr>"

definition active_times :: "int \<Rightarrow> int list \<Rightarrow> int list" where
  "active_times now timestamps =
     filter (\<lambda>t. t > now - TWO_FACTOR_CHALLENGE_ISSUE_WINDOW_MS) timestamps"

text \<open>One turn of the loop over the scopes: the store and the retry time it asks for.\<close>

definition issue_scope ::
  "(string, int list) jsmap \<Rightarrow> string \<Rightarrow> int \<Rightarrow> int \<Rightarrow> int \<times> (string, int list) jsmap" where
  "issue_scope store key now retry =
     (case map_get store key of
        None \<Rightarrow> (retry, store)
      | Some timestamps \<Rightarrow>
          (let active = active_times now timestamps;
               store1 = (if active \<noteq> [] then setBoundedMapValue AUTH_RATE_LIMIT_MAX_KEYS key active store
                         else map_delete key store)
           in (if length active \<ge> TWO_FACTOR_CHALLENGE_ISSUE_MAX
               then max retry (ceil_div (hd active + TWO_FACTOR_CHALLENGE_ISSUE_WINDOW_MS - now) 1000)
               else retry, store1)))"

definition twoFactorChallengeIssueState ::
  "string \<Rightarrow> string \<Rightarrow> int \<Rightarrow> auth_state \<Rightarrow> rate_limit_result \<times> auth_state" where
  "twoFactorChallengeIssueState ip username now st =
     (let (r1, s1) = issue_scope (challengeIssueStore st) (getAuthAttemptKey ip username) now 0;
          (r2, s2) = issue_scope (challengeIssueAccountStore st) (normalizeUsername username) now r1;
          (r3, s3) = issue_scope (challengeIssueIpStore st) (normalizeIp ip) now r2
      in (if r3 > 0 then \<lparr>limited = True, retryAfterSeconds = r3\<rparr> else not_limited,
          st\<lparr>challengeIssueStore := s1, challengeIssueAccountStore := s2, challengeIssueIpStore := s3\<rparr>))"

definition record_issue ::
  "(string, int list) jsmap \<Rightarrow> string \<Rightarrow> int \<Rightarrow> (string, int list) jsmap" where
  "record_issue store key now =
     setBoundedMapValue AUTH_RATE_LIMIT_MAX_KEYS key
       (active_times now (case map_get store key of None \<Rightarrow> [] | Some ts \<Rightarrow> ts) @ [now]) store"

definition recordTwoFactorChallengeIssue :: "string \<Rightarrow> string \<Rightarrow> int \<Rightarrow> auth_state \<Rightarrow> auth_state" where
  "recordTwoFactorChallengeIssue ip username now st =
     st\<lparr>challengeIssueStore := record_issue (challengeIssueStore st) (getAuthAttemptKey ip username) now,
        challengeIssueAccountStore :=
          record_issue (challengeIssueAccountStore st) (normalizeUsername username) now,
        challengeIssueIpStore := record_issue (challengeIssueIpStore st) (normalizeIp ip) now\<rparr>"

text \<open>The inner loop of the pruning: it writes to the map it iterates over, in place.\<close>

fun prune_issues :: "int \<Rightarrow> (string, int list) jsmap \<Rightarrow> (string, int list) jsmap \<Rightarrow>
    (string, int list) jsmap" where
  "prune_issues now [] store = store"
| "prune_issues now ((key, timestamps) # rest) store =
     (let active = active_times now timestamps
      in prune_issues now rest
           (if active \<noteq> [] then updateBoundedMapValueInPlace AUTH_RATE_LIMIT_MAX_KEYS key active store
            else map_delete key store))"

definition pruneAuthRateLimitState :: "int \<Rightarrow> auth_state \<Rightarrow> auth_state" where
  "pruneAuthRateLimitState now st =
     (let failureExpired = (\<lambda>entry key. now - lastFailAt entry \<ge> LOGIN_FAIL_WINDOW_MS)
      in st\<lparr>loginFailStore := snd (pruneMapEntries failureExpired (loginFailStore st)),
            loginAccountFailStore := snd (pruneMapEntries failureExpired (loginAccountFailStore st)),
            loginIpFailStore := snd (pruneMapEntries failureExpired (loginIpFailStore st)),
            challengeIssueStore := prune_issues now (challengeIssueStore st) (challengeIssueStore st),
            challengeIssueAccountStore :=
              prune_issues now (challengeIssueAccountStore st) (challengeIssueAccountStore st),
            challengeIssueIpStore := prune_issues now (challengeIssueIpStore st) (challengeIssueIpStore st)\<rparr>)"

definition clearTwoFactorChallengeIssueHistory :: "string \<Rightarrow> string \<Rightarrow> auth_state \<Rightarrow> auth_state" where
  "clearTwoFactorChallengeIssueHistory ip username st =
     st\<lparr>challengeIssueStore := map_delete (getAuthAttemptKey ip username) (challengeIssueStore st),
        challengeIssueAccountStore := map_delete (normalizeUsername username) (challengeIssueAccountStore st)\<rparr>"

definition authRateLimitStoreSizesForTests :: "auth_state \<Rightarrow> nat \<times> nat" where
  "authRateLimitStoreSizesForTests st =
     (length (loginFailStore st) + length (loginAccountFailStore st) + length (loginIpFailStore st),
      length (challengeIssueStore st) + length (challengeIssueAccountStore st)
        + length (challengeIssueIpStore st))"

section \<open>The stores stay within their bound\<close>

interpretation auth_store: bounded_put "setBoundedMapValue AUTH_RATE_LIMIT_MAX_KEYS" 50000
  using bounded_put_setBounded [of 50000] by (simp add: AUTH_RATE_LIMIT_MAX_KEYS_def)

interpretation auth_store_in_place:
  bounded_put "updateBoundedMapValueInPlace AUTH_RATE_LIMIT_MAX_KEYS" 50000
  using bounded_put_updateInPlace [of 50000] by (simp add: AUTH_RATE_LIMIT_MAX_KEYS_def)

definition store_fits :: "('k, 'v) jsmap \<Rightarrow> bool" where
  "store_fits m \<longleftrightarrow> wf_map m \<and> length m \<le> 50000"

lemma store_fits_Nil [simp]: "store_fits []"
  by (simp add: store_fits_def)

lemma store_fits_put [simp]:
  "store_fits m \<Longrightarrow> store_fits (setBoundedMapValue AUTH_RATE_LIMIT_MAX_KEYS k v m)"
  by (simp add: store_fits_def auth_store.put_wf auth_store.put_length)

lemma store_fits_put_in_place [simp]:
  "store_fits m \<Longrightarrow> store_fits (updateBoundedMapValueInPlace AUTH_RATE_LIMIT_MAX_KEYS k v m)"
  by (simp add: store_fits_def auth_store_in_place.put_wf auth_store_in_place.put_length)

lemma store_fits_delete [simp]: "store_fits m \<Longrightarrow> store_fits (map_delete k m)"
  using length_map_delete_le [of k m] by (simp add: store_fits_def)

lemma store_fits_filter [simp]: "store_fits m \<Longrightarrow> store_fits (filter P m)"
  unfolding store_fits_def using le_trans [OF length_filter_le] by auto

lemma store_fits_active: "store_fits m \<Longrightarrow> store_fits (snd (activeFailureEntry m k now))"
  by (simp add: activeFailureEntry_def split: option.split)

lemma store_fits_recordFailure [simp]: "store_fits m \<Longrightarrow> store_fits (recordFailure m k now)"
  using store_fits_active [of m k now]
  by (auto simp: recordFailure_def split: prod.split option.split)

lemma store_fits_record_issue [simp]: "store_fits m \<Longrightarrow> store_fits (record_issue m k now)"
  by (simp add: record_issue_def)

lemma store_fits_issue_scope: "store_fits m \<Longrightarrow> store_fits (snd (issue_scope m k now r))"
  by (simp add: issue_scope_def Let_def split: option.split)

lemma store_fits_prune_issues: "store_fits m \<Longrightarrow> store_fits (prune_issues now es m)"
  by (induction now es m rule: prune_issues.induct) (simp_all add: Let_def)

definition auth_ok :: "auth_state \<Rightarrow> bool" where
  "auth_ok st \<longleftrightarrow>
     store_fits (loginFailStore st) \<and> store_fits (loginAccountFailStore st) \<and>
     store_fits (loginIpFailStore st) \<and> store_fits (challengeIssueStore st) \<and>
     store_fits (challengeIssueAccountStore st) \<and> store_fits (challengeIssueIpStore st)"

text \<open>Every call the panel makes on the limiter, as one step of its state.\<close>

datatype auth_op =
  RecordAuthFailure string string
| RecordPasswordFailure string string
| AuthRateLimitState string string
| ClearAuthAccountFailures string string
| ChallengeIssueState string string
| RecordChallengeIssue string string
| ClearChallengeIssueHistory string string
| PruneState

fun auth_step :: "auth_op \<times> int \<Rightarrow> auth_state \<Rightarrow> auth_state" where
  "auth_step (RecordAuthFailure ip u, now) st = recordAuthFailure ip u now st"
| "auth_step (RecordPasswordFailure ip u, now) st = recordPasswordFailure ip u now st"
| "auth_step (AuthRateLimitState ip u, now) st = snd (authRateLimitState ip u now st)"
| "auth_step (ClearAuthAccountFailures ip u, now) st = clearAuthAccountFailures ip u st"
| "auth_step (ChallengeIssueState ip u, now) st = snd (twoFactorChallengeIssueState ip u now st)"
| "auth_step (RecordChallengeIssue ip u, now) st = recordTwoFactorChallengeIssue ip u now st"
| "auth_step (ClearChallengeIssueHistory ip u, now) st = clearTwoFactorChallengeIssueHistory ip u st"
| "auth_step (PruneState, now) st = pruneAuthRateLimitState now st"

lemma auth_step_ok: "auth_ok st \<Longrightarrow> auth_ok (auth_step op st)"
proof (cases op)
  case (Pair call now)
  assume ok: "auth_ok st"
  have active: "store_fits m'" if "activeFailureEntry m k t = (e, m')" "store_fits m" for m m' k t e
    using store_fits_active [OF that(2), of k t] that(1) by simp
  have scope: "store_fits m'" if "issue_scope m k t r = (e, m')" "store_fits m" for m m' k t r e
    using store_fits_issue_scope [OF that(2), of k t r] that(1) by simp
  from ok show ?thesis
    unfolding Pair
    by (cases call)
      (auto simp: auth_ok_def recordAuthFailure_def recordPasswordFailure_def authRateLimitState_def
        clearAuthAccountFailures_def twoFactorChallengeIssueState_def recordTwoFactorChallengeIssue_def
        clearTwoFactorChallengeIssueHistory_def pruneAuthRateLimitState_def pruneMapEntries_eq
        store_fits_prune_issues Let_def split: prod.split intro: active scope)
qed

lemma auth_run_ok: "auth_ok st \<Longrightarrow> auth_ok (fold auth_step ops st)"
  by (induction ops arbitrary: st) (simp_all add: auth_step_ok)

section \<open>Counting failures\<close>

text \<open>
  The reference: the consecutive failures of one key, each within the window of the one
  before; a longer pause starts a new streak.
\<close>

definition streak_step :: "int \<Rightarrow> failure_entry option \<Rightarrow> failure_entry option" where
  "streak_step now s =
     (case s of
        Some e \<Rightarrow>
          (if now - lastFailAt e < LOGIN_FAIL_WINDOW_MS
           then Some \<lparr>count = count e + 1, lastFailAt = now\<rparr>
           else Some \<lparr>count = 1, lastFailAt = now\<rparr>)
      | None \<Rightarrow> Some \<lparr>count = 1, lastFailAt = now\<rparr>)"

lemma recordFailure_same:
  "wf_map m \<Longrightarrow> map_get (recordFailure m k now) k = streak_step now (map_get m k)"
  by (auto simp: recordFailure_def activeFailureEntry_def streak_step_def setBounded_same
      split: option.split)

lemma recordFailure_other:
  assumes "wf_map m" and "length m < 50000" and "k' \<noteq> k"
  shows "map_get (recordFailure m k now) k' = map_get m k'"
proof -
  have "length (map_delete k m) < 50000"
    using assms(2) length_map_delete_le [of k m] by linarith
  with assms show ?thesis
    by (auto simp: recordFailure_def activeFailureEntry_def auth_store.put_room map_get_delete
        split: option.split)
qed

lemma length_recordFailure: "wf_map m \<Longrightarrow> length (recordFailure m k now) \<le> Suc (length m)"
proof -
  assume wf: "wf_map m"
  have put: "length (setBoundedMapValue AUTH_RATE_LIMIT_MAX_KEYS k v m') \<le> Suc (length m)"
    if "length m' \<le> length m" for v m'
    using that length_map_delete_le [of k m']
    by (simp add: setBounded_eq evict_oldest_drop)
  show ?thesis
    unfolding recordFailure_def activeFailureEntry_def
    using put [of m] put [of "map_delete k m"] length_map_delete_le [of k m]
    by (simp split: option.split)
qed

definition streak :: "string \<Rightarrow> (string \<times> int) list \<Rightarrow> failure_entry option" where
  "streak k evs = fold (\<lambda>(k', now) s. if k' = k then streak_step now s else s) evs None"

lemma recordFailure_run:
  assumes "length evs \<le> 50000"
  defines "m \<equiv> fold (\<lambda>(k, now) m. recordFailure m k now) evs []"
  shows "store_fits m \<and> length m \<le> length evs \<and> map_get m k = streak k evs"
  using assms(1) unfolding m_def
proof (induction evs rule: rev_induct)
  case Nil
  then show ?case by (simp add: streak_def)
next
  case (snoc ev evs)
  obtain key now where ev: "ev = (key, now)" by (cases ev)
  let ?m = "fold (\<lambda>(k, now) m. recordFailure m k now) evs []"
  have IH: "store_fits ?m" "length ?m \<le> length evs" "map_get ?m k = streak k evs"
    using snoc by simp_all
  then have wf: "wf_map ?m" by (simp add: store_fits_def)
  have "map_get (recordFailure ?m key now) k = streak k (evs @ [ev])"
  proof (cases "k = key")
    case True
    with recordFailure_same [OF wf] IH(3) show ?thesis by (simp add: streak_def ev)
  next
    case False
    with snoc.prems IH show ?thesis
      by (simp add: recordFailure_other [OF wf] streak_def ev)
  qed
  with IH length_recordFailure [OF wf, of key now] show ?case by (simp add: ev)
qed


text \<open>The three keys of an attempt, and the entry of a streak that still counts.\<close>

definition live :: "int \<Rightarrow> failure_entry option \<Rightarrow> failure_entry option" where
  "live now s = (case s of Some e \<Rightarrow> if now - lastFailAt e < LOGIN_FAIL_WINDOW_MS then Some e else None
                 | None \<Rightarrow> None)"

lemma fst_activeFailureEntry: "fst (activeFailureEntry m k now) = live now (map_get m k)"
  by (simp add: activeFailureEntry_def live_def split: option.split)

lemma fst_authRateLimitState:
  "fst (authRateLimitState ip u now st) =
     check_loop [(live now (map_get (loginFailStore st) (getAuthAttemptKey ip u)),
          LOGIN_BLOCK_THRESHOLD_PER_ACCOUNT),
        (live now (map_get (loginAccountFailStore st) (normalizeUsername u)),
          LOGIN_BLOCK_THRESHOLD_PER_ACCOUNT),
        (live now (map_get (loginIpFailStore st) (normalizeIp ip)),
          LOGIN_BLOCK_THRESHOLD_PER_IP)] now"
  by (simp add: authRateLimitState_def Let_def fst_activeFailureEntry case_prod_beta
      del: check_loop.simps)

definition record_all :: "(string \<times> string \<times> int) list \<Rightarrow> auth_state \<Rightarrow> auth_state" where
  "record_all evs = fold (\<lambda>(ip, u, t). recordAuthFailure ip u t) evs"

definition pair_events :: "(string \<times> string \<times> int) list \<Rightarrow> (string \<times> int) list" where
  "pair_events = map (\<lambda>(ip, u, t). (getAuthAttemptKey ip u, t))"

definition account_events :: "(string \<times> string \<times> int) list \<Rightarrow> (string \<times> int) list" where
  "account_events = map (\<lambda>(ip, u, t). (normalizeUsername u, t))"

definition ip_events :: "(string \<times> string \<times> int) list \<Rightarrow> (string \<times> int) list" where
  "ip_events = map (\<lambda>(ip, u, t). (normalizeIp ip, t))"

lemma record_all_stores:
  "loginFailStore (record_all evs st) =
     fold (\<lambda>(k, now) m. recordFailure m k now) (pair_events evs) (loginFailStore st)"
  "loginAccountFailStore (record_all evs st) =
     fold (\<lambda>(k, now) m. recordFailure m k now) (account_events evs) (loginAccountFailStore st)"
  "loginIpFailStore (record_all evs st) =
     fold (\<lambda>(k, now) m. recordFailure m k now) (ip_events evs) (loginIpFailStore st)"
  by (induction evs arbitrary: st)
    (auto simp: record_all_def pair_events_def account_events_def ip_events_def recordAuthFailure_def)

definition streak_decision ::
  "(string \<times> string \<times> int) list \<Rightarrow> string \<Rightarrow> string \<Rightarrow> int \<Rightarrow> rate_limit_result" where
  "streak_decision evs ip u now =
     check_loop [(live now (streak (getAuthAttemptKey ip u) (pair_events evs)), 8),
        (live now (streak (normalizeUsername u) (account_events evs)), 8),
        (live now (streak (normalizeIp ip) (ip_events evs)), 40)] now"

lemma record_all_decision:
  assumes "length evs \<le> 50000"
  shows "fst (authRateLimitState ip u now (record_all evs clearAuthRateLimitStateForTests)) =
    streak_decision evs ip u now"
proof -
  have len: "length (pair_events evs) \<le> 50000" "length (account_events evs) \<le> 50000"
      "length (ip_events evs) \<le> 50000"
    using assms by (simp_all add: pair_events_def account_events_def ip_events_def)
  show ?thesis
    using recordFailure_run [OF len(1)] recordFailure_run [OF len(2)] recordFailure_run [OF len(3)]
    by (simp add: fst_authRateLimitState record_all_stores streak_decision_def
        clearAuthRateLimitStateForTests_def LOGIN_BLOCK_THRESHOLD_PER_ACCOUNT_def
        LOGIN_BLOCK_THRESHOLD_PER_IP_def)
qed

text \<open>A run of failures of one attempt key, each soon after the one before.\<close>

fun close_times :: "int list \<Rightarrow> bool" where
  "close_times (a # b # ts) \<longleftrightarrow> b - a < LOGIN_FAIL_WINDOW_MS \<and> close_times (b # ts)"
| "close_times _ \<longleftrightarrow> True"

lemma close_times_snoc:
  "close_times (ts @ [t]) \<longleftrightarrow> close_times ts \<and> (ts = [] \<or> t - last ts < LOGIN_FAIL_WINDOW_MS)"
  by (induction ts rule: close_times.induct) auto

lemma streak_close:
  "ts \<noteq> [] \<Longrightarrow> close_times ts \<Longrightarrow>
     streak k (map (\<lambda>t. (k, t)) ts) = Some \<lparr>count = int (length ts), lastFailAt = last ts\<rparr>"
proof (induction ts rule: rev_induct)
  case Nil
  then show ?case by simp
next
  case (snoc t ts)
  then show ?case
    by (cases "ts = []") (auto simp: streak_def streak_step_def close_times_snoc)
qed

section \<open>Issue windows\<close>

definition issues_of :: "string \<Rightarrow> (string \<times> int) list \<Rightarrow> int list" where
  "issues_of k evs = map snd (filter (\<lambda>(k', t). k' = k) evs)"

lemma record_issue_same:
  "wf_map m \<Longrightarrow> map_get (record_issue m k now) k =
     Some (active_times now (case map_get m k of None \<Rightarrow> [] | Some ts \<Rightarrow> ts) @ [now])"
  by (simp add: record_issue_def setBounded_same)

lemma record_issue_other:
  "wf_map m \<Longrightarrow> length m < 50000 \<Longrightarrow> k' \<noteq> k \<Longrightarrow> map_get (record_issue m k now) k' = map_get m k'"
  by (simp add: record_issue_def auth_store.put_room)

lemma length_record_issue: "wf_map m \<Longrightarrow> length (record_issue m k now) \<le> Suc (length m)"
  using length_map_delete_le [of k m]
  by (simp add: record_issue_def setBounded_eq evict_oldest_drop)

definition stored_times :: "(string, int list) jsmap \<Rightarrow> string \<Rightarrow> int list" where
  "stored_times m k = (case map_get m k of None \<Rightarrow> [] | Some ts \<Rightarrow> ts)"

lemma active_times_idem: "t \<le> now \<Longrightarrow> active_times now (active_times t ts) = active_times now ts"
  by (auto simp: active_times_def intro!: filter_cong)

lemma active_times_append: "active_times now (xs @ ys) = active_times now xs @ active_times now ys"
  by (simp add: active_times_def)

text \<open>The stored times of a key, as far as they still matter, are all its recorded times.\<close>

lemma record_issue_run:
  assumes "length evs \<le> 50000" and "\<forall>(k, t) \<in> set evs. t \<le> now"
  defines "m \<equiv> fold (\<lambda>(k, t) m. record_issue m k t) evs []"
  shows "store_fits m \<and> length m \<le> length evs \<and>
    active_times now (stored_times m k) = active_times now (issues_of k evs)"
  using assms(1,2) unfolding m_def
proof (induction evs rule: rev_induct)
  case Nil
  then show ?case by (simp add: stored_times_def issues_of_def)
next
  case (snoc ev evs)
  obtain key t where ev: "ev = (key, t)" by (cases ev)
  let ?m = "fold (\<lambda>(k, t) m. record_issue m k t) evs []"
  have IH: "store_fits ?m" "length ?m \<le> length evs"
      "active_times now (stored_times ?m k) = active_times now (issues_of k evs)" and t: "t \<le> now"
    using snoc ev by auto
  then have wf: "wf_map ?m" by (simp add: store_fits_def)
  have "active_times now (stored_times (record_issue ?m key t) k) =
      active_times now (issues_of k (evs @ [ev]))"
  proof (cases "k = key")
    case True
    with IH(3) t show ?thesis
      by (simp add: stored_times_def record_issue_same [OF wf] ev issues_of_def
          active_times_append active_times_idem)
  next
    case False
    with snoc.prems IH show ?thesis
      by (simp add: stored_times_def record_issue_other [OF wf] ev issues_of_def)
  qed
  with IH length_record_issue [OF wf, of key t] show ?case by (simp add: ev)
qed

lemma ceil_div_pos: "0 < a \<Longrightarrow> 0 < ceil_div a 1000"
  by (simp add: ceil_div_def)

lemma fst_issue_scope:
  "0 < fst (issue_scope m k now r) \<longleftrightarrow>
     0 < r \<or> 5 \<le> length (active_times now (stored_times m k))"
proof (cases "map_get m k")
  case None
  then show ?thesis by (simp add: issue_scope_def stored_times_def active_times_def)
next
  case (Some ts)
  have "0 < hd (active_times now ts) + TWO_FACTOR_CHALLENGE_ISSUE_WINDOW_MS - now"
    if "5 \<le> length (active_times now ts)"
  proof -
    have "active_times now ts \<noteq> []" using that by auto
    then have "hd (active_times now ts) \<in> set (active_times now ts)" by simp
    then show ?thesis by (simp add: active_times_def)
  qed
  then show ?thesis
    using ceil_div_pos
    by (auto simp: issue_scope_def stored_times_def Some Let_def TWO_FACTOR_CHALLENGE_ISSUE_MAX_def
        less_max_iff_disj)
qed

definition issue_all :: "(string \<times> string \<times> int) list \<Rightarrow> auth_state \<Rightarrow> auth_state" where
  "issue_all evs = fold (\<lambda>(ip, u, t). recordTwoFactorChallengeIssue ip u t) evs"

lemma issue_all_stores:
  "challengeIssueStore (issue_all evs st) =
     fold (\<lambda>(k, t) m. record_issue m k t) (pair_events evs) (challengeIssueStore st)"
  "challengeIssueAccountStore (issue_all evs st) =
     fold (\<lambda>(k, t) m. record_issue m k t) (account_events evs) (challengeIssueAccountStore st)"
  "challengeIssueIpStore (issue_all evs st) =
     fold (\<lambda>(k, t) m. record_issue m k t) (ip_events evs) (challengeIssueIpStore st)"
  by (induction evs arbitrary: st)
    (auto simp: issue_all_def pair_events_def account_events_def ip_events_def
      recordTwoFactorChallengeIssue_def)

lemma limited_issue_state:
  "limited (fst (twoFactorChallengeIssueState ip u now st)) \<longleftrightarrow>
     5 \<le> length (active_times now (stored_times (challengeIssueStore st) (getAuthAttemptKey ip u)))
   \<or> 5 \<le> length (active_times now (stored_times (challengeIssueAccountStore st) (normalizeUsername u)))
   \<or> 5 \<le> length (active_times now (stored_times (challengeIssueIpStore st) (normalizeIp ip)))"
  by (simp add: twoFactorChallengeIssueState_def Let_def not_limited_def case_prod_beta fst_issue_scope)

section \<open>Lockouts\<close>

text \<open>
  What the limiter has to decide, read off the times of the failures, oldest first: the latest
  \<open>n\<close> failures follow each other within thirty minutes and the latest is less than fifteen
  minutes old.
\<close>

definition follow_closely :: "nat \<Rightarrow> int list \<Rightarrow> bool" where
  "follow_closely n newest \<longleftrightarrow> n \<le> length newest \<and>
     (\<forall>i. Suc i < n \<longrightarrow> newest ! i - newest ! Suc i < 30 * 60 * 1000)"

definition locked_out :: "nat \<Rightarrow> int list \<Rightarrow> int \<Rightarrow> bool" where
  "locked_out n ts now \<longleftrightarrow> follow_closely n (rev ts) \<and> now < last ts + 15 * 60 * 1000"

text \<open>The whole seconds until the lockout is over.\<close>

definition seconds_left :: "int list \<Rightarrow> int \<Rightarrow> int" where
  "seconds_left ts now = \<lceil>of_int (last ts + 15 * 60 * 1000 - now) / (1000 :: rat)\<rceil>"

definition pair_failures :: "string \<Rightarrow> string \<Rightarrow> (string \<times> string \<times> int) list \<Rightarrow> int list" where
  "pair_failures ip u evs =
     map (\<lambda>(i, v, t). t) (filter (\<lambda>(i, v, t). getAuthAttemptKey i v = getAuthAttemptKey ip u) evs)"

definition account_failures :: "string \<Rightarrow> (string \<times> string \<times> int) list \<Rightarrow> int list" where
  "account_failures u evs = map (\<lambda>(i, v, t). t) (filter (\<lambda>(i, v, t). normalizeUsername v = normalizeUsername u) evs)"

definition address_failures :: "string \<Rightarrow> (string \<times> string \<times> int) list \<Rightarrow> int list" where
  "address_failures ip evs = map (\<lambda>(i, v, t). t) (filter (\<lambda>(i, v, t). normalizeIp i = normalizeIp ip) evs)"

lemma streak_times: "streak k evs = fold streak_step (map snd (filter (\<lambda>e. fst e = k) evs)) None"
proof -
  have "fold (\<lambda>(k', now) s. if k' = k then streak_step now s else s) evs s =
      fold streak_step (map snd (filter (\<lambda>e. fst e = k) evs)) s" for s
    by (induction evs arbitrary: s) auto
  then show ?thesis by (simp add: streak_def)
qed

lemma failures_of_events:
  "map snd (filter (\<lambda>e. fst e = getAuthAttemptKey ip u) (pair_events evs)) = pair_failures ip u evs"
  "map snd (filter (\<lambda>e. fst e = normalizeUsername u) (account_events evs)) = account_failures u evs"
  "map snd (filter (\<lambda>e. fst e = normalizeIp ip) (ip_events evs)) = address_failures ip evs"
  by (induction evs)
    (auto simp: pair_failures_def account_failures_def address_failures_def pair_events_def account_events_def ip_events_def)

lemma follow_closely_Cons:
  "follow_closely (Suc n) (t # h) \<longleftrightarrow> n = 0 \<or> (h \<noteq> [] \<and> t - hd h < 30 * 60 * 1000 \<and> follow_closely n h)"
proof (cases n)
  case 0
  then show ?thesis by (simp add: follow_closely_def)
next
  case (Suc m)
  have "(\<forall>i. Suc i < Suc n \<longrightarrow> (t # h) ! i - (t # h) ! Suc i < 30 * 60 * 1000) \<longleftrightarrow>
      t - h ! 0 < 30 * 60 * 1000 \<and> (\<forall>i. Suc i < n \<longrightarrow> h ! i - h ! Suc i < 30 * 60 * 1000)"
    using Suc All_less_Suc2 [of m "\<lambda>i. (t # h) ! i - (t # h) ! Suc i < 30 * 60 * 1000"] by auto
  then show ?thesis using Suc by (cases h) (auto simp: follow_closely_def)
qed

text \<open>The count of a streak is large enough exactly when that many failures follow each other.\<close>

lemma streak_counts:
  "ts \<noteq> [] \<Longrightarrow> \<exists>c. fold streak_step ts None = Some \<lparr>count = c, lastFailAt = last ts\<rparr> \<and>
     (\<forall>n. int (Suc n) \<le> c \<longleftrightarrow> follow_closely (Suc n) (rev ts))"
proof (induction ts rule: rev_induct)
  case Nil
  then show ?case by simp
next
  case (snoc t ts)
  show ?case
  proof (cases "ts = []")
    case True
    have "int (Suc n) \<le> 1 \<longleftrightarrow> follow_closely (Suc n) [t]" for n by (auto simp: follow_closely_Cons)
    then show ?thesis using True by (simp add: streak_step_def)
  next
    case False
    then obtain c where c: "fold streak_step ts None = Some \<lparr>count = c, lastFailAt = last ts\<rparr>"
      and n: "\<And>n. int (Suc n) \<le> c \<longleftrightarrow> follow_closely (Suc n) (rev ts)"
      using snoc.IH by blast
    let ?c = "if t - last ts < LOGIN_FAIL_WINDOW_MS then c + 1 else 1"
    have one: "1 \<le> c" using n [of 0] False by (auto simp: follow_closely_def Suc_le_eq)
    have "int (Suc n) \<le> ?c \<longleftrightarrow> follow_closely (Suc n) (rev (ts @ [t]))" for n
      using n [of "n - 1"] one False
      by (cases n) (auto simp: follow_closely_Cons hd_rev LOGIN_FAIL_WINDOW_MS_def)
    moreover have "fold streak_step (ts @ [t]) None = Some \<lparr>count = ?c, lastFailAt = last (ts @ [t])\<rparr>"
      by (simp add: c streak_step_def [of t])
    ultimately show ?thesis by blast
  qed
qed

text \<open>One check of the loop.\<close>

lemma check_lockout:
  assumes "0 < n"
  shows "(case live now (fold streak_step ts None) of None \<Rightarrow> None
    | Some e \<Rightarrow> if count e < int n \<or> \<not> lastFailAt e + LOGIN_BLOCK_MS > now then None
        else Some (max 1 (ceil_div (lastFailAt e + LOGIN_BLOCK_MS - now) 1000))) =
   (if locked_out n ts now then Some (seconds_left ts now) else None)"
proof (cases "ts = []")
  case True
  then show ?thesis using assms by (simp add: live_def locked_out_def follow_closely_def)
next
  case False
  obtain m where m: "n = Suc m" using assms by (cases n) auto
  obtain c where c: "fold streak_step ts None = Some \<lparr>count = c, lastFailAt = last ts\<rparr>"
    and follow: "int (Suc m) \<le> c \<longleftrightarrow> follow_closely (Suc m) (rev ts)"
    using streak_counts [OF False] by blast
  have ceil: "ceil_div a 1000 = \<lceil>of_int a / (1000 :: rat)\<rceil>" for a
    using floor_divide_of_int_eq [of "- a" 1000, where ?'a = rat] by (simp add: ceil_div_def ceiling_def)
  have "0 < \<lceil>of_int (last ts + LOGIN_BLOCK_MS - now) / (1000 :: rat)\<rceil>" if "now < last ts + LOGIN_BLOCK_MS"
    using that ceil_div_pos [of "last ts + LOGIN_BLOCK_MS - now"] by (simp add: ceil)
  then show ?thesis
    using follow m
    by (auto simp: c live_def locked_out_def seconds_left_def ceil auth_constants)
qed

lemma check_loop_Cons:
  "check_loop ((entry, n) # checks) now =
     (case (case entry of None \<Rightarrow> None
        | Some e \<Rightarrow> if count e < n \<or> \<not> lastFailAt e + LOGIN_BLOCK_MS > now then None
            else Some (max 1 (ceil_div (lastFailAt e + LOGIN_BLOCK_MS - now) 1000))) of
        None \<Rightarrow> check_loop checks now | Some r \<Rightarrow> \<lparr>limited = True, retryAfterSeconds = r\<rparr>)"
  by (simp add: Let_def split: option.split)

lemma streak_decision_lockouts:
  "streak_decision evs ip u now =
    (let pair = pair_failures ip u evs; account = account_failures u evs; address = address_failures ip evs
     in if locked_out 8 pair now then \<lparr>limited = True, retryAfterSeconds = seconds_left pair now\<rparr>
        else if locked_out 8 account now then \<lparr>limited = True, retryAfterSeconds = seconds_left account now\<rparr>
        else if locked_out 40 address now then \<lparr>limited = True, retryAfterSeconds = seconds_left address now\<rparr>
        else \<lparr>limited = False, retryAfterSeconds = 0\<rparr>)"
proof -
  have check: "check_loop ((live now (fold streak_step ts None), int n) # checks) now =
      (if locked_out n ts now then \<lparr>limited = True, retryAfterSeconds = seconds_left ts now\<rparr> else check_loop checks now)"
    if "0 < n" for n ts checks
    unfolding check_loop_Cons check_lockout [OF that] by simp
  show ?thesis
    using check [of 8] check [of 40]
    by (simp add: streak_decision_def streak_times failures_of_events not_limited_def auth_constants Let_def
        del: check_loop.simps(2))
qed

section \<open>Pruning\<close>

lemma prune_issues_get:
  "wf_map es \<Longrightarrow> wf_map m \<Longrightarrow> (\<forall>k. map_has es k \<longrightarrow> map_has m k) \<Longrightarrow>
     map_get (prune_issues now es m) k =
       (case map_get es k of
          None \<Rightarrow> map_get m k
        | Some ts \<Rightarrow> (let a = active_times now ts in if a = [] then None else Some a))"
proof (induction now es m rule: prune_issues.induct)
  case (1 now store)
  then show ?case by simp
next
  case (2 now key ts rest store)
  have rest: "map_get rest key = None" "wf_map rest"
    using "2.prems"(1) by (auto simp: wf_map_def map_of_eq_None_iff)
  have present: "map_has store key" using "2.prems"(3) by auto
  define store' where "store' = (if active_times now ts \<noteq> []
     then updateBoundedMapValueInPlace AUTH_RATE_LIMIT_MAX_KEYS key (active_times now ts) store
     else map_delete key store)"
  have upd: "store' = (if active_times now ts \<noteq> [] then map_set key (active_times now ts) store
     else map_delete key store)"
    using present by (simp add: store'_def updateBoundedMapValueInPlace_def)
  have "wf_map store'" using "2.prems"(2) by (simp add: upd)
  moreover have "\<forall>k. map_has rest k \<longrightarrow> map_has store' k"
    using "2.prems"(3) rest(1) by (auto simp: upd map_has_def map_get_delete map_get_set)
  ultimately have "map_get (prune_issues now rest store') k = (case map_get rest k of
      None \<Rightarrow> map_get store' k | Some ts \<Rightarrow> (let a = active_times now ts in if a = [] then None else Some a))"
    using "2.IH" [OF refl] rest(2) unfolding store'_def by simp
  then show ?case
    using rest(1) unfolding prune_issues.simps Let_def store'_def [symmetric]
    by (cases "k = key"; cases "map_get rest k") (simp_all add: upd map_get_set map_get_delete)
qed

lemma stored_times_prune:
  "wf_map m \<Longrightarrow> active_times now (stored_times (prune_issues now m m) k) =
     active_times now (stored_times m k)"
  by (auto simp: stored_times_def prune_issues_get Let_def active_times_idem split: option.split)
    (metis active_times_def filter.simps(1))

lemma live_prune:
  "wf_map m \<Longrightarrow>
     live now (map_get (snd (pruneMapEntries (\<lambda>entry key. LOGIN_FAIL_WINDOW_MS \<le> now - lastFailAt entry) m)) k)
     = live now (map_get m k)"
  by (auto simp: pruneMapEntries_eq map_get_filter live_def split: option.split)

section \<open>Password failures of other addresses\<close>

definition password_all :: "(string \<times> string \<times> int) list \<Rightarrow> auth_state \<Rightarrow> auth_state" where
  "password_all evs = fold (\<lambda>(ip, u, t). recordPasswordFailure ip u t) evs"

lemma password_all_stores:
  "loginFailStore (password_all evs st) =
     fold (\<lambda>(k, now) m. recordFailure m k now) (pair_events evs) (loginFailStore st)"
  "loginAccountFailStore (password_all evs st) = loginAccountFailStore st"
  "loginIpFailStore (password_all evs st) =
     fold (\<lambda>(k, now) m. recordFailure m k now) (ip_events evs) (loginIpFailStore st)"
  by (induction evs arbitrary: st)
    (auto simp: password_all_def pair_events_def ip_events_def recordPasswordFailure_def)

lemma recordFailure_run_other:
  "store_fits m \<Longrightarrow> length m + length evs \<le> 50000 \<Longrightarrow> k \<notin> fst ` set evs \<Longrightarrow>
     map_get (fold (\<lambda>(k, now) m. recordFailure m k now) evs m) k = map_get m k"
proof (induction evs arbitrary: m)
  case Nil
  then show ?case by simp
next
  case (Cons ev evs)
  obtain key t where ev: "ev = (key, t)" by (cases ev)
  have wf: "wf_map m" using Cons.prems by (simp add: store_fits_def)
  have "length (recordFailure m key t) + length evs \<le> 50000"
    using length_recordFailure [OF wf, of key t] Cons.prems by simp
  with Cons have "map_get (fold (\<lambda>(k, now) m. recordFailure m k now) evs (recordFailure m key t)) k =
      map_get (recordFailure m key t) k" by simp
  moreover have "map_get (recordFailure m key t) k = map_get m k"
    using Cons.prems ev by (intro recordFailure_other [OF wf]) auto
  ultimately show ?case by (simp add: ev)
qed

section \<open>Properties\<close>

text \<open>
  C5: The limiter refuses exactly the locked-out attempts. After any run of recorded failures that
  fits the stores, an address and account are limited exactly when eight failures of the pair, or
  eight of the account, or forty of the address lie, each, less than thirty minutes after the one
  before, up to the latest, and the latest is less than fifteen minutes ago. The time
  announced is then the number of whole seconds until the fifteen minutes are over, for the
  first of the three that applies; otherwise the answer is not limited.
\<close>

theorem authRateLimitState_refines_streaks:
  assumes "length evs \<le> 50000"
  shows "fst (authRateLimitState ip u now (record_all evs clearAuthRateLimitStateForTests)) =
    (let pair = pair_failures ip u evs; account = account_failures u evs; address = address_failures ip evs
     in if locked_out 8 pair now then \<lparr>limited = True, retryAfterSeconds = seconds_left pair now\<rparr>
        else if locked_out 8 account now then \<lparr>limited = True, retryAfterSeconds = seconds_left account now\<rparr>
        else if locked_out 40 address now then \<lparr>limited = True, retryAfterSeconds = seconds_left address now\<rparr>
        else \<lparr>limited = False, retryAfterSeconds = 0\<rparr>)"
  using assms by (simp add: record_all_decision streak_decision_lockouts)

theorem authRateLimitState_refines_streaks_witness:
  "fst (authRateLimitState ''a'' ''bob'' 500 (record_all (map (\<lambda>t. (''a'', ''bob'', t)) [1, 2, 3, 4, 5, 6, 7, 8])
     clearAuthRateLimitStateForTests)) = \<lparr>limited = True, retryAfterSeconds = 900\<rparr>"
proof -
  let ?evs = "map (\<lambda>t. (''a'', ''bob'', t)) [1, 2, 3, 4, 5, 6, 7, 8 :: int]"
  have "locked_out 8 (pair_failures ''a'' ''bob'' ?evs) 500 \<and> seconds_left (pair_failures ''a'' ''bob'' ?evs) 500 = 900"
    by (simp add: locked_out_def follow_closely_def pair_failures_def seconds_left_def less_Suc_eq numeral_eq_Suc ceiling_eq_iff)
  then show ?thesis by (subst authRateLimitState_refines_streaks) simp_all
qed

text \<open>
  eight failures lock the account out. When at least eight attempts on one address and
  account fail, each within thirty minutes of the one before, the pair is blocked for fifteen
  minutes after the last failure, and the retry time announced is positive.
\<close>

theorem lockout_after_eight_failures:
  assumes "8 \<le> length ts" and "length ts \<le> 50000" and "close_times ts"
    and "last ts \<le> now" and "now < last ts + LOGIN_BLOCK_MS"
  shows "fst (authRateLimitState ip u now
      (record_all (map (\<lambda>t. (ip, u, t)) ts) clearAuthRateLimitStateForTests)) =
    \<lparr>limited = True, retryAfterSeconds = max 1 (ceil_div (last ts + LOGIN_BLOCK_MS - now) 1000)\<rparr>"
proof -
  have ev: "pair_events (map (\<lambda>t. (ip, u, t)) ts) = map (\<lambda>t. (getAuthAttemptKey ip u, t)) ts"
    by (simp add: pair_events_def)
  have "streak (getAuthAttemptKey ip u) (pair_events (map (\<lambda>t. (ip, u, t)) ts)) =
      Some \<lparr>count = int (length ts), lastFailAt = last ts\<rparr>"
    unfolding ev using assms by (intro streak_close) auto
  moreover have "now - last ts < LOGIN_FAIL_WINDOW_MS"
    using assms(5) by (simp add: auth_constants)
  ultimately show ?thesis
    using assms by (simp add: record_all_decision streak_decision_def live_def)
qed

theorem lockout_after_eight_failures_witness:
  "limited (fst (authRateLimitState ''10.0.0.1'' ''bob'' 9 (record_all
     (map (\<lambda>t. (''10.0.0.1'', ''bob'', t)) [1, 2, 3, 4, 5, 6, 7, 8]) clearAuthRateLimitStateForTests)))"
  by (subst lockout_after_eight_failures) (simp_all add: auth_constants)

text \<open>
  password failures cannot lock out others. Whatever passwords are tried from other
  addresses, the answer for an address and account does not change as long as the attempts
  use other keys and the stores have room.
\<close>

theorem password_failures_isolated:
  assumes "auth_ok st"
    and "length (loginFailStore st) + length evs \<le> 50000"
    and "length (loginIpFailStore st) + length evs \<le> 50000"
    and "getAuthAttemptKey ip u \<notin> fst ` set (pair_events evs)"
    and "normalizeIp ip \<notin> fst ` set (ip_events evs)"
  shows "fst (authRateLimitState ip u now (password_all evs st)) = fst (authRateLimitState ip u now st)"
  using assms
  by (simp add: fst_authRateLimitState password_all_stores auth_ok_def recordFailure_run_other
      pair_events_def ip_events_def)

theorem password_failures_isolated_witness:
  "fst (authRateLimitState ''10.0.0.1'' ''bob'' 9
      (password_all (replicate 9 (''10.0.0.2'', ''bob'', 1)) clearAuthRateLimitStateForTests)) =
   fst (authRateLimitState ''10.0.0.1'' ''bob'' 9 clearAuthRateLimitStateForTests)"
proof (rule password_failures_isolated)
  show "getAuthAttemptKey ''10.0.0.1'' ''bob''
      \<notin> fst ` set (pair_events (replicate 9 (''10.0.0.2'', ''bob'', 1)))" by code_simp
  show "normalizeIp ''10.0.0.1'' \<notin> fst ` set (ip_events (replicate 9 (''10.0.0.2'', ''bob'', 1)))"
    by code_simp
qed (simp_all add: clearAuthRateLimitStateForTests_def auth_ok_def)

text \<open>
  challenge issues are limited by a sliding window. After any run of issued challenges
  that fits the stores, issuing is refused exactly when five challenges of the pair, of the
  account or of the address were issued within the last minute.
\<close>

theorem twoFactorChallengeIssueState_window:
  assumes "length evs \<le> 50000" and "\<forall>(ip, u, t) \<in> set evs. t \<le> now"
  shows "limited (fst (twoFactorChallengeIssueState ip u now
      (issue_all evs clearAuthRateLimitStateForTests))) \<longleftrightarrow>
    5 \<le> length (active_times now (issues_of (getAuthAttemptKey ip u) (pair_events evs)))
  \<or> 5 \<le> length (active_times now (issues_of (normalizeUsername u) (account_events evs)))
  \<or> 5 \<le> length (active_times now (issues_of (normalizeIp ip) (ip_events evs)))"
proof -
  have len: "length (pair_events evs) \<le> 50000" "length (account_events evs) \<le> 50000"
      "length (ip_events evs) \<le> 50000"
    using assms(1) by (simp_all add: pair_events_def account_events_def ip_events_def)
  have times: "\<forall>(k, t) \<in> set (pair_events evs). t \<le> now" "\<forall>(k, t) \<in> set (account_events evs). t \<le> now"
      "\<forall>(k, t) \<in> set (ip_events evs). t \<le> now"
    using assms(2) by (auto simp: pair_events_def account_events_def ip_events_def)
  show ?thesis
    using record_issue_run [OF len(1) times(1)] record_issue_run [OF len(2) times(2)]
      record_issue_run [OF len(3) times(3)]
    by (simp add: limited_issue_state issue_all_stores clearAuthRateLimitStateForTests_def)
qed

theorem twoFactorChallengeIssueState_window_witness:
  "limited (fst (twoFactorChallengeIssueState ''a'' ''bob'' 9
     (issue_all (replicate 5 (''a'', ''bob'', 1)) clearAuthRateLimitStateForTests)))"
  by (subst twoFactorChallengeIssueState_window) (simp, simp, code_simp)

text \<open>
  pruning is invisible. Dropping expired entries never changes the answer of either
  limiter.
\<close>

theorem pruneAuthRateLimitState_invisible:
  assumes "auth_ok st"
  shows "fst (authRateLimitState ip u now (pruneAuthRateLimitState now st)) =
      fst (authRateLimitState ip u now st) \<and>
    limited (fst (twoFactorChallengeIssueState ip u now (pruneAuthRateLimitState now st))) =
      limited (fst (twoFactorChallengeIssueState ip u now st))"
  using assms
  by (simp_all add: fst_authRateLimitState limited_issue_state pruneAuthRateLimitState_def Let_def
      live_prune stored_times_prune auth_ok_def store_fits_def)

theorem pruneAuthRateLimitState_invisible_witness:
  "auth_ok clearAuthRateLimitStateForTests \<and>
   fst (authRateLimitState ''a'' ''b'' 1 (pruneAuthRateLimitState 1 clearAuthRateLimitStateForTests)) =
   fst (authRateLimitState ''a'' ''b'' 1 clearAuthRateLimitStateForTests)"
proof -
  have ok: "auth_ok clearAuthRateLimitStateForTests"
    by (simp add: auth_ok_def clearAuthRateLimitStateForTests_def)
  then show ?thesis using pruneAuthRateLimitState_invisible by blast
qed

end
