(* ===== verification/Challenges.thy ===== *)
theory Challenges
  imports Prelude
begin

text \<open>
  One-time challenges: the second-factor challenges of \<open>server/twoFactorChallenges.ts\<close>, the
  set-up challenges of \<open>server/twoFactorSetupChallenges.ts\<close> and the signed agent challenges of
  \<open>server/agentAuthChallenge.ts\<close>. Random identifiers are arguments. Node's \<open>Buffer\<close> base64url
  codec and the keyed HMAC are the parameters \<open>enc\<close>, \<open>dec\<close> and \<open>mac\<close>; bytes are naturals.
\<close>

section \<open>Second-factor challenges\<close>

record two_factor_challenge =
  userId :: int
  username :: string
  mobile :: bool
  issueIp :: string
  expiresAt :: int
  attempts :: int

type_synonym challenge_store = "(string, two_factor_challenge) jsmap"

definition TWO_FACTOR_CHALLENGE_TTL_MS :: int where "TWO_FACTOR_CHALLENGE_TTL_MS = 5 * 60 * 1000"
definition TWO_FACTOR_CHALLENGE_MAX_ATTEMPTS :: int where "TWO_FACTOR_CHALLENGE_MAX_ATTEMPTS = 5"

definition normalizeChallengeIp :: "string option \<Rightarrow> string" where
  "normalizeChallengeIp ip =
     (let s = js_lower (js_trim (case ip of None \<Rightarrow> ''unknown'' | Some i \<Rightarrow> if i = [] then ''unknown'' else i))
      in if s = [] then ''unknown'' else s)"

definition challengeIpMatches :: "string \<Rightarrow> string \<Rightarrow> bool" where
  "challengeIpMatches issued0 requested0 =
     (let issued = normalizeChallengeIp (Some issued0);
          requested = normalizeChallengeIp (Some requested0)
      in if issued = ''unknown'' \<or> requested = ''unknown'' then True else issued = requested)"

definition pruneExpired :: "int \<Rightarrow> challenge_store \<Rightarrow> challenge_store" where
  "pruneExpired now m = filter (\<lambda>(id, c). \<not> expiresAt c \<le> now) m"

definition createTwoFactorChallenge ::
  "int \<Rightarrow> string \<Rightarrow> bool option \<Rightarrow> string option \<Rightarrow> string \<Rightarrow> int \<Rightarrow> challenge_store \<Rightarrow>
   (string \<times> int) \<times> challenge_store" where
  "createTwoFactorChallenge user name mob ip challengeId now m =
     ((challengeId, TWO_FACTOR_CHALLENGE_TTL_MS div 1000),
      map_set challengeId
        \<lparr>userId = user, username = name, mobile = (mob = Some True),
         issueIp = normalizeChallengeIp ip, expiresAt = now + TWO_FACTOR_CHALLENGE_TTL_MS,
         attempts = 0\<rparr> (pruneExpired now m))"

definition getTwoFactorChallenge ::
  "string \<Rightarrow> string option \<Rightarrow> int \<Rightarrow> challenge_store \<Rightarrow> two_factor_challenge option \<times> challenge_store" where
  "getTwoFactorChallenge challengeId requestIp now m =
     (case map_get m challengeId of
        None \<Rightarrow> (None, m)
      | Some c \<Rightarrow>
          (if expiresAt c \<le> now then (None, map_delete challengeId m)
           else case requestIp of
               Some ip \<Rightarrow> if \<not> challengeIpMatches (issueIp c) ip then (None, m) else (Some c, m)
             | None \<Rightarrow> (Some c, m)))"

definition clearTwoFactorChallenge :: "string \<Rightarrow> challenge_store \<Rightarrow> challenge_store" where
  "clearTwoFactorChallenge challengeId m = map_delete challengeId m"

definition recordTwoFactorChallengeFailure ::
  "string \<Rightarrow> int \<Rightarrow> challenge_store \<Rightarrow> bool \<times> challenge_store" where
  "recordTwoFactorChallengeFailure challengeId now m =
     (case getTwoFactorChallenge challengeId None now m of
        (None, m1) \<Rightarrow> (False, m1)
      | (Some c, m1) \<Rightarrow>
          (let c' = c\<lparr>attempts := attempts c + 1\<rparr>
           in if attempts c' \<ge> TWO_FACTOR_CHALLENGE_MAX_ATTEMPTS then (False, map_delete challengeId m1)
              else (True, map_set challengeId c' m1)))"

section \<open>Set-up challenges\<close>

record setup_challenge =
  setupUserId :: int
  setupSecret :: string
  setupExpiresAt :: int

type_synonym setup_store = "(string, setup_challenge) jsmap"

definition TWO_FACTOR_SETUP_TTL_MS :: int where "TWO_FACTOR_SETUP_TTL_MS = 5 * 60 * 1000"

definition pruneExpiredSetups :: "int \<Rightarrow> setup_store \<Rightarrow> setup_store" where
  "pruneExpiredSetups now m = filter (\<lambda>(id, c). \<not> setupExpiresAt c \<le> now) m"

definition createTwoFactorSetupChallenge ::
  "int \<Rightarrow> string \<Rightarrow> string \<Rightarrow> int \<Rightarrow> setup_store \<Rightarrow> (string \<times> int \<times> int) \<times> setup_store" where
  "createTwoFactorSetupChallenge user secret setupId now m =
     (let expires = now + TWO_FACTOR_SETUP_TTL_MS
      in ((setupId, expires, TWO_FACTOR_SETUP_TTL_MS div 1000),
          map_set setupId \<lparr>setupUserId = user, setupSecret = secret, setupExpiresAt = expires\<rparr>
            (pruneExpiredSetups now m)))"

definition getTwoFactorSetupChallenge ::
  "string \<Rightarrow> int \<Rightarrow> int \<Rightarrow> setup_store \<Rightarrow> setup_challenge option \<times> setup_store" where
  "getTwoFactorSetupChallenge setupId user now m =
     (case map_get m setupId of
        None \<Rightarrow> (None, m)
      | Some c \<Rightarrow>
          (if setupUserId c \<noteq> user \<or> setupExpiresAt c \<le> now then (None, map_delete setupId m)
           else (Some c, m)))"

definition clearTwoFactorSetupChallenge :: "string \<Rightarrow> setup_store \<Rightarrow> setup_store" where
  "clearTwoFactorSetupChallenge setupId m = map_delete setupId m"

definition clearTwoFactorSetupChallengesForUser :: "int \<Rightarrow> setup_store \<Rightarrow> setup_store" where
  "clearTwoFactorSetupChallengesForUser user m = filter (\<lambda>(id, c). setupUserId c \<noteq> user) m"

section \<open>Agent challenges\<close>

definition CHALLENGE_VALIDITY_MS :: rat where "CHALLENGE_VALIDITY_MS = 10 * 60 * 1000"
definition CHALLENGE_FUTURE_TOLERANCE_MS :: rat where "CHALLENGE_FUTURE_TOLERANCE_MS = 1000"
definition CONSUMED_CACHE_CLEANUP_INTERVAL_MS :: rat where "CONSUMED_CACHE_CLEANUP_INTERVAL_MS = 10000"
definition CHALLENGE_PAYLOAD_BYTES :: nat where "CHALLENGE_PAYLOAD_BYTES = 8 + 24"
definition CHALLENGE_BYTES :: nat where "CHALLENGE_BYTES = CHALLENGE_PAYLOAD_BYTES + 32"

type_synonym bytes = "nat list"

record agent_challenges =
  consumedChallenges :: "(string, rat) jsmap"
  consumedCacheCleanupAt :: rat

definition resetAgentAuthChallengesForTests :: agent_challenges where
  "resetAgentAuthChallengesForTests = \<lparr>consumedChallenges = [], consumedCacheCleanupAt = 0\<rparr>"

definition url_char :: "char \<Rightarrow> bool" where
  "url_char c \<longleftrightarrow>
     (let n = char_code c
      in (65 \<le> n \<and> n \<le> 90) \<or> (97 \<le> n \<and> n \<le> 122) \<or> is_digit c \<or> c = CHR ''_'' \<or> c = CHR ''-'')"

definition decodeChallenge ::
  "(string \<Rightarrow> bytes) \<Rightarrow> (bytes \<Rightarrow> string) \<Rightarrow> string \<Rightarrow> bytes option" where
  "decodeChallenge dec enc value' =
     (if \<not> (list_all url_char value' \<and> 80 \<le> length value' \<and> length value' \<le> 100) then None
      else
        let decoded = dec value'
        in if length decoded \<noteq> CHALLENGE_BYTES \<or> enc decoded \<noteq> value' then None else Some decoded)"

text \<open>\<open>writeBigUInt64BE\<close> and \<open>readBigUInt64BE\<close>.\<close>

fun be_bytes :: "nat \<Rightarrow> nat \<Rightarrow> bytes" where
  "be_bytes 0 n = []"
| "be_bytes (Suc k) n = be_bytes k (n div 256) @ [n mod 256]"

definition be_value :: "bytes \<Rightarrow> nat" where
  "be_value bs = foldl (\<lambda>acc b. 256 * acc + b) 0 bs"

definition issueAgentAuthChallenge ::
  "(bytes \<Rightarrow> bytes) \<Rightarrow> (bytes \<Rightarrow> string) \<Rightarrow> bytes \<Rightarrow> rat \<Rightarrow> string" where
  "issueAgentAuthChallenge mac enc random now =
     (let payload = be_bytes 8 (nat (max 0 \<lfloor>now\<rfloor>)) @ random
      in enc (payload @ mac payload))"

definition validateAgentAuthChallenge ::
  "(bytes \<Rightarrow> bytes) \<Rightarrow> (string \<Rightarrow> bytes) \<Rightarrow> (bytes \<Rightarrow> string) \<Rightarrow> string \<Rightarrow> rat \<Rightarrow> bool" where
  "validateAgentAuthChallenge mac dec enc challenge now =
     (case decodeChallenge dec enc challenge of
        None \<Rightarrow> False
      | Some decoded \<Rightarrow>
          (let payload = take CHALLENGE_PAYLOAD_BYTES decoded;
               receivedMac = drop CHALLENGE_PAYLOAD_BYTES decoded
           in if receivedMac \<noteq> mac payload then False
              else
                (let ageMs = now - of_nat (be_value (take 8 payload))
                 in ageMs \<ge> - CHALLENGE_FUTURE_TOLERANCE_MS \<and> ageMs \<le> CHALLENGE_VALIDITY_MS)))"

definition cleanupConsumedChallenges :: "rat \<Rightarrow> agent_challenges \<Rightarrow> agent_challenges" where
  "cleanupConsumedChallenges now s =
     (if now < consumedCacheCleanupAt s then s
      else s\<lparr>consumedCacheCleanupAt := now + CONSUMED_CACHE_CLEANUP_INTERVAL_MS,
             consumedChallenges := filter (\<lambda>(c, expires). \<not> expires \<le> now) (consumedChallenges s)\<rparr>)"

definition consumeAgentAuthChallenge ::
  "(bytes \<Rightarrow> bytes) \<Rightarrow> (string \<Rightarrow> bytes) \<Rightarrow> (bytes \<Rightarrow> string) \<Rightarrow> string \<Rightarrow> rat \<Rightarrow>
   agent_challenges \<Rightarrow> bool \<times> agent_challenges" where
  "consumeAgentAuthChallenge mac dec enc challenge now s =
     (if \<not> validateAgentAuthChallenge mac dec enc challenge now then (False, s)
      else
        let s1 = cleanupConsumedChallenges now s;
            existingExpiry = (case map_get (consumedChallenges s1) challenge of None \<Rightarrow> 0 | Some e \<Rightarrow> e)
        in if existingExpiry > now then (False, s1)
           else (True, s1\<lparr>consumedChallenges :=
                   map_set challenge (now + CHALLENGE_VALIDITY_MS) (consumedChallenges s1)\<rparr>))"

section \<open>A contract for expiring one-time entries\<close>

text \<open>
  Both second-factor stores hand out an entry only while it lives and destroy it on a failed
  read. \<open>read\<close> is the lookup for one kind of request, \<open>alive\<close> its acceptance test.
\<close>

locale expiring_store =
  fixes read :: "'r \<Rightarrow> string \<Rightarrow> int \<Rightarrow> (string, 'c) jsmap \<Rightarrow> 'c option \<times> (string, 'c) jsmap"
    and alive :: "'c \<Rightarrow> int \<Rightarrow> bool"
  assumes read_found: "fst (read r i now m) = Some c \<Longrightarrow> map_get m i = Some c \<and> alive c now"
    and read_wf: "wf_map m \<Longrightarrow> wf_map (snd (read r i now m))"
    and read_frame: "wf_map m \<Longrightarrow> map_get (snd (read r i now m)) j = Some c \<Longrightarrow> map_get m j = Some c"
    and read_dead: "map_get m i = Some c \<Longrightarrow> \<not> alive c now \<Longrightarrow> map_get (snd (read r i now m)) i = None"
begin

lemma read_absent: "map_get m i = None \<Longrightarrow> fst (read r i now m) = None"
  using read_found by (cases "fst (read r i now m)") force+

text \<open>Reads, in any number and for any identifiers, never bring an entry into being.\<close>

lemma reads_frame:
  "wf_map m \<Longrightarrow> map_get (fold (\<lambda>(r, i, t) m. snd (read r i t m)) rs m) j = Some c \<Longrightarrow> map_get m j = Some c"
proof (induction rs arbitrary: m)
  case Nil
  then show ?case by simp
next
  case (Cons x rs)
  obtain r i t where x: "x = (r, i, t)" by (cases x)
  with Cons have "map_get (snd (read r i t m)) j = Some c" by (simp add: read_wf)
  with Cons.prems show ?case by (blast intro: read_frame)
qed

lemma dead_stays_unread:
  assumes "wf_map m" and "map_get m i = Some c" and "\<not> alive c now"
  shows "fst (read r2 i now2 (fold (\<lambda>(r, i, t) m. snd (read r i t m)) rs (snd (read r i now m)))) = None"
proof -
  let ?m = "fold (\<lambda>(r, i, t) m. snd (read r i t m)) rs (snd (read r i now m))"
  have "map_get ?m i = None"
  proof (cases "map_get ?m i")
    case (Some c')
    with reads_frame [OF read_wf [OF assms(1)]] have "map_get (snd (read r i now m)) i = Some c'" by blast
    with read_dead [OF assms(2,3)] show ?thesis by simp
  qed
  then show ?thesis by (rule read_absent)
qed

end

interpretation login_challenges:
  expiring_store "\<lambda>ip i now m. getTwoFactorChallenge i ip now m" "\<lambda>c now. now < expiresAt c"
  by unfold_locales
    (auto simp: getTwoFactorChallenge_def map_get_delete split: option.splits if_splits)

interpretation setup_challenges:
  expiring_store "\<lambda>user i now m. getTwoFactorSetupChallenge i user now m"
    "\<lambda>c now. now < setupExpiresAt c"
  by unfold_locales
    (auto simp: getTwoFactorSetupChallenge_def map_get_delete split: option.splits if_splits)

section \<open>Lemmas\<close>

text \<open>Guesses at one challenge: the answers of consecutive failures and the final store.\<close>

fun failures :: "string \<Rightarrow> int list \<Rightarrow> challenge_store \<Rightarrow> challenge_store" where
  "failures i [] m = m"
| "failures i (t # ts) m = failures i ts (snd (recordTwoFactorChallengeFailure i t m))"

lemma failure_absent:
  "map_get m i = None \<Longrightarrow> map_get (snd (recordTwoFactorChallengeFailure i t m)) i = None"
  by (simp add: recordTwoFactorChallengeFailure_def getTwoFactorChallenge_def)

lemma failure_counts:
  "map_get m i = Some c \<Longrightarrow>
     map_get (snd (recordTwoFactorChallengeFailure i t m)) i = None \<or>
     (map_get (snd (recordTwoFactorChallengeFailure i t m)) i = Some (c\<lparr>attempts := attempts c + 1\<rparr>)
      \<and> attempts c + 1 < TWO_FACTOR_CHALLENGE_MAX_ATTEMPTS)"
  by (auto simp: recordTwoFactorChallengeFailure_def getTwoFactorChallenge_def Let_def
      map_get_delete map_get_set)

lemma failures_absent: "map_get m i = None \<Longrightarrow> map_get (failures i ts m) i = None"
  by (induction i ts m rule: failures.induct) (simp_all add: failure_absent)

lemma failures_exhaust:
  "map_get m i = Some c \<Longrightarrow> TWO_FACTOR_CHALLENGE_MAX_ATTEMPTS \<le> attempts c + int (length ts) \<Longrightarrow>
     ts \<noteq> [] \<Longrightarrow> map_get (failures i ts m) i = None"
proof (induction ts arbitrary: m c)
  case Nil
  then show ?case by simp
next
  case (Cons t ts)
  let ?m = "snd (recordTwoFactorChallengeFailure i t m)"
  from failure_counts [OF Cons.prems(1), of t] show ?case
  proof
    assume "map_get ?m i = None"
    then show ?thesis by (simp add: failures_absent)
  next
    assume next_state: "map_get ?m i = Some (c\<lparr>attempts := attempts c + 1\<rparr>) \<and>
      attempts c + 1 < TWO_FACTOR_CHALLENGE_MAX_ATTEMPTS"
    then have "ts \<noteq> []" using Cons.prems(2) by auto
    with next_state Cons.prems(2) Cons.IH [of ?m "c\<lparr>attempts := attempts c + 1\<rparr>"]
    show ?thesis by simp
  qed
qed

lemma be_value_append: "be_value (xs @ [b]) = 256 * be_value xs + b"
  by (simp add: be_value_def)

lemma be_value_bytes: "n < 256 ^ k \<Longrightarrow> be_value (be_bytes k n) = n"
proof (induction k n rule: be_bytes.induct)
  case (1 n)
  then show ?case by (simp add: be_value_def)
next
  case (2 k n)
  then have "n div 256 < 256 ^ k" by (simp add: less_mult_imp_div_less mult.commute)
  with 2 show ?case by (simp add: be_value_append)
qed

lemma length_be_bytes [simp]: "length (be_bytes k n) = k"
  by (induction k n rule: be_bytes.induct) auto

lemma be_bytes_zero: "be_bytes k 0 = replicate k 0"
  by (induction k) (simp_all add: replicate_append_same)

definition issued_at :: "(string \<Rightarrow> bytes) \<Rightarrow> string \<Rightarrow> rat" where
  "issued_at dec challenge = of_nat (be_value (take 8 (take CHALLENGE_PAYLOAD_BYTES (dec challenge))))"

lemma validate_ageD:
  "validateAgentAuthChallenge mac dec enc challenge now \<Longrightarrow>
     now \<le> issued_at dec challenge + CHALLENGE_VALIDITY_MS"
  by (auto simp: validateAgentAuthChallenge_def decodeChallenge_def issued_at_def Let_def
      split: if_splits)

definition consume_all ::
  "(bytes \<Rightarrow> bytes) \<Rightarrow> (string \<Rightarrow> bytes) \<Rightarrow> (bytes \<Rightarrow> string) \<Rightarrow> (string \<times> rat) list \<Rightarrow>
   agent_challenges \<Rightarrow> agent_challenges" where
  "consume_all mac dec enc evs = fold (\<lambda>(c, t) s. snd (consumeAgentAuthChallenge mac dec enc c t s)) evs"

definition guarded :: "string \<Rightarrow> rat \<Rightarrow> agent_challenges \<Rightarrow> bool" where
  "guarded c e s \<longleftrightarrow> wf_map (consumedChallenges s) \<and>
     (\<exists>e'. map_get (consumedChallenges s) c = Some e' \<and> e \<le> e')"

lemma cleanup_guarded: "guarded c e s \<Longrightarrow> t < e \<Longrightarrow> guarded c e (cleanupConsumedChallenges t s)"
  by (auto simp: guarded_def cleanupConsumedChallenges_def map_get_filter)

lemma consume_guarded:
  assumes "guarded c e s" and "t < e"
  shows "guarded c e (snd (consumeAgentAuthChallenge mac dec enc c' t s))"
proof -
  let ?s = "cleanupConsumedChallenges t s"
  have g: "guarded c e ?s" using assms by (rule cleanup_guarded)
  then have live: "\<exists>e'. map_get (consumedChallenges ?s) c = Some e' \<and> t < e'"
    using assms(2) by (auto simp: guarded_def)
  show ?thesis
    using g live assms(1)
    by (auto simp: consumeAgentAuthChallenge_def Let_def guarded_def map_get_set split: option.splits)
qed

lemma consume_all_guarded:
  "guarded c e s \<Longrightarrow> \<forall>(c', t) \<in> set evs. t < e \<Longrightarrow> guarded c e (consume_all mac dec enc evs s)"
  by (induction evs arbitrary: s) (auto simp: consume_all_def consume_guarded)

lemma guarded_refused:
  assumes "guarded c e s" and "t < e"
  shows "\<not> fst (consumeAgentAuthChallenge mac dec enc c t s)"
proof -
  obtain e' where "map_get (consumedChallenges (cleanupConsumedChallenges t s)) c = Some e'" "e \<le> e'"
    using cleanup_guarded [OF assms] by (auto simp: guarded_def)
  with assms(2) show ?thesis by (simp add: consumeAgentAuthChallenge_def Let_def)
qed

lemma consume_wf:
  "wf_map (consumedChallenges s) \<Longrightarrow>
     wf_map (consumedChallenges (snd (consumeAgentAuthChallenge mac dec enc c t s)))"
  by (auto simp: consumeAgentAuthChallenge_def Let_def cleanupConsumedChallenges_def)

lemma consume_accepted:
  "wf_map (consumedChallenges s) \<Longrightarrow> fst (consumeAgentAuthChallenge mac dec enc c t s) \<Longrightarrow>
     guarded c (t + CHALLENGE_VALIDITY_MS) (snd (consumeAgentAuthChallenge mac dec enc c t s))"
  by (auto simp: consumeAgentAuthChallenge_def Let_def guarded_def cleanupConsumedChallenges_def
      map_get_set split: if_splits)

section \<open>Properties\<close>

text \<open>
  C14: an agent challenge is accepted at most once. Once a challenge has been consumed at a
  time after its issue, no later attempt with it succeeds, whatever other challenges are
  consumed in between and however the cache is cleaned.
\<close>

theorem agent_challenge_single_use:
  assumes "wf_map (consumedChallenges s)"
    and "fst (consumeAgentAuthChallenge mac dec enc c t1 s)"
    and "issued_at dec c < t1"
    and "\<forall>(c', t) \<in> set evs. t \<le> t2"
  shows "\<not> fst (consumeAgentAuthChallenge mac dec enc c t2
    (consume_all mac dec enc evs (snd (consumeAgentAuthChallenge mac dec enc c t1 s))))"
proof (cases "t2 < t1 + CHALLENGE_VALIDITY_MS")
  case True
  with assms(4) have "\<forall>(c', t) \<in> set evs. t < t1 + CHALLENGE_VALIDITY_MS" by fastforce
  then have "guarded c (t1 + CHALLENGE_VALIDITY_MS)
      (consume_all mac dec enc evs (snd (consumeAgentAuthChallenge mac dec enc c t1 s)))"
    using consume_accepted [OF assms(1,2)] by (intro consume_all_guarded)
  then show ?thesis using True by (rule guarded_refused)
next
  case False
  then have "\<not> t2 \<le> issued_at dec c + CHALLENGE_VALIDITY_MS" using assms(3) by simp
  then have "\<not> validateAgentAuthChallenge mac dec enc c t2" using validate_ageD by blast
  then show ?thesis by (simp add: consumeAgentAuthChallenge_def)
qed

definition example_challenge :: string where
  "example_challenge = replicate 86 CHR ''A''"

definition example_dec :: "string \<Rightarrow> bytes" where
  "example_dec s = replicate 64 0"

definition example_enc :: "bytes \<Rightarrow> string" where
  "example_enc bs = example_challenge"

definition example_mac :: "bytes \<Rightarrow> bytes" where
  "example_mac bs = replicate 32 0"

lemma example_accepted:
  "fst (consumeAgentAuthChallenge example_mac example_dec example_enc example_challenge 5
     resetAgentAuthChallengesForTests)"
  by (simp add: consumeAgentAuthChallenge_def validateAgentAuthChallenge_def decodeChallenge_def
      example_mac_def example_dec_def example_enc_def example_challenge_def CHALLENGE_BYTES_def
      CHALLENGE_PAYLOAD_BYTES_def resetAgentAuthChallengesForTests_def Let_def list_all_iff
      url_char_def be_value_def CHALLENGE_VALIDITY_MS_def CHALLENGE_FUTURE_TOLERANCE_MS_def
      cleanupConsumedChallenges_def numeral_eq_Suc)

theorem agent_challenge_single_use_witness:
  "\<not> fst (consumeAgentAuthChallenge example_mac example_dec example_enc example_challenge 7
    (consume_all example_mac example_dec example_enc [(''x'', 6)]
      (snd (consumeAgentAuthChallenge example_mac example_dec example_enc example_challenge 5
        resetAgentAuthChallengesForTests))))"
proof (rule agent_challenge_single_use [OF _ example_accepted])
  show "issued_at example_dec example_challenge < 5"
    by (simp add: issued_at_def example_dec_def be_value_def CHALLENGE_PAYLOAD_BYTES_def numeral_eq_Suc)
qed (simp_all add: resetAgentAuthChallengesForTests_def)

text \<open>
  a challenge the panel issues is accepted by its own validation until it expires. With a
  codec that inverts itself on the issued bytes and a 32-byte code, the challenge issued at
  \<open>t\<close> is valid at \<open>now\<close> exactly from one second before to ten minutes after the issue.
\<close>

theorem issued_challenge_validates:
  assumes "length random = 24" and "\<And>p. length (mac p) = 32"
    and "0 \<le> t" and "t < 2 ^ 64"
    and codec: "dec (issueAgentAuthChallenge mac enc random t) =
      (let payload = be_bytes 8 (nat \<lfloor>t\<rfloor>) @ random in payload @ mac payload)"
    and alphabet: "list_all url_char (issueAgentAuthChallenge mac enc random t)"
      "80 \<le> length (issueAgentAuthChallenge mac enc random t)"
      "length (issueAgentAuthChallenge mac enc random t) \<le> 100"
  shows "validateAgentAuthChallenge mac dec enc (issueAgentAuthChallenge mac enc random t) now \<longleftrightarrow>
    of_int \<lfloor>t\<rfloor> - 1000 \<le> now \<and> now \<le> of_int \<lfloor>t\<rfloor> + 600000"
proof -
  define payload where "payload = be_bytes 8 (nat \<lfloor>t\<rfloor>) @ random"
  have max: "max 0 \<lfloor>t\<rfloor> = \<lfloor>t\<rfloor>" using assms(3) by simp
  have issue: "issueAgentAuthChallenge mac enc random t = enc (payload @ mac payload)"
    by (simp add: issueAgentAuthChallenge_def max payload_def)
  have len: "length payload = 32" using assms(1) by (simp add: payload_def)
  have "decodeChallenge dec enc (issueAgentAuthChallenge mac enc random t) = Some (payload @ mac payload)"
    using alphabet codec len assms(2)
    by (simp add: decodeChallenge_def Let_def issue payload_def [symmetric] CHALLENGE_BYTES_def
        CHALLENGE_PAYLOAD_BYTES_def)
  moreover have "\<lfloor>t\<rfloor> < 2 ^ 64" using assms(4) by (simp add: floor_less_iff)
  then have "be_value (be_bytes 8 (nat \<lfloor>t\<rfloor>)) = nat \<lfloor>t\<rfloor>"
    using assms(3) by (intro be_value_bytes) (simp add: nat_less_iff)
  then have "(of_nat (be_value (take 8 payload)) :: rat) = of_int \<lfloor>t\<rfloor>"
    using assms(3) by (simp add: payload_def)
  ultimately show ?thesis
    using len
    by (auto simp: validateAgentAuthChallenge_def Let_def CHALLENGE_PAYLOAD_BYTES_def
        CHALLENGE_VALIDITY_MS_def CHALLENGE_FUTURE_TOLERANCE_MS_def algebra_simps)
qed

theorem issued_challenge_validates_witness:
  "validateAgentAuthChallenge example_mac example_dec example_enc
     (issueAgentAuthChallenge example_mac example_enc (replicate 24 0) 0) 500 \<longleftrightarrow>
   of_int \<lfloor>0 :: rat\<rfloor> - 1000 \<le> (500 :: rat) \<and> (500 :: rat) \<le> of_int \<lfloor>0 :: rat\<rfloor> + 600000"
proof (rule issued_challenge_validates)
  show "example_dec (issueAgentAuthChallenge example_mac example_enc (replicate 24 0) 0) =
      (let payload = be_bytes 8 (nat \<lfloor>0 :: rat\<rfloor>) @ replicate 24 0 in payload @ example_mac payload)"
    by (simp add: example_dec_def example_mac_def Let_def be_bytes_zero replicate_add [symmetric])
qed (simp_all add: issueAgentAuthChallenge_def example_mac_def example_enc_def example_challenge_def
    list_all_iff url_char_def)

text \<open>
  a second-factor challenge can be guessed at most five times. However many failures are
  recorded for it, at whatever times, it no longer exists after the fifth, and reading it
  fails.
\<close>

theorem challenge_guess_budget:
  assumes "map_get m i = Some c" and "0 \<le> attempts c" and "5 \<le> length ts"
  shows "fst (getTwoFactorChallenge i ip now (failures i ts m)) = None"
proof -
  have "map_get (failures i ts m) i = None"
    using assms by (intro failures_exhaust) (auto simp: TWO_FACTOR_CHALLENGE_MAX_ATTEMPTS_def)
  then show ?thesis by (rule login_challenges.read_absent)
qed

theorem challenge_guess_budget_witness:
  "fst (getTwoFactorChallenge ''id'' None 9 (failures ''id'' [1, 2, 3, 4, 5]
     (snd (createTwoFactorChallenge 1 ''bob'' None None ''id'' 0 [])))) = None"
  by (rule challenge_guess_budget [where c = "\<lparr>userId = 1, username = ''bob'', mobile = False,
        issueIp = normalizeChallengeIp None, expiresAt = TWO_FACTOR_CHALLENGE_TTL_MS, attempts = 0\<rparr>"])
    (simp_all add: createTwoFactorChallenge_def pruneExpired_def)

text \<open>
  a set-up challenge dies with its first read by the wrong user or after its expiry: no
  later read of it, by any user, returns the secret.
\<close>

theorem setup_challenge_burnt:
  assumes "wf_map m" and "map_get m i = Some c"
    and "setupUserId c \<noteq> user \<or> setupExpiresAt c \<le> now"
  shows "fst (getTwoFactorSetupChallenge i user2 now2
    (fold (\<lambda>(u, j, t) m. snd (getTwoFactorSetupChallenge j u t m)) rs
      (snd (getTwoFactorSetupChallenge i user now m)))) = None"
proof -
  let ?m = "snd (getTwoFactorSetupChallenge i user now m)"
  have gone: "map_get ?m i = None"
    using assms by (auto simp: getTwoFactorSetupChallenge_def map_get_delete)
  have "map_get (fold (\<lambda>(u, j, t) m. snd (getTwoFactorSetupChallenge j u t m)) rs ?m) i \<noteq> Some c'" for c'
    using setup_challenges.reads_frame [OF setup_challenges.read_wf [OF assms(1)]] gone by fastforce
  then have "map_get (fold (\<lambda>(u, j, t) m. snd (getTwoFactorSetupChallenge j u t m)) rs ?m) i = None"
    by auto
  then show ?thesis by (rule setup_challenges.read_absent)
qed

theorem setup_challenge_burnt_witness:
  "fst (getTwoFactorSetupChallenge ''s'' 1 2 (fold (\<lambda>(u, j, t) m. snd (getTwoFactorSetupChallenge j u t m)) []
     (snd (getTwoFactorSetupChallenge ''s'' 2 1
       (snd (createTwoFactorSetupChallenge 1 ''key'' ''s'' 0 [])))))) = None"
  by (rule setup_challenge_burnt [where c = "\<lparr>setupUserId = 1, setupSecret = ''key'', setupExpiresAt = 300000\<rparr>"])
    (simp_all add: createTwoFactorSetupChallenge_def pruneExpiredSetups_def Let_def
      TWO_FACTOR_SETUP_TTL_MS_def wf_map_def)

end
