(* ===== verification/Offline_Debouncer.thy ===== *)
theory Offline_Debouncer
  imports Timers
begin

text \<open>
  \<open>server/hostOfflineNotificationDebouncer.ts\<close>: an offline notification of a host is held
  back for a delay and dropped when the host recovers, or is replaced by a newer one.
  The two closures a caller passes, \<open>isCurrent\<close> and \<open>notify\<close>, are the opaque value \<open>'c\<close>
  kept with the timer; what they return or throw when they run is an argument of \<open>fire\<close>.
  A rejected promise of \<open>notify\<close> is reported like a throw, later.
\<close>

section \<open>The debouncer\<close>

definition HOST_OFFLINE_NOTIFICATION_DEBOUNCE_MS :: int where
  "HOST_OFFLINE_NOTIFICATION_DEBOUNCE_MS = 30000"

record pending_notification =
  pn_generation :: int
  pn_timer :: nat

record 'c debouncer =
  delayMs :: int
  pending :: "(int, pending_notification) jsmap"
  generation :: int
  timers :: "(int, int \<times> int \<times> 'c) timers"

definition positiveHostId :: "jsval \<Rightarrow> int option" where
  "positiveHostId value = (case js_integer (to_number value) of
     Some hostId \<Rightarrow> if hostId > 0 then Some hostId else None
   | None \<Rightarrow> None)"

definition new_debouncer :: "int option \<Rightarrow> 'c debouncer" where
  "new_debouncer delay =
     \<lparr>delayMs = max 0 (case delay of None \<Rightarrow> HOST_OFFLINE_NOTIFICATION_DEBOUNCE_MS | Some d \<Rightarrow> d),
      pending = [], generation = 0, timers = no_timers\<rparr>"

definition nextGeneration :: "int \<Rightarrow> int" where
  "nextGeneration g = (if g \<ge> MAX_SAFE_INTEGER then 1 else g + 1)"

definition cancel_host :: "int \<Rightarrow> 'c debouncer \<Rightarrow> bool \<times> 'c debouncer" where
  "cancel_host hostId d =
     (case map_get (pending d) hostId of
        None \<Rightarrow> (False, d)
      | Some current \<Rightarrow>
          (True, d\<lparr>timers := clearTimer (pn_timer current) (timers d),
                   pending := map_delete hostId (pending d)\<rparr>))"

definition cancel :: "jsval \<Rightarrow> 'c debouncer \<Rightarrow> bool \<times> 'c debouncer" where
  "cancel hostIdValue d =
     (case positiveHostId hostIdValue of
        None \<Rightarrow> (False, d) | Some hostId \<Rightarrow> cancel_host hostId d)"

definition schedule :: "int \<Rightarrow> jsval \<Rightarrow> 'c \<Rightarrow> 'c debouncer \<Rightarrow> bool \<times> 'c debouncer" where
  "schedule now hostIdValue callbacks d =
     (case positiveHostId hostIdValue of
        None \<Rightarrow> (False, d)
      | Some hostId \<Rightarrow>
          (let d1 = snd (cancel_host hostId d);
               g = nextGeneration (generation d1);
               (timer, ts) = setTimer now (delayMs d1) (hostId, g, callbacks) (timers d1)
           in (True, d1\<lparr>generation := g, timers := ts,
                pending := map_set hostId \<lparr>pn_generation = g, pn_timer = timer\<rparr> (pending d1)\<rparr>)))"

definition clear_debouncer :: "'c debouncer \<Rightarrow> 'c debouncer" where
  "clear_debouncer d =
     d\<lparr>timers := fold (\<lambda>(_, current). clearTimer (pn_timer current)) (pending d) (timers d),
       pending := []\<rparr>"

definition hasPending :: "jsval \<Rightarrow> 'c debouncer \<Rightarrow> bool" where
  "hasPending hostIdValue d =
     (case positiveHostId hostIdValue of
        None \<Rightarrow> False | Some hostId \<Rightarrow> map_has (pending d) hostId)"

text \<open>What a callback may do: return or throw.\<close>

datatype 'a outcome = Returned 'a | Threw

datatype 'c notice = Notified int 'c | NotifyFailed int 'c | CheckFailed int 'c

definition run_notice :: "bool outcome \<Rightarrow> unit outcome \<Rightarrow> int \<Rightarrow> 'c \<Rightarrow> 'c notice list" where
  "run_notice isCurrent notify hostId c =
     (case isCurrent of
        Threw \<Rightarrow> [CheckFailed hostId c]
      | Returned shouldNotify \<Rightarrow>
          if \<not> shouldNotify then []
          else (case notify of
                  Returned _ \<Rightarrow> [Notified hostId c]
                | Threw \<Rightarrow> [NotifyFailed hostId c]))"

text \<open>The timer callback: the runtime drops the timer, then the closure of \<open>schedule\<close> runs.\<close>

definition fire :: "nat \<Rightarrow> int \<Rightarrow> bool outcome \<Rightarrow> unit outcome \<Rightarrow> 'c debouncer
    \<Rightarrow> 'c notice list \<times> 'c debouncer" where
  "fire h now isCurrent notify d =
     (case due_timer h now (timers d) of
        None \<Rightarrow> ([], d)
      | Some (hostId, g, c) \<Rightarrow>
          (let d1 = d\<lparr>timers := clearTimer h (timers d)\<rparr> in
           case map_get (pending d1) hostId of
             None \<Rightarrow> ([], d1)
           | Some current \<Rightarrow>
               if pn_generation current \<noteq> g \<or> pn_timer current \<noteq> h then ([], d1)
               else (run_notice isCurrent notify hostId c,
                     d1\<lparr>pending := map_delete hostId (pending d1)\<rparr>)))"

datatype 'c debounce_op =
    Schedule int jsval 'c | Cancel jsval | Clear | Fire nat int "bool outcome" "unit outcome"

fun debounce_step :: "'c debounce_op \<Rightarrow> 'c debouncer \<Rightarrow> 'c notice list \<times> 'c debouncer" where
  "debounce_step (Schedule now v c) d = ([], snd (schedule now v c d))"
| "debounce_step (Cancel v) d = ([], snd (cancel v d))"
| "debounce_step Clear d = ([], clear_debouncer d)"
| "debounce_step (Fire h now ic nt) d = fire h now ic nt d"

fun debounce_run :: "'c debounce_op list \<Rightarrow> 'c debouncer \<Rightarrow> 'c notice list \<times> 'c debouncer" where
  "debounce_run [] d = ([], d)"
| "debounce_run (op # ops) d =
     (let (out, d1) = debounce_step op d; (outs, d2) = debounce_run ops d1 in (out @ outs, d2))"

section \<open>What it promises\<close>

text \<open>
  The abstract debouncer knows no handles and no generations: for each host there is at most
  one waiting notification, with the time it becomes due.
\<close>

type_synonym 'c waiting = "int \<Rightarrow> (int \<times> 'c) option"

inductive debounce_spec ::
  "int \<Rightarrow> 'c debounce_op \<Rightarrow> 'c waiting \<Rightarrow> 'c notice list \<Rightarrow> 'c waiting \<Rightarrow> bool" for delay where
  spec_schedule: "positiveHostId v = Some k \<Longrightarrow>
     debounce_spec delay (Schedule now v c) w [] (w(k \<mapsto> (now + delay, c)))"
| spec_schedule_bad: "positiveHostId v = None \<Longrightarrow> debounce_spec delay (Schedule now v c) w [] w"
| spec_cancel: "positiveHostId v = Some k \<Longrightarrow> debounce_spec delay (Cancel v) w [] (w(k := None))"
| spec_cancel_bad: "positiveHostId v = None \<Longrightarrow> debounce_spec delay (Cancel v) w [] w"
| spec_clear: "debounce_spec delay Clear w [] (\<lambda>_. None)"
| spec_fire: "w k = Some (due, c) \<Longrightarrow> due \<le> now \<Longrightarrow>
     debounce_spec delay (Fire h now ic nt) w (run_notice ic nt k c) (w(k := None))"
| spec_idle: "debounce_spec delay (Fire h now ic nt) w [] w"

definition waiting_of :: "'c debouncer \<Rightarrow> 'c waiting" where
  "waiting_of d k =
     (case map_get (pending d) k of
        None \<Rightarrow> None
      | Some cur \<Rightarrow> map_option (\<lambda>(due, (_, _, c)). (due, c)) (map_get (active (timers d)) (pn_timer cur)))"

abbreviation handles :: "'c debouncer \<Rightarrow> int \<Rightarrow> nat option" where
  "handles d \<equiv> table_handles pn_timer (pending d)"

definition wf_debouncer :: "'c debouncer \<Rightarrow> bool" where
  "wf_debouncer d \<longleftrightarrow> wf_map (pending d) \<and> tracks (Some \<circ> fst) (handles d) (timers d) \<and>
     (\<forall>k cur g c. map_get (pending d) k = Some cur \<longrightarrow>
        timer_payload (timers d) (pn_timer cur) = Some (k, g, c) \<longrightarrow> g = pn_generation cur)"

section \<open>The operations on the table and its timers\<close>

lemma wf_debouncerD:
  assumes "wf_debouncer d"
  shows "wf_map (pending d)" and "tracks (Some \<circ> fst) (handles d) (timers d)" and "wf_timers (timers d)"
    and "map_get (pending d) k = Some cur \<Longrightarrow>
      \<exists>due c. map_get (active (timers d)) (pn_timer cur) = Some (due, (k, pn_generation cur, c))"
proof -
  show "wf_map (pending d)" "tracks (Some \<circ> fst) (handles d) (timers d)"
    using assms by (auto simp: wf_debouncer_def)
  then show "wf_timers (timers d)" by (simp add: tracks_def)
  assume k: "map_get (pending d) k = Some cur"
  obtain p where p: "timer_payload (timers d) (pn_timer cur) = Some p" "fst p = k"
    using tracks_pending [OF \<open>tracks (Some \<circ> fst) (handles d) (timers d)\<close>, of k "pn_timer cur"] k by auto
  with assms k show "\<exists>due c. map_get (active (timers d)) (pn_timer cur)
      = Some (due, (k, pn_generation cur, c))"
    by (cases p) (auto simp: wf_debouncer_def timer_payload_def)
qed

lemma wf_new_debouncer: "wf_debouncer (new_debouncer delay)"
  by (simp add: wf_debouncer_def new_debouncer_def tracks_empty)

lemma waiting_of_new: "waiting_of (new_debouncer delay) = (\<lambda>_. None)"
  by (auto simp: waiting_of_def new_debouncer_def)

text \<open>Dropping the entry of one host and its timer.\<close>

lemma drop_host:
  assumes wf: "wf_debouncer d" and k: "map_get (pending d) k = Some cur"
    and d': "pending d' = map_delete k (pending d)" "timers d' = clearTimer (pn_timer cur) (timers d)"
  shows "wf_debouncer d' \<and> waiting_of d' = (waiting_of d)(k := None)"
proof -
  note tr = wf_debouncerD(2) [OF wf]
  have h: "handles d k = Some (pn_timer cur)" using k by simp
  have other: "pn_timer cur' \<noteq> pn_timer cur" if "map_get (pending d) k' = Some cur'" "k' \<noteq> k" for k' cur'
    using tracks_inj [OF tr h, of k'] that by auto
  have "tracks (Some \<circ> fst) (handles d') (timers d')"
    unfolding d' by (rule table_clear [OF tr k])
  moreover have "wf_map (pending d')" using wf_debouncerD(1) [OF wf] by (simp add: d')
  moreover have "g = pn_generation cur'" if "map_get (pending d') k' = Some cur'"
    "timer_payload (timers d') (pn_timer cur') = Some (k', g, c)" for k' cur' g c
    using that wf by (auto simp: d' map_get_delete wf_debouncer_def split: if_splits)
  moreover have "waiting_of d' k' = ((waiting_of d)(k := None)) k'" for k'
    using other [of k'] by (auto simp: waiting_of_def d' map_get_delete clearTimer_def
      split: option.splits)
  ultimately show ?thesis by (auto simp: wf_debouncer_def)
qed

lemma cancel_host_spec:
  assumes "wf_debouncer d"
  shows "wf_debouncer (snd (cancel_host k d)) \<and>
    waiting_of (snd (cancel_host k d)) = (waiting_of d)(k := None)"
proof (cases "map_get (pending d) k")
  case None
  then have "waiting_of d k = None" by (simp add: waiting_of_def)
  with None assms show ?thesis by (simp add: cancel_host_def fun_upd_idem)
next
  case (Some cur)
  then show ?thesis
    by (intro drop_host [OF assms Some]) (simp_all add: cancel_host_def)
qed

lemma cancel_host_gone: "map_get (pending (snd (cancel_host k d))) k = None"
  by (simp add: cancel_host_def map_get_delete split: option.splits)

lemma cancel_host_delay [simp]: "delayMs (snd (cancel_host k d)) = delayMs d"
  by (simp add: cancel_host_def split: option.splits)

text \<open>Arming a timer for a host that has none.\<close>

lemma arm_host:
  assumes wf: "wf_debouncer d" and k: "map_get (pending d) k = None"
    and set: "setTimer now delay (k, g, c) (timers d) = (h, ts)"
    and d': "pending d' = map_set k \<lparr>pn_generation = g, pn_timer = h\<rparr> (pending d)" "timers d' = ts"
  shows "wf_debouncer d' \<and> waiting_of d' = (waiting_of d)(k \<mapsto> (now + delay, c))"
proof -
  note tr = wf_debouncerD(2) [OF wf] and wt = wf_debouncerD(3) [OF wf]
  note pay = timer_payload_set [OF wt set]
  have "tracks (Some \<circ> fst) (handles d') (timers d')"
    unfolding d' by (rule table_set [OF tr k set]) simp_all
  moreover have "wf_map (pending d')" using wf_debouncerD(1) [OF wf] by (simp add: d')
  moreover have old: "pn_timer cur' \<noteq> h" if "map_get (pending d) k' = Some cur'" for k' cur'
    using wf_debouncerD(4) [OF wf that] setTimer_fresh [OF wt set] by (auto simp: timer_payload_def)
  moreover have "g' = pn_generation cur'" if "map_get (pending d') k' = Some cur'"
    "timer_payload (timers d') (pn_timer cur') = Some (k', g', c')" for k' cur' g' c'
    using that wf old by (auto simp: d' pay map_get_set wf_debouncer_def split: if_splits)
  moreover have "waiting_of d' k' = ((waiting_of d)(k \<mapsto> (now + delay, c))) k'" for k'
  proof (cases "k' = k")
    case True
    have "map_get (active ts) h = Some (now + delay, (k, g, c))"
      using fresh_handle_get [OF wt] set by (auto simp: setTimer_def map_get_snoc simp del: map_of_append)
    with True show ?thesis by (simp add: waiting_of_def d' map_get_set)
  next
    case False
    have "map_get (active ts) (pn_timer cur) = map_get (active (timers d)) (pn_timer cur)"
      if "map_get (pending d) k' = Some cur" for cur
      using set old [OF that] by (auto simp: setTimer_def map_get_snoc simp del: map_of_append
        split: option.splits)
    with False show ?thesis by (auto simp: waiting_of_def d' map_get_set split: option.splits)
  qed
  ultimately show ?thesis by (auto simp: wf_debouncer_def)
qed

lemma schedule_spec:
  assumes wf: "wf_debouncer d"
  shows "wf_debouncer (snd (schedule now v c d)) \<and>
    delayMs (snd (schedule now v c d)) = delayMs d \<and>
    waiting_of (snd (schedule now v c d)) = (case positiveHostId v of None \<Rightarrow> waiting_of d
      | Some k \<Rightarrow> (waiting_of d)(k \<mapsto> (now + delayMs d, c)))"
proof (cases "positiveHostId v")
  case None
  then show ?thesis using wf by (simp add: schedule_def)
next
  case (Some k)
  let ?d = "snd (cancel_host k d)"
  obtain h ts where set: "setTimer now (delayMs d) (k, nextGeneration (generation ?d), c) (timers ?d)
      = (h, ts)" by fastforce
  have c: "wf_debouncer ?d" "waiting_of ?d = (waiting_of d)(k := None)"
    using cancel_host_spec [OF wf, of k] by auto
  have s: "snd (schedule now v c d) = ?d\<lparr>generation := nextGeneration (generation ?d), timers := ts,
      pending := map_set k \<lparr>pn_generation = nextGeneration (generation ?d), pn_timer = h\<rparr> (pending ?d)\<rparr>"
    using set Some by (simp add: schedule_def Let_def)
  show ?thesis
    using arm_host [OF c(1) cancel_host_gone set, of "snd (schedule now v c d)"] c(2) Some
    by (simp add: s)
qed

lemma fold_clear_payload:
  "timer_payload (fold (\<lambda>(_, cur). clearTimer (pn_timer cur)) m ts) h =
     (if h \<in> (pn_timer \<circ> snd) ` set m then None else timer_payload ts h)"
  by (induction m arbitrary: ts) (auto split: if_splits)

lemma fold_clear_wf:
  "wf_timers ts \<Longrightarrow> wf_timers (fold (\<lambda>(_, cur). clearTimer (pn_timer cur)) m ts)"
  by (induction m arbitrary: ts) auto

lemma clear_spec:
  assumes wf: "wf_debouncer d"
  shows "wf_debouncer (clear_debouncer d) \<and> waiting_of (clear_debouncer d) = (\<lambda>_. None)"
proof -
  have "h \<in> (pn_timer \<circ> snd) ` set (pending d)" if "timer_payload (timers d) h = Some p" for h p
    using tracks_payload [OF wf_debouncerD(2) [OF wf] that]
    by (force dest: map_get_inD simp: image_iff)
  then have "timer_payload (timers (clear_debouncer d)) h = None" for h
    by (cases "timer_payload (timers d) h") (auto simp: clear_debouncer_def fold_clear_payload)
  then show ?thesis
    using fold_clear_wf [OF wf_debouncerD(3) [OF wf], of "pending d"]
    by (auto simp: wf_debouncer_def tracks_def waiting_of_def clear_debouncer_def)
qed

text \<open>A due timer is always the current one of its host: the guard of the callback holds.\<close>

lemma fire_due:
  assumes wf: "wf_debouncer d" and due: "due_timer h now (timers d) = Some (k, g, c)"
  shows "\<exists>cur t. map_get (pending d) k = Some cur \<and> pn_timer cur = h \<and> pn_generation cur = g \<and>
    waiting_of d k = Some (t, c) \<and> t \<le> now"
proof -
  have "handles d k = Some h" using tracks_due [OF wf_debouncerD(2) [OF wf] due] by simp
  then obtain cur where cur: "map_get (pending d) k = Some cur" "pn_timer cur = h" by auto
  obtain t where t: "map_get (active (timers d)) h = Some (t, (k, g, c))" "t \<le> now"
    using due by (auto simp: due_timer_def split: option.splits if_splits)
  with cur wf have "pn_generation cur = g" by (auto simp: wf_debouncer_def timer_payload_def)
  with cur t show ?thesis by (simp add: waiting_of_def)
qed

lemma fire_spec:
  assumes wf: "wf_debouncer d" and due: "due_timer h now (timers d) = Some (k, g, c)"
  shows "fst (fire h now ic nt d) = run_notice ic nt k c \<and> wf_debouncer (snd (fire h now ic nt d)) \<and>
    waiting_of (snd (fire h now ic nt d)) = (waiting_of d)(k := None)"
proof -
  obtain cur where cur: "map_get (pending d) k = Some cur" "pn_timer cur = h" "pn_generation cur = g"
    using fire_due [OF wf due] by blast
  show ?thesis
    using drop_host [OF wf cur(1), of "snd (fire h now ic nt d)"] cur due by (simp add: fire_def)
qed

lemma fire_idle: "due_timer h now (timers d) = None \<Longrightarrow> fire h now ic nt d = ([], d)"
  by (simp add: fire_def)

lemma fire_delay [simp]: "delayMs (snd (fire h now ic nt d)) = delayMs d"
  by (auto simp: fire_def Let_def split: option.splits)

lemma debounce_step_refines:
  assumes wf: "wf_debouncer d"
  shows "wf_debouncer (snd (debounce_step op d)) \<and> delayMs (snd (debounce_step op d)) = delayMs d \<and>
    debounce_spec (delayMs d) op (waiting_of d) (fst (debounce_step op d)) (waiting_of (snd (debounce_step op d)))"
proof (cases op)
  case (Schedule now v c)
  then show ?thesis using schedule_spec [OF wf, of now v c]
    by (auto split: option.splits intro: spec_schedule spec_schedule_bad)
next
  case (Cancel v)
  then show ?thesis using cancel_host_spec [OF wf] wf
    by (auto simp: cancel_def split: option.splits intro: spec_cancel spec_cancel_bad)
next
  case Clear
  then show ?thesis using clear_spec [OF wf] by (simp add: spec_clear clear_debouncer_def)
next
  case (Fire h now ic nt)
  show ?thesis
  proof (cases "due_timer h now (timers d)")
    case None
    then show ?thesis using Fire wf by (simp add: fire_idle spec_idle)
  next
    case (Some p)
    obtain k g c where p: "p = (k, g, c)" by (cases p)
    then show ?thesis using Fire Some fire_spec [OF wf, of h now k g c ic nt] fire_due [OF wf, of h now k g c]
      by (auto intro: spec_fire)
  qed
qed

section \<open>Runs\<close>

inductive debounce_spec_run ::
  "int \<Rightarrow> 'c debounce_op list \<Rightarrow> 'c waiting \<Rightarrow> 'c notice list \<Rightarrow> 'c waiting \<Rightarrow> bool" for delay where
  spec_done: "debounce_spec_run delay [] w [] w"
| spec_next: "debounce_spec delay op w out w1 \<Longrightarrow> debounce_spec_run delay ops w1 outs w2 \<Longrightarrow>
     debounce_spec_run delay (op # ops) w (out @ outs) w2"

inductive_cases spec_fire_cases: "debounce_spec delay (Fire h now ic nt) w out w'"

lemma debounce_run_refines:
  "wf_debouncer d \<Longrightarrow> wf_debouncer (snd (debounce_run ops d)) \<and>
     debounce_spec_run (delayMs d) ops (waiting_of d) (fst (debounce_run ops d))
       (waiting_of (snd (debounce_run ops d)))"
proof (induction ops arbitrary: d)
  case Nil
  then show ?case by (simp add: spec_done)
next
  case (Cons op ops)
  note step = debounce_step_refines [OF Cons.prems, of op]
  note run = Cons.IH [of "snd (debounce_step op d)"]
  show ?case using step run by (auto simp: case_prod_beta Let_def intro: spec_next)
qed

text \<open>In the abstract debouncer a host that is not waiting, and is not scheduled, is not notified.\<close>

lemma spec_run_not_waiting:
  "debounce_spec_run delay ops w outs w' \<Longrightarrow> w k = None \<Longrightarrow>
     (\<forall>now v c. Schedule now v c \<in> set ops \<longrightarrow> positiveHostId v \<noteq> Some k) \<Longrightarrow> Notified k c \<notin> set outs"
proof (induction rule: debounce_spec_run.induct)
  case (spec_done w)
  then show ?case by simp
next
  case (spec_next op w out w1 ops outs w2)
  have "w1 k = None \<and> Notified k c \<notin> set out"
    using spec_next.hyps(1) spec_next.prems
    by (cases rule: debounce_spec.cases)
      (auto simp: run_notice_def split: outcome.splits if_splits)
  with spec_next show ?case by auto
qed

lemma due_waiting_fires:
  assumes wf: "wf_debouncer d" and w: "waiting_of d k = Some (due, c)" and now: "due \<le> now"
  shows "\<exists>h. fst (fire h now ic nt d) = run_notice ic nt k c \<and>
    waiting_of (snd (fire h now ic nt d)) k = None"
proof -
  obtain cur where cur: "map_get (pending d) k = Some cur"
    using w by (auto simp: waiting_of_def split: option.splits)
  obtain t c' where "map_get (active (timers d)) (pn_timer cur) = Some (t, (k, pn_generation cur, c'))"
    using wf_debouncerD(4) [OF wf cur] by blast
  with w cur now have "due_timer (pn_timer cur) now (timers d) = Some (k, pn_generation cur, c)"
    by (auto simp: waiting_of_def due_timer_def)
  from fire_spec [OF wf this] show ?thesis by (auto simp: exI [of _ "pn_timer cur"])
qed

section \<open>Properties\<close>

text \<open>
  C36: The offline-notification debouncer refines the abstract one. Every run of \<open>schedule\<close>,
  \<open>cancel\<close>, \<open>clear\<close> and timer callbacks, in any order and with any callback outcomes, is a run
  in which each host has at most one waiting notification: scheduling replaces it, cancelling
  and clearing drop it, and only the waiting notification of a host, once due, runs, and once.
\<close>

theorem offline_debouncer_refines:
  "debounce_spec_run (delayMs (new_debouncer delay :: 'c debouncer)) (ops :: 'c debounce_op list) (\<lambda>_. None)
     (fst (debounce_run ops (new_debouncer delay)))
     (waiting_of (snd (debounce_run ops (new_debouncer delay))))"
  using debounce_run_refines [OF wf_new_debouncer [of delay], of ops] by (simp add: waiting_of_new)

text \<open>
  A host that recovers is not notified, and one that stays offline is: after any run that
  ends with \<open>cancel\<close> of a host, no further run without a new \<open>schedule\<close> of that host notifies
  it; and after any run, a notification that is waiting and due has a timer whose callback runs
  it and leaves nothing waiting for the host.
\<close>

theorem recovered_host_not_notified:
  assumes "positiveHostId v = Some k"
    and "\<forall>now u c. Schedule now u c \<in> set later \<longrightarrow> positiveHostId u \<noteq> Some k"
    and "waiting_of (snd (debounce_run earlier (new_debouncer delay))) j = Some (due, e)" and "due \<le> t"
  shows "Notified k c \<notin> set (fst (debounce_run later
        (snd (cancel v (snd (debounce_run earlier (new_debouncer delay))))))) \<and>
    (\<exists>h. fst (fire h t ic nt (snd (debounce_run earlier (new_debouncer delay)))) = run_notice ic nt j e)"
proof -
  let ?d = "snd (debounce_run earlier (new_debouncer delay))"
  have wf: "wf_debouncer ?d"
    using debounce_run_refines [OF wf_new_debouncer [of delay], of earlier] by simp
  have c: "snd (cancel v ?d) = snd (cancel_host k ?d)" using assms(1) by (simp add: cancel_def)
  note s = cancel_host_spec [OF wf, of k]
  have "Notified k c \<notin> set (fst (debounce_run later (snd (cancel v ?d))))"
    unfolding c
  proof (rule spec_run_not_waiting [OF conjunct2 [OF debounce_run_refines]])
    show "wf_debouncer (snd (cancel_host k ?d))" "waiting_of (snd (cancel_host k ?d)) k = None"
      using s by auto
  qed (rule assms(2))
  with due_waiting_fires [OF wf assms(3,4)] show ?thesis by blast
qed

theorem recovered_host_not_notified_witness:
  "Notified 5 ''five'' \<notin> set (fst (debounce_run [Fire 0 99999 (Returned True) (Returned ())]
      (snd (cancel (JNum (num 5)) (snd (debounce_run
        [Schedule 0 (JNum (num 5)) ''five'', Schedule 10 (JNum (num 7)) ''seven''] (new_debouncer None))))))) \<and>
   (\<exists>h. fst (fire h 30010 (Returned True) (Returned ()) (snd (debounce_run
        [Schedule 0 (JNum (num 5)) ''five'', Schedule 10 (JNum (num 7)) ''seven''] (new_debouncer None))))
      = run_notice (Returned True) (Returned ()) 7 ''seven'')"
  by (rule recovered_host_not_notified [where due = 30010])
    (simp_all add: positiveHostId_def schedule_def cancel_host_def new_debouncer_def nextGeneration_def
      HOST_OFFLINE_NOTIFICATION_DEBOUNCE_MS_def MAX_SAFE_INTEGER_def setTimer_def no_timers_def
      waiting_of_def Let_def)

end
