(* ===== verification/Health_Windows.thy ===== *)
theory Health_Windows
  imports Prelude
begin

text \<open>
  The pure part of \<open>server/forwardGroupHealthRecheck.ts\<close>: how fresh a recorded health status
  still is, when the next status expires, when a failure or recovery window ends, and which
  moment of activity counts.
  A stored time is a \<open>Date\<close> or another value; parsing a date from text is left to the runtime
  and is the parameter \<open>parse_date\<close>, standing for \<open>new Date(String(value || "")).getTime()\<close>.
\<close>

section \<open>Stored times\<close>

datatype stored_time = DateObj jsnum | RawTime jsval

definition timestamp :: "(jsval \<Rightarrow> jsnum) \<Rightarrow> stored_time \<Rightarrow> jsnum" where
  "timestamp parse_date value =
     (case value of
        DateObj t \<Rightarrow> t
      | RawTime v \<Rightarrow>
          (case js_finite (to_number v) of
             Some numeric \<Rightarrow>
               if numeric > 0
               then Fin (if numeric < 10000000000 then numeric * 1000 else numeric)
               else (case js_finite (parse_date v) of Some parsed \<Rightarrow> Fin parsed | None \<Rightarrow> Fin 0)
           | None \<Rightarrow>
               (case js_finite (parse_date v) of Some parsed \<Rightarrow> Fin parsed | None \<Rightarrow> Fin 0)))"

section \<open>Freshness of a health status\<close>

definition FORWARD_GROUP_AGENT_HEALTH_FRESHNESS_TTL_MS :: rat where
  "FORWARD_GROUP_AGENT_HEALTH_FRESHNESS_TTL_MS = 5 * 60 * 1000"

definition FORWARD_GROUP_CHINA_HEALTH_FRESHNESS_TTL_MS :: rat where
  "FORWARD_GROUP_CHINA_HEALTH_FRESHNESS_TTL_MS = FORWARD_GROUP_AGENT_HEALTH_FRESHNESS_TTL_MS"

datatype health_state = Healthy | Unhealthy | HealthPending | Stale

record health_member =
  chinaHealthStatus :: jsval
  chinaHealthCheckedAt :: stored_time
  healthStatus :: jsval
  lastCheckedAt :: stored_time
  isEnabled :: jsval

text \<open>
  \<open>String(status || "unknown").trim().toLowerCase()\<close>; the text of a truthy boolean or number
  is none of the words the code looks for, and is kept as an empty word.
\<close>

definition status_word :: "jsval \<Rightarrow> string" where
  "status_word v =
     (if \<not> js_truthy v then ''unknown''
      else case v of JStr s \<Rightarrow> js_lower (js_trim s) | _ \<Rightarrow> '''')"

definition forwardGroupChinaHealthStateAt ::
  "(jsval \<Rightarrow> jsnum) \<Rightarrow> health_member \<Rightarrow> jsnum \<Rightarrow> health_state" where
  "forwardGroupChinaHealthStateAt parse_date member nowValue =
     (let status = status_word (chinaHealthStatus member) in
      if status = ''unknown'' then HealthPending
      else if status \<noteq> ''healthy'' \<and> status \<noteq> ''unhealthy'' then Stale
      else
        case (js_finite nowValue, timestamp parse_date (chinaHealthCheckedAt member)) of
          (Some now, Fin checkedAt) \<Rightarrow>
            if checkedAt \<le> 0 \<or> checkedAt > now + 60000 then Stale
            else if now - checkedAt < FORWARD_GROUP_CHINA_HEALTH_FRESHNESS_TTL_MS
            then (if status = ''healthy'' then Healthy else Unhealthy)
            else Stale
        | _ \<Rightarrow> Stale)"

definition forwardGroupAgentHealthStateAt ::
  "(jsval \<Rightarrow> jsnum) \<Rightarrow> health_member \<Rightarrow> jsnum \<Rightarrow> health_state" where
  "forwardGroupAgentHealthStateAt parse_date member nowValue =
     (let status = status_word (healthStatus member) in
      if status = ''unknown'' then HealthPending
      else if status \<noteq> ''healthy'' \<and> status \<noteq> ''unhealthy'' then Stale
      else
        case (js_finite nowValue, timestamp parse_date (lastCheckedAt member)) of
          (Some now, Fin checkedAt) \<Rightarrow>
            if checkedAt \<le> 0 \<or> checkedAt > now + 60000 then Stale
            else if now - checkedAt < FORWARD_GROUP_AGENT_HEALTH_FRESHNESS_TTL_MS
            then (if status = ''healthy'' then Healthy else Unhealthy)
            else Stale
        | _ \<Rightarrow> Stale)"

definition member_disabled :: "jsval \<Rightarrow> bool" where
  "member_disabled enabled \<longleftrightarrow>
     enabled = JBool False \<or> enabled = JNum (Fin 0) \<or> enabled = JStr ''0'' \<or>
     (case enabled of JStr s \<Rightarrow> js_lower s = ''false'' | _ \<Rightarrow> False)"

text \<open>\<open>Math.min(...deadlines)\<close>, \<open>null\<close> for no deadline.\<close>

fun js_min_list :: "jsnum list \<Rightarrow> jsnum" where
  "js_min_list [] = PosInf"
| "js_min_list (d # ds) = js_min d (js_min_list ds)"

definition health_expiries :: "(jsval \<Rightarrow> jsnum) \<Rightarrow> jsnum \<Rightarrow> health_member list \<Rightarrow> jsnum list" where
  "health_expiries parse_date now members =
     map (\<lambda>m. js_add (timestamp parse_date (chinaHealthCheckedAt m))
                (Fin FORWARD_GROUP_CHINA_HEALTH_FRESHNESS_TTL_MS))
       (filter (\<lambda>m. \<not> member_disabled (isEnabled m) \<and>
                    forwardGroupChinaHealthStateAt parse_date m now = Healthy) members)"

definition nextForwardGroupChinaHealthExpiryAt ::
  "(jsval \<Rightarrow> jsnum) \<Rightarrow> rat \<Rightarrow> bool \<Rightarrow> health_member list \<Rightarrow> jsnum option \<Rightarrow> jsnum option" where
  "nextForwardGroupChinaHealthExpiryAt parse_date dateNow enabled members nowInput =
     (if \<not> enabled then None
      else
        let now = (case nowInput of Some (Fin n) \<Rightarrow> Fin n | _ \<Rightarrow> Fin dateNow);
            deadlines = health_expiries parse_date now members
        in if deadlines = [] then None else Some (js_min_list deadlines))"

section \<open>Activity\<close>

definition isActivityFreshAt :: "jsval \<Rightarrow> jsval \<Rightarrow> jsnum \<Rightarrow> bool" where
  "isActivityFreshAt lastSeenAtValue timeoutMsValue nowValue =
     (case js_finite (to_number lastSeenAtValue) of
        None \<Rightarrow> False
      | Some lastSeenAt \<Rightarrow>
          if lastSeenAt \<le> 0 then False
          else
            (case (js_finite (to_number timeoutMsValue), js_finite nowValue) of
               (Some timeoutMs, Some now) \<Rightarrow>
                 if timeoutMs < 0 then False else now - lastSeenAt < timeoutMs
             | _ \<Rightarrow> False))"

definition latest_of :: "jsval list \<Rightarrow> rat" where
  "latest_of vs = foldl (\<lambda>latest v.
     case js_finite (to_number v) of
       Some candidate \<Rightarrow> if candidate > latest then candidate else latest
     | None \<Rightarrow> latest) 0 vs"

definition latestKnownActivityAt :: "jsval list \<Rightarrow> jsnum \<Rightarrow> rat" where
  "latestKnownActivityAt vs nowValue =
     (case js_finite nowValue of
        None \<Rightarrow> 0
      | Some now \<Rightarrow> let latest = latest_of vs in if latest > 0 then min now latest else 0)"

section \<open>Failure and recovery windows\<close>

record window_member =
  healthy :: bool
  failureSince :: stored_time
  healthySince :: stored_time
  failedLongEnough :: bool
  recoveredLongEnough :: bool

text \<open>\<open>Math.max(0, Number(ms) || 0)\<close>.\<close>

definition window_ms :: "jsnum \<Rightarrow> jsnum" where
  "window_ms ms = (if ms = NaN then Fin 0 else js_max (Fin 0) ms)"

definition window_deadlines ::
  "(jsval \<Rightarrow> jsnum) \<Rightarrow> jsnum \<Rightarrow> jsnum \<Rightarrow> window_member \<Rightarrow> jsnum list" where
  "window_deadlines parse_date failoverMs recoverMs member =
     (if \<not> healthy member \<and> \<not> failedLongEnough member then
        (let since = timestamp parse_date (failureSince member) in
         if js_lt (Fin 0) since then [js_add since (window_ms failoverMs)] else [])
      else []) @
     (if healthy member \<and> \<not> recoveredLongEnough member then
        (let since = timestamp parse_date (healthySince member) in
         if js_lt (Fin 0) since then [js_add since (window_ms recoverMs)] else [])
      else [])"

definition nextForwardGroupHealthRecheckAt ::
  "(jsval \<Rightarrow> jsnum) \<Rightarrow> rat \<Rightarrow> window_member list \<Rightarrow> jsnum \<Rightarrow> jsnum \<Rightarrow> jsnum option \<Rightarrow> jsnum option" where
  "nextForwardGroupHealthRecheckAt parse_date dateNow members failoverMs recoverMs nowInput =
     (let now = (case nowInput of Some (Fin n) \<Rightarrow> Fin n | _ \<Rightarrow> Fin dateNow);
          deadlines = concat (map (window_deadlines parse_date failoverMs recoverMs) members)
      in if deadlines = [] then None else Some (js_max now (js_min_list deadlines)))"

section \<open>Lemmas\<close>

lemma js_min_le: "n \<noteq> NaN \<Longrightarrow> js_le (js_min a b) n \<longleftrightarrow>
    a \<noteq> NaN \<and> b \<noteq> NaN \<and> (js_le a n \<or> js_le b n)"
  by (cases a; cases b; cases n) (auto simp: js_min_def)

lemma js_min_list_Fin:
  "ds \<noteq> [] \<Longrightarrow> (\<forall>d \<in> set ds. \<exists>q. d = Fin q) \<Longrightarrow>
     \<exists>q. js_min_list ds = Fin q \<and> Fin q \<in> set ds \<and> (\<forall>r. Fin r \<in> set ds \<longrightarrow> q \<le> r)"
proof (induction ds)
  case Nil
  then show ?case by simp
next
  case (Cons d ds)
  obtain a where a: "d = Fin a" using Cons.prems by auto
  show ?case
  proof (cases "ds = []")
    case True
    then show ?thesis by (simp add: a js_min_def)
  next
    case False
    then obtain q where "js_min_list ds = Fin q" "Fin q \<in> set ds" "\<forall>r. Fin r \<in> set ds \<longrightarrow> q \<le> r"
      using Cons by auto
    then show ?thesis
      by (cases "a \<le> q") (auto simp: a min_def)
  qed
qed

text \<open>The state of a member at a time depends on the time through one interval only.\<close>

lemma china_healthy_iff:
  "forwardGroupChinaHealthStateAt parse_date m (Fin t) = Healthy \<longleftrightarrow>
     status_word (chinaHealthStatus m) = ''healthy'' \<and>
     (\<exists>c. timestamp parse_date (chinaHealthCheckedAt m) = Fin c \<and> 0 < c \<and> c \<le> t + 60000 \<and>
          t < c + FORWARD_GROUP_CHINA_HEALTH_FRESHNESS_TTL_MS)"
  by (auto simp: forwardGroupChinaHealthStateAt_def Let_def split: jsnum.splits)

lemma health_expiries_Fin: "d \<in> set (health_expiries parse_date (Fin now) ms) \<Longrightarrow> \<exists>q. d = Fin q"
  by (auto simp: health_expiries_def china_healthy_iff)

text \<open>
  A window that has run out, as the evaluation of a group sees it: the member has been failing
  (or healthy again) for at least the configured time and is not yet marked so.
\<close>

definition window_over ::
  "(jsval \<Rightarrow> jsnum) \<Rightarrow> rat \<Rightarrow> rat \<Rightarrow> window_member \<Rightarrow> rat \<Rightarrow> bool" where
  "window_over parse_date failover recover m t \<longleftrightarrow>
     (\<not> healthy m \<and> \<not> failedLongEnough m \<and>
        (case timestamp parse_date (failureSince m) of
           Fin since \<Rightarrow> 0 < since \<and> max 0 failover \<le> t - since | _ \<Rightarrow> False)) \<or>
     (healthy m \<and> \<not> recoveredLongEnough m \<and>
        (case timestamp parse_date (healthySince m) of
           Fin since \<Rightarrow> 0 < since \<and> max 0 recover \<le> t - since | _ \<Rightarrow> False))"

text \<open>Stored times are never infinite: a \<open>Date\<close> holds a finite time or is invalid.\<close>

definition date_ok :: "stored_time \<Rightarrow> bool" where
  "date_ok t \<longleftrightarrow> t \<noteq> DateObj PosInf"

lemma timestamp_pos: "date_ok v \<Longrightarrow> js_lt (Fin 0) (timestamp parse_date v) \<longleftrightarrow>
    (\<exists>s. timestamp parse_date v = Fin s \<and> 0 < s)"
  by (cases "timestamp parse_date v")
    (auto simp: date_ok_def timestamp_def js_lt_def split: stored_time.splits option.splits if_splits)

lemma window_deadlines_Fin:
  "date_ok (failureSince m) \<Longrightarrow> date_ok (healthySince m) \<Longrightarrow>
     d \<in> set (window_deadlines parse_date (Fin fo) (Fin rc) m) \<Longrightarrow> \<exists>q. d = Fin q"
  by (auto simp: window_deadlines_def window_ms_def Let_def timestamp_pos split: if_splits)

lemma window_over_iff:
  "date_ok (failureSince m) \<Longrightarrow> date_ok (healthySince m) \<Longrightarrow>
     window_over parse_date fo rc m t \<longleftrightarrow>
     (\<exists>q. Fin q \<in> set (window_deadlines parse_date (Fin fo) (Fin rc) m) \<and> q \<le> t)"
  by (auto simp: window_over_def window_deadlines_def window_ms_def Let_def timestamp_pos
      le_diff_eq add.commute split: jsnum.splits)

lemma recheck_at:
  assumes "\<forall>m \<in> set ms. date_ok (failureSince m) \<and> date_ok (healthySince m)"
    and "nextForwardGroupHealthRecheckAt parse_date dn ms (Fin fo) (Fin rc) (Some (Fin now)) = Some r"
  shows "\<exists>q. r = Fin q \<and> now \<le> q \<and> (\<exists>m \<in> set ms. window_over parse_date fo rc m q) \<and>
    (\<forall>t. now \<le> t \<and> t < q \<longrightarrow> (\<forall>m \<in> set ms. \<not> window_over parse_date fo rc m t))"
proof -
  let ?ds = "concat (map (window_deadlines parse_date (Fin fo) (Fin rc)) ms)"
  have ds: "?ds \<noteq> []" and r: "r = js_max (Fin now) (js_min_list ?ds)"
    using assms(2) by (auto simp: nextForwardGroupHealthRecheckAt_def Let_def split: if_splits)
  have "\<forall>d \<in> set ?ds. \<exists>q. d = Fin q"
    using assms(1) by (auto dest: window_deadlines_Fin [rotated 2])
  then obtain q where q: "js_min_list ?ds = Fin q" "Fin q \<in> set ?ds" "\<forall>x. Fin x \<in> set ?ds \<longrightarrow> q \<le> x"
    using js_min_list_Fin [OF ds] by blast
  obtain m where m: "m \<in> set ms" "Fin q \<in> set (window_deadlines parse_date (Fin fo) (Fin rc) m)"
    using q(2) by auto
  then have "window_over parse_date fo rc m (max now q)"
    using assms(1) by (auto simp: window_over_iff intro!: exI [of _ q])
  moreover have "\<not> window_over parse_date fo rc m' t" if "m' \<in> set ms" "t < q" for m' t
    using that q(3) assms(1) by (force simp: window_over_iff)
  ultimately show ?thesis using m(1) r q(1) by (auto simp: max_def)
qed

lemma china_expiry:
  assumes "nextForwardGroupChinaHealthExpiryAt parse_date dn True ms (Some (Fin now)) = Some e"
  shows "\<exists>q. e = Fin q \<and>
    (\<exists>m \<in> set ms. \<not> member_disabled (isEnabled m) \<and>
       forwardGroupChinaHealthStateAt parse_date m (Fin now) = Healthy \<and>
       forwardGroupChinaHealthStateAt parse_date m (Fin q) \<noteq> Healthy) \<and>
    (\<forall>t m. now \<le> t \<and> t < q \<and> m \<in> set ms \<and> \<not> member_disabled (isEnabled m) \<and>
       forwardGroupChinaHealthStateAt parse_date m (Fin now) = Healthy \<longrightarrow>
       forwardGroupChinaHealthStateAt parse_date m (Fin t) = Healthy)"
proof -
  let ?ds = "health_expiries parse_date (Fin now) ms"
  have ds: "?ds \<noteq> []" and e: "e = js_min_list ?ds"
    using assms by (auto simp: nextForwardGroupChinaHealthExpiryAt_def Let_def split: if_splits)
  obtain q where q: "js_min_list ?ds = Fin q" "Fin q \<in> set ?ds" "\<forall>r. Fin r \<in> set ?ds \<longrightarrow> q \<le> r"
    using js_min_list_Fin [OF ds] health_expiries_Fin by blast
  have dl: "js_add (timestamp parse_date (chinaHealthCheckedAt m))
      (Fin FORWARD_GROUP_CHINA_HEALTH_FRESHNESS_TTL_MS) \<in> set ?ds"
    if "m \<in> set ms" "\<not> member_disabled (isEnabled m)"
      "forwardGroupChinaHealthStateAt parse_date m (Fin now) = Healthy" for m
    using that by (auto simp: health_expiries_def)
  have "\<exists>m \<in> set ms. \<not> member_disabled (isEnabled m) \<and>
       forwardGroupChinaHealthStateAt parse_date m (Fin now) = Healthy \<and>
       forwardGroupChinaHealthStateAt parse_date m (Fin q) \<noteq> Healthy"
    using q(2) by (auto simp: health_expiries_def china_healthy_iff intro!: bexI)
  moreover have "forwardGroupChinaHealthStateAt parse_date m (Fin t) = Healthy"
    if "now \<le> t" "t < q" "m \<in> set ms" "\<not> member_disabled (isEnabled m)"
      "forwardGroupChinaHealthStateAt parse_date m (Fin now) = Healthy" for t m
    using that q(3) dl [OF that(3-5)] by (auto simp: china_healthy_iff)
  ultimately show ?thesis using e q(1) by blast
qed

section \<open>Properties\<close>

text \<open>
  The expiry that \<open>nextForwardGroupChinaHealthExpiryAt\<close> announces is exact: until then every
  enabled member whose China status is healthy now stays healthy, and at that moment one of
  them no longer is. So waking at the expiry misses no change and is never too early.
\<close>

theorem china_health_expiry_exact:
  assumes "nextForwardGroupChinaHealthExpiryAt parse_date dn True ms (Some (Fin now)) = Some e"
  shows "\<exists>q. e = Fin q \<and>
    (\<exists>m \<in> set ms. \<not> member_disabled (isEnabled m) \<and>
       forwardGroupChinaHealthStateAt parse_date m (Fin now) = Healthy \<and>
       forwardGroupChinaHealthStateAt parse_date m (Fin q) \<noteq> Healthy) \<and>
    (\<forall>t m. now \<le> t \<and> t < q \<and> m \<in> set ms \<and> \<not> member_disabled (isEnabled m) \<and>
       forwardGroupChinaHealthStateAt parse_date m (Fin now) = Healthy \<longrightarrow>
       forwardGroupChinaHealthStateAt parse_date m (Fin t) = Healthy)"
  by (rule china_expiry [OF assms])

definition sample_member :: health_member where
  "sample_member = \<lparr>chinaHealthStatus = JStr ''Healthy'', chinaHealthCheckedAt = DateObj (num 20000000000),
     healthStatus = JStr ''healthy'', lastCheckedAt = DateObj (num 20000000000), isEnabled = JBool True\<rparr>"

lemma sample_word: "status_word (chinaHealthStatus sample_member) = ''healthy''"
  by code_simp

lemma sample_healthy:
  "forwardGroupChinaHealthStateAt parse_date sample_member (Fin 20000000007) = Healthy"
  unfolding china_healthy_iff
  by (simp add: sample_word) (simp add: sample_member_def timestamp_def
    FORWARD_GROUP_CHINA_HEALTH_FRESHNESS_TTL_MS_def FORWARD_GROUP_AGENT_HEALTH_FRESHNESS_TTL_MS_def)

lemma sample_fields:
  "chinaHealthCheckedAt sample_member = DateObj (Fin 20000000000)"
  "member_disabled (isEnabled sample_member) = False"
  by (simp_all add: sample_member_def member_disabled_def)

theorem china_health_expiry_exact_witness:
  "\<exists>q. num 20000300000 = Fin q \<and>
    (\<exists>m \<in> set [sample_member]. \<not> member_disabled (isEnabled m) \<and>
       forwardGroupChinaHealthStateAt (\<lambda>_. NaN) m (num 20000000007) = Healthy \<and>
       forwardGroupChinaHealthStateAt (\<lambda>_. NaN) m (Fin q) \<noteq> Healthy) \<and>
    (\<forall>t m. of_int 20000000007 \<le> t \<and> t < q \<and> m \<in> set [sample_member] \<and> \<not> member_disabled (isEnabled m) \<and>
       forwardGroupChinaHealthStateAt (\<lambda>_. NaN) m (num 20000000007) = Healthy \<longrightarrow>
       forwardGroupChinaHealthStateAt (\<lambda>_. NaN) m (Fin t) = Healthy)"
  by (rule china_health_expiry_exact [where dn = 0])
    (simp add: nextForwardGroupChinaHealthExpiryAt_def health_expiries_def sample_healthy
      sample_fields timestamp_def js_min_def
      FORWARD_GROUP_CHINA_HEALTH_FRESHNESS_TTL_MS_def FORWARD_GROUP_AGENT_HEALTH_FRESHNESS_TTL_MS_def)

text \<open>
  The recheck time of \<open>nextForwardGroupHealthRecheckAt\<close> is exact: it is not in the past, no
  failure or recovery window of a member runs out between now and then, and at that moment one
  has run out.
\<close>

theorem health_recheck_exact:
  assumes "\<forall>m \<in> set ms. date_ok (failureSince m) \<and> date_ok (healthySince m)"
    and "nextForwardGroupHealthRecheckAt parse_date dn ms (Fin fo) (Fin rc) (Some (Fin now)) = Some r"
  shows "\<exists>q. r = Fin q \<and> now \<le> q \<and> (\<exists>m \<in> set ms. window_over parse_date fo rc m q) \<and>
    (\<forall>t. now \<le> t \<and> t < q \<longrightarrow> (\<forall>m \<in> set ms. \<not> window_over parse_date fo rc m t))"
  by (rule recheck_at [OF assms])

definition sample_window :: window_member where
  "sample_window = \<lparr>healthy = False, failureSince = DateObj (num 20000000000),
     healthySince = RawTime JNull, failedLongEnough = False, recoveredLongEnough = False\<rparr>"

theorem health_recheck_exact_witness:
  "\<exists>q. num 20000060000 = Fin q \<and> of_int 20000000500 \<le> q \<and>
    (\<exists>m \<in> set [sample_window]. window_over (\<lambda>_. NaN) 60000 120000 m q) \<and>
    (\<forall>t. of_int 20000000500 \<le> t \<and> t < q \<longrightarrow>
      (\<forall>m \<in> set [sample_window]. \<not> window_over (\<lambda>_. NaN) 60000 120000 m t))"
  by (rule health_recheck_exact [where dn = 0])
    (simp_all add: sample_window_def date_ok_def nextForwardGroupHealthRecheckAt_def
      window_deadlines_def timestamp_def window_ms_def js_min_def)

end
