(* ===== verification/Evaluation_Queue.thy ===== *)
theory Evaluation_Queue
  imports Timers
begin

text \<open>
  The class \<open>ForwardGroupEvaluationQueue\<close> of \<open>server/forwardGroupHealthRecheck.ts\<close>: group ids
  are collected for a moment, evaluated in one batch at a time, and the groups that failed are
  evaluated again after a delay that doubles with each failure.
  \<open>evaluate\<close> is asynchronous: \<open>flush\<close> is split at its \<open>await\<close> into \<open>flush_start\<close>, which hands
  the batch out, and \<open>flush_done\<close>, which continues with what \<open>evaluate\<close> came back with; other
  operations may run in between.
\<close>

section \<open>State\<close>

datatype queue_timer = FlushTimer | RetryTimer int

record eval_queue =
  debounceMs :: int
  retryBaseMs :: int
  retryMaxMs :: int
  q_pending :: "int list"
  retryTimers :: "(int, nat) jsmap"
  consecutiveFailures :: "(int, int) jsmap"
  q_timer :: "nat option"
  running :: bool
  evaluating :: "int list"
  q_timers :: "(int, queue_timer) timers"

definition new_eval_queue :: "int option \<Rightarrow> int option \<Rightarrow> int option \<Rightarrow> eval_queue" where
  "new_eval_queue debounce retryBase retryMax =
     (let base = max 1 (case retryBase of None \<Rightarrow> 1000 | Some b \<Rightarrow> b) in
      \<lparr>debounceMs = max 0 (case debounce of None \<Rightarrow> 250 | Some d \<Rightarrow> d),
       retryBaseMs = base,
       retryMaxMs = max base (case retryMax of None \<Rightarrow> 30000 | Some m \<Rightarrow> m),
       q_pending = [], retryTimers = [], consecutiveFailures = [], q_timer = None,
       running = False, evaluating = [], q_timers = no_timers\<rparr>)"

section \<open>Operations\<close>

definition arm :: "int \<Rightarrow> int \<Rightarrow> eval_queue \<Rightarrow> eval_queue" where
  "arm now delay q =
     (if q_timer q \<noteq> None \<or> running q \<or> q_pending q = [] then q
      else let (timer, ts) = setTimer now delay FlushTimer (q_timers q)
           in q\<lparr>q_timer := Some timer, q_timers := ts\<rparr>)"

text \<open>\<open>Number(value || 0)\<close>, kept when it is a positive integer.\<close>

definition queue_id :: "jsval \<Rightarrow> int option" where
  "queue_id value = (if js_truthy value then id_of value else None)"

definition enqueue :: "int \<Rightarrow> jsval list \<Rightarrow> eval_queue \<Rightarrow> int \<times> eval_queue" where
  "enqueue now groupIds q =
     (let added = fold (\<lambda>value pend. case queue_id value of
            None \<Rightarrow> pend | Some groupId \<Rightarrow> set_add groupId pend) groupIds (q_pending q);
          q1 = arm now (debounceMs q) (q\<lparr>q_pending := added\<rparr>)
      in (int (length (q_pending q1)), q1))"

definition failures_of :: "int \<Rightarrow> eval_queue \<Rightarrow> int" where
  "failures_of groupId q = (case map_get (consecutiveFailures q) groupId of None \<Rightarrow> 0 | Some f \<Rightarrow> f)"

definition retryDelayMs :: "int \<Rightarrow> eval_queue \<Rightarrow> int \<times> eval_queue" where
  "retryDelayMs groupId q =
     (let failures = failures_of groupId q + 1;
          exponent = min (max 0 (failures - 1)) 30
      in (min (retryMaxMs q) (retryBaseMs q * 2 ^ nat exponent),
          q\<lparr>consecutiveFailures := map_set groupId failures (consecutiveFailures q)\<rparr>))"

definition clearRetry :: "int \<Rightarrow> eval_queue \<Rightarrow> eval_queue" where
  "clearRetry groupId q =
     q\<lparr>consecutiveFailures := map_delete groupId (consecutiveFailures q),
       q_timers := (case map_get (retryTimers q) groupId of
          None \<Rightarrow> q_timers q | Some timer \<Rightarrow> clearTimer timer (q_timers q)),
       retryTimers := map_delete groupId (retryTimers q)\<rparr>"

definition scheduleRetry :: "int \<Rightarrow> int \<Rightarrow> eval_queue \<Rightarrow> int \<times> eval_queue" where
  "scheduleRetry now groupId q =
     (let q1 = (case map_get (retryTimers q) groupId of
            None \<Rightarrow> q | Some existing \<Rightarrow> q\<lparr>q_timers := clearTimer existing (q_timers q)\<rparr>);
          (delay, q2) = retryDelayMs groupId q1;
          (timer, ts) = setTimer now delay (RetryTimer groupId) (q_timers q2)
      in (delay, q2\<lparr>q_timers := ts, retryTimers := map_set groupId timer (retryTimers q2)\<rparr>))"

definition retry :: "int \<Rightarrow> jsval \<Rightarrow> eval_queue \<Rightarrow> bool \<times> eval_queue" where
  "retry now groupIdValue q =
     (case id_of groupIdValue of
        None \<Rightarrow> (False, q)
      | Some groupId \<Rightarrow>
          if groupId \<in> set (evaluating q) then (False, q)
          else (True, snd (scheduleRetry now groupId q)))"

text \<open>The part of \<open>flush\<close> before its \<open>await\<close>; the batch is what \<open>evaluate\<close> is called with.\<close>

definition flush_start :: "eval_queue \<Rightarrow> int list option \<times> eval_queue" where
  "flush_start q =
     (if running q \<or> q_pending q = [] then (None, q)
      else (Some (q_pending q), q\<lparr>q_pending := [], running := True, evaluating := q_pending q\<rparr>))"

text \<open>The ids of a \<open>ForwardGroupEvaluationBatchError\<close>, built from the reported failures.\<close>

definition batch_error_ids :: "jsval list \<Rightarrow> int list" where
  "batch_error_ids failures = fold set_add (List.map_filter id_of failures) []"

datatype eval_result = EvalOk | BatchError "jsval list" | OtherError

definition retry_ids :: "eval_result \<Rightarrow> int list \<Rightarrow> int list" where
  "retry_ids result groupIds =
     (let requested = (case result of
            BatchError failures \<Rightarrow> filter (\<lambda>g. g \<in> set groupIds) (batch_error_ids failures)
          | _ \<Rightarrow> groupIds)
      in if requested \<noteq> [] then requested else groupIds)"

fun schedule_retries :: "int \<Rightarrow> int list \<Rightarrow> eval_queue \<Rightarrow> int list \<times> eval_queue" where
  "schedule_retries now [] q = ([], q)"
| "schedule_retries now (g # gs) q =
     (let (delay, q1) = scheduleRetry now g q; (delays, q2) = schedule_retries now gs q1
      in (delay # delays, q2))"

text \<open>
  The rest of \<open>flush\<close>: the \<open>catch\<close> and the \<open>finally\<close> block included. The result is the delay
  reported to \<open>onError\<close>, when there was an error.
\<close>

definition flush_done :: "int \<Rightarrow> eval_result \<Rightarrow> eval_queue \<Rightarrow> int option \<times> eval_queue" where
  "flush_done now result q =
     (let groupIds = evaluating q;
          (reported, q1) =
            (case result of
               EvalOk \<Rightarrow> (None, fold clearRetry groupIds q)
             | _ \<Rightarrow>
                 (let retryIds = retry_ids result groupIds;
                      qc = fold clearRetry (filter (\<lambda>g. g \<notin> set retryIds) groupIds) q;
                      (delays, qr) = schedule_retries now retryIds qc
                  in (Some (Min (set delays)), qr)))
      in (reported, arm now (debounceMs q1) (q1\<lparr>evaluating := [], running := False\<rparr>)))"

text \<open>A timer of the queue fires: the runtime drops it and runs its callback.\<close>

definition fire_timer :: "nat \<Rightarrow> int \<Rightarrow> eval_queue \<Rightarrow> int list option \<times> eval_queue" where
  "fire_timer h now q =
     (case due_timer h now (q_timers q) of
        None \<Rightarrow> (None, q)
      | Some FlushTimer \<Rightarrow> flush_start (q\<lparr>q_timers := clearTimer h (q_timers q), q_timer := None\<rparr>)
      | Some (RetryTimer groupId) \<Rightarrow>
          (let q1 = q\<lparr>q_timers := clearTimer h (q_timers q)\<rparr> in
           if map_get (retryTimers q1) groupId \<noteq> Some h then (None, q1)
           else (None, arm now 0
                  (q1\<lparr>retryTimers := map_delete groupId (retryTimers q1),
                      q_pending := set_add groupId (q_pending q1)\<rparr>))))"

section \<open>Runs\<close>

datatype queue_op = Enqueue int "jsval list" | Retry int jsval | FireTimer nat int | Evaluated int eval_result

text \<open>\<open>Evaluated\<close> can only happen while a batch is out.\<close>

fun queue_step :: "queue_op \<Rightarrow> eval_queue \<Rightarrow> eval_queue" where
  "queue_step (Enqueue now vs) q = snd (enqueue now vs q)"
| "queue_step (Retry now v) q = snd (retry now v q)"
| "queue_step (FireTimer h now) q = snd (fire_timer h now q)"
| "queue_step (Evaluated now r) q = (if running q then snd (flush_done now r q) else q)"

text \<open>
  The groups the queue still owes an evaluation: waiting, being evaluated, or waiting for their
  retry.
\<close>

definition owed :: "eval_queue \<Rightarrow> int set" where
  "owed q = set (q_pending q) \<union> set (evaluating q) \<union> {g. map_has (retryTimers q) g}"

text \<open>What an operation adds to the owed groups, and what a completed batch settles.\<close>

fun accepted :: "queue_op \<Rightarrow> eval_queue \<Rightarrow> int set" where
  "accepted (Enqueue now vs) q = {g. \<exists>v \<in> set vs. queue_id v = Some g}"
| "accepted (Retry now v) q = {g. id_of v = Some g \<and> g \<notin> set (evaluating q)}"
| "accepted _ q = {}"

fun settled :: "queue_op \<Rightarrow> eval_queue \<Rightarrow> int set" where
  "settled (Evaluated now r) q =
     (if running q
      then (case r of EvalOk \<Rightarrow> set (evaluating q)
            | _ \<Rightarrow> set (evaluating q) - set (retry_ids r (evaluating q))) - set (q_pending q)
      else {})"
| "settled _ q = {}"

section \<open>Well-formedness\<close>

fun retry_key :: "queue_timer \<Rightarrow> int option" where
  "retry_key (RetryTimer g) = Some g"
| "retry_key FlushTimer = None"

fun flush_key :: "queue_timer \<Rightarrow> unit option" where
  "flush_key FlushTimer = Some ()"
| "flush_key (RetryTimer g) = None"

text \<open>Everything but that waiting groups have an armed timer, which holds between operations.\<close>

definition wf_parts :: "eval_queue \<Rightarrow> bool" where
  "wf_parts q \<longleftrightarrow> distinct (q_pending q) \<and> distinct (evaluating q) \<and>
     tracks retry_key (map_get (retryTimers q)) (q_timers q) \<and>
     tracks flush_key (\<lambda>_. q_timer q) (q_timers q) \<and>
     (evaluating q = [] \<longleftrightarrow> \<not> running q) \<and> (running q \<longrightarrow> q_timer q = None) \<and>
     1 \<le> retryBaseMs q \<and> retryBaseMs q \<le> retryMaxMs q \<and> (\<forall>g. 0 \<le> failures_of g q)"

definition wf_queue :: "eval_queue \<Rightarrow> bool" where
  "wf_queue q \<longleftrightarrow> wf_parts q \<and> (q_pending q = [] \<or> running q \<or> q_timer q \<noteq> None)"

lemma failures_of_upd [simp]:
  "failures_of g (q\<lparr>q_timers := a\<rparr>) = failures_of g q"
  "failures_of g (q\<lparr>q_timer := b\<rparr>) = failures_of g q"
  "failures_of g (q\<lparr>q_pending := c\<rparr>) = failures_of g q"
  "failures_of g (q\<lparr>retryTimers := d\<rparr>) = failures_of g q"
  "failures_of g (q\<lparr>running := e\<rparr>) = failures_of g q"
  "failures_of g (q\<lparr>evaluating := f\<rparr>) = failures_of g q"
  by (simp_all add: failures_of_def)

lemma failures_of_set [simp]:
  "failures_of g (q\<lparr>consecutiveFailures := map_set k n (consecutiveFailures q)\<rparr>)
     = (if g = k then n else failures_of g q)"
  "failures_of g (q\<lparr>consecutiveFailures := map_delete k (consecutiveFailures q)\<rparr>)
     = (if g = k then 0 else failures_of g q)"
  by (simp_all add: failures_of_def map_get_set map_get_delete)

lemma wf_new_queue: "wf_queue (new_eval_queue a b c)"
  by (auto simp: wf_queue_def wf_parts_def new_eval_queue_def tracks_empty failures_of_def Let_def)

lemma owed_new [simp]: "owed (new_eval_queue a b c) = {}"
  by (simp add: owed_def new_eval_queue_def Let_def)

section \<open>The helpers keep it\<close>

lemma arm_wf:
  assumes "wf_parts q" shows "wf_queue (arm now d q)"
proof (cases "q_timer q \<noteq> None \<or> running q \<or> q_pending q = []")
  case True
  then show ?thesis using assms by (auto simp: arm_def wf_queue_def)
next
  case False
  obtain h ts where set: "setTimer now d FlushTimer (q_timers q) = (h, ts)" by fastforce
  have "tracks flush_key ((\<lambda>_. None)(() := Some h)) ts"
    by (rule tracks_set [OF _ _ set]) (use assms False in \<open>auto simp: wf_parts_def\<close>)
  moreover have "(\<lambda>_. None)(() := Some h) = (\<lambda>_. Some h)" by auto
  moreover have "tracks retry_key (map_get (retryTimers q)) ts"
    by (rule tracks_set_other [OF _ set]) (use assms in \<open>auto simp: wf_parts_def\<close>)
  ultimately show ?thesis
    using assms False set by (auto simp: arm_def wf_queue_def wf_parts_def Let_def failures_of_def)
qed

lemma owed_arm [simp]: "owed (arm now d q) = owed q"
  by (auto simp: arm_def owed_def Let_def case_prod_beta)

lemma arm_fields [simp]:
  "evaluating (arm now d q) = evaluating q" "failures_of g (arm now d q) = failures_of g q"
  "retryTimers (arm now d q) = retryTimers q" "q_pending (arm now d q) = q_pending q"
  by (auto simp: arm_def Let_def case_prod_beta)

lemma retry_clear:
  assumes "wf_parts q" and "map_get (retryTimers q) g = Some h"
  shows "tracks retry_key ((map_get (retryTimers q))(g := None)) (clearTimer h (q_timers q))"
    and "tracks flush_key (\<lambda>_. q_timer q) (clearTimer h (q_timers q))"
proof -
  have tr: "tracks retry_key (map_get (retryTimers q)) (q_timers q)"
    using assms(1) by (simp add: wf_parts_def)
  show "tracks retry_key ((map_get (retryTimers q))(g := None)) (clearTimer h (q_timers q))"
    by (rule tracks_clear [OF tr assms(2)])
  have "flush_key p = None" if "timer_payload (q_timers q) h = Some p" for p
    using tracks_pending [OF tr assms(2)] that by (cases p) auto
  then show "tracks flush_key (\<lambda>_. q_timer q) (clearTimer h (q_timers q))"
    using assms(1) by (intro tracks_clear_other) (auto simp: wf_parts_def)
qed

lemma clearRetry_wf: "wf_parts q \<Longrightarrow> wf_parts (clearRetry g q)"
proof (cases "map_get (retryTimers q) g")
  case None
  then have "(map_get (retryTimers q))(g := None) = map_get (retryTimers q)"
    by (simp add: fun_upd_idem)
  moreover assume "wf_parts q"
  ultimately show ?thesis
    using None by (simp add: wf_parts_def clearRetry_def map_get_delete_fun failures_of_def fun_upd_def)
next
  case (Some h)
  assume wf: "wf_parts q"
  then show ?thesis
    using retry_clear [OF wf Some] Some wf
    by (simp add: wf_parts_def clearRetry_def map_get_delete_fun failures_of_def fun_upd_def)
qed

lemma clearRetry_fields [simp]:
  "q_pending (clearRetry g q) = q_pending q" "evaluating (clearRetry g q) = evaluating q"
  "running (clearRetry g q) = running q" "q_timer (clearRetry g q) = q_timer q"
  "map_has (retryTimers (clearRetry g q)) g' \<longleftrightarrow> g' \<noteq> g \<and> map_has (retryTimers q) g'"
  "failures_of g' (clearRetry g q) = (if g' = g then 0 else failures_of g' q)"
  by (simp_all add: clearRetry_def failures_of_def map_get_delete)

lemma fold_clearRetry:
  "wf_parts q \<Longrightarrow> wf_parts (fold clearRetry gs q)"
  by (induction gs arbitrary: q) (auto intro: clearRetry_wf)

lemma fold_clearRetry_fields [simp]:
  "q_pending (fold clearRetry gs q) = q_pending q" "evaluating (fold clearRetry gs q) = evaluating q"
  "running (fold clearRetry gs q) = running q" "q_timer (fold clearRetry gs q) = q_timer q"
  "map_has (retryTimers (fold clearRetry gs q)) g \<longleftrightarrow> g \<notin> set gs \<and> map_has (retryTimers q) g"
  "failures_of g (fold clearRetry gs q) = (if g \<in> set gs then 0 else failures_of g q)"
  by (induction gs arbitrary: q) auto

lemma scheduleRetry_eq:
  "scheduleRetry now g q =
     (let timer_ts = setTimer now (fst (retryDelayMs g q)) (RetryTimer g)
            (case map_get (retryTimers q) g of None \<Rightarrow> q_timers q | Some h \<Rightarrow> clearTimer h (q_timers q))
      in (fst (retryDelayMs g q), q\<lparr>q_timers := snd timer_ts,
           consecutiveFailures := map_set g (failures_of g q + 1) (consecutiveFailures q),
           retryTimers := map_set g (fst timer_ts) (retryTimers q)\<rparr>))"
  by (cases "map_get (retryTimers q) g")
    (simp_all add: scheduleRetry_def retryDelayMs_def Let_def case_prod_beta)

lemma scheduleRetry_wf:
  assumes wf: "wf_parts q" shows "wf_parts (snd (scheduleRetry now g q))"
proof -
  let ?ts = "case map_get (retryTimers q) g of None \<Rightarrow> q_timers q | Some h \<Rightarrow> clearTimer h (q_timers q)"
  have r: "tracks retry_key ((map_get (retryTimers q))(g := None)) ?ts"
    and f: "tracks flush_key (\<lambda>_. q_timer q) ?ts"
    using wf retry_clear [OF wf] by (auto simp: wf_parts_def fun_upd_idem split: option.splits)
  obtain h ts where set: "setTimer now (fst (retryDelayMs g q)) (RetryTimer g) ?ts = (h, ts)"
    by fastforce
  have "tracks retry_key ((map_get (retryTimers q))(g := Some h)) ts"
    using tracks_set [OF r _ set, of g] by simp
  then have "tracks retry_key (map_get (map_set g h (retryTimers q))) ts"
    by (simp add: map_get_set_fun fun_upd_def)
  moreover have "tracks flush_key (\<lambda>_. q_timer q) ts"
    by (rule tracks_set_other [OF f set]) simp
  moreover have "snd (scheduleRetry now g q) = q\<lparr>q_timers := ts,
      consecutiveFailures := map_set g (failures_of g q + 1) (consecutiveFailures q),
      retryTimers := map_set g h (retryTimers q)\<rparr>"
    using set by (simp add: scheduleRetry_eq)
  moreover have "0 \<le> failures_of g' q" for g' using wf by (simp add: wf_parts_def)
  ultimately show ?thesis using wf by (simp add: wf_parts_def failures_of_def map_get_set)
qed

lemma scheduleRetry_fields [simp]:
  "q_pending (snd (scheduleRetry now g q)) = q_pending q"
  "evaluating (snd (scheduleRetry now g q)) = evaluating q"
  "running (snd (scheduleRetry now g q)) = running q"
  "q_timer (snd (scheduleRetry now g q)) = q_timer q"
  "map_has (retryTimers (snd (scheduleRetry now g q))) g' \<longleftrightarrow> g' = g \<or> map_has (retryTimers q) g'"
  "failures_of g' (snd (scheduleRetry now g q)) = (if g' = g then failures_of g q + 1 else failures_of g' q)"
  "retryBaseMs (snd (scheduleRetry now g q)) = retryBaseMs q"
  "retryMaxMs (snd (scheduleRetry now g q)) = retryMaxMs q"
  by (simp_all add: scheduleRetry_eq Let_def failures_of_def map_get_set)

lemma schedule_retries_wf: "wf_parts q \<Longrightarrow> wf_parts (snd (schedule_retries now gs q))"
  by (induction gs arbitrary: q) (auto simp: case_prod_beta Let_def intro: scheduleRetry_wf)

lemma schedule_retries_fields [simp]:
  "q_pending (snd (schedule_retries now gs q)) = q_pending q"
  "evaluating (snd (schedule_retries now gs q)) = evaluating q"
  "running (snd (schedule_retries now gs q)) = running q"
  "q_timer (snd (schedule_retries now gs q)) = q_timer q"
  "map_has (retryTimers (snd (schedule_retries now gs q))) g \<longleftrightarrow> g \<in> set gs \<or> map_has (retryTimers q) g"
  by (induction gs arbitrary: q) (auto simp: case_prod_beta Let_def)

section \<open>The operations keep it\<close>

lemma wf_queueD: "wf_queue q \<Longrightarrow> wf_parts q"
  by (simp add: wf_queue_def)

lemma enqueue_adds: "set (fold (\<lambda>value pend. case queue_id value of
     None \<Rightarrow> pend | Some groupId \<Rightarrow> set_add groupId pend) vs xs) = set xs \<union> {g. \<exists>v \<in> set vs. queue_id v = Some g}"
  by (induction vs arbitrary: xs) (auto split: option.splits)

lemma enqueue_distinct: "distinct xs \<Longrightarrow> distinct (fold (\<lambda>value pend. case queue_id value of
     None \<Rightarrow> pend | Some groupId \<Rightarrow> set_add groupId pend) vs xs)"
  by (induction vs arbitrary: xs) (auto split: option.splits)

lemma wf_parts_pending:
  "wf_parts q \<Longrightarrow> distinct xs \<Longrightarrow> wf_parts (q\<lparr>q_pending := xs\<rparr>)"
  by (simp add: wf_parts_def)

lemma enqueue_step:
  assumes "wf_queue q"
  shows "wf_queue (snd (enqueue now vs q)) \<and>
    owed (snd (enqueue now vs q)) = owed q \<union> {g. \<exists>v \<in> set vs. queue_id v = Some g}"
proof -
  have "distinct (q_pending q)" using assms by (simp add: wf_queue_def wf_parts_def)
  then show ?thesis
    unfolding enqueue_def Let_def snd_conv
    by (intro conjI arm_wf wf_parts_pending wf_queueD [OF assms] enqueue_distinct)
      (auto simp: owed_def enqueue_adds)
qed

lemma retry_step:
  assumes "wf_queue q"
  shows "wf_queue (snd (retry now v q)) \<and>
    owed (snd (retry now v q)) = owed q \<union> {g. id_of v = Some g \<and> g \<notin> set (evaluating q)}"
  using assms scheduleRetry_wf [of q now]
  by (auto simp: retry_def owed_def wf_queue_def split: option.splits)

lemma retry_ids_set:
  "set (retry_ids r gs) \<subseteq> set gs" "retry_ids r gs = [] \<longleftrightarrow> gs = []"
  by (auto simp: retry_ids_def Let_def split: eval_result.splits)

lemma wf_parts_finish:
  "wf_parts q \<Longrightarrow> q_timer q = None \<Longrightarrow> wf_parts (q\<lparr>evaluating := [], running := False\<rparr>)"
  by (simp add: wf_parts_def)

lemma flush_done_ok:
  "snd (flush_done now EvalOk q) = arm now (debounceMs (fold clearRetry (evaluating q) q))
     (fold clearRetry (evaluating q) q\<lparr>evaluating := [], running := False\<rparr>)"
  by (simp add: flush_done_def Let_def)

lemma flush_done_error:
  assumes "r \<noteq> EvalOk"
  shows "\<exists>q1. q1 = snd (schedule_retries now (retry_ids r (evaluating q))
        (fold clearRetry (filter (\<lambda>g. g \<notin> set (retry_ids r (evaluating q))) (evaluating q)) q)) \<and>
      snd (flush_done now r q) = arm now (debounceMs q1) (q1\<lparr>evaluating := [], running := False\<rparr>)"
  using assms by (cases r) (auto simp: flush_done_def Let_def case_prod_beta)

lemma flush_done_step:
  assumes wf: "wf_queue q" and run: "running q"
  shows "wf_queue (snd (flush_done now r q)) \<and>
    owed (snd (flush_done now r q)) = owed q - settled (Evaluated now r) q"
proof (cases "r = EvalOk")
  case True
  have "q_timer q = None" using wf run by (simp add: wf_queue_def wf_parts_def)
  then show ?thesis
    unfolding True flush_done_ok using run wf_queueD [OF wf]
    by (auto intro!: arm_wf wf_parts_finish fold_clearRetry simp: owed_def)
next
  case False
  let ?rs = "retry_ids r (evaluating q)"
  obtain q1 where q1: "q1 = snd (schedule_retries now ?rs
        (fold clearRetry (filter (\<lambda>g. g \<notin> set ?rs) (evaluating q)) q))"
    and fin: "snd (flush_done now r q) = arm now (debounceMs q1) (q1\<lparr>evaluating := [], running := False\<rparr>)"
    using flush_done_error [OF False] by blast
  have "q_timer q = None" using wf run by (simp add: wf_queue_def wf_parts_def)
  then have "wf_queue (snd (flush_done now r q))"
    unfolding fin q1
    by (intro arm_wf wf_parts_finish schedule_retries_wf fold_clearRetry wf_queueD [OF wf]) simp
  moreover have "owed (snd (flush_done now r q)) = owed q - (set (evaluating q) - set ?rs - set (q_pending q))"
    unfolding fin owed_arm using retry_ids_set(1) [of r "evaluating q"] by (auto simp: owed_def q1)
  moreover have "settled (Evaluated now r) q = set (evaluating q) - set ?rs - set (q_pending q)"
    using False run by (cases r) auto
  ultimately show ?thesis by simp
qed

lemma flush_timer_step:
  assumes wf: "wf_queue q" and due: "due_timer h now (q_timers q) = Some FlushTimer"
  shows "wf_queue (snd (fire_timer h now q)) \<and> owed (snd (fire_timer h now q)) = owed q"
proof -
  let ?q = "q\<lparr>q_timers := clearTimer h (q_timers q), q_timer := None\<rparr>"
  have parts: "wf_parts q" by (rule wf_queueD [OF wf])
  then have trf: "tracks flush_key (\<lambda>_. q_timer q) (q_timers q)"
    and trr: "tracks retry_key (map_get (retryTimers q)) (q_timers q)" by (simp_all add: wf_parts_def)
  have t: "q_timer q = Some h" using tracks_due [OF trf due] by simp
  then have idle: "\<not> running q" "evaluating q = []" using parts by (auto simp: wf_parts_def)
  have "tracks flush_key ((\<lambda>_. q_timer q)(() := None)) (clearTimer h (q_timers q))"
    by (rule tracks_clear [OF trf]) (rule t)
  moreover have "(\<lambda>_. q_timer q)(() := None) = (\<lambda>_. None)" by auto
  moreover have "tracks retry_key (map_get (retryTimers q)) (clearTimer h (q_timers q))"
    by (rule tracks_clear_other [OF trr]) (use due_timer_payload [OF due] in auto)
  ultimately have "wf_parts ?q" using parts by (simp add: wf_parts_def)
  then show ?thesis
    using due idle
    by (auto simp: fire_timer_def flush_start_def wf_queue_def wf_parts_def failures_of_def owed_def)
qed

lemma retry_timer_step:
  assumes wf: "wf_queue q" and due: "due_timer h now (q_timers q) = Some (RetryTimer g)"
  shows "wf_queue (snd (fire_timer h now q)) \<and> owed (snd (fire_timer h now q)) = owed q"
proof -
  have parts: "wf_parts q" by (rule wf_queueD [OF wf])
  then have g: "map_get (retryTimers q) g = Some h"
    using tracks_due [OF _ due, of retry_key] by (auto simp: wf_parts_def)
  note clr = retry_clear [OF parts g]
  have "wf_parts (q\<lparr>q_timers := clearTimer h (q_timers q), retryTimers := map_delete g (retryTimers q),
      q_pending := set_add g (q_pending q)\<rparr>)"
    using parts clr by (simp add: wf_parts_def map_get_delete_fun fun_upd_def failures_of_def)
  then show ?thesis
    using due g by (auto simp: fire_timer_def Let_def owed_def intro!: arm_wf) (auto simp: map_has_def)
qed

lemma queue_step_spec:
  assumes "wf_queue q"
  shows "wf_queue (queue_step op q) \<and> owed (queue_step op q) = (owed q \<union> accepted op q) - settled op q"
proof (cases op)
  case (FireTimer h now)
  show ?thesis
  proof (cases "due_timer h now (q_timers q)")
    case None
    then show ?thesis using FireTimer assms by (simp add: fire_timer_def)
  next
    case (Some p)
    then show ?thesis
      using FireTimer flush_timer_step [OF assms] retry_timer_step [OF assms] by (cases p) auto
  qed
next
  case (Evaluated now r)
  then show ?thesis using assms flush_done_step [OF assms, of now r] by auto
qed (use enqueue_step [OF assms] retry_step [OF assms] in auto)

lemma wf_queue_run: "wf_queue (fold queue_step ops (new_eval_queue a b c))"
proof -
  have "wf_queue q \<Longrightarrow> wf_queue (fold queue_step ops q)" for q
    by (induction ops arbitrary: q) (auto simp: queue_step_spec)
  then show ?thesis by (simp add: wf_new_queue)
qed

text \<open>Whatever is owed has a timer, or is being evaluated.\<close>

lemma queue_not_stuck:
  assumes "wf_queue q"
  shows "owed q = {} \<or> running q \<or> 0 < length (active (q_timers q))"
proof (rule ccontr)
  assume stuck: "\<not> ?thesis"
  have parts: "wf_parts q" by (rule wf_queueD [OF assms])
  from stuck have none: "timer_payload (q_timers q) h = None" for h
    by (simp add: timer_payload_def)
  have "q_timer q = None"
    using parts none tracks_pending [of flush_key "\<lambda>_. q_timer q" "q_timers q"]
    by (cases "q_timer q") (auto simp: wf_parts_def)
  moreover have "map_get (retryTimers q) g = None" for g
    using parts none tracks_pending [of retry_key "map_get (retryTimers q)" "q_timers q" g]
    by (cases "map_get (retryTimers q) g") (auto simp: wf_parts_def)
  ultimately show False
    using stuck assms by (auto simp: wf_queue_def wf_parts_def owed_def map_has_def)
qed

section \<open>The delay of a retry\<close>

lemma retry_delay:
  assumes "wf_queue q"
  shows "fst (scheduleRetry now g q) =
    min (retryMaxMs q) (retryBaseMs q * 2 ^ min (nat (failures_of g q)) 30)"
proof -
  have "0 \<le> failures_of g q" using assms by (simp add: wf_queue_def wf_parts_def)
  then have "nat (min (max 0 (failures_of g q)) 30) = min (nat (failures_of g q)) 30" by simp
  then show ?thesis by (simp add: scheduleRetry_eq Let_def retryDelayMs_def)
qed

lemma retry_delay_bounds:
  assumes "wf_queue q"
  shows "retryBaseMs q \<le> fst (scheduleRetry now g q)" and "fst (scheduleRetry now g q) \<le> retryMaxMs q"
proof -
  have b: "1 \<le> retryBaseMs q" "retryBaseMs q \<le> retryMaxMs q"
    using assms by (auto simp: wf_queue_def wf_parts_def)
  have "retryBaseMs q * 1 \<le> retryBaseMs q * 2 ^ min (nat (failures_of g q)) 30"
    using b(1) by (intro mult_left_mono) auto
  then show "retryBaseMs q \<le> fst (scheduleRetry now g q)" "fst (scheduleRetry now g q) \<le> retryMaxMs q"
    using b(2) by (auto simp: retry_delay [OF assms])
qed

lemma retry_delay_mono:
  assumes "wf_queue q"
  shows "fst (scheduleRetry now g q) \<le> fst (scheduleRetry later g (snd (scheduleRetry now g q)))"
proof -
  let ?q = "snd (scheduleRetry now g q)"
  have wf: "wf_queue ?q"
    using scheduleRetry_wf [OF wf_queueD [OF assms], of now g] assms by (auto simp: wf_queue_def)
  have b: "0 \<le> retryBaseMs q" "0 \<le> failures_of g q" using assms by (auto simp: wf_queue_def wf_parts_def)
  have "retryBaseMs q * 2 ^ min (nat (failures_of g q)) 30
      \<le> retryBaseMs q * 2 ^ min (nat (failures_of g q + 1)) 30"
    using b by (intro mult_left_mono power_increasing) auto
  then show ?thesis unfolding retry_delay [OF assms] retry_delay [OF wf] by simp
qed

lemma success_resets:
  "map (\<lambda>g. failures_of g (snd (flush_done now EvalOk q))) (evaluating q) = map (\<lambda>_. 0) (evaluating q)"
  by (auto simp: flush_done_ok)

section \<open>Properties\<close>

text \<open>
  C2: The evaluation queue loses no group. In every reachable state, the groups it owes an
  evaluation (waiting, being evaluated, or waiting for a retry) are, after any operation, exactly
  the earlier ones and the newly accepted ones, less those a batch has just settled: all of it
  when \<open>evaluate\<close> succeeds, the ones the error does not name when it fails. And while anything
  is owed, a batch is out or a timer is armed, so the queue cannot stall.
\<close>

theorem eval_queue_loses_nothing:
  "owed (queue_step op (fold queue_step ops (new_eval_queue a b c))) =
     (owed (fold queue_step ops (new_eval_queue a b c)) \<union>
        accepted op (fold queue_step ops (new_eval_queue a b c)))
      - settled op (fold queue_step ops (new_eval_queue a b c)) \<and>
   (owed (fold queue_step ops (new_eval_queue a b c)) = {} \<or>
      running (fold queue_step ops (new_eval_queue a b c)) \<or>
      0 < length (active (q_timers (fold queue_step ops (new_eval_queue a b c)))))"
  using queue_step_spec [OF wf_queue_run] queue_not_stuck [OF wf_queue_run] by blast

text \<open>
  The retry delay of a group is the base delay doubled for each failure in a row, never
  below the base and never above the maximum; it does not shrink from one failure to the next,
  and a successful evaluation sets the count of every group of the batch back to zero.
\<close>

theorem retry_backoff:
  "let q = fold queue_step ops (new_eval_queue a b c) in
    fst (scheduleRetry now g q) = min (retryMaxMs q) (retryBaseMs q * 2 ^ min (nat (failures_of g q)) 30) \<and>
    retryBaseMs q \<le> fst (scheduleRetry now g q) \<and> fst (scheduleRetry now g q) \<le> retryMaxMs q \<and>
    fst (scheduleRetry now g q) \<le> fst (scheduleRetry later g (snd (scheduleRetry now g q))) \<and>
    map (\<lambda>h. failures_of h (snd (flush_done now EvalOk q))) (evaluating q) = map (\<lambda>_. 0) (evaluating q)"
  unfolding Let_def
  by (intro conjI retry_delay retry_delay_bounds retry_delay_mono success_resets wf_queue_run)

end
