(* ===== verification/Recheck_Scheduler.thy ===== *)
theory Recheck_Scheduler
  imports Timers
begin

text \<open>
  The class \<open>ForwardGroupHealthRecheckScheduler\<close> of \<open>server/forwardGroupHealthRecheck.ts\<close>: for
  each forward group at most one pending recheck, at a time the caller replaces at will.
  The groups handed to \<open>evaluate\<close> are the output of \<open>fire_recheck\<close>.
\<close>

section \<open>The scheduler\<close>

record recheck_entry =
  re_dueAt :: rat
  re_timer :: nat

record recheck_scheduler =
  rs_pending :: "(int, recheck_entry) jsmap"
  rs_timers :: "(rat, int) timers"

definition new_recheck_scheduler :: recheck_scheduler where
  "new_recheck_scheduler = \<lparr>rs_pending = [], rs_timers = no_timers\<rparr>"

definition clear_existing :: "int \<Rightarrow> recheck_scheduler \<Rightarrow> recheck_scheduler" where
  "clear_existing groupId s =
     (case map_get (rs_pending s) groupId of
        None \<Rightarrow> s | Some existing \<Rightarrow> s\<lparr>rs_timers := clearTimer (re_timer existing) (rs_timers s)\<rparr>)"

definition arm_recheck :: "rat \<Rightarrow> int \<Rightarrow> rat \<Rightarrow> recheck_scheduler \<Rightarrow> recheck_scheduler" where
  "arm_recheck now groupId dueAt s =
     (let delayMs = max 0 (dueAt - now) + 25;
          (timer, ts) = setTimer now delayMs groupId (rs_timers s)
      in s\<lparr>rs_timers := ts,
           rs_pending := map_set groupId \<lparr>re_dueAt = dueAt, re_timer = timer\<rparr> (rs_pending s)\<rparr>)"

definition replace :: "rat \<Rightarrow> jsval \<Rightarrow> jsval \<Rightarrow> recheck_scheduler \<Rightarrow> bool \<times> recheck_scheduler" where
  "replace now groupIdValue dueAtValue s =
     (case id_of groupIdValue of
        None \<Rightarrow> (False, s)
      | Some groupId \<Rightarrow>
          (let cancelled = (clear_existing groupId s)\<lparr>rs_pending := map_delete groupId (rs_pending s)\<rparr> in
           case js_finite (to_number dueAtValue) of
             None \<Rightarrow> (False, cancelled)
           | Some dueAt \<Rightarrow>
               if dueAt \<le> 0 then (False, cancelled)
               else if map_option re_dueAt (map_get (rs_pending s) groupId) = Some dueAt then (True, s)
               else (True, arm_recheck now groupId dueAt (clear_existing groupId s))))"

definition recheck_dueAt :: "jsval \<Rightarrow> recheck_scheduler \<Rightarrow> rat option" where
  "recheck_dueAt groupIdValue s =
     (case js_integer (to_number groupIdValue) of
        None \<Rightarrow> None
      | Some groupId \<Rightarrow> map_option re_dueAt (map_get (rs_pending s) groupId))"

definition fire_recheck :: "nat \<Rightarrow> rat \<Rightarrow> recheck_scheduler \<Rightarrow> int option \<times> recheck_scheduler" where
  "fire_recheck h now s =
     (case due_timer h now (rs_timers s) of
        None \<Rightarrow> (None, s)
      | Some groupId \<Rightarrow>
          (let s1 = s\<lparr>rs_timers := clearTimer h (rs_timers s)\<rparr> in
           case map_get (rs_pending s1) groupId of
             None \<Rightarrow> (None, s1)
           | Some current \<Rightarrow>
               if re_timer current \<noteq> h then (None, s1)
               else (Some groupId, s1\<lparr>rs_pending := map_delete groupId (rs_pending s1)\<rparr>)))"

datatype recheck_op = Replace rat jsval jsval | FireRecheck nat rat

fun recheck_step :: "recheck_op \<Rightarrow> recheck_scheduler \<Rightarrow> int option \<times> recheck_scheduler" where
  "recheck_step (Replace now g d) s = (None, snd (replace now g d s))"
| "recheck_step (FireRecheck h now) s = fire_recheck h now s"

section \<open>What it promises\<close>

text \<open>The abstract scheduler is the function from groups to their due times.\<close>

definition dues :: "recheck_scheduler \<Rightarrow> int \<Rightarrow> rat option" where
  "dues s g = map_option re_dueAt (map_get (rs_pending s) g)"

definition requested_due :: "jsval \<Rightarrow> rat option" where
  "requested_due v = (case js_finite (to_number v) of Some d \<Rightarrow> if 0 < d then Some d else None | None \<Rightarrow> None)"

inductive recheck_spec ::
  "recheck_op \<Rightarrow> (int \<Rightarrow> rat option) \<Rightarrow> int option \<Rightarrow> (int \<Rightarrow> rat option) \<Rightarrow> bool" where
  spec_replace: "id_of v = Some g \<Longrightarrow> recheck_spec (Replace now v d) w None (w(g := requested_due d))"
| spec_ignored: "id_of v = None \<Longrightarrow> recheck_spec (Replace now v d) w None w"
| spec_fired: "w g = Some due \<Longrightarrow> due + 25 \<le> now \<Longrightarrow>
     recheck_spec (FireRecheck h now) w (Some g) (w(g := None))"
| spec_not_due: "recheck_spec (FireRecheck h now) w None w"

text \<open>The timer of a group is due 25 ms after the group, or later.\<close>

definition wf_recheck :: "recheck_scheduler \<Rightarrow> bool" where
  "wf_recheck s \<longleftrightarrow> tracks Some (table_handles re_timer (rs_pending s)) (rs_timers s) \<and>
     (\<forall>g e t p. map_get (rs_pending s) g = Some e \<longrightarrow>
        map_get (active (rs_timers s)) (re_timer e) = Some (t, p) \<longrightarrow> re_dueAt e + 25 \<le> t)"

section \<open>Refinement\<close>

lemma wf_new_recheck: "wf_recheck new_recheck_scheduler"
  by (simp add: wf_recheck_def new_recheck_scheduler_def tracks_empty)

lemma dues_new: "dues new_recheck_scheduler = (\<lambda>_. None)"
  by (auto simp: dues_def new_recheck_scheduler_def)

lemma wf_recheck_other:
  assumes wf: "wf_recheck s" and "map_get (rs_pending s) g = Some e" and "map_get (rs_pending s) g' = Some e'"
    and "g' \<noteq> g"
  shows "re_timer e' \<noteq> re_timer e"
  using tracks_inj [of Some "table_handles re_timer (rs_pending s)" "rs_timers s" g "re_timer e" g'] assms
  by (auto simp: wf_recheck_def)

lemma drop_recheck:
  assumes wf: "wf_recheck s"
  shows "wf_recheck ((clear_existing g s)\<lparr>rs_pending := map_delete g (rs_pending s)\<rparr>)"
proof (cases "map_get (rs_pending s) g")
  case None
  then have "map_delete g (rs_pending s) = rs_pending s" by (simp add: map_has_def)
  with None wf show ?thesis by (simp add: clear_existing_def)
next
  case (Some e)
  have tr: "tracks Some (table_handles re_timer (rs_pending s)) (rs_timers s)"
    using wf by (simp add: wf_recheck_def)
  show ?thesis
    using wf table_clear [OF tr Some] Some
    unfolding wf_recheck_def clear_existing_def clearTimer_def
    by (auto simp: map_get_delete split: if_splits)
qed

lemma arm_recheck_wf:
  assumes wf: "wf_recheck s" and new: "map_get (rs_pending s) g = None"
  shows "wf_recheck (arm_recheck now g d s)"
proof -
  have tr: "tracks Some (table_handles re_timer (rs_pending s)) (rs_timers s)"
    using wf by (simp add: wf_recheck_def)
  obtain h ts where set: "setTimer now (max 0 (d - now) + 25) g (rs_timers s) = (h, ts)" by fastforce
  have t: "active ts = active (rs_timers s) @ [(h, (now + (max 0 (d - now) + 25), g))]"
    and h: "h = nextHandle (rs_timers s)"
    using set by (auto simp: setTimer_def)
  have fresh: "map_get (active (rs_timers s)) h = None"
    using fresh_handle_get [OF tracks_wf [OF tr]] h by simp
  have old: "re_timer e \<noteq> h" if "map_get (rs_pending s) g' = Some e" for g' e
    using tracks_pending [OF tr, of g' "re_timer e"] that fresh by (auto simp: timer_payload_def)
  have late: "re_dueAt e + 25 \<le> t'" if "map_get (rs_pending s) g' = Some e"
    "map_get (active (rs_timers s)) (re_timer e) = Some (t', p)" for g' e t' p
    using wf that by (auto simp: wf_recheck_def)
  have "arm_recheck now g d s = s\<lparr>rs_timers := ts,
      rs_pending := map_set g \<lparr>re_dueAt = d, re_timer = h\<rparr> (rs_pending s)\<rparr>"
    using set by (simp add: arm_recheck_def Let_def)
  then show ?thesis
    using table_set [OF tr new set, of "\<lparr>re_dueAt = d, re_timer = h\<rparr>"] fresh old late
    unfolding wf_recheck_def
    by (auto simp: map_get_set t map_get_snoc simp del: map_of_append split: if_splits option.splits)
qed

lemma clear_then_arm:
  assumes "wf_recheck s"
  shows "wf_recheck (arm_recheck now g d (clear_existing g s))"
proof -
  let ?c = "clear_existing g s"
  let ?s = "?c\<lparr>rs_pending := map_delete g (rs_pending s)\<rparr>"
  have "wf_recheck (arm_recheck now g d ?s)"
    by (rule arm_recheck_wf [OF drop_recheck [OF assms]]) (simp add: map_get_delete)
  moreover have "rs_timers (arm_recheck now g d ?s) = rs_timers (arm_recheck now g d ?c)"
    by (simp add: arm_recheck_def Let_def case_prod_beta)
  moreover have "map_get (rs_pending (arm_recheck now g d ?s)) = map_get (rs_pending (arm_recheck now g d ?c))"
    by (auto simp: arm_recheck_def Let_def case_prod_beta map_get_set map_get_delete clear_existing_def
      split: option.splits)
  ultimately show ?thesis unfolding wf_recheck_def by simp
qed

lemma dues_arm: "dues (arm_recheck now g d (clear_existing g s)) = (dues s)(g := Some d)"
  by (auto simp: dues_def arm_recheck_def Let_def case_prod_beta map_get_set clear_existing_def
      split: option.splits)

lemma dues_drop: "dues ((clear_existing g s)\<lparr>rs_pending := map_delete g (rs_pending s)\<rparr>) = (dues s)(g := None)"
  by (auto simp: dues_def map_get_delete)

lemma replace_refines:
  assumes "wf_recheck s"
  shows "wf_recheck (snd (replace now v d s)) \<and> recheck_spec (Replace now v d) (dues s) None (dues (snd (replace now v d s)))"
proof (cases "id_of v")
  case None
  then show ?thesis using assms by (simp add: replace_def spec_ignored)
next
  case (Some g)
  have "(dues s)(g := Some q) = dues s" if "map_option re_dueAt (map_get (rs_pending s) g) = Some q" for q
    using that by (auto simp: dues_def)
  then have "wf_recheck (snd (replace now v d s)) \<and>
      dues (snd (replace now v d s)) = (dues s)(g := requested_due d)"
    using Some drop_recheck [OF assms, of g] clear_then_arm [OF assms, of now g] assms
      dues_drop [of g s] dues_arm [of now g _ s]
    by (cases "js_finite (to_number d)") (auto simp: replace_def Let_def requested_due_def)
  then show ?thesis using spec_replace [OF Some] by metis
qed

lemma fire_recheck_refines:
  assumes wf: "wf_recheck s"
  shows "wf_recheck (snd (fire_recheck h now s)) \<and>
    recheck_spec (FireRecheck h now) (dues s) (fst (fire_recheck h now s)) (dues (snd (fire_recheck h now s)))"
proof (cases "due_timer h now (rs_timers s)")
  case None
  then show ?thesis using wf by (simp add: fire_recheck_def spec_not_due)
next
  case (Some g)
  have tr: "tracks Some (table_handles re_timer (rs_pending s)) (rs_timers s)"
    using wf by (simp add: wf_recheck_def)
  obtain e where e: "map_get (rs_pending s) g = Some e" "re_timer e = h"
    using tracks_due [OF tr Some] by auto
  obtain t where t: "map_get (active (rs_timers s)) h = Some (t, g)" "t \<le> now"
    using Some by (auto simp: due_timer_def split: option.splits if_splits)
  then have "re_dueAt e + 25 \<le> t" using wf e by (auto simp: wf_recheck_def)
  then have d: "dues s g = Some (re_dueAt e)" "re_dueAt e + 25 \<le> now" using e t by (auto simp: dues_def)
  have f: "fire_recheck h now s = (Some g, (clear_existing g s)\<lparr>rs_pending := map_delete g (rs_pending s)\<rparr>)"
    using Some e by (simp add: fire_recheck_def clear_existing_def)
  show ?thesis
    unfolding f using drop_recheck [OF wf, of g] spec_fired [of "dues s", OF d] dues_drop [of g s] by simp
qed

lemma recheck_step_refines:
  assumes "wf_recheck s"
  shows "wf_recheck (snd (recheck_step op s)) \<and>
    recheck_spec op (dues s) (fst (recheck_step op s)) (dues (snd (recheck_step op s)))"
  using replace_refines [OF assms] fire_recheck_refines [OF assms] by (cases op) auto

lemma wf_recheck_run: "wf_recheck (fold (\<lambda>op s. snd (recheck_step op s)) ops new_recheck_scheduler)"
proof -
  have "wf_recheck s \<Longrightarrow> wf_recheck (fold (\<lambda>op s. snd (recheck_step op s)) ops s)" for s
    by (induction ops arbitrary: s) (auto simp: recheck_step_refines)
  then show ?thesis by (simp add: wf_new_recheck)
qed

text \<open>A group whose timer has run out is evaluated by that timer.\<close>

lemma pending_recheck_fires:
  assumes wf: "wf_recheck s" and due: "dues s g = Some d"
  shows "\<exists>h t. \<forall>now. now < t \<or> fst (fire_recheck h now s) = Some g"
proof -
  obtain e where e: "map_get (rs_pending s) g = Some e" using due by (auto simp: dues_def)
  have "tracks Some (table_handles re_timer (rs_pending s)) (rs_timers s)"
    using wf by (simp add: wf_recheck_def)
  from tracks_pending [OF this, of g "re_timer e"] e obtain t
    where "map_get (active (rs_timers s)) (re_timer e) = Some (t, g)"
    by (auto simp: timer_payload_def)
  then have "\<forall>now. now < t \<or> fst (fire_recheck (re_timer e) now s) = Some g"
    using e by (auto simp: fire_recheck_def due_timer_def)
  then show ?thesis by blast
qed

section \<open>Property\<close>

text \<open>
  The recheck scheduler refines a function from groups to due times. In every reachable
  state each operation does to the due times what its contract says: \<open>replace\<close> sets the group's
  due time to a positive finite value or drops it, a timer evaluates a group only if the group
  is still pending, at least 25 ms after its due time, and then forgets it, so no superseded or
  cancelled recheck ever runs and none runs twice. And a group that is pending has a timer that
  evaluates it from some moment on.
\<close>

theorem recheck_scheduler_refines:
  "let s = fold (\<lambda>op s. snd (recheck_step op s)) ops new_recheck_scheduler in
     recheck_spec op (dues s) (fst (recheck_step op s)) (dues (snd (recheck_step op s))) \<and>
     (dues s g = None \<or> (\<exists>h t. \<forall>now. now < t \<or> fst (fire_recheck h now s) = Some g))"
  unfolding Let_def
  using recheck_step_refines [OF wf_recheck_run] pending_recheck_fires [OF wf_recheck_run]
  by (metis not_None_eq)

end
