(* ===== verification/Silence_Scheduler.thy ===== *)
theory Silence_Scheduler
  imports Timers
begin

text \<open>
  The class \<open>ForwardGroupHostSilenceScheduler\<close> of \<open>server/forwardGroupHealthRecheck.ts\<close>: when a
  host has been silent long enough its failover deadlines are looked up (\<open>resolveDeadlines\<close>),
  and when the first deadline passes the groups that are due are evaluated (\<open>trigger\<close>).
  Both callbacks are asynchronous: the code before an \<open>await\<close> is one operation, whose result
  says what is called, and the code after it is another. The state objects of the hosts are
  compared by identity; an object has a number here (\<open>hs_ref\<close>), fresh for each \<open>observe\<close>, and
  what happens to an object that is no longer in the table is not visible and left out.
  A deadline is filed under the text of its host and group ids, here the pair of them.
\<close>

section \<open>State\<close>

definition MAX_TIMER_DELAY_MS :: rat where
  "MAX_TIMER_DELAY_MS = 2147483647"

definition timerDelay :: "rat \<Rightarrow> rat \<Rightarrow> rat" where
  "timerDelay dueAt now = min MAX_TIMER_DELAY_MS (max 0 (dueAt - now))"

record host_silence =
  hs_ref :: nat
  hs_generation :: int
  hs_seenAt :: rat
  hs_silentAt :: rat
  hs_attemptAt :: rat
  hs_timer :: "nat option"
  hs_resolving :: bool

record host_group_deadline =
  hd_hostId :: int
  hd_groupId :: int
  hd_generation :: int
  hd_dueAt :: rat

datatype silence_timer = HostTimer int nat | GroupTimer rat

record silence =
  silenceMs :: rat
  retryMs :: rat
  hosts :: "(int, host_silence) jsmap"
  groupDeadlines :: "(int \<times> int, host_group_deadline) jsmap"
  groupTimer :: "nat option"
  groupTimerDueAt :: "rat option"
  groupTriggerRunning :: bool
  triggering :: "host_group_deadline list"
  ss_timers :: "(rat, silence_timer) timers"
  nextRef :: nat

text \<open>The calls the scheduler makes.\<close>

datatype silence_call = ResolveDeadlines int nat | Trigger "int list"

definition new_silence :: "rat option \<Rightarrow> rat option \<Rightarrow> silence" where
  "new_silence silence_ms retry_ms =
     \<lparr>silenceMs = max 0 (case silence_ms of None \<Rightarrow> 0 | Some m \<Rightarrow> m),
      retryMs = max 1 (case retry_ms of None \<Rightarrow> 1000 | Some m \<Rightarrow> m),
      hosts = [], groupDeadlines = [], groupTimer = None, groupTimerDueAt = None,
      groupTriggerRunning = False, triggering = [], ss_timers = no_timers, nextRef = 0\<rparr>"

section \<open>Timers\<close>

definition armHost :: "rat \<Rightarrow> int \<Rightarrow> nat \<Rightarrow> silence \<Rightarrow> silence" where
  "armHost now hostId ref s =
     (case map_get (hosts s) hostId of
        None \<Rightarrow> s
      | Some state \<Rightarrow>
          if hs_ref state \<noteq> ref \<or> hs_timer state \<noteq> None \<or> hs_resolving state then s
          else
            let (timer, ts) = setTimer now (timerDelay (hs_attemptAt state) now) (HostTimer hostId ref) (ss_timers s)
            in s\<lparr>ss_timers := ts, hosts := map_set hostId (state\<lparr>hs_timer := Some timer\<rparr>) (hosts s)\<rparr>)"

definition clear_opt :: "nat option \<Rightarrow> silence \<Rightarrow> silence" where
  "clear_opt timer s =
     (case timer of None \<Rightarrow> s | Some h \<Rightarrow> s\<lparr>ss_timers := clearTimer h (ss_timers s)\<rparr>)"

definition earliestGroupDueAt :: "silence \<Rightarrow> rat option" where
  "earliestGroupDueAt s = foldl (\<lambda>earliest d.
     case earliest of None \<Rightarrow> Some (hd_dueAt d) | Some e \<Rightarrow> Some (min e (hd_dueAt d)))
     None (map snd (groupDeadlines s))"

definition armGroupTimer :: "rat \<Rightarrow> bool \<Rightarrow> silence \<Rightarrow> silence" where
  "armGroupTimer now force s =
     (if groupTriggerRunning s then s
      else
        case earliestGroupDueAt s of
          None \<Rightarrow> (clear_opt (groupTimer s) s)\<lparr>groupTimer := None, groupTimerDueAt := None\<rparr>
        | Some dueAt \<Rightarrow>
            if \<not> force \<and> groupTimer s \<noteq> None \<and> groupTimerDueAt s = Some dueAt then s
            else
              let s1 = clear_opt (groupTimer s) s;
                  (timer, ts) = setTimer now (timerDelay dueAt now) (GroupTimer dueAt) (ss_timers s1)
              in s1\<lparr>ss_timers := ts, groupTimer := Some timer, groupTimerDueAt := Some dueAt\<rparr>)"

definition removeDeadlinesForHost :: "rat \<Rightarrow> int \<Rightarrow> silence \<Rightarrow> silence" where
  "removeDeadlinesForHost now hostId s =
     (let kept = filter (\<lambda>(_, d). hd_hostId d \<noteq> hostId) (groupDeadlines s) in
      if kept = groupDeadlines s then s
      else armGroupTimer now True (s\<lparr>groupDeadlines := kept\<rparr>))"

section \<open>Operations\<close>

definition observe :: "rat \<Rightarrow> jsval \<Rightarrow> jsval \<Rightarrow> jsval \<Rightarrow> silence \<Rightarrow> bool \<times> silence" where
  "observe now hostIdValue seenAtValue notBeforeValue s =
     (case (id_of hostIdValue,
            js_finite (to_number (if seenAtValue = JUndef then JNum (Fin now) else seenAtValue))) of
        (Some hostId, Some seenAt) \<Rightarrow>
          if seenAt < 0 then (False, s)
          else
            (let notBefore = (case js_finite (to_number notBeforeValue) of
                   Some n \<Rightarrow> if n > 0 then n else 0 | None \<Rightarrow> 0);
                 silentAt = seenAt + silenceMs s;
                 attemptAt = max silentAt notBefore;
                 existing = map_get (hosts s) hostId;
                 fresh = (\<lambda>generation old_timer.
                   let state = \<lparr>hs_ref = nextRef s, hs_generation = generation, hs_seenAt = seenAt,
                         hs_silentAt = silentAt, hs_attemptAt = attemptAt, hs_timer = None,
                         hs_resolving = False\<rparr>;
                       s1 = (clear_opt old_timer s)\<lparr>nextRef := Suc (nextRef s),
                              hosts := map_set hostId state (hosts s)\<rparr>
                   in armHost now hostId (nextRef s) (removeDeadlinesForHost now hostId s1))
             in case existing of
                  None \<Rightarrow> (True, fresh 1 None)
                | Some e \<Rightarrow>
                    if seenAt < hs_seenAt e then (False, s)
                    else if seenAt = hs_seenAt e \<and> silentAt = hs_silentAt e then (True, s)
                    else (True, fresh (hs_generation e + 1) (hs_timer e)))
      | _ \<Rightarrow> (False, s))"

definition clear :: "rat \<Rightarrow> jsval \<Rightarrow> silence \<Rightarrow> bool \<times> silence" where
  "clear now hostIdValue s =
     (case js_integer (to_number hostIdValue) of
        None \<Rightarrow> (False, s)
      | Some hostId \<Rightarrow>
          (case map_get (hosts s) hostId of
             None \<Rightarrow> (False, removeDeadlinesForHost now hostId s)
           | Some state \<Rightarrow>
               (True, removeDeadlinesForHost now hostId
                  ((clear_opt (hs_timer state) s)\<lparr>hosts := map_delete hostId (hosts s)\<rparr>))))"

definition pendingAt :: "jsval \<Rightarrow> silence \<Rightarrow> rat option" where
  "pendingAt hostIdValue s =
     (case js_integer (to_number hostIdValue) of
        None \<Rightarrow> None
      | Some hostId \<Rightarrow>
          (case map_get (hosts s) hostId of
             None \<Rightarrow> None
           | Some state \<Rightarrow>
               if hs_timer state \<noteq> None \<or> hs_resolving state then Some (hs_attemptAt state) else None))"

definition pendingHostIds :: "silence \<Rightarrow> int list" where
  "pendingHostIds s =
     map fst (filter (\<lambda>(_, state). hs_timer state \<noteq> None \<or> hs_resolving state) (hosts s))"

definition dueAt :: "jsval \<Rightarrow> silence \<Rightarrow> rat option" where
  "dueAt groupIdValue s =
     foldl (\<lambda>due d.
       if js_integer (to_number groupIdValue) \<noteq> Some (hd_groupId d) then due
       else case due of None \<Rightarrow> Some (hd_dueAt d) | Some e \<Rightarrow> Some (min e (hd_dueAt d)))
     None (map snd (groupDeadlines s))"

definition dedup :: "'a list \<Rightarrow> 'a list" where
  "dedup xs = rev (remdups (rev xs))"

definition pendingGroupIds :: "silence \<Rightarrow> int list" where
  "pendingGroupIds s = dedup (map (hd_groupId \<circ> snd) (groupDeadlines s))"

definition dispose :: "silence \<Rightarrow> silence" where
  "dispose s =
     (let s1 = fold (\<lambda>(_, state). clear_opt (hs_timer state)) (hosts s) s;
          s2 = clear_opt (groupTimer s) s1
      in s2\<lparr>hosts := [], groupDeadlines := [], groupTimer := None, groupTimerDueAt := None\<rparr>)"

section \<open>The lookup of a silent host\<close>

definition start_resolve :: "int \<Rightarrow> host_silence \<Rightarrow> silence \<Rightarrow> silence_call option \<times> silence" where
  "start_resolve hostId state s =
     (if hs_resolving state then (None, s)
      else (Some (ResolveDeadlines hostId (hs_ref state)),
            s\<lparr>hosts := map_set hostId (state\<lparr>hs_resolving := True\<rparr>) (hosts s)\<rparr>))"

text \<open>The shortest timeout of each valid group of the answer, in order of first appearance.\<close>

definition by_group :: "(jsval \<times> jsval) list \<Rightarrow> (int, rat) jsmap" where
  "by_group resolved = fold (\<lambda>(g, t) m.
     case (id_of g, js_finite (to_number t)) of
       (Some groupId, Some timeoutMs) \<Rightarrow>
         (let normalizedTimeout = max 0 timeoutMs in
          case map_get m groupId of
            None \<Rightarrow> map_set groupId normalizedTimeout m
          | Some previous \<Rightarrow> if normalizedTimeout < previous then map_set groupId normalizedTimeout m else m)
     | _ \<Rightarrow> m) resolved []"

definition put_deadline :: "host_group_deadline \<Rightarrow> silence \<Rightarrow> silence" where
  "put_deadline d s = s\<lparr>groupDeadlines := map_set (hd_hostId d, hd_groupId d) d (groupDeadlines s)\<rparr>"

datatype 'a callback = Resolved 'a | Rejected

definition finish_resolve ::
  "rat \<Rightarrow> int \<Rightarrow> nat \<Rightarrow> (jsval \<times> jsval) list callback \<Rightarrow> silence \<Rightarrow> silence" where
  "finish_resolve now hostId ref result s =
     (case map_get (hosts s) hostId of
        None \<Rightarrow> s
      | Some state \<Rightarrow>
          if hs_ref state \<noteq> ref \<or> \<not> hs_resolving state then s
          else
            (let (attempt, s1) =
               (case result of
                  Resolved resolved \<Rightarrow>
                    (hs_attemptAt state,
                     armGroupTimer now False
                       (fold (\<lambda>(groupId, timeoutMs). put_deadline
                          \<lparr>hd_hostId = hostId, hd_groupId = groupId, hd_generation = hs_generation state,
                           hd_dueAt = hs_silentAt state + timeoutMs\<rparr>) (by_group resolved) s))
                | Rejected \<Rightarrow> (now + retryMs s, s));
               s2 = s1\<lparr>hosts := map_set hostId
                 (state\<lparr>hs_attemptAt := attempt, hs_resolving := False\<rparr>) (hosts s1)\<rparr>
             in if attempt > now then armHost now hostId ref s2 else s2))"

section \<open>The trigger\<close>

definition is_due :: "rat \<Rightarrow> host_group_deadline \<Rightarrow> bool" where
  "is_due now d \<longleftrightarrow> hd_dueAt d \<le> now"

definition triggerDueGroups :: "rat \<Rightarrow> silence \<Rightarrow> silence_call option \<times> silence" where
  "triggerDueGroups now s =
     (if groupTriggerRunning s then (None, s)
      else
        let dueEntries = filter (is_due now) (map snd (groupDeadlines s));
            s1 = s\<lparr>groupDeadlines := filter (\<lambda>(_, d). \<not> is_due now d) (groupDeadlines s)\<rparr>
        in if dueEntries = [] then (None, armGroupTimer now False s1)
           else (Some (Trigger (dedup (map hd_groupId dueEntries))),
                 s1\<lparr>groupTriggerRunning := True, triggering := dueEntries\<rparr>))"

definition retry_deadline :: "rat \<Rightarrow> host_group_deadline \<Rightarrow> silence \<Rightarrow> silence" where
  "retry_deadline retryAt d s =
     (case map_get (hosts s) (hd_hostId d) of
        None \<Rightarrow> s
      | Some state \<Rightarrow>
          if hs_generation state \<noteq> hd_generation d then s
          else
            (case map_get (groupDeadlines s) (hd_hostId d, hd_groupId d) of
               None \<Rightarrow> put_deadline (d\<lparr>hd_dueAt := retryAt\<rparr>) s
             | Some existing \<Rightarrow>
                 if retryAt < hd_dueAt existing then put_deadline (d\<lparr>hd_dueAt := retryAt\<rparr>) s else s))"

definition finish_trigger :: "rat \<Rightarrow> unit callback \<Rightarrow> silence \<Rightarrow> silence" where
  "finish_trigger now result s =
     (if \<not> groupTriggerRunning s then s
      else
        let s1 = (case result of
              Resolved _ \<Rightarrow> s
            | Rejected \<Rightarrow> fold (retry_deadline (now + retryMs s)) (triggering s) s)
        in armGroupTimer now True (s1\<lparr>groupTriggerRunning := False, triggering := []\<rparr>))"

section \<open>Timer callbacks\<close>

definition fire_silence :: "nat \<Rightarrow> rat \<Rightarrow> silence \<Rightarrow> silence_call option \<times> silence" where
  "fire_silence h now s =
     (let s1 = s\<lparr>ss_timers := clearTimer h (ss_timers s)\<rparr> in
      case due_timer h now (ss_timers s) of
        None \<Rightarrow> (None, s)
      | Some (HostTimer hostId ref) \<Rightarrow>
          (case map_get (hosts s1) hostId of
             None \<Rightarrow> (None, s1)
           | Some state \<Rightarrow>
               if hs_ref state \<noteq> ref \<or> hs_timer state \<noteq> Some h then (None, s1)
               else
                 let state1 = state\<lparr>hs_timer := None\<rparr>;
                     s2 = s1\<lparr>hosts := map_set hostId state1 (hosts s1)\<rparr>
                 in if now < hs_attemptAt state then (None, armHost now hostId ref s2)
                    else start_resolve hostId state1 s2)
      | Some (GroupTimer due) \<Rightarrow>
          if groupTimer s1 \<noteq> Some h then (None, s1)
          else
            let s2 = s1\<lparr>groupTimer := None, groupTimerDueAt := None\<rparr>
            in if now < due then (None, armGroupTimer now False s2) else triggerDueGroups now s2)"

section \<open>Runs\<close>

datatype silence_op =
    Observe rat jsval jsval jsval
  | Clear rat jsval
  | Dispose
  | FireSilence nat rat
  | ResolveDone rat int nat "(jsval \<times> jsval) list callback"
  | TriggerDone rat "unit callback"

fun silence_step :: "silence_op \<Rightarrow> silence \<Rightarrow> silence_call option \<times> silence" where
  "silence_step (Observe now v seen nb) s = (None, snd (observe now v seen nb s))"
| "silence_step (Clear now v) s = (None, snd (clear now v s))"
| "silence_step Dispose s = (None, dispose s)"
| "silence_step (FireSilence h now) s = fire_silence h now s"
| "silence_step (ResolveDone now k ref r) s = (None, finish_resolve now k ref r s)"
| "silence_step (TriggerDone now r) s = (None, finish_trigger now r s)"

section \<open>Invariants\<close>

fun host_key :: "silence_timer \<Rightarrow> (int \<times> nat) option" where
  "host_key (HostTimer k ref) = Some (k, ref)"
| "host_key (GroupTimer due) = None"

fun group_key :: "silence_timer \<Rightarrow> unit option" where
  "group_key (GroupTimer due) = Some ()"
| "group_key (HostTimer k ref) = None"

text \<open>The timer of a state object that is in the table.\<close>

definition host_handle :: "silence \<Rightarrow> int \<times> nat \<Rightarrow> nat option" where
  "host_handle s kr =
     (case map_get (hosts s) (fst kr) of
        None \<Rightarrow> None | Some st \<Rightarrow> if hs_ref st = snd kr then hs_timer st else None)"

text \<open>Each host owns at most one timer, and none while its lookup runs.\<close>

definition hosts_ok :: "silence \<Rightarrow> bool" where
  "hosts_ok s \<longleftrightarrow> tracks host_key (host_handle s) (ss_timers s) \<and>
     (\<forall>k st. map_get (hosts s) k = Some st \<longrightarrow> hs_resolving st \<longrightarrow> hs_timer st = None)"

text \<open>The group timer is the one timer of its kind and carries the time it was armed for.\<close>

definition group_timer_ok :: "silence \<Rightarrow> bool" where
  "group_timer_ok s \<longleftrightarrow> tracks group_key (\<lambda>_. groupTimer s) (ss_timers s) \<and>
     (\<forall>h. groupTimer s = Some h \<longrightarrow>
        map_option GroupTimer (groupTimerDueAt s) = timer_payload (ss_timers s) h) \<and>
     (groupTriggerRunning s \<longrightarrow> groupTimer s = None)"

definition armed_for_earliest :: "silence \<Rightarrow> bool" where
  "armed_for_earliest s \<longleftrightarrow> groupTriggerRunning s \<or>
     (groupTimer s \<noteq> None \<and> earliestGroupDueAt s \<noteq> None \<and> groupTimerDueAt s = earliestGroupDueAt s) \<or>
     (groupTimer s = None \<and> earliestGroupDueAt s = None)"

text \<open>Every deadline is filed under its host and group, and is of the host's generation.\<close>

definition deadline_ok :: "silence \<Rightarrow> (int \<times> int) \<times> host_group_deadline \<Rightarrow> bool" where
  "deadline_ok s kd \<longleftrightarrow> fst kd = (hd_hostId (snd kd), hd_groupId (snd kd)) \<and>
     (\<exists>st. map_get (hosts s) (hd_hostId (snd kd)) = Some st \<and> hs_generation st = hd_generation (snd kd))"

definition deadlines_ok :: "silence \<Rightarrow> bool" where
  "deadlines_ok s \<longleftrightarrow> list_all (deadline_ok s) (groupDeadlines s)"

definition wf_silence :: "silence \<Rightarrow> bool" where
  "wf_silence s \<longleftrightarrow> hosts_ok s \<and> group_timer_ok s \<and> armed_for_earliest s \<and> deadlines_ok s"

lemma wf_new_silence: "wf_silence (new_silence a b)"
  by (simp add: wf_silence_def hosts_ok_def group_timer_ok_def armed_for_earliest_def deadlines_ok_def
      new_silence_def tracks_empty host_handle_def [abs_def] earliestGroupDueAt_def)

subsection \<open>What only depends on some of the fields\<close>

lemma host_handle_cong: "hosts s = hosts s' \<Longrightarrow> host_handle s = host_handle s'"
  by (simp add: host_handle_def fun_eq_iff)

lemma hosts_ok_cong: "hosts s = hosts s' \<Longrightarrow> ss_timers s = ss_timers s' \<Longrightarrow> hosts_ok s = hosts_ok s'"
  using host_handle_cong [of s s'] by (simp add: hosts_ok_def)

lemma earliest_cong: "groupDeadlines s = groupDeadlines s' \<Longrightarrow> earliestGroupDueAt s = earliestGroupDueAt s'"
  by (simp add: earliestGroupDueAt_def)

lemma earliest_upd [simp]:
  "earliestGroupDueAt (s\<lparr>hosts := a\<rparr>) = earliestGroupDueAt s"
  "earliestGroupDueAt (s\<lparr>ss_timers := b\<rparr>) = earliestGroupDueAt s"
  "earliestGroupDueAt (s\<lparr>groupTimer := c\<rparr>) = earliestGroupDueAt s"
  "earliestGroupDueAt (s\<lparr>groupTimerDueAt := d\<rparr>) = earliestGroupDueAt s"
  "earliestGroupDueAt (s\<lparr>groupTriggerRunning := e\<rparr>) = earliestGroupDueAt s"
  "earliestGroupDueAt (s\<lparr>triggering := f\<rparr>) = earliestGroupDueAt s"
  "earliestGroupDueAt (s\<lparr>nextRef := g\<rparr>) = earliestGroupDueAt s"
  by (simp_all add: earliestGroupDueAt_def)

lemma earliest_None: "earliestGroupDueAt s = None \<longleftrightarrow> groupDeadlines s = []"
proof -
  have "foldl (\<lambda>e d. case e of None \<Rightarrow> Some (hd_dueAt d) | Some e \<Rightarrow> Some (min e (hd_dueAt d))) (Some x) ds \<noteq> None"
    for x :: rat and ds by (induction ds arbitrary: x) auto
  then show ?thesis by (cases "groupDeadlines s") (auto simp: earliestGroupDueAt_def)
qed

lemma deadlines_ok_cong:
  "groupDeadlines s' = groupDeadlines s \<Longrightarrow>
     (\<And>k. map_option hs_generation (map_get (hosts s') k) = map_option hs_generation (map_get (hosts s) k)) \<Longrightarrow>
     deadlines_ok s' = deadlines_ok s"
proof -
  assume d: "groupDeadlines s' = groupDeadlines s"
    and g: "\<And>k. map_option hs_generation (map_get (hosts s') k) = map_option hs_generation (map_get (hosts s) k)"
  have "(\<exists>st. map_get (hosts s') k = Some st \<and> hs_generation st = x) \<longleftrightarrow>
      (\<exists>st. map_get (hosts s) k = Some st \<and> hs_generation st = x)" for k x
    using g [of k] by (cases "map_get (hosts s') k"; cases "map_get (hosts s) k") auto
  then show ?thesis by (simp add: deadlines_ok_def deadline_ok_def [abs_def] d)
qed

subsection \<open>Arming and clearing\<close>

lemma group_timer_host_only:
  assumes ok: "group_timer_ok s" and tr: "tracks group_key (\<lambda>_. groupTimer s) ts"
    and pay: "\<And>h. groupTimer s = Some h \<Longrightarrow> timer_payload ts h = timer_payload (ss_timers s) h"
  shows "group_timer_ok (s\<lparr>ss_timers := ts\<rparr>)"
  using ok tr pay by (simp add: group_timer_ok_def)

lemma armHost_other [simp]:
  "groupDeadlines (armHost now k ref s) = groupDeadlines s"
  "groupTimer (armHost now k ref s) = groupTimer s"
  "groupTimerDueAt (armHost now k ref s) = groupTimerDueAt s"
  "groupTriggerRunning (armHost now k ref s) = groupTriggerRunning s"
  "triggering (armHost now k ref s) = triggering s"
  by (auto simp: armHost_def Let_def case_prod_beta split: option.splits)

lemma armHost_generation:
  "map_option hs_generation (map_get (hosts (armHost now k ref s)) k') =
     map_option hs_generation (map_get (hosts s) k')"
  by (auto simp: armHost_def Let_def case_prod_beta map_get_set split: option.splits)

lemma armHost_ok:
  assumes h: "hosts_ok s" and g: "group_timer_ok s"
  shows "hosts_ok (armHost now k ref s) \<and> group_timer_ok (armHost now k ref s)"
proof (cases "\<exists>st. map_get (hosts s) k = Some st \<and> hs_ref st = ref \<and> hs_timer st = None \<and> \<not> hs_resolving st")
  case False
  then have "armHost now k ref s = s" by (auto simp: armHost_def split: option.splits)
  then show ?thesis using h g by simp
next
  case True
  then obtain st where st: "map_get (hosts s) k = Some st" "hs_ref st = ref" "hs_timer st = None"
    "\<not> hs_resolving st" by blast
  obtain timer ts where set: "setTimer now (timerDelay (hs_attemptAt st) now) (HostTimer k ref) (ss_timers s)
      = (timer, ts)" by fastforce
  have trh: "tracks host_key (host_handle s) (ss_timers s)" using h by (simp add: hosts_ok_def)
  have trg: "tracks group_key (\<lambda>_. groupTimer s) (ss_timers s)" using g by (simp add: group_timer_ok_def)
  have e: "armHost now k ref s = s\<lparr>ss_timers := ts, hosts := map_set k (st\<lparr>hs_timer := Some timer\<rparr>) (hosts s)\<rparr>"
    using st set by (simp add: armHost_def Let_def)
  have "host_handle (armHost now k ref s) = (host_handle s)((k, ref) := Some timer)"
    using st by (auto simp: e host_handle_def map_get_set fun_eq_iff split: option.splits)
  moreover have "tracks host_key ((host_handle s)((k, ref) := Some timer)) ts"
    by (rule tracks_set [OF trh _ set]) (simp_all add: host_handle_def st)
  ultimately have "hosts_ok (armHost now k ref s)"
    using h st by (auto simp: hosts_ok_def e map_get_set)
  moreover have "timer_payload ts h' = timer_payload (ss_timers s) h'" if "groupTimer s = Some h'" for h'
    using timer_payload_set [OF tracks_wf [OF trh] set] setTimer_fresh [OF tracks_wf [OF trh] set]
      tracks_pending [OF trg, of h' "()"] that by auto
  then have "group_timer_ok (armHost now k ref s)"
    using g tracks_set_other [OF trg set] by (simp add: group_timer_ok_def e)
  ultimately show ?thesis by simp
qed

text \<open>Clearing the timer of a host that is about to leave the table or to be replaced.\<close>

lemma clear_host_timer:
  assumes h: "hosts_ok s" and g: "group_timer_ok s" and t: "host_handle s k = t"
  shows "tracks host_key ((host_handle s)(k := None)) (ss_timers (clear_opt t s))"
    and "tracks group_key (\<lambda>_. groupTimer s) (ss_timers (clear_opt t s))"
    and "groupTimer s = Some h' \<Longrightarrow> timer_payload (ss_timers (clear_opt t s)) h' = timer_payload (ss_timers s) h'"
proof -
  have trh: "tracks host_key (host_handle s) (ss_timers s)" using h by (simp add: hosts_ok_def)
  have trg: "tracks group_key (\<lambda>_. groupTimer s) (ss_timers s)" using g by (simp add: group_timer_ok_def)
  have none: "group_key p = None" if "host_handle s k = Some x" "timer_payload (ss_timers s) x = Some p" for x p
    using tracks_pending [OF trh that(1)] that(2) by (cases p) auto
  show "tracks host_key ((host_handle s)(k := None)) (ss_timers (clear_opt t s))"
    using trh t tracks_clear [OF trh] by (cases t) (auto simp: clear_opt_def fun_upd_idem)
  show "tracks group_key (\<lambda>_. groupTimer s) (ss_timers (clear_opt t s))"
    using trg t none by (cases t) (auto simp: clear_opt_def intro!: tracks_clear_other)
  show "timer_payload (ss_timers (clear_opt t s)) h' = timer_payload (ss_timers s) h'"
    if gt: "groupTimer s = Some h'"
  proof (cases t)
    case (Some x)
    obtain p where "timer_payload (ss_timers s) h' = Some p" "group_key p = Some ()"
      using tracks_pending [OF trg, of h' "()"] gt by auto
    with none [of x p] Some t have "x \<noteq> h'" by auto
    then show ?thesis by (simp add: clear_opt_def Some)
  qed (simp add: clear_opt_def)
qed

lemma clear_opt_other [simp]:
  "hosts (clear_opt t s) = hosts s" "groupDeadlines (clear_opt t s) = groupDeadlines s"
  "groupTimer (clear_opt t s) = groupTimer s" "groupTimerDueAt (clear_opt t s) = groupTimerDueAt s"
  "groupTriggerRunning (clear_opt t s) = groupTriggerRunning s"
  "triggering (clear_opt t s) = triggering s" "nextRef (clear_opt t s) = nextRef s"
  by (simp_all add: clear_opt_def split: option.splits)

text \<open>Whatever the group timer was, \<open>armGroupTimer\<close> leaves it armed for the earliest deadline.\<close>

lemma armGroupTimer_other [simp]:
  "hosts (armGroupTimer now f s) = hosts s" "groupDeadlines (armGroupTimer now f s) = groupDeadlines s"
  "groupTriggerRunning (armGroupTimer now f s) = groupTriggerRunning s"
  "triggering (armGroupTimer now f s) = triggering s" "nextRef (armGroupTimer now f s) = nextRef s"
  by (auto simp: armGroupTimer_def Let_def case_prod_beta split: option.splits)

lemma clear_group_timer:
  assumes h: "hosts_ok s" and g: "group_timer_ok s"
  shows "tracks host_key (host_handle s) (ss_timers (clear_opt (groupTimer s) s))"
    and "tracks group_key (\<lambda>_. None) (ss_timers (clear_opt (groupTimer s) s))"
proof -
  have trh: "tracks host_key (host_handle s) (ss_timers s)" using h by (simp add: hosts_ok_def)
  have trg: "tracks group_key (\<lambda>_. groupTimer s) (ss_timers s)" using g by (simp add: group_timer_ok_def)
  have none: "host_key p = None" if "groupTimer s = Some x" "timer_payload (ss_timers s) x = Some p" for x p
    using tracks_pending [OF trg, of x "()"] that by (cases p) auto
  show "tracks host_key (host_handle s) (ss_timers (clear_opt (groupTimer s) s))"
    using trh none by (cases "groupTimer s") (auto simp: clear_opt_def intro!: tracks_clear_other)
  have "(\<lambda>_. groupTimer s)(() := None) = (\<lambda>_. None)" by auto
  then show "tracks group_key (\<lambda>_. None) (ss_timers (clear_opt (groupTimer s) s))"
    using trg tracks_clear [OF trg, of _ "()"] by (cases "groupTimer s") (auto simp: clear_opt_def)
qed

lemma armGroupTimer_ok:
  assumes h: "hosts_ok s" and g: "group_timer_ok s"
  shows "hosts_ok (armGroupTimer now f s) \<and> group_timer_ok (armGroupTimer now f s) \<and>
    armed_for_earliest (armGroupTimer now f s)"
proof -
  note c = clear_group_timer [OF h g]
  have hh: "host_handle (armGroupTimer now f s) = host_handle s" by (rule host_handle_cong) simp
  have res: "\<forall>k st. map_get (hosts s) k = Some st \<longrightarrow> hs_resolving st \<longrightarrow> hs_timer st = None"
    using h by (simp add: hosts_ok_def)
  have e: "earliestGroupDueAt (armGroupTimer now f s) = earliestGroupDueAt s" by (rule earliest_cong) simp
  show ?thesis
  proof (cases "groupTriggerRunning s")
    case True
    then show ?thesis using h g by (simp add: armGroupTimer_def armed_for_earliest_def)
  next
    case False
    show ?thesis
    proof (cases "earliestGroupDueAt s")
      case None
      then show ?thesis using False res c h hh e
        by (auto simp: armGroupTimer_def hosts_ok_def group_timer_ok_def armed_for_earliest_def)
    next
      case (Some due)
      show ?thesis
      proof (cases "\<not> f \<and> groupTimer s \<noteq> None \<and> groupTimerDueAt s = Some due")
        case True
        then show ?thesis using Some False h g by (simp add: armGroupTimer_def armed_for_earliest_def)
      next
        case re: False
        let ?s = "clear_opt (groupTimer s) s"
        obtain timer ts where set: "setTimer now (timerDelay due now) (GroupTimer due) (ss_timers ?s) = (timer, ts)"
          by fastforce
        have a: "armGroupTimer now f s = ?s\<lparr>ss_timers := ts, groupTimer := Some timer, groupTimerDueAt := Some due\<rparr>"
          using Some False re set by (auto simp: armGroupTimer_def Let_def)
        have "tracks host_key (host_handle s) ts" by (rule tracks_set_other [OF c(1) set]) simp
        moreover have "tracks group_key ((\<lambda>_. None)(() := Some timer)) ts"
          by (rule tracks_set [OF c(2) _ set]) simp_all
        moreover have "(\<lambda>_. None)(() := Some timer) = (\<lambda>_. Some timer)" by auto
        moreover have "timer_payload ts timer = Some (GroupTimer due)"
          using timer_payload_set [OF tracks_wf [OF c(1)] set] by simp
        ultimately show ?thesis
          using False Some hh e res by (auto simp: a hosts_ok_def group_timer_ok_def armed_for_earliest_def)
      qed
    qed
  qed
qed

subsection \<open>The helpers keep the invariants\<close>

definition parts_ok :: "silence \<Rightarrow> bool" where
  "parts_ok s \<longleftrightarrow> hosts_ok s \<and> group_timer_ok s"

lemma armed_upd [simp]:
  "armed_for_earliest (s\<lparr>hosts := a\<rparr>) = armed_for_earliest s"
  "armed_for_earliest (s\<lparr>ss_timers := b\<rparr>) = armed_for_earliest s"
  "armed_for_earliest (s\<lparr>nextRef := c\<rparr>) = armed_for_earliest s"
  by (simp_all add: armed_for_earliest_def)

lemma armed_cong:
  "groupDeadlines s' = groupDeadlines s \<Longrightarrow> groupTimer s' = groupTimer s \<Longrightarrow>
     groupTimerDueAt s' = groupTimerDueAt s \<Longrightarrow> groupTriggerRunning s' = groupTriggerRunning s \<Longrightarrow>
     armed_for_earliest s' = armed_for_earliest s"
  using earliest_cong [of s' s] by (simp add: armed_for_earliest_def)

lemma armHost_armed [simp]: "armed_for_earliest (armHost now k ref s) = armed_for_earliest s"
  by (rule armed_cong) simp_all

text \<open>The state object of a host leaves the table, with its timer.\<close>

lemma replace_host:
  assumes ok: "parts_ok s" and st: "map_get (hosts s) k = old"
    and t: "ss_timers s' = ss_timers (clear_opt (case old of None \<Rightarrow> None | Some st \<Rightarrow> hs_timer st) s)"
    and hosts: "map_get (hosts s') = (map_get (hosts s))(k := new)"
    and new: "\<And>st. new = Some st \<Longrightarrow> hs_timer st = None"
    and group: "groupTimer s' = groupTimer s" "groupTimerDueAt s' = groupTimerDueAt s"
      "groupTriggerRunning s' = groupTriggerRunning s"
  shows "parts_ok s'"
proof -
  have h: "hosts_ok s" and g: "group_timer_ok s" using ok by (simp_all add: parts_ok_def)
  define ref where "ref = (case old of None \<Rightarrow> 0 | Some st \<Rightarrow> hs_ref st)"
  have handle: "host_handle s (k, ref) = (case old of None \<Rightarrow> None | Some st \<Rightarrow> hs_timer st)"
    using st by (auto simp: host_handle_def ref_def split: option.splits)
  note c = clear_host_timer [OF h g handle]
  have "host_handle s' kr = ((host_handle s)((k, ref) := None)) kr" for kr
    using st new by (cases kr) (auto simp: host_handle_def hosts ref_def split: option.splits)
  then have "host_handle s' = (host_handle s)((k, ref) := None)" by (rule ext)
  with c(1) have "tracks host_key (host_handle s') (ss_timers s')" by (simp add: t)
  moreover have "hs_timer st' = None" if "map_get (hosts s') k' = Some st'" "hs_resolving st'" for k' st'
    using that h new by (auto simp: hosts_ok_def hosts split: if_splits)
  ultimately have "hosts_ok s'" by (auto simp: hosts_ok_def)
  moreover have "group_timer_ok s'"
    using g c(2,3) by (simp add: group_timer_ok_def group t)
  ultimately show ?thesis by (simp add: parts_ok_def)
qed

lemma arm_parts: "parts_ok s \<Longrightarrow> parts_ok (armHost now k ref s)"
  using armHost_ok [of s] by (simp add: parts_ok_def)

lemma arm_group_parts: "parts_ok s \<Longrightarrow> parts_ok (armGroupTimer now f s) \<and> armed_for_earliest (armGroupTimer now f s)"
  using armGroupTimer_ok [of s now f] by (simp add: parts_ok_def)

lemma parts_cong:
  assumes "hosts s' = hosts s" "ss_timers s' = ss_timers s" "groupTimer s' = groupTimer s"
    "groupTimerDueAt s' = groupTimerDueAt s" "groupTriggerRunning s' = groupTriggerRunning s"
  shows "parts_ok s' = parts_ok s"
  using assms hosts_ok_cong [of s' s] by (simp add: parts_ok_def group_timer_ok_def)

lemma remove_deadlines_other [simp]:
  "hosts (removeDeadlinesForHost now k s) = hosts s"
  "groupDeadlines (removeDeadlinesForHost now k s) = filter (\<lambda>(_, d). hd_hostId d \<noteq> k) (groupDeadlines s)"
  by (simp_all add: removeDeadlinesForHost_def Let_def)

lemma remove_deadlines_ok:
  assumes "parts_ok s" and "armed_for_earliest s"
  shows "parts_ok (removeDeadlinesForHost now k s) \<and> armed_for_earliest (removeDeadlinesForHost now k s)"
proof -
  have "parts_ok (s\<lparr>groupDeadlines := x\<rparr>)" for x using assms(1) by (subst parts_cong [of _ s]) simp_all
  then show ?thesis using assms arm_group_parts by (simp add: removeDeadlinesForHost_def Let_def)
qed

lemma deadlines_without:
  assumes "deadlines_ok s" and "\<And>k'. k' \<noteq> k \<Longrightarrow> map_get (hosts s') k' = map_get (hosts s) k'"
    and "groupDeadlines s' = filter (\<lambda>(_, d). hd_hostId d \<noteq> k) (groupDeadlines s)"
  shows "deadlines_ok s'"
  using assms by (auto simp: deadlines_ok_def deadline_ok_def list_all_iff)

lemma wf_silenceD:
  "wf_silence s \<Longrightarrow> parts_ok s" "wf_silence s \<Longrightarrow> armed_for_earliest s" "wf_silence s \<Longrightarrow> deadlines_ok s"
  by (simp_all add: wf_silence_def parts_ok_def)

lemma wf_silenceI: "parts_ok s \<Longrightarrow> armed_for_earliest s \<Longrightarrow> deadlines_ok s \<Longrightarrow> wf_silence s"
  by (simp add: wf_silence_def parts_ok_def)

subsection \<open>The operations keep the invariants\<close>

lemma fresh_state_wf:
  assumes wf: "wf_silence s" and old: "map_get (hosts s) k = old" and st: "hs_timer st = None"
    and s1: "s1 = (clear_opt (case old of None \<Rightarrow> None | Some e \<Rightarrow> hs_timer e) s)\<lparr>nextRef := n,
      hosts := map_set k st (hosts s)\<rparr>"
  shows "wf_silence (armHost now k ref (removeDeadlinesForHost now k s1))"
proof -
  have "parts_ok s1"
    by (rule replace_host [OF wf_silenceD(1) [OF wf] old, where new = "Some st"])
      (auto simp: s1 st map_get_set clear_opt_def split: option.splits)
  moreover have "armed_for_earliest s1"
    using wf_silenceD(2) [OF wf] by (subst armed_cong [of _ s]) (simp_all add: s1)
  ultimately have r: "parts_ok (removeDeadlinesForHost now k s1)" "armed_for_earliest (removeDeadlinesForHost now k s1)"
    using remove_deadlines_ok by auto
  have "deadlines_ok (removeDeadlinesForHost now k s1)"
    by (rule deadlines_without [OF wf_silenceD(3) [OF wf], of k]) (simp_all add: s1 map_get_set)
  then have "deadlines_ok (armHost now k ref (removeDeadlinesForHost now k s1))"
    by (subst deadlines_ok_cong [of _ "removeDeadlinesForHost now k s1"]) (simp_all add: armHost_generation)
  then show ?thesis using r by (intro wf_silenceI arm_parts) simp_all
qed

lemma observe_wf: "wf_silence s \<Longrightarrow> wf_silence (snd (observe now v seen nb s))"
  using fresh_state_wf [of s _ None] fresh_state_wf [of s _ "Some _"]
  by (auto simp: observe_def Let_def split: option.splits)

lemma clear_wf:
  assumes wf: "wf_silence s" shows "wf_silence (snd (clear now v s))"
proof -
  have step: "wf_silence (removeDeadlinesForHost now k s1)"
    if old: "map_get (hosts s) k = old" and s1: "s1 = (clear_opt (case old of None \<Rightarrow> None | Some e \<Rightarrow> hs_timer e) s)
      \<lparr>hosts := map_delete k (hosts s)\<rparr>" for k old s1
  proof -
    have "parts_ok s1"
      by (rule replace_host [OF wf_silenceD(1) [OF wf] old, where new = None])
        (auto simp: s1 map_get_delete clear_opt_def split: option.splits)
    moreover have "armed_for_earliest s1"
      using wf_silenceD(2) [OF wf] by (subst armed_cong [of _ s]) (simp_all add: s1)
    moreover have "deadlines_ok (removeDeadlinesForHost now k s1)"
      by (rule deadlines_without [OF wf_silenceD(3) [OF wf], of k]) (simp_all add: s1 map_get_delete)
    ultimately show ?thesis using remove_deadlines_ok by (intro wf_silenceI) auto
  qed
  have id: "wf_silence (removeDeadlinesForHost now k s)" if "map_get (hosts s) k = None" for k
    using step [OF that, of s] that by (simp add: clear_opt_def map_has_def)
  show ?thesis
    using wf step [of _ "Some _", OF _ refl] id by (auto simp: clear_def split: option.splits)
qed

lemma fold_clear_opt:
  "timer_payload (ss_timers (fold (\<lambda>(_, st). clear_opt (hs_timer st)) m s)) h =
     (if Some h \<in> (hs_timer \<circ> snd) ` set m then None else timer_payload (ss_timers s) h)"
  by (induction m arbitrary: s) (auto simp: clear_opt_def split: option.splits)

lemma fold_clear_opt_other [simp]:
  "groupTimer (fold (\<lambda>(_, st). clear_opt (hs_timer st)) m s) = groupTimer s"
  "groupTriggerRunning (fold (\<lambda>(_, st). clear_opt (hs_timer st)) m s) = groupTriggerRunning s"
  by (induction m arbitrary: s) auto

lemma clear_opt_payload:
  "timer_payload (ss_timers (clear_opt t s)) h = (if t = Some h then None else timer_payload (ss_timers s) h)"
  by (auto simp: clear_opt_def split: option.splits)

lemma clear_opt_wf_timers: "wf_timers (ss_timers s) \<Longrightarrow> wf_timers (ss_timers (clear_opt t s))"
  by (simp add: clear_opt_def split: option.splits)

lemma fold_clear_opt_wf:
  "wf_timers (ss_timers s) \<Longrightarrow> wf_timers (ss_timers (fold (\<lambda>(_, st). clear_opt (hs_timer st)) m s))"
  by (induction m arbitrary: s) (auto intro: clear_opt_wf_timers)

lemma dispose_wf:
  assumes wf: "wf_silence s" shows "wf_silence (dispose s)"
proof -
  have trh: "tracks host_key (host_handle s) (ss_timers s)"
    and trg: "tracks group_key (\<lambda>_. groupTimer s) (ss_timers s)"
    using wf by (simp_all add: wf_silence_def hosts_ok_def group_timer_ok_def)
  have "timer_payload (ss_timers (dispose s)) h = None" for h
  proof (cases "timer_payload (ss_timers s) h")
    case (Some p)
    show ?thesis
    proof (cases p)
      case (HostTimer k ref)
      then have "host_handle s (k, ref) = Some h" using tracks_payload [OF trh Some] by simp
      then obtain st where "(k, st) \<in> set (hosts s)" "hs_timer st = Some h"
        by (auto simp: host_handle_def dest!: map_get_inD split: option.splits if_splits)
      then have "Some h \<in> (hs_timer \<circ> snd) ` set (hosts s)" by (force simp: image_iff)
      then show ?thesis by (simp add: dispose_def Let_def clear_opt_payload fold_clear_opt)
    next
      case (GroupTimer d)
      then have "groupTimer s = Some h" using tracks_payload [OF trg Some] by simp
      then show ?thesis by (simp add: dispose_def Let_def clear_opt_payload)
    qed
  qed (simp add: dispose_def Let_def clear_opt_payload fold_clear_opt)
  moreover have "wf_timers (ss_timers (dispose s))"
    using tracks_wf [OF trh] by (simp add: dispose_def Let_def clear_opt_wf_timers fold_clear_opt_wf)
  moreover have "hosts (dispose s) = []" "groupDeadlines (dispose s) = []" "groupTimer (dispose s) = None"
    "groupTimerDueAt (dispose s) = None"
    by (simp_all add: dispose_def Let_def)
  ultimately show ?thesis
    by (simp add: wf_silence_def hosts_ok_def group_timer_ok_def armed_for_earliest_def deadlines_ok_def
        tracks_def host_handle_def earliest_None)
qed

lemma put_deadline_other [simp]:
  "hosts (put_deadline d s) = hosts s" "ss_timers (put_deadline d s) = ss_timers s"
  "groupTimer (put_deadline d s) = groupTimer s" "groupTimerDueAt (put_deadline d s) = groupTimerDueAt s"
  "groupTriggerRunning (put_deadline d s) = groupTriggerRunning s" "retryMs (put_deadline d s) = retryMs s"
  by (simp_all add: put_deadline_def)

lemma put_deadline_ok:
  assumes "deadlines_ok s" and "map_get (hosts s) (hd_hostId d) = Some st" and "hs_generation st = hd_generation d"
  shows "deadlines_ok (put_deadline d s)"
proof -
  have "deadline_ok (put_deadline d s) kd \<longleftrightarrow> deadline_ok s kd" for kd by (simp add: deadline_ok_def)
  moreover have "deadline_ok s ((hd_hostId d, hd_groupId d), d)" using assms by (simp add: deadline_ok_def)
  ultimately show ?thesis
    using assms(1) set_map_set [of "(hd_hostId d, hd_groupId d)" d "groupDeadlines s"]
    by (auto simp: deadlines_ok_def list_all_iff) (auto simp: put_deadline_def)
qed

lemma put_deadline_parts: "parts_ok (put_deadline d s) = parts_ok s"
  by (rule parts_cong) simp_all

lemma put_deadlines_ok:
  assumes "parts_ok s" and "deadlines_ok s" and "map_get (hosts s) k = Some st"
  defines "f \<equiv> \<lambda>(g, t). put_deadline \<lparr>hd_hostId = k, hd_groupId = g, hd_generation = hs_generation st,
      hd_dueAt = hs_silentAt st + t\<rparr>"
  shows "parts_ok (fold f gs s) \<and> deadlines_ok (fold f gs s) \<and> hosts (fold f gs s) = hosts s"
  using assms(1-3)
proof (induction gs arbitrary: s)
  case (Cons gt gs)
  have "deadlines_ok (f gt s)"
    using Cons.prems by (auto simp: f_def case_prod_beta intro!: put_deadline_ok)
  moreover have "parts_ok (f gt s)" "hosts (f gt s) = hosts s"
    using Cons.prems by (simp_all add: f_def case_prod_beta put_deadline_parts)
  ultimately show ?case using Cons.IH [of "f gt s"] Cons.prems by simp
qed simp

text \<open>A host's state object changes in place, without a timer before and after.\<close>

lemma update_state_wf:
  assumes wf: "wf_silence s" and st: "map_get (hosts s) k = Some st" "hs_timer st = None"
    and new: "hs_timer st' = None" "hs_generation st' = hs_generation st"
  shows "wf_silence (s\<lparr>hosts := map_set k st' (hosts s)\<rparr>)"
proof -
  have "parts_ok (s\<lparr>hosts := map_set k st' (hosts s)\<rparr>)"
    by (rule replace_host [OF wf_silenceD(1) [OF wf] st(1), where new = "Some st'"])
      (auto simp: st new clear_opt_def map_get_set)
  moreover have "deadlines_ok (s\<lparr>hosts := map_set k st' (hosts s)\<rparr>)"
    using wf_silenceD(3) [OF wf] by (subst deadlines_ok_cong [of _ s]) (auto simp: map_get_set st new)
  ultimately show ?thesis using wf_silenceD(2) [OF wf] by (intro wf_silenceI) simp_all
qed

lemma armHost_wf:
  assumes wf: "wf_silence s" shows "wf_silence (armHost now k ref s)"
proof -
  have "deadlines_ok (armHost now k ref s) = deadlines_ok s"
    by (rule deadlines_ok_cong) (simp_all add: armHost_generation)
  then show ?thesis
    using wf_silenceD [OF wf] arm_parts [of s now k ref] by (intro wf_silenceI) simp_all
qed

lemma finish_resolve_wf:
  assumes wf: "wf_silence s" shows "wf_silence (finish_resolve now k ref r s)"
proof (cases "\<exists>st. map_get (hosts s) k = Some st \<and> hs_ref st = ref \<and> hs_resolving st")
  case False
  then show ?thesis using wf by (auto simp: finish_resolve_def split: option.splits)
next
  case True
  then obtain st where st: "map_get (hosts s) k = Some st" "hs_ref st = ref" "hs_resolving st" by blast
  then have none: "hs_timer st = None" using wf by (auto simp: wf_silence_def hosts_ok_def)
  show ?thesis
  proof (cases r)
    case (Resolved gs)
    let ?s = "fold (\<lambda>(g, t). put_deadline \<lparr>hd_hostId = k, hd_groupId = g, hd_generation = hs_generation st,
        hd_dueAt = hs_silentAt st + t\<rparr>) (by_group gs) s"
    note p = put_deadlines_ok [OF wf_silenceD(1) [OF wf] wf_silenceD(3) [OF wf] st(1), of "by_group gs"]
    let ?a = "armGroupTimer now False ?s"
    have "deadlines_ok ?a = deadlines_ok ?s" by (rule deadlines_ok_cong) simp_all
    then have "wf_silence ?a" using p arm_group_parts [of ?s now False] by (simp add: wf_silenceI)
    from update_state_wf [OF this, of k st] show ?thesis
      using Resolved st none p armHost_wf by (simp add: finish_resolve_def Let_def)
  next
    case Rejected
    from update_state_wf [OF wf st(1) none] show ?thesis
      using Rejected st none armHost_wf by (simp add: finish_resolve_def Let_def)
  qed
qed

lemma retry_deadline_ok:
  assumes "parts_ok s" and "deadlines_ok s"
  shows "parts_ok (retry_deadline t d s) \<and> deadlines_ok (retry_deadline t d s)"
  using assms by (auto simp: retry_deadline_def put_deadline_parts intro!: put_deadline_ok split: option.splits)

lemma retry_deadline_other [simp]:
  "hosts (retry_deadline t d s) = hosts s" "groupTriggerRunning (retry_deadline t d s) = groupTriggerRunning s"
  "groupTimer (retry_deadline t d s) = groupTimer s"
  by (simp_all add: retry_deadline_def split: option.splits)

lemma retry_deadlines_ok:
  "parts_ok s \<Longrightarrow> deadlines_ok s \<Longrightarrow>
     parts_ok (fold (retry_deadline t) ds s) \<and> deadlines_ok (fold (retry_deadline t) ds s)"
  by (induction ds arbitrary: s) (auto simp: retry_deadline_ok)

lemma finish_trigger_wf:
  assumes wf: "wf_silence s" shows "wf_silence (finish_trigger now r s)"
proof (cases "groupTriggerRunning s")
  case False
  then show ?thesis using wf by (simp add: finish_trigger_def)
next
  case True
  let ?s = "case r of Resolved _ \<Rightarrow> s | Rejected \<Rightarrow> fold (retry_deadline (now + retryMs s)) (triggering s) s"
  let ?t = "?s\<lparr>groupTriggerRunning := False, triggering := []\<rparr>"
  have s: "parts_ok ?s" "deadlines_ok ?s"
    using retry_deadlines_ok [of s "now + retryMs s" "triggering s"] wf_silenceD [OF wf] by (cases r; simp)+
  have "hosts_ok ?t = hosts_ok ?s" by (rule hosts_ok_cong) simp_all
  then have t: "parts_ok ?t" using s by (simp add: parts_ok_def group_timer_ok_def)
  have "deadlines_ok (armGroupTimer now True ?t) = deadlines_ok ?s" by (rule deadlines_ok_cong) simp_all
  then show ?thesis
    using True s arm_group_parts [OF t, of now True] by (simp add: finish_trigger_def Let_def wf_silenceI)
qed

lemma drop_group_timer:
  assumes ok: "parts_ok s"
  shows "parts_ok ((clear_opt (groupTimer s) s)\<lparr>groupTimer := None, groupTimerDueAt := None\<rparr>)"
proof -
  have h: "hosts_ok s" and g: "group_timer_ok s" using ok by (simp_all add: parts_ok_def)
  let ?t = "(clear_opt (groupTimer s) s)\<lparr>groupTimer := None, groupTimerDueAt := None\<rparr>"
  have "host_handle ?t = host_handle s" by (rule host_handle_cong) simp
  then show ?thesis
    using clear_group_timer [OF h g] h by (simp add: parts_ok_def hosts_ok_def group_timer_ok_def)
qed

lemma deadlines_filter:
  "deadlines_ok s \<Longrightarrow> groupDeadlines s' = filter P (groupDeadlines s) \<Longrightarrow> hosts s' = hosts s \<Longrightarrow> deadlines_ok s'"
  by (auto simp: deadlines_ok_def deadline_ok_def list_all_iff)

lemma trigger_due_wf:
  assumes ok: "parts_ok s" and d: "deadlines_ok s" and none: "groupTimer s = None"
    and idle: "\<not> groupTriggerRunning s"
  shows "wf_silence (snd (triggerDueGroups now s))"
proof -
  let ?s1 = "s\<lparr>groupDeadlines := filter (\<lambda>(_, d). \<not> is_due now d) (groupDeadlines s)\<rparr>"
  have p: "parts_ok ?s1" using ok by (subst parts_cong [of _ s]) simp_all
  have d1: "deadlines_ok ?s1" by (rule deadlines_filter [OF d]) simp_all
  show ?thesis
  proof (cases "filter (is_due now) (map snd (groupDeadlines s)) = []")
    case True
    have "deadlines_ok (armGroupTimer now False ?s1) = deadlines_ok ?s1" by (rule deadlines_ok_cong) simp_all
    then show ?thesis
      using True idle arm_group_parts [OF p, of now False] d1
      by (simp add: triggerDueGroups_def Let_def wf_silenceI)
  next
    case False
    let ?s2 = "?s1\<lparr>groupTriggerRunning := True, triggering := filter (is_due now) (map snd (groupDeadlines s))\<rparr>"
    have "hosts_ok ?s2 = hosts_ok ?s1" by (rule hosts_ok_cong) simp_all
    moreover have "group_timer_ok ?s2" using p none by (simp add: parts_ok_def group_timer_ok_def)
    moreover have "deadlines_ok ?s2" by (rule deadlines_filter [OF d]) simp_all
    moreover have "armed_for_earliest ?s2" by (simp add: armed_for_earliest_def)
    ultimately show ?thesis
      using False idle p by (simp add: triggerDueGroups_def Let_def wf_silence_def parts_ok_def)
  qed
qed

lemma fire_group_wf:
  assumes wf: "wf_silence s" and due: "due_timer h now (ss_timers s) = Some (GroupTimer d)"
  shows "wf_silence (snd (fire_silence h now s))"
proof -
  have trg: "tracks group_key (\<lambda>_. groupTimer s) (ss_timers s)"
    and idle: "groupTimer s \<noteq> None \<longrightarrow> \<not> groupTriggerRunning s"
    using wf by (auto simp: wf_silence_def group_timer_ok_def)
  have t: "groupTimer s = Some h" using tracks_due [OF trg due] by simp
  let ?s2 = "s\<lparr>ss_timers := clearTimer h (ss_timers s), groupTimer := None, groupTimerDueAt := None\<rparr>"
  have p: "parts_ok ?s2" using drop_group_timer [OF wf_silenceD(1) [OF wf]] t by (simp add: clear_opt_def)
  have d: "deadlines_ok ?s2" using wf_silenceD(3) [OF wf] by (subst deadlines_ok_cong [of _ s]) simp_all
  have "deadlines_ok (armGroupTimer now False ?s2) = deadlines_ok ?s2" by (rule deadlines_ok_cong) simp_all
  then have "wf_silence (armGroupTimer now False ?s2)"
    using arm_group_parts [OF p, of now False] d by (simp add: wf_silenceI)
  moreover have "wf_silence (snd (triggerDueGroups now ?s2))"
    by (rule trigger_due_wf [OF p d]) (use idle t in simp_all)
  ultimately show ?thesis using due t by (simp add: fire_silence_def Let_def)
qed

lemma fire_host_wf:
  assumes wf: "wf_silence s" and due: "due_timer h now (ss_timers s) = Some (HostTimer k ref)"
  shows "wf_silence (snd (fire_silence h now s))"
proof -
  have trh: "tracks host_key (host_handle s) (ss_timers s)" using wf by (simp add: wf_silence_def hosts_ok_def)
  obtain st where st: "map_get (hosts s) k = Some st" "hs_ref st = ref" "hs_timer st = Some h"
    using tracks_due [OF trh due] by (auto simp: host_handle_def split: option.splits if_splits)
  have res: "\<not> hs_resolving st" using wf st by (auto simp: wf_silence_def hosts_ok_def)
  let ?s = "\<lambda>st'. s\<lparr>ss_timers := clearTimer h (ss_timers s), hosts := map_set k st' (hosts s)\<rparr>"
  have step: "wf_silence (?s st')" if "hs_timer st' = None" "hs_generation st' = hs_generation st" for st'
  proof -
    have "parts_ok (?s st')"
      by (rule replace_host [OF wf_silenceD(1) [OF wf] st(1), where new = "Some st'"])
        (auto simp: st that clear_opt_def map_get_set)
    moreover have "deadlines_ok (?s st')"
      using wf_silenceD(3) [OF wf] by (subst deadlines_ok_cong [of _ s]) (auto simp: map_get_set st that)
    ultimately show ?thesis using wf_silenceD(2) [OF wf] by (intro wf_silenceI) simp_all
  qed
  show ?thesis
    using due st res step armHost_wf by (simp add: fire_silence_def Let_def start_resolve_def)
qed

lemma silence_step_wf: "wf_silence s \<Longrightarrow> wf_silence (snd (silence_step op s))"
proof (cases op)
  case (FireSilence h now)
  assume wf: "wf_silence s"
  show ?thesis
  proof (cases "due_timer h now (ss_timers s)")
    case None
    then show ?thesis using wf FireSilence by (simp add: fire_silence_def)
  next
    case (Some p)
    then show ?thesis using wf FireSilence fire_group_wf fire_host_wf by (cases p) auto
  qed
qed (simp_all add: observe_wf clear_wf dispose_wf finish_resolve_wf finish_trigger_wf)

lemma silence_run_wf: "wf_silence (fold (\<lambda>op s. snd (silence_step op s)) ops (new_silence a b))"
proof -
  have "wf_silence s \<Longrightarrow> wf_silence (fold (\<lambda>op s. snd (silence_step op s)) ops s)" for s
    by (induction ops arbitrary: s) (auto simp: silence_step_wf)
  then show ?thesis by (simp add: wf_new_silence)
qed

section \<open>Consequences\<close>

lemma deadlines_attended:
  assumes "wf_silence s"
  shows "groupDeadlines s = [] \<or> groupTriggerRunning s \<or>
    (\<exists>h d. groupTimer s = Some h \<and> timer_payload (ss_timers s) h = Some (GroupTimer d) \<and>
       earliestGroupDueAt s = Some d)"
  using assms earliest_None [of s] by (fastforce simp: wf_silence_def armed_for_earliest_def group_timer_ok_def)

lemma set_dedup [simp]: "set (dedup xs) = set xs"
  by (simp add: dedup_def)

lemma distinct_dedup [simp]: "distinct (dedup xs)"
  by (simp add: dedup_def)

lemma start_resolve_call: "fst (start_resolve k st s) \<noteq> Some (Trigger gs)"
  by (simp add: start_resolve_def)

lemma fire_trigger_groups:
  assumes "fst (fire_silence h now s) = Some (Trigger gs)"
  shows "gs \<noteq> [] \<and> distinct gs \<and>
    set gs = {g. \<exists>d \<in> snd ` set (groupDeadlines s). hd_groupId d = g \<and> hd_dueAt d \<le> now}"
proof -
  have "gs = dedup (map hd_groupId (filter (is_due now) (map snd (groupDeadlines s))))"
    and "filter (is_due now) (map snd (groupDeadlines s)) \<noteq> []"
    using assms start_resolve_call
    by (auto simp: fire_silence_def Let_def triggerDueGroups_def split: option.splits silence_timer.splits if_splits)
  moreover from this have "gs \<noteq> []" using set_dedup by (metis map_is_Nil_conv set_empty)
  ultimately show ?thesis by (auto simp: is_due_def image_iff)
qed

section \<open>A deadline that outlives its host\<close>

text \<open>
  The generation that guards the retry of a failed trigger restarts at 1 when a host is cleared.
  So a host that is cleared and observed again while a trigger for it is out gets its old
  deadline back when that trigger fails, although it has just been seen.
\<close>

definition revived_run :: "silence_op list" where
  "revived_run =
     [Observe 0 (JNum (num 1)) JUndef JUndef, FireSilence 0 10,
      ResolveDone 10 1 0 (Resolved [(JNum (num 5), JNum (num 20))]), FireSilence 1 30,
      Clear 31 (JNum (num 1)), Observe 32 (JNum (num 1)) JUndef JUndef, TriggerDone 33 Rejected]"

lemma revived_deadline:
  "dueAt (JNum (num 5)) (fold (\<lambda>op s. snd (silence_step op s)) revived_run (new_silence (Some 10) None)) = Some 1033"
  by code_simp

section \<open>Property\<close>

text \<open>
  The host-silence scheduler leaves no deadline unattended and triggers exactly what is due.
  After any sequence of observations, clears, timers, lookups and trigger results: while there
  are deadlines, a trigger is out or the group timer is armed for the earliest of them; every
  deadline belongs to an observed host of the same generation; and a timer that triggers calls
  for exactly the groups with a deadline that has passed, each once.
\<close>

theorem silence_scheduler_sound:
  "let s = fold (\<lambda>op s. snd (silence_step op s)) ops (new_silence a b) in
    (groupDeadlines s = [] \<or> groupTriggerRunning s \<or>
      (\<exists>h d. groupTimer s = Some h \<and> timer_payload (ss_timers s) h = Some (GroupTimer d) \<and>
         earliestGroupDueAt s = Some d)) \<and>
    list_all (deadline_ok s) (groupDeadlines s) \<and>
    (case fst (fire_silence h now s) of
       Some (Trigger gs) \<Rightarrow> gs \<noteq> [] \<and> distinct gs \<and>
         set gs = {g. \<exists>d \<in> snd ` set (groupDeadlines s). hd_groupId d = g \<and> hd_dueAt d \<le> now}
     | _ \<Rightarrow> True)"
  unfolding Let_def
  using deadlines_attended [OF silence_run_wf] wf_silenceD(3) [OF silence_run_wf]
    fire_trigger_groups
  by (auto simp: deadlines_ok_def split: option.splits silence_call.splits)

end
