(* ===== verification/Rule_Quota.thy ===== *)
theory Rule_Quota
  imports Prelude
begin

text \<open>
  \<open>server/ruleQuotaReservations.ts\<close>: while a rule is being created it counts against the rule
  and port quotas of its user. Each operation holds the lock of the user from its first read of
  the table to its last write (\<open>withRuleCreateQuotaLock\<close>, see \<open>Task_Lock\<close>), so it is one step
  here; what the database counts and the check for an existing port answer are arguments. The
  closure \<open>release\<close> of a reservation is the operation \<open>release_quota\<close> on it.
\<close>

section \<open>State\<close>

record pending_quota =
  pq_rules :: int
  pq_ports :: int
  portHolders :: "(int, int) jsmap"

record quota_reservation =
  qr_id :: nat
  qr_user :: int
  qr_rule :: bool
  qr_holdPort :: bool
  qr_portKey :: int

record rule_quota =
  pendingByUser :: "(int, pending_quota) jsmap"
  releasedQuota :: "nat set"
  nextQuotaId :: nat

definition no_quota :: rule_quota where
  "no_quota = \<lparr>pendingByUser = [], releasedQuota = {}, nextQuotaId = 0\<rparr>"

definition no_pending :: pending_quota where
  "no_pending = \<lparr>pq_rules = 0, pq_ports = 0, portHolders = []\<rparr>"

datatype quota_error = RuleLimit int | PortLimit int

record quota_request =
  rq_user :: int
  rq_maxRules :: int
  rq_maxPorts :: int
  rq_sourcePort :: int
  rq_existingPort :: bool
  rq_ruleCount :: int
  rq_portCount :: int

section \<open>Operations\<close>

definition pending_of :: "int \<Rightarrow> rule_quota \<Rightarrow> pending_quota" where
  "pending_of userId s = (case map_get (pendingByUser s) userId of None \<Rightarrow> no_pending | Some p \<Rightarrow> p)"

text \<open>
  \<open>None\<close> is the reservation of an unlimited user, whose release does nothing. A source port
  of 0 is none.
\<close>

definition reserveRuleCreateQuota ::
  "quota_request \<Rightarrow> rule_quota \<Rightarrow> (quota_error + quota_reservation option) \<times> rule_quota" where
  "reserveRuleCreateQuota input s =
     (let maxRules = max 0 (rq_maxRules input);
          maxPorts = max 0 (rq_maxPorts input);
          userId = rq_user input
      in if maxRules = 0 \<and> maxPorts = 0 then (Inr None, s)
         else
           let pending = pending_of userId s;
               ruleCount = (if maxRules > 0 then rq_ruleCount input else 0);
               portCount = (if maxPorts > 0 then rq_portCount input else 0);
               portKey = rq_sourcePort input;
               holdPort = (maxPorts > 0 \<and> \<not> rq_existingPort input);
               additionalPorts = (if holdPort \<and> (portKey = 0 \<or> \<not> map_has (portHolders pending) portKey) then 1 else 0)
           in if maxRules > 0 \<and> ruleCount + pq_rules pending \<ge> maxRules then (Inl (RuleLimit maxRules), s)
              else if maxPorts > 0 \<and> portCount + pq_ports pending + additionalPorts > maxPorts
              then (Inl (PortLimit maxPorts), s)
              else
                let holders = (if holdPort \<and> portKey \<noteq> 0
                      then map_set portKey ((case map_get (portHolders pending) portKey of None \<Rightarrow> 0 | Some n \<Rightarrow> n) + 1)
                             (portHolders pending)
                      else portHolders pending)
                in (Inr (Some \<lparr>qr_id = nextQuotaId s, qr_user = userId, qr_rule = (maxRules > 0),
                       qr_holdPort = holdPort, qr_portKey = portKey\<rparr>),
                    s\<lparr>nextQuotaId := Suc (nextQuotaId s),
                      pendingByUser := map_set userId
                        \<lparr>pq_rules = pq_rules pending + (if maxRules > 0 then 1 else 0),
                         pq_ports = pq_ports pending + additionalPorts, portHolders = holders\<rparr> (pendingByUser s)\<rparr>))"

definition released_pending :: "quota_reservation \<Rightarrow> pending_quota \<Rightarrow> pending_quota" where
  "released_pending r current =
     (let keyed = (qr_holdPort r \<and> qr_portKey r \<noteq> 0);
          holders = (case map_get (portHolders current) (qr_portKey r) of None \<Rightarrow> 1 | Some n \<Rightarrow> n) - 1;
          releasedPorts = (if keyed then (if holders > 0 then 0 else 1) else if qr_holdPort r then 1 else 0);
          portHolders' =
            (if keyed
             then (if holders > 0 then map_set (qr_portKey r) holders (portHolders current)
                   else map_delete (qr_portKey r) (portHolders current))
             else portHolders current)
      in \<lparr>pq_rules = max 0 (pq_rules current - (if qr_rule r then 1 else 0)),
          pq_ports = max 0 (pq_ports current - releasedPorts), portHolders = portHolders'\<rparr>)"

definition release_quota :: "quota_reservation \<Rightarrow> rule_quota \<Rightarrow> rule_quota" where
  "release_quota r s =
     (if qr_id r \<in> releasedQuota s then s
      else
        let s1 = s\<lparr>releasedQuota := insert (qr_id r) (releasedQuota s)\<rparr> in
        case map_get (pendingByUser s1) (qr_user r) of
          None \<Rightarrow> s1
        | Some current \<Rightarrow>
            (let next = released_pending r current in
             if pq_rules next = 0 \<and> pq_ports next = 0
             then s1\<lparr>pendingByUser := map_delete (qr_user r) (pendingByUser s1)\<rparr>
             else s1\<lparr>pendingByUser := map_set (qr_user r) next (pendingByUser s1)\<rparr>))"

definition clearRuleQuotaReservationsForTest :: "rule_quota \<Rightarrow> rule_quota" where
  "clearRuleQuotaReservationsForTest s = s\<lparr>pendingByUser := []\<rparr>"

section \<open>Runs\<close>

datatype quota_op = ReserveQuota quota_request | ReleaseQuota nat

type_synonym quota_state = "quota_reservation list \<times> rule_quota"

fun quota_step :: "quota_op \<Rightarrow> quota_state \<Rightarrow> quota_state" where
  "quota_step (ReserveQuota input) (issued, s) =
     (case reserveRuleCreateQuota input s of
        (Inr (Some r), s') \<Rightarrow> (issued @ [r], s') | (_, s') \<Rightarrow> (issued, s'))"
| "quota_step (ReleaseQuota i) (issued, s) =
     (if i < length issued then (issued, release_quota (issued ! i) s) else (issued, s))"

section \<open>What the pending counters count\<close>

definition live_of :: "quota_state \<Rightarrow> int \<Rightarrow> quota_reservation set" where
  "live_of st u = {r \<in> set (fst st). qr_user r = u \<and> qr_id r \<notin> releasedQuota (snd st)}"

definition rules_held :: "quota_reservation set \<Rightarrow> int" where
  "rules_held L = int (card {r \<in> L. qr_rule r})"

definition holders_of :: "int \<Rightarrow> quota_reservation set \<Rightarrow> int" where
  "holders_of k L = int (card {r \<in> L. qr_holdPort r \<and> qr_portKey r = k})"

text \<open>Ports held: one for each reservation without a source port, one for each source port.\<close>

definition keys_held :: "quota_reservation set \<Rightarrow> int set" where
  "keys_held L = qr_portKey ` {r \<in> L. qr_holdPort r} - {0}"

definition ports_held :: "quota_reservation set \<Rightarrow> int" where
  "ports_held L = holders_of 0 L + int (card (keys_held L))"

definition pending_counts :: "pending_quota \<Rightarrow> quota_reservation set \<Rightarrow> bool" where
  "pending_counts p L \<longleftrightarrow> pq_rules p = rules_held L \<and> pq_ports p = ports_held L \<and>
     (\<forall>k. k \<noteq> 0 \<longrightarrow> map_get (portHolders p) k = (if k \<in> keys_held L then Some (holders_of k L) else None))"

definition wf_quota :: "quota_state \<Rightarrow> bool" where
  "wf_quota st \<longleftrightarrow> (\<forall>u. pending_counts (pending_of u (snd st)) (live_of st u)) \<and>
     inj_on qr_id (set (fst st)) \<and> (\<forall>r \<in> set (fst st). qr_id r < nextQuotaId (snd st)) \<and>
     (\<forall>i \<in> releasedQuota (snd st). i < nextQuotaId (snd st))"

lemma finite_live [simp]: "finite (live_of st u)"
  by (simp add: live_of_def)

lemma finite_keys [simp]: "finite L \<Longrightarrow> finite (keys_held L)"
  by (simp add: keys_held_def)

lemma counts_empty [simp]: "rules_held {} = 0" "holders_of k {} = 0" "keys_held {} = {}" "ports_held {} = 0"
  by (simp_all add: rules_held_def holders_of_def keys_held_def ports_held_def)

lemma card_filter_insert:
  assumes "finite L" and "r \<notin> L"
  shows "card {x \<in> insert r L. P x} = card {x \<in> L. P x} + (if P r then 1 else 0)"
proof -
  have "{x \<in> insert r L. P x} = (if P r then insert r {x \<in> L. P x} else {x \<in> L. P x})" by auto
  then show ?thesis using assms by simp
qed

lemma counts_insert:
  assumes "finite L" and "r \<notin> L"
  shows "rules_held (insert r L) = rules_held L + (if qr_rule r then 1 else 0)"
    and "holders_of k (insert r L) = holders_of k L + (if qr_holdPort r \<and> qr_portKey r = k then 1 else 0)"
    and "keys_held (insert r L) = (if qr_holdPort r \<and> qr_portKey r \<noteq> 0 then insert (qr_portKey r) (keys_held L) else keys_held L)"
    and "ports_held (insert r L) = ports_held L +
      (if qr_holdPort r \<and> (qr_portKey r = 0 \<or> qr_portKey r \<notin> keys_held L) then 1 else 0)"
proof -
  show rl: "rules_held (insert r L) = rules_held L + (if qr_rule r then 1 else 0)"
    and h: "holders_of k (insert r L) = holders_of k L + (if qr_holdPort r \<and> qr_portKey r = k then 1 else 0)" for k
    using card_filter_insert [OF assms] by (simp_all add: rules_held_def holders_of_def)
  show ks: "keys_held (insert r L) = (if qr_holdPort r \<and> qr_portKey r \<noteq> 0 then insert (qr_portKey r) (keys_held L) else keys_held L)"
    by (auto simp: keys_held_def)
  have "0 \<notin> keys_held L" by (simp add: keys_held_def)
  then show "ports_held (insert r L) = ports_held L +
      (if qr_holdPort r \<and> (qr_portKey r = 0 \<or> qr_portKey r \<notin> keys_held L) then 1 else 0)"
    using assms(1) by (auto simp: ports_held_def h ks card_insert_if)
qed

lemma holders_pos: "finite L \<Longrightarrow> k \<noteq> 0 \<Longrightarrow> k \<in> keys_held L \<longleftrightarrow> 0 < holders_of k L"
  by (auto simp: keys_held_def holders_of_def card_gt_0_iff image_iff)

lemma holders_zero: "finite L \<Longrightarrow> k \<noteq> 0 \<Longrightarrow> k \<notin> keys_held L \<Longrightarrow> holders_of k L = 0"
  by (auto simp: keys_held_def holders_of_def image_iff)

lemma counts_nonneg [simp]: "0 \<le> rules_held L" "0 \<le> ports_held L" "0 \<le> holders_of k L"
  by (simp_all add: rules_held_def ports_held_def holders_of_def)

lemma ports_zero:
  assumes "finite L" and "ports_held L = 0" shows "keys_held L = {}"
proof -
  have "int (card (keys_held L)) = 0"
    using assms(2) counts_nonneg(3) [where k = 0 and L = L] unfolding ports_held_def by linarith
  then show ?thesis using assms(1) by simp
qed

text \<open>The two updates of the counters are those of the sets.\<close>

lemma pending_counts_add:
  assumes "pending_counts p L" and "finite L" and "r \<notin> L"
  shows "pending_counts
    \<lparr>pq_rules = pq_rules p + (if qr_rule r then 1 else 0),
     pq_ports = pq_ports p + (if qr_holdPort r \<and> (qr_portKey r = 0 \<or> \<not> map_has (portHolders p) (qr_portKey r)) then 1 else 0),
     portHolders = (if qr_holdPort r \<and> qr_portKey r \<noteq> 0
       then map_set (qr_portKey r) ((case map_get (portHolders p) (qr_portKey r) of None \<Rightarrow> 0 | Some n \<Rightarrow> n) + 1) (portHolders p)
       else portHolders p)\<rparr> (insert r L)"
  using assms holders_pos [OF assms(2), of "qr_portKey r"] holders_zero [OF assms(2), of "qr_portKey r"]
  by (auto simp: pending_counts_def counts_insert [OF assms(2,3)] map_has_def map_get_set)

lemma pending_counts_remove:
  assumes p: "pending_counts p (insert r L)" and "finite L" and "r \<notin> L"
  shows "pending_counts (released_pending r p) L"
  using p holders_pos [OF assms(2), of "qr_portKey r"] holders_zero [OF assms(2), of "qr_portKey r"]
  by (auto simp: pending_counts_def counts_insert [OF assms(2,3)] released_pending_def Let_def
      map_get_set map_get_delete)

lemma pending_counts_zero:
  assumes "pending_counts p L" and "finite L" and "pq_rules p = 0" and "pq_ports p = 0"
  shows "pending_counts no_pending L"
proof -
  have "ports_held L = 0" using assms by (simp add: pending_counts_def)
  then have "keys_held L = {}" by (rule ports_zero [OF assms(2)])
  then show ?thesis using assms by (simp add: pending_counts_def no_pending_def)
qed

lemma pending_counts_idle:
  assumes "pending_counts no_pending (insert r L)" and "finite L" and "r \<notin> L"
  shows "pending_counts no_pending L"
proof -
  have "rules_held L + (if qr_rule r then 1 else 0) = 0"
    "ports_held L + (if qr_holdPort r \<and> (qr_portKey r = 0 \<or> qr_portKey r \<notin> keys_held L) then 1 else 0) = 0"
    using assms(1) by (simp_all add: pending_counts_def no_pending_def counts_insert [OF assms(2,3)])
  then have "rules_held L = 0" "ports_held L = 0"
    by (simp_all add: add_nonneg_eq_0_iff)
  moreover from this have "keys_held L = {}" by (intro ports_zero [OF assms(2)])
  ultimately show ?thesis by (simp add: pending_counts_def no_pending_def)
qed

section \<open>The counters are right in every reachable state\<close>

lemma pending_of_set:
  "pending_of u (s\<lparr>pendingByUser := map_set v p (pendingByUser s), nextQuotaId := n\<rparr>) = (if u = v then p else pending_of u s)"
  by (simp add: pending_of_def map_get_set)

lemma if_chain:
  "(if A then x else if B then y else if C then z else w) = v \<Longrightarrow> x \<noteq> v \<Longrightarrow> y \<noteq> v \<Longrightarrow> z \<noteq> v \<Longrightarrow> w = v"
  by (simp split: if_splits)

lemma if_chain_not:
  "(if A then x else if B then y else if C then z else w) = v \<Longrightarrow> x \<noteq> v \<Longrightarrow> y \<noteq> v \<Longrightarrow> z \<noteq> v \<Longrightarrow> \<not> A \<and> \<not> B \<and> \<not> C"
  by (simp split: if_splits)

lemma if_chain_mid:
  "(if A then x else if B then y else if C then z else w) = v \<Longrightarrow> x \<noteq> v \<Longrightarrow> w \<noteq> v \<Longrightarrow> B \<and> y = v \<or> C \<and> z = v"
  by (simp split: if_splits)

lemma reserve_ok:
  assumes "reserveRuleCreateQuota input s = (Inr (Some r), s')"
  shows "qr_user r = rq_user input \<and> qr_id r = nextQuotaId s \<and> nextQuotaId s' = Suc (nextQuotaId s) \<and>
    releasedQuota s' = releasedQuota s \<and>
    (\<forall>u. u \<noteq> rq_user input \<longrightarrow> pending_of u s' = pending_of u s) \<and>
    (\<forall>L. pending_counts (pending_of (rq_user input) s) L \<longrightarrow> finite L \<longrightarrow> r \<notin> L \<longrightarrow>
       pending_counts (pending_of (rq_user input) s') (insert r L))"
proof -
  let ?p = "pending_of (rq_user input) s"
  note granted = if_chain [OF assms [unfolded reserveRuleCreateQuota_def Let_def], simplified]
  then have r: "r = \<lparr>qr_id = nextQuotaId s, qr_user = rq_user input, qr_rule = (rq_maxRules input > 0),
      qr_holdPort = (rq_maxPorts input > 0 \<and> \<not> rq_existingPort input), qr_portKey = rq_sourcePort input\<rparr>"
    and s': "s' = s\<lparr>nextQuotaId := Suc (nextQuotaId s), pendingByUser := map_set (rq_user input)
      \<lparr>pq_rules = pq_rules ?p + (if qr_rule r then 1 else 0),
       pq_ports = pq_ports ?p + (if qr_holdPort r \<and> (qr_portKey r = 0 \<or> \<not> map_has (portHolders ?p) (qr_portKey r)) then 1 else 0),
       portHolders = (if qr_holdPort r \<and> qr_portKey r \<noteq> 0
         then map_set (qr_portKey r) ((case map_get (portHolders ?p) (qr_portKey r) of None \<Rightarrow> 0 | Some n \<Rightarrow> n) + 1) (portHolders ?p)
         else portHolders ?p)\<rparr> (pendingByUser s)\<rparr>"
    by auto
  have other: "pending_of u s' = pending_of u s" if "u \<noteq> rq_user input" for u
    using that by (simp add: s' pending_of_def map_get_set)
  have same: "pending_of (rq_user input) s' =
      \<lparr>pq_rules = pq_rules ?p + (if qr_rule r then 1 else 0),
       pq_ports = pq_ports ?p + (if qr_holdPort r \<and> (qr_portKey r = 0 \<or> \<not> map_has (portHolders ?p) (qr_portKey r)) then 1 else 0),
       portHolders = (if qr_holdPort r \<and> qr_portKey r \<noteq> 0
         then map_set (qr_portKey r) ((case map_get (portHolders ?p) (qr_portKey r) of None \<Rightarrow> 0 | Some n \<Rightarrow> n) + 1) (portHolders ?p)
         else portHolders ?p)\<rparr>"
    by (simp add: s' pending_of_def map_get_set)
  have add: "pending_counts (pending_of (rq_user input) s') (insert r L)"
    if "pending_counts ?p L" "finite L" "r \<notin> L" for L
    unfolding same using that by (rule pending_counts_add)
  have "qr_user r = rq_user input" "qr_id r = nextQuotaId s" by (simp_all add: r)
  moreover have "nextQuotaId s' = Suc (nextQuotaId s)" "releasedQuota s' = releasedQuota s" by (simp_all add: s')
  ultimately show ?thesis using other add by blast
qed

lemma reserve_other:
  "reserveRuleCreateQuota input s = (res, s') \<Longrightarrow> \<forall>r. res \<noteq> Inr (Some r) \<Longrightarrow> s' = s"
  by (auto simp: reserveRuleCreateQuota_def Let_def split: if_splits)

lemma reserve_step_quota:
  assumes wf: "wf_quota (issued, s)"
  shows "wf_quota (quota_step (ReserveQuota input) (issued, s))"
proof (cases "reserveRuleCreateQuota input s")
  case (Pair res s')
  show ?thesis
  proof (cases "\<exists>r. res = Inr (Some r)")
    case False
    then have "s' = s" using reserve_other [OF Pair] by auto
    then show ?thesis using False wf Pair by (auto split: sum.splits option.splits)
  next
    case True
    then obtain r where r: "res = Inr (Some r)" by blast
    note ok = reserve_ok [OF Pair [unfolded r]]
    have ids: "qr_id x < nextQuotaId s" if "x \<in> set issued" for x using wf that by (auto simp: wf_quota_def)
    have rel: "\<forall>i \<in> releasedQuota s. i < nextQuotaId s" using wf by (simp add: wf_quota_def)
    have new: "r \<notin> set issued" "qr_id r \<notin> releasedQuota s" using ids [of r] rel ok by auto
    have live: "live_of (issued @ [r], s') u = (if u = rq_user input then insert r (live_of (issued, s) u) else live_of (issued, s) u)" for u
      using ok new by (auto simp: live_of_def)
    have "r \<notin> live_of (issued, s) u" for u using new by (auto simp: live_of_def)
    moreover have "pending_counts (pending_of u s) (live_of (issued, s) u)" for u
      using wf by (simp add: wf_quota_def)
    ultimately have "pending_counts (pending_of u s') (live_of (issued @ [r], s') u)" for u
      using ok by (cases "u = rq_user input") (simp_all add: live)
    moreover have "inj_on qr_id (set (issued @ [r]))"
      using wf ids ok by (fastforce simp: wf_quota_def inj_on_def)
    moreover have "\<forall>x \<in> set (issued @ [r]). qr_id x < nextQuotaId s'" using ids ok by (auto simp: less_Suc_eq)
    moreover have "\<forall>i \<in> releasedQuota s'. i < nextQuotaId s'" using rel ok by (auto simp: less_Suc_eq)
    ultimately show ?thesis using Pair r by (simp add: wf_quota_def)
  qed
qed

lemma pending_of_release:
  assumes "qr_id r \<notin> releasedQuota s" and "pending_counts (pending_of (qr_user r) s) (insert r L)"
    and "finite L" and "r \<notin> L"
  shows "pending_counts (pending_of (qr_user r) (release_quota r s)) L"
proof (cases "map_get (pendingByUser s) (qr_user r)")
  case None
  then show ?thesis
    using assms pending_counts_idle by (simp add: release_quota_def pending_of_def)
next
  case (Some p)
  note rem = pending_counts_remove [OF _ assms(3,4), of p]
  show ?thesis
    using assms Some rem pending_counts_zero [OF rem]
    by (auto simp: release_quota_def pending_of_def Let_def map_get_set map_get_delete)
qed

lemma release_other:
  "releasedQuota (release_quota r s) = insert (qr_id r) (releasedQuota s)"
  "nextQuotaId (release_quota r s) = nextQuotaId s"
  "u \<noteq> qr_user r \<Longrightarrow> pending_of u (release_quota r s) = pending_of u s"
  by (auto simp: release_quota_def Let_def pending_of_def map_get_set map_get_delete insert_absorb split: option.split)

lemma release_step_quota:
  assumes wf: "wf_quota (issued, s)"
  shows "wf_quota (quota_step (ReleaseQuota i) (issued, s))"
proof (cases "i < length issued \<and> qr_id (issued ! i) \<notin> releasedQuota s")
  case False
  then have "quota_step (ReleaseQuota i) (issued, s) = (issued, s)" by (auto simp: release_quota_def)
  then show ?thesis using wf by simp
next
  case True
  let ?r = "issued ! i"
  have mem: "?r \<in> set issued" using True by simp
  have inj: "x = ?r" if "x \<in> set issued" "qr_id x = qr_id ?r" for x
    using wf that mem by (auto simp: wf_quota_def dest: inj_onD)
  have live: "live_of (issued, release_quota ?r s) u = live_of (issued, s) u - {?r}" for u
    using inj by (auto simp: live_of_def release_other)
  have counts: "pending_counts (pending_of u s) (live_of (issued, s) u)" for u using wf by (simp add: wf_quota_def)
  have "?r \<in> live_of (issued, s) (qr_user ?r)" using True mem by (simp add: live_of_def)
  then have "insert ?r (live_of (issued, s) (qr_user ?r) - {?r}) = live_of (issued, s) (qr_user ?r)" by auto
  then have "pending_counts (pending_of (qr_user ?r) (release_quota ?r s)) (live_of (issued, s) (qr_user ?r) - {?r})"
    using counts [of "qr_user ?r"] True by (intro pending_of_release) simp_all
  moreover have "?r \<notin> live_of (issued, s) u" if "u \<noteq> qr_user ?r" for u using that by (simp add: live_of_def)
  ultimately have "pending_counts (pending_of u (release_quota ?r s)) (live_of (issued, release_quota ?r s) u)" for u
    using counts [of u] by (cases "u = qr_user ?r") (simp_all add: live release_other)
  then show ?thesis using wf True mem by (auto simp: wf_quota_def release_other)
qed

lemma wf_quota_init: "wf_quota ([], no_quota)"
  by (simp add: wf_quota_def live_of_def pending_of_def no_quota_def pending_counts_def no_pending_def)

lemma wf_quota_run: "wf_quota (fold quota_step ops ([], no_quota))"
proof -
  have "wf_quota (quota_step op st)" if "wf_quota st" for op st
    using that reserve_step_quota release_step_quota by (cases op; cases st) auto
  then have "wf_quota st \<Longrightarrow> wf_quota (fold quota_step ops st)" for st
    by (induction ops arbitrary: st) auto
  then show ?thesis by (simp add: wf_quota_init)
qed

section \<open>The limits\<close>

lemma granted_within:
  assumes "reserveRuleCreateQuota input s = (Inr (Some r), s')"
  shows "(rq_maxRules input \<le> 0 \<or> rq_ruleCount input + pq_rules (pending_of (rq_user input) s') \<le> rq_maxRules input) \<and>
    (rq_maxPorts input \<le> 0 \<or> rq_portCount input + pq_ports (pending_of (rq_user input) s') \<le> rq_maxPorts input)"
proof -
  let ?p = "pending_of (rq_user input) s"
  let ?add = "if rq_maxPorts input > 0 \<and> \<not> rq_existingPort input \<and>
      (rq_sourcePort input = 0 \<or> \<not> map_has (portHolders ?p) (rq_sourcePort input)) then 1 else 0 :: int"
  note granted = if_chain [OF assms [unfolded reserveRuleCreateQuota_def Let_def], simplified]
  have s': "pq_rules (pending_of (rq_user input) s') = pq_rules ?p + (if rq_maxRules input > 0 then 1 else 0)"
    "pq_ports (pending_of (rq_user input) s') = pq_ports ?p + ?add"
    using granted by (auto simp: pending_of_def [of _ s'] map_get_set)
  have "\<not> (0 < rq_maxRules input \<and> rq_maxRules input \<le> rq_ruleCount input + pq_rules ?p)"
    "\<not> (0 < rq_maxPorts input \<and> rq_maxPorts input < rq_portCount input + pq_ports ?p + ?add)"
    using if_chain_not [OF assms [unfolded reserveRuleCreateQuota_def Let_def]]
    by (auto simp: max_def split: if_splits)
  then show ?thesis unfolding s' by (auto split: if_splits)
qed

text \<open>
  When a limit is reached: the rule would be one too many, or it needs a port and there is none
  left. It needs one unless the port of the rule exists already, or a live reservation holds the very port
  it asks for.
\<close>

definition rules_full :: "quota_request \<Rightarrow> quota_reservation set \<Rightarrow> bool" where
  "rules_full input L \<longleftrightarrow> 0 < rq_maxRules input \<and> rq_maxRules input < rq_ruleCount input + rules_held L + 1"

definition needs_port :: "quota_request \<Rightarrow> quota_reservation set \<Rightarrow> bool" where
  "needs_port input L \<longleftrightarrow> \<not> rq_existingPort input \<and>
     \<not> (rq_sourcePort input \<noteq> 0 \<and> (\<exists>r \<in> L. qr_holdPort r \<and> qr_portKey r = rq_sourcePort input))"

definition ports_full :: "quota_request \<Rightarrow> quota_reservation set \<Rightarrow> bool" where
  "ports_full input L \<longleftrightarrow> 0 < rq_maxPorts input \<and>
     rq_maxPorts input < rq_portCount input + ports_held L + (if needs_port input L then 1 else 0)"

definition asked_for :: "quota_request \<Rightarrow> quota_reservation \<Rightarrow> bool" where
  "asked_for input r \<longleftrightarrow> qr_user r = rq_user input \<and> (qr_rule r \<longleftrightarrow> 0 < rq_maxRules input) \<and>
     (qr_holdPort r \<longleftrightarrow> 0 < rq_maxPorts input \<and> \<not> rq_existingPort input) \<and> qr_portKey r = rq_sourcePort input"

lemma reserve_decided:
  assumes "pending_counts (pending_of (rq_user input) s) L"
  shows "if rq_maxRules input \<le> 0 \<and> rq_maxPorts input \<le> 0 then fst (reserveRuleCreateQuota input s) = Inr None
    else if rules_full input L then fst (reserveRuleCreateQuota input s) = Inl (RuleLimit (rq_maxRules input))
    else if ports_full input L then fst (reserveRuleCreateQuota input s) = Inl (PortLimit (rq_maxPorts input))
    else \<exists>r s'. reserveRuleCreateQuota input s = (Inr (Some r), s') \<and> asked_for input r \<and> qr_id r = nextQuotaId s"
proof -
  let ?p = "pending_of (rq_user input) s"
  have held: "map_has (portHolders ?p) k \<longleftrightarrow> (\<exists>r \<in> L. qr_holdPort r \<and> qr_portKey r = k)" if "k \<noteq> 0" for k
    using assms that by (auto simp: pending_counts_def keys_held_def map_has_def split: if_splits)
  have needs: "needs_port input L \<longleftrightarrow> \<not> rq_existingPort input \<and>
      (rq_sourcePort input = 0 \<or> \<not> map_has (portHolders ?p) (rq_sourcePort input))"
    using held [of "rq_sourcePort input"] by (auto simp: needs_port_def)
  have counts: "pq_rules ?p = rules_held L" "pq_ports ?p = ports_held L" using assms by (simp_all add: pending_counts_def)
  have rules: "rules_full input L \<longleftrightarrow> 0 < rq_maxRules input \<and> rq_maxRules input \<le> rq_ruleCount input + rules_held L"
    by (auto simp: rules_full_def)
  show ?thesis
    unfolding rules ports_full_def needs asked_for_def reserveRuleCreateQuota_def Let_def counts
    by (auto simp: max_def)
qed

section \<open>Property\<close>

text \<open>
  C27: The rule and port quotas hold under concurrent creation, and nobody is refused without need.
  After any sequence of reservations and releases, the counters kept for a user are the numbers
  of rules and of distinct ports his live reservations hold. A user without limits gets the empty
  reservation. Otherwise a reservation is refused for the rule limit exactly when one more rule would
  exceed it, and else for the port limit exactly when the ports counted and held, and one more if the rule
  needs a new port, exceed it: the port of an existing rule, or one that a live
  reservation already holds, needs none. A granted reservation is for what was asked, and leaves the
  database count plus everything reserved within the limits.
\<close>

theorem rule_quota_respected:
  "let st = fold quota_step ops ([], no_quota); live = live_of st (rq_user input);
       res = fst (reserveRuleCreateQuota input (snd st))
   in pq_rules (pending_of u (snd st)) = rules_held (live_of st u) \<and>
      pq_ports (pending_of u (snd st)) = ports_held (live_of st u) \<and>
      (if rq_maxRules input \<le> 0 \<and> rq_maxPorts input \<le> 0 then res = Inr None
       else if rules_full input live then res = Inl (RuleLimit (rq_maxRules input))
       else if ports_full input live then res = Inl (PortLimit (rq_maxPorts input))
       else \<exists>r. res = Inr (Some r) \<and> asked_for input r \<and> r \<notin> live \<and>
         (rq_maxRules input \<le> 0 \<or> rq_ruleCount input + rules_held (insert r live) \<le> rq_maxRules input) \<and>
         (rq_maxPorts input \<le> 0 \<or> rq_portCount input + ports_held (insert r live) \<le> rq_maxPorts input))"
proof -
  define st where "st = fold quota_step ops ([], no_quota)"
  let ?live = "live_of st (rq_user input)"
  have wf: "wf_quota st" unfolding st_def by (rule wf_quota_run)
  then have counts: "pending_counts (pending_of u (snd st)) (live_of st u)" for u by (simp add: wf_quota_def)
  then have c: "pq_rules (pending_of u (snd st)) = rules_held (live_of st u)"
      "pq_ports (pending_of u (snd st)) = ports_held (live_of st u)" for u
    by (simp_all add: pending_counts_def)
  have within: "r \<notin> ?live \<and> (rq_maxRules input \<le> 0 \<or> rq_ruleCount input + rules_held (insert r ?live) \<le> rq_maxRules input) \<and>
      (rq_maxPorts input \<le> 0 \<or> rq_portCount input + ports_held (insert r ?live) \<le> rq_maxPorts input)"
    if run: "reserveRuleCreateQuota input (snd st) = (Inr (Some r), s')" for r s'
  proof -
    note ok = reserve_ok [OF run]
    have new: "r \<notin> ?live" using wf ok by (auto simp: live_of_def wf_quota_def)
    then have "pending_counts (pending_of (rq_user input) s') (insert r ?live)"
      using ok counts [of "rq_user input"] by simp
    then show ?thesis using granted_within [OF run] new by (simp add: pending_counts_def)
  qed
  show ?thesis
    using reserve_decided [OF counts] within c [of u] unfolding Let_def st_def [symmetric]
    by (fastforce split: if_splits)
qed

text \<open>
  At a limit of one port, a second rule on the port that is already reserved is granted; one on
  another port is refused.
\<close>

theorem rule_quota_respected_witness:
  "let ask = (\<lambda>port. \<lparr>rq_user = 1, rq_maxRules = 0, rq_maxPorts = 1, rq_sourcePort = port, rq_existingPort = False,
         rq_ruleCount = 0, rq_portCount = 0\<rparr>);
       s = snd (fold quota_step [ReserveQuota (ask 5000)] ([], no_quota))
   in (\<exists>r. fst (reserveRuleCreateQuota (ask 5000) s) = Inr (Some r)) \<and>
      fst (reserveRuleCreateQuota (ask 6000) s) = Inl (PortLimit 1)"
proof -
  define ask where "ask = (\<lambda>port. \<lparr>rq_user = 1, rq_maxRules = 0, rq_maxPorts = 1, rq_sourcePort = port,
      rq_existingPort = False, rq_ruleCount = 0, rq_portCount = 0\<rparr>)"
  define st where "st = fold quota_step [ReserveQuota (ask 5000)] ([], no_quota)"
  have st: "st = ([\<lparr>qr_id = 0, qr_user = 1, qr_rule = False, qr_holdPort = True, qr_portKey = 5000\<rparr>],
      \<lparr>pendingByUser = [(1, \<lparr>pq_rules = 0, pq_ports = 1, portHolders = [(5000, 1)]\<rparr>)], releasedQuota = {}, nextQuotaId = 1\<rparr>)"
    by (simp add: st_def ask_def reserveRuleCreateQuota_def pending_of_def no_quota_def no_pending_def map_has_def)
  then have live: "live_of st 1 = {\<lparr>qr_id = 0, qr_user = 1, qr_rule = False, qr_holdPort = True, qr_portKey = 5000\<rparr>}"
    by (auto simp: live_of_def)
  have "{r \<in> live_of st 1. qr_holdPort r \<and> qr_portKey r = 0} = {}" "{r \<in> live_of st 1. qr_holdPort r} = live_of st 1"
    by (auto simp: live)
  then have "ports_held (live_of st 1) = 1"
    by (simp add: ports_held_def holders_of_def keys_held_def) (simp add: live)
  then have "\<not> ports_full (ask 5000) (live_of st 1)" "ports_full (ask 6000) (live_of st 1)"
    "\<not> rules_full (ask p) (live_of st 1)" for p
    by (auto simp: ports_full_def needs_port_def rules_full_def live ask_def)
  then show ?thesis
    using rule_quota_respected [of "[ReserveQuota (ask 5000)]" "ask 5000" 1]
      rule_quota_respected [of "[ReserveQuota (ask 5000)]" "ask 6000" 1]
    unfolding Let_def st_def [symmetric] ask_def [symmetric]
    by (auto simp: ask_def)
qed

end
