(* ===== verification/Task_Lock.thy ===== *)
theory Task_Lock
  imports Prelude
begin

text \<open>
  \<open>server/keyedTaskLock.ts\<close>: tasks with the same key run one after the other, in the order in
  which they asked. Each call of \<open>withKeyedTaskLock\<close> is an object with a number; its \<open>gate\<close> is
  open once it has released. \<open>acquire\<close> is the call up to its \<open>await\<close>, \<open>start\<close> the continuation
  when the gate it waits for is open, \<open>finish\<close> the \<open>finally\<close> block after the task has returned
  or thrown.
\<close>

section \<open>State\<close>

datatype lock_phase = Waiting | Running | Released

record lock_call =
  lc_key :: string
  lc_previous :: "nat option"
  lc_depth :: nat
  lc_phase :: lock_phase

record task_lock =
  calls :: "(nat, lock_call) jsmap"
  pendingTasks :: "(string, nat) jsmap"
  nextCall :: nat

definition no_locks :: task_lock where
  "no_locks = \<lparr>calls = [], pendingTasks = [], nextCall = 0\<rparr>"

definition set_phase :: "nat \<Rightarrow> lock_phase \<Rightarrow> task_lock \<Rightarrow> task_lock" where
  "set_phase n ph s =
     (case map_get (calls s) n of
        None \<Rightarrow> s | Some c \<Rightarrow> s\<lparr>calls := map_set n (c\<lparr>lc_phase := ph\<rparr>) (calls s)\<rparr>)"

section \<open>Operations\<close>

text \<open>\<open>Math.floor\<close> of the id in the key of a billing lock.\<close>

definition trafficBillingUserLockKey :: "jsval \<Rightarrow> string" where
  "trafficBillingUserLockKey userId =
     ''traffic-billing-user:'' @
     int_str (case js_finite (to_number (if js_truthy userId then userId else JNum (Fin 0))) of
        None \<Rightarrow> 0 | Some q \<Rightarrow> if q > 0 then \<lfloor>q\<rfloor> else 0)"

text \<open>\<open>None\<close> when the key is blank and the task runs without a lock.\<close>

definition acquire :: "string \<Rightarrow> task_lock \<Rightarrow> nat option \<times> task_lock" where
  "acquire keyValue s =
     (let key = js_trim keyValue in
      if key = '''' then (None, s)
      else
        let previous = map_get (pendingTasks s) key;
            depth = (case previous of None \<Rightarrow> 0
               | Some p \<Rightarrow> (case map_get (calls s) p of None \<Rightarrow> 0 | Some c \<Rightarrow> lc_depth c)) + 1;
            n = nextCall s
        in (Some n,
            s\<lparr>calls := calls s @ [(n, \<lparr>lc_key = key, lc_previous = previous, lc_depth = depth,
                 lc_phase = (if previous = None then Running else Waiting)\<rparr>)],
              pendingTasks := map_set key n (pendingTasks s), nextCall := Suc n\<rparr>))"

definition gate_open :: "task_lock \<Rightarrow> nat \<Rightarrow> bool" where
  "gate_open s n = (case map_get (calls s) n of None \<Rightarrow> False | Some c \<Rightarrow> lc_phase c = Released)"

definition can_start :: "task_lock \<Rightarrow> nat \<Rightarrow> bool" where
  "can_start s n =
     (case map_get (calls s) n of
        None \<Rightarrow> False
      | Some c \<Rightarrow> lc_phase c = Waiting \<and> (case lc_previous c of None \<Rightarrow> True | Some p \<Rightarrow> gate_open s p))"

definition start :: "nat \<Rightarrow> task_lock \<Rightarrow> task_lock" where
  "start n s = (if can_start s n then set_phase n Running s else s)"

definition finish :: "nat \<Rightarrow> task_lock \<Rightarrow> task_lock" where
  "finish n s =
     (case map_get (calls s) n of
        None \<Rightarrow> s
      | Some c \<Rightarrow>
          if lc_phase c \<noteq> Running then s
          else
            let s1 = set_phase n Released s
            in if map_get (pendingTasks s1) (lc_key c) = Some n
               then s1\<lparr>pendingTasks := map_delete (lc_key c) (pendingTasks s1)\<rparr> else s1)"

definition keyedTaskDepth :: "string \<Rightarrow> task_lock \<Rightarrow> nat" where
  "keyedTaskDepth keyValue s =
     (case map_get (pendingTasks s) (js_trim keyValue) of
        None \<Rightarrow> 0 | Some n \<Rightarrow> (case map_get (calls s) n of None \<Rightarrow> 0 | Some c \<Rightarrow> lc_depth c))"

text \<open>
  \<open>withResourceTaskLock\<close> and \<open>withTrafficBillingUserLock\<close> enter a lock that the calling scope
  holds already without asking for it again. A scope carries the tokens of the locks it was
  entered with; a token is active until its task has ended.
\<close>

type_synonym lock_scope = "(string, nat) jsmap"

datatype lock_entry = Reuse | Queue

definition enter_scope :: "lock_scope \<Rightarrow> nat set \<Rightarrow> string \<Rightarrow> lock_entry" where
  "enter_scope inherited activeTokens key =
     (case map_get inherited key of Some token \<Rightarrow> if token \<in> activeTokens then Reuse else Queue | None \<Rightarrow> Queue)"

definition inner_scope :: "lock_scope \<Rightarrow> string \<Rightarrow> nat \<Rightarrow> lock_scope" where
  "inner_scope inherited key token = map_set key token inherited"

section \<open>What it promises\<close>

text \<open>
  The abstract lock is a queue of calls for each key: asking joins the end, only the first may
  run, and finishing leaves the queue.
\<close>

definition queue_of :: "task_lock \<Rightarrow> string \<Rightarrow> nat list" where
  "queue_of s key = map fst (filter (\<lambda>(_, c). lc_key c = key \<and> lc_phase c \<noteq> Released) (calls s))"

text \<open>Each call of the queue waits for the call before it, the first for none that is left.\<close>

fun chained :: "task_lock \<Rightarrow> nat option \<Rightarrow> nat list \<Rightarrow> bool" where
  "chained s before [] = True"
| "chained s before (n # ns) =
     ((case map_get (calls s) n of
         None \<Rightarrow> False
       | Some c \<Rightarrow> (case before of
            None \<Rightarrow> (lc_phase c = Running \<or> can_start s n)
          | Some p \<Rightarrow> lc_phase c = Waiting \<and> lc_previous c = Some p)) \<and>
      chained s (Some n) ns)"

definition wf_lock :: "task_lock \<Rightarrow> bool" where
  "wf_lock s \<longleftrightarrow> wf_map (calls s) \<and> (\<forall>n. map_has (calls s) n \<longrightarrow> n < nextCall s) \<and>
     (\<forall>key. chained s None (queue_of s key) \<and>
        map_get (pendingTasks s) key = (if queue_of s key = [] then None else Some (last (queue_of s key))))"

datatype lock_op = Acquire string | Start nat | Finish nat

fun lock_step :: "lock_op \<Rightarrow> task_lock \<Rightarrow> task_lock" where
  "lock_step (Acquire key) s = snd (acquire key s)"
| "lock_step (Start n) s = start n s"
| "lock_step (Finish n) s = finish n s"

definition is_running :: "task_lock \<Rightarrow> nat \<Rightarrow> bool" where
  "is_running s n = (case map_get (calls s) n of None \<Rightarrow> False | Some c \<Rightarrow> lc_phase c = Running)"

lemma wf_no_locks: "wf_lock no_locks"
  by (simp add: wf_lock_def no_locks_def queue_of_def)

lemma in_queue:
  assumes "wf_map (calls s)"
  shows "n \<in> set (queue_of s key) \<longleftrightarrow>
    (\<exists>c. map_get (calls s) n = Some c \<and> lc_key c = key \<and> lc_phase c \<noteq> Released)"
  using map_get_in [OF assms] by (force simp: queue_of_def)

lemma distinct_queue: "wf_map (calls s) \<Longrightarrow> distinct (queue_of s key)"
  unfolding queue_of_def wf_map_def by (rule distinct_map_filter)

text \<open>\<open>chained\<close> only looks at the calls of the queue and at the gates they wait for.\<close>

lemma chained_cong:
  assumes "\<And>n. n \<in> set ns \<Longrightarrow> map_get (calls s') n = map_get (calls s) n"
    and "\<And>n. n \<in> set ns \<Longrightarrow> can_start s n \<Longrightarrow> can_start s' n"
  shows "chained s before ns \<Longrightarrow> chained s' before ns"
  using assms by (induction s before ns rule: chained.induct) (auto split: option.splits)

lemma queue_snoc:
  "queue_of (s\<lparr>calls := calls s @ [(n, c)], pendingTasks := p, nextCall := k\<rparr>) key =
     queue_of s key @ (if lc_key c = key \<and> lc_phase c \<noteq> Released then [n] else [])"
  by (simp add: queue_of_def)

lemma chained_snoc:
  "ns \<noteq> [] \<Longrightarrow> chained s before (ns @ [n]) \<longleftrightarrow> chained s before ns \<and>
     (case map_get (calls s) n of None \<Rightarrow> False
      | Some c \<Rightarrow> lc_phase c = Waiting \<and> lc_previous c = Some (last ns))"
proof (induction ns arbitrary: before)
  case (Cons a ns)
  show ?case
  proof (cases "ns = []")
    case False
    then show ?thesis using Cons.IH [OF False, of "Some a"] by (auto split: option.splits)
  next
    case True
    then show ?thesis by (auto split: option.splits)
  qed
qed simp

section \<open>The operations keep the queues\<close>

lemma keys_filter_set_same:
  "map_get m n = Some c \<Longrightarrow> P c \<longleftrightarrow> P c' \<Longrightarrow>
     map fst (filter (\<lambda>(_, v). P v) (map_set n c' m)) = map fst (filter (\<lambda>(_, v). P v) m)"
  by (induction m) (auto split: if_splits)

lemma keys_filter_set_drop:
  "wf_map m \<Longrightarrow> map_get m n = Some c \<Longrightarrow> \<not> P c' \<Longrightarrow>
     map fst (filter (\<lambda>(_, v). P v) (map_set n c' m)) = filter (\<lambda>k. k \<noteq> n) (map fst (filter (\<lambda>(_, v). P v) m))"
proof (induction m)
  case (Cons kv m)
  have "filter (\<lambda>k. k \<noteq> n) (map fst (filter (\<lambda>(_, v). P v) m)) = map fst (filter (\<lambda>(_, v). P v) m)"
    if "fst kv = n"
    using Cons.prems(1) that by (force simp: wf_map_def filter_id_conv image_iff)
  then show ?case using Cons by (auto simp: wf_map_def split: if_splits)
qed simp

lemma set_phase_calls:
  "map_get (calls s) n = Some c \<Longrightarrow> calls (set_phase n ph s) = map_set n (c\<lparr>lc_phase := ph\<rparr>) (calls s)"
  by (simp add: set_phase_def)

lemma set_phase_other [simp]:
  "pendingTasks (set_phase n ph s) = pendingTasks s" "nextCall (set_phase n ph s) = nextCall s"
  by (simp_all add: set_phase_def split: option.split)

lemma set_phase_wf: "wf_map (calls s) \<Longrightarrow> wf_map (calls (set_phase n ph s))"
  by (simp add: set_phase_def split: option.split)

lemma set_phase_has [simp]: "map_has (calls (set_phase n ph s)) k \<longleftrightarrow> map_has (calls s) k"
  by (auto simp: set_phase_def map_has_def map_get_set split: option.split)

lemma wf_lockD:
  assumes "wf_lock s"
  shows "wf_map (calls s)" and "map_has (calls s) n \<Longrightarrow> n < nextCall s"
    and "chained s None (queue_of s key)"
    and "map_get (pendingTasks s) key = (if queue_of s key = [] then None else Some (last (queue_of s key)))"
  using assms by (auto simp: wf_lock_def)

text \<open>A call that is not the first of its queue waits for a call that is still in it.\<close>

lemma chained_waiting:
  "chained s (Some p) ns \<Longrightarrow> n \<in> set ns \<Longrightarrow>
     \<exists>c p'. map_get (calls s) n = Some c \<and> lc_phase c = Waiting \<and> lc_previous c = Some p' \<and> p' \<in> set (p # ns)"
proof (induction ns arbitrary: p)
  case (Cons m ns)
  show ?case
  proof (cases "n = m")
    case True
    then show ?thesis using Cons.prems by (auto split: option.splits)
  next
    case False
    then show ?thesis using Cons.IH [of m] Cons.prems by auto
  qed
qed simp

lemma first_of_queue:
  assumes wf: "wf_lock s" and c: "map_get (calls s) n = Some c" "lc_phase c = Running \<or> can_start s n"
  shows "\<exists>ns. queue_of s (lc_key c) = n # ns \<and> n \<notin> set ns"
proof -
  note w = wf_lockD(1) [OF wf]
  have "lc_phase c \<noteq> Released" using c by (auto simp: can_start_def)
  then have n: "n \<in> set (queue_of s (lc_key c))" using in_queue [OF w] c(1) by auto
  then obtain m ns where q: "queue_of s (lc_key c) = m # ns" by (cases "queue_of s (lc_key c)") auto
  have ch: "chained s (Some m) ns" using wf_lockD(3) [OF wf, of "lc_key c"] by (simp add: q)
  have "n \<notin> set ns"
  proof
    assume "n \<in> set ns"
    then obtain p' where p': "lc_phase c = Waiting" "lc_previous c = Some p'" "p' \<in> set (queue_of s (lc_key c))"
      using chained_waiting [OF ch, of n] c(1) q by auto
    then have "\<not> gate_open s p'" using in_queue [OF w] by (auto simp: gate_open_def)
    then show False using p' c by (auto simp: can_start_def)
  qed
  with n q show ?thesis by auto
qed

lemma acquire_wf:
  assumes wf: "wf_lock s" shows "wf_lock (snd (acquire kv s))"
proof (cases "js_trim kv = ''''")
  case True
  then show ?thesis using wf by (simp add: acquire_def)
next
  case False
  define key where "key = js_trim kv"
  define c where "c = \<lparr>lc_key = key, lc_previous = map_get (pendingTasks s) key,
    lc_depth = (case map_get (pendingTasks s) key of None \<Rightarrow> 0
      | Some p \<Rightarrow> (case map_get (calls s) p of None \<Rightarrow> 0 | Some c \<Rightarrow> lc_depth c)) + 1,
    lc_phase = (if map_get (pendingTasks s) key = None then Running else Waiting)\<rparr>"
  define s' where "s' = s\<lparr>calls := calls s @ [(nextCall s, c)], pendingTasks := map_set key (nextCall s) (pendingTasks s),
    nextCall := Suc (nextCall s)\<rparr>"
  have run: "snd (acquire kv s) = s'"
    using False by (simp add: acquire_def Let_def s'_def c_def key_def)
  have fresh: "\<not> map_has (calls s) (nextCall s)" using wf_lockD(2) [OF wf] by blast
  have get: "map_get (calls s') n = (if n = nextCall s then Some c else map_get (calls s) n)" for n
    using fresh by (auto simp: s'_def map_has_def map_add_def split: option.splits)
  have q: "queue_of s' k = queue_of s k @ (if k = key then [nextCall s] else [])" for k
    unfolding s'_def by (subst queue_snoc) (auto simp: c_def)
  have cs: "can_start s' n" if "can_start s n" for n
    using that fresh by (auto simp: can_start_def gate_open_def get map_has_def split: option.splits)
  have old: "chained s' b ns" if "chained s b ns" "\<forall>n \<in> set ns. map_has (calls s) n" for b ns
    by (rule chained_cong [OF _ _ that(1)]) (use that(2) fresh cs in \<open>auto simp: get\<close>)
  have has: "\<forall>n \<in> set (queue_of s k). map_has (calls s) n" for k
    using in_queue [OF wf_lockD(1) [OF wf]] by (auto simp: map_has_def)
  note keep = old [OF wf_lockD(3) [OF wf] has]
  have "chained s' None (queue_of s' k)" for k
  proof (cases "k = key")
    case True
    show ?thesis
    proof (cases "queue_of s key = []")
      case True
      then show ?thesis using \<open>k = key\<close> wf_lockD(4) [OF wf, of key] by (simp add: q get c_def)
    next
      case False
      then show ?thesis
        using \<open>k = key\<close> keep [of key] wf_lockD(4) [OF wf, of key] by (simp add: q chained_snoc get c_def)
    qed
  next
    case False
    then show ?thesis using keep by (simp add: q)
  qed
  moreover have "map_get (pendingTasks s') k = (if k = key then Some (nextCall s) else map_get (pendingTasks s) k)" for k
    by (simp add: s'_def map_get_set)
  then have "map_get (pendingTasks s') k = (if queue_of s' k = [] then None else Some (last (queue_of s' k)))" for k
    using wf_lockD(4) [OF wf, of k] by (simp add: q)
  moreover have "wf_map (calls s')"
    using wf_lockD(1) [OF wf] fresh by (auto simp: s'_def wf_map_def map_has_keys)
  moreover have "n < nextCall s'" if "map_has (calls s') n" for n
  proof -
    have "n = nextCall s \<or> map_has (calls s) n" using that by (simp add: map_has_def get split: if_splits)
    then show ?thesis using wf_lockD(2) [OF wf, of n] by (auto simp: s'_def)
  qed
  ultimately show ?thesis unfolding run by (simp add: wf_lock_def)
qed

text \<open>A call that changes its phase: the queues of other keys are as they were.\<close>

lemma phase_other_key:
  assumes wf: "wf_lock s" and c: "map_get (calls s) n = Some c"
    and cs: "\<And>k. can_start s k \<Longrightarrow> k \<noteq> n \<Longrightarrow> can_start (set_phase n ph s) k"
    and ns: "n \<notin> set ns" and ch: "chained s b ns"
  shows "chained (set_phase n ph s) b ns"
  by (rule chained_cong [OF _ _ ch]) (use ns cs in \<open>auto simp: set_phase_calls [OF c] map_get_set\<close>)

lemma not_in_other_queue:
  "wf_lock s \<Longrightarrow> map_get (calls s) n = Some c \<Longrightarrow> key \<noteq> lc_key c \<Longrightarrow> n \<notin> set (queue_of s key)"
  using in_queue [OF wf_lockD(1)] by auto

lemma start_wf:
  assumes wf: "wf_lock s" shows "wf_lock (start n s)"
proof (cases "can_start s n")
  case False
  then show ?thesis using wf by (simp add: start_def)
next
  case True
  then obtain c where c: "map_get (calls s) n = Some c" "lc_phase c = Waiting"
    by (auto simp: can_start_def split: option.splits)
  obtain ns where ns: "queue_of s (lc_key c) = n # ns" "n \<notin> set ns"
    using first_of_queue [OF wf c(1)] True by blast
  let ?s = "set_phase n Running s"
  have get: "map_get (calls ?s) k = (if k = n then Some (c\<lparr>lc_phase := Running\<rparr>) else map_get (calls s) k)" for k
    by (simp add: set_phase_calls [OF c(1)] map_get_set)
  have q: "queue_of ?s key = queue_of s key" for key
    unfolding queue_of_def set_phase_calls [OF c(1)]
    by (rule keys_filter_set_same [OF c(1)]) (simp add: c)
  have cs: "can_start ?s k" if "can_start s k" "k \<noteq> n" for k
    using that c by (auto simp: can_start_def gate_open_def get split: option.splits if_splits)
  have "chained ?s None (queue_of ?s key)" for key
  proof (cases "key = lc_key c")
    case True
    have "chained ?s (Some n) ns"
      by (rule phase_other_key [OF wf c(1) cs ns(2)]) (use wf_lockD(3) [OF wf, of "lc_key c"] ns in simp_all)
    then show ?thesis by (simp add: q True ns get)
  next
    case False
    show ?thesis
      unfolding q by (rule phase_other_key [OF wf c(1) cs not_in_other_queue [OF wf c(1) False] wf_lockD(3) [OF wf]])
  qed
  then show ?thesis
    using True wf_lockD(1,2,4) [OF wf] by (simp add: start_def wf_lock_def q set_phase_wf)
qed

lemma finish_wf:
  assumes wf: "wf_lock s" shows "wf_lock (finish n s)"
proof (cases "is_running s n")
  case False
  then show ?thesis using wf by (simp add: finish_def is_running_def split: option.splits)
next
  case True
  then obtain c where c: "map_get (calls s) n = Some c" "lc_phase c = Running"
    by (auto simp: is_running_def split: option.splits)
  obtain ns where ns: "queue_of s (lc_key c) = n # ns" "n \<notin> set ns"
    using first_of_queue [OF wf c(1)] c by blast
  let ?s = "set_phase n Released s"
  have get: "map_get (calls ?s) k = (if k = n then Some (c\<lparr>lc_phase := Released\<rparr>) else map_get (calls s) k)" for k
    by (simp add: set_phase_calls [OF c(1)] map_get_set)
  have "queue_of ?s key = filter (\<lambda>k. k \<noteq> n) (queue_of s key)" for key
    unfolding queue_of_def set_phase_calls [OF c(1)]
    by (rule keys_filter_set_drop [OF wf_lockD(1) [OF wf] c(1)]) simp
  then have q: "queue_of ?s key = (if key = lc_key c then ns else queue_of s key)" for key
    using not_in_other_queue [OF wf c(1), of key] ns by (auto simp: filter_id_conv)
  have cs: "can_start ?s k" if "can_start s k" "k \<noteq> n" for k
    using that by (auto simp: can_start_def gate_open_def get split: option.splits if_splits)
  have rest: "chained s (Some n) ns" using wf_lockD(3) [OF wf, of "lc_key c"] ns by simp
  have "chained ?s None (queue_of ?s key)" for key
  proof (cases "key = lc_key c")
    case True
    show ?thesis
    proof (cases ns)
      case (Cons m ms)
      have "chained ?s (Some n) ns" by (rule phase_other_key [OF wf c(1) cs ns(2) rest])
      then have "chained ?s (Some m) ms" and "\<exists>d. map_get (calls ?s) m = Some d \<and> lc_phase d = Waiting \<and> lc_previous d = Some n"
        by (auto simp: Cons split: option.splits)
      moreover have "gate_open ?s n" by (simp add: gate_open_def get)
      ultimately show ?thesis by (auto simp: q True Cons can_start_def)
    qed (simp add: q True)
  next
    case False
    then have "queue_of ?s key = queue_of s key" by (simp add: q)
    then show ?thesis
      using phase_other_key [OF wf c(1) cs not_in_other_queue [OF wf c(1) False] wf_lockD(3) [OF wf]] by simp
  qed
  moreover have "map_get (pendingTasks (finish n s)) key = (if queue_of ?s key = [] then None else Some (last (queue_of ?s key)))" for key
    using wf_lockD(4) [OF wf, of key] wf_lockD(4) [OF wf, of "lc_key c"] c ns
    by (cases "ns = []") (auto simp: finish_def q map_get_delete Let_def)
  moreover have "calls (finish n s) = calls ?s" "nextCall (finish n s) = nextCall s"
    using c by (simp_all add: finish_def Let_def)
  moreover have "queue_of (finish n s) key = queue_of ?s key" for key
    using \<open>calls (finish n s) = calls ?s\<close> by (simp add: queue_of_def)
  moreover have "gate_open (finish n s) = gate_open ?s"
    using \<open>calls (finish n s) = calls ?s\<close> by (simp add: gate_open_def fun_eq_iff)
  then have "can_start (finish n s) k = can_start ?s k" for k
    using \<open>calls (finish n s) = calls ?s\<close> by (simp add: can_start_def split: option.split)
  then have "chained (finish n s) b xs = chained ?s b xs" for b xs
    using \<open>calls (finish n s) = calls ?s\<close> by (induction xs arbitrary: b) (simp_all split: option.split)
  ultimately show ?thesis
    using wf_lockD(1,2) [OF wf] by (simp add: wf_lock_def set_phase_wf)
qed

lemma wf_lock_run: "wf_lock (fold lock_step ops no_locks)"
proof -
  have "wf_lock (lock_step op s)" if "wf_lock s" for op s
    using that acquire_wf start_wf finish_wf by (cases op) auto
  then have "wf_lock s \<Longrightarrow> wf_lock (fold lock_step ops s)" for s
    by (induction ops arbitrary: s) auto
  then show ?thesis by (simp add: wf_no_locks)
qed

section \<open>Exclusion, order, progress\<close>

lemma running_head:
  assumes wf: "wf_lock s" and r: "is_running s n" and c: "map_get (calls s) n = Some c"
  shows "queue_of s (lc_key c) \<noteq> [] \<and> hd (queue_of s (lc_key c)) = n"
  using first_of_queue [OF wf c] r c by (auto simp: is_running_def)

lemma only_one_running:
  assumes wf: "wf_lock s" and "is_running s m" "is_running s n"
    and "map_option lc_key (map_get (calls s) m) = map_option lc_key (map_get (calls s) n)"
  shows "m = n"
proof -
  obtain c d where c: "map_get (calls s) m = Some c" "map_get (calls s) n = Some d" "lc_key c = lc_key d"
    using assms(2-4) by (auto simp: is_running_def split: option.splits)
  show ?thesis using running_head [OF wf assms(2) c(1)] running_head [OF wf assms(3) c(2)] c(3) by simp
qed

lemma head_proceeds:
  assumes wf: "wf_lock s" and q: "queue_of s key = n # ns"
  shows "is_running s n \<or> can_start s n"
  using wf_lockD(3) [OF wf, of key] by (auto simp: q is_running_def split: option.splits)

lemma acquire_queue:
  "queue_of (snd (acquire kv s)) key =
     queue_of s key @ (if js_trim kv = key \<and> key \<noteq> '''' then [nextCall s] else [])"
  by (auto simp: acquire_def Let_def queue_of_def)

lemma start_queue:
  assumes wf: "wf_lock s" shows "queue_of (start n s) key = queue_of s key"
proof (cases "can_start s n")
  case True
  then obtain c where c: "map_get (calls s) n = Some c" "lc_phase c = Waiting"
    by (auto simp: can_start_def split: option.splits)
  show ?thesis
    using True unfolding start_def queue_of_def
    by (simp add: set_phase_calls [OF c(1)] keys_filter_set_same [OF c(1)] c)
qed (simp add: start_def)

lemma finish_queue:
  assumes wf: "wf_lock s"
  shows "queue_of (finish n s) key = (if is_running s n then filter (\<lambda>k. k \<noteq> n) (queue_of s key) else queue_of s key)"
proof (cases "is_running s n")
  case True
  then obtain c where c: "map_get (calls s) n = Some c" "lc_phase c = Running"
    by (auto simp: is_running_def split: option.splits)
  have "calls (finish n s) = calls (set_phase n Released s)" using c by (simp add: finish_def Let_def)
  then have "queue_of (finish n s) key = queue_of (set_phase n Released s) key" by (simp add: queue_of_def)
  also have "\<dots> = filter (\<lambda>k. k \<noteq> n) (queue_of s key)"
    unfolding queue_of_def set_phase_calls [OF c(1)]
    by (rule keys_filter_set_drop [OF wf_lockD(1) [OF wf] c(1)]) simp
  finally show ?thesis using True by simp
qed (simp add: finish_def is_running_def split: option.splits)

section \<open>Property\<close>

text \<open>
  C32: The keyed lock is a fair mutual exclusion. In every reachable state at most one task of a
  key runs, and it is the oldest that has not finished; a task that asks joins the end of the
  queue of its (trimmed) key; a task leaves its queue only by finishing, after it ran; and the
  first of a queue is running or may start, so no queue is ever stuck.
\<close>

theorem keyed_lock_fair_exclusion:
  "let s = fold lock_step ops no_locks in
     inj_on (\<lambda>n. map_option lc_key (map_get (calls s) n)) {n. is_running s n} \<and>
     (if is_running s n
      then (case map_get (calls s) n of None \<Rightarrow> False | Some c \<Rightarrow> hd (queue_of s (lc_key c)) = n) else True) \<and>
     queue_of (snd (acquire kv s)) key =
       queue_of s key @ (if js_trim kv = key \<and> key \<noteq> '''' then [nextCall s] else []) \<and>
     queue_of (start n s) key = queue_of s key \<and>
     queue_of (finish n s) key = (if is_running s n then filter (\<lambda>k. k \<noteq> n) (queue_of s key) else queue_of s key) \<and>
     (case queue_of s key of [] \<Rightarrow> True | m # ms \<Rightarrow> is_running s m \<or> can_start s m)"
  unfolding Let_def
proof (intro conjI)
  let ?s = "fold lock_step ops no_locks"
  have wf: "wf_lock ?s" by (rule wf_lock_run)
  show "inj_on (\<lambda>n. map_option lc_key (map_get (calls ?s) n)) {n. is_running ?s n}"
    using only_one_running [OF wf] by (auto simp: inj_on_def)
  show "if is_running ?s n
      then (case map_get (calls ?s) n of None \<Rightarrow> False | Some c \<Rightarrow> hd (queue_of ?s (lc_key c)) = n) else True"
    using running_head [OF wf, of n] by (auto simp: is_running_def split: option.splits)
  show "queue_of (start n ?s) key = queue_of ?s key" by (rule start_queue [OF wf])
  show "queue_of (finish n ?s) key = (if is_running ?s n then filter (\<lambda>k. k \<noteq> n) (queue_of ?s key) else queue_of ?s key)"
    by (rule finish_queue [OF wf])
  show "case queue_of ?s key of [] \<Rightarrow> True | m # ms \<Rightarrow> is_running ?s m \<or> can_start ?s m"
    using head_proceeds [OF wf] by (auto split: list.splits)
qed (rule acquire_queue)

end
