(* ===== verification/Port_Occupancy.thy ===== *)
theory Port_Occupancy
  imports Bounded_Cache Forward_Types
begin

text \<open>
  \<open>server/portOccupancy.ts\<close>: the listening ports an agent reports for its host, when a report is
  believed, for how long, and what it says about a port somebody wants to use.
  A report arrives as JSON: its fields are values of the prelude; the length of its text in
  bytes and the presence of the two legacy keys are fields of their own.
\<close>

section \<open>Data\<close>

record port_listener =
  pl_port :: int
  pl_protocol :: forward_protocol
  pl_address :: string
  pl_process :: "string option"
  pl_managedRuntime :: "string option"
  pl_managedRuntimeId :: "string option"

type_synonym covered_port = "int \<times> forward_protocol"

record occupancy_snapshot =
  listeners :: "port_listener list"
  covered :: "covered_port list"
  collectedAt :: rat
  verifiedAt :: rat

record occupancy_entry =
  oe_signature :: string
  oe_snapshot :: occupancy_snapshot
  oe_failed :: bool

record rejected_entry =
  rj_signature :: string
  rj_at :: rat
  rj_requestedAt :: rat

record occupancy =
  snapshots :: "(int, occupancy_entry) jsmap"
  rejected :: "(int, rejected_entry) jsmap"

record raw_item =
  ri_port :: jsval
  ri_protocol :: jsval
  ri_address :: jsval
  ri_process :: jsval
  ri_managedRuntime :: jsval
  ri_managedRuntimeId :: jsval

record raw_snapshot =
  rs_listeners :: "raw_item list option"
  rs_covered :: "raw_item list option"
  rs_collectedAt :: jsval
  rs_bytes :: int
  rs_legacyKeys :: bool

datatype snapshot_field = NoSnapshot | FalsySnapshot | RawSnapshot raw_snapshot

record occupancy_input =
  in_signature :: jsval
  in_collected :: jsval
  in_snapshot :: snapshot_field
  in_schemaVersion :: jsval

definition MAX_HOSTS :: int where "MAX_HOSTS = 10000"
definition MAX_LISTENERS :: int where "MAX_LISTENERS = 256"
definition MAX_PORT_OCCUPANCY_RECEIVE_BYTES :: int where "MAX_PORT_OCCUPANCY_RECEIVE_BYTES = 20 * 1024"
definition FRESH_MS :: rat where "FRESH_MS = 10 * 60 * 1000"
definition FUTURE_SKEW_MS :: rat where "FUTURE_SKEW_MS = 60 * 1000"
definition REJECT_COOLDOWN_MS :: rat where "REJECT_COOLDOWN_MS = 5 * 60 * 1000"

section \<open>Checking a report\<close>

text \<open>\<open>/^[a-f0-9]{1,128}$/i\<close> and \<open>/^[a-z0-9:-]{1,128}$/\<close>.\<close>

definition hex_char :: "char \<Rightarrow> bool" where
  "hex_char c = (is_digit c \<or> js_lower_char c \<in> set ''abcdef'')"

definition valid_signature :: "string \<Rightarrow> bool" where
  "valid_signature s \<longleftrightarrow> 1 \<le> length s \<and> length s \<le> 128 \<and> list_all hex_char s"

definition runtime_id_char :: "char \<Rightarrow> bool" where
  "runtime_id_char c \<longleftrightarrow> is_digit c \<or> (97 \<le> char_code c \<and> char_code c \<le> 122) \<or> c \<in> set '':-''"

definition valid_runtime_id :: "jsval \<Rightarrow> bool" where
  "valid_runtime_id v =
     (case v of JStr s \<Rightarrow> 1 \<le> length s \<and> length s \<le> 128 \<and> list_all runtime_id_char s | _ \<Rightarrow> False)"

definition managed_runtimes :: "jsval list" where
  "managed_runtimes = map JStr [''forwardx-runtime'', ''forwardx-tunnel-runtime'', ''forwardx-nginx'',
     ''forwardx-fxp'', ''forwardx-realm'', ''forwardx-socat'']"

definition item_protocol :: "jsval \<Rightarrow> forward_protocol option" where
  "item_protocol v = (if v = JStr ''tcp'' then Some TCP else if v = JStr ''udp'' then Some UDP else None)"

text \<open>A covered port must be a number of the right range; \<open>Number.isInteger\<close> converts nothing.\<close>

definition strict_port :: "jsval \<Rightarrow> int option" where
  "strict_port v = (case v of
     JNum n \<Rightarrow> (case js_integer n of Some p \<Rightarrow> if p < 1 \<or> p > 65535 then None else Some p | None \<Rightarrow> None)
   | _ \<Rightarrow> None)"

fun read_covered :: "covered_port list \<Rightarrow> raw_item list \<Rightarrow> covered_port list option" where
  "read_covered acc [] = Some acc"
| "read_covered acc (item # items) =
     (case (strict_port (ri_port item), item_protocol (ri_protocol item)) of
        (Some port, Some protocol) \<Rightarrow>
          if (port, protocol) \<in> set acc then None
          else read_covered (acc @ [(port, protocol)]) items
      | _ \<Rightarrow> None)"

definition truthy_text :: "jsval \<Rightarrow> string option" where
  "truthy_text v = (if js_truthy v then Some (js_string v) else None)"

definition read_listener :: "covered_port list \<Rightarrow> raw_item \<Rightarrow> port_listener option" where
  "read_listener coveredPorts item =
     (let address = js_trim (js_text (ri_address item)) in
      case (js_integer (to_number (ri_port item)), item_protocol (ri_protocol item)) of
        (Some port, Some protocol) \<Rightarrow>
          if port < 1 \<or> port > 65535 \<or> address = [] \<or> length address > 128
             \<or> length (js_text (ri_process item)) > 128
             \<or> (js_truthy (ri_managedRuntimeId item) \<and>
                 (ri_managedRuntime item \<noteq> JStr ''forwardx-fxp'' \<or> \<not> valid_runtime_id (ri_managedRuntimeId item)))
             \<or> (js_truthy (ri_managedRuntime item) \<and> ri_managedRuntime item \<notin> set managed_runtimes)
          then None
          else if (port, protocol) \<notin> set coveredPorts then None
          else Some \<lparr>pl_port = port, pl_protocol = protocol, pl_address = address,
                 pl_process = truthy_text (ri_process item),
                 pl_managedRuntime = truthy_text (ri_managedRuntime item),
                 pl_managedRuntimeId = truthy_text (ri_managedRuntimeId item)\<rparr>
      | _ \<Rightarrow> None)"

definition listeners_on :: "int \<Rightarrow> port_listener list \<Rightarrow> int" where
  "listeners_on port ls = int (length (filter (\<lambda>l. pl_port l = port) ls))"

fun read_listeners :: "covered_port list \<Rightarrow> port_listener list \<Rightarrow> raw_item list \<Rightarrow> port_listener list option" where
  "read_listeners coveredPorts acc [] = Some acc"
| "read_listeners coveredPorts acc (item # items) =
     (case read_listener coveredPorts item of
        None \<Rightarrow> None
      | Some l \<Rightarrow>
          if listeners_on (pl_port l) acc + 1 > MAX_LISTENERS then None
          else read_listeners coveredPorts (acc @ [l]) items)"

definition read_snapshot :: "rat \<Rightarrow> raw_snapshot \<Rightarrow> occupancy_snapshot option" where
  "read_snapshot now raw =
     (case (rs_listeners raw, rs_covered raw, js_finite (to_number (rs_collectedAt raw))) of
        (Some rawListeners, Some rawCovered, Some collected) \<Rightarrow>
          if length rawCovered > 1024 \<or> rs_bytes raw > MAX_PORT_OCCUPANCY_RECEIVE_BYTES \<or> rs_legacyKeys raw
             \<or> collected \<le> 0 \<or> collected > now + FUTURE_SKEW_MS then None
          else
            (case read_covered [] rawCovered of
               None \<Rightarrow> None
             | Some cov \<Rightarrow>
                 (case read_listeners cov [] rawListeners of
                    None \<Rightarrow> None
                  | Some ls \<Rightarrow> Some \<lparr>listeners = ls, covered = cov, collectedAt = collected, verifiedAt = now\<rparr>))
      | _ \<Rightarrow> None)"

section \<open>Receiving\<close>

record receive_result =
  requestPortOccupancy :: bool
  verified :: bool

definition put_snapshot :: "int \<Rightarrow> occupancy_entry \<Rightarrow> occupancy \<Rightarrow> occupancy" where
  "put_snapshot hostId entry s = s\<lparr>snapshots := updateBoundedMapValueInPlace MAX_HOSTS hostId entry (snapshots s)\<rparr>"

definition markUnverified :: "int \<Rightarrow> occupancy \<Rightarrow> occupancy" where
  "markUnverified hostId s =
     (case map_get (snapshots s) hostId of
        None \<Rightarrow> s | Some cached \<Rightarrow> put_snapshot hostId (cached\<lparr>oe_failed := True\<rparr>) s)"

abbreviation no_result :: receive_result where
  "no_result \<equiv> \<lparr>requestPortOccupancy = False, verified = False\<rparr>"

definition receivePortOccupancy ::
  "jsnum \<Rightarrow> occupancy_input \<Rightarrow> rat \<Rightarrow> occupancy \<Rightarrow> receive_result \<times> occupancy" where
  "receivePortOccupancy hostIdValue input now s =
     (case safe_positive hostIdValue of
        None \<Rightarrow> (no_result, s)
      | Some hostId \<Rightarrow>
          (let signature = js_text (in_signature input);
               cached = map_get (snapshots s) hostId;
               unverified = markUnverified hostId s
           in if in_collected input = JBool False then (no_result, unverified)
              else if in_schemaVersion input \<noteq> JNum (Fin 2)
              then (no_result, unverified\<lparr>rejected := map_delete hostId (rejected unverified)\<rparr>)
              else if \<not> valid_signature signature then (no_result, unverified)
              else if in_collected input \<noteq> JBool True then (no_result, unverified)
              else
                (let reject = (no_result, unverified\<lparr>rejected := setBoundedMapValue MAX_HOSTS hostId
                       \<lparr>rj_signature = signature, rj_at = now, rj_requestedAt = 0\<rparr> (rejected unverified)\<rparr>)
                 in case in_snapshot input of
                      FalsySnapshot \<Rightarrow> reject
                    | RawSnapshot raw \<Rightarrow>
                        (case read_snapshot now raw of
                           None \<Rightarrow> reject
                         | Some snap \<Rightarrow>
                             (let s1 = put_snapshot hostId
                                    \<lparr>oe_signature = signature, oe_snapshot = snap, oe_failed = False\<rparr> s
                              in (\<lparr>requestPortOccupancy = False, verified = True\<rparr>,
                                  s1\<lparr>rejected := map_delete hostId (rejected s1)\<rparr>)))
                    | NoSnapshot \<Rightarrow>
                        (case map_get (rejected s) hostId of
                           Some entry \<Rightarrow>
                             if now - rj_at entry \<ge> REJECT_COOLDOWN_MS \<and> rj_requestedAt entry = 0
                             then (\<lparr>requestPortOccupancy = True, verified = False\<rparr>,
                                   unverified\<lparr>rejected := map_set hostId (entry\<lparr>rj_requestedAt := now\<rparr>) (rejected unverified)\<rparr>)
                             else (no_result, unverified)
                         | None \<Rightarrow>
                             (case cached of
                                None \<Rightarrow> (\<lparr>requestPortOccupancy = True, verified = False\<rparr>, unverified)
                              | Some entry \<Rightarrow>
                                  if oe_signature entry \<noteq> signature
                                  then (\<lparr>requestPortOccupancy = True, verified = False\<rparr>, unverified)
                                  else (\<lparr>requestPortOccupancy = False, verified = True\<rparr>,
                                        put_snapshot hostId (entry\<lparr>oe_failed := False,
                                          oe_snapshot := (oe_snapshot entry)\<lparr>verifiedAt := now\<rparr>\<rparr>) s))))))"

definition getPortOccupancy :: "int \<Rightarrow> rat \<Rightarrow> occupancy \<Rightarrow> occupancy_snapshot option" where
  "getPortOccupancy hostId now s =
     (case map_get (snapshots s) hostId of
        None \<Rightarrow> None
      | Some entry \<Rightarrow>
          if oe_failed entry \<or> now - verifiedAt (oe_snapshot entry) > FRESH_MS
             \<or> verifiedAt (oe_snapshot entry) > now + FUTURE_SKEW_MS
             \<or> collectedAt (oe_snapshot entry) > now + FUTURE_SKEW_MS then None
          else Some (oe_snapshot entry))"

definition prunePortOccupancy :: "rat \<Rightarrow> occupancy \<Rightarrow> occupancy" where
  "prunePortOccupancy now s =
     s\<lparr>snapshots := snd (pruneMapEntries (\<lambda>e _. now - verifiedAt (oe_snapshot e) > 24 * 60 * 60 * 1000) (snapshots s)),
       rejected := snd (pruneMapEntries (\<lambda>e _. now - rj_at e > 24 * 60 * 60 * 1000) (rejected s))\<rparr>"

section \<open>Inspecting a port\<close>

text \<open>The two messages are a heading, told by the constructor, and a list of entries.\<close>

datatype inspection =
    Unverified
  | Occupied "port_listener list" rat rat "string list" "string list"
  | Free rat rat

definition needed_protocols :: "forward_protocol \<Rightarrow> forward_protocol list" where
  "needed_protocols protocol = (if protocol = Both then [TCP, UDP] else [protocol])"

fun protocol_upper :: "forward_protocol \<Rightarrow> string" where
  "protocol_upper TCP = ''TCP''" | "protocol_upper UDP = ''UDP''" | "protocol_upper Both = ''BOTH''"

definition listener_text :: "bool \<Rightarrow> int \<Rightarrow> port_listener \<Rightarrow> string" where
  "listener_text detailed port l =
     protocol_upper (pl_protocol l) @ '' '' @ pl_address l @ '':'' @ int_str port @
     (case pl_process l of Some p \<Rightarrow> if detailed then '' ('' @ p @ '')'' else '''' | None \<Rightarrow> '''')"

definition inspectPortOccupancy ::
  "occupancy_snapshot option \<Rightarrow> int \<Rightarrow> forward_protocol \<Rightarrow> (port_listener \<Rightarrow> bool) \<Rightarrow> inspection" where
  "inspectPortOccupancy snapshot port protocol reusable =
     (case snapshot of
        None \<Rightarrow> Unverified
      | Some snap \<Rightarrow>
          if \<not> list_all (\<lambda>needed. list_ex (\<lambda>c. c = (port, needed)) (covered snap)) (needed_protocols protocol)
          then Unverified
          else
            (let matching = filter (\<lambda>l. pl_port l = port \<and> (protocol = Both \<or> pl_protocol l = protocol) \<and> \<not> reusable l)
                   (listeners snap)
             in if matching \<noteq> []
                then Occupied matching (collectedAt snap) (verifiedAt snap)
                       (map (listener_text True port) matching) (map (listener_text False port) matching)
                else Free (collectedAt snap) (verifiedAt snap)))"

section \<open>What is stored is valid\<close>

definition valid_snapshot :: "occupancy_snapshot \<Rightarrow> bool" where
  "valid_snapshot snap \<longleftrightarrow> distinct (covered snap) \<and>
     (\<forall>(p, pr) \<in> set (covered snap). 1 \<le> p \<and> p \<le> 65535 \<and> pr \<noteq> Both) \<and>
     (\<forall>l \<in> set (listeners snap). (pl_port l, pl_protocol l) \<in> set (covered snap) \<and>
        pl_address l \<noteq> [] \<and> length (pl_address l) \<le> 128) \<and>
     (\<forall>p. listeners_on p (listeners snap) \<le> MAX_LISTENERS)"

lemma item_protocol_not_Both: "item_protocol v = Some pr \<Longrightarrow> pr \<noteq> Both"
  by (auto simp: item_protocol_def split: if_splits)

lemma strict_port_range: "strict_port v = Some p \<Longrightarrow> 1 \<le> p \<and> p \<le> 65535"
  by (auto simp: strict_port_def split: jsval.splits option.splits if_splits)

lemma read_covered_ok:
  "read_covered acc items = Some cov \<Longrightarrow> distinct acc \<Longrightarrow>
     (\<forall>(p, pr) \<in> set acc. 1 \<le> p \<and> p \<le> 65535 \<and> pr \<noteq> Both) \<Longrightarrow>
     distinct cov \<and> (\<forall>(p, pr) \<in> set cov. 1 \<le> p \<and> p \<le> 65535 \<and> pr \<noteq> Both)"
proof (induction acc items rule: read_covered.induct)
  case (2 acc item items)
  then obtain p pr where "strict_port (ri_port item) = Some p" "item_protocol (ri_protocol item) = Some pr"
    "(p, pr) \<notin> set acc"
    by (auto split: option.splits if_splits)
  with 2 show ?case using strict_port_range item_protocol_not_Both by auto
qed simp

lemma read_listener_ok:
  "read_listener cov item = Some l \<Longrightarrow> (pl_port l, pl_protocol l) \<in> set cov \<and> pl_address l \<noteq> [] \<and> length (pl_address l) \<le> 128"
  by (auto simp: read_listener_def Let_def split: option.splits if_splits)

lemma listeners_on_snoc [simp]:
  "listeners_on p (ls @ [l]) = listeners_on p ls + (if pl_port l = p then 1 else 0)"
  by (simp add: listeners_on_def)

lemma read_listeners_ok:
  "read_listeners cov acc items = Some ls \<Longrightarrow>
     (\<forall>l \<in> set acc. (pl_port l, pl_protocol l) \<in> set cov \<and> pl_address l \<noteq> [] \<and> length (pl_address l) \<le> 128) \<Longrightarrow>
     (\<forall>p. listeners_on p acc \<le> MAX_LISTENERS) \<Longrightarrow>
     (\<forall>l \<in> set ls. (pl_port l, pl_protocol l) \<in> set cov \<and> pl_address l \<noteq> [] \<and> length (pl_address l) \<le> 128) \<and>
     (\<forall>p. listeners_on p ls \<le> MAX_LISTENERS)"
proof (induction cov acc items rule: read_listeners.induct)
  case (2 cov acc item items)
  obtain l where l: "read_listener cov item = Some l" "listeners_on (pl_port l) acc + 1 \<le> MAX_LISTENERS"
    using "2.prems"(1) by (auto split: option.splits if_splits)
  have "read_listeners cov (acc @ [l]) items = Some ls" using "2.prems"(1) l by simp
  moreover have "\<forall>x \<in> set (acc @ [l]). (pl_port x, pl_protocol x) \<in> set cov \<and> pl_address x \<noteq> [] \<and> length (pl_address x) \<le> 128"
    using "2.prems"(2) read_listener_ok [OF l(1)] by simp
  moreover have "\<forall>p. listeners_on p (acc @ [l]) \<le> MAX_LISTENERS" using "2.prems"(3) l(2) by simp
  moreover have "\<not> listeners_on (pl_port l) acc + 1 > MAX_LISTENERS" using l(2) by simp
  ultimately show ?case by (rule "2.IH" [OF l(1), rotated])
qed simp

lemma read_snapshot_ok:
  assumes "read_snapshot now raw = Some snap"
  shows "valid_snapshot snap \<and> verifiedAt snap = now \<and> collectedAt snap \<le> now + FUTURE_SKEW_MS"
proof -
  obtain rl rc c cov ls where r: "rs_listeners raw = Some rl" "rs_covered raw = Some rc"
    "c \<le> now + FUTURE_SKEW_MS" "read_covered [] rc = Some cov" "read_listeners cov [] rl = Some ls"
    "snap = \<lparr>listeners = ls, covered = cov, collectedAt = c, verifiedAt = now\<rparr>"
    using assms by (auto simp: read_snapshot_def split: option.splits if_splits)
  show ?thesis
    using read_covered_ok [OF r(4)] read_listeners_ok [OF r(5)] r(3)
    by (simp add: r(6) valid_snapshot_def listeners_on_def MAX_LISTENERS_def)
qed

text \<open>The two tables are bounded stores.\<close>

interpretation snapshot_store: bounded_put
  "updateBoundedMapValueInPlace MAX_HOSTS :: int \<Rightarrow> occupancy_entry \<Rightarrow> _" 10000
  using bounded_put_updateInPlace [of 10000] by (simp add: MAX_HOSTS_def)

interpretation rejected_store: bounded_put
  "setBoundedMapValue MAX_HOSTS :: int \<Rightarrow> rejected_entry \<Rightarrow> _" 10000
  using bounded_put_setBounded [of 10000] by (simp add: MAX_HOSTS_def)

definition wf_occupancy :: "occupancy \<Rightarrow> bool" where
  "wf_occupancy s \<longleftrightarrow> wf_map (snapshots s) \<and> length (snapshots s) \<le> 10000 \<and>
     wf_map (rejected s) \<and> length (rejected s) \<le> 10000 \<and>
     (\<forall>k e. map_get (snapshots s) k = Some e \<longrightarrow> valid_snapshot (oe_snapshot e))"

lemma put_snapshot_wf:
  assumes "wf_occupancy s" and "valid_snapshot (oe_snapshot e)"
  shows "wf_occupancy (put_snapshot k e s)"
proof -
  have w: "wf_map (snapshots s)" "length (snapshots s) \<le> 10000" using assms by (simp_all add: wf_occupancy_def)
  have "valid_snapshot (oe_snapshot e')" if "map_get (snapshots (put_snapshot k e s)) k' = Some e'" for k' e'
    using that assms snapshot_store.put_other [OF w(1), of k' k e e'] snapshot_store.put_same [OF w(1), of k e]
    by (cases "k' = k") (auto simp: put_snapshot_def wf_occupancy_def)
  then show ?thesis
    using assms w snapshot_store.put_wf snapshot_store.put_length
    by (simp add: wf_occupancy_def put_snapshot_def)
qed

lemma mark_wf: "wf_occupancy s \<Longrightarrow> wf_occupancy (markUnverified k s)"
  using put_snapshot_wf [of s] by (cases "map_get (snapshots s) k") (auto simp: markUnverified_def wf_occupancy_def [of s])

lemma put_snapshot_rejected [simp]: "rejected (put_snapshot k e s) = rejected s"
  by (simp add: put_snapshot_def)

lemma mark_rejected [simp]: "rejected (markUnverified k s) = rejected s"
  by (simp add: markUnverified_def split: option.split)

lemma rejected_wf:
  "wf_occupancy s \<Longrightarrow> wf_map m \<Longrightarrow> length m \<le> 10000 \<Longrightarrow> wf_occupancy (s\<lparr>rejected := m\<rparr>)"
  by (simp add: wf_occupancy_def)

lemma delete_rejected_wf: "wf_occupancy s \<Longrightarrow> wf_occupancy (s\<lparr>rejected := map_delete k (rejected s)\<rparr>)"
  using length_map_delete_le [of k "rejected s"] by (intro rejected_wf) (auto simp: wf_occupancy_def)

lemma set_rejected_wf:
  "wf_occupancy s \<Longrightarrow> wf_occupancy (s\<lparr>rejected := setBoundedMapValue MAX_HOSTS k e (rejected s)\<rparr>)"
  using rejected_store.put_wf rejected_store.put_length by (intro rejected_wf) (auto simp: wf_occupancy_def)

lemma touch_rejected_wf:
  "wf_occupancy s \<Longrightarrow> map_get (rejected s) k = Some e' \<Longrightarrow> wf_occupancy (s\<lparr>rejected := map_set k e (rejected s)\<rparr>)"
  by (intro rejected_wf) (auto simp: wf_occupancy_def length_map_set map_has_def)

lemma valid_touch: "valid_snapshot snap \<Longrightarrow> valid_snapshot (snap\<lparr>verifiedAt := t\<rparr>)"
  by (simp add: valid_snapshot_def)

text \<open>What a report can do: only three things.\<close>

lemma mark_same_rejected: "(markUnverified h s)\<lparr>rejected := rejected s\<rparr> = markUnverified h s"
  by (cases "markUnverified h s") (use mark_rejected [of h s] in simp)

definition next_rejected :: "int \<Rightarrow> occupancy \<Rightarrow> (int, rejected_entry) jsmap \<Rightarrow> bool" where
  "next_rejected h s m \<longleftrightarrow> m = rejected s \<or> m = map_delete h (rejected s) \<or>
     (\<exists>e. m = setBoundedMapValue MAX_HOSTS h e (rejected s)) \<or>
     (\<exists>e e'. map_get (rejected s) h = Some e' \<and> m = map_set h e (rejected s))"

lemma receive_outcome:
  assumes "safe_positive hv = Some h"
  shows "case receivePortOccupancy hv input now s of (res, s') \<Rightarrow>
    (\<not> verified res \<and> (\<exists>m. next_rejected h s m \<and> s' = (markUnverified h s)\<lparr>rejected := m\<rparr>)) \<or>
    (verified res \<and> (\<exists>raw snap sig. read_snapshot now raw = Some snap \<and>
       s' = (put_snapshot h \<lparr>oe_signature = sig, oe_snapshot = snap, oe_failed = False\<rparr> s)\<lparr>rejected := map_delete h (rejected s)\<rparr>)) \<or>
    (verified res \<and> (\<exists>e. map_get (snapshots s) h = Some e \<and>
       s' = put_snapshot h (e\<lparr>oe_failed := False, oe_snapshot := (oe_snapshot e)\<lparr>verifiedAt := now\<rparr>\<rparr>) s))"
proof -
  have keep: "\<exists>m. next_rejected h s m \<and> markUnverified h s = (markUnverified h s)\<lparr>rejected := m\<rparr>"
    using mark_same_rejected by (metis next_rejected_def)
  have del: "next_rejected h s (map_delete h (rejected s))"
    and set: "next_rejected h s (setBoundedMapValue MAX_HOSTS h e (rejected s))"
    and touch: "map_get (rejected s) h = Some e' \<Longrightarrow> next_rejected h s (map_set h e (rejected s))" for e e'
    by (auto simp: next_rejected_def)
  show ?thesis
    using keep del set touch
    by (simp add: receivePortOccupancy_def assms Let_def split: snapshot_field.split option.split) blast
qed

lemma next_rejected_wf: "wf_occupancy s \<Longrightarrow> next_rejected h s m \<Longrightarrow> wf_map m \<and> length m \<le> 10000"
  using length_map_delete_le [of h "rejected s"] rejected_store.put_wf rejected_store.put_length
  by (auto simp: next_rejected_def wf_occupancy_def length_map_set map_has_def)

lemma receive_wf:
  assumes wf: "wf_occupancy s" shows "wf_occupancy (snd (receivePortOccupancy hv input now s))"
proof (cases "safe_positive hv")
  case None
  then show ?thesis using assms by (simp add: receivePortOccupancy_def)
next
  case (Some h)
  obtain res s' where r: "receivePortOccupancy hv input now s = (res, s')" by fastforce
  consider m where "next_rejected h s m" "s' = (markUnverified h s)\<lparr>rejected := m\<rparr>"
    | raw snap sig where "read_snapshot now raw = Some snap"
        "s' = (put_snapshot h \<lparr>oe_signature = sig, oe_snapshot = snap, oe_failed = False\<rparr> s)\<lparr>rejected := map_delete h (rejected s)\<rparr>"
    | e where "map_get (snapshots s) h = Some e"
        "s' = put_snapshot h (e\<lparr>oe_failed := False, oe_snapshot := (oe_snapshot e)\<lparr>verifiedAt := now\<rparr>\<rparr>) s"
    using receive_outcome [OF Some, where input = input and now = now and s = s] r by auto
  then have "wf_occupancy s'"
  proof cases
    case 1
    then show ?thesis using next_rejected_wf [OF wf] mark_wf [OF wf] by (auto intro: rejected_wf)
  next
    case 2
    have "wf_occupancy (put_snapshot h \<lparr>oe_signature = sig, oe_snapshot = snap, oe_failed = False\<rparr> s)"
      using read_snapshot_ok [OF 2(1)] by (intro put_snapshot_wf wf) simp
    then show ?thesis unfolding 2(2) using delete_rejected_wf by fastforce
  next
    case 3
    have "valid_snapshot (oe_snapshot e)" using wf 3(1) by (auto simp: wf_occupancy_def)
    then show ?thesis unfolding 3(2) by (intro put_snapshot_wf wf) (simp add: valid_touch)
  qed
  then show ?thesis by (simp add: r)
qed

lemma length_filter_bound: "length m \<le> (n :: nat) \<Longrightarrow> length (filter P m) \<le> n"
  using le_trans [OF length_filter_le] by blast

lemma prune_wf: "wf_occupancy s \<Longrightarrow> wf_occupancy (prunePortOccupancy now s)"
  by (auto simp: wf_occupancy_def prunePortOccupancy_def pruneMapEntries_eq map_get_filter length_filter_bound
      split: option.splits if_splits)

section \<open>Runs\<close>

datatype occupancy_op = Receive jsnum occupancy_input rat | Prune rat

fun occupancy_step :: "occupancy_op \<Rightarrow> occupancy \<Rightarrow> occupancy" where
  "occupancy_step (Receive h input now) s = snd (receivePortOccupancy h input now s)"
| "occupancy_step (Prune now) s = prunePortOccupancy now s"

fun op_host :: "occupancy_op \<Rightarrow> int option" where
  "op_host (Receive h input now) = safe_positive h"
| "op_host (Prune now) = None"

definition empty_occupancy :: occupancy where
  "empty_occupancy = \<lparr>snapshots = [], rejected = []\<rparr>"

lemma wf_occupancy_step: "wf_occupancy s \<Longrightarrow> wf_occupancy (occupancy_step op s)"
  by (cases op) (simp_all add: receive_wf prune_wf)

lemma wf_occupancy_fold: "wf_occupancy s \<Longrightarrow> wf_occupancy (fold occupancy_step ops s)"
  by (induction ops arbitrary: s) (auto simp: wf_occupancy_step)

lemma wf_occupancy_run: "wf_occupancy (fold occupancy_step ops empty_occupancy)"
  by (rule wf_occupancy_fold) (simp add: wf_occupancy_def empty_occupancy_def)

section \<open>A host whose last report was not verified\<close>

definition hidden :: "int \<Rightarrow> occupancy \<Rightarrow> bool" where
  "hidden h s \<longleftrightarrow> (case map_get (snapshots s) h of None \<Rightarrow> True | Some e \<Rightarrow> oe_failed e)"

lemma hidden_get: "hidden h s \<Longrightarrow> getPortOccupancy h now s = None"
  by (auto simp: hidden_def getPortOccupancy_def split: option.splits)

lemma put_hidden:
  assumes "wf_occupancy s" and "hidden h s" and "k \<noteq> h" shows "hidden h (put_snapshot k e s)"
proof -
  have w: "wf_map (snapshots s)" using assms by (simp add: wf_occupancy_def)
  show ?thesis
    using assms(2) snapshot_store.put_other [OF w assms(3) [symmetric]]
    by (auto simp: hidden_def put_snapshot_def split: option.splits)
qed

lemma mark_hidden_same: "wf_occupancy s \<Longrightarrow> hidden h (markUnverified h s)"
  using snapshot_store.put_same [of "snapshots s" h]
  by (auto simp: hidden_def markUnverified_def put_snapshot_def wf_occupancy_def split: option.split)

lemma hidden_rejected [simp]: "hidden h (s\<lparr>rejected := m\<rparr>) = hidden h s"
  by (simp add: hidden_def)

lemma mark_hidden: "wf_occupancy s \<Longrightarrow> hidden h s \<Longrightarrow> hidden h (markUnverified k s)"
  using mark_hidden_same put_hidden
  by (cases "k = h") (auto simp: markUnverified_def split: option.split)

lemma receive_unverified:
  assumes wf: "wf_occupancy s" and h: "safe_positive hv = Some h"
    and "\<not> verified (fst (receivePortOccupancy hv input now s))"
  shows "hidden h (snd (receivePortOccupancy hv input now s))"
  using receive_outcome [OF h, where input = input and now = now and s = s] assms(3) mark_hidden_same [OF wf, of h]
  by (auto simp: case_prod_beta)

lemma receive_other:
  assumes wf: "wf_occupancy s" and h: "safe_positive hv \<noteq> Some h" and "hidden h s"
  shows "hidden h (snd (receivePortOccupancy hv input now s))"
proof (cases "safe_positive hv")
  case (Some k)
  then have "k \<noteq> h" using h by simp
  then show ?thesis
    using receive_outcome [OF Some, where input = input and now = now and s = s] mark_hidden [OF wf assms(3), of k] put_hidden [OF wf assms(3)]
    by (auto simp: case_prod_beta)
qed (simp add: receivePortOccupancy_def assms)

lemma prune_hidden: "wf_occupancy s \<Longrightarrow> hidden h s \<Longrightarrow> hidden h (prunePortOccupancy now s)"
  by (auto simp: hidden_def prunePortOccupancy_def pruneMapEntries_eq map_get_filter wf_occupancy_def split: option.splits)

lemma later_hidden:
  "wf_occupancy s \<Longrightarrow> hidden h s \<Longrightarrow> (\<forall>op \<in> set later. op_host op \<noteq> Some h) \<Longrightarrow> hidden h (fold occupancy_step later s)"
proof (induction later arbitrary: s)
  case (Cons op later)
  have "hidden h (occupancy_step op s)"
    using Cons.prems receive_other prune_hidden by (cases op) auto
  then show ?case using Cons wf_occupancy_step by simp
qed simp

section \<open>Inspection\<close>

text \<open>A port is free only if every needed protocol is covered and each listener on it may be reused.\<close>

lemma inspect_free:
  "inspectPortOccupancy snapshot port protocol reusable = Free c v \<longleftrightarrow>
     (\<exists>snap. snapshot = Some snap \<and> collectedAt snap = c \<and> verifiedAt snap = v \<and>
        (\<forall>pr \<in> set (needed_protocols protocol). (port, pr) \<in> set (covered snap)) \<and>
        (\<forall>l \<in> set (listeners snap). pl_port l = port \<and> (protocol = Both \<or> pl_protocol l = protocol) \<longrightarrow> reusable l))"
  by (cases snapshot)
    (auto simp: inspectPortOccupancy_def needed_protocols_def list_all_iff list_ex_iff filter_empty_conv Let_def split: if_splits)

section \<open>Properties\<close>

text \<open>
  Only checked and fresh port reports are believed. After any sequence of reports and
  pruning, with any contents, at most 10000 hosts are remembered, and a snapshot that is handed
  out covers each port and protocol once and within range, has every listener on a covered port
  with a usable address, at most 256 of them on a port, and was verified within ten minutes (and
  a minute of clock skew).
\<close>

theorem port_occupancy_checked:
  "let s = fold occupancy_step ops empty_occupancy in
     length (snapshots s) \<le> 10000 \<and> length (rejected s) \<le> 10000 \<and>
     (case getPortOccupancy h now s of
        None \<Rightarrow> True
      | Some snap \<Rightarrow> valid_snapshot snap \<and> now - verifiedAt snap \<le> 600000 \<and> verifiedAt snap \<le> now + 60000)"
  using wf_occupancy_run [of ops]
  by (auto simp: Let_def wf_occupancy_def getPortOccupancy_def FRESH_MS_def FUTURE_SKEW_MS_def
      not_less split: option.split)

text \<open>
  A host whose last report was not verified (an error, an old schema, a bad signature, a
  rejected or unknown snapshot) is never shown a free or an occupied port: whatever other hosts
  report and whatever is pruned afterwards, the inspection says unverified.
\<close>

theorem unverified_report_hides:
  assumes "safe_positive hv = Some h"
    and "\<not> verified (fst (receivePortOccupancy hv input now (fold occupancy_step ops empty_occupancy)))"
    and "\<forall>op \<in> set later. op_host op \<noteq> Some h"
  shows "inspectPortOccupancy
      (getPortOccupancy h t (fold occupancy_step (ops @ Receive hv input now # later) empty_occupancy))
      port protocol reusable = Unverified"
proof -
  note wf = wf_occupancy_run [of ops]
  have "hidden h (fold occupancy_step (ops @ Receive hv input now # later) empty_occupancy)"
    using later_hidden [OF receive_wf [OF wf] receive_unverified [OF wf assms(1,2)] assms(3)] by simp
  then show ?thesis by (simp add: hidden_get inspectPortOccupancy_def)
qed

definition sample_item :: raw_item where
  "sample_item = \<lparr>ri_port = JNum (num 53), ri_protocol = JStr ''udp'', ri_address = JStr ''0.0.0.0'',
     ri_process = JUndef, ri_managedRuntime = JUndef, ri_managedRuntimeId = JUndef\<rparr>"

definition sample_report :: "string \<Rightarrow> occupancy_input" where
  "sample_report sig = \<lparr>in_signature = JStr sig, in_collected = JBool True,
     in_snapshot = RawSnapshot \<lparr>rs_listeners = Some [sample_item], rs_covered = Some [sample_item],
       rs_collectedAt = JNum (num 1000), rs_bytes = 200, rs_legacyKeys = False\<rparr>,
     in_schemaVersion = JNum (num 2)\<rparr>"

lemma sample_verified:
  "verified (fst (receivePortOccupancy (num 7) (sample_report ''ab12'') 1000 empty_occupancy))"
  by code_simp

lemma sample_unverified:
  "\<not> verified (fst (receivePortOccupancy (num 7) (sample_report ''not hex'') 2000
      (fold occupancy_step [Receive (num 7) (sample_report ''ab12'') 1000] empty_occupancy)))"
  by code_simp

theorem unverified_report_hides_witness:
  "inspectPortOccupancy
      (getPortOccupancy 7 2500 (fold occupancy_step
        ([Receive (num 7) (sample_report ''ab12'') 1000] @ Receive (num 7) (sample_report ''not hex'') 2000 #
         [Receive (num 8) (sample_report ''cd34'') 2200, Prune 2300]) empty_occupancy))
      53 UDP (\<lambda>_. False) = Unverified"
  by (rule unverified_report_hides [OF _ sample_unverified]) (simp_all add: safe_positive_def MAX_SAFE_INTEGER_def)

end
