(* ===== verification/Runtime_Recovery.thy ===== *)
theory Runtime_Recovery
  imports Prelude
begin

text \<open>
  \<open>server/agentRuntimeRecovery.ts\<close>: recoveries of an agent's runtime, asked for by its event stream
  and by its heartbeats, run one at a time for each host; requests that a successful recovery of
  the same or of greater strength covers are coalesced. Calls of \<open>run\<close> and the state objects of
  hosts are numbers; a call that waits for a promise waits for the call whose task it is. The
  continuation of a call after its task has settled is \<open>settle\<close>, that of a waiting call \<open>resume\<close>.
\<close>

definition AGENT_RUNTIME_RECOVERY_COOLDOWN_MS :: int where
  "AGENT_RUNTIME_RECOVERY_COOLDOWN_MS = 60 * 1000"

section \<open>State\<close>

text \<open>
  \<open>Awaits w decisive\<close>: waits for the task of call \<open>w\<close>, and returns false when it succeeds if the
  wait is decisive. \<open>Coalesced w\<close>: has returned false for the success of call \<open>w\<close>.
\<close>

datatype call_phase = Absent | Awaits nat bool | Runs nat | Succeeded | Thrown | Refused | Coalesced nat

record recovery_call =
  rc_host :: rat
  rc_strength :: int
  rc_force :: bool
  rc_phase :: call_phase

text \<open>The host and the call of the last success are recorded for the statements only.\<close>

record recovery_state =
  rs_host :: rat
  rs_lastSuccessAt :: int
  rs_lastSuccessStrength :: int
  rs_lastOwner :: nat
  rs_inFlight :: "(int \<times> nat) option"

record coordinator =
  co_cooldownMs :: int
  co_states :: "(rat, nat) jsmap"
  co_objects :: "nat \<Rightarrow> recovery_state"
  co_calls :: "nat \<Rightarrow> recovery_call"
  co_nextObject :: nat
  co_nextCall :: nat

definition fresh_state :: "rat \<Rightarrow> recovery_state" where
  "fresh_state host = \<lparr>rs_host = host, rs_lastSuccessAt = 0, rs_lastSuccessStrength = -1, rs_lastOwner = 0, rs_inFlight = None\<rparr>"

definition new_coordinator :: "int option \<Rightarrow> coordinator" where
  "new_coordinator cooldownMs =
     \<lparr>co_cooldownMs = max 0 (case cooldownMs of None \<Rightarrow> AGENT_RUNTIME_RECOVERY_COOLDOWN_MS | Some ms \<Rightarrow> ms),
      co_states = [], co_objects = (\<lambda>_. fresh_state 0),
      co_calls = (\<lambda>_. \<lparr>rc_host = 0, rc_strength = 0, rc_force = False, rc_phase = Absent\<rparr>),
      co_nextObject = 0, co_nextCall = 0\<rparr>"

section \<open>Operations\<close>

definition recoveryStrength :: "bool \<Rightarrow> int" where
  "recoveryStrength preserveReportedRuntime = (if preserveReportedRuntime then 0 else 1)"

definition set_phase :: "nat \<Rightarrow> call_phase \<Rightarrow> coordinator \<Rightarrow> coordinator" where
  "set_phase c ph s = s \<lparr>co_calls := (co_calls s)(c := (co_calls s c) \<lparr>rc_phase := ph\<rparr>)\<rparr>"

text \<open>The state object of a host, created when there is none.\<close>

definition state_object :: "rat \<Rightarrow> coordinator \<Rightarrow> nat \<times> coordinator" where
  "state_object host s =
     (case map_get (co_states s) host of
        Some n \<Rightarrow> (n, s)
      | None \<Rightarrow>
          (let n = co_nextObject s
           in (n, s \<lparr>co_states := map_set host n (co_states s), co_objects := (co_objects s)(n := fresh_state host),
                     co_nextObject := Suc n\<rparr>)))"

text \<open>The body of \<open>run\<close> up to its next \<open>await\<close>, for a call whose host id is valid.\<close>

definition enter :: "int \<Rightarrow> nat \<Rightarrow> coordinator \<Rightarrow> coordinator" where
  "enter now c s =
     (let call = co_calls s c;
          (n, s1) = state_object (rc_host call) s;
          st = co_objects s1 n
      in case rs_inFlight st of
           Some (strength, w) \<Rightarrow> set_phase c (Awaits w (\<not> rc_force call \<and> strength \<ge> rc_strength call)) s1
         | None \<Rightarrow>
             if \<not> rc_force call \<and> now - rs_lastSuccessAt st < co_cooldownMs s1 \<and> rs_lastSuccessStrength st \<ge> rc_strength call
             then set_phase c (Coalesced (rs_lastOwner st)) s1
             else set_phase c (Runs n)
               (s1 \<lparr>co_objects := (co_objects s1)(n := st \<lparr>rs_inFlight := Some (rc_strength call, c)\<rparr>)\<rparr>))"

definition run_recovery :: "jsval \<Rightarrow> bool \<Rightarrow> bool \<Rightarrow> int \<Rightarrow> coordinator \<Rightarrow> coordinator" where
  "run_recovery hostIdValue preserve force now s =
     (let c = co_nextCall s;
          call = (\<lambda>host ph. \<lparr>rc_host = host, rc_strength = recoveryStrength preserve, rc_force = force, rc_phase = ph\<rparr>);
          add = (\<lambda>call. s \<lparr>co_calls := (co_calls s)(c := call), co_nextCall := Suc c\<rparr>)
      in case js_finite (to_number hostIdValue) of
           None \<Rightarrow> add (call 0 Refused)
         | Some host \<Rightarrow> if host \<le> 0 then add (call host Refused) else enter now c (add (call host Absent)))"

text \<open>The task of a call settles; a failed one leaves the last success as it is.\<close>

definition settle :: "nat \<Rightarrow> bool \<Rightarrow> int \<Rightarrow> coordinator \<Rightarrow> coordinator" where
  "settle c ok now s =
     (case rc_phase (co_calls s c) of
        Runs n \<Rightarrow>
          (let st = co_objects s n;
               st1 = (if ok then st \<lparr>rs_lastSuccessAt := now, rs_lastSuccessStrength := rc_strength (co_calls s c), rs_lastOwner := c\<rparr>
                      else st);
               st2 = (if map_option snd (rs_inFlight st1) = Some c then st1 \<lparr>rs_inFlight := None\<rparr> else st1)
           in set_phase c (if ok then Succeeded else Thrown) (s \<lparr>co_objects := (co_objects s)(n := st2)\<rparr>))
      | _ \<Rightarrow> s)"

text \<open>A waiting call goes on when the task it waits for has settled.\<close>

definition resume :: "nat \<Rightarrow> int \<Rightarrow> coordinator \<Rightarrow> coordinator" where
  "resume c now s =
     (case rc_phase (co_calls s c) of
        Awaits w decisive \<Rightarrow>
          (case rc_phase (co_calls s w) of
             Succeeded \<Rightarrow> if decisive then set_phase c (Coalesced w) s else enter now c s
           | Thrown \<Rightarrow> enter now c s
           | _ \<Rightarrow> s)
      | _ \<Rightarrow> s)"

definition clear_host :: "jsval \<Rightarrow> coordinator \<Rightarrow> coordinator" where
  "clear_host hostIdValue s =
     (case js_finite (to_number hostIdValue) of
        None \<Rightarrow> s | Some host \<Rightarrow> if host > 0 then s \<lparr>co_states := map_delete host (co_states s)\<rparr> else s)"

definition clearAll :: "coordinator \<Rightarrow> coordinator" where
  "clearAll s = s \<lparr>co_states := []\<rparr>"

datatype recovery_op =
  Run jsval bool bool int | Settle nat bool int | Resume nat int | ClearHost jsval | ClearAll

fun recovery_step :: "recovery_op \<Rightarrow> coordinator \<Rightarrow> coordinator" where
  "recovery_step (Run host preserve force now) s = run_recovery host preserve force now s"
| "recovery_step (Settle c ok now) s = settle c ok now s"
| "recovery_step (Resume c now) s = resume c now s"
| "recovery_step (ClearHost host) s = clear_host host s"
| "recovery_step ClearAll s = clearAll s"

section \<open>Invariant\<close>

text \<open>A call is covered by the success of another one for its host, of at least its strength.\<close>

definition covered_by :: "coordinator \<Rightarrow> nat \<Rightarrow> nat \<Rightarrow> bool" where
  "covered_by s c w \<longleftrightarrow> rc_host (co_calls s w) = rc_host (co_calls s c) \<and>
     rc_strength (co_calls s c) \<le> rc_strength (co_calls s w) \<and> \<not> rc_force (co_calls s c)"

definition object_ok :: "coordinator \<Rightarrow> nat \<Rightarrow> bool" where
  "object_ok s n \<longleftrightarrow>
     (let st = co_objects s n in
      (\<forall>k w. rs_inFlight st = Some (k, w) \<longrightarrow> rc_phase (co_calls s w) = Runs n \<and> rc_strength (co_calls s w) = k \<and>
         rc_host (co_calls s w) = rs_host st) \<and>
      (0 \<le> rs_lastSuccessStrength st \<longrightarrow> rc_phase (co_calls s (rs_lastOwner st)) = Succeeded \<and>
         rc_strength (co_calls s (rs_lastOwner st)) = rs_lastSuccessStrength st \<and>
         rc_host (co_calls s (rs_lastOwner st)) = rs_host st))"

definition call_ok :: "coordinator \<Rightarrow> nat \<Rightarrow> bool" where
  "call_ok s c \<longleftrightarrow> 0 \<le> rc_strength (co_calls s c) \<and>
     (case rc_phase (co_calls s c) of
        Absent \<Rightarrow> True
      | Awaits w decisive \<Rightarrow>
          (case rc_phase (co_calls s w) of Runs _ \<Rightarrow> True | Succeeded \<Rightarrow> True | Thrown \<Rightarrow> True | _ \<Rightarrow> False) \<and>
          (decisive \<longrightarrow> covered_by s c w)
      | Runs n \<Rightarrow> rs_inFlight (co_objects s n) = Some (rc_strength (co_calls s c), c) \<and>
          rs_host (co_objects s n) = rc_host (co_calls s c) \<and> n < co_nextObject s
      | Coalesced w \<Rightarrow> rc_phase (co_calls s w) = Succeeded \<and> covered_by s c w
      | _ \<Rightarrow> True)"

definition coordinator_ok :: "coordinator \<Rightarrow> bool" where
  "coordinator_ok s \<longleftrightarrow> (\<forall>n. object_ok s n) \<and> (\<forall>c. call_ok s c) \<and>
     (\<forall>c \<ge> co_nextCall s. rc_phase (co_calls s c) = Absent) \<and>
     (\<forall>host n. map_get (co_states s) host = Some n \<longrightarrow> n < co_nextObject s \<and> rs_host (co_objects s n) = host)"


section \<open>Preservation\<close>

lemma set_phase_fields [simp]:
  "co_cooldownMs (set_phase c ph s) = co_cooldownMs s" "co_states (set_phase c ph s) = co_states s"
  "co_objects (set_phase c ph s) = co_objects s" "co_nextObject (set_phase c ph s) = co_nextObject s"
  "co_nextCall (set_phase c ph s) = co_nextCall s"
  "co_calls (set_phase c ph s) c' = (if c' = c then (co_calls s c) \<lparr>rc_phase := ph\<rparr> else co_calls s c')"
  by (simp_all add: set_phase_def)

definition idle_call :: "coordinator \<Rightarrow> nat \<Rightarrow> bool" where
  "idle_call s c \<longleftrightarrow> (case rc_phase (co_calls s c) of Absent \<Rightarrow> True | Awaits _ _ \<Rightarrow> True | _ \<Rightarrow> False)"

text \<open>Nothing depends on an idle call, so it may move on.\<close>

lemma ok_idle_moves:
  assumes ok: "coordinator_ok s" and idle: "idle_call s c" and c: "c < co_nextCall s"
    and new: "call_ok (set_phase c ph s) c"
  shows "coordinator_ok (set_phase c ph s)"
proof -
  let ?s = "set_phase c ph s"
  have settled: "rc_phase (co_calls s w) = Runs m \<Longrightarrow> w \<noteq> c" "rc_phase (co_calls s w) = Succeeded \<Longrightarrow> w \<noteq> c"
    "rc_phase (co_calls s w) = Thrown \<Longrightarrow> w \<noteq> c" for w m
    using idle by (auto simp: idle_call_def)
  have obj: "object_ok ?s n" for n
  proof -
    let ?st = "co_objects s n"
    have o: "object_ok s n" using ok by (simp add: coordinator_ok_def)
    have "rc_phase (co_calls ?s w) = Runs n \<and> rc_strength (co_calls ?s w) = k \<and> rc_host (co_calls ?s w) = rs_host ?st"
      if "rs_inFlight ?st = Some (k, w)" for k w
    proof -
      have w: "rc_phase (co_calls s w) = Runs n \<and> rc_strength (co_calls s w) = k \<and> rc_host (co_calls s w) = rs_host ?st"
        using o that by (simp add: object_ok_def Let_def)
      then have "w \<noteq> c" using settled(1) by blast
      then show ?thesis using w by simp
    qed
    moreover have "rc_phase (co_calls ?s (rs_lastOwner ?st)) = Succeeded \<and>
        rc_strength (co_calls ?s (rs_lastOwner ?st)) = rs_lastSuccessStrength ?st \<and>
        rc_host (co_calls ?s (rs_lastOwner ?st)) = rs_host ?st" if "0 \<le> rs_lastSuccessStrength ?st"
    proof -
      have w: "rc_phase (co_calls s (rs_lastOwner ?st)) = Succeeded \<and>
        rc_strength (co_calls s (rs_lastOwner ?st)) = rs_lastSuccessStrength ?st \<and>
        rc_host (co_calls s (rs_lastOwner ?st)) = rs_host ?st" using o that by (simp add: object_ok_def Let_def)
      then have "rs_lastOwner ?st \<noteq> c" using settled(2) by blast
      then show ?thesis using w by simp
    qed
    ultimately show ?thesis unfolding object_ok_def Let_def set_phase_fields(3) by blast
  qed
  have "call_ok ?s c'" if "c' \<noteq> c" for c'
  proof -
    have k: "call_ok s c'" using ok by (simp add: coordinator_ok_def)
    show ?thesis
    proof (cases "rc_phase (co_calls s c')")
      case (Awaits w decisive)
      then have "case rc_phase (co_calls s w) of Runs _ \<Rightarrow> True | Succeeded \<Rightarrow> True | Thrown \<Rightarrow> True | _ \<Rightarrow> False"
        using k by (simp add: call_ok_def)
      then have "w \<noteq> c" using settled [of w] by (auto split: call_phase.splits)
      then show ?thesis using k Awaits that by (simp add: call_ok_def covered_by_def)
    next
      case (Coalesced w)
      then have "w \<noteq> c" using k settled(2) [of w] by (auto simp: call_ok_def)
      then show ?thesis using k Coalesced that by (simp add: call_ok_def covered_by_def)
    qed (use k that in \<open>simp_all add: call_ok_def\<close>)
  qed
  then have call: "call_ok ?s c'" for c' using new by (cases "c' = c") simp_all
  have "rc_phase (co_calls ?s c') = Absent" if "co_nextCall s \<le> c'" for c'
    using ok that c by (simp add: coordinator_ok_def)
  moreover have "m < co_nextObject s \<and> rs_host (co_objects s m) = h" if "map_get (co_states s) h = Some m" for h m
    using ok that by (simp add: coordinator_ok_def)
  ultimately show ?thesis
    unfolding coordinator_ok_def set_phase_fields(2,3,4,5) using obj call by blast
qed

lemma state_object_ok:
  assumes ok: "coordinator_ok s" and eq: "state_object host s = (n, s1)"
  shows "coordinator_ok s1" and "rs_host (co_objects s1 n) = host" and "n < co_nextObject s1"
    and "co_calls s1 = co_calls s" and "co_nextCall s1 = co_nextCall s"
proof -
  have "coordinator_ok s1 \<and> rs_host (co_objects s1 n) = host \<and> n < co_nextObject s1 \<and>
    co_calls s1 = co_calls s \<and> co_nextCall s1 = co_nextCall s"
  proof (cases "map_get (co_states s) host")
    case (Some m)
    then have "n = m" "s1 = s" using eq by (simp_all add: state_object_def)
    moreover have "m < co_nextObject s \<and> rs_host (co_objects s m) = host"
      using ok Some by (simp add: coordinator_ok_def)
    ultimately show ?thesis using ok by simp
  next
    case None
    let ?s = "s \<lparr>co_states := map_set host (co_nextObject s) (co_states s),
      co_objects := (co_objects s)(co_nextObject s := fresh_state host), co_nextObject := Suc (co_nextObject s)\<rparr>"
    have e: "n = co_nextObject s" "s1 = ?s" using eq None by (auto simp: state_object_def Let_def)
    have obj: "object_ok ?s m" for m
    proof (cases "m = co_nextObject s")
      case True
      then show ?thesis by (simp add: object_ok_def fresh_state_def)
    next
      case False
      have "object_ok s m" using ok by (simp add: coordinator_ok_def)
      then show ?thesis using False by (simp add: object_ok_def)
    qed
    have call: "call_ok ?s c" for c
    proof -
      have "call_ok s c" using ok by (simp add: coordinator_ok_def)
      then show ?thesis by (auto simp: call_ok_def covered_by_def split: call_phase.splits)
    qed
    have "m < Suc (co_nextObject s) \<and> rs_host (co_objects ?s m) = h"
      if "map_get (co_states ?s) h = Some m" for h m
    proof (cases "h = host")
      case True
      then show ?thesis using that by (simp add: map_get_set fresh_state_def)
    next
      case False
      then have "m < co_nextObject s \<and> rs_host (co_objects s m) = h"
        using that ok by (simp add: map_get_set coordinator_ok_def)
      then show ?thesis by simp
    qed
    then have "coordinator_ok ?s" using ok obj call unfolding coordinator_ok_def by auto
    then show ?thesis using e by (simp add: fresh_state_def)
  qed
  then show "coordinator_ok s1" and "rs_host (co_objects s1 n) = host" and "n < co_nextObject s1"
    and "co_calls s1 = co_calls s" and "co_nextCall s1 = co_nextCall s" by simp_all
qed


text \<open>A call owns the task of an object without a load.\<close>

lemma ok_starts:
  assumes ok: "coordinator_ok s" and idle: "idle_call s c" and c: "c < co_nextCall s"
    and n: "n < co_nextObject s" "rs_host (co_objects s n) = rc_host (co_calls s c)"
    and free: "rs_inFlight (co_objects s n) = None"
  shows "coordinator_ok (set_phase c (Runs n)
    (s \<lparr>co_objects := (co_objects s)(n := (co_objects s n) \<lparr>rs_inFlight := Some (rc_strength (co_calls s c), c)\<rparr>)\<rparr>))"
    (is "coordinator_ok ?s")
proof -
  have others: "w \<noteq> c" if "rc_phase (co_calls s w) = Runs m \<or> rc_phase (co_calls s w) = Succeeded \<or> rc_phase (co_calls s w) = Thrown"
    for w m using idle that by (auto simp: idle_call_def)
  have not_n: "m \<noteq> n" if "rc_phase (co_calls s w) = Runs m" for w m
  proof -
    have "call_ok s w" using ok by (simp add: coordinator_ok_def)
    then show ?thesis using that free by (auto simp: call_ok_def)
  qed
  have obj: "object_ok ?s m" for m
  proof -
    let ?st = "co_objects s m"
    have o: "object_ok s m" using ok by (simp add: coordinator_ok_def)
    have last: "rc_phase (co_calls ?s (rs_lastOwner ?st)) = Succeeded \<and>
        rc_strength (co_calls ?s (rs_lastOwner ?st)) = rs_lastSuccessStrength ?st \<and>
        rc_host (co_calls ?s (rs_lastOwner ?st)) = rs_host ?st" if "0 \<le> rs_lastSuccessStrength ?st"
      using o that others [of "rs_lastOwner ?st"] by (auto simp: object_ok_def Let_def)
    show ?thesis
    proof (cases "m = n")
      case True
      then show ?thesis using last n(2) unfolding object_ok_def Let_def by simp
    next
      case False
      have "rc_phase (co_calls ?s w) = Runs m \<and> rc_strength (co_calls ?s w) = k \<and> rc_host (co_calls ?s w) = rs_host ?st"
        if "rs_inFlight ?st = Some (k, w)" for k w
        using o that others [of w m] by (auto simp: object_ok_def Let_def)
      then show ?thesis using last False unfolding object_ok_def Let_def by simp
    qed
  qed
  have call: "call_ok ?s c'" for c'
  proof (cases "c' = c")
    case True
    have "0 \<le> rc_strength (co_calls s c)" using ok by (simp add: coordinator_ok_def call_ok_def)
    then show ?thesis using True n by (simp add: call_ok_def)
  next
    case False
    have k: "call_ok s c'" using ok by (simp add: coordinator_ok_def)
    show ?thesis
    proof (cases "rc_phase (co_calls s c')")
      case (Awaits w decisive)
      then have "case rc_phase (co_calls s w) of Runs _ \<Rightarrow> True | Succeeded \<Rightarrow> True | Thrown \<Rightarrow> True | _ \<Rightarrow> False"
        using k by (simp add: call_ok_def)
      then have "w \<noteq> c" using others [of w] by (auto split: call_phase.splits)
      then show ?thesis using k Awaits False by (simp add: call_ok_def covered_by_def)
    next
      case (Coalesced w)
      then have "w \<noteq> c" using k others [of w] by (auto simp: call_ok_def)
      then show ?thesis using k Coalesced False by (simp add: call_ok_def covered_by_def)
    next
      case (Runs m)
      then have "m \<noteq> n" by (rule not_n)
      then show ?thesis using k Runs False by (simp add: call_ok_def)
    qed (use k False in \<open>simp_all add: call_ok_def\<close>)
  qed
  have "rc_phase (co_calls ?s c') = Absent" if "co_nextCall ?s \<le> c'" for c'
    using ok that c by (simp add: coordinator_ok_def)
  moreover have "m < co_nextObject ?s \<and> rs_host (co_objects ?s m) = h" if "map_get (co_states ?s) h = Some m" for h m
    using ok that by (simp add: coordinator_ok_def)
  ultimately show ?thesis unfolding coordinator_ok_def using obj call by blast
qed

lemma ok_enter:
  assumes ok: "coordinator_ok s" and idle: "idle_call s c" and c: "c < co_nextCall s"
  shows "coordinator_ok (enter now c s)"
proof -
  let ?call = "co_calls s c"
  obtain n s1 where so: "state_object (rc_host ?call) s = (n, s1)" by fastforce
  note s1 = state_object_ok [OF ok so]
  let ?st = "co_objects s1 n"
  have idle1: "idle_call s1 c" using idle by (simp add: idle_call_def s1(4))
  have c1: "c < co_nextCall s1" using c s1(5) by simp
  have o: "object_ok s1 n" using s1(1) by (simp add: coordinator_ok_def)
  have pos: "0 \<le> rc_strength ?call" using ok by (simp add: coordinator_ok_def call_ok_def)
  show ?thesis
  proof (cases "rs_inFlight ?st")
    case (Some x)
    obtain k w where x: "x = (k, w)" by fastforce
    have w: "rc_phase (co_calls s w) = Runs n" "rc_strength (co_calls s w) = k" "rc_host (co_calls s w) = rc_host ?call"
      using o Some s1(2,4) by (simp_all add: object_ok_def Let_def x)
    then have "w \<noteq> c" using idle by (auto simp: idle_call_def)
    let ?ph = "Awaits w (\<not> rc_force ?call \<and> k \<ge> rc_strength ?call)"
    have "call_ok (set_phase c ?ph s1) c"
      using w \<open>w \<noteq> c\<close> pos s1(4) by (simp add: call_ok_def covered_by_def)
    then have "coordinator_ok (set_phase c ?ph s1)" by (rule ok_idle_moves [OF s1(1) idle1 c1])
    then show ?thesis by (simp add: enter_def so Some x Let_def)
  next
    case None
    show ?thesis
    proof (cases "\<not> rc_force ?call \<and> now - rs_lastSuccessAt ?st < co_cooldownMs s1 \<and> rs_lastSuccessStrength ?st \<ge> rc_strength ?call")
      case True
      let ?w = "rs_lastOwner ?st"
      have w: "rc_phase (co_calls s ?w) = Succeeded" "rc_strength (co_calls s ?w) = rs_lastSuccessStrength ?st"
        "rc_host (co_calls s ?w) = rc_host ?call"
        using o True pos s1(2,4) by (simp_all add: object_ok_def Let_def)
      then have "?w \<noteq> c" using idle by (auto simp: idle_call_def)
      then have "call_ok (set_phase c (Coalesced ?w) s1) c"
        using w True pos s1(4) by (simp add: call_ok_def covered_by_def)
      then have "coordinator_ok (set_phase c (Coalesced ?w) s1)" by (rule ok_idle_moves [OF s1(1) idle1 c1])
      then show ?thesis using True by (simp add: enter_def so None Let_def)
    next
      case False
      then have "enter now c s = set_phase c (Runs n)
          (s1 \<lparr>co_objects := (co_objects s1)(n := ?st \<lparr>rs_inFlight := Some (rc_strength ?call, c)\<rparr>)\<rparr>)"
        by (auto simp: enter_def so None Let_def)
      then show ?thesis using ok_starts [OF s1(1) idle1 c1 s1(3) _ None] s1(2,4) by simp
    qed
  qed
qed


lemma recovery_ok_new: "coordinator_ok (new_coordinator ms)"
  by (simp add: coordinator_ok_def object_ok_def call_ok_def new_coordinator_def fresh_state_def Let_def)

text \<open>A new call is idle until it enters.\<close>

lemma ok_added:
  assumes ok: "coordinator_ok s" and k: "0 \<le> rc_strength call" and ph: "rc_phase call \<in> {Absent, Refused}"
  shows "coordinator_ok (s \<lparr>co_calls := (co_calls s)(co_nextCall s := call), co_nextCall := Suc (co_nextCall s)\<rparr>)"
    (is "coordinator_ok ?s")
proof -
  let ?c = "co_nextCall s"
  have absent: "rc_phase (co_calls s ?c) = Absent" using ok by (simp add: coordinator_ok_def)
  then have others: "w \<noteq> ?c" if "rc_phase (co_calls s w) = Runs m \<or> rc_phase (co_calls s w) = Succeeded \<or> rc_phase (co_calls s w) = Thrown"
    for w m using that by auto
  have "object_ok ?s m" for m
  proof -
    have o: "object_ok s m" using ok by (simp add: coordinator_ok_def)
    show ?thesis
      using o others by (auto simp: object_ok_def Let_def)
  qed
  moreover have "call_ok ?s c" for c
  proof (cases "c = ?c")
    case True
    then show ?thesis using k ph by (auto simp: call_ok_def)
  next
    case False
    have o: "call_ok s c" using ok by (simp add: coordinator_ok_def)
    show ?thesis
    proof (cases "rc_phase (co_calls s c)")
      case (Awaits w decisive)
      then have "case rc_phase (co_calls s w) of Runs _ \<Rightarrow> True | Succeeded \<Rightarrow> True | Thrown \<Rightarrow> True | _ \<Rightarrow> False"
        using o by (simp add: call_ok_def)
      then have "w \<noteq> ?c" using others [of w] by (auto split: call_phase.splits)
      then show ?thesis using o Awaits False by (simp add: call_ok_def covered_by_def)
    next
      case (Coalesced w)
      then have "w \<noteq> ?c" using o others [of w] by (auto simp: call_ok_def)
      then show ?thesis using o Coalesced False by (simp add: call_ok_def covered_by_def)
    qed (use o False in \<open>simp_all add: call_ok_def\<close>)
  qed
  moreover have "rc_phase (co_calls ?s c) = Absent" if "co_nextCall ?s \<le> c" for c
    using ok that by (simp add: coordinator_ok_def)
  moreover have "m < co_nextObject ?s \<and> rs_host (co_objects ?s m) = h" if "map_get (co_states ?s) h = Some m" for h m
    using ok that by (simp add: coordinator_ok_def)
  ultimately show ?thesis unfolding coordinator_ok_def by blast
qed

lemma ok_run:
  assumes ok: "coordinator_ok s"
  shows "coordinator_ok (run_recovery host preserve force now s)"
proof -
  let ?c = "co_nextCall s"
  let ?call = "\<lambda>h ph. \<lparr>rc_host = h, rc_strength = recoveryStrength preserve, rc_force = force, rc_phase = ph\<rparr>"
  let ?add = "\<lambda>call. s \<lparr>co_calls := (co_calls s)(?c := call), co_nextCall := Suc ?c\<rparr>"
  have add: "coordinator_ok (?add (?call h ph))" if "ph \<in> {Absent, Refused}" for h ph
    using that by (intro ok_added [OF ok]) (simp_all add: recoveryStrength_def)
  have "coordinator_ok (enter now ?c (?add (?call h Absent)))" for h
    by (rule ok_enter [OF add]) (simp_all add: idle_call_def)
  then show ?thesis using add by (auto simp: run_recovery_def Let_def split: option.split)
qed

lemma recovery_ok_settle:
  assumes ok: "coordinator_ok s"
  shows "coordinator_ok (settle c b now s)"
proof (cases "rc_phase (co_calls s c)")
  case (Runs n)
  let ?st = "co_objects s n" and ?ph = "if b then Succeeded else Thrown"
  let ?st2 = "(if b then ?st \<lparr>rs_lastSuccessAt := now, rs_lastSuccessStrength := rc_strength (co_calls s c), rs_lastOwner := c\<rparr>
    else ?st) \<lparr>rs_inFlight := None\<rparr>"
  let ?s = "set_phase c ?ph (s \<lparr>co_objects := (co_objects s)(n := ?st2)\<rparr>)"
  have kc: "call_ok s c" using ok by (simp add: coordinator_ok_def)
  then have own: "rs_inFlight ?st = Some (rc_strength (co_calls s c), c)" "rs_host ?st = rc_host (co_calls s c)" "n < co_nextObject s"
    using Runs by (simp_all add: call_ok_def)
  have eq: "settle c b now s = ?s" using Runs own by (simp add: settle_def Let_def)
  have single: "m = n" if "rc_phase (co_calls s c) = Runs m" for m using that Runs by simp
  have obj: "object_ok ?s m" for m
  proof -
    let ?o = "co_objects s m"
    have o: "object_ok s m" using ok by (simp add: coordinator_ok_def)
    have last0: "rs_lastOwner ?o \<noteq> c \<and> rc_phase (co_calls s (rs_lastOwner ?o)) = Succeeded \<and>
        rc_strength (co_calls s (rs_lastOwner ?o)) = rs_lastSuccessStrength ?o \<and>
        rc_host (co_calls s (rs_lastOwner ?o)) = rs_host ?o" if "0 \<le> rs_lastSuccessStrength ?o"
    proof -
      have "rs_lastOwner ?o \<noteq> c" using o that Runs by (auto simp: object_ok_def Let_def)
      then show ?thesis using o that by (simp add: object_ok_def Let_def)
    qed
    then have last: "rc_phase (co_calls ?s (rs_lastOwner ?o)) = Succeeded \<and>
        rc_strength (co_calls ?s (rs_lastOwner ?o)) = rs_lastSuccessStrength ?o \<and>
        rc_host (co_calls ?s (rs_lastOwner ?o)) = rs_host ?o" if "0 \<le> rs_lastSuccessStrength ?o"
      using that by simp
    show ?thesis
    proof (cases "m = n")
      case True
      show ?thesis using last0 own True by (cases b) (auto simp: object_ok_def Let_def)
    next
      case False
      have "rc_phase (co_calls ?s w) = Runs m \<and> rc_strength (co_calls ?s w) = k \<and> rc_host (co_calls ?s w) = rs_host ?o"
        if "rs_inFlight ?o = Some (k, w)" for k w
      proof -
        have w: "rc_phase (co_calls s w) = Runs m \<and> rc_strength (co_calls s w) = k \<and> rc_host (co_calls s w) = rs_host ?o"
          using o that by (simp add: object_ok_def Let_def)
        then have "w \<noteq> c" using single False by blast
        then show ?thesis using w by simp
      qed
      then show ?thesis using last False unfolding object_ok_def Let_def by simp
    qed
  qed
  have call: "call_ok ?s d" for d
  proof (cases "d = c")
    case True
    then show ?thesis using kc by (simp add: call_ok_def)
  next
    case False
    have k: "call_ok s d" using ok by (simp add: coordinator_ok_def)
    show ?thesis
    proof (cases "rc_phase (co_calls s d)")
      case (Awaits w decisive)
      then show ?thesis using k False by (auto simp: call_ok_def covered_by_def split: call_phase.splits)
    next
      case (Coalesced w)
      then have "w \<noteq> c" using k Runs by (auto simp: call_ok_def)
      then show ?thesis using k Coalesced False by (simp add: call_ok_def covered_by_def)
    next
      case (Runs m)
      then have "m \<noteq> n" using k own(1) False by (auto simp: call_ok_def)
      then show ?thesis using k Runs False by (simp add: call_ok_def)
    qed (use k False in \<open>simp_all add: call_ok_def\<close>)
  qed
  have "rc_phase (co_calls ?s d) = Absent" if "co_nextCall ?s \<le> d" for d
  proof -
    have "rc_phase (co_calls s d) = Absent" using ok that by (simp add: coordinator_ok_def)
    then show ?thesis using Runs by auto
  qed
  moreover have "m < co_nextObject ?s \<and> rs_host (co_objects ?s m) = h" if "map_get (co_states ?s) h = Some m" for h m
  proof -
    have "m < co_nextObject s \<and> rs_host (co_objects s m) = h" using ok that by (simp add: coordinator_ok_def)
    then show ?thesis by auto
  qed
  ultimately show ?thesis unfolding eq coordinator_ok_def using obj call by blast
qed (use ok in \<open>simp_all add: settle_def\<close>)

lemma ok_resume:
  assumes ok: "coordinator_ok s"
  shows "coordinator_ok (resume c now s)"
proof (cases "rc_phase (co_calls s c)")
  case (Awaits w decisive)
  have idle: "idle_call s c" by (simp add: idle_call_def Awaits)
  have k: "call_ok s c" using ok by (simp add: coordinator_ok_def)
  have c: "c < co_nextCall s"
  proof (rule ccontr)
    assume "\<not> c < co_nextCall s"
    then have "rc_phase (co_calls s c) = Absent" using ok by (simp add: coordinator_ok_def)
    then show False using Awaits by simp
  qed
  have "coordinator_ok (set_phase c (Coalesced w) s)" if "rc_phase (co_calls s w) = Succeeded" decisive
  proof (rule ok_idle_moves [OF ok idle c])
    have "w \<noteq> c" using that Awaits by auto
    then show "call_ok (set_phase c (Coalesced w) s) c"
      using k that Awaits by (simp add: call_ok_def covered_by_def)
  qed
  then show ?thesis
    using ok ok_enter [OF ok idle c, of now] by (simp add: resume_def Awaits split: call_phase.split)
qed (use ok in \<open>simp_all add: resume_def\<close>)

lemma ok_states:
  assumes ok: "coordinator_ok s" and sub: "\<And>h m. map_get m' h = Some m \<Longrightarrow> map_get (co_states s) h = Some m"
  shows "coordinator_ok (s \<lparr>co_states := m'\<rparr>)"
proof -
  have "object_ok (s \<lparr>co_states := m'\<rparr>) n = object_ok s n" "call_ok (s \<lparr>co_states := m'\<rparr>) c = call_ok s c" for n c
    by (simp_all add: object_ok_def call_ok_def covered_by_def split: call_phase.split)
  then show ?thesis using ok by (auto simp: coordinator_ok_def dest!: sub)
qed

lemma ok_clear_host: "coordinator_ok s \<Longrightarrow> coordinator_ok (clear_host host s)"
proof -
  assume ok: "coordinator_ok s"
  have "coordinator_ok (s \<lparr>co_states := map_delete h (co_states s)\<rparr>)" for h
    by (rule ok_states [OF ok]) (simp add: map_get_delete split: if_splits)
  then show ?thesis using ok by (simp add: clear_host_def split: option.split)
qed

lemma ok_clearAll: "coordinator_ok s \<Longrightarrow> coordinator_ok (clearAll s)"
  using ok_states [of s "[]"] by (simp add: clearAll_def)

lemma ok_recovery_step: "coordinator_ok s \<Longrightarrow> coordinator_ok (recovery_step op s)"
  by (cases op) (simp_all add: ok_run recovery_ok_settle ok_resume ok_clear_host ok_clearAll)

lemma ok_recovery_run: "coordinator_ok (fold recovery_step ops (new_coordinator ms))"
proof -
  have "coordinator_ok s \<Longrightarrow> coordinator_ok (fold recovery_step ops s)" for s
    by (induction ops arbitrary: s) (simp_all add: ok_recovery_step)
  then show ?thesis using recovery_ok_new by blast
qed


text \<open>As long as no host is cleared, the object of a host stays the one the map has.\<close>

definition objects_current :: "coordinator \<Rightarrow> bool" where
  "objects_current s \<longleftrightarrow> (\<forall>n < co_nextObject s. map_get (co_states s) (rs_host (co_objects s n)) = Some n)"

definition is_clear :: "recovery_op \<Rightarrow> bool" where
  "is_clear op = (case op of ClearHost _ \<Rightarrow> True | ClearAll \<Rightarrow> True | _ \<Rightarrow> False)"

lemma current_object: "objects_current s \<Longrightarrow> state_object host s = (n, s1) \<Longrightarrow> objects_current s1"
  by (auto simp: objects_current_def state_object_def Let_def less_Suc_eq fresh_state_def map_get_set split: option.splits)

lemma current_phase [simp]: "objects_current (set_phase c ph s) = objects_current s"
  by (simp add: objects_current_def)

lemma current_fields:
  "objects_current s \<Longrightarrow> rs_host st = rs_host (co_objects s n) \<Longrightarrow> objects_current (s \<lparr>co_objects := (co_objects s)(n := st)\<rparr>)"
  by (auto simp: objects_current_def)

lemma current_enter: "objects_current s \<Longrightarrow> objects_current (enter now c s)"
proof -
  assume ok: "objects_current s"
  obtain n s1 where so: "state_object (rc_host (co_calls s c)) s = (n, s1)" by fastforce
  have s1: "objects_current s1" by (rule current_object [OF ok so])
  then have "objects_current (s1 \<lparr>co_objects := (co_objects s1)(n := (co_objects s1 n) \<lparr>rs_inFlight := x\<rparr>)\<rparr>)" for x
    by (rule current_fields) simp
  then show ?thesis using s1 by (simp add: enter_def so Let_def split: option.split prod.split)
qed

lemma current_step:
  assumes ok: "objects_current s" and "\<not> is_clear op"
  shows "objects_current (recovery_step op s)"
proof (cases op)
  case (Run h p f now)
  have "objects_current (s \<lparr>co_calls := cs, co_nextCall := k\<rparr>)" for cs k using ok by (simp add: objects_current_def)
  then show ?thesis
    using current_enter by (auto simp: Run run_recovery_def Let_def split: option.split)
next
  case (Settle c b now)
  have "objects_current (s \<lparr>co_objects := (co_objects s)(n := st)\<rparr>)" if "rs_host st = rs_host (co_objects s n)" for n st
    by (rule current_fields [OF ok that])
  then show ?thesis using ok by (auto simp: Settle settle_def Let_def split: call_phase.split)
next
  case (Resume c now)
  then show ?thesis using ok current_enter [OF ok] by (simp add: resume_def split: call_phase.split)
qed (use assms in \<open>simp_all add: is_clear_def\<close>)

lemma current_run: "objects_current (fold recovery_step (filter (\<lambda>op. \<not> is_clear op) ops) (new_coordinator ms))"
proof -
  have "objects_current s \<Longrightarrow> objects_current (fold recovery_step (filter (\<lambda>op. \<not> is_clear op) ops) s)" for s
    by (induction ops arbitrary: s) (simp_all add: current_step)
  moreover have "objects_current (new_coordinator ms)" by (simp add: objects_current_def new_coordinator_def)
  ultimately show ?thesis by blast
qed

lemma one_task_of_object:
  assumes "coordinator_ok s" and "rc_phase (co_calls s c) = Runs n" and "rc_phase (co_calls s d) = Runs n"
  shows "c = d"
proof -
  have "call_ok s c" "call_ok s d" using assms(1) by (simp_all add: coordinator_ok_def)
  then show ?thesis using assms(2,3) by (simp add: call_ok_def)
qed

lemma current_at: "objects_current s \<Longrightarrow> n < co_nextObject s \<Longrightarrow> map_get (co_states s) (rs_host (co_objects s n)) = Some n"
  by (simp add: objects_current_def)

lemma one_task_of_host:
  assumes ok: "coordinator_ok s" and cur: "objects_current s"
    and c: "rc_phase (co_calls s c) = Runs n" and d: "rc_phase (co_calls s d) = Runs m"
    and host: "rc_host (co_calls s c) = rc_host (co_calls s d)"
  shows "c = d"
proof -
  have "call_ok s c" "call_ok s d" using ok by (simp_all add: coordinator_ok_def)
  then have f: "rs_host (co_objects s n) = rc_host (co_calls s c)" "n < co_nextObject s"
    "rs_host (co_objects s m) = rc_host (co_calls s d)" "m < co_nextObject s"
    using c d by (simp_all add: call_ok_def)
  have "map_get (co_states s) (rs_host (co_objects s n)) = Some n" by (rule current_at [OF cur f(2)])
  moreover have "map_get (co_states s) (rs_host (co_objects s m)) = Some m"
    by (rule current_at [OF cur f(4)])
  ultimately have "n = m" using f(1,3) host by simp
  then show ?thesis using one_task_of_object [OF ok c] d by simp
qed

lemma waits_settled:
  assumes "coordinator_ok s" and "rc_phase (co_calls s c) = Awaits w decisive"
  shows "(\<exists>n. rc_phase (co_calls s w) = Runs n) \<or> rc_phase (co_calls s w) \<in> {Succeeded, Thrown}"
proof -
  have "call_ok s c" using assms(1) by (simp add: coordinator_ok_def)
  then show ?thesis using assms(2) by (cases "rc_phase (co_calls s w)") (simp_all add: call_ok_def)
qed

lemma coalesced_covered:
  assumes "coordinator_ok s" and "rc_phase (co_calls s c) = Coalesced w"
  shows "rc_phase (co_calls s w) = Succeeded \<and> covered_by s c w"
proof -
  have "call_ok s c" using assms(1) by (simp add: coordinator_ok_def)
  then show ?thesis using assms(2) by (simp add: call_ok_def)
qed

text \<open>
  C17: Recoveries of a host are coalesced only into stronger successes. Whatever is asked for, and
  however tasks end and waiting calls go on: a call that returned without running its task was not
  forced, and a call for its host of at least its strength has succeeded (so a full reset is never
  replaced by a light reconciliation, nor by a failure); a call that waits waits for a task that
  runs or has settled; and as long as no host is removed at most one recovery of a host runs.
\<close>

theorem runtime_recovery_coalesces:
  "let s = fold recovery_step ops (new_coordinator cooldownMs);
       u = fold recovery_step (filter (\<lambda>op. \<not> is_clear op) ops) (new_coordinator cooldownMs)
   in (\<nexists>c w. rc_phase (co_calls s c) = Coalesced w \<and> \<not> (rc_phase (co_calls s w) = Succeeded \<and> covered_by s c w)) \<and>
      (\<nexists>c w decisive. rc_phase (co_calls s c) = Awaits w decisive \<and>
         \<not> ((\<exists>n. rc_phase (co_calls s w) = Runs n) \<or> rc_phase (co_calls s w) \<in> {Succeeded, Thrown})) \<and>
      (\<nexists>c d n m. c \<noteq> d \<and> rc_phase (co_calls u c) = Runs n \<and> rc_phase (co_calls u d) = Runs m \<and>
         rc_host (co_calls u c) = rc_host (co_calls u d))"
proof -
  let ?s = "fold recovery_step ops (new_coordinator cooldownMs)"
  let ?u = "fold recovery_step (filter (\<lambda>op. \<not> is_clear op) ops) (new_coordinator cooldownMs)"
  have "\<nexists>c w. rc_phase (co_calls ?s c) = Coalesced w \<and> \<not> (rc_phase (co_calls ?s w) = Succeeded \<and> covered_by ?s c w)"
    using coalesced_covered [OF ok_recovery_run] by blast
  moreover have "\<nexists>c w decisive. rc_phase (co_calls ?s c) = Awaits w decisive \<and>
      \<not> ((\<exists>n. rc_phase (co_calls ?s w) = Runs n) \<or> rc_phase (co_calls ?s w) \<in> {Succeeded, Thrown})"
    using waits_settled [OF ok_recovery_run] by blast
  moreover have "\<nexists>c d n m. c \<noteq> d \<and> rc_phase (co_calls ?u c) = Runs n \<and> rc_phase (co_calls ?u d) = Runs m \<and>
      rc_host (co_calls ?u c) = rc_host (co_calls ?u d)"
    using one_task_of_host [OF ok_recovery_run current_run] by blast
  ultimately show ?thesis unfolding Let_def by (intro conjI)
qed

end
