(* ===== verification/Group_Retirement.thy ===== *)
theory Group_Retirement
  imports Prelude
begin

text \<open>
  \<open>server/forwardGroupRetirement.ts\<close>: the rules of a member that leaves a forward group go on
  serving the clients that still have its old DNS record. A batch of such rules is kept in a table
  until the record's time to live has passed after the switch, or until a fallback deadline when
  no switch is published; it is then marked as retiring, and its row is deleted once the rules
  have been removed.

  The table is the list of its rows by rising identifier, and the SQL statements are translated to
  what they select and change; each operation runs in one transaction. The text of the rule ids is
  read back as it was written. When a row was marked, and the rows that were deleted, are recorded
  for the statements only.
\<close>

definition FORWARD_GROUP_RETIREMENT_FALLBACK_MS :: int where
  "FORWARD_GROUP_RETIREMENT_FALLBACK_MS = 5 * 60 * 1000"

section \<open>Rows\<close>

datatype retirement_state = Pending | Retiring

record retirement =
  br_id :: nat
  br_groupId :: int
  br_memberId :: int
  br_hostId :: int
  br_ruleIds :: "int list"
  br_provider :: string
  br_domain :: string
  br_recordType :: string
  br_oldValue :: string
  br_startedAt :: int
  br_fallbackDeadlineAt :: int
  br_oldTtl :: int
  br_switchedAt :: "int option"
  br_switchTtl :: "int option"
  br_retireAt :: "int option"
  br_state :: retirement_state
  br_marked :: "(int \<times> bool) option"

record retirement_table =
  rt_rows :: "retirement list"
  rt_nextId :: nat
  rt_finished :: "retirement list"

definition empty_retirements :: retirement_table where
  "empty_retirements = \<lparr>rt_rows = [], rt_nextId = 1, rt_finished = []\<rparr>"

definition normalizedDomain :: "string \<Rightarrow> string" where
  "normalizedDomain domain =
     (let d = js_lower (js_trim domain) in if d \<noteq> [] \<and> last d = CHR ''.'' then butlast d else d)"

definition normalizedProvider :: "string \<Rightarrow> string" where
  "normalizedProvider provider = js_lower (js_trim provider)"

definition normalizedRecordType :: "string \<Rightarrow> string" where
  "normalizedRecordType recordType = js_upper (js_trim recordType)"

definition ttlSeconds :: "jsval \<Rightarrow> int \<Rightarrow> int" where
  "ttlSeconds value fallback =
     (case js_finite (to_number value) of
        None \<Rightarrow> fallback
      | Some q \<Rightarrow> if \<lfloor>q\<rfloor> > 0 then min \<lfloor>q\<rfloor> 2147483647 else fallback)"

text \<open>The check of \<open>readBatch\<close>: every rule id is a positive safe integer.\<close>

definition readable :: "retirement \<Rightarrow> bool" where
  "readable b \<longleftrightarrow> list_all (\<lambda>i. 0 < i \<and> i \<le> MAX_SAFE_INTEGER) (br_ruleIds b)"

section \<open>Operations\<close>

definition listForwardGroupRetirements :: "int option \<Rightarrow> retirement_table \<Rightarrow> retirement list" where
  "listForwardGroupRetirements groupId s =
     filter (\<lambda>b. groupId = None \<or> groupId = Some (br_groupId b)) (rt_rows s)"

definition getForwardGroupRetirement :: "nat \<Rightarrow> retirement_table \<Rightarrow> retirement option" where
  "getForwardGroupRetirement i s = find (\<lambda>b. br_id b = i) (rt_rows s)"

definition getProtectedForwardGroupRuleIds :: "int option \<Rightarrow> retirement_table \<Rightarrow> int list" where
  "getProtectedForwardGroupRuleIds groupId s =
     fold set_add (concat (map br_ruleIds (listForwardGroupRetirements groupId s))) []"

definition forwardGroupRetirementDeadline :: "retirement \<Rightarrow> int" where
  "forwardGroupRetirementDeadline b = (case br_retireAt b of Some t \<Rightarrow> t | None \<Rightarrow> br_fallbackDeadlineAt b)"

record create_input =
  ci_groupId :: int
  ci_memberId :: int
  ci_hostId :: int
  ci_ruleIds :: "jsnum list"
  ci_provider :: string
  ci_domain :: string
  ci_recordType :: string
  ci_oldValue :: string
  ci_oldTtl :: jsval
  ci_fallbackTtl :: jsval
  ci_startedAt :: "int option"

definition same_member :: "create_input \<Rightarrow> retirement \<Rightarrow> bool" where
  "same_member i b \<longleftrightarrow> br_groupId b = ci_groupId i \<and> br_memberId b = ci_memberId i \<and> br_hostId b = ci_hostId i"

definition new_batch :: "create_input \<Rightarrow> int \<Rightarrow> nat \<Rightarrow> retirement" where
  "new_batch i now n =
     (let startedAt = (case ci_startedAt i of Some t \<Rightarrow> t | None \<Rightarrow> now)
      in \<lparr>br_id = n, br_groupId = ci_groupId i, br_memberId = ci_memberId i, br_hostId = ci_hostId i,
          br_ruleIds = List.map_filter safe_positive (fold set_add (ci_ruleIds i) []),
          br_provider = normalizedProvider (ci_provider i), br_domain = normalizedDomain (ci_domain i),
          br_recordType = normalizedRecordType (ci_recordType i), br_oldValue = js_trim (ci_oldValue i),
          br_startedAt = startedAt, br_fallbackDeadlineAt = startedAt + FORWARD_GROUP_RETIREMENT_FALLBACK_MS,
          br_oldTtl = ttlSeconds (ci_oldTtl i) (ttlSeconds (ci_fallbackTtl i) 600),
          br_switchedAt = None, br_switchTtl = None, br_retireAt = None, br_state = Pending, br_marked = None\<rparr>)"

definition createForwardGroupRetirement ::
    "create_input \<Rightarrow> int \<Rightarrow> retirement_table \<Rightarrow> retirement \<times> retirement_table" where
  "createForwardGroupRetirement i now s =
     (case find (same_member i) (rt_rows s) of
        Some existing \<Rightarrow> (existing, s)
      | None \<Rightarrow>
          (let b = new_batch i now (rt_nextId s)
           in (b, s \<lparr>rt_rows := rt_rows s @ [b], rt_nextId := Suc (rt_nextId s)\<rparr>)))"

text \<open>An \<open>UPDATE\<close> with its condition, and the number of affected rows.\<close>

definition update_where ::
    "(retirement \<Rightarrow> bool) \<Rightarrow> (retirement \<Rightarrow> retirement) \<Rightarrow> retirement_table \<Rightarrow> nat \<times> retirement_table" where
  "update_where cond f s =
     (length (filter cond (rt_rows s)), s \<lparr>rt_rows := map (\<lambda>b. if cond b then f b else b) (rt_rows s)\<rparr>)"

record switch_input =
  si_groupId :: int
  si_provider :: string
  si_domain :: string
  si_recordType :: string
  si_value :: string
  si_ttl :: jsval

definition switch_skips :: "switch_input \<Rightarrow> int \<Rightarrow> retirement \<Rightarrow> bool" where
  "switch_skips i now b \<longleftrightarrow>
     br_state b \<noteq> Pending \<or> br_switchedAt b \<noteq> None \<or> br_startedAt b > now \<or> br_fallbackDeadlineAt b \<le> now \<or>
     br_provider b \<noteq> normalizedProvider (si_provider i) \<or> br_domain b \<noteq> normalizedDomain (si_domain i) \<or>
     br_recordType b \<noteq> normalizedRecordType (si_recordType i) \<or> br_oldValue b = js_trim (si_value i)"

definition switch_batch :: "int \<Rightarrow> int \<Rightarrow> int \<Rightarrow> retirement \<Rightarrow> retirement" where
  "switch_batch now ttl retireAt b =
     b \<lparr>br_switchedAt := Some now, br_switchTtl := Some ttl, br_retireAt := Some retireAt\<rparr>"

fun switch_loop ::
    "switch_input \<Rightarrow> int \<Rightarrow> int \<Rightarrow> retirement list \<Rightarrow> retirement_table \<Rightarrow> retirement list \<times> retirement_table" where
  "switch_loop i now ttl [] s = ([], s)"
| "switch_loop i now ttl (b # bs) s =
     (if switch_skips i now b then switch_loop i now ttl bs s
      else
        let retireAt = now + max (br_oldTtl b) ttl * 1000;
            (n, s1) = update_where
              (\<lambda>r. br_id r = br_id b \<and> br_state r = Pending \<and> br_switchedAt r = None \<and> br_fallbackDeadlineAt r > now)
              (switch_batch now ttl retireAt) s;
            (changed, s2) = switch_loop i now ttl bs s1
        in (if n > 0 then switch_batch now ttl retireAt b # changed else changed, s2))"

definition commitForwardGroupRetirementSwitch ::
    "switch_input \<Rightarrow> int \<Rightarrow> retirement_table \<Rightarrow> retirement list \<times> retirement_table" where
  "commitForwardGroupRetirementSwitch i now s =
     (if js_trim (si_value i) = [] then ([], s)
      else switch_loop i now (ttlSeconds (si_ttl i) 600) (listForwardGroupRetirements (Some (si_groupId i)) s) s)"

definition mark_batch :: "int \<Rightarrow> bool \<Rightarrow> retirement \<Rightarrow> retirement" where
  "mark_batch now force b = b \<lparr>br_state := Retiring, br_marked := Some (now, force)\<rparr>"

definition due_row :: "bool \<Rightarrow> int \<Rightarrow> retirement \<Rightarrow> bool" where
  "due_row force now r \<longleftrightarrow>
     force \<or> (br_retireAt r = None \<and> br_fallbackDeadlineAt r \<le> now) \<or>
     (case br_retireAt r of None \<Rightarrow> False | Some t \<Rightarrow> t \<le> now)"

fun mark_loop ::
    "int option \<Rightarrow> bool \<Rightarrow> int \<Rightarrow> retirement list \<Rightarrow> retirement_table \<Rightarrow> retirement list \<times> retirement_table" where
  "mark_loop hostId force now [] s = ([], s)"
| "mark_loop hostId force now (b # bs) s =
     (if hostId \<noteq> None \<and> hostId \<noteq> Some (br_hostId b) then mark_loop hostId force now bs s
      else if br_state b = Retiring then
        (let (retiring, s1) = mark_loop hostId force now bs s in (b # retiring, s1))
      else if \<not> force \<and> forwardGroupRetirementDeadline b > now then mark_loop hostId force now bs s
      else
        let (n, s1) = update_where (\<lambda>r. br_id r = br_id b \<and> br_state r = Pending \<and> due_row force now r) (mark_batch now force) s;
            (retiring, s2) = mark_loop hostId force now bs s1
        in (if n > 0 then mark_batch now force b # retiring else retiring, s2))"

definition markForwardGroupRetirementsDue ::
    "int option \<Rightarrow> int option \<Rightarrow> bool \<Rightarrow> int \<Rightarrow> retirement_table \<Rightarrow> retirement list \<times> retirement_table" where
  "markForwardGroupRetirementsDue groupId hostId force now s =
     mark_loop hostId force now (listForwardGroupRetirements groupId s) s"

definition finishForwardGroupRetirement :: "nat \<Rightarrow> retirement_table \<Rightarrow> retirement_table" where
  "finishForwardGroupRetirement i s =
     (let gone = (\<lambda>b. br_id b = i \<and> br_state b = Retiring)
      in s \<lparr>rt_rows := filter (\<lambda>b. \<not> gone b) (rt_rows s), rt_finished := rt_finished s @ filter gone (rt_rows s)\<rparr>)"

datatype retirement_op =
  Create create_input int | Switch switch_input int | MarkDue "int option" "int option" bool int | Finish nat

fun retirement_step :: "retirement_op \<Rightarrow> retirement_table \<Rightarrow> retirement_table" where
  "retirement_step (Create i now) s = snd (createForwardGroupRetirement i now s)"
| "retirement_step (Switch i now) s = snd (commitForwardGroupRetirementSwitch i now s)"
| "retirement_step (MarkDue groupId hostId force now) s = snd (markForwardGroupRetirementsDue groupId hostId force now s)"
| "retirement_step (Finish i) s = finishForwardGroupRetirement i s"

section \<open>What every row satisfies\<close>

text \<open>
  A switched batch is retired when the old and the new record have both expired; a batch that is
  retiring was forced or has reached its deadline.
\<close>

definition switch_ok :: "retirement \<Rightarrow> bool" where
  "switch_ok b \<longleftrightarrow>
     (case (br_switchedAt b, br_switchTtl b, br_retireAt b) of
        (None, None, None) \<Rightarrow> True
      | (Some t, Some ttl, Some r) \<Rightarrow>
          br_startedAt b \<le> t \<and> t < br_fallbackDeadlineAt b \<and> 0 < ttl \<and> r = t + max (br_oldTtl b) ttl * 1000
      | _ \<Rightarrow> False)"

definition mark_ok :: "retirement \<Rightarrow> bool" where
  "mark_ok b \<longleftrightarrow>
     (case br_marked b of
        None \<Rightarrow> br_state b = Pending
      | Some (t, force) \<Rightarrow> br_state b = Retiring \<and> (force \<or> forwardGroupRetirementDeadline b \<le> t))"

definition row_ok :: "retirement \<Rightarrow> bool" where
  "row_ok b \<longleftrightarrow> readable b \<and> 0 < br_oldTtl b \<and>
     br_fallbackDeadlineAt b = br_startedAt b + FORWARD_GROUP_RETIREMENT_FALLBACK_MS \<and> switch_ok b \<and> mark_ok b"

definition row_key :: "retirement \<Rightarrow> int \<times> int \<times> int" where
  "row_key b = (br_groupId b, br_memberId b, br_hostId b)"

definition table_ok :: "retirement_table \<Rightarrow> bool" where
  "table_ok s \<longleftrightarrow> list_all row_ok (rt_rows s) \<and> list_all row_ok (rt_finished s) \<and>
     list_all (\<lambda>b. br_state b = Retiring) (rt_finished s) \<and> distinct (map row_key (rt_rows s)) \<and>
     sorted_wrt (<) (map br_id (rt_rows s)) \<and>
     br_id ` set (rt_rows s) \<union> br_id ` set (rt_finished s) = {1..<rt_nextId s} \<and> 1 \<le> rt_nextId s"

lemma ttlSeconds_positive: "0 < fallback \<Longrightarrow> 0 < ttlSeconds value fallback"
  by (simp add: ttlSeconds_def split: option.split)

lemma row_ok_new: "row_ok (new_batch i now n)"
  by (auto simp: row_ok_def new_batch_def Let_def readable_def list_all_iff map_filter_def safe_positive_def
      switch_ok_def mark_ok_def ttlSeconds_positive split: option.splits if_splits)

lemma row_ok_switch:
  assumes "row_ok r" "br_state r = Pending" "br_fallbackDeadlineAt r > now" "br_startedAt r \<le> now" "0 < ttl"
    and "due = now + max (br_oldTtl r) ttl * 1000"
  shows "row_ok (switch_batch now ttl due r)"
  using assms by (auto simp: row_ok_def switch_batch_def readable_def switch_ok_def mark_ok_def split: option.splits)

lemma row_ok_mark:
  assumes "row_ok r" "due_row force now r"
  shows "row_ok (mark_batch now force r)"
  using assms by (auto simp: row_ok_def mark_batch_def readable_def switch_ok_def mark_ok_def due_row_def
      forwardGroupRetirementDeadline_def split: option.splits)

section \<open>Every operation preserves it\<close>

text \<open>An update that keeps identifiers and keys, of rows it leaves well-formed and in no final state.\<close>

lemma update_keeps:
  assumes ok: "table_ok s"
    and f: "\<And>r. r \<in> set (rt_rows s) \<Longrightarrow> cond r \<Longrightarrow> row_ok r \<Longrightarrow> row_ok (f r) \<and> br_id (f r) = br_id r \<and> row_key (f r) = row_key r"
  shows "table_ok (snd (update_where cond f s))"
proof -
  let ?g = "\<lambda>b. if cond b then f b else b"
  have rows: "\<And>r. r \<in> set (rt_rows s) \<Longrightarrow> row_ok r" using ok by (simp add: table_ok_def list_all_iff)
  have same: "map br_id (map ?g (rt_rows s)) = map br_id (rt_rows s)" "map row_key (map ?g (rt_rows s)) = map row_key (rt_rows s)"
    using f rows by (auto simp: map_eq_conv)
  have "br_id ` set (map ?g (rt_rows s)) = br_id ` set (rt_rows s)" using same(1) by (metis list.set_map)
  moreover have "list_all row_ok (map ?g (rt_rows s))" using f rows by (auto simp: list_all_iff)
  ultimately show ?thesis using ok same
    by (simp add: table_ok_def update_where_def del: map_map map_eq_conv set_map list.set_map)
qed

lemma ok_empty_retirements: "table_ok empty_retirements"
  by (simp add: table_ok_def empty_retirements_def)

lemma find_none_absent: "find P xs = None \<Longrightarrow> x \<in> set xs \<Longrightarrow> \<not> P x"
  by (simp add: find_None_iff)

lemma same_member_key: "same_member i b \<longleftrightarrow> row_key b = row_key (new_batch i now n)"
  by (auto simp: same_member_def row_key_def new_batch_def Let_def)

lemma ok_create_retirement:
  assumes ok: "table_ok s"
  shows "table_ok (snd (createForwardGroupRetirement i now s))"
proof (cases "find (same_member i) (rt_rows s)")
  case None
  let ?b = "new_batch i now (rt_nextId s)"
  have [simp]: "br_id ?b = rt_nextId s" by (simp add: new_batch_def Let_def)
  have "row_key ?b \<notin> row_key ` set (rt_rows s)"
    using None by (auto simp: find_None_iff same_member_key [of i _ now "rt_nextId s"])
  moreover have "br_id r < rt_nextId s" if "r \<in> set (rt_rows s)" for r
    using ok that by (auto simp: table_ok_def)
  moreover have "{1..<Suc (rt_nextId s)} = insert (rt_nextId s) {1..<rt_nextId s}"
    using ok by (auto simp: table_ok_def)
  ultimately show ?thesis
    using ok row_ok_new None by (simp add: table_ok_def createForwardGroupRetirement_def sorted_wrt_append Let_def)
next
  case (Some b)
  then show ?thesis using ok by (simp add: createForwardGroupRetirement_def)
qed

text \<open>The batches of a loop are the rows it was given, as far as an operation never changes them.\<close>

definition snapshot_of :: "retirement_table \<Rightarrow> retirement list \<Rightarrow> bool" where
  "snapshot_of s bs \<longleftrightarrow>
     (\<forall>b \<in> set bs. \<forall>r \<in> set (rt_rows s). br_id r = br_id b \<longrightarrow> br_oldTtl r = br_oldTtl b \<and> br_startedAt r = br_startedAt b)"

lemma snapshot_list:
  assumes "table_ok s"
  shows "snapshot_of s (listForwardGroupRetirements groupId s)"
proof -
  have "distinct (map br_id (rt_rows s))" using assms strict_sorted_iff by (auto simp: table_ok_def)
  then have "\<And>a b. a \<in> set (rt_rows s) \<Longrightarrow> b \<in> set (rt_rows s) \<Longrightarrow> br_id a = br_id b \<Longrightarrow> a = b"
    by (simp add: distinct_map inj_on_def)
  then show ?thesis by (auto simp: snapshot_of_def listForwardGroupRetirements_def)
qed

lemma snapshot_update:
  assumes "snapshot_of s (b # bs)"
    and "\<And>r. br_id (f r) = br_id r \<and> br_oldTtl (f r) = br_oldTtl r \<and> br_startedAt (f r) = br_startedAt r"
  shows "snapshot_of (snd (update_where cond f s)) bs"
  using assms unfolding snapshot_of_def update_where_def by auto

lemma switch_batch_keeps [simp]:
  "br_id (switch_batch now ttl t r) = br_id r" "br_oldTtl (switch_batch now ttl t r) = br_oldTtl r"
  "br_startedAt (switch_batch now ttl t r) = br_startedAt r" "row_key (switch_batch now ttl t r) = row_key r"
  by (simp_all add: switch_batch_def row_key_def)

lemma mark_batch_keeps [simp]:
  "br_id (mark_batch now force r) = br_id r" "row_key (mark_batch now force r) = row_key r"
  by (simp_all add: mark_batch_def row_key_def)

lemma ok_switch_loop:
  assumes "table_ok s" "snapshot_of s bs" "0 < ttl"
  shows "table_ok (snd (switch_loop i now ttl bs s))"
  using assms
proof (induction bs arbitrary: s)
  case Nil
  then show ?case by simp
next
  case (Cons b bs)
  show ?case
  proof (cases "switch_skips i now b")
    case True
    then show ?thesis using Cons by (simp add: snapshot_of_def)
  next
    case False
    let ?due = "now + max (br_oldTtl b) ttl * 1000"
    let ?cond = "\<lambda>r. br_id r = br_id b \<and> br_state r = Pending \<and> br_switchedAt r = None \<and> br_fallbackDeadlineAt r > now"
    let ?u = "update_where ?cond (switch_batch now ttl ?due) s"
    have "br_startedAt b \<le> now" using False by (simp add: switch_skips_def)
    then have "table_ok (snd ?u)"
      using Cons.prems by (intro update_keeps) (auto simp: snapshot_of_def intro!: row_ok_switch)
    moreover have "snapshot_of (snd ?u) bs" using Cons.prems(2) by (rule snapshot_update) simp
    ultimately have "table_ok (snd (switch_loop i now ttl bs (snd ?u)))" using Cons by blast
    then show ?thesis using False by (simp add: Let_def case_prod_beta)
  qed
qed

lemma ok_mark_loop:
  assumes "table_ok s"
  shows "table_ok (snd (mark_loop hostId force now bs s))"
  using assms
proof (induction bs arbitrary: s)
  case Nil
  then show ?case by simp
next
  case (Cons b bs)
  let ?u = "update_where (\<lambda>r. br_id r = br_id b \<and> br_state r = Pending \<and> due_row force now r) (mark_batch now force) s"
  have "table_ok (snd ?u)" using Cons.prems by (intro update_keeps) (auto intro: row_ok_mark)
  then have "table_ok (snd (mark_loop hostId force now bs (snd ?u)))" using Cons.IH by blast
  then show ?case using Cons.IH [OF Cons.prems] Cons.prems by (auto simp: Let_def case_prod_beta)
qed

lemma ok_finish_retirement:
  assumes "table_ok s"
  shows "table_ok (finishForwardGroupRetirement i s)"
proof -
  let ?gone = "\<lambda>b. br_id b = i \<and> br_state b = Retiring"
  have "sorted_wrt (<) (map br_id (filter (\<lambda>b. \<not> ?gone b) (rt_rows s)))"
    using assms by (simp add: table_ok_def sorted_wrt_map sorted_wrt_filter)
  moreover have "br_id ` set (filter (\<lambda>b. \<not> ?gone b) (rt_rows s)) \<union> br_id ` set (rt_finished s @ filter ?gone (rt_rows s)) =
      br_id ` set (rt_rows s) \<union> br_id ` set (rt_finished s)" by auto
  ultimately show ?thesis
    using assms by (simp add: table_ok_def finishForwardGroupRetirement_def list_all_iff distinct_map_filter ball_Un)
qed

lemma ok_retirement_step: "table_ok s \<Longrightarrow> table_ok (retirement_step op s)"
  by (cases op) (simp_all add: ok_create_retirement commitForwardGroupRetirementSwitch_def ok_switch_loop snapshot_list
      ttlSeconds_positive markForwardGroupRetirementsDue_def ok_mark_loop ok_finish_retirement)

lemma ok_retirement_run: "table_ok (fold retirement_step ops empty_retirements)"
proof -
  have "table_ok s \<Longrightarrow> table_ok (fold retirement_step ops s)" for s
    by (induction ops arbitrary: s) (simp_all add: ok_retirement_step)
  then show ?thesis using ok_empty_retirements .
qed

section \<open>What marking returns\<close>

definition in_scope :: "int option \<Rightarrow> int option \<Rightarrow> retirement \<Rightarrow> bool" where
  "in_scope groupId hostId b \<longleftrightarrow>
     (groupId = None \<or> groupId = Some (br_groupId b)) \<and> (hostId = None \<or> hostId = Some (br_hostId b))"

text \<open>Marking as one pass over the rows.\<close>

definition mark_row :: "int option \<Rightarrow> bool \<Rightarrow> int \<Rightarrow> retirement \<Rightarrow> retirement" where
  "mark_row hostId force now r =
     (if (hostId = None \<or> hostId = Some (br_hostId r)) \<and> br_state r = Pending \<and> due_row force now r
      then mark_batch now force r else r)"

lemma due_deadline:
  "row_ok r \<Longrightarrow> due_row force now r \<longleftrightarrow> force \<or> forwardGroupRetirementDeadline r \<le> now"
  by (auto simp: due_row_def forwardGroupRetirementDeadline_def split: option.split)

definition rows_of :: "nat \<Rightarrow> retirement list \<Rightarrow> retirement list" where
  "rows_of i rows = filter (\<lambda>r. br_id r = i) rows"

lemma rows_of_update:
  assumes "\<And>r. cond r \<Longrightarrow> br_id r = j" "\<And>r. br_id (f r) = br_id r" "i \<noteq> j"
  shows "rows_of i (rt_rows (snd (update_where cond f s))) = rows_of i (rt_rows s)"
proof -
  have "filter (\<lambda>r. br_id r = i) (map (\<lambda>b. if cond b then f b else b) rows) = filter (\<lambda>r. br_id r = i) rows" for rows
    using assms by (induction rows) auto
  then show ?thesis by (simp add: rows_of_def update_where_def)
qed

lemma update_one:
  assumes one: "rows_of i (rt_rows s) = [b]" and cond: "\<And>r. cond r \<longleftrightarrow> br_id r = i \<and> P r"
  shows "fst (update_where cond f s) > 0 \<longleftrightarrow> P b"
    and "rt_rows (snd (update_where cond f s)) = map (\<lambda>r. if br_id r = i \<and> P r then f r else r) (rt_rows s)"
proof -
  have "filter cond (rt_rows s) = filter P (rows_of i (rt_rows s))"
    unfolding rows_of_def filter_filter by (rule filter_cong) (auto simp: cond)
  then show "fst (update_where cond f s) > 0 \<longleftrightarrow> P b" using one by (simp add: update_where_def)
  show "rt_rows (snd (update_where cond f s)) = map (\<lambda>r. if br_id r = i \<and> P r then f r else r) (rt_rows s)"
    by (simp add: update_where_def cond)
qed

lemma mark_loop_exact:
  assumes "distinct (map br_id bs)" "\<forall>b \<in> set bs. rows_of (br_id b) (rt_rows s) = [b] \<and> row_ok b"
  shows "fst (mark_loop hostId force now bs s) =
           filter (\<lambda>b. in_scope None hostId b \<and> br_state b = Retiring) (map (mark_row hostId force now) bs) \<and>
         rt_rows (snd (mark_loop hostId force now bs s)) =
           map (\<lambda>r. if br_id r \<in> br_id ` set bs then mark_row hostId force now r else r) (rt_rows s)"
  using assms
proof (induction bs arbitrary: s)
  case Nil
  then show ?case by simp
next
  case (Cons b bs)
  let ?P = "\<lambda>r. br_state r = Pending \<and> due_row force now r"
  let ?u = "update_where (\<lambda>r. br_id r = br_id b \<and> br_state r = Pending \<and> due_row force now r) (mark_batch now force) s"
  have one: "rows_of (br_id b) (rt_rows s) = [b]" and ok: "row_ok b" using Cons.prems by auto
  have mine: "\<And>r. r \<in> set (rt_rows s) \<Longrightarrow> br_id r = br_id b \<Longrightarrow> r = b"
    using arg_cong [OF one, of set] by (auto simp: rows_of_def)
  have rest: "\<forall>x \<in> set bs. rows_of (br_id x) (rt_rows (snd ?u)) = [x] \<and> row_ok x"
  proof
    fix x assume x: "x \<in> set bs"
    then have "br_id x \<in> set (map br_id bs)" by simp
    then have "br_id x \<noteq> br_id b" using Cons.prems(1) by (metis distinct.simps(2) list.map(2))
    then have "rows_of (br_id x) (rt_rows (snd ?u)) = rows_of (br_id x) (rt_rows s)"
      by (intro rows_of_update [where j = "br_id b"]) simp_all
    then show "rows_of (br_id x) (rt_rows (snd ?u)) = [x] \<and> row_ok x" using Cons.prems(2) x by simp
  qed
  have dist: "distinct (map br_id bs)" "br_id b \<notin> br_id ` set bs" using Cons.prems(1) by auto
  have idle: "\<forall>x \<in> set bs. rows_of (br_id x) (rt_rows s) = [x] \<and> row_ok x" using Cons.prems(2) by simp
  note IH = Cons.IH [OF dist(1) rest] Cons.IH [OF dist(1) idle]
  have n: "fst ?u > 0 \<longleftrightarrow> ?P b" using one by (intro update_one(1)) simp_all
  have rows: "rt_rows (snd ?u) = map (\<lambda>r. if br_id r = br_id b \<and> ?P r then mark_batch now force r else r) (rt_rows s)"
    by (simp add: update_where_def)
  have due: "due_row force now b \<longleftrightarrow> force \<or> forwardGroupRetirementDeadline b \<le> now" using ok by (rule due_deadline)
  show ?case
  proof (cases "(hostId = None \<or> hostId = Some (br_hostId b)) \<and> ?P b")
    case True
    then have "mark_loop hostId force now (b # bs) s =
        (mark_batch now force b # fst (mark_loop hostId force now bs (snd ?u)), snd (mark_loop hostId force now bs (snd ?u)))"
      using n due by (auto simp: Let_def case_prod_beta)
    moreover have "mark_row hostId force now b = mark_batch now force b" using True by (simp add: mark_row_def)
    moreover have "(if br_id r \<in> br_id ` set (b # bs) then mark_row hostId force now r else r) =
        (let r' = if br_id r = br_id b \<and> ?P r then mark_batch now force r else r
         in if br_id r' \<in> br_id ` set bs then mark_row hostId force now r' else r')" if "r \<in> set (rt_rows s)" for r
      using True dist(2) mine [OF that] by (auto simp: Let_def mark_row_def)
    ultimately show ?thesis using IH(1) True unfolding rows
      by (auto simp: in_scope_def mark_batch_def Let_def)
  next
    case False
    then have "mark_row hostId force now b = b" by (auto simp: mark_row_def)
    moreover have "mark_loop hostId force now (b # bs) s =
        (if in_scope None hostId b \<and> br_state b = Retiring then b # fst (mark_loop hostId force now bs s)
         else fst (mark_loop hostId force now bs s), snd (mark_loop hostId force now bs s))"
      using False due by (cases "br_state b") (auto simp: Let_def case_prod_beta in_scope_def)
    moreover have "(if br_id r \<in> br_id ` set (b # bs) then mark_row hostId force now r else r) =
        (if br_id r \<in> br_id ` set bs then mark_row hostId force now r else r)" if "r \<in> set (rt_rows s)" for r
      using dist(2) mine [OF that] calculation(1) by auto
    ultimately show ?thesis using IH(2) by auto
  qed
qed

lemma rows_of_distinct:
  assumes "distinct (map br_id rows)" "b \<in> set rows"
  shows "rows_of (br_id b) rows = [b]"
  using assms
proof (induction rows)
  case Nil
  then show ?case by simp
next
  case (Cons a rows)
  have "br_id a \<notin> set (map br_id rows)" using Cons.prems(1) by simp
  then have "rows_of (br_id a) rows = []" by (auto simp: rows_of_def filter_empty_conv image_iff)
  moreover have "b \<noteq> a \<Longrightarrow> br_id b \<in> set (map br_id rows)" using Cons.prems(2) by simp
  then have "br_id b = br_id a \<Longrightarrow> b = a" using Cons.prems(1) by (metis distinct.simps(2) list.map(2))
  ultimately show ?case using Cons by (cases "b = a") (auto simp: rows_of_def)
qed

lemma table_ids_distinct: "table_ok s \<Longrightarrow> distinct (map br_id (rt_rows s))"
  by (simp add: table_ok_def strict_sorted_iff)

lemma mark_row_keeps [simp]:
  "br_id (mark_row hostId force now r) = br_id r" "br_groupId (mark_row hostId force now r) = br_groupId r"
  "br_hostId (mark_row hostId force now r) = br_hostId r"
  by (simp_all add: mark_row_def mark_batch_def)

lemma mark_due_exact:
  assumes ok: "table_ok s" and u_def: "u = snd (markForwardGroupRetirementsDue groupId hostId force now s)"
  shows "fst (markForwardGroupRetirementsDue groupId hostId force now s) =
           filter (\<lambda>b. in_scope groupId hostId b \<and> br_state b = Retiring) (rt_rows u)"
    and "rt_rows u = map (\<lambda>r. if in_scope groupId None r then mark_row hostId force now r else r) (rt_rows s)"
proof -
  let ?bs = "listForwardGroupRetirements groupId s"
  have bs: "?bs = filter (in_scope groupId None) (rt_rows s)"
    by (simp add: listForwardGroupRetirements_def in_scope_def fun_eq_iff cong: filter_cong)
  have dist: "distinct (map br_id (rt_rows s))" using ok by (rule table_ids_distinct)
  have "distinct (map br_id ?bs)" unfolding bs by (rule distinct_map_filter [OF dist])
  moreover have "\<forall>b \<in> set ?bs. rows_of (br_id b) (rt_rows s) = [b] \<and> row_ok b"
    using ok rows_of_distinct [OF dist] unfolding bs by (auto simp: table_ok_def list_all_iff)
  ultimately have loop: "fst (mark_loop hostId force now ?bs s) =
        filter (\<lambda>b. in_scope None hostId b \<and> br_state b = Retiring) (map (mark_row hostId force now) ?bs)"
      "rt_rows (snd (mark_loop hostId force now ?bs s)) =
        map (\<lambda>r. if br_id r \<in> br_id ` set ?bs then mark_row hostId force now r else r) (rt_rows s)"
    using mark_loop_exact by blast+
  have inj: "inj_on br_id (set (rt_rows s))" using dist by (simp add: distinct_map)
  have "br_id r \<in> br_id ` set ?bs \<longleftrightarrow> in_scope groupId None r" if "r \<in> set (rt_rows s)" for r
    using that inj_on_image_mem_iff [OF inj that, of "set ?bs"] unfolding bs by auto
  then show rows: "rt_rows u = map (\<lambda>r. if in_scope groupId None r then mark_row hostId force now r else r) (rt_rows s)"
    using loop(2) by (simp add: u_def markForwardGroupRetirementsDue_def)
  have "filter (\<lambda>b. in_scope None hostId b \<and> br_state b = Retiring) (map g (filter (in_scope groupId None) xs)) =
      filter (\<lambda>b. in_scope groupId hostId b \<and> br_state b = Retiring) (map (\<lambda>r. if in_scope groupId None r then g r else r) xs)"
    if "g = mark_row hostId force now" for g xs
    using that by (induction xs) (auto simp: in_scope_def)
  then show "fst (markForwardGroupRetirementsDue groupId hostId force now s) =
           filter (\<lambda>b. in_scope groupId hostId b \<and> br_state b = Retiring) (rt_rows u)"
    using loop(1) rows bs by (simp add: markForwardGroupRetirementsDue_def)
qed

lemma mark_due_complete:
  assumes ok: "table_ok s"
    and "b \<in> set (rt_rows (snd (markForwardGroupRetirementsDue groupId hostId force now s)))"
    and "in_scope groupId hostId b" "br_state b = Pending"
  shows "\<not> force \<and> now < forwardGroupRetirementDeadline b"
proof -
  obtain r where r: "r \<in> set (rt_rows s)" "b = (if in_scope groupId None r then mark_row hostId force now r else r)"
    using assms(2) unfolding mark_due_exact(2) [OF ok refl] by auto
  have "row_ok r" using ok r(1) by (simp add: table_ok_def list_all_iff)
  then show ?thesis using r(2) assms(3,4) due_deadline [of r force now]
    by (auto simp: in_scope_def mark_row_def mark_batch_def split: if_splits)
qed

lemma finish_all:
  "rt_rows (fold finishForwardGroupRetirement ids s) =
     filter (\<lambda>b. \<not> (br_id b \<in> set ids \<and> br_state b = Retiring)) (rt_rows s)"
proof (induction ids arbitrary: s)
  case Nil
  then show ?case by simp
next
  case (Cons i ids)
  show ?case unfolding fold_Cons o_apply Cons.IH by (simp add: finishForwardGroupRetirement_def) (rule filter_cong; auto)
qed

section \<open>Retirement\<close>

text \<open>
  C8: The rules of a leaving member are kept for as long as clients may use its old record. After any
  sequence of operations, every batch that was created is in the table or was finished, no member
  has two, and a batch that was finished had been marked as retiring by force or no earlier than its
  deadline; the deadline of a batch whose switch was published in time is the instant of the switch
  plus the longer of the two times to live, that of any other batch five minutes after its start.
  The rules of the batches in the table are protected.
\<close>

theorem forward_group_retirement_safe:
  "let s = fold retirement_step ops empty_retirements;
       batches = set (rt_rows s) \<union> set (rt_finished s)
   in br_id ` batches = {1..<rt_nextId s} \<and> distinct (map row_key (rt_rows s)) \<and>
      (\<nexists>b. b \<in> set (rt_finished s) \<and>
         \<not> (\<exists>t force. br_marked b = Some (t, force) \<and> (force \<or> forwardGroupRetirementDeadline b \<le> t))) \<and>
      (\<nexists>b. b \<in> batches \<and> \<not> (br_switchedAt b = None \<and> forwardGroupRetirementDeadline b = br_startedAt b + 5 * 60 * 1000 \<or>
         (\<exists>t ttl. br_switchedAt b = Some t \<and> br_switchTtl b = Some ttl \<and> br_startedAt b \<le> t \<and>
            t < br_startedAt b + 5 * 60 * 1000 \<and>
            forwardGroupRetirementDeadline b = t + max (br_oldTtl b) ttl * 1000))) \<and>
      (\<nexists>b i. b \<in> set (rt_rows s) \<and> i \<in> set (br_ruleIds b) \<and>
         i \<notin> set (getProtectedForwardGroupRuleIds (Some (br_groupId b)) s))"
proof -
  let ?s = "fold retirement_step ops empty_retirements"
  have ok: "table_ok ?s" by (rule ok_retirement_run)
  then have rows: "\<And>b. b \<in> set (rt_rows ?s) \<union> set (rt_finished ?s) \<Longrightarrow> row_ok b"
    by (auto simp: table_ok_def list_all_iff)
  have "\<And>b. b \<in> set (rt_finished ?s) \<Longrightarrow>
      \<exists>t force. br_marked b = Some (t, force) \<and> (force \<or> forwardGroupRetirementDeadline b \<le> t)"
    using rows ok by (fastforce simp: table_ok_def list_all_iff row_ok_def mark_ok_def split: option.splits)
  moreover have "\<And>b. row_ok b \<Longrightarrow> br_switchedAt b = None \<and> forwardGroupRetirementDeadline b = br_startedAt b + 5 * 60 * 1000 \<or>
      (\<exists>t ttl. br_switchedAt b = Some t \<and> br_switchTtl b = Some ttl \<and> br_startedAt b \<le> t \<and>
         t < br_startedAt b + 5 * 60 * 1000 \<and> forwardGroupRetirementDeadline b = t + max (br_oldTtl b) ttl * 1000)"
    by (auto simp: row_ok_def switch_ok_def forwardGroupRetirementDeadline_def FORWARD_GROUP_RETIREMENT_FALLBACK_MS_def
        split: option.splits)
  moreover have "\<And>b i. b \<in> set (rt_rows ?s) \<Longrightarrow> i \<in> set (br_ruleIds b) \<Longrightarrow>
      i \<in> set (getProtectedForwardGroupRuleIds (Some (br_groupId b)) ?s)"
    by (auto simp: getProtectedForwardGroupRuleIds_def set_fold_set_add listForwardGroupRetirements_def)
  ultimately show ?thesis using ok rows by (simp add: Let_def table_ok_def image_Un) blast
qed

text \<open>
  Marking finds every batch that is due. Whatever happened before, marking within a group, a host,
  both or neither returns exactly the batches of that scope that are retiring afterwards; a batch
  of the scope that is still pending has not reached its deadline, and none is when the marking is
  forced; finishing what was returned leaves no retiring batch of the scope and touches no other.
\<close>

theorem retirements_due_exact:
  "let s = fold retirement_step ops empty_retirements;
       (due, u) = markForwardGroupRetirementsDue groupId hostId force now s
   in due = filter (\<lambda>b. in_scope groupId hostId b \<and> br_state b = Retiring) (rt_rows u) \<and>
      (\<nexists>b. b \<in> set (rt_rows u) \<and> in_scope groupId hostId b \<and> br_state b = Pending \<and>
         (force \<or> forwardGroupRetirementDeadline b \<le> now)) \<and>
      rt_rows (fold finishForwardGroupRetirement (map br_id due) u) =
        filter (\<lambda>b. \<not> (in_scope groupId hostId b \<and> br_state b = Retiring)) (rt_rows u)"
proof -
  let ?s = "fold retirement_step ops empty_retirements"
  let ?m = "markForwardGroupRetirementsDue groupId hostId force now ?s"
  have ok: "table_ok ?s" by (rule ok_retirement_run)
  have "table_ok (retirement_step (MarkDue groupId hostId force now) ?s)" by (rule ok_retirement_step [OF ok])
  then have inj: "inj_on br_id (set (rt_rows (snd ?m)))" using table_ids_distinct by (fastforce simp: distinct_map)
  have due: "fst ?m = filter (\<lambda>b. in_scope groupId hostId b \<and> br_state b = Retiring) (rt_rows (snd ?m))"
    by (rule mark_due_exact(1) [OF ok refl])
  have "br_id b \<in> set (map br_id (fst ?m)) \<longleftrightarrow> b \<in> set (fst ?m)" if "b \<in> set (rt_rows (snd ?m))" for b
    using that inj_on_image_mem_iff [OF inj that, of "set (fst ?m)"] unfolding due by auto
  then have "rt_rows (fold finishForwardGroupRetirement (map br_id (fst ?m)) (snd ?m)) =
      filter (\<lambda>b. \<not> (in_scope groupId hostId b \<and> br_state b = Retiring)) (rt_rows (snd ?m))"
    unfolding finish_all by (intro filter_cong) (auto simp: due)
  then show ?thesis using due mark_due_complete [OF ok] by (simp add: Let_def case_prod_beta) (meson not_less)
qed

end
