(* ===== verification/Exit_Plan.thy ===== *)
theory Exit_Plan
  imports Prelude
begin

text \<open>
  \<open>shared/exitStrategy.ts\<close>, \<open>shared/tunnelRelay.ts\<close>, \<open>shared/hostTrafficPolicy.ts\<close>,
  \<open>server/tunnelExitStrategy.ts\<close> and \<open>server/hostTrafficRuntimePlan.ts\<close>: which exits a tunnel uses,
  when a host has used up its traffic, and what of a tunnel takes part while such hosts are left
  out. Rows of the database have integer identifiers and ports; columns that drivers return as
  booleans, numbers or strings are scalars.
\<close>

section \<open>Strategies and policies\<close>

datatype exit_strategy = NoExit | Fallback | RoundRobin | RandomExit | IpHash

definition normalizeExitGroupStrategy :: "jsval \<Rightarrow> exit_strategy" where
  "normalizeExitGroupStrategy value =
     (let t = js_lower (js_trim (js_text value)) in
      if t = ''none'' then NoExit else if t = ''fallback'' then Fallback else if t = ''random'' then RandomExit
      else if t = ''ip_hash'' then IpHash else RoundRobin)"

definition exitGroupUsesMultipleExits :: "jsval \<Rightarrow> bool" where
  "exitGroupUsesMultipleExits value \<longleftrightarrow> normalizeExitGroupStrategy value \<noteq> NoExit"

definition relay_failover :: "jsval \<Rightarrow> bool" where
  "relay_failover value \<longleftrightarrow> js_lower (js_trim (js_text value)) = ''failover''"

definition tunnelRelayFailoverSupported :: "jsval \<Rightarrow> bool" where
  "tunnelRelayFailoverSupported mode \<longleftrightarrow>
     js_lower (js_trim (js_text mode)) \<in> set [''forwardx'', ''tls'', ''wss'', ''tcp'', ''mtls'', ''mwss'', ''mtcp'']"

definition tunnelRelayCandidates :: "'a list \<Rightarrow> 'a list" where
  "tunnelRelayCandidates hops = (if length hops \<ge> 3 then butlast (tl hops) else [])"

definition isTunnelRelayFailover :: "jsval \<Rightarrow> jsval \<Rightarrow> 'a list \<Rightarrow> bool" where
  "isTunnelRelayFailover relayMode mode hops \<longleftrightarrow>
     relay_failover relayMode \<and> tunnelRelayFailoverSupported mode \<and> length (tunnelRelayCandidates hops) \<ge> 2"

definition hostPolicyBool :: "jsval \<Rightarrow> bool" where
  "hostPolicyBool value \<longleftrightarrow> value \<in> {JBool True, JNum (Fin 1), JStr ''1'', JStr ''true''}"

text \<open>\<open>Number(value) || 0\<close> and \<open>Number(value || 0)\<close>.\<close>

definition number_or_0 :: "jsval \<Rightarrow> jsnum" where
  "number_or_0 value = (if to_number value = NaN then Fin 0 else to_number value)"

definition number_of_or_0 :: "jsval \<Rightarrow> jsnum" where
  "number_of_or_0 value = (if js_truthy value then to_number value else Fin 0)"

text \<open>\<open>bytesIn + bytesOut\<close> of counters that are not negative.\<close>

definition hostTrafficUsageBytes :: "jsval \<Rightarrow> jsval \<Rightarrow> jsval \<Rightarrow> jsnum" where
  "hostTrafficUsageBytes bytesIn bytesOut mode =
     (let i = js_max (Fin 0) (number_or_0 bytesIn); out = js_max (Fin 0) (number_or_0 bytesOut) in
      if mode = JStr ''outbound'' then out else if mode = JStr ''max'' then js_max i out else js_add i out)"

definition normalizeHostTrafficFailoverPercent :: "jsval \<Rightarrow> int" where
  "normalizeHostTrafficFailoverPercent value =
     (case (if value = JUndef \<or> value = JNull then Some 100 else js_finite (to_number value)) of
        Some q \<Rightarrow> min 100 (max 1 \<lfloor>q\<rfloor>) | None \<Rightarrow> 100)"

record traffic_policy =
  tp_trafficLimit :: jsval
  tp_trafficMeasureMode :: jsval
  tp_trafficFailoverEnabled :: jsval
  tp_trafficFailoverThresholdPercent :: jsval
  tp_trafficFailoverExcluded :: jsval

text \<open>\<open>limit * percent / 100\<close> of a positive limit.\<close>

definition shouldExcludeHostForTraffic :: "traffic_policy \<Rightarrow> jsval \<Rightarrow> jsval \<Rightarrow> bool" where
  "shouldExcludeHostForTraffic host bytesIn bytesOut \<longleftrightarrow>
     (let limit = number_or_0 (tp_trafficLimit host);
          threshold = (case limit of
            Fin q \<Rightarrow> Fin (q * of_int (normalizeHostTrafficFailoverPercent (tp_trafficFailoverThresholdPercent host)) / 100)
          | n \<Rightarrow> n)
      in hostPolicyBool (tp_trafficFailoverEnabled host) \<and> js_lt (Fin 0) limit \<and>
         js_le threshold (hostTrafficUsageBytes bytesIn bytesOut (tp_trafficMeasureMode host)))"

definition hostTrafficExcluded :: "traffic_policy option \<Rightarrow> bool" where
  "hostTrafficExcluded host \<longleftrightarrow>
     (case host of None \<Rightarrow> False
      | Some h \<Rightarrow> hostPolicyBool (tp_trafficFailoverEnabled h) \<and> js_lt (Fin 0) (to_number (tp_trafficLimit h)) \<and>
          hostPolicyBool (tp_trafficFailoverExcluded h))"

section \<open>Exits of a group\<close>

record exit_member =
  em_hostId :: "int option"
  em_connectHost :: "string option"
  em_priority :: "int option"
  em_isEnabled :: jsval

record exit_snapshot =
  es_hostId :: "int option"
  es_listenPort :: "int option"
  es_mimicPort :: "int option"

record exit_endpoint =
  pe_hostId :: int
  pe_listenPort :: int
  pe_mimicPort :: int
  pe_connectHost :: "string option"

abbreviation or_0 :: "int option \<Rightarrow> int" where
  "or_0 n \<equiv> (case n of None \<Rightarrow> 0 | Some i \<Rightarrow> i)"

definition memberEnabled :: "jsval \<Rightarrow> bool" where
  "memberEnabled value =
     (case value of
        JUndef \<Rightarrow> True
      | JNull \<Rightarrow> True
      | JBool b \<Rightarrow> b
      | JNum n \<Rightarrow> n \<noteq> Fin 0
      | JStr s \<Rightarrow> (if s = [] then True else js_lower (js_trim s) \<notin> {''0'', ''false''}))"

definition existing_by_host :: "exit_snapshot list \<Rightarrow> (int, exit_snapshot) jsmap" where
  "existing_by_host endpoints =
     fold (\<lambda>e m. let h = or_0 (es_hostId e) in if h > 0 \<and> \<not> map_has m h then map_set h e m else m) endpoints []"

text \<open>The filter with the set of hosts it has seen.\<close>

fun first_of_hosts :: "int list \<Rightarrow> exit_member list \<Rightarrow> exit_member list" where
  "first_of_hosts seen [] = []"
| "first_of_hosts seen (m # ms) =
     (let h = or_0 (em_hostId m) in
      if h \<le> 0 \<or> h \<in> set seen then first_of_hosts seen ms else m # first_of_hosts (set_add h seen) ms)"

definition endpoint_of :: "(int, exit_snapshot) jsmap \<Rightarrow> exit_member \<Rightarrow> exit_endpoint" where
  "endpoint_of existing m =
     (let h = or_0 (em_hostId m);
          port = (\<lambda>field. case map_get existing h of None \<Rightarrow> 0 | Some e \<Rightarrow> or_0 (field e));
          name = js_trim (case em_connectHost m of None \<Rightarrow> [] | Some s \<Rightarrow> s)
      in \<lparr>pe_hostId = h, pe_listenPort = port es_listenPort, pe_mimicPort = port es_mimicPort,
          pe_connectHost = (if name = [] then None else Some name)\<rparr>)"

definition planExitGroupTunnelEndpoints :: "exit_member list \<Rightarrow> exit_snapshot list \<Rightarrow> exit_endpoint list" where
  "planExitGroupTunnelEndpoints members endpoints =
     map (endpoint_of (existing_by_host endpoints))
       (first_of_hosts [] (filter (\<lambda>m. memberEnabled (em_isEnabled m)) (sort_key (\<lambda>m. or_0 (em_priority m)) members)))"

definition forwardXExitStrategy :: "jsval \<Rightarrow> exit_strategy" where
  "forwardXExitStrategy value =
     (let strategy = normalizeExitGroupStrategy value in if strategy = NoExit then RoundRobin else strategy)"

definition shouldUseFastTunnelFailover :: "jsnum \<Rightarrow> bool \<Rightarrow> bool" where
  "shouldUseFastTunnelFailover exitCandidateCount relayFailover \<longleftrightarrow> relayFailover \<or> js_lt (Fin 1) exitCandidateCount"

record exit_selector =
  xs_strategy :: string
  xs_maxFails :: int
  xs_failTimeout :: string

definition gostExitSelector :: "jsval \<Rightarrow> exit_selector" where
  "gostExitSelector value =
     (let strategy = normalizeExitGroupStrategy value in
      \<lparr>xs_strategy = (case strategy of Fallback \<Rightarrow> ''fifo'' | RandomExit \<Rightarrow> ''random'' | IpHash \<Rightarrow> ''hash'' | _ \<Rightarrow> ''round''),
       xs_maxFails = 1,
       xs_failTimeout = (if strategy = Fallback then ''5s'' else ''15s'')\<rparr>)"

section \<open>Participation of hosts that have used up their traffic\<close>

record tunnel_row =
  tr_entryGroupId :: int
  tr_exitGroupId :: int
  tr_loadBalanceEnabled :: jsval
  tr_relayMode :: jsval
  tr_mode :: jsval
  tr_isEnabled :: jsval
  tr_entryHostId :: int
  tr_exitHostId :: int
  tr_listenPort :: "int option"
  tr_mimicPort :: "int option"
  tr_connectHost :: "string option"

record hop_row =
  hr_hostId :: int
  hr_listenPort :: "int option"
  hr_mimicPort :: "int option"
  hr_connectHost :: "string option"

record exit_row =
  er_id :: int
  er_seq :: int
  er_hostId :: int
  er_isEnabled :: jsval
  er_listenPort :: "int option"
  er_mimicPort :: "int option"
  er_connectHost :: "string option"

record traffic_plan =
  pl_tunnel :: tunnel_row
  pl_hops :: "hop_row list"
  pl_exits :: "exit_row list"
  pl_entryHostIds :: "int list"
  pl_promotedExit :: "exit_row option"

definition grouped_entries :: "tunnel_row \<Rightarrow> bool" where
  "grouped_entries t \<longleftrightarrow> tr_entryGroupId t > 0"

definition grouped_exits :: "tunnel_row \<Rightarrow> bool" where
  "grouped_exits t \<longleftrightarrow> tr_exitGroupId t > 0 \<or> hostPolicyBool (tr_loadBalanceEnabled t)"

definition null_or_true :: "jsval \<Rightarrow> jsval" where
  "null_or_true value = (if value = JUndef \<or> value = JNull then JBool True else value)"

definition disable_tunnel :: "tunnel_row \<Rightarrow> tunnel_row" where
  "disable_tunnel t = t \<lparr>tr_isEnabled := JBool False\<rparr>"

text \<open>The entry: the first host of the entry group that is left takes the place of one that is out.\<close>

definition plan_entry ::
    "int list \<Rightarrow> int list \<Rightarrow> tunnel_row \<Rightarrow> hop_row list \<Rightarrow> tunnel_row \<times> hop_row list" where
  "plan_entry entryHostIds excluded t hops =
     (let t1 = (if grouped_entries t \<and> \<not> grouped_exits t \<and> tr_exitHostId t \<in> set excluded then disable_tunnel t else t);
          t2 = (if grouped_entries t \<and> entryHostIds = [] then disable_tunnel t1 else t1)
      in if grouped_entries t \<and> tr_entryHostId t2 \<in> set excluded \<and> entryHostIds \<noteq> [] then
           (t2 \<lparr>tr_entryHostId := hd entryHostIds\<rparr>,
            if hops \<noteq> [] then hops[0 := (hops ! 0) \<lparr>hr_hostId := hd entryHostIds\<rparr>] else hops)
         else (t2, hops))"

text \<open>The exit: the enabled exit with the least sequence number is promoted.\<close>

definition plan_exit ::
    "int list \<Rightarrow> tunnel_row \<Rightarrow> hop_row list \<Rightarrow> exit_row list \<Rightarrow>
     tunnel_row \<times> hop_row list \<times> exit_row list \<times> exit_row option" where
  "plan_exit excluded t hops exits =
     (if grouped_exits t \<and> tr_exitHostId t \<in> set excluded then
        (case sort_key er_seq (filter (\<lambda>n. hostPolicyBool (er_isEnabled n)) exits) of
           [] \<Rightarrow> (disable_tunnel t, hops, exits, None)
         | p # _ \<Rightarrow>
             (let name = (if er_connectHost p = Some [] then None else er_connectHost p);
                  last_hop = (\<lambda>h. h \<lparr>hr_hostId := er_hostId p, hr_listenPort := er_listenPort p,
                                     hr_mimicPort := er_mimicPort p, hr_connectHost := name\<rparr>)
              in (t \<lparr>tr_exitHostId := er_hostId p, tr_listenPort := er_listenPort p, tr_mimicPort := er_mimicPort p,
                     tr_connectHost := name\<rparr>,
                  if length hops \<ge> 2 then hops[length hops - 1 := last_hop (hops ! (length hops - 1))] else hops,
                  filter (\<lambda>n. er_id n \<noteq> er_id p) exits, Some p)))
      else (t, hops, exits, None))"

text \<open>The transit hops; \<open>relay\<close> is the result of \<open>isTunnelRelayFailover\<close> for the tunnel as it was.\<close>

definition keep_hop :: "int list \<Rightarrow> nat \<Rightarrow> nat \<times> hop_row \<Rightarrow> bool" where
  "keep_hop excluded n p \<longleftrightarrow> fst p = 0 \<or> fst p = n - 1 \<or> hr_hostId (snd p) \<notin> set excluded"

definition plan_transit ::
    "int list \<Rightarrow> bool \<Rightarrow> tunnel_row \<Rightarrow> hop_row list \<Rightarrow> tunnel_row \<times> hop_row list" where
  "plan_transit excluded relay t hops =
     (if grouped_entries t \<or> grouped_exits t \<or> relay then
        (let transit = butlast (tl hops) in
         if js_string (tr_relayMode t) = ''failover'' then
           (let kept = map snd (filter (keep_hop excluded (length hops)) (enumerate 0 hops))
            in (if transit \<noteq> [] \<and> length kept = 2 then disable_tunnel t else t, kept))
         else (if \<exists>h \<in> set transit. hr_hostId h \<in> set excluded then disable_tunnel t else t, hops))
      else (t, hops))"

definition planTunnelTrafficParticipation ::
    "tunnel_row \<Rightarrow> hop_row list \<Rightarrow> exit_row list \<Rightarrow> int list \<Rightarrow> int list \<Rightarrow> traffic_plan" where
  "planTunnelTrafficParticipation tunnel hops exits entryIds excluded =
     (let entryHostIds = (if grouped_entries tunnel then filter (\<lambda>i. i \<notin> set excluded) entryIds else entryIds);
          exits1 = map (\<lambda>n. n \<lparr>er_isEnabled := JBool (hostPolicyBool (null_or_true (er_isEnabled n)) \<and>
            (\<not> grouped_exits tunnel \<or> er_hostId n \<notin> set excluded))\<rparr>) exits;
          (t1, hops1) = plan_entry entryHostIds excluded tunnel hops;
          (t2, hops2, exits2, promoted) = plan_exit excluded t1 hops1 exits1;
          (t3, hops3) = plan_transit excluded (isTunnelRelayFailover (tr_relayMode tunnel) (tr_mode tunnel) hops) t2 hops2
      in \<lparr>pl_tunnel = t3, pl_hops = hops3, pl_exits = exits2, pl_entryHostIds = entryHostIds, pl_promotedExit = promoted\<rparr>)"

record group_rule =
  gr_forwardGroupId :: int
  gr_isForwardGroupTemplate :: jsval
  gr_hostId :: int

definition groupRuleTrafficBlocked :: "group_rule \<Rightarrow> int list \<Rightarrow> int list \<Rightarrow> bool" where
  "groupRuleTrafficBlocked rule excluded chainHostIds \<longleftrightarrow>
     gr_forwardGroupId rule > 0 \<and> \<not> hostPolicyBool (gr_isForwardGroupTemplate rule) \<and>
     (gr_hostId rule \<in> set excluded \<or> list_ex (\<lambda>i. i \<in> set excluded) chainHostIds)"

section \<open>The planned endpoints\<close>

lemma first_of_hosts_distinct:
  "distinct (map (\<lambda>m. or_0 (em_hostId m)) (first_of_hosts seen ms)) \<and>
   set (map (\<lambda>m. or_0 (em_hostId m)) (first_of_hosts seen ms)) = {h \<in> (\<lambda>m. or_0 (em_hostId m)) ` set ms. 0 < h} - set seen"
proof (induction ms arbitrary: seen)
  case Nil
  then show ?case by simp
next
  case (Cons m ms)
  show ?case
  proof (cases "or_0 (em_hostId m) \<le> 0 \<or> or_0 (em_hostId m) \<in> set seen")
    case True
    then have "{h \<in> (\<lambda>m. or_0 (em_hostId m)) ` set (m # ms). 0 < h} - set seen =
        {h \<in> (\<lambda>m. or_0 (em_hostId m)) ` set ms. 0 < h} - set seen" by auto
    then show ?thesis using True Cons.IH [of seen] by (simp add: Let_def)
  next
    case False
    then show ?thesis using Cons.IH [of "set_add (or_0 (em_hostId m)) seen"] by (auto simp: Let_def)
  qed
qed

text \<open>Every host of an enabled member is planned once.\<close>

lemma planned_hosts:
  "distinct (map pe_hostId (planExitGroupTunnelEndpoints members endpoints))"
  "set (map pe_hostId (planExitGroupTunnelEndpoints members endpoints)) =
     {h. 0 < h \<and> (\<exists>m \<in> set members. memberEnabled (em_isEnabled m) \<and> or_0 (em_hostId m) = h)}"
proof -
  have hosts: "map pe_hostId (map (endpoint_of existing) ms) = map (\<lambda>m. or_0 (em_hostId m)) ms" for existing ms
    by (simp add: endpoint_of_def Let_def)
  show "distinct (map pe_hostId (planExitGroupTunnelEndpoints members endpoints))"
    unfolding planExitGroupTunnelEndpoints_def hosts using first_of_hosts_distinct by blast
  show "set (map pe_hostId (planExitGroupTunnelEndpoints members endpoints)) =
     {h. 0 < h \<and> (\<exists>m \<in> set members. memberEnabled (em_isEnabled m) \<and> or_0 (em_hostId m) = h)}"
    unfolding planExitGroupTunnelEndpoints_def hosts using first_of_hosts_distinct
    by (auto simp: image_iff)
qed

section \<open>Hosts that are left out take no part\<close>

text \<open>The hops of a tunnel begin at its entry and end at its exit.\<close>

definition route_ends :: "tunnel_row \<Rightarrow> hop_row list \<Rightarrow> bool" where
  "route_ends t hops \<longleftrightarrow>
     hops = [] \<or> (length hops \<ge> 2 \<and> hr_hostId (hd hops) = tr_entryHostId t \<and> hr_hostId (last hops) = tr_exitHostId t)"

abbreviation off :: "tunnel_row \<Rightarrow> bool" where
  "off t \<equiv> tr_isEnabled t = JBool False"

lemma disable_tunnel_simps [simp]:
  "off (disable_tunnel t)" "tr_entryHostId (disable_tunnel t) = tr_entryHostId t"
  "tr_exitHostId (disable_tunnel t) = tr_exitHostId t" "grouped_entries (disable_tunnel t) = grouped_entries t"
  "grouped_exits (disable_tunnel t) = grouped_exits t" "tr_relayMode (disable_tunnel t) = tr_relayMode t"
  "route_ends (disable_tunnel t) hops = route_ends t hops"
  by (simp_all add: disable_tunnel_def grouped_entries_def grouped_exits_def route_ends_def)

lemma long_list: "2 \<le> length xs \<Longrightarrow> \<exists>a m z. xs = a # m @ [z]"
  by (cases xs; cases "tl xs" rule: rev_cases) auto

lemma plan_entry_sound:
  assumes "route_ends t hops" "plan_entry (filter (\<lambda>i. i \<notin> set excluded) ids) excluded t hops = (t1, hops1)"
  shows "route_ends t1 hops1 \<and> grouped_entries t1 = grouped_entries t \<and> grouped_exits t1 = grouped_exits t \<and>
    tr_relayMode t1 = tr_relayMode t \<and>
    (\<not> grouped_entries t \<longrightarrow> tr_entryHostId t1 = tr_entryHostId t) \<and>
    (grouped_entries t \<longrightarrow> off t1 \<or> tr_entryHostId t1 \<notin> set excluded) \<and>
    (grouped_entries t \<and> \<not> grouped_exits t \<longrightarrow> off t1 \<or> tr_exitHostId t1 \<notin> set excluded)"
proof -
  let ?ids = "filter (\<lambda>i. i \<notin> set excluded) ids"
  have hd: "?ids \<noteq> [] \<Longrightarrow> hd ?ids \<notin> set excluded" using hd_in_set [of ?ids] by auto
  define u1 where "u1 = (if grouped_entries t \<and> \<not> grouped_exits t \<and> tr_exitHostId t \<in> set excluded then disable_tunnel t else t)"
  define t2 where "t2 = (if grouped_entries t \<and> ?ids = [] then disable_tunnel u1 else u1)"
  have plan: "plan_entry ?ids excluded t hops =
      (if grouped_entries t \<and> tr_entryHostId t2 \<in> set excluded \<and> ?ids \<noteq> [] then
         (t2 \<lparr>tr_entryHostId := hd ?ids\<rparr>, if hops \<noteq> [] then hops[0 := (hops ! 0) \<lparr>hr_hostId := hd ?ids\<rparr>] else hops)
       else (t2, hops))" by (simp only: plan_entry_def Let_def u1_def t2_def)
  have t2: "route_ends t2 hops" "grouped_entries t2 = grouped_entries t" "grouped_exits t2 = grouped_exits t"
    "tr_relayMode t2 = tr_relayMode t" "tr_entryHostId t2 = tr_entryHostId t" "tr_exitHostId t2 = tr_exitHostId t"
    "grouped_entries t \<Longrightarrow> ?ids = [] \<Longrightarrow> off t2"
    "grouped_entries t \<Longrightarrow> \<not> grouped_exits t \<Longrightarrow> off t2 \<or> tr_exitHostId t \<notin> set excluded"
    using assms(1) by (simp_all add: t2_def u1_def)
  show ?thesis
  proof (cases "grouped_entries t \<and> tr_entryHostId t2 \<in> set excluded \<and> ?ids \<noteq> []")
    case True
    then have t1: "t1 = t2 \<lparr>tr_entryHostId := hd ?ids\<rparr>"
      and h1: "hops1 = (if hops \<noteq> [] then hops[0 := (hops ! 0) \<lparr>hr_hostId := hd ?ids\<rparr>] else hops)"
      using assms(2) unfolding plan by simp_all
    have "route_ends t1 hops1" using t2(1) unfolding t1 h1 by (cases hops) (auto simp: route_ends_def)
    then show ?thesis using True t2 hd unfolding t1 by (simp add: grouped_entries_def grouped_exits_def)
  next
    case False
    then have "t1 = t2 \<and> hops1 = hops" using assms(2) unfolding plan if_not_P [OF False] by simp
    then show ?thesis using False t2 by auto
  qed
qed

lemma plan_exit_sound:
  assumes ends: "route_ends t hops" and plan: "plan_exit excluded t hops exits = (t1, hops1, exits1, promoted)"
    and out: "\<And>n. n \<in> set exits \<Longrightarrow> hostPolicyBool (er_isEnabled n) \<Longrightarrow> er_hostId n \<notin> set excluded"
  shows "route_ends t1 hops1 \<and> grouped_entries t1 = grouped_entries t \<and> grouped_exits t1 = grouped_exits t \<and>
    tr_relayMode t1 = tr_relayMode t \<and> tr_entryHostId t1 = tr_entryHostId t \<and> (off t \<longrightarrow> off t1) \<and>
    (\<not> grouped_exits t \<longrightarrow> tr_exitHostId t1 = tr_exitHostId t) \<and>
    (grouped_exits t \<longrightarrow> off t1 \<or> tr_exitHostId t1 \<notin> set excluded)"
proof (cases "grouped_exits t \<and> tr_exitHostId t \<in> set excluded")
  case False
  then show ?thesis using ends plan by (auto simp: plan_exit_def)
next
  case True
  show ?thesis
  proof (cases "sort_key er_seq (filter (\<lambda>n. hostPolicyBool (er_isEnabled n)) exits)")
    case Nil
    then show ?thesis using True ends plan by (auto simp: plan_exit_def)
  next
    case (Cons p ps)
    then have "p \<in> set (sort_key er_seq (filter (\<lambda>n. hostPolicyBool (er_isEnabled n)) exits))" by simp
    then have p: "er_hostId p \<notin> set excluded" using out by simp
    obtain name where t1: "t1 = t \<lparr>tr_exitHostId := er_hostId p, tr_listenPort := er_listenPort p,
          tr_mimicPort := er_mimicPort p, tr_connectHost := name\<rparr>"
      and h1: "hops1 = (if length hops \<ge> 2 then hops[length hops - 1 := (hops ! (length hops - 1))
          \<lparr>hr_hostId := er_hostId p, hr_listenPort := er_listenPort p, hr_mimicPort := er_mimicPort p, hr_connectHost := name\<rparr>]
        else hops)"
      using True Cons plan by (auto simp: plan_exit_def Let_def)
    have "hops = [] \<or> (\<exists>a m z. hops = a # m @ [z])" using ends long_list by (auto simp: route_ends_def)
    then have "route_ends t1 hops1" using ends unfolding t1 h1 route_ends_def
      by (auto simp: list_update_append nth_append)
    then show ?thesis using p True unfolding t1 by (simp add: grouped_entries_def grouped_exits_def)
  qed
qed

lemma kept_hops:
  "map snd (filter (keep_hop excluded (length (a # m @ [z]))) (enumerate 0 (a # m @ [z]))) =
     a # filter (\<lambda>h. hr_hostId h \<notin> set excluded) m @ [z]"
proof -
  have "map snd (filter (keep_hop excluded n) (enumerate k m)) = filter (\<lambda>h. hr_hostId h \<notin> set excluded) m"
    if "0 < k" "k + length m < n" for k n
    using that by (induction m arbitrary: k) (auto simp: keep_hop_def)
  from this [of 1 "length (a # m @ [z])"] show ?thesis
    by (simp add: enumerate_append_eq keep_hop_def)
qed

lemma plan_transit_sound:
  assumes ends: "route_ends t hops" and grouped: "grouped_entries t \<or> grouped_exits t"
    and plan: "plan_transit excluded relay t hops = (t1, hops1)"
  shows "tr_entryHostId t1 = tr_entryHostId t \<and> tr_exitHostId t1 = tr_exitHostId t \<and> (off t \<longrightarrow> off t1) \<and>
    (off t1 \<or> (\<forall>h \<in> set hops1. hr_hostId h \<in> set excluded \<longrightarrow> hr_hostId h \<in> {tr_entryHostId t, tr_exitHostId t}))"
proof (cases "hops = []")
  case True
  then show ?thesis using grouped plan by (auto simp: plan_transit_def Let_def split: if_splits)
next
  case False
  then have "2 \<le> length hops" using ends by (simp add: route_ends_def)
  then obtain a m z where hops: "hops = a # m @ [z]" using long_list by blast
  have az: "hr_hostId a = tr_entryHostId t" "hr_hostId z = tr_exitHostId t" using ends by (auto simp: route_ends_def hops)
  have g: "grouped_entries t \<or> grouped_exits t \<or> relay" using grouped by blast
  show ?thesis
  proof (cases "js_string (tr_relayMode t) = ''failover''")
    case True
    have "hops1 = a # filter (\<lambda>h. hr_hostId h \<notin> set excluded) m @ [z]" "t1 = t \<or> t1 = disable_tunnel t"
      using plan unfolding plan_transit_def if_P [OF g] Let_def if_P [OF True] hops kept_hops by (simp_all split: if_splits)
    then show ?thesis using az by auto
  next
    case False
    have "hops1 = hops" "t1 = (if \<exists>h \<in> set m. hr_hostId h \<in> set excluded then disable_tunnel t else t)"
      using plan unfolding plan_transit_def if_P [OF g] Let_def if_not_P [OF False] hops by simp_all
    then show ?thesis using az by (auto simp: hops split: if_splits)
  qed
qed

lemma plan_keeps:
  "(grouped_entries t \<longrightarrow>
      set (pl_entryHostIds (planTunnelTrafficParticipation t hops exits entryIds excluded)) = set entryIds - set excluded) \<and>
   (grouped_exits t \<longrightarrow>
      (\<forall>n \<in> set (pl_exits (planTunnelTrafficParticipation t hops exits entryIds excluded)).
         er_hostId n \<in> set excluded \<longrightarrow> \<not> hostPolicyBool (er_isEnabled n)))"
proof -
  have sub: "set (fst (snd (snd (plan_exit excluded t1 hops1 xs)))) \<subseteq> set xs" for t1 hops1 xs
    by (auto simp: plan_exit_def Let_def split: list.split)
  show ?thesis
    using sub by (fastforce simp: planTunnelTrafficParticipation_def Let_def case_prod_beta hostPolicyBool_def)
qed

lemma traffic_plan_excludes:
  assumes ends: "route_ends t hops" and grouped: "grouped_entries t \<or> grouped_exits t"
    and plan: "planTunnelTrafficParticipation t hops exits entryIds excluded = plan"
  shows "off (pl_tunnel plan) \<or>
    (tr_exitHostId (pl_tunnel plan) \<notin> set excluded \<and>
     (grouped_entries t \<longrightarrow> tr_entryHostId (pl_tunnel plan) \<notin> set excluded) \<and>
     (\<forall>h \<in> set (pl_hops plan). hr_hostId h \<in> set excluded \<longrightarrow> \<not> grouped_entries t \<and> hr_hostId h = tr_entryHostId t))"
proof -
  let ?ids = "if grouped_entries t then filter (\<lambda>i. i \<notin> set excluded) entryIds else entryIds"
  let ?exits = "map (\<lambda>n. n \<lparr>er_isEnabled := JBool (hostPolicyBool (null_or_true (er_isEnabled n)) \<and>
      (\<not> grouped_exits t \<or> er_hostId n \<notin> set excluded))\<rparr>) exits"
  obtain t1 hops1 where p1: "plan_entry ?ids excluded t hops = (t1, hops1)" by fastforce
  obtain t2 hops2 exits2 pr where p2: "plan_exit excluded t1 hops1 ?exits = (t2, hops2, exits2, pr)"
    by (cases "plan_exit excluded t1 hops1 ?exits")
  let ?relay = "isTunnelRelayFailover (tr_relayMode t) (tr_mode t) hops"
  obtain t3 hops3 where p3: "plan_transit excluded ?relay t2 hops2 = (t3, hops3)" by fastforce
  have plan3: "pl_tunnel plan = t3" "pl_hops plan = hops3"
    using plan p1 p2 p3 by (auto simp: planTunnelTrafficParticipation_def Let_def)
  have s1: "route_ends t1 hops1 \<and> grouped_entries t1 = grouped_entries t \<and> grouped_exits t1 = grouped_exits t \<and>
    (\<not> grouped_entries t \<longrightarrow> tr_entryHostId t1 = tr_entryHostId t) \<and>
    (grouped_entries t \<longrightarrow> off t1 \<or> tr_entryHostId t1 \<notin> set excluded) \<and>
    (grouped_entries t \<and> \<not> grouped_exits t \<longrightarrow> off t1 \<or> tr_exitHostId t1 \<notin> set excluded)"
  proof (cases "grouped_entries t")
    case True
    then show ?thesis using plan_entry_sound [OF ends, of excluded entryIds] p1 by simp
  next
    case False
    then show ?thesis using p1 ends by (auto simp: plan_entry_def)
  qed
  have s2: "route_ends t2 hops2 \<and> grouped_entries t2 = grouped_entries t \<and> grouped_exits t2 = grouped_exits t \<and>
    tr_entryHostId t2 = tr_entryHostId t1 \<and> (off t1 \<longrightarrow> off t2) \<and>
    (\<not> grouped_exits t \<longrightarrow> tr_exitHostId t2 = tr_exitHostId t1) \<and>
    (grouped_exits t \<longrightarrow> off t2 \<or> tr_exitHostId t2 \<notin> set excluded)"
  proof (cases "grouped_exits t")
    case True
    have out: "er_hostId n \<notin> set excluded" if "n \<in> set ?exits" "hostPolicyBool (er_isEnabled n)" for n
      using that True by (auto simp: hostPolicyBool_def)
    have "route_ends t1 hops1" using s1 by blast
    from plan_exit_sound [OF this p2 out] s1 show ?thesis by blast
  next
    case False
    then have "\<not> (grouped_exits t1 \<and> tr_exitHostId t1 \<in> set excluded)" using s1 by blast
    then have same: "\<not> (grouped_exits t1 \<and> tr_exitHostId t1 \<in> set excluded)" .
    have "t2 = t1" "hops2 = hops1" using p2 unfolding plan_exit_def if_not_P [OF same] by simp_all
    then show ?thesis using s1 False by blast
  qed
  have "route_ends t2 hops2" "grouped_entries t2 \<or> grouped_exits t2" using s2 grouped by blast+
  from plan_transit_sound [OF this p3]
  have s3: "tr_entryHostId t3 = tr_entryHostId t2 \<and> tr_exitHostId t3 = tr_exitHostId t2 \<and> (off t2 \<longrightarrow> off t3) \<and>
    (off t3 \<or> (\<forall>h \<in> set hops3. hr_hostId h \<in> set excluded \<longrightarrow> hr_hostId h \<in> {tr_entryHostId t2, tr_exitHostId t2}))" .
  show ?thesis
  proof (cases "off t3")
    case False
    then have "\<not> off t2" "\<not> off t1" using s2 s3 by blast+
    then have e: "tr_exitHostId t3 \<notin> set excluded" "grouped_entries t \<Longrightarrow> tr_entryHostId t3 \<notin> set excluded"
      "\<not> grouped_entries t \<Longrightarrow> tr_entryHostId t3 = tr_entryHostId t"
      using s1 s2 s3 grouped by metis+
    then show ?thesis using s3 False unfolding plan3 by force
  qed (simp add: plan3)
qed

text \<open>
  C22: Hosts that have used up their traffic take no part in a grouped tunnel. When a tunnel has an
  entry group or several exits, and its hops run from its entry to its exit, then its plan is
  disabled or its exit is not left out, nor is its entry if the entries are a group, nor any hop,
  except a fixed entry; and of a group's entry hosts and enabled exits none is left out.
\<close>

theorem exhausted_hosts_take_no_part:
  assumes "route_ends t hops" and "grouped_entries t \<or> grouped_exits t"
  shows "let plan = planTunnelTrafficParticipation t hops exits entryIds excluded; u = pl_tunnel plan
    in (tr_isEnabled u = JBool False \<or>
        (tr_exitHostId u \<notin> set excluded \<and> (grouped_entries t \<longrightarrow> tr_entryHostId u \<notin> set excluded) \<and>
         (\<forall>h \<in> set (pl_hops plan). hr_hostId h \<in> set excluded \<longrightarrow> \<not> grouped_entries t \<and> hr_hostId h = tr_entryHostId t))) \<and>
       (grouped_entries t \<longrightarrow> set (pl_entryHostIds plan) = set entryIds - set excluded) \<and>
       (grouped_exits t \<longrightarrow> (\<forall>n \<in> set (pl_exits plan). er_hostId n \<in> set excluded \<longrightarrow> \<not> hostPolicyBool (er_isEnabled n)))"
  using traffic_plan_excludes [OF assms refl] plan_keeps [of t hops exits entryIds excluded] unfolding Let_def by blast

theorem exhausted_hosts_take_no_part_witness:
  "let t = \<lparr>tr_entryGroupId = 1, tr_exitGroupId = 2, tr_loadBalanceEnabled = JNull, tr_relayMode = JStr ''failover'',
            tr_mode = JStr ''tls'', tr_isEnabled = JBool True, tr_entryHostId = 1, tr_exitHostId = 4,
            tr_listenPort = None, tr_mimicPort = None, tr_connectHost = None\<rparr>;
       hops = map (\<lambda>i. \<lparr>hr_hostId = i, hr_listenPort = None, hr_mimicPort = None, hr_connectHost = None\<rparr>) [1, 2, 3, 4]
   in route_ends t hops \<and> tr_isEnabled (pl_tunnel (planTunnelTrafficParticipation t hops [] [5] [1])) \<noteq> JBool False \<and>
      tr_entryHostId (pl_tunnel (planTunnelTrafficParticipation t hops [] [5] [1])) \<notin> {1}"
proof -
  define t where "t = \<lparr>tr_entryGroupId = 1, tr_exitGroupId = 2, tr_loadBalanceEnabled = JNull, tr_relayMode = JStr ''failover'',
            tr_mode = JStr ''tls'', tr_isEnabled = JBool True, tr_entryHostId = 1, tr_exitHostId = 4,
            tr_listenPort = None, tr_mimicPort = None, tr_connectHost = None\<rparr>"
  define hops where "hops = map (\<lambda>i. \<lparr>hr_hostId = i, hr_listenPort = None, hr_mimicPort = None, hr_connectHost = None\<rparr>) [1, 2, 3, 4]"
  have "route_ends t hops" "grouped_entries t \<or> grouped_exits t"
    by (simp_all add: t_def hops_def route_ends_def grouped_entries_def)
  moreover have "tr_isEnabled (pl_tunnel (planTunnelTrafficParticipation t hops [] [5] [1])) \<noteq> JBool False"
    unfolding t_def hops_def by code_simp
  moreover have "grouped_entries t" by (simp add: t_def grouped_entries_def)
  ultimately show ?thesis
    using exhausted_hosts_take_no_part [of t hops "[]" "[5]" "[1]"] unfolding Let_def t_def [symmetric] hops_def [symmetric]
    by simp
qed

end
