(* ===== verification/Link_Availability.thy ===== *)
theory Link_Availability
  imports Exit_Plan
begin

text \<open>
  \<open>client/src/lib/linkAvailability.ts\<close>, which the panel and its server share: whether tunnels and
  forward groups are available, and which members of a group can be used, from the freshest probe,
  the state of hosts and the configuration.

  Hosts are objects that are merged property by property, so they are maps from names to values; a
  tunnel, a group and a member are records of the properties that are read, an array that is
  missing being empty. Messages are the constructors of \<open>message\<close>; their texts are looked up
  elsewhere. \<open>parse_date\<close> stands for reading a date from a text.
\<close>

section \<open>Values\<close>

type_synonym host = "(string, jsval) jsmap"

definition field_of :: "host \<Rightarrow> string \<Rightarrow> jsval" where
  "field_of h k = (case map_get h k of None \<Rightarrow> JUndef | Some v \<Rightarrow> v)"

definition opt_field :: "host option \<Rightarrow> string \<Rightarrow> jsval" where
  "opt_field h k = (case h of None \<Rightarrow> JUndef | Some h \<Rightarrow> field_of h k)"

text \<open>\<open>{ ...a, ...b }\<close>.\<close>

definition spread :: "host \<Rightarrow> host \<Rightarrow> host" where
  "spread a b = fold (\<lambda>p m. map_set (fst p) (snd p) m) b a"

datatype link_label = LTunnel | LChain | LPort | LEntryGroup | LExitGroup | LGroup | LRelay | LMultiExit

datatype message =
  MDisabled link_label | MIncomplete link_label | MReachable int | MUnreachable | MWaitHosts
| MOfflineRequired link_label | MNoHosts link_label | MAllOffline link_label | MSomeOffline link_label
| MAllOnline link_label | MTunnelHosts | MNoEntryGroup | MEntryGroupUnusable | MNoExitGroup | MExitGroupUnusable
| MChainMember | MChainMembers | MPortHostOrGroup | MPortHost | MNoMembers link_label | MEntryDomain | MGroupDomain
| MNoAddress string | MDdnsError | MText string | MWaitHealth | MHealthFailed | MHealth string | MWaitSni

datatype link_status = Disabled | Available | Degraded | Waiting | Unavailable
datatype link_source = Probe | Hosts | Config

record link_state =
  ls_status :: link_status
  ls_available :: bool
  ls_source :: link_source
  ls_message :: message
  ls_hosts :: "jsnum list"
  ls_members :: "jsnum list"

record node =
  nd_id :: jsnum
  nd_available :: bool

type_synonym node_set = "link_label \<times> node list"

datatype time_value = DateValue jsnum | OtherTime jsval

record probe_input =
  pi_latencyMs :: jsval
  pi_isTimeout :: jsval
  pi_at :: time_value

record summary_input =
  sm_status :: jsval
  sm_available :: jsval
  sm_source :: jsval
  sm_message :: jsval
  sm_memberIds :: "jsval list"

definition LINK_PROBE_FRESH_MS :: int where
  "LINK_PROBE_FRESH_MS = 6 * 60 * 1000"

definition LINK_PROBE_MAX_FUTURE_SKEW_MS :: int where
  "LINK_PROBE_MAX_FUTURE_SKEW_MS = 60 * 1000"

definition positive_number :: "jsnum \<Rightarrow> bool" where
  "positive_number n \<longleftrightarrow> (case js_finite n of None \<Rightarrow> False | Some q \<Rightarrow> q > 0)"

section \<open>Probes\<close>

definition timestampMillis :: "(string \<Rightarrow> jsnum) \<Rightarrow> time_value \<Rightarrow> jsnum" where
  "timestampMillis parse_date value =
     (case value of
        DateValue t \<Rightarrow> t
      | OtherTime v \<Rightarrow>
          (case (case v of JNum n \<Rightarrow> js_finite n | _ \<Rightarrow> None) of
             Some q \<Rightarrow> if q > 0 \<and> q < 1000000000000 then Fin (q * 1000) else Fin q
           | None \<Rightarrow> (case js_finite (parse_date (js_text v)) of Some q \<Rightarrow> Fin q | None \<Rightarrow> Fin 0)))"

definition fresh_at :: "jsnum \<Rightarrow> int \<Rightarrow> bool" where
  "fresh_at recordedAt now \<longleftrightarrow>
     (case js_finite recordedAt of
        None \<Rightarrow> False
      | Some t \<Rightarrow> t > 0 \<and> t \<le> of_int (now + LINK_PROBE_MAX_FUTURE_SKEW_MS) \<and> of_int now - t \<le> of_int LINK_PROBE_FRESH_MS)"

text \<open>\<open>Some True\<close> stands for available, \<open>Some False\<close> for unavailable.\<close>

definition resolveFreshLinkProbe :: "(string \<Rightarrow> jsnum) \<Rightarrow> probe_input option \<Rightarrow> int \<Rightarrow> bool option" where
  "resolveFreshLinkProbe parse_date probe now =
     (case probe of
        None \<Rightarrow> None
      | Some p \<Rightarrow>
          if \<not> fresh_at (timestampMillis parse_date (pi_at p)) now then None
          else if js_truthy (pi_isTimeout p) then Some False
          else if pi_latencyMs p \<noteq> JNull \<and> pi_latencyMs p \<noteq> JUndef \<and>
            (case js_finite (to_number (pi_latencyMs p)) of None \<Rightarrow> False | Some q \<Rightarrow> q \<ge> 0)
          then Some True else None)"

section \<open>Resolution\<close>

definition link_result :: "link_status \<Rightarrow> link_source \<Rightarrow> message \<Rightarrow> jsnum list \<Rightarrow> link_state" where
  "link_result status source message ids =
     \<lparr>ls_status = status, ls_available = (status = Available \<or> status = Degraded), ls_source = source, ls_message = message,
      ls_hosts = fold set_add (filter positive_number ids) [], ls_members = []\<rparr>"

definition status_named :: "jsval \<Rightarrow> link_status option" where
  "status_named v =
     (if v = JStr ''disabled'' then Some Disabled else if v = JStr ''available'' then Some Available
      else if v = JStr ''degraded'' then Some Degraded else if v = JStr ''pending'' then Some Waiting
      else if v = JStr ''unavailable'' then Some Unavailable else None)"

definition source_named :: "jsval \<Rightarrow> link_source option" where
  "source_named v =
     (if v = JStr ''probe'' then Some Probe else if v = JStr ''hosts'' then Some Hosts
      else if v = JStr ''config'' then Some Config else None)"

definition resultFromSummary :: "summary_input option \<Rightarrow> link_state option" where
  "resultFromSummary summary =
     (case summary of
        None \<Rightarrow> None
      | Some s \<Rightarrow>
          (case (status_named (sm_status s), source_named (sm_source s)) of
             (Some status, Some source) \<Rightarrow>
               (let state = link_result status source (MHealth (js_text (sm_message s))) [];
                    ids = filter (\<lambda>n. positive_int n \<noteq> None) (map to_number (sm_memberIds s))
                in Some (state \<lparr>ls_available := (if sm_available s = JUndef then status = Available \<or> status = Degraded
                                                 else sm_available s = JBool True),
                                ls_members := fold set_add ids []\<rparr>))
           | _ \<Rightarrow> None))"

record resolve_input =
  ri_label :: link_label
  ri_enabled :: bool
  ri_configurationValid :: bool
  ri_configurationMessage :: "message option"
  ri_probe :: "probe_input option"
  ri_hostsLoaded :: bool
  ri_requiredNodes :: "node list"
  ri_alternativeNodeSets :: "node_set list"

text \<open>\<open>Math.round(Number(value) || 0)\<close> of a finite value.\<close>

definition round_latency :: "jsval \<Rightarrow> int" where
  "round_latency v = (case js_finite (to_number v) of None \<Rightarrow> 0 | Some q \<Rightarrow> \<lfloor>q + 1 / 2\<rfloor>)"

definition usable_ids :: "node list \<Rightarrow> node_set list \<Rightarrow> jsnum list" where
  "usable_ids required alternatives =
     fold set_add (map nd_id (filter nd_available (required @ concat (map snd alternatives)))) []"

text \<open>The loop over the alternatives; \<open>missing\<close> is \<open>hasUnavailableAlternative\<close>.\<close>

fun check_alternatives :: "link_label \<Rightarrow> jsnum list \<Rightarrow> bool \<Rightarrow> node_set list \<Rightarrow> link_state" where
  "check_alternatives label ids missing [] =
     (if missing then link_result Degraded Hosts (MSomeOffline label) ids
      else link_result Available Hosts (MAllOnline label) ids)"
| "check_alternatives label ids missing (s # sets) =
     (let online = length (filter nd_available (snd s)) in
      if snd s = [] then link_result Unavailable Config (MNoHosts (fst s)) ids
      else if online = 0 then link_result Unavailable Hosts (MAllOffline (fst s)) ids
      else check_alternatives label ids (missing \<or> online < length (snd s)) sets)"

definition resolveLinkAvailability :: "(string \<Rightarrow> jsnum) \<Rightarrow> resolve_input \<Rightarrow> int \<Rightarrow> link_state" where
  "resolveLinkAvailability parse_date i now =
     (if \<not> ri_enabled i then link_result Disabled Config (MDisabled (ri_label i)) []
      else if \<not> ri_configurationValid i then
        link_result Unavailable Config
          (case ri_configurationMessage i of None \<Rightarrow> MIncomplete (ri_label i) | Some m \<Rightarrow> m) []
      else
        case resolveFreshLinkProbe parse_date (ri_probe i) now of
          Some True \<Rightarrow>
            link_result Available Probe
              (MReachable (case ri_probe i of None \<Rightarrow> 0 | Some p \<Rightarrow> round_latency (pi_latencyMs p))) []
        | Some False \<Rightarrow> link_result Unavailable Probe MUnreachable []
        | None \<Rightarrow>
            if \<not> ri_hostsLoaded i then link_result Waiting Hosts MWaitHosts []
            else
              let ids = usable_ids (ri_requiredNodes i) (ri_alternativeNodeSets i) in
              if filter (\<lambda>n. \<not> nd_available n) (ri_requiredNodes i) \<noteq> []
              then link_result Unavailable Hosts (MOfflineRequired (ri_label i)) ids
              else check_alternatives (ri_label i) ids False (ri_alternativeNodeSets i))"

section \<open>Rows\<close>

datatype group_mode = PortMode | ChainMode | FailoverMode | EntryMode | ExitMode

record member =
  mb_id :: jsval
  mb_tunnelId :: jsval
  mb_hostId :: jsval
  mb_host :: "host option"
  mb_isEnabled :: jsval
  mb_selectionReady :: jsval
  mb_healthMessage :: jsval
  mb_chinaHealthStatus :: jsval

record group =
  gp_id :: jsval
  gp_groupMode :: jsval
  gp_mode :: jsval
  gp_isEnabled :: jsval
  gp_domain :: jsval
  gp_recordType :: jsval
  gp_entryGroupId :: jsval
  gp_exitStrategy :: jsval
  gp_lastStatus :: jsval
  gp_lastMessage :: jsval
  gp_hasSniFailoverRules :: jsval
  gp_chinaHealthCheckEnabled :: jsval
  gp_members :: "member list"
  gp_probe :: probe_input
  gp_availability :: "summary_input option"

record load_balance_exit =
  lx_isEnabled :: jsval
  lx_hostId :: jsval
  lx_host :: "host option"

record tunnel =
  tn_id :: jsval
  tn_isEnabled :: jsval
  tn_relayMode :: jsval
  tn_entryHostId :: jsval
  tn_exitHostId :: jsval
  tn_hopHostIds :: "jsval list"
  tn_hopHosts :: "host list"
  tn_entryHost :: "host option"
  tn_exitHost :: "host option"
  tn_entryGroupId :: jsval
  tn_exitGroupId :: jsval
  tn_entryGroup :: "group option"
  tn_exitGroup :: "group option"
  tn_loadBalanceEnabled :: jsval
  tn_loadBalanceStrategy :: jsval
  tn_loadBalanceExits :: "load_balance_exit list"
  tn_probe :: probe_input
  tn_availability :: "summary_input option"

record link_context =
  cx_hostsLoaded :: bool
  cx_hosts :: "(jsnum, host) jsmap"
  cx_groups :: "(jsnum, group) jsmap"
  cx_tunnels :: "(jsnum, tunnel) jsmap"

definition normalizeGroupMode :: "group \<Rightarrow> group_mode" where
  "normalizeGroupMode g =
     (let mode = js_lower (if js_truthy (gp_groupMode g) then js_string (gp_groupMode g)
                           else if js_truthy (gp_mode g) then js_string (gp_mode g) else ''failover'') in
      if mode = ''port'' then PortMode else if mode = ''chain'' then ChainMode
      else if mode = ''entry'' then EntryMode else if mode = ''exit'' then ExitMode else FailoverMode)"

definition enabledMembers :: "group \<Rightarrow> member list" where
  "enabledMembers g = filter (\<lambda>m. mb_isEnabled m \<noteq> JBool False) (gp_members g)"

definition looksLikeIpv4 :: "jsval \<Rightarrow> bool" where
  "looksLikeIpv4 value \<longleftrightarrow>
     (let parts = js_split (CHR ''.'') (js_trim (js_text value)) in
      length parts = 4 \<and> list_all (\<lambda>p. p \<noteq> [] \<and> list_all is_digit p \<and> digits_val p \<le> 255) parts)"

definition strip_brackets :: "string \<Rightarrow> string" where
  "strip_brackets s =
     (let t = (if s \<noteq> [] \<and> hd s = CHR ''['' then tl s else s)
      in if t \<noteq> [] \<and> last t = CHR '']'' then butlast t else t)"

definition looksLikeIpv6 :: "jsval \<Rightarrow> bool" where
  "looksLikeIpv6 value \<longleftrightarrow>
     (let t = strip_brackets (js_trim (js_text value)) in
      CHR '':'' \<in> set t \<and> list_all (\<lambda>c. radix_digit 16 c \<noteq> None \<or> c = CHR '':'' \<or> c = CHR ''.'') t)"

definition memberRecordAvailable :: "link_context \<Rightarrow> group \<Rightarrow> member \<Rightarrow> bool" where
  "memberRecordAvailable cx g m \<longleftrightarrow>
     (let tunnel = (if js_lt (Fin 0) (number_of_or_0 (mb_tunnelId m))
                    then map_get (cx_tunnels cx) (to_number (mb_tunnelId m)) else None);
          hostId = (if js_truthy (mb_hostId m) then to_number (mb_hostId m)
                    else case tunnel of None \<Rightarrow> Fin 0 | Some t \<Rightarrow> number_of_or_0 (tn_entryHostId t));
          host = map_get (cx_hosts cx) hostId;
          manual = JStr (js_trim (js_text (opt_field host ''entryIp'')));
          recordType = js_upper (if js_truthy (gp_recordType g) then js_string (gp_recordType g) else ''A'')
      in if recordType = ''AAAA'' then
           looksLikeIpv6 manual \<or> looksLikeIpv6 (opt_field host ''ipv6'') \<or> looksLikeIpv6 (opt_field host ''ip'')
         else if recordType = ''CNAME'' then
           (manual \<noteq> JStr [] \<and> \<not> looksLikeIpv4 manual \<and> \<not> looksLikeIpv6 manual) \<or>
           (js_truthy (opt_field host ''ddnsEnabled'') \<and> js_trim (js_text (opt_field host ''ddnsDomain'')) \<noteq> [])
         else looksLikeIpv4 manual \<or> looksLikeIpv4 (opt_field host ''ipv4'') \<or> looksLikeIpv4 (opt_field host ''ip''))"

definition online :: "host option \<Rightarrow> bool" where
  "online h \<longleftrightarrow> opt_field h ''isOnline'' = JBool True"

definition hostNode :: "link_context \<Rightarrow> jsnum \<Rightarrow> node" where
  "hostNode cx i = \<lparr>nd_id = i, nd_available = online (map_get (cx_hosts cx) i)\<rparr>"

definition tunnelRouteHostIds :: "tunnel \<Rightarrow> jsnum list" where
  "tunnelRouteHostIds t =
     (let explicit = filter positive_number (map to_number (tn_hopHostIds t));
          embedded = filter positive_number (map (\<lambda>h. to_number (field_of h ''id'')) (tn_hopHosts t));
          ends = filter positive_number [to_number (tn_entryHostId t), to_number (tn_exitHostId t)]
      in fold set_add (if explicit \<noteq> [] then explicit else if embedded \<noteq> [] then embedded else ends) [])"

definition memberNode :: "link_context \<Rightarrow> (jsnum, link_state) jsmap \<Rightarrow> member \<Rightarrow> node option" where
  "memberNode cx states m =
     (let tunnelId = number_of_or_0 (mb_tunnelId m) in
      if js_lt (Fin 0) tunnelId then
        (case map_get states tunnelId of
           Some st \<Rightarrow> Some \<lparr>nd_id = tunnelId, nd_available = ls_available st\<rparr>
         | None \<Rightarrow>
             Some \<lparr>nd_id = tunnelId,
                   nd_available = (js_lt (Fin 0) (number_of_or_0 (opt_field (mb_host m) ''id'')) \<and> online (mb_host m))\<rparr>)
      else
        let hostId = number_of_or_0 (mb_hostId m) in
        if js_le hostId (Fin 0) then None else Some (hostNode cx hostId))"

definition endpointHostMembers :: "link_context \<Rightarrow> group \<Rightarrow> member list" where
  "endpointHostMembers cx g =
     filter (\<lambda>m. normalizeGroupMode g \<noteq> EntryMode \<or> memberRecordAvailable cx g m)
       (filter (\<lambda>m. js_lt (Fin 0) (number_of_or_0 (mb_hostId m))) (enabledMembers g))"

definition has_domain :: "group \<Rightarrow> bool" where
  "has_domain g \<longleftrightarrow> js_trim (js_text (gp_domain g)) \<noteq> []"

section \<open>The index\<close>

record link_input =
  in_hosts :: "host list option"
  in_tunnels :: "tunnel list"
  in_groups :: "group list"

definition addHost :: "bool \<Rightarrow> host \<Rightarrow> (jsnum, host) jsmap \<Rightarrow> (jsnum, host) jsmap" where
  "addHost preferExisting h hosts =
     (let i = number_of_or_0 (field_of h ''id'') in
      if js_le i (Fin 0) then hosts
      else map_set i (case map_get hosts i of
                        None \<Rightarrow> h
                      | Some existing \<Rightarrow> if preferExisting then spread h existing else spread existing h) hosts)"

definition opt_list :: "'a option \<Rightarrow> 'a list" where
  "opt_list x = (case x of None \<Rightarrow> [] | Some a \<Rightarrow> [a])"

definition member_hosts :: "group \<Rightarrow> host list" where
  "member_hosts g = concat (map (\<lambda>m. opt_list (mb_host m)) (gp_members g))"

definition tunnel_groups :: "tunnel \<Rightarrow> group list" where
  "tunnel_groups t = opt_list (tn_entryGroup t) @ opt_list (tn_exitGroup t)"

definition tunnel_hosts :: "tunnel \<Rightarrow> host list" where
  "tunnel_hosts t = tn_hopHosts t @ opt_list (tn_entryHost t) @ opt_list (tn_exitHost t) @
     concat (map (\<lambda>x. opt_list (lx_host x)) (tn_loadBalanceExits t)) @ concat (map member_hosts (tunnel_groups t))"

definition index_hosts :: "link_input \<Rightarrow> (jsnum, host) jsmap" where
  "index_hosts i =
     fold (addHost True) (concat (map tunnel_hosts (in_tunnels i)) @ concat (map member_hosts (in_groups i)))
       (fold (addHost False) (case in_hosts i of None \<Rightarrow> [] | Some hs \<Rightarrow> hs) [])"

definition index_groups :: "link_input \<Rightarrow> (jsnum, group) jsmap" where
  "index_groups i =
     fold (\<lambda>g. map_set (to_number (gp_id g)) g) (in_groups i)
       (fold (\<lambda>g m. let k = number_of_or_0 (gp_id g) in if js_lt (Fin 0) k then map_set k g m else m)
          (concat (map tunnel_groups (in_tunnels i))) [])"

definition index_context :: "link_input \<Rightarrow> link_context" where
  "index_context i =
     \<lparr>cx_hostsLoaded = (in_hosts i \<noteq> None), cx_hosts = index_hosts i, cx_groups = index_groups i,
      cx_tunnels = fold (\<lambda>t. map_set (to_number (tn_id t)) t) (in_tunnels i) []\<rparr>"

section \<open>Tunnels\<close>

text \<open>The configuration is valid, or is not for the reason given.\<close>

record tunnel_parts =
  pt_valid :: bool
  pt_message :: message
  pt_required :: "jsnum list"
  pt_sets :: "node_set list"

definition linked_group :: "link_context \<Rightarrow> jsval \<Rightarrow> jsnum \<times> group option" where
  "linked_group cx groupId =
     (let i = number_of_or_0 groupId in (i, if js_lt (Fin 0) i then map_get (cx_groups cx) i else None))"

definition relay_part :: "link_context \<Rightarrow> tunnel \<Rightarrow> tunnel_parts" where
  "relay_part cx t =
     (let route = tunnelRouteHostIds t; relays = butlast (tl route);
          p = \<lparr>pt_valid = (length route \<ge> 2), pt_message = MTunnelHosts, pt_required = route, pt_sets = []\<rparr>
      in if js_lower (js_text (tn_relayMode t)) = ''failover'' \<and> length route \<ge> 4
         then p \<lparr>pt_required := filter (\<lambda>i. i \<notin> set relays) route, pt_sets := [(LRelay, map (hostNode cx) relays)]\<rparr>
         else p)"

definition invalid :: "bool \<Rightarrow> message \<Rightarrow> tunnel_parts \<Rightarrow> tunnel_parts" where
  "invalid b m p = (if b then p \<lparr>pt_valid := False, pt_message := m\<rparr> else p)"

definition member_host_nodes :: "link_context \<Rightarrow> member list \<Rightarrow> node list" where
  "member_host_nodes cx ms = map (\<lambda>m. hostNode cx (to_number (mb_hostId m))) ms"

definition entry_part :: "link_context \<Rightarrow> tunnel \<Rightarrow> tunnel_parts \<Rightarrow> tunnel_parts" where
  "entry_part cx t p =
     (let route = tunnelRouteHostIds t; (groupId, entryGroup) = linked_group cx (tn_entryGroupId t) in
      case entryGroup of
        None \<Rightarrow> invalid (js_lt (Fin 0) groupId) MNoEntryGroup p
      | Some g \<Rightarrow>
          (invalid (\<not> js_truthy (gp_isEnabled g) \<or> normalizeGroupMode g \<noteq> EntryMode \<or> \<not> has_domain g) MEntryGroupUnusable p)
            \<lparr>pt_required := (if route \<noteq> [] then removeAll (hd route) (pt_required p) else pt_required p),
             pt_sets := pt_sets p @ [(LEntryGroup, member_host_nodes cx (endpointHostMembers cx g))]\<rparr>)"

definition exit_ids :: "tunnel \<Rightarrow> jsnum list" where
  "exit_ids t =
     (let route = tunnelRouteHostIds t;
          first = (if route \<noteq> [] then last route else number_of_or_0 (tn_exitHostId t));
          others = map (\<lambda>x. if js_truthy (lx_hostId x) then to_number (lx_hostId x) else number_of_or_0 (opt_field (lx_host x) ''id''))
            (filter (\<lambda>x. lx_isEnabled x \<noteq> JBool False) (tn_loadBalanceExits t))
      in fold set_add (filter positive_number (first # others)) [])"

definition exit_part :: "link_context \<Rightarrow> tunnel \<Rightarrow> tunnel_parts \<Rightarrow> tunnel_parts" where
  "exit_part cx t p =
     (let route = tunnelRouteHostIds t; (groupId, exitGroup) = linked_group cx (tn_exitGroupId t) in
      if js_lt (Fin 0) groupId \<and> exitGroup = None then invalid True MNoExitGroup p
      else case exitGroup of
        Some g \<Rightarrow>
          (let all = endpointHostMembers cx g;
               ms = (if normalizeExitGroupStrategy (gp_exitStrategy g) = NoExit then take 1 all else all)
           in (invalid (\<not> js_truthy (gp_isEnabled g) \<or> normalizeGroupMode g \<noteq> ExitMode) MExitGroupUnusable p)
                \<lparr>pt_required := (if route \<noteq> [] then removeAll (last route) (pt_required p) else pt_required p),
                 pt_sets := pt_sets p @ [(LExitGroup, member_host_nodes cx ms)]\<rparr>)
      | None \<Rightarrow>
          if js_truthy (tn_loadBalanceEnabled t) \<and> normalizeExitGroupStrategy (tn_loadBalanceStrategy t) \<noteq> NoExit then
            p \<lparr>pt_required := filter (\<lambda>i. i \<notin> set (exit_ids t)) (pt_required p),
               pt_sets := pt_sets p @ [(LMultiExit, map (hostNode cx) (exit_ids t))]\<rparr>
          else p)"

definition tunnel_state :: "(string \<Rightarrow> jsnum) \<Rightarrow> (tunnel \<Rightarrow> bool) \<Rightarrow> link_context \<Rightarrow> int \<Rightarrow> tunnel \<Rightarrow> link_state" where
  "tunnel_state parse_date supported cx now t =
     (let p = exit_part cx t (entry_part cx t (relay_part cx t)) in
      resolveLinkAvailability parse_date
        \<lparr>ri_label = LTunnel, ri_enabled = (tn_isEnabled t \<noteq> JBool False \<and> supported t),
         ri_configurationValid = pt_valid p, ri_configurationMessage = Some (pt_message p), ri_probe = Some (tn_probe t),
         ri_hostsLoaded = cx_hostsLoaded cx, ri_requiredNodes = map (hostNode cx) (pt_required p),
         ri_alternativeNodeSets = pt_sets p\<rparr> now)"

definition tunnel_states ::
    "(string \<Rightarrow> jsnum) \<Rightarrow> (tunnel \<Rightarrow> bool) \<Rightarrow> link_context \<Rightarrow> int \<Rightarrow> tunnel list \<Rightarrow> (jsnum, link_state) jsmap" where
  "tunnel_states parse_date supported cx now tunnels =
     fold (\<lambda>t. map_set (to_number (tn_id t)) (tunnel_state parse_date supported cx now t)) tunnels []"

section \<open>Groups\<close>

definition member_id :: "member \<Rightarrow> jsnum" where
  "member_id m = to_number (mb_id m)"

definition member_nodes :: "link_context \<Rightarrow> (jsnum, link_state) jsmap \<Rightarrow> member list \<Rightarrow> (jsnum, node) jsmap" where
  "member_nodes cx states ms =
     fold (\<lambda>m nodes. case memberNode cx states m of None \<Rightarrow> nodes | Some n \<Rightarrow> map_set (member_id m) n nodes) ms []"

text \<open>
  The state of a group, the members that may be used and, when the health of an entry group decides,
  those it selects; a final state takes no usable members.
\<close>

record group_eval =
  ge_state :: link_state
  ge_eligible :: "jsnum list"
  ge_health :: "jsnum list option"
  ge_final :: bool

definition chain_group ::
    "(string \<Rightarrow> jsnum) \<Rightarrow> link_context \<Rightarrow> int \<Rightarrow> group \<Rightarrow> (jsnum, node) jsmap \<Rightarrow> link_state" where
  "chain_group parse_date cx now g nodes =
     (let members = enabledMembers g; (groupId, entryGroup) = linked_group cx (gp_entryGroupId g);
          linked = js_lt (Fin 0) groupId;
          valid = (length members \<ge> (if linked then 1 else 2) \<and> length nodes = length members \<and>
            (js_le groupId (Fin 0) \<or> entryGroup \<noteq> None) \<and>
            (case entryGroup of None \<Rightarrow> True
             | Some e \<Rightarrow> gp_isEnabled e \<noteq> JBool False \<and> normalizeGroupMode e = EntryMode \<and> has_domain e))
      in resolveLinkAvailability parse_date
           \<lparr>ri_label = LChain, ri_enabled = (gp_isEnabled g \<noteq> JBool False), ri_configurationValid = valid,
            ri_configurationMessage =
              Some (if linked \<and> entryGroup = None then MNoEntryGroup
                    else if entryGroup \<noteq> None then MChainMember else MChainMembers),
            ri_probe = Some (gp_probe g), ri_hostsLoaded = cx_hostsLoaded cx, ri_requiredNodes = map snd nodes,
            ri_alternativeNodeSets =
              (case entryGroup of None \<Rightarrow> []
               | Some e \<Rightarrow> [(LEntryGroup, member_host_nodes cx (endpointHostMembers cx e))])\<rparr> now)"

definition port_group ::
    "(string \<Rightarrow> jsnum) \<Rightarrow> link_context \<Rightarrow> int \<Rightarrow> group \<Rightarrow> (jsnum, node) jsmap \<Rightarrow> link_state" where
  "port_group parse_date cx now g nodes =
     (let members = enabledMembers g; (groupId, entryGroup) = linked_group cx (gp_entryGroupId g);
          parallel = js_lt (Fin 0) groupId
      in resolveLinkAvailability parse_date
           \<lparr>ri_label = LPort, ri_enabled = (gp_isEnabled g \<noteq> JBool False),
            ri_configurationValid =
              (if parallel then members \<noteq> [] \<and> length nodes = length members \<and>
                 (case entryGroup of None \<Rightarrow> False
                  | Some e \<Rightarrow> gp_isEnabled e \<noteq> JBool False \<and> normalizeGroupMode e = EntryMode)
               else length members = 1 \<and> length nodes = 1),
            ri_configurationMessage = Some (if parallel then MPortHostOrGroup else MPortHost),
            ri_probe = None, ri_hostsLoaded = cx_hostsLoaded cx,
            ri_requiredNodes = (if parallel then [] else map snd nodes),
            ri_alternativeNodeSets = (if parallel then [(LEntryGroup, map snd nodes)] else [])\<rparr> now)"

definition group_label :: "group_mode \<Rightarrow> link_label" where
  "group_label mode = (if mode = EntryMode then LEntryGroup else if mode = ExitMode then LExitGroup else LGroup)"

text \<open>A failover group with SNI rules that reports no error takes only members that are ready.\<close>

definition sni_gate :: "group \<Rightarrow> bool" where
  "sni_gate g \<longleftrightarrow> normalizeGroupMode g = FailoverMode \<and> js_truthy (gp_hasSniFailoverRules g) \<and>
     gp_isEnabled g \<noteq> JBool False \<and> gp_lastStatus g \<noteq> JStr ''error''"

definition ready_members :: "group \<Rightarrow> member list" where
  "ready_members g = filter (\<lambda>m. mb_selectionReady m = JBool True) (enabledMembers g)"

definition sni_waiting :: "group \<Rightarrow> link_state option" where
  "sni_waiting g =
     (if sni_gate g \<and> (gp_lastStatus g = JStr ''unknown'' \<or> gp_lastStatus g = JStr ''down'' \<or> ready_members g = []) then
        (let unready = (case find (\<lambda>m. \<not> js_truthy (mb_selectionReady m)) (enabledMembers g) of
               None \<Rightarrow> JUndef | Some m \<Rightarrow> mb_healthMessage m);
             reason = (if js_truthy (gp_lastMessage g) then MHealth (js_string (gp_lastMessage g))
               else if js_truthy unready then MHealth (js_string unready) else MWaitSni)
         in Some (link_result (if gp_lastStatus g = JStr ''down'' then Unavailable else Waiting) Probe reason []))
      else None)"

record group_pick =
  gk_valid :: bool
  gk_message :: message
  gk_members :: "member list"

definition failed_pick :: "bool \<Rightarrow> message \<Rightarrow> group_pick \<Rightarrow> group_pick" where
  "failed_pick b m p = (if b then p \<lparr>gk_valid := False, gk_message := m\<rparr> else p)"

definition by_domain :: "group_mode \<Rightarrow> bool" where
  "by_domain mode \<longleftrightarrow> mode = EntryMode \<or> mode = FailoverMode"

definition record_type_of :: "group \<Rightarrow> string" where
  "record_type_of g = js_upper (if js_truthy (gp_recordType g) then js_string (gp_recordType g) else ''A'')"

definition pick_members :: "link_context \<Rightarrow> group \<Rightarrow> group_pick" where
  "pick_members cx g =
     (let mode = normalizeGroupMode g; members = enabledMembers g;
          eligible = map member_id (if sni_gate g then ready_members g else members);
          candidates = (if mode = FailoverMode \<and> js_truthy (gp_hasSniFailoverRules g)
            then filter (\<lambda>m. member_id m \<in> set eligible) members else members);
          p0 = \<lparr>gk_valid = (members \<noteq> []), gk_message = MNoMembers (group_label mode), gk_members = candidates\<rparr>;
          p1 = failed_pick (by_domain mode \<and> \<not> has_domain g) (if mode = EntryMode then MEntryDomain else MGroupDomain) p0;
          p2 = (if by_domain mode
            then (let left = filter (memberRecordAvailable cx g) candidates
                  in (failed_pick (members \<noteq> [] \<and> left = []) (MNoAddress (record_type_of g)) p1) \<lparr>gk_members := left\<rparr>)
            else p1);
          p3 = (if mode = ExitMode \<and> normalizeExitGroupStrategy (gp_exitStrategy g) = NoExit
            then p2 \<lparr>gk_members := take 1 (gk_members p2)\<rparr> else p2)
      in failed_pick (js_lower (js_text (gp_lastStatus g)) = ''error'')
           (if js_truthy (gp_lastMessage g) then MText (js_string (gp_lastMessage g)) else MDdnsError) p3)"

definition china_health :: "member \<Rightarrow> string" where
  "china_health m =
     js_lower (if js_truthy (mb_chinaHealthStatus m) then js_string (mb_chinaHealthStatus m) else ''unknown'')"

text \<open>
  The check of entries from China: the healthy members if there are any; else the group waits while
  a check is outstanding (the result is \<open>None\<close>), and its configuration counts as invalid when none is.
\<close>

definition china_pick :: "group \<Rightarrow> group_pick \<Rightarrow> (group_pick \<times> jsnum list option) option" where
  "china_pick g p =
     (if \<not> js_truthy (gp_chinaHealthCheckEnabled g) then Some (p, None)
      else
        let healthy = filter (\<lambda>m. china_health m = ''healthy'') (gk_members p);
            outstanding = list_ex (\<lambda>m. china_health m \<noteq> ''healthy'' \<and> china_health m \<noteq> ''unhealthy'') (gk_members p)
        in if healthy \<noteq> [] then
             Some (p \<lparr>gk_members := healthy\<rparr>, if normalizeGroupMode g = EntryMode then Some (map member_id healthy) else None)
           else if outstanding \<and> gk_valid p \<and> gp_isEnabled g \<noteq> JBool False then None
           else Some (failed_pick (gk_valid p) MHealthFailed p, None))"

definition candidate_nodes :: "(jsnum, node) jsmap \<Rightarrow> jsnum list option \<Rightarrow> member list \<Rightarrow> node list" where
  "candidate_nodes nodes health ms =
     List.map_filter (\<lambda>m. map_option (\<lambda>n. n \<lparr>nd_available :=
        (case health of None \<Rightarrow> nd_available n | Some ids \<Rightarrow> member_id m \<in> set ids)\<rparr>) (map_get nodes (member_id m))) ms"

definition final_eval :: "link_state \<Rightarrow> group_eval" where
  "final_eval st = \<lparr>ge_state = st, ge_eligible = [], ge_health = None, ge_final = True\<rparr>"

definition ddns_group ::
    "(string \<Rightarrow> jsnum) \<Rightarrow> link_context \<Rightarrow> int \<Rightarrow> group \<Rightarrow> (jsnum, node) jsmap \<Rightarrow> group_eval" where
  "ddns_group parse_date cx now g nodes =
     (case sni_waiting g of
        Some st \<Rightarrow> final_eval st
      | None \<Rightarrow>
          (case china_pick g (pick_members cx g) of
             None \<Rightarrow> final_eval (link_result Waiting Probe MWaitHealth [])
           | Some (p, health) \<Rightarrow>
               (let label = group_label (normalizeGroupMode g); ns = candidate_nodes nodes health (gk_members p)
                in \<lparr>ge_state = resolveLinkAvailability parse_date
                      \<lparr>ri_label = label, ri_enabled = (gp_isEnabled g \<noteq> JBool False),
                       ri_configurationValid = (gk_valid p \<and> ns \<noteq> []), ri_configurationMessage = Some (gk_message p),
                       ri_probe = None, ri_hostsLoaded = cx_hostsLoaded cx, ri_requiredNodes = [],
                       ri_alternativeNodeSets = [(label, ns)]\<rparr> now,
                    ge_eligible = map member_id (gk_members p), ge_health = health, ge_final = False\<rparr>)))"

definition group_evaluation ::
    "(string \<Rightarrow> jsnum) \<Rightarrow> link_context \<Rightarrow> int \<Rightarrow> group \<Rightarrow> (jsnum, node) jsmap \<Rightarrow> group_eval" where
  "group_evaluation parse_date cx now g nodes =
     (let plain = (\<lambda>st. \<lparr>ge_state = st, ge_eligible = map member_id (enabledMembers g), ge_health = None, ge_final = False\<rparr>) in
      case normalizeGroupMode g of
        ChainMode \<Rightarrow> plain (chain_group parse_date cx now g nodes)
      | PortMode \<Rightarrow> plain (port_group parse_date cx now g nodes)
      | _ \<Rightarrow> ddns_group parse_date cx now g nodes)"

definition node_usable :: "(jsnum, node) jsmap \<Rightarrow> jsnum \<Rightarrow> bool" where
  "node_usable nodes i \<longleftrightarrow> (case map_get nodes i of None \<Rightarrow> False | Some n \<Rightarrow> nd_available n)"

definition usable_members :: "group \<Rightarrow> (jsnum, node) jsmap \<Rightarrow> group_eval \<Rightarrow> jsnum list" where
  "usable_members g nodes e =
     (if ge_final e then []
      else if ls_source (ge_state e) = Probe \<and> ls_available (ge_state e) then ge_eligible e
      else case (ge_health e, ls_available (ge_state e)) of
        (Some ids, True) \<Rightarrow> ids
      | _ \<Rightarrow> filter (\<lambda>i. i \<in> set (ge_eligible e) \<and> node_usable nodes i) (map member_id (enabledMembers g)))"

definition group_state ::
    "(string \<Rightarrow> jsnum) \<Rightarrow> link_context \<Rightarrow> (jsnum, link_state) jsmap \<Rightarrow> int \<Rightarrow> group \<Rightarrow> link_state" where
  "group_state parse_date cx states now g =
     (let nodes = member_nodes cx states (enabledMembers g); e = group_evaluation parse_date cx now g nodes
      in (ge_state e) \<lparr>ls_members := fold set_add (usable_members g nodes e) []\<rparr>)"

record link_index =
  ix_tunnels :: "(jsnum, link_state) jsmap"
  ix_groups :: "(jsnum, link_state) jsmap"

text \<open>Summaries that the panel made of the whole topology take the place of what was computed.\<close>

definition with_summaries ::
    "('a \<Rightarrow> jsnum) \<Rightarrow> ('a \<Rightarrow> summary_input option) \<Rightarrow> 'a list \<Rightarrow> (jsnum, link_state) jsmap \<Rightarrow> (jsnum, link_state) jsmap" where
  "with_summaries key summary rows states =
     fold (\<lambda>r m. case resultFromSummary (summary r) of None \<Rightarrow> m | Some st \<Rightarrow> map_set (key r) st m) rows states"

definition buildLinkAvailabilityIndex ::
    "(string \<Rightarrow> jsnum) \<Rightarrow> (tunnel \<Rightarrow> bool) \<Rightarrow> link_input \<Rightarrow> int \<Rightarrow> link_index" where
  "buildLinkAvailabilityIndex parse_date supported i now =
     (let cx = index_context i; groups = map snd (cx_groups cx);
          states = tunnel_states parse_date supported cx now (in_tunnels i);
          group_states = fold (\<lambda>g. map_set (to_number (gp_id g)) (group_state parse_date cx states now g)) groups []
      in \<lparr>ix_tunnels = with_summaries (\<lambda>t. to_number (tn_id t)) tn_availability (filter supported (in_tunnels i)) states,
          ix_groups = with_summaries (\<lambda>g. to_number (gp_id g)) gp_availability groups group_states\<rparr>)"

section \<open>What a resolution says\<close>

lemma link_result_simps [simp]:
  "ls_status (link_result st src m ids) = st" "ls_source (link_result st src m ids) = src"
  "ls_available (link_result st src m ids) \<longleftrightarrow> st = Available \<or> st = Degraded"
  "set (ls_hosts (link_result st src m ids)) = {i \<in> set ids. positive_number i}"
  "ls_members (link_result st src m ids) = []"
  by (auto simp: link_result_def set_fold_set_add)

lemma link_result_nobody [simp]: "ls_hosts (link_result st src m []) = []"
  by (simp add: link_result_def)

lemma online_none: "filter nd_available ns = [] \<longleftrightarrow> \<not> list_ex nd_available ns"
  by (simp add: list_ex_iff filter_empty_conv)

lemma online_some: "length (filter nd_available ns) < length ns \<longleftrightarrow> \<not> list_all nd_available ns"
proof (cases "list_all nd_available ns")
  case True
  then have "filter nd_available ns = ns" by (simp add: list_all_iff)
  then show ?thesis using True by simp
next
  case False
  then obtain n where "n \<in> set ns" "\<not> nd_available n" by (auto simp: list_all_iff)
  then have "length (filter nd_available ns) < length ns" by (rule length_filter_less)
  then show ?thesis using False by simp
qed

definition reachable_sets :: "node_set list \<Rightarrow> bool" where
  "reachable_sets sets \<longleftrightarrow> list_all (\<lambda>s. list_ex nd_available (snd s)) sets"

definition complete_sets :: "node_set list \<Rightarrow> bool" where
  "complete_sets sets \<longleftrightarrow> list_all (\<lambda>s. list_all nd_available (snd s)) sets"

lemma check_alternatives_status:
  "ls_status (check_alternatives label ids missing sets) =
     (if \<not> reachable_sets sets then Unavailable else if \<not> missing \<and> complete_sets sets then Available else Degraded)"
  by (induction label ids missing sets rule: check_alternatives.induct)
     (auto simp: Let_def reachable_sets_def complete_sets_def online_none online_some)

lemma check_alternatives_rest [simp]:
  "ls_available (check_alternatives label ids missing sets) \<longleftrightarrow>
     ls_status (check_alternatives label ids missing sets) \<in> {Available, Degraded}"
  "set (ls_hosts (check_alternatives label ids missing sets)) = {i \<in> set ids. positive_number i}"
  "ls_members (check_alternatives label ids missing sets) = []"
  "ls_source (check_alternatives label ids missing sets) \<noteq> Probe"
  by (induction label ids missing sets rule: check_alternatives.induct) (auto simp: Let_def)

lemma resolve_enabled: "ls_available (resolveLinkAvailability parse_date i now) \<Longrightarrow> ri_enabled i"
  by (cases "ri_enabled i") (simp_all add: resolveLinkAvailability_def)

text \<open>
  C31: The state of a link is decided by the first of these that applies. A disabled link is disabled, and
  one with an invalid configuration unavailable; a fresh probe decides otherwise; without one the
  link waits for the hosts to be known, is unavailable when a required host is down or all hosts of
  a set of alternatives (or it has none), degraded when some alternative is down, and else
  available. It is available exactly in these last two states, and when hosts decide, the hosts
  listed are those that are up.
\<close>

theorem link_availability_decided:
  "let r = resolveLinkAvailability parse_date i now;
       probe = resolveFreshLinkProbe parse_date (ri_probe i) now;
       by_hosts = (ri_enabled i \<and> ri_configurationValid i \<and> probe = None \<and> ri_hostsLoaded i)
   in ls_status r =
        (if \<not> ri_enabled i then Disabled
         else if \<not> ri_configurationValid i then Unavailable
         else if probe = Some True then Available
         else if probe = Some False then Unavailable
         else if \<not> ri_hostsLoaded i then Waiting
         else if list_ex (\<lambda>n. \<not> nd_available n) (ri_requiredNodes i) \<or>
           list_ex (\<lambda>s. \<not> list_ex nd_available (snd s)) (ri_alternativeNodeSets i) then Unavailable
         else if list_ex (\<lambda>s. list_ex (\<lambda>n. \<not> nd_available n) (snd s)) (ri_alternativeNodeSets i) then Degraded
         else Available) \<and>
      ls_available r = (ls_status r \<in> {Available, Degraded}) \<and>
      set (ls_hosts r) =
        (if by_hosts then {nd_id n | n. nd_available n \<and> positive_number (nd_id n) \<and>
           (n \<in> set (ri_requiredNodes i) \<or> list_ex (\<lambda>s. n \<in> set (snd s)) (ri_alternativeNodeSets i))} else {})"
proof -
  have down: "filter (\<lambda>n. \<not> nd_available n) ns = [] \<longleftrightarrow> \<not> list_ex (\<lambda>n. \<not> nd_available n) ns" for ns
    by (simp add: filter_empty_conv list_ex_iff)
  have sets: "reachable_sets sets \<longleftrightarrow> \<not> list_ex (\<lambda>s. \<not> list_ex nd_available (snd s)) sets"
    "complete_sets sets \<longleftrightarrow> \<not> list_ex (\<lambda>s. list_ex (\<lambda>n. \<not> nd_available n) (snd s)) sets" for sets
    by (auto simp: reachable_sets_def complete_sets_def list_all_iff list_ex_iff)
  have ids: "{j \<in> set (usable_ids required alternatives). positive_number j} =
      {nd_id n | n. nd_available n \<and> positive_number (nd_id n) \<and>
         (n \<in> set required \<or> list_ex (\<lambda>s. n \<in> set (snd s)) alternatives)}" for required alternatives
    by (auto simp: usable_ids_def set_fold_set_add list_ex_iff)
  show ?thesis
    by (simp add: Let_def resolveLinkAvailability_def down sets check_alternatives_status ids split: option.split bool.split)
qed

section \<open>What the index says\<close>

lemma tunnel_state_enabled:
  "ls_available (tunnel_state parse_date supported cx now t) \<Longrightarrow> tn_isEnabled t \<noteq> JBool False \<and> supported t"
  unfolding tunnel_state_def Let_def by (drule resolve_enabled) simp

lemma member_nodes_origin:
  assumes "map_get (member_nodes cx states ms) i = Some n"
  shows "\<exists>m. m \<in> set ms \<and> member_id m = i \<and> memberNode cx states m = Some n"
proof -
  have "map_get (fold (\<lambda>m nodes. case memberNode cx states m of None \<Rightarrow> nodes | Some n \<Rightarrow> map_set (member_id m) n nodes) ms acc) i = Some n \<Longrightarrow>
      (\<exists>m. m \<in> set ms \<and> member_id m = i \<and> memberNode cx states m = Some n) \<or> map_get acc i = Some n" for acc
    by (induction ms arbitrary: acc) (force simp: map_get_set split: option.splits if_splits)+
  from this [of "[]"] show ?thesis using assms by (simp add: member_nodes_def)
qed

lemma failed_pick_members [simp]: "gk_members (failed_pick b m p) = gk_members p"
  by (simp add: failed_pick_def)

lemma pick_members_enabled: "set (gk_members (pick_members cx g)) \<subseteq> set (enabledMembers g)"
  by (auto simp: pick_members_def Let_def dest: in_set_takeD split: if_splits)

lemma china_pick_members:
  assumes "china_pick g p = Some (q, health)"
  shows "set (gk_members q) \<subseteq> set (gk_members p) \<and>
    (\<forall>ids. health = Some ids \<longrightarrow> normalizeGroupMode g = EntryMode \<and> js_truthy (gp_chinaHealthCheckEnabled g) \<and>
       ids = map member_id (filter (\<lambda>m. china_health m = ''healthy'') (gk_members p)))"
  using assms by (auto simp: china_pick_def Let_def split: if_splits)

text \<open>What an evaluation may use: eligible members are enabled, and those that health selected are healthy.\<close>

definition eval_ok :: "group \<Rightarrow> group_eval \<Rightarrow> bool" where
  "eval_ok g e \<longleftrightarrow>
     (ls_available (ge_state e) \<longrightarrow> gp_isEnabled g \<noteq> JBool False \<and> \<not> ge_final e) \<and>
     set (ge_eligible e) \<subseteq> member_id ` set (enabledMembers g) \<and>
     (\<forall>ids. ge_health e = Some ids \<longrightarrow> normalizeGroupMode g = EntryMode \<and> js_truthy (gp_chinaHealthCheckEnabled g) \<and>
        set ids \<subseteq> member_id ` {m \<in> set (enabledMembers g). china_health m = ''healthy''})"

lemma eval_ok_ddns: "eval_ok g (ddns_group parse_date cx now g nodes)"
proof (cases "sni_waiting g")
  case (Some st)
  then have "\<not> ls_available st" by (auto simp: sni_waiting_def Let_def split: if_splits)
  then show ?thesis using Some by (simp add: ddns_group_def eval_ok_def final_eval_def)
next
  case None
  show ?thesis
  proof (cases "china_pick g (pick_members cx g)")
    case None
    then show ?thesis using \<open>sni_waiting g = None\<close> by (simp add: ddns_group_def eval_ok_def final_eval_def)
  next
    case (Some r)
    obtain p health where r: "r = (p, health)" by (cases r)
    note pick = china_pick_members [OF Some [unfolded r]] pick_members_enabled [of cx g]
    have "set (gk_members p) \<subseteq> set (enabledMembers g)" using pick by blast
    moreover have "health = Some ids \<Longrightarrow> set ids \<subseteq> member_id ` {m \<in> set (enabledMembers g). china_health m = ''healthy''}" for ids
      using pick by auto
    ultimately show ?thesis
      using Some r None pick(1) by (auto simp: ddns_group_def eval_ok_def Let_def dest!: resolve_enabled)
  qed
qed

lemma eval_ok_group: "eval_ok g (group_evaluation parse_date cx now g nodes)"
  by (cases "normalizeGroupMode g")
     (auto simp: group_evaluation_def Let_def eval_ok_ddns, auto simp: eval_ok_def chain_group_def port_group_def Let_def
        case_prod_beta dest!: resolve_enabled)

lemma group_state_enabled:
  "ls_available (group_state parse_date cx states now g) \<Longrightarrow> gp_isEnabled g \<noteq> JBool False"
  using eval_ok_group [of g parse_date cx now "member_nodes cx states (enabledMembers g)"]
  by (simp add: group_state_def Let_def eval_ok_def)

text \<open>Why a member may be used.\<close>

definition member_justified ::
    "link_context \<Rightarrow> (jsnum, link_state) jsmap \<Rightarrow> group \<Rightarrow> link_state \<Rightarrow> member \<Rightarrow> bool" where
  "member_justified cx states g st m \<longleftrightarrow>
     (ls_source st = Probe \<and> ls_available st) \<or>
     (normalizeGroupMode g = EntryMode \<and> js_truthy (gp_chinaHealthCheckEnabled g) \<and> china_health m = ''healthy'') \<or>
     (case memberNode cx states m of None \<Rightarrow> False | Some n \<Rightarrow> nd_available n)"

lemma usable_member_justified:
  assumes "i \<in> set (ls_members (group_state parse_date cx states now g))"
  shows "\<exists>m. m \<in> set (enabledMembers g) \<and> member_id m = i \<and>
    member_justified cx states g (group_state parse_date cx states now g) m"
proof -
  let ?nodes = "member_nodes cx states (enabledMembers g)"
  let ?e = "group_evaluation parse_date cx now g ?nodes"
  have st: "ls_source (group_state parse_date cx states now g) = ls_source (ge_state ?e)"
    "ls_available (group_state parse_date cx states now g) = ls_available (ge_state ?e)"
    by (simp_all add: group_state_def Let_def)
  have use: "i \<in> set (usable_members g ?nodes ?e)" using assms by (simp add: group_state_def Let_def set_fold_set_add)
  then have run: "\<not> ge_final ?e" by (auto simp: usable_members_def)
  show ?thesis
  proof (cases "ls_source (ge_state ?e) = Probe \<and> ls_available (ge_state ?e)")
    case True
    then have "i \<in> set (ge_eligible ?e)" using use run by (simp add: usable_members_def)
    then show ?thesis using eval_ok_group [of g parse_date cx now ?nodes] True st
      by (auto simp: eval_ok_def member_justified_def)
  next
    case probe: False
    show ?thesis
    proof (cases "\<exists>ids. ge_health ?e = Some ids \<and> ls_available (ge_state ?e)")
      case True
      then obtain ids where ids: "ge_health ?e = Some ids" "ls_available (ge_state ?e)" by blast
      then have "i \<in> set ids" using use run probe by (simp add: usable_members_def)
      then show ?thesis using eval_ok_group [of g parse_date cx now ?nodes] ids
        by (auto simp: eval_ok_def member_justified_def)
    next
      case False
      then have "node_usable ?nodes i" using use run probe
        by (auto simp: usable_members_def split: option.splits bool.splits)
      then obtain n where "map_get ?nodes i = Some n" "nd_available n" by (auto simp: node_usable_def split: option.splits)
      then show ?thesis using member_nodes_origin by (fastforce simp: member_justified_def)
    qed
  qed
qed

lemma keys_fold_set: "fst ` set (fold (\<lambda>x. map_set (k x) (v x)) xs m) = fst ` set m \<union> k ` set xs"
proof (induction xs arbitrary: m)
  case (Cons x xs)
  have "fst ` set (map_set (k x) (v x) m) = insert (k x) (fst ` set m)"
    by (simp flip: set_map add: update_keys) blast
  then show ?case using Cons by auto
qed simp

lemma with_summaries_keys:
  assumes "key ` set rows \<subseteq> fst ` set states"
  shows "fst ` set (with_summaries key summary rows states) = fst ` set states"
  using assms
proof (induction rows arbitrary: states)
  case Nil
  then show ?case by (simp add: with_summaries_def)
next
  case (Cons r rows)
  show ?case
  proof (cases "resultFromSummary (summary r)")
    case None
    then show ?thesis using Cons by (simp add: with_summaries_def)
  next
    case (Some st)
    have "fst ` set (map_set (key r) st states) = fst ` set states"
      using Cons.prems keys_fold_set [of key "\<lambda>_. st" "[r]" states] by auto
    then show ?thesis using Cons.IH [of "map_set (key r) st states"] Cons.prems Some
      by (simp add: with_summaries_def)
  qed
qed

lemma index_keys:
  "fst ` set (ix_tunnels (buildLinkAvailabilityIndex parse_date supported i now)) = (\<lambda>t. to_number (tn_id t)) ` set (in_tunnels i)"
  "fst ` set (ix_groups (buildLinkAvailabilityIndex parse_date supported i now)) =
     (\<lambda>g. to_number (gp_id g)) ` snd ` set (cx_groups (index_context i))"
proof -
  let ?cx = "index_context i"
  have t: "fst ` set (tunnel_states parse_date supported ?cx now (in_tunnels i)) = (\<lambda>t. to_number (tn_id t)) ` set (in_tunnels i)"
    unfolding tunnel_states_def by (simp add: keys_fold_set)
  then have "(\<lambda>t. to_number (tn_id t)) ` set (filter supported (in_tunnels i)) \<subseteq>
      fst ` set (tunnel_states parse_date supported ?cx now (in_tunnels i))" by auto
  from with_summaries_keys [OF this] t
  show "fst ` set (ix_tunnels (buildLinkAvailabilityIndex parse_date supported i now)) = (\<lambda>t. to_number (tn_id t)) ` set (in_tunnels i)"
    by (simp add: buildLinkAvailabilityIndex_def Let_def)
  let ?states = "fold (\<lambda>g. map_set (to_number (gp_id g))
      (group_state parse_date ?cx (tunnel_states parse_date supported ?cx now (in_tunnels i)) now g)) (map snd (cx_groups ?cx)) []"
  have g: "fst ` set ?states = (\<lambda>g. to_number (gp_id g)) ` snd ` set (cx_groups ?cx)" by (simp add: keys_fold_set)
  then have "(\<lambda>g. to_number (gp_id g)) ` set (map snd (cx_groups ?cx)) \<subseteq> fst ` set ?states" by simp
  from with_summaries_keys [OF this] g
  show "fst ` set (ix_groups (buildLinkAvailabilityIndex parse_date supported i now)) =
     (\<lambda>g. to_number (gp_id g)) ` snd ` set (cx_groups (index_context i))"
    by (simp add: buildLinkAvailabilityIndex_def Let_def)
qed

text \<open>
  What is shown for a key: the panel's last valid summary of a row with that key, or, when no such
  row has one, what was computed for the last row with that key.
\<close>

definition summaries_for :: "('a \<Rightarrow> jsnum) \<Rightarrow> ('a \<Rightarrow> summary_input option) \<Rightarrow> 'a list \<Rightarrow> jsnum \<Rightarrow> link_state list" where
  "summaries_for key summary rows k =
     List.map_filter (\<lambda>r. resultFromSummary (summary r)) (filter (\<lambda>r. key r = k) rows)"

lemma map_get_with_summaries:
  "map_get (with_summaries key summary rows states) k =
     (if summaries_for key summary rows k = [] then map_get states k
      else Some (last (summaries_for key summary rows k)))"
proof (induction rows rule: rev_induct)
  case Nil
  then show ?case by (simp add: with_summaries_def summaries_for_def)
next
  case (snoc r rows)
  then show ?case
    by (cases "resultFromSummary (summary r)")
       (auto simp: with_summaries_def summaries_for_def List.map_filter_def map_get_set)
qed

lemma map_get_fold_last:
  "map_get (fold (\<lambda>x. map_set (key x) (v x)) xs []) k =
     (if filter (\<lambda>x. key x = k) xs = [] then None else Some (v (last (filter (\<lambda>x. key x = k) xs))))"
  by (induction xs rule: rev_induct) (auto simp: map_get_set)

text \<open>
  A tunnel that is computed to be available is enabled and supported; the panel's summaries of
  tunnels that are not supported do not count.
\<close>

definition tunnel_shown_rightly :: "(tunnel \<Rightarrow> bool) \<Rightarrow> tunnel list \<Rightarrow> jsnum \<Rightarrow> link_state \<Rightarrow> bool" where
  "tunnel_shown_rightly supported tunnels k st \<longleftrightarrow>
     (let summaries = summaries_for (\<lambda>t. to_number (tn_id t)) tn_availability (filter supported tunnels) k;
          rows = filter (\<lambda>t. to_number (tn_id t) = k) tunnels
      in if summaries \<noteq> [] then st = last summaries
         else rows \<noteq> [] \<and> (ls_available st \<longrightarrow> tn_isEnabled (last rows) \<noteq> JBool False \<and> supported (last rows)))"

text \<open>A group that is computed to be available is enabled; and each member listed has a reason.\<close>

definition group_shown_rightly ::
    "link_context \<Rightarrow> (jsnum, link_state) jsmap \<Rightarrow> group list \<Rightarrow> jsnum \<Rightarrow> link_state \<Rightarrow> bool" where
  "group_shown_rightly cx states groups k st \<longleftrightarrow>
     (let summaries = summaries_for (\<lambda>g. to_number (gp_id g)) gp_availability groups k;
          rows = filter (\<lambda>g. to_number (gp_id g) = k) groups
      in if summaries \<noteq> [] then st = last summaries
         else rows \<noteq> [] \<and> (ls_available st \<longrightarrow> gp_isEnabled (last rows) \<noteq> JBool False) \<and>
           (\<forall>j \<in> set (ls_members st). \<exists>m. m \<in> set (enabledMembers (last rows)) \<and> member_id m = j \<and>
              member_justified cx states (last rows) st m))"

lemma index_tunnel:
  assumes "map_get (ix_tunnels (buildLinkAvailabilityIndex parse_date supported i now)) k = Some st"
  shows "tunnel_shown_rightly supported (in_tunnels i) k st"
proof -
  let ?rows = "filter (\<lambda>t. to_number (tn_id t) = k) (in_tunnels i)"
  have "?rows \<noteq> [] \<and> st = tunnel_state parse_date supported (index_context i) now (last ?rows)"
    if "summaries_for (\<lambda>t. to_number (tn_id t)) tn_availability (filter supported (in_tunnels i)) k = []"
    using assms that
    by (simp add: buildLinkAvailabilityIndex_def Let_def map_get_with_summaries tunnel_states_def map_get_fold_last
        split: if_splits)
  then show ?thesis
    using assms tunnel_state_enabled [of parse_date supported "index_context i" now "last ?rows"]
    by (auto simp: tunnel_shown_rightly_def Let_def buildLinkAvailabilityIndex_def map_get_with_summaries)
qed

lemma index_group:
  assumes "map_get (ix_groups (buildLinkAvailabilityIndex parse_date supported i now)) k = Some st"
  shows "group_shown_rightly (index_context i) (tunnel_states parse_date supported (index_context i) now (in_tunnels i))
    (map snd (cx_groups (index_context i))) k st"
proof -
  let ?cx = "index_context i" and ?states = "tunnel_states parse_date supported (index_context i) now (in_tunnels i)"
  let ?rows = "filter (\<lambda>g. to_number (gp_id g) = k) (map snd (cx_groups ?cx))"
  have computed: "?rows \<noteq> [] \<and> st = group_state parse_date ?cx ?states now (last ?rows)"
    if "summaries_for (\<lambda>g. to_number (gp_id g)) gp_availability (map snd (cx_groups ?cx)) k = []"
    using assms that
    by (simp add: buildLinkAvailabilityIndex_def Let_def map_get_with_summaries map_get_fold_last del: filter_map
        split: if_splits)
  have told: "st = last (summaries_for (\<lambda>g. to_number (gp_id g)) gp_availability (map snd (cx_groups ?cx)) k)"
    if "summaries_for (\<lambda>g. to_number (gp_id g)) gp_availability (map snd (cx_groups ?cx)) k \<noteq> []"
    using assms that by (simp add: buildLinkAvailabilityIndex_def Let_def map_get_with_summaries)
  show ?thesis
    unfolding group_shown_rightly_def Let_def
    using computed told group_state_enabled usable_member_justified by auto
qed

lemma never: "(\<And>k st. P k st \<Longrightarrow> Q k st) \<Longrightarrow> \<nexists>k st. P k st \<and> \<not> Q k st"
  by blast

text \<open>
  C12: The index is complete and shows what it should. It has a state for every tunnel that was given
  and every group that is known, and no other. Where the panel has given a valid summary (for a
  tunnel, one that is supported), the last one is shown as it is, whatever the row says of itself.
  Where it has given none, what is shown was computed, and then a tunnel that is available is supported
  and enabled; a group that is available is enabled; and a member listed as usable is an enabled
  member of the group, and a fresh probe reached the group, or the health check of an entry group
  found the member healthy, or its host or tunnel is up.
\<close>

theorem link_index_sound:
  "let ix = buildLinkAvailabilityIndex parse_date supported i now;
       cx = index_context i;
       states = tunnel_states parse_date supported cx now (in_tunnels i)
   in fst ` set (ix_tunnels ix) = (\<lambda>t. to_number (tn_id t)) ` set (in_tunnels i) \<and>
      fst ` set (ix_groups ix) = (\<lambda>g. to_number (gp_id g)) ` snd ` set (cx_groups cx) \<and>
      (\<nexists>k st. map_get (ix_tunnels ix) k = Some st \<and> \<not> tunnel_shown_rightly supported (in_tunnels i) k st) \<and>
      (\<nexists>k st. map_get (ix_groups ix) k = Some st \<and> \<not> group_shown_rightly cx states (map snd (cx_groups cx)) k st)"
  unfolding Let_def by (intro conjI index_keys never index_tunnel index_group)

section \<open>Summaries\<close>

text \<open>
  \<open>publicLinkAvailabilitySummary\<close> of \<open>server/linkAvailabilitySummary.ts\<close>: what of a state users are told,
  who read it back with \<open>resultFromSummary\<close>. \<open>render\<close> gives the text of a message.
\<close>

definition positiveIds :: "jsnum list \<Rightarrow> jsnum list" where
  "positiveIds ids = fold set_add (filter (\<lambda>n. positive_int n \<noteq> None) ids) []"

definition status_name :: "link_status \<Rightarrow> string" where
  "status_name st = (case st of Disabled \<Rightarrow> ''disabled'' | Available \<Rightarrow> ''available'' | Degraded \<Rightarrow> ''degraded''
     | Waiting \<Rightarrow> ''pending'' | Unavailable \<Rightarrow> ''unavailable'')"

definition source_name :: "link_source \<Rightarrow> string" where
  "source_name src = (case src of Probe \<Rightarrow> ''probe'' | Hosts \<Rightarrow> ''hosts'' | Config \<Rightarrow> ''config'')"

definition publicLinkAvailabilitySummary ::
    "(message \<Rightarrow> string) \<Rightarrow> link_state option \<Rightarrow> jsnum list option \<Rightarrow> summary_input option" where
  "publicLinkAvailabilitySummary render state visibleMemberIds =
     (case state of
        None \<Rightarrow> None
      | Some st \<Rightarrow>
          (let ids = filter (\<lambda>n. case visibleMemberIds of None \<Rightarrow> True | Some v \<Rightarrow> n \<in> set (positiveIds v))
                 (positiveIds (ls_members st))
           in Some \<lparr>sm_status = JStr (status_name (ls_status st)), sm_available = JBool (ls_available st),
                    sm_source = JStr (source_name (ls_source st)), sm_message = JStr (render (ls_message st)),
                    sm_memberIds = map JNum ids\<rparr>))"

lemma status_named_name: "status_named (JStr (status_name st)) = Some st"
  by (cases st) (simp_all add: status_named_def status_name_def)

lemma source_named_name: "source_named (JStr (source_name src)) = Some src"
  by (cases src) (simp_all add: source_named_def source_name_def)

lemma set_positiveIds [simp]: "set (positiveIds xs) = {n \<in> set xs. positive_int n \<noteq> None}"
  by (auto simp: positiveIds_def set_fold_set_add)

text \<open>
  What users are told of a link is what they see. A summary read back has the status, the
  availability, the source and, of the usable members, exactly those that the user may see; a
  missing state stays missing.
\<close>

theorem summary_read_back:
  "map_option (\<lambda>s. (ls_status s, ls_available s, ls_source s, set (ls_members s)))
     (resultFromSummary (publicLinkAvailabilitySummary render state visible)) =
   map_option (\<lambda>s. (ls_status s, ls_available s, ls_source s,
       {n \<in> set (ls_members s). positive_int n \<noteq> None \<and> (case visible of None \<Rightarrow> True | Some v \<Rightarrow> n \<in> set v)})) state"
proof (cases state)
  case None
  then show ?thesis by (simp add: publicLinkAvailabilitySummary_def resultFromSummary_def)
next
  case (Some st)
  then show ?thesis
    by (cases visible)
       (auto simp: publicLinkAvailabilitySummary_def resultFromSummary_def Let_def status_named_name source_named_name
         set_fold_set_add o_def)
qed

end
