(* ===== verification/Rule_Task_Queue.thy ===== *)
theory Rule_Task_Queue
  imports Prelude
begin

text \<open>
  \<open>server/ruleTaskQueue.ts\<close> (and the sizes of \<open>shared/ruleTaskQueue.ts\<close>): batches of changes to rules
  are accepted as jobs and carried out by one writer, one unit of a job at a time, jobs taking
  turns. What a unit does is opaque: its outcome is an argument of \<open>executed\<close>. The loop of \<open>drain\<close>
  is cut where it waits, for a unit (\<open>Executing\<close>) and for its next turn (\<open>Pausing\<close>); a callback that
  was scheduled but has not run is counted. Jobs are numbered in the order of acceptance. The
  number of bytes and the hash of a request's text are fields of the request, and labels for
  display are left out. The fields after \<open>jb_finishedAt\<close> and \<open>tq_scheduled\<close> are recorded for the
  statements only.
\<close>

section \<open>Jobs\<close>

datatype rule_action = Single | CreateBatch nat

datatype item_status = Succeeded | Failed | Skipped | Cancelled | Unknown

datatype job_state = Queued | Running | Completed | JobCancelled

definition ruleTaskActionSize :: "rule_action \<Rightarrow> nat option" where
  "ruleTaskActionSize a =
     (case a of Single \<Rightarrow> Some 1 | CreateBatch n \<Rightarrow> if n = 0 \<or> n > 500 then None else Some n)"

text \<open>The size of an action that was accepted.\<close>

definition unit_size :: "rule_action \<Rightarrow> nat" where
  "unit_size a = (case a of Single \<Rightarrow> 1 | CreateBatch n \<Rightarrow> n)"

record job =
  jb_userId :: int
  jb_hash :: string
  jb_actions :: "rule_action option list"
  jb_results :: "(nat \<times> item_status) list"
  jb_cancel :: bool
  jb_payloadBytes :: nat
  jb_cursor :: nat
  jb_requestId :: string
  jb_state :: job_state
  jb_total :: nat
  jb_completed :: nat
  jb_succeeded :: nat
  jb_failed :: nat
  jb_skipped :: nat
  jb_cancelled :: nat
  jb_unknown :: nat
  jb_createdAt :: int
  jb_finishedAt :: "int option"
  jb_sizes :: "nat list"
  jb_started :: "nat list"

record task_request =
  rt_requestId :: string
  rt_actions :: "rule_action list"
  rt_bytes :: nat
  rt_hash :: string

record task_options =
  to_maxJobs :: nat
  to_maxPendingItems :: nat
  to_maxUserJobs :: nat
  to_retentionMs :: int

definition default_options :: task_options where
  "default_options = \<lparr>to_maxJobs = 100, to_maxPendingItems = 20000, to_maxUserJobs = 3, to_retentionMs = 15 * 60000\<rparr>"

text \<open>Where the loop is: not running, waiting for the unit of a job that began with the index given, or for its turn.\<close>

datatype drain_phase = Idle | Executing nat nat | Pausing

record task_queue =
  tq_options :: task_options
  tq_jobs :: "(nat, job) jsmap"
  tq_ready :: "nat list"
  tq_active :: "nat option"
  tq_phase :: drain_phase
  tq_nextId :: nat
  tq_scheduled :: nat
  tq_evicted :: "(nat \<times> job) list"

definition new_queue :: "task_options \<Rightarrow> task_queue" where
  "new_queue options =
     \<lparr>tq_options = options, tq_jobs = [], tq_ready = [], tq_active = None, tq_phase = Idle, tq_nextId = 0,
      tq_scheduled = 0, tq_evicted = []\<rparr>"

definition put_job :: "nat \<Rightarrow> job \<Rightarrow> task_queue \<Rightarrow> task_queue" where
  "put_job i j s = s \<lparr>tq_jobs := map_set i j (tq_jobs s)\<rparr>"

section \<open>Acceptance\<close>

definition finished :: "job \<Rightarrow> bool" where
  "finished j \<longleftrightarrow> jb_finishedAt j \<noteq> None"

definition expired :: "int \<Rightarrow> job \<Rightarrow> bool" where
  "expired cutoff j \<longleftrightarrow> (case jb_finishedAt j of None \<Rightarrow> False | Some t \<Rightarrow> t \<noteq> 0 \<and> t < cutoff)"

definition prune_jobs :: "int \<Rightarrow> task_queue \<Rightarrow> task_queue" where
  "prune_jobs now s =
     (let gone = (\<lambda>p. expired (now - to_retentionMs (tq_options s)) (snd p))
      in s \<lparr>tq_jobs := filter (\<lambda>p. \<not> gone p) (tq_jobs s), tq_evicted := tq_evicted s @ filter gone (tq_jobs s)\<rparr>)"

datatype task_error = TooLarge | InvalidBatch | RequestReused | QueueFull

definition total_size :: "rule_action list \<Rightarrow> nat option" where
  "total_size actions =
     (if list_ex (\<lambda>a. ruleTaskActionSize a = None) actions then None else Some (sum_list (map unit_size actions)))"

definition same_request :: "int \<Rightarrow> string \<Rightarrow> nat \<times> job \<Rightarrow> bool" where
  "same_request userId requestId p \<longleftrightarrow> jb_userId (snd p) = userId \<and> jb_requestId (snd p) = requestId"

definition unfinished_jobs :: "task_queue \<Rightarrow> job list" where
  "unfinished_jobs s = filter (\<lambda>j. \<not> finished j) (map snd (tq_jobs s))"

definition pending_items :: "task_queue \<Rightarrow> nat" where
  "pending_items s = sum_list (map (\<lambda>j. jb_total j - jb_completed j) (unfinished_jobs s))"

definition pending_bytes :: "task_queue \<Rightarrow> nat" where
  "pending_bytes s = sum_list (map jb_payloadBytes (unfinished_jobs s))"

definition own_jobs :: "int \<Rightarrow> task_queue \<Rightarrow> nat" where
  "own_jobs userId s = length (filter (\<lambda>j. jb_userId j = userId) (unfinished_jobs s))"

definition retained_items :: "task_queue \<Rightarrow> nat" where
  "retained_items s = sum_list (map (\<lambda>p. jb_total (snd p)) (tq_jobs s))"

text \<open>The loop that reclaims the oldest completed jobs; \<open>ps\<close> are the jobs still to be visited.\<close>

fun reclaim :: "nat \<Rightarrow> nat \<Rightarrow> (nat \<times> job) list \<Rightarrow> nat \<Rightarrow> task_queue \<Rightarrow> nat \<times> task_queue" where
  "reclaim maxJobs count [] retained s = (retained, s)"
| "reclaim maxJobs count (p # ps) retained s =
     (if length (tq_jobs s) < maxJobs \<and> retained + count \<le> 20000 then (retained, s)
      else if finished (snd p) then
        reclaim maxJobs count ps (retained - jb_total (snd p))
          (s \<lparr>tq_jobs := map_delete (fst p) (tq_jobs s), tq_evicted := tq_evicted s @ [p]\<rparr>)
      else reclaim maxJobs count ps retained s)"

definition new_job :: "int \<Rightarrow> task_request \<Rightarrow> nat \<Rightarrow> int \<Rightarrow> job" where
  "new_job userId r count now =
     \<lparr>jb_userId = userId, jb_hash = rt_hash r, jb_actions = map Some (rt_actions r), jb_results = [], jb_cancel = False,
      jb_payloadBytes = rt_bytes r, jb_cursor = 0, jb_requestId = rt_requestId r, jb_state = Queued, jb_total = count,
      jb_completed = 0, jb_succeeded = 0, jb_failed = 0, jb_skipped = 0, jb_cancelled = 0, jb_unknown = 0,
      jb_createdAt = now, jb_finishedAt = None, jb_sizes = map unit_size (rt_actions r), jb_started = []\<rparr>"

definition enqueue :: "int \<Rightarrow> task_request \<Rightarrow> int \<Rightarrow> task_queue \<Rightarrow> (task_error + nat) \<times> task_queue" where
  "enqueue userId r now s0 =
     (let s = prune_jobs now s0; o1 = tq_options s in
      case total_size (rt_actions r) of
        None \<Rightarrow> (Inl InvalidBatch, s)
      | Some count \<Rightarrow>
          if rt_bytes r > 2 * 1024 * 1024 \<or> rt_actions r = [] \<or> count > 5000 then (Inl TooLarge, s)
          else case find (same_request userId (rt_requestId r)) (tq_jobs s) of
            Some p \<Rightarrow> (if jb_hash (snd p) \<noteq> rt_hash r then Inl RequestReused else Inr (fst p), s)
          | None \<Rightarrow>
              if own_jobs userId s \<ge> to_maxUserJobs o1 \<or> pending_items s + count > to_maxPendingItems o1 \<or>
                 pending_bytes s + rt_bytes r > 8 * 1024 * 1024 then (Inl QueueFull, s)
              else
                let (retained, s1) = reclaim (to_maxJobs o1) count (tq_jobs s) (retained_items s) s in
                if length (tq_jobs s1) \<ge> to_maxJobs o1 \<or> retained + count > 20000 then (Inl QueueFull, s1)
                else
                  let i = tq_nextId s1 in
                  (Inr i, (put_job i (new_job userId r count now) s1)
                     \<lparr>tq_ready := tq_ready s1 @ [i], tq_nextId := Suc i, tq_scheduled := Suc (tq_scheduled s1)\<rparr>))"

section \<open>Inspection and cancellation\<close>

definition index_of :: "'a \<Rightarrow> 'a list \<Rightarrow> nat" where
  "index_of x xs = length (takeWhile (\<lambda>y. y \<noteq> x) xs)"

definition queuePosition :: "task_queue \<Rightarrow> nat \<Rightarrow> job \<Rightarrow> nat" where
  "queuePosition s i j =
     (if finished j \<or> tq_active s = Some i then 0 else if i \<in> set (tq_ready s) then index_of i (tq_ready s) + 1 else 0)"

definition get_job :: "int \<Rightarrow> nat \<Rightarrow> int \<Rightarrow> task_queue \<Rightarrow> job option \<times> task_queue" where
  "get_job userId i now s0 =
     (let s = prune_jobs now s0 in
      (case map_get (tq_jobs s) i of None \<Rightarrow> None | Some j \<Rightarrow> if jb_userId j = userId then Some j else None, s))"

definition lookup_job :: "int \<Rightarrow> string \<Rightarrow> int \<Rightarrow> task_queue \<Rightarrow> job option \<times> task_queue" where
  "lookup_job userId requestId now s0 =
     (let s = prune_jobs now s0 in (map_option snd (find (same_request userId requestId) (tq_jobs s)), s))"

definition cancel_job :: "int \<Rightarrow> nat \<Rightarrow> task_queue \<Rightarrow> job option \<times> task_queue" where
  "cancel_job userId i s =
     (case map_get (tq_jobs s) i of
        None \<Rightarrow> (None, s)
      | Some j \<Rightarrow>
          if jb_userId j \<noteq> userId then (None, s)
          else if finished j then (Some j, s)
          else
            let j1 = j \<lparr>jb_cancel := True\<rparr>
            in (Some j1, (put_job i j1 s) \<lparr>tq_scheduled := Suc (tq_scheduled s)\<rparr>))"

section \<open>Carrying out\<close>

datatype error_kind = StopError | UnknownResultError | OtherError

text \<open>A unit returns whether it was skipped and the statuses of its items, or is rejected.\<close>

datatype exec_outcome = Returned bool "item_status list option" | Rejected error_kind

text \<open>The statuses of the items of a unit, and whether the rest of the job is cancelled.\<close>

definition unit_results :: "rule_action \<Rightarrow> exec_outcome \<Rightarrow> item_status list \<times> bool" where
  "unit_results a outcome =
     (case outcome of
        Rejected k \<Rightarrow> (replicate (unit_size a) (if k = UnknownResultError then Unknown else Failed), k \<noteq> OtherError)
      | Returned skipped items \<Rightarrow>
          (case a of
             Single \<Rightarrow> ([if skipped then Skipped else Succeeded], False)
           | CreateBatch n \<Rightarrow>
               (case items of
                  Some sts \<Rightarrow> if length sts = n then (sts, Unknown \<in> set sts) else (replicate n Unknown, True)
                | None \<Rightarrow> (replicate n Unknown, True))))"

definition push_result :: "nat \<times> item_status \<Rightarrow> job \<Rightarrow> job" where
  "push_result r j =
     (let j1 = j \<lparr>jb_results := jb_results j @ [r], jb_completed := Suc (jb_completed j)\<rparr> in
      case snd r of
        Failed \<Rightarrow> j1 \<lparr>jb_failed := Suc (jb_failed j)\<rparr>
      | Unknown \<Rightarrow> j1 \<lparr>jb_unknown := Suc (jb_unknown j)\<rparr>
      | Skipped \<Rightarrow> j1 \<lparr>jb_skipped := Suc (jb_skipped j)\<rparr>
      | Cancelled \<Rightarrow> j1 \<lparr>jb_cancelled := Suc (jb_cancelled j)\<rparr>
      | Succeeded \<Rightarrow> j1 \<lparr>jb_succeeded := Suc (jb_succeeded j)\<rparr>)"

definition cancel_item :: "job \<Rightarrow> job" where
  "cancel_item j =
     j \<lparr>jb_results := jb_results j @ [(jb_completed j, Cancelled)], jb_completed := Suc (jb_completed j),
        jb_cancelled := Suc (jb_cancelled j)\<rparr>"

text \<open>The size of an entry; those of units that were carried out are gone.\<close>

definition entry_size :: "rule_action option \<Rightarrow> nat" where
  "entry_size e = (case e of None \<Rightarrow> 0 | Some a \<Rightarrow> unit_size a)"

definition cancel_rest :: "job \<Rightarrow> job" where
  "cancel_rest j =
     (if jb_cancel j then (cancel_item ^^ sum_list (map entry_size (drop (jb_cursor j) (jb_actions j)))) j else j)"

text \<open>The end of a turn: the rest is cancelled if it is to be, and the job is finished or goes to the end of the line.\<close>

definition end_turn :: "nat \<Rightarrow> job \<Rightarrow> int \<Rightarrow> task_queue \<Rightarrow> task_queue" where
  "end_turn i j now s =
     (let j1 = cancel_rest j in
      if jb_completed j1 = jb_total j1 then
        (put_job i (j1 \<lparr>jb_state := (if jb_cancelled j1 > 0 then JobCancelled else Completed), jb_finishedAt := Some now,
                       jb_actions := [], jb_payloadBytes := 0\<rparr>) s) \<lparr>tq_active := None, tq_phase := Pausing\<rparr>
      else (put_job i j1 s) \<lparr>tq_ready := tq_ready s @ [i], tq_active := None, tq_phase := Pausing\<rparr>)"

text \<open>One round of the loop, up to where it waits.\<close>

definition next_turn :: "int \<Rightarrow> task_queue \<Rightarrow> task_queue" where
  "next_turn now s =
     (case tq_ready s of
        [] \<Rightarrow> s \<lparr>tq_active := None, tq_phase := Idle\<rparr>
      | i # rest \<Rightarrow>
          (let s1 = s \<lparr>tq_ready := rest, tq_active := Some i\<rparr> in
           case map_get (tq_jobs s) i of
             None \<Rightarrow> s1 \<lparr>tq_active := None, tq_phase := Idle\<rparr>
           | Some j \<Rightarrow>
               if jb_cancel j then end_turn i j now s1
               else (put_job i (j \<lparr>jb_cursor := Suc (jb_cursor j), jb_state := Running, jb_started := jb_started j @ [jb_cursor j]\<rparr>) s1)
                 \<lparr>tq_phase := Executing i (jb_completed j)\<rparr>))"

text \<open>A callback of \<open>setImmediate\<close> that calls \<open>drain\<close>.\<close>

definition drain :: "int \<Rightarrow> task_queue \<Rightarrow> task_queue" where
  "drain now s =
     (if tq_scheduled s = 0 then s
      else let s1 = s \<lparr>tq_scheduled := tq_scheduled s - 1\<rparr> in if tq_phase s1 = Idle then next_turn now s1 else s1)"

definition continue_drain :: "int \<Rightarrow> task_queue \<Rightarrow> task_queue" where
  "continue_drain now s = (if tq_phase s = Pausing then next_turn now s else s)"

definition executed :: "exec_outcome \<Rightarrow> int \<Rightarrow> task_queue \<Rightarrow> task_queue" where
  "executed outcome now s =
     (case tq_phase s of
        Executing i index \<Rightarrow>
          (case map_get (tq_jobs s) i of
             None \<Rightarrow> s
           | Some j \<Rightarrow>
               (let u = jb_cursor j - 1 in
                case jb_actions j ! u of
                  None \<Rightarrow> s
                | Some a \<Rightarrow>
                    (let (sts, stop) = unit_results a outcome;
                         j1 = fold push_result (zip [index..<index + length sts] sts) (j \<lparr>jb_cancel := (jb_cancel j \<or> stop)\<rparr>)
                     in end_turn i (j1 \<lparr>jb_actions := (jb_actions j)[u := None]\<rparr>) now s)))
      | _ \<Rightarrow> s)"

datatype task_op =
  Enqueue int task_request int | Get int nat int | Lookup int string int | Cancel int nat
| Drain int | Continue int | Executed exec_outcome int

fun task_step :: "task_op \<Rightarrow> task_queue \<Rightarrow> task_queue" where
  "task_step (Enqueue userId r now) s = snd (enqueue userId r now s)"
| "task_step (Get userId i now) s = snd (get_job userId i now s)"
| "task_step (Lookup userId requestId now) s = snd (lookup_job userId requestId now s)"
| "task_step (Cancel userId i) s = snd (cancel_job userId i s)"
| "task_step (Drain now) s = drain now s"
| "task_step (Continue now) s = continue_drain now s"
| "task_step (Executed outcome now) s = executed outcome now s"

section \<open>Results of a job\<close>

definition tally :: "item_status \<Rightarrow> job \<Rightarrow> nat" where
  "tally st j = length (filter (\<lambda>r. snd r = st) (jb_results j))"

text \<open>Items have results in their order, and the counts of the snapshot count them.\<close>

definition tallied :: "job \<Rightarrow> bool" where
  "tallied j \<longleftrightarrow> map fst (jb_results j) = [0..<jb_completed j] \<and> jb_succeeded j = tally Succeeded j \<and>
     jb_failed j = tally Failed j \<and> jb_skipped j = tally Skipped j \<and> jb_cancelled j = tally Cancelled j \<and>
     jb_unknown j = tally Unknown j"

lemma push_result_same [simp]:
  "jb_cursor (push_result r j) = jb_cursor j" "jb_actions (push_result r j) = jb_actions j"
  "jb_total (push_result r j) = jb_total j" "jb_sizes (push_result r j) = jb_sizes j"
  "jb_started (push_result r j) = jb_started j" "jb_finishedAt (push_result r j) = jb_finishedAt j"
  "jb_userId (push_result r j) = jb_userId j" "jb_payloadBytes (push_result r j) = jb_payloadBytes j"
  "jb_completed (push_result r j) = Suc (jb_completed j)"
  by (cases "snd r"; simp add: push_result_def Let_def)+

lemma tallied_push: "tallied j \<Longrightarrow> tallied (push_result (jb_completed j, st) j)"
  by (cases st) (simp_all add: tallied_def tally_def push_result_def Let_def)

lemma push_all:
  assumes "tallied j"
  shows "tallied (fold push_result (zip [jb_completed j..<jb_completed j + length sts] sts) j) \<and>
    jb_completed (fold push_result (zip [jb_completed j..<jb_completed j + length sts] sts) j) = jb_completed j + length sts"
  using assms
proof (induction sts arbitrary: j)
  case Nil
  then show ?case by simp
next
  case (Cons st sts)
  have "[jb_completed j..<jb_completed j + length (st # sts)] =
      jb_completed j # [jb_completed (push_result (jb_completed j, st) j)..<jb_completed (push_result (jb_completed j, st) j) + length sts]"
    by (simp add: upt_conv_Cons del: upt_Suc)
  then show ?case using Cons.IH [OF tallied_push [OF Cons.prems]] by simp
qed

lemma fold_push_same [simp]:
  "jb_cursor (fold push_result rs j) = jb_cursor j" "jb_actions (fold push_result rs j) = jb_actions j"
  "jb_total (fold push_result rs j) = jb_total j" "jb_sizes (fold push_result rs j) = jb_sizes j"
  "jb_started (fold push_result rs j) = jb_started j" "jb_finishedAt (fold push_result rs j) = jb_finishedAt j"
  "jb_userId (fold push_result rs j) = jb_userId j" "jb_payloadBytes (fold push_result rs j) = jb_payloadBytes j"
  by (induction rs arbitrary: j) simp_all

lemma cancel_items:
  "tallied j \<Longrightarrow> tallied ((cancel_item ^^ n) j)" "jb_completed ((cancel_item ^^ n) j) = jb_completed j + n"
  "jb_cursor ((cancel_item ^^ n) j) = jb_cursor j" "jb_actions ((cancel_item ^^ n) j) = jb_actions j"
  "jb_total ((cancel_item ^^ n) j) = jb_total j" "jb_sizes ((cancel_item ^^ n) j) = jb_sizes j"
  "jb_started ((cancel_item ^^ n) j) = jb_started j" "jb_finishedAt ((cancel_item ^^ n) j) = jb_finishedAt j"
  "jb_userId ((cancel_item ^^ n) j) = jb_userId j" "jb_payloadBytes ((cancel_item ^^ n) j) = jb_payloadBytes j"
  by (induction n) (simp_all add: cancel_item_def tallied_def tally_def)

lemma unit_results_length [simp]: "length (fst (unit_results a outcome)) = unit_size a"
  by (auto simp: unit_results_def unit_size_def split: exec_outcome.split rule_action.split option.split)

text \<open>Units begin once each in their order; \<open>job_at u\<close>: the units before \<open>u\<close> are done and those from \<open>u\<close> are to do.\<close>

definition job_base :: "job \<Rightarrow> bool" where
  "job_base j \<longleftrightarrow> tallied j \<and> jb_started j = [0..<jb_cursor j] \<and> jb_total j = sum_list (jb_sizes j) \<and>
     list_all (\<lambda>n. 0 < n) (jb_sizes j) \<and> jb_sizes j \<noteq> []"

definition job_at :: "nat \<Rightarrow> job \<Rightarrow> bool" where
  "job_at u j \<longleftrightarrow> length (jb_actions j) = length (jb_sizes j) \<and> u \<le> length (jb_sizes j) \<and>
     jb_completed j = sum_list (take u (jb_sizes j)) \<and> map entry_size (drop u (jb_actions j)) = drop u (jb_sizes j) \<and>
     None \<notin> set (drop u (jb_actions j))"

definition job_ok :: "bool \<Rightarrow> job \<Rightarrow> bool" where
  "job_ok executing j \<longleftrightarrow> job_base j \<and>
     (if finished j then \<not> executing \<and> jb_completed j = jb_total j \<and> jb_payloadBytes j = 0 \<and> jb_cursor j \<le> length (jb_sizes j)
      else if executing then 0 < jb_cursor j \<and> jb_cursor j \<le> length (jb_sizes j) \<and> job_at (jb_cursor j - 1) j
      else jb_cursor j < length (jb_sizes j) \<and> job_at (jb_cursor j) j)"

lemma partial_sum_less:
  fixes ns :: "nat list"
  assumes "list_all (\<lambda>n. 0 < n) ns" "u < length ns"
  shows "sum_list (take u ns) < sum_list ns"
proof -
  have "sum_list ns = sum_list (take u ns) + sum_list (drop u ns)" by (metis append_take_drop_id sum_list_append)
  moreover have "sum_list (drop u ns) = ns ! u + sum_list (drop (Suc u) ns)" using assms(2) by (simp flip: Cons_nth_drop_Suc)
  moreover have "0 < ns ! u" using assms by (simp add: list_all_length)
  ultimately show ?thesis by simp
qed

text \<open>The job at the end of a turn.\<close>

definition turned :: "int \<Rightarrow> job \<Rightarrow> job" where
  "turned now j =
     (let j1 = cancel_rest j in
      if jb_completed j1 = jb_total j1 then
        j1 \<lparr>jb_state := (if jb_cancelled j1 > 0 then JobCancelled else Completed), jb_finishedAt := Some now,
            jb_actions := [], jb_payloadBytes := 0\<rparr>
      else j1)"

lemma end_turn_turned:
  "end_turn i j now s =
     (put_job i (turned now j) s)
       \<lparr>tq_ready := (if jb_completed (cancel_rest j) = jb_total (cancel_rest j) then tq_ready s else tq_ready s @ [i]),
        tq_active := None, tq_phase := Pausing\<rparr>"
  by (simp add: end_turn_def turned_def Let_def put_job_def)

lemma turned_ok:
  assumes base: "job_base j" and here: "job_at (jb_cursor j) j" and open_job: "\<not> finished j"
  shows "job_ok False (turned now j)"
    and "finished (turned now j) \<longleftrightarrow> jb_completed (cancel_rest j) = jb_total (cancel_rest j)"
    and "jb_cursor (turned now j) = jb_cursor j" "jb_sizes (turned now j) = jb_sizes j"
    and "jb_total (turned now j) = jb_total j" "jb_userId (turned now j) = jb_userId j"
    and "jb_completed j \<le> jb_completed (turned now j)" "jb_payloadBytes (turned now j) \<le> jb_payloadBytes j"
    and "jb_cancel j \<Longrightarrow> finished (turned now j)"
proof -
  let ?n = "sum_list (map entry_size (drop (jb_cursor j) (jb_actions j)))"
  have sizes: "jb_completed j + ?n = jb_total j"
    using here base append_take_drop_id [of "jb_cursor j" "jb_sizes j"] unfolding job_at_def job_base_def
    by (metis sum_list_append)
  have rest: "cancel_rest j = (if jb_cancel j then (cancel_item ^^ ?n) j else j)" by (simp add: cancel_rest_def)
  have done_all: "jb_cancel j \<Longrightarrow> jb_completed (cancel_rest j) = jb_total (cancel_rest j)"
    using sizes by (simp add: rest cancel_items)
  show fin: "finished (turned now j) \<longleftrightarrow> jb_completed (cancel_rest j) = jb_total (cancel_rest j)"
    using open_job by (simp add: turned_def Let_def finished_def rest cancel_items)
  then show "jb_cancel j \<Longrightarrow> finished (turned now j)" using done_all by simp
  show "jb_cursor (turned now j) = jb_cursor j" "jb_sizes (turned now j) = jb_sizes j"
    "jb_total (turned now j) = jb_total j" "jb_userId (turned now j) = jb_userId j"
    "jb_completed j \<le> jb_completed (turned now j)" "jb_payloadBytes (turned now j) \<le> jb_payloadBytes j"
    by (simp_all add: turned_def Let_def rest cancel_items)
  have base1: "job_base (cancel_rest j)" using base by (simp add: rest job_base_def cancel_items)
  show "job_ok False (turned now j)"
  proof (cases "jb_completed (cancel_rest j) = jb_total (cancel_rest j)")
    case True
    then have "job_base (turned now j)" using base1 by (simp add: turned_def Let_def job_base_def tallied_def tally_def)
    moreover have "jb_completed (turned now j) = jb_total (turned now j)" "jb_payloadBytes (turned now j) = 0"
      using True by (simp_all add: turned_def Let_def)
    moreover have "jb_cursor (turned now j) \<le> length (jb_sizes (turned now j))"
      using here True by (simp add: turned_def Let_def rest cancel_items job_at_def)
    ultimately show ?thesis using True fin by (simp add: job_ok_def)
  next
    case False
    then have same: "turned now j = j" using done_all by (auto simp: turned_def Let_def rest)
    have "\<not> jb_cancel j" using False done_all by blast
    then have "jb_completed j \<noteq> jb_total j" using False by (simp add: rest)
    then have "jb_cursor j < length (jb_sizes j)"
      using here base unfolding job_at_def job_base_def by (metis le_neq_implies_less take_all_iff order_refl)
    then show ?thesis using base here open_job by (simp add: same job_ok_def)
  qed
qed

section \<open>The queue\<close>

text \<open>\<open>x\<close> is the job whose unit is being carried out: it is not in the line.\<close>

definition queue_core :: "nat option \<Rightarrow> task_queue \<Rightarrow> bool" where
  "queue_core x s \<longleftrightarrow> wf_map (tq_jobs s) \<and> fst ` set (tq_jobs s) \<union> fst ` set (tq_evicted s) = {..<tq_nextId s} \<and>
     list_all (\<lambda>p. finished (snd p) \<and> job_ok False (snd p)) (tq_evicted s) \<and> distinct (tq_ready s) \<and>
     (\<forall>k j. map_get (tq_jobs s) k = Some j \<longrightarrow> x \<noteq> Some k \<longrightarrow> job_ok False j) \<and>
     (\<forall>k. k \<in> set (tq_ready s) \<longleftrightarrow> x \<noteq> Some k \<and> (\<exists>j. map_get (tq_jobs s) k = Some j \<and> \<not> finished j))"

definition queue_ok :: "task_queue \<Rightarrow> bool" where
  "queue_ok s \<longleftrightarrow>
     (case tq_phase s of
        Executing i index \<Rightarrow>
          queue_core (Some i) s \<and> tq_active s = Some i \<and>
          (\<exists>j. map_get (tq_jobs s) i = Some j \<and> \<not> finished j \<and> job_ok True j \<and> index = jb_completed j)
      | p \<Rightarrow> queue_core None s \<and> tq_active s = None \<and> (p = Idle \<and> tq_ready s \<noteq> [] \<longrightarrow> 0 < tq_scheduled s))"

lemma keys_put_new: "fst ` set (map_set k v m) = insert k (fst ` set m)"
  by (simp flip: set_map add: update_keys) blast

lemma keys_put: "map_get m k \<noteq> None \<Longrightarrow> fst ` set (map_set k v m) = fst ` set m"
  by (metis keys_put_new insert_absorb map_of_eq_None_iff)

lemma core_put:
  assumes core: "queue_core x s" and old: "map_get (tq_jobs s) i = Some j" and fin: "finished j' = finished j"
    and ok: "x \<noteq> Some i \<Longrightarrow> job_ok False j'"
  shows "queue_core x (put_job i j' s)"
proof -
  have "fst ` set (map_set i j' (tq_jobs s)) = fst ` set (tq_jobs s)" using old by (simp add: keys_put)
  moreover have "\<And>k. (\<exists>l. map_get (map_set i j' (tq_jobs s)) k = Some l \<and> \<not> finished l) \<longleftrightarrow>
      (\<exists>l. map_get (tq_jobs s) k = Some l \<and> \<not> finished l)"
    using old fin by (auto simp: map_get_set)
  moreover have "\<And>k l. map_get (map_set i j' (tq_jobs s)) k = Some l \<Longrightarrow> x \<noteq> Some k \<Longrightarrow> job_ok False l"
    using core ok by (auto simp: map_get_set queue_core_def split: if_splits)
  ultimately show ?thesis using core unfolding queue_core_def put_job_def by simp
qed

lemma core_scheduled [simp]: "queue_core x (s \<lparr>tq_scheduled := n\<rparr>) = queue_core x s"
  by (simp add: queue_core_def)

lemma core_filter:
  assumes core: "queue_core x s"
    and gone: "\<And>k j. map_get (tq_jobs s) k = Some j \<Longrightarrow> gone (k, j) \<Longrightarrow> finished j \<and> x \<noteq> Some k"
  shows "queue_core x (s \<lparr>tq_jobs := filter (\<lambda>p. \<not> gone p) (tq_jobs s), tq_evicted := tq_evicted s @ filter gone (tq_jobs s)\<rparr>)"
proof -
  have wf: "wf_map (tq_jobs s)" using core by (simp add: queue_core_def)
  have get: "map_get (filter (\<lambda>p. \<not> gone p) (tq_jobs s)) k = Some j \<longleftrightarrow> map_get (tq_jobs s) k = Some j \<and> \<not> gone (k, j)" for k j
    using wf by (auto simp: map_get_filter split: option.split)
  have keys: "fst ` set (filter (\<lambda>p. \<not> gone p) (tq_jobs s)) \<union> fst ` set (tq_evicted s @ filter gone (tq_jobs s)) =
      fst ` set (tq_jobs s) \<union> fst ` set (tq_evicted s)" by auto
  have out: "finished (snd p) \<and> job_ok False (snd p)" if "p \<in> set (filter gone (tq_jobs s))" for p
  proof -
    have "map_get (tq_jobs s) (fst p) = Some (snd p)" "gone (fst p, snd p)" using that wf by (simp_all add: map_get_in [symmetric])
    then show ?thesis using gone core by (auto simp: queue_core_def)
  qed
  have ready: "(\<exists>j. map_get (filter (\<lambda>p. \<not> gone p) (tq_jobs s)) k = Some j \<and> \<not> finished j) \<longleftrightarrow>
      (\<exists>j. map_get (tq_jobs s) k = Some j \<and> \<not> finished j)" for k
    unfolding get using gone by blast
  let ?t = "s \<lparr>tq_jobs := filter (\<lambda>p. \<not> gone p) (tq_jobs s), tq_evicted := tq_evicted s @ filter gone (tq_jobs s)\<rparr>"
  have sel: "tq_jobs ?t = filter (\<lambda>p. \<not> gone p) (tq_jobs s)" "tq_evicted ?t = tq_evicted s @ filter gone (tq_jobs s)"
    "tq_nextId ?t = tq_nextId s" "tq_ready ?t = tq_ready s" by simp_all
  have "list_all (\<lambda>p. finished (snd p) \<and> job_ok False (snd p)) (tq_evicted s @ filter gone (tq_jobs s))"
    using core out unfolding queue_core_def list_all_iff set_append by blast
  moreover have "\<forall>k j. map_get (filter (\<lambda>p. \<not> gone p) (tq_jobs s)) k = Some j \<longrightarrow> x \<noteq> Some k \<longrightarrow> job_ok False j"
    using core unfolding get queue_core_def by blast
  moreover have "wf_map (filter (\<lambda>p. \<not> gone p) (tq_jobs s))" using wf by (rule wf_map_filter)
  ultimately show ?thesis using core unfolding queue_core_def sel keys ready by blast
qed

lemma core_prune: "queue_core x s \<Longrightarrow> (\<And>i. x = Some i \<Longrightarrow> \<exists>j. map_get (tq_jobs s) i = Some j \<and> \<not> finished j) \<Longrightarrow> queue_core x (prune_jobs now s)"
  unfolding prune_jobs_def Let_def
  by (rule core_filter) (auto simp: expired_def finished_def split: option.splits)

lemma prune_jobs_keeps [simp]:
  "tq_options (prune_jobs now s) = tq_options s" "tq_ready (prune_jobs now s) = tq_ready s"
  "tq_active (prune_jobs now s) = tq_active s" "tq_phase (prune_jobs now s) = tq_phase s"
  "tq_scheduled (prune_jobs now s) = tq_scheduled s" "tq_nextId (prune_jobs now s) = tq_nextId s"
  by (simp_all add: prune_jobs_def Let_def)

lemma prune_open:
  assumes "wf_map (tq_jobs s)"
  shows "map_get (tq_jobs (prune_jobs now s)) i = Some j \<and> \<not> finished j \<longleftrightarrow> map_get (tq_jobs s) i = Some j \<and> \<not> finished j"
  using assms by (auto simp: prune_jobs_def Let_def map_get_filter expired_def finished_def split: option.splits)

lemma ok_prune: assumes "queue_ok s" shows "queue_ok (prune_jobs now s)"
proof (cases "tq_phase s")
  case (Executing i index)
  then obtain j where j: "map_get (tq_jobs s) i = Some j" "\<not> finished j" "job_ok True j" "index = jb_completed j"
      and core: "queue_core (Some i) s" and active: "tq_active s = Some i"
    using assms by (auto simp: queue_ok_def)
  have "wf_map (tq_jobs s)" using core by (simp add: queue_core_def)
  then have "map_get (tq_jobs (prune_jobs now s)) i = Some j" using prune_open j(1,2) by blast
  moreover have "queue_core (Some i) (prune_jobs now s)" using core_prune [OF core] j(1,2) by blast
  ultimately show ?thesis using Executing j active by (simp add: queue_ok_def)
next
  case Idle
  then show ?thesis using assms core_prune [of None s now] by (simp add: queue_ok_def)
next
  case Pausing
  then show ?thesis using assms core_prune [of None s now] by (simp add: queue_ok_def)
qed

lemma reclaim_keeps [simp]:
  "tq_options (snd (reclaim m n ps retained s)) = tq_options s" "tq_ready (snd (reclaim m n ps retained s)) = tq_ready s"
  "tq_active (snd (reclaim m n ps retained s)) = tq_active s" "tq_phase (snd (reclaim m n ps retained s)) = tq_phase s"
  "tq_scheduled (snd (reclaim m n ps retained s)) = tq_scheduled s" "tq_nextId (snd (reclaim m n ps retained s)) = tq_nextId s"
  by (induction m n ps retained s rule: reclaim.induct) (simp_all add: Let_def)

lemma filter_key: "wf_map m \<Longrightarrow> map_get m k = Some v \<Longrightarrow> filter (\<lambda>p. fst p = k) m = [(k, v)]"
  by (induction m) (force simp: wf_map_def filter_empty_conv split: if_splits)+

lemma delete_filter: "map_delete k m = filter (\<lambda>p. fst p \<noteq> k) m"
  unfolding AList.delete_eq by (rule filter_cong) auto

lemma core_delete:
  assumes core: "queue_core x s" and p: "map_get (tq_jobs s) (fst p) = Some (snd p)" "finished (snd p)" and x: "x \<noteq> Some (fst p)"
  shows "queue_core x (s \<lparr>tq_jobs := map_delete (fst p) (tq_jobs s), tq_evicted := tq_evicted s @ [p]\<rparr>)"
proof -
  have "filter (\<lambda>q. fst q = fst p) (tq_jobs s) = [p]"
    using core p(1) filter_key [of "tq_jobs s" "fst p" "snd p"] by (simp add: queue_core_def)
  moreover have "queue_core x (s \<lparr>tq_jobs := filter (\<lambda>q. \<not> fst q = fst p) (tq_jobs s),
      tq_evicted := tq_evicted s @ filter (\<lambda>q. fst q = fst p) (tq_jobs s)\<rparr>)"
    using core_filter [OF core, of "\<lambda>q. fst q = fst p"] p x by auto
  ultimately show ?thesis by (simp add: delete_filter)
qed

text \<open>Reclaiming removes finished jobs only.\<close>

lemma reclaim_core:
  assumes "queue_core x s" "distinct (map fst ps)" "\<forall>p \<in> set ps. map_get (tq_jobs s) (fst p) = Some (snd p)"
    and "\<And>i. x = Some i \<Longrightarrow> \<exists>j. map_get (tq_jobs s) i = Some j \<and> \<not> finished j"
  shows "queue_core x (snd (reclaim m n ps retained s)) \<and>
    (\<forall>i j. map_get (tq_jobs (snd (reclaim m n ps retained s))) i = Some j \<and> \<not> finished j \<longleftrightarrow>
           map_get (tq_jobs s) i = Some j \<and> \<not> finished j)"
  using assms
proof (induction ps arbitrary: retained s)
  case Nil
  then show ?case by simp
next
  case (Cons p ps)
  let ?s1 = "s \<lparr>tq_jobs := map_delete (fst p) (tq_jobs s), tq_evicted := tq_evicted s @ [p]\<rparr>"
  show ?case
  proof (cases "length (tq_jobs s) < m \<and> retained + n \<le> 20000")
    case True
    then show ?thesis using Cons.prems(1) by simp
  next
    case go: False
    show ?thesis
    proof (cases "finished (snd p)")
      case False
      then show ?thesis using Cons.IH [of s retained] Cons.prems go by simp
    next
      case fin: True
      have p: "map_get (tq_jobs s) (fst p) = Some (snd p)" using Cons.prems(3) by simp
      have "x \<noteq> Some (fst p)" using Cons.prems(4) p fin by auto
      then have core: "queue_core x ?s1" using core_delete [OF Cons.prems(1) p fin] by simp
      have open_same: "map_get (tq_jobs ?s1) i = Some j \<and> \<not> finished j \<longleftrightarrow> map_get (tq_jobs s) i = Some j \<and> \<not> finished j" for i j
        using p fin by (auto simp: map_get_delete)
      have "fst q \<noteq> fst p" if "q \<in> set ps" for q
        using Cons.prems(2) that by (metis distinct.simps(2) image_eqI list.map(2) list.set_map)
      then have "\<forall>q \<in> set ps. map_get (tq_jobs ?s1) (fst q) = Some (snd q)"
        using Cons.prems(3) by (simp add: map_get_delete)
      moreover have "\<And>i. x = Some i \<Longrightarrow> \<exists>j. map_get (tq_jobs ?s1) i = Some j \<and> \<not> finished j"
        using Cons.prems(4) open_same by blast
      moreover have "reclaim m n (p # ps) retained s = reclaim m n ps (retained - jb_total (snd p)) ?s1"
        by (simp only: reclaim.simps if_not_P [OF go] if_P [OF fin])
      moreover have "distinct (map fst ps)" using Cons.prems(2) by simp
      ultimately show ?thesis
        using Cons.IH [OF core, of "retained - jb_total (snd p)"] open_same by simp
    qed
  qed
qed

text \<open>A queue between two operations that have the line, the loop and the count of callbacks unchanged.\<close>

lemma open_executing:
  assumes "queue_ok s" "tq_phase s = Executing i index"
  obtains j where "map_get (tq_jobs s) i = Some j" "\<not> finished j" "job_ok True j" "index = jb_completed j"
    "queue_core (Some i) s" "tq_active s = Some i"
  using assms by (auto simp: queue_ok_def)

lemma total_size_units:
  assumes "total_size actions = Some n" "actions \<noteq> []"
  shows "n = sum_list (map unit_size actions) \<and> list_all (\<lambda>k. 0 < k) (map unit_size actions) \<and> map unit_size actions \<noteq> []"
proof -
  have "ruleTaskActionSize a \<noteq> None \<Longrightarrow> 0 < unit_size a" for a
    by (cases a) (auto simp: ruleTaskActionSize_def unit_size_def split: if_splits)
  then show ?thesis using assms by (auto simp: total_size_def list_all_iff list_ex_iff split: if_splits)
qed

lemma new_job_ok:
  assumes "total_size (rt_actions r) = Some n" "rt_actions r \<noteq> []"
  shows "job_ok False (new_job userId r n now) \<and> \<not> finished (new_job userId r n now)"
  using total_size_units [OF assms] assms(2)
  by (auto simp: job_ok_def job_base_def job_at_def tallied_def tally_def new_job_def finished_def entry_size_def o_def)

definition accept :: "job \<Rightarrow> task_queue \<Rightarrow> task_queue" where
  "accept j s =
     (put_job (tq_nextId s) j s)
       \<lparr>tq_ready := tq_ready s @ [tq_nextId s], tq_nextId := Suc (tq_nextId s), tq_scheduled := Suc (tq_scheduled s)\<rparr>"

lemma ok_accept:
  assumes ok: "queue_ok s" and j: "job_ok False j" "\<not> finished j"
  shows "queue_ok (accept j s)"
proof -
  let ?n = "tq_nextId s"
  have core: "queue_core x (accept j s)" if "queue_core x s" "x \<noteq> Some ?n" for x
  proof -
    have keys: "fst ` set (tq_jobs s) \<union> fst ` set (tq_evicted s) = {..<?n}" using that(1) by (simp add: queue_core_def)
    then have fresh: "?n \<notin> fst ` set (tq_jobs s)" by blast
    then have "map_get (tq_jobs s) ?n = None" by (simp add: map_of_eq_None_iff)
    then have "?n \<notin> set (tq_ready s)" using that(1) by (simp add: queue_core_def)
    moreover have "insert ?n (fst ` set (tq_jobs s)) \<union> fst ` set (tq_evicted s) = {..<Suc ?n}" using keys by auto
    ultimately show ?thesis
      using that j by (auto simp: queue_core_def accept_def put_job_def keys_put_new map_get_set)
  qed
  show ?thesis
  proof (cases "tq_phase s")
    case (Executing i index)
    then obtain k where k: "map_get (tq_jobs s) i = Some k" "\<not> finished k" "job_ok True k" "index = jb_completed k"
        and c: "queue_core (Some i) s" "tq_active s = Some i" using open_executing [OF ok] by blast
    have "i \<in> fst ` set (tq_jobs s)" using k(1) by (force dest: map_of_SomeD)
    then have "i < ?n" using c(1) unfolding queue_core_def by blast
    then show ?thesis using core [OF c(1)] k c(2) Executing
      by (simp add: queue_ok_def accept_def put_job_def map_get_set)
  qed (use ok core [of None] in \<open>simp_all add: queue_ok_def accept_def put_job_def\<close>)
qed

lemma ok_reclaimed:
  assumes ok: "queue_ok s"
  shows "queue_ok (snd (reclaim m n (tq_jobs s) retained s))"
proof -
  let ?r = "snd (reclaim m n (tq_jobs s) retained s)"
  have wf: "wf_map (tq_jobs s)" using ok by (auto simp: queue_ok_def queue_core_def split: drain_phase.splits)
  have step: "queue_core x ?r \<and> (\<forall>i j. map_get (tq_jobs ?r) i = Some j \<and> \<not> finished j \<longleftrightarrow> map_get (tq_jobs s) i = Some j \<and> \<not> finished j)"
    if "queue_core x s" "\<And>i. x = Some i \<Longrightarrow> \<exists>j. map_get (tq_jobs s) i = Some j \<and> \<not> finished j" for x
    using wf by (intro reclaim_core that) (auto simp: wf_map_def)
  show ?thesis
  proof (cases "tq_phase s")
    case (Executing i index)
    then obtain j where j: "map_get (tq_jobs s) i = Some j" "\<not> finished j" "job_ok True j" "index = jb_completed j"
        "queue_core (Some i) s" "tq_active s = Some i" using open_executing [OF ok] by blast
    have "queue_core (Some i) ?r" "map_get (tq_jobs ?r) i = Some j" using step [OF j(5)] j(1,2) by auto
    then show ?thesis using j Executing by (simp add: queue_ok_def)
  qed (use ok step [of None] in \<open>simp_all add: queue_ok_def\<close>)
qed

lemma ok_task_enqueue:
  assumes "queue_ok s"
  shows "queue_ok (snd (enqueue userId r now s))"
proof -
  let ?s = "prune_jobs now s" and ?m = "to_maxJobs (tq_options s)"
  have ok: "queue_ok ?s" by (rule ok_prune [OF assms])
  show ?thesis
  proof (cases "total_size (rt_actions r)")
    case None
    then show ?thesis using ok by (simp add: enqueue_def Let_def)
  next
    case (Some n)
    show ?thesis
    proof (cases "rt_actions r = []")
      case True
      then show ?thesis using ok Some by (simp add: enqueue_def Let_def)
    next
      case False
      note new = new_job_ok [OF Some False]
      show ?thesis
        using ok ok_reclaimed [OF ok] ok_accept [OF ok_reclaimed [OF ok]] new Some
        by (auto simp: enqueue_def Let_def case_prod_beta accept_def split: option.split)
    qed
  qed
qed

lemma ok_end_turn:
  assumes core: "queue_core (Some i) s" and there: "map_get (tq_jobs s) i \<noteq> None"
    and job: "job_base j" "job_at (jb_cursor j) j" "\<not> finished j"
  shows "queue_ok (end_turn i j now s)"
proof -
  note turned = turned_ok(1,2) [OF job, of now]
  have keys: "fst ` set (map_set i (turned now j) (tq_jobs s)) = fst ` set (tq_jobs s)" using there by (rule keys_put)
  have out: "i \<notin> set (tq_ready s)" using core by (simp add: queue_core_def)
  have jobs: "job_ok False l" if "map_get (map_set i (turned now j) (tq_jobs s)) k = Some l" for k l
    using that turned(1) core by (auto simp: map_get_set queue_core_def split: if_splits)
  have line: "k \<in> set (if finished (turned now j) then tq_ready s else tq_ready s @ [i]) \<longleftrightarrow>
      (\<exists>l. map_get (map_set i (turned now j) (tq_jobs s)) k = Some l \<and> \<not> finished l)" for k
    using core out by (auto simp: map_get_set queue_core_def)
  have "queue_core None (end_turn i j now s)"
    using core keys out jobs line unfolding queue_core_def end_turn_turned put_job_def
    by (simp flip: turned(2))
  moreover have "tq_phase (end_turn i j now s) = Pausing" "tq_active (end_turn i j now s) = None"
    by (simp_all add: end_turn_turned)
  ultimately show ?thesis by (simp add: queue_ok_def)
qed

text \<open>The unit that is carried out settles.\<close>

lemma executing_unit:
  assumes "job_ok True j" "\<not> finished j"
  obtains a where "jb_actions j ! (jb_cursor j - 1) = Some a" "unit_size a = jb_sizes j ! (jb_cursor j - 1)"
proof -
  let ?u = "jb_cursor j - 1"
  have j: "0 < jb_cursor j" "jb_cursor j \<le> length (jb_sizes j)" "length (jb_actions j) = length (jb_sizes j)"
      "map entry_size (drop ?u (jb_actions j)) = drop ?u (jb_sizes j)" "None \<notin> set (drop ?u (jb_actions j))"
    using assms by (simp_all add: job_ok_def job_at_def)
  then have u: "?u < length (jb_actions j)" by simp
  then have split: "drop ?u (jb_actions j) = jb_actions j ! ?u # drop (Suc ?u) (jb_actions j)"
      "drop ?u (jb_sizes j) = jb_sizes j ! ?u # drop (Suc ?u) (jb_sizes j)"
    using j(3) by (simp_all add: Cons_nth_drop_Suc)
  then have "entry_size (jb_actions j ! ?u) = jb_sizes j ! ?u" "jb_actions j ! ?u \<noteq> None"
    using j(4,5) by (simp_all add: eq_commute [of None])
  then show ?thesis using that by (auto simp: entry_size_def)
qed

definition unit_settled :: "rule_action \<Rightarrow> exec_outcome \<Rightarrow> job \<Rightarrow> job" where
  "unit_settled a outcome j =
     (fold push_result (zip [jb_completed j..<jb_completed j + length (fst (unit_results a outcome))] (fst (unit_results a outcome)))
        (j \<lparr>jb_cancel := (jb_cancel j \<or> snd (unit_results a outcome))\<rparr>)) \<lparr>jb_actions := (jb_actions j)[jb_cursor j - 1 := None]\<rparr>"

lemma unit_settled_job:
  assumes job: "job_ok True j" "\<not> finished j" and a: "unit_size a = jb_sizes j ! (jb_cursor j - 1)"
  shows "job_base (unit_settled a outcome j) \<and> job_at (jb_cursor (unit_settled a outcome j)) (unit_settled a outcome j) \<and>
    \<not> finished (unit_settled a outcome j) \<and> jb_cursor (unit_settled a outcome j) = jb_cursor j \<and>
    jb_sizes (unit_settled a outcome j) = jb_sizes j"
proof -
  let ?sts = "fst (unit_results a outcome)" and ?u = "jb_cursor j - 1"
  let ?j0 = "j \<lparr>jb_cancel := (jb_cancel j \<or> snd (unit_results a outcome))\<rparr>"
  have j: "job_base j" "0 < jb_cursor j" "jb_cursor j \<le> length (jb_sizes j)" "job_at ?u j"
    using job by (simp_all add: job_ok_def)
  have "tallied ?j0" using j(1) by (simp add: job_base_def tallied_def tally_def)
  from push_all [OF this, of ?sts]
  have push: "tallied (fold push_result (zip [jb_completed j..<jb_completed j + length ?sts] ?sts) ?j0)"
    "jb_completed (fold push_result (zip [jb_completed j..<jb_completed j + length ?sts] ?sts) ?j0) = jb_completed j + unit_size a"
    by simp_all
  then have tallied: "tallied (unit_settled a outcome j)" by (simp add: unit_settled_def tallied_def tally_def)
  have "take (jb_cursor j) (jb_sizes j) = take ?u (jb_sizes j) @ [jb_sizes j ! ?u]"
    using j(2,3) by (metis Suc_diff_1 Suc_le_lessD take_Suc_conv_app_nth)
  then have sum: "jb_completed (unit_settled a outcome j) = sum_list (take (jb_cursor j) (jb_sizes j))"
    using push(2) j(4) a by (simp add: unit_settled_def job_at_def)
  have d: "drop (jb_cursor j) xs = tl (drop ?u xs)" for xs :: "'a list" using j(2) by (simp add: drop_Suc tl_drop flip: drop_Suc)
  have "drop (jb_cursor j) ((jb_actions j)[?u := None]) = drop (jb_cursor j) (jb_actions j)" using j(2) by simp
  moreover have "map entry_size (drop (jb_cursor j) (jb_actions j)) = drop (jb_cursor j) (jb_sizes j)"
    using j(4) unfolding d by (simp add: job_at_def map_tl)
  moreover have "None \<notin> set (drop (jb_cursor j) (jb_actions j))"
    using j(4) unfolding d job_at_def by (cases "drop ?u (jb_actions j)") auto
  ultimately have "job_at (jb_cursor j) (unit_settled a outcome j)"
    using sum j(3,4) by (simp add: job_at_def unit_settled_def)
  moreover have "job_base (unit_settled a outcome j)" using tallied j(1) by (simp add: job_base_def unit_settled_def)
  moreover have "\<not> finished (unit_settled a outcome j)" using job(2) by (simp add: finished_def unit_settled_def)
  ultimately show ?thesis by (simp add: unit_settled_def)
qed

lemma executed_turn:
  assumes ok: "queue_ok s" and phase: "tq_phase s = Executing i index"
  obtains j a where "map_get (tq_jobs s) i = Some j" "\<not> finished j" "job_ok True j" "queue_core (Some i) s"
    "unit_size a = jb_sizes j ! (jb_cursor j - 1)"
    "executed outcome now s = end_turn i (unit_settled a outcome j) now s"
proof -
  obtain j where j: "map_get (tq_jobs s) i = Some j" "\<not> finished j" "job_ok True j" "index = jb_completed j"
      "queue_core (Some i) s" using open_executing [OF ok phase] by blast
  obtain a where a: "jb_actions j ! (jb_cursor j - 1) = Some a" "unit_size a = jb_sizes j ! (jb_cursor j - 1)"
    using executing_unit [OF j(3,2)] .
  have "executed outcome now s = end_turn i (unit_settled a outcome j) now s"
    using phase j(1,4) a(1) by (simp add: executed_def Let_def case_prod_beta unit_settled_def)
  then show ?thesis using that j a by blast
qed

lemma ok_executed:
  assumes "queue_ok s"
  shows "queue_ok (executed outcome now s)"
proof (cases "tq_phase s")
  case (Executing i index)
  obtain j a where j: "map_get (tq_jobs s) i = Some j" "\<not> finished j" "job_ok True j" "queue_core (Some i) s"
      "unit_size a = jb_sizes j ! (jb_cursor j - 1)" and e: "executed outcome now s = end_turn i (unit_settled a outcome j) now s"
    using executed_turn [OF assms Executing] by blast
  have settled: "job_base (unit_settled a outcome j)" "job_at (jb_cursor (unit_settled a outcome j)) (unit_settled a outcome j)"
      "\<not> finished (unit_settled a outcome j)" using unit_settled_job [OF j(3,2,5), of outcome] by blast+
  show ?thesis unfolding e using j(1) by (intro ok_end_turn [OF j(4) _ settled]) simp
qed (use assms in \<open>simp_all add: executed_def\<close>)

lemma ok_next_turn:
  assumes core: "queue_core None s"
  shows "queue_ok (next_turn now s)"
proof (cases "tq_ready s")
  case Nil
  then show ?thesis using core by (simp add: next_turn_def queue_ok_def queue_core_def)
next
  case (Cons i rest)
  have "i \<in> set (tq_ready s)" using Cons by simp
  then obtain j where j: "map_get (tq_jobs s) i = Some j" "\<not> finished j" using core by (auto simp: queue_core_def)
  then have job: "job_ok False j" using core by (auto simp: queue_core_def)
  let ?s1 = "s \<lparr>tq_ready := rest, tq_active := Some i\<rparr>"
  have "distinct (i # rest)" using core Cons by (simp add: queue_core_def)
  then have "k \<in> set rest \<longleftrightarrow> k \<noteq> i \<and> k \<in> set (tq_ready s)" for k using Cons by auto
  then have core1: "queue_core (Some i) ?s1" using core \<open>distinct (i # rest)\<close> by (simp add: queue_core_def) blast
  show ?thesis
  proof (cases "jb_cancel j")
    case True
    then have "next_turn now s = end_turn i j now ?s1" using Cons j(1) by (simp add: next_turn_def)
    then show ?thesis using ok_end_turn [OF core1] j job by (simp add: job_ok_def)
  next
    case False
    let ?j = "j \<lparr>jb_cursor := Suc (jb_cursor j), jb_state := Running, jb_started := jb_started j @ [jb_cursor j]\<rparr>"
    have next_s: "next_turn now s = (put_job i ?j ?s1) \<lparr>tq_phase := Executing i (jb_completed j)\<rparr>"
      using Cons j(1) False by (simp add: next_turn_def)
    have "queue_core (Some i) (put_job i ?j ?s1)"
      using j by (intro core_put [OF core1]) (simp_all add: finished_def)
    then have "queue_core (Some i) (next_turn now s)" unfolding next_s by (simp add: queue_core_def)
    moreover have "job_ok True ?j" "\<not> finished ?j"
      using job j(2) by (simp_all add: job_ok_def job_base_def job_at_def tallied_def tally_def finished_def)
    ultimately show ?thesis unfolding next_s by (simp add: queue_ok_def put_job_def map_get_set)
  qed
qed

lemma ok_cancel_job:
  assumes ok: "queue_ok s"
  shows "queue_ok (snd (cancel_job userId i s))"
proof (cases "map_get (tq_jobs s) i")
  case None
  then show ?thesis using ok by (simp add: cancel_job_def)
next
  case (Some j)
  let ?j = "j \<lparr>jb_cancel := True\<rparr>"
  have same: "job_ok e ?j = job_ok e j" "finished ?j = finished j" for e
    by (simp_all add: job_ok_def job_base_def job_at_def tallied_def tally_def finished_def)
  have core: "queue_core x (put_job i ?j s)" if c: "queue_core x s" for x
  proof (rule core_put [OF c Some same(2)])
    assume "x \<noteq> Some i"
    then have "job_ok False j" using c Some unfolding queue_core_def by blast
    then show "job_ok False ?j" unfolding same .
  qed
  have sched: "queue_core x ((put_job i ?j s) \<lparr>tq_scheduled := n\<rparr>)" if "queue_core x s" for x n
    using core [OF that] by simp
  have "queue_ok ((put_job i ?j s) \<lparr>tq_scheduled := Suc (tq_scheduled s)\<rparr>)"
  proof (cases "tq_phase s")
    case (Executing k index)
    then obtain l where l: "map_get (tq_jobs s) k = Some l" "\<not> finished l" "job_ok True l" "index = jb_completed l"
        "queue_core (Some k) s" "tq_active s = Some k" using open_executing [OF ok] by blast
    let ?l = "if k = i then ?j else l"
    have "k = i \<Longrightarrow> l = j" using l(1) Some by simp
    then have "\<not> finished ?l" "job_ok True ?l" "index = jb_completed ?l" using l same by (cases "k = i"; simp)+
    moreover have "map_get (tq_jobs (put_job i ?j s)) k = Some ?l" using l(1) by (simp add: put_job_def map_get_set)
    ultimately show ?thesis using sched [OF l(5)] l(6) Executing by (simp add: queue_ok_def put_job_def)
  qed (use ok sched in \<open>simp_all add: queue_ok_def put_job_def\<close>)
  then show ?thesis using Some ok by (simp add: cancel_job_def Let_def)
qed

lemma ok_drain:
  assumes ok: "queue_ok s"
  shows "queue_ok (drain now s)"
proof -
  let ?s = "s \<lparr>tq_scheduled := tq_scheduled s - 1\<rparr>"
  show ?thesis
  proof (cases "tq_phase s")
    case Idle
    then have "queue_ok (next_turn now ?s)" using ok by (intro ok_next_turn) (simp add: queue_ok_def)
    then show ?thesis using ok Idle by (simp add: drain_def Let_def)
  qed (use ok in \<open>simp_all add: drain_def Let_def queue_ok_def\<close>)
qed

lemma ok_continue: "queue_ok s \<Longrightarrow> queue_ok (continue_drain now s)"
  using ok_next_turn [of s now] by (auto simp: continue_drain_def queue_ok_def)

lemma ok_task_step: "queue_ok s \<Longrightarrow> queue_ok (task_step op s)"
  by (cases op) (simp_all add: ok_task_enqueue get_job_def lookup_job_def Let_def ok_prune ok_cancel_job ok_drain ok_continue ok_executed)

lemma ok_new_queue: "queue_ok (new_queue options)"
  by (simp add: queue_ok_def queue_core_def new_queue_def)

lemma ok_task_run: "queue_ok (fold task_step ops (new_queue options))"
proof -
  have "queue_ok s \<Longrightarrow> queue_ok (fold task_step ops s)" for s
    by (induction ops arbitrary: s) (simp_all add: ok_task_step)
  then show ?thesis using ok_new_queue .
qed

section \<open>Bounds\<close>

definition weight :: "(job \<Rightarrow> nat) \<Rightarrow> task_queue \<Rightarrow> nat" where
  "weight f s = sum_list (map (\<lambda>p. f (snd p)) (tq_jobs s))"

lemma weight_filter:
  "weight f (s \<lparr>tq_jobs := filter P (tq_jobs s), tq_evicted := e\<rparr>) \<le> weight f s"
proof -
  have "sum_list (map g (filter P xs)) \<le> sum_list (map g xs)" for g :: "'a \<Rightarrow> nat" and P xs by (induction xs) auto
  then show ?thesis by (simp add: weight_def)
qed

lemma weight_put:
  assumes "map_get (tq_jobs s) i = Some j"
  shows "weight f (put_job i j' s) + f j = weight f s + f j'"
proof -
  have "map_get m i = Some j \<Longrightarrow> sum_list (map (\<lambda>p. f (snd p)) (map_set i j' m)) + f j = sum_list (map (\<lambda>p. f (snd p)) m) + f j'" for m
    by (induction m) (auto split: if_splits)
  then show ?thesis using assms by (simp add: weight_def put_job_def)
qed

lemma weight_put_le:
  "map_get (tq_jobs s) i = Some j \<Longrightarrow> f j' \<le> f j \<Longrightarrow> weight f (put_job i j' s) \<le> weight f s"
  using weight_put [of s i j f j'] by simp

lemma weight_new:
  "map_get (tq_jobs s) i = None \<Longrightarrow> weight f (put_job i j s) = weight f s + f j"
  by (simp add: weight_def put_job_def map_set_new map_has_def)

lemma weight_same [simp]:
  "weight f (s \<lparr>tq_scheduled := n\<rparr>) = weight f s" "weight f (s \<lparr>tq_ready := r\<rparr>) = weight f s"
  "weight f (s \<lparr>tq_active := a\<rparr>) = weight f s" "weight f (s \<lparr>tq_phase := p\<rparr>) = weight f s"
  "weight f (s \<lparr>tq_nextId := k\<rparr>) = weight f s"
  by (simp_all add: weight_def)

definition w_pending :: "job \<Rightarrow> nat" where "w_pending j = (if finished j then 0 else jb_total j - jb_completed j)"
definition w_bytes :: "job \<Rightarrow> nat" where "w_bytes j = (if finished j then 0 else jb_payloadBytes j)"
definition w_own :: "int \<Rightarrow> job \<Rightarrow> nat" where "w_own userId j = (if \<not> finished j \<and> jb_userId j = userId then 1 else 0)"

lemma weights:
  "pending_items s = weight w_pending s" "pending_bytes s = weight w_bytes s" "own_jobs userId s = weight (w_own userId) s"
  "retained_items s = weight jb_total s" "length (tq_jobs s) = weight (\<lambda>_. 1) s"
proof -
  have "sum_list (map f (filter P (map snd xs))) = sum_list (map (\<lambda>p. if P (snd p) then f (snd p) else 0) xs)"
    for f :: "job \<Rightarrow> nat" and P and xs :: "(nat \<times> job) list" by (induction xs) auto
  note sum_filter = this
  have "length (filter P (filter Q (map snd xs))) = sum_list (map (\<lambda>p. if Q (snd p) \<and> P (snd p) then 1 else 0) xs)"
    for P Q and xs :: "(nat \<times> job) list" by (induction xs) auto
  then show "own_jobs userId s = weight (w_own userId) s"
    by (simp add: own_jobs_def unfinished_jobs_def weight_def w_own_def)
  show "pending_items s = weight w_pending s" "pending_bytes s = weight w_bytes s"
    unfolding pending_items_def pending_bytes_def unfinished_jobs_def sum_filter weight_def w_pending_def w_bytes_def
    by (intro arg_cong [where f = sum_list] map_cong; simp)+
  show "retained_items s = weight jb_total s" "length (tq_jobs s) = weight (\<lambda>_. 1) s"
    by (simp_all add: retained_items_def weight_def sum_list_triv)
qed

text \<open>\<open>shrinking\<close>: the quantities that are bounded do not grow.\<close>

definition shrinking :: "task_queue \<Rightarrow> task_queue \<Rightarrow> bool" where
  "shrinking s t \<longleftrightarrow> tq_options t = tq_options s \<and> weight w_pending t \<le> weight w_pending s \<and> weight w_bytes t \<le> weight w_bytes s \<and>
     (\<forall>u. weight (w_own u) t \<le> weight (w_own u) s) \<and> weight jb_total t \<le> weight jb_total s \<and> weight (\<lambda>_. 1) t \<le> weight (\<lambda>_. 1) s"

definition bounded :: "task_queue \<Rightarrow> bool" where
  "bounded s \<longleftrightarrow> pending_items s \<le> to_maxPendingItems (tq_options s) \<and> pending_bytes s \<le> 8 * 1024 * 1024 \<and>
     (\<forall>u. own_jobs u s \<le> to_maxUserJobs (tq_options s)) \<and> retained_items s \<le> 20000 \<and>
     length (tq_jobs s) \<le> to_maxJobs (tq_options s)"

lemma shrinking_bounded:
  assumes sh: "shrinking s t" and b: "bounded s"
  shows "bounded t"
proof -
  have o: "tq_options t = tq_options s" using sh by (simp add: shrinking_def)
  have w: "weight w_pending t \<le> weight w_pending s" "weight w_bytes t \<le> weight w_bytes s"
    "weight (w_own u) t \<le> weight (w_own u) s" "weight jb_total t \<le> weight jb_total s"
    "weight (\<lambda>_. 1) t \<le> weight (\<lambda>_. 1) s" for u using sh by (simp_all add: shrinking_def)
  have m: "weight w_pending s \<le> to_maxPendingItems (tq_options s)" "weight w_bytes s \<le> 8 * 1024 * 1024"
    "weight (w_own u) s \<le> to_maxUserJobs (tq_options s)" "weight jb_total s \<le> 20000"
    "weight (\<lambda>_. 1) s \<le> to_maxJobs (tq_options s)" for u using b unfolding bounded_def weights by blast+
  show ?thesis unfolding bounded_def weights o
    by (intro conjI allI order_trans [OF w(1) m(1)] order_trans [OF w(2) m(2)] order_trans [OF w(3) m(3)]
        order_trans [OF w(4) m(4)] order_trans [OF w(5) m(5)])
qed

lemma shrinking_refl [simp]: "shrinking s s"
  by (simp add: shrinking_def)

lemma shrinking_trans: "shrinking s t \<Longrightarrow> shrinking t u \<Longrightarrow> shrinking s u"
  unfolding shrinking_def by (metis le_trans)

lemma shrinking_filter: "shrinking s (s \<lparr>tq_jobs := filter P (tq_jobs s), tq_evicted := e\<rparr>)"
  by (simp add: shrinking_def weight_filter)

lemma shrinking_same:
  "shrinking s (t \<lparr>tq_scheduled := n\<rparr>) = shrinking s t" "shrinking s (t \<lparr>tq_ready := r\<rparr>) = shrinking s t"
  "shrinking s (t \<lparr>tq_active := a\<rparr>) = shrinking s t" "shrinking s (t \<lparr>tq_phase := p\<rparr>) = shrinking s t"
  "shrinking (s \<lparr>tq_scheduled := n\<rparr>) t = shrinking s t" "shrinking (s \<lparr>tq_ready := r\<rparr>) t = shrinking s t"
  "shrinking (s \<lparr>tq_active := a\<rparr>) t = shrinking s t"
  by (simp_all add: shrinking_def)

lemma shrinking_put:
  assumes j: "map_get (tq_jobs s) i = Some j"
    and le: "jb_total j' = jb_total j" "jb_userId j' = jb_userId j" "jb_completed j \<le> jb_completed j'"
      "jb_payloadBytes j' \<le> jb_payloadBytes j" "finished j \<Longrightarrow> finished j'"
  shows "shrinking s (put_job i j' s)"
proof -
  have w: "w_pending j' \<le> w_pending j" "w_bytes j' \<le> w_bytes j" "w_own u j' \<le> w_own u j" for u
    using le by (auto simp: w_pending_def w_bytes_def w_own_def)
  note put = weight_put_le [OF j, of w_pending, OF w(1)] weight_put_le [OF j, of w_bytes, OF w(2)]
    weight_put_le [OF j, of "w_own _", OF w(3)] weight_put_le [OF j, of jb_total, OF eq_imp_le [OF le(1)]]
    weight_put_le [OF j, of "\<lambda>_. 1", OF order_refl]
  have "tq_options (put_job i j' s) = tq_options s" by (simp add: put_job_def)
  then show ?thesis unfolding shrinking_def using put by blast
qed

lemma shrinking_prune: "shrinking s (prune_jobs now s)"
  unfolding prune_jobs_def Let_def by (rule shrinking_filter)

lemma shrinking_reclaim: "shrinking s (snd (reclaim m n ps retained s))"
proof (induction m n ps retained s rule: reclaim.induct)
  case (2 m n p ps retained s)
  have "shrinking s (s \<lparr>tq_jobs := map_delete (fst p) (tq_jobs s), tq_evicted := tq_evicted s @ [p]\<rparr>)"
    unfolding delete_filter by (rule shrinking_filter)
  then show ?case using 2 by (auto intro: shrinking_trans)
qed simp

lemma weight_delete:
  fixes f :: "job \<Rightarrow> nat"
  shows "wf_map m \<Longrightarrow> map_get m k = Some v \<Longrightarrow>
    sum_list (map (\<lambda>p. f (snd p)) (filter (\<lambda>p. fst p \<noteq> k) m)) + f v = sum_list (map (\<lambda>p. f (snd p)) m)"
proof (induction m)
  case (Cons q m)
  show ?case
  proof (cases "fst q = k")
    case True
    then have "k \<notin> fst ` set m" using Cons.prems(1) by (simp add: wf_map_def)
    then have "\<forall>r \<in> set m. fst r \<noteq> k" by (metis image_eqI)
    then have "filter (\<lambda>p. fst p \<noteq> k) m = m" by simp
    then show ?thesis using True Cons.prems(2) by (cases q) simp
  next
    case False
    then show ?thesis using Cons by (cases q) (auto simp: wf_map_def)
  qed
qed simp

text \<open>Reclaiming knows how many items are left.\<close>

lemma reclaim_retained:
  assumes "retained = weight jb_total s" "distinct (map fst ps)" "\<forall>p \<in> set ps. map_get (tq_jobs s) (fst p) = Some (snd p)"
    and "wf_map (tq_jobs s)"
  shows "fst (reclaim m n ps retained s) = weight jb_total (snd (reclaim m n ps retained s))"
  using assms
proof (induction ps arbitrary: retained s)
  case Nil
  then show ?case by simp
next
  case (Cons p ps)
  let ?s1 = "s \<lparr>tq_jobs := map_delete (fst p) (tq_jobs s), tq_evicted := tq_evicted s @ [p]\<rparr>"
  show ?case
  proof (cases "length (tq_jobs s) < m \<and> retained + n \<le> 20000")
    case True
    then show ?thesis using Cons.prems(1) by simp
  next
    case go: False
    have rest: "fst q \<noteq> fst p" if "q \<in> set ps" for q
      using Cons.prems(2) that by (metis distinct.simps(2) image_eqI list.map(2) list.set_map)
    have p: "map_get (tq_jobs s) (fst p) = Some (snd p)" using Cons.prems(3) by simp
    have less: "weight jb_total ?s1 = retained - jb_total (snd p)" using weight_delete [OF Cons.prems(4) p, of jb_total] Cons.prems(1) by (simp add: weight_def delete_filter)
    show ?thesis
    proof (cases "finished (snd p)")
      case False
      then show ?thesis using Cons.IH [of retained s] Cons.prems go by simp
    next
      case True
      have "reclaim m n (p # ps) retained s = reclaim m n ps (retained - jb_total (snd p)) ?s1"
        by (simp only: reclaim.simps if_not_P [OF go] if_P [OF True])
      moreover have "\<forall>q \<in> set ps. map_get (tq_jobs ?s1) (fst q) = Some (snd q)"
        using Cons.prems(3) rest by (simp add: map_get_delete)
      ultimately show ?thesis using Cons.IH [of "retained - jb_total (snd p)" ?s1] Cons.prems(2,4) less by simp
    qed
  qed
qed

lemma fold_push_completed: "jb_completed (fold push_result rs j) = jb_completed j + length rs"
  by (induction rs arbitrary: j) simp_all

lemma unit_settled_fields [simp]:
  "jb_total (unit_settled a outcome j) = jb_total j" "jb_userId (unit_settled a outcome j) = jb_userId j"
  "jb_payloadBytes (unit_settled a outcome j) = jb_payloadBytes j" "jb_completed j \<le> jb_completed (unit_settled a outcome j)"
  by (simp_all add: unit_settled_def fold_push_completed)

lemma shrinking_end_turn:
  assumes old: "map_get (tq_jobs s) i = Some j0" "\<not> finished j0"
    and job: "job_base j" "job_at (jb_cursor j) j" "\<not> finished j"
    and same: "jb_total j = jb_total j0" "jb_userId j = jb_userId j0" "jb_payloadBytes j = jb_payloadBytes j0"
      "jb_completed j0 \<le> jb_completed j"
  shows "shrinking s (end_turn i j now s)"
proof -
  note t = turned_ok(5-8) [OF job, of now]
  have "shrinking s (put_job i (turned now j) s)"
    using t same old(2) by (intro shrinking_put [OF old(1)]) simp_all
  then show ?thesis unfolding end_turn_turned by (simp only: shrinking_same)
qed

lemma shrinking_next_turn:
  assumes core: "queue_core None s"
  shows "shrinking s (next_turn now s)"
proof (cases "tq_ready s")
  case Nil
  then show ?thesis by (simp add: next_turn_def shrinking_same)
next
  case (Cons i rest)
  have "i \<in> set (tq_ready s)" using Cons by simp
  then obtain j where j: "map_get (tq_jobs s) i = Some j" "\<not> finished j" using core by (auto simp: queue_core_def)
  then have job: "job_ok False j" using core by (auto simp: queue_core_def)
  let ?s1 = "s \<lparr>tq_ready := rest, tq_active := Some i\<rparr>"
  have s1: "shrinking ?s1 t = shrinking s t" for t by (simp add: shrinking_same)
  show ?thesis
  proof (cases "jb_cancel j")
    case True
    then have "next_turn now s = end_turn i j now ?s1" using Cons j(1) by (simp add: next_turn_def)
    then show ?thesis using shrinking_end_turn [of ?s1 i j j now] j job by (simp add: s1 job_ok_def)
  next
    case False
    let ?j = "j \<lparr>jb_cursor := Suc (jb_cursor j), jb_state := Running, jb_started := jb_started j @ [jb_cursor j]\<rparr>"
    have "shrinking ?s1 (put_job i ?j ?s1)" using j by (intro shrinking_put [where j = j]) (simp_all add: finished_def)
    moreover have "next_turn now s = (put_job i ?j ?s1) \<lparr>tq_phase := Executing i (jb_completed j)\<rparr>"
      using Cons j(1) False by (simp add: next_turn_def)
    ultimately show ?thesis by (simp add: s1 shrinking_same)
  qed
qed

lemma shrinking_drain: "queue_ok s \<Longrightarrow> shrinking s (drain now s)"
  using shrinking_next_turn [of "s \<lparr>tq_scheduled := tq_scheduled s - 1\<rparr>" now]
  by (cases "tq_phase s") (simp_all add: drain_def Let_def queue_ok_def shrinking_same)

lemma shrinking_continue: "queue_ok s \<Longrightarrow> shrinking s (continue_drain now s)"
  using shrinking_next_turn [of s now] by (cases "tq_phase s") (simp_all add: continue_drain_def queue_ok_def)

lemma shrinking_executed:
  assumes "queue_ok s"
  shows "shrinking s (executed outcome now s)"
proof (cases "tq_phase s")
  case (Executing i index)
  obtain j a where j: "map_get (tq_jobs s) i = Some j" "\<not> finished j" "job_ok True j" "queue_core (Some i) s"
      "unit_size a = jb_sizes j ! (jb_cursor j - 1)" and e: "executed outcome now s = end_turn i (unit_settled a outcome j) now s"
    using executed_turn [OF assms Executing] by blast
  have settled: "job_base (unit_settled a outcome j)" "job_at (jb_cursor (unit_settled a outcome j)) (unit_settled a outcome j)"
      "\<not> finished (unit_settled a outcome j)" using unit_settled_job [OF j(3,2,5), of outcome] by blast+
  show ?thesis unfolding e by (rule shrinking_end_turn [OF j(1,2) settled]) simp_all
qed (simp_all add: executed_def)

lemma shrinking_cancel: "shrinking s (snd (cancel_job userId i s))"
proof (cases "map_get (tq_jobs s) i")
  case None
  then show ?thesis by (simp add: cancel_job_def)
next
  case (Some j)
  have "shrinking s (put_job i (j \<lparr>jb_cancel := True\<rparr>) s)" by (rule shrinking_put [OF Some]) (simp_all add: finished_def)
  then show ?thesis using Some by (simp add: cancel_job_def Let_def shrinking_same)
qed

lemma bounded_accept:
  assumes ok: "queue_ok s" and b: "bounded s"
    and room: "own_jobs userId s < to_maxUserJobs (tq_options s)" "pending_items s + n \<le> to_maxPendingItems (tq_options s)"
      "pending_bytes s + rt_bytes r \<le> 8 * 1024 * 1024" "retained_items s + n \<le> 20000"
      "length (tq_jobs s) < to_maxJobs (tq_options s)"
  shows "bounded (accept (new_job userId r n now) s)"
proof -
  let ?j = "new_job userId r n now"
  have "fst ` set (tq_jobs s) \<subseteq> {..<tq_nextId s}"
    using ok unfolding queue_ok_def queue_core_def by (cases "tq_phase s"; simp; blast)
  then have "tq_nextId s \<notin> fst ` set (tq_jobs s)" by blast
  then have "map_get (tq_jobs s) (tq_nextId s) = None" by (simp add: map_of_eq_None_iff)
  then have w: "weight f (accept ?j s) = weight f s + f ?j" for f by (simp add: accept_def weight_new)
  have j: "w_pending ?j = n" "w_bytes ?j = rt_bytes r" "w_own u ?j = (if u = userId then 1 else 0)" "jb_total ?j = n" for u
    by (simp_all add: new_job_def w_pending_def w_bytes_def w_own_def finished_def)
  have o: "tq_options (accept ?j s) = tq_options s" by (simp add: accept_def put_job_def)
  have own: "weight (w_own u) s \<le> to_maxUserJobs (tq_options s)" for u using b unfolding bounded_def weights by blast
  show ?thesis unfolding bounded_def weights w o j using room own unfolding weights by simp
qed

lemma bounded_enqueue:
  assumes ok0: "queue_ok s0" and b0: "bounded s0"
  shows "bounded (snd (enqueue userId r now s0))"
proof -
  let ?s = "prune_jobs now s0" and ?o = "tq_options s0"
  have ok: "queue_ok ?s" by (rule ok_prune [OF ok0])
  have b: "bounded ?s" by (rule shrinking_bounded [OF shrinking_prune b0])
  have wf: "wf_map (tq_jobs ?s)" using ok by (auto simp: queue_ok_def queue_core_def split: drain_phase.splits)
  show ?thesis
  proof (cases "total_size (rt_actions r)")
    case None
    then show ?thesis using b by (simp add: enqueue_def Let_def)
  next
    case (Some n)
    let ?rec = "reclaim (to_maxJobs ?o) n (tq_jobs ?s) (retained_items ?s) ?s"
    have sh: "shrinking ?s (snd ?rec)" by (rule shrinking_reclaim)
    then have b1: "bounded (snd ?rec)" using b by (rule shrinking_bounded)
    have retained: "fst ?rec = retained_items (snd ?rec)"
      unfolding weights using wf by (intro reclaim_retained) (auto simp: wf_map_def)
    have room: "bounded (accept (new_job userId r n now) (snd ?rec))"
      if "own_jobs userId ?s < to_maxUserJobs ?o" "pending_items ?s + n \<le> to_maxPendingItems ?o"
        "pending_bytes ?s + rt_bytes r \<le> 8 * 1024 * 1024" "fst ?rec + n \<le> 20000" "length (tq_jobs (snd ?rec)) < to_maxJobs ?o"
    proof (rule bounded_accept [OF _ b1])
      show "queue_ok (snd ?rec)" using ok_reclaimed [OF ok] .
      have "own_jobs userId (snd ?rec) \<le> own_jobs userId ?s" "pending_items (snd ?rec) \<le> pending_items ?s"
        "pending_bytes (snd ?rec) \<le> pending_bytes ?s" using sh unfolding weights shrinking_def by blast+
      then show "own_jobs userId (snd ?rec) < to_maxUserJobs (tq_options (snd ?rec))"
        "pending_items (snd ?rec) + n \<le> to_maxPendingItems (tq_options (snd ?rec))"
        "pending_bytes (snd ?rec) + rt_bytes r \<le> 8 * 1024 * 1024" using that(1-3) by simp_all
      show "retained_items (snd ?rec) + n \<le> 20000" using that(4) retained by simp
      show "length (tq_jobs (snd ?rec)) < to_maxJobs (tq_options (snd ?rec))" using that(5) by simp
    qed
    show ?thesis
      using b b1 room Some
      by (auto simp: enqueue_def Let_def case_prod_beta accept_def split: option.split)
  qed
qed

lemma task_bounded_step: "queue_ok s \<Longrightarrow> bounded s \<Longrightarrow> bounded (task_step op s)"
  by (cases op)
     (simp_all add: bounded_enqueue get_job_def lookup_job_def Let_def shrinking_bounded [OF shrinking_prune]
       shrinking_bounded [OF shrinking_cancel] shrinking_bounded [OF shrinking_drain] shrinking_bounded [OF shrinking_continue]
       shrinking_bounded [OF shrinking_executed])

lemma task_bounded_run: "bounded (fold task_step ops (new_queue options))"
proof -
  have "queue_ok s \<Longrightarrow> bounded s \<Longrightarrow> bounded (fold task_step ops s)" for s
    by (induction ops arbitrary: s) (simp_all add: ok_task_step task_bounded_step)
  moreover have "bounded (new_queue options)"
    by (simp add: bounded_def new_queue_def pending_items_def pending_bytes_def own_jobs_def retained_items_def unfinished_jobs_def)
  ultimately show ?thesis using ok_new_queue by blast
qed

section \<open>Progress\<close>

definition w_units :: "job \<Rightarrow> nat" where
  "w_units j = (if finished j then 0 else length (jb_sizes j) - jb_cursor j)"

text \<open>The units that have not settled.\<close>

definition remaining_units :: "task_queue \<Rightarrow> nat" where
  "remaining_units s = weight w_units s + (case tq_phase s of Executing _ _ \<Rightarrow> 1 | _ \<Rightarrow> 0)"

text \<open>What has been scheduled runs, and a unit that is being carried out settles.\<close>

definition round_of :: "int \<Rightarrow> exec_outcome \<Rightarrow> task_queue \<Rightarrow> task_queue" where
  "round_of now outcome s = executed outcome now (continue_drain now (drain now s))"

definition executing :: "task_queue \<Rightarrow> bool" where
  "executing s \<longleftrightarrow> (case tq_phase s of Executing _ _ \<Rightarrow> True | _ \<Rightarrow> False)"

lemma remaining_executed:
  assumes ok: "queue_ok s"
  shows "if executing s then remaining_units (executed outcome now s) < remaining_units s else executed outcome now s = s"
proof (cases "tq_phase s")
  case (Executing i index)
  obtain j a where j: "map_get (tq_jobs s) i = Some j" "\<not> finished j" "job_ok True j" "queue_core (Some i) s"
      "unit_size a = jb_sizes j ! (jb_cursor j - 1)" and e: "executed outcome now s = end_turn i (unit_settled a outcome j) now s"
    using executed_turn [OF ok Executing] by blast
  let ?u = "unit_settled a outcome j"
  have u: "job_base ?u" "job_at (jb_cursor ?u) ?u" "\<not> finished ?u" "jb_cursor ?u = jb_cursor j" "jb_sizes ?u = jb_sizes j"
    using unit_settled_job [OF j(3,2,5), of outcome] by blast+
  have "w_units (turned now ?u) \<le> w_units j"
    using turned_ok(3,4) [OF u(1-3), of now] u(4,5) j(2) by (simp add: w_units_def)
  then have "weight w_units (put_job i (turned now ?u) s) \<le> weight w_units s" by (rule weight_put_le [OF j(1)])
  then have "remaining_units (executed outcome now s) < remaining_units s"
    using Executing by (simp add: remaining_units_def e end_turn_turned)
  then show ?thesis using Executing by (simp add: executing_def)
qed (simp_all add: executing_def executed_def)

lemma remaining_next_turn:
  assumes core: "queue_core None s" and idle: "\<not> executing s"
  shows "remaining_units (next_turn now s) \<le> remaining_units s"
    and "tq_ready s \<noteq> [] \<Longrightarrow> remaining_units (next_turn now s) < remaining_units s \<or> executing (next_turn now s)"
proof -
  have less: "remaining_units (next_turn now s) < remaining_units s \<or>
      executing (next_turn now s) \<and> remaining_units (next_turn now s) = remaining_units s" if ready: "tq_ready s = i # rest" for i rest
  proof -
    have "i \<in> set (tq_ready s)" using ready by simp
    then obtain j where j: "map_get (tq_jobs s) i = Some j" "\<not> finished j" using core by (auto simp: queue_core_def)
    then have job: "job_ok False j" using core by (auto simp: queue_core_def)
    then have left: "jb_cursor j < length (jb_sizes j)" using j(2) by (simp add: job_ok_def)
    let ?s1 = "s \<lparr>tq_ready := rest, tq_active := Some i\<rparr>"
    show ?thesis
    proof (cases "jb_cancel j")
      case True
      have "finished (turned now j)" using turned_ok(9) job j(2) True by (simp add: job_ok_def)
      then have "w_units (turned now j) = 0" by (simp add: w_units_def)
      moreover have "0 < w_units j" using left j(2) by (simp add: w_units_def)
      ultimately have "weight w_units (put_job i (turned now j) ?s1) < weight w_units s"
        using weight_put [of ?s1 i j w_units "turned now j"] j(1) by simp
      moreover have "next_turn now s = end_turn i j now ?s1" using ready j(1) True by (simp add: next_turn_def)
      ultimately show ?thesis by (simp add: remaining_units_def end_turn_turned)
    next
      case False
      let ?j = "j \<lparr>jb_cursor := Suc (jb_cursor j), jb_state := Running, jb_started := jb_started j @ [jb_cursor j]\<rparr>"
      have next_s: "next_turn now s = (put_job i ?j ?s1) \<lparr>tq_phase := Executing i (jb_completed j)\<rparr>"
        using ready j(1) False by (simp add: next_turn_def)
      have "Suc (w_units ?j) = w_units j" using left j(2) by (simp add: w_units_def finished_def)
      then have "Suc (weight w_units (put_job i ?j ?s1)) = weight w_units s"
        using weight_put [of ?s1 i j w_units ?j] j(1) by simp
      then show ?thesis using idle unfolding next_s
        by (simp add: remaining_units_def executing_def split: drain_phase.splits)
    qed
  qed
  show "remaining_units (next_turn now s) \<le> remaining_units s"
  proof (cases "tq_ready s")
    case Nil
    then show ?thesis by (simp add: next_turn_def remaining_units_def)
  next
    case (Cons i rest)
    then show ?thesis using less [OF Cons] by linarith
  qed
  show "tq_ready s \<noteq> [] \<Longrightarrow> remaining_units (next_turn now s) < remaining_units s \<or> executing (next_turn now s)"
    using less by (cases "tq_ready s") auto
qed

lemma remaining_drain:
  assumes ok: "queue_ok s"
  shows "remaining_units (drain now s) \<le> remaining_units s"
proof -
  let ?s = "s \<lparr>tq_scheduled := tq_scheduled s - 1\<rparr>"
  have same: "remaining_units ?s = remaining_units s" by (simp add: remaining_units_def)
  show ?thesis
  proof (cases "tq_phase s")
    case Idle
    then have "queue_core None ?s" "\<not> executing ?s" using ok by (simp_all add: queue_ok_def executing_def)
    then show ?thesis using remaining_next_turn(1) [of ?s now] Idle same by (simp add: drain_def Let_def)
  qed (use same in \<open>simp_all add: drain_def Let_def\<close>)
qed

lemma remaining_continue:
  "queue_ok s \<Longrightarrow> remaining_units (continue_drain now s) \<le> remaining_units s"
  using remaining_next_turn(1) [of s now] by (auto simp: continue_drain_def queue_ok_def executing_def)

lemma resting_done:
  assumes "queue_core None s" "\<not> executing s" "tq_ready s = []"
  shows "remaining_units s = 0"
proof -
  have "finished (snd p)" if "p \<in> set (tq_jobs s)" for p
  proof -
    have "map_get (tq_jobs s) (fst p) = Some (snd p)"
      using assms(1) that by (simp add: queue_core_def wf_map_def)
    then show ?thesis using assms(1,3) by (auto simp: queue_core_def)
  qed
  then have "weight w_units s = 0" by (auto simp: weight_def w_units_def)
  then show ?thesis using assms(2) by (simp add: remaining_units_def executing_def split: drain_phase.splits)
qed

lemma started_or_less:
  assumes ok: "queue_ok s" and left: "0 < remaining_units s" and idle: "\<not> executing s"
  shows "executing (continue_drain now (drain now s)) \<or>
    remaining_units (continue_drain now (drain now s)) < remaining_units s"
proof -
  let ?s = "s \<lparr>tq_scheduled := tq_scheduled s - 1\<rparr>"
  have core: "queue_core None s" using ok idle by (auto simp: queue_ok_def executing_def split: drain_phase.splits)
  then have ready: "tq_ready s \<noteq> []" using resting_done idle left by fastforce
  have turn: "remaining_units (next_turn now t) < remaining_units s \<or> executing (next_turn now t)"
    if "t = s \<or> t = ?s" for t
    using remaining_next_turn(2) [of t now] core idle ready that
    by (auto simp: queue_core_def executing_def remaining_units_def)
  show ?thesis
  proof (cases "tq_phase s")
    case Idle
    then have "0 < tq_scheduled s" using ok ready by (simp add: queue_ok_def)
    then have d: "drain now s = next_turn now ?s" using Idle by (simp add: drain_def Let_def)
    have "queue_ok (drain now s)" by (rule ok_drain [OF ok])
    then have "remaining_units (continue_drain now (drain now s)) \<le> remaining_units (drain now s)" by (rule remaining_continue)
    moreover have "continue_drain now t = t" if "executing t" for t
      using that by (auto simp: continue_drain_def executing_def)
    ultimately show ?thesis using turn [of ?s] unfolding d by fastforce
  next
    case Pausing
    then have "drain now s = s \<or> drain now s = ?s" by (simp add: drain_def Let_def)
    moreover from this have "continue_drain now (drain now s) = next_turn now (drain now s)"
      using Pausing by (auto simp: continue_drain_def)
    ultimately show ?thesis using turn by metis
  next
    case (Executing i index)
    then show ?thesis using idle by (simp add: executing_def)
  qed
qed

lemma round_progress:
  assumes ok: "queue_ok s"
  shows "queue_ok (round_of now outcome s)"
    and "remaining_units (round_of now outcome s) \<le> remaining_units s - 1"
proof -
  let ?c = "continue_drain now (drain now s)"
  have c: "queue_ok ?c" by (intro ok_continue ok_drain ok)
  show "queue_ok (round_of now outcome s)" unfolding round_of_def by (rule ok_executed [OF c])
  have le: "remaining_units ?c \<le> remaining_units s"
    using remaining_continue [OF ok_drain [OF ok]] remaining_drain [OF ok] by (rule order_trans)
  have run: "if executing ?c then remaining_units (executed outcome now ?c) < remaining_units ?c else executed outcome now ?c = ?c"
    by (rule remaining_executed [OF c])
  have held: "executing ?c" if "executing s"
    using that by (cases "tq_phase s") (simp_all add: executing_def drain_def continue_drain_def Let_def)
  have "executing ?c \<or> remaining_units ?c < remaining_units s" if "0 < remaining_units s"
    using started_or_less [OF ok that] held by blast
  then show "remaining_units (round_of now outcome s) \<le> remaining_units s - 1"
    using le run unfolding round_of_def by (cases "executing ?c"; cases "remaining_units s = 0") auto
qed

lemma rounds_progress:
  assumes "queue_ok s"
  shows "queue_ok (fold (round_of now) outcomes s) \<and>
    remaining_units (fold (round_of now) outcomes s) \<le> remaining_units s - length outcomes"
  using assms
proof (induction outcomes arbitrary: s)
  case (Cons a xs)
  let ?t = "round_of now a s"
  have ok: "queue_ok ?t" by (rule round_progress(1) [OF Cons.prems])
  have "remaining_units (fold (round_of now) xs ?t) \<le> remaining_units ?t - length xs" using Cons.IH [OF ok] by blast
  also have "\<dots> \<le> remaining_units s - length (a # xs)" using round_progress(2) [OF Cons.prems, of now a] by simp
  finally show ?case using Cons.IH [OF ok] by simp
qed simp

lemma nothing_left:
  assumes ok: "queue_ok s" and zero: "remaining_units s = 0"
  shows "unfinished_jobs s = []"
proof -
  have idle: "\<not> executing s" and w: "weight w_units s = 0"
    using zero by (auto simp: remaining_units_def executing_def split: drain_phase.splits)
  have core: "queue_core None s" using ok idle by (auto simp: queue_ok_def executing_def split: drain_phase.splits)
  have "finished (snd p)" if p: "p \<in> set (tq_jobs s)" for p
  proof (rule ccontr)
    assume open_job: "\<not> finished (snd p)"
    have "map_get (tq_jobs s) (fst p) = Some (snd p)" using core p by (simp add: queue_core_def wf_map_def)
    then have "job_ok False (snd p)" using core by (auto simp: queue_core_def)
    then have "0 < w_units (snd p)" using open_job by (simp add: job_ok_def w_units_def)
    then show False using w p by (auto simp: weight_def)
  qed
  then show ?thesis by (auto simp: unfinished_jobs_def filter_empty_conv)
qed

section \<open>The queue\<close>

text \<open>What a snapshot of a job shows: units began once each in their order, items have results in their order, once each, and the counts count them.\<close>

definition job_consistent :: "job \<Rightarrow> bool" where
  "job_consistent j \<longleftrightarrow>
     jb_started j = [0..<jb_cursor j] \<and> jb_cursor j \<le> length (jb_sizes j) \<and>
     map fst (jb_results j) = [0..<jb_completed j] \<and>
     jb_succeeded j = tally Succeeded j \<and> jb_failed j = tally Failed j \<and> jb_skipped j = tally Skipped j \<and>
     jb_cancelled j = tally Cancelled j \<and> jb_unknown j = tally Unknown j \<and>
     jb_completed j = jb_succeeded j + jb_failed j + jb_skipped j + jb_cancelled j + jb_unknown j \<and>
     (if finished j then jb_completed j = jb_total j else jb_completed j < jb_total j)"

lemma tallied_sum:
  assumes "tallied j"
  shows "jb_completed j = jb_succeeded j + jb_failed j + jb_skipped j + jb_cancelled j + jb_unknown j"
proof -
  have "length rs = length (filter (\<lambda>r. snd r = Succeeded) rs) + length (filter (\<lambda>r. snd r = Failed) rs) +
      length (filter (\<lambda>r. snd r = Skipped) rs) + length (filter (\<lambda>r. snd r = Cancelled) rs) +
      length (filter (\<lambda>r. snd r = Unknown) rs)" for rs :: "(nat \<times> item_status) list"
  proof (induction rs)
    case (Cons r rs)
    then show ?case by (cases "snd r") simp_all
  qed simp
  moreover have "jb_completed j = length (jb_results j)"
    using assms unfolding tallied_def by (metis length_map length_upt diff_zero)
  ultimately show ?thesis using assms unfolding tallied_def tally_def by metis
qed

lemma consistent_job:
  assumes "job_ok x j"
  shows "job_consistent j"
proof -
  have base: "job_base j" using assms by (simp add: job_ok_def)
  then have t: "tallied j" and pos: "list_all (\<lambda>n. 0 < n) (jb_sizes j)" and sum: "jb_total j = sum_list (jb_sizes j)"
    by (simp_all add: job_base_def)
  have "jb_cursor j \<le> length (jb_sizes j) \<and> (if finished j then jb_completed j = jb_total j else jb_completed j < jb_total j)"
  proof (cases "finished j")
    case True
    then show ?thesis using assms by (simp add: job_ok_def)
  next
    case False
    have "\<exists>u. u < length (jb_sizes j) \<and> jb_completed j = sum_list (take u (jb_sizes j))" "jb_cursor j \<le> length (jb_sizes j)"
      using assms False by (auto simp: job_ok_def job_at_def split: if_splits intro: exI [of _ "jb_cursor j - 1"])
    then show ?thesis using False partial_sum_less [OF pos] sum by auto
  qed
  moreover have "jb_started j = [0..<jb_cursor j]" using base by (simp add: job_base_def)
  ultimately show ?thesis using t tallied_sum [OF t] unfolding job_consistent_def tallied_def by blast
qed

text \<open>The jobs in the line.\<close>

definition waiting_keys :: "task_queue \<Rightarrow> nat set" where
  "waiting_keys s = {i. (case map_get (tq_jobs s) i of None \<Rightarrow> False | Some j \<Rightarrow> \<not> finished j)} -
     (case tq_phase s of Executing i _ \<Rightarrow> {i} | _ \<Rightarrow> {})"

lemma queue_ok_summary:
  assumes ok: "queue_ok s"
  shows "fst ` set (tq_jobs s) \<union> fst ` set (tq_evicted s) = {..<tq_nextId s}"
    and "list_all (\<lambda>p. finished (snd p)) (tq_evicted s)"
    and "list_all (\<lambda>p. job_consistent (snd p)) (tq_jobs s @ tq_evicted s)"
    and "distinct (tq_ready s)" "set (tq_ready s) = waiting_keys s"
proof -
  define x where "x = (case tq_phase s of Executing i _ \<Rightarrow> Some i | _ \<Rightarrow> None)"
  have core: "queue_core x s" and here: "\<And>i. x = Some i \<Longrightarrow> \<exists>j. map_get (tq_jobs s) i = Some j \<and> job_ok True j"
    using ok by (auto simp: queue_ok_def x_def split: drain_phase.splits)
  show "fst ` set (tq_jobs s) \<union> fst ` set (tq_evicted s) = {..<tq_nextId s}" "distinct (tq_ready s)"
    using core by (simp_all add: queue_core_def)
  show "list_all (\<lambda>p. finished (snd p)) (tq_evicted s)" using core by (auto simp: queue_core_def list_all_iff)
  have "job_consistent (snd p)" if "p \<in> set (tq_jobs s)" for p
  proof -
    have "map_get (tq_jobs s) (fst p) = Some (snd p)" using core that by (simp add: queue_core_def wf_map_def)
    then have "job_ok (x = Some (fst p)) (snd p)" using core here [of "fst p"] by (cases "x = Some (fst p)") (auto simp: queue_core_def)
    then show ?thesis by (rule consistent_job)
  qed
  moreover have "list_all (\<lambda>p. job_consistent (snd p)) (tq_evicted s)"
    using core by (auto simp: queue_core_def list_all_iff intro: consistent_job)
  ultimately show "list_all (\<lambda>p. job_consistent (snd p)) (tq_jobs s @ tq_evicted s)"
    unfolding list_all_iff set_append by blast
  show "set (tq_ready s) = waiting_keys s"
    using core unfolding waiting_keys_def queue_core_def x_def by (auto split: drain_phase.splits option.splits)
qed

text \<open>
  C4: Whatever is submitted, asked for, cancelled and carried out in any order, no job that was
  accepted is lost: every one is held or was evicted after it had finished. In every job the units
  began at most once each, in their order; every item has at most one result, in order, and one of
  five statuses, the counts of the snapshot count them, and a job finishes exactly when all its items
  have one. The line holds the unfinished jobs that are not being carried out, once each, and the
  limits on items, bytes, jobs of a user and jobs hold.
\<close>

theorem rule_task_queue_sound:
  "let s = fold task_step ops (new_queue options) in
     fst ` set (tq_jobs s) \<union> fst ` set (tq_evicted s) = {..<tq_nextId s} \<and>
     list_all (\<lambda>p. finished (snd p)) (tq_evicted s) \<and>
     list_all (\<lambda>p. job_consistent (snd p)) (tq_jobs s @ tq_evicted s) \<and>
     distinct (tq_ready s) \<and> set (tq_ready s) = waiting_keys s \<and>
     pending_items s \<le> to_maxPendingItems (tq_options s) \<and> pending_bytes s \<le> 8 * 1024 * 1024 \<and>
     (\<forall>u. own_jobs u s \<le> to_maxUserJobs (tq_options s)) \<and> retained_items s \<le> 20000 \<and>
     length (tq_jobs s) \<le> to_maxJobs (tq_options s)"
  using queue_ok_summary [OF ok_task_run [of ops options]] task_bounded_run [of ops options]
  by (simp only: Let_def bounded_def) simp

text \<open>
  C15: Whatever has happened, the queue does not get stuck: when the callbacks that were scheduled run
  and the units that are carried out settle, with whatever outcome, as often as there are units left,
  every job is finished, without further submissions and however the jobs take turns.
\<close>

theorem rule_task_queue_drains:
  "let s = fold task_step ops (new_queue options)
   in unfinished_jobs (fold (round_of now) (map outcomes [0..<remaining_units s]) s) = []"
proof -
  let ?s = "fold task_step ops (new_queue options)"
  have "queue_ok (fold (round_of now) (map outcomes [0..<remaining_units ?s]) ?s) \<and>
      remaining_units (fold (round_of now) (map outcomes [0..<remaining_units ?s]) ?s) \<le> 0"
    using rounds_progress [OF ok_task_run [of ops options], of now "map outcomes [0..<remaining_units ?s]"] by simp
  then show ?thesis using nothing_left unfolding Let_def by blast
qed

end
