(* ===== verification/China_Health.thy ===== *)
theory China_Health
  imports Prelude
begin

text \<open>
  Health of a host as seen from a probe (\<open>shared/hostChinaHealth.ts\<close>) and the change of its address
  when it is unhealthy (\<open>server/hostProbeHealth.ts\<close>), which a provider charges for. Times are whole
  seconds. The tables \<open>host_probe_health\<close> and \<open>host_ip_switch_attempts\<close> are a map and a list, a row
  of the latter has its index as id; what other tables hold is an argument of the operation that reads
  it. A report and a decision to switch are steps of their own, as the lock of the service makes them;
  the request to the provider lies between \<open>perform_switch\<close> and \<open>settle_switch\<close>. The texts of states and
  hooks, notifications and the cleaning of old history are not modelled.
\<close>

section \<open>Health\<close>

datatype health_phase = UnknownPhase | Healthy | Suspect | Unhealthy | Recovering

datatype health_event = BecameUnhealthy | BecameRecovered

record china_config =
  cc_enabled :: bool
  cc_notifyUserId :: "int option"
  cc_autoSwitch :: bool
  cc_failureThreshold :: int
  cc_failureSeconds :: int
  cc_recoveryThreshold :: int
  cc_cooldownSeconds :: int
  cc_maxSwitchesPerDay :: int

definition defaultHostChinaHealth :: china_config where
  "defaultHostChinaHealth =
     \<lparr>cc_enabled = False, cc_notifyUserId = None, cc_autoSwitch = False, cc_failureThreshold = 3, cc_failureSeconds = 120,
      cc_recoveryThreshold = 2, cc_cooldownSeconds = 3600, cc_maxSwitchesPerDay = 3\<rparr>"

text \<open>An incident is the number of the identifier that was drawn for it; none is the empty text.\<close>

record china_state =
  ch_phase :: health_phase
  ch_failures :: nat
  ch_successes :: nat
  ch_failureSince :: int
  ch_lastSeen :: int
  ch_incidentId :: "nat option"
  ch_actionAttempted :: bool

definition fresh_health :: china_state where
  "fresh_health =
     \<lparr>ch_phase = UnknownPhase, ch_failures = 0, ch_successes = 0, ch_failureSince = 0, ch_lastSeen = 0, ch_incidentId = None,
      ch_actionAttempted = False\<rparr>"

definition too_soon :: "china_state \<Rightarrow> int \<Rightarrow> int \<Rightarrow> bool" where
  "too_soon st now interval \<longleftrightarrow>
     ch_lastSeen st \<noteq> 0 \<and> of_int (now - ch_lastSeen st) < max 3 (of_int interval * (8 / 10 :: rat))"

definition gap_limit :: "int \<Rightarrow> int" where
  "gap_limit interval = max 120 (interval * 3)"

definition forget_streaks :: "int \<Rightarrow> int \<Rightarrow> china_state \<Rightarrow> china_state" where
  "forget_streaks now interval st =
     (if ch_lastSeen st \<noteq> 0 \<and> now - ch_lastSeen st > gap_limit interval
      then st \<lparr>ch_failures := 0, ch_successes := 0, ch_failureSince := 0\<rparr> else st)"

definition note_success :: "china_config \<Rightarrow> china_state \<Rightarrow> china_state \<times> health_event option" where
  "note_success config st0 =
     (let st = st0 \<lparr>ch_failures := 0, ch_failureSince := 0, ch_successes := Suc (ch_successes st0)\<rparr> in
      if ch_phase st = Unhealthy \<or> ch_phase st = Recovering then
        (if int (ch_successes st) \<ge> cc_recoveryThreshold config
         then (st \<lparr>ch_phase := Healthy, ch_incidentId := None, ch_actionAttempted := False\<rparr>, Some BecameRecovered)
         else (st \<lparr>ch_phase := Recovering\<rparr>, None))
      else (st \<lparr>ch_phase := Healthy\<rparr>, None))"

definition note_failure :: "china_config \<Rightarrow> int \<Rightarrow> china_state \<Rightarrow> china_state \<times> health_event option" where
  "note_failure config now st0 =
     (let st = st0 \<lparr>ch_successes := 0, ch_failures := Suc (ch_failures st0),
                 ch_failureSince := (if ch_failureSince st0 = 0 then now else ch_failureSince st0)\<rparr> in
      if ch_phase st = Recovering \<or> ch_phase st = Unhealthy then (st \<lparr>ch_phase := Unhealthy\<rparr>, None)
      else if int (ch_failures st) \<ge> cc_failureThreshold config \<and> now - ch_failureSince st \<ge> cc_failureSeconds config
        then (st \<lparr>ch_phase := Unhealthy\<rparr>, Some BecameUnhealthy)
      else (st \<lparr>ch_phase := Suspect\<rparr>, None))"

definition advanceChinaHealth ::
    "china_state option \<Rightarrow> bool \<Rightarrow> int \<Rightarrow> int \<Rightarrow> china_config \<Rightarrow> china_state \<times> health_event option" where
  "advanceChinaHealth previous success now interval config =
     (let st = (case previous of None \<Rightarrow> fresh_health | Some p \<Rightarrow> p) in
      if too_soon st now interval then (st, None)
      else
        let st1 = (forget_streaks now interval st) \<lparr>ch_lastSeen := now\<rparr>
        in if success then note_success config st1 else note_failure config now st1)"

section \<open>Streaks\<close>

text \<open>The reports that counted, newest first: time, success, and the interval of the service.\<close>

type_synonym health_log = "(int \<times> bool \<times> int) list"

definition unbroken :: "int \<Rightarrow> int \<Rightarrow> health_log \<Rightarrow> bool" where
  "unbroken now interval hist = (case hist of [] \<Rightarrow> False | r # rs \<Rightarrow> now - fst r \<le> gap_limit interval)"

text \<open>The times of the newest reports that are alike and follow each other without a gap.\<close>

fun streak :: "bool \<Rightarrow> health_log \<Rightarrow> int list" where
  "streak b [] = []"
| "streak b ((now, success, interval) # rs) =
     (if success \<noteq> b then [] else now # (if unbroken now interval rs then streak b rs else []))"

text \<open>The state says what the log says.\<close>

definition state_of_log :: "health_log \<Rightarrow> china_state \<Rightarrow> bool" where
  "state_of_log hist st \<longleftrightarrow>
     list_all (\<lambda>r. 0 < fst r) hist \<and> ch_lastSeen st = (case hist of [] \<Rightarrow> 0 | r # rs \<Rightarrow> fst r) \<and>
     ch_failures st = length (streak False hist) \<and> ch_successes st = length (streak True hist) \<and>
     ch_failureSince st = (if streak False hist = [] then 0 else last (streak False hist)) \<and>
     (ch_phase st = UnknownPhase \<longleftrightarrow> hist = []) \<and>
     (ch_phase st \<in> {Healthy, Recovering} \<longleftrightarrow> streak True hist \<noteq> []) \<and>
     (ch_phase st \<in> {Suspect, Unhealthy} \<longleftrightarrow> streak False hist \<noteq> [])"

definition ill :: "china_state \<Rightarrow> bool" where
  "ill st \<longleftrightarrow> ch_phase st = Unhealthy \<or> ch_phase st = Recovering"

text \<open>What an event says of the streak that ends with it.\<close>

definition justified :: "china_config \<Rightarrow> int \<Rightarrow> health_log \<Rightarrow> health_event \<Rightarrow> bool" where
  "justified config now hist ev =
     (case ev of
        BecameUnhealthy \<Rightarrow> int (length (streak False hist)) \<ge> cc_failureThreshold config \<and> streak False hist \<noteq> [] \<and>
          now - last (streak False hist) \<ge> cc_failureSeconds config
      | BecameRecovered \<Rightarrow> int (length (streak True hist)) \<ge> cc_recoveryThreshold config \<and> streak True hist \<noteq> [])"

lemma streak_positive: "list_all (\<lambda>r. 0 < fst r) hist \<Longrightarrow> t \<in> set (streak b hist) \<Longrightarrow> 0 < t"
  by (induction b hist rule: streak.induct) (auto split: if_splits)

lemma streak_other: "streak b hist \<noteq> [] \<Longrightarrow> streak (\<not> b) hist = []"
  by (cases hist) (auto split: if_splits)

lemma streak_cases: "hist \<noteq> [] \<Longrightarrow> streak True hist \<noteq> [] \<longleftrightarrow> streak False hist = []"
  by (cases hist) (auto split: if_splits)

lemma fresh_of_log: "state_of_log [] fresh_health"
  by (simp add: state_of_log_def fresh_health_def)

text \<open>A report that counts extends the log, and the event is the one that the log calls for.\<close>

lemma forget_of_log:
  assumes ok: "state_of_log hist st"
  shows "ch_failures (forget_streaks now interval st) = (if unbroken now interval hist then length (streak False hist) else 0)"
    and "ch_successes (forget_streaks now interval st) = (if unbroken now interval hist then length (streak True hist) else 0)"
    and "ch_failureSince (forget_streaks now interval st) =
      (if unbroken now interval hist \<and> streak False hist \<noteq> [] then last (streak False hist) else 0)"
    and "ch_phase (forget_streaks now interval st) = ch_phase st"
    and "ch_incidentId (forget_streaks now interval st) = ch_incidentId st"
    and "ch_actionAttempted (forget_streaks now interval st) = ch_actionAttempted st"
  using ok by (cases hist; auto simp: state_of_log_def forget_streaks_def unbroken_def)+

lemma advance_of_log:
  assumes ok: "state_of_log hist st" and st: "st = (case previous of None \<Rightarrow> fresh_health | Some p \<Rightarrow> p)"
    and time: "0 < now" and counts: "\<not> too_soon st now interval"
    and step: "advanceChinaHealth previous success now interval config = (st', ev)"
  shows "state_of_log ((now, success, interval) # hist) st'"
    and "ev = None \<or> (\<exists>e. ev = Some e \<and> justified config now ((now, success, interval) # hist) e)"
    and "(ev = Some BecameUnhealthy) = (\<not> ill st \<and> ill st')" and "(ev = Some BecameRecovered) = (ill st \<and> \<not> ill st')"
    and "justified config now ((now, success, interval) # hist) BecameUnhealthy \<Longrightarrow> ch_phase st' = Unhealthy"
    and "justified config now ((now, success, interval) # hist) BecameRecovered \<Longrightarrow> ch_phase st' = Healthy"
    and "ch_incidentId st' = (if ev = Some BecameRecovered then None else ch_incidentId st)"
    and "ch_actionAttempted st' = (if ev = Some BecameRecovered then False else ch_actionAttempted st)"
proof -
  let ?hist = "(now, success, interval) # hist" and ?st1 = "(forget_streaks now interval st) \<lparr>ch_lastSeen := now\<rparr>"
  note forget = forget_of_log [OF ok, of now interval]
  have pos: "list_all (\<lambda>r. 0 < fst r) ?hist" using ok time by (simp add: state_of_log_def)
  have since: "last (streak False hist) \<noteq> 0" if "streak False hist \<noteq> []"
    using streak_positive [of hist "last (streak False hist)" False] that ok unfolding state_of_log_def by (metis last_in_set less_irrefl)
  have step': "(if success then note_success config ?st1 else note_failure config now ?st1) = (st', ev)"
    using step counts by (simp add: advanceChinaHealth_def st [symmetric] Let_def)
  have all: "state_of_log ?hist st' \<and> (ev = None \<or> (\<exists>e. ev = Some e \<and> justified config now ?hist e)) \<and>
      (ev = Some BecameUnhealthy) = (\<not> ill st \<and> ill st') \<and> (ev = Some BecameRecovered) = (ill st \<and> \<not> ill st') \<and>
      (justified config now ?hist BecameUnhealthy \<longrightarrow> ch_phase st' = Unhealthy) \<and>
      (justified config now ?hist BecameRecovered \<longrightarrow> ch_phase st' = Healthy) \<and>
      ch_incidentId st' = (if ev = Some BecameRecovered then None else ch_incidentId st) \<and>
      ch_actionAttempted st' = (if ev = Some BecameRecovered then False else ch_actionAttempted st)"
  proof (cases success)
    case True
    then have "(st', ev) = note_success config ?st1" using step' by simp
    then show ?thesis using forget pos True
      by (simp add: note_success_def Let_def state_of_log_def justified_def ill_def del: ex_simps split: if_split_asm)
  next
    case False
    then have "(st', ev) = note_failure config now ?st1" using step' by simp
    then show ?thesis using forget pos since time False
      by (cases "ch_phase st")
         (simp_all add: note_failure_def Let_def state_of_log_def justified_def ill_def split: if_split_asm)
  qed
  then show "state_of_log ?hist st'" "ev = None \<or> (\<exists>e. ev = Some e \<and> justified config now ?hist e)"
    "(ev = Some BecameUnhealthy) = (\<not> ill st \<and> ill st')" "(ev = Some BecameRecovered) = (ill st \<and> \<not> ill st')"
    "justified config now ?hist BecameUnhealthy \<Longrightarrow> ch_phase st' = Unhealthy"
    "justified config now ?hist BecameRecovered \<Longrightarrow> ch_phase st' = Healthy"
    "ch_incidentId st' = (if ev = Some BecameRecovered then None else ch_incidentId st)"
    "ch_actionAttempted st' = (if ev = Some BecameRecovered then False else ch_actionAttempted st)" by blast+
qed

section \<open>A service that is observed\<close>

text \<open>Reports with the configuration in force at their time; the events that were told, newest first.\<close>

record health_trace =
  ht_state :: "china_state option"
  ht_log :: health_log
  ht_events :: "health_event list"
  ht_sound :: bool

definition observe :: "int \<times> bool \<times> int \<times> china_config \<Rightarrow> health_trace \<Rightarrow> health_trace" where
  "observe r h =
     (case r of (now, success, interval, config) \<Rightarrow>
        let (st, ev) = advanceChinaHealth (ht_state h) success now interval config;
            counts = \<not> too_soon (case ht_state h of None \<Rightarrow> fresh_health | Some p \<Rightarrow> p) now interval;
            lg = (if counts then (now, success, interval) # ht_log h else ht_log h)
        in \<lparr>ht_state = Some st, ht_log = lg,
            ht_events = (case ev of None \<Rightarrow> ht_events h | Some e \<Rightarrow> e # ht_events h),
            ht_sound = (ht_sound h \<and> (case ev of None \<Rightarrow> True | Some e \<Rightarrow> justified config now lg e) \<and>
              (if counts \<and> justified config now lg BecameUnhealthy then ch_phase st = Unhealthy else True) \<and>
              (if counts \<and> justified config now lg BecameRecovered then ch_phase st = Healthy else True))\<rparr>)"

definition unobserved :: health_trace where
  "unobserved = \<lparr>ht_state = None, ht_log = [], ht_events = [], ht_sound = True\<rparr>"

text \<open>Events alternate, the oldest being that the host became unhealthy.\<close>

fun alternating :: "health_event list \<Rightarrow> bool" where
  "alternating [] = True"
| "alternating [e] = (e = BecameUnhealthy)"
| "alternating (e # f # es) = (e \<noteq> f \<and> alternating (f # es))"

definition trace_ok :: "health_trace \<Rightarrow> bool" where
  "trace_ok h \<longleftrightarrow> ht_sound h \<and> alternating (ht_events h) \<and>
     (case ht_state h of None \<Rightarrow> ht_log h = [] \<and> ht_events h = []
      | Some st \<Rightarrow> state_of_log (ht_log h) st \<and> ill st = (ht_events h \<noteq> [] \<and> hd (ht_events h) = BecameUnhealthy))"

lemma observe_ok:
  assumes ok: "trace_ok h" and time: "0 < now"
  shows "trace_ok (observe (now, success, interval, config) h)"
proof -
  define st0 where "st0 = (case ht_state h of None \<Rightarrow> fresh_health | Some p \<Rightarrow> p)"
  obtain st ev where step: "advanceChinaHealth (ht_state h) success now interval config = (st, ev)" by fastforce
  have log0: "state_of_log (ht_log h) st0" and ill0: "ill st0 = (ht_events h \<noteq> [] \<and> hd (ht_events h) = BecameUnhealthy)"
    using ok fresh_of_log by (auto simp: trace_ok_def st0_def ill_def fresh_health_def split: option.splits)
  show ?thesis
  proof (cases "too_soon st0 now interval")
    case True
    then have "st = st0" "ev = None" using step by (simp_all add: advanceChinaHealth_def Let_def st0_def)
    then show ?thesis using ok step True log0 ill0 by (simp add: observe_def trace_ok_def st0_def [symmetric])
  next
    case False
    note adv = advance_of_log [OF log0 st0_def time False step]
    have "alternating (case ev of None \<Rightarrow> ht_events h | Some e \<Rightarrow> e # ht_events h) \<and>
        ill st = (case ev of None \<Rightarrow> ht_events h \<noteq> [] \<and> hd (ht_events h) = BecameUnhealthy | Some e \<Rightarrow> e = BecameUnhealthy)"
      using ok adv(3,4) ill0 unfolding trace_ok_def
      by (cases "ht_events h"; cases ev; cases "the ev") auto
    then show ?thesis
      using ok step False adv(1,2,5,6)
      by (cases ev) (auto simp: observe_def trace_ok_def st0_def [symmetric] Let_def)
  qed
qed

text \<open>
  C29: Whatever a probe reports at whatever times, and however the configuration changes, the state
  of a host counts the unbroken streak of failures or successes of the reports that counted and
  remembers when the failures began; it becomes unhealthy exactly when a streak of failures is
  long enough in number and in time, recovers exactly when a streak of successes is, and the two
  events alternate, beginning with the former.
\<close>

theorem china_health_streaks:
  assumes "list_all (\<lambda>r. 0 < fst r) reports"
  shows "trace_ok (fold observe reports unobserved)"
proof -
  have "trace_ok h \<Longrightarrow> trace_ok (fold observe reports h)" for h
    using assms
  proof (induction reports arbitrary: h)
    case (Cons r rs)
    obtain now success interval config where r: "r = (now, success, interval, config)" by (cases r)
    show ?case using Cons.IH [of "observe r h"] Cons.prems observe_ok [of h now success interval config] r by simp
  qed simp
  then show ?thesis by (simp add: unobserved_def trace_ok_def)
qed

text \<open>The sequence of the repository's test, with its phases and events.\<close>

definition sample_config :: china_config where
  "sample_config = defaultHostChinaHealth \<lparr>cc_failureThreshold := 2, cc_failureSeconds := 30\<rparr>"

definition sample_reports :: "(int \<times> bool \<times> int \<times> china_config) list" where
  "sample_reports = map (\<lambda>(t, b). (t, b, 15, sample_config))
     [(1000, False), (1001, False), (1015, False), (1030, False), (1045, False), (1060, True), (1075, False), (1090, True), (1105, True)]"

lemma sample_observed:
  "map (\<lambda>n. map_option ch_phase (ht_state (fold observe (take n sample_reports) unobserved))) [1..<10] =
     map Some [Suspect, Suspect, Suspect, Unhealthy, Unhealthy, Recovering, Unhealthy, Recovering, Healthy]"
  "ht_events (fold observe sample_reports unobserved) = [BecameRecovered, BecameUnhealthy]"
  by code_simp+

theorem china_health_streaks_witness:
  "trace_ok (fold observe sample_reports unobserved)"
  by (rule china_health_streaks) (simp add: sample_reports_def)

section \<open>Tables\<close>

datatype probe_method = Ping | Tcping | UrlProbe

text \<open>A service as it is read from its table.\<close>

record probe_service =
  ps_enabled :: bool
  ps_specific :: bool
  ps_hostIds :: "int list"
  ps_method :: probe_method
  ps_targetIp :: string
  ps_targetPort :: "int option"
  ps_interval :: int

text \<open>\<open>None\<close> is a number that is not whole.\<close>

record probe_report =
  pr_targetIp :: string
  pr_targetPort :: "int option"
  pr_method :: probe_method
  pr_successes :: "int option"
  pr_count :: "int option"

text \<open>The log of the reports that counted since the state was last reset is recorded for the statements.\<close>

record health_row =
  hr_hostId :: int
  hr_config :: china_config
  hr_hook :: "string option"
  hr_state :: "china_state option"
  hr_log :: health_log

datatype attempt_status = Pending | Uncertain | Accepted | SwitchSucceeded | NotExecuted | SyncFailed | SyncSkipped

text \<open>What is written down before a request; configuration and streak are recorded for the statements.\<close>

record switch_intent =
  si_hostId :: int
  si_serviceId :: int
  si_incidentId :: nat
  si_createdAt :: int
  si_config :: china_config
  si_streak :: "int list"

record switch_attempt =
  sa_intent :: switch_intent
  sa_status :: attempt_status
  sa_acknowledged :: bool

text \<open>A switch that was asked for, with the host's address and the time of the report.\<close>

record switch_request =
  sr_serviceId :: int
  sr_hostId :: int
  sr_incidentId :: nat
  sr_address :: string
  sr_now :: int

record china_store =
  cs_rows :: "(int, health_row) jsmap"
  cs_attempts :: "switch_attempt list"
  cs_requests :: "switch_request list"
  cs_inFlight :: "(int, nat) jsmap"
  cs_nextIncident :: nat

definition no_health :: china_store where
  "no_health = \<lparr>cs_rows = [], cs_attempts = [], cs_requests = [], cs_inFlight = [], cs_nextIncident = 0\<rparr>"

definition put_row :: "int \<Rightarrow> health_row \<Rightarrow> china_store \<Rightarrow> china_store" where
  "put_row i row s = s \<lparr>cs_rows := map_set i row (cs_rows s)\<rparr>"

section \<open>Configuration\<close>

datatype save_error = NotifyUserMissing | UrlNotSupported | HostNotSpecific | HostMissing | TargetNotIp | TargetUnsafe | IntervalTooLong | HookMissing

datatype save_input = Remove | Keep | Replace china_config "string option"

text \<open>What the checks of a configuration find elsewhere.\<close>

record save_checks =
  sv_userExists :: bool
  sv_hostExists :: bool
  sv_targetIsIp :: bool
  sv_targetSafe :: bool

definition save_error_of :: "china_config \<Rightarrow> string option \<Rightarrow> health_row option \<Rightarrow> probe_service \<Rightarrow> save_checks \<Rightarrow> save_error option" where
  "save_error_of config hook existing service checks =
     (if (case cc_notifyUserId config of None \<Rightarrow> False | Some u \<Rightarrow> u \<noteq> 0) \<and> \<not> sv_userExists checks then Some NotifyUserMissing
      else if \<not> cc_enabled config then None
      else if ps_method service = UrlProbe then Some UrlNotSupported
      else if \<not> ps_specific service \<or> length (ps_hostIds service) \<noteq> 1 then Some HostNotSpecific
      else if \<not> sv_hostExists checks then Some HostMissing
      else if \<not> sv_targetIsIp checks then Some TargetNotIp
      else if \<not> sv_targetSafe checks then Some TargetUnsafe
      else if ps_interval service > 300 then Some IntervalTooLong
      else if cc_autoSwitch config \<and> hook = None \<and> (case existing of None \<Rightarrow> True | Some row \<Rightarrow> hr_hook row = None) then Some HookMissing
      else None)"

definition first_host :: "probe_service \<Rightarrow> int option" where
  "first_host service = (case ps_hostIds service of [] \<Rightarrow> None | h # hs \<Rightarrow> Some h)"

definition same_target :: "probe_service \<Rightarrow> probe_service \<Rightarrow> bool" where
  "same_target service previous \<longleftrightarrow> ps_targetIp service = ps_targetIp previous \<and> ps_targetPort service = ps_targetPort previous \<and>
     ps_method service = ps_method previous \<and> ps_enabled service = ps_enabled previous"

definition saveProbeHealth ::
    "int \<Rightarrow> probe_service \<Rightarrow> save_input \<Rightarrow> probe_service option \<Rightarrow> save_checks \<Rightarrow> china_store \<Rightarrow> (save_error + unit) \<times> china_store" where
  "saveProbeHealth serviceId service input previous checks s =
     (let existing = map_get (cs_rows s) serviceId;
          store = (\<lambda>config hook.
            if existing = None \<and> \<not> cc_enabled config then (Inr (), s)
            else case save_error_of config hook existing service checks of
              Some e \<Rightarrow> (Inl e, s)
            | None \<Rightarrow>
                (case existing of
                   None \<Rightarrow>
                     (Inr (), put_row serviceId
                        \<lparr>hr_hostId = (case first_host service of None \<Rightarrow> 0 | Some h \<Rightarrow> h), hr_config = config, hr_hook = hook, hr_state = None, hr_log = []\<rparr> s)
                 | Some row \<Rightarrow>
                     let reset = input \<noteq> Keep \<or> (case previous of None \<Rightarrow> True | Some p \<Rightarrow> \<not> same_target service p) \<or>
                                 first_host service \<noteq> Some (hr_hostId row)
                     in (Inr (), put_row serviceId
                          \<lparr>hr_hostId = (case first_host service of None \<Rightarrow> hr_hostId row | Some h \<Rightarrow> h), hr_config = config,
                           hr_hook = (case hook of None \<Rightarrow> hr_hook row | Some c \<Rightarrow> Some c),
                           hr_state = (if reset then None else hr_state row), hr_log = (if reset then [] else hr_log row)\<rparr> s)))
      in case input of
           Remove \<Rightarrow> (Inr (), s \<lparr>cs_rows := map_delete serviceId (cs_rows s)\<rparr>)
         | Keep \<Rightarrow> (case existing of None \<Rightarrow> (Inr (), s) | Some row \<Rightarrow> store (hr_config row) None)
         | Replace config hook \<Rightarrow> store config hook)"

section \<open>Observation\<close>

text \<open>The service still watches this host alone.\<close>

definition watches :: "probe_service option \<Rightarrow> int \<Rightarrow> bool" where
  "watches service hostId =
     (case service of None \<Rightarrow> False | Some sv \<Rightarrow> ps_enabled sv \<and> ps_specific sv \<and> ps_hostIds sv = [hostId])"

definition port_number :: "int option \<Rightarrow> int" where
  "port_number p = (case p of None \<Rightarrow> 0 | Some n \<Rightarrow> n)"

definition report_fits :: "probe_report \<Rightarrow> probe_service \<Rightarrow> bool" where
  "report_fits r sv \<longleftrightarrow> pr_targetIp r = ps_targetIp sv \<and> pr_method r = ps_method sv \<and>
     port_number (pr_targetPort r) = port_number (ps_targetPort sv) \<and>
     (case (pr_count r, pr_successes r) of (Some n, Some k) \<Rightarrow> 0 < n \<and> 0 \<le> k \<and> k \<le> n | _ \<Rightarrow> False)"

definition report_success :: "probe_report \<Rightarrow> bool" where
  "report_success r = (case pr_successes r of None \<Rightarrow> False | Some k \<Rightarrow> 0 < k)"

definition observeProbeHealth ::
    "int \<Rightarrow> string \<Rightarrow> int \<Rightarrow> probe_report \<Rightarrow> probe_service option \<Rightarrow> int \<Rightarrow> china_store \<Rightarrow> china_store" where
  "observeProbeHealth hostId address serviceId report service now s =
     (case (map_get (cs_rows s) serviceId, service) of
        (Some row, Some sv) \<Rightarrow>
          if hr_hostId row \<noteq> hostId \<or> \<not> cc_enabled (hr_config row) \<or> \<not> watches service hostId \<or> \<not> report_fits report sv then s
          else
            let previous = hr_state row;
                (st, ev) = advanceChinaHealth previous (report_success report) now (ps_interval sv) (hr_config row)
            in if (case previous of None \<Rightarrow> False | Some p \<Rightarrow> ch_lastSeen p = ch_lastSeen st) then s
               else
                 let begins = (ev = Some BecameUnhealthy);
                     st1 = (if begins then st \<lparr>ch_incidentId := Some (cs_nextIncident s)\<rparr> else st);
                     asks = (case ch_incidentId st1 of
                        None \<Rightarrow> []
                      | Some i \<Rightarrow>
                          if ch_phase st1 = Unhealthy \<and> \<not> ch_actionAttempted st1 \<and> cc_autoSwitch (hr_config row) \<and> hr_hook row \<noteq> None
                          then [\<lparr>sr_serviceId = serviceId, sr_hostId = hostId, sr_incidentId = i, sr_address = address, sr_now = now\<rparr>]
                          else [])
                 in (put_row serviceId
                       (row \<lparr>hr_state := Some st1, hr_log := (now, report_success report, ps_interval sv) # hr_log row\<rparr>) s)
                      \<lparr>cs_requests := cs_requests s @ asks, cs_nextIncident := (if begins then Suc (cs_nextIncident s) else cs_nextIncident s)\<rparr>
      | _ \<Rightarrow> s)"

section \<open>Switching\<close>

definition unresolved :: "int \<Rightarrow> switch_attempt \<Rightarrow> bool" where
  "unresolved hostId a \<longleftrightarrow> si_hostId (sa_intent a) = hostId \<and> (sa_status a = Pending \<or> sa_status a = Uncertain) \<and> \<not> sa_acknowledged a"

text \<open>The times of the switches of the host on the day before.\<close>

definition recent_switches :: "int \<Rightarrow> int \<Rightarrow> switch_attempt list \<Rightarrow> int list" where
  "recent_switches hostId now attempts =
     filter (\<lambda>t. now - 86400 < t) (map (\<lambda>a. si_createdAt (sa_intent a)) (filter (\<lambda>a. si_hostId (sa_intent a) = hostId) attempts))"

definition within_limits :: "int \<Rightarrow> int \<Rightarrow> china_config \<Rightarrow> switch_attempt list \<Rightarrow> bool" where
  "within_limits hostId now config attempts =
     (let ts = recent_switches hostId now attempts in
      \<not> list_ex (unresolved hostId) attempts \<and> int (length ts) < cc_maxSwitchesPerDay config \<and>
      (if ts = [] then True else let lastAt = fold max ts (hd ts) in lastAt = 0 \<or> cc_cooldownSeconds config \<le> now - lastAt))"

text \<open>What is read when a request is at the head of the line of its host.\<close>

record switch_env =
  se_ready :: bool
  se_service :: "probe_service option"
  se_address :: "string option"

definition may_switch :: "switch_request \<Rightarrow> switch_env \<Rightarrow> health_row \<Rightarrow> china_state \<Rightarrow> switch_attempt list \<Rightarrow> bool" where
  "may_switch r e row st attempts \<longleftrightarrow>
     ch_phase st = Unhealthy \<and> \<not> ch_actionAttempted st \<and> ch_incidentId st = Some (sr_incidentId r) \<and>
     int (ch_failures st) \<ge> cc_failureThreshold (hr_config row) \<and> ch_failureSince st \<noteq> 0 \<and>
     sr_now r - ch_failureSince st \<ge> cc_failureSeconds (hr_config row) \<and>
     cc_enabled (hr_config row) \<and> cc_autoSwitch (hr_config row) \<and> hr_hook row \<noteq> None \<and> watches (se_service e) (sr_hostId r) \<and>
     within_limits (sr_hostId r) (sr_now r) (hr_config row) attempts \<and> se_address e = Some (sr_address r)"

definition current_row :: "switch_request \<Rightarrow> china_store \<Rightarrow> health_row option" where
  "current_row r s =
     (case map_get (cs_rows s) (sr_serviceId r) of
        None \<Rightarrow> None | Some row \<Rightarrow> if hr_hostId row = sr_hostId r then Some row else None)"

text \<open>The request with the number given is carried out if no other of its host is; what it is about to ask for is written down first.\<close>

definition performSwitch :: "nat \<Rightarrow> switch_env \<Rightarrow> china_store \<Rightarrow> china_store" where
  "performSwitch n e s =
     (if length (cs_requests s) \<le> n \<or> map_has (cs_inFlight s) (sr_hostId (cs_requests s ! n)) then s
      else
        let r = cs_requests s ! n;
            s1 = s \<lparr>cs_requests := take n (cs_requests s) @ drop (Suc n) (cs_requests s)\<rparr>
        in if \<not> se_ready e then s1
           else case current_row r s of
             None \<Rightarrow> s1
           | Some row \<Rightarrow>
               (case hr_state row of
                  None \<Rightarrow> s1
                | Some st \<Rightarrow>
                    if \<not> may_switch r e row st (cs_attempts s) then s1
                    else
                      let intent = \<lparr>si_hostId = sr_hostId r, si_serviceId = sr_serviceId r, si_incidentId = sr_incidentId r,
                                    si_createdAt = sr_now r, si_config = hr_config row, si_streak = streak False (hr_log row)\<rparr>
                      in (put_row (sr_serviceId r) (row \<lparr>hr_state := Some (st \<lparr>ch_actionAttempted := True\<rparr>)\<rparr>) s1)
                           \<lparr>cs_attempts := cs_attempts s @ [\<lparr>sa_intent = intent, sa_status = Pending, sa_acknowledged = False\<rparr>],
                            cs_inFlight := map_set (sr_hostId r) (length (cs_attempts s)) (cs_inFlight s)\<rparr>))"

text \<open>What became of the request, and of the address that the provider named.\<close>

datatype sync_outcome = SyncThrew | SyncRefused | SyncDone

datatype switch_reply = ReplyNotExecuted | ReplyThrew | Replied bool bool sync_outcome

definition switch_status :: "switch_reply \<Rightarrow> attempt_status" where
  "switch_status reply =
     (case reply of
        ReplyNotExecuted \<Rightarrow> NotExecuted
      | ReplyThrew \<Rightarrow> Uncertain
      | Replied accepted syncs sync \<Rightarrow>
          if syncs then (case sync of SyncThrew \<Rightarrow> SyncFailed | SyncRefused \<Rightarrow> SyncSkipped | SyncDone \<Rightarrow> SwitchSucceeded)
          else if accepted then Accepted else SwitchSucceeded)"

definition settle_switch :: "int \<Rightarrow> switch_reply \<Rightarrow> china_store \<Rightarrow> china_store" where
  "settle_switch hostId reply s =
     (case map_get (cs_inFlight s) hostId of
        None \<Rightarrow> s
      | Some n \<Rightarrow>
          s \<lparr>cs_attempts := (cs_attempts s)[n := (cs_attempts s ! n) \<lparr>sa_status := switch_status reply\<rparr>],
             cs_inFlight := map_delete hostId (cs_inFlight s)\<rparr>)"

datatype acknowledge_error = ServiceMissing | HealthMissing

definition acknowledgeIpSwitch :: "int \<Rightarrow> bool \<Rightarrow> int \<Rightarrow> china_store \<Rightarrow> (acknowledge_error + unit) \<times> china_store" where
  "acknowledgeIpSwitch serviceId serviceExists now s =
     (if \<not> serviceExists then (Inl ServiceMissing, s)
      else case map_get (cs_rows s) serviceId of
        None \<Rightarrow> (Inl HealthMissing, s)
      | Some row \<Rightarrow>
          (Inr (), s \<lparr>cs_attempts := map (\<lambda>a.
             if si_hostId (sa_intent a) = hr_hostId row \<and> (sa_status a = Pending \<or> sa_status a = Uncertain) \<and>
                si_createdAt (sa_intent a) < now - 150
             then a \<lparr>sa_acknowledged := True\<rparr> else a) (cs_attempts s)\<rparr>))"

text \<open>The check that the agent asks for right before the request.\<close>

definition validateIpSwitchClaim ::
    "bool \<Rightarrow> int \<Rightarrow> int \<Rightarrow> nat \<Rightarrow> string \<Rightarrow> probe_service option \<Rightarrow> string option \<Rightarrow> china_store \<Rightarrow> bool" where
  "validateIpSwitchClaim paused hostId serviceId incidentId expectedIp service address s =
     (if paused then False
      else case map_get (cs_rows s) serviceId of
        None \<Rightarrow> False
      | Some row \<Rightarrow>
          hr_hostId row = hostId \<and> address = Some expectedIp \<and> cc_enabled (hr_config row) \<and> cc_autoSwitch (hr_config row) \<and>
          watches service hostId \<and>
          (case hr_state row of None \<Rightarrow> False
           | Some st \<Rightarrow> ch_incidentId st = Some incidentId \<and> ch_phase st = Unhealthy \<and> ch_actionAttempted st) \<and>
          (case find (\<lambda>a. si_incidentId (sa_intent a) = incidentId \<and> si_hostId (sa_intent a) = hostId) (cs_attempts s) of
             None \<Rightarrow> False | Some a \<Rightarrow> sa_status a = Pending))"

text \<open>The panel starts anew: what was asked for or in flight is forgotten, the tables stay.\<close>

definition restart_panel :: "china_store \<Rightarrow> china_store" where
  "restart_panel s = s \<lparr>cs_requests := [], cs_inFlight := []\<rparr>"

datatype china_op =
  SaveHealth int probe_service save_input "probe_service option" save_checks
| ObserveHealth int string int probe_report "probe_service option" int
| PerformSwitch nat switch_env
| SettleSwitch int switch_reply
| Acknowledge int bool int
| RestartPanel

fun china_step :: "china_op \<Rightarrow> china_store \<Rightarrow> china_store" where
  "china_step (SaveHealth i sv input previous checks) s = snd (saveProbeHealth i sv input previous checks s)"
| "china_step (ObserveHealth h address i r sv now) s = observeProbeHealth h address i r sv now s"
| "china_step (PerformSwitch n e) s = performSwitch n e s"
| "china_step (SettleSwitch h reply) s = settle_switch h reply s"
| "china_step (Acknowledge i there now) s = snd (acknowledgeIpSwitch i there now s)"
| "china_step RestartPanel s = restart_panel s"

section \<open>Switches are limited\<close>

text \<open>What must hold of an intent to switch, given the earlier ones.\<close>

definition admissible :: "switch_intent list \<Rightarrow> switch_intent \<Rightarrow> bool" where
  "admissible earlier a \<longleftrightarrow>
     (let same = filter (\<lambda>b. si_hostId b = si_hostId a) earlier in
      si_incidentId a \<notin> si_incidentId ` set earlier \<and>
      list_all (\<lambda>b. if 0 < si_createdAt b then si_createdAt b + min 86400 (cc_cooldownSeconds (si_config a)) \<le> si_createdAt a else True) same \<and>
      int (length (filter (\<lambda>b. si_createdAt a - 86400 < si_createdAt b) same)) < cc_maxSwitchesPerDay (si_config a) \<and>
      cc_enabled (si_config a) \<and> cc_autoSwitch (si_config a) \<and>
      cc_failureThreshold (si_config a) \<le> int (length (si_streak a)) \<and> si_streak a \<noteq> [] \<and>
      cc_failureSeconds (si_config a) \<le> si_createdAt a - last (si_streak a))"

text \<open>The newest first.\<close>

fun admitted :: "switch_intent list \<Rightarrow> bool" where
  "admitted [] = True"
| "admitted (a # earlier) = (admissible earlier a \<and> admitted earlier)"

definition intents :: "china_store \<Rightarrow> switch_intent list" where
  "intents s = rev (map sa_intent (cs_attempts s))"

definition row_incident :: "health_row \<Rightarrow> nat option" where
  "row_incident row = (case hr_state row of None \<Rightarrow> None | Some st \<Rightarrow> ch_incidentId st)"

definition row_attempted :: "health_row \<Rightarrow> bool" where
  "row_attempted row = (case hr_state row of None \<Rightarrow> False | Some st \<Rightarrow> ch_actionAttempted st)"

definition row_ok :: "health_row \<Rightarrow> bool" where
  "row_ok row = (case hr_state row of None \<Rightarrow> hr_log row = [] | Some st \<Rightarrow> hr_log row \<noteq> [] \<and> state_of_log (hr_log row) st)"

definition rows_ok :: "(int \<Rightarrow> health_row option) \<Rightarrow> nat \<Rightarrow> nat set \<Rightarrow> bool" where
  "rows_ok rows next used \<longleftrightarrow>
     (\<forall>i row. rows i = Some row \<longrightarrow> row_ok row \<and>
        (\<forall>k. row_incident row = Some k \<longrightarrow> k < next \<and> (k \<in> used \<longrightarrow> row_attempted row))) \<and>
     (\<forall>i j row row' k. rows i = Some row \<longrightarrow> rows j = Some row' \<longrightarrow> row_incident row = Some k \<longrightarrow> row_incident row' = Some k \<longrightarrow> i = j)"

definition used_incidents :: "china_store \<Rightarrow> nat set" where
  "used_incidents s = si_incidentId ` set (intents s)"

definition attempts_ok :: "china_store \<Rightarrow> bool" where
  "attempts_ok s \<longleftrightarrow> admitted (intents s) \<and> (\<forall>k \<in> used_incidents s. k < cs_nextIncident s) \<and>
     (\<forall>h. length (filter (unresolved h) (cs_attempts s)) \<le> 1) \<and>
     (\<forall>h n. map_get (cs_inFlight s) h = Some n \<longrightarrow> n < length (cs_attempts s) \<and>
        si_hostId (sa_intent (cs_attempts s ! n)) = h \<and> sa_status (cs_attempts s ! n) = Pending)"

definition store_ok :: "china_store \<Rightarrow> bool" where
  "store_ok s \<longleftrightarrow> rows_ok (map_get (cs_rows s)) (cs_nextIncident s) (used_incidents s) \<and> attempts_ok s"

lemma rows_put:
  assumes ok: "rows_ok rows next used" and more: "next \<le> next'" and used: "used \<subseteq> used'" and row: "row_ok row"
    and new: "\<And>k. row_incident row = Some k \<Longrightarrow> k < next' \<and> (k \<in> used' \<longrightarrow> row_attempted row)"
    and origin: "\<And>k. row_incident row = Some k \<Longrightarrow> k \<ge> next \<or> (\<exists>old. rows i = Some old \<and> row_incident old = Some k)"
    and others: "\<And>j old k. rows j = Some old \<Longrightarrow> j \<noteq> i \<Longrightarrow> row_incident old = Some k \<Longrightarrow> k \<notin> used' - used"
  shows "rows_ok (rows(i := Some row)) next' used'"
proof -
  have one: "row_ok r" "\<And>k. row_incident r = Some k \<Longrightarrow> k < next \<and> (k \<in> used \<longrightarrow> row_attempted r)" if "rows j = Some r" for j r
    using ok that unfolding rows_ok_def by blast+
  have inj: "a = b" if "rows a = Some r" "rows b = Some r'" "row_incident r = Some k" "row_incident r' = Some k" for a b r r' k
    using ok that unfolding rows_ok_def by blast
  have fresh: "row_incident r \<noteq> Some k" if "rows j = Some r" "j \<noteq> i" "row_incident row = Some k" for j r k
    using origin [OF that(3)] one(2) [OF that(1)] inj [OF that(1)] that(2) by (metis not_less)
  show ?thesis
    unfolding rows_ok_def
  proof (intro conjI allI impI)
    fix j r
    assume j: "(rows(i := Some row)) j = Some r"
    show "row_ok r" using j row one(1) by (auto split: if_splits)
    fix k
    assume k: "row_incident r = Some k"
    show "k < next'" using j k new one(2) more by (fastforce split: if_splits)
    show "row_attempted r" if "k \<in> used'"
      using j k new one(2) others that by (fastforce split: if_splits)
  next
    fix a b r r' k
    assume "(rows(i := Some row)) a = Some r" "(rows(i := Some row)) b = Some r'" "row_incident r = Some k" "row_incident r' = Some k"
    then show "a = b" using fresh inj by (auto split: if_splits)
  qed
qed

lemma rows_drop: "rows_ok rows next used \<Longrightarrow> rows_ok (rows(i := None)) next used"
  unfolding rows_ok_def by (auto split: if_splits)

lemma ok_no_health: "store_ok no_health"
  by (simp add: store_ok_def no_health_def rows_ok_def attempts_ok_def intents_def used_incidents_def)

lemma attempts_other:
  "attempts_ok (s \<lparr>cs_rows := rows\<rparr>) = attempts_ok s" "attempts_ok (s \<lparr>cs_requests := rq\<rparr>) = attempts_ok s"
  by (simp_all add: attempts_ok_def intents_def used_incidents_def)

lemma used_other [simp]:
  "used_incidents (s \<lparr>cs_rows := rows\<rparr>) = used_incidents s" "used_incidents (s \<lparr>cs_requests := rq\<rparr>) = used_incidents s"
  "used_incidents (s \<lparr>cs_nextIncident := k\<rparr>) = used_incidents s" "used_incidents (s \<lparr>cs_inFlight := f\<rparr>) = used_incidents s"
  by (simp_all add: used_incidents_def intents_def)

lemma rows_of_put: "map_get (cs_rows (put_row i row s)) = (map_get (cs_rows s))(i := Some row)"
  by (simp add: put_row_def map_get_set_fun fun_eq_iff)

lemma ok_restart: "store_ok s \<Longrightarrow> store_ok (restart_panel s)"
  by (simp add: store_ok_def restart_panel_def attempts_ok_def intents_def used_incidents_def)

lemma ok_saved_row:
  assumes ok: "store_ok s" and row: "row_ok row" "\<And>k. row_incident row = Some k \<Longrightarrow>
      \<exists>old. map_get (cs_rows s) i = Some old \<and> row_incident old = Some k \<and> (row_attempted old \<longrightarrow> row_attempted row)"
  shows "store_ok (put_row i row s)"
proof -
  have "rows_ok ((map_get (cs_rows s))(i := Some row)) (cs_nextIncident s) (used_incidents s)"
  proof (rule rows_put [OF _ order_refl order_refl row(1)])
    show rows: "rows_ok (map_get (cs_rows s)) (cs_nextIncident s) (used_incidents s)" using ok by (simp add: store_ok_def)
    fix k
    assume k: "row_incident row = Some k"
    then obtain old where old: "map_get (cs_rows s) i = Some old" "row_incident old = Some k" "row_attempted old \<longrightarrow> row_attempted row"
      using row(2) by blast
    then have "k < cs_nextIncident s \<and> (k \<in> used_incidents s \<longrightarrow> row_attempted old)" using rows unfolding rows_ok_def by blast
    then show "k < cs_nextIncident s \<and> (k \<in> used_incidents s \<longrightarrow> row_attempted row)" using old(3) by blast
    show "cs_nextIncident s \<le> k \<or> (\<exists>old. map_get (cs_rows s) i = Some old \<and> row_incident old = Some k)" using old by blast
  qed simp
  then show ?thesis using ok unfolding store_ok_def rows_of_put by (simp add: put_row_def attempts_other)
qed

lemma ok_save:
  assumes ok: "store_ok s"
  shows "store_ok (snd (saveProbeHealth i sv input previous checks s))"
proof -
  have fresh: "store_ok (put_row i \<lparr>hr_hostId = h, hr_config = c, hr_hook = k, hr_state = None, hr_log = []\<rparr> s)" for h c k
    by (rule ok_saved_row [OF ok]) (simp_all add: row_ok_def row_incident_def)
  have kept: "store_ok (put_row i \<lparr>hr_hostId = h, hr_config = c, hr_hook = k, hr_state = hr_state row, hr_log = hr_log row\<rparr> s)"
    if "map_get (cs_rows s) i = Some row" for h c k row
  proof (rule ok_saved_row [OF ok])
    have "row_ok row" using ok that unfolding store_ok_def rows_ok_def by blast
    then show "row_ok \<lparr>hr_hostId = h, hr_config = c, hr_hook = k, hr_state = hr_state row, hr_log = hr_log row\<rparr>"
      by (cases "hr_state row") (simp_all add: row_ok_def)
  qed (use that in \<open>simp add: row_incident_def row_attempted_def\<close>)
  have gone: "store_ok (s \<lparr>cs_rows := map_delete i (cs_rows s)\<rparr>)"
  proof -
    have "map_get (cs_rows (s \<lparr>cs_rows := map_delete i (cs_rows s)\<rparr>)) = (map_get (cs_rows s))(i := None)"
      by (simp add: map_get_delete_fun fun_eq_iff)
    then show ?thesis using ok rows_drop [of "map_get (cs_rows s)" _ _ i] unfolding store_ok_def
      by (simp only:) (simp add: attempts_other)
  qed
  show ?thesis
    using ok fresh kept gone
    by (cases input; cases "map_get (cs_rows s) i")
       (auto simp: saveProbeHealth_def Let_def split: option.split)
qed

lemma ok_observe:
  assumes ok: "store_ok s" and time: "0 < now"
  shows "store_ok (observeProbeHealth h address i report service now s)"
proof (cases "map_get (cs_rows s) i = None \<or> service = None")
  case True
  then show ?thesis using ok by (auto simp: observeProbeHealth_def split: option.split)
next
  case False
  then obtain row sv where row: "map_get (cs_rows s) i = Some row" and sv: "service = Some sv" by auto
  let ?success = "report_success report" and ?interval = "ps_interval sv"
  define st0 where "st0 = (case hr_state row of None \<Rightarrow> fresh_health | Some p \<Rightarrow> p)"
  obtain st ev where step: "advanceChinaHealth (hr_state row) ?success now ?interval (hr_config row) = (st, ev)" by fastforce
  let ?st1 = "if ev = Some BecameUnhealthy then st \<lparr>ch_incidentId := Some (cs_nextIncident s)\<rparr> else st"
  let ?row = "row \<lparr>hr_state := Some ?st1, hr_log := (now, ?success, ?interval) # hr_log row\<rparr>"
  let ?next = "if ev = Some BecameUnhealthy then Suc (cs_nextIncident s) else cs_nextIncident s"
  have rows: "rows_ok (map_get (cs_rows s)) (cs_nextIncident s) (used_incidents s)" and att: "attempts_ok s"
    using ok by (simp_all add: store_ok_def)
  have row_ok: "row_ok row" and known: "\<And>k. row_incident row = Some k \<Longrightarrow> k < cs_nextIncident s \<and> (k \<in> used_incidents s \<longrightarrow> row_attempted row)"
    using rows row unfolding rows_ok_def by blast+
  have log0: "state_of_log (hr_log row) st0"
    using row_ok fresh_of_log by (auto simp: row_ok_def st0_def split: option.splits)
  have stored: "store_ok ((put_row i ?row s) \<lparr>cs_requests := rq, cs_nextIncident := ?next\<rparr>)"
    if counts: "\<not> too_soon st0 now ?interval" for rq
  proof -
    note adv = advance_of_log [OF log0 st0_def time counts step]
    have used_less: "k < cs_nextIncident s" if "k \<in> used_incidents s" for k using att that by (simp add: attempts_ok_def)
    have inc: "row_incident ?row = (if ev = Some BecameUnhealthy then Some (cs_nextIncident s)
        else if ev = Some BecameRecovered then None else row_incident row)"
      using adv(7) by (auto simp: row_incident_def st0_def fresh_health_def split: option.splits)
    have att1: "row_attempted ?row = (if ev = Some BecameRecovered then False else row_attempted row)"
      using adv(8) by (auto simp: row_attempted_def st0_def fresh_health_def split: option.splits)
    have "rows_ok ((map_get (cs_rows s))(i := Some ?row)) ?next (used_incidents s)"
    proof (rule rows_put [OF rows _ order_refl])
      have "state_of_log ((now, ?success, ?interval) # hr_log row) ?st1" using adv(1) by (simp add: state_of_log_def)
      then show "row_ok ?row" by (simp add: row_ok_def)
      fix k
      assume k: "row_incident ?row = Some k"
      show "k < ?next \<and> (k \<in> used_incidents s \<longrightarrow> row_attempted ?row)"
        using k known used_less unfolding inc att1 by (fastforce split: if_splits)
      show "cs_nextIncident s \<le> k \<or> (\<exists>old. map_get (cs_rows s) i = Some old \<and> row_incident old = Some k)"
        using k row unfolding inc by (auto split: if_splits)
    qed simp_all
    then show ?thesis using att unfolding store_ok_def
      by (simp add: rows_of_put attempts_ok_def put_row_def used_incidents_def intents_def map_get_set_fun less_SucI)
  qed
  show ?thesis
  proof (cases "too_soon st0 now ?interval")
    case True
    then have "st = st0" "hr_state row \<noteq> None"
      using step by (auto simp: advanceChinaHealth_def Let_def st0_def too_soon_def fresh_health_def split: option.splits)
    then show ?thesis using ok row sv step by (auto simp: observeProbeHealth_def Let_def st0_def)
  next
    case counts: False
    show ?thesis
      using ok row sv step stored [OF counts] by (simp add: observeProbeHealth_def Let_def del: fun_upd_apply)
  qed
qed

lemma fold_max_ge: "x \<le> fold max ts (x::int)" "t \<in> set ts \<Longrightarrow> t \<le> fold max ts x"
proof (induction ts arbitrary: x)
  case (Cons u us)
  { case 1 show ?case using Cons.IH(1) [of "max u x"] by simp }
  { case 2 then show ?case using Cons.IH(1) [of "max u x"] Cons.IH(2) [of "max u x"] by auto }
qed simp_all

lemma recent_length:
  "length (filter (\<lambda>b. now - 86400 < si_createdAt b) (filter (\<lambda>b. si_hostId b = h) (rev (map sa_intent attempts)))) =
     length (recent_switches h now attempts)"
  by (simp add: recent_switches_def rev_filter [symmetric] filter_map o_def conj_commute)

lemma limits_cooldown:
  assumes limits: "within_limits h now config attempts" and a: "a \<in> set attempts" "si_hostId (sa_intent a) = h"
    and pos: "0 < si_createdAt (sa_intent a)"
  shows "si_createdAt (sa_intent a) + min 86400 (cc_cooldownSeconds config) \<le> now"
proof (cases "now - 86400 < si_createdAt (sa_intent a)")
  case True
  let ?ts = "recent_switches h now attempts" and ?t = "si_createdAt (sa_intent a)"
  have t: "?t \<in> set ?ts" using a True by (auto simp: recent_switches_def)
  then have "?t \<le> fold max ?ts (hd ?ts)" "?ts \<noteq> []" by (auto intro: fold_max_ge(2))
  moreover have "fold max ?ts (hd ?ts) = 0 \<or> cc_cooldownSeconds config \<le> now - fold max ?ts (hd ?ts)"
    using limits \<open>?ts \<noteq> []\<close> by (simp add: within_limits_def Let_def)
  ultimately show ?thesis using pos by linarith
qed simp

lemma may_switch_admissible:
  assumes may: "may_switch r e row st attempts" and row: "hr_state row = Some st" "row_ok row"
    and fresh: "sr_incidentId r \<notin> si_incidentId ` set (map sa_intent attempts)"
  shows "admissible (rev (map sa_intent attempts))
    \<lparr>si_hostId = sr_hostId r, si_serviceId = sid, si_incidentId = sr_incidentId r, si_createdAt = sr_now r,
     si_config = hr_config row, si_streak = streak False (hr_log row)\<rparr>"
proof -
  have limits: "within_limits (sr_hostId r) (sr_now r) (hr_config row) attempts" using may by (simp add: may_switch_def)
  then have few: "int (length (filter (\<lambda>b. sr_now r - 86400 < si_createdAt b) (filter (\<lambda>b. si_hostId b = sr_hostId r)
      (rev (map sa_intent attempts))))) < cc_maxSwitchesPerDay (hr_config row)"
    unfolding recent_length by (simp add: within_limits_def Let_def)
  have "list_all (\<lambda>b. if 0 < si_createdAt b then si_createdAt b + min 86400 (cc_cooldownSeconds (hr_config row)) \<le> sr_now r else True)
      (filter (\<lambda>b. si_hostId b = sr_hostId r) (rev (map sa_intent attempts)))"
    using limits_cooldown [OF limits] by (auto simp: list_all_iff)
  moreover have "state_of_log (hr_log row) st" using row by (simp add: row_ok_def)
  then have "streak False (hr_log row) \<noteq> []" "ch_failures st = length (streak False (hr_log row))"
      "ch_failureSince st = last (streak False (hr_log row))"
    using may by (auto simp: state_of_log_def may_switch_def split: if_splits)
  ultimately show ?thesis
    using may few fresh unfolding admissible_def Let_def by (simp add: may_switch_def if_bool_eq_conj)
qed

lemma ok_perform:
  assumes ok: "store_ok s"
  shows "store_ok (performSwitch n e s)"
proof -
  let ?r = "cs_requests s ! n"
  let ?s1 = "s \<lparr>cs_requests := take n (cs_requests s) @ drop (Suc n) (cs_requests s)\<rparr>"
  have ok1: "store_ok ?s1" using ok by (simp add: store_ok_def attempts_other)
  show ?thesis
  proof (cases "\<exists>row st. current_row ?r s = Some row \<and> hr_state row = Some st \<and> may_switch ?r e row st (cs_attempts s)")
    case False
    then show ?thesis using ok ok1 unfolding performSwitch_def Let_def by (simp split: option.split)
  next
    case True
    then obtain row st where cur: "current_row ?r s = Some row" and st: "hr_state row = Some st"
      and may: "may_switch ?r e row st (cs_attempts s)" by blast
    then have row: "map_get (cs_rows s) (sr_serviceId ?r) = Some row"
      by (auto simp: current_row_def split: option.splits if_splits)
    let ?i = "sr_incidentId ?r" and ?row = "row \<lparr>hr_state := Some (st \<lparr>ch_actionAttempted := True\<rparr>)\<rparr>"
    let ?intent = "\<lparr>si_hostId = sr_hostId ?r, si_serviceId = sr_serviceId ?r, si_incidentId = ?i, si_createdAt = sr_now ?r,
       si_config = hr_config row, si_streak = streak False (hr_log row)\<rparr>"
    let ?t = "(put_row (sr_serviceId ?r) ?row ?s1)
       \<lparr>cs_attempts := cs_attempts s @ [\<lparr>sa_intent = ?intent, sa_status = Pending, sa_acknowledged = False\<rparr>],
        cs_inFlight := map_set (sr_hostId ?r) (length (cs_attempts s)) (cs_inFlight s)\<rparr>"
    have rows: "rows_ok (map_get (cs_rows s)) (cs_nextIncident s) (used_incidents s)" and att: "attempts_ok s"
      using ok by (simp_all add: store_ok_def)
    have row_ok: "row_ok row" and inc: "row_incident row = Some ?i" and untried: "\<not> row_attempted row"
      using rows row may st unfolding rows_ok_def by (auto simp: row_incident_def row_attempted_def may_switch_def)
    have fresh: "?i \<notin> used_incidents s" and less: "?i < cs_nextIncident s"
      using rows row inc untried unfolding rows_ok_def by blast+
    have used: "used_incidents ?t = insert ?i (used_incidents s)"
      by (simp add: used_incidents_def intents_def put_row_def)
    have "rows_ok ((map_get (cs_rows s))(sr_serviceId ?r := Some ?row)) (cs_nextIncident s) (insert ?i (used_incidents s))"
    proof (rule rows_put [OF rows order_refl])
      show "row_ok ?row" using row_ok st by (simp add: row_ok_def state_of_log_def)
      fix k
      assume k: "row_incident ?row = Some k"
      then have "k = ?i" using inc st by (simp add: row_incident_def)
      then show "k < cs_nextIncident s \<and> (k \<in> insert ?i (used_incidents s) \<longrightarrow> row_attempted ?row)"
        using less by (simp add: row_attempted_def)
      show "cs_nextIncident s \<le> k \<or> (\<exists>old. map_get (cs_rows s) (sr_serviceId ?r) = Some old \<and> row_incident old = Some k)"
        using row inc \<open>k = ?i\<close> by blast
    next
      fix j old k
      assume "map_get (cs_rows s) j = Some old" "j \<noteq> sr_serviceId ?r" "row_incident old = Some k"
      then have "k \<noteq> ?i" using rows row inc unfolding rows_ok_def by blast
      then show "k \<notin> insert ?i (used_incidents s) - used_incidents s" by blast
    qed blast
    moreover have "attempts_ok ?t"
    proof -
      have adm: "admissible (intents s) ?intent"
        using may_switch_admissible [OF may st row_ok] fresh by (simp add: intents_def used_incidents_def)
      have none: "filter (unresolved (sr_hostId ?r)) (cs_attempts s) = []"
        using may by (auto simp: may_switch_def within_limits_def Let_def list_ex_iff filter_empty_conv)
      show ?thesis
        using att adm none less unfolding attempts_ok_def used
        by (auto simp: intents_def put_row_def unresolved_def nth_append map_get_set intro: less_SucI split: if_splits)
    qed
    ultimately have "store_ok ?t"
      unfolding store_ok_def used by (simp add: rows_of_put put_row_def map_get_set_fun)
    then show ?thesis using ok ok1 cur st may unfolding performSwitch_def Let_def by simp
  qed
qed

lemma ok_attempts:
  assumes ok: "store_ok s" and same: "map sa_intent as = map sa_intent (cs_attempts s)"
    and fewer: "\<And>h. length (filter (unresolved h) as) \<le> length (filter (unresolved h) (cs_attempts s))"
    and flight: "\<And>h n. map_get f h = Some n \<Longrightarrow> map_get (cs_inFlight s) h = Some n \<and> sa_status (as ! n) = sa_status (cs_attempts s ! n)"
  shows "store_ok (s \<lparr>cs_attempts := as, cs_inFlight := f\<rparr>)"
proof -
  let ?t = "s \<lparr>cs_attempts := as, cs_inFlight := f\<rparr>"
  have att: "attempts_ok s" using ok by (simp add: store_ok_def)
  have i: "intents ?t = intents s" using same by (simp add: intents_def)
  have len: "length as = length (cs_attempts s)" using same by (metis length_map)
  have nth: "sa_intent (as ! n) = sa_intent (cs_attempts s ! n)" if "n < length (cs_attempts s)" for n
    using same that len by (metis nth_map)
  have "length (filter (unresolved h) as) \<le> 1" for h using fewer [of h] att unfolding attempts_ok_def by (meson order_trans)
  moreover have "n < length as \<and> si_hostId (sa_intent (as ! n)) = h \<and> sa_status (as ! n) = Pending" if "map_get f h = Some n" for h n
  proof -
    have "map_get (cs_inFlight s) h = Some n" and st: "sa_status (as ! n) = sa_status (cs_attempts s ! n)" using flight [OF that] by blast+
    then have "n < length (cs_attempts s) \<and> si_hostId (sa_intent (cs_attempts s ! n)) = h \<and> sa_status (cs_attempts s ! n) = Pending"
      using att unfolding attempts_ok_def by blast
    then show ?thesis using nth st len by simp
  qed
  ultimately have "attempts_ok ?t" using att unfolding attempts_ok_def used_incidents_def i by simp
  then show ?thesis using ok unfolding store_ok_def used_incidents_def i by simp
qed

lemma filter_update_le:
  "n < length xs \<Longrightarrow> (P x \<Longrightarrow> P (xs ! n)) \<Longrightarrow> length (filter P (xs[n := x])) \<le> length (filter P xs)"
proof (induction xs arbitrary: n)
  case (Cons y ys)
  then show ?case by (cases n) auto
qed simp

lemma filter_map_le: "(\<And>x. P (g x) \<Longrightarrow> P x) \<Longrightarrow> length (filter P (map g xs)) \<le> length (filter P xs)"
  by (induction xs) auto

lemma ok_settle_switch:
  assumes ok: "store_ok s"
  shows "store_ok (settle_switch h reply s)"
proof (cases "map_get (cs_inFlight s) h")
  case None
  then show ?thesis using ok by (simp add: settle_switch_def)
next
  case (Some n)
  have flight: "m < length (cs_attempts s) \<and> si_hostId (sa_intent (cs_attempts s ! m)) = k \<and> sa_status (cs_attempts s ! m) = Pending"
    if "map_get (cs_inFlight s) k = Some m" for k m
    using ok that unfolding store_ok_def attempts_ok_def by blast
  let ?a = "(cs_attempts s ! n) \<lparr>sa_status := switch_status reply\<rparr>"
  have "store_ok (s \<lparr>cs_attempts := (cs_attempts s)[n := ?a], cs_inFlight := map_delete h (cs_inFlight s)\<rparr>)"
  proof (rule ok_attempts [OF ok])
    show "map sa_intent ((cs_attempts s)[n := ?a]) = map sa_intent (cs_attempts s)"
      using flight [OF Some] by (simp add: map_update list_update_same_conv)
    show "length (filter (unresolved k) ((cs_attempts s)[n := ?a])) \<le> length (filter (unresolved k) (cs_attempts s))" for k
      using flight [OF Some] by (intro filter_update_le) (auto simp: unresolved_def)
    fix k m
    assume m: "map_get (map_delete h (cs_inFlight s)) k = Some m"
    then have k: "k \<noteq> h" "map_get (cs_inFlight s) k = Some m" by (simp_all add: map_get_delete split: if_splits)
    then have "m \<noteq> n" using flight Some by blast
    then show "map_get (cs_inFlight s) k = Some m \<and> sa_status ((cs_attempts s)[n := ?a] ! m) = sa_status (cs_attempts s ! m)"
      using k by simp
  qed
  then show ?thesis using Some by (simp add: settle_switch_def)
qed

lemma ok_acknowledge:
  assumes ok: "store_ok s"
  shows "store_ok (snd (acknowledgeIpSwitch i there now s))"
proof (cases "map_get (cs_rows s) i")
  case (Some row)
  let ?g = "\<lambda>a. if si_hostId (sa_intent a) = hr_hostId row \<and> (sa_status a = Pending \<or> sa_status a = Uncertain) \<and>
                si_createdAt (sa_intent a) < now - 150 then a \<lparr>sa_acknowledged := True\<rparr> else a"
  have flight: "m < length (cs_attempts s)" if "map_get (cs_inFlight s) k = Some m" for k m
    using ok that unfolding store_ok_def attempts_ok_def by blast
  have "store_ok (s \<lparr>cs_attempts := map ?g (cs_attempts s), cs_inFlight := cs_inFlight s\<rparr>)"
  proof (rule ok_attempts [OF ok])
    show "length (filter (unresolved h) (map ?g (cs_attempts s))) \<le> length (filter (unresolved h) (cs_attempts s))" for h
      by (rule filter_map_le) (auto simp: unresolved_def split: if_splits)
  qed (use flight in auto)
  then show ?thesis using ok Some by (simp add: acknowledgeIpSwitch_def)
qed (use ok in \<open>simp add: acknowledgeIpSwitch_def\<close>)

definition after_epoch :: "china_op \<Rightarrow> bool" where
  "after_epoch op = (case op of ObserveHealth _ _ _ _ _ now \<Rightarrow> 0 < now | _ \<Rightarrow> True)"

lemma ok_china_step: "store_ok s \<Longrightarrow> after_epoch op \<Longrightarrow> store_ok (china_step op s)"
  by (cases op) (simp_all add: ok_save ok_observe ok_perform ok_settle_switch ok_acknowledge ok_restart after_epoch_def)

lemma ok_china_run: "list_all after_epoch ops \<Longrightarrow> store_ok (fold china_step ops no_health)"
proof -
  have "store_ok s \<Longrightarrow> list_all after_epoch ops \<Longrightarrow> store_ok (fold china_step ops s)" for s
    by (induction ops arbitrary: s) (simp_all add: ok_china_step)
  then show "list_all after_epoch ops \<Longrightarrow> store_ok (fold china_step ops no_health)" using ok_no_health by blast
qed

text \<open>
  C10: Whatever is configured, reported, settled and acknowledged in any order, with restarts of the
  panel in between, a change of address is asked for once at most for each incident, when automatic
  changes are on and an unbroken streak of failures was long enough in number and time; after an
  earlier change of the host not before the cooldown (a day at most), within the number of a day, and
  never while the outcome of another is unknown and not acknowledged.
\<close>

theorem ip_switches_limited:
  assumes "list_all after_epoch ops"
  shows "let s = fold china_step ops no_health
    in admitted (intents s) \<and> (\<forall>h. length (filter (unresolved h) (cs_attempts s)) \<le> 1)"
  using ok_china_run [OF assms] by (simp add: store_ok_def attempts_ok_def Let_def)

definition sample_switching :: china_config where
  "sample_switching = sample_config \<lparr>cc_enabled := True, cc_autoSwitch := True, cc_cooldownSeconds := 300\<rparr>"

definition sample_service :: probe_service where
  "sample_service =
     \<lparr>ps_enabled = True, ps_specific = True, ps_hostIds = [1], ps_method = Ping, ps_targetIp = ''192.0.2.1'', ps_targetPort = None,
      ps_interval = 15\<rparr>"

definition sample_probe :: "int \<Rightarrow> int \<Rightarrow> china_op" where
  "sample_probe k t = ObserveHealth 1 ''198.51.100.1'' 7
     \<lparr>pr_targetIp = ''192.0.2.1'', pr_targetPort = None, pr_method = Ping, pr_successes = Some k, pr_count = Some 4\<rparr> (Some sample_service) t"

definition sample_switch :: china_op where
  "sample_switch = PerformSwitch 0 \<lparr>se_ready = True, se_service = Some sample_service, se_address = Some ''198.51.100.1''\<rparr>"

definition sample_ops :: "china_op list" where
  "sample_ops =
     [SaveHealth 7 sample_service (Replace sample_switching (Some ''hook'')) None
        \<lparr>sv_userExists = True, sv_hostExists = True, sv_targetIsIp = True, sv_targetSafe = True\<rparr>] @
     map (sample_probe 0) [1000, 1015, 1030] @
     [sample_switch, sample_probe 0 1045,
      SettleSwitch 1 (Replied True False SyncDone)] @
     map (sample_probe 2) [1060, 1075] @ map (sample_probe 0) [1090, 1120] @
     [sample_switch, sample_probe 0 1220, sample_switch, sample_probe 0 1330, sample_switch]"

text \<open>The first incident is switched; the second is held back by the cooldown and switched after it.\<close>

lemma sample_switched:
  "map (\<lambda>n. length (cs_attempts (fold china_step (take n sample_ops) no_health))) [3, 4, 5, 11, 12, 14, 15, 16] = [0, 0, 1, 1, 1, 1, 1, 2]"
  by code_simp

theorem ip_switches_limited_witness:
  "let s = fold china_step sample_ops no_health
   in admitted (intents s) \<and> (\<forall>h. length (filter (unresolved h) (cs_attempts s)) \<le> 1)"
  by (rule ip_switches_limited) (simp add: sample_ops_def sample_probe_def sample_switch_def after_epoch_def)

end
