(* ===== verification/Group_Runtime.thy ===== *)
theory Group_Runtime
  imports Prelude
begin

text \<open>
  \<open>server/forwardGroupRuntimeStatus.ts\<close>: what the status of a forward group is, from the rules that
  its templates expect on the hosts of its members and the ones that run there. The texts that
  identify a child are constructors of the numbers in them.
\<close>

section \<open>Data\<close>

datatype runtime_status = Disabled | Idle | Pending | Degraded | Running

datatype group_mode = Port | Chain | EntryGroup | ExitGroup | Failover

record runtime_group =
  rg_groupMode :: jsval
  rg_isEnabled :: jsval
  rg_entryGroupId :: jsval

record runtime_member =
  rm_id :: jsval
  rm_hostId :: jsval
  rm_isEnabled :: jsval

record runtime_rule =
  rr_id :: jsval
  rr_hostId :: jsval
  rr_isEnabled :: jsval
  rr_isRunning :: jsval
  rr_pendingDelete :: jsval
  rr_forwardGroupRuleId :: jsval
  rr_forwardGroupMemberId :: jsval

record runtime_input =
  ri_group :: runtime_group
  ri_members :: "runtime_member list"
  ri_entryMembers :: "runtime_member list"
  ri_templateRules :: "runtime_rule list"
  ri_childRules :: "runtime_rule list"

record rule_runtime_status =
  rs_templateRuleId :: int
  rs_status :: runtime_status
  rs_expected :: nat
  rs_configured :: nat
  rs_running :: nat
  rs_failed :: nat

record group_runtime_summary =
  gs_status :: runtime_status
  gs_expected :: nat
  gs_configured :: nat
  gs_running :: nat
  gs_failed :: nat
  gs_ruleStatuses :: "rule_runtime_status list"

section \<open>Operations\<close>

definition flag_on :: "jsval \<Rightarrow> bool" where
  "flag_on value \<longleftrightarrow> value = JBool True \<or> value = JNum (Fin 1) \<or> value = JStr ''1'' \<or> js_lower (js_string value) = ''true''"

definition positiveId :: "jsval \<Rightarrow> int" where
  "positiveId value = (case positive_int (to_number (if js_truthy value then value else JNum (Fin 0))) of None \<Rightarrow> 0 | Some i \<Rightarrow> i)"

definition normalizeGroupMode :: "runtime_group \<Rightarrow> group_mode" where
  "normalizeGroupMode g =
     (let mode = js_lower (js_text (rg_groupMode g)) in
      if mode = ''port'' then Port else if mode = ''chain'' then Chain else if mode = ''entry'' then EntryGroup
      else if mode = ''exit'' then ExitGroup else Failover)"

datatype child_identity = NoIdentity | OfMember int | OfMemberHost int int

definition activeMembers :: "runtime_member list \<Rightarrow> runtime_member list" where
  "activeMembers members = filter (\<lambda>m. flag_on (rm_isEnabled m) \<and> positiveId (rm_id m) > 0) members"

text \<open>A \<open>Set\<close> is a list without repetitions.\<close>

definition entry_identities :: "runtime_group \<Rightarrow> runtime_member list \<Rightarrow> runtime_member list \<Rightarrow> child_identity list" where
  "entry_identities g active entryMembers =
     (let firstMemberId = (case active of [] \<Rightarrow> 0 | m # ms \<Rightarrow> positiveId (rm_id m)) in
      if positiveId (rg_entryGroupId g) > 0 \<and> firstMemberId > 0 then
        map (OfMemberHost firstMemberId)
          (filter (\<lambda>h. h > 0) (map (\<lambda>m. if flag_on (rm_isEnabled m) then positiveId (rm_hostId m) else 0) entryMembers))
      else [])"

definition expectedChildIdentities :: "runtime_group \<Rightarrow> runtime_member list \<Rightarrow> runtime_member list \<Rightarrow> child_identity list" where
  "expectedChildIdentities g members entryMembers =
     (let mode = normalizeGroupMode g; active = activeMembers members in
      if mode = EntryGroup \<or> mode = ExitGroup then []
      else if mode \<noteq> Chain then remdups (map (\<lambda>m. OfMember (positiveId (rm_id m))) active)
      else remdups (map (\<lambda>m. OfMemberHost (positiveId (rm_id m)) (positiveId (rm_hostId m))) active @
             entry_identities g active entryMembers))"

definition childIdentity :: "runtime_group \<Rightarrow> runtime_rule \<Rightarrow> child_identity" where
  "childIdentity g child =
     (let memberId = positiveId (rr_forwardGroupMemberId child) in
      if memberId \<le> 0 then NoIdentity
      else if normalizeGroupMode g = Chain then OfMemberHost memberId (positiveId (rr_hostId child))
      else OfMember memberId)"

definition statusForCounts :: "bool \<Rightarrow> nat \<Rightarrow> nat \<Rightarrow> runtime_status" where
  "statusForCounts disabled expected running =
     (if disabled then Disabled else if expected = 0 then Pending else if running \<ge> expected then Running
      else if running > 0 then Degraded else Pending)"

definition rule_status :: "runtime_group \<Rightarrow> child_identity list \<Rightarrow> runtime_rule list \<Rightarrow> runtime_rule \<Rightarrow> rule_runtime_status" where
  "rule_status g identities children template =
     (let templateRuleId = positiveId (rr_id template);
          templateDisabled = (\<not> flag_on (rg_isEnabled g) \<or> \<not> flag_on (rr_isEnabled template));
          expected = (if templateDisabled then 0 else length identities);
          matching = filter (\<lambda>r. positiveId (rr_forwardGroupRuleId r) = templateRuleId) children;
          configured = remdups (filter (\<lambda>i. i \<in> set identities) (map (childIdentity g) matching));
          running = remdups (filter (\<lambda>i. i \<in> set identities)
            (map (childIdentity g) (filter (\<lambda>r. flag_on (rr_isEnabled r) \<and> flag_on (rr_isRunning r)) matching)))
      in \<lparr>rs_templateRuleId = templateRuleId, rs_status = statusForCounts templateDisabled expected (length running),
          rs_expected = expected, rs_configured = length configured, rs_running = length running,
          rs_failed = expected - length running\<rparr>)"

definition summarizeForwardGroupRuntime :: "runtime_input \<Rightarrow> group_runtime_summary" where
  "summarizeForwardGroupRuntime input =
     (let g = ri_group input;
          templates = filter (\<lambda>r. \<not> flag_on (rr_pendingDelete r)) (ri_templateRules input);
          children = filter (\<lambda>r. \<not> flag_on (rr_pendingDelete r)) (ri_childRules input);
          identities = expectedChildIdentities g (ri_members input) (ri_entryMembers input);
          ruleStatuses = map (rule_status g identities children) templates;
          quiet = (\<lambda>status. \<lparr>gs_status = status, gs_expected = 0, gs_configured = length children, gs_running = 0, gs_failed = 0,
                    gs_ruleStatuses = ruleStatuses\<rparr>);
          active = filter (\<lambda>s. rs_status s \<noteq> Disabled) ruleStatuses;
          expected = sum_list (map rs_expected active);
          running = sum_list (map rs_running active)
      in if \<not> flag_on (rg_isEnabled g) then quiet Disabled
         else if active = [] then quiet Idle
         else \<lparr>gs_status =
                (if expected > 0 \<and> list_all (\<lambda>s. rs_status s = Running) active then Running
                 else if running > 0 then Degraded else Pending),
               gs_expected = expected, gs_configured = sum_list (map rs_configured active), gs_running = running,
               gs_failed = expected - running, gs_ruleStatuses = ruleStatuses\<rparr>)"

section \<open>What the summary means\<close>

text \<open>The identities that every template of the group wants, and those that a template has rules for and that run.\<close>

definition wanted :: "runtime_input \<Rightarrow> child_identity set" where
  "wanted input = set (expectedChildIdentities (ri_group input) (ri_members input) (ri_entryMembers input))"

definition present :: "runtime_input \<Rightarrow> runtime_rule \<Rightarrow> child_identity set" where
  "present input template =
     childIdentity (ri_group input) ` {c \<in> set (ri_childRules input). \<not> flag_on (rr_pendingDelete c) \<and>
       positiveId (rr_forwardGroupRuleId c) = positiveId (rr_id template)}"

definition served :: "runtime_input \<Rightarrow> runtime_rule \<Rightarrow> child_identity set" where
  "served input template =
     childIdentity (ri_group input) ` {c \<in> set (ri_childRules input). \<not> flag_on (rr_pendingDelete c) \<and>
       positiveId (rr_forwardGroupRuleId c) = positiveId (rr_id template) \<and> flag_on (rr_isEnabled c) \<and> flag_on (rr_isRunning c)}"

definition live_templates :: "runtime_input \<Rightarrow> runtime_rule list" where
  "live_templates input =
     filter (\<lambda>t. \<not> flag_on (rr_pendingDelete t) \<and> flag_on (rr_isEnabled t)) (ri_templateRules input)"

lemma length_remdups_filter: "length (remdups (filter (\<lambda>i. i \<in> set xs) ys)) = card (set xs \<inter> set ys)"
  by (simp add: length_remdups_card_conv Int_def conj_commute)

lemma distinct_expected: "distinct (expectedChildIdentities g members entryMembers)"
  by (simp add: expectedChildIdentities_def Let_def)

lemma served_wanted: "served input t \<subseteq> present input t"
  by (auto simp: served_def present_def)

lemma all_served:
  assumes "finite A"
  shows "card (A \<inter> B) \<ge> card A \<longleftrightarrow> A \<subseteq> B"
proof
  assume "card A \<le> card (A \<inter> B)"
  then have "A \<inter> B = A" using assms by (intro card_seteq) auto
  then show "A \<subseteq> B" by blast
qed (simp add: Int_absorb2)

text \<open>The status of a template in terms of the sets.\<close>

definition status_of_sets :: "child_identity set \<Rightarrow> child_identity set \<Rightarrow> runtime_status" where
  "status_of_sets want have =
     (if want = {} then Pending else if want \<subseteq> have then Running else if want \<inter> have = {} then Pending else Degraded)"

lemma rule_status_sets:
  assumes on: "flag_on (rg_isEnabled (ri_group input))"
    and children: "children = filter (\<lambda>r. \<not> flag_on (rr_pendingDelete r)) (ri_childRules input)"
    and ids: "identities = expectedChildIdentities (ri_group input) (ri_members input) (ri_entryMembers input)"
  shows "rule_status (ri_group input) identities children t =
    \<lparr>rs_templateRuleId = positiveId (rr_id t),
     rs_status = (if flag_on (rr_isEnabled t) then status_of_sets (wanted input) (served input t) else Disabled),
     rs_expected = (if flag_on (rr_isEnabled t) then card (wanted input) else 0),
     rs_configured = card (wanted input \<inter> present input t), rs_running = card (wanted input \<inter> served input t),
     rs_failed = (if flag_on (rr_isEnabled t) then card (wanted input - served input t) else 0)\<rparr>"
proof -
  have fin: "finite (wanted input)" by (simp add: wanted_def)
  have want: "length identities = card (wanted input)" "set identities = wanted input"
    by (simp_all add: ids wanted_def distinct_card distinct_expected)
  have sets: "childIdentity (ri_group input) ` set (filter (\<lambda>r. positiveId (rr_forwardGroupRuleId r) = positiveId (rr_id t)) children) = present input t"
    "childIdentity (ri_group input) ` set (filter (\<lambda>r. flag_on (rr_isEnabled r) \<and> flag_on (rr_isRunning r))
       (filter (\<lambda>r. positiveId (rr_forwardGroupRuleId r) = positiveId (rr_id t)) children)) = served input t"
    by (auto simp: present_def served_def children)
  have status: "statusForCounts (\<not> flag_on (rr_isEnabled t)) (if \<not> flag_on (rr_isEnabled t) then 0 else card (wanted input)) (card (wanted input \<inter> served input t)) =
      (if flag_on (rr_isEnabled t) then status_of_sets (wanted input) (served input t) else Disabled)"
    using all_served [OF fin, of "served input t"] fin by (simp add: statusForCounts_def status_of_sets_def)
  have failed: "card (wanted input) - card (wanted input \<inter> served input t) = card (wanted input - served input t)"
    using fin by (simp add: card_Diff_subset_Int)
  show ?thesis
    unfolding rule_status_def Let_def length_remdups_filter
    unfolding set_map sets want
    using on status failed by simp
qed

lemma filter_map_same:
  assumes "\<And>t. rs_status (f t) \<noteq> Disabled \<longleftrightarrow> P t" "\<And>t. P t \<Longrightarrow> f t = g t"
  shows "filter (\<lambda>s. rs_status s \<noteq> Disabled) (map f ts) = map g (filter P ts)"
  using assms by (induction ts) auto

text \<open>
  C26: A group that is off is disabled, one without live templates idle. Otherwise it runs exactly
  when every live template has a running rule for every place that is wanted, and something is
  wanted; it is degraded when one has a running rule for one of them, and pending else. Wanted,
  running and missing places are counted once each, however many rules there are for them.
\<close>

theorem group_runtime_status_exact:
  "let s = summarizeForwardGroupRuntime input; live = live_templates input; want = wanted input in
   gs_status s =
     (if \<not> flag_on (rg_isEnabled (ri_group input)) then Disabled
      else if live = [] then Idle
      else if want \<noteq> {} \<and> list_all (\<lambda>t. want \<subseteq> served input t) live then Running
      else if list_ex (\<lambda>t. want \<inter> served input t \<noteq> {}) live then Degraded
      else Pending) \<and>
   (if flag_on (rg_isEnabled (ri_group input)) then
      gs_expected s = length live * card want \<and>
      gs_running s = (\<Sum>t\<leftarrow>live. card (want \<inter> served input t)) \<and>
      gs_failed s = (\<Sum>t\<leftarrow>live. card (want - served input t)) \<and>
      gs_running s + gs_failed s = gs_expected s
    else gs_expected s = 0 \<and> gs_running s = 0 \<and> gs_failed s = 0)"
proof -
  let ?g = "ri_group input" and ?want = "wanted input"
  define templates where "templates = filter (\<lambda>r. \<not> flag_on (rr_pendingDelete r)) (ri_templateRules input)"
  define statuses where "statuses = map (rule_status ?g (expectedChildIdentities ?g (ri_members input) (ri_entryMembers input))
      (filter (\<lambda>r. \<not> flag_on (rr_pendingDelete r)) (ri_childRules input))) templates"
  show ?thesis
  proof (cases "flag_on (rg_isEnabled ?g)")
    case False
    then show ?thesis by (simp add: summarizeForwardGroupRuntime_def Let_def)
  next
    case on: True
    let ?st = "\<lambda>t. \<lparr>rs_templateRuleId = positiveId (rr_id t), rs_status = status_of_sets ?want (served input t), rs_expected = card ?want,
        rs_configured = card (?want \<inter> present input t), rs_running = card (?want \<inter> served input t), rs_failed = card (?want - served input t)\<rparr>"
    have "filter (\<lambda>s. rs_status s \<noteq> Disabled) statuses = map ?st (filter (\<lambda>t. flag_on (rr_isEnabled t)) templates)"
      unfolding statuses_def
      by (rule filter_map_same) (simp_all add: rule_status_sets [OF on refl refl] status_of_sets_def)
    then have active: "filter (\<lambda>s. rs_status s \<noteq> Disabled) statuses = map ?st (live_templates input)"
      by (simp add: live_templates_def templates_def conj_commute)
    have s: "gs_status (summarizeForwardGroupRuntime input) =
        (if live_templates input = [] then Idle
         else if length (live_templates input) * card ?want > 0 \<and> list_all (\<lambda>t. status_of_sets ?want (served input t) = Running) (live_templates input) then Running
         else if (\<Sum>t\<leftarrow>live_templates input. card (?want \<inter> served input t)) > 0 then Degraded else Pending)"
      "gs_expected (summarizeForwardGroupRuntime input) = length (live_templates input) * card ?want"
      "gs_running (summarizeForwardGroupRuntime input) = (\<Sum>t\<leftarrow>live_templates input. card (?want \<inter> served input t))"
      "gs_failed (summarizeForwardGroupRuntime input) =
         length (live_templates input) * card ?want - (\<Sum>t\<leftarrow>live_templates input. card (?want \<inter> served input t))"
      using on unfolding summarizeForwardGroupRuntime_def Let_def
      unfolding templates_def [symmetric] statuses_def [symmetric] active
      by (simp_all add: o_def sum_list_triv list.pred_map)
    have fin: "finite ?want" by (simp add: wanted_def)
    have parts: "(\<Sum>t\<leftarrow>ts. card (?want \<inter> served input t)) + (\<Sum>t\<leftarrow>ts. card (?want - served input t)) = length ts * card ?want" for ts
    proof (induction ts)
      case (Cons t ts)
      have "card (?want \<inter> served input t) + card (?want - served input t) = card ?want"
        using fin by (metis card_Int_Diff)
      then show ?case using Cons.IH by simp
    qed simp
    have missing: "length ts * card ?want - (\<Sum>t\<leftarrow>ts. card (?want \<inter> served input t)) = (\<Sum>t\<leftarrow>ts. card (?want - served input t))" for ts
      using parts [of ts] by linarith
    have running: "status_of_sets ?want h = Running \<longleftrightarrow> ?want \<noteq> {} \<and> ?want \<subseteq> h" for h by (simp add: status_of_sets_def)
    have some: "(\<Sum>t\<leftarrow>ts. card (?want \<inter> served input t)) > 0 \<longleftrightarrow> list_ex (\<lambda>t. ?want \<inter> served input t \<noteq> {}) ts" for ts
      using fin by (induction ts) (auto simp: card_gt_0_iff)
    have "(length ts * card ?want > 0 \<and> list_all (\<lambda>t. ?want \<noteq> {} \<and> ?want \<subseteq> served input t) ts) =
        (?want \<noteq> {} \<and> list_all (\<lambda>t. ?want \<subseteq> served input t) ts)" if "ts \<noteq> []" for ts
      using fin that by (auto simp: card_gt_0_iff list_all_iff)
    then show ?thesis
      using on parts unfolding Let_def s running some missing by simp
  qed
qed

text \<open>The repository's test: a second rule of the same member does not count for the other member.\<close>

definition sample_member :: "int \<Rightarrow> runtime_member" where
  "sample_member i = \<lparr>rm_id = JNum (num i), rm_hostId = JUndef, rm_isEnabled = JBool True\<rparr>"

definition sample_child :: "int \<Rightarrow> int \<Rightarrow> runtime_rule" where
  "sample_child i m =
     \<lparr>rr_id = JNum (num i), rr_hostId = JUndef, rr_isEnabled = JBool True, rr_isRunning = JBool True, rr_pendingDelete = JBool False,
      rr_forwardGroupRuleId = JNum (num 100), rr_forwardGroupMemberId = JNum (num m)\<rparr>"

definition sample_input :: "runtime_rule list \<Rightarrow> runtime_input" where
  "sample_input children =
     \<lparr>ri_group = \<lparr>rg_groupMode = JStr ''failover'', rg_isEnabled = JBool True, rg_entryGroupId = JUndef\<rparr>,
      ri_members = [sample_member 11, sample_member 12], ri_entryMembers = [],
      ri_templateRules = [(sample_child 100 0) \<lparr>rr_forwardGroupRuleId := JUndef, rr_forwardGroupMemberId := JUndef\<rparr>],
      ri_childRules = children\<rparr>"

lemma sample_summaries:
  "gs_status (summarizeForwardGroupRuntime (sample_input [sample_child 101 11, sample_child 103 11])) = Degraded"
  "gs_failed (summarizeForwardGroupRuntime (sample_input [sample_child 101 11, sample_child 103 11])) = 1"
  "gs_status (summarizeForwardGroupRuntime (sample_input [sample_child 101 11, sample_child 102 12])) = Running"
  by code_simp+

end
