(* ===== verification/Tunnel_Runtime.thy ===== *)
theory Tunnel_Runtime
  imports Prelude Exit_Plan
begin

text \<open>
  \<open>server/tunnelRuntimeStatus.ts\<close>, which hosts run their part of a tunnel and whether the tunnel
  runs, and \<open>server/tunnelRuntimePlan.ts\<close>, what has to run for it on a host. Identifiers are what
  \<open>Number\<close> makes of a value; only finite positive ones are keys.
\<close>

section \<open>Reported status\<close>

record tunnel_runtime =
  tr_status :: "(rat, (rat, bool) jsmap) jsmap"
  tr_generation :: "(rat, int) jsmap"

definition no_tunnels :: tunnel_runtime where
  "no_tunnels = \<lparr>tr_status = [], tr_generation = []\<rparr>"

text \<open>A positive finite number, or 0.\<close>

definition normalizeTunnelId :: "jsval \<Rightarrow> rat" where
  "normalizeTunnelId v = (case js_finite (to_number v) of None \<Rightarrow> 0 | Some q \<Rightarrow> if 0 < q then q else 0)"

definition generation_of :: "rat \<Rightarrow> tunnel_runtime \<Rightarrow> int" where
  "generation_of tid s = (case map_get (tr_generation s) tid of None \<Rightarrow> 0 | Some g \<Rightarrow> g)"

definition next_generation :: "int \<Rightarrow> int" where
  "next_generation current = (if current \<ge> MAX_SAFE_INTEGER then 1 else current + 1)"

definition bumpTunnelRuntimeGeneration :: "jsval \<Rightarrow> tunnel_runtime \<Rightarrow> int \<times> tunnel_runtime" where
  "bumpTunnelRuntimeGeneration v s =
     (let tid = normalizeTunnelId v in
      if tid = 0 then (0, s)
      else let n = next_generation (generation_of tid s) in (n, s \<lparr>tr_generation := map_set tid n (tr_generation s)\<rparr>))"

definition getTunnelRuntimeGeneration :: "jsval \<Rightarrow> tunnel_runtime \<Rightarrow> int" where
  "getTunnelRuntimeGeneration v s = (let tid = normalizeTunnelId v in if tid = 0 then 0 else generation_of tid s)"

definition recordTunnelRuntimeHostStatus :: "jsval \<Rightarrow> jsval \<Rightarrow> bool \<Rightarrow> tunnel_runtime \<Rightarrow> tunnel_runtime" where
  "recordTunnelRuntimeHostStatus tunnelId hostId running s =
     (let tid = normalizeTunnelId tunnelId; hid = normalizeTunnelId hostId in
      if tid = 0 \<or> hid = 0 then s
      else
        let hosts = (case map_get (tr_status s) tid of None \<Rightarrow> [] | Some m \<Rightarrow> m)
        in s \<lparr>tr_status := map_set tid (map_set hid running hosts) (tr_status s)\<rparr>)"

text \<open>A map is read with what \<open>Number\<close> makes of the value.\<close>

definition get_at :: "(rat, 'v) jsmap \<Rightarrow> jsval \<Rightarrow> 'v option" where
  "get_at m v = (case js_finite (to_number v) of None \<Rightarrow> None | Some q \<Rightarrow> map_get m q)"

definition getTunnelRuntimeHostStatus :: "jsval \<Rightarrow> jsval \<Rightarrow> tunnel_runtime \<Rightarrow> bool option" where
  "getTunnelRuntimeHostStatus tunnelId hostId s =
     (case get_at (tr_status s) tunnelId of None \<Rightarrow> None | Some hosts \<Rightarrow> get_at hosts hostId)"

definition isTunnelRuntimeHostReady :: "jsval \<Rightarrow> jsval \<Rightarrow> tunnel_runtime \<Rightarrow> bool" where
  "isTunnelRuntimeHostReady tunnelId hostId s \<longleftrightarrow> getTunnelRuntimeHostStatus tunnelId hostId s = Some True"

definition getTunnelRuntimeReadyCount :: "jsval \<Rightarrow> jsval list \<Rightarrow> tunnel_runtime \<Rightarrow> nat" where
  "getTunnelRuntimeReadyCount tunnelId hostIds s =
     (case get_at (tr_status s) tunnelId of
        None \<Rightarrow> 0 | Some hosts \<Rightarrow> length (filter (\<lambda>h. get_at hosts h = Some True) hostIds))"

text \<open>The hosts are gone through while tunnels without hosts are removed.\<close>

definition clearTunnelRuntimeStatusForHost :: "jsval \<Rightarrow> tunnel_runtime \<Rightarrow> rat list \<times> tunnel_runtime" where
  "clearTunnelRuntimeStatusForHost hostId s =
     (let hid = normalizeTunnelId hostId in
      if hid = 0 then ([], s)
      else
        let affected = map fst (filter (\<lambda>p. map_has (snd p) hid) (tr_status s));
            left = map (\<lambda>p. (fst p, map_delete hid (snd p))) (tr_status s)
        in (affected,
            fold (\<lambda>t u. snd (bumpTunnelRuntimeGeneration (JNum (Fin t)) u)) affected
              (s \<lparr>tr_status := filter (\<lambda>p. snd p \<noteq> []) left\<rparr>)))"

definition clearTunnelRuntimeStatus :: "jsval \<Rightarrow> tunnel_runtime \<Rightarrow> tunnel_runtime" where
  "clearTunnelRuntimeStatus tunnelId s =
     (let tid = normalizeTunnelId tunnelId in
      if tid = 0 then s
      else snd (bumpTunnelRuntimeGeneration (JNum (Fin tid)) (s \<lparr>tr_status := map_delete tid (tr_status s)\<rparr>)))"

section \<open>Topology\<close>

record tunnel_topology =
  tt_entryHostIds :: "jsval list"
  tt_hopHostIds :: "jsval list"
  tt_primaryExitHostId :: jsval
  tt_extraExitHostIds :: "jsval list"
  tt_relayMode :: jsval
  tt_loadBalanceEnabled :: jsval
  tt_loadBalanceStrategy :: jsval

record topology_status =
  ts_running :: bool
  ts_readyCount :: nat
  ts_hostCount :: nat
  ts_missing :: "rat list"

text \<open>The finite positive numbers, once each, in the order of their first occurrence.\<close>

definition unique_ids :: "jsval list \<Rightarrow> rat list" where
  "unique_ids values = fold set_add (filter (\<lambda>q. q \<noteq> 0) (map normalizeTunnelId values)) []"

definition host_val :: "rat \<Rightarrow> jsval" where
  "host_val q = JNum (Fin q)"

definition getTunnelRuntimeTopologyStatus :: "jsval \<Rightarrow> tunnel_topology \<Rightarrow> tunnel_runtime \<Rightarrow> topology_status" where
  "getTunnelRuntimeTopologyStatus tunnelId topology s =
     (let hops = unique_ids (tt_hopHostIds topology);
          entryCandidates = unique_ids
            (if tt_entryHostIds topology \<noteq> [] then tt_entryHostIds topology
             else [case hops of [] \<Rightarrow> JUndef | h # hs \<Rightarrow> host_val h]);
          useExtraExits = (tt_loadBalanceEnabled topology = JBool True \<and> js_lower (js_text (tt_loadBalanceStrategy topology)) \<noteq> ''none'');
          primary = (if js_truthy (tt_primaryExitHostId topology) then tt_primaryExitHostId topology
            else if hops = [] then JNum (Fin 0) else host_val (last hops));
          exitCandidates = unique_ids (primary # (if useExtraExits then tt_extraExitHostIds topology else []));
          ready = (\<lambda>h. isTunnelRuntimeHostReady tunnelId (host_val h) s);
          relayCandidates = (if length hops \<ge> 3 then butlast (tl hops) else []);
          entryReady = (length hops < 3 \<or> list_ex ready entryCandidates);
          exitReady = list_ex ready exitCandidates;
          relayMode = js_lower (if js_truthy (tt_relayMode topology) then js_string (tt_relayMode topology) else ''chain'');
          relayReady = (relayCandidates = [] \<or>
            (if relayMode = ''failover'' then list_ex ready relayCandidates else list_all ready relayCandidates));
          observed = unique_ids (map host_val (entryCandidates @ relayCandidates @ exitCandidates))
      in \<lparr>ts_running = (entryReady \<and> relayReady \<and> exitReady), ts_readyCount = length (filter ready observed),
          ts_hostCount = length observed, ts_missing = filter (\<lambda>h. \<not> ready h) observed\<rparr>)"

section \<open>What is known\<close>

datatype runtime_op = RecordStatus jsval jsval bool | ClearHost jsval | ClearTunnel jsval | Bump jsval

fun runtime_step :: "runtime_op \<Rightarrow> tunnel_runtime \<Rightarrow> tunnel_runtime" where
  "runtime_step (RecordStatus t h b) s = recordTunnelRuntimeHostStatus t h b s"
| "runtime_step (ClearHost h) s = snd (clearTunnelRuntimeStatusForHost h s)"
| "runtime_step (ClearTunnel t) s = clearTunnelRuntimeStatus t s"
| "runtime_step (Bump t) s = snd (bumpTunnelRuntimeGeneration t s)"

text \<open>The specification: what was last reported of a host in a tunnel, and how often something of a tunnel was dropped.\<close>

record known_runtime =
  kr_status :: "rat \<Rightarrow> rat \<Rightarrow> bool option"
  kr_generation :: "rat \<Rightarrow> int"

fun known_step :: "runtime_op \<Rightarrow> known_runtime \<Rightarrow> known_runtime" where
  "known_step (RecordStatus t h b) k =
     (let tid = normalizeTunnelId t; hid = normalizeTunnelId h in
      if tid = 0 \<or> hid = 0 then k
      else k \<lparr>kr_status := (kr_status k)(tid := (kr_status k tid)(hid := Some b))\<rparr>)"
| "known_step (ClearHost h) k =
     (let hid = normalizeTunnelId h in
      if hid = 0 then k
      else \<lparr>kr_status = (\<lambda>t. (kr_status k t)(hid := None)),
            kr_generation = (\<lambda>t. if kr_status k t hid \<noteq> None then next_generation (kr_generation k t) else kr_generation k t)\<rparr>)"
| "known_step (ClearTunnel t) k =
     (let tid = normalizeTunnelId t in
      if tid = 0 then k
      else \<lparr>kr_status = (kr_status k)(tid := (\<lambda>_. None)),
            kr_generation = (kr_generation k)(tid := next_generation (kr_generation k tid))\<rparr>)"
| "known_step (Bump t) k =
     (let tid = normalizeTunnelId t in
      if tid = 0 then k else k \<lparr>kr_generation := (kr_generation k)(tid := next_generation (kr_generation k tid))\<rparr>)"

definition nothing_known :: known_runtime where
  "nothing_known = \<lparr>kr_status = (\<lambda>_ _. None), kr_generation = (\<lambda>_. 0)\<rparr>"

definition known_of :: "tunnel_runtime \<Rightarrow> known_runtime" where
  "known_of s =
     \<lparr>kr_status = (\<lambda>t h. case map_get (tr_status s) t of None \<Rightarrow> None | Some m \<Rightarrow> map_get m h),
      kr_generation = (\<lambda>t. generation_of t s)\<rparr>"

definition positive_keys :: "(rat, bool) jsmap \<Rightarrow> bool" where
  "positive_keys m \<longleftrightarrow> wf_map m \<and> list_all (\<lambda>q. 0 < fst q) m"

lemma positive_keys_simps [simp]:
  "positive_keys []" "positive_keys m \<Longrightarrow> 0 < k \<Longrightarrow> positive_keys (map_set k v m)"
  "positive_keys m \<Longrightarrow> positive_keys (map_delete k m)"
proof -
  show "positive_keys m \<Longrightarrow> 0 < k \<Longrightarrow> positive_keys (map_set k v m)"
    using set_map_set [of k v m] by (fastforce simp: positive_keys_def list_all_iff)
  show "positive_keys m \<Longrightarrow> positive_keys (map_delete k m)"
    using set_map_delete [of k m] by (fastforce simp: positive_keys_def list_all_iff)
qed (simp add: positive_keys_def)

text \<open>Keys are positive, and no tunnel is kept without hosts.\<close>

definition runtime_ok :: "tunnel_runtime \<Rightarrow> bool" where
  "runtime_ok s \<longleftrightarrow> wf_map (tr_status s) \<and> list_all (\<lambda>p. 0 < fst p \<and> snd p \<noteq> [] \<and> positive_keys (snd p)) (tr_status s)"

lemma normalize_pos: "normalizeTunnelId v \<noteq> 0 \<Longrightarrow> 0 < normalizeTunnelId v"
  by (simp add: normalizeTunnelId_def split: option.splits if_splits)

lemma normalize_num [simp]: "normalizeTunnelId (JNum (Fin q)) = (if 0 < q then q else 0)"
  by (simp add: normalizeTunnelId_def)

lemma generation_bump:
  "0 < q \<Longrightarrow> generation_of t (snd (bumpTunnelRuntimeGeneration (JNum (Fin q)) s)) =
     (if t = q then next_generation (generation_of q s) else generation_of t s)"
  by (simp add: bumpTunnelRuntimeGeneration_def Let_def generation_of_def map_get_set)

lemma status_bump [simp]: "tr_status (snd (bumpTunnelRuntimeGeneration v s)) = tr_status s"
  by (simp add: bumpTunnelRuntimeGeneration_def Let_def)

lemma bump_all:
  assumes "distinct ts" "list_all (\<lambda>t. 0 < t) ts"
  shows "tr_status (fold (\<lambda>t u. snd (bumpTunnelRuntimeGeneration (JNum (Fin t)) u)) ts s) = tr_status s \<and>
    generation_of t (fold (\<lambda>t u. snd (bumpTunnelRuntimeGeneration (JNum (Fin t)) u)) ts s) =
      (if t \<in> set ts then next_generation (generation_of t s) else generation_of t s)"
  using assms
proof (induction ts arbitrary: s)
  case (Cons u us)
  then show ?case by (auto simp: generation_bump)
qed simp

lemma wf_runtimeD:
  "runtime_ok s \<Longrightarrow> map_get (tr_status s) t = Some m \<Longrightarrow> 0 < t \<and> m \<noteq> [] \<and> positive_keys m"
  unfolding runtime_ok_def list_all_iff by (metis fst_conv map_of_SomeD snd_conv)

lemma ok_put_status:
  assumes ok: "runtime_ok s" and t: "0 < t" and m: "m \<noteq> []" "positive_keys m"
  shows "runtime_ok (s \<lparr>tr_status := map_set t m (tr_status s)\<rparr>)"
  using assms set_map_set [of t m "tr_status s"] by (auto simp: runtime_ok_def list_all_iff)

lemma map_set_nonempty [simp]: "map_set k v m \<noteq> []"
  by (cases m) (auto split: if_splits)

lemma record_refines:
  assumes ok: "runtime_ok s"
  shows "runtime_ok (recordTunnelRuntimeHostStatus t h b s) \<and>
    known_of (recordTunnelRuntimeHostStatus t h b s) = known_step (RecordStatus t h b) (known_of s)"
proof (cases "normalizeTunnelId t = 0 \<or> normalizeTunnelId h = 0")
  case True
  then show ?thesis using ok by (auto simp: recordTunnelRuntimeHostStatus_def Let_def)
next
  case False
  let ?t = "normalizeTunnelId t" and ?h = "normalizeTunnelId h"
  let ?m = "case map_get (tr_status s) ?t of None \<Rightarrow> [] | Some m \<Rightarrow> m"
  have "positive_keys ?m" using wf_runtimeD [OF ok] by (auto split: option.split)
  then have "runtime_ok (s \<lparr>tr_status := map_set ?t (map_set ?h b ?m) (tr_status s)\<rparr>)"
    using False by (intro ok_put_status [OF ok]) (auto simp: normalize_pos)
  moreover have "known_of (s \<lparr>tr_status := map_set ?t (map_set ?h b ?m) (tr_status s)\<rparr>) = known_step (RecordStatus t h b) (known_of s)"
    using False by (auto simp: known_of_def Let_def generation_of_def map_get_set fun_eq_iff split: option.split)
  ultimately show ?thesis using False by (simp add: recordTunnelRuntimeHostStatus_def Let_def)
qed

lemma bump_refines:
  assumes "runtime_ok s"
  shows "runtime_ok (snd (bumpTunnelRuntimeGeneration t s)) \<and>
    known_of (snd (bumpTunnelRuntimeGeneration t s)) = known_step (Bump t) (known_of s)"
  using assms by (auto simp: bumpTunnelRuntimeGeneration_def Let_def runtime_ok_def known_of_def generation_of_def map_get_set fun_eq_iff)

lemma clear_tunnel_refines:
  assumes "runtime_ok s"
  shows "runtime_ok (clearTunnelRuntimeStatus t s) \<and> known_of (clearTunnelRuntimeStatus t s) = known_step (ClearTunnel t) (known_of s)"
proof -
  have pos: "normalizeTunnelId t \<noteq> 0 \<Longrightarrow> 0 < normalizeTunnelId t" by (rule normalize_pos)
  show ?thesis
    using assms pos set_map_delete [of "normalizeTunnelId t" "tr_status s"]
    by (auto simp: clearTunnelRuntimeStatus_def bumpTunnelRuntimeGeneration_def Let_def runtime_ok_def list_all_iff known_of_def
        generation_of_def map_get_set map_get_delete fun_eq_iff)
qed

lemma map_of_dropped:
  "distinct (map fst xs) \<Longrightarrow> map_of (filter (\<lambda>p. snd p \<noteq> []) (map (\<lambda>p. (fst p, f (snd p))) xs)) k =
     (case map_of xs k of None \<Rightarrow> None | Some m \<Rightarrow> if f m = [] then None else Some (f m))"
proof (induction xs)
  case (Cons x xs)
  have "map_of xs (fst x) = None" using Cons.prems by (simp add: map_of_eq_None_iff)
  then show ?case using Cons by (cases "k = fst x") (simp_all split: option.split)
qed simp

lemma clear_host_refines:
  assumes ok: "runtime_ok s"
  shows "runtime_ok (snd (clearTunnelRuntimeStatusForHost h s)) \<and>
    known_of (snd (clearTunnelRuntimeStatusForHost h s)) = known_step (ClearHost h) (known_of s)"
proof (cases "normalizeTunnelId h = 0")
  case True
  then show ?thesis using ok by (simp add: clearTunnelRuntimeStatusForHost_def Let_def)
next
  case False
  let ?h = "normalizeTunnelId h"
  let ?affected = "map fst (filter (\<lambda>p. map_has (snd p) ?h) (tr_status s))"
  let ?left = "filter (\<lambda>p. snd p \<noteq> []) (map (\<lambda>p. (fst p, map_delete ?h (snd p))) (tr_status s))"
  let ?bump = "fold (\<lambda>t u. snd (bumpTunnelRuntimeGeneration (JNum (Fin t)) u)) ?affected (s \<lparr>tr_status := ?left\<rparr>)"
  have wf: "distinct (map fst (tr_status s))" and each: "\<And>p. p \<in> set (tr_status s) \<Longrightarrow> 0 < fst p \<and> snd p \<noteq> [] \<and> positive_keys (snd p)"
    using ok by (auto simp: runtime_ok_def wf_map_def list_all_iff)
  have dist: "distinct ?affected" "list_all (\<lambda>t. 0 < t) ?affected"
    using wf each by (auto simp: distinct_map_filter list_all_iff)
  note bumped = bump_all [OF dist, of "s \<lparr>tr_status := ?left\<rparr>"]
  have inside: "t \<in> set ?affected \<longleftrightarrow> (case map_get (tr_status s) t of None \<Rightarrow> False | Some m \<Rightarrow> map_has m ?h)" for t
  proof (cases "map_get (tr_status s) t")
    case None
    then have "t \<notin> fst ` set (tr_status s)" by (simp add: map_of_eq_None_iff)
    then have "t \<notin> set ?affected" by auto
    then show ?thesis using None by simp
  next
    case (Some m)
    have "map_get (tr_status s) (fst p) = Some (snd p)" if "p \<in> set (tr_status s)" for p using wf that by simp
    then show ?thesis using Some by (force dest: map_of_SomeD)
  qed
  have "runtime_ok ?bump"
    using bumped wf each
    by (auto simp: runtime_ok_def wf_map_def list_all_iff filter_map o_def distinct_map_filter)
  moreover have "known_of ?bump = known_step (ClearHost h) (known_of s)"
  proof -
    have "(case map_get ?left t of None \<Rightarrow> None | Some m \<Rightarrow> map_get m k) =
        (if k = ?h then None else case map_get (tr_status s) t of None \<Rightarrow> None | Some m \<Rightarrow> map_get m k)" for t k
    proof (cases "map_get (tr_status s) t")
      case (Some m)
      show ?thesis
      proof (cases "map_delete ?h m = []")
        case True
        then have "(if k = ?h then None else map_get m k) = None" unfolding map_get_delete [symmetric] by simp
        then show ?thesis using Some True wf by (simp add: map_of_dropped [OF wf] map_get_delete split: if_splits)
      qed (use Some in \<open>simp add: map_of_dropped [OF wf] map_get_delete\<close>)
    qed (simp add: map_of_dropped [OF wf])
    then have "kr_status (known_of ?bump) = kr_status (known_step (ClearHost h) (known_of s))"
      unfolding known_of_def bumped [THEN conjunct1] using False by (simp add: fun_eq_iff Let_def)
    moreover have "kr_generation (known_of ?bump) = kr_generation (known_step (ClearHost h) (known_of s))"
    proof
      fix t
      have "generation_of t ?bump = (if t \<in> set ?affected then next_generation (generation_of t s) else generation_of t s)"
        using bumped [THEN conjunct2] by (simp add: generation_of_def)
      then show "kr_generation (known_of ?bump) t = kr_generation (known_step (ClearHost h) (known_of s)) t"
        unfolding inside using False by (auto simp: known_of_def map_has_def Let_def split: option.splits)
    qed
    ultimately show ?thesis by simp
  qed
  ultimately show ?thesis using False by (simp add: clearTunnelRuntimeStatusForHost_def Let_def)
qed

lemma runtime_refines:
  "runtime_ok s \<Longrightarrow> runtime_ok (fold runtime_step ops s) \<and> known_of (fold runtime_step ops s) = fold known_step ops (known_of s)"
proof (induction ops arbitrary: s)
  case (Cons op ops)
  have "runtime_ok (runtime_step op s) \<and> known_of (runtime_step op s) = known_step op (known_of s)"
    by (cases op) (simp_all only: runtime_step.simps record_refines bump_refines clear_tunnel_refines clear_host_refines Cons.prems)
  then show ?case using Cons.IH [of "runtime_step op s"] by simp
qed simp

lemma host_status_known:
  assumes ok: "runtime_ok s"
  shows "getTunnelRuntimeHostStatus t h s = kr_status (known_of s) (normalizeTunnelId t) (normalizeTunnelId h)"
proof -
  have t0: "map_get (tr_status s) q = None" if "q \<le> 0" for q
    using wf_runtimeD [OF ok, of q] that by (cases "map_get (tr_status s) q") auto
  have h0: "map_get m q = None" if "map_get (tr_status s) k = Some m" "q \<le> 0" for k m q
  proof (rule ccontr)
    assume "map_get m q \<noteq> None"
    then have "(q, the (map_get m q)) \<in> set m" by (auto dest: map_of_SomeD)
    then show False using wf_runtimeD [OF ok that(1)] that(2) unfolding positive_keys_def list_all_iff by fastforce
  qed
  have n: "(\<exists>q. js_finite (to_number v) = Some q \<and> 0 < q \<and> normalizeTunnelId v = q) \<or>
      normalizeTunnelId v = 0 \<and> (js_finite (to_number v) = None \<or> (\<exists>q \<le> 0. js_finite (to_number v) = Some q))" for v
    by (auto simp: normalizeTunnelId_def not_less split: option.split)
  show ?thesis
    using n [of t] n [of h] t0 h0
    by (fastforce simp: getTunnelRuntimeHostStatus_def get_at_def known_of_def split: option.split)
qed

text \<open>
  C33: Whatever is reported and cleared, a host's status in a tunnel is what was last reported of it
  since it, or the tunnel, was cleared, and the generation of a tunnel moves on exactly when it is
  asked to, when the tunnel is cleared, or when the clearing of a host dropped a status of it. No
  tunnel is kept without hosts.
\<close>

theorem tunnel_runtime_refines:
  "let s = fold runtime_step ops no_tunnels; k = fold known_step ops nothing_known in
     getTunnelRuntimeHostStatus t h s = kr_status k (normalizeTunnelId t) (normalizeTunnelId h) \<and>
     getTunnelRuntimeGeneration t s = (if normalizeTunnelId t = 0 then 0 else kr_generation k (normalizeTunnelId t)) \<and>
     list_all (\<lambda>p. snd p \<noteq> []) (tr_status s)"
proof -
  have start: "runtime_ok no_tunnels" "known_of no_tunnels = nothing_known"
    by (simp_all add: runtime_ok_def no_tunnels_def known_of_def nothing_known_def generation_of_def)
  have run: "runtime_ok (fold runtime_step ops no_tunnels)"
    "known_of (fold runtime_step ops no_tunnels) = fold known_step ops nothing_known"
    using runtime_refines [OF start(1), of ops] start(2) by simp_all
  have "kr_generation (known_of s) q = generation_of q s" for s q by (simp add: known_of_def)
  then show ?thesis
    unfolding Let_def host_status_known [OF run(1)] run(2) [symmetric]
    using run(1) by (auto simp: getTunnelRuntimeGeneration_def Let_def runtime_ok_def list_all_iff)
qed

section \<open>Families of runtimes\<close>

datatype runtime_family = ForwardX | Gost | Nginx

datatype runtime_type = ForwardXTunnel | GostTunnel | NginxTunnelExit | ForwardXRule | GostRule | NginxTunnelRule

definition gost_modes :: "string list" where
  "gost_modes = [''tls'', ''wss'', ''tcp'', ''mtls'', ''mwss'', ''mtcp'']"

definition mode_text :: "jsval \<Rightarrow> string" where
  "mode_text mode = js_lower (js_trim (js_text mode))"

definition gostTunnelTransportType :: "jsval \<Rightarrow> string" where
  "gostTunnelTransportType mode = (if mode_text mode \<in> set gost_modes then mode_text mode else ''tls'')"

definition tunnelRuntimeFamily :: "jsval \<Rightarrow> runtime_family option" where
  "tunnelRuntimeFamily mode =
     (let m = mode_text mode in
      if m = ''forwardx'' then Some ForwardX else if m = ''nginx_stream'' then Some Nginx
      else if m \<in> set gost_modes then Some Gost else None)"

definition tunnelExitRuntimeForwardType :: "jsval \<Rightarrow> runtime_type option" where
  "tunnelExitRuntimeForwardType mode =
     (case tunnelRuntimeFamily mode of
        Some ForwardX \<Rightarrow> Some ForwardXTunnel | Some Nginx \<Rightarrow> Some NginxTunnelExit | Some Gost \<Rightarrow> Some GostTunnel | None \<Rightarrow> None)"

definition tunnelHopRuntimeForwardType :: "jsval \<Rightarrow> runtime_type option" where
  "tunnelHopRuntimeForwardType mode =
     (case tunnelRuntimeFamily mode of
        Some Nginx \<Rightarrow> None | Some ForwardX \<Rightarrow> Some ForwardXTunnel | Some Gost \<Rightarrow> Some GostTunnel | None \<Rightarrow> None)"

definition tunnelRuleRuntimeForwardType :: "jsval \<Rightarrow> runtime_type option" where
  "tunnelRuleRuntimeForwardType mode =
     (case tunnelRuntimeFamily mode of
        Some ForwardX \<Rightarrow> Some ForwardXRule | Some Nginx \<Rightarrow> Some NginxTunnelRule | Some Gost \<Rightarrow> Some GostRule | None \<Rightarrow> None)"

record local_runtime =
  lr_tunnelId :: jsval
  lr_port :: jsval
  lr_forwardType :: jsval
  lr_transportVersion :: jsval
  lr_ready :: jsval

definition positive_num :: "jsnum \<Rightarrow> bool" where
  "positive_num n \<longleftrightarrow> js_lt (Fin 0) n"

definition isPassiveForwardXFirstHopMarker :: "jsval \<Rightarrow> jsval \<Rightarrow> jsval \<Rightarrow> local_runtime option \<Rightarrow> bool" where
  "isPassiveForwardXFirstHopMarker isFirstHop tunnelId port local_info =
     (js_truthy isFirstHop \<and> positive_num (number_of_or_0 tunnelId) \<and> positive_num (number_of_or_0 port) \<and>
      (case local_info of
         None \<Rightarrow> False
       | Some l \<Rightarrow> number_of_or_0 (lr_tunnelId l) = number_of_or_0 tunnelId \<and> number_of_or_0 (lr_port l) = number_of_or_0 port \<and>
           mode_text (lr_forwardType l) = ''forwardx-tunnel'' \<and> lr_ready l = JBool False \<and> mode_text (lr_transportVersion l) = []))"

datatype refresh_mode = NoRefresh | Coordinated | Endpoint

text \<open>\<open>x === true || Number(x) === 1\<close>.\<close>

definition is_one :: "jsval \<Rightarrow> bool" where
  "is_one v \<longleftrightarrow> v = JBool True \<or> to_number v = Fin 1"

text \<open>\<open>Math.max(0, Math.floor(Number(value) || 0)) >= n\<close> for a positive \<open>n\<close>.\<close>

definition count_at_least :: "int \<Rightarrow> jsval \<Rightarrow> bool" where
  "count_at_least n value = (case number_or_0 value of Fin q \<Rightarrow> \<lfloor>q\<rfloor> \<ge> n | PosInf \<Rightarrow> True | _ \<Rightarrow> False)"

definition planManualTunnelTestRefresh :: "jsval \<Rightarrow> jsval \<Rightarrow> jsval \<Rightarrow> jsval \<Rightarrow> refresh_mode" where
  "planManualTunnelTestRefresh isRunning hopHostCount loadBalanceEnabled extraExitCount =
     (if is_one isRunning then NoRefresh
      else if count_at_least 3 hopHostCount \<or> is_one loadBalanceEnabled \<and> count_at_least 1 extraExitCount then Coordinated
      else Endpoint)"

record reconcile_input =
  rc_configChanged :: bool
  rc_serviceUnhealthy :: bool
  rc_bootstrap :: bool
  rc_desiredRelevant :: bool
  rc_reportedHasWork :: bool

definition shouldReconcileSharedRuntime :: "reconcile_input \<Rightarrow> bool" where
  "shouldReconcileSharedRuntime i \<longleftrightarrow>
     rc_configChanged i \<or> rc_serviceUnhealthy i \<or> rc_bootstrap i \<or> rc_desiredRelevant i \<or> rc_reportedHasWork i"

section \<open>Capabilities\<close>

definition hostSupportsForwardXV3Runtime :: "jsval list option \<Rightarrow> bool" where
  "hostSupportsForwardXV3Runtime capabilities \<longleftrightarrow>
     (case capabilities of None \<Rightarrow> False | Some cs \<Rightarrow> list_ex (\<lambda>c. mode_text c = ''forwardx.v3'') cs)"

record v3_plan =
  vp_supported :: bool
  vp_required :: "int list"
  vp_unsupported :: "int list"

definition floor_id :: "jsval \<Rightarrow> int option" where
  "floor_id v = (case js_finite (to_number v) of None \<Rightarrow> None | Some q \<Rightarrow> if 0 < \<lfloor>q\<rfloor> then Some \<lfloor>q\<rfloor> else None)"

definition planForwardXV3Capability :: "jsval list \<Rightarrow> (int, jsval list) jsmap \<Rightarrow> v3_plan" where
  "planForwardXV3Capability requiredHostIds capabilities =
     (let required = sort (remdups (List.map_filter floor_id requiredHostIds));
          unsupported = filter (\<lambda>h. \<not> hostSupportsForwardXV3Runtime (map_get capabilities h)) required
      in \<lparr>vp_supported = (required \<noteq> [] \<and> unsupported = []), vp_required = required, vp_unsupported = unsupported\<rparr>)"

section \<open>Probe listeners\<close>

record probe_tunnel =
  pt_id :: jsval
  pt_mode :: jsval
  pt_isEnabled :: jsval
  pt_protocolEnabled :: jsval
  pt_exitHostId :: jsval
  pt_listenPort :: jsval
  pt_loadBalanceEnabled :: jsval
  pt_loadBalanceStrategy :: jsval

record probe_exit =
  px_id :: jsval
  px_seq :: jsval
  px_hostId :: jsval
  px_listenPort :: jsval
  px_isEnabled :: jsval

record probe_listener =
  pl_tunnelId :: rat
  pl_mode :: string
  pl_listenPort :: int
  pl_name :: string

definition number_text :: "jsnum \<Rightarrow> string" where
  "number_text n = js_string (JNum n)"

definition listen_key :: "rat \<Rightarrow> int \<Rightarrow> string" where
  "listen_key hostId port = number_text (Fin hostId) @ '':'' @ int_str port"

definition probe_port :: "jsnum \<Rightarrow> int option" where
  "probe_port n = (case js_integer n of None \<Rightarrow> None | Some p \<Rightarrow> if 0 < p \<and> p \<le> 65535 then Some p else None)"

text \<open>What the loop keeps: the keys that were planned and the listeners.\<close>

type_synonym probe_plan = "string list \<times> probe_listener list"

definition listener_mode :: "jsval \<Rightarrow> string" where
  "listener_mode mode =
     (let m = js_lower (js_trim (if js_truthy mode then js_string mode else ''tls'')) in if m = [] then ''tls'' else m)"

definition addListener :: "rat \<Rightarrow> string list \<Rightarrow> probe_tunnel \<Rightarrow> jsnum \<times> string \<Rightarrow> probe_plan \<Rightarrow> probe_plan" where
  "addListener hostId business t target acc =
     (case probe_port (fst target) of
        None \<Rightarrow> acc
      | Some p \<Rightarrow>
          if normalizeTunnelId (pt_id t) = 0 \<or> listen_key hostId p \<in> set business \<or> listen_key hostId p \<in> set (fst acc) then acc
          else (fst acc @ [listen_key hostId p],
                snd acc @ [\<lparr>pl_tunnelId = normalizeTunnelId (pt_id t), pl_mode = listener_mode (pt_mode t), pl_listenPort = p,
                            pl_name = snd target\<rparr>]))"

definition js_or :: "jsnum \<Rightarrow> jsnum \<Rightarrow> jsnum" where
  "js_or a b = (if a = NaN \<or> a = Fin 0 then b else a)"

definition tunnel_name :: "rat \<Rightarrow> string" where
  "tunnel_name tunnelId = ''fwx-tunnel-probe-'' @ number_text (Fin tunnelId)"

definition exit_name :: "rat \<Rightarrow> probe_exit \<Rightarrow> string" where
  "exit_name tunnelId e =
     tunnel_name tunnelId @ ''-exit-'' @
       number_text (js_or (to_number (px_id e)) (js_or (to_number (px_seq e)) (to_number (px_listenPort e))))"

definition exit_on_host :: "rat \<Rightarrow> probe_exit \<Rightarrow> bool" where
  "exit_on_host hostId e \<longleftrightarrow> px_isEnabled e \<noteq> JBool False \<and> to_number (px_isEnabled e) \<noteq> Fin 0 \<and> to_number (px_hostId e) = Fin hostId"

text \<open>The ports and names that a tunnel offers on the host, in the order of the loop's body.\<close>

definition tunnel_targets :: "rat \<Rightarrow> (rat, probe_exit list) jsmap \<Rightarrow> probe_tunnel \<Rightarrow> (jsnum \<times> string) list" where
  "tunnel_targets hostId exits t =
     (let tunnelId = normalizeTunnelId (pt_id t) in
      if \<not> is_one (pt_isEnabled t) \<or> \<not> is_one (pt_protocolEnabled t) \<or> tunnelRuntimeFamily (pt_mode t) \<noteq> Some Gost \<or> tunnelId = 0
      then []
      else
        (if to_number (pt_exitHostId t) = Fin hostId then [(to_number (pt_listenPort t), tunnel_name tunnelId)] else []) @
        (if \<not> is_one (pt_loadBalanceEnabled t) \<or> \<not> exitGroupUsesMultipleExits (pt_loadBalanceStrategy t) then []
         else map (\<lambda>e. (to_number (px_listenPort e), exit_name tunnelId e))
           (filter (exit_on_host hostId) (case map_get exits tunnelId of None \<Rightarrow> [] | Some es \<Rightarrow> es))))"

definition plan_tunnel ::
    "rat \<Rightarrow> (rat, probe_exit list) jsmap \<Rightarrow> string list \<Rightarrow> probe_tunnel \<Rightarrow> probe_plan \<Rightarrow> probe_plan" where
  "plan_tunnel hostId exits business t acc = fold (addListener hostId business t) (tunnel_targets hostId exits t) acc"

definition planGostTunnelProbeListeners ::
    "jsval \<Rightarrow> probe_tunnel list \<Rightarrow> (rat, probe_exit list) jsmap \<Rightarrow> string list \<Rightarrow> probe_listener list" where
  "planGostTunnelProbeListeners hostIdValue tunnels exits business =
     (let hostId = normalizeTunnelId hostIdValue in
      if hostId = 0 then [] else snd (fold (plan_tunnel hostId exits business) tunnels ([], [])))"

text \<open>The ports that a tunnel offers.\<close>

definition tunnel_ports :: "rat \<Rightarrow> (rat, probe_exit list) jsmap \<Rightarrow> probe_tunnel \<Rightarrow> int list" where
  "tunnel_ports hostId exits t = List.map_filter (\<lambda>target. probe_port (fst target)) (tunnel_targets hostId exits t)"

lemma listen_key_inj: "0 < p \<Longrightarrow> 0 < q \<Longrightarrow> listen_key h p = listen_key h q \<longleftrightarrow> p = q"
  using nat_str_inj [of "nat p" "nat q"] by (simp add: listen_key_def int_str_def eq_nat_nat_iff)

text \<open>
  Where a tunnel ends, said of its row and the exits of its group alone: the tunnel and its protocol are
  switched on, its transport is one of the six of GOST, its identifier is positive, and the port is
  valid and is the one it listens on at its exit host, or, when it balances its load over several
  exits, the one of an exit that is not switched off.
\<close>

definition ends_at :: "rat \<Rightarrow> (rat, probe_exit list) jsmap \<Rightarrow> probe_tunnel \<Rightarrow> int \<Rightarrow> bool" where
  "ends_at host exits t p \<longleftrightarrow>
     (pt_isEnabled t = JBool True \<or> to_number (pt_isEnabled t) = Fin 1) \<and>
     (pt_protocolEnabled t = JBool True \<or> to_number (pt_protocolEnabled t) = Fin 1) \<and>
     js_lower (js_trim (js_text (pt_mode t))) \<in> {''tls'', ''wss'', ''tcp'', ''mtls'', ''mwss'', ''mtcp''} \<and>
     0 < p \<and> p \<le> 65535 \<and>
     (\<exists>tunnelId > 0. to_number (pt_id t) = Fin tunnelId \<and>
        (to_number (pt_exitHostId t) = Fin host \<and> to_number (pt_listenPort t) = num p \<or>
         (pt_loadBalanceEnabled t = JBool True \<or> to_number (pt_loadBalanceEnabled t) = Fin 1) \<and>
         js_lower (js_trim (js_text (pt_loadBalanceStrategy t))) \<noteq> ''none'' \<and>
         (\<exists>es. map_get exits tunnelId = Some es \<and>
            (\<exists>e \<in> set es. px_isEnabled e \<noteq> JBool False \<and> to_number (px_isEnabled e) \<noteq> Fin 0 \<and>
               to_number (px_hostId e) = Fin host \<and> to_number (px_listenPort e) = num p))))"

lemma probe_port_iff: "probe_port n = Some p \<longleftrightarrow> n = num p \<and> 0 < p \<and> p \<le> 65535"
  by (auto simp: probe_port_def js_integer_iff split: option.splits)

lemma normalize_id_iff: "normalizeTunnelId v = q \<and> q \<noteq> 0 \<longleftrightarrow> to_number v = Fin q \<and> 0 < q"
  by (cases "to_number v") (auto simp: normalizeTunnelId_def)

lemma tunnel_targets_iff:
  "(\<exists>name. (n, name) \<in> set (tunnel_targets h exits t)) \<longleftrightarrow>
     is_one (pt_isEnabled t) \<and> is_one (pt_protocolEnabled t) \<and> mode_text (pt_mode t) \<in> set gost_modes \<and>
     (\<exists>tunnelId > 0. to_number (pt_id t) = Fin tunnelId \<and>
        (to_number (pt_exitHostId t) = Fin h \<and> to_number (pt_listenPort t) = n \<or>
         is_one (pt_loadBalanceEnabled t) \<and> exitGroupUsesMultipleExits (pt_loadBalanceStrategy t) \<and>
         (\<exists>es. map_get exits tunnelId = Some es \<and> (\<exists>e \<in> set es. exit_on_host h e \<and> to_number (px_listenPort e) = n))))"
proof -
  have gost: "tunnelRuntimeFamily (pt_mode t) = Some Gost \<longleftrightarrow> mode_text (pt_mode t) \<in> set gost_modes"
    by (auto simp: tunnelRuntimeFamily_def Let_def gost_modes_def)
  show ?thesis
  proof (cases "normalizeTunnelId (pt_id t) = 0")
    case True
    then have "\<nexists>q. to_number (pt_id t) = Fin q \<and> 0 < q" using normalize_id_iff [of "pt_id t"] by auto
    then show ?thesis using True by (auto simp: tunnel_targets_def)
  next
    case False
    then have id: "to_number (pt_id t) = Fin (normalizeTunnelId (pt_id t))" "0 < normalizeTunnelId (pt_id t)"
      using normalize_id_iff [of "pt_id t"] by auto
    show ?thesis
      using False id unfolding tunnel_targets_def Let_def gost
      by (cases "map_get exits (normalizeTunnelId (pt_id t))") auto
  qed
qed

lemma in_map_filter: "y \<in> set (List.map_filter f xs) \<longleftrightarrow> (\<exists>x \<in> set xs. f x = Some y)"
  by (induction xs) (auto simp: map_filter_simps split: option.split)

lemma tunnel_ports_ends_at: "p \<in> set (tunnel_ports h exits t) \<longleftrightarrow> ends_at h exits t p"
proof -
  have "p \<in> set (tunnel_ports h exits t) \<longleftrightarrow> (\<exists>name. (num p, name) \<in> set (tunnel_targets h exits t)) \<and> 0 < p \<and> p \<le> 65535"
    by (force simp: tunnel_ports_def in_map_filter probe_port_iff)
  moreover have "x \<in> set gost_modes \<longleftrightarrow> x \<in> {''tls'', ''wss'', ''tcp'', ''mtls'', ''mwss'', ''mtcp''}" for x
    by (simp add: gost_modes_def)
  moreover have "exitGroupUsesMultipleExits v \<longleftrightarrow> js_lower (js_trim (js_text v)) \<noteq> ''none''" for v
    by (simp add: exitGroupUsesMultipleExits_def normalizeExitGroupStrategy_def Let_def)
  ultimately show ?thesis
    unfolding tunnel_targets_iff ends_at_def is_one_def mode_text_def exit_on_host_def by (simp only: conj_assoc) argo
qed

text \<open>A plan covers the free ones of the ports offered so far, each once and by a tunnel that offers it.\<close>

definition offers :: "rat \<Rightarrow> (rat, probe_exit list) jsmap \<Rightarrow> probe_tunnel list \<Rightarrow> probe_listener \<Rightarrow> bool" where
  "offers hostId exits tunnels l \<longleftrightarrow>
     list_ex (\<lambda>t. to_number (pt_id t) = Fin (pl_tunnelId l) \<and> ends_at hostId exits t (pl_listenPort l) \<and>
       pl_mode l = js_lower (js_trim (js_text (pt_mode t)))) tunnels"

lemma listener_mode_gost: "mode_text mode \<in> set gost_modes \<Longrightarrow> listener_mode mode = mode_text mode"
proof (cases "js_truthy mode")
  case True
  assume "mode_text mode \<in> set gost_modes"
  then have "mode_text mode \<noteq> []" by (auto simp: gost_modes_def)
  then show ?thesis using True by (simp add: listener_mode_def mode_text_def js_text_def Let_def)
next
  case False
  then have "mode_text mode = []" by (simp add: mode_text_def js_text_def js_trim_def js_lower_def)
  moreover assume "mode_text mode \<in> set gost_modes"
  ultimately show ?thesis by (simp add: gost_modes_def)
qed

definition plan_ok :: "rat \<Rightarrow> string list \<Rightarrow> (probe_listener \<Rightarrow> bool) \<Rightarrow> int set \<Rightarrow> probe_plan \<Rightarrow> bool" where
  "plan_ok h business origin ports acc \<longleftrightarrow>
     fst acc = map (\<lambda>l. listen_key h (pl_listenPort l)) (snd acc) \<and> distinct (map pl_listenPort (snd acc)) \<and>
     list_all (\<lambda>l. 0 < pl_listenPort l \<and> pl_listenPort l \<le> 65535 \<and> origin l) (snd acc) \<and>
     pl_listenPort ` set (snd acc) = {p \<in> ports. listen_key h p \<notin> set business}"

lemma addListener_ok:
  assumes ok: "plan_ok h business origin ports acc" and id: "normalizeTunnelId (pt_id t) \<noteq> 0"
    and origin: "\<And>l p. probe_port (fst target) = Some p \<Longrightarrow> pl_tunnelId l = normalizeTunnelId (pt_id t) \<Longrightarrow>
      pl_listenPort l = p \<Longrightarrow> pl_mode l = listener_mode (pt_mode t) \<Longrightarrow> origin l"
  shows "plan_ok h business origin (ports \<union> set_option (probe_port (fst target))) (addListener h business t target acc)"
proof (cases "probe_port (fst target)")
  case None
  then show ?thesis using ok by (simp add: addListener_def)
next
  case (Some p)
  then have p: "0 < p \<and> p \<le> 65535" by (auto simp: probe_port_def split: option.splits if_splits)
  have known: "listen_key h p \<in> set (fst acc) \<longleftrightarrow> p \<in> pl_listenPort ` set (snd acc)"
  proof -
    have keys: "set (fst acc) = listen_key h ` pl_listenPort ` set (snd acc)"
      using ok unfolding plan_ok_def image_image by (metis set_map)
    have "0 < q" if "q \<in> pl_listenPort ` set (snd acc)" for q
      using ok imageE [OF that] unfolding plan_ok_def list_all_iff by metis
    then show ?thesis unfolding keys using p listen_key_inj [of p _ h] by blast
  qed
  show ?thesis
  proof (cases "listen_key h p \<in> set business \<or> listen_key h p \<in> set (fst acc)")
    case True
    then have "{q \<in> ports. listen_key h q \<notin> set business} = {q \<in> insert p ports. listen_key h q \<notin> set business}"
      using known ok by (auto simp: plan_ok_def)
    then show ?thesis using ok True Some by (simp add: plan_ok_def addListener_def)
  next
    case False
    let ?l = "\<lparr>pl_tunnelId = normalizeTunnelId (pt_id t), pl_mode = listener_mode (pt_mode t), pl_listenPort = p, pl_name = snd target\<rparr>"
    have "origin ?l" using origin Some by simp
    moreover have "insert p {q \<in> ports. listen_key h q \<notin> set business} = {q \<in> insert p ports. listen_key h q \<notin> set business}"
      using False by auto
    ultimately show ?thesis
      using ok False Some id p known by (simp add: plan_ok_def addListener_def)
  qed
qed

lemma targets_ok:
  assumes "plan_ok h business origin ports acc" "normalizeTunnelId (pt_id t) \<noteq> 0"
    and "\<And>target l p. target \<in> set targets \<Longrightarrow> probe_port (fst target) = Some p \<Longrightarrow> pl_tunnelId l = normalizeTunnelId (pt_id t) \<Longrightarrow>
      pl_listenPort l = p \<Longrightarrow> pl_mode l = listener_mode (pt_mode t) \<Longrightarrow> origin l"
  shows "plan_ok h business origin (ports \<union> set (List.map_filter (\<lambda>target. probe_port (fst target)) targets))
    (fold (addListener h business t) targets acc)"
  using assms
proof (induction targets arbitrary: acc ports)
  case (Cons target targets)
  have "plan_ok h business origin (ports \<union> set_option (probe_port (fst target))) (addListener h business t target acc)"
    by (rule addListener_ok [OF Cons.prems(1,2)]) (rule Cons.prems(3) [of target], simp_all)
  then have "plan_ok h business origin
      (ports \<union> set_option (probe_port (fst target)) \<union> set (List.map_filter (\<lambda>target. probe_port (fst target)) targets))
      (fold (addListener h business t) targets (addListener h business t target acc))"
    by (rule Cons.IH [OF _ Cons.prems(2)]) (rule Cons.prems(3), simp_all)
  then show ?case by (cases "probe_port (fst target)") (simp_all add: map_filter_simps)
qed simp

lemma target_tunnel_id: "tunnel_targets h exits t \<noteq> [] \<Longrightarrow> normalizeTunnelId (pt_id t) \<noteq> 0"
  by (simp add: tunnel_targets_def Let_def split: if_splits)

lemma plan_tunnel_ok:
  assumes ok: "plan_ok h business (offers h exits tunnels) ports acc" and t: "t \<in> set tunnels"
  shows "plan_ok h business (offers h exits tunnels) (ports \<union> set (tunnel_ports h exits t)) (plan_tunnel h exits business t acc)"
proof (cases "tunnel_targets h exits t = []")
  case True
  then show ?thesis using ok by (simp add: plan_tunnel_def tunnel_ports_def map_filter_simps)
next
  case False
  show ?thesis unfolding plan_tunnel_def tunnel_ports_def
  proof (rule targets_ok [OF ok target_tunnel_id [OF False]])
    fix target p and l :: probe_listener
    assume "target \<in> set (tunnel_targets h exits t)" "probe_port (fst target) = Some p"
      and l: "pl_tunnelId l = normalizeTunnelId (pt_id t)" "pl_listenPort l = p" "pl_mode l = listener_mode (pt_mode t)"
    then have ends: "ends_at h exits t (pl_listenPort l)"
      by (force simp: tunnel_ports_def in_map_filter simp flip: tunnel_ports_ends_at)
    then have "mode_text (pt_mode t) \<in> set gost_modes" by (simp add: ends_at_def mode_text_def gost_modes_def)
    from listener_mode_gost [OF this] have "pl_mode l = js_lower (js_trim (js_text (pt_mode t)))" using l by (simp add: mode_text_def)
    moreover have "to_number (pt_id t) = Fin (pl_tunnelId l)"
      using l target_tunnel_id [OF False] normalize_id_iff [of "pt_id t"] by auto
    ultimately show "offers h exits tunnels l" using t ends by (auto simp: offers_def list_ex_iff)
  qed
qed

lemma plan_tunnels_ok:
  assumes "plan_ok h business (offers h exits tunnels) ports acc" "set ts \<subseteq> set tunnels"
  shows "plan_ok h business (offers h exits tunnels) (ports \<union> set (concat (map (tunnel_ports h exits) ts)))
    (fold (plan_tunnel h exits business) ts acc)"
  using assms
proof (induction ts arbitrary: acc ports)
  case (Cons t ts)
  then show ?case using plan_tunnel_ok [of h business exits tunnels ports acc t] Cons.IH [of "ports \<union> set (tunnel_ports h exits t)"]
    by (simp add: Un_assoc)
qed simp

text \<open>
  C37: The probe listeners planned for a host are on distinct ports, exactly those that some tunnel ends on
  at the host and that no rule of the host listens on: a tunnel that is switched on with its
  protocol, has a transport of GOST and a positive identifier, and has its exit on this host at this
  valid port, or balances its load over several exits of which one that is not switched off is
  there. Each listener is for such a tunnel, with its identifier and its transport; for anything
  but a positive finite host there is none.
\<close>

theorem probe_listeners_exact:
  "let ls = planGostTunnelProbeListeners hostId tunnels exits business
   in distinct (map pl_listenPort ls) \<and>
      pl_listenPort ` set ls =
        {p. \<exists>h > 0. to_number hostId = Fin h \<and> list_ex (\<lambda>t. ends_at h exits t p) tunnels \<and> listen_key h p \<notin> set business} \<and>
      list_all (\<lambda>l. \<exists>h t. to_number hostId = Fin h \<and> t \<in> set tunnels \<and> ends_at h exits t (pl_listenPort l) \<and>
        to_number (pt_id t) = Fin (pl_tunnelId l) \<and> pl_mode l = js_lower (js_trim (js_text (pt_mode t)))) ls"
proof (cases "normalizeTunnelId hostId = 0")
  case True
  then have "\<nexists>h. 0 < h \<and> to_number hostId = Fin h" using normalize_id_iff [of hostId] by auto
  then show ?thesis using True by (auto simp: planGostTunnelProbeListeners_def)
next
  case False
  let ?h = "normalizeTunnelId hostId"
  have h: "to_number hostId = Fin ?h" "0 < ?h" using False normalize_id_iff [of hostId] by auto
  have "plan_ok ?h business (offers ?h exits tunnels) {} ([], [])" by (simp add: plan_ok_def)
  from plan_tunnels_ok [OF this subset_refl, unfolded plan_ok_def]
  have plan: "distinct (map pl_listenPort (planGostTunnelProbeListeners hostId tunnels exits business))"
      "pl_listenPort ` set (planGostTunnelProbeListeners hostId tunnels exits business) =
        {p \<in> set (concat (map (tunnel_ports ?h exits) tunnels)). listen_key ?h p \<notin> set business}"
      "list_all (offers ?h exits tunnels) (planGostTunnelProbeListeners hostId tunnels exits business)"
    using False by (simp_all add: planGostTunnelProbeListeners_def Let_def list_all_iff)
  have "pl_listenPort ` set (planGostTunnelProbeListeners hostId tunnels exits business) =
      {p. \<exists>h > 0. to_number hostId = Fin h \<and> list_ex (\<lambda>t. ends_at h exits t p) tunnels \<and> listen_key h p \<notin> set business}"
    unfolding plan(2) using h by (auto simp: tunnel_ports_ends_at list_ex_iff)
  moreover have "list_all (\<lambda>l. \<exists>h t. to_number hostId = Fin h \<and> t \<in> set tunnels \<and> ends_at h exits t (pl_listenPort l) \<and>
        to_number (pt_id t) = Fin (pl_tunnelId l) \<and> pl_mode l = js_lower (js_trim (js_text (pt_mode t))))
      (planGostTunnelProbeListeners hostId tunnels exits business)"
    using plan(3) h(1) by (fastforce simp: offers_def list_all_iff list_ex_iff)
  ultimately show ?thesis using plan(1) unfolding Let_def by blast
qed

end
