(* ===== verification/Rule_Latency.thy ===== *)
theory Rule_Latency
  imports Forward_Types
begin

text \<open>
  \<open>server/ruleLatency.ts\<close> and the methods of \<open>shared/latencyProbe.ts\<close>: the latency of a rule that goes
  through a tunnel is measured by the tunnel's exit host and added to the tunnel's own. What
  \<open>Date.parse\<close> makes of a text is the parameter \<open>parse_date\<close>; times are milliseconds.
\<close>

section \<open>Values\<close>

definition TUNNEL_RULE_LATENCY_FRESH_MS :: rat where "TUNNEL_RULE_LATENCY_FRESH_MS = 5 * 60 * 1000"
definition TUNNEL_RULE_LATENCY_CLOCK_SKEW_MS :: rat where "TUNNEL_RULE_LATENCY_CLOCK_SKEW_MS = 60 * 1000"
definition TUNNEL_RULE_LATENCY_UPDATE_GRACE_MS :: rat where "TUNNEL_RULE_LATENCY_UPDATE_GRACE_MS = 1000"

text \<open>A time is a date (\<open>NaN\<close> when it is invalid) or another value.\<close>

datatype epoch_value = DateAt jsnum | ValueAt jsval

definition strip_one_bracket :: "string \<Rightarrow> string" where
  "strip_one_bracket s =
     (let t = (if s \<noteq> [] \<and> hd s = CHR ''['' then tl s else s)
      in if t \<noteq> [] \<and> last t = CHR '']'' then butlast t else t)"

definition normalizedTarget :: "jsval \<Rightarrow> string" where
  "normalizedTarget value = js_lower (strip_one_bracket (js_trim (js_text value)))"

definition validId :: "jsval \<Rightarrow> int" where
  "validId value = (case positive_int (to_number (if js_truthy value then value else JNum (Fin 0))) of None \<Rightarrow> 0 | Some i \<Rightarrow> i)"

definition validPort :: "jsval \<Rightarrow> int" where
  "validPort value = (let p = validId value in if p \<le> 65535 then p else 0)"

definition validLatency :: "jsval \<Rightarrow> rat option" where
  "validLatency value =
     (case value of
        JNull \<Rightarrow> None | JUndef \<Rightarrow> None | JBool b \<Rightarrow> None
      | JStr s \<Rightarrow> (if js_trim s = [] then None else case js_finite (string_number s) of Some q \<Rightarrow> if 0 \<le> q then Some q else None | None \<Rightarrow> None)
      | JNum n \<Rightarrow> (case js_finite n of Some q \<Rightarrow> if 0 \<le> q then Some q else None | None \<Rightarrow> None))"

text \<open>Seconds are made milliseconds.\<close>

definition as_millis :: "rat \<Rightarrow> rat" where
  "as_millis q = (if q < 1000000000000 then q * 1000 else q)"

definition finite_or_0 :: "jsnum \<Rightarrow> rat" where
  "finite_or_0 n = (case js_finite n of None \<Rightarrow> 0 | Some q \<Rightarrow> q)"

definition epochMs :: "(string \<Rightarrow> jsnum) \<Rightarrow> epoch_value \<Rightarrow> rat" where
  "epochMs parse_date value =
     (case value of
        DateAt t \<Rightarrow> finite_or_0 t
      | ValueAt v \<Rightarrow>
          (case v of
             JUndef \<Rightarrow> 0 | JNull \<Rightarrow> 0
           | JNum n \<Rightarrow> (case js_finite n of None \<Rightarrow> 0 | Some q \<Rightarrow> if q \<le> 0 then 0 else as_millis q)
           | _ \<Rightarrow>
               (let text = js_trim (js_string v) in
                if text = [] then 0
                else case js_finite (string_number text) of
                  Some q \<Rightarrow> if q > 0 then as_millis q else finite_or_0 (parse_date text)
                | None \<Rightarrow> finite_or_0 (parse_date text))))"

section \<open>Rules and tunnels\<close>

record latency_rule =
  lu_id :: jsval
  lu_tunnelId :: jsval
  lu_targetIp :: jsval
  lu_targetPort :: jsval
  lu_protocol :: jsval
  lu_isEnabled :: jsval
  lu_pendingDelete :: jsval

record latency_tunnel =
  lt_id :: jsval
  lt_exitHostId :: jsval
  lt_isEnabled :: jsval
  lt_lastTestStatus :: jsval
  lt_updatedAt :: epoch_value
  lt_lastTestAt :: epoch_value

record latency_sample =
  ls_isTimeout :: jsval
  ls_latencyMs :: jsval
  ls_recordedAt :: epoch_value

record latency_report =
  lp_targetPort :: jsval
  lp_method :: jsval
  lp_topologyKey :: jsval

record rule_probe =
  rp_ruleId :: int
  rp_tunnelId :: int
  rp_targetIp :: string
  rp_targetPort :: int
  rp_method :: string
  rp_probeKey :: string
  rp_topologyKey :: string

definition isUdpOnlyProtocol :: "jsval \<Rightarrow> bool" where
  "isUdpOnlyProtocol protocol \<longleftrightarrow> normalizeForwardRuleProtocol protocol TCP = UDP"

definition ruleLatencyProbeMethodForProtocol :: "jsval \<Rightarrow> string" where
  "ruleLatencyProbeMethodForProtocol protocol = (if isUdpOnlyProtocol protocol then ''ping'' else ''tcping'')"

definition linkProbeMethodForProtocol :: "jsval \<Rightarrow> string" where
  "linkProbeMethodForProtocol protocol = (if isUdpOnlyProtocol protocol then ''ping'' else ''tcp'')"

definition normalizeLinkProbeMethod :: "jsval \<Rightarrow> string" where
  "normalizeLinkProbeMethod m = (if js_lower (js_trim (js_text m)) = ''ping'' then ''ping'' else ''tcp'')"

definition isRuleLatencyReportMethodCompatible :: "jsval \<Rightarrow> jsval \<Rightarrow> bool" where
  "isRuleLatencyReportMethodCompatible protocol m =
     (let expected = ruleLatencyProbeMethodForProtocol protocol; actual = js_lower (js_trim (js_text m)) in
      if expected = ''ping'' then actual = ''ping'' else actual = [] \<or> actual = expected)"

definition tunnelRuleLatencyTopologyKey :: "latency_rule \<Rightarrow> latency_tunnel \<Rightarrow> jsval \<Rightarrow> string" where
  "tunnelRuleLatencyTopologyKey rule tunnel targetIp =
     js_join '':''
       [''rule-latency-v1'', int_str (validId (lu_id rule)), int_str (validId (lt_id tunnel)), int_str (validId (lt_exitHostId tunnel)),
        normalizedTarget targetIp, int_str (validPort (lu_targetPort rule)),
        protocol_name (normalizeForwardRuleProtocol (lu_protocol rule) TCP)]"

text \<open>\<open>a ?? b\<close>.\<close>

definition nullish :: "jsval \<Rightarrow> jsval \<Rightarrow> jsval" where
  "nullish a b = (if a = JUndef \<or> a = JNull then b else a)"

definition buildTunnelRuleLatencyProbe :: "jsval \<Rightarrow> latency_rule \<Rightarrow> latency_tunnel \<Rightarrow> jsval \<Rightarrow> rule_probe option" where
  "buildTunnelRuleLatencyProbe host rule tunnel targetIp0 =
     (let hostId = validId host; ruleId = validId (lu_id rule); tunnelId = validId (lt_id tunnel); exitHostId = validId (lt_exitHostId tunnel);
          targetIp = js_trim (js_string (nullish targetIp0 (nullish (lu_targetIp rule) (JStr []))));
          targetPort = validPort (lu_targetPort rule);
          topologyKey = tunnelRuleLatencyTopologyKey rule tunnel (JStr targetIp)
      in if hostId = 0 \<or> ruleId = 0 \<or> tunnelId = 0 \<or> hostId \<noteq> exitHostId \<or> targetIp = [] \<or> targetPort = 0 then None
         else Some \<lparr>rp_ruleId = ruleId, rp_tunnelId = tunnelId, rp_targetIp = targetIp, rp_targetPort = targetPort,
                    rp_method = ruleLatencyProbeMethodForProtocol (lu_protocol rule), rp_probeKey = topologyKey, rp_topologyKey = topologyKey\<rparr>)"

definition validateTunnelRuleLatencyReport :: "jsval \<Rightarrow> latency_rule \<Rightarrow> latency_tunnel \<Rightarrow> latency_report \<Rightarrow> bool" where
  "validateTunnelRuleLatencyReport host rule tunnel report =
     (let hostId = validId host;
          reportTargetPort = to_number (if js_truthy (lp_targetPort report) then lp_targetPort report else JNum (Fin 0));
          topologyKey = js_trim (js_text (lp_topologyKey report))
      in if hostId = 0 \<or> hostId \<noteq> validId (lt_exitHostId tunnel) then False
         else if validId (lu_tunnelId rule) \<noteq> validId (lt_id tunnel) then False
         else if lt_isEnabled tunnel = JBool False \<or> lu_isEnabled rule = JBool False \<or> js_truthy (lu_pendingDelete rule) then False
         else if js_lt (Fin 0) reportTargetPort \<and> reportTargetPort \<noteq> num (validPort (lu_targetPort rule)) then False
         else if \<not> isRuleLatencyReportMethodCompatible (lu_protocol rule) (lp_method report) then False
         else topologyKey = [] \<or> topologyKey = tunnelRuleLatencyTopologyKey rule tunnel (lu_targetIp rule))"

section \<open>Samples\<close>

definition finite_val :: "jsval \<Rightarrow> rat option" where
  "finite_val v = (case v of JNum n \<Rightarrow> js_finite n | _ \<Rightarrow> None)"

definition canReuseRecentTunnelLatencySample ::
    "(string \<Rightarrow> jsnum) \<Rightarrow> rat \<Rightarrow> latency_sample option \<Rightarrow> latency_tunnel \<Rightarrow> jsval \<Rightarrow> jsval \<Rightarrow> bool" where
  "canReuseRecentTunnelLatencySample parse_date clock sample tunnel nowMs0 maxAgeMs0 =
     (case sample of
        None \<Rightarrow> False
      | Some s \<Rightarrow>
          if ls_isTimeout s = JBool True \<or> validLatency (ls_latencyMs s) = None then False
          else
            let recordedAtMs = epochMs parse_date (ls_recordedAt s);
                nowMs = (case finite_val nowMs0 of None \<Rightarrow> clock | Some q \<Rightarrow> q);
                maxAgeMs = (case finite_val maxAgeMs0 of None \<Rightarrow> TUNNEL_RULE_LATENCY_FRESH_MS | Some q \<Rightarrow> max 0 q);
                invalidatedAtMs = max (epochMs parse_date (lt_updatedAt tunnel)) (epochMs parse_date (lt_lastTestAt tunnel))
            in if recordedAtMs = 0 then False
               else if recordedAtMs > nowMs + TUNNEL_RULE_LATENCY_CLOCK_SKEW_MS then False
               else if nowMs - recordedAtMs > maxAgeMs then False
               else if js_lower (js_trim (js_text (lt_lastTestStatus tunnel))) \<noteq> ''success'' then False
               else \<not> (invalidatedAtMs > 0 \<and> recordedAtMs + TUNNEL_RULE_LATENCY_UPDATE_GRACE_MS < invalidatedAtMs))"

datatype combined_latency = TimedOut | Latency rat

definition recorded_millis :: "(string \<Rightarrow> jsnum) \<Rightarrow> epoch_value \<Rightarrow> jsnum" where
  "recorded_millis parse_date at_time =
     (case at_time of
        DateAt t \<Rightarrow> t
      | ValueAt v \<Rightarrow>
          (case v of
             JUndef \<Rightarrow> Fin 0 | JNull \<Rightarrow> Fin 0
           | JNum n \<Rightarrow> (case js_finite n of None \<Rightarrow> NaN | Some q \<Rightarrow> Fin (as_millis q))
           | JBool b \<Rightarrow> Fin (if b then 1 else 0)
           | JStr t \<Rightarrow> parse_date t))"

definition combineTunnelRuleLatencySample ::
    "(string \<Rightarrow> jsnum) \<Rightarrow> rat \<Rightarrow> jsval \<Rightarrow> bool \<Rightarrow> jsval \<Rightarrow> bool \<Rightarrow> epoch_value \<Rightarrow> jsval \<Rightarrow> combined_latency option" where
  "combineTunnelRuleLatencySample parse_date clock targetLatency targetIsTimeout tunnelLatency tunnelIsTimeout tunnelRecordedAt nowMs0 =
     (case (if targetIsTimeout then None else validLatency targetLatency) of
        None \<Rightarrow> Some TimedOut
      | Some target \<Rightarrow>
          (let nowMs = (case finite_val nowMs0 of None \<Rightarrow> clock | Some q \<Rightarrow> q) in
           case js_finite (recorded_millis parse_date tunnelRecordedAt) of
             None \<Rightarrow> None
           | Some recordedAtMs \<Rightarrow>
               if recordedAtMs \<le> 0 \<or> nowMs - recordedAtMs > TUNNEL_RULE_LATENCY_FRESH_MS then None
               else if tunnelIsTimeout then Some TimedOut
               else case validLatency tunnelLatency of
                 None \<Rightarrow> None
               | Some tunnel \<Rightarrow> Some (Latency (of_int \<lfloor>(target + tunnel) * 10 + 1 / 2\<rfloor> / 10))))"

definition tunnelRuleLatencySampleSucceeded :: "bool \<Rightarrow> combined_latency option \<Rightarrow> bool" where
  "tunnelRuleLatencySampleSucceeded targetSucceeded combined =
     (targetSucceeded \<and> (case combined of Some (Latency q) \<Rightarrow> 0 \<le> q | _ \<Rightarrow> False))"

section \<open>The topology key\<close>

lemma split_at_sep:
  assumes "sep \<notin> set x" "sep \<notin> set y"
  shows "x @ sep # r = y @ sep # s \<longleftrightarrow> x = y \<and> r = s"
proof
  assume eq: "x @ sep # r = y @ sep # s"
  have t: "takeWhile (\<lambda>c. c \<noteq> sep) (z @ sep # u) = z" if "sep \<notin> set z" for z u
    using that by (induction z) auto
  have "x = y" using t [OF assms(1), of r] t [OF assms(2), of s] eq by simp
  then show "x = y \<and> r = s" using eq by simp
qed simp

lemma split_at_last:
  assumes "sep \<notin> set x" "sep \<notin> set y"
  shows "r @ sep # x = s @ sep # y \<longleftrightarrow> r = s \<and> x = y"
proof -
  have "r @ sep # x = s @ sep # y \<longleftrightarrow> rev x @ sep # rev r = rev y @ sep # rev s"
    by (metis append_Cons append_assoc append_Nil rev.simps(2) rev_append rev_rev_ident)
  then show ?thesis using split_at_sep [of sep "rev x" "rev y" "rev r" "rev s"] assms by auto
qed

lemma split_at_last_two:
  assumes "sep \<notin> set p" "sep \<notin> set p'" "sep \<notin> set q" "sep \<notin> set q'"
  shows "r @ sep # p @ sep # q = s @ sep # p' @ sep # q' \<longleftrightarrow> r = s \<and> p = p' \<and> q = q'"
  using split_at_last [OF assms(3,4), of "r @ sep # p" "s @ sep # p'"] split_at_last [OF assms(1,2), of r s] by auto

lemma validId_nonneg: "0 \<le> validId v"
  by (auto simp: validId_def split: option.split dest: positive_int_SomeD)

lemma validPort_nonneg: "0 \<le> validPort v"
  using validId_nonneg [of v] by (simp add: validPort_def Let_def)

lemma int_str_nat: "0 \<le> i \<Longrightarrow> int_str i = nat_str (nat i)"
  by (simp add: int_str_def)

lemma colon_free: "0 \<le> i \<Longrightarrow> CHR '':'' \<notin> set (int_str i)"
  using nat_str_no_char [of "CHR '':''" "nat i"] by (simp add: int_str_nat is_digit_def)

lemma int_str_same: "0 \<le> i \<Longrightarrow> 0 \<le> j \<Longrightarrow> int_str i = int_str j \<longleftrightarrow> i = j"
  using nat_str_inj [of "nat i" "nat j"] by (simp add: int_str_nat eq_nat_nat_iff)

lemma protocol_name_colon: "CHR '':'' \<notin> set (protocol_name p)" "protocol_name p = protocol_name q \<longleftrightarrow> p = q"
  by (cases p; cases q; simp)+

lemma topology_key_same:
  "tunnelRuleLatencyTopologyKey r t ip = tunnelRuleLatencyTopologyKey r' t' ip' \<longleftrightarrow>
     validId (lu_id r) = validId (lu_id r') \<and> validId (lt_id t) = validId (lt_id t') \<and>
     validId (lt_exitHostId t) = validId (lt_exitHostId t') \<and> normalizedTarget ip = normalizedTarget ip' \<and>
     validPort (lu_targetPort r) = validPort (lu_targetPort r') \<and>
     normalizeForwardRuleProtocol (lu_protocol r) TCP = normalizeForwardRuleProtocol (lu_protocol r') TCP"
  using validId_nonneg validPort_nonneg
  by (simp add: tunnelRuleLatencyTopologyKey_def split_at_sep split_at_last_two colon_free int_str_same protocol_name_colon)

section \<open>Reports and the probes they answer\<close>

lemma dropWhile_idem: "dropWhile P (dropWhile P xs) = dropWhile P xs"
  by (induction xs) auto

lemma dropWhile_fixed: "xs \<noteq> [] \<Longrightarrow> \<not> P (hd xs) \<Longrightarrow> dropWhile P xs = xs"
  by (cases xs) auto

lemma trim_trim: "js_trim (js_trim s) = js_trim s"
proof -
  let ?u = "dropWhile js_space s"
  let ?t = "rev (dropWhile js_space (rev ?u))"
  have u: "?u = ?t @ rev (takeWhile js_space (rev ?u))"
    using takeWhile_dropWhile_id [of js_space "rev ?u"] by (metis rev_append rev_rev_ident)
  have "dropWhile js_space ?t = ?t"
  proof (cases "?t = []")
    case True
    then show ?thesis by (simp only: dropWhile.simps)
  next
    case False
    then have "hd ?u = hd ?t" "?u \<noteq> []" using u by (metis hd_append2, metis append_is_Nil_conv)
    then have "\<not> js_space (hd ?t)" using hd_dropWhile [of js_space s] by metis
    with False show ?thesis by (rule dropWhile_fixed)
  qed
  then show ?thesis by (simp add: js_trim_def dropWhile_idem)
qed

lemma trim_fixed: "s \<noteq> [] \<Longrightarrow> \<not> js_space (hd s) \<Longrightarrow> \<not> js_space (last s) \<Longrightarrow> js_trim s = s"
  by (simp add: js_trim_def dropWhile_fixed hd_rev)

lemma key_trimmed: "js_trim (tunnelRuleLatencyTopologyKey r t ip) = tunnelRuleLatencyTopologyKey r t ip" "tunnelRuleLatencyTopologyKey r t ip \<noteq> []"
proof -
  have "\<not> js_space (last (protocol_name p)) \<and> protocol_name p \<noteq> []" for p by (cases p) (simp_all add: js_space_def)
  then show "js_trim (tunnelRuleLatencyTopologyKey r t ip) = tunnelRuleLatencyTopologyKey r t ip" "tunnelRuleLatencyTopologyKey r t ip \<noteq> []"
    by (auto intro!: trim_fixed simp: tunnelRuleLatencyTopologyKey_def js_space_def)
qed

lemma target_of_text: "normalizedTarget (JStr (js_trim (js_text v))) = normalizedTarget v"
proof -
  have "js_trim [] = []" by (simp add: js_trim_def)
  moreover have "js_text (JStr w) = w" for w by (simp add: js_text_def js_string_def)
  ultimately show ?thesis by (simp add: normalizedTarget_def trim_trim)
qed

text \<open>The report that answers a probe, and the target that the panel asks for.\<close>

definition answer :: "rule_probe \<Rightarrow> latency_report" where
  "answer p = \<lparr>lp_targetPort = JNum (num (rp_targetPort p)), lp_method = JStr (rp_method p), lp_topologyKey = JStr (rp_topologyKey p)\<rparr>"

definition asked_target :: "latency_rule \<Rightarrow> jsval" where
  "asked_target rule = JStr (js_text (lu_targetIp rule))"

text \<open>What has to hold for a rule's reports to be taken.\<close>

definition takes_reports :: "latency_rule \<Rightarrow> latency_tunnel \<Rightarrow> bool" where
  "takes_reports rule tunnel \<longleftrightarrow> validId (lu_tunnelId rule) = validId (lt_id tunnel) \<and> lt_isEnabled tunnel \<noteq> JBool False \<and>
     lu_isEnabled rule \<noteq> JBool False \<and> \<not> js_truthy (lu_pendingDelete rule)"

lemma built_probe:
  assumes "buildTunnelRuleLatencyProbe host rule tunnel (asked_target rule) = Some p"
  shows "validId host \<noteq> 0" "validId host = validId (lt_exitHostId tunnel)" "rp_targetPort p = validPort (lu_targetPort rule)"
    "validPort (lu_targetPort rule) \<noteq> 0" "rp_method p = ruleLatencyProbeMethodForProtocol (lu_protocol rule)"
    "rp_topologyKey p = tunnelRuleLatencyTopologyKey rule tunnel (JStr (js_trim (js_text (lu_targetIp rule))))"
  using assms by (auto simp: buildTunnelRuleLatencyProbe_def Let_def asked_target_def nullish_def js_string_def split: if_splits)

lemma method_answers: "isRuleLatencyReportMethodCompatible protocol (JStr (ruleLatencyProbeMethodForProtocol protocol))"
proof -
  have "js_lower (js_trim ''ping'') = ''ping''" "js_lower (js_trim ''tcping'') = ''tcping''" by code_simp+
  then show ?thesis
    by (simp add: isRuleLatencyReportMethodCompatible_def ruleLatencyProbeMethodForProtocol_def js_text_def js_string_def Let_def)
qed

lemma answer_accepted:
  assumes "buildTunnelRuleLatencyProbe host rule tunnel (asked_target rule) = Some p"
  shows "validateTunnelRuleLatencyReport host rule' tunnel' (answer p) \<longleftrightarrow>
    validId host = validId (lt_exitHostId tunnel') \<and> takes_reports rule' tunnel' \<and>
    validId (lu_id rule) = validId (lu_id rule') \<and> validId (lt_id tunnel) = validId (lt_id tunnel') \<and>
    normalizedTarget (lu_targetIp rule) = normalizedTarget (lu_targetIp rule') \<and>
    validPort (lu_targetPort rule) = validPort (lu_targetPort rule') \<and>
    normalizeForwardRuleProtocol (lu_protocol rule) TCP = normalizeForwardRuleProtocol (lu_protocol rule') TCP"
proof -
  note b = built_probe [OF assms]
  have port: "0 < validPort (lu_targetPort rule)" using validPort_nonneg [of "lu_targetPort rule"] b(4) by simp
  have "js_truthy (JStr (rp_topologyKey p))" "js_trim (rp_topologyKey p) = rp_topologyKey p" "rp_topologyKey p \<noteq> []"
    unfolding b(6) using key_trimmed by auto
  then have key: "js_trim (js_text (lp_topologyKey (answer p))) = rp_topologyKey p" "rp_topologyKey p \<noteq> []"
    by (simp_all add: answer_def js_text_def js_string_def)
  have same_method: "isRuleLatencyReportMethodCompatible (lu_protocol rule') (lp_method (answer p))"
    if "normalizeForwardRuleProtocol (lu_protocol rule) TCP = normalizeForwardRuleProtocol (lu_protocol rule') TCP"
  proof -
    have "rp_method p = ruleLatencyProbeMethodForProtocol (lu_protocol rule')"
      unfolding b(5) by (simp add: ruleLatencyProbeMethodForProtocol_def isUdpOnlyProtocol_def that)
    then show ?thesis using method_answers by (simp add: answer_def)
  qed
  have ports: "(if js_truthy (lp_targetPort (answer p)) then lp_targetPort (answer p) else JNum (Fin 0)) = JNum (num (validPort (lu_targetPort rule)))"
    using b(3) port by (simp add: answer_def)
  have port_ok: "js_lt (Fin 0) (num (validPort (lu_targetPort rule))) \<and> num (validPort (lu_targetPort rule)) \<noteq> num (validPort (lu_targetPort rule')) \<longleftrightarrow>
      validPort (lu_targetPort rule) \<noteq> validPort (lu_targetPort rule')" using port by simp
  show ?thesis
    unfolding validateTunnelRuleLatencyReport_def Let_def ports to_number.simps port_ok key takes_reports_def
    unfolding b(6) topology_key_same target_of_text
    using b(1,2) key_trimmed(2) same_method by auto
qed

text \<open>
  C28: A report that answers a probe the panel built is taken exactly when it comes from the exit
  host, rule and tunnel are the ones of the probe with the same target, port and protocol, and
  neither is off or being removed: an unchanged rule's answers are always taken, and after any
  change of what was measured the old answers never are.
\<close>

theorem latency_answers_matched:
  "case buildTunnelRuleLatencyProbe host rule tunnel (asked_target rule) of
     None \<Rightarrow> True
   | Some p \<Rightarrow>
       (validateTunnelRuleLatencyReport host rule' tunnel' (answer p) \<longleftrightarrow>
          validId host = validId (lt_exitHostId tunnel') \<and> takes_reports rule' tunnel' \<and>
          validId (lu_id rule) = validId (lu_id rule') \<and> validId (lt_id tunnel) = validId (lt_id tunnel') \<and>
          normalizedTarget (lu_targetIp rule) = normalizedTarget (lu_targetIp rule') \<and>
          validPort (lu_targetPort rule) = validPort (lu_targetPort rule') \<and>
          normalizeForwardRuleProtocol (lu_protocol rule) TCP = normalizeForwardRuleProtocol (lu_protocol rule') TCP)"
  using answer_accepted by (cases "buildTunnelRuleLatencyProbe host rule tunnel (asked_target rule)") simp_all

end
