(* ===== verification/Hop_Tests.thy ===== *)
theory Hop_Tests
  imports Prelude
begin

text \<open>
  \<open>server/hopTestState.ts\<close>: a test of a path is a batch of tests of its hops; when the last of them has
  reported, the results are put together. The random text that identifies a batch is a number; how
  the two ends of a hop are read from its labels (in Chinese) is the parameter \<open>parse\<close>; the message for
  display is left out. What was put together is recorded for the statements.
\<close>

section \<open>Results\<close>

record hop_detail =
  hd_success :: bool
  hd_latencyMs :: "rat option"
  hd_hopLabel :: string
  hd_routeLabel :: string
  hd_groupKey :: string

datatype latency_mode = SumMode | MaxMode | MultiSource | RemainingPath | MultiSourceRemainingPath

datatype success_mode = AllMode | AnyMode | MultiMode

record hop_options =
  ho_latencyMode :: latency_mode
  ho_successMode :: success_mode

record hop_aggregate =
  ha_ownerId :: int
  ha_success :: bool
  ha_latencyMs :: "rat option"
  ha_details :: "hop_detail list"

type_synonym end_parser = "string \<Rightarrow> string \<Rightarrow> nat \<Rightarrow> string \<times> string"

definition endpoints :: "end_parser \<Rightarrow> hop_detail list \<Rightarrow> nat \<Rightarrow> string \<times> string" where
  "endpoints parse ds i = parse (hd_routeLabel (ds ! i)) (hd_hopLabel (ds ! i)) i"

text \<open>The first hops that lead to the same node from different ones.\<close>

definition multiSourceInitialIndexes :: "end_parser \<Rightarrow> hop_detail list \<Rightarrow> nat list option" where
  "multiSourceInitialIndexes parse ds =
     (if length ds < 2 then None
      else
        let firstTarget = snd (endpoints parse ds 0) in
        if firstTarget = [] then None
        else
          let initial = takeWhile (\<lambda>i. hd_groupKey (ds ! i) = [] \<and> snd (endpoints parse ds i) = firstTarget) [0..<length ds];
              sources = remdups (filter (\<lambda>t. t \<noteq> []) (map (\<lambda>i. fst (endpoints parse ds i)) initial))
          in if length initial < 2 \<or> length sources < 2 then None else Some initial)"

definition multiSourceAggregateSuccess :: "end_parser \<Rightarrow> hop_detail list \<Rightarrow> bool" where
  "multiSourceAggregateSuccess parse ds =
     (case multiSourceInitialIndexes parse ds of
        None \<Rightarrow> list_all hd_success ds
      | Some initial \<Rightarrow> list_ex (\<lambda>i. hd_success (ds ! i)) initial \<and> list_all hd_success (drop (length initial) ds))"

definition latency_value :: "hop_detail \<Rightarrow> rat" where
  "latency_value d = (case hd_latencyMs d of None \<Rightarrow> 0 | Some q \<Rightarrow> q)"

definition multiSourceAdjustedLatency :: "end_parser \<Rightarrow> hop_detail list \<Rightarrow> rat list \<Rightarrow> rat option" where
  "multiSourceAdjustedLatency parse ds latencies =
     (case multiSourceInitialIndexes parse ds of
        None \<Rightarrow> None
      | Some initial \<Rightarrow>
          Some (fold max (map (\<lambda>i. latencies ! i) (tl initial)) (latencies ! hd initial) + sum_list (drop (length initial) latencies)))"

text \<open>Latencies from each node to the end, made latencies of the segments. An absent latency is the number 0.\<close>

definition remainingPathSegmentDetails :: "end_parser \<Rightarrow> hop_detail list \<Rightarrow> bool \<Rightarrow> hop_detail list" where
  "remainingPathSegmentDetails parse ds multiSource =
     (let initial = (if multiSource then multiSourceInitialIndexes parse ds else None) in
      if length ds < 2 \<or> multiSource \<and> initial = None then ds
      else
        let sharedStart = (case initial of None \<Rightarrow> 0 | Some is \<Rightarrow> length is);
            measurable = (case initial of
               None \<Rightarrow> list_all hd_success ds
             | Some is \<Rightarrow> list_ex (\<lambda>i. hd_success (ds ! i)) is \<and> list_all hd_success (drop sharedStart ds));
            cumulative = map (\<lambda>d. max 0 (latency_value d)) ds;
            firstShared = (if sharedStart < length ds then cumulative ! sharedStart else 0)
        in if \<not> measurable then ds
           else map (\<lambda>i. (ds ! i) \<lparr>hd_latencyMs :=
             (if \<not> hd_success (ds ! i) then None
              else if (case initial of None \<Rightarrow> False | Some is \<Rightarrow> i \<in> set is) then Some (max 0 (cumulative ! i - firstShared))
              else if i = length ds - 1 then Some (cumulative ! i)
              else Some (max 0 (cumulative ! i - cumulative ! Suc i)))\<rparr>) [0..<length ds])"

definition remainingPathTotal :: "end_parser \<Rightarrow> hop_detail list \<Rightarrow> bool \<Rightarrow> rat" where
  "remainingPathTotal parse ds multiSource =
     (let candidates = (case (if multiSource then multiSourceInitialIndexes parse ds else None) of
        Some is \<Rightarrow> filter hd_success (map (\<lambda>i. ds ! i) is) | None \<Rightarrow> take 1 ds)
      in fold (\<lambda>d m. max m (latency_value d)) candidates 0)"

definition mode_success :: "end_parser \<Rightarrow> success_mode \<Rightarrow> hop_detail list \<Rightarrow> bool" where
  "mode_success parse mode ds =
     (case mode of
        AnyMode \<Rightarrow> length (filter hd_success ds) > 0
      | MultiMode \<Rightarrow> multiSourceAggregateSuccess parse ds
      | AllMode \<Rightarrow> length (filter hd_success ds) = length ds)"

definition effective_mode :: "hop_options \<Rightarrow> success_mode" where
  "effective_mode options = (if ho_latencyMode options = MultiSourceRemainingPath then MultiMode else ho_successMode options)"

definition aggregateHopTestResults :: "end_parser \<Rightarrow> int \<Rightarrow> hop_detail list \<Rightarrow> hop_options \<Rightarrow> hop_aggregate" where
  "aggregateHopTestResults parse ownerId raw options =
     (let multi = (ho_latencyMode options = MultiSourceRemainingPath);
          mode = effective_mode options;
          details = (if mode_success parse mode raw \<and> (ho_latencyMode options = RemainingPath \<or> multi)
                     then remainingPathSegmentDetails parse raw multi else raw);
          verified = mode_success parse mode details;
          latencyDetails = (if mode = AnyMode then filter hd_success details else details);
          latencies = map latency_value latencyDetails;
          total = (case ho_latencyMode options of
             MaxMode \<Rightarrow> fold max latencies 0
           | MultiSource \<Rightarrow> (case multiSourceAdjustedLatency parse latencyDetails latencies of None \<Rightarrow> sum_list latencies | Some q \<Rightarrow> q)
           | RemainingPath \<Rightarrow> remainingPathTotal parse raw False
           | MultiSourceRemainingPath \<Rightarrow> remainingPathTotal parse raw True
           | SumMode \<Rightarrow> sum_list latencies)
      in \<lparr>ha_ownerId = ownerId, ha_success = verified, ha_latencyMs = (if verified then Some total else None), ha_details = details\<rparr>)"

section \<open>Batches\<close>

record hop_batch =
  hb_ownerId :: int
  hb_expected :: nat
  hb_createdAt :: int
  hb_tests :: "(int, hop_detail option) jsmap"

record hop_state =
  hs_batches :: "(nat, hop_batch) jsmap"
  hs_testToBatch :: "(int, nat) jsmap"
  hs_nextBatch :: nat
  hs_done :: "(nat \<times> hop_batch \<times> hop_detail list) list"

definition no_hop_tests :: hop_state where
  "no_hop_tests = \<lparr>hs_batches = [], hs_testToBatch = [], hs_nextBatch = 0, hs_done = []\<rparr>"

definition BATCH_TTL_MS :: int where "BATCH_TTL_MS = 10 * 60 * 1000"

definition cleanupExpiredBatches :: "int \<Rightarrow> hop_state \<Rightarrow> hop_state" where
  "cleanupExpiredBatches now s =
     (let gone = filter (\<lambda>p. now - hb_createdAt (snd p) > BATCH_TTL_MS) (hs_batches s) in
      s \<lparr>hs_batches := filter (\<lambda>p. \<not> now - hb_createdAt (snd p) > BATCH_TTL_MS) (hs_batches s),
         hs_testToBatch := fold map_delete (concat (map (\<lambda>p. map fst (hb_tests (snd p))) gone)) (hs_testToBatch s)\<rparr>)"

definition createHopTestBatch :: "int \<Rightarrow> int \<Rightarrow> hop_state \<Rightarrow> nat \<times> hop_state" where
  "createHopTestBatch ownerId now s0 =
     (let s = cleanupExpiredBatches now s0; b = hs_nextBatch s in
      (b, s \<lparr>hs_batches := map_set b \<lparr>hb_ownerId = ownerId, hb_expected = 0, hb_createdAt = now, hb_tests = []\<rparr> (hs_batches s),
             hs_nextBatch := Suc b\<rparr>))"

definition registerHopTest :: "nat \<Rightarrow> int \<Rightarrow> hop_state \<Rightarrow> hop_state" where
  "registerHopTest b testId s =
     (case map_get (hs_batches s) b of
        None \<Rightarrow> s
      | Some batch \<Rightarrow>
          s \<lparr>hs_batches := map_set b (batch \<lparr>hb_expected := Suc (hb_expected batch), hb_tests := map_set testId None (hb_tests batch)\<rparr>)
               (hs_batches s),
             hs_testToBatch := map_set testId b (hs_testToBatch s)\<rparr>)"

definition recordHopTestResult :: "end_parser \<Rightarrow> int \<Rightarrow> hop_detail \<Rightarrow> hop_options \<Rightarrow> hop_state \<Rightarrow> hop_aggregate option \<times> hop_state" where
  "recordHopTestResult parse testId result options s =
     (case map_get (hs_testToBatch s) testId of
        None \<Rightarrow> (None, s)
      | Some b \<Rightarrow>
          (case map_get (hs_batches s) b of
             None \<Rightarrow> (None, s \<lparr>hs_testToBatch := map_delete testId (hs_testToBatch s)\<rparr>)
           | Some batch \<Rightarrow>
               if \<not> map_has (hb_tests batch) testId then (None, s)
               else
                 let batch1 = batch \<lparr>hb_tests := map_set testId (Some result) (hb_tests batch)\<rparr>;
                     s1 = s \<lparr>hs_batches := map_set b batch1 (hs_batches s), hs_testToBatch := map_delete testId (hs_testToBatch s)\<rparr>;
                     vals = map snd (hb_tests batch1)
                 in if list_ex (\<lambda>v. v = None) vals then (None, s1)
                    else
                      let raw = map the vals
                      in (Some (aggregateHopTestResults parse (hb_ownerId batch1) raw options),
                          s1 \<lparr>hs_batches := map_delete b (hs_batches s1), hs_done := hs_done s @ [(b, batch1, raw)]\<rparr>)))"

datatype hop_op = CreateBatch int int | RegisterTest nat int | RecordResult int hop_detail hop_options

fun hop_step :: "end_parser \<Rightarrow> hop_op \<Rightarrow> hop_state \<Rightarrow> hop_state" where
  "hop_step parse (CreateBatch owner now) s = snd (createHopTestBatch owner now s)"
| "hop_step parse (RegisterTest b t) s = registerHopTest b t s"
| "hop_step parse (RecordResult t r options) s = snd (recordHopTestResult parse t r options s)"

section \<open>Aggregates\<close>

lemma fold_max_0: "fold max qs (q::rat) = max q (fold max qs q)"
  by (induction qs arbitrary: q) (simp_all, metis max.left_commute max.left_idem max_def)

definition same_but_latency :: "hop_detail list \<Rightarrow> hop_detail list \<Rightarrow> bool" where
  "same_but_latency ds es \<longleftrightarrow> map (\<lambda>d. d \<lparr>hd_latencyMs := None\<rparr>) ds = map (\<lambda>d. d \<lparr>hd_latencyMs := None\<rparr>) es"

lemma same_nth:
  assumes "same_but_latency ds es"
  shows "length ds = length es" "i < length ds \<Longrightarrow> hd_success (ds ! i) = hd_success (es ! i)"
    "i < length ds \<Longrightarrow> endpoints parse ds i = endpoints parse es i" "i < length ds \<Longrightarrow> hd_groupKey (ds ! i) = hd_groupKey (es ! i)"
proof -
  show len: "length ds = length es" using assms unfolding same_but_latency_def by (metis length_map)
  have d: "(ds ! i) \<lparr>hd_latencyMs := None\<rparr> = (es ! i) \<lparr>hd_latencyMs := None\<rparr>" if "i < length ds"
    using assms that len unfolding same_but_latency_def by (metis nth_map)
  show "i < length ds \<Longrightarrow> hd_success (ds ! i) = hd_success (es ! i)" using d by (metis hop_detail.select_convs(1) hop_detail.surjective hop_detail.update_convs(2))
  show "i < length ds \<Longrightarrow> hd_groupKey (ds ! i) = hd_groupKey (es ! i)"
    using d by (metis hop_detail.select_convs(5) hop_detail.surjective hop_detail.update_convs(2))
  show "i < length ds \<Longrightarrow> endpoints parse ds i = endpoints parse es i"
    using d unfolding endpoints_def
    by (metis hop_detail.select_convs(3) hop_detail.select_convs(4) hop_detail.surjective hop_detail.update_convs(2))
qed

lemma initial_same:
  assumes same: "same_but_latency ds es"
  shows "multiSourceInitialIndexes parse ds = multiSourceInitialIndexes parse es"
proof (cases "length ds < 2")
  case True
  then show ?thesis using same_nth(1) [OF same] by (simp add: multiSourceInitialIndexes_def)
next
  case False
  note len = same_nth(1) [OF same]
  have first: "endpoints parse ds 0 = endpoints parse es 0" by (rule same_nth(3) [OF same]) (use False in linarith)
  have tw: "takeWhile (\<lambda>i. hd_groupKey (ds ! i) = [] \<and> snd (endpoints parse ds i) = t) [0..<length es] =
      takeWhile (\<lambda>i. hd_groupKey (es ! i) = [] \<and> snd (endpoints parse es i) = t) [0..<length es]" for t
    using same_nth(3,4) [OF same] len by (intro takeWhile_cong) auto
  have sources: "map (\<lambda>i. fst (endpoints parse ds i)) (takeWhile P [0..<length es]) = map (\<lambda>i. fst (endpoints parse es i)) (takeWhile P [0..<length es])" for P
    using same_nth(3) [OF same] len by (auto dest!: set_takeWhileD)
  show ?thesis
    unfolding multiSourceInitialIndexes_def Let_def first tw len sources ..
qed

lemma initial_below: "multiSourceInitialIndexes parse ds = Some is \<Longrightarrow> i \<in> set is \<Longrightarrow> i < length ds"
  by (auto simp: multiSourceInitialIndexes_def Let_def split: if_splits dest!: set_takeWhileD)

lemma all_same: "same_but_latency ds es \<Longrightarrow> list_all hd_success (drop n ds) = list_all hd_success (drop n es)"
  using same_nth(1,2) [of ds es] by (auto simp: list_all_length)

lemma count_same: "same_but_latency ds es \<Longrightarrow> map hd_success ds = map hd_success es"
  using same_nth(1,2) [of ds es] by (intro nth_equalityI) auto

lemma success_same:
  assumes same: "same_but_latency ds es"
  shows "mode_success parse mode ds = mode_success parse mode es"
proof -
  have n: "length (filter hd_success ds) = length (filter hd_success es)"
  proof -
    have "length (filter hd_success xs) = length (filter id (map hd_success xs))" for xs by (simp add: filter_map o_def)
    then show ?thesis using count_same [OF same] by metis
  qed
  have "multiSourceAggregateSuccess parse ds = multiSourceAggregateSuccess parse es"
    using all_same [OF same] all_same [OF same, of 0] same_nth(2) [OF same] initial_below [of parse es]
    unfolding multiSourceAggregateSuccess_def initial_same [OF same] same_nth(1) [OF same]
    by (auto split: option.split simp: list_ex_iff)
  then show ?thesis using n same_nth(1) [OF same] by (simp add: mode_success_def split: success_mode.split)
qed

lemma segments_same: "same_but_latency (remainingPathSegmentDetails parse ds multi) ds"
  unfolding remainingPathSegmentDetails_def Let_def
  by (auto simp: same_but_latency_def intro!: nth_equalityI)

fun segments :: "rat list \<Rightarrow> rat list" where
  "segments [] = []"
| "segments [x] = [x]"
| "segments (x # y # r) = max 0 (x - y) # segments (y # r)"

lemma segments_upt:
  "map (\<lambda>i. if i = length c - 1 then c ! i else max 0 (c ! i - c ! Suc i)) [0..<length c] = segments c"
proof (induction c rule: segments.induct)
  case (3 x y r)
  have "map (\<lambda>i. if i = length (x # y # r) - 1 then (x # y # r) ! i else max 0 ((x # y # r) ! i - (x # y # r) ! Suc i)) [0..<length (x # y # r)] =
      max 0 (x - y) # map (\<lambda>i. if Suc i = length (x # y # r) - 1 then (x # y # r) ! Suc i
        else max 0 ((x # y # r) ! Suc i - (x # y # r) ! Suc (Suc i))) [0..<length (y # r)]"
    by (subst upt_conv_Cons) (simp_all add: map_Suc_upt [symmetric] o_def del: upt_Suc map_Suc_upt)
  also have "\<dots> = max 0 (x - y) # segments (y # r)" using 3 by (simp del: upt_Suc cong: if_cong)
  finally show ?case by simp
qed simp_all

lemma segments_sum:
  "list_all (\<lambda>q. 0 \<le> q) c \<Longrightarrow> c \<noteq> [] \<Longrightarrow> hd c \<le> sum_list (segments c) \<and> list_all (\<lambda>q. 0 \<le> q) (segments c)"
  "sorted_wrt (\<ge>) c \<Longrightarrow> c \<noteq> [] \<Longrightarrow> sum_list (segments c) = hd c"
  by (induction c rule: segments.induct) (auto simp: max_def)

definition path_sum :: "hop_detail list \<Rightarrow> rat" where
  "path_sum ds = sum_list (map (\<lambda>d. max 0 (latency_value d)) ds)"

lemma remaining_path:
  assumes all_ok: "list_all hd_success raw"
  shows "remainingPathTotal parse raw False \<le> path_sum (remainingPathSegmentDetails parse raw False)"
    and "sorted_wrt (\<ge>) (map latency_value raw) \<Longrightarrow>
      remainingPathTotal parse raw False = path_sum (remainingPathSegmentDetails parse raw False)"
proof -
  let ?c = "map (\<lambda>d. max 0 (latency_value d)) raw"
  have total: "remainingPathTotal parse raw False = (case ?c of [] \<Rightarrow> 0 | q # qs \<Rightarrow> q)"
    by (cases raw) (simp_all add: remainingPathTotal_def)
  have nonneg: "list_all (\<lambda>q. 0 \<le> q) ?c" by (simp add: list_all_iff)
  have sum: "path_sum (remainingPathSegmentDetails parse raw False) = sum_list (segments ?c)"
  proof (cases "length raw < 2")
    case True
    then show ?thesis
      by (cases raw; cases "tl raw") (simp_all add: remainingPathSegmentDetails_def path_sum_def)
  next
    case False
    have details: "remainingPathSegmentDetails parse raw False =
        map (\<lambda>i. (raw ! i) \<lparr>hd_latencyMs := Some (if i = length ?c - 1 then ?c ! i else max 0 (?c ! i - ?c ! Suc i))\<rparr>) [0..<length ?c]"
      unfolding remainingPathSegmentDetails_def Let_def
      using all_ok False by (auto simp: list_all_length)
    have "map (\<lambda>d. max 0 (latency_value d)) (remainingPathSegmentDetails parse raw False) =
        map (\<lambda>i. max 0 (if i = length ?c - 1 then ?c ! i else max 0 (?c ! i - ?c ! Suc i))) [0..<length ?c]"
      unfolding details map_map by (intro map_cong refl) (simp add: latency_value_def)
    also have "\<dots> = map (max 0) (segments ?c)" by (simp only: segments_upt [symmetric] map_map o_def)
    also have "\<dots> = segments ?c"
    proof (rule map_idI)
      have "?c \<noteq> []" using False by auto
      from segments_sum(1) [OF nonneg this] have "list_all (\<lambda>q. 0 \<le> q) (segments ?c)" by (rule conjunct2)
      then show "max 0 q = q" if "q \<in> set (segments ?c)" for q using that by (metis list_all_iff max_absorb2)
    qed
    finally show ?thesis by (simp add: path_sum_def)
  qed
  show "remainingPathTotal parse raw False \<le> path_sum (remainingPathSegmentDetails parse raw False)"
    unfolding total sum using segments_sum(1) [OF nonneg] by (cases raw) auto
  show "remainingPathTotal parse raw False = path_sum (remainingPathSegmentDetails parse raw False)"
    if "sorted_wrt (\<ge>) (map latency_value raw)"
  proof -
    have "sorted_wrt (\<ge>) ?c"
      using that by (auto simp: sorted_wrt_map elim!: sorted_wrt_mono_rel [rotated])
    then show ?thesis unfolding total sum using segments_sum(2) [of ?c] by (cases raw) auto
  qed
qed

lemma all_mode: "mode_success parse AllMode ds \<longleftrightarrow> list_all hd_success ds"
proof -
  have "length (filter P xs) = length xs \<longleftrightarrow> list_all P xs" for P and xs :: "hop_detail list"
  proof (induction xs)
    case (Cons x xs)
    moreover have "length (filter P xs) < Suc (length xs)" by (simp add: less_Suc_eq_le)
    ultimately show ?case by auto
  qed simp
  then show ?thesis by (simp add: mode_success_def)
qed

lemma details_same:
  "same_but_latency (ha_details (aggregateHopTestResults parse ownerId raw options)) raw"
  using segments_same by (simp add: aggregateHopTestResults_def Let_def) (simp add: same_but_latency_def)

lemma aggregate_success:
  "ha_success (aggregateHopTestResults parse ownerId raw options) = mode_success parse (effective_mode options) raw"
  using success_same [OF segments_same] by (simp add: aggregateHopTestResults_def Let_def)

text \<open>
  A test of a path succeeds as its mode says of the results that were reported, whatever is done
  to their latencies; it has a latency exactly then, and the results keep everything else. When
  latencies to the end are made latencies of the segments, the total is that of the first node, at
  most the sum of the segments, and equal to it when no node is farther than the one before it.
\<close>

theorem hop_aggregate_consistent:
  "let a = aggregateHopTestResults parse ownerId raw options;
       b = aggregateHopTestResults parse ownerId raw \<lparr>ho_latencyMode = RemainingPath, ho_successMode = AllMode\<rparr>
   in ha_success a = mode_success parse (effective_mode options) raw \<and> (ha_latencyMs a = None) = (\<not> ha_success a) \<and>
      same_but_latency (ha_details a) raw \<and>
      (case ha_latencyMs b of
         None \<Rightarrow> \<not> list_all hd_success raw
       | Some q \<Rightarrow> list_all hd_success raw \<and> q \<le> path_sum (ha_details b) \<and>
           (if sorted_wrt (\<ge>) (map latency_value raw) then q = path_sum (ha_details b) else True))"
proof -
  let ?o = "\<lparr>ho_latencyMode = RemainingPath, ho_successMode = AllMode\<rparr>"
  let ?b = "aggregateHopTestResults parse ownerId raw ?o"
  have ok: "mode_success parse AllMode (remainingPathSegmentDetails parse raw False) = list_all hd_success raw"
    using success_same [OF segments_same] all_mode by metis
  have "(ha_latencyMs a = None) = (\<not> ha_success a)" if "a = aggregateHopTestResults parse ownerId raw options" for a
    unfolding that by (simp add: aggregateHopTestResults_def Let_def)
  moreover have "ha_latencyMs ?b = (if list_all hd_success raw then Some (remainingPathTotal parse raw False) else None)"
    using ok by (simp add: aggregateHopTestResults_def Let_def effective_mode_def all_mode)
  moreover have "ha_details ?b = remainingPathSegmentDetails parse raw False" if "list_all hd_success raw"
    using that by (simp add: aggregateHopTestResults_def Let_def effective_mode_def all_mode)
  ultimately show ?thesis
    using details_same aggregate_success remaining_path [of raw parse] by (simp add: Let_def)
qed

section \<open>Batches end once\<close>

definition batch_open :: "hop_batch \<Rightarrow> bool" where
  "batch_open batch \<longleftrightarrow> hb_tests batch = [] \<or> list_ex (\<lambda>q. snd q = None) (hb_tests batch)"

definition done_ok :: "hop_state \<Rightarrow> bool" where
  "done_ok s \<longleftrightarrow> distinct (map fst (hs_done s)) \<and>
     list_all (\<lambda>(b, batch, raw). hb_tests batch \<noteq> [] \<and> map snd (hb_tests batch) = map Some raw \<and> b < hs_nextBatch s \<and>
       \<not> map_has (hs_batches s) b) (hs_done s)"

definition hop_ok :: "hop_state \<Rightarrow> bool" where
  "hop_ok s \<longleftrightarrow> wf_map (hs_batches s) \<and> list_all (\<lambda>p. fst p < hs_nextBatch s \<and> batch_open (snd p)) (hs_batches s) \<and> done_ok s"

lemma hop_batch_open: "hop_ok s \<Longrightarrow> map_get (hs_batches s) b = Some batch \<Longrightarrow> b < hs_nextBatch s \<and> batch_open batch"
  unfolding hop_ok_def list_all_iff by (metis fst_conv map_of_SomeD snd_conv)

lemma ok_batches:
  assumes ok: "hop_ok s" and wf: "wf_map m" and each: "\<And>b batch. (b, batch) \<in> set m \<Longrightarrow> batch_open batch \<and> map_has (hs_batches s) b"
  shows "hop_ok (s \<lparr>hs_batches := m, hs_testToBatch := t\<rparr>)"
proof -
  have known: "b < hs_nextBatch s" if "map_has (hs_batches s) b" for b
    using hop_batch_open [OF ok, of b] that by (auto simp: map_has_def)
  have has: "map_has (hs_batches s) b" if "map_has m b" for b
    using each that by (auto simp: map_has_keys)
  show ?thesis
    using ok wf each known has by (auto simp: hop_ok_def done_ok_def list_all_iff)
qed

lemma ok_cleanup: "hop_ok s \<Longrightarrow> hop_ok (cleanupExpiredBatches now s)"
  unfolding cleanupExpiredBatches_def Let_def
  by (rule ok_batches) (auto simp: hop_ok_def list_all_iff map_has_keys intro: rev_image_eqI)

lemma ok_create:
  assumes "hop_ok s"
  shows "hop_ok (snd (createHopTestBatch ownerId now s))"
proof -
  let ?s = "cleanupExpiredBatches now s"
  let ?new = "\<lparr>hb_ownerId = ownerId, hb_expected = 0, hb_createdAt = now, hb_tests = []\<rparr>"
  have ok: "hop_ok ?s" by (rule ok_cleanup [OF assms])
  have "\<not> map_has (hs_batches ?s) (hs_nextBatch ?s)" using hop_batch_open [OF ok, of "hs_nextBatch ?s"] by (fastforce simp: map_has_def)
  then show ?thesis
    using ok by (auto simp: createHopTestBatch_def Let_def hop_ok_def done_ok_def list_all_iff map_set_new batch_open_def wf_map_def
        map_has_keys less_SucI split: prod.splits)
qed

lemma in_map_set: "(k, v) \<in> set (map_set i x m) \<Longrightarrow> (k, v) \<in> set m \<or> k = i \<and> v = x"
  using set_map_set [of i x m] by auto

lemma none_stays: "list_ex (\<lambda>q. snd q = None) (map_set t None m)"
proof -
  have "map_get (map_set t None m) t = Some None" by (simp add: map_get_set)
  then have "(t, None) \<in> set (map_set t None m)" by (rule map_of_SomeD)
  then show ?thesis unfolding list_ex_iff by force
qed

lemma ok_register:
  assumes ok: "hop_ok s"
  shows "hop_ok (registerHopTest b t s)"
proof (cases "map_get (hs_batches s) b")
  case None
  then show ?thesis using ok by (simp add: registerHopTest_def)
next
  case (Some batch)
  have "hop_ok (s \<lparr>hs_batches := map_set b (batch \<lparr>hb_expected := Suc (hb_expected batch), hb_tests := map_set t None (hb_tests batch)\<rparr>)
      (hs_batches s), hs_testToBatch := map_set t b (hs_testToBatch s)\<rparr>)"
  proof (rule ok_batches [OF ok])
    show "wf_map (map_set b (batch \<lparr>hb_expected := Suc (hb_expected batch), hb_tests := map_set t None (hb_tests batch)\<rparr>) (hs_batches s))"
      using ok by (simp add: hop_ok_def)
    fix k v
    assume "(k, v) \<in> set (map_set b (batch \<lparr>hb_expected := Suc (hb_expected batch), hb_tests := map_set t None (hb_tests batch)\<rparr>) (hs_batches s))"
    from in_map_set [OF this] show "batch_open v \<and> map_has (hs_batches s) k"
      using ok Some none_stays [of t "hb_tests batch"] by (auto simp: hop_ok_def list_all_iff batch_open_def map_has_keys map_of_SomeD dest: map_of_SomeD intro: rev_image_eqI)
  qed
  then show ?thesis using Some by (simp add: registerHopTest_def)
qed

lemma delete_after_set: "map_delete k (map_set k v m) = map_delete k m"
  by (induction m) auto

lemma ok_record:
  assumes ok: "hop_ok s"
  shows "hop_ok (snd (recordHopTestResult parse t result options s))"
proof (cases "\<exists>b batch. map_get (hs_testToBatch s) t = Some b \<and> map_get (hs_batches s) b = Some batch \<and> map_has (hb_tests batch) t")
  case False
  have "hop_ok (s \<lparr>hs_testToBatch := m\<rparr>)" for m using ok by (simp add: hop_ok_def done_ok_def)
  then show ?thesis using ok False by (auto simp: recordHopTestResult_def split: option.split)
next
  case True
  then obtain b batch where b: "map_get (hs_testToBatch s) t = Some b" "map_get (hs_batches s) b = Some batch"
    and t: "map_has (hb_tests batch) t" by blast
  let ?batch = "batch \<lparr>hb_tests := map_set t (Some result) (hb_tests batch)\<rparr>"
  let ?s1 = "s \<lparr>hs_batches := map_set b ?batch (hs_batches s), hs_testToBatch := map_delete t (hs_testToBatch s)\<rparr>"
  have wf: "wf_map (hs_batches s)" using ok by (simp add: hop_ok_def)
  have in_b: "(b, batch) \<in> set (hs_batches s)" using b(2) by (rule map_of_SomeD)
  then have has_b: "map_has (hs_batches s) b" by (force simp: map_has_keys)
  have kept: "batch_open v \<and> map_has (hs_batches s) k" if "(k, v) \<in> set (hs_batches s)" for k v
    using ok that by (auto simp: hop_ok_def list_all_iff map_has_keys intro: rev_image_eqI)
  show ?thesis
  proof (cases "list_ex (\<lambda>v. v = None) (map snd (hb_tests ?batch))")
    case True
    then have "batch_open ?batch" unfolding batch_open_def list_ex_iff by force
    then have "hop_ok ?s1"
      using wf kept has_b by (intro ok_batches [OF ok]) (auto dest!: in_map_set)
    then show ?thesis using b t True by (simp add: recordHopTestResult_def Let_def)
  next
    case False
    let ?raw = "map the (map snd (hb_tests ?batch))"
    let ?m = "map_delete b (hs_batches ?s1)"
    have some: "map snd (hb_tests ?batch) = map Some ?raw"
    proof -
      have "vs = map Some (map the vs)" if "None \<notin> set vs" for vs :: "hop_detail option list"
        using that by (induction vs) auto
      moreover have "None \<notin> set (map snd (hb_tests ?batch))" using False unfolding list_ex_iff by blast
      ultimately show ?thesis by blast
    qed
    have "map_delete b (map_set b ?batch (hs_batches s)) = map_delete b (hs_batches s)"
      by (rule delete_after_set)
    then have m: "?m = map_delete b (hs_batches s)" by simp
    have ok2: "hop_ok (s \<lparr>hs_batches := ?m, hs_testToBatch := map_delete t (hs_testToBatch s)\<rparr>)"
      unfolding m using wf kept set_map_delete [of b "hs_batches s"] by (intro ok_batches [OF ok]) auto
    have fresh: "b \<notin> fst ` set (hs_done s)" "b < hs_nextBatch s"
      using ok has_b hop_batch_open [OF ok b(2)] by (auto simp: hop_ok_def done_ok_def list_all_iff)
    have "hop_ok (?s1 \<lparr>hs_batches := ?m, hs_done := hs_done s @ [(b, ?batch, ?raw)]\<rparr>)"
    proof -
      have new: "hb_tests ?batch \<noteq> []" "\<not> map_has ?m b" by (cases "hb_tests batch"; simp split: prod.split)+
      have "list_all (\<lambda>p. fst p < hs_nextBatch s \<and> batch_open (snd p)) ?m" "wf_map ?m" "distinct (map fst (hs_done s))"
        "list_all (\<lambda>(b, batch, raw). hb_tests batch \<noteq> [] \<and> map snd (hb_tests batch) = map Some raw \<and> b < hs_nextBatch s \<and>
           \<not> map_has ?m b) (hs_done s)" using ok2 by (simp_all add: hop_ok_def done_ok_def)
      then show ?thesis using fresh some new by (simp add: hop_ok_def done_ok_def)
    qed
    then show ?thesis using b t False by (simp add: recordHopTestResult_def Let_def)
  qed
qed

lemma ok_hop_run: "hop_ok (fold (hop_step parse) ops no_hop_tests)"
proof -
  have step: "hop_ok s \<Longrightarrow> hop_ok (hop_step parse op s)" for op s
    by (cases op) (simp_all add: ok_create ok_register ok_record)
  have "hop_ok s \<Longrightarrow> hop_ok (fold (hop_step parse) ops s)" for s
    by (induction ops arbitrary: s) (simp_all add: step)
  then show ?thesis by (simp add: no_hop_tests_def hop_ok_def done_ok_def)
qed

text \<open>
  C35: Whatever tests are registered and reported in any order, a batch is put together at most once,
  when every test registered with it has a result, from the results in the order of registration,
  and is gone then; no batch that is complete is left waiting.
\<close>

theorem hop_batches_end_once:
  "let s = fold (hop_step parse) ops no_hop_tests in
     distinct (map fst (hs_done s)) \<and>
     list_all (\<lambda>(b, batch, raw). hb_tests batch \<noteq> [] \<and> map snd (hb_tests batch) = map Some raw \<and> \<not> map_has (hs_batches s) b) (hs_done s) \<and>
     list_all (\<lambda>p. hb_tests (snd p) = [] \<or> list_ex (\<lambda>q. snd q = None) (hb_tests (snd p))) (hs_batches s)"
  using ok_hop_run [of parse ops] unfolding hop_ok_def done_ok_def batch_open_def Let_def
  by (auto simp: list_all_iff)

end
