(* ===== verification/Ip_Switch_Tasks.thy ===== *)
theory Ip_Switch_Tasks
  imports China_Health Timers Bounded_Cache
begin

text \<open>
  \<open>server/agentIpSwitchTasks.ts\<close>: the request to change a host's address is carried by the
  agent of that host. The panel keeps one task for a host, hands it out once, lets the agent
  claim it once, right before the request that may be billed, and settles the promise of the
  caller with the agent's result or when its time is over. Then
  \<open>server/hostIpSwitchProvider.ts\<close>: what the panel makes of a result.

  Times are integers in milliseconds of the panel's clocks (\<open>Date.now()\<close> and
  \<open>panelCryptoNowMs()\<close>, arguments of the operations). A promise is named by its number, which
  is also the identity of the entry that was made with it. \<open>claimIpSwitchAgentTask\<close> waits for
  its check in the middle: \<open>claim_begin\<close> is the part before, \<open>claim_end\<close> the part after. Whether
  a text is a UUID is a parameter, as zod decides it.
\<close>

section \<open>Results of agents\<close>

datatype switch_outcome = OutAccepted | OutVerified | OutUncertain | OutNotExecuted

datatype switch_reason = ROk | RInvalidRequest | RExpired | RDuplicate | RStateUnavailable |
  RClaimDenied | RRequestFailed | RHttpStatus | RInvalidResponse | RSuccessMismatch | RInvalidIp

record agent_result =
  ar_taskId :: string
  ar_outcome :: switch_outcome
  ar_reason :: switch_reason
  ar_httpStatus :: "int option"
  ar_newIp :: "string option"

definition outcome_names :: "(string \<times> switch_outcome) list" where
  "outcome_names = [(''accepted'', OutAccepted), (''verified'', OutVerified), (''uncertain'', OutUncertain),
     (''not_executed'', OutNotExecuted)]"

definition reason_names :: "(string \<times> switch_reason) list" where
  "reason_names = [(''ok'', ROk), (''invalid_request'', RInvalidRequest), (''expired'', RExpired),
     (''duplicate'', RDuplicate), (''state_unavailable'', RStateUnavailable), (''claim_denied'', RClaimDenied),
     (''request_failed'', RRequestFailed), (''http_status'', RHttpStatus), (''invalid_response'', RInvalidResponse),
     (''success_mismatch'', RSuccessMismatch), (''invalid_ip'', RInvalidIp)]"

text \<open>
  A body sent by an agent: the fields of an object, whose values are scalars, or \<open>None\<close> for
  anything else. An array or object as the value of a field is refused like a Boolean.
\<close>

type_synonym json_body = "(string, jsval) jsmap option"

definition body_field :: "(string, jsval) jsmap \<Rightarrow> string \<Rightarrow> jsval" where
  "body_field ob k = (case map_get ob k of None \<Rightarrow> JUndef | Some v \<Rightarrow> v)"

fun enum_value :: "(string \<times> 'a) list \<Rightarrow> jsval \<Rightarrow> 'a option" where
  "enum_value names (JStr s) = map_of names s"
| "enum_value names _ = None"

fun status_value :: "jsval \<Rightarrow> int option option" where
  "status_value JUndef = Some None"
| "status_value (JNum n) =
     (case js_integer n of None \<Rightarrow> None | Some i \<Rightarrow> if 0 \<le> i \<and> i \<le> 599 then Some (Some i) else None)"
| "status_value _ = None"

fun ip_value :: "jsval \<Rightarrow> string option option" where
  "ip_value JUndef = Some None"
| "ip_value (JStr s) = (if length s \<le> 64 then Some (Some s) else None)"
| "ip_value _ = None"

definition ipSwitchResultSchema :: "(string \<Rightarrow> bool) \<Rightarrow> json_body \<Rightarrow> agent_result option" where
  "ipSwitchResultSchema uuid body =
     (case body of
        None \<Rightarrow> None
      | Some ob \<Rightarrow>
          if \<not> list_all (\<lambda>(k, v). k \<in> set [''taskId'', ''outcome'', ''reason'', ''httpStatus'', ''newIp'']) ob then None
          else case body_field ob ''taskId'' of
            JStr t \<Rightarrow>
              (case (enum_value outcome_names (body_field ob ''outcome''),
                     enum_value reason_names (body_field ob ''reason'')) of
                 (Some out, Some why) \<Rightarrow>
                   (case (status_value (body_field ob ''httpStatus''), ip_value (body_field ob ''newIp'')) of
                      (Some st, Some ip) \<Rightarrow>
                        if uuid t
                        then Some \<lparr>ar_taskId = t, ar_outcome = out, ar_reason = why, ar_httpStatus = st, ar_newIp = ip\<rparr>
                        else None
                    | _ \<Rightarrow> None)
               | _ \<Rightarrow> None)
          | _ \<Rightarrow> None)"

section \<open>The tasks of hosts\<close>

record 'r switch_task =
  tk_taskId :: string
  tk_serviceId :: int
  tk_request :: 'r
  tk_expiresAt :: int

record 'r pending_switch =
  ps_taskId :: string
  ps_serviceId :: int
  ps_expectedIp :: string
  ps_task :: "'r switch_task option"
  ps_expiresAt :: int
  ps_delivered :: bool
  ps_claimStarted :: bool
  ps_claimed :: bool
  ps_promise :: nat
  ps_timer :: nat

record 'r switch_tasks =
  sw_capabilities :: "(int, int) jsmap"
  sw_pending :: "(int, 'r pending_switch) jsmap"
  sw_timers :: "(int, int \<times> string \<times> nat) timers"
  sw_promises :: nat
  sw_settled :: "(nat \<times> agent_result) list"
  sw_refreshed :: "int list"

definition no_switch_tasks :: "'r switch_tasks" where
  "no_switch_tasks = \<lparr>sw_capabilities = [], sw_pending = [], sw_timers = no_timers, sw_promises = 0,
     sw_settled = [], sw_refreshed = []\<rparr>"

definition recordIpSwitchAgentCapability :: "int \<Rightarrow> jsval \<Rightarrow> int \<Rightarrow> 'r switch_tasks \<Rightarrow> 'r switch_tasks" where
  "recordIpSwitchAgentCapability hostId supported now s =
     (if supported = JBool True
      then s \<lparr>sw_capabilities := setBoundedMapValue 50000 hostId now (sw_capabilities s)\<rparr>
      else s \<lparr>sw_capabilities := map_delete hostId (sw_capabilities s)\<rparr>)"

definition ipSwitchAgentReady :: "int \<Rightarrow> int \<Rightarrow> 'r switch_tasks \<Rightarrow> bool" where
  "ipSwitchAgentReady hostId now s \<longleftrightarrow>
     now - (case map_get (sw_capabilities s) hostId of None \<Rightarrow> 0 | Some t \<Rightarrow> t) < 300000"

text \<open>\<open>Math.ceil(t / 1000)\<close> of an integer.\<close>

definition ceil_seconds :: "int \<Rightarrow> int" where
  "ceil_seconds t = - ((- t) div 1000)"

datatype enqueue_error = AgentUnavailable

text \<open>\<open>now\<close> is \<open>Date.now()\<close>, \<open>clock\<close> the panel's clock, both when the call is made.\<close>

definition enqueueIpSwitchAgentTask ::
    "int \<Rightarrow> string \<Rightarrow> int \<Rightarrow> string \<Rightarrow> 'r \<Rightarrow> int \<Rightarrow> int \<Rightarrow> int \<Rightarrow> 'r switch_tasks \<Rightarrow> (enqueue_error + nat) \<times> 'r switch_tasks" where
  "enqueueIpSwitchAgentTask hostId taskId serviceId expectedIp request timeoutMs now clock s =
     (if \<not> ipSwitchAgentReady hostId now s \<or> map_has (sw_pending s) hostId then (Inl AgentUnavailable, s)
      else
        let expiresAt = ceil_seconds (clock + min timeoutMs 60000);
            promise = sw_promises s;
            (timer, ts) = setTimer now timeoutMs (hostId, taskId, promise) (sw_timers s)
        in (Inr promise,
            s \<lparr>sw_pending := map_set hostId
                 \<lparr>ps_taskId = taskId, ps_serviceId = serviceId, ps_expectedIp = expectedIp,
                  ps_task = Some \<lparr>tk_taskId = taskId, tk_serviceId = serviceId, tk_request = request, tk_expiresAt = expiresAt\<rparr>,
                  ps_expiresAt = expiresAt, ps_delivered = False, ps_claimStarted = False, ps_claimed = False,
                  ps_promise = promise, ps_timer = timer\<rparr> (sw_pending s),
               sw_timers := ts,
               sw_promises := Suc promise,
               sw_refreshed := sw_refreshed s @ [hostId]\<rparr>))"

definition panel_result :: "string \<Rightarrow> switch_outcome \<Rightarrow> agent_result" where
  "panel_result taskId out = \<lparr>ar_taskId = taskId, ar_outcome = out, ar_reason = RExpired, ar_httpStatus = None, ar_newIp = None\<rparr>"

text \<open>The callback of the timer with this handle, if it is due.\<close>

definition expire_switch :: "nat \<Rightarrow> int \<Rightarrow> 'r switch_tasks \<Rightarrow> 'r switch_tasks" where
  "expire_switch h now s =
     (case due_timer h now (sw_timers s) of
        None \<Rightarrow> s
      | Some (hostId, taskId, promise) \<Rightarrow>
          let s1 = s \<lparr>sw_timers := clearTimer h (sw_timers s)\<rparr> in
          (case map_get (sw_pending s) hostId of
             None \<Rightarrow> s1
           | Some current \<Rightarrow>
               if ps_taskId current \<noteq> taskId then s1
               else s1 \<lparr>sw_pending := map_delete hostId (sw_pending s),
                        sw_settled := sw_settled s @
                          [(promise, panel_result taskId (if ps_delivered current then OutUncertain else OutNotExecuted))]\<rparr>))"

definition hasQueuedIpSwitchAgentTasks :: "int \<Rightarrow> 'r switch_tasks \<Rightarrow> bool" where
  "hasQueuedIpSwitchAgentTasks hostId s =
     (case map_get (sw_pending s) hostId of None \<Rightarrow> False | Some current \<Rightarrow> ps_task current \<noteq> None)"

definition completeIpSwitchAgentTask ::
    "(string \<Rightarrow> bool) \<Rightarrow> int \<Rightarrow> json_body \<Rightarrow> 'r switch_tasks \<Rightarrow> bool \<times> 'r switch_tasks" where
  "completeIpSwitchAgentTask uuid hostId body s =
     (case ipSwitchResultSchema uuid body of
        None \<Rightarrow> (False, s)
      | Some result \<Rightarrow>
          (case map_get (sw_pending s) hostId of
             None \<Rightarrow> (False, s)
           | Some current \<Rightarrow>
               if ps_taskId current \<noteq> ar_taskId result \<or> \<not> ps_delivered current \<and> ar_reason result \<noteq> RExpired then (False, s)
               else if ar_outcome result \<in> {OutAccepted, OutVerified} \<and> \<not> ps_claimed current then (False, s)
               else (True, s \<lparr>sw_timers := clearTimer (ps_timer current) (sw_timers s),
                              sw_pending := map_delete hostId (sw_pending s),
                              sw_settled := sw_settled s @ [(ps_promise current, result)]\<rparr>)))"

definition takeIpSwitchAgentTasks ::
    "(string \<Rightarrow> bool) \<Rightarrow> int \<Rightarrow> int \<Rightarrow> int \<Rightarrow> 'r switch_tasks \<Rightarrow> 'r switch_task list \<times> 'r switch_tasks" where
  "takeIpSwitchAgentTasks uuid hostId now clock s =
     (case map_get (sw_pending s) hostId of
        None \<Rightarrow> ([], s)
      | Some current \<Rightarrow>
          (case ps_task current of
             None \<Rightarrow> ([], s)
           | Some task \<Rightarrow>
               if \<not> ipSwitchAgentReady hostId now s then ([], s)
               else if ps_expiresAt current * 1000 \<le> clock
               then ([], snd (completeIpSwitchAgentTask uuid hostId
                            (Some [(''taskId'', JStr (ps_taskId current)), (''outcome'', JStr ''not_executed''), (''reason'', JStr ''expired'')]) s))
               else ([task], s \<lparr>sw_pending := map_set hostId (current \<lparr>ps_task := None, ps_delivered := True\<rparr>) (sw_pending s)\<rparr>)))"

text \<open>What is kept while the check of a claim is awaited.\<close>

record claim_ticket =
  ct_hostId :: int
  ct_serviceId :: int
  ct_taskId :: string
  ct_expectedIp :: string
  ct_promise :: nat

definition claim_begin :: "int \<Rightarrow> string \<Rightarrow> int \<Rightarrow> 'r switch_tasks \<Rightarrow> claim_ticket option \<times> 'r switch_tasks" where
  "claim_begin hostId taskId clock s =
     (case map_get (sw_pending s) hostId of
        None \<Rightarrow> (None, s)
      | Some current \<Rightarrow>
          if ps_taskId current \<noteq> taskId \<or> \<not> ps_delivered current \<or> ps_claimStarted current \<or> ps_expiresAt current * 1000 \<le> clock
          then (None, s)
          else (Some \<lparr>ct_hostId = hostId, ct_serviceId = ps_serviceId current, ct_taskId = taskId,
                      ct_expectedIp = ps_expectedIp current, ct_promise = ps_promise current\<rparr>,
                s \<lparr>sw_pending := map_set hostId (current \<lparr>ps_claimStarted := True\<rparr>) (sw_pending s)\<rparr>))"

definition claim_end :: "claim_ticket \<Rightarrow> bool \<Rightarrow> 'r switch_tasks \<Rightarrow> bool \<times> 'r switch_tasks" where
  "claim_end tk valid s =
     (case map_get (sw_pending s) (ct_hostId tk) of
        None \<Rightarrow> (False, s)
      | Some current \<Rightarrow>
          if ps_promise current \<noteq> ct_promise tk then (False, s)
          else (valid, s \<lparr>sw_pending := map_set (ct_hostId tk) (current \<lparr>ps_claimed := valid\<rparr>) (sw_pending s)\<rparr>))"


section \<open>What the panel makes of a result\<close>

text \<open>
  \<open>isIP\<close> and the check of outgoing addresses are parameters; \<open>http\<close> is the hook's mode
  \<open>"http"\<close>, \<open>ipPath\<close> tells that the hook names the field of the new address.
\<close>

datatype verify_error = SuccessUnconfirmed | InvalidNewIp | UnsafeNewIp

definition verifyIpSwitchResponse ::
    "(string \<Rightarrow> bool) \<Rightarrow> (string \<Rightarrow> bool) \<Rightarrow> bool \<Rightarrow> bool \<Rightarrow> agent_result \<Rightarrow> string \<Rightarrow> verify_error + string option" where
  "verifyIpSwitchResponse isIP safe http ipPath response oldIp =
     (if ar_outcome response \<noteq> (if http then OutAccepted else OutVerified) then Inl SuccessUnconfirmed
      else if \<not> ipPath then Inr None
      else case ar_newIp response of
        None \<Rightarrow> Inl InvalidNewIp
      | Some ip \<Rightarrow>
          if \<not> isIP (js_trim ip) \<or> js_trim ip = oldIp then Inl InvalidNewIp
          else if \<not> safe (js_trim ip) then Inl UnsafeNewIp
          else Inr (Some (js_trim ip)))"

text \<open>The part of \<open>performSwitch\<close> after the promise is settled; \<open>updates\<close> is \<open>updateAddress !== "none"\<close>.\<close>

definition reply_of ::
    "(string \<Rightarrow> bool) \<Rightarrow> (string \<Rightarrow> bool) \<Rightarrow> bool \<Rightarrow> bool \<Rightarrow> bool \<Rightarrow> string \<Rightarrow> sync_outcome \<Rightarrow> agent_result \<Rightarrow> switch_reply" where
  "reply_of isIP safe http ipPath updates oldIp sync response =
     (if ar_outcome response = OutNotExecuted then ReplyNotExecuted
      else case verifyIpSwitchResponse isIP safe http ipPath response oldIp of
        Inl e \<Rightarrow> ReplyThrew
      | Inr newIp \<Rightarrow> Replied (ar_outcome response = OutAccepted) (newIp \<noteq> None \<and> newIp \<noteq> Some [] \<and> updates) sync)"

lemma success_outcome:
  "switch_status (reply_of isIP safe http ipPath updates oldIp sync r) \<notin> {NotExecuted, Uncertain} \<Longrightarrow>
     ar_outcome r \<in> {OutAccepted, OutVerified}"
  by (auto simp: reply_of_def switch_status_def verifyIpSwitchResponse_def split: if_splits sum.splits)

section \<open>Runs\<close>

text \<open>
  A run interleaves the calls of the panel, of agents and of timers. The logs beside the tasks
  are outputs of the calls: the promises made, with host and task; those whose task was handed
  out; those whose claim was granted; those that the panel settled by itself.
\<close>

record 'r switch_world =
  sx_tasks :: "'r switch_tasks"
  sx_tickets :: "claim_ticket list"
  sx_issued :: "(int \<times> string) list"
  sx_delivered :: "nat list"
  sx_granted :: "nat list"
  sx_panel :: "nat list"

definition idle_world :: "'r switch_world" where
  "idle_world = \<lparr>sx_tasks = no_switch_tasks, sx_tickets = [], sx_issued = [], sx_delivered = [], sx_granted = [], sx_panel = []\<rparr>"

datatype 'r switch_call =
  ReportCapability int jsval int
| EnqueueSwitch int string int string 'r int int int
| TakeSwitch int int int
| ClaimBegin int string int
| ClaimEnd nat "bool option"
| CompleteSwitch int json_body
| ExpireSwitch nat int

definition pending_promise :: "int \<Rightarrow> 'r switch_tasks \<Rightarrow> nat list" where
  "pending_promise hostId s = (case map_get (sw_pending s) hostId of None \<Rightarrow> [] | Some current \<Rightarrow> [ps_promise current])"

definition newly_settled :: "'r switch_tasks \<Rightarrow> 'r switch_tasks \<Rightarrow> nat list" where
  "newly_settled s s' = map fst (drop (length (sw_settled s)) (sw_settled s'))"

fun do_call :: "(string \<Rightarrow> bool) \<Rightarrow> 'r switch_call \<Rightarrow> 'r switch_world \<Rightarrow> 'r switch_world" where
  "do_call uuid (ReportCapability h supported now) w =
     w \<lparr>sx_tasks := recordIpSwitchAgentCapability h supported now (sx_tasks w)\<rparr>"
| "do_call uuid (EnqueueSwitch h taskId serviceId ip request timeout now clock) w =
     (let (res, s) = enqueueIpSwitchAgentTask h taskId serviceId ip request timeout now clock (sx_tasks w)
      in w \<lparr>sx_tasks := s, sx_issued := (case res of Inl e \<Rightarrow> sx_issued w | Inr n \<Rightarrow> sx_issued w @ [(h, taskId)])\<rparr>)"
| "do_call uuid (TakeSwitch h now clock) w =
     (let (given, s) = takeIpSwitchAgentTasks uuid h now clock (sx_tasks w)
      in w \<lparr>sx_tasks := s,
            sx_delivered := (if given = [] then sx_delivered w else sx_delivered w @ pending_promise h (sx_tasks w)),
            sx_panel := sx_panel w @ newly_settled (sx_tasks w) s\<rparr>)"
| "do_call uuid (ClaimBegin h taskId clock) w =
     (let (tk, s) = claim_begin h taskId clock (sx_tasks w)
      in w \<lparr>sx_tasks := s, sx_tickets := (case tk of None \<Rightarrow> sx_tickets w | Some t \<Rightarrow> sx_tickets w @ [t])\<rparr>)"
| "do_call uuid (ClaimEnd n valid) w =
     (if n < length (sx_tickets w)
      then let tk = sx_tickets w ! n;
               (ok, s) = (case valid of None \<Rightarrow> (False, sx_tasks w) | Some v \<Rightarrow> claim_end tk v (sx_tasks w))
           in w \<lparr>sx_tasks := s, sx_tickets := take n (sx_tickets w) @ drop (Suc n) (sx_tickets w),
                 sx_granted := (if ok then sx_granted w @ [ct_promise tk] else sx_granted w)\<rparr>
      else w)"
| "do_call uuid (CompleteSwitch h body) w =
     w \<lparr>sx_tasks := snd (completeIpSwitchAgentTask uuid h body (sx_tasks w))\<rparr>"
| "do_call uuid (ExpireSwitch handle now) w =
     (let s = expire_switch handle now (sx_tasks w)
      in w \<lparr>sx_tasks := s, sx_panel := sx_panel w @ newly_settled (sx_tasks w) s\<rparr>)"

definition switch_run :: "(string \<Rightarrow> bool) \<Rightarrow> 'r switch_call list \<Rightarrow> 'r switch_world" where
  "switch_run uuid calls = fold (do_call uuid) calls idle_world"

text \<open>What holds of a settled promise.\<close>

definition settled_ok :: "'r switch_world \<Rightarrow> nat \<times> agent_result \<Rightarrow> bool" where
  "settled_ok w = (\<lambda>(n, r).
     n < length (sx_issued w) \<and> snd (sx_issued w ! n) = ar_taskId r \<and>
     (if ar_outcome r \<in> {OutAccepted, OutVerified} then n \<in> set (sx_granted w) else True) \<and>
     (if n \<in> set (sx_panel w)
      then ar_outcome r = (if n \<in> set (sx_delivered w) then OutUncertain else OutNotExecuted) else True))"

text \<open>The promises that a timer of their own will settle, if nothing else does.\<close>

definition armed_promises :: "'r switch_tasks \<Rightarrow> nat list" where
  "armed_promises s = map (\<lambda>(handle, due, h, taskId, n). n) (active (sw_timers s))"

definition switch_world_ok :: "'r switch_world \<Rightarrow> bool" where
  "switch_world_ok w \<longleftrightarrow>
     (let settled = map fst (sw_settled (sx_tasks w)); issued = [0 ..< length (sx_issued w)] in
      distinct settled \<and> distinct (sx_delivered w) \<and> distinct (sx_granted w) \<and>
      set (sx_granted w) \<subseteq> set (sx_delivered w) \<and> set (sx_delivered w) \<subseteq> set issued \<and>
      list_all (settled_ok w) (sw_settled (sx_tasks w)) \<and>
      distinct (armed_promises (sx_tasks w)) \<and>
      set (armed_promises (sx_tasks w)) = set issued - set settled \<and>
      distinct (map (\<lambda>n. fst (sx_issued w ! n)) (armed_promises (sx_tasks w))))"

section \<open>The invariant\<close>

definition entry_ok :: "'r switch_world \<Rightarrow> int \<Rightarrow> 'r pending_switch \<Rightarrow> bool" where
  "entry_ok w h p \<longleftrightarrow>
     (let n = ps_promise p in
      n < length (sx_issued w) \<and> sx_issued w ! n = (h, ps_taskId p) \<and>
      n \<notin> fst ` set (sw_settled (sx_tasks w)) \<and> n \<notin> set (sx_panel w) \<and>
      timer_payload (sw_timers (sx_tasks w)) (ps_timer p) = Some (h, ps_taskId p, n) \<and>
      (ps_delivered p \<longleftrightarrow> n \<in> set (sx_delivered w)) \<and>
      (ps_task p = None \<longleftrightarrow> ps_delivered p) \<and>
      (ps_claimStarted p \<longrightarrow> ps_delivered p) \<and>
      (ps_claimed p \<longleftrightarrow> n \<in> set (sx_granted w)) \<and>
      (n \<in> set (sx_granted w) \<union> ct_promise ` set (sx_tickets w) \<longrightarrow> ps_claimStarted p))"

definition covered :: "'r switch_world \<Rightarrow> bool" where
  "covered w \<longleftrightarrow> (\<forall>n < length (sx_issued w). n \<in> fst ` set (sw_settled (sx_tasks w)) \<or>
     (\<exists>p. map_get (sw_pending (sx_tasks w)) (fst (sx_issued w ! n)) = Some p \<and> ps_promise p = n))"

definition logs_ok :: "'r switch_world \<Rightarrow> bool" where
  "logs_ok w \<longleftrightarrow>
     distinct (sx_delivered w) \<and> distinct (sx_granted w) \<and>
     set (sx_granted w) \<subseteq> set (sx_delivered w) \<and> set (sx_delivered w) \<subseteq> {..< length (sx_issued w)} \<and>
     distinct (map ct_promise (sx_tickets w)) \<and>
     ct_promise ` set (sx_tickets w) \<inter> set (sx_granted w) = {} \<and>
     ct_promise ` set (sx_tickets w) \<subseteq> set (sx_delivered w) \<and>
     set (sx_panel w) \<subseteq> fst ` set (sw_settled (sx_tasks w)) \<and>
     distinct (map fst (sw_settled (sx_tasks w)))"

definition host_of_timer :: "int \<times> string \<times> nat \<Rightarrow> int option" where
  "host_of_timer = (\<lambda>(h, t, n). Some h)"

definition table_ok :: "'r switch_world \<Rightarrow> bool" where
  "table_ok w \<longleftrightarrow>
     (let s = sx_tasks w in
      wf_map (sw_pending s) \<and>
      tracks host_of_timer (table_handles ps_timer (sw_pending s)) (sw_timers s) \<and>
      sw_promises s = length (sx_issued w))"

definition switch_inv :: "'r switch_world \<Rightarrow> bool" where
  "switch_inv w \<longleftrightarrow> table_ok w \<and> covered w \<and> logs_ok w \<and>
     (\<forall>h p. map_get (sw_pending (sx_tasks w)) h = Some p \<longrightarrow> entry_ok w h p) \<and>
     (\<forall>n r. (n, r) \<in> set (sw_settled (sx_tasks w)) \<longrightarrow> settled_ok w (n, r))"

lemma switch_invI:
  assumes "table_ok w" "covered w" "logs_ok w"
    "\<And>h p. map_get (sw_pending (sx_tasks w)) h = Some p \<Longrightarrow> entry_ok w h p"
    "\<And>n r. (n, r) \<in> set (sw_settled (sx_tasks w)) \<Longrightarrow> settled_ok w (n, r)"
  shows "switch_inv w"
  using assms unfolding switch_inv_def by blast

lemma switch_invD:
  assumes "switch_inv w"
  shows "table_ok w" "covered w" "logs_ok w"
    and "map_get (sw_pending (sx_tasks w)) h = Some p \<Longrightarrow> entry_ok w h p"
    and "(n, r) \<in> set (sw_settled (sx_tasks w)) \<Longrightarrow> settled_ok w (n, r)"
  using assms unfolding switch_inv_def by blast+

lemma host_of_timer_simp [simp]: "host_of_timer (h, t, n) = Some h"
  by (simp add: host_of_timer_def)

lemma switch_inv_idle: "switch_inv idle_world"
  by (intro switch_invI)
    (simp_all add: table_ok_def covered_def logs_ok_def idle_world_def no_switch_tasks_def tracks_empty)

text \<open>Capabilities are not part of the invariant.\<close>

lemma capabilities_frame: "switch_inv (w \<lparr>sx_tasks := (sx_tasks w) \<lparr>sw_capabilities := c\<rparr>\<rparr>) = switch_inv w"
  unfolding switch_inv_def table_ok_def covered_def logs_ok_def entry_ok_def settled_ok_def Let_def by simp

lemma capability_inv:
  "switch_inv w \<Longrightarrow> switch_inv (w \<lparr>sx_tasks := recordIpSwitchAgentCapability h v now (sx_tasks w)\<rparr>)"
  by (simp add: recordIpSwitchAgentCapability_def capabilities_frame)

text \<open>Every promise in a log has been made.\<close>

lemma promises_made:
  assumes "switch_inv w"
  shows "fst ` set (sw_settled (sx_tasks w)) \<subseteq> {..< length (sx_issued w)}"
    and "set (sx_delivered w) \<subseteq> {..< length (sx_issued w)}"
    and "set (sx_granted w) \<subseteq> {..< length (sx_issued w)}"
    and "ct_promise ` set (sx_tickets w) \<subseteq> {..< length (sx_issued w)}"
    and "set (sx_panel w) \<subseteq> {..< length (sx_issued w)}"
proof -
  note logs = switch_invD(3) [OF assms, unfolded logs_ok_def]
  show *: "fst ` set (sw_settled (sx_tasks w)) \<subseteq> {..< length (sx_issued w)}"
  proof
    fix n assume "n \<in> fst ` set (sw_settled (sx_tasks w))"
    then obtain r where "(n, r) \<in> set (sw_settled (sx_tasks w))" by force
    from switch_invD(5) [OF assms this] show "n \<in> {..< length (sx_issued w)}" by (simp add: settled_ok_def)
  qed
  have parts: "set (sx_granted w) \<subseteq> set (sx_delivered w)" "ct_promise ` set (sx_tickets w) \<subseteq> set (sx_delivered w)"
      "set (sx_panel w) \<subseteq> fst ` set (sw_settled (sx_tasks w))"
    using logs by simp_all
  show d: "set (sx_delivered w) \<subseteq> {..< length (sx_issued w)}" using logs by simp
  show "set (sx_granted w) \<subseteq> {..< length (sx_issued w)}" by (rule subset_trans [OF parts(1) d])
  show "ct_promise ` set (sx_tickets w) \<subseteq> {..< length (sx_issued w)}" by (rule subset_trans [OF parts(2) d])
  show "set (sx_panel w) \<subseteq> {..< length (sx_issued w)}" by (rule subset_trans [OF parts(3) *])
qed

text \<open>A new entry.\<close>

lemma new_entry_inv:
  assumes inv: "switch_inv w"
    and absent: "map_get (sw_pending (sx_tasks w)) h = None"
    and set: "setTimer now timeout (h, ps_taskId e, ps_promise e) (sw_timers (sx_tasks w)) = (ps_timer e, ts)"
    and e: "ps_promise e = length (sx_issued w)" "\<not> ps_delivered e" "ps_task e \<noteq> None" "\<not> ps_claimStarted e" "\<not> ps_claimed e"
  shows "switch_inv (w \<lparr>sx_tasks := (sx_tasks w) \<lparr>sw_pending := map_set h e (sw_pending (sx_tasks w)), sw_timers := ts,
      sw_promises := Suc (sw_promises (sx_tasks w)), sw_refreshed := rs\<rparr>, sx_issued := sx_issued w @ [(h, ps_taskId e)]\<rparr>)"
    (is "switch_inv ?w")
proof (rule switch_invI)
  note tab = switch_invD(1) [OF inv, unfolded table_ok_def Let_def]
  then have tr: "tracks host_of_timer (table_handles ps_timer (sw_pending (sx_tasks w))) (sw_timers (sx_tasks w))" by blast
  note pay = timer_payload_set [OF tracks_wf [OF tr] set]
  have fresh: "timer_payload (sw_timers (sx_tasks w)) (ps_timer e) = None" by (rule setTimer_fresh [OF tracks_wf [OF tr] set])
  have tr': "tracks host_of_timer (table_handles ps_timer (map_set h e (sw_pending (sx_tasks w)))) ts"
    by (rule table_set [OF tr absent set]) simp_all
  with tab show "table_ok ?w" by (simp add: table_ok_def)
  have unused: "length (sx_issued w) \<notin> fst ` set (sw_settled (sx_tasks w))" "length (sx_issued w) \<notin> set (sx_delivered w)"
      "length (sx_issued w) \<notin> set (sx_granted w)" "length (sx_issued w) \<notin> ct_promise ` set (sx_tickets w)"
      "length (sx_issued w) \<notin> set (sx_panel w)"
    using promises_made [OF inv] by blast+
  show "covered ?w"
    unfolding covered_def
  proof (intro allI impI)
    fix m assume "m < length (sx_issued ?w)"
    then consider "m = length (sx_issued w)" | "m < length (sx_issued w)" by (auto simp: less_Suc_eq)
    then show "m \<in> fst ` set (sw_settled (sx_tasks ?w)) \<or>
        (\<exists>p. map_get (sw_pending (sx_tasks ?w)) (fst (sx_issued ?w ! m)) = Some p \<and> ps_promise p = m)"
    proof cases
      case 1
      then show ?thesis using e(1) by (simp add: map_get_set)
    next
      case 2
      then show ?thesis
        using switch_invD(2) [OF inv, unfolded covered_def, rule_format, OF 2] absent
        by (auto simp: map_get_set nth_append)
    qed
  qed
  show "logs_ok ?w" using switch_invD(3) [OF inv] by (auto simp: logs_ok_def)
  show "entry_ok ?w h' p" if q: "map_get (sw_pending (sx_tasks ?w)) h' = Some p" for h' p
  proof (cases "h' = h")
    case True
    with q have "p = e" by (simp add: map_get_set)
    then show ?thesis using True e unused pay by (simp add: entry_ok_def)
  next
    case False
    with q have "map_get (sw_pending (sx_tasks w)) h' = Some p" by (simp add: map_get_set)
    from switch_invD(4) [OF inv this] show ?thesis
      using fresh by (auto simp: entry_ok_def Let_def nth_append pay)
  qed
  show "settled_ok ?w (n, r)" if "(n, r) \<in> set (sw_settled (sx_tasks ?w))" for n r
    using switch_invD(5) [OF inv, of n r] that by (simp add: settled_ok_def nth_append)
qed

lemma enqueue_inv:
  assumes inv: "switch_inv w"
  shows "switch_inv (do_call uuid (EnqueueSwitch h taskId serviceId ip request timeout now clock) w)"
proof (cases "\<not> ipSwitchAgentReady h now (sx_tasks w) \<or> map_has (sw_pending (sx_tasks w)) h")
  case True
  then show ?thesis using inv by (simp add: enqueueIpSwitchAgentTask_def)
next
  case False
  define n where "n = sw_promises (sx_tasks w)"
  obtain timer ts where set: "setTimer now timeout (h, taskId, n) (sw_timers (sx_tasks w)) = (timer, ts)"
    by (cases "setTimer now timeout (h, taskId, n) (sw_timers (sx_tasks w))") auto
  have n: "n = length (sx_issued w)" using switch_invD(1) [OF inv] by (simp add: n_def table_ok_def Let_def)
  have absent: "map_get (sw_pending (sx_tasks w)) h = None" using False by (simp add: map_has_def)
  show ?thesis
    using False set n new_entry_inv [OF inv absent, of now timeout
       "\<lparr>ps_taskId = taskId, ps_serviceId = serviceId, ps_expectedIp = ip,
          ps_task = Some \<lparr>tk_taskId = taskId, tk_serviceId = serviceId, tk_request = request,
            tk_expiresAt = ceil_seconds (clock + min timeout 60000)\<rparr>,
          ps_expiresAt = ceil_seconds (clock + min timeout 60000), ps_delivered = False, ps_claimStarted = False,
          ps_claimed = False, ps_promise = n, ps_timer = timer\<rparr>" ts "sw_refreshed (sx_tasks w) @ [h]"]
    by (simp add: enqueueIpSwitchAgentTask_def Let_def n_def)
qed

text \<open>An entry is settled and leaves the table.\<close>

definition settle_entry :: "int \<Rightarrow> 'r pending_switch \<Rightarrow> agent_result \<Rightarrow> 'r switch_tasks \<Rightarrow> 'r switch_tasks" where
  "settle_entry h p r s = s \<lparr>sw_timers := clearTimer (ps_timer p) (sw_timers s), sw_pending := map_delete h (sw_pending s),
     sw_settled := sw_settled s @ [(ps_promise p, r)]\<rparr>"

lemma settle_inv:
  assumes inv: "switch_inv w" and p: "map_get (sw_pending (sx_tasks w)) h = Some p"
    and r: "ar_taskId r = ps_taskId p" "ar_outcome r \<in> {OutAccepted, OutVerified} \<Longrightarrow> ps_claimed p"
    and panel: "set by \<subseteq> {ps_promise p}"
      "by \<noteq> [] \<Longrightarrow> ar_outcome r = (if ps_delivered p then OutUncertain else OutNotExecuted)"
  shows "switch_inv (w \<lparr>sx_tasks := settle_entry h p r (sx_tasks w), sx_panel := sx_panel w @ by\<rparr>)"
    (is "switch_inv ?w")
proof (rule switch_invI)
  note tab = switch_invD(1) [OF inv, unfolded table_ok_def Let_def]
  have ok: "entry_ok w h p" by (rule switch_invD(4) [OF inv p])
  have fresh: "ps_promise p \<notin> fst ` set (sw_settled (sx_tasks w))" "ps_promise p \<notin> set (sx_panel w)"
    using ok by (simp_all add: entry_ok_def Let_def)
  have tr': "tracks host_of_timer (table_handles ps_timer (map_delete h (sw_pending (sx_tasks w))))
      (clearTimer (ps_timer p) (sw_timers (sx_tasks w)))"
    using tab p by (blast intro: table_clear)
  with tab show "table_ok ?w" by (simp add: table_ok_def settle_entry_def)
  show "covered ?w"
    unfolding covered_def
  proof (intro allI impI)
    fix m assume "m < length (sx_issued ?w)"
    then have "m < length (sx_issued w)" by simp
    from switch_invD(2) [OF inv, unfolded covered_def, rule_format, OF this]
    show "m \<in> fst ` set (sw_settled (sx_tasks ?w)) \<or>
        (\<exists>p. map_get (sw_pending (sx_tasks ?w)) (fst (sx_issued ?w ! m)) = Some p \<and> ps_promise p = m)"
      using p by (auto simp: settle_entry_def map_get_delete)
  qed
  show "logs_ok ?w"
    using switch_invD(3) [OF inv] fresh panel(1) by (auto simp: logs_ok_def settle_entry_def)
  show "entry_ok ?w h' q" if q: "map_get (sw_pending (sx_tasks ?w)) h' = Some q" for h' q
  proof -
    from q have q: "map_get (sw_pending (sx_tasks w)) h' = Some q" and "h' \<noteq> h"
      by (auto simp: settle_entry_def map_get_delete split: if_splits)
    note okq = switch_invD(4) [OF inv q]
    from ok okq \<open>h' \<noteq> h\<close> have "ps_promise q \<noteq> ps_promise p" "ps_timer q \<noteq> ps_timer p"
      by (auto simp: entry_ok_def Let_def)
    with okq panel(1) show ?thesis by (auto simp: entry_ok_def Let_def settle_entry_def)
  qed
  show "settled_ok ?w (n, x)" if x: "(n, x) \<in> set (sw_settled (sx_tasks ?w))" for n x
  proof -
    from x consider "(n, x) = (ps_promise p, r)" | "(n, x) \<in> set (sw_settled (sx_tasks w))"
      by (auto simp: settle_entry_def)
    then show ?thesis
    proof cases
      case 1
      then show ?thesis using ok r panel by (cases "by = []") (auto simp: settled_ok_def entry_ok_def Let_def)
    next
      case 2
      then have "n \<noteq> ps_promise p" using fresh by force
      with switch_invD(5) [OF inv 2] panel(1) show ?thesis by (auto simp: settled_ok_def)
    qed
  qed
qed

text \<open>An entry goes on: only what is logged of its own promise changes.\<close>

lemma update_entry_inv:
  assumes inv: "switch_inv w" and p: "map_get (sw_pending (sx_tasks w)) h = Some p"
    and same: "ps_promise q = ps_promise p" "ps_taskId q = ps_taskId p" "ps_timer q = ps_timer p"
    and w': "w' = w \<lparr>sx_tasks := (sx_tasks w) \<lparr>sw_pending := map_set h q (sw_pending (sx_tasks w))\<rparr>,
        sx_delivered := d, sx_granted := g, sx_tickets := ts\<rparr>"
    and logs: "logs_ok w'"
    and d: "set d - {ps_promise p} = set (sx_delivered w) - {ps_promise p}"
    and g: "set g - {ps_promise p} = set (sx_granted w) - {ps_promise p}"
    and t: "ct_promise ` set ts - {ps_promise p} \<subseteq> ct_promise ` set (sx_tickets w)"
    and q: "entry_ok w' h q"
  shows "switch_inv w'"
proof (rule switch_invI)
  have ok: "entry_ok w h p" by (rule switch_invD(4) [OF inv p])
  have "table_handles ps_timer (map_set h q (sw_pending (sx_tasks w))) = table_handles ps_timer (sw_pending (sx_tasks w))"
    unfolding map_get_set_fun using p same(3) by (auto simp: fun_eq_iff)
  then show "table_ok w'" using switch_invD(1) [OF inv] by (simp add: table_ok_def w' Let_def)
  show "covered w'"
    unfolding covered_def
  proof (intro allI impI)
    fix m assume "m < length (sx_issued w')"
    then have "m < length (sx_issued w)" by (simp add: w')
    from switch_invD(2) [OF inv, unfolded covered_def, rule_format, OF this]
    show "m \<in> fst ` set (sw_settled (sx_tasks w')) \<or>
        (\<exists>p. map_get (sw_pending (sx_tasks w')) (fst (sx_issued w' ! m)) = Some p \<and> ps_promise p = m)"
      using p same(1) by (auto simp: w' map_get_set)
  qed
  show "logs_ok w'" by (rule logs)
  show "entry_ok w' h' r" if r: "map_get (sw_pending (sx_tasks w')) h' = Some r" for h' r
  proof (cases "h' = h")
    case True
    with r have "r = q" by (simp add: w' map_get_set)
    with True q show ?thesis by simp
  next
    case False
    with r have r: "map_get (sw_pending (sx_tasks w)) h' = Some r" by (simp add: w' map_get_set)
    note okr = switch_invD(4) [OF inv r]
    from ok okr False have n: "ps_promise r \<noteq> ps_promise p" by (auto simp: entry_ok_def Let_def)
    have "ps_promise r \<in> set d \<longleftrightarrow> ps_promise r \<in> set (sx_delivered w)"
        "ps_promise r \<in> set g \<longleftrightarrow> ps_promise r \<in> set (sx_granted w)"
        "ps_promise r \<in> ct_promise ` set ts \<Longrightarrow> ps_promise r \<in> ct_promise ` set (sx_tickets w)"
      using d g t n by blast+
    with okr show ?thesis by (simp add: entry_ok_def Let_def w') blast
  qed
  show "settled_ok w' (n, r)" if x: "(n, r) \<in> set (sw_settled (sx_tasks w'))" for n r
  proof -
    from x have x: "(n, r) \<in> set (sw_settled (sx_tasks w))" by (simp add: w')
    then have "n \<noteq> ps_promise p" using ok by (auto simp: entry_ok_def Let_def image_iff)
    then have "n \<in> set d \<longleftrightarrow> n \<in> set (sx_delivered w)" "n \<in> set g \<longleftrightarrow> n \<in> set (sx_granted w)"
      using d g by blast+
    with switch_invD(5) [OF inv x] show ?thesis by (simp add: settled_ok_def w')
  qed
qed

lemma complete_inv:
  assumes inv: "switch_inv w"
  shows "switch_inv (do_call uuid (CompleteSwitch h body) w)"
proof (cases "fst (completeIpSwitchAgentTask uuid h body (sx_tasks w))")
  case False
  then have "snd (completeIpSwitchAgentTask uuid h body (sx_tasks w)) = sx_tasks w"
    by (auto simp: completeIpSwitchAgentTask_def split: option.splits if_splits)
  then show ?thesis using inv by simp
next
  case True
  then obtain r p where parsed: "ipSwitchResultSchema uuid body = Some r" and p: "map_get (sw_pending (sx_tasks w)) h = Some p"
    by (auto simp: completeIpSwitchAgentTask_def split: option.splits)
  have guards: "\<not> (ps_taskId p \<noteq> ar_taskId r \<or> \<not> ps_delivered p \<and> ar_reason r \<noteq> RExpired)"
      "\<not> (ar_outcome r \<in> {OutAccepted, OutVerified} \<and> \<not> ps_claimed p)"
    using True parsed p unfolding completeIpSwitchAgentTask_def by (simp_all split: if_splits)
  then have "snd (completeIpSwitchAgentTask uuid h body (sx_tasks w)) = settle_entry h p r (sx_tasks w)"
    using parsed p unfolding completeIpSwitchAgentTask_def settle_entry_def by (simp only: option.case if_False snd_conv)
  then have r: "map_get (sw_pending (sx_tasks w)) h = Some p" "ps_taskId p = ar_taskId r"
      "ar_outcome r \<in> {OutAccepted, OutVerified} \<Longrightarrow> ps_claimed p"
      "snd (completeIpSwitchAgentTask uuid h body (sx_tasks w)) = settle_entry h p r (sx_tasks w)"
    using p guards by blast+
  show ?thesis using settle_inv [OF inv r(1) r(2) [symmetric] r(3), of "[]"] r(4) by simp
qed

lemma expire_inv:
  assumes inv: "switch_inv w"
  shows "switch_inv (do_call uuid (ExpireSwitch handle now) w)"
proof (cases "due_timer handle now (sw_timers (sx_tasks w))")
  case None
  then show ?thesis using inv by (simp add: expire_switch_def newly_settled_def)
next
  case (Some x)
  obtain h taskId n where x: "x = (h, taskId, n)" by (cases x) auto
  note tab = switch_invD(1) [OF inv, unfolded table_ok_def Let_def]
  have due: "due_timer handle now (sw_timers (sx_tasks w)) = Some (h, taskId, n)" using Some x by simp
  have tr: "tracks host_of_timer (table_handles ps_timer (sw_pending (sx_tasks w))) (sw_timers (sx_tasks w))"
    using tab by blast
  have "table_handles ps_timer (sw_pending (sx_tasks w)) h = Some handle"
    by (rule tracks_due [OF tr due]) simp
  then obtain p where p: "map_get (sw_pending (sx_tasks w)) h = Some p" "ps_timer p = handle" by auto
  have pay: "taskId = ps_taskId p" "n = ps_promise p"
    using switch_invD(4) [OF inv p(1)] due_timer_payload [OF due] p(2) by (auto simp: entry_ok_def Let_def)
  define r where "r = panel_result taskId (if ps_delivered p then OutUncertain else OutNotExecuted)"
  have "expire_switch handle now (sx_tasks w) = settle_entry h p r (sx_tasks w)"
    using due p pay by (simp add: expire_switch_def settle_entry_def r_def Let_def)
  moreover have "newly_settled (sx_tasks w) (settle_entry h p r (sx_tasks w)) = [ps_promise p]"
    by (simp add: newly_settled_def settle_entry_def)
  moreover have "switch_inv (w \<lparr>sx_tasks := settle_entry h p r (sx_tasks w), sx_panel := sx_panel w @ [ps_promise p]\<rparr>)"
    using pay by (intro settle_inv [OF inv p(1)]) (auto simp: r_def panel_result_def split: if_splits)
  ultimately show ?thesis by (simp add: Let_def)
qed

lemma expired_result:
  "ipSwitchResultSchema uuid (Some [(''taskId'', JStr t), (''outcome'', JStr ''not_executed''), (''reason'', JStr ''expired'')]) =
     (if uuid t then Some (panel_result t OutNotExecuted) else None)"
  by (simp add: ipSwitchResultSchema_def body_field_def outcome_names_def reason_names_def panel_result_def)

lemma take_inv:
  assumes inv: "switch_inv w"
  shows "switch_inv (do_call uuid (TakeSwitch h now clock) w)"
proof (cases "map_get (sw_pending (sx_tasks w)) h")
  case None
  then show ?thesis using inv by (simp add: takeIpSwitchAgentTasks_def newly_settled_def)
next
  case (Some p)
  note ok = switch_invD(4) [OF inv Some]
  note logs = switch_invD(3) [OF inv, unfolded logs_ok_def]
  show ?thesis
  proof (cases "ps_task p = None \<or> \<not> ipSwitchAgentReady h now (sx_tasks w)")
    case True
    then show ?thesis using inv Some by (auto simp: takeIpSwitchAgentTasks_def newly_settled_def split: option.splits)
  next
    case False
    then obtain task where task: "ps_task p = Some task" and ready: "ipSwitchAgentReady h now (sx_tasks w)" by auto
    have undelivered: "\<not> ps_delivered p" using ok task by (auto simp: entry_ok_def Let_def)
    show ?thesis
    proof (cases "ps_expiresAt p * 1000 \<le> clock")
      case False
      define q where "q = p \<lparr>ps_task := None, ps_delivered := True\<rparr>"
      define w' where "w' = w \<lparr>sx_tasks := (sx_tasks w) \<lparr>sw_pending := map_set h q (sw_pending (sx_tasks w))\<rparr>,
        sx_delivered := sx_delivered w @ [ps_promise p], sx_granted := sx_granted w, sx_tickets := sx_tickets w\<rparr>"
      have "do_call uuid (TakeSwitch h now clock) w = w'"
        using Some task ready False
        by (simp add: takeIpSwitchAgentTasks_def newly_settled_def pending_promise_def w'_def q_def)
      moreover have "logs_ok w'"
        using logs ok undelivered by (auto simp: logs_ok_def w'_def entry_ok_def Let_def)
      moreover have "entry_ok w' h q"
        using ok undelivered by (auto simp: entry_ok_def Let_def w'_def q_def)
      ultimately show ?thesis
        using update_entry_inv [OF inv Some _ _ _ w'_def] by (simp add: q_def)
    next
      case True
      define r where "r = panel_result (ps_taskId p) OutNotExecuted"
      show ?thesis
      proof (cases "uuid (ps_taskId p)")
        case False
        then show ?thesis
          using inv Some task ready True
          by (simp add: takeIpSwitchAgentTasks_def completeIpSwitchAgentTask_def expired_result newly_settled_def)
      next
        case uuid: True
        have "takeIpSwitchAgentTasks uuid h now clock (sx_tasks w) = ([], settle_entry h p r (sx_tasks w))"
          using Some task ready True uuid
          by (simp add: takeIpSwitchAgentTasks_def completeIpSwitchAgentTask_def expired_result settle_entry_def r_def
              panel_result_def)
        moreover have "newly_settled (sx_tasks w) (settle_entry h p r (sx_tasks w)) = [ps_promise p]"
          by (simp add: newly_settled_def settle_entry_def)
        moreover have "switch_inv (w \<lparr>sx_tasks := settle_entry h p r (sx_tasks w), sx_panel := sx_panel w @ [ps_promise p]\<rparr>)"
          using undelivered by (intro settle_inv [OF inv Some]) (auto simp: r_def panel_result_def)
        ultimately show ?thesis by simp
      qed
    qed
  qed
qed

lemma claim_begin_inv:
  assumes inv: "switch_inv w"
  shows "switch_inv (do_call uuid (ClaimBegin h taskId clock) w)"
proof (cases "map_get (sw_pending (sx_tasks w)) h")
  case None
  then show ?thesis using inv by (simp add: claim_begin_def)
next
  case (Some p)
  note ok = switch_invD(4) [OF inv Some]
  show ?thesis
  proof (cases "ps_taskId p \<noteq> taskId \<or> \<not> ps_delivered p \<or> ps_claimStarted p \<or> ps_expiresAt p * 1000 \<le> clock")
    case True
    then show ?thesis using inv Some by (simp add: claim_begin_def)
  next
    case False
    define tk where "tk = \<lparr>ct_hostId = h, ct_serviceId = ps_serviceId p, ct_taskId = taskId,
        ct_expectedIp = ps_expectedIp p, ct_promise = ps_promise p\<rparr>"
    define q where "q = p \<lparr>ps_claimStarted := True\<rparr>"
    define w' where "w' = w \<lparr>sx_tasks := (sx_tasks w) \<lparr>sw_pending := map_set h q (sw_pending (sx_tasks w))\<rparr>,
        sx_delivered := sx_delivered w, sx_granted := sx_granted w, sx_tickets := sx_tickets w @ [tk]\<rparr>"
    have fresh: "ps_promise p \<notin> ct_promise ` set (sx_tickets w)" "ps_promise p \<notin> set (sx_granted w)"
        "ps_promise p \<in> set (sx_delivered w)"
      using ok False by (auto simp: entry_ok_def Let_def)
    have "do_call uuid (ClaimBegin h taskId clock) w = w'"
      using Some False by (simp add: claim_begin_def w'_def q_def tk_def)
    moreover have "logs_ok w'"
      using switch_invD(3) [OF inv] fresh by (auto simp: logs_ok_def w'_def tk_def)
    moreover have "entry_ok w' h q"
      using ok False by (auto simp: entry_ok_def Let_def w'_def q_def)
    ultimately show ?thesis
      using update_entry_inv [OF inv Some _ _ _ w'_def] by (auto simp: q_def tk_def)
  qed
qed

text \<open>A ticket is used up; nothing else changes.\<close>

lemma tickets_logged:
  assumes "switch_inv w"
  shows "ct_promise ` set (sx_tickets w) \<inter> set (sx_granted w) = {}"
    and "ct_promise ` set (sx_tickets w) \<subseteq> set (sx_delivered w)"
    and "distinct (map ct_promise (sx_tickets w))"
  using switch_invD(3) [OF assms] by (simp_all add: logs_ok_def)

lemma fewer_tickets:
  assumes "switch_inv w" and "set ts \<subseteq> set (sx_tickets w)"
  shows "ct_promise ` set ts \<inter> set (sx_granted w) = {}" and "ct_promise ` set ts \<subseteq> set (sx_delivered w)"
proof -
  note sub = image_mono [OF assms(2), of ct_promise]
  show "ct_promise ` set ts \<inter> set (sx_granted w) = {}"
    using Int_mono [OF sub subset_refl [of "set (sx_granted w)"]] tickets_logged(1) [OF assms(1)] by simp
  show "ct_promise ` set ts \<subseteq> set (sx_delivered w)"
    by (rule subset_trans [OF sub tickets_logged(2) [OF assms(1)]])
qed

lemma drop_one:
  assumes n: "n < length xs" and dist: "distinct (map f xs)"
  shows "distinct (map f (take n xs @ drop (Suc n) xs))"
    and "set (take n xs @ drop (Suc n) xs) \<subseteq> set xs"
    and "f (xs ! n) \<notin> f ` set (take n xs @ drop (Suc n) xs)"
proof -
  obtain a b where a: "a = take n xs" and b: "b = drop (Suc n) xs" by simp
  have split: "xs = a @ xs ! n # b" unfolding a b using n by (rule id_take_nth_drop)
  from dist have d: "distinct (map f (a @ xs ! n # b))" using split by simp
  show "distinct (map f (take n xs @ drop (Suc n) xs))" using d unfolding a [symmetric] b [symmetric] by auto
  have "set (a @ b) \<subseteq> set (a @ xs ! n # b)" by auto
  then show "set (take n xs @ drop (Suc n) xs) \<subseteq> set xs" using split unfolding a [symmetric] b [symmetric] by simp
  show "f (xs ! n) \<notin> f ` set (take n xs @ drop (Suc n) xs)" using d unfolding a [symmetric] b [symmetric] by auto
qed

lemma drop_ticket_inv:
  assumes inv: "switch_inv w" and n: "n < length (sx_tickets w)"
  shows "switch_inv (w \<lparr>sx_tickets := take n (sx_tickets w) @ drop (Suc n) (sx_tickets w)\<rparr>)"
proof -
  define ts where "ts = take n (sx_tickets w) @ drop (Suc n) (sx_tickets w)"
  note logs = switch_invD(3) [OF inv, unfolded logs_ok_def]
  note dist = tickets_logged(3) [OF inv]
  have sub: "set ts \<subseteq> set (sx_tickets w)" unfolding ts_def by (rule drop_one(2) [OF n dist])
  have ts: "distinct (map ct_promise ts)" "ct_promise ` set ts \<subseteq> ct_promise ` set (sx_tickets w)"
    unfolding ts_def by (rule drop_one(1) [OF n dist], rule image_mono [OF drop_one(2) [OF n dist]])
  have "switch_inv (w \<lparr>sx_tickets := ts\<rparr>)" (is "switch_inv ?w")
  proof (rule switch_invI)
    show "logs_ok ?w" using logs ts(1) fewer_tickets [OF inv sub] by (simp add: logs_ok_def)
    show "table_ok ?w" "covered ?w" using switch_invD(1,2) [OF inv] by (simp_all add: table_ok_def covered_def)
    show "entry_ok ?w h p" if "map_get (sw_pending (sx_tasks ?w)) h = Some p" for h p
    proof -
      have "ps_promise p \<in> ct_promise ` set ts \<Longrightarrow> ps_promise p \<in> ct_promise ` set (sx_tickets w)" using ts(2) by blast
      with switch_invD(4) [OF inv, of h p] that show ?thesis by (simp add: entry_ok_def Let_def) blast
    qed
    show "settled_ok ?w (m, r)" if "(m, r) \<in> set (sw_settled (sx_tasks ?w))" for m r
      using switch_invD(5) [OF inv, of m r] that by (simp add: settled_ok_def)
  qed
  then show ?thesis by (simp add: ts_def)
qed

lemma grant_inv:
  assumes inv: "switch_inv w" and tk: "n < length (sx_tickets w)" "tk = sx_tickets w ! n"
    and p: "map_get (sw_pending (sx_tasks w)) (ct_hostId tk) = Some p" "ps_promise p = ct_promise tk"
  shows "switch_inv (w \<lparr>sx_tasks := (sx_tasks w) \<lparr>sw_pending := map_set (ct_hostId tk) (p \<lparr>ps_claimed := True\<rparr>) (sw_pending (sx_tasks w))\<rparr>,
     sx_tickets := take n (sx_tickets w) @ drop (Suc n) (sx_tickets w), sx_granted := sx_granted w @ [ct_promise tk]\<rparr>)"
proof -
  define q where "q = p \<lparr>ps_claimed := True\<rparr>"
  define ts where "ts = take n (sx_tickets w) @ drop (Suc n) (sx_tickets w)"
  define w' where "w' = w \<lparr>sx_tasks := (sx_tasks w) \<lparr>sw_pending := map_set (ct_hostId tk) q (sw_pending (sx_tasks w))\<rparr>,
      sx_delivered := sx_delivered w, sx_granted := sx_granted w @ [ct_promise tk], sx_tickets := ts\<rparr>"
  have dist: "distinct (map ct_promise (sx_tickets w))"
    using switch_invD(3) [OF inv] by (simp add: logs_ok_def)
  have parts: "set ts \<subseteq> set (sx_tickets w)" "distinct (map ct_promise ts)" "ct_promise tk \<notin> ct_promise ` set ts"
    unfolding ts_def tk(2) by (rule drop_one [OF tk(1) dist])+
  have tk_in: "tk \<in> set (sx_tickets w)" using tk by simp
  note logs = switch_invD(3) [OF inv, unfolded logs_ok_def]
  have fresh: "ct_promise tk \<notin> set (sx_granted w)" "ct_promise tk \<in> set (sx_delivered w)"
    using tickets_logged(1,2) [OF inv] tk_in by blast+
  note ok = switch_invD(4) [OF inv p(1)]
  have started: "ps_claimStarted p" using ok tk_in p(2) by (auto simp: entry_ok_def Let_def)
  have "logs_ok w'"
    using logs fresh parts fewer_tickets [OF inv parts(1)] unfolding logs_ok_def w'_def by simp
  moreover have "entry_ok w' (ct_hostId tk) q"
    using ok started p(2) by (auto simp: entry_ok_def Let_def w'_def q_def)
  ultimately have "switch_inv w'"
    using parts p(2) by (intro update_entry_inv [OF inv p(1) _ _ _ w'_def]) (auto simp: q_def)
  then show ?thesis unfolding w'_def q_def ts_def by (cases w) simp
qed

lemma claim_end_inv:
  assumes inv: "switch_inv w"
  shows "switch_inv (do_call uuid (ClaimEnd n valid) w)"
proof (cases "n < length (sx_tickets w)")
  case False
  then show ?thesis using inv by simp
next
  case n: True
  define tk where "tk = sx_tickets w ! n"
  note dropped = drop_ticket_inv [OF inv n]
  consider (thrown) "valid = None"
    | (gone) v where "valid = Some v" "claim_end tk v (sx_tasks w) = (False, sx_tasks w)"
    | (there) v p where "valid = Some v" "map_get (sw_pending (sx_tasks w)) (ct_hostId tk) = Some p" "ps_promise p = ct_promise tk"
  proof (cases valid)
    case None
    then show ?thesis by (rule that(1))
  next
    case (Some v)
    show ?thesis
    proof (cases "map_get (sw_pending (sx_tasks w)) (ct_hostId tk)")
      case None
      then show ?thesis by (intro that(2) [OF Some]) (simp add: claim_end_def)
    next
      case (Some p)
      show ?thesis
      proof (cases "ps_promise p = ct_promise tk")
        case True
        show ?thesis by (rule that(3) [OF \<open>valid = Some v\<close> Some True])
      next
        case False
        then show ?thesis using Some by (intro that(2) [OF \<open>valid = Some v\<close>]) (simp add: claim_end_def)
      qed
    qed
  qed
  then show ?thesis
  proof cases
    case thrown
    then show ?thesis using dropped n by simp
  next
    case gone
    then show ?thesis using dropped n by (simp add: tk_def [symmetric])
  next
    case there
    have tk_in: "tk \<in> set (sx_tickets w)" using n by (simp add: tk_def)
    show ?thesis
    proof (cases v)
      case True
      then show ?thesis
        using grant_inv [OF inv n tk_def there(2,3)] n there by (simp add: tk_def [symmetric] claim_end_def)
    next
      case False
      have "ct_promise tk \<notin> set (sx_granted w)"
        using tickets_logged(1) [OF inv] tk_in by blast
      then have "\<not> ps_claimed p" using switch_invD(4) [OF inv there(2)] there(3) by (simp add: entry_ok_def Let_def)
      then have "p \<lparr>ps_claimed := v\<rparr> = p" using False by simp
      then have "claim_end tk v (sx_tasks w) = (False, sx_tasks w)"
        using there False by (simp add: claim_end_def map_set_same)
      then show ?thesis using dropped n there by (simp add: tk_def [symmetric])
    qed
  qed
qed

lemma do_call_inv: "switch_inv w \<Longrightarrow> switch_inv (do_call uuid c w)"
  by (cases c)
    (simp_all only: capability_inv enqueue_inv take_inv claim_begin_inv claim_end_inv complete_inv expire_inv do_call.simps(1))

lemma switch_run_inv: "switch_inv (switch_run uuid calls)"
proof -
  have "switch_inv w \<Longrightarrow> switch_inv (fold (do_call uuid) calls w)" for w :: "'a switch_world"
    by (induction calls arbitrary: w) (simp_all only: fold.simps comp_apply id_apply do_call_inv)
  then show ?thesis using switch_inv_idle by (simp add: switch_run_def)
qed

text \<open>Every active timer belongs to an entry, and every entry has one.\<close>

lemma active_timer_entry:
  assumes inv: "switch_inv w" and x: "(handle, due, h, t, n) \<in> set (active (sw_timers (sx_tasks w)))"
  shows "\<exists>p. map_get (sw_pending (sx_tasks w)) h = Some p \<and> ps_timer p = handle \<and> ps_promise p = n \<and> ps_taskId p = t"
proof -
  have tr: "tracks host_of_timer (table_handles ps_timer (sw_pending (sx_tasks w))) (sw_timers (sx_tasks w))"
    using switch_invD(1) [OF inv] by (simp add: table_ok_def Let_def)
  then have wf: "wf_map (active (sw_timers (sx_tasks w)))" by (simp add: tracks_def wf_timers_def)
  have pay: "timer_payload (sw_timers (sx_tasks w)) handle = Some (h, t, n)"
    using x wf by (simp add: timer_payload_def map_get_in)
  from tracks_payload [OF tr this host_of_timer_simp]
  obtain p where p: "map_get (sw_pending (sx_tasks w)) h = Some p" "ps_timer p = handle" by auto
  then show ?thesis using pay switch_invD(4) [OF inv p(1)] by (auto simp: entry_ok_def Let_def)
qed

lemma armed_promises_eq:
  assumes inv: "switch_inv w"
  shows "set (armed_promises (sx_tasks w)) = ps_promise ` {p. \<exists>h. map_get (sw_pending (sx_tasks w)) h = Some p}"
proof (intro set_eqI iffI)
  fix n assume "n \<in> set (armed_promises (sx_tasks w))"
  then show "n \<in> ps_promise ` {p. \<exists>h. map_get (sw_pending (sx_tasks w)) h = Some p}"
    using active_timer_entry [OF inv] by (fastforce simp: armed_promises_def)
next
  fix n assume "n \<in> ps_promise ` {p. \<exists>h. map_get (sw_pending (sx_tasks w)) h = Some p}"
  then obtain h p where p: "map_get (sw_pending (sx_tasks w)) h = Some p" "ps_promise p = n" by auto
  then have "timer_payload (sw_timers (sx_tasks w)) (ps_timer p) = Some (h, ps_taskId p, n)"
    using switch_invD(4) [OF inv p(1)] by (simp add: entry_ok_def Let_def)
  then obtain due where "(ps_timer p, due, h, ps_taskId p, n) \<in> set (active (sw_timers (sx_tasks w)))"
    by (auto simp: timer_payload_def dest: map_get_inD)
  then show "n \<in> set (armed_promises (sx_tasks w))" by (force simp: armed_promises_def)
qed

lemma entries_by_promise:
  assumes inv: "switch_inv w"
    and "map_get (sw_pending (sx_tasks w)) h = Some p" and "map_get (sw_pending (sx_tasks w)) h' = Some p'"
    and "ps_promise p = ps_promise p'"
  shows "h = h'"
  using switch_invD(4) [OF inv assms(2)] switch_invD(4) [OF inv assms(3)] assms(4)
  by (auto simp: entry_ok_def Let_def)

lemma armed_distinct:
  assumes inv: "switch_inv w"
  shows "distinct (armed_promises (sx_tasks w))"
    and "distinct (map (\<lambda>n. fst (sx_issued w ! n)) (armed_promises (sx_tasks w)))"
proof -
  define f :: "nat \<times> int \<times> int \<times> string \<times> nat \<Rightarrow> nat" where "f = (\<lambda>(handle, due, h, t, n). n)"
  define xs where "xs = active (sw_timers (sx_tasks w))"
  have "wf_map xs" using switch_invD(1) [OF inv] by (simp add: table_ok_def Let_def tracks_def wf_timers_def xs_def)
  then have dist: "distinct xs" and keys: "inj_on fst (set xs)" by (auto simp: wf_map_def distinct_map)
  have armed: "armed_promises (sx_tasks w) = map f xs" by (simp add: armed_promises_def f_def xs_def)
  have host: "fst (sx_issued w ! f x) = fst (snd (snd x))" if "x \<in> set xs" for x
  proof -
    obtain handle due h t n where x: "x = (handle, due, h, t, n)" by (cases x) auto
    from active_timer_entry [OF inv] that obtain p where "map_get (sw_pending (sx_tasks w)) h = Some p" "ps_promise p = n"
      unfolding x xs_def by blast
    from switch_invD(4) [OF inv this(1)] this(2) show ?thesis by (auto simp: entry_ok_def Let_def x f_def)
  qed
  have same: "x = y" if "x \<in> set xs" "y \<in> set xs" "fst (snd (snd x)) = fst (snd (snd y))" for x y
  proof -
    obtain handle due h t n where x: "x = (handle, due, h, t, n)" by (cases x) auto
    obtain handle' due' h' t' n' where y: "y = (handle', due', h', t', n')" by (cases y) auto
    have "h = h'" using that(3) by (simp add: x y)
    moreover from active_timer_entry [OF inv that(1) [unfolded x xs_def]]
    obtain p where "map_get (sw_pending (sx_tasks w)) h = Some p" "ps_timer p = handle" by blast
    moreover from active_timer_entry [OF inv that(2) [unfolded y xs_def]]
    obtain q where "map_get (sw_pending (sx_tasks w)) h' = Some q" "ps_timer q = handle'" by blast
    ultimately have "handle = handle'" by simp
    then have "fst x = fst y" by (simp add: x y)
    then show ?thesis by (rule inj_onD [OF keys _ that(1,2)])
  qed
  have "inj_on (\<lambda>x. fst (sx_issued w ! f x)) (set xs)"
    by (rule inj_onI) (metis host same)
  then show "distinct (map (\<lambda>n. fst (sx_issued w ! n)) (armed_promises (sx_tasks w)))"
    unfolding armed map_map comp_def by (simp add: distinct_map dist)
  then show "distinct (armed_promises (sx_tasks w))" unfolding distinct_map by (rule conjunct1)
qed

lemma switch_inv_ok:
  assumes inv: "switch_inv w"
  shows "switch_world_ok w"
proof -
  note logs = switch_invD(3) [OF inv, unfolded logs_ok_def]
  have "settled_ok w x" if "x \<in> set (sw_settled (sx_tasks w))" for x
    using switch_invD(5) [OF inv, of "fst x" "snd x"] that by simp
  then have "list_all (settled_ok w) (sw_settled (sx_tasks w))" by (simp add: list_all_iff)
  moreover have "set (armed_promises (sx_tasks w)) = {..< length (sx_issued w)} - fst ` set (sw_settled (sx_tasks w))"
  proof -
    have a: "ps_promise p \<in> {..< length (sx_issued w)} - fst ` set (sw_settled (sx_tasks w))"
      if "map_get (sw_pending (sx_tasks w)) h = Some p" for h p
      using switch_invD(4) [OF inv that] by (auto simp: entry_ok_def Let_def)
    have b: "\<exists>p h. map_get (sw_pending (sx_tasks w)) h = Some p \<and> ps_promise p = n"
      if "n \<in> {..< length (sx_issued w)} - fst ` set (sw_settled (sx_tasks w))" for n
    proof -
      from that have n: "n < length (sx_issued w)" "n \<notin> fst ` set (sw_settled (sx_tasks w))" by simp_all
      from switch_invD(2) [OF inv, unfolded covered_def, rule_format, OF n(1)] n(2) show ?thesis by metis
    qed
    show ?thesis unfolding armed_promises_eq [OF inv]
    proof (intro equalityI subsetI)
      fix n assume "n \<in> ps_promise ` {p. \<exists>h. map_get (sw_pending (sx_tasks w)) h = Some p}"
      then show "n \<in> {..< length (sx_issued w)} - fst ` set (sw_settled (sx_tasks w))" using a by auto
    next
      fix n assume "n \<in> {..< length (sx_issued w)} - fst ` set (sw_settled (sx_tasks w))"
      from b [OF this] show "n \<in> ps_promise ` {p. \<exists>h. map_get (sw_pending (sx_tasks w)) h = Some p}" by auto
    qed
  qed
  ultimately show ?thesis
    using logs armed_distinct [OF inv] unfolding switch_world_ok_def Let_def
    by (simp add: lessThan_atLeast0)
qed

text \<open>What the panel records as a switch, for whatever hook.\<close>

definition recorded_ok :: "'r switch_world \<Rightarrow> (agent_result \<Rightarrow> switch_reply) \<Rightarrow> bool" where
  "recorded_ok w reply \<longleftrightarrow>
     list_all (\<lambda>(n, r). if switch_status (reply r) \<in> {NotExecuted, Uncertain} then True else n \<in> set (sx_granted w))
       (sw_settled (sx_tasks w))"

text \<open>
  C13: whatever the order in which the panel asks for changes of address, agents fetch tasks,
  claim them and report, checks of claims end, and timers fire: the promise of every request is
  settled at most once, with a result for its own task, and until then exactly one timer is
  armed for it and no other request is open for its host; a task is handed out once at most and
  claimed once at most, after it was handed out; the panel, when it gives up on a task itself,
  calls it uncertain if it was handed out and not executed if it was not; and a change is
  recorded as accepted or done only if the agent was granted the claim.
\<close>

theorem ip_switch_claimed_once:
  "switch_world_ok (switch_run uuid calls) \<and>
   recorded_ok (switch_run uuid calls) (reply_of isIP safe http ipPath updates oldIp sync)"
proof -
  let ?w = "switch_run uuid calls"
  note inv = switch_run_inv [of uuid calls]
  have "n \<in> set (sx_granted ?w)"
    if "(n, r) \<in> set (sw_settled (sx_tasks ?w))"
      "switch_status (reply_of isIP safe http ipPath updates oldIp sync r) \<notin> {NotExecuted, Uncertain}" for n r
    using switch_invD(5) [OF inv that(1)] success_outcome [OF that(2)] by (auto simp: settled_ok_def split: if_splits)
  then show ?thesis using switch_inv_ok [OF inv] unfolding recorded_ok_def list_all_iff by auto
qed

text \<open>A run in which one change is accepted and a second is given up.\<close>

definition sample_calls :: "unit switch_call list" where
  "sample_calls =
     [ReportCapability 7 (JBool True) 0, EnqueueSwitch 7 ''a'' 3 ''10.0.0.1'' () 120000 0 0,
      EnqueueSwitch 7 ''b'' 3 ''10.0.0.1'' () 120000 0 0, TakeSwitch 7 1 1, TakeSwitch 7 2 2,
      ClaimBegin 7 ''a'' 3, ClaimBegin 7 ''a'' 4, ClaimEnd 0 (Some True),
      CompleteSwitch 7 (Some [(''taskId'', JStr ''a''), (''outcome'', JStr ''accepted''), (''reason'', JStr ''ok'')]),
      EnqueueSwitch 7 ''b'' 3 ''10.0.0.1'' () 120000 5 5, ExpireSwitch 1 120005]"

lemma sample_calls_run:
  "(let w = switch_run (\<lambda>_. True) sample_calls in
    map (\<lambda>(n, r). (n, ar_outcome r)) (sw_settled (sx_tasks w)) = [(0, OutAccepted), (1, OutNotExecuted)] \<and>
    sx_granted w = [0] \<and> sx_delivered w = [0] \<and> sx_panel w = [1] \<and> length (sx_issued w) = 2)"
  by code_simp

end
