(* ===== verification/Agent_Events.thy ===== *)
theory Agent_Events
  imports Bounded_Cache
begin

text \<open>
  \<open>server/agentEvents.ts\<close>: the stream of events from the panel to each agent. A frame is written
  at once unless the connection is full; then up to 16 frames and one megabyte wait, in order,
  for its \<open>drain\<close> event, and an agent that falls behind is disconnected. Requests to refresh are
  coalesced, and collected while many rules are saved at once.

  Frames are of a type with a number of bytes, as encryption and JSON are not modelled. What the
  connection does is an argument of each operation: the outcome of each write in turn and whether
  the response is found gone when it is to be terminated. A timer of a client is the time when it is due. What a
  response got is a list of frames in the client, with a flag for those that carry an event; the
  listeners of a response for \<open>drain\<close> and for its end are flags. Listeners for the end of a stream
  are numbers, they are called in order and do not call the stream (the one in the panel,
  in \<open>agentRoutes.ts\<close>, only unregisters the client, which is closed by then).
\<close>

section \<open>Streams\<close>

definition AGENT_EVENT_MAX_PENDING_FRAMES :: nat where
  "AGENT_EVENT_MAX_PENDING_FRAMES = 16"

definition AGENT_EVENT_MAX_PENDING_BYTES :: int where
  "AGENT_EVENT_MAX_PENDING_BYTES = 1024 * 1024"

definition AGENT_EVENT_DRAIN_TIMEOUT_MS :: int where
  "AGENT_EVENT_DRAIN_TIMEOUT_MS = 30000"

datatype write_result = WOk | WFull bool | WThrew | WGone

datatype stream_end = NoEnd | EndResponse | DestroyResponse

record response_io =
  io_write :: "nat \<Rightarrow> write_result"
  io_gone :: bool

record 'f event_client =
  ec_hostId :: int
  ec_token :: string
  ec_res :: nat
  ec_closed :: bool
  ec_backpressured :: bool
  ec_pendingFrames :: "'f list"
  ec_pendingBytes :: int
  ec_drainTimer :: "int option"
  ec_heartbeatTimer :: bool
  ec_closeListeners :: "nat list"
  ec_awaitsDrain :: bool
  ec_listens :: bool
  ec_ended :: stream_end
  ec_sent :: "(bool \<times> 'f) list"
  ec_offered :: "'f list"
  ec_notified :: "nat list"

definition closeAgentEventClient :: "stream_end \<Rightarrow> bool \<Rightarrow> 'f event_client \<Rightarrow> 'f event_client" where
  "closeAgentEventClient terminate gone c =
     (if ec_closed c then c
      else c \<lparr>ec_closed := True, ec_backpressured := False, ec_pendingFrames := [], ec_pendingBytes := 0,
              ec_drainTimer := None, ec_heartbeatTimer := False, ec_awaitsDrain := False, ec_listens := False,
              ec_notified := ec_notified c @ ec_closeListeners c, ec_closeListeners := [],
              ec_ended := (if terminate = NoEnd \<or> gone then ec_ended c else terminate)\<rparr>)"

definition armDrainTimeout :: "int \<Rightarrow> 'f event_client \<Rightarrow> 'f event_client" where
  "armDrainTimeout now c =
     (if ec_drainTimer c \<noteq> None \<or> ec_closed c then c
      else c \<lparr>ec_drainTimer := Some (now + AGENT_EVENT_DRAIN_TIMEOUT_MS)\<rparr>)"

text \<open>The callback of that timer; it also tells whether the issue is to be logged.\<close>

definition drain_timeout :: "int \<Rightarrow> bool \<Rightarrow> 'f event_client \<Rightarrow> bool \<times> 'f event_client" where
  "drain_timeout now gone c =
     (case ec_drainTimer c of
        None \<Rightarrow> (False, c)
      | Some due \<Rightarrow>
          if now < due then (False, c)
          else let c1 = c \<lparr>ec_drainTimer := None\<rparr> in
            if ec_closed c1 \<or> \<not> ec_backpressured c1 then (False, c1)
            else (True, closeAgentEventClient DestroyResponse gone c1))"

text \<open>The \<open>n\<close>-th write of the operation; \<open>event\<close> tells events from comments.\<close>

definition writeFrameNow :: "response_io \<Rightarrow> int \<Rightarrow> nat \<Rightarrow> bool \<Rightarrow> 'f \<Rightarrow> 'f event_client \<Rightarrow> bool \<times> 'f event_client" where
  "writeFrameNow io now n event frame c =
     (if ec_closed c \<or> io_write io n = WGone then (False, closeAgentEventClient NoEnd (io_gone io) c)
      else case io_write io n of
        WThrew \<Rightarrow> (False, closeAgentEventClient DestroyResponse (io_gone io) c)
      | WFull once \<Rightarrow>
          let c1 = c \<lparr>ec_sent := ec_sent c @ [(event, frame)], ec_backpressured := True\<rparr> in
          if \<not> once then (False, closeAgentEventClient DestroyResponse (io_gone io) c1)
          else let c2 = armDrainTimeout now (c1 \<lparr>ec_awaitsDrain := True\<rparr>) in (\<not> ec_closed c2, c2)
      | _ \<Rightarrow> let c1 = c \<lparr>ec_sent := ec_sent c @ [(event, frame)]\<rparr> in (\<not> ec_closed c1, c1))"

text \<open>The loop of \<open>flushPendingFrames\<close> over the frames that wait.\<close>

fun flush_frames :: "('f \<Rightarrow> nat) \<Rightarrow> response_io \<Rightarrow> int \<Rightarrow> nat \<Rightarrow> 'f list \<Rightarrow> 'f event_client \<Rightarrow> 'f event_client" where
  "flush_frames bytes io now n [] c = c"
| "flush_frames bytes io now n (frame # frames) c =
     (if ec_closed c \<or> ec_backpressured c then c
      else
        let c1 = c \<lparr>ec_pendingFrames := frames, ec_pendingBytes := max 0 (ec_pendingBytes c - int (bytes frame))\<rparr>;
            (ok, c2) = writeFrameNow io now n True frame c1
        in if ok then flush_frames bytes io now (Suc n) frames c2 else c2)"

definition flushPendingFrames :: "('f \<Rightarrow> nat) \<Rightarrow> response_io \<Rightarrow> int \<Rightarrow> 'f event_client \<Rightarrow> 'f event_client" where
  "flushPendingFrames bytes io now c = flush_frames bytes io now 0 (ec_pendingFrames c) c"

text \<open>
  The result also tells whether the backlog was exceeded, which is logged. An event that is
  offered to an open stream is noted in \<open>ec_offered\<close>.
\<close>

definition writeAgentEventFrame ::
    "('f \<Rightarrow> nat) \<Rightarrow> response_io \<Rightarrow> int \<Rightarrow> 'f \<Rightarrow> bool \<Rightarrow> 'f event_client \<Rightarrow> bool \<times> bool \<times> 'f event_client" where
  "writeAgentEventFrame bytes io now frame queueWhenBackpressured c0 =
     (let c = (if ec_closed c0 \<or> \<not> queueWhenBackpressured then c0 else c0 \<lparr>ec_offered := ec_offered c0 @ [frame]\<rparr>) in
      if ec_closed c \<or> io_write io 0 = WGone then (False, False, closeAgentEventClient NoEnd (io_gone io) c)
      else if \<not> ec_backpressured c then
        (let (ok, c1) = writeFrameNow io now 0 queueWhenBackpressured frame c in (ok, False, c1))
      else if \<not> queueWhenBackpressured then (True, False, c)
      else if AGENT_EVENT_MAX_PENDING_FRAMES \<le> length (ec_pendingFrames c) \<or>
              AGENT_EVENT_MAX_PENDING_BYTES < ec_pendingBytes c + int (bytes frame)
      then (False, True, closeAgentEventClient DestroyResponse (io_gone io) c)
      else (True, False, c \<lparr>ec_pendingFrames := ec_pendingFrames c @ [frame],
                            ec_pendingBytes := ec_pendingBytes c + int (bytes frame)\<rparr>))"

text \<open>The listener \<open>onDrain\<close>, called by the event \<open>drain\<close> if it is registered.\<close>

definition on_drain :: "('f \<Rightarrow> nat) \<Rightarrow> response_io \<Rightarrow> int \<Rightarrow> 'f event_client \<Rightarrow> 'f event_client" where
  "on_drain bytes io now c =
     (if \<not> ec_awaitsDrain c then c
      else let c1 = c \<lparr>ec_awaitsDrain := False\<rparr> in
        if ec_closed c1 then c1
        else flushPendingFrames bytes io now (c1 \<lparr>ec_backpressured := False, ec_drainTimer := None\<rparr>))"

definition new_event_client :: "int \<Rightarrow> string \<Rightarrow> nat \<Rightarrow> jsval \<Rightarrow> 'f event_client" where
  "new_event_client hostId token res heartbeatIntervalMs =
     \<lparr>ec_hostId = hostId, ec_token = token, ec_res = res, ec_closed = False, ec_backpressured = False,
      ec_pendingFrames = [], ec_pendingBytes = 0, ec_drainTimer = None,
      ec_heartbeatTimer = (js_truthy heartbeatIntervalMs \<and>
        (case to_number heartbeatIntervalMs of Fin q \<Rightarrow> 0 < q | _ \<Rightarrow> False)),
      ec_closeListeners = [], ec_awaitsDrain = False, ec_listens = True, ec_ended = NoEnd,
      ec_sent = [], ec_offered = [], ec_notified = []\<rparr>"

definition onClose :: "nat \<Rightarrow> 'f event_client \<Rightarrow> 'f event_client" where
  "onClose l c = (if ec_closed c then c \<lparr>ec_notified := ec_notified c @ [l]\<rparr>
     else c \<lparr>ec_closeListeners := set_add l (ec_closeListeners c)\<rparr>)"

definition offClose :: "nat \<Rightarrow> 'f event_client \<Rightarrow> 'f event_client" where
  "offClose l c = c \<lparr>ec_closeListeners := remove1 l (ec_closeListeners c)\<rparr>"

section \<open>What a stream delivers\<close>

definition sent_events :: "'f event_client \<Rightarrow> 'f list" where
  "sent_events c = map snd (filter fst (ec_sent c))"

text \<open>
  While a stream is open, what was sent and what waits is what was offered, in order; afterwards
  what was sent is the beginning of it. What waits is within its bounds and waits for a reason,
  with a listener and a timer that will end the wait.
\<close>

definition stream_ok :: "('f \<Rightarrow> nat) \<Rightarrow> 'f event_client \<Rightarrow> bool" where
  "stream_ok bytes c \<longleftrightarrow>
     (if ec_closed c
      then ec_pendingFrames c = [] \<and> take (length (sent_events c)) (ec_offered c) = sent_events c \<and>
           ec_drainTimer c = None \<and> \<not> ec_heartbeatTimer c \<and> \<not> ec_awaitsDrain c \<and> \<not> ec_listens c \<and> ec_closeListeners c = []
      else sent_events c @ ec_pendingFrames c = ec_offered c \<and>
           ec_listens c \<and> ec_ended c = NoEnd \<and> ec_notified c = [] \<and>
           (if ec_backpressured c then ec_awaitsDrain c \<and> ec_drainTimer c \<noteq> None
            else ec_pendingFrames c = [] \<and> ec_drainTimer c = None \<and> \<not> ec_awaitsDrain c)) \<and>
     ec_pendingBytes c = (\<Sum>f \<leftarrow> ec_pendingFrames c. int (bytes f)) \<and>
     length (ec_pendingFrames c) \<le> AGENT_EVENT_MAX_PENDING_FRAMES \<and>
     ec_pendingBytes c \<le> AGENT_EVENT_MAX_PENDING_BYTES"


lemma sent_events_append: "sent_events (c \<lparr>ec_sent := xs @ [(event, f)]\<rparr>) = map snd (filter fst xs) @ (if event then [f] else [])"
  by (simp add: sent_events_def)

lemma stream_ok_new: "stream_ok bytes (new_event_client hostId token res h)"
  by (simp add: stream_ok_def new_event_client_def sent_events_def AGENT_EVENT_MAX_PENDING_BYTES_def)

text \<open>
  Closing needs less than the invariant: that what was sent is the beginning of what was offered.
\<close>

definition sent_in_order :: "'f event_client \<Rightarrow> bool" where
  "sent_in_order c \<longleftrightarrow> take (length (sent_events c)) (ec_offered c) = sent_events c"

lemma stream_ok_sent: "stream_ok bytes c \<Longrightarrow> sent_in_order c"
  by (auto simp: stream_ok_def sent_in_order_def split: if_splits) (metis append_eq_conv_conj)

lemma close_ok:
  assumes "sent_in_order c" and "ec_closed c \<Longrightarrow> stream_ok bytes c"
  shows "stream_ok bytes (closeAgentEventClient e gone c)" and "ec_closed (closeAgentEventClient e gone c)"
proof -
  show "ec_closed (closeAgentEventClient e gone c)" by (simp add: closeAgentEventClient_def)
  show "stream_ok bytes (closeAgentEventClient e gone c)"
  proof (cases "ec_closed c")
    case True
    then show ?thesis using assms(2) by (simp add: closeAgentEventClient_def)
  next
    case False
    then show ?thesis using assms(1)
      by (simp add: closeAgentEventClient_def stream_ok_def sent_in_order_def sent_events_def AGENT_EVENT_MAX_PENDING_BYTES_def)
  qed
qed

text \<open>
  The state in which a frame is written: the stream is open and has room, and \<open>waiting\<close> frames
  are still to be sent after this one.
\<close>

definition writable :: "('f \<Rightarrow> nat) \<Rightarrow> 'f list \<Rightarrow> 'f event_client \<Rightarrow> bool" where
  "writable bytes due c \<longleftrightarrow> \<not> ec_closed c \<and> \<not> ec_backpressured c \<and> \<not> ec_awaitsDrain c \<and> ec_drainTimer c = None \<and>
     ec_listens c \<and> ec_ended c = NoEnd \<and> ec_notified c = [] \<and>
     sent_events c @ due @ ec_pendingFrames c = ec_offered c \<and>
     ec_pendingBytes c = (\<Sum>f \<leftarrow> ec_pendingFrames c. int (bytes f)) \<and>
     length (ec_pendingFrames c) \<le> AGENT_EVENT_MAX_PENDING_FRAMES \<and>
     ec_pendingBytes c \<le> AGENT_EVENT_MAX_PENDING_BYTES"

lemma writable_sent: "writable bytes due c \<Longrightarrow> sent_in_order c"
  by (simp add: writable_def sent_in_order_def) (metis append_eq_conv_conj)

lemma writeFrameNow_ok:
  assumes w: "writable bytes (if event then [frame] else []) c" and res: "writeFrameNow io now n event frame c = (ok, c')"
  shows "(if ok then (if ec_backpressured c' then stream_ok bytes c' else writable bytes [] c') else stream_ok bytes c' \<and> ec_closed c') \<and>
     ec_pendingFrames c' = (if ok then ec_pendingFrames c else []) \<and> (ok \<longrightarrow> \<not> ec_closed c')"
proof -
  have open_c: "\<not> ec_closed c" using w by (simp add: writable_def)
  have sent: "sent_in_order c" by (rule writable_sent [OF w])
  have sent1: "sent_in_order (c \<lparr>ec_sent := ec_sent c @ [(event, frame)], ec_backpressured := b\<rparr>)" for b
  proof -
    have eq: "ec_offered c = (sent_events c @ (if event then [frame] else [])) @ ec_pendingFrames c"
      using w by (simp add: writable_def)
    show ?thesis unfolding sent_in_order_def by (simp add: sent_events_def eq)
  qed
  have gone: "closeAgentEventClient e g d = c' \<Longrightarrow> sent_in_order d \<Longrightarrow> \<not> ec_closed d \<Longrightarrow>
      stream_ok bytes c' \<and> ec_closed c' \<and> ec_pendingFrames c' = []" for e g d
    using close_ok [of d bytes e g] by (auto simp: closeAgentEventClient_def)
  show ?thesis
  proof (cases "io_write io n")
    case WOk
    then have "ok \<and> c' = c \<lparr>ec_sent := ec_sent c @ [(event, frame)]\<rparr>"
      using res open_c by (auto simp: writeFrameNow_def Let_def)
    then show ?thesis using w by (auto simp: writable_def sent_events_def)
  next
    case (WFull once)
    show ?thesis
    proof (cases once)
      case True
      then have "ok \<and> c' = c \<lparr>ec_sent := ec_sent c @ [(event, frame)], ec_backpressured := True, ec_awaitsDrain := True,
          ec_drainTimer := Some (now + AGENT_EVENT_DRAIN_TIMEOUT_MS)\<rparr>"
        using res open_c w WFull by (auto simp: writeFrameNow_def Let_def armDrainTimeout_def writable_def)
      then show ?thesis using w by (auto simp: writable_def stream_ok_def sent_events_def)
    next
      case False
      then have r: "\<not> ok" "closeAgentEventClient DestroyResponse (io_gone io) (c \<lparr>ec_sent := ec_sent c @ [(event, frame)], ec_backpressured := True\<rparr>) = c'"
        using res open_c WFull by (auto simp: writeFrameNow_def Let_def)
      then show ?thesis using gone [OF r(2) sent1] open_c by simp
    qed
  next
    case WThrew
    then have r: "\<not> ok" "closeAgentEventClient DestroyResponse (io_gone io) c = c'"
      using res open_c by (auto simp: writeFrameNow_def)
    then show ?thesis using gone [OF r(2) sent open_c] by simp
  next
    case WGone
    then have r: "\<not> ok" "closeAgentEventClient NoEnd (io_gone io) c = c'"
      using res open_c by (auto simp: writeFrameNow_def)
    then show ?thesis using gone [OF r(2) sent open_c] by simp
  qed
qed

lemma flush_ok:
  "(if ec_backpressured c \<or> ec_closed c then stream_ok bytes c else writable bytes [] c) \<Longrightarrow> ec_pendingFrames c = frames \<or> ec_closed c \<Longrightarrow>
     stream_ok bytes (flush_frames bytes io now n frames c)"
proof (induction frames arbitrary: n c)
  case Nil
  then show ?case by (auto simp: stream_ok_def writable_def split: if_splits)
next
  case (Cons frame frames)
  show ?case
  proof (cases "ec_closed c \<or> ec_backpressured c")
    case True
    then show ?thesis using Cons.prems by auto
  next
    case False
    define c1 where "c1 = c \<lparr>ec_pendingFrames := frames, ec_pendingBytes := max 0 (ec_pendingBytes c - int (bytes frame))\<rparr>"
    obtain ok c2 where res: "writeFrameNow io now n True frame c1 = (ok, c2)" by (cases "writeFrameNow io now n True frame c1")
    have w: "writable bytes [] c" and pending: "ec_pendingFrames c = frame # frames" using False Cons.prems by auto
    have nonneg: "0 \<le> (\<Sum>f \<leftarrow> frames. int (bytes f))" by (rule sum_list_nonneg) auto
    have w1: "writable bytes (if True then [frame] else []) c1"
      using w pending nonneg by (auto simp: writable_def c1_def sent_events_def)
    note step = writeFrameNow_ok [OF w1 res]
    show ?thesis
    proof (cases ok)
      case True
      then have "stream_ok bytes (flush_frames bytes io now (Suc n) frames c2)"
        using step by (intro Cons.IH) (auto simp: c1_def)
      then show ?thesis using False True res by (simp add: c1_def [symmetric])
    next
      case no: False
      then show ?thesis using step res False by (simp add: c1_def [symmetric])
    qed
  qed
qed

lemma stream_ok_writable:
  "stream_ok bytes c \<Longrightarrow> \<not> ec_closed c \<Longrightarrow> \<not> ec_backpressured c \<Longrightarrow> writable bytes [] c"
  by (auto simp: stream_ok_def writable_def)

lemma writable_stream_ok: "writable bytes [] c \<Longrightarrow> ec_pendingFrames c = [] \<Longrightarrow> stream_ok bytes c"
  by (simp add: stream_ok_def writable_def)

lemma on_drain_ok:
  assumes ok: "stream_ok bytes c"
  shows "stream_ok bytes (on_drain bytes io now c)"
proof (cases "ec_awaitsDrain c")
  case False
  then show ?thesis using ok by (simp add: on_drain_def)
next
  case True
  then have c: "\<not> ec_closed c" "ec_backpressured c" using ok by (auto simp: stream_ok_def split: if_splits)
  define c1 where "c1 = c \<lparr>ec_awaitsDrain := False, ec_backpressured := False, ec_drainTimer := None\<rparr>"
  have "writable bytes [] c1" using ok c by (auto simp: stream_ok_def writable_def c1_def sent_events_def)
  then have "stream_ok bytes (flushPendingFrames bytes io now c1)"
    unfolding flushPendingFrames_def by (intro flush_ok) (auto simp: writable_def)
  then show ?thesis using True c by (simp add: on_drain_def c1_def)
qed

lemma write_frame_ok:
  assumes ok: "stream_ok bytes c" and res: "writeAgentEventFrame bytes io now frame queue c = (sent, full, c')"
  shows "stream_ok bytes c' \<and> (sent \<longleftrightarrow> \<not> ec_closed c')"
proof (cases "ec_closed c")
  case True
  then have "c' = c" "\<not> sent" using res by (auto simp: writeAgentEventFrame_def Let_def closeAgentEventClient_def)
  then show ?thesis using ok True by simp
next
  case False
  define d where "d = (if queue then c \<lparr>ec_offered := ec_offered c @ [frame]\<rparr> else c)"
  have d: "\<not> ec_closed d" using False by (simp add: d_def)
  have sent_d: "sent_in_order d"
  proof -
    have "ec_offered c = sent_events c @ ec_pendingFrames c" using ok False by (simp add: stream_ok_def)
    then show ?thesis unfolding sent_in_order_def d_def by (simp add: sent_events_def)
  qed
  note closes = close_ok [OF sent_d, of bytes]
  have eq: "writeAgentEventFrame bytes io now frame queue c =
     (if io_write io 0 = WGone then (False, False, closeAgentEventClient NoEnd (io_gone io) d)
      else if \<not> ec_backpressured d then (let (ok, c1) = writeFrameNow io now 0 queue frame d in (ok, False, c1))
      else if \<not> queue then (True, False, d)
      else if AGENT_EVENT_MAX_PENDING_FRAMES \<le> length (ec_pendingFrames d) \<or>
              AGENT_EVENT_MAX_PENDING_BYTES < ec_pendingBytes d + int (bytes frame)
      then (False, True, closeAgentEventClient DestroyResponse (io_gone io) d)
      else (True, False, d \<lparr>ec_pendingFrames := ec_pendingFrames d @ [frame],
                            ec_pendingBytes := ec_pendingBytes d + int (bytes frame)\<rparr>))"
    using False by (simp add: writeAgentEventFrame_def d_def Let_def)
  show ?thesis
  proof (cases "io_write io 0 = WGone")
    case True
    then show ?thesis using res eq closes d by auto
  next
    case there: False
    show ?thesis
    proof (cases "ec_backpressured c")
      case False
      have w: "writable bytes (if queue then [frame] else []) d"
        using ok \<open>\<not> ec_closed c\<close> False by (auto simp: writable_def stream_ok_def d_def sent_events_def)
      obtain k c1 where k: "writeFrameNow io now 0 queue frame d = (k, c1)" by (cases "writeFrameNow io now 0 queue frame d")
      have "sent = k" "c' = c1" using res eq there False k by (auto simp: d_def split: if_splits)
      moreover have "ec_pendingFrames d = []" using ok \<open>\<not> ec_closed c\<close> False by (simp add: stream_ok_def d_def)
      ultimately show ?thesis using writeFrameNow_ok [OF w k] writable_stream_ok [of bytes c1] by (auto split: if_splits)
    next
      case True
      show ?thesis
      proof (cases "queue \<and> (AGENT_EVENT_MAX_PENDING_FRAMES \<le> length (ec_pendingFrames d) \<or>
          AGENT_EVENT_MAX_PENDING_BYTES < ec_pendingBytes d + int (bytes frame))")
        case True
        then show ?thesis using res eq there \<open>ec_backpressured c\<close> closes d by (auto simp: d_def)
      next
        case False
        then show ?thesis using ok res eq there True \<open>\<not> ec_closed c\<close>
          by (cases queue) (auto simp: d_def stream_ok_def sent_events_def)
      qed
    qed
  qed
qed

section \<open>The streams of all agents\<close>

text \<open>
  Clients are numbered by registration; the map holds the current one of each host. Warnings are
  limited in rate; beside them the hub notes the refreshes that were not coalesced and the calls
  of \<open>invalidateAgentStableHeartbeatPlan\<close>.
\<close>

definition AGENT_REFRESH_COALESCE_MS :: int where
  "AGENT_REFRESH_COALESCE_MS = 1500"

definition AGENT_EVENT_LOG_INTERVAL_MS :: int where
  "AGENT_EVENT_LOG_INTERVAL_MS = 5 * 60 * 1000"

definition AGENT_EVENT_LOG_CACHE_MAX :: int where
  "AGENT_EVENT_LOG_CACHE_MAX = 4096"

definition AGENT_EVENT_CACHE_RETENTION_MS :: int where
  "AGENT_EVENT_CACHE_RETENTION_MS = 60 * 60 * 1000"

record 'f event_hub =
  eh_store :: "'f event_client list"
  eh_clients :: "(int, nat) jsmap"
  eh_metricsWatchUntil :: "(int, int) jsmap"
  eh_tcpingRequestUntil :: "(int, int) jsmap"
  eh_refreshPushedAt :: "(int, int) jsmap"
  eh_logAt :: "(string, int) jsmap"
  eh_warned :: "(int \<times> string \<times> string) list"
  eh_refreshes :: "(int \<times> int \<times> bool) list"
  eh_invalidated :: "int list"

definition no_streams :: "'f event_hub" where
  "no_streams = \<lparr>eh_store = [], eh_clients = [], eh_metricsWatchUntil = [], eh_tcpingRequestUntil = [],
     eh_refreshPushedAt = [], eh_logAt = [], eh_warned = [], eh_refreshes = [], eh_invalidated = []\<rparr>"

definition shouldLogAgentEventIssue :: "int \<Rightarrow> string \<Rightarrow> 'f event_hub \<Rightarrow> bool \<times> 'f event_hub" where
  "shouldLogAgentEventIssue now key hub =
     (let lastAt = (case map_get (eh_logAt hub) key of None \<Rightarrow> 0 | Some t \<Rightarrow> t) in
      if now - lastAt < AGENT_EVENT_LOG_INTERVAL_MS then (False, hub)
      else (True, hub \<lparr>eh_logAt := setBoundedMapValue AGENT_EVENT_LOG_CACHE_MAX key now (eh_logAt hub)\<rparr>))"

definition logAgentEventIssue :: "int \<Rightarrow> int \<Rightarrow> string \<Rightarrow> string \<Rightarrow> 'f event_hub \<Rightarrow> 'f event_hub" where
  "logAgentEventIssue now hostId event reason hub =
     (let (yes, hub1) = shouldLogAgentEventIssue now (int_str hostId @ '':'' @ event @ '':'' @ reason) hub
      in if yes then hub1 \<lparr>eh_warned := eh_warned hub1 @ [(hostId, event, reason)]\<rparr> else hub1)"

definition pruneAgentEventCaches :: "int \<Rightarrow> 'f event_hub \<Rightarrow> 'f event_hub" where
  "pruneAgentEventCaches now hub = hub
     \<lparr>eh_refreshPushedAt := snd (pruneMapEntries (\<lambda>lastAt k. AGENT_EVENT_CACHE_RETENTION_MS \<le> now - lastAt) (eh_refreshPushedAt hub)),
      eh_metricsWatchUntil := snd (pruneMapEntries (\<lambda>until k. until \<le> now) (eh_metricsWatchUntil hub)),
      eh_tcpingRequestUntil := snd (pruneMapEntries (\<lambda>until k. until \<le> now) (eh_tcpingRequestUntil hub)),
      eh_logAt := snd (pruneMapEntries (\<lambda>lastAt k. AGENT_EVENT_CACHE_RETENTION_MS \<le> now - lastAt) (eh_logAt hub))\<rparr>"

text \<open>A client has changed; when it has closed and is the one of its host, it leaves the map.\<close>

definition put_client :: "nat \<Rightarrow> 'f event_client \<Rightarrow> 'f event_hub \<Rightarrow> 'f event_hub" where
  "put_client i c hub = hub
     \<lparr>eh_store := (eh_store hub)[i := c],
      eh_clients := (if ec_closed c \<and> map_get (eh_clients hub) (ec_hostId c) = Some i
                     then map_delete (ec_hostId c) (eh_clients hub) else eh_clients hub)\<rparr>"

definition on_client :: "nat \<Rightarrow> ('f event_client \<Rightarrow> 'f event_client) \<Rightarrow> 'f event_hub \<Rightarrow> 'f event_hub" where
  "on_client i f hub = (if i < length (eh_store hub) then put_client i (f (eh_store hub ! i)) hub else hub)"

definition registerAgentEventClient :: "int \<Rightarrow> string \<Rightarrow> nat \<Rightarrow> jsval \<Rightarrow> bool \<Rightarrow> 'f event_hub \<Rightarrow> nat \<times> 'f event_hub" where
  "registerAgentEventClient hostId token res heartbeatIntervalMs gone hub =
     (let hub1 = (case map_get (eh_clients hub) hostId of
            None \<Rightarrow> hub
          | Some p \<Rightarrow> on_client p (\<lambda>c. closeAgentEventClient (if ec_backpressured c then DestroyResponse else EndResponse) gone c) hub);
          i = length (eh_store hub1)
      in (i, hub1 \<lparr>eh_store := eh_store hub1 @ [new_event_client hostId token res heartbeatIntervalMs],
                   eh_clients := map_set hostId i (eh_clients hub1)\<rparr>))"

text \<open>\<open>writeAgentEventFrame\<close> on a client of the hub, with the warning for a backlog.\<close>

definition write_frame :: "('f \<Rightarrow> nat) \<Rightarrow> response_io \<Rightarrow> int \<Rightarrow> 'f \<Rightarrow> bool \<Rightarrow> nat \<Rightarrow> 'f event_hub \<Rightarrow> bool \<times> 'f event_hub" where
  "write_frame bytes io now frame queue i hub =
     (if i < length (eh_store hub)
      then let (sent, full, c) = writeAgentEventFrame bytes io now frame queue (eh_store hub ! i);
               hub1 = (if full then logAgentEventIssue now (ec_hostId (eh_store hub ! i)) ''stream'' ''backlog-exceeded'' hub else hub)
           in (sent, put_client i c hub1)
      else (False, hub))"

definition unregisterAgentEventClient :: "int \<Rightarrow> nat \<Rightarrow> bool \<Rightarrow> 'f event_hub \<Rightarrow> 'f event_hub" where
  "unregisterAgentEventClient hostId res gone hub =
     (case map_get (eh_clients hub) hostId of
        None \<Rightarrow> hub
      | Some i \<Rightarrow> if ec_res (eh_store hub ! i) = res then on_client i (closeAgentEventClient NoEnd gone) hub else hub)"

definition closeAgentControlStreams :: "bool \<Rightarrow> 'f event_hub \<Rightarrow> 'f event_hub" where
  "closeAgentControlStreams gone hub = fold (\<lambda>(h, i). on_client i (closeAgentEventClient NoEnd gone)) (eh_clients hub) hub"

text \<open>What events carry; \<open>frame_of\<close> encrypts an event for a token.\<close>

datatype 'p event_data =
  RefreshData string int bool bool
| SupersededData
| UpgradeData string string "string option"
| MigrationData 'p
| BundleData string string
| DesiredStateData bool 'p
| OtherData 'p

type_synonym ('p, 'f) framing = "string \<Rightarrow> 'p event_data \<Rightarrow> string \<Rightarrow> 'f"

definition supersedeAgentEventClient ::
    "('f \<Rightarrow> nat) \<Rightarrow> ('p, 'f) framing \<Rightarrow> response_io \<Rightarrow> int \<Rightarrow> int \<Rightarrow> 'f event_hub \<Rightarrow> 'f event_hub" where
  "supersedeAgentEventClient bytes frame_of io now hostId hub =
     (case map_get (eh_clients hub) hostId of
        None \<Rightarrow> hub
      | Some i \<Rightarrow>
          let hub1 = snd (write_frame bytes io now (frame_of ''agent-superseded'' SupersededData (ec_token (eh_store hub ! i))) True i hub)
          in on_client i (closeAgentEventClient EndResponse (io_gone io)) hub1)"

definition important_event :: "string \<Rightarrow> 'p event_data \<Rightarrow> bool" where
  "important_event event data \<longleftrightarrow>
     event \<in> {''agent-upgrade'', ''agent-panel-migration'', ''agent-support-bundle''} \<or>
     event = ''agent-desired-state'' \<and> (case data of DesiredStateData there p \<Rightarrow> there | _ \<Rightarrow> False)"

definition sendAgentEvent ::
    "('f \<Rightarrow> nat) \<Rightarrow> ('p, 'f) framing \<Rightarrow> response_io \<Rightarrow> int \<Rightarrow> bool \<Rightarrow> int \<Rightarrow> string \<Rightarrow> 'p event_data \<Rightarrow> 'f event_hub \<Rightarrow> bool \<times> 'f event_hub" where
  "sendAgentEvent bytes frame_of io now paused hostId event data hub =
     (if paused then (False, hub)
      else case map_get (eh_clients hub) hostId of
        None \<Rightarrow> (False, if important_event event data then logAgentEventIssue now hostId event ''no-active-stream'' hub else hub)
      | Some i \<Rightarrow> write_frame bytes io now (frame_of event data (ec_token (eh_store hub ! i))) True i hub)"

section \<open>Refreshes and requests\<close>

definition pushAgentRefresh ::
    "('f \<Rightarrow> nat) \<Rightarrow> ('p, 'f) framing \<Rightarrow> response_io \<Rightarrow> int \<Rightarrow> bool \<Rightarrow> int \<Rightarrow> string \<Rightarrow> bool \<Rightarrow> bool \<Rightarrow> 'f event_hub \<Rightarrow> bool \<times> 'f event_hub" where
  "pushAgentRefresh bytes frame_of io now paused i reason urgent forceMimicCheck hub =
     (let hub1 = hub \<lparr>eh_invalidated := eh_invalidated hub @ [i]\<rparr>;
          prev = (case map_get (eh_refreshPushedAt hub1) i of None \<Rightarrow> 0 | Some t \<Rightarrow> t)
      in if \<not> urgent \<and> now - prev < AGENT_REFRESH_COALESCE_MS then (True, hub1)
         else sendAgentEvent bytes frame_of io now paused i ''agent-refresh'' (RefreshData reason now urgent forceMimicCheck)
                (hub1 \<lparr>eh_refreshPushedAt := map_set i now (eh_refreshPushedAt hub1),
                       eh_refreshes := eh_refreshes hub1 @ [(i, now, urgent)]\<rparr>))"

text \<open>
  The collection of \<open>withAgentRefreshBatch\<close>: calls for a host are merged, and one refresh for each
  host is pushed when the work has succeeded. A call made inside a transaction of the database is
  repeated after its commit, that is, such a call counts when the transaction has been committed.
\<close>

record pending_refresh =
  pr_reason :: string
  pr_urgent :: bool
  pr_force :: bool

definition batch_refresh :: "int \<times> string \<times> bool \<times> bool \<Rightarrow> (int, pending_refresh) jsmap \<Rightarrow> (int, pending_refresh) jsmap" where
  "batch_refresh = (\<lambda>(i, reason, urgent, force) batch.
     map_set i \<lparr>pr_reason = reason,
                pr_urgent = (case map_get batch i of None \<Rightarrow> urgent | Some p \<Rightarrow> pr_urgent p \<or> urgent),
                pr_force = (case map_get batch i of None \<Rightarrow> force | Some p \<Rightarrow> pr_force p \<or> force)\<rparr> batch)"

definition withAgentRefreshBatch ::
    "('f \<Rightarrow> nat) \<Rightarrow> ('p, 'f) framing \<Rightarrow> response_io \<Rightarrow> int \<Rightarrow> bool \<Rightarrow> bool \<Rightarrow> (int \<times> string \<times> bool \<times> bool) list \<Rightarrow> 'f event_hub \<Rightarrow> 'f event_hub" where
  "withAgentRefreshBatch bytes frame_of io now paused success calls hub =
     (if success
      then fold (\<lambda>(i, p) h. snd (pushAgentRefresh bytes frame_of io now paused i (pr_reason p) (pr_urgent p) (pr_force p) h))
             (fold batch_refresh calls []) hub
      else hub)"

definition pushAgentUpgrade ::
    "('f \<Rightarrow> nat) \<Rightarrow> ('p, 'f) framing \<Rightarrow> response_io \<Rightarrow> int \<Rightarrow> bool \<Rightarrow> string \<Rightarrow> int \<Rightarrow> string option \<Rightarrow> string \<Rightarrow> string option \<Rightarrow> 'f event_hub \<Rightarrow> bool \<times> 'f event_hub" where
  "pushAgentUpgrade bytes frame_of io now paused version hostId targetVersion panelUrl releaseVersion hub =
     sendAgentEvent bytes frame_of io now paused hostId ''agent-upgrade''
       (UpgradeData (case targetVersion of None \<Rightarrow> version | Some v \<Rightarrow> if v = [] then version else v) panelUrl
          (case releaseVersion of Some v \<Rightarrow> if v = [] then None else Some v | None \<Rightarrow> None))
       (hub \<lparr>eh_invalidated := eh_invalidated hub @ [hostId]\<rparr>)"

definition pushAgentPanelMigration ::
    "('f \<Rightarrow> nat) \<Rightarrow> ('p, 'f) framing \<Rightarrow> response_io \<Rightarrow> int \<Rightarrow> bool \<Rightarrow> int \<Rightarrow> 'p \<Rightarrow> 'f event_hub \<Rightarrow> bool \<times> 'f event_hub" where
  "pushAgentPanelMigration bytes frame_of io now paused hostId data hub =
     sendAgentEvent bytes frame_of io now paused hostId ''agent-panel-migration'' (MigrationData data)
       (hub \<lparr>eh_invalidated := eh_invalidated hub @ [hostId]\<rparr>)"

definition pushAgentSupportBundle ::
    "('f \<Rightarrow> nat) \<Rightarrow> ('p, 'f) framing \<Rightarrow> response_io \<Rightarrow> int \<Rightarrow> bool \<Rightarrow> int \<Rightarrow> string \<Rightarrow> string \<Rightarrow> 'f event_hub \<Rightarrow> bool \<times> 'f event_hub" where
  "pushAgentSupportBundle bytes frame_of io now paused hostId taskId requestedAt hub =
     sendAgentEvent bytes frame_of io now paused hostId ''agent-support-bundle'' (BundleData taskId requestedAt) hub"

definition pushAgentDesiredState ::
    "('f \<Rightarrow> nat) \<Rightarrow> ('p, 'f) framing \<Rightarrow> response_io \<Rightarrow> int \<Rightarrow> bool \<Rightarrow> int \<Rightarrow> bool \<Rightarrow> 'p \<Rightarrow> 'f event_hub \<Rightarrow> bool \<times> 'f event_hub" where
  "pushAgentDesiredState bytes frame_of io now paused hostId there payload hub =
     (if hostId \<le> 0 then (False, hub)
      else sendAgentEvent bytes frame_of io now paused hostId ''agent-desired-state'' (DesiredStateData there payload) hub)"

definition watch_host :: "int \<Rightarrow> int \<Rightarrow> int \<Rightarrow> int list \<times> (int, int) jsmap \<Rightarrow> int list \<times> (int, int) jsmap" where
  "watch_host ttlMs now i acc =
     (if 0 < i
      then ((if (case map_get (snd acc) i of None \<Rightarrow> 0 | Some t \<Rightarrow> t) \<le> now then fst acc @ [i] else fst acc),
            map_set i (now + ttlMs) (snd acc))
      else acc)"

definition markHostMetricsWatching :: "int list \<Rightarrow> int \<Rightarrow> int \<Rightarrow> 'f event_hub \<Rightarrow> int list \<times> 'f event_hub" where
  "markHostMetricsWatching hostIds ttlMs now hub =
     (let (newly, m) = fold (watch_host ttlMs now) hostIds ([], eh_metricsWatchUntil hub)
      in (newly, hub \<lparr>eh_metricsWatchUntil := m\<rparr>))"

definition isHostMetricsWatching :: "int \<Rightarrow> int \<Rightarrow> 'f event_hub \<Rightarrow> bool \<times> 'f event_hub" where
  "isHostMetricsWatching hostId now hub =
     (let until = (case map_get (eh_metricsWatchUntil hub) hostId of None \<Rightarrow> 0 | Some t \<Rightarrow> t) in
      if until \<le> now then (False, hub \<lparr>eh_metricsWatchUntil := map_delete hostId (eh_metricsWatchUntil hub)\<rparr>)
      else (True, hub))"

definition requestHostTcping :: "int \<Rightarrow> int \<Rightarrow> int \<Rightarrow> 'f event_hub \<Rightarrow> bool \<times> 'f event_hub" where
  "requestHostTcping i ttlMs now hub =
     (if i \<le> 0 then (False, hub)
      else (True, hub \<lparr>eh_tcpingRequestUntil := map_set i (now + ttlMs) (eh_tcpingRequestUntil hub)\<rparr>))"

definition hasHostTcpingRequest :: "int \<Rightarrow> int \<Rightarrow> 'f event_hub \<Rightarrow> bool \<times> 'f event_hub" where
  "hasHostTcpingRequest i now hub =
     (let until = (case map_get (eh_tcpingRequestUntil hub) i of None \<Rightarrow> 0 | Some t \<Rightarrow> t) in
      if until \<le> now then (False, hub \<lparr>eh_tcpingRequestUntil := map_delete i (eh_tcpingRequestUntil hub)\<rparr>)
      else (True, hub))"

definition clearHostTcpingRequest :: "int \<Rightarrow> 'f event_hub \<Rightarrow> 'f event_hub" where
  "clearHostTcpingRequest i hub = hub \<lparr>eh_tcpingRequestUntil := map_delete i (eh_tcpingRequestUntil hub)\<rparr>"

section \<open>Runs\<close>

text \<open>
  Anything that happens to the hub; every step comes some milliseconds after the one before.
\<close>

datatype ('p, 'f) hub_op =
  Register int string nat jsval bool
| WriteEvent nat string "'p event_data" response_io
| WriteComment nat 'f response_io
| CloseStream nat bool
| AddListener nat nat
| DropListener nat nat
| DrainStream nat response_io
| ResponseClosed nat bool
| ResponseFailed nat bool
| DrainTimeout nat bool
| HeartbeatTick nat 'f response_io
| Unregister int nat bool
| CloseAll bool
| Supersede int response_io
| SendEvent bool int string "'p event_data" response_io
| PushRefresh bool int string bool bool response_io
| RefreshBatch bool bool "(int \<times> string \<times> bool \<times> bool) list" response_io
| WatchHosts "int list" int
| AskWatching int
| RequestTcping int int
| AskTcping int
| ClearTcping int
| PruneCaches

fun hub_step :: "('f \<Rightarrow> nat) \<Rightarrow> ('p, 'f) framing \<Rightarrow> int \<Rightarrow> ('p, 'f) hub_op \<Rightarrow> 'f event_hub \<Rightarrow> 'f event_hub" where
  "hub_step bytes frame_of now (Register h token res hb gone) hub = snd (registerAgentEventClient h token res hb gone hub)"
| "hub_step bytes frame_of now (WriteEvent i event data io) hub =
     snd (write_frame bytes io now (frame_of event data (ec_token (eh_store hub ! i))) True i hub)"
| "hub_step bytes frame_of now (WriteComment i frame io) hub = snd (write_frame bytes io now frame False i hub)"
| "hub_step bytes frame_of now (CloseStream i gone) hub = on_client i (closeAgentEventClient NoEnd gone) hub"
| "hub_step bytes frame_of now (AddListener i l) hub = on_client i (onClose l) hub"
| "hub_step bytes frame_of now (DropListener i l) hub = on_client i (offClose l) hub"
| "hub_step bytes frame_of now (DrainStream i io) hub = on_client i (on_drain bytes io now) hub"
| "hub_step bytes frame_of now (ResponseClosed i gone) hub =
     on_client i (\<lambda>c. if ec_listens c then closeAgentEventClient NoEnd gone c else c) hub"
| "hub_step bytes frame_of now (ResponseFailed i gone) hub =
     on_client i (\<lambda>c. if ec_listens c then closeAgentEventClient DestroyResponse gone c else c) hub"
| "hub_step bytes frame_of now (DrainTimeout i gone) hub =
     (let hub1 = (if i < length (eh_store hub) \<and> fst (drain_timeout now gone (eh_store hub ! i))
                  then logAgentEventIssue now (ec_hostId (eh_store hub ! i)) ''stream'' ''drain-timeout'' hub else hub)
      in on_client i (\<lambda>c. snd (drain_timeout now gone c)) hub1)"
| "hub_step bytes frame_of now (HeartbeatTick i frame io) hub =
     (if i < length (eh_store hub) \<and> ec_heartbeatTimer (eh_store hub ! i) then snd (write_frame bytes io now frame False i hub) else hub)"
| "hub_step bytes frame_of now (Unregister h res gone) hub = unregisterAgentEventClient h res gone hub"
| "hub_step bytes frame_of now (CloseAll gone) hub = closeAgentControlStreams gone hub"
| "hub_step bytes frame_of now (Supersede h io) hub = supersedeAgentEventClient bytes frame_of io now h hub"
| "hub_step bytes frame_of now (SendEvent paused h event data io) hub = snd (sendAgentEvent bytes frame_of io now paused h event data hub)"
| "hub_step bytes frame_of now (PushRefresh paused i reason urgent force io) hub =
     snd (pushAgentRefresh bytes frame_of io now paused i reason urgent force hub)"
| "hub_step bytes frame_of now (RefreshBatch paused success calls io) hub =
     withAgentRefreshBatch bytes frame_of io now paused success calls hub"
| "hub_step bytes frame_of now (WatchHosts hs ttl) hub = snd (markHostMetricsWatching hs ttl now hub)"
| "hub_step bytes frame_of now (AskWatching h) hub = snd (isHostMetricsWatching h now hub)"
| "hub_step bytes frame_of now (RequestTcping h ttl) hub = snd (requestHostTcping h ttl now hub)"
| "hub_step bytes frame_of now (AskTcping h) hub = snd (hasHostTcpingRequest h now hub)"
| "hub_step bytes frame_of now (ClearTcping h) hub = clearHostTcpingRequest h hub"
| "hub_step bytes frame_of now PruneCaches hub = pruneAgentEventCaches now hub"

fun hub_run :: "('f \<Rightarrow> nat) \<Rightarrow> ('p, 'f) framing \<Rightarrow> int \<Rightarrow> (nat \<times> ('p, 'f) hub_op) list \<Rightarrow> 'f event_hub \<Rightarrow> 'f event_hub" where
  "hub_run bytes frame_of now [] hub = hub"
| "hub_run bytes frame_of now ((delay, op) # ops) hub =
     hub_run bytes frame_of (now + int delay) ops (hub_step bytes frame_of (now + int delay) op hub)"

section \<open>One open stream for a host\<close>

definition streams_ok :: "('f \<Rightarrow> nat) \<Rightarrow> 'f event_hub \<Rightarrow> bool" where
  "streams_ok bytes hub \<longleftrightarrow>
     (\<forall>i < length (eh_store hub). stream_ok bytes (eh_store hub ! i)) \<and>
     wf_map (eh_clients hub) \<and>
     (\<forall>h i. map_get (eh_clients hub) h = Some i \<longleftrightarrow>
        i < length (eh_store hub) \<and> \<not> ec_closed (eh_store hub ! i) \<and> ec_hostId (eh_store hub ! i) = h)"

lemma streams_okD:
  assumes "streams_ok bytes hub"
  shows "i < length (eh_store hub) \<Longrightarrow> stream_ok bytes (eh_store hub ! i)"
    and "wf_map (eh_clients hub)"
    and "map_get (eh_clients hub) h = Some i \<longleftrightarrow>
        i < length (eh_store hub) \<and> \<not> ec_closed (eh_store hub ! i) \<and> ec_hostId (eh_store hub ! i) = h"
  using assms unfolding streams_ok_def by blast+

text \<open>Closing a stream twice does nothing; no operation opens a closed one or changes its host.\<close>

lemma put_client_ok:
  assumes ok: "streams_ok bytes hub" and i: "i < length (eh_store hub)"
    and c: "stream_ok bytes c" "ec_hostId c = ec_hostId (eh_store hub ! i)" "ec_closed (eh_store hub ! i) \<Longrightarrow> ec_closed c"
  shows "streams_ok bytes (put_client i c hub)"
  unfolding streams_ok_def
proof (intro conjI allI impI)
  fix j assume "j < length (eh_store (put_client i c hub))"
  then show "stream_ok bytes (eh_store (put_client i c hub) ! j)"
    using streams_okD(1) [OF ok, of j] c(1) i by (cases "j = i") (simp_all add: put_client_def)
next
  show "wf_map (eh_clients (put_client i c hub))" using streams_okD(2) [OF ok] by (simp add: put_client_def)
next
  fix h j
  show "map_get (eh_clients (put_client i c hub)) h = Some j \<longleftrightarrow>
      j < length (eh_store (put_client i c hub)) \<and> \<not> ec_closed (eh_store (put_client i c hub) ! j) \<and>
      ec_hostId (eh_store (put_client i c hub) ! j) = h"
    using streams_okD(3) [OF ok, of h j] streams_okD(3) [OF ok, of "ec_hostId c" i] streams_okD(3) [OF ok, of h i] i c(2,3)
    by (cases "j = i") (auto simp: put_client_def nth_list_update map_get_delete)
qed

lemma on_client_ok:
  assumes ok: "streams_ok bytes hub"
    and f: "\<And>c. stream_ok bytes c \<Longrightarrow> stream_ok bytes (f c) \<and> ec_hostId (f c) = ec_hostId c \<and> (ec_closed c \<longrightarrow> ec_closed (f c))"
  shows "streams_ok bytes (on_client i f hub)"
  using put_client_ok [OF ok, of i "f (eh_store hub ! i)"] f streams_okD(1) [OF ok, of i] ok
  by (auto simp: on_client_def)

lemma close_keeps [simp]:
  "ec_hostId (closeAgentEventClient e gone c) = ec_hostId c"
  "ec_closed (closeAgentEventClient e gone c)"
  by (simp_all add: closeAgentEventClient_def)

lemma close_stream_ok: "stream_ok bytes c \<Longrightarrow> stream_ok bytes (closeAgentEventClient e gone c)"
  by (intro close_ok stream_ok_sent)

lemma writeFrameNow_keeps:
  "writeFrameNow io now n event frame c = (ok, c') \<Longrightarrow> ec_hostId c' = ec_hostId c \<and> (ec_closed c \<longrightarrow> ec_closed c')"
  by (auto simp: writeFrameNow_def Let_def armDrainTimeout_def split: if_splits write_result.splits)

lemma flush_keeps: "ec_hostId (flush_frames bytes io now n frames c) = ec_hostId c \<and> (ec_closed c \<longrightarrow> ec_closed (flush_frames bytes io now n frames c))"
proof (induction frames arbitrary: n c)
  case (Cons frame frames)
  obtain ok c2 where step: "writeFrameNow io now n True frame (c \<lparr>ec_pendingFrames := frames,
      ec_pendingBytes := max 0 (ec_pendingBytes c - int (bytes frame))\<rparr>) = (ok, c2)" by force
  then show ?case using Cons.IH writeFrameNow_keeps [OF step] by simp
qed simp

lemma on_drain_keeps: "ec_hostId (on_drain bytes io now c) = ec_hostId c \<and> (ec_closed c \<longrightarrow> ec_closed (on_drain bytes io now c))"
  by (simp add: on_drain_def Let_def flushPendingFrames_def flush_keeps)

lemma write_keeps:
  "writeAgentEventFrame bytes io now frame queue c = (sent, full, c') \<Longrightarrow> ec_hostId c' = ec_hostId c \<and> (ec_closed c \<longrightarrow> ec_closed c')"
  by (auto simp: writeAgentEventFrame_def Let_def split: if_splits prod.splits dest!: writeFrameNow_keeps)

lemma log_issue_frame [simp]:
  "eh_store (logAgentEventIssue now h event reason hub) = eh_store hub"
  "eh_clients (logAgentEventIssue now h event reason hub) = eh_clients hub"
  "eh_refreshes (logAgentEventIssue now h event reason hub) = eh_refreshes hub"
  "eh_refreshPushedAt (logAgentEventIssue now h event reason hub) = eh_refreshPushedAt hub"
  by (auto simp: logAgentEventIssue_def shouldLogAgentEventIssue_def Let_def split: prod.splits if_splits)

lemma streams_ok_cong:
  "eh_store hub' = eh_store hub \<Longrightarrow> eh_clients hub' = eh_clients hub \<Longrightarrow> streams_ok bytes hub' = streams_ok bytes hub"
  by (simp add: streams_ok_def)

lemma streams_ok_frame [simp]:
  "streams_ok bytes (hub \<lparr>eh_metricsWatchUntil := m\<rparr>) = streams_ok bytes hub"
  "streams_ok bytes (hub \<lparr>eh_tcpingRequestUntil := m\<rparr>) = streams_ok bytes hub"
  "streams_ok bytes (hub \<lparr>eh_refreshPushedAt := m\<rparr>) = streams_ok bytes hub"
  "streams_ok bytes (hub \<lparr>eh_refreshes := rs\<rparr>) = streams_ok bytes hub"
  "streams_ok bytes (hub \<lparr>eh_invalidated := ids\<rparr>) = streams_ok bytes hub"
  "streams_ok bytes (hub \<lparr>eh_logAt := l\<rparr>) = streams_ok bytes hub"
  by (simp_all add: streams_ok_def)

lemma write_frame_streams:
  assumes ok: "streams_ok bytes hub"
  shows "streams_ok bytes (snd (write_frame bytes io now frame queue i hub))"
proof (cases "i < length (eh_store hub)")
  case True
  obtain sent full c where w: "writeAgentEventFrame bytes io now frame queue (eh_store hub ! i) = (sent, full, c)"
    by (metis prod_cases3)
  define hub1 where "hub1 = (if full then logAgentEventIssue now (ec_hostId (eh_store hub ! i)) ''stream'' ''backlog-exceeded'' hub else hub)"
  have same: "eh_store hub1 = eh_store hub" "eh_clients hub1 = eh_clients hub" by (simp_all add: hub1_def)
  have "streams_ok bytes hub1" using ok streams_ok_cong [OF same] by simp
  then have "streams_ok bytes (put_client i c hub1)"
    using write_frame_ok [OF streams_okD(1) [OF ok True] w] write_keeps [OF w] True
    by (intro put_client_ok) (simp_all add: same)
  then show ?thesis using True w by (simp add: write_frame_def hub1_def)
qed (simp add: write_frame_def ok)

lemma send_streams:
  "streams_ok bytes hub \<Longrightarrow> streams_ok bytes (snd (sendAgentEvent bytes frame_of io now paused h event data hub))"
  by (auto simp: sendAgentEvent_def write_frame_streams streams_ok_cong [of "logAgentEventIssue _ _ _ _ hub" hub] split: option.splits)

lemma push_refresh_streams:
  assumes ok: "streams_ok bytes hub"
  shows "streams_ok bytes (snd (pushAgentRefresh bytes frame_of io now paused i reason urgent force hub))"
proof -
  show ?thesis using ok by (simp add: pushAgentRefresh_def Let_def send_streams)
qed

lemma batch_streams:
  assumes "streams_ok bytes hub"
  shows "streams_ok bytes (withAgentRefreshBatch bytes frame_of io now paused success calls hub)"
proof -
  have "streams_ok bytes hub \<Longrightarrow> streams_ok bytes (fold (\<lambda>(i, p) h. snd (pushAgentRefresh bytes frame_of io now paused i
      (pr_reason p) (pr_urgent p) (pr_force p) h)) batch hub)" for batch :: "(int \<times> pending_refresh) list"
    by (induction batch arbitrary: hub) (auto simp: push_refresh_streams)
  then show ?thesis using assms by (simp add: withAgentRefreshBatch_def)
qed

lemma register_streams:
  assumes ok: "streams_ok bytes hub"
  shows "streams_ok bytes (snd (registerAgentEventClient h token res hb gone hub))"
proof -
  define hub1 where "hub1 = (case map_get (eh_clients hub) h of None \<Rightarrow> hub
    | Some p \<Rightarrow> on_client p (\<lambda>c. closeAgentEventClient (if ec_backpressured c then DestroyResponse else EndResponse) gone c) hub)"
  have ok1: "streams_ok bytes hub1"
    using ok by (auto simp: hub1_def close_stream_ok intro!: on_client_ok split: option.splits)
  have none: "map_get (eh_clients hub1) h = None"
  proof (cases "map_get (eh_clients hub) h")
    case None
    then show ?thesis by (simp add: hub1_def)
  next
    case (Some p)
    then show ?thesis using streams_okD(3) [OF ok, of h p]
      by (simp add: hub1_def on_client_def put_client_def map_get_delete)
  qed
  have eq: "snd (registerAgentEventClient h token res hb gone hub) =
      hub1 \<lparr>eh_store := eh_store hub1 @ [new_event_client h token res hb], eh_clients := map_set h (length (eh_store hub1)) (eh_clients hub1)\<rparr>"
    by (simp add: registerAgentEventClient_def Let_def hub1_def)
  have new: "\<not> ec_closed (new_event_client h token res hb)" "ec_hostId (new_event_client h token res hb) = h"
    by (simp_all add: new_event_client_def)
  show ?thesis
    unfolding eq streams_ok_def
  proof (intro conjI allI impI, goal_cases)
    case (1 i)
    then show ?case using streams_okD(1) [OF ok1, of i] stream_ok_new by (auto simp: nth_append less_Suc_eq)
  next
    case 2
    then show ?case using streams_okD(2) [OF ok1] by simp
  next
    case (3 h' i)
    show ?case
      using streams_okD(3) [OF ok1, of h' i] streams_okD(3) [OF ok1, of h i] none new
      by (auto simp: map_get_set nth_append less_Suc_eq)
  qed
qed

text \<open>What an operation on a client keeps.\<close>

lemma close_all_streams:
  assumes ok: "streams_ok bytes hub"
  shows "streams_ok bytes (closeAgentControlStreams gone hub)"
proof -
  have "streams_ok bytes hub \<Longrightarrow>
      streams_ok bytes (fold (\<lambda>(h :: int, i). on_client i (closeAgentEventClient NoEnd gone)) cs hub)" for cs hub
  proof (induction cs arbitrary: hub)
    case (Cons c cs)
    have "streams_ok bytes (on_client (snd c) (closeAgentEventClient NoEnd gone) hub)"
      by (rule on_client_ok [OF Cons.prems]) (simp add: close_stream_ok)
    from Cons.IH [OF this] show ?case by (simp add: case_prod_beta)
  qed simp
  then show ?thesis using ok by (simp add: closeAgentControlStreams_def)
qed

lemma drain_timeout_ok:
  "stream_ok bytes c \<Longrightarrow> stream_ok bytes (snd (drain_timeout now gone c)) \<and>
     ec_hostId (snd (drain_timeout now gone c)) = ec_hostId c \<and> (ec_closed c \<longrightarrow> ec_closed (snd (drain_timeout now gone c)))"
proof (cases "ec_drainTimer c")
  case (Some due)
  assume ok: "stream_ok bytes c"
  with Some have open_c: "\<not> ec_closed c" "ec_backpressured c" by (auto simp: stream_ok_def split: if_splits)
  have "sent_in_order (c \<lparr>ec_drainTimer := None\<rparr>)"
    using stream_ok_sent [OF ok] by (simp add: sent_in_order_def sent_events_def)
  from close_ok(1) [OF this] open_c show ?thesis
    using ok Some by (simp add: drain_timeout_def Let_def)
qed (simp add: drain_timeout_def)

lemma listener_ok:
  "stream_ok bytes c \<Longrightarrow> stream_ok bytes (onClose l c) \<and> ec_hostId (onClose l c) = ec_hostId c \<and> (ec_closed c \<longrightarrow> ec_closed (onClose l c))"
  "stream_ok bytes c \<Longrightarrow> stream_ok bytes (offClose l c) \<and> ec_hostId (offClose l c) = ec_hostId c \<and> (ec_closed c \<longrightarrow> ec_closed (offClose l c))"
  by (auto simp: onClose_def offClose_def stream_ok_def sent_events_def split: if_splits)

lemma hub_step_streams:
  assumes ok: "streams_ok bytes hub"
  shows "streams_ok bytes (hub_step bytes frame_of now op hub)"
proof (cases op)
  case (DrainTimeout i gone)
  define hub1 where "hub1 = (if i < length (eh_store hub) \<and> fst (drain_timeout now gone (eh_store hub ! i))
      then logAgentEventIssue now (ec_hostId (eh_store hub ! i)) ''stream'' ''drain-timeout'' hub else hub)"
  have "streams_ok bytes hub1" using ok streams_ok_cong [of hub1 hub] by (simp add: hub1_def)
  then show ?thesis
    unfolding DrainTimeout hub_step.simps Let_def hub1_def [symmetric] by (intro on_client_ok drain_timeout_ok)
next
  case (Supersede h io)
  show ?thesis
    by (auto simp: Supersede supersedeAgentEventClient_def Let_def close_stream_ok
        intro!: on_client_ok write_frame_streams ok split: option.splits)
next
  case (Unregister h res gone)
  show ?thesis
    by (auto simp: Unregister unregisterAgentEventClient_def close_stream_ok intro!: on_client_ok ok split: option.splits)
next
  case (CloseStream i gone)
  show ?thesis by (auto simp: CloseStream close_stream_ok intro!: on_client_ok ok)
next
  case (ResponseClosed i gone)
  show ?thesis by (auto simp: ResponseClosed close_stream_ok intro!: on_client_ok ok)
next
  case (ResponseFailed i gone)
  show ?thesis by (auto simp: ResponseFailed close_stream_ok intro!: on_client_ok ok)
next
  case (DrainStream i io)
  show ?thesis by (simp add: DrainStream) (intro on_client_ok ok conjI on_drain_ok; simp add: on_drain_keeps)
next
  case (AddListener i l)
  show ?thesis unfolding AddListener hub_step.simps by (intro on_client_ok ok listener_ok)
next
  case (DropListener i l)
  show ?thesis unfolding DropListener hub_step.simps by (intro on_client_ok ok listener_ok)
next
  case (WatchHosts hs ttl)
  show ?thesis using ok
    by (simp add: WatchHosts markHostMetricsWatching_def split: prod.splits)
qed (use ok in \<open>simp_all add: register_streams write_frame_streams close_all_streams send_streams push_refresh_streams
  batch_streams isHostMetricsWatching_def requestHostTcping_def hasHostTcpingRequest_def
  clearHostTcpingRequest_def pruneAgentEventCaches_def Let_def\<close>)

section \<open>Refreshes are spaced\<close>

text \<open>The refreshes, the newest first: one for a host that had one before is urgent or late enough.\<close>

definition latest_refresh :: "int \<Rightarrow> (int \<times> int \<times> bool) list \<Rightarrow> int option" where
  "latest_refresh i newest = map_option (\<lambda>(j, t, u). t) (find (\<lambda>(j, t, u). j = i) newest)"

fun spaced :: "(int \<times> int \<times> bool) list \<Rightarrow> bool" where
  "spaced [] = True"
| "spaced ((i, t, urgent) # older) =
     ((case latest_refresh i older of None \<Rightarrow> True
       | Some t' \<Rightarrow> urgent \<or> t' + AGENT_REFRESH_COALESCE_MS \<le> t) \<and> spaced older)"

definition pushed_ok :: "int \<Rightarrow> (int, int) jsmap \<Rightarrow> (int \<times> int \<times> bool) list \<Rightarrow> bool" where
  "pushed_ok now m newest \<longleftrightarrow> wf_map m \<and> spaced newest \<and>
     (\<forall>i. case latest_refresh i newest of
        None \<Rightarrow> map_get m i = None
      | Some t \<Rightarrow> t \<le> now \<and> (map_get m i = Some t \<or> map_get m i = None \<and> t + AGENT_EVENT_CACHE_RETENTION_MS \<le> now))"

lemma pushed_okD:
  assumes "pushed_ok now m newest"
  shows "wf_map m" and "spaced newest"
    and "latest_refresh i newest = None \<Longrightarrow> map_get m i = None"
    and "latest_refresh i newest = Some t \<Longrightarrow>
      t \<le> now \<and> (map_get m i = Some t \<or> map_get m i = None \<and> t + AGENT_EVENT_CACHE_RETENTION_MS \<le> now)"
proof -
  show "wf_map m" "spaced newest" using assms by (auto simp: pushed_ok_def)
  have "case latest_refresh i newest of None \<Rightarrow> map_get m i = None
      | Some t \<Rightarrow> t \<le> now \<and> (map_get m i = Some t \<or> map_get m i = None \<and> t + AGENT_EVENT_CACHE_RETENTION_MS \<le> now)"
    using assms by (simp add: pushed_ok_def)
  then show "latest_refresh i newest = None \<Longrightarrow> map_get m i = None"
    "latest_refresh i newest = Some t \<Longrightarrow>
      t \<le> now \<and> (map_get m i = Some t \<or> map_get m i = None \<and> t + AGENT_EVENT_CACHE_RETENTION_MS \<le> now)"
    by auto
qed

lemma pushed_okI:
  assumes "wf_map m" and "spaced newest"
    and "\<And>i. latest_refresh i newest = None \<Longrightarrow> map_get m i = None"
    and "\<And>i t. latest_refresh i newest = Some t \<Longrightarrow>
      t \<le> now \<and> (map_get m i = Some t \<or> map_get m i = None \<and> t + AGENT_EVENT_CACHE_RETENTION_MS \<le> now)"
  shows "pushed_ok now m newest"
  using assms unfolding pushed_ok_def by (auto split: option.split)

lemma latest_refresh_Cons: "latest_refresh i ((j, t, u) # rs) = (if j = i then Some t else latest_refresh i rs)"
  by (simp add: latest_refresh_def)

lemma pushed_later:
  assumes "pushed_ok now m newest" and "now \<le> now'"
  shows "pushed_ok now' m newest"
  using assms(2) pushed_okD [OF assms(1)] by (intro pushed_okI) force+

lemma pushed_new:
  assumes ok: "pushed_ok now m newest"
    and late: "urgent \<or> AGENT_REFRESH_COALESCE_MS \<le> now - (case map_get m i of None \<Rightarrow> 0 | Some t \<Rightarrow> t)"
  shows "pushed_ok now (map_set i now m) ((i, now, urgent) # newest)"
proof (rule pushed_okI)
  show "wf_map (map_set i now m)" using pushed_okD(1) [OF ok] by simp
  show "spaced ((i, now, urgent) # newest)"
  proof (cases "latest_refresh i newest")
    case None
    then show ?thesis using pushed_okD(2) [OF ok] by simp
  next
    case (Some t)
    then show ?thesis using pushed_okD(2) [OF ok] pushed_okD(4) [OF ok Some] late
      by (auto simp: AGENT_REFRESH_COALESCE_MS_def AGENT_EVENT_CACHE_RETENTION_MS_def)
  qed
  show "latest_refresh j ((i, now, urgent) # newest) = None \<Longrightarrow> map_get (map_set i now m) j = None" for j
    using pushed_okD(3) [OF ok, of j] by (simp add: latest_refresh_Cons map_get_set split: if_splits)
  show "latest_refresh j ((i, now, urgent) # newest) = Some t \<Longrightarrow> t \<le> now \<and> (map_get (map_set i now m) j = Some t \<or>
      map_get (map_set i now m) j = None \<and> t + AGENT_EVENT_CACHE_RETENTION_MS \<le> now)" for j t
    using pushed_okD(4) [OF ok, of j t] by (simp add: latest_refresh_Cons map_get_set split: if_splits)
qed

lemma pushed_pruned:
  assumes ok: "pushed_ok now m newest"
  shows "pushed_ok now (snd (pruneMapEntries (\<lambda>lastAt k. AGENT_EVENT_CACHE_RETENTION_MS \<le> now - lastAt) m)) newest"
proof (rule pushed_okI)
  let ?m = "snd (pruneMapEntries (\<lambda>lastAt k. AGENT_EVENT_CACHE_RETENTION_MS \<le> now - lastAt) m)"
  note wf = pushed_okD(1) [OF ok]
  have get: "map_get ?m i = (case map_get m i of None \<Rightarrow> None
      | Some t \<Rightarrow> if AGENT_EVENT_CACHE_RETENTION_MS \<le> now - t then None else Some t)" for i
    by (simp add: pruneMapEntries_eq map_get_filter [OF wf] split: option.splits)
  show "wf_map ?m" using wf by (simp add: pruneMapEntries_eq)
  show "spaced newest" by (rule pushed_okD(2) [OF ok])
  show "latest_refresh i newest = None \<Longrightarrow> map_get ?m i = None" for i
    using pushed_okD(3) [OF ok, of i] unfolding get by simp
  show "latest_refresh i newest = Some t \<Longrightarrow> t \<le> now \<and> (map_get ?m i = Some t \<or>
      map_get ?m i = None \<and> t + AGENT_EVENT_CACHE_RETENTION_MS \<le> now)" for i t
    using pushed_okD(4) [OF ok, of i t] unfolding get by (auto split: if_splits)
qed

definition refreshes_ok :: "int \<Rightarrow> 'f event_hub \<Rightarrow> bool" where
  "refreshes_ok now hub \<longleftrightarrow> pushed_ok now (eh_refreshPushedAt hub) (rev (eh_refreshes hub))"

lemma client_frame [simp]:
  "eh_refreshes (put_client i c hub) = eh_refreshes hub" "eh_refreshPushedAt (put_client i c hub) = eh_refreshPushedAt hub"
  "eh_refreshes (on_client i f hub) = eh_refreshes hub" "eh_refreshPushedAt (on_client i f hub) = eh_refreshPushedAt hub"
  by (simp_all add: put_client_def on_client_def)

lemma write_frame_frame [simp]:
  "eh_refreshes (snd (write_frame bytes io now frame queue i hub)) = eh_refreshes hub"
  "eh_refreshPushedAt (snd (write_frame bytes io now frame queue i hub)) = eh_refreshPushedAt hub"
  by (simp_all add: write_frame_def split: prod.splits)

lemma send_frame [simp]:
  "eh_refreshes (snd (sendAgentEvent bytes frame_of io now paused h event data hub)) = eh_refreshes hub"
  "eh_refreshPushedAt (snd (sendAgentEvent bytes frame_of io now paused h event data hub)) = eh_refreshPushedAt hub"
  by (simp_all add: sendAgentEvent_def split: option.splits)

lemma close_all_frame [simp]:
  "eh_refreshes (closeAgentControlStreams gone hub) = eh_refreshes hub"
  "eh_refreshPushedAt (closeAgentControlStreams gone hub) = eh_refreshPushedAt hub"
proof -
  have "eh_refreshes (fold (\<lambda>(h :: int, i). on_client i f) cs hub) = eh_refreshes hub \<and>
      eh_refreshPushedAt (fold (\<lambda>(h :: int, i). on_client i f) cs hub) = eh_refreshPushedAt hub" for cs f and hub :: "'a event_hub"
    by (induction cs arbitrary: hub) (auto simp: case_prod_beta)
  then show "eh_refreshes (closeAgentControlStreams gone hub) = eh_refreshes hub"
    "eh_refreshPushedAt (closeAgentControlStreams gone hub) = eh_refreshPushedAt hub"
    by (simp_all add: closeAgentControlStreams_def)
qed

lemma register_frame [simp]:
  "eh_refreshes (snd (registerAgentEventClient h token res hb gone hub)) = eh_refreshes hub"
  "eh_refreshPushedAt (snd (registerAgentEventClient h token res hb gone hub)) = eh_refreshPushedAt hub"
  by (simp_all add: registerAgentEventClient_def Let_def split: option.splits)

lemma refreshes_ok_cong:
  "eh_refreshes hub' = eh_refreshes hub \<Longrightarrow> eh_refreshPushedAt hub' = eh_refreshPushedAt hub \<Longrightarrow>
     refreshes_ok now hub' = refreshes_ok now hub"
  by (simp add: refreshes_ok_def)

lemma push_refresh_spaced:
  assumes ok: "refreshes_ok now hub"
  shows "refreshes_ok now (snd (pushAgentRefresh bytes frame_of io now paused i reason urgent force hub))"
proof (cases "\<not> urgent \<and> now - (case map_get (eh_refreshPushedAt hub) i of None \<Rightarrow> 0 | Some t \<Rightarrow> t) < AGENT_REFRESH_COALESCE_MS")
  case True
  then show ?thesis using ok by (simp add: pushAgentRefresh_def refreshes_ok_def)
next
  case False
  then have "pushed_ok now (map_set i now (eh_refreshPushedAt hub)) ((i, now, urgent) # rev (eh_refreshes hub))"
    using ok by (intro pushed_new) (auto simp: refreshes_ok_def)
  then show ?thesis using False by (auto simp: pushAgentRefresh_def Let_def refreshes_ok_def)
qed

lemma prune_spaced: "refreshes_ok now hub \<Longrightarrow> refreshes_ok now (pruneAgentEventCaches now hub)"
  by (simp add: refreshes_ok_def pruneAgentEventCaches_def pushed_pruned)

lemma batch_spaced:
  assumes "refreshes_ok now hub"
  shows "refreshes_ok now (withAgentRefreshBatch bytes frame_of io now paused success calls hub)"
proof -
  have "refreshes_ok now hub \<Longrightarrow> refreshes_ok now (fold (\<lambda>(i, p) h. snd (pushAgentRefresh bytes frame_of io now paused i
      (pr_reason p) (pr_urgent p) (pr_force p) h)) batch hub)" for batch :: "(int \<times> pending_refresh) list"
    by (induction batch arbitrary: hub) (auto simp: push_refresh_spaced)
  then show ?thesis using assms by (simp add: withAgentRefreshBatch_def)
qed

lemma hub_step_spaced:
  assumes ok: "refreshes_ok now hub"
  shows "refreshes_ok now (hub_step bytes frame_of now op hub)"
proof (cases op)
  case (Supersede h io)
  show ?thesis using ok refreshes_ok_cong [of "supersedeAgentEventClient bytes frame_of io now h hub" hub now]
    by (simp add: Supersede supersedeAgentEventClient_def Let_def split: option.splits)
next
  case (Unregister h res gone)
  show ?thesis using ok refreshes_ok_cong [of "unregisterAgentEventClient h res gone hub" hub now]
    by (simp add: Unregister unregisterAgentEventClient_def split: option.splits)
next
  case (WatchHosts hs ttl)
  show ?thesis using ok by (simp add: WatchHosts markHostMetricsWatching_def refreshes_ok_def split: prod.splits)
next
  case (PushRefresh paused i reason urgent force io)
  show ?thesis unfolding PushRefresh hub_step.simps by (rule push_refresh_spaced [OF ok])
next
  case (RefreshBatch paused success calls io)
  show ?thesis unfolding RefreshBatch hub_step.simps by (rule batch_spaced [OF ok])
next
  case PruneCaches
  show ?thesis unfolding PruneCaches hub_step.simps by (rule prune_spaced [OF ok])
qed (use ok in \<open>simp_all add: refreshes_ok_def isHostMetricsWatching_def requestHostTcping_def hasHostTcpingRequest_def
  clearHostTcpingRequest_def Let_def\<close>)

lemma hub_run_ok:
  "streams_ok bytes hub \<Longrightarrow> refreshes_ok now hub \<Longrightarrow>
     streams_ok bytes (hub_run bytes frame_of now ops hub) \<and> (\<exists>now'. refreshes_ok now' (hub_run bytes frame_of now ops hub))"
proof (induction ops arbitrary: now hub)
  case (Cons x ops)
  obtain delay op where x: "x = (delay, op)" by (cases x)
  have "refreshes_ok (now + int delay) hub" using Cons.prems(2) unfolding refreshes_ok_def by (rule pushed_later) simp
  then show ?case
    unfolding x hub_run.simps by (intro Cons.IH hub_step_streams hub_step_spaced Cons.prems(1))
qed auto

lemma no_streams_ok: "streams_ok bytes no_streams" "refreshes_ok now no_streams"
  by (simp_all add: streams_ok_def refreshes_ok_def pushed_ok_def no_streams_def latest_refresh_def)

definition one_stream_each :: "'f event_hub \<Rightarrow> bool" where
  "one_stream_each hub \<longleftrightarrow>
     set (eh_clients hub) = {(ec_hostId (eh_store hub ! i), i) | i. i < length (eh_store hub) \<and> \<not> ec_closed (eh_store hub ! i)} \<and>
     distinct (map fst (eh_clients hub))"

text \<open>
  C9: whatever streams are opened, replaced and closed, whatever is sent, and however connections
  fill up, drain, fail and time out: on every stream, the events that were written are the
  beginning of those that were offered, in their order, and while it is open nothing is lost: what
  was not written waits, with at most 16 frames and one megabyte, only while the connection is
  full, and then a listener and a timer are there to end the wait; a closed stream holds nothing
  back; a host has at most one open stream and events are sent to that one; and a refresh that is
  not urgent comes at least 1.5 seconds after the one before for the host.
\<close>

theorem agent_streams_in_order:
  "(let hub = hub_run bytes frame_of start ops no_streams in
    list_all (stream_ok bytes) (eh_store hub) \<and> one_stream_each hub \<and> spaced (rev (eh_refreshes hub)))"
proof -
  let ?hub = "hub_run bytes frame_of start ops no_streams"
  have ok: "streams_ok bytes ?hub" and "\<exists>now. refreshes_ok now ?hub"
    using hub_run_ok [OF no_streams_ok] by blast+
  then have "spaced (rev (eh_refreshes ?hub))" by (auto simp: refreshes_ok_def dest: pushed_okD(2))
  moreover have "list_all (stream_ok bytes) (eh_store ?hub)"
    using ok by (simp add: streams_ok_def list_all_length)
  moreover have "one_stream_each ?hub"
  proof -
    have "(h, i) \<in> set (eh_clients ?hub) \<longleftrightarrow> (h, i) \<in> {(ec_hostId (eh_store ?hub ! i), i) | i.
        i < length (eh_store ?hub) \<and> \<not> ec_closed (eh_store ?hub ! i)}" for h i
      using streams_okD(3) [OF ok, of h i] map_get_in [OF streams_okD(2) [OF ok], of h i] by auto
    then show ?thesis using streams_okD(2) [OF ok] unfolding one_stream_each_def wf_map_def by auto
  qed
  ultimately show ?thesis by (simp add: Let_def)
qed

section \<open>What a batch of refreshes amounts to\<close>

definition merged :: "int \<Rightarrow> (int \<times> string \<times> bool \<times> bool) list \<Rightarrow> pending_refresh option" where
  "merged i calls =
     (let own = filter (\<lambda>(j, c). j = i) calls in
      if own = [] then None
      else Some \<lparr>pr_reason = fst (snd (last own)), pr_urgent = list_ex (\<lambda>(j, r, u, f). u) own, pr_force = list_ex (\<lambda>(j, r, u, f). f) own\<rparr>)"

lemma merged_snoc:
  "merged i (calls @ [(j, reason, urgent, force)]) =
     (if i = j then Some \<lparr>pr_reason = reason,
        pr_urgent = (case merged i calls of None \<Rightarrow> urgent | Some p \<Rightarrow> pr_urgent p \<or> urgent),
        pr_force = (case merged i calls of None \<Rightarrow> force | Some p \<Rightarrow> pr_force p \<or> force)\<rparr>
      else merged i calls)"
  by (auto simp: merged_def Let_def)

lemma batch_refresh_get:
  "map_get (batch_refresh (j, reason, urgent, force) batch) =
     (map_get batch)(j := Some \<lparr>pr_reason = reason,
        pr_urgent = (case map_get batch j of None \<Rightarrow> urgent | Some p \<Rightarrow> pr_urgent p \<or> urgent),
        pr_force = (case map_get batch j of None \<Rightarrow> force | Some p \<Rightarrow> pr_force p \<or> force)\<rparr>)"
  unfolding batch_refresh_def prod.case map_get_set_fun by (rule refl)

lemma batch_merged: "map_get (fold batch_refresh calls []) = (\<lambda>i. merged i calls)"
proof (induction calls rule: rev_induct)
  case Nil
  then show ?case by (simp add: merged_def fun_eq_iff)
next
  case (snoc x calls)
  obtain j reason urgent force where x: "x = (j, reason, urgent, force)" by (cases x) auto
  have "map_get (fold batch_refresh (calls @ [x]) []) = map_get (batch_refresh x (fold batch_refresh calls []))" by simp
  also have "\<dots> = (\<lambda>i. merged i (calls @ [x]))"
    unfolding x merged_snoc batch_refresh_get snoc.IH by (auto simp: fun_eq_iff)
  finally show ?case .
qed

lemma batch_wf: "wf_map (fold batch_refresh calls [])"
proof -
  have "wf_map m \<Longrightarrow> wf_map (fold batch_refresh calls m)" for m
    by (induction calls arbitrary: m) (auto simp: batch_refresh_def)
  then show ?thesis by simp
qed

lemma push_invalidates:
  "eh_invalidated (snd (pushAgentRefresh bytes frame_of io now paused i reason urgent force hub)) = eh_invalidated hub @ [i]"
proof -
  have log: "eh_invalidated (logAgentEventIssue n h e r g) = eh_invalidated g" for n h e r and g :: "'a event_hub"
    by (auto simp: logAgentEventIssue_def shouldLogAgentEventIssue_def Let_def split: prod.splits if_splits)
  have "eh_invalidated (snd (write_frame bytes io now fr q k g)) = eh_invalidated g" for fr q k and g :: "'a event_hub"
    by (auto simp: write_frame_def put_client_def log Let_def split: prod.splits)
  then have "eh_invalidated (snd (sendAgentEvent bytes frame_of io now paused h e d g)) = eh_invalidated g" for h e d and g :: "'a event_hub"
    by (simp add: sendAgentEvent_def log split: option.splits)
  then show ?thesis by (simp add: pushAgentRefresh_def Let_def)
qed

text \<open>
  the work of a batch that succeeds is followed by one refresh for each host that was named in it,
  for the last reason given, urgent or with a check of mimic devices if one of its calls was; a
  batch that fails pushes nothing.
\<close>

theorem refresh_batch_exact:
  "map_get (fold batch_refresh calls []) = (\<lambda>i. merged i calls) \<and>
   distinct (map fst (fold batch_refresh calls [])) \<and>
   eh_invalidated (withAgentRefreshBatch bytes frame_of io now paused True calls hub) =
     eh_invalidated hub @ map fst (fold batch_refresh calls []) \<and>
   withAgentRefreshBatch bytes frame_of io now paused False calls hub = hub"
proof -
  have "eh_invalidated (fold (\<lambda>(i, p) h. snd (pushAgentRefresh bytes frame_of io now paused i
      (pr_reason p) (pr_urgent p) (pr_force p) h)) batch hub) = eh_invalidated hub @ map fst batch"
    for batch :: "(int \<times> pending_refresh) list"
    by (induction batch arbitrary: hub) (auto simp: push_invalidates)
  then show ?thesis
    using batch_merged [of calls] batch_wf [of calls] by (simp add: withAgentRefreshBatch_def wf_map_def)
qed

text \<open>A connection that fills up, drains, and is then replaced.\<close>

definition sample_io :: "write_result \<Rightarrow> response_io" where
  "sample_io r = \<lparr>io_write = (\<lambda>n. if n = 0 then r else WOk), io_gone = False\<rparr>"

definition sample_framing :: "(nat, nat) framing" where
  "sample_framing event data token = (case data of OtherData n \<Rightarrow> n | _ \<Rightarrow> 0)"

definition sample_hub :: "nat event_hub" where
  "sample_hub = hub_run (\<lambda>f. 100) sample_framing 10
     [(0, Register 5 ''t'' 1 JUndef False), (1, WriteEvent 0 ''e'' (OtherData 1) (sample_io (WFull True))),
      (1, WriteEvent 0 ''e'' (OtherData 2) (sample_io WOk)), (1, DrainStream 0 (sample_io WOk)),
      (1, WriteEvent 0 ''e'' (OtherData 3) (sample_io (WFull True))), (1, WriteEvent 0 ''e'' (OtherData 4) (sample_io WOk)),
      (1, Register 5 ''t'' 2 JUndef False)] no_streams"

lemma sample_hub_run:
  "map (\<lambda>c. (sent_events c, ec_offered c, ec_ended c)) (eh_store sample_hub) =
     [([1, 2, 3], [1, 2, 3, 4], DestroyResponse), ([], [], NoEnd)]"
  by code_simp

end
