(* ===== verification/Database_Health.thy ===== *)
theory Database_Health
  imports Prelude
begin

text \<open>
  \<open>server/databaseHealthState.ts\<close> and \<open>server/databaseHealthMonitor.ts\<close>: what the panel tells of
  its database. Errors of the drivers are searched, through their causes, for a code that is
  known; only such codes are shown, never a message, as it may name accounts or addresses. The
  monitor tries the database again and again, but an initialization that failed for another
  reason than the connection is not repeated, and a storage failure is not taken back because a
  \<open>SELECT\<close> succeeds.

  Texts for display are left out: a reason is its code. Errors are objects of a heap, as causes may be
  shared or cyclic; a value that is not an object is \<open>NoObject\<close>. Times are those of \<open>Date.now()\<close>.
  Probing and initializing the database are awaited: what becomes of them are steps of their own.
\<close>

section \<open>Errors of drivers\<close>

datatype err_ref = NoObject | ObjectRef nat

record err_object =
  eo_code :: jsval
  eo_errno :: jsval
  eo_message :: jsval
  eo_sqlMessage :: jsval
  eo_cause :: err_ref
  eo_errors :: "err_ref list option"

type_synonym err_heap = "nat \<Rightarrow> err_object"

definition mysqlErrorCodes :: "(int \<times> string) list" where
  "mysqlErrorCodes =
     [(1040, ''ER_CON_COUNT_ERROR''), (1203, ''ER_TOO_MANY_USER_CONNECTIONS''), (1044, ''ER_DBACCESS_DENIED_ERROR''),
      (1045, ''ER_ACCESS_DENIED_ERROR''), (1049, ''ER_BAD_DB_ERROR''), (1054, ''ER_BAD_FIELD_ERROR''),
      (1062, ''ER_DUP_ENTRY''), (1064, ''ER_PARSE_ERROR''), (1071, ''ER_TOO_LONG_KEY''), (1114, ''ER_RECORD_FILE_FULL''),
      (1118, ''ER_TOO_BIG_ROWSIZE''), (1129, ''ER_HOST_IS_BLOCKED''), (1130, ''ER_HOST_NOT_PRIVILEGED''),
      (1142, ''ER_TABLEACCESS_DENIED_ERROR''), (1143, ''ER_COLUMNACCESS_DENIED_ERROR''), (1146, ''ER_NO_SUCH_TABLE''),
      (1205, ''ER_LOCK_WAIT_TIMEOUT''), (1213, ''ER_LOCK_DEADLOCK''), (1227, ''ER_SPECIFIC_ACCESS_DENIED_ERROR''),
      (1235, ''ER_NOT_SUPPORTED_YET'')]"

definition initializationOnlyCodes :: "string list" where
  "initializationOnlyCodes =
     [''ER_TABLEACCESS_DENIED_ERROR'', ''ER_COLUMNACCESS_DENIED_ERROR'', ''ER_SPECIFIC_ACCESS_DENIED_ERROR'', ''42501'',
      ''ER_NO_SUCH_TABLE'', ''ER_BAD_FIELD_ERROR'', ''42P01'', ''42703'', ''ER_PARSE_ERROR'', ''ER_NOT_SUPPORTED_YET'',
      ''42601'', ''0A000'', ''ER_TOO_LONG_KEY'', ''ER_TOO_BIG_ROWSIZE'', ''ER_DUP_ENTRY'', ''23505'',
      ''ER_RECORD_FILE_FULL'', ''53100'', ''ER_LOCK_WAIT_TIMEOUT'', ''ER_LOCK_DEADLOCK'', ''55P03'', ''40P01'']"

definition errno_code :: "jsval \<Rightarrow> string" where
  "errno_code v = (case js_integer (to_number v) of None \<Rightarrow> [] | Some n \<Rightarrow>
     (case map_of mysqlErrorCodes n of None \<Rightarrow> [] | Some s \<Rightarrow> s))"

definition error_code :: "err_object \<Rightarrow> string" where
  "error_code ob = js_upper (if js_truthy (eo_code ob) then js_string (eo_code ob) else errno_code (eo_errno ob))"

text \<open>Tests of texts without regard to case; the patterns are lower case.\<close>

fun has_text :: "string \<Rightarrow> string \<Rightarrow> bool" where
  "has_text pat [] = (pat = [])"
| "has_text pat (c # cs) = (take (length pat) (c # cs) = pat \<or> has_text pat cs)"

definition text_matches :: "string list \<Rightarrow> string \<Rightarrow> bool" where
  "text_matches pats s = list_ex (\<lambda>p. has_text p (js_lower s)) pats"

definition starts :: "string \<Rightarrow> string \<Rightarrow> bool" where
  "starts pat s \<longleftrightarrow> take (length pat) s = pat"

text \<open>\<open>/^(Queue limit reached\.?|No connections available\.?)$/i\<close>\<close>

definition queue_full_text :: "string \<Rightarrow> bool" where
  "queue_full_text s \<longleftrightarrow> js_lower s \<in> {''queue limit reached'', ''queue limit reached.'',
     ''no connections available'', ''no connections available.''}"

definition word_char :: "char \<Rightarrow> bool" where
  "word_char c \<longleftrightarrow> (let n = char_code c in 48 \<le> n \<and> n \<le> 57 \<or> 65 \<le> n \<and> n \<le> 90 \<or> 97 \<le> n \<and> n \<le> 122 \<or> n = 95)"

definition quote_char :: "char \<Rightarrow> bool" where
  "quote_char c \<longleftrightarrow> char_code c \<in> {34, 39}"

text \<open>
  \<open>/\bHost ['"][^'"\r\n]+['"] is not allowed to connect to this MySQL server\b/i\<close>; the name of the
  host ends at the first character that is excluded from it.
\<close>

definition host_denied_at :: "string \<Rightarrow> bool" where
  "host_denied_at t \<longleftrightarrow>
     starts ''host '' (js_lower t) \<and>
     (case drop 5 t of
        [] \<Rightarrow> False
      | q # r \<Rightarrow>
          let name = takeWhile (\<lambda>c. \<not> quote_char c \<and> char_code c \<notin> {10, 13}) r; rest = drop (length name) r in
          quote_char q \<and> name \<noteq> [] \<and>
          (case rest of
             [] \<Rightarrow> False
           | q' # r' \<Rightarrow>
               let tail_text = '' is not allowed to connect to this mysql server'' in
               quote_char q' \<and> starts tail_text (js_lower r') \<and>
               (case drop (length tail_text) r' of [] \<Rightarrow> True | c # cs \<Rightarrow> \<not> word_char c)))"

fun host_denied_from :: "bool \<Rightarrow> string \<Rightarrow> bool" where
  "host_denied_from boundary [] = False"
| "host_denied_from boundary (c # cs) =
     (boundary \<and> host_denied_at (c # cs) \<or> host_denied_from (\<not> word_char c) cs)"

definition host_denied_text :: "string \<Rightarrow> bool" where
  "host_denied_text s = host_denied_from True s"

text \<open>The loop through an error, its causes and collected errors, at most 16 of them.\<close>

fun search_error :: "nat \<Rightarrow> err_heap \<Rightarrow> (err_object \<Rightarrow> 'r option) \<Rightarrow> nat list \<Rightarrow> err_ref list \<Rightarrow> 'r option" where
  "search_error 0 heap f seen pending = None"
| "search_error (Suc n) heap f seen [] = None"
| "search_error (Suc n) heap f seen (NoObject # pending) = search_error n heap f seen pending"
| "search_error (Suc n) heap f seen (ObjectRef i # pending) =
     (if i \<in> set seen then search_error n heap f seen pending
      else case f (heap i) of
        Some r \<Rightarrow> Some r
      | None \<Rightarrow> search_error n heap f (i # seen)
          (pending @ [eo_cause (heap i)] @ (case eo_errors (heap i) of None \<Rightarrow> [] | Some es \<Rightarrow> take 8 es)))"

definition busy_codes :: "string list" where
  "busy_codes = [''POOL_ENQUEUELIMIT'', ''POOL_CONNLIMIT'', ''ER_CON_COUNT_ERROR'', ''ER_TOO_MANY_USER_CONNECTIONS'',
     ''53300'', ''ER_LOCK_WAIT_TIMEOUT'', ''SQLITE_BUSY'', ''SQLITE_LOCKED'']"

definition busy_object :: "err_object \<Rightarrow> unit option" where
  "busy_object ob = (if error_code ob \<in> set busy_codes \<or> queue_full_text (js_text (eo_message ob)) then Some () else None)"

definition isDatabaseBusyError :: "err_heap \<Rightarrow> err_ref \<Rightarrow> bool" where
  "isDatabaseBusyError heap error \<longleftrightarrow> search_error 16 heap busy_object [] [error] \<noteq> None"

definition timeout_texts :: "string list" where
  "timeout_texts = [''connection terminated due to connection timeout'', ''query read timeout'', ''connect timeout'',
     ''connection timeout'', ''timeout exceeded when trying to connect'']"

definition lost_texts :: "string list" where
  "lost_texts = [''connection terminated unexpectedly'', ''connection is closed'', ''database connection is not open'',
     ''can'' @ [CHR 0x27] @ ''t add new command when connection is in closed state'']"

definition lost_codes :: "string list" where
  "lost_codes = [''ECONNRESET'', ''EPIPE'', ''ENETUNREACH'', ''EHOSTUNREACH'', ''PROTOCOL_CONNECTION_LOST'', ''57P01'', ''57P02'', ''57P03'']"

text \<open>\<open>/^08[A-Z0-9]{3}$/\<close>\<close>

definition connection_class :: "string \<Rightarrow> bool" where
  "connection_class code \<longleftrightarrow> length code = 5 \<and> starts ''08'' code \<and>
     list_all (\<lambda>c. let n = char_code c in 48 \<le> n \<and> n \<le> 57 \<or> 65 \<le> n \<and> n \<le> 90) (drop 2 code)"

definition certificate_codes :: "string list" where
  "certificate_codes = [''SELF_SIGNED_CERT_IN_CHAIN'', ''DEPTH_ZERO_SELF_SIGNED_CERT'', ''CERT_HAS_EXPIRED'',
     ''ERR_TLS_CERT_ALTNAME_INVALID'', ''UNABLE_TO_VERIFY_LEAF_SIGNATURE'']"

definition sqlite_names :: "string list" where
  "sqlite_names = [''CANTOPEN'', ''IOERR'', ''CORRUPT'', ''NOTADB'', ''FULL'', ''READONLY'', ''BUSY'', ''LOCKED'']"

text \<open>\<open>code.split("_").slice(0, 2).join("_")\<close> for a code that \<open>/^(SQLITE_(...))(_|$)/\<close> matches.\<close>

definition sqlite_code :: "string \<Rightarrow> string option" where
  "sqlite_code code =
     (if list_ex (\<lambda>x. starts (''SQLITE_'' @ x) code \<and>
          (case drop (length (''SQLITE_'' @ x)) code of [] \<Rightarrow> True | c # cs \<Rightarrow> c = CHR ''_'')) sqlite_names
      then Some (js_join ''_'' (take 2 (js_split (CHR ''_'') code))) else None)"

text \<open>The reason that one object gives, in the order of the tests.\<close>

definition describe_object :: "bool \<Rightarrow> err_object \<Rightarrow> string option" where
  "describe_object initialization ob =
     (let code0 = error_code ob;
          message = (if js_truthy (eo_sqlMessage ob) then js_string (eo_sqlMessage ob) else js_text (eo_message ob));
          code = (if code0 = [] \<and> host_denied_text message then ''ER_HOST_NOT_PRIVILEGED'' else code0);
          connectionLostCode = (code \<in> set lost_codes \<or> connection_class code)
      in if code = ''ECONNREFUSED'' then Some code
         else if code \<in> {''ENOTFOUND'', ''EAI_AGAIN''} then Some code
         else if code \<in> {''ETIMEDOUT'', ''ESOCKETTIMEDOUT''} \<or> text_matches timeout_texts message then Some ''ETIMEDOUT''
         else if connectionLostCode \<or> text_matches lost_texts message
         then Some (if connectionLostCode then code else ''CONNECTION_LOST'')
         else if code \<in> {''ER_HOST_NOT_PRIVILEGED'', ''ER_HOST_IS_BLOCKED''} then Some code
         else if code \<in> {''28P01'', ''28000'', ''ER_ACCESS_DENIED_ERROR''} then Some code
         else if code = ''ER_DBACCESS_DENIED_ERROR'' then Some code
         else if initialization \<and> code \<in> set initializationOnlyCodes then Some code
         else if code \<in> {''3D000'', ''ER_BAD_DB_ERROR''} then Some code
         else if code \<in> {''53300'', ''ER_CON_COUNT_ERROR'', ''ER_TOO_MANY_USER_CONNECTIONS''} then Some code
         else case sqlite_code code of
           Some c \<Rightarrow> Some c
         | None \<Rightarrow> if code \<in> set certificate_codes then Some code else None)"

definition describeDatabaseError :: "err_heap \<Rightarrow> err_ref \<Rightarrow> bool \<Rightarrow> string option" where
  "describeDatabaseError heap error initialization = search_error 16 heap (describe_object initialization) [] [error]"

section \<open>The state of the database\<close>

datatype database_type = MySQL | PostgreSQL | SQLite

datatype health_state = Checking | Healthy | Unavailable | NotConfigured

record tracker =
  ht_state :: health_state
  ht_databaseType :: "database_type option"
  ht_checkedAt :: "int option"
  ht_unavailableSince :: "int option"
  ht_reason :: "string option"
  ht_restartRequired :: bool
  ht_lastLogAt :: int
  ht_recoveryBlockReason :: "string option"
  ht_initializationBlocked :: bool
  ht_logged :: "string list"

definition new_tracker :: tracker where
  "new_tracker = \<lparr>ht_state = Checking, ht_databaseType = None, ht_checkedAt = None, ht_unavailableSince = None,
     ht_reason = None, ht_restartRequired = False, ht_lastLogAt = 0, ht_recoveryBlockReason = None,
     ht_initializationBlocked = False, ht_logged = []\<rparr>"

definition configure :: "database_type option \<Rightarrow> tracker \<Rightarrow> tracker" where
  "configure t h = h \<lparr>ht_databaseType := t\<rparr>"

definition canRetryInitialization :: "tracker \<Rightarrow> bool" where
  "canRetryInitialization h \<longleftrightarrow> \<not> ht_initializationBlocked h"

definition storage_codes :: "string list" where
  "storage_codes = [''SQLITE_FULL'', ''SQLITE_READONLY'', ''SQLITE_CORRUPT'', ''SQLITE_NOTADB'', ''SQLITE_IOERR'']"

text \<open>What \<open>unavailable\<close> does with an error it takes; the error's reason is given.\<close>

definition take_down :: "string option \<Rightarrow> bool \<Rightarrow> int \<Rightarrow> tracker \<Rightarrow> tracker" where
  "take_down reason initialization now h =
     (let initBlocked = (ht_initializationBlocked h \<or>
            initialization \<and> (case reason of None \<Rightarrow> True | Some c \<Rightarrow> c \<in> set initializationOnlyCodes));
          changed = (ht_state h \<noteq> Unavailable);
          storage = (case reason of None \<Rightarrow> False | Some c \<Rightarrow> c \<in> set storage_codes);
          block = (if storage \<or> initialization \<and> reason = None
                   then Some (case reason of Some c \<Rightarrow> c | None \<Rightarrow> ''INITIALIZATION_FAILED'')
                   else ht_recoveryBlockReason h);
          shown = (case block of Some c \<Rightarrow> c | None \<Rightarrow>
             (case reason of Some c \<Rightarrow> c | None \<Rightarrow> if initialization then ''INITIALIZATION_FAILED'' else ''DATABASE_CHECK_FAILED''));
          logs = (changed \<or> 60000 \<le> now - ht_lastLogAt h)
      in h \<lparr>ht_state := Unavailable, ht_checkedAt := Some now,
            ht_unavailableSince := Some (case ht_unavailableSince h of Some t \<Rightarrow> t | None \<Rightarrow> now),
            ht_reason := Some shown,
            ht_restartRequired := ht_restartRequired h \<or> initialization \<or> storage,
            ht_recoveryBlockReason := block, ht_initializationBlocked := initBlocked,
            ht_lastLogAt := (if logs then now else ht_lastLogAt h),
            ht_logged := (if logs then ht_logged h @ [shown] else ht_logged h)\<rparr>)"

definition unavailable :: "err_heap \<Rightarrow> err_ref \<Rightarrow> bool \<Rightarrow> bool \<Rightarrow> int \<Rightarrow> tracker \<Rightarrow> bool \<times> tracker" where
  "unavailable heap error initialization force now h =
     (if \<not> initialization \<and> isDatabaseBusyError heap error then (False, h)
      else
        let reason = describeDatabaseError heap error initialization in
        if reason = None \<and> \<not> initialization \<and> \<not> force then (False, h)
        else if ht_initializationBlocked h then (True, h \<lparr>ht_checkedAt := Some now\<rparr>)
        else (True, take_down reason initialization now h))"

definition healthy :: "int \<Rightarrow> tracker \<Rightarrow> tracker" where
  "healthy now h = h
     \<lparr>ht_recoveryBlockReason := None, ht_initializationBlocked := False, ht_state := Healthy, ht_checkedAt := Some now,
      ht_unavailableSince := None, ht_reason := None, ht_restartRequired := False,
      ht_logged := (if ht_state h = Unavailable then ht_logged h @ [''recovered''] else ht_logged h)\<rparr>"

definition notConfigured :: "int \<Rightarrow> tracker \<Rightarrow> tracker" where
  "notConfigured now h = h
     \<lparr>ht_recoveryBlockReason := None, ht_initializationBlocked := False, ht_state := NotConfigured,
      ht_databaseType := None, ht_checkedAt := Some now, ht_unavailableSince := None, ht_reason := None,
      ht_restartRequired := False\<rparr>"

section \<open>The monitor\<close>

text \<open>
  A check is idle, waits for its probe, or waits for the initialization. What \<open>initDatabase\<close>
  (\<open>server/db.ts\<close>) tells the tracker when it ends is part of its end: ready, failed with an error,
  or not configured.
\<close>

datatype check_phase = Idle | Probing | Initializing

datatype probe_end = ProbeOk | ProbeFailed err_ref

datatype init_end = InitReady | InitFailed err_ref | InitNotConfigured | InitThrew err_ref

record monitor =
  hm_health :: tracker
  hm_initialized :: bool
  hm_phase :: check_phase
  hm_stopped :: bool
  hm_starts :: nat
  hm_ready :: nat

definition start_monitor :: "tracker \<Rightarrow> bool \<Rightarrow> monitor" where
  "start_monitor h initialized = \<lparr>hm_health = h, hm_initialized = initialized, hm_phase = Idle, hm_stopped = False,
     hm_starts = 0, hm_ready = 0\<rparr>"

text \<open>A check up to its first wait; \<open>config\<close> is the configured database, if there is one.\<close>

definition check_begin :: "database_type option \<Rightarrow> int \<Rightarrow> monitor \<Rightarrow> monitor" where
  "check_begin config now m =
     (if hm_phase m \<noteq> Idle \<or> hm_stopped m then m
      else case config of
        None \<Rightarrow> m \<lparr>hm_health := notConfigured now (hm_health m)\<rparr>
      | Some t \<Rightarrow> m \<lparr>hm_health := configure (Some t) (hm_health m), hm_phase := Probing\<rparr>)"

definition storage_failed :: "tracker \<Rightarrow> bool" where
  "storage_failed h \<longleftrightarrow> (case ht_reason h of None \<Rightarrow> False | Some c \<Rightarrow> c \<in> set storage_codes)"

definition check_probed :: "err_heap \<Rightarrow> probe_end \<Rightarrow> int \<Rightarrow> monitor \<Rightarrow> monitor" where
  "check_probed heap res now m =
     (if hm_phase m \<noteq> Probing then m
      else case res of
        ProbeFailed error \<Rightarrow>
          m \<lparr>hm_health := snd (unavailable heap error (\<not> hm_initialized m) True now (hm_health m)), hm_phase := Idle\<rparr>
      | ProbeOk \<Rightarrow>
          if storage_failed (hm_health m) then m \<lparr>hm_phase := Idle\<rparr>
          else if hm_initialized m then m \<lparr>hm_health := healthy now (hm_health m), hm_phase := Idle\<rparr>
          else if \<not> canRetryInitialization (hm_health m) then m \<lparr>hm_phase := Idle\<rparr>
          else m \<lparr>hm_phase := Initializing, hm_starts := Suc (hm_starts m)\<rparr>)"

definition check_initialized :: "err_heap \<Rightarrow> init_end \<Rightarrow> int \<Rightarrow> monitor \<Rightarrow> monitor" where
  "check_initialized heap res now m =
     (if hm_phase m \<noteq> Initializing then m
      else case res of
        InitReady \<Rightarrow> m \<lparr>hm_health := healthy now (healthy now (hm_health m)), hm_initialized := True,
                        hm_ready := Suc (hm_ready m), hm_phase := Idle\<rparr>
      | InitFailed error \<Rightarrow> m \<lparr>hm_health := snd (unavailable heap error True False now (hm_health m)), hm_phase := Idle\<rparr>
      | InitNotConfigured \<Rightarrow> m \<lparr>hm_health := notConfigured now (hm_health m), hm_phase := Idle\<rparr>
      | InitThrew error \<Rightarrow>
          m \<lparr>hm_health := snd (unavailable heap error (\<not> hm_initialized m) True now (hm_health m)), hm_phase := Idle\<rparr>)"

definition stop_monitor :: "monitor \<Rightarrow> monitor" where
  "stop_monitor m = m \<lparr>hm_stopped := True\<rparr>"

text \<open>Errors of the panel's own work are reported without force (\<open>reportDatabaseErrors\<close> and others).\<close>

datatype health_op =
  CheckBegin "database_type option" int
| CheckProbed probe_end int
| CheckInitialized init_end int
| ReportError err_ref int
| StopMonitor

fun health_step :: "err_heap \<Rightarrow> health_op \<Rightarrow> monitor \<Rightarrow> monitor" where
  "health_step heap (CheckBegin config now) m = check_begin config now m"
| "health_step heap (CheckProbed res now) m = check_probed heap res now m"
| "health_step heap (CheckInitialized res now) m = check_initialized heap res now m"
| "health_step heap (ReportError error now) m = m \<lparr>hm_health := snd (unavailable heap error False False now (hm_health m))\<rparr>"
| "health_step heap StopMonitor m = stop_monitor m"

text \<open>The panel starts with the end of its first initialization.\<close>

definition boot :: "err_heap \<Rightarrow> init_end \<Rightarrow> int \<Rightarrow> monitor" where
  "boot heap res now =
     (case res of
        InitReady \<Rightarrow> start_monitor (healthy now new_tracker) True
      | InitFailed error \<Rightarrow> start_monitor (snd (unavailable heap error True False now new_tracker)) False
      | InitNotConfigured \<Rightarrow> start_monitor (notConfigured now new_tracker) False
      | InitThrew error \<Rightarrow> start_monitor new_tracker False)"

fun health_trace :: "err_heap \<Rightarrow> health_op list \<Rightarrow> monitor \<Rightarrow> (health_op \<times> monitor \<times> monitor) list" where
  "health_trace heap [] m = []"
| "health_trace heap (op # ops) m = (op, m, health_step heap op m) # health_trace heap ops (health_step heap op m)"

section \<open>Only known codes are shown\<close>

definition known_codes :: "string list" where
  "known_codes = [''ECONNREFUSED'', ''ENOTFOUND'', ''EAI_AGAIN'', ''ETIMEDOUT'', ''CONNECTION_LOST'', ''ER_HOST_NOT_PRIVILEGED'',
     ''ER_HOST_IS_BLOCKED'', ''28P01'', ''28000'', ''ER_ACCESS_DENIED_ERROR'', ''ER_DBACCESS_DENIED_ERROR'', ''3D000'',
     ''ER_BAD_DB_ERROR'', ''53300'', ''ER_CON_COUNT_ERROR'', ''ER_TOO_MANY_USER_CONNECTIONS'',
     ''INITIALIZATION_FAILED'', ''DATABASE_CHECK_FAILED''] @
     lost_codes @ initializationOnlyCodes @ certificate_codes @ map (\<lambda>x. ''SQLITE_'' @ x) sqlite_names"

definition shown_code :: "string \<Rightarrow> bool" where
  "shown_code c \<longleftrightarrow> c \<in> set known_codes \<or> connection_class c"

lemma sqlite_code_known:
  assumes "sqlite_code code = Some c"
  shows "c \<in> set (map (\<lambda>x. ''SQLITE_'' @ x) sqlite_names)"
proof -
  from assms obtain x where x: "x \<in> set sqlite_names" and pre: "take (length (''SQLITE_'' @ x)) code = ''SQLITE_'' @ x"
    and rest: "case drop (length (''SQLITE_'' @ x)) code of [] \<Rightarrow> True | c # cs \<Rightarrow> c = CHR ''_''"
    and c: "c = js_join ''_'' (take 2 (js_split (CHR ''_'') code))"
    by (auto simp: sqlite_code_def starts_def list_ex_iff split: if_splits)
  have no: "CHR ''_'' \<notin> set x" using x by (auto simp: sqlite_names_def)
  have code: "code = (''SQLITE_'' @ x) @ drop (length (''SQLITE_'' @ x)) code"
    using append_take_drop_id [of "length (''SQLITE_'' @ x)" code] unfolding pre by (rule sym)
  have split: "js_split (CHR ''_'') (''SQLITE'' @ CHR ''_'' # t) = ''SQLITE'' # js_split (CHR ''_'') t" for t
    by (rule js_split_append) simp
  have "take 2 (js_split (CHR ''_'') code) = [''SQLITE'', x]"
  proof (cases "drop (length (''SQLITE_'' @ x)) code")
    case Nil
    then have "code = ''SQLITE'' @ CHR ''_'' # x" using code by simp
    then show ?thesis using split [of x] js_split_no_sep [OF no] by simp
  next
    case (Cons d ds)
    then have "code = ''SQLITE'' @ CHR ''_'' # (x @ CHR ''_'' # ds)" using code rest by simp
    then show ?thesis using split [of "x @ CHR ''_'' # ds"] js_split_append [OF no, of ds] by simp
  qed
  then show ?thesis using x c by simp
qed

lemma describe_object_shown: "describe_object initialization ob = Some c \<Longrightarrow> shown_code c"
  unfolding describe_object_def Let_def shown_code_def known_codes_def
  by (auto split: if_splits option.splits dest!: sqlite_code_known)

lemma search_error_from: "search_error n heap f seen pending = Some r \<Longrightarrow> \<exists>i. f (heap i) = Some r"
  by (induction n heap f seen pending rule: search_error.induct) (auto split: if_splits option.splits)

lemma describe_shown: "describeDatabaseError heap error initialization = Some c \<Longrightarrow> shown_code c"
  unfolding describeDatabaseError_def using search_error_from describe_object_shown by metis

section \<open>Outages\<close>

text \<open>
  \<open>ht_recoveryBlockReason\<close> and \<open>ht_initializationBlocked\<close> tell that the database must be repaired
  before it is used again.
\<close>

definition tracker_ok :: "tracker \<Rightarrow> bool" where
  "tracker_ok h \<longleftrightarrow>
     (ht_state h = Unavailable \<longleftrightarrow> ht_reason h \<noteq> None) \<and>
     (ht_state h = Unavailable \<longleftrightarrow> ht_unavailableSince h \<noteq> None) \<and>
     (case ht_reason h of None \<Rightarrow> True | Some c \<Rightarrow> shown_code c) \<and>
     (if ht_recoveryBlockReason h = None then \<not> storage_failed h
      else ht_reason h = ht_recoveryBlockReason h \<and> ht_restartRequired h) \<and>
     (if ht_initializationBlocked h then ht_state h = Unavailable \<and> ht_restartRequired h
      else ht_recoveryBlockReason h = None \<or> storage_failed h) \<and>
     list_all (\<lambda>c. c = ''recovered'' \<or> shown_code c) (ht_logged h)"

definition monitor_ok :: "monitor \<Rightarrow> bool" where
  "monitor_ok m \<longleftrightarrow> tracker_ok (hm_health m) \<and>
     (if hm_initialized m then \<not> ht_initializationBlocked (hm_health m) \<and> hm_phase m \<noteq> Initializing else hm_ready m = 0) \<and>
     hm_ready m \<le> 1"

lemma shown_constants: "shown_code ''INITIALIZATION_FAILED''" "shown_code ''DATABASE_CHECK_FAILED''"
  by (simp_all add: shown_code_def known_codes_def)

lemma storage_shown: "c \<in> set storage_codes \<Longrightarrow> shown_code c"
  by (auto simp: storage_codes_def shown_code_def known_codes_def sqlite_names_def)

lemma not_storage: "''INITIALIZATION_FAILED'' \<notin> set storage_codes" "''DATABASE_CHECK_FAILED'' \<notin> set storage_codes"
  by (simp_all add: storage_codes_def)

lemma storage_not_initialization: "c \<in> set storage_codes \<Longrightarrow> c \<notin> set initializationOnlyCodes"
  by (auto simp: storage_codes_def initializationOnlyCodes_def)

lemma new_tracker_ok: "tracker_ok new_tracker"
  by (simp add: tracker_ok_def new_tracker_def storage_failed_def)

lemma healthy_ok: "tracker_ok h \<Longrightarrow> tracker_ok (healthy now h)"
  by (auto simp: tracker_ok_def healthy_def storage_failed_def)

lemma notConfigured_ok: "tracker_ok h \<Longrightarrow> tracker_ok (notConfigured now h)"
  by (auto simp: tracker_ok_def notConfigured_def storage_failed_def)

lemma take_down_fields:
  "ht_state (take_down reason i now h) = Unavailable"
  "ht_unavailableSince (take_down reason i now h) = Some (case ht_unavailableSince h of Some t \<Rightarrow> t | None \<Rightarrow> now)"
  "ht_initializationBlocked (take_down reason i now h) =
     (ht_initializationBlocked h \<or> i \<and> (case reason of None \<Rightarrow> True | Some c \<Rightarrow> c \<in> set initializationOnlyCodes))"
  "ht_restartRequired (take_down reason i now h) =
     (ht_restartRequired h \<or> i \<or> (case reason of None \<Rightarrow> False | Some c \<Rightarrow> c \<in> set storage_codes))"
  "ht_recoveryBlockReason (take_down reason i now h) =
     (case reason of
        None \<Rightarrow> if i then Some ''INITIALIZATION_FAILED'' else ht_recoveryBlockReason h
      | Some c \<Rightarrow> if c \<in> set storage_codes then Some c else ht_recoveryBlockReason h)"
  by (auto simp: take_down_def Let_def split: option.splits)

lemma take_down_reason:
  "ht_reason (take_down reason i now h) =
     Some (case ht_recoveryBlockReason (take_down reason i now h) of Some c \<Rightarrow> c
       | None \<Rightarrow> (case reason of Some c \<Rightarrow> c | None \<Rightarrow> if i then ''INITIALIZATION_FAILED'' else ''DATABASE_CHECK_FAILED''))"
  by (auto simp: take_down_def Let_def split: option.splits)

lemma take_down_logged:
  "ht_logged (take_down reason i now h) \<in> {ht_logged h, ht_logged h @ [the (ht_reason (take_down reason i now h))]}"
  by (auto simp: take_down_def Let_def split: option.splits)

lemma take_down_ok:
  assumes ok: "tracker_ok h" and reason: "\<And>c. reason = Some c \<Longrightarrow> shown_code c"
    and free: "\<not> ht_initializationBlocked h"
  shows "tracker_ok (take_down reason i now h)"
proof -
  let ?h = "take_down reason i now h"
  have block: "\<And>c. ht_recoveryBlockReason h = Some c \<Longrightarrow> shown_code c \<and> c \<in> set storage_codes \<and> ht_restartRequired h"
    using ok free by (auto simp: tracker_ok_def storage_failed_def split: if_splits)
  have shown: "case ht_reason ?h of None \<Rightarrow> True | Some c \<Rightarrow> shown_code c"
    using reason block shown_constants by (auto simp: take_down_reason take_down_fields storage_shown split: option.splits)
  have storage: "if ht_recoveryBlockReason ?h = None then \<not> storage_failed ?h
      else ht_reason ?h = ht_recoveryBlockReason ?h \<and> ht_restartRequired ?h"
    using block not_storage
    by (auto simp: storage_failed_def take_down_reason take_down_fields split: option.splits if_splits)
  have blocked: "if ht_initializationBlocked ?h then ht_state ?h = Unavailable \<and> ht_restartRequired ?h
      else ht_recoveryBlockReason ?h = None \<or> storage_failed ?h"
    using free block
    by (auto simp: storage_failed_def take_down_reason take_down_fields split: option.splits if_splits)
  have logged: "list_all (\<lambda>c. c = ''recovered'' \<or> shown_code c) (ht_logged ?h)"
  proof -
    obtain r where "ht_reason ?h = Some r" using take_down_reason [of reason i now h] by blast
    then show ?thesis
      using take_down_logged [of reason i now h] ok shown unfolding tracker_ok_def by (auto split: option.splits)
  qed
  show ?thesis
    using shown storage blocked logged unfolding tracker_ok_def
    by (auto simp: take_down_fields take_down_reason split: option.splits)
qed

lemma unavailable_ok:
  assumes ok: "tracker_ok h"
  shows "tracker_ok (snd (unavailable heap error i force now h))"
proof -
  have "tracker_ok (h \<lparr>ht_checkedAt := Some now\<rparr>) = tracker_ok h"
    unfolding tracker_ok_def storage_failed_def by simp
  then show ?thesis
    using take_down_ok [OF ok, of "describeDatabaseError heap error i" i now] describe_shown [of heap error i] ok
    by (auto simp: unavailable_def Let_def)
qed

lemma unavailable_unblocked:
  "\<not> ht_initializationBlocked h \<Longrightarrow> \<not> ht_initializationBlocked (snd (unavailable heap error False force now h))"
  by (simp add: unavailable_def Let_def take_down_fields)

lemma healthy_fields [simp]:
  "\<not> ht_initializationBlocked (healthy now h)" "ht_state (healthy now h) = Healthy" "ht_recoveryBlockReason (healthy now h) = None"
  by (simp_all add: healthy_def)

lemma boot_ok: "monitor_ok (boot heap res now)"
  by (auto simp: boot_def monitor_ok_def start_monitor_def new_tracker_ok healthy_ok notConfigured_ok unavailable_ok
      split: init_end.splits)

lemma health_step_ok:
  assumes ok: "monitor_ok m"
  shows "monitor_ok (health_step heap op m)"
proof (cases op)
  case (CheckBegin config now)
  then show ?thesis using ok notConfigured_ok [of "hm_health m" now]
    by (auto simp: check_begin_def monitor_ok_def notConfigured_def configure_def tracker_ok_def storage_failed_def
        split: option.splits)
next
  case (CheckProbed res now)
  then show ?thesis
    using ok healthy_ok [of "hm_health m" now] unavailable_ok [of "hm_health m" heap _ _ True now]
      unavailable_unblocked [of "hm_health m" heap _ True now]
    by (auto simp: check_probed_def monitor_ok_def healthy_def split: probe_end.splits)
next
  case (CheckInitialized res now)
  then show ?thesis
    using ok healthy_ok [of "hm_health m" now] healthy_ok [of "healthy now (hm_health m)" now] notConfigured_ok [of "hm_health m" now]
      unavailable_ok [of "hm_health m" heap]
    by (auto simp: check_initialized_def monitor_ok_def healthy_def split: init_end.splits if_splits)
next
  case (ReportError error now)
  then show ?thesis
    using ok unavailable_ok [of "hm_health m" heap error False False now]
      unavailable_unblocked [of "hm_health m" heap error False now]
    by (auto simp: monitor_ok_def)
next
  case StopMonitor
  then show ?thesis using ok by (simp add: monitor_ok_def stop_monitor_def)
qed

text \<open>The steps that end an outage in which the database must be repaired.\<close>

definition repairs :: "health_op \<Rightarrow> bool" where
  "repairs op \<longleftrightarrow>
     (case op of
        CheckInitialized res now \<Rightarrow> res = InitReady \<or> res = InitNotConfigured
      | CheckBegin config now \<Rightarrow> config = None
      | _ \<Rightarrow> False)"

definition outage_step :: "health_op \<times> monitor \<times> monitor \<Rightarrow> bool" where
  "outage_step = (\<lambda>(op, m, m').
     let h = hm_health m; h' = hm_health m' in
     (if ht_state h = Unavailable \<and> ht_state h' = Unavailable then ht_unavailableSince h' = ht_unavailableSince h else True) \<and>
     (if ht_recoveryBlockReason h \<noteq> None \<and> \<not> repairs op
      then ht_recoveryBlockReason h' \<noteq> None \<and> ht_state h' = Unavailable \<and> ht_restartRequired h' else True) \<and>
     (if ht_initializationBlocked h \<and> \<not> repairs op
      then ht_initializationBlocked h' \<and> ht_reason h' = ht_reason h \<and> ht_state h' = Unavailable else True) \<and>
     (if hm_starts m' \<noteq> hm_starts m
      then hm_starts m' = Suc (hm_starts m) \<and> \<not> hm_initialized m \<and> \<not> ht_initializationBlocked h \<and> ht_recoveryBlockReason h = None
      else True) \<and>
     (if ht_state h = Unavailable \<and> ht_state h' = Healthy
      then (case op of CheckProbed res now \<Rightarrow> res = ProbeOk \<and> hm_initialized m | CheckInitialized res now \<Rightarrow> res = InitReady | _ \<Rightarrow> False)
      else True))"

lemma unavailable_keeps:
  assumes ok: "tracker_ok h" and h': "h' = snd (unavailable heap error i force now h)"
  shows "ht_state h = Unavailable \<Longrightarrow> ht_unavailableSince h' = ht_unavailableSince h \<and> ht_state h' = Unavailable"
    and "ht_recoveryBlockReason h \<noteq> None \<Longrightarrow> ht_recoveryBlockReason h' \<noteq> None \<and> ht_state h' = Unavailable \<and> ht_restartRequired h'"
    and "ht_initializationBlocked h \<Longrightarrow> ht_initializationBlocked h' \<and> ht_reason h' = ht_reason h \<and> ht_state h' = Unavailable"
    and "ht_state h' = Healthy \<Longrightarrow> ht_state h = Healthy"
proof -
  have cases: "h' = h \<or> h' = h \<lparr>ht_checkedAt := Some now\<rparr> \<or>
      \<not> ht_initializationBlocked h \<and> h' = take_down (describeDatabaseError heap error i) i now h"
    unfolding h' unavailable_def Let_def by auto
  show "ht_state h = Unavailable \<Longrightarrow> ht_unavailableSince h' = ht_unavailableSince h \<and> ht_state h' = Unavailable"
    using cases ok by (auto simp: take_down_fields tracker_ok_def split: option.splits)
  show "ht_recoveryBlockReason h \<noteq> None \<Longrightarrow> ht_recoveryBlockReason h' \<noteq> None \<and> ht_state h' = Unavailable \<and> ht_restartRequired h'"
    using cases ok by (auto simp: take_down_fields tracker_ok_def split: option.splits if_splits)
  show "ht_initializationBlocked h \<Longrightarrow> ht_initializationBlocked h' \<and> ht_reason h' = ht_reason h \<and> ht_state h' = Unavailable"
    using cases ok by (auto simp: tracker_ok_def)
  show "ht_state h' = Healthy \<Longrightarrow> ht_state h = Healthy"
    using cases by (auto simp: take_down_fields)
qed

lemma unavailable_step:
  assumes ok: "tracker_ok (hm_health m)"
    and m': "hm_health m' = snd (unavailable heap error i force now (hm_health m))" "hm_starts m' = hm_starts m"
  shows "outage_step (op, m, m')"
  using unavailable_keeps [OF ok m'(1)] m'(2) unfolding outage_step_def Let_def by auto

lemma same_health_step:
  assumes "tracker_ok (hm_health m)" "hm_health m' = hm_health m" "hm_starts m' = hm_starts m"
  shows "outage_step (op, m, m')"
  using assms unfolding outage_step_def Let_def tracker_ok_def by (auto split: if_splits)

lemma health_step_outage:
  assumes ok: "monitor_ok m"
  shows "outage_step (op, m, health_step heap op m)"
proof -
  have tr: "tracker_ok (hm_health m)" using ok by (simp add: monitor_ok_def)
  show ?thesis
  proof (cases op)
    case (ReportError error now)
    show ?thesis unfolding ReportError health_step.simps by (rule unavailable_step [OF tr]) simp_all
  next
    case StopMonitor
    show ?thesis unfolding StopMonitor health_step.simps by (rule same_health_step [OF tr]) (simp_all add: stop_monitor_def)
  next
    case (CheckBegin config now)
    show ?thesis
    proof (cases "hm_phase m \<noteq> Idle \<or> hm_stopped m")
      case True
      then show ?thesis unfolding CheckBegin by (intro same_health_step [OF tr]) (simp_all add: check_begin_def)
    next
      case False
      then show ?thesis
        using tr by (cases config)
          (auto simp: CheckBegin check_begin_def outage_step_def Let_def repairs_def notConfigured_def configure_def tracker_ok_def
            split: if_splits)
    qed
  next
    case (CheckProbed res now)
    show ?thesis
    proof (cases res)
      case (ProbeFailed error)
      show ?thesis
      proof (cases "hm_phase m = Probing")
        case True
        show ?thesis unfolding CheckProbed ProbeFailed health_step.simps
          by (rule unavailable_step [OF tr, where heap = heap and error = error and i = "\<not> hm_initialized m" and force = True and now = now])
            (simp_all add: check_probed_def True)
      next
        case False
        then show ?thesis unfolding CheckProbed by (intro same_health_step [OF tr]) (simp_all add: check_probed_def)
      qed
    next
      case ProbeOk
      show ?thesis
      proof (cases "hm_phase m = Probing \<and> \<not> storage_failed (hm_health m) \<and> (hm_initialized m \<or> canRetryInitialization (hm_health m))")
        case True
        then have free: "\<not> ht_initializationBlocked (hm_health m)" "ht_recoveryBlockReason (hm_health m) = None"
          using ok by (auto simp: monitor_ok_def tracker_ok_def canRetryInitialization_def split: if_splits)
        then show ?thesis using True tr
          by (auto simp: CheckProbed ProbeOk check_probed_def outage_step_def Let_def)
      next
        case False
        then show ?thesis unfolding CheckProbed ProbeOk by (intro same_health_step [OF tr]) (auto simp: check_probed_def)
      qed
    qed
  next
    case (CheckInitialized res now)
    show ?thesis
    proof (cases "hm_phase m = Initializing")
      case False
      then show ?thesis unfolding CheckInitialized by (intro same_health_step [OF tr]) (simp_all add: check_initialized_def)
    next
      case True
      show ?thesis
      proof (cases res)
        case InitReady
        then show ?thesis using True by (simp add: CheckInitialized check_initialized_def outage_step_def Let_def repairs_def)
      next
        case InitNotConfigured
        then show ?thesis using True
          by (simp add: CheckInitialized check_initialized_def outage_step_def Let_def repairs_def notConfigured_def)
      next
        case (InitFailed error)
        show ?thesis unfolding CheckInitialized InitFailed health_step.simps
          by (rule unavailable_step [OF tr, where heap = heap and error = error and i = True and force = False and now = now])
            (simp_all add: check_initialized_def True)
      next
        case (InitThrew error)
        show ?thesis unfolding CheckInitialized InitThrew health_step.simps
          by (rule unavailable_step [OF tr, where heap = heap and error = error and i = "\<not> hm_initialized m" and force = True and now = now])
            (simp_all add: check_initialized_def True)
      qed
    qed
  qed
qed

lemma health_trace_ok:
  "monitor_ok m \<Longrightarrow> list_all (\<lambda>x. outage_step x \<and> monitor_ok (fst (snd x)) \<and> monitor_ok (snd (snd x))) (health_trace heap ops m)"
proof (induction ops arbitrary: m)
  case (Cons op ops)
  then show ?case
    using Cons.IH [OF health_step_ok [OF Cons.prems]] health_step_outage [OF Cons.prems] health_step_ok [OF Cons.prems] by simp
qed simp

text \<open>
  C19: whatever the drivers report, and in whatever order probes, initializations and errors of the
  panel's work come: the reason that is shown, and what is logged, is one of the known codes,
  never a text of a driver; the panel shows a reason and the beginning of the outage exactly while
  the database is unavailable, and the beginning stays the same; a failure that must be repaired
  stays, and a restart is asked for, until an initialization succeeds or no database is
  configured; a failed initialization that cannot be helped by waiting is not repeated and its
  reason is kept; an initialization is started only when nothing blocks it; the panel
  starts its work at most once; and an outage ends only with a successful probe of an initialized
  database or a successful initialization.
\<close>

theorem database_outages_kept:
  "list_all (\<lambda>x. outage_step x \<and> monitor_ok (fst (snd x)) \<and> monitor_ok (snd (snd x))) (health_trace heap ops (boot heap res start))"
  by (rule health_trace_ok [OF boot_ok])

text \<open>A disk that is full is reported while the database still answers.\<close>

definition sample_heap :: err_heap where
  "sample_heap i =
     (if i = 0 then \<lparr>eo_code = JUndef, eo_errno = JUndef, eo_message = JStr ''wrapped'', eo_sqlMessage = JUndef, eo_cause = ObjectRef 1, eo_errors = None\<rparr>
      else \<lparr>eo_code = JStr ''sqlite_full_disk'', eo_errno = JUndef, eo_message = JUndef, eo_sqlMessage = JUndef, eo_cause = ObjectRef 0, eo_errors = None\<rparr>)"

lemma sample_outage:
  "map (\<lambda>(op, m, m'). (ht_state (hm_health m'), ht_reason (hm_health m')))
     (health_trace sample_heap [ReportError (ObjectRef 0) 5, CheckBegin (Some SQLite) 6, CheckProbed ProbeOk 7] (boot sample_heap InitReady 0)) =
   [(Unavailable, Some ''SQLITE_FULL''), (Unavailable, Some ''SQLITE_FULL''), (Unavailable, Some ''SQLITE_FULL'')]"
  by code_simp

end
