(* ===== verification/Panel_Clock.thy ===== *)
theory Panel_Clock
  imports Prelude "HOL-Library.Multiset"
begin

text \<open>
  \<open>server/panelClock.ts\<close>: messages to agents carry the time, and machines' clocks may be wrong, so
  the panel asks several servers for the time and takes a correction that enough of them agree on.
  Numbers are rationals; the sources' answers are arguments, and so are the clock of the system
  (\<open>Date.now\<close>) and the monotonic clock when they are read.
\<close>

section \<open>Samples\<close>

definition CONSENSUS_TOLERANCE_MS :: rat where
  "CONSENSUS_TOLERANCE_MS = 5000"

definition MAX_CLOCK_OFFSET_MS :: rat where
  "MAX_CLOCK_OFFSET_MS = 24 * 60 * 60 * 1000"

definition MAX_SOURCE_AGE_SECONDS :: int where
  "MAX_SOURCE_AGE_SECONDS = 24 * 60 * 60"

definition FAILURE_LOG_INTERVAL_MS :: rat where
  "FAILURE_LOG_INTERVAL_MS = 6 * 60 * 60 * 1000"

record clock_sample =
  sm_source :: string
  sm_offsetMs :: jsnum
  sm_roundTripMs :: jsnum
  sm_remoteTimeMs :: rat
  sm_monotonicMidpointMs :: rat

text \<open>The offset of a valid sample, which is finite.\<close>

definition offset :: "clock_sample \<Rightarrow> rat" where
  "offset s = (case sm_offsetMs s of Fin q \<Rightarrow> q | _ \<Rightarrow> 0)"

definition valid_sample :: "clock_sample \<Rightarrow> bool" where
  "valid_sample s \<longleftrightarrow>
     (case sm_offsetMs s of Fin q \<Rightarrow> \<bar>q\<bar> \<le> MAX_CLOCK_OFFSET_MS | _ \<Rightarrow> False) \<and>
     (case sm_roundTripMs s of Fin q \<Rightarrow> 0 \<le> q | _ \<Rightarrow> False)"

definition median :: "rat list \<Rightarrow> rat" where
  "median xs =
     (let sorted = sort xs; middle = length sorted div 2 in
      if even (length sorted) then (sorted ! (middle - 1) + sorted ! middle) / 2 else sorted ! middle)"

record consensus =
  cn_offsetMs :: rat
  cn_samples :: "clock_sample list"
  cn_degraded :: bool

text \<open>The samples from \<open>start\<close> on that are within the tolerance of the one at \<open>start\<close>.\<close>

definition candidate :: "rat \<Rightarrow> clock_sample list \<Rightarrow> nat \<Rightarrow> clock_sample list" where
  "candidate tol valid start =
     valid ! start # takeWhile (\<lambda>s. offset s - offset (valid ! start) \<le> tol) (drop (Suc start) valid)"

definition sample_median :: "clock_sample list \<Rightarrow> rat" where
  "sample_median ss = median (map offset ss)"

definition consider_start :: "rat \<Rightarrow> clock_sample list \<Rightarrow> nat \<Rightarrow> clock_sample list \<times> bool \<Rightarrow> clock_sample list \<times> bool" where
  "consider_start tol valid start = (\<lambda>(best, ambiguous).
     let c = candidate tol valid start in
     if length best < length c then (c, False)
     else if length c = length best \<and> 0 < length best
     then (best, ambiguous \<or> tol < \<bar>sample_median best - sample_median c\<bar>)
     else (best, ambiguous))"

definition selectPanelClockConsensus :: "clock_sample list \<Rightarrow> rat \<Rightarrow> bool \<Rightarrow> consensus option" where
  "selectPanelClockConsensus samples tol allowSingleSource =
     (let valid = sort_key offset (filter valid_sample samples) in
      if valid = [] then None
      else if length valid = 1
      then (if allowSingleSource
            then Some \<lparr>cn_offsetMs = offset (valid ! 0), cn_samples = valid, cn_degraded = True\<rparr> else None)
      else
        let (best, ambiguous) = fold (consider_start tol valid) [0 ..< length valid] ([], False) in
        if length best < 2 \<or> ambiguous then None
        else Some \<lparr>cn_offsetMs = sample_median best, cn_samples = best, cn_degraded = False\<rparr>)"

section \<open>One source\<close>

text \<open>\<open>Number.parseInt(text, 10)\<close>\<close>

definition js_parse_int :: "string \<Rightarrow> int option" where
  "js_parse_int text =
     (let t = dropWhile js_space text;
          neg = (t \<noteq> [] \<and> hd t = CHR ''-'');
          ds = takeWhile is_digit (if t \<noteq> [] \<and> (hd t = CHR ''-'' \<or> hd t = CHR ''+'') then tl t else t)
      in if ds = [] then None else Some (if neg then - int (digits_val ds) else int (digits_val ds)))"

text \<open>
  What was seen of a request: nothing if it failed or was aborted, else whether the final address
  is HTTPS, the parsed \<open>date\<close> header and the text of the \<open>age\<close> header.
\<close>

record clock_answer =
  ca_https :: bool
  ca_dateMs :: jsnum
  ca_age :: string

definition probePanelClockSource ::
    "string \<Rightarrow> rat \<Rightarrow> rat \<Rightarrow> rat \<Rightarrow> clock_answer option \<Rightarrow> rat \<Rightarrow> rat \<Rightarrow> clock_sample option" where
  "probePanelClockSource source timeoutMs startedWall startedMono answer endedMono endedWall =
     (case answer of
        None \<Rightarrow> None
      | Some a \<Rightarrow>
          if \<not> ca_https a then None
          else
            let requestTimeoutMs = max 250 (if timeoutMs = 0 then 3500 else timeoutMs);
                roundTripMs = max 0 (endedMono - startedMono)
            in if requestTimeoutMs < roundTripMs then None
               else if 1000 < \<bar>(endedWall - startedWall) - roundTripMs\<bar> then None
               else case ca_dateMs a of
                 Fin dateMs \<Rightarrow>
                   let rawAge = js_parse_int (if ca_age a = [] then ''0'' else ca_age a);
                       ageSeconds = (case rawAge of None \<Rightarrow> 0 | Some n \<Rightarrow> min (max n 0) MAX_SOURCE_AGE_SECONDS);
                       remoteTimeMs = dateMs + of_int ageSeconds * 1000 + 500;
                       offsetMs = remoteTimeMs - (startedWall + roundTripMs / 2)
                   in if MAX_CLOCK_OFFSET_MS < \<bar>offsetMs\<bar> then None
                      else Some \<lparr>sm_source = source, sm_offsetMs = Fin offsetMs, sm_roundTripMs = Fin roundTripMs,
                                 sm_remoteTimeMs = remoteTimeMs, sm_monotonicMidpointMs = startedMono + roundTripMs / 2\<rparr>
               | _ \<Rightarrow> None)"

section \<open>The clock\<close>

record calibration =
  cb_trustedAtMs :: rat
  cb_monotonicAtMs :: rat
  cb_offsetMs :: rat
  cb_sources :: "string list"
  cb_calibratedAtSystemMs :: rat

record panel_clock =
  pc_calibration :: "calibration option"
  pc_inFlight :: bool
  pc_lastFailureLogAt :: rat
  pc_warnings :: nat

definition new_clock :: panel_clock where
  "new_clock = \<lparr>pc_calibration = None, pc_inFlight = False, pc_lastFailureLogAt = 0, pc_warnings = 0\<rparr>"

definition log_failure :: "rat \<Rightarrow> panel_clock \<Rightarrow> panel_clock" where
  "log_failure now c =
     (if pc_lastFailureLogAt c = 0 \<or> FAILURE_LOG_INTERVAL_MS \<le> now - pc_lastFailureLogAt c
      then c \<lparr>pc_lastFailureLogAt := now, pc_warnings := Suc (pc_warnings c)\<rparr> else c)"

text \<open>
  The end of a refresh, when all sources have answered; \<open>None\<close> are no sources at all. The
  correction is taken for the moment of the monotonic clock at which it is put in force.
\<close>

definition performPanelClockRefresh :: "clock_sample option list option \<Rightarrow> bool \<Rightarrow> rat \<Rightarrow> rat \<Rightarrow> panel_clock \<Rightarrow> consensus option \<times> panel_clock" where
  "performPanelClockRefresh results allowSingleSource wall mtime c =
     (case results of
        None \<Rightarrow> (None, log_failure wall c)
      | Some rs \<Rightarrow>
          let samples = List.map_filter id rs in
          (case selectPanelClockConsensus samples CONSENSUS_TOLERANCE_MS allowSingleSource of
             None \<Rightarrow> (None, log_failure wall c)
           | Some cn \<Rightarrow>
               let trustedAtMs = median (map (\<lambda>s. sm_remoteTimeMs s + (mtime - sm_monotonicMidpointMs s)) (cn_samples cn));
                   applied = trustedAtMs - wall
               in (Some (cn \<lparr>cn_offsetMs := applied\<rparr>),
                   c \<lparr>pc_calibration := Some \<lparr>cb_trustedAtMs = trustedAtMs, cb_monotonicAtMs = mtime, cb_offsetMs = applied,
                        cb_sources = map sm_source (cn_samples cn), cb_calibratedAtSystemMs = wall\<rparr>,
                      pc_lastFailureLogAt := 0\<rparr>)))"

text \<open>A refresh that is under way is shared; its end is \<open>end_refresh\<close>.\<close>

definition refreshPanelClock :: "panel_clock \<Rightarrow> bool \<times> panel_clock" where
  "refreshPanelClock c = (if pc_inFlight c then (False, c) else (True, c \<lparr>pc_inFlight := True\<rparr>))"

definition end_refresh :: "clock_sample option list option \<Rightarrow> bool \<Rightarrow> rat \<Rightarrow> rat \<Rightarrow> panel_clock \<Rightarrow> consensus option \<times> panel_clock" where
  "end_refresh results allowSingleSource wall mtime c =
     (let (res, c1) = performPanelClockRefresh results allowSingleSource wall mtime c in (res, c1 \<lparr>pc_inFlight := False\<rparr>))"

text \<open>\<open>Math.round\<close> is rounding half up.\<close>

definition panelCryptoNowMs :: "rat \<Rightarrow> rat \<Rightarrow> panel_clock \<Rightarrow> rat" where
  "panelCryptoNowMs wall mtime c =
     (case pc_calibration c of
        None \<Rightarrow> wall
      | Some cb \<Rightarrow> of_int \<lfloor>cb_trustedAtMs cb + (mtime - cb_monotonicAtMs cb) + 1 / 2\<rfloor>)"

section \<open>Medians\<close>

lemma sorted_between:
  fixes xs :: "rat list"
  assumes "sorted xs" and "i \<le> j" and "j < length xs"
  shows "xs ! i \<le> xs ! j"
  using assms by (rule sorted_nth_mono)

lemma median_sorted:
  assumes "sorted xs"
  shows "median xs = (xs ! ((length xs - 1) div 2) + xs ! (length xs div 2)) / 2"
proof -
  have "sort xs = xs" using assms by (rule sorted_sort_id)
  moreover have "even (length xs) \<Longrightarrow> length xs div 2 - 1 = (length xs - 1) div 2"
    by (cases "length xs") (auto elim!: evenE oddE)
  moreover have "odd (length xs) \<Longrightarrow> length xs div 2 = (length xs - 1) div 2"
    by (auto elim!: oddE)
  ultimately show ?thesis by (simp add: median_def Let_def)
qed

lemma median_bounds:
  assumes "sorted xs" and "xs \<noteq> []"
  shows "hd xs \<le> median xs" and "median xs \<le> last xs"
proof -
  let ?i = "(length xs - 1) div 2" and ?j = "length xs div 2"
  have len: "0 < length xs" using assms(2) by simp
  then have ij: "?i \<le> ?j" "?i < length xs" "?j < length xs" "?i \<le> length xs - 1" "?j \<le> length xs - 1"
  proof -
    show "?i \<le> length xs - 1" by (rule div_le_dividend)
    then show "?i < length xs" using len by linarith
  qed auto
  have "hd xs \<le> xs ! ?i" "hd xs \<le> xs ! ?j"
    unfolding hd_conv_nth [OF assms(2)] using sorted_between [OF assms(1) le0 ij(2)] sorted_between [OF assms(1) le0 ij(3)] by blast+
  then show "hd xs \<le> median xs" unfolding median_sorted [OF assms(1)] by simp
  have "xs ! ?i \<le> last xs" "xs ! ?j \<le> last xs"
    unfolding last_conv_nth [OF assms(2)]
    using sorted_between [OF assms(1) ij(4)] sorted_between [OF assms(1) ij(5)] len by simp_all
  then show "median xs \<le> last xs" unfolding median_sorted [OF assms(1)] by simp
qed

section \<open>The largest group that agrees\<close>

text \<open>
  What the loop computes: the first candidate of the greatest size, and whether another of that
  size disagrees with it. \<open>valid\<close> is sorted by offset.
\<close>

definition in_order :: "clock_sample list \<Rightarrow> bool" where
  "in_order ss \<longleftrightarrow> sorted (map offset ss)"

lemma candidate_sublist:
  assumes "start < length valid"
  shows "candidate tol valid start = take (length (candidate tol valid start)) (drop start valid)"
proof -
  have "drop start valid = valid ! start # drop (Suc start) valid" using assms by (rule Cons_nth_drop_Suc [symmetric])
  moreover have "takeWhile P xs = take (length (takeWhile P xs)) xs" for P and xs :: "clock_sample list"
    by (rule takeWhile_eq_take)
  ultimately show ?thesis unfolding candidate_def by simp
qed

lemma candidate_in_order: "in_order valid \<Longrightarrow> start < length valid \<Longrightarrow> in_order (candidate tol valid start)"
  unfolding in_order_def by (subst candidate_sublist) (simp_all add: take_map [symmetric] drop_map [symmetric] sorted_wrt_take sorted_wrt_drop)

lemma candidate_spread:
  assumes tol: "0 \<le> tol" and s: "s \<in> set (candidate tol valid start)"
  shows "offset s - offset (valid ! start) \<le> tol"
  using s tol by (auto simp: candidate_def dest: set_takeWhileD)

text \<open>A candidate misses no sample within the tolerance of its first one.\<close>

lemma candidate_complete:
  assumes ord: "in_order valid" and start: "start < length valid"
    and i: "start \<le> i" "i < length valid" and near: "offset (valid ! i) - offset (valid ! start) \<le> tol"
  shows "i < start + length (candidate tol valid start)"
proof (cases "i = start")
  case True
  then show ?thesis by (simp add: candidate_def)
next
  case False
  define xs where "xs = drop (Suc start) valid"
  define P where "P = (\<lambda>s. offset s - offset (valid ! start) \<le> tol)"
  define k where "k = i - Suc start"
  have k: "k < length xs" "xs ! k = valid ! i" using False i by (simp_all add: xs_def k_def)
  have "P (xs ! j)" if "j \<le> k" for j
  proof -
    have j: "j < length xs" using that k by simp
    have "xs ! j = valid ! (Suc start + j)" using j by (simp add: xs_def)
    moreover have "map offset valid ! (Suc start + j) \<le> map offset valid ! i"
      using ord that False i k_def unfolding in_order_def by (intro sorted_nth_mono) auto
    ultimately show ?thesis using near that False i k_def j unfolding P_def xs_def by simp
  qed
  then have "k < length (takeWhile P xs)"
  proof (intro not_le_imp_less notI)
    assume P: "\<And>j. j \<le> k \<Longrightarrow> P (xs ! j)" and "length (takeWhile P xs) \<le> k"
    then have "\<not> P (xs ! length (takeWhile P xs))" using k by (intro nth_length_takeWhile) simp
    with P \<open>length (takeWhile P xs) \<le> k\<close> show False by blast
  qed
  then show ?thesis using False i by (simp add: candidate_def xs_def P_def k_def)
qed

definition agrees :: "rat \<Rightarrow> clock_sample list \<Rightarrow> clock_sample list \<Rightarrow> bool" where
  "agrees tol best c \<longleftrightarrow> \<bar>sample_median best - sample_median c\<bar> \<le> tol"

lemma fold_consider:
  assumes "fold (consider_start tol valid) [0 ..< n] ([], False) = (best, ambiguous)" and "0 < n" and "0 \<le> tol"
  shows "(\<exists>k < n. best = candidate tol valid k) \<and>
     (\<forall>k < n. length (candidate tol valid k) \<le> length best) \<and>
     (ambiguous \<longleftrightarrow> (\<exists>k < n. length (candidate tol valid k) = length best \<and> \<not> agrees tol best (candidate tol valid k)))"
  using assms
proof (induction n arbitrary: best ambiguous)
  case 0
  then show ?case by simp
next
  case (Suc n)
  have pos: "0 < length (candidate tol valid k)" for k by (simp add: candidate_def)
  obtain b a where before: "fold (consider_start tol valid) [0 ..< n] ([], False) = (b, a)" by force
  then have step: "(best, ambiguous) = consider_start tol valid n (b, a)" using Suc.prems(1) by simp
  show ?case
  proof (cases "n = 0")
    case True
    then have "b = []" "\<not> a" using before by auto
    then show ?thesis using step pos [of 0] True
      using Suc.prems(3) by (auto simp: consider_start_def Let_def agrees_def)
  next
    case False
    then have n: "0 < n" by simp
    note IH = Suc.IH [OF before n Suc.prems(3)]
    show ?thesis
    proof (cases "length b < length (candidate tol valid n)")
      case True
      then have "best = candidate tol valid n" "\<not> ambiguous" using step by (auto simp: consider_start_def Let_def)
      then show ?thesis using IH True Suc.prems(3) by (auto simp: less_Suc_eq agrees_def)
    next
      case False
      obtain k where k: "k < n" "b = candidate tol valid k" using IH by blast
      have most: "length (candidate tol valid j) \<le> length b" if "j < n" for j using IH that by blast
      have amb: "a \<longleftrightarrow> (\<exists>j < n. length (candidate tol valid j) = length b \<and> \<not> agrees tol b (candidate tol valid j))"
        using IH by blast
      have b: "0 < length b" using k(2) pos [of k] by simp
      have eq: "consider_start tol valid n (b, a) =
          (b, a \<or> length (candidate tol valid n) = length b \<and> \<not> agrees tol b (candidate tol valid n))"
        using False b unfolding consider_start_def prod.case Let_def agrees_def not_le by auto
      have best: "best = b" and ambiguous: "ambiguous \<longleftrightarrow> a \<or> length (candidate tol valid n) = length b \<and> \<not> agrees tol b (candidate tol valid n)"
        using step unfolding eq by blast+
      show ?thesis
        unfolding best ambiguous amb Ex_less_Suc All_less_Suc using k most False by (simp only: not_less) blast
    qed
  qed
qed

section \<open>Groups of samples\<close>

definition close_together :: "rat \<Rightarrow> clock_sample list \<Rightarrow> bool" where
  "close_together tol g \<longleftrightarrow> (\<forall>s \<in> set g. \<forall>t \<in> set g. \<bar>offset s - offset t\<bar> \<le> tol)"

definition group_of :: "rat \<Rightarrow> clock_sample list \<Rightarrow> clock_sample list \<Rightarrow> bool" where
  "group_of tol valid g \<longleftrightarrow> mset g \<subseteq># mset valid \<and> close_together tol g"

definition largest :: "rat \<Rightarrow> clock_sample list \<Rightarrow> clock_sample list \<Rightarrow> bool" where
  "largest tol valid g \<longleftrightarrow> group_of tol valid g \<and> (\<forall>g'. group_of tol valid g' \<longrightarrow> length g' \<le> length g)"

lemma filter_takeWhile_in_order:
  "in_order xs \<Longrightarrow> filter (\<lambda>s. offset s \<le> b) xs = takeWhile (\<lambda>s. offset s \<le> b) xs"
proof (induction xs)
  case (Cons x xs)
  show ?case
  proof (cases "offset x \<le> b")
    case True
    then show ?thesis using Cons by (simp add: in_order_def)
  next
    case False
    then have "\<forall>s \<in> set xs. \<not> offset s \<le> b" using Cons.prems by (auto simp: in_order_def)
    then show ?thesis using False by simp
  qed
qed simp

lemma candidate_takeWhile:
  assumes tol: "0 \<le> tol" and start: "start < length valid"
  shows "candidate tol valid start = takeWhile (\<lambda>s. offset s \<le> offset (valid ! start) + tol) (drop start valid)"
proof -
  have "drop start valid = valid ! start # drop (Suc start) valid" using start by (rule Cons_nth_drop_Suc [symmetric])
  moreover have "(\<lambda>s. offset s - offset (valid ! start) \<le> tol) = (\<lambda>s. offset s \<le> offset (valid ! start) + tol)"
    by (auto simp: fun_eq_iff)
  ultimately show ?thesis using tol by (simp add: candidate_def)
qed

lemma candidate_group:
  assumes tol: "0 \<le> tol" and ord: "in_order valid" and start: "start < length valid"
  shows "group_of tol valid (candidate tol valid start)"
proof -
  let ?c = "candidate tol valid start"
  have sub: "mset ?c \<subseteq># mset valid"
  proof -
    have "mset (take n xs) \<subseteq># mset xs" for n and xs :: "clock_sample list"
      by (metis append_take_drop_id mset_append mset_subset_eq_add_left)
    moreover have "mset (drop n xs) \<subseteq># mset xs" for n and xs :: "clock_sample list"
      by (metis append_take_drop_id mset_append mset_subset_eq_add_right)
    ultimately show ?thesis by (subst candidate_sublist [OF start]) (rule subset_mset.order_trans)
  qed
  have lo: "offset (valid ! start) \<le> offset s" if "s \<in> set ?c" for s
  proof -
    have "in_order (valid ! start # takeWhile (\<lambda>s. offset s - offset (valid ! start) \<le> tol) (drop (Suc start) valid))"
      using candidate_in_order [OF ord start] by (simp add: candidate_def)
    then show ?thesis using that by (auto simp: candidate_def in_order_def)
  qed
  have "\<bar>offset s - offset t\<bar> \<le> tol" if "s \<in> set ?c" "t \<in> set ?c" for s t
    using lo [OF that(1)] lo [OF that(2)] candidate_spread [OF tol that(1)] candidate_spread [OF tol that(2)] by linarith
  then show ?thesis using sub by (simp add: group_of_def close_together_def)
qed

lemma group_in_candidate:
  assumes tol: "0 \<le> tol" and ord: "in_order valid" and g: "group_of tol valid g" and "g \<noteq> []"
  shows "\<exists>start < length valid. mset g \<subseteq># mset (candidate tol valid start)"
proof -
  obtain s where s: "s \<in> set g" and least: "\<And>t. t \<in> set g \<Longrightarrow> offset s \<le> offset t"
  proof -
    have "Min (offset ` set g) \<in> offset ` set g" using \<open>g \<noteq> []\<close> by (intro Min_in) simp_all
    then obtain s where "s \<in> set g" "offset s = Min (offset ` set g)" by (metis imageE)
    then show ?thesis using that [of s] by simp
  qed
  have "s \<in> set valid" using s g by (auto simp: group_of_def dest: mset_subset_eqD)
  then obtain i where "i < length valid \<and> offset (valid ! i) = offset s" by (auto simp: in_set_conv_nth)
  define start where "start = (LEAST i. i < length valid \<and> offset (valid ! i) = offset s)"
  have start: "start < length valid" "offset (valid ! start) = offset s"
    using LeastI [of "\<lambda>i. i < length valid \<and> offset (valid ! i) = offset s", OF \<open>i < _ \<and> _\<close>] by (simp_all add: start_def)
  have below: "offset t < offset s" if t: "t \<in> set (take start valid)" for t
  proof -
    from t start(1) obtain j where j: "j < start" "t = valid ! j" by (auto simp: in_set_conv_nth)
    then have "map offset valid ! j \<le> map offset valid ! start"
      using ord start(1) unfolding in_order_def by (intro sorted_nth_mono) auto
    moreover have "offset (valid ! j) \<noteq> offset s"
      using not_less_Least [of j "\<lambda>i. i < length valid \<and> offset (valid ! i) = offset s"] j start(1) by (auto simp: start_def)
    ultimately show ?thesis using j start by simp
  qed
  have above: "offset s \<le> offset t" if t: "t \<in> set (drop start valid)" for t
  proof -
    from t obtain j where j: "j < length valid - start" "t = valid ! (start + j)" by (auto simp: in_set_conv_nth)
    then have j: "start + j < length valid" "t = valid ! (start + j)" by simp_all
    then have "map offset valid ! start \<le> map offset valid ! (start + j)"
      using ord unfolding in_order_def by (intro sorted_nth_mono) auto
    then show ?thesis using j start by simp
  qed
  define Q where "Q = (\<lambda>t. offset s \<le> offset t \<and> offset t \<le> offset s + tol)"
  have "filter Q valid = filter Q (take start valid) @ filter Q (drop start valid)"
    by (metis append_take_drop_id filter_append)
  also have "filter Q (take start valid) = []" using below by (auto simp: filter_empty_conv Q_def not_le)
  also have "filter Q (drop start valid) = filter (\<lambda>t. offset t \<le> offset s + tol) (drop start valid)"
    using above by (intro filter_cong) (auto simp: Q_def)
  also have "\<dots> = candidate tol valid start"
    unfolding candidate_takeWhile [OF tol start(1)] start(2)
    using ord by (intro filter_takeWhile_in_order) (simp add: in_order_def drop_map [symmetric] sorted_wrt_drop)
  finally have cand: "filter Q valid = candidate tol valid start" by simp
  have "Q t" if "t \<in> set g" for t
    using least [OF that] g s that unfolding group_of_def close_together_def Q_def by fastforce
  then have "filter_mset Q (mset g) = mset g" by (simp add: filter_mset_eq_conv)
  then have "mset g \<subseteq># filter_mset Q (mset valid)"
    using g multiset_filter_mono [of "mset g" "mset valid" Q] by (simp add: group_of_def)
  then have "mset g \<subseteq># mset (candidate tol valid start)" by (simp add: cand [symmetric])
  then show ?thesis using start(1) by blast
qed

lemma median_mset: "mset g = mset g' \<Longrightarrow> sample_median g = sample_median g'"
proof -
  assume "mset g = mset g'"
  then have "mset (map offset g) = mset (map offset g')" by simp
  then have "sort (map offset g) = sort (map offset g')" by (metis mset_sort properties_for_sort sorted_sort)
  then show ?thesis by (simp add: sample_median_def median_def)
qed

text \<open>The best candidate is a largest group, and every largest group has the median of a candidate.\<close>

lemma best_largest:
  assumes tol: "0 \<le> tol" and ord: "in_order valid" and k: "k < length valid" "best = candidate tol valid k"
    and most: "\<And>j. j < length valid \<Longrightarrow> length (candidate tol valid j) \<le> length best"
  shows "largest tol valid best"
    and "largest tol valid g \<Longrightarrow>
      \<exists>j < length valid. length (candidate tol valid j) = length best \<and> sample_median g = sample_median (candidate tol valid j)"
proof -
  have grp: "group_of tol valid best" unfolding k(2) by (rule candidate_group [OF tol ord k(1)])
  have bound: "length g' \<le> length best" if "group_of tol valid g'" for g'
  proof (cases "g' = []")
    case False
    from group_in_candidate [OF tol ord that this] obtain j
      where "j < length valid" "mset g' \<subseteq># mset (candidate tol valid j)" by blast
    then show ?thesis using most [of j] by (metis le_trans size_mset size_mset_mono)
  qed simp
  then show "largest tol valid best" using grp by (simp add: largest_def)
  assume g: "largest tol valid g"
  then have len: "length g = length best" using bound [of g] grp by (auto simp: largest_def intro: le_antisym)
  have "g \<noteq> []" using len k(2) by (auto simp: candidate_def)
  with g group_in_candidate [OF tol ord] obtain j
    where j: "j < length valid" "mset g \<subseteq># mset (candidate tol valid j)" by (auto simp: largest_def)
  have "size (mset g) = size (mset (candidate tol valid j))"
    using size_mset_mono [OF j(2)] most [OF j(1)] len by simp
  then have "mset g = mset (candidate tol valid j)"
    using j(2) mset_subset_size [of "mset g" "mset (candidate tol valid j)"] by (metis less_irrefl subset_mset.le_neq_trans)
  then show "\<exists>j < length valid. length (candidate tol valid j) = length best \<and> sample_median g = sample_median (candidate tol valid j)"
    using j(1) len median_mset by (metis size_mset)
qed

section \<open>The consensus\<close>

definition single_valid :: "clock_sample list \<Rightarrow> bool" where
  "single_valid valid \<longleftrightarrow> length valid = 1"

text \<open>What a consensus is of the valid samples, and when there is none.\<close>

definition consensus_ok :: "rat \<Rightarrow> bool \<Rightarrow> clock_sample list \<Rightarrow> consensus \<Rightarrow> bool" where
  "consensus_ok tol allowSingleSource valid c \<longleftrightarrow>
     (if cn_degraded c
      then allowSingleSource \<and> cn_samples c = valid \<and> length valid = 1 \<and> cn_offsetMs c = offset (hd valid)
      else largest tol valid (cn_samples c) \<and> 2 \<le> length (cn_samples c) \<and>
           (\<forall>g. largest tol valid g \<longrightarrow> \<bar>sample_median g - cn_offsetMs c\<bar> \<le> tol) \<and>
           (\<forall>s \<in> set (cn_samples c). \<bar>offset s - cn_offsetMs c\<bar> \<le> tol))"

definition no_consensus :: "rat \<Rightarrow> bool \<Rightarrow> clock_sample list \<Rightarrow> bool" where
  "no_consensus tol allowSingleSource valid \<longleftrightarrow>
     valid = [] \<or> length valid = 1 \<and> \<not> allowSingleSource \<or>
     2 \<le> length valid \<and>
       ((\<forall>g. group_of tol valid g \<longrightarrow> length g < 2) \<or>
        (\<exists>g g'. largest tol valid g \<and> largest tol valid g' \<and> tol < \<bar>sample_median g - sample_median g'\<bar>))"

lemma group_median_near:
  assumes g: "close_together tol g" and ord: "in_order g" and s: "s \<in> set g"
  shows "\<bar>offset s - sample_median g\<bar> \<le> tol"
proof -
  let ?xs = "map offset g"
  have ne: "?xs \<noteq> []" and sorted: "sorted ?xs" using s ord by (auto simp: in_order_def)
  note bounds = median_bounds [OF sorted ne]
  have hd: "hd ?xs \<le> offset s" "offset s \<le> last ?xs"
  proof -
    obtain i where i: "i < length g" "g ! i = s" using s by (auto simp: in_set_conv_nth)
    have "?xs ! 0 \<le> ?xs ! i" "?xs ! i \<le> ?xs ! (length g - 1)"
      using i by (intro sorted_nth_mono [OF sorted]; simp)+
    moreover have "hd ?xs = ?xs ! 0" "last ?xs = ?xs ! (length g - 1)"
      using ne by (simp_all add: hd_conv_nth last_conv_nth)
    ultimately show "hd ?xs \<le> offset s" "offset s \<le> last ?xs" using i by simp_all
  qed
  have "last ?xs - hd ?xs \<le> tol"
  proof -
    have "g \<noteq> []" using s by auto
    then have "hd g \<in> set g" "last g \<in> set g" by simp_all
    then have "\<bar>offset (last g) - offset (hd g)\<bar> \<le> tol" using g by (auto simp: close_together_def)
    then show ?thesis using ne by (simp add: hd_map last_map)
  qed
  then show ?thesis using bounds hd unfolding sample_median_def by linarith
qed

lemma same_valid: "mset valid = mset valid' \<Longrightarrow> group_of tol valid g = group_of tol valid' g \<and> largest tol valid g = largest tol valid' g"
  by (simp add: group_of_def largest_def)

lemma select_spec:
  assumes tol: "0 \<le> tol"
  shows "case selectPanelClockConsensus samples tol allow of
     Some c \<Rightarrow> consensus_ok tol allow (sort_key offset (filter valid_sample samples)) c
   | None \<Rightarrow> no_consensus tol allow (sort_key offset (filter valid_sample samples))"
proof -
  define valid where "valid = sort_key offset (filter valid_sample samples)"
  have ord: "in_order valid" by (simp add: valid_def in_order_def)
  consider (zero) "valid = []" | (one) "length valid = 1" | (many) "2 \<le> length valid"
    by (cases valid; cases "tl valid") auto
  then have "case selectPanelClockConsensus samples tol allow of
     Some c \<Rightarrow> consensus_ok tol allow valid c | None \<Rightarrow> no_consensus tol allow valid"
  proof cases
    case zero
    then show ?thesis by (simp add: selectPanelClockConsensus_def valid_def [symmetric] no_consensus_def Let_def)
  next
    case one
    then have "valid \<noteq> []" by auto
    then show ?thesis using one
      by (simp add: selectPanelClockConsensus_def valid_def [symmetric] no_consensus_def consensus_ok_def Let_def hd_conv_nth)
  next
    case many
    obtain best ambiguous where loop: "fold (consider_start tol valid) [0 ..< length valid] ([], False) = (best, ambiguous)" by force
    have pos: "0 < length valid" using many by linarith
    note found = fold_consider [OF loop pos tol]
    obtain k where k: "k < length valid" "best = candidate tol valid k" using found by blast
    have most: "\<And>j. j < length valid \<Longrightarrow> length (candidate tol valid j) \<le> length best" using found by blast
    have best1: "largest tol valid best" by (rule best_largest(1) [OF tol ord k]) (rule most)
    have best2: "\<exists>j < length valid. length (candidate tol valid j) = length best \<and>
        sample_median g = sample_median (candidate tol valid j)" if "largest tol valid g" for g
      by (rule best_largest(2) [OF tol ord k _ that]) (rule most)
    have sel: "selectPanelClockConsensus samples tol allow =
        (if length best < 2 \<or> ambiguous then None
         else Some \<lparr>cn_offsetMs = sample_median best, cn_samples = best, cn_degraded = False\<rparr>)"
      using many loop by (auto simp: selectPanelClockConsensus_def valid_def [symmetric] Let_def)
    have near: "\<bar>offset s - sample_median best\<bar> \<le> tol" if "s \<in> set best" for s
      using best1 that group_median_near [of tol best s] candidate_in_order [OF ord k(1)] k(2)
      by (simp add: largest_def group_of_def)
    show ?thesis
    proof (cases "length best < 2 \<or> ambiguous")
      case False
      have "\<bar>sample_median g - sample_median best\<bar> \<le> tol" if "largest tol valid g" for g
      proof -
        from best2 [OF that] obtain j where j: "j < length valid" "length (candidate tol valid j) = length best"
            "sample_median g = sample_median (candidate tol valid j)" by blast
        then have "agrees tol best (candidate tol valid j)" using found False by blast
        then show ?thesis using j(3) by (simp add: agrees_def abs_minus_commute)
      qed
      then show ?thesis using False best1 near unfolding sel by (simp add: consensus_ok_def not_less)
    next
      case True
      then have "(\<forall>g. group_of tol valid g \<longrightarrow> length g < 2) \<or>
        (\<exists>g g'. largest tol valid g \<and> largest tol valid g' \<and> tol < \<bar>sample_median g - sample_median g'\<bar>)"
      proof
        assume "length best < 2"
        then show ?thesis using best1 by (meson largest_def le_less_trans)
      next
        assume ambiguous
        then obtain j where j: "j < length valid" "length (candidate tol valid j) = length best" "\<not> agrees tol best (candidate tol valid j)"
          using found by blast
        have "largest tol valid (candidate tol valid j)"
          using best1 candidate_group [OF tol ord j(1)] j(2) by (simp add: largest_def)
        then show ?thesis using best1 j(3) by (auto simp: agrees_def not_le)
      qed
      then show ?thesis using True many unfolding sel by (auto simp: no_consensus_def)
    qed
  qed
  then show ?thesis by (simp only: valid_def)
qed

text \<open>
  C23: of the samples that are finite, not negative in their round trip and within a day, the
  consensus is a largest group in which any two differ by five seconds at most, of two or more; its correction is
  within five seconds of each of them and of the median of every other group of that size. There
  is none exactly for the reasons that the code has: no sample, a single one where that is not
  allowed, no two that agree, or two largest groups whose medians are more than five seconds apart.
\<close>

theorem panel_clock_consensus:
  "case selectPanelClockConsensus samples CONSENSUS_TOLERANCE_MS allow of
     Some c \<Rightarrow> consensus_ok CONSENSUS_TOLERANCE_MS allow (sort_key offset (filter valid_sample samples)) c
   | None \<Rightarrow> no_consensus CONSENSUS_TOLERANCE_MS allow (sort_key offset (filter valid_sample samples))"
  by (rule select_spec) (simp add: CONSENSUS_TOLERANCE_MS_def)

section \<open>Faulty sources\<close>

text \<open>Two candidates of the same great size overlap so much that each has the medians of both.\<close>

lemma average_near:
  fixes a b c d :: rat
  assumes "\<bar>a - c\<bar> \<le> tol" and "\<bar>b - d\<bar> \<le> tol"
  shows "\<bar>(a + b) / 2 - (c + d) / 2\<bar> \<le> tol"
proof -
  have "(a + b) / 2 - (c + d) / 2 = ((a - c) + (b - d)) / 2" by (simp add: field_simps)
  moreover have "\<bar>(a - c) + (b - d)\<bar> \<le> tol + tol" using assms by linarith
  ultimately show ?thesis by (simp only: abs_divide) (simp add: field_simps)
qed

lemma overlapping_medians:
  assumes tol: "0 \<le> tol" and ord: "in_order valid"
    and i: "i \<le> j" "j < length valid" and len: "length (candidate tol valid i) = m" "length (candidate tol valid j) = m"
    and big: "2 * length valid + 1 \<le> 3 * m"
  shows "\<bar>sample_median (candidate tol valid i) - sample_median (candidate tol valid j)\<bar> \<le> tol"
proof -
  let ?x = "\<lambda>k. offset (valid ! k)"
  have whole: "k + length (candidate tol valid k) \<le> length valid" if "k < length valid" for k
  proof -
    have "length (candidate tol valid k) = length (take (length (candidate tol valid k)) (drop k valid))"
      using candidate_sublist [OF that] by simp
    then show ?thesis using that by simp
  qed
  have m: "j + m \<le> length valid" "i < length valid" "0 < m" using whole [OF i(2)] len i by (simp_all add: candidate_def)
  have med: "sample_median (candidate tol valid k) = (?x (k + (m - 1) div 2) + ?x (k + m div 2)) / 2"
    if k: "k < length valid" "length (candidate tol valid k) = m" for k
  proof -
    have "sorted (map offset (candidate tol valid k))" using candidate_in_order [OF ord k(1)] by (simp add: in_order_def)
    note md = median_sorted [OF this]
    have nth: "map offset (candidate tol valid k) ! q = ?x (k + q)" if "q < m" for q
    proof -
      have "candidate tol valid k ! q = take m (drop k valid) ! q" using candidate_sublist [OF k(1), of tol] k(2) by simp
      also have "\<dots> = valid ! (k + q)" using that whole [OF k(1)] k(2) by simp
      finally show ?thesis using that k(2) by simp
    qed
    have "(m - 1) div 2 < m" "m div 2 < m" using m(3) by auto
    then show ?thesis unfolding sample_median_def md length_map k(2) by (simp add: nth)
  qed
  have d: "j \<le> i + (m - 1) div 2" using m(1) big i by linarith
  have inside: "\<bar>?x p - ?x q\<bar> \<le> tol" if "j \<le> p" "p < j + m" "j \<le> q" "q < j + m" for p q
  proof -
    have "valid ! r \<in> set (candidate tol valid j)" if "j \<le> r" "r < j + m" for r
    proof -
      have "candidate tol valid j ! (r - j) = take m (drop j valid) ! (r - j)" using candidate_sublist [OF i(2), of tol] len(2) by simp
      also have "\<dots> = valid ! r" using that m(1) by simp
      finally show ?thesis using that len(2) by (metis less_diff_conv2 nth_mem add.commute)
    qed
    then show ?thesis
      using candidate_group [OF tol ord i(2)] that by (simp add: group_of_def close_together_def)
  qed
  have halves: "(m - 1) div 2 < m" "m div 2 < m" "(m - 1) div 2 \<le> m div 2" using m(3) by auto
  have "\<bar>?x (i + (m - 1) div 2) - ?x (j + (m - 1) div 2)\<bar> \<le> tol" "\<bar>?x (i + m div 2) - ?x (j + m div 2)\<bar> \<le> tol"
    using d i(1) halves by (intro inside; linarith)+
  then show ?thesis unfolding med [OF m(2) len(1)] med [OF i(2) len(2)] by (rule average_near)
qed

lemma filter_group:
  assumes "2 * e \<le> tol"
  shows "group_of tol valid (filter (\<lambda>s. \<bar>offset s - t\<bar> \<le> e) valid)"
  using assms unfolding group_of_def close_together_def by (auto simp: multiset_filter_subset)

lemma enough_good_sources:
  assumes tol: "0 \<le> tol" and e: "2 * e \<le> tol"
    and good: "2 \<le> length (filter (\<lambda>s. \<bar>offset s - t\<bar> \<le> e) (filter valid_sample samples))"
    and most: "2 * length (filter valid_sample samples) + 1 \<le>
        3 * length (filter (\<lambda>s. \<bar>offset s - t\<bar> \<le> e) (filter valid_sample samples))"
  shows "\<exists>c. selectPanelClockConsensus samples tol allow = Some c \<and> \<not> cn_degraded c \<and> \<bar>cn_offsetMs c - t\<bar> \<le> tol + e"
proof -
  define valid where "valid = sort_key offset (filter valid_sample samples)"
  define H where "H = (\<lambda>s. \<bar>offset s - t\<bar> \<le> e)"
  have ord: "in_order valid" by (simp add: valid_def in_order_def)
  have lens: "length valid = length (filter valid_sample samples)"
      "length (filter H valid) = length (filter H (filter valid_sample samples))"
    unfolding valid_def by (simp, metis mset_filter mset_sort size_mset)
  have h: "2 \<le> length (filter H valid)" "2 * length valid + 1 \<le> 3 * length (filter H valid)"
    using good most lens by (simp_all add: H_def)
  have hg: "group_of tol valid (filter H valid)" unfolding H_def by (rule filter_group [OF e])
  have big: "length (filter H valid) \<le> length g" if "largest tol valid g" for g
    using that hg by (simp add: largest_def)
  have not_none: "\<not> no_consensus tol allow valid"
  proof
    assume none: "no_consensus tol allow valid"
    have "2 \<le> length valid" using h(1) le_trans length_filter_le by blast
    with none obtain g g' where g: "largest tol valid g" "largest tol valid g'" "tol < \<bar>sample_median g - sample_median g'\<bar>"
      using hg h(1) unfolding no_consensus_def by fastforce
    obtain best ambiguous where loop: "fold (consider_start tol valid) [0 ..< length valid] ([], False) = (best, ambiguous)" by force
    have pos: "0 < length valid" using \<open>2 \<le> length valid\<close> by linarith
    note found = fold_consider [OF loop pos tol]
    obtain k where k: "k < length valid" "best = candidate tol valid k" using found by blast
    have best2: "\<exists>j < length valid. length (candidate tol valid j) = length best \<and>
        sample_median g = sample_median (candidate tol valid j)" if "largest tol valid g" for g
      by (rule best_largest(2) [OF tol ord k _ that]) (use found in blast)
    have "largest tol valid best" by (rule best_largest(1) [OF tol ord k]) (use found in blast)
    then have m: "2 * length valid + 1 \<le> 3 * length best" using big h(2) by fastforce
    obtain i where i: "i < length valid" "length (candidate tol valid i) = length best" "sample_median g = sample_median (candidate tol valid i)"
      using best2 [OF g(1)] by blast
    obtain j where j: "j < length valid" "length (candidate tol valid j) = length best" "sample_median g' = sample_median (candidate tol valid j)"
      using best2 [OF g(2)] by blast
    have "\<bar>sample_median g - sample_median g'\<bar> \<le> tol"
    proof (cases "i \<le> j")
      case True
      from overlapping_medians [OF tol ord True j(1) i(2) j(2) m] show ?thesis by (simp add: i(3) j(3))
    next
      case False
      then have "j \<le> i" by simp
      from overlapping_medians [OF tol ord this i(1) j(2) i(2) m] show ?thesis by (simp add: i(3) j(3) abs_minus_commute)
    qed
    with g(3) show False by simp
  qed
  note spec = select_spec [OF tol, where samples = samples and allow = allow, folded valid_def]
  obtain c where c: "selectPanelClockConsensus samples tol allow = Some c" "consensus_ok tol allow valid c"
    using spec not_none by (cases "selectPanelClockConsensus samples tol allow") auto
  have "2 \<le> length valid" using h(1) le_trans length_filter_le by blast
  then have nd: "\<not> cn_degraded c" and lar: "largest tol valid (cn_samples c)"
    and near: "\<And>s. s \<in> set (cn_samples c) \<Longrightarrow> \<bar>offset s - cn_offsetMs c\<bar> \<le> tol"
    using c(2) by (auto simp: consensus_ok_def split: if_splits)
  have "\<exists>s \<in> set (cn_samples c). H s"
  proof (rule ccontr)
    assume "\<not> (\<exists>s \<in> set (cn_samples c). H s)"
    then have "filter_mset (\<lambda>s. \<not> H s) (mset (cn_samples c)) = mset (cn_samples c)" by (auto simp: filter_mset_eq_conv)
    then have "mset (cn_samples c) \<subseteq># filter_mset (\<lambda>s. \<not> H s) (mset valid)"
      using lar multiset_filter_mono [of "mset (cn_samples c)" "mset valid" "\<lambda>s. \<not> H s"] by (simp add: largest_def group_of_def)
    from size_mset_mono [OF this] have "length (cn_samples c) \<le> length (filter (\<lambda>s. \<not> H s) valid)"
      by (metis mset_filter size_mset)
    moreover have "length (filter H valid) + length (filter (\<lambda>s. \<not> H s) valid) = length valid"
      by (rule sum_length_filter_compl)
    ultimately show False using big [OF lar] h by linarith
  qed
  then obtain s where "s \<in> set (cn_samples c)" "\<bar>offset s - t\<bar> \<le> e" by (auto simp: H_def)
  with near have "\<bar>cn_offsetMs c - t\<bar> \<le> tol + e" by fastforce
  then show ?thesis using c(1) nd by blast
qed

text \<open>
  C24: when more than two thirds of the valid samples, and two at least, are within 2.5 seconds of
  the true correction, there is a consensus, and it is wrong by 7.5 seconds at most, whatever the
  other sources answer.
\<close>

theorem panel_clock_tolerates_faults:
  assumes "2 \<le> length (filter (\<lambda>s. \<bar>offset s - t\<bar> \<le> 2500) (filter valid_sample samples))"
    and "2 * length (filter valid_sample samples) + 1 \<le>
      3 * length (filter (\<lambda>s. \<bar>offset s - t\<bar> \<le> 2500) (filter valid_sample samples))"
  shows "\<exists>c. selectPanelClockConsensus samples CONSENSUS_TOLERANCE_MS allow = Some c \<and> \<bar>cn_offsetMs c - t\<bar> \<le> 7500"
  using enough_good_sources [where tol = CONSENSUS_TOLERANCE_MS and e = 2500 and t = t and samples = samples and allow = allow] assms
  by (auto simp: CONSENSUS_TOLERANCE_MS_def)

definition sample_of :: "rat \<Rightarrow> clock_sample" where
  "sample_of q = \<lparr>sm_source = [], sm_offsetMs = Fin q, sm_roundTripMs = Fin 20, sm_remoteTimeMs = q, sm_monotonicMidpointMs = 0\<rparr>"

theorem panel_clock_tolerates_faults_witness:
  "\<exists>c. selectPanelClockConsensus [sample_of 1000, sample_of 70000, sample_of (- 400), sample_of 300] CONSENSUS_TOLERANCE_MS False = Some c \<and>
     \<bar>cn_offsetMs c - 0\<bar> \<le> 7500"
  by (rule panel_clock_tolerates_faults)
    (simp_all add: sample_of_def offset_def valid_sample_def MAX_CLOCK_OFFSET_MS_def)

end
