(* ===== verification/Agent_Tests.thy ===== *)
theory Agent_Tests
  imports Ip_Switch_Tasks "HOL-Library.Sublist"
begin

text \<open>
  \<open>server/lookingGlassAgentTasks.ts\<close> and \<open>server/iperf3AgentTasks.ts\<close>: the network tests the
  panel asks the agents of its hosts for. Each file keeps a queue of tasks for a host, which
  the heartbeat of that host takes, and the state of the tests: one for a task of the looking
  glass, one for the iperf3 server of a host. A state that waits for the agent has a timer.
  The handlers of \<open>server/agentReportRoutes.ts\<close> that read the results and the checks of
  \<open>server/routers/lookingGlass.ts\<close> follow.

  The locale \<open>host_queue\<close> is what both queues promise; its lemmas show that a task is handed
  out at most once, to its own host, in the order of creation. Times are integers in
  milliseconds, one reading for each operation; a text made by \<open>toISOString\<close> is the time it was
  made from. The identifiers made by \<open>crypto.randomUUID()\<close> are arguments.
\<close>

section \<open>A queue of tasks for each host\<close>

definition last_n :: "nat \<Rightarrow> 'a list \<Rightarrow> 'a list" where
  "last_n n xs = drop (length xs - n) xs"

lemma length_last_n [simp]: "length (last_n n xs) = min n (length xs)"
  by (simp add: last_n_def)

lemma last_n_snoc_in: "0 < n \<Longrightarrow> x \<in> set (last_n n (xs @ [x]))"
  by (simp add: last_n_def)

lemma subseq_drop: "subseq (drop n xs) xs"
  by (metis append_take_drop_id list_emb_append2 subseq_order.refl)

lemma subseq_last_n: "subseq (last_n n xs) xs"
  by (simp add: last_n_def subseq_drop)

lemma subseq_distinct: "subseq xs ys \<Longrightarrow> distinct ys \<Longrightarrow> distinct xs"
  by (auto simp: subseq_conv_nths intro: distinct_nthsI)

lemma subseq_append_right: "subseq ys zs \<Longrightarrow> subseq (xs @ ys) (xs @ zs)"
  by (rule list_emb_append_mono) simp_all

lemma last_n_map: "last_n n (map f xs) = map f (last_n n xs)"
  by (simp add: last_n_def drop_map)

text \<open>
  The contract: \<open>contents\<close> is the queue of a host, oldest task first. A new task comes last and
  only the newest \<open>cap\<close> tasks stay; a heartbeat takes from the front; tasks can be discarded.
\<close>

locale host_queue =
  fixes push :: "'h \<Rightarrow> 't \<Rightarrow> 'q \<Rightarrow> 'q"
    and takes :: "'h \<Rightarrow> nat \<Rightarrow> 'q \<Rightarrow> 't list \<times> 'q"
    and contents :: "'q \<Rightarrow> 'h \<Rightarrow> 't list"
    and cap :: nat
    and ident :: "'t \<Rightarrow> 'i"
  assumes push_contents: "contents (push h t q) h' =
            (if h' = h then last_n cap (contents q h @ [t]) else contents q h')"
    and takes_result: "fst (takes h n q) = take n (contents q h)"
    and takes_contents: "contents (snd (takes h n q)) h' =
            (if h' = h then drop n (contents q h) else contents q h')"
    and room: "0 < cap"
begin

definition handed_in_order :: "('h \<Rightarrow> 'i list) \<Rightarrow> ('h \<Rightarrow> 'i list) \<Rightarrow> 'q \<Rightarrow> bool" where
  "handed_in_order issued handed q \<longleftrightarrow>
     (\<forall>h. subseq (handed h @ map ident (contents q h)) (issued h)) \<and> (\<forall>h. length (contents q h) \<le> cap)"

lemma in_order_push:
  assumes "handed_in_order issued handed q"
  shows "handed_in_order (issued(h := issued h @ [ident t])) handed (push h t q)"
proof -
  have s: "subseq (handed h @ map ident (contents q h)) (issued h)"
    using assms by (simp add: handed_in_order_def)
  have "subseq (map ident (last_n cap (contents q h @ [t]))) (map ident (contents q h) @ [ident t])"
    by (metis last_n_map subseq_last_n list.simps(8) list.simps(9) map_append)
  then have "subseq (handed h @ map ident (last_n cap (contents q h @ [t])))
      ((handed h @ map ident (contents q h)) @ [ident t])"
    unfolding append_assoc by (rule subseq_append_right)
  also have "subseq ((handed h @ map ident (contents q h)) @ [ident t]) (issued h @ [ident t])"
    using s by (rule list_emb_append_mono) simp
  finally show ?thesis
    using assms by (simp add: handed_in_order_def push_contents)
qed

lemma in_order_takes:
  assumes "handed_in_order issued handed q" and "takes h n q = (ts, q')"
  shows "handed_in_order issued (handed(h := handed h @ map ident ts)) q'"
proof -
  have ts: "ts = take n (contents q h)"
    and q': "contents q' h' = (if h' = h then drop n (contents q h) else contents q h')" for h'
    using takes_result [of h n q] takes_contents [of h n q] assms(2) by auto
  have split: "map ident ts @ map ident (contents q' h) = map ident (contents q h)"
    unfolding ts q' by (simp add: map_append [symmetric])
  have "length (contents q' h') \<le> length (contents q h')" for h'
    by (simp add: q')
  then have "length (contents q' h') \<le> cap" for h'
    using assms(1) unfolding handed_in_order_def by (meson le_trans)
  moreover have "subseq ((handed(h := handed h @ map ident ts)) h' @ map ident (contents q' h')) (issued h')" for h'
  proof (cases "h' = h")
    case True
    have "subseq (handed h @ (map ident ts @ map ident (contents q' h))) (issued h)"
      unfolding split using assms(1) by (simp add: handed_in_order_def)
    then show ?thesis unfolding True by simp
  next
    case False
    then show ?thesis using assms(1) by (simp add: handed_in_order_def q')
  qed
  ultimately show ?thesis by (simp add: handed_in_order_def)
qed

lemma in_order_discard:
  assumes "handed_in_order issued handed q" and "\<And>h. subseq (contents q' h) (contents q h)"
  shows "handed_in_order issued handed q'"
proof -
  have "subseq (handed h @ map ident (contents q' h)) (issued h)" for h
  proof -
    have "subseq (handed h @ map ident (contents q' h)) (handed h @ map ident (contents q h))"
      by (intro subseq_append_right subseq_map assms(2))
    then show ?thesis
      using assms(1) unfolding handed_in_order_def by (meson subseq_order.trans)
  qed
  moreover have "length (contents q' h) \<le> cap" for h
    using list_emb_length [OF assms(2) [of h]] assms(1)
    unfolding handed_in_order_def by (meson le_trans)
  ultimately show ?thesis by (simp add: handed_in_order_def)
qed

lemma handed_once:
  assumes "handed_in_order issued handed q" and "distinct (issued h)"
  shows "distinct (handed h)" and "subseq (handed h) (issued h)"
    and "set (handed h) \<inter> ident ` set (contents q h) = {}"
proof -
  have s: "subseq (handed h @ map ident (contents q h)) (issued h)"
    using assms(1) by (simp add: handed_in_order_def)
  then have d: "distinct (handed h @ map ident (contents q h))"
    using assms(2) by (metis subseq_distinct)
  then show "distinct (handed h)" "set (handed h) \<inter> ident ` set (contents q h) = {}" by auto
  have "subseq (handed h) (handed h @ map ident (contents q h))"
    by (simp add: list_emb_append2 list_emb_prefix)
  then show "subseq (handed h) (issued h)" using s by (rule subseq_order.trans)
qed

lemma takes_split:
  assumes "takes h n q = (ts, q')"
  shows "set (contents q h') \<subseteq> set ts \<union> set (contents q' h')"
proof (cases "h' = h")
  case True
  have "set (take n (contents q h)) \<union> set (drop n (contents q h)) = set (contents q h)"
    by (metis append_take_drop_id set_append)
  then show ?thesis
    using True takes_result [of h n q] takes_contents [of h n q h] assms by simp
next
  case False
  then show ?thesis using takes_contents [of h n q h'] assms by simp
qed

lemma pushed_is_queued: "t \<in> set (contents (push h t q) h)"
  using last_n_snoc_in [OF room] by (simp add: push_contents)

end

section \<open>Tests of the looking glass\<close>

datatype lg_method = MPing | MPing6 | MTraceroute | MTraceroute6 | MMtr | MMtr6 | MTcp

datatype lg_task_state = LgQueued | LgRunning | LgSuccess | LgError | LgTimeout

text \<open>
  A time stamp is written by the panel (\<open>Iso\<close>) or comes from an agent (\<open>Reported\<close>); the output
  shown for a test is a message of the panel, the text of an agent or one below the other.
\<close>

datatype stamp = Iso int | Reported string

datatype lg_message = MsgTaskCreated | MsgTaskTaken | MsgTaskTimeout

datatype lg_text = OwnText lg_message | AgentText string | TwoLines lg_text lg_text

fun stamp_given :: "stamp \<Rightarrow> bool" where
  "stamp_given (Iso t) = True"
| "stamp_given (Reported s) = (s \<noteq> [])"

fun text_given :: "lg_text \<Rightarrow> bool" where
  "text_given (AgentText s) = (s \<noteq> [])"
| "text_given _ = True"

record lg_task =
  lt_taskId :: string
  lt_method :: lg_method
  lt_target :: string
  lt_resolvedAddress :: string
  lt_resolvedAddresses :: "string list"
  lt_family :: int
  lt_port :: "int option"
  lt_createdAt :: int

record lg_input =
  li_method :: lg_method
  li_target :: string
  li_resolvedAddress :: string
  li_resolvedAddresses :: "string list"
  li_family :: int
  li_port :: "int option"

text \<open>The fields of a result the panel reads; the others only repeat the task.\<close>

record lg_result =
  lr_taskId :: string
  lr_output :: string
  lr_exitCode :: "jsnum option"
  lr_timedOut :: bool
  lr_durationMs :: jsnum
  lr_startedAt :: stamp
  lr_finishedAt :: stamp
  lr_error :: "string option"

record lg_progress =
  lp_taskId :: string
  lp_output :: "string option"
  lp_durationMs :: "jsnum option"
  lp_startedAt :: "stamp option"
  lp_error :: "string option"

record lg_state =
  ls_hostId :: int
  ls_task :: lg_task
  ls_status :: lg_task_state
  ls_output :: lg_text
  ls_exitCode :: "jsnum option"
  ls_timedOut :: bool
  ls_durationMs :: jsnum
  ls_startedAt :: stamp
  ls_finishedAt :: "stamp option"
  ls_updatedAt :: int
  ls_error :: "lg_text option"
  ls_timer :: nat

record lg_status =
  lq_task :: lg_task
  lq_output :: lg_text
  lq_exitCode :: "jsnum option"
  lq_timedOut :: bool
  lq_durationMs :: jsnum
  lq_startedAt :: stamp
  lq_finishedAt :: "stamp option"
  lq_error :: "lg_text option"
  lq_status :: lg_task_state
  lq_updatedAt :: int

definition TERMINAL_STATES :: "lg_task_state list" where
  "TERMINAL_STATES = [LgSuccess, LgError, LgTimeout]"

definition TERMINAL_STATE_RETENTION_MS :: int where
  "TERMINAL_STATE_RETENTION_MS = 15 * 60 * 1000"

definition lg_terminal :: "lg_state \<Rightarrow> bool" where
  "lg_terminal s \<longleftrightarrow> ls_status s \<in> set TERMINAL_STATES"

definition toStatus :: "lg_state \<Rightarrow> lg_status" where
  "toStatus s = \<lparr>lq_task = ls_task s, lq_output = ls_output s, lq_exitCode = ls_exitCode s,
     lq_timedOut = ls_timedOut s, lq_durationMs = ls_durationMs s, lq_startedAt = ls_startedAt s,
     lq_finishedAt = ls_finishedAt s, lq_error = ls_error s, lq_status = ls_status s,
     lq_updatedAt = ls_updatedAt s\<rparr>"

text \<open>The callback of a timer: give a test up, or remove the state of a test that has ended.\<close>

datatype lg_timer = GiveUp string | Remove string "int option"

type_synonym lg_queues = "(int, lg_task list) jsmap"

record lg_tests =
  lg_queues :: lg_queues
  lg_states :: "(string, lg_state) jsmap"
  lg_timers :: "(int, lg_timer) timers"

definition no_lg_tests :: lg_tests where
  "no_lg_tests = \<lparr>lg_queues = [], lg_states = [], lg_timers = no_timers\<rparr>"

definition lg_contents :: "lg_queues \<Rightarrow> int \<Rightarrow> lg_task list" where
  "lg_contents q h = (case map_get q h of None \<Rightarrow> [] | Some ts \<Rightarrow> ts)"

definition lg_push :: "int \<Rightarrow> lg_task \<Rightarrow> lg_queues \<Rightarrow> lg_queues" where
  "lg_push h t q = map_set h (last_n 20 (lg_contents q h @ [t])) q"

definition lg_splice :: "int \<Rightarrow> nat \<Rightarrow> lg_queues \<Rightarrow> lg_task list \<times> lg_queues" where
  "lg_splice h limit q =
     (let queue = lg_contents q h; tasks = take limit queue; left = drop limit queue
      in (tasks, if left \<noteq> [] then map_set h left q else map_delete h q))"

text \<open>What \<open>markTimeout\<close> does to the queue of the test's host.\<close>

definition lg_unqueue :: "int \<Rightarrow> string \<Rightarrow> lg_queues \<Rightarrow> lg_queues" where
  "lg_unqueue h taskId q =
     (case map_get q h of
        None \<Rightarrow> q
      | Some queue \<Rightarrow>
          let remaining = filter (\<lambda>t. lt_taskId t \<noteq> taskId) queue
          in if remaining \<noteq> [] then map_set h remaining q else map_delete h q)"

definition scheduleTerminalStateRemoval :: "int \<Rightarrow> string \<Rightarrow> lg_tests \<Rightarrow> lg_tests" where
  "scheduleTerminalStateRemoval now taskId w =
     w\<lparr>lg_timers := snd (setTimer now TERMINAL_STATE_RETENTION_MS
         (Remove taskId (map_option ls_updatedAt (map_get (lg_states w) taskId))) (lg_timers w))\<rparr>"

definition remove_if_unchanged :: "string \<Rightarrow> int option \<Rightarrow> lg_tests \<Rightarrow> lg_tests" where
  "remove_if_unchanged taskId scheduledUpdatedAt w =
     (case map_get (lg_states w) taskId of
        None \<Rightarrow> w
      | Some s \<Rightarrow>
          if \<not> lg_terminal s \<or> Some (ls_updatedAt s) \<noteq> scheduledUpdatedAt then w
          else w\<lparr>lg_states := map_delete taskId (lg_states w)\<rparr>)"

definition timed_out :: "int \<Rightarrow> lg_state \<Rightarrow> lg_state" where
  "timed_out now s =
     s\<lparr>ls_status := LgTimeout, ls_timedOut := True, ls_exitCode := Some (num 1),
       ls_finishedAt := Some (Iso now), ls_updatedAt := now, ls_error := Some (OwnText MsgTaskTimeout),
       ls_output := (if text_given (ls_output s) then TwoLines (ls_output s) (OwnText MsgTaskTimeout)
                     else OwnText MsgTaskTimeout)\<rparr>"

definition markTimeout :: "int \<Rightarrow> string \<Rightarrow> lg_tests \<Rightarrow> lg_tests" where
  "markTimeout now taskId w =
     (case map_get (lg_states w) taskId of
        None \<Rightarrow> w
      | Some s \<Rightarrow>
          if lg_terminal s then w
          else scheduleTerminalStateRemoval now taskId
            (w\<lparr>lg_states := map_set taskId (timed_out now s) (lg_states w),
               lg_queues := lg_unqueue (ls_hostId s) taskId (lg_queues w)\<rparr>))"

definition lg_removable :: "int \<Rightarrow> lg_state \<Rightarrow> bool" where
  "lg_removable now s \<longleftrightarrow> lg_terminal s \<and> \<not> now - ls_updatedAt s < TERMINAL_STATE_RETENTION_MS"

definition pruneLookingGlassAgentTaskStates :: "int \<Rightarrow> lg_tests \<Rightarrow> nat \<times> lg_tests" where
  "pruneLookingGlassAgentTaskStates now w =
     (length (filter (\<lambda>(taskId, s). lg_removable now s) (lg_states w)),
      w\<lparr>lg_states := filter (\<lambda>(taskId, s). \<not> lg_removable now s) (lg_states w)\<rparr>)"

definition hasActiveLookingGlassTask :: "int \<Rightarrow> lg_tests \<Rightarrow> bool" where
  "hasActiveLookingGlassTask hostId w \<longleftrightarrow>
     list_ex (\<lambda>(taskId, s). ls_hostId s = hostId \<and> \<not> lg_terminal s) (lg_states w)"

definition new_lg_task :: "int \<Rightarrow> string \<Rightarrow> lg_input \<Rightarrow> lg_task" where
  "new_lg_task now uuid input =
     \<lparr>lt_taskId = uuid, lt_method = li_method input, lt_target = li_target input,
      lt_resolvedAddress = li_resolvedAddress input, lt_resolvedAddresses = li_resolvedAddresses input,
      lt_family = li_family input, lt_port = li_port input, lt_createdAt = now\<rparr>"

definition new_lg_state :: "int \<Rightarrow> lg_task \<Rightarrow> nat \<Rightarrow> lg_state" where
  "new_lg_state hostId task timer =
     \<lparr>ls_hostId = hostId, ls_task = task, ls_status = LgQueued, ls_output = OwnText MsgTaskCreated,
      ls_exitCode = None, ls_timedOut = False, ls_durationMs = num 0,
      ls_startedAt = Iso (lt_createdAt task), ls_finishedAt = None,
      ls_updatedAt = lt_createdAt task, ls_error = None, ls_timer = timer\<rparr>"

datatype test_error = NetworkTestActive | Iperf3Active | Iperf3Processing

definition enqueueLookingGlassAgentTask ::
    "int \<Rightarrow> string \<Rightarrow> int \<Rightarrow> lg_input \<Rightarrow> int \<Rightarrow> lg_tests \<Rightarrow> (test_error + lg_task \<times> lg_status) \<times> lg_tests" where
  "enqueueLookingGlassAgentTask now uuid hostId input timeoutMs w =
     (if hasActiveLookingGlassTask hostId w then (Inl NetworkTestActive, w)
      else
        let task = new_lg_task now uuid input;
            (timer, ts) = setTimer now timeoutMs (GiveUp uuid) (lg_timers w);
            s = new_lg_state hostId task timer
        in (Inr (task, toStatus s),
            w\<lparr>lg_queues := lg_push hostId task (lg_queues w), lg_timers := ts,
              lg_states := map_set uuid s (lg_states w)\<rparr>))"

definition lg_started :: "int \<Rightarrow> lg_state \<Rightarrow> lg_state" where
  "lg_started now s = s\<lparr>ls_status := LgRunning, ls_startedAt := Iso now, ls_updatedAt := now,
     ls_output := OwnText MsgTaskTaken\<rparr>"

definition lg_take_one :: "int \<Rightarrow> lg_task \<Rightarrow> (string, lg_state) jsmap \<Rightarrow> (string, lg_state) jsmap" where
  "lg_take_one now task states =
     (case map_get states (lt_taskId task) of
        None \<Rightarrow> states
      | Some s \<Rightarrow> if lg_terminal s then states else map_set (lt_taskId task) (lg_started now s) states)"

definition takeLookingGlassAgentTasks :: "int \<Rightarrow> int \<Rightarrow> nat \<Rightarrow> lg_tests \<Rightarrow> lg_task list \<times> lg_tests" where
  "takeLookingGlassAgentTasks now hostId limit w =
     (let (tasks, q) = lg_splice hostId limit (lg_queues w)
      in (tasks, w\<lparr>lg_queues := q, lg_states := fold (lg_take_one now) tasks (lg_states w)\<rparr>))"

definition hasQueuedLookingGlassAgentTasks :: "int \<Rightarrow> lg_tests \<Rightarrow> bool" where
  "hasQueuedLookingGlassAgentTasks hostId w \<longleftrightarrow> lg_contents (lg_queues w) hostId \<noteq> []"

definition or_zero :: "jsnum \<Rightarrow> jsnum" where
  "or_zero n = (if n = NaN then Fin 0 else n)"

definition first_stamp :: "stamp option \<Rightarrow> stamp \<Rightarrow> int \<Rightarrow> stamp" where
  "first_stamp given kept now =
     (case given of
        Some t \<Rightarrow> if stamp_given t then t else if stamp_given kept then kept else Iso now
      | None \<Rightarrow> if stamp_given kept then kept else Iso now)"

definition lg_progressed :: "int \<Rightarrow> lg_progress \<Rightarrow> lg_state \<Rightarrow> lg_state" where
  "lg_progressed now r s =
     s\<lparr>ls_status := LgRunning,
       ls_output := (case lp_output r of None \<Rightarrow> ls_output s | Some t \<Rightarrow> AgentText t),
       ls_durationMs := or_zero (case lp_durationMs r of None \<Rightarrow> ls_durationMs s | Some n \<Rightarrow> n),
       ls_startedAt := first_stamp (lp_startedAt r) (ls_startedAt s) now, ls_updatedAt := now,
       ls_error := (case lp_error r of None \<Rightarrow> ls_error s
                    | Some e \<Rightarrow> if e \<noteq> [] then Some (AgentText e) else ls_error s)\<rparr>"

definition updateLookingGlassAgentTaskProgress :: "int \<Rightarrow> int \<Rightarrow> lg_progress \<Rightarrow> lg_tests \<Rightarrow> bool \<times> lg_tests" where
  "updateLookingGlassAgentTaskProgress now hostId r w =
     (case map_get (lg_states w) (lp_taskId r) of
        None \<Rightarrow> (False, w)
      | Some s \<Rightarrow>
          if ls_hostId s \<noteq> hostId \<or> lg_terminal s then (False, w)
          else (True, w\<lparr>lg_states := map_set (lp_taskId r) (lg_progressed now r s) (lg_states w)\<rparr>))"

definition lg_completed :: "int \<Rightarrow> lg_result \<Rightarrow> lg_state \<Rightarrow> lg_state" where
  "lg_completed now r s =
     s\<lparr>ls_status := (if lr_timedOut r then LgTimeout
                     else if lr_exitCode r = Some (num 0) then LgSuccess else LgError),
       ls_output := AgentText (lr_output r), ls_exitCode := lr_exitCode r, ls_timedOut := lr_timedOut r,
       ls_durationMs := or_zero (lr_durationMs r),
       ls_startedAt := first_stamp (Some (lr_startedAt r)) (ls_startedAt s) now,
       ls_finishedAt := Some (if stamp_given (lr_finishedAt r) then lr_finishedAt r else Iso now),
       ls_updatedAt := now, ls_error := map_option AgentText (lr_error r)\<rparr>"

definition completeLookingGlassAgentTask :: "int \<Rightarrow> int \<Rightarrow> lg_result \<Rightarrow> lg_tests \<Rightarrow> bool \<times> lg_tests" where
  "completeLookingGlassAgentTask now hostId r w =
     (case map_get (lg_states w) (lr_taskId r) of
        None \<Rightarrow> (False, w)
      | Some s \<Rightarrow>
          if ls_hostId s \<noteq> hostId then (False, w)
          else (True, scheduleTerminalStateRemoval now (lr_taskId r)
            (w\<lparr>lg_timers := clearTimer (ls_timer s) (lg_timers w),
               lg_states := map_set (lr_taskId r) (lg_completed now r s) (lg_states w)\<rparr>)))"

definition getLookingGlassAgentTaskStatus :: "int \<Rightarrow> string \<Rightarrow> lg_tests \<Rightarrow> lg_status option" where
  "getLookingGlassAgentTaskStatus hostId taskId w =
     (case map_get (lg_states w) taskId of
        None \<Rightarrow> None | Some s \<Rightarrow> if ls_hostId s \<noteq> hostId then None else Some (toStatus s))"

text \<open>A timer of the component that is due fires.\<close>

definition lg_timer_fires :: "int \<Rightarrow> nat \<Rightarrow> lg_tests \<Rightarrow> lg_tests" where
  "lg_timer_fires now handle w =
     (case due_timer handle now (lg_timers w) of
        None \<Rightarrow> w
      | Some p \<Rightarrow>
          let w' = w\<lparr>lg_timers := clearTimer handle (lg_timers w)\<rparr>
          in case p of GiveUp taskId \<Rightarrow> markTimeout now taskId w'
             | Remove taskId u \<Rightarrow> remove_if_unchanged taskId u w')"

text \<open>The queue keeps the contract.\<close>

lemma lg_contents_set: "lg_contents (map_set h ts q) h' = (if h' = h then ts else lg_contents q h')"
  by (simp add: lg_contents_def map_get_set)

lemma lg_contents_delete: "lg_contents (map_delete h q) h' = (if h' = h then [] else lg_contents q h')"
  by (simp add: lg_contents_def map_get_delete)

lemma lg_contents_unqueue: "lg_contents (lg_unqueue h i q) h' =
    (if h' = h then filter (\<lambda>t. lt_taskId t \<noteq> i) (lg_contents q h) else lg_contents q h')"
  by (auto simp: lg_unqueue_def Let_def lg_contents_set lg_contents_delete split: option.splits)
     (simp_all add: lg_contents_def)

interpretation lg: host_queue lg_push lg_splice lg_contents 20 lt_taskId
  by unfold_locales (auto simp: lg_push_def lg_splice_def Let_def lg_contents_set lg_contents_delete)


subsection \<open>Runs\<close>

datatype lg_event =
    LgEnqueue int string int lg_input int
  | LgTake int int nat
  | LgProgress int int lg_progress
  | LgComplete int int lg_result
  | LgFire int nat
  | LgPrune int

fun lg_step :: "lg_event \<Rightarrow> lg_tests \<Rightarrow> lg_tests" where
  "lg_step (LgEnqueue now uuid h input ms) w = snd (enqueueLookingGlassAgentTask now uuid h input ms w)"
| "lg_step (LgTake now h limit) w = snd (takeLookingGlassAgentTasks now h limit w)"
| "lg_step (LgProgress now h r) w = snd (updateLookingGlassAgentTaskProgress now h r w)"
| "lg_step (LgComplete now h r) w = snd (completeLookingGlassAgentTask now h r w)"
| "lg_step (LgFire now handle) w = lg_timer_fires now handle w"
| "lg_step (LgPrune now) w = snd (pruneLookingGlassAgentTaskStates now w)"

text \<open>
  The identifiers issued for a host and those handed out to it, in order: what the environment
  has seen. An identifier is never drawn twice; an event that draws a used one is left out.
\<close>

record 'w seen =
  sn_world :: 'w
  sn_issued :: "(int \<times> string) list"
  sn_handed :: "(int \<times> string) list"

definition of_host :: "(int \<times> string) list \<Rightarrow> int \<Rightarrow> string list" where
  "of_host evs h = map snd (filter (\<lambda>e. fst e = h) evs)"

definition lg_issues :: "lg_event \<Rightarrow> lg_tests \<Rightarrow> (int \<times> string) list" where
  "lg_issues e w =
     (case e of
        LgEnqueue now uuid h input ms \<Rightarrow> if hasActiveLookingGlassTask h w then [] else [(h, uuid)]
      | _ \<Rightarrow> [])"

definition lg_hands :: "lg_event \<Rightarrow> lg_tests \<Rightarrow> (int \<times> string) list" where
  "lg_hands e w =
     (case e of
        LgTake now h limit \<Rightarrow> map (\<lambda>t. (h, lt_taskId t)) (fst (takeLookingGlassAgentTasks now h limit w))
      | _ \<Rightarrow> [])"

definition lg_fresh :: "lg_event \<Rightarrow> (int \<times> string) list \<Rightarrow> bool" where
  "lg_fresh e issued \<longleftrightarrow>
     (case e of LgEnqueue now uuid h input ms \<Rightarrow> uuid \<notin> snd ` set issued | _ \<Rightarrow> True)"

definition lg_observe :: "lg_event \<Rightarrow> lg_tests seen \<Rightarrow> lg_tests seen" where
  "lg_observe e x =
     (if lg_fresh e (sn_issued x)
      then \<lparr>sn_world = lg_step e (sn_world x),
            sn_issued = sn_issued x @ lg_issues e (sn_world x),
            sn_handed = sn_handed x @ lg_hands e (sn_world x)\<rparr>
      else x)"

definition lg_run :: "lg_event list \<Rightarrow> lg_tests seen" where
  "lg_run es = fold lg_observe es
     \<lparr>sn_world = no_lg_tests, sn_issued = [], sn_handed = []\<rparr>"

subsection \<open>One test of a host at a time, and it ends\<close>

text \<open>A test that waits or runs: its state is here and not terminal.\<close>

definition lg_active :: "lg_tests \<Rightarrow> string \<Rightarrow> int \<Rightarrow> bool" where
  "lg_active w i h \<longleftrightarrow>
     (case map_get (lg_states w) i of None \<Rightarrow> False | Some s \<Rightarrow> ls_hostId s = h \<and> \<not> lg_terminal s)"

definition lg_states_ok :: "(string, lg_state) jsmap \<Rightarrow> bool" where
  "lg_states_ok m \<longleftrightarrow> wf_map m \<and> (\<forall>i s. map_get m i = Some s \<longrightarrow> lt_taskId (ls_task s) = i) \<and>
     (\<forall>i j s t. map_get m i = Some s \<longrightarrow> map_get m j = Some t \<longrightarrow> ls_hostId s = ls_hostId t \<longrightarrow>
        \<not> lg_terminal s \<longrightarrow> \<not> lg_terminal t \<longrightarrow> i = j)"

definition lg_armed :: "(string, lg_state) jsmap \<Rightarrow> (int, lg_timer) timers \<Rightarrow> bool" where
  "lg_armed m ts \<longleftrightarrow> wf_timers ts \<and> (\<forall>i s. map_get m i = Some s \<longrightarrow> \<not> lg_terminal s \<longrightarrow>
     timer_payload ts (ls_timer s) = Some (GiveUp i))"

text \<open>A test whose state is still the first one is in the queue of its host.\<close>

definition lg_waiting :: "(string, lg_state) jsmap \<Rightarrow> lg_queues \<Rightarrow> bool" where
  "lg_waiting m q \<longleftrightarrow> (\<forall>i s. map_get m i = Some s \<longrightarrow> ls_status s = LgQueued \<longrightarrow>
     i \<in> lt_taskId ` set (lg_contents q (ls_hostId s)))"

text \<open>Two tests never share a timer.\<close>

definition lg_handles :: "(string, lg_state) jsmap \<Rightarrow> (int, lg_timer) timers \<Rightarrow> bool" where
  "lg_handles m ts \<longleftrightarrow> (\<forall>i s. map_get m i = Some s \<longrightarrow> ls_timer s < nextHandle ts) \<and>
     (\<forall>i j s t. map_get m i = Some s \<longrightarrow> map_get m j = Some t \<longrightarrow> ls_timer s = ls_timer t \<longrightarrow> i = j)"

definition lg_good :: "lg_tests \<Rightarrow> bool" where
  "lg_good w \<longleftrightarrow> lg_states_ok (lg_states w) \<and> lg_armed (lg_states w) (lg_timers w) \<and>
     lg_waiting (lg_states w) (lg_queues w) \<and> lg_handles (lg_states w) (lg_timers w)"

lemma lg_goodD:
  assumes "lg_good w"
  shows "lg_states_ok (lg_states w)" "lg_armed (lg_states w) (lg_timers w)"
    "lg_waiting (lg_states w) (lg_queues w)" "lg_handles (lg_states w) (lg_timers w)"
  using assms by (simp_all add: lg_good_def)

lemma lg_terminal_updates [simp]:
  "lg_terminal (timed_out now s)" "lg_terminal (lg_completed now r s)"
  "\<not> lg_terminal (lg_started now s)" "\<not> lg_terminal (lg_progressed now p s)"
  "\<not> lg_terminal (new_lg_state h t x)"
  by (simp_all add: lg_terminal_def TERMINAL_STATES_def timed_out_def lg_completed_def
        lg_started_def lg_progressed_def new_lg_state_def)

lemma lg_updates_keep [simp]:
  "ls_hostId (timed_out now s) = ls_hostId s" "ls_task (timed_out now s) = ls_task s"
  "ls_hostId (lg_completed now r s) = ls_hostId s" "ls_task (lg_completed now r s) = ls_task s"
  "ls_hostId (lg_started now s) = ls_hostId s" "ls_task (lg_started now s) = ls_task s"
  "ls_timer (lg_started now s) = ls_timer s" "ls_status (lg_started now s) = LgRunning"
  "ls_timer (timed_out now s) = ls_timer s" "ls_timer (lg_completed now r s) = ls_timer s"
  "ls_hostId (lg_progressed now p s) = ls_hostId s" "ls_task (lg_progressed now p s) = ls_task s"
  "ls_timer (lg_progressed now p s) = ls_timer s" "ls_status (lg_progressed now p s) = LgRunning"
  "ls_hostId (new_lg_state h t x) = h" "ls_task (new_lg_state h t x) = t"
  "ls_timer (new_lg_state h t x) = x" "ls_status (new_lg_state h t x) = LgQueued"
  by (simp_all add: timed_out_def lg_completed_def lg_started_def lg_progressed_def new_lg_state_def)

lemma lg_terminal_not_queued: "lg_terminal s \<Longrightarrow> ls_status s \<noteq> LgQueued"
  by (auto simp: lg_terminal_def TERMINAL_STATES_def)

lemma lg_states_wf: "lg_states_ok m \<Longrightarrow> wf_map m"
  by (simp add: lg_states_ok_def)

lemma lg_states_id: "lg_states_ok m \<Longrightarrow> map_get m i = Some s \<Longrightarrow> lt_taskId (ls_task s) = i"
  by (simp add: lg_states_ok_def)

lemma lg_states_one:
  "lg_states_ok m \<Longrightarrow> map_get m i = Some s \<Longrightarrow> map_get m j = Some t \<Longrightarrow> ls_hostId s = ls_hostId t \<Longrightarrow>
     \<not> lg_terminal s \<Longrightarrow> \<not> lg_terminal t \<Longrightarrow> i = j"
  unfolding lg_states_ok_def by blast

text \<open>
  Replacing the state of a test: the new one belongs to the same host and is terminal, or the old
  one was active.
\<close>

lemma lg_states_ok_replace:
  assumes ok: "lg_states_ok m" and old: "map_get m i = Some s"
    and keep: "ls_hostId s' = ls_hostId s" "ls_task s' = ls_task s" "lg_terminal s \<Longrightarrow> lg_terminal s'"
  shows "lg_states_ok (map_set i s' m)"
  unfolding lg_states_ok_def
proof (intro conjI allI impI)
  show "wf_map (map_set i s' m)" using lg_states_wf [OF ok] by simp
  show "lt_taskId (ls_task t) = j" if "map_get (map_set i s' m) j = Some t" for j t
    using that lg_states_id [OF ok] old keep(2) by (auto simp: map_get_set split: if_splits)
  show "j = k"
    if "map_get (map_set i s' m) j = Some t" "map_get (map_set i s' m) k = Some u"
      "ls_hostId t = ls_hostId u" "\<not> lg_terminal t" "\<not> lg_terminal u" for j k t u
    using that lg_states_one [OF ok old, of k u] lg_states_one [OF ok, of j t i s, OF _ old]
      lg_states_one [OF ok, of j t k u] keep
    by (auto simp: map_get_set split: if_splits)
qed

lemma lg_states_ok_sub:
  assumes "lg_states_ok m" "wf_map m'" and "\<And>i s. map_get m' i = Some s \<Longrightarrow> map_get m i = Some s"
  shows "lg_states_ok m'"
  using assms unfolding lg_states_ok_def by blast

lemma lg_armed_sub:
  assumes "lg_armed m ts" and "\<And>i s. map_get m' i = Some s \<Longrightarrow> map_get m i = Some s"
  shows "lg_armed m' ts"
  using assms unfolding lg_armed_def by blast

lemma lg_waiting_sub:
  assumes "lg_waiting m q" and "\<And>i s. map_get m' i = Some s \<Longrightarrow> map_get m i = Some s"
  shows "lg_waiting m' q"
  using assms unfolding lg_waiting_def by blast

lemma lg_armed_wf: "lg_armed m ts \<Longrightarrow> wf_timers ts"
  by (simp add: lg_armed_def)

lemma lg_armed_payload:
  "lg_armed m ts \<Longrightarrow> map_get m i = Some s \<Longrightarrow> \<not> lg_terminal s \<Longrightarrow> timer_payload ts (ls_timer s) = Some (GiveUp i)"
  by (simp add: lg_armed_def)

lemma lg_armed_replace_terminal:
  "lg_armed m ts \<Longrightarrow> lg_terminal s' \<Longrightarrow> lg_armed (map_set i s' m) ts"
  by (auto simp: lg_armed_def map_get_set)

lemma lg_armed_replace:
  "lg_armed m ts \<Longrightarrow> map_get m i = Some s \<Longrightarrow> \<not> lg_terminal s \<Longrightarrow> ls_timer s' = ls_timer s \<Longrightarrow>
     lg_armed (map_set i s' m) ts"
  by (auto simp: lg_armed_def map_get_set)

text \<open>Setting another timer changes nothing; clearing one is safe when no active test uses it.\<close>

lemma lg_armed_set:
  assumes "lg_armed m ts" shows "lg_armed m (snd (setTimer now d p ts))"
proof -
  obtain h ts' where s: "setTimer now d p ts = (h, ts')" by (cases "setTimer now d p ts")
  have wf: "wf_timers ts" using assms by (rule lg_armed_wf)
  have "timer_payload ts' (ls_timer s) = Some (GiveUp i)"
    if "map_get m i = Some s" "\<not> lg_terminal s" for i s
    using lg_armed_payload [OF assms that] setTimer_fresh [OF wf s] timer_payload_set [OF wf s] by auto
  then show ?thesis using wf_setTimer [OF wf s] unfolding s lg_armed_def by simp
qed

lemma lg_armed_clear:
  assumes "lg_armed m ts" and "\<And>i s. map_get m i = Some s \<Longrightarrow> \<not> lg_terminal s \<Longrightarrow> ls_timer s \<noteq> h"
  shows "lg_armed m (clearTimer h ts)"
  using assms by (auto simp: lg_armed_def)

lemma lg_waiting_replace:
  assumes "lg_waiting m q" and "ls_status s' \<noteq> LgQueued"
  shows "lg_waiting (map_set i s' m) q"
  using assms by (auto simp: lg_waiting_def map_get_set)


lemma lg_handles_sub:
  assumes "lg_handles m ts" and "\<And>i s. map_get m' i = Some s \<Longrightarrow> map_get m i = Some s"
  shows "lg_handles m' ts"
  using assms unfolding lg_handles_def by blast

lemma lg_handles_replace:
  "lg_handles m ts \<Longrightarrow> map_get m i = Some s \<Longrightarrow> ls_timer s' = ls_timer s \<Longrightarrow> lg_handles (map_set i s' m) ts"
  unfolding lg_handles_def map_get_set by (metis option.inject)

lemma lg_handles_clear [simp]: "lg_handles m (clearTimer h ts) \<longleftrightarrow> lg_handles m ts"
  by (simp add: lg_handles_def clearTimer_def)

lemma lg_handles_set:
  assumes "lg_handles m ts" shows "lg_handles m (snd (setTimer now d p ts))"
  using assms less_SucI unfolding lg_handles_def setTimer_def by fastforce

lemma lg_handles_new:
  assumes h: "lg_handles m ts" and t: "setTimer now d p ts = (x, ts')" and s: "ls_timer s = x"
  shows "lg_handles (map_set i s m) ts'"
proof -
  have x: "x = nextHandle ts" "nextHandle ts' = Suc x" using t by (auto simp: setTimer_def)
  have old: "ls_timer u < x" if "map_get m j = Some u" for j u
    using h that x by (simp add: lg_handles_def)
  show ?thesis
    unfolding lg_handles_def
  proof (intro conjI allI impI)
    show "ls_timer u < nextHandle ts'" if "map_get (map_set i s m) j = Some u" for j u
      using that old [of j u] s x by (auto simp: map_get_set split: if_splits)
    show "j = k" if "map_get (map_set i s m) j = Some u" "map_get (map_set i s m) k = Some v"
        "ls_timer u = ls_timer v" for j k u v
      using that old [of j u] old [of k v] s h
      by (auto simp: map_get_set lg_handles_def split: if_splits)
  qed
qed

lemma lg_other_timer:
  "lg_handles m ts \<Longrightarrow> map_get m i = Some s \<Longrightarrow> map_get m j = Some t \<Longrightarrow> j \<noteq> i \<Longrightarrow> ls_timer t \<noteq> ls_timer s"
  unfolding lg_handles_def by blast

lemma of_host_issue: "of_host (evs @ [(h, i)]) = (of_host evs)(h := of_host evs h @ [i])"
  by (auto simp: of_host_def)

lemma of_host_hand: "of_host (evs @ map (\<lambda>t. (h, f t)) ts) = (of_host evs)(h := of_host evs h @ map f ts)"
  by (auto simp: of_host_def filter_map comp_def)

lemma of_host_distinct: "distinct (map snd evs) \<Longrightarrow> distinct (of_host evs h)"
  by (induction evs) (auto simp: of_host_def)

subsubsection \<open>Every operation keeps it\<close>

lemma lg_active_iff: "lg_active w i h \<longleftrightarrow>
    (\<exists>s. map_get (lg_states w) i = Some s \<and> ls_hostId s = h \<and> \<not> lg_terminal s)"
  by (auto simp: lg_active_def split: option.splits)

lemma hasActive_iff:
  assumes "wf_map (lg_states w)"
  shows "hasActiveLookingGlassTask h w \<longleftrightarrow> (\<exists>i. lg_active w i h)"
  unfolding hasActiveLookingGlassTask_def lg_active_iff list_ex_iff
  using map_get_in [OF assms] by auto

text \<open>
  Giving a test up: its own timer has just fired, so only the other tests are known to be armed.
\<close>

lemma lg_armed_end_one:
  "lg_armed (map_delete i m) ts \<Longrightarrow> lg_terminal s' \<Longrightarrow> lg_armed (map_set i s' m) ts"
  by (auto simp: lg_armed_def map_get_set map_get_delete)

lemma lg_armed_all:
  "lg_armed (map_delete i m) ts \<Longrightarrow> (\<And>s. map_get m i = Some s \<Longrightarrow> lg_terminal s) \<Longrightarrow> lg_armed m ts"
  unfolding lg_armed_def by (metis map_get_delete)

lemma lg_waiting_give_up:
  assumes wait: "lg_waiting m q" and s': "lg_terminal s'"
  shows "lg_waiting (map_set i s' m) (lg_unqueue h i q)"
proof -
  have "lg_waiting (map_set i s' m) q"
    using wait s' by (intro lg_waiting_replace lg_terminal_not_queued)
  moreover have "j \<noteq> i" if "map_get (map_set i s' m) j = Some t" "ls_status t = LgQueued" for j t
    using that s' by (auto simp: map_get_set lg_terminal_not_queued split: if_splits)
  ultimately show ?thesis
    by (fastforce simp: lg_waiting_def lg_contents_unqueue)
qed

lemma markTimeout_good:
  assumes ok: "lg_states_ok (lg_states w)" and arm: "lg_armed (map_delete i (lg_states w)) (lg_timers w)"
    and wait: "lg_waiting (lg_states w) (lg_queues w)" and hs: "lg_handles (lg_states w) (lg_timers w)"
  shows "lg_good (markTimeout now i w)"
proof (cases "\<exists>s. map_get (lg_states w) i = Some s \<and> \<not> lg_terminal s")
  case False
  then have "lg_armed (lg_states w) (lg_timers w)" by (intro lg_armed_all [OF arm]) auto
  moreover have "markTimeout now i w = w"
    using False by (auto simp: markTimeout_def split: option.split)
  ultimately show ?thesis using ok wait hs by (simp add: lg_good_def)
next
  case True
  then obtain s where s: "map_get (lg_states w) i = Some s" "\<not> lg_terminal s" by blast
  let ?m = "map_set i (timed_out now s) (lg_states w)"
  have "lg_states_ok ?m" by (rule lg_states_ok_replace [OF ok s(1)]) simp_all
  moreover have "lg_armed ?m (snd (setTimer now d p (lg_timers w)))" for d p
    by (intro lg_armed_set lg_armed_end_one arm) simp
  moreover have "lg_waiting ?m (lg_unqueue (ls_hostId s) i (lg_queues w))"
    by (intro lg_waiting_give_up wait) simp
  moreover have "lg_handles ?m (snd (setTimer now d p (lg_timers w)))" for d p
    by (intro lg_handles_set lg_handles_replace [OF hs s(1)]) simp
  ultimately show ?thesis
    using s by (simp add: markTimeout_def scheduleTerminalStateRemoval_def lg_good_def)
qed

lemma lg_good_sub:
  assumes good: "lg_good w" and wf: "wf_map m"
    and sub: "\<And>i s. map_get m i = Some s \<Longrightarrow> map_get (lg_states w) i = Some s"
  shows "lg_good (w\<lparr>lg_states := m\<rparr>)"
  using lg_states_ok_sub [OF lg_goodD(1) [OF good] wf sub] lg_armed_sub [OF lg_goodD(2) [OF good] sub]
    lg_waiting_sub [OF lg_goodD(3) [OF good] sub] lg_handles_sub [OF lg_goodD(4) [OF good] sub]
  by (simp add: lg_good_def)

lemma remove_good:
  assumes good: "lg_good w" shows "lg_good (remove_if_unchanged i u w)"
proof -
  have "lg_good (w\<lparr>lg_states := map_delete i (lg_states w)\<rparr>)"
    using lg_states_wf [OF lg_goodD(1) [OF good]]
    by (intro lg_good_sub [OF good]) (auto simp: map_get_delete split: if_splits)
  then show ?thesis using good by (simp add: remove_if_unchanged_def split: option.split)
qed

lemma prune_good:
  assumes good: "lg_good w" shows "lg_good (snd (pruneLookingGlassAgentTaskStates now w))"
proof -
  have wf: "wf_map (lg_states w)" using lg_states_wf [OF lg_goodD(1) [OF good]] .
  then have "lg_good (w\<lparr>lg_states := filter (\<lambda>(i, s). \<not> lg_removable now s) (lg_states w)\<rparr>)"
    by (intro lg_good_sub [OF good]) (auto simp: map_get_filter split: option.splits if_splits)
  then show ?thesis by (simp add: pruneLookingGlassAgentTaskStates_def)
qed

lemma lg_timer_fires_good:
  assumes good: "lg_good w" shows "lg_good (lg_timer_fires now h w)"
proof (cases "due_timer h now (lg_timers w)")
  case None
  then show ?thesis using good by (simp add: lg_timer_fires_def)
next
  case (Some p)
  let ?w = "w\<lparr>lg_timers := clearTimer h (lg_timers w)\<rparr>"
  have payload: "timer_payload (lg_timers w) h = Some p" using Some by (rule due_timer_payload)
  note parts = lg_goodD [OF good]
  show ?thesis
  proof (cases p)
    case (GiveUp i)
    have "ls_timer s \<noteq> h" if "map_get (map_delete i (lg_states w)) j = Some s" "\<not> lg_terminal s" for j s
      using that lg_armed_payload [OF parts(2), of j s] payload GiveUp
      by (auto simp: map_get_delete split: if_splits)
    then have "lg_armed (map_delete i (lg_states w)) (clearTimer h (lg_timers w))"
      by (intro lg_armed_clear lg_armed_sub [OF parts(2)]) (auto simp: map_get_delete split: if_splits)
    then have "lg_good (markTimeout now i ?w)" by (intro markTimeout_good) (simp_all add: parts)
    then show ?thesis using Some GiveUp by (simp add: lg_timer_fires_def)
  next
    case (Remove i u)
    have "ls_timer s \<noteq> h" if "map_get (lg_states w) j = Some s" "\<not> lg_terminal s" for j s
      using that lg_armed_payload [OF parts(2), of j s] payload Remove by auto
    then have "lg_good ?w" using parts by (simp add: lg_good_def lg_armed_clear)
    then show ?thesis using Some Remove by (simp add: lg_timer_fires_def remove_good)
  qed
qed

lemma lg_waiting_push:
  assumes wait: "lg_waiting m q" and free: "\<And>i s. map_get m i = Some s \<Longrightarrow> ls_hostId s = h \<Longrightarrow> lg_terminal s"
    and s: "ls_task s = t" "ls_hostId s = h" and i: "lt_taskId t = i"
  shows "lg_waiting (map_set i s m) (lg_push h t q)"
proof -
  have "i \<in> lt_taskId ` set (lg_contents (lg_push h t q) h)"
    using lg.pushed_is_queued [of t h q] i by blast
  moreover have "ls_hostId u \<noteq> h" if "map_get m j = Some u" "ls_status u = LgQueued" for j u
    using free [OF that(1)] that(2) lg_terminal_not_queued by blast
  ultimately show ?thesis
    using wait s by (auto simp: lg_waiting_def map_get_set lg.push_contents)
qed

lemma enqueue_good:
  assumes good: "lg_good w" and fresh: "\<not> map_has (lg_states w) i"
  shows "lg_good (snd (enqueueLookingGlassAgentTask now i h input ms w))"
proof (cases "hasActiveLookingGlassTask h w")
  case True
  then show ?thesis using good by (simp add: enqueueLookingGlassAgentTask_def)
next
  case False
  note parts = lg_goodD [OF good]
  have free: "lg_terminal s" if "map_get (lg_states w) j = Some s" "ls_hostId s = h" for j s
  proof (rule ccontr)
    assume "\<not> lg_terminal s"
    then have "lg_active w j h" using that by (simp add: lg_active_def)
    then show False using False hasActive_iff [OF lg_states_wf [OF parts(1)]] by blast
  qed
  obtain x ts where t: "setTimer now ms (GiveUp i) (lg_timers w) = (x, ts)"
    by (cases "setTimer now ms (GiveUp i) (lg_timers w)")
  let ?task = "new_lg_task now i input"
  let ?m = "map_set i (new_lg_state h ?task x) (lg_states w)"
  have id: "lt_taskId ?task = i" by (simp add: new_lg_task_def)
  have "lg_states_ok ?m"
    unfolding lg_states_ok_def
  proof (intro conjI allI impI)
    show "wf_map ?m" using lg_states_wf [OF parts(1)] by simp
    show "lt_taskId (ls_task s) = j" if "map_get ?m j = Some s" for j s
      using that lg_states_id [OF parts(1)] id by (auto simp: map_get_set split: if_splits)
    show "j = k" if "map_get ?m j = Some s" "map_get ?m k = Some u" "ls_hostId s = ls_hostId u"
        "\<not> lg_terminal s" "\<not> lg_terminal u" for j k s u
      using that free lg_states_one [OF parts(1), of j s k u] by (auto simp: map_get_set split: if_splits)
  qed
  moreover have "lg_armed ?m ts"
  proof -
    have "lg_armed (lg_states w) ts" using lg_armed_set [OF parts(2), of now ms "GiveUp i"] t by simp
    moreover have "timer_payload ts x = Some (GiveUp i)"
      using timer_payload_set [OF lg_armed_wf [OF parts(2)] t, of x] by simp
    ultimately show ?thesis by (auto simp: lg_armed_def map_get_set)
  qed
  moreover have "lg_waiting ?m (lg_push h ?task (lg_queues w))"
    by (rule lg_waiting_push [OF parts(3) free]) (simp_all add: id)
  moreover have "lg_handles ?m ts" by (rule lg_handles_new [OF parts(4) t]) simp
  ultimately show ?thesis
    using False t by (simp add: enqueueLookingGlassAgentTask_def Let_def lg_good_def)
qed


lemma progress_good:
  assumes good: "lg_good w" shows "lg_good (snd (updateLookingGlassAgentTaskProgress now h r w))"
proof (cases "\<exists>s. map_get (lg_states w) (lp_taskId r) = Some s \<and> \<not> lg_terminal s")
  case False
  then show ?thesis
    using good by (auto simp: updateLookingGlassAgentTaskProgress_def split: option.split)
next
  case True
  then obtain s where s: "map_get (lg_states w) (lp_taskId r) = Some s" "\<not> lg_terminal s" by blast
  note parts = lg_goodD [OF good]
  let ?m = "map_set (lp_taskId r) (lg_progressed now r s) (lg_states w)"
  have "lg_states_ok ?m" by (rule lg_states_ok_replace [OF parts(1) s(1)]) (simp_all add: s)
  moreover have "lg_armed ?m (lg_timers w)" by (rule lg_armed_replace [OF parts(2) s]) simp
  moreover have "lg_waiting ?m (lg_queues w)" by (rule lg_waiting_replace [OF parts(3)]) simp
  moreover have "lg_handles ?m (lg_timers w)" by (rule lg_handles_replace [OF parts(4) s(1)]) simp
  ultimately have "lg_good (w\<lparr>lg_states := ?m\<rparr>)" by (simp add: lg_good_def)
  then show ?thesis using s good by (simp add: updateLookingGlassAgentTaskProgress_def)
qed

lemma complete_good:
  assumes good: "lg_good w" shows "lg_good (snd (completeLookingGlassAgentTask now h r w))"
proof (cases "map_get (lg_states w) (lr_taskId r)")
  case None
  then show ?thesis using good by (simp add: completeLookingGlassAgentTask_def)
next
  case (Some s)
  note parts = lg_goodD [OF good]
  let ?i = "lr_taskId r"
  let ?m = "map_set ?i (lg_completed now r s) (lg_states w)"
  have "lg_states_ok ?m" by (rule lg_states_ok_replace [OF parts(1) Some]) simp_all
  moreover have "lg_waiting ?m (lg_queues w)"
    by (intro lg_waiting_replace [OF parts(3)] lg_terminal_not_queued) simp
  moreover have "lg_armed ?m (clearTimer (ls_timer s) (lg_timers w))"
  proof (rule lg_armed_clear)
    show "lg_armed ?m (lg_timers w)" by (intro lg_armed_replace_terminal parts(2)) simp
    fix j u assume u: "map_get ?m j = Some u" "\<not> lg_terminal u"
    then have j: "j \<noteq> ?i" "map_get (lg_states w) j = Some u" by (auto simp: map_get_set split: if_splits)
    show "ls_timer u \<noteq> ls_timer s"
      by (rule lg_other_timer [OF parts(4) Some j(2) j(1)])
  qed
  moreover have "lg_handles ?m (snd (setTimer now d p (clearTimer (ls_timer s) (lg_timers w))))" for d p
    by (intro lg_handles_set) (simp add: lg_handles_replace [OF parts(4) Some])
  ultimately show ?thesis
    using Some good
    by (simp add: completeLookingGlassAgentTask_def scheduleTerminalStateRemoval_def lg_good_def lg_armed_set)
qed


lemma lg_take_one_good:
  assumes good: "lg_good w" shows "lg_good (w\<lparr>lg_states := lg_take_one now t (lg_states w)\<rparr>)"
proof (cases "\<exists>s. map_get (lg_states w) (lt_taskId t) = Some s \<and> \<not> lg_terminal s")
  case False
  then have "lg_take_one now t (lg_states w) = lg_states w"
    by (auto simp: lg_take_one_def split: option.split)
  then show ?thesis using good by simp
next
  case True
  then obtain s where s: "map_get (lg_states w) (lt_taskId t) = Some s" "\<not> lg_terminal s" by blast
  note parts = lg_goodD [OF good]
  let ?m = "map_set (lt_taskId t) (lg_started now s) (lg_states w)"
  have "lg_states_ok ?m" by (rule lg_states_ok_replace [OF parts(1) s(1)]) (simp_all add: s)
  moreover have "lg_armed ?m (lg_timers w)" by (rule lg_armed_replace [OF parts(2) s]) simp
  moreover have "lg_waiting ?m (lg_queues w)" by (rule lg_waiting_replace [OF parts(3)]) simp
  moreover have "lg_handles ?m (lg_timers w)" by (rule lg_handles_replace [OF parts(4) s(1)]) simp
  ultimately show ?thesis using s by (simp add: lg_take_one_def lg_good_def)
qed

lemma lg_take_states_good:
  "lg_good w \<Longrightarrow> lg_good (w\<lparr>lg_states := fold (lg_take_one now) ts (lg_states w)\<rparr>)"
proof (induction ts arbitrary: w)
  case Nil
  then show ?case by simp
next
  case (Cons t ts)
  then have "lg_good (w\<lparr>lg_states := lg_take_one now t (lg_states w)\<rparr>)" by (intro lg_take_one_good)
  from Cons.IH [OF this] show ?case by simp
qed

text \<open>A task that left the queue is not queued any more.\<close>

lemma lg_take_one_not_queued:
  "map_get (lg_take_one now t m) (lt_taskId t) = Some s \<Longrightarrow> ls_status s \<noteq> LgQueued"
  by (auto simp: lg_take_one_def map_get_set lg_terminal_not_queued split: option.splits if_splits)

lemma lg_take_one_queued:
  "map_get (lg_take_one now t m) i = Some s \<Longrightarrow> ls_status s = LgQueued \<Longrightarrow> map_get m i = Some s"
  by (auto simp: lg_take_one_def map_get_set split: option.splits if_splits)

lemma lg_taken_queued:
  "map_get (fold (lg_take_one now) ts m) i = Some s \<Longrightarrow> ls_status s = LgQueued \<Longrightarrow>
     map_get m i = Some s \<and> i \<notin> lt_taskId ` set ts"
proof (induction ts arbitrary: m)
  case Nil
  then show ?case by simp
next
  case (Cons t ts)
  then have "map_get (lg_take_one now t m) i = Some s" "i \<notin> lt_taskId ` set ts" by auto
  then show ?case
    using lg_take_one_not_queued [of now t m s] lg_take_one_queued [of now t m i s] Cons.prems(2) by auto
qed

lemma take_good:
  assumes good: "lg_good w" shows "lg_good (snd (takeLookingGlassAgentTasks now h limit w))"
proof -
  obtain tasks q where q: "lg_splice h limit (lg_queues w) = (tasks, q)"
    by (cases "lg_splice h limit (lg_queues w)")
  let ?m = "fold (lg_take_one now) tasks (lg_states w)"
  have g: "lg_good (w\<lparr>lg_states := ?m\<rparr>)" by (rule lg_take_states_good [OF good])
  have "lg_waiting ?m q"
    unfolding lg_waiting_def
  proof (intro allI impI)
    fix i s assume s: "map_get ?m i = Some s" "ls_status s = LgQueued"
    have old: "map_get (lg_states w) i = Some s" "i \<notin> lt_taskId ` set tasks"
      using lg_taken_queued [OF s] by auto
    then have "i \<in> lt_taskId ` set (lg_contents (lg_queues w) (ls_hostId s))"
      using lg_goodD(3) [OF good] s(2) by (simp add: lg_waiting_def)
    moreover note lg.takes_split [OF q, of "ls_hostId s"]
    ultimately show "i \<in> lt_taskId ` set (lg_contents q (ls_hostId s))" using old(2) by blast
  qed
  then show ?thesis using g q by (simp add: takeLookingGlassAgentTasks_def lg_good_def)
qed


subsubsection \<open>What holds in every run\<close>

lemma lg_step_good:
  assumes good: "lg_good w" and fresh: "lg_fresh e issued"
    and ids: "\<And>i. map_has (lg_states w) i \<Longrightarrow> i \<in> snd ` set issued"
  shows "lg_good (lg_step e w)"
proof (cases e)
  case (LgEnqueue now uuid h input ms)
  then have "\<not> map_has (lg_states w) uuid" using fresh ids by (auto simp: lg_fresh_def)
  then show ?thesis using LgEnqueue by (simp add: enqueue_good [OF good])
qed (simp_all add: good take_good progress_good complete_good lg_timer_fires_good prune_good)

lemma map_has_some: "map_get m i = Some s \<Longrightarrow> map_has m i"
  by (simp add: map_has_def)

lemma mark_has: "map_has (lg_states (markTimeout now i w)) j \<Longrightarrow> map_has (lg_states w) j"
  by (auto simp: markTimeout_def scheduleTerminalStateRemoval_def intro: map_has_some split: option.splits if_splits)

lemma remove_has: "map_has (lg_states (remove_if_unchanged i u w)) j \<Longrightarrow> map_has (lg_states w) j"
  by (auto simp: remove_if_unchanged_def split: option.splits if_splits)

lemma taken_has: "map_has (fold (lg_take_one now) ts m) j \<Longrightarrow> map_has m j"
proof (induction ts arbitrary: m)
  case Nil
  then show ?case by simp
next
  case (Cons t ts)
  then have "map_has (lg_take_one now t m) j" by simp
  then show ?case by (auto simp: lg_take_one_def intro: map_has_some split: option.splits if_splits)
qed

lemma lg_step_has:
  assumes "map_has (lg_states (lg_step e w)) j"
  shows "map_has (lg_states w) j \<or> j \<in> snd ` set (lg_issues e w)"
proof (cases e)
  case (LgEnqueue now uuid h input ms)
  then show ?thesis
    using assms
    by (auto simp: enqueueLookingGlassAgentTask_def lg_issues_def Let_def split: if_splits prod.splits)
next
  case (LgTake now h limit)
  then show ?thesis
    using assms taken_has by (auto simp: takeLookingGlassAgentTasks_def split: prod.splits)
next
  case (LgProgress now h r)
  then show ?thesis
    using assms
    by (auto simp: updateLookingGlassAgentTaskProgress_def intro: map_has_some split: option.splits if_splits)
next
  case (LgComplete now h r)
  then show ?thesis
    using assms
    by (auto simp: completeLookingGlassAgentTask_def scheduleTerminalStateRemoval_def intro: map_has_some
        split: option.splits if_splits)
next
  case (LgFire now handle)
  then show ?thesis
    using assms
    by (auto simp: lg_timer_fires_def Let_def dest!: mark_has remove_has split: option.splits lg_timer.splits)
next
  case (LgPrune now)
  then show ?thesis
    using assms by (auto simp: pruneLookingGlassAgentTaskStates_def map_has_keys)
qed

text \<open>The queues along a step.\<close>

lemma lg_unqueue_subseq: "subseq (lg_contents (lg_unqueue h i q) h') (lg_contents q h')"
  by (simp add: lg_contents_unqueue subseq_filter_left)

lemma lg_fire_queues: "subseq (lg_contents (lg_queues (lg_timer_fires now x w)) h') (lg_contents (lg_queues w) h')"
  by (auto simp: lg_timer_fires_def markTimeout_def remove_if_unchanged_def
      scheduleTerminalStateRemoval_def lg_unqueue_subseq Let_def split: option.split lg_timer.split)

abbreviation lg_in_order :: "(int \<times> string) list \<Rightarrow> (int \<times> string) list \<Rightarrow> lg_queues \<Rightarrow> bool" where
  "lg_in_order issued handed q \<equiv> lg.handed_in_order (of_host issued) (of_host handed) q"

lemma lg_step_in_order:
  assumes order: "lg_in_order issued handed (lg_queues w)"
  shows "lg_in_order (issued @ lg_issues e w) (handed @ lg_hands e w) (lg_queues (lg_step e w))"
proof (cases e)
  case (LgEnqueue now uuid h input ms)
  have "lt_taskId (new_lg_task now uuid input) = uuid" by (simp add: new_lg_task_def)
  then show ?thesis
    using LgEnqueue order lg.in_order_push [OF order, of h "new_lg_task now uuid input"]
    by (simp add: enqueueLookingGlassAgentTask_def lg_issues_def lg_hands_def Let_def of_host_issue
        split: prod.split)
next
  case (LgTake now h limit)
  obtain ts q where q: "lg_splice h limit (lg_queues w) = (ts, q)"
    by (cases "lg_splice h limit (lg_queues w)")
  show ?thesis
    using LgTake q lg.in_order_takes [OF order q]
    by (simp add: takeLookingGlassAgentTasks_def lg_issues_def lg_hands_def of_host_hand)
next
  case (LgProgress now h r)
  then show ?thesis
    using order
    by (simp add: updateLookingGlassAgentTaskProgress_def lg_issues_def lg_hands_def split: option.split)
next
  case (LgComplete now h r)
  then show ?thesis
    using order
    by (simp add: completeLookingGlassAgentTask_def scheduleTerminalStateRemoval_def lg_issues_def
        lg_hands_def split: option.split)
next
  case (LgFire now x)
  then show ?thesis
    using lg.in_order_discard [OF order lg_fire_queues] by (simp add: lg_issues_def lg_hands_def)
next
  case (LgPrune now)
  then show ?thesis
    using order by (simp add: pruneLookingGlassAgentTaskStates_def lg_issues_def lg_hands_def)
qed

definition lg_seen_ok :: "lg_tests seen \<Rightarrow> bool" where
  "lg_seen_ok x \<longleftrightarrow> lg_good (sn_world x) \<and>
     lg_in_order (sn_issued x) (sn_handed x) (lg_queues (sn_world x)) \<and>
     distinct (map snd (sn_issued x)) \<and>
     (\<forall>i. map_has (lg_states (sn_world x)) i \<longrightarrow> i \<in> snd ` set (sn_issued x))"

lemma lg_issues_distinct:
  "lg_fresh e issued \<Longrightarrow> distinct (map snd issued) \<Longrightarrow> distinct (map snd (issued @ lg_issues e w))"
  by (cases e) (auto simp: lg_issues_def lg_fresh_def)

lemma lg_seen_ok_observe:
  assumes ok: "lg_seen_ok x" shows "lg_seen_ok (lg_observe e x)"
proof (cases "lg_fresh e (sn_issued x)")
  case False
  then show ?thesis using ok by (simp add: lg_observe_def)
next
  case True
  let ?w = "sn_world x"
  have good: "lg_good ?w" and order: "lg_in_order (sn_issued x) (sn_handed x) (lg_queues ?w)"
    and dist: "distinct (map snd (sn_issued x))"
    and ids: "\<And>i. map_has (lg_states ?w) i \<Longrightarrow> i \<in> snd ` set (sn_issued x)"
    using ok by (auto simp: lg_seen_ok_def)
  have "i \<in> snd ` set (sn_issued x @ lg_issues e ?w)" if "map_has (lg_states (lg_step e ?w)) i" for i
    using lg_step_has [OF that] ids by auto
  then show ?thesis
    using True lg_step_good [OF good True ids] lg_step_in_order [OF order]
      lg_issues_distinct [OF True dist]
    by (simp add: lg_observe_def lg_seen_ok_def)
qed

lemma lg_good_none: "lg_good no_lg_tests"
  by (simp add: lg_good_def no_lg_tests_def lg_states_ok_def lg_armed_def lg_waiting_def lg_handles_def)

lemma lg_seen_ok_run: "lg_seen_ok (lg_run es)"
proof -
  have "lg_seen_ok (fold lg_observe es x)" if "lg_seen_ok x" for x
    using that by (induction es arbitrary: x) (auto intro: lg_seen_ok_observe)
  moreover have "lg_seen_ok \<lparr>sn_world = no_lg_tests, sn_issued = [], sn_handed = []\<rparr>"
    using lg_good_none
    by (simp add: lg_seen_ok_def no_lg_tests_def lg.handed_in_order_def of_host_def lg_contents_def)
  ultimately show ?thesis by (simp add: lg_run_def)
qed

definition handed_out_once :: "'w seen \<Rightarrow> bool" where
  "handed_out_once x \<longleftrightarrow> (\<forall>h. distinct (of_host (sn_handed x) h) \<and>
     subseq (of_host (sn_handed x) h) (of_host (sn_issued x) h))"

lemma lg_run_once: "handed_out_once (lg_run es)"
  using lg_seen_ok_run [of es] lg.handed_once of_host_distinct
  unfolding handed_out_once_def lg_seen_ok_def by blast


subsubsection \<open>The end of a test\<close>

text \<open>
  A host has one active test at most. The timer of an active test, once due, frees the host, and
  so does the result of its agent; a report of another host changes nothing. A test that has
  ended never runs again.
\<close>

definition lg_one_active :: "lg_tests \<Rightarrow> bool" where
  "lg_one_active w \<longleftrightarrow> (\<forall>h i j. lg_active w i h \<longrightarrow> lg_active w j h \<longrightarrow> i = j)"

definition lg_will_end :: "lg_tests \<Rightarrow> bool" where
  "lg_will_end w \<longleftrightarrow>
     (\<forall>i h. lg_active w i h \<longrightarrow> (\<exists>x due. map_get (active (lg_timers w)) x = Some (due, GiveUp i) \<and>
        (\<forall>now \<ge> due. \<not> hasActiveLookingGlassTask h (lg_timer_fires now x w)))) \<and>
     (\<forall>i h now r. lg_active w i h \<longrightarrow> lr_taskId r = i \<longrightarrow>
        fst (completeLookingGlassAgentTask now h r w) \<and>
        \<not> hasActiveLookingGlassTask h (snd (completeLookingGlassAgentTask now h r w)))"

definition lg_final :: "lg_tests \<Rightarrow> (int \<times> string) list \<Rightarrow> bool" where
  "lg_final w issued \<longleftrightarrow>
     (\<forall>e i s h. lg_fresh e issued \<longrightarrow> map_get (lg_states w) i = Some s \<longrightarrow> lg_terminal s \<longrightarrow>
        \<not> lg_active (lg_step e w) i h)"

definition lg_own_reports :: "lg_tests \<Rightarrow> bool" where
  "lg_own_reports w \<longleftrightarrow> (\<forall>i s h now r p. map_get (lg_states w) i = Some s \<longrightarrow> ls_hostId s \<noteq> h \<longrightarrow>
     map_get (lg_states (lg_step (LgComplete now h r) w)) i = Some s \<and>
     map_get (lg_states (lg_step (LgProgress now h p) w)) i = Some s)"

definition lg_taken_next :: "lg_tests \<Rightarrow> bool" where
  "lg_taken_next w \<longleftrightarrow> (\<forall>i s. map_get (lg_states w) i = Some s \<longrightarrow> ls_status s = LgQueued \<longrightarrow>
     hasQueuedLookingGlassAgentTasks (ls_hostId s) w \<and>
     i \<in> lt_taskId ` set (lg_contents (lg_queues w) (ls_hostId s)))"

lemma lg_good_one_active: "lg_good w \<Longrightarrow> lg_one_active w"
  unfolding lg_one_active_def lg_active_iff using lg_states_one [OF lg_goodD(1)] by metis

lemma lg_free_after:
  assumes good: "lg_good w" "lg_good w'" and one: "lg_active w i h"
    and less: "\<And>j. lg_active w' j h \<Longrightarrow> lg_active w j h" and gone: "\<not> lg_active w' i h"
  shows "\<not> hasActiveLookingGlassTask h w'"
proof
  assume "hasActiveLookingGlassTask h w'"
  then obtain j where j: "lg_active w' j h"
    using hasActive_iff [OF lg_states_wf [OF lg_goodD(1) [OF good(2)]]] by blast
  then have "j = i" using lg_good_one_active [OF good(1)] less one unfolding lg_one_active_def by blast
  with j gone show False by simp
qed

lemma lg_active_mark:
  "lg_active (markTimeout now i w) j h \<longleftrightarrow> j \<noteq> i \<and> lg_active w j h"
  by (auto simp: markTimeout_def scheduleTerminalStateRemoval_def lg_active_iff map_get_set split: option.split)

lemma lg_active_remove:
  "lg_active (remove_if_unchanged i u w) j h \<Longrightarrow> lg_active w j h"
  by (auto simp: remove_if_unchanged_def lg_active_iff map_get_delete split: option.splits if_splits)

lemma lg_active_timers [simp]: "lg_active (w\<lparr>lg_timers := ts\<rparr>) j h = lg_active w j h"
  by (simp add: lg_active_iff)

lemma lg_active_fires: "lg_active (lg_timer_fires now x w) j h \<Longrightarrow> lg_active w j h"
  by (auto simp: lg_timer_fires_def Let_def lg_active_mark dest!: lg_active_remove
      split: option.splits lg_timer.splits)

lemma lg_active_complete:
  "lg_active (snd (completeLookingGlassAgentTask now h r w)) j h' \<Longrightarrow> lg_active w j h'"
  by (auto simp: completeLookingGlassAgentTask_def scheduleTerminalStateRemoval_def lg_active_iff map_get_set
      split: option.splits if_splits)

lemma lg_will_end_good:
  assumes good: "lg_good w" shows "lg_will_end w"
  unfolding lg_will_end_def
proof (intro conjI allI impI)
  fix i h assume act: "lg_active w i h"
  then obtain s where s: "map_get (lg_states w) i = Some s" "\<not> lg_terminal s" by (auto simp: lg_active_iff)
  have "timer_payload (lg_timers w) (ls_timer s) = Some (GiveUp i)"
    by (rule lg_armed_payload [OF lg_goodD(2) [OF good] s])
  then obtain due where due: "map_get (active (lg_timers w)) (ls_timer s) = Some (due, GiveUp i)"
    by (auto simp: timer_payload_def)
  have "\<not> hasActiveLookingGlassTask h (lg_timer_fires now (ls_timer s) w)" if "due \<le> now" for now
  proof (rule lg_free_after [OF good lg_timer_fires_good [OF good] act lg_active_fires])
    show "\<not> lg_active (lg_timer_fires now (ls_timer s) w) i h"
      using due that by (simp add: lg_timer_fires_def due_timer_def lg_active_mark)
  qed
  then show "\<exists>x due. map_get (active (lg_timers w)) x = Some (due, GiveUp i) \<and>
      (\<forall>now \<ge> due. \<not> hasActiveLookingGlassTask h (lg_timer_fires now x w))"
    using due by blast
next
  fix i h now and r :: lg_result assume act: "lg_active w i h" and r: "lr_taskId r = i"
  then obtain s where s: "map_get (lg_states w) i = Some s" "ls_hostId s = h" by (auto simp: lg_active_iff)
  then show "fst (completeLookingGlassAgentTask now h r w)"
    using r by (simp add: completeLookingGlassAgentTask_def)
  show "\<not> hasActiveLookingGlassTask h (snd (completeLookingGlassAgentTask now h r w))"
  proof (rule lg_free_after [OF good complete_good [OF good] act lg_active_complete])
    show "\<not> lg_active (snd (completeLookingGlassAgentTask now h r w)) i h"
      using s r by (simp add: completeLookingGlassAgentTask_def scheduleTerminalStateRemoval_def
          lg_active_iff map_get_set)
  qed
qed

lemma lg_taken_active:
  "map_get m i = Some s \<Longrightarrow> lg_terminal s \<Longrightarrow> map_get (fold (lg_take_one now) ts m) i = Some s"
proof (induction ts arbitrary: m)
  case Nil
  then show ?case by simp
next
  case (Cons t ts)
  have "map_get (lg_take_one now t m) i = Some s"
    using Cons.prems by (auto simp: lg_take_one_def map_get_set split: option.split)
  then show ?case using Cons.IH Cons.prems(2) by simp
qed

lemma lg_final_step:
  assumes wf: "wf_map (lg_states w)" and fresh: "lg_fresh e issued" and ids: "\<And>i. map_has (lg_states w) i \<Longrightarrow> i \<in> snd ` set issued"
    and s: "map_get (lg_states w) i = Some s" "lg_terminal s"
  shows "\<not> lg_active (lg_step e w) i h"
proof (cases e)
  case (LgEnqueue now uuid h' input ms)
  then have "i \<noteq> uuid" using fresh ids map_has_some [OF s(1)] by (auto simp: lg_fresh_def)
  then show ?thesis
    using LgEnqueue s by (auto simp: enqueueLookingGlassAgentTask_def lg_active_iff Let_def map_get_set
        split: prod.splits if_splits)
next
  case (LgTake now h' limit)
  then show ?thesis
    using lg_taken_active [OF s] s(2) by (auto simp: takeLookingGlassAgentTasks_def lg_active_iff split: prod.splits)
next
  case (LgProgress now h' r)
  then show ?thesis
    using s by (auto simp: updateLookingGlassAgentTaskProgress_def lg_active_iff map_get_set
        split: option.splits if_splits)
next
  case (LgComplete now h' r)
  then show ?thesis using s lg_active_complete [of now h' r w i h] by (auto simp: lg_active_iff)
next
  case (LgFire now x)
  then show ?thesis using s lg_active_fires [of now x w i h] by (auto simp: lg_active_iff)
next
  case (LgPrune now)
  then show ?thesis
    using s by (auto simp: pruneLookingGlassAgentTaskStates_def lg_active_iff map_get_filter [OF wf])
qed


definition lg_orderly :: "lg_tests seen \<Rightarrow> bool" where
  "lg_orderly x \<longleftrightarrow> lg_one_active (sn_world x) \<and> lg_will_end (sn_world x) \<and>
     lg_final (sn_world x) (sn_issued x) \<and> lg_own_reports (sn_world x) \<and> lg_taken_next (sn_world x)"

lemma lg_own_reports_hold: "lg_own_reports w"
  by (auto simp: lg_own_reports_def completeLookingGlassAgentTask_def scheduleTerminalStateRemoval_def
      updateLookingGlassAgentTaskProgress_def map_get_set split: option.splits)

lemma lg_taken_next_good: "lg_good w \<Longrightarrow> lg_taken_next w"
  using lg_goodD(3) by (fastforce simp: lg_taken_next_def lg_waiting_def hasQueuedLookingGlassAgentTasks_def)

lemma lg_seen_final: "lg_seen_ok x \<Longrightarrow> lg_final (sn_world x) (sn_issued x)"
  unfolding lg_final_def lg_seen_ok_def
  using lg_final_step lg_states_wf [OF lg_goodD(1)] by blast

lemma lg_seen_orderly: "lg_seen_ok x \<Longrightarrow> lg_orderly x"
  using lg_good_one_active lg_will_end_good lg_own_reports_hold lg_taken_next_good lg_seen_final
  by (simp add: lg_orderly_def lg_seen_ok_def)

text \<open>
  C20: After any sequence of requests for network tests, heartbeats, reports of agents, timers
  and clean-ups, a host has at most one test that waits or runs; the state of that test has a
  timer that frees the host when it is due, and the result of its agent frees it before; a test
  that has ended never becomes active again; a report for another host's test is ignored; and
  a test that still waits is in the queue the next heartbeat of its host takes from.
\<close>

theorem looking_glass_tests_end: "lg_orderly (lg_run es)"
  by (rule lg_seen_orderly [OF lg_seen_ok_run])

section \<open>The iperf3 server of a host\<close>

datatype iperf3_op = OpStart | OpStop

datatype iperf3_phase = IpIdle | IpQueued | IpStarting | IpRunning | IpStopping | IpStopped | IpError

datatype iperf3_report = RunningNow | StoppedNow | FailedNow

datatype ip_message = MsgNotStarted | MsgStartCreated | MsgStopCreated | MsgStartTaken | MsgStopTaken |
  MsgNoAnswer

datatype ip_text = IpOwn ip_message | IpAgent string

record ip_task =
  it_taskId :: string
  it_op :: iperf3_op
  it_port :: jsnum
  it_createdAt :: int

text \<open>An optional field of a result is undefined; the process number may be \<open>null\<close> too.\<close>

record ip_result =
  ir_taskId :: string
  ir_op :: iperf3_op
  ir_port :: jsnum
  ir_status :: iperf3_report
  ir_output :: string
  ir_pid :: "jsnum option option"
  ir_startedAt :: "string option"
  ir_updatedAt :: "string option"
  ir_error :: "string option"

record ip_state =
  is_taskId :: string
  is_state :: iperf3_phase
  is_port :: jsnum
  is_output :: ip_text
  is_pid :: "jsnum option option"
  is_startedAt :: "string option"
  is_updatedAt :: stamp
  is_error :: "ip_text option"
  is_timer :: "nat option"

record ip_status =
  iq_taskId :: "string option"
  iq_state :: iperf3_phase
  iq_port :: jsnum
  iq_output :: ip_text
  iq_pid :: "jsnum option option"
  iq_startedAt :: "string option"
  iq_updatedAt :: stamp
  iq_error :: "ip_text option"

definition AUTO_IPERF3_PORT :: jsnum where
  "AUTO_IPERF3_PORT = num 0"

type_synonym ip_queues = "(int, ip_task list) jsmap"

record ip_tests =
  ip_queues :: ip_queues
  ip_states :: "(int, ip_state) jsmap"
  ip_timers :: "(int, int \<times> string) timers"

definition no_ip_tests :: ip_tests where
  "no_ip_tests = \<lparr>ip_queues = [], ip_states = [], ip_timers = no_timers\<rparr>"

definition iperf3Status :: "int \<Rightarrow> ip_state option \<Rightarrow> ip_status" where
  "iperf3Status now state =
     (case state of
        None \<Rightarrow> \<lparr>iq_taskId = None, iq_state = IpIdle, iq_port = AUTO_IPERF3_PORT,
          iq_output = IpOwn MsgNotStarted, iq_pid = None, iq_startedAt = None, iq_updatedAt = Iso now,
          iq_error = None\<rparr>
      | Some s \<Rightarrow> \<lparr>iq_taskId = Some (is_taskId s), iq_state = is_state s, iq_port = is_port s,
          iq_output = is_output s, iq_pid = is_pid s, iq_startedAt = is_startedAt s,
          iq_updatedAt = is_updatedAt s, iq_error = is_error s\<rparr>)"

definition ip_contents :: "ip_queues \<Rightarrow> int \<Rightarrow> ip_task list" where
  "ip_contents q h = (case map_get q h of None \<Rightarrow> [] | Some ts \<Rightarrow> ts)"

definition ip_push :: "int \<Rightarrow> ip_task \<Rightarrow> ip_queues \<Rightarrow> ip_queues" where
  "ip_push h t q = map_set h (last_n 10 (ip_contents q h @ [t])) q"

definition ip_splice :: "int \<Rightarrow> nat \<Rightarrow> ip_queues \<Rightarrow> ip_task list \<times> ip_queues" where
  "ip_splice h limit q =
     (let queue = ip_contents q h; tasks = take limit queue; left = drop limit queue
      in (tasks, if left \<noteq> [] then map_set h left q else map_delete h q))"

definition iperf3Timeout :: "int \<Rightarrow> int \<Rightarrow> string \<Rightarrow> ip_tests \<Rightarrow> ip_tests" where
  "iperf3Timeout now hostId taskId w =
     (case map_get (ip_states w) hostId of
        None \<Rightarrow> w
      | Some s \<Rightarrow>
          if is_taskId s \<noteq> taskId \<or> is_state s = IpRunning \<or> is_state s = IpStopped then w
          else w\<lparr>ip_states := map_set hostId
            (s\<lparr>is_state := IpError, is_error := Some (IpOwn MsgNoAnswer), is_output := IpOwn MsgNoAnswer,
               is_updatedAt := Iso now\<rparr>) (ip_states w)\<rparr>)"

definition ip_pending :: "ip_state \<Rightarrow> bool" where
  "ip_pending s \<longleftrightarrow> is_state s = IpQueued \<or> is_state s = IpStarting \<or> is_state s = IpStopping"

definition ip_refusal :: "iperf3_op \<Rightarrow> ip_state option \<Rightarrow> test_error option" where
  "ip_refusal op current =
     (case current of
        None \<Rightarrow> None
      | Some s \<Rightarrow>
          if op = OpStart \<and> (ip_pending s \<or> is_state s = IpRunning) then Some Iperf3Active
          else if op = OpStop \<and> ip_pending s then Some Iperf3Processing else None)"

definition new_ip_state :: "ip_task \<Rightarrow> nat \<Rightarrow> ip_state" where
  "new_ip_state task timer =
     \<lparr>is_taskId = it_taskId task, is_state = (if it_op task = OpStart then IpQueued else IpStopping),
      is_port = it_port task,
      is_output = IpOwn (if it_op task = OpStart then MsgStartCreated else MsgStopCreated),
      is_pid = None, is_startedAt = None, is_updatedAt = Iso (it_createdAt task), is_error = None,
      is_timer = Some timer\<rparr>"

definition clear_of :: "ip_state option \<Rightarrow> (int, int \<times> string) timers \<Rightarrow> (int, int \<times> string) timers" where
  "clear_of previous ts =
     (case previous of
        None \<Rightarrow> ts | Some s \<Rightarrow> (case is_timer s of None \<Rightarrow> ts | Some x \<Rightarrow> clearTimer x ts))"

definition enqueueIperf3AgentTask ::
    "int \<Rightarrow> string \<Rightarrow> int \<Rightarrow> iperf3_op \<Rightarrow> jsnum option \<Rightarrow> int \<Rightarrow> ip_tests \<Rightarrow> (test_error + ip_task \<times> ip_status) \<times> ip_tests" where
  "enqueueIperf3AgentTask now uuid hostId op port timeoutMs w =
     (case ip_refusal op (map_get (ip_states w) hostId) of
        Some e \<Rightarrow> (Inl e, w)
      | None \<Rightarrow>
          let task = \<lparr>it_taskId = uuid, it_op = op,
                it_port = (case port of None \<Rightarrow> AUTO_IPERF3_PORT | Some p \<Rightarrow> p), it_createdAt = now\<rparr>;
              (timer, ts) = setTimer now timeoutMs (hostId, uuid) (ip_timers w);
              s = new_ip_state task timer
          in (Inr (task, iperf3Status now (Some s)),
              w\<lparr>ip_queues := ip_push hostId task (ip_queues w),
                ip_timers := clear_of (map_get (ip_states w) hostId) ts,
                ip_states := map_set hostId s (ip_states w)\<rparr>))"

definition ip_take_one :: "int \<Rightarrow> int \<Rightarrow> ip_task \<Rightarrow> (int, ip_state) jsmap \<Rightarrow> (int, ip_state) jsmap" where
  "ip_take_one now hostId task states =
     (case map_get states hostId of
        None \<Rightarrow> states
      | Some s \<Rightarrow>
          if is_taskId s \<noteq> it_taskId task then states
          else map_set hostId
            (s\<lparr>is_state := (if it_op task = OpStart then IpStarting else IpStopping),
               is_output := IpOwn (if it_op task = OpStart then MsgStartTaken else MsgStopTaken),
               is_updatedAt := Iso now\<rparr>) states)"

definition takeIperf3AgentTasks :: "int \<Rightarrow> int \<Rightarrow> nat \<Rightarrow> ip_tests \<Rightarrow> ip_task list \<times> ip_tests" where
  "takeIperf3AgentTasks now hostId limit w =
     (let (tasks, q) = ip_splice hostId limit (ip_queues w)
      in (tasks, w\<lparr>ip_queues := q, ip_states := fold (ip_take_one now hostId) tasks (ip_states w)\<rparr>))"

definition hasQueuedIperf3AgentTasks :: "int \<Rightarrow> ip_tests \<Rightarrow> bool" where
  "hasQueuedIperf3AgentTasks hostId w \<longleftrightarrow> ip_contents (ip_queues w) hostId \<noteq> []"

definition or_text :: "string \<Rightarrow> string \<Rightarrow> string" where
  "or_text a b = (if a \<noteq> [] then a else b)"

definition or_number :: "jsnum \<Rightarrow> jsnum \<Rightarrow> jsnum" where
  "or_number a b = (if a \<noteq> NaN \<and> a \<noteq> num 0 then a else b)"

fun reported_phase :: "iperf3_report \<Rightarrow> iperf3_phase" where
  "reported_phase RunningNow = IpRunning"
| "reported_phase StoppedNow = IpStopped"
| "reported_phase FailedNow = IpError"

definition given_text :: "string option \<Rightarrow> string option" where
  "given_text t = (case t of None \<Rightarrow> None | Some s \<Rightarrow> if s \<noteq> [] then Some s else None)"

definition ip_reported :: "int \<Rightarrow> ip_result \<Rightarrow> ip_state option \<Rightarrow> ip_state" where
  "ip_reported now r previous =
     \<lparr>is_taskId = or_text (ir_taskId r) (case previous of None \<Rightarrow> [] | Some s \<Rightarrow> is_taskId s),
      is_state = reported_phase (ir_status r),
      is_port = or_number (ir_port r)
        (case previous of None \<Rightarrow> AUTO_IPERF3_PORT | Some s \<Rightarrow> or_number (is_port s) AUTO_IPERF3_PORT),
      is_output = IpAgent (ir_output r),
      is_pid = (case ir_pid r of Some p \<Rightarrow> Some p
                | None \<Rightarrow> (case previous of None \<Rightarrow> None | Some s \<Rightarrow> is_pid s)),
      is_startedAt = (case given_text (ir_startedAt r) of Some t \<Rightarrow> Some t
                      | None \<Rightarrow> (case previous of None \<Rightarrow> None | Some s \<Rightarrow> is_startedAt s)),
      is_updatedAt = (case given_text (ir_updatedAt r) of Some t \<Rightarrow> Reported t | None \<Rightarrow> Iso now),
      is_error = map_option IpAgent (given_text (ir_error r)), is_timer = None\<rparr>"

definition completeIperf3AgentTask :: "int \<Rightarrow> int \<Rightarrow> ip_result \<Rightarrow> ip_tests \<Rightarrow> bool \<times> ip_tests" where
  "completeIperf3AgentTask now hostId r w =
     (let previous = map_get (ip_states w) hostId
      in (True, w\<lparr>ip_timers := clear_of previous (ip_timers w),
                  ip_states := map_set hostId (ip_reported now r previous) (ip_states w)\<rparr>))"

definition getIperf3Status :: "int \<Rightarrow> int \<Rightarrow> ip_tests \<Rightarrow> ip_status" where
  "getIperf3Status now hostId w = iperf3Status now (map_get (ip_states w) hostId)"

definition hasActiveIperf3Task :: "int \<Rightarrow> ip_tests \<Rightarrow> bool" where
  "hasActiveIperf3Task hostId w \<longleftrightarrow>
     (case map_get (ip_states w) hostId of None \<Rightarrow> False | Some s \<Rightarrow> ip_pending s \<or> is_state s = IpRunning)"

definition ip_timer_fires :: "int \<Rightarrow> nat \<Rightarrow> ip_tests \<Rightarrow> ip_tests" where
  "ip_timer_fires now x w =
     (case due_timer x now (ip_timers w) of
        None \<Rightarrow> w
      | Some (hostId, taskId) \<Rightarrow>
          iperf3Timeout now hostId taskId (w\<lparr>ip_timers := clearTimer x (ip_timers w)\<rparr>))"

lemma ip_contents_set: "ip_contents (map_set h ts q) h' = (if h' = h then ts else ip_contents q h')"
  by (simp add: ip_contents_def map_get_set)

lemma ip_contents_delete: "ip_contents (map_delete h q) h' = (if h' = h then [] else ip_contents q h')"
  by (simp add: ip_contents_def map_get_delete)

interpretation ip: host_queue ip_push ip_splice ip_contents 10 it_taskId
  by unfold_locales (auto simp: ip_push_def ip_splice_def Let_def ip_contents_set ip_contents_delete)


subsection \<open>Runs\<close>

datatype ip_event =
    IpEnqueue int string int iperf3_op "jsnum option" int
  | IpTake int int nat
  | IpComplete int int ip_result
  | IpFire int nat

fun ip_step :: "ip_event \<Rightarrow> ip_tests \<Rightarrow> ip_tests" where
  "ip_step (IpEnqueue now uuid h op port ms) w = snd (enqueueIperf3AgentTask now uuid h op port ms w)"
| "ip_step (IpTake now h limit) w = snd (takeIperf3AgentTasks now h limit w)"
| "ip_step (IpComplete now h r) w = snd (completeIperf3AgentTask now h r w)"
| "ip_step (IpFire now x) w = ip_timer_fires now x w"

definition ip_issues :: "ip_event \<Rightarrow> ip_tests \<Rightarrow> (int \<times> string) list" where
  "ip_issues e w =
     (case e of
        IpEnqueue now uuid h op port ms \<Rightarrow>
          if ip_refusal op (map_get (ip_states w) h) = None then [(h, uuid)] else []
      | _ \<Rightarrow> [])"

definition ip_hands :: "ip_event \<Rightarrow> ip_tests \<Rightarrow> (int \<times> string) list" where
  "ip_hands e w =
     (case e of
        IpTake now h limit \<Rightarrow> map (\<lambda>t. (h, it_taskId t)) (fst (takeIperf3AgentTasks now h limit w))
      | _ \<Rightarrow> [])"

definition ip_fresh :: "ip_event \<Rightarrow> (int \<times> string) list \<Rightarrow> bool" where
  "ip_fresh e issued \<longleftrightarrow>
     (case e of IpEnqueue now uuid h op port ms \<Rightarrow> uuid \<notin> snd ` set issued | _ \<Rightarrow> True)"

definition ip_observe :: "ip_event \<Rightarrow> ip_tests seen \<Rightarrow> ip_tests seen" where
  "ip_observe e x =
     (if ip_fresh e (sn_issued x)
      then \<lparr>sn_world = ip_step e (sn_world x),
            sn_issued = sn_issued x @ ip_issues e (sn_world x),
            sn_handed = sn_handed x @ ip_hands e (sn_world x)\<rparr>
      else x)"

definition ip_run :: "ip_event list \<Rightarrow> ip_tests seen" where
  "ip_run es = fold ip_observe es \<lparr>sn_world = no_ip_tests, sn_issued = [], sn_handed = []\<rparr>"

text \<open>
  A timer that is set belongs to the state of its host and to the task of that state: no timer
  of an earlier task is left behind.
\<close>

definition ip_owned :: "(int, ip_state) jsmap \<Rightarrow> (int, int \<times> string) timers \<Rightarrow> bool" where
  "ip_owned m ts \<longleftrightarrow> wf_timers ts \<and> (\<forall>x h i. timer_payload ts x = Some (h, i) \<longrightarrow>
     (\<exists>s. map_get m h = Some s \<and> is_timer s = Some x \<and> is_taskId s = i))"

lemma ip_ownedD:
  "ip_owned m ts \<Longrightarrow> timer_payload ts x = Some (h, i) \<Longrightarrow>
     \<exists>s. map_get m h = Some s \<and> is_timer s = Some x \<and> is_taskId s = i"
  by (simp add: ip_owned_def)

lemma ip_owned_wf: "ip_owned m ts \<Longrightarrow> wf_timers ts"
  by (simp add: ip_owned_def)

lemma wf_clear_of [simp]: "wf_timers ts \<Longrightarrow> wf_timers (clear_of previous ts)"
  by (simp add: clear_of_def split: option.split)

lemma payload_clear_of:
  "timer_payload (clear_of previous ts) x = Some p \<Longrightarrow>
     timer_payload ts x = Some p \<and> (\<forall>s. previous = Some s \<longrightarrow> is_timer s \<noteq> Some x)"
  by (auto simp: clear_of_def split: option.splits if_splits)

lemma ip_owned_replace_same:
  assumes "ip_owned m ts" "map_get m h = Some s" "is_timer s' = is_timer s" "is_taskId s' = is_taskId s"
  shows "ip_owned (map_set h s' m) ts"
  using assms unfolding ip_owned_def map_get_set by (metis option.inject)

lemma ip_owned_enqueue:
  assumes ok: "ip_owned m ts" and t: "setTimer now ms (h, i) ts = (x, ts')"
    and s: "is_timer s = Some x" "is_taskId s = i"
  shows "ip_owned (map_set h s m) (clear_of (map_get m h) ts')"
  unfolding ip_owned_def
proof (intro conjI allI impI)
  have wf: "wf_timers ts" using ok by (rule ip_owned_wf)
  show "wf_timers (clear_of (map_get m h) ts')" using wf_setTimer [OF wf t] by simp
  fix y h' j assume "timer_payload (clear_of (map_get m h) ts') y = Some (h', j)"
  then have y: "timer_payload ts' y = Some (h', j)"
    and live: "\<And>u. map_get m h = Some u \<Longrightarrow> is_timer u \<noteq> Some y"
    by (auto dest: payload_clear_of)
  show "\<exists>u. map_get (map_set h s m) h' = Some u \<and> is_timer u = Some y \<and> is_taskId u = j"
  proof (cases "y = x")
    case True
    then show ?thesis using y s timer_payload_set [OF wf t, of x] by (simp add: map_get_set)
  next
    case False
    then have "timer_payload ts y = Some (h', j)" using y timer_payload_set [OF wf t, of y] by simp
    from ip_ownedD [OF ok this] show ?thesis using live by (auto simp: map_get_set)
  qed
qed

lemma ip_owned_complete:
  assumes ok: "ip_owned m ts" shows "ip_owned (map_set h s m) (clear_of (map_get m h) ts)"
  unfolding ip_owned_def
proof (intro conjI allI impI)
  show "wf_timers (clear_of (map_get m h) ts)" using ip_owned_wf [OF ok] by simp
  fix y h' j assume "timer_payload (clear_of (map_get m h) ts) y = Some (h', j)"
  then have "timer_payload ts y = Some (h', j)" "\<And>u. map_get m h = Some u \<Longrightarrow> is_timer u \<noteq> Some y"
    by (auto dest: payload_clear_of)
  then show "\<exists>u. map_get (map_set h s m) h' = Some u \<and> is_timer u = Some y \<and> is_taskId u = j"
    using ip_ownedD [OF ok, of y h' j] by (auto simp: map_get_set)
qed

lemma ip_owned_clear: "ip_owned m ts \<Longrightarrow> ip_owned m (clearTimer x ts)"
  by (auto simp: ip_owned_def)

lemma ip_owned_take_one: "ip_owned m ts \<Longrightarrow> ip_owned (ip_take_one now h t m) ts"
  by (auto simp: ip_take_one_def intro!: ip_owned_replace_same split: option.split)

lemma ip_owned_takes: "ip_owned m ts \<Longrightarrow> ip_owned (fold (ip_take_one now h) tasks m) ts"
  by (induction tasks arbitrary: m) (simp_all add: ip_owned_take_one)

lemma ip_owned_timeout:
  "ip_owned (ip_states w) (ip_timers w) \<Longrightarrow>
     ip_owned (ip_states (iperf3Timeout now h i w)) (ip_timers (iperf3Timeout now h i w))"
  by (auto simp: iperf3Timeout_def intro!: ip_owned_replace_same split: option.split)

lemma ip_step_owned:
  assumes ok: "ip_owned (ip_states w) (ip_timers w)"
  shows "ip_owned (ip_states (ip_step e w)) (ip_timers (ip_step e w))"
proof (cases e)
  case (IpEnqueue now uuid h op port ms)
  obtain x ts where t: "setTimer now ms (h, uuid) (ip_timers w) = (x, ts)"
    by (cases "setTimer now ms (h, uuid) (ip_timers w)")
  show ?thesis
    using IpEnqueue ok t ip_owned_enqueue [OF ok t]
    by (simp add: enqueueIperf3AgentTask_def new_ip_state_def Let_def split: option.split)
next
  case (IpTake now h limit)
  then show ?thesis
    using ok by (simp add: takeIperf3AgentTasks_def ip_owned_takes split: prod.split)
next
  case (IpComplete now h r)
  then show ?thesis
    using ok by (simp add: completeIperf3AgentTask_def Let_def ip_owned_complete)
next
  case (IpFire now x)
  then show ?thesis
    using ok by (auto simp: ip_timer_fires_def ip_owned_clear intro!: ip_owned_timeout split: option.split)
qed

lemma ip_timeout_queues: "ip_queues (iperf3Timeout now h i w) = ip_queues w"
  by (simp add: iperf3Timeout_def split: option.split)

abbreviation ip_in_order :: "(int \<times> string) list \<Rightarrow> (int \<times> string) list \<Rightarrow> ip_queues \<Rightarrow> bool" where
  "ip_in_order issued handed q \<equiv> ip.handed_in_order (of_host issued) (of_host handed) q"

lemma ip_step_in_order:
  assumes order: "ip_in_order issued handed (ip_queues w)"
  shows "ip_in_order (issued @ ip_issues e w) (handed @ ip_hands e w) (ip_queues (ip_step e w))"
proof (cases e)
  case (IpEnqueue now uuid h op port ms)
  then show ?thesis
    using order ip.in_order_push [OF order, of h "\<lparr>it_taskId = uuid, it_op = op, it_port = p, it_createdAt = now\<rparr>" for p]
    by (simp add: enqueueIperf3AgentTask_def ip_issues_def ip_hands_def Let_def of_host_issue
        split: prod.split option.split)
next
  case (IpTake now h limit)
  obtain ts q where q: "ip_splice h limit (ip_queues w) = (ts, q)" by (cases "ip_splice h limit (ip_queues w)")
  show ?thesis
    using IpTake q ip.in_order_takes [OF order q]
    by (simp add: takeIperf3AgentTasks_def ip_issues_def ip_hands_def of_host_hand)
next
  case (IpComplete now h r)
  then show ?thesis
    using order by (simp add: completeIperf3AgentTask_def Let_def ip_issues_def ip_hands_def)
next
  case (IpFire now x)
  then show ?thesis
    using order
    by (auto simp: ip_timer_fires_def ip_timeout_queues ip_issues_def ip_hands_def split: option.split)
qed

definition ip_seen_ok :: "ip_tests seen \<Rightarrow> bool" where
  "ip_seen_ok x \<longleftrightarrow> ip_owned (ip_states (sn_world x)) (ip_timers (sn_world x)) \<and>
     ip_in_order (sn_issued x) (sn_handed x) (ip_queues (sn_world x)) \<and> distinct (map snd (sn_issued x))"

lemma ip_issues_distinct:
  "ip_fresh e issued \<Longrightarrow> distinct (map snd issued) \<Longrightarrow> distinct (map snd (issued @ ip_issues e w))"
  by (cases e) (auto simp: ip_issues_def ip_fresh_def)

lemma ip_seen_ok_observe: "ip_seen_ok x \<Longrightarrow> ip_seen_ok (ip_observe e x)"
  using ip_step_owned ip_step_in_order ip_issues_distinct
  by (simp add: ip_seen_ok_def ip_observe_def)

lemma ip_seen_ok_run: "ip_seen_ok (ip_run es)"
proof -
  have "ip_seen_ok (fold ip_observe es x)" if "ip_seen_ok x" for x
    using that by (induction es arbitrary: x) (auto intro: ip_seen_ok_observe)
  moreover have "ip_seen_ok \<lparr>sn_world = no_ip_tests, sn_issued = [], sn_handed = []\<rparr>"
    by (simp add: ip_seen_ok_def no_ip_tests_def ip_owned_def ip.handed_in_order_def of_host_def ip_contents_def)
  ultimately show ?thesis by (simp add: ip_run_def)
qed

lemma ip_run_once: "handed_out_once (ip_run es)"
  using ip_seen_ok_run [of es] ip.handed_once of_host_distinct
  unfolding handed_out_once_def ip_seen_ok_def by blast

text \<open>
  C34: Whatever is asked of the agents, and whenever they poll, report or stay silent, a network
  test and a task for an iperf3 server is handed out at most once, to the host it was made
  for, and the tasks of a host are handed out in the order in which they were made.
\<close>

theorem test_tasks_handed_out_once: "handed_out_once (lg_run es) \<and> handed_out_once (ip_run fs)"
  by (simp add: lg_run_once ip_run_once)

subsection \<open>What frees a host\<close>

text \<open>
  A report of the agent settles the state of the server, whichever task it is for; a timer that
  fires for a task that is still pending turns it into an error.
\<close>

lemma iperf3_report_settles:
  "\<exists>s. map_get (ip_states (snd (completeIperf3AgentTask now h r w))) h = Some s \<and> \<not> ip_pending s \<and>
     is_timer s = None"
  by (cases "ir_status r") (simp_all add: completeIperf3AgentTask_def Let_def map_get_set ip_reported_def ip_pending_def)

lemma iperf3_timer_settles:
  assumes ok: "ip_owned (ip_states w) (ip_timers w)" and due: "due_timer x now (ip_timers w) = Some (h, i)"
  shows "\<exists>s. map_get (ip_states (ip_timer_fires now x w)) h = Some s \<and> \<not> ip_pending s"
proof -
  obtain s where "map_get (ip_states w) h = Some s" "is_taskId s = i"
    using ip_ownedD [OF ok due_timer_payload [OF due]] by blast
  then show ?thesis
    using due by (auto simp: ip_timer_fires_def iperf3Timeout_def map_get_set ip_pending_def)
qed

text \<open>
  But the timeout leaves the task in the queue. When the agent takes it later, the state is
  pending again and has no timer: until a report comes, both kinds of task are refused.
\<close>

definition stuck_run :: ip_tests where
  "stuck_run = sn_world (ip_run [IpEnqueue 0 ''t'' 1 OpStart None 30000, IpFire 30000 0, IpTake 40000 1 2])"

lemma iperf3_timeout_leaves_task:
  "hasActiveIperf3Task 1 stuck_run \<and> active (ip_timers stuck_run) = [] \<and>
   fst (enqueueIperf3AgentTask now u 1 OpStart p ms stuck_run) = Inl Iperf3Active \<and>
   fst (enqueueIperf3AgentTask now u 1 OpStop p ms stuck_run) = Inl Iperf3Processing"
proof -
  have "map_get (ip_states stuck_run) 1 = Some \<lparr>is_taskId = ''t'', is_state = IpStarting,
      is_port = AUTO_IPERF3_PORT, is_output = IpOwn MsgStartTaken, is_pid = None, is_startedAt = None,
      is_updatedAt = Iso 40000, is_error = Some (IpOwn MsgNoAnswer), is_timer = Some 0\<rparr> \<and>
    active (ip_timers stuck_run) = []"
    unfolding stuck_run_def by code_simp
  then show ?thesis
    by (simp add: hasActiveIperf3Task_def ip_pending_def enqueueIperf3AgentTask_def ip_refusal_def)
qed


section \<open>The reports of agents\<close>

text \<open>
  The field \<open>result\<close> of a body, when it is an object; the value of a field is a scalar. A
  handler answers with a status 400 or with the flag \<open>success\<close>.
\<close>

datatype report_answer = TaskIdRequired | ReportTaken bool

definition stamp_or_now :: "int \<Rightarrow> jsval \<Rightarrow> stamp" where
  "stamp_or_now now v = (if js_truthy v then Reported (js_string v) else Iso now)"

definition number_or :: "jsval \<Rightarrow> jsnum \<Rightarrow> jsnum" where
  "number_or v n = (if js_truthy v then to_number v else n)"

definition error_text :: "jsval \<Rightarrow> string option" where
  "error_text v = (if js_truthy v then Some (js_string v) else None)"

definition nullable_number :: "jsval \<Rightarrow> jsnum option" where
  "nullable_number v = (if v = JUndef \<or> v = JNull then None else Some (to_number v))"

definition read_lg_result :: "int \<Rightarrow> (string, jsval) jsmap \<Rightarrow> lg_result" where
  "read_lg_result now ob =
     (let field = body_field ob
      in \<lparr>lr_taskId = js_string (field ''taskId''), lr_output = js_text (field ''output''),
          lr_exitCode = nullable_number (field ''exitCode''), lr_timedOut = js_truthy (field ''timedOut''),
          lr_durationMs = number_or (field ''durationMs'') (num 0),
          lr_startedAt = stamp_or_now now (field ''startedAt''),
          lr_finishedAt = stamp_or_now now (field ''finishedAt''), lr_error = error_text (field ''error'')\<rparr>)"

definition read_lg_progress :: "int \<Rightarrow> (string, jsval) jsmap \<Rightarrow> lg_progress" where
  "read_lg_progress now ob =
     (let field = body_field ob
      in \<lparr>lp_taskId = js_string (field ''taskId''), lp_output = Some (js_text (field ''output'')),
          lp_durationMs = Some (number_or (field ''durationMs'') (num 0)),
          lp_startedAt = Some (stamp_or_now now (field ''startedAt'')),
          lp_error = error_text (field ''error'')\<rparr>)"

definition read_ip_result :: "(string, jsval) jsmap \<Rightarrow> ip_result" where
  "read_ip_result ob =
     (let field = body_field ob
      in \<lparr>ir_taskId = js_string (field ''taskId''),
          ir_op = (if field ''op'' = JStr ''stop'' then OpStop else OpStart),
          ir_port = number_or (field ''port'') (num 5201),
          ir_status = (if field ''status'' = JStr ''stopped'' then StoppedNow
                       else if field ''status'' = JStr ''error'' then FailedNow else RunningNow),
          ir_output = js_text (field ''output''), ir_pid = Some (nullable_number (field ''pid'')),
          ir_startedAt = error_text (field ''startedAt''), ir_updatedAt = error_text (field ''updatedAt''),
          ir_error = error_text (field ''error'')\<rparr>)"

definition result_object :: "json_body \<Rightarrow> (string, jsval) jsmap option" where
  "result_object result =
     (case result of
        None \<Rightarrow> None
      | Some ob \<Rightarrow> if js_truthy (body_field ob ''taskId'') then Some ob else None)"

definition looking_glass_result :: "int \<Rightarrow> int \<Rightarrow> json_body \<Rightarrow> lg_tests \<Rightarrow> report_answer \<times> lg_tests" where
  "looking_glass_result now hostId result w =
     (case result_object result of
        None \<Rightarrow> (TaskIdRequired, w)
      | Some ob \<Rightarrow>
          let (ok, w') = completeLookingGlassAgentTask now hostId (read_lg_result now ob) w
          in (ReportTaken ok, w'))"

definition looking_glass_progress :: "int \<Rightarrow> int \<Rightarrow> json_body \<Rightarrow> lg_tests \<Rightarrow> report_answer \<times> lg_tests" where
  "looking_glass_progress now hostId result w =
     (case result_object result of
        None \<Rightarrow> (TaskIdRequired, w)
      | Some ob \<Rightarrow>
          let (ok, w') = updateLookingGlassAgentTaskProgress now hostId (read_lg_progress now ob) w
          in (ReportTaken ok, w'))"

definition iperf3_result :: "int \<Rightarrow> int \<Rightarrow> json_body \<Rightarrow> ip_tests \<Rightarrow> report_answer \<times> ip_tests" where
  "iperf3_result now hostId result w =
     (case result_object result of
        None \<Rightarrow> (TaskIdRequired, w)
      | Some ob \<Rightarrow>
          let (ok, w') = completeIperf3AgentTask now hostId (read_ip_result ob) w
          in (ReportTaken ok, w'))"

text \<open>
  A test that ends with the exit code 0 succeeds, as the report of its agent says it.
\<close>

lemma looking_glass_result_success:
  assumes "lg_active w i h" and "i \<noteq> []"
    and "body_field ob ''taskId'' = JStr i" and "body_field ob ''exitCode'' = JNum (num 0)"
    and "\<not> js_truthy (body_field ob ''timedOut'')"
  shows "fst (looking_glass_result now h (Some ob) w) = ReportTaken True \<and>
     map_option ls_status (map_get (lg_states (snd (looking_glass_result now h (Some ob) w))) i) = Some LgSuccess"
  using assms
  by (auto simp: looking_glass_result_def result_object_def read_lg_result_def Let_def lg_active_iff
      completeLookingGlassAgentTask_def scheduleTerminalStateRemoval_def map_get_set lg_completed_def
      nullable_number_def js_string_def)

section \<open>Asking for a test\<close>

text \<open>
  The mutations of the router, after the checks of the user and of the host. The start of a
  network test looks at the iperf3 server of the host first (\<open>network_test_check\<close>), then waits
  for the addresses of its target and only then makes the task (\<open>network_test_start\<close>).
\<close>

definition network_test_check :: "int \<Rightarrow> ip_tests \<Rightarrow> test_error option" where
  "network_test_check hostId iw = (if hasActiveIperf3Task hostId iw then Some Iperf3Active else None)"

definition network_test_input :: "lg_method \<Rightarrow> string \<Rightarrow> string \<Rightarrow> string list \<Rightarrow> int \<Rightarrow> int option \<Rightarrow> lg_input" where
  "network_test_input meth target address addresses family port =
     \<lparr>li_method = meth, li_target = target, li_resolvedAddress = address, li_resolvedAddresses = addresses,
      li_family = family,
      li_port = (if meth = MTcp then Some (case port of None \<Rightarrow> 443 | Some p \<Rightarrow> p) else None)\<rparr>"

definition network_test_start ::
    "int \<Rightarrow> string \<Rightarrow> int \<Rightarrow> lg_input \<Rightarrow> lg_tests \<Rightarrow> (test_error + lg_task \<times> lg_status) \<times> lg_tests" where
  "network_test_start now uuid hostId input lw = enqueueLookingGlassAgentTask now uuid hostId input 60000 lw"

definition iperf3Start ::
    "int \<Rightarrow> string \<Rightarrow> int \<Rightarrow> jsnum option \<Rightarrow> lg_tests \<Rightarrow> ip_tests \<Rightarrow> (test_error + ip_task \<times> ip_status) \<times> ip_tests" where
  "iperf3Start now uuid hostId port lw iw =
     (if hasActiveLookingGlassTask hostId lw then (Inl NetworkTestActive, iw)
      else enqueueIperf3AgentTask now uuid hostId OpStart port 30000 iw)"

definition iperf3Stop ::
    "int \<Rightarrow> string \<Rightarrow> int \<Rightarrow> ip_tests \<Rightarrow> (test_error + ip_task \<times> ip_status) \<times> ip_tests" where
  "iperf3Stop now uuid hostId iw =
     enqueueIperf3AgentTask now uuid hostId OpStop
       (Some (or_number (iq_port (getIperf3Status now hostId iw)) AUTO_IPERF3_PORT)) 30000 iw"

lemma iperf3_waits_for_network_test:
  "lg_active w i h \<Longrightarrow> wf_map (lg_states w) \<Longrightarrow> iperf3Start now u h p w iw = (Inl NetworkTestActive, iw)"
  using hasActive_iff [of w h] by (auto simp: iperf3Start_def)

lemma enqueue_activates:
  "\<not> hasActiveLookingGlassTask h w \<Longrightarrow>
     lg_active (snd (enqueueLookingGlassAgentTask now u h input ms w)) u h"
  by (simp add: enqueueLookingGlassAgentTask_def Let_def lg_active_iff map_get_set split: prod.split)

text \<open>
  The two kinds of test exclude each other only when nothing happens during the wait: an iperf3
  server asked for meanwhile is started beside the network test.
\<close>

lemma network_test_beside_iperf3:
  assumes free: "\<not> hasActiveLookingGlassTask h lw" and idle: "map_get (ip_states iw) h = None"
  shows "network_test_check h iw = None \<and>
     hasActiveIperf3Task h (snd (iperf3Start now u h p lw iw)) \<and>
     lg_active (snd (network_test_start now' u' h input lw)) u' h"
proof -
  have "hasActiveIperf3Task h (snd (iperf3Start now u h p lw iw))"
    using free idle by (simp add: iperf3Start_def enqueueIperf3AgentTask_def ip_refusal_def Let_def
        hasActiveIperf3Task_def map_get_set new_ip_state_def ip_pending_def split: prod.split)
  moreover have "network_test_check h iw = None"
    using idle by (simp add: network_test_check_def hasActiveIperf3Task_def)
  ultimately show ?thesis using enqueue_activates [OF free] by (simp add: network_test_start_def)
qed

end
