(* ===== verification/Spec2Isabelle.thy ===== *)
theory Spec2Isabelle
  imports Port_Reservations Billing_Time Query_Cache Work_Pools Report_Gate Heartbeat_Gate Heartbeat_Plan Tunnel_Multi_Entry Fast_Liveness Auth_Rate_Limit Challenges Offline_Debouncer Health_Windows Evaluation_Queue
    Recheck_Scheduler Silence_Scheduler Rule_Quota Task_Lock Port_Occupancy Runtime_Recovery Group_Retirement Exit_Plan Link_Availability Rule_Task_Queue China_Health Group_Runtime Tunnel_Runtime Rule_Latency Hop_Tests Ip_Switch_Tasks Agent_Events Database_Health Panel_Clock Agent_Tests
begin

text \<open>
  Verification library of the panel server.

  The panel manages hosts, forwarding rules and tunnels. Agents on the hosts send heartbeats and
  reports, receive plans of what to run, and are judged to be online or offline; users create
  rules within quotas, on ports that policies allow; groups of hosts fail over from one member to
  another when health reports say so. This library models the parts of the TypeScript server that
  keep this state in memory and decide on it, each translated from its file under \<open>server\<close>,
  \<open>shared\<close> or, where the server shares it, \<open>client/src/lib\<close>.

  \<^bold>\<open>Conventions.\<close> \<open>Prelude\<close> models what the sources use of JavaScript: numbers (\<open>NaN\<close>, infinities and
  exact rationals), strings of Latin-1 characters, scalars of type \<open>unknown\<close> with the conversion
  \<open>Number(value)\<close>, maps in insertion order, sets. The clock and random numbers are arguments of the
  operations that read them. A class is a record and its methods are functions on it; what happens
  when a promise settles or a timer fires is an operation of its own, so that a sequence of
  operations is a schedule, and theorems about all sequences are theorems about all interleavings.
  An object that the code compares by identity has a number. \<open>Timers\<close> models \<open>setTimeout\<close> and
  \<open>clearTimeout\<close> with handles.

  \<^bold>\<open>Ports and rules.\<close> \<open>Port_Policy\<close> (\<open>portPolicy.ts\<close>) normalises, combines and searches the port
  policies of hosts and users; \<open>Port_Reservations\<close> (\<open>portReservations.ts\<close>) hands ports out,
  \<open>Port_Occupancy\<close> (\<open>portOccupancy.ts\<close>) reads what agents report as taken, \<open>Rule_Quota\<close>
  (\<open>ruleQuotaReservations.ts\<close>) counts the rules being created, \<open>Task_Lock\<close> (\<open>keyedTaskLock.ts\<close>) makes
  changes of one resource follow each other, and \<open>Rule_Task_Queue\<close> (\<open>ruleTaskQueue.ts\<close>) carries out
  batches of changes, jobs of users taking turns. \<open>Forward_Types\<close> has the protocols they share. The
  theorems state intersection and membership of policies, completeness of the search for a free
  port, exclusiveness of reservations, exact quotas, order and exclusion of the locks, and
  that no accepted batch is lost, repeated or left behind.

  \<^bold>\<open>Agents.\<close> \<open>Heartbeat_Gate\<close> and \<open>Heartbeat_Plan\<close> (\<open>agentHeartbeatGate.ts\<close>) admit heartbeats and
  remember plans that are still current; \<open>Fast_Liveness\<close> (\<open>agentFastLiveness.ts\<close>) and
  \<open>Offline_Debouncer\<close> (\<open>hostOfflineNotificationDebouncer.ts\<close>) decide when a silent host is offline and
  when that is told; \<open>Report_Gate\<close> (\<open>agentTcpingReportGate.ts\<close>) withholds unchanged reports;
  \<open>Runtime_Recovery\<close> (\<open>agentRuntimeRecovery.ts\<close>) runs one recovery of a host at a time and coalesces
  the others; \<open>Agent_Events\<close> (\<open>agentEvents.ts\<close>) is the stream of events to
  an agent, with its backlog; \<open>Agent_Versions\<close> (\<open>agentRouteUtils.ts\<close>) compares versions. The theorems state bounds, fairness and
  exclusion of the gate, that no host is declared offline early and every silent one in time,
  that nothing but repetitions is withheld, and that a recovery is only replaced by a successful one
  that is as strong.

  \<^bold>\<open>Failover and latency.\<close> \<open>Health_Windows\<close>, \<open>Evaluation_Queue\<close>, \<open>Recheck_Scheduler\<close> and
  \<open>Silence_Scheduler\<close> (all \<open>forwardGroupHealthRecheck.ts\<close>) decide when a group is looked at again;
  \<open>Tunnel_Auto_Latency\<close> (\<open>tunnelAutoLatencyState.ts\<close>) and \<open>Tunnel_Multi_Entry\<close>
  (\<open>tunnelMultiEntryLatencyState.ts\<close>) put the reports of hops together, \<open>Hop_Tests\<close> (\<open>hopTestState.ts\<close>) the results of the tests
  of a path; \<open>Agent_Tests\<close> (\<open>lookingGlassAgentTasks.ts\<close>, \<open>iperf3AgentTasks.ts\<close>) holds the network tests and
  iperf3 servers asked of agents; \<open>Rule_Latency\<close> (\<open>ruleLatency.ts\<close>, \<open>latencyProbe.ts\<close>) matches latency reports with what
  was asked for. \<open>Group_Retirement\<close>
  (\<open>forwardGroupRetirement.ts\<close>) keeps the rules of members that leave a group; \<open>Exit_Plan\<close>
  (\<open>exitStrategy.ts\<close>, \<open>tunnelRelay.ts\<close>, \<open>hostTrafficPolicy.ts\<close>, \<open>tunnelExitStrategy.ts\<close>,
  \<open>hostTrafficRuntimePlan.ts\<close>) plans exits and leaves out hosts that used up their traffic;
  \<open>Link_Availability\<close> (\<open>linkAvailability.ts\<close>, \<open>linkAvailabilitySummary.ts\<close>) tells which tunnels,
  groups and members can be used; \<open>China_Health\<close> (\<open>hostChinaHealth.ts\<close>, \<open>hostProbeHealth.ts\<close>) follows
  the health of a host and decides on a change of its address, which \<open>Ip_Switch_Tasks\<close>
  (\<open>agentIpSwitchTasks.ts\<close>, \<open>hostIpSwitchProvider.ts\<close>) has the host's agent ask for; \<open>Group_Runtime\<close>
  (\<open>forwardGroupRuntimeStatus.ts\<close>) and \<open>Tunnel_Runtime\<close> (\<open>tunnelRuntimeStatus.ts\<close>,
  \<open>tunnelRuntimePlan.ts\<close>) tell what runs and what should. The
  theorems state that no evaluation is lost, superseded ones do not run, deadlines are attended to,
  what an aggregate is of the reports it was made from, that rules are kept until old records have
  expired, that hosts that are left out take no part,
  that a link shows the panel's summary or else is available only when it is enabled, that the members it lists are up or healthy, that addresses are
  changed within their limits and a change is claimed once, that tasks are handed out once and tests end, and that a group or tunnel is shown as it runs.

  \<^bold>\<open>Sign-in and shared services.\<close> \<open>Auth_Rate_Limit\<close> (\<open>authRateLimit.ts\<close>), \<open>Challenges\<close>
  (\<open>agentAuthChallenge.ts\<close>, \<open>twoFactorChallenges.ts\<close>, \<open>twoFactorSetupChallenges.ts\<close>), on the bounded
  maps of \<open>Bounded_Cache\<close> (\<open>boundedCache.ts\<close>); \<open>Query_Cache\<close> (\<open>queryCache.ts\<close>) and \<open>Work_Pools\<close>
  (\<open>requestWorkPool.ts\<close>, \<open>keyedTaskDispatcher.ts\<close>) for concurrent work; \<open>Database_Health\<close>
  (\<open>databaseHealthState.ts\<close>, \<open>databaseHealthMonitor.ts\<close>) for outages of the database; \<open>Panel_Clock\<close> (\<open>panelClock.ts\<close>) for
  the correction of the panel's clock; \<open>Billing_Time\<close>
  (\<open>shared/billingTime.ts\<close>) for the calendar of billing periods. The theorems state that
  the limits lock out exactly after so many failures that follow each other, single use of challenges, the refinement of the cache to an
  unbounded table, conservation of calls and slots, that outages are told by known codes and kept until they are
  repaired, how far a clock corrected by a majority can be wrong, and the
  instants, around changes of the clocks too, the errors and the month arithmetic of the calendar.

  \<^bold>\<open>Interfaces.\<close> The locale \<open>bounded_put\<close> of \<open>Bounded_Cache\<close> is the contract of the bounded stores and
  is interpreted on both insertions of that file; \<open>host_queue\<close> of \<open>Agent_Tests\<close> is what a queue of tasks
  for each host promises, interpreted on the queues of both kinds of test; \<open>expiring_store\<close>
  (\<open>Challenges\<close>) and \<open>port_finder\<close> (\<open>Port_Reservations\<close>) are the contracts of the stores of challenges
  and of the search for a free port; the other components are composed directly, as
  the code composes them.

  \<^bold>\<open>Fuel and bounds.\<close> Loops over data are structural recursion or have a measure. The attempts of
  \<open>reserveAvailableHostPort\<close> and of \<open>billingDateTime\<close> are counted by the code itself; the theorems
  state that they suffice
  (for zones with at most two offsets in the day before the time asked for). Floating-point rounding is not modelled: times, ports, counters and
  identifiers stay within 53 bits.

  \<^bold>\<open>Not modelled.\<close> The database (schema, drivers, repositories and the SQL in them), the tRPC routers
  and HTTP handlers that call it, scripts and files for agents' machines, cryptography, the APIs of
  external services (bots, mail, payments, DNS, identity providers, AI models), plugins, the web
  client, and the parts written in Go: their meaning rests on code that is not in the repository,
  or they are display. \<open>PROJECT.json\<close> lists each part with the reason.
\<close>

end
